(* ===== verification/Myio_Prelude.thy ===== *)
theory Myio_Prelude
  imports Main "HOL-Library.Word" "HOL-Library.Multiset"
begin

text \<open>
  The vocabulary every component of the development shares: addresses and
  pointers, C's conversion to \<^verbatim>\<open>int\<close>, the error numbers the sources name, the
  collections of rewrite rules, and the generic facts on lists, maps and
  multisets that the component proofs use.
\<close>

named_theorems myio_defs \<open>unfolding rules of the small access operations of a state\<close>
named_theorems wq_rules \<open>what the queue operations do to the abstract FIFO\<close>
named_theorems dl_rules \<open>what linking and unlinking do to the abstract list\<close>

subsection \<open>Addresses, pointers, machine integers\<close>

text \<open>
  An object lives at an address; \<open>None\<close> is the null pointer. A data buffer is the
  list of its bytes. Integers of the C sources are kept as \<open>int\<close>; a conversion
  that can lose bits is written out (\<open>c_int\<close>).
\<close>

type_synonym addr = nat
type_synonym ptr = "addr option"
type_synonym byte = "8 word"

text \<open>C's \<^verbatim>\<open>(int)x\<close> for a 64-bit \<open>x\<close>: the low 32 bits, read in two's complement.\<close>

definition c_int :: "int \<Rightarrow> int" where
  "c_int x = signed_take_bit 31 x"

lemma c_int_id: "- (2 ^ 31) \<le> x \<Longrightarrow> x < 2 ^ 31 \<Longrightarrow> c_int x = x"
  unfolding c_int_def by (rule signed_take_bit_int_eq_self)

lemma c_int_range: "- (2 ^ 31) \<le> c_int x \<and> c_int x < 2 ^ 31"
  using signed_take_bit_int_greater_eq_minus_exp [of 31 x] signed_take_bit_int_less_exp [of 31 x]
  by (simp add: c_int_def)

lemma c_int_numeral [simp]: "c_int 0 = 0"
  by (simp add: c_int_def)

subsection \<open>The error numbers the sources name (Linux values)\<close>

definition EINTR :: int where "EINTR = 4"
definition EBADF :: int where "EBADF = 9"
definition EAGAIN :: int where "EAGAIN = 11"
definition ENOMEM :: int where "ENOMEM = 12"
definition EBUSY :: int where "EBUSY = 16"
definition EINVAL :: int where "EINVAL = 22"
definition EMFILE :: int where "EMFILE = 24"
definition EDEADLK :: int where "EDEADLK = 35"
definition ENOSYS :: int where "ENOSYS = 38"
definition ETIME :: int where "ETIME = 62"
definition ECONNREFUSED :: int where "ECONNREFUSED = 111"
definition EINPROGRESS :: int where "EINPROGRESS = 115"
definition ECANCELED :: int where "ECANCELED = 125"
definition EAI_SYSTEM :: int where "EAI_SYSTEM = - 11"

lemmas errno_defs = EINTR_def EAGAIN_def ENOMEM_def EBUSY_def EINVAL_def EDEADLK_def
  ETIME_def ECONNREFUSED_def ECANCELED_def EAI_SYSTEM_def EBADF_def EMFILE_def ENOSYS_def EINPROGRESS_def

subsection \<open>Lists, maps, multisets\<close>

lemma remove1_middle: "x \<notin> set as \<Longrightarrow> remove1 x (as @ x # bs) = as @ bs"
  by (simp add: remove1_append)

lemma distinct_hd_tl: "distinct xs \<Longrightarrow> xs \<noteq> [] \<Longrightarrow> hd xs \<notin> set (tl xs)"
  by (cases xs) auto

lemma last_remove1:
  "distinct xs \<Longrightarrow> x \<noteq> last xs \<Longrightarrow> xs \<noteq> [] \<Longrightarrow> last (remove1 x xs) = last xs \<and> remove1 x xs \<noteq> []"
  by (induction xs) (auto split: if_splits)

lemma set_tl_distinct: "distinct xs \<Longrightarrow> xs \<noteq> [] \<Longrightarrow> set (tl xs) = set xs - {hd xs}"
  by (cases xs) auto

lemma count_le_one_remove: "count M x = 1 \<Longrightarrow> x \<notin># M - {#x#}"
  by (simp add: not_in_iff)

end
