(* ===== verification/Myio_Os.thy ===== *)
theory Myio_Os
  imports Myio_Prelude
begin

text \<open>
  The boundary of the program: what the sources call but do not contain. System
  calls, the C library's allocator and resolver, liburing, libuv, the Zephyr kernel and the
  user function of \<^verbatim>\<open>myio_spawn\<close> are calls answered by an environment \<open>os\<close>, a parameter of every
  definition that makes one. The answer may depend on everything that was called
  before (the trace), so nothing is assumed of the environment unless a theorem
  names it. The trace is kept in the machine state that every backend extends.
\<close>

subsection \<open>Addresses of the network layer\<close>

record sockaddr =
  ss_family :: int
  ss_port :: "16 word"
  ss_addr :: string

record addrinfo =
  ai_family :: int
  ai_socktype :: int
  ai_protocol :: int
  ai_addr :: sockaddr

definition AF_UNSPEC :: int where "AF_UNSPEC = 0"
definition AF_INET :: int where "AF_INET = 2"
definition AF_INET6 :: int where "AF_INET6 = 10"
definition SOCK_STREAM :: int where "SOCK_STREAM = 1"

lemmas net_defs = AF_UNSPEC_def AF_INET_def AF_INET6_def SOCK_STREAM_def

text \<open>\<^verbatim>\<open>htons\<close> and \<^verbatim>\<open>ntohs\<close> on a little-endian machine: the two bytes swap.\<close>

definition htons :: "16 word \<Rightarrow> 16 word" where
  "htons w = or (push_bit 8 w) (drop_bit 8 w)"

definition ntohs :: "16 word \<Rightarrow> 16 word" where
  "ntohs w = htons w"

lemma ntohs_htons [simp]: "ntohs (htons w) = w"
  by (rule bit_word_eqI)
    (auto simp: ntohs_def htons_def bit_or_iff bit_push_bit_iff bit_drop_bit_eq)

subsection \<open>Calls and answers\<close>

text \<open>The requests of liburing's submission queue; \<open>Ud_task\<close> carries the task, \<open>Ud_cancel\<close> is \<^verbatim>\<open>CANCEL_UDATA\<close>.\<close>

datatype udata = Ud_task addr | Ud_cancel

datatype sqe =
    Sqe_openat string int int
  | Sqe_close int
  | Sqe_read int addr nat int
  | Sqe_write int "byte list" int
  | Sqe_timeout int int
  | Sqe_connect int sockaddr
  | Sqe_accept int
  | Sqe_recv int addr nat
  | Sqe_send int "byte list"
  | Sqe_cancel addr
  | Sqe_timeout_remove addr

text \<open>
  libuv's handles and its callbacks; a handle or a request is named by the object
  that contains it. While the loop runs, each answer to \<open>Uv_run\<close> is the next
  callback, with its status where it has one; the last answer says that the run is over.
\<close>

datatype uv_handle = H_timer addr | H_tcp addr

datatype uv_cb =
    Cb_fs addr int
  | Cb_timer addr
  | Cb_work addr
  | Cb_after_work addr int
  | Cb_getaddrinfo addr int
  | Cb_connect addr int
  | Cb_connection addr int
  | Cb_alloc addr
  | Cb_read addr int
  | Cb_write addr int
  | Cb_close uv_handle

datatype uv_run_mode = UV_RUN_DEFAULT | UV_RUN_ONCE

datatype ring_call =
    R_get_sqe
  | R_ring_submit
  | R_sqe sqe udata
  | R_submit_and_wait
  | R_peek_cqe
  | R_queue_init
  | R_queue_exit

datatype thread_call =
    T_clock
  | T_ppoll int "(int \<times> int) option"
  | T_mutex_init
  | T_condattr_init
  | T_condattr_setclock
  | T_cond_init
  | T_cond_signal
  | T_attr_init
  | T_thread_create
  | T_thread_kill nat

datatype zephyr_call =
    Z_fcntl_getfl int
  | Z_fcntl_setfl int int
  | Z_getsockopt_error int
  | Z_fs_open nat string int
  | Z_fs_close nat
  | Z_fs_tell nat
  | Z_fs_seek nat int
  | Z_fs_read nat addr nat
  | Z_fs_write nat "byte list"
  | Z_uptime
  | Z_poll "(int \<times> int) list" int
  | Z_eventfd
  | Z_eventfd_read int
  | Z_eventfd_write int
  | Z_work_queue_start
  | Z_work_submit addr
  | Z_work_cancel addr
  | Z_work_turn
  | Z_work_busy addr
  | Z_work_flush addr

datatype uv_call =
    Uv_loop_init
  | Uv_loop_close
  | Uv_run uv_run_mode
  | Uv_walk
  | Uv_close uv_handle
  | Uv_is_closing uv_handle
  | Uv_cancel addr
  | Uv_fs_open addr string int int
  | Uv_fs_close addr int
  | Uv_fs_read addr int addr nat int
  | Uv_fs_write addr int "byte list" int
  | Uv_timer_init addr
  | Uv_timer_start addr nat
  | Uv_timer_stop addr
  | Uv_queue_work addr
  | Uv_tcp_init addr
  | Uv_getaddrinfo addr string string
  | Uv_freeaddrinfo
  | Uv_tcp_connect addr addr sockaddr
  | Uv_ip4_addr string int
  | Uv_ip6_addr string int
  | Uv_tcp_bind addr sockaddr
  | Uv_listen addr int
  | Uv_accept addr addr
  | Uv_read_start addr
  | Uv_read_stop addr
  | Uv_read_buf addr "(addr \<times> nat) option"
  | Uv_write addr addr "byte list"
  | Uv_tcp_getsockname addr
  | Uv_strerror int

datatype call =
    C_alloc
  | C_strdup string
  | C_open string int int
  | C_close int
  | C_read int addr nat
  | C_pread int addr nat int
  | C_write int "byte list"
  | C_pwrite int "byte list" int
  | C_nanosleep int int
  | C_fn addr addr
  | C_getaddrinfo string string bool
  | C_socket int int int
  | C_connect int sockaddr
  | C_setsockopt int
  | C_bind int sockaddr
  | C_listen int int
  | C_accept int
  | C_recv int addr nat
  | C_send int "byte list"
  | C_shutdown int
  | C_getsockname int
  | C_inet_pton int string
  | C_strerror int
  | C_gai_strerror int
  | C_ring ring_call
  | C_thread thread_call
  | C_zephyr zephyr_call
  | C_uv uv_call

text \<open>The calls of a group by their own names.\<close>

abbreviation C_get_sqe :: "call" where "C_get_sqe \<equiv> C_ring R_get_sqe"
abbreviation C_ring_submit :: "call" where "C_ring_submit \<equiv> C_ring R_ring_submit"
abbreviation C_sqe :: "sqe \<Rightarrow> udata \<Rightarrow> call" where "C_sqe a b \<equiv> C_ring (R_sqe a b)"
abbreviation C_submit_and_wait :: "call" where "C_submit_and_wait \<equiv> C_ring R_submit_and_wait"
abbreviation C_peek_cqe :: "call" where "C_peek_cqe \<equiv> C_ring R_peek_cqe"
abbreviation C_queue_init :: "call" where "C_queue_init \<equiv> C_ring R_queue_init"
abbreviation C_queue_exit :: "call" where "C_queue_exit \<equiv> C_ring R_queue_exit"
abbreviation C_clock :: "call" where "C_clock \<equiv> C_thread T_clock"
abbreviation C_ppoll :: "int \<Rightarrow> (int \<times> int) option \<Rightarrow> call" where "C_ppoll a b \<equiv> C_thread (T_ppoll a b)"
abbreviation C_mutex_init :: "call" where "C_mutex_init \<equiv> C_thread T_mutex_init"
abbreviation C_condattr_init :: "call" where "C_condattr_init \<equiv> C_thread T_condattr_init"
abbreviation C_condattr_setclock :: "call" where "C_condattr_setclock \<equiv> C_thread T_condattr_setclock"
abbreviation C_cond_init :: "call" where "C_cond_init \<equiv> C_thread T_cond_init"
abbreviation C_cond_signal :: "call" where "C_cond_signal \<equiv> C_thread T_cond_signal"
abbreviation C_attr_init :: "call" where "C_attr_init \<equiv> C_thread T_attr_init"
abbreviation C_thread_create :: "call" where "C_thread_create \<equiv> C_thread T_thread_create"
abbreviation C_thread_kill :: "nat \<Rightarrow> call" where "C_thread_kill a \<equiv> C_thread (T_thread_kill a)"
abbreviation C_fcntl_getfl :: "int \<Rightarrow> call" where "C_fcntl_getfl a \<equiv> C_zephyr (Z_fcntl_getfl a)"
abbreviation C_fcntl_setfl :: "int \<Rightarrow> int \<Rightarrow> call" where "C_fcntl_setfl a b \<equiv> C_zephyr (Z_fcntl_setfl a b)"
abbreviation C_getsockopt_error :: "int \<Rightarrow> call" where "C_getsockopt_error a \<equiv> C_zephyr (Z_getsockopt_error a)"
abbreviation C_fs_open :: "nat \<Rightarrow> string \<Rightarrow> int \<Rightarrow> call" where "C_fs_open a b c \<equiv> C_zephyr (Z_fs_open a b c)"
abbreviation C_fs_close :: "nat \<Rightarrow> call" where "C_fs_close a \<equiv> C_zephyr (Z_fs_close a)"
abbreviation C_fs_tell :: "nat \<Rightarrow> call" where "C_fs_tell a \<equiv> C_zephyr (Z_fs_tell a)"
abbreviation C_fs_seek :: "nat \<Rightarrow> int \<Rightarrow> call" where "C_fs_seek a b \<equiv> C_zephyr (Z_fs_seek a b)"
abbreviation C_fs_read :: "nat \<Rightarrow> addr \<Rightarrow> nat \<Rightarrow> call" where "C_fs_read a b c \<equiv> C_zephyr (Z_fs_read a b c)"
abbreviation C_fs_write :: "nat \<Rightarrow> byte list \<Rightarrow> call" where "C_fs_write a b \<equiv> C_zephyr (Z_fs_write a b)"
abbreviation C_uptime :: "call" where "C_uptime \<equiv> C_zephyr Z_uptime"
abbreviation C_poll :: "(int \<times> int) list \<Rightarrow> int \<Rightarrow> call" where "C_poll a b \<equiv> C_zephyr (Z_poll a b)"
abbreviation C_eventfd :: "call" where "C_eventfd \<equiv> C_zephyr Z_eventfd"
abbreviation C_eventfd_read :: "int \<Rightarrow> call" where "C_eventfd_read a \<equiv> C_zephyr (Z_eventfd_read a)"
abbreviation C_eventfd_write :: "int \<Rightarrow> call" where "C_eventfd_write a \<equiv> C_zephyr (Z_eventfd_write a)"
abbreviation C_work_queue_start :: "call" where "C_work_queue_start \<equiv> C_zephyr Z_work_queue_start"
abbreviation C_work_submit :: "addr \<Rightarrow> call" where "C_work_submit a \<equiv> C_zephyr (Z_work_submit a)"
abbreviation C_work_cancel :: "addr \<Rightarrow> call" where "C_work_cancel a \<equiv> C_zephyr (Z_work_cancel a)"
abbreviation C_work_turn :: "call" where "C_work_turn \<equiv> C_zephyr Z_work_turn"
abbreviation C_work_busy :: "addr \<Rightarrow> call" where "C_work_busy a \<equiv> C_zephyr (Z_work_busy a)"
abbreviation C_work_flush :: "addr \<Rightarrow> call" where "C_work_flush a \<equiv> C_zephyr (Z_work_flush a)"

record answer =
  a_ret :: int
  a_errno :: int
  a_addrs :: "addrinfo list"
  a_addr :: sockaddr
  a_str :: string
  a_rem :: "int \<times> int"
  a_cqe :: "(udata \<times> int) option"
  a_revents :: "bool list"
  a_cb :: "uv_cb option"
  a_handles :: "uv_handle list"

type_synonym event = "call \<times> answer"
type_synonym os = "event list \<Rightarrow> call \<Rightarrow> answer"

definition answer0 :: answer where
  "answer0 = \<lparr>a_ret = 0, a_errno = 0, a_addrs = [],
     a_addr = \<lparr>ss_family = 0, ss_port = 0, ss_addr = []\<rparr>, a_str = [], a_rem = (0, 0), a_cqe = None, a_revents = [],
     a_cb = None, a_handles = []\<rparr>"

subsection \<open>The machine state\<close>

text \<open>
  \<open>m_trace\<close> holds the calls made so far with their answers, the latest first.
  \<open>m_brk\<close> is the next unused address: allocation yields an address that no live
  object has. \<open>m_fault\<close> records that the program did something C leaves undefined
  (a null or dangling dereference, a double free, an endless walk over a cyclic
  list); it is never reset.
\<close>

record mach =
  m_trace :: "event list"
  m_brk :: addr
  m_fault :: bool

definition sys_call :: "os \<Rightarrow> call \<Rightarrow> 'a mach_scheme \<Rightarrow> answer \<times> 'a mach_scheme" where
  "sys_call os c s = (let a = os (m_trace s) c in (a, s\<lparr>m_trace := (c, a) # m_trace s\<rparr>))"

text \<open>\<^verbatim>\<open>malloc\<close>/\<^verbatim>\<open>calloc\<close>: a null pointer when the answer is 0, else a fresh address.\<close>

definition sys_alloc :: "os \<Rightarrow> 'a mach_scheme \<Rightarrow> ptr \<times> 'a mach_scheme" where
  "sys_alloc os s =
     (let (a, s) = sys_call os C_alloc s in
      if a_ret a = 0 then (None, s)
      else (Some (m_brk s), s\<lparr>m_brk := Suc (m_brk s)\<rparr>))"

definition m_flag :: "'a mach_scheme \<Rightarrow> 'a mach_scheme" where
  "m_flag s = s\<lparr>m_fault := True\<rparr>"

lemma sys_call_fst: "fst (sys_call os c s) = os (m_trace s) c"
  by (simp add: sys_call_def Let_def)

lemma sys_call_simps [simp]:
  "m_trace (snd (sys_call os c s)) = (c, os (m_trace s) c) # m_trace s"
  "m_brk (snd (sys_call os c s)) = m_brk s"
  "m_fault (snd (sys_call os c s)) = m_fault s"
  "mach.more (snd (sys_call os c s)) = mach.more s"
  by (simp_all add: sys_call_def Let_def)

subsection \<open>Accounting of file descriptors\<close>

text \<open>
  The descriptors the environment handed out and those given back, read off the
  trace: what is outstanding between two states is what was neither closed nor
  returned.
\<close>

fun ev_opens :: "event \<Rightarrow> int multiset" where
  "ev_opens (C_open p f m, a) = (if a_ret a \<ge> 0 then {#a_ret a#} else {#})"
| "ev_opens (C_socket d t p, a) = (if a_ret a \<ge> 0 then {#a_ret a#} else {#})"
| "ev_opens (C_accept f, a) = (if a_ret a \<ge> 0 then {#a_ret a#} else {#})"
| "ev_opens _ = {#}"

fun ev_closes :: "event \<Rightarrow> int multiset" where
  "ev_closes (C_close f, a) = {#f#}"
| "ev_closes _ = {#}"

definition opened :: "event list \<Rightarrow> int multiset" where
  "opened tr = (\<Sum>e \<in># mset tr. ev_opens e)"

definition closed :: "event list \<Rightarrow> int multiset" where
  "closed tr = (\<Sum>e \<in># mset tr. ev_closes e)"

lemma opened_simps [simp]: "opened [] = {#}" "opened (e # tr) = ev_opens e + opened tr"
  by (simp_all add: opened_def)

lemma closed_simps [simp]: "closed [] = {#}" "closed (e # tr) = ev_closes e + closed tr"
  by (simp_all add: closed_def)

text \<open>Between two traces exactly the descriptors \<open>fds\<close> were gained.\<close>

definition fds_gained :: "event list \<Rightarrow> event list \<Rightarrow> int multiset \<Rightarrow> bool" where
  "fds_gained tr tr' fds \<longleftrightarrow> opened tr' + closed tr = opened tr + closed tr' + fds"

lemma fds_gained_refl: "fds_gained tr tr {#}"
  by (simp add: fds_gained_def)

lemma fds_gained_trans:
  assumes "fds_gained a b x" and "fds_gained b c y"
  shows "fds_gained a c (x + y)"
proof -
  have "count (opened c + closed a) n = count (opened a + closed c + (x + y)) n" for n
  proof -
    have "count (opened b + closed a) n = count (opened a + closed b + x) n"
      and "count (opened c + closed b) n = count (opened b + closed c + y) n"
      using assms by (simp_all add: fds_gained_def)
    then show ?thesis by simp
  qed
  then show ?thesis unfolding fds_gained_def by (rule multiset_eqI)
qed

end
