(* ===== verification/Myio_Api.thy ===== *)
theory Myio_Api
  imports Myio_Os
begin

text \<open>
  The public interface, \<^verbatim>\<open>src/include/myio.h\<close>: results and statuses, the
  capability bits, the backend vtable \<open>myio_ops\<close> and the inline functions that the
  header implements once for every backend, in particular the blocking loops
  \<open>myio_await\<close> and \<open>myio_select\<close>. A vtable entry that may block is a partial
  operation: \<open>None\<close> is a call that never returns. What the header demands of a
  backend is the locale \<open>backend\<close>; the guarantees of the inline functions are
  proved once inside it and its extensions, and every backend theory interprets
  them on its own vtable.
\<close>

subsection \<open>Results\<close>

datatype myio_status = MYIO_PENDING | MYIO_OK | MYIO_ERROR | MYIO_CANCELED

record myio_result =
  res_status :: myio_status
  res_value :: int
  res_error :: int
  res_ptr :: ptr

definition MYIO_NO_OFFSET :: int where "MYIO_NO_OFFSET = - 1"

definition mk_result :: "myio_status \<Rightarrow> int \<Rightarrow> int \<Rightarrow> ptr \<Rightarrow> myio_result" where
  "mk_result st v e p = \<lparr>res_status = st, res_value = v, res_error = e, res_ptr = p\<rparr>"

lemma mk_result_simps [simp]:
  "res_status (mk_result st v e p) = st" "res_value (mk_result st v e p) = v"
  "res_error (mk_result st v e p) = e" "res_ptr (mk_result st v e p) = p"
  by (simp_all add: mk_result_def)

text \<open>The result of a task from \<^verbatim>\<open>calloc\<close>: pending, all else zero.\<close>

definition result0 :: myio_result where
  "result0 = mk_result MYIO_PENDING 0 0 None"

definition myio_ok :: "myio_result \<Rightarrow> bool" where
  "myio_ok r \<longleftrightarrow> res_status r = MYIO_OK"

fun myio_status_str :: "myio_status \<Rightarrow> string" where
  "myio_status_str MYIO_PENDING = ''pending''"
| "myio_status_str MYIO_OK = ''ok''"
| "myio_status_str MYIO_ERROR = ''error''"
| "myio_status_str MYIO_CANCELED = ''canceled''"

subsection \<open>Capabilities\<close>

definition MYIO_CAP_CONCURRENT_WAIT :: "32 word" where "MYIO_CAP_CONCURRENT_WAIT = push_bit 0 1"
definition MYIO_CAP_NONBLOCKING_SUBMIT :: "32 word" where "MYIO_CAP_NONBLOCKING_SUBMIT = push_bit 1 1"
definition MYIO_CAP_CANCEL_FILE :: "32 word" where "MYIO_CAP_CANCEL_FILE = push_bit 2 1"
definition MYIO_CAP_ASYNC_SPAWN :: "32 word" where "MYIO_CAP_ASYNC_SPAWN = push_bit 3 1"

lemmas cap_defs = MYIO_CAP_CONCURRENT_WAIT_def MYIO_CAP_NONBLOCKING_SUBMIT_def
  MYIO_CAP_CANCEL_FILE_def MYIO_CAP_ASYNC_SPAWN_def

subsection \<open>The vtable\<close>

text \<open>
  Task and socket handles are addresses, a null handle is \<open>None\<close>. \<open>ops_tcp_listen\<close>
  also yields what it stored through \<^verbatim>\<open>err\<close> (\<open>None\<close>: nothing).
\<close>

record 'st myio_ops =
  ops_open :: "'st \<Rightarrow> string \<Rightarrow> int \<Rightarrow> int \<Rightarrow> (ptr \<times> 'st) option"
  ops_close :: "'st \<Rightarrow> int \<Rightarrow> (ptr \<times> 'st) option"
  ops_read :: "'st \<Rightarrow> int \<Rightarrow> addr \<Rightarrow> nat \<Rightarrow> int \<Rightarrow> (ptr \<times> 'st) option"
  ops_write :: "'st \<Rightarrow> int \<Rightarrow> byte list \<Rightarrow> int \<Rightarrow> (ptr \<times> 'st) option"
  ops_sleep :: "'st \<Rightarrow> nat \<Rightarrow> (ptr \<times> 'st) option"
  ops_spawn :: "'st \<Rightarrow> addr \<Rightarrow> addr \<Rightarrow> (ptr \<times> 'st) option"
  ops_tcp_connect :: "'st \<Rightarrow> string \<Rightarrow> int \<Rightarrow> (ptr \<times> 'st) option"
  ops_tcp_listen :: "'st \<Rightarrow> string \<Rightarrow> int \<Rightarrow> int \<Rightarrow> (ptr \<times> int option \<times> 'st) option"
  ops_tcp_accept :: "'st \<Rightarrow> addr \<Rightarrow> (ptr \<times> 'st) option"
  ops_sock_read :: "'st \<Rightarrow> addr \<Rightarrow> addr \<Rightarrow> nat \<Rightarrow> (ptr \<times> 'st) option"
  ops_sock_write :: "'st \<Rightarrow> addr \<Rightarrow> byte list \<Rightarrow> (ptr \<times> 'st) option"
  ops_sock_close :: "'st \<Rightarrow> addr \<Rightarrow> (ptr \<times> 'st) option"
  ops_sock_port :: "'st \<Rightarrow> addr \<Rightarrow> int \<times> 'st"
  ops_step :: "'st \<Rightarrow> (bool \<times> 'st) option"
  ops_cancel :: "'st \<Rightarrow> addr \<Rightarrow> (int \<times> 'st) option"
  ops_task_result :: "'st \<Rightarrow> addr \<Rightarrow> myio_result"
  ops_error_str :: "'st \<Rightarrow> int \<Rightarrow> string \<times> 'st"
  ops_caps :: "'st \<Rightarrow> 32 word"
  ops_task_done :: "'st \<Rightarrow> addr \<Rightarrow> bool"
  ops_task_free :: "'st \<Rightarrow> addr \<Rightarrow> 'st option"
  ops_task_detach :: "'st \<Rightarrow> addr \<Rightarrow> 'st"
  ops_destroy :: "'st \<Rightarrow> 'st option"

subsection \<open>The thin wrappers\<close>

text \<open>Programs call these; each goes straight to the instance's vtable.\<close>

definition myio_open :: "'st myio_ops \<Rightarrow> 'st \<Rightarrow> string \<Rightarrow> int \<Rightarrow> int \<Rightarrow> (ptr \<times> 'st) option" where
  "myio_open ops io path flags mode = ops_open ops io path flags mode"

definition myio_close :: "'st myio_ops \<Rightarrow> 'st \<Rightarrow> int \<Rightarrow> (ptr \<times> 'st) option" where
  "myio_close ops io fd = ops_close ops io fd"

definition myio_read :: "'st myio_ops \<Rightarrow> 'st \<Rightarrow> int \<Rightarrow> addr \<Rightarrow> nat \<Rightarrow> int \<Rightarrow> (ptr \<times> 'st) option" where
  "myio_read ops io fd buf len offset = ops_read ops io fd buf len offset"

definition myio_write :: "'st myio_ops \<Rightarrow> 'st \<Rightarrow> int \<Rightarrow> byte list \<Rightarrow> int \<Rightarrow> (ptr \<times> 'st) option" where
  "myio_write ops io fd buf offset = ops_write ops io fd buf offset"

definition myio_sleep :: "'st myio_ops \<Rightarrow> 'st \<Rightarrow> nat \<Rightarrow> (ptr \<times> 'st) option" where
  "myio_sleep ops io ms = ops_sleep ops io ms"

definition myio_spawn :: "'st myio_ops \<Rightarrow> 'st \<Rightarrow> addr \<Rightarrow> addr \<Rightarrow> (ptr \<times> 'st) option" where
  "myio_spawn ops io fn arg = ops_spawn ops io fn arg"

definition myio_tcp_connect :: "'st myio_ops \<Rightarrow> 'st \<Rightarrow> string \<Rightarrow> int \<Rightarrow> (ptr \<times> 'st) option" where
  "myio_tcp_connect ops io host port = ops_tcp_connect ops io host port"

definition myio_tcp_listen ::
  "'st myio_ops \<Rightarrow> 'st \<Rightarrow> string \<Rightarrow> int \<Rightarrow> int \<Rightarrow> (ptr \<times> int option \<times> 'st) option" where
  "myio_tcp_listen ops io host port backlog = ops_tcp_listen ops io host port backlog"

definition myio_tcp_accept :: "'st myio_ops \<Rightarrow> 'st \<Rightarrow> addr \<Rightarrow> (ptr \<times> 'st) option" where
  "myio_tcp_accept ops io listener = ops_tcp_accept ops io listener"

definition myio_sock_read :: "'st myio_ops \<Rightarrow> 'st \<Rightarrow> addr \<Rightarrow> addr \<Rightarrow> nat \<Rightarrow> (ptr \<times> 'st) option" where
  "myio_sock_read ops io sock buf len = ops_sock_read ops io sock buf len"

definition myio_sock_write :: "'st myio_ops \<Rightarrow> 'st \<Rightarrow> addr \<Rightarrow> byte list \<Rightarrow> (ptr \<times> 'st) option" where
  "myio_sock_write ops io sock buf = ops_sock_write ops io sock buf"

definition myio_sock_close :: "'st myio_ops \<Rightarrow> 'st \<Rightarrow> addr \<Rightarrow> (ptr \<times> 'st) option" where
  "myio_sock_close ops io sock = ops_sock_close ops io sock"

definition myio_sock_port :: "'st myio_ops \<Rightarrow> 'st \<Rightarrow> addr \<Rightarrow> int \<times> 'st" where
  "myio_sock_port ops io sock = ops_sock_port ops io sock"

definition myio_cancel :: "'st myio_ops \<Rightarrow> 'st \<Rightarrow> addr \<Rightarrow> (int \<times> 'st) option" where
  "myio_cancel ops io task = ops_cancel ops io task"

definition myio_strerror :: "'st myio_ops \<Rightarrow> 'st \<Rightarrow> int \<Rightarrow> string \<times> 'st" where
  "myio_strerror ops io error = ops_error_str ops io error"

definition myio_caps :: "'st myio_ops \<Rightarrow> 'st \<Rightarrow> 32 word" where
  "myio_caps ops io = ops_caps ops io"

definition myio_task_done :: "'st myio_ops \<Rightarrow> 'st \<Rightarrow> addr \<Rightarrow> bool" where
  "myio_task_done ops io task = ops_task_done ops io task"

definition myio_destroy :: "'st myio_ops \<Rightarrow> 'st \<Rightarrow> 'st option" where
  "myio_destroy ops io = ops_destroy ops io"

subsection \<open>The inline functions\<close>

partial_function (option) myio_await ::
  "'st myio_ops \<Rightarrow> 'st \<Rightarrow> addr \<Rightarrow> (myio_result \<times> 'st) option" where
  "myio_await ops io task =
     (if ops_task_done ops io task then Some (ops_task_result ops io task, io)
      else Option.bind (ops_step ops io) (\<lambda>(progress, io).
        if \<not> progress then Some (mk_result MYIO_ERROR 0 EDEADLK None, io)
        else myio_await ops io task))"

text \<open>
  One scan over the slots: whether any was non-null, and the first completed one
  (the C loop returns from inside, so the rest of the array is not looked at).
\<close>

fun select_scan :: "'st myio_ops \<Rightarrow> 'st \<Rightarrow> ptr list \<Rightarrow> nat \<Rightarrow> bool \<Rightarrow> nat option \<times> bool" where
  "select_scan ops io [] i any = (None, any)"
| "select_scan ops io (None # ts) i any = select_scan ops io ts (Suc i) any"
| "select_scan ops io (Some t # ts) i any =
     (if ops_task_done ops io t then (Some i, True)
      else select_scan ops io ts (Suc i) True)"

partial_function (option) myio_select ::
  "'st myio_ops \<Rightarrow> 'st \<Rightarrow> ptr list \<Rightarrow> (int \<times> 'st) option" where
  "myio_select ops io tasks =
     (case select_scan ops io tasks 0 False of
        (Some i, any) \<Rightarrow> Some (int i, io)
      | (None, any) \<Rightarrow>
          if \<not> any then Some (- 1, io)
          else Option.bind (ops_step ops io) (\<lambda>(progress, io).
            if \<not> progress then Some (- 1, io)
            else myio_select ops io tasks))"

definition myio_task_free :: "'st myio_ops \<Rightarrow> 'st \<Rightarrow> ptr \<Rightarrow> 'st option" where
  "myio_task_free ops io task =
     (case task of None \<Rightarrow> Some io | Some t \<Rightarrow> ops_task_free ops io t)"

definition myio_task_detach :: "'st myio_ops \<Rightarrow> 'st \<Rightarrow> ptr \<Rightarrow> 'st" where
  "myio_task_detach ops io task =
     (case task of None \<Rightarrow> io | Some t \<Rightarrow> ops_task_detach ops io t)"

definition myio_join :: "'st myio_ops \<Rightarrow> 'st \<Rightarrow> ptr \<Rightarrow> (myio_result \<times> 'st) option" where
  "myio_join ops io task =
     (case task of
        None \<Rightarrow> Some (mk_result MYIO_ERROR 0 ENOMEM None, io)
      | Some t \<Rightarrow>
          Option.bind (myio_await ops io t) (\<lambda>(r, io).
            map_option (\<lambda>io. (r, io)) (ops_task_free ops io t)))"

fun myio_await_all :: "'st myio_ops \<Rightarrow> 'st \<Rightarrow> ptr list \<Rightarrow> int \<Rightarrow> (int \<times> 'st) option" where
  "myio_await_all ops io [] rc = Some (rc, io)"
| "myio_await_all ops io (None # ts) rc = myio_await_all ops io ts (- 1)"
| "myio_await_all ops io (Some t # ts) rc =
     (case myio_await ops io t of
        None \<Rightarrow> None
      | Some (r, io) \<Rightarrow>
          myio_await_all ops io ts (if res_status r \<noteq> MYIO_OK then - 1 else rc))"

definition myio_task_drop :: "'st myio_ops \<Rightarrow> 'st \<Rightarrow> ptr \<Rightarrow> 'st option" where
  "myio_task_drop ops io task =
     (case task of
        None \<Rightarrow> Some io
      | Some t \<Rightarrow>
          map_option (\<lambda>(rc, io). ops_task_detach ops io t) (ops_cancel ops io t))"

definition myio_await_timeout ::
  "'st myio_ops \<Rightarrow> 'st \<Rightarrow> ptr \<Rightarrow> nat \<Rightarrow> (myio_result \<times> 'st) option" where
  "myio_await_timeout ops io task ms =
     (case task of
        None \<Rightarrow> Some (mk_result MYIO_ERROR 0 ENOMEM None, io)
      | Some t \<Rightarrow>
          if ops_task_done ops io t then myio_await ops io t
          else
            Option.bind (ops_sleep ops io ms) (\<lambda>(timer, io).
              case timer of
                None \<Rightarrow> myio_await ops io t
              | Some tm \<Rightarrow>
                  Option.bind (myio_select ops io [Some t, Some tm]) (\<lambda>(i, io).
                    if \<not> ops_task_done ops io t then
                      map_option (\<lambda>io. (mk_result MYIO_PENDING 0 0 None, io))
                        (myio_task_free ops io (Some tm))
                    else
                      Option.bind (myio_task_drop ops io (Some tm)) (\<lambda>io.
                        myio_await ops io t))))"

subsection \<open>The contract of a backend\<close>

text \<open>
  \<open>evolves\<close>: a call may let other operations make progress, but it keeps the
  backend's invariant, every handle the caller owns (save those in \<open>S\<close>, which it
  consumes), the result of every completed task, and whether a handle may be given
  to \<open>myio_task_detach\<close>.
\<close>

definition evolves ::
  "'st myio_ops \<Rightarrow> ('st \<Rightarrow> bool) \<Rightarrow> ('st \<Rightarrow> addr set) \<Rightarrow> ('st \<Rightarrow> addr \<Rightarrow> bool) \<Rightarrow>
     'st \<Rightarrow> addr set \<Rightarrow> 'st \<Rightarrow> bool" where
  "evolves ops invar handles droppable st S st' \<longleftrightarrow>
     invar st' \<and>
     (\<forall>t \<in> handles st - S. t \<in> handles st' \<and>
        (ops_task_done ops st t \<longrightarrow> ops_task_result ops st' t = ops_task_result ops st t) \<and>
        (droppable st t \<longrightarrow> droppable st' t))"

text \<open>
  What \<^verbatim>\<open>myio.h\<close> asks of the primitives: \<open>task_done\<close> agrees with \<open>task_result\<close>; no call
  revokes a completed result; \<open>step\<close> returns 0 only from a call during which no task
  completed; \<open>cancel\<close> answers 0 or -1; \<open>task_free\<close> and \<open>task_detach\<close> consume one
  handle.
\<close>

locale backend =
  fixes ops :: "'st myio_ops"
    and invar :: "'st \<Rightarrow> bool"
    and handles :: "'st \<Rightarrow> addr set"
    and droppable :: "'st \<Rightarrow> addr \<Rightarrow> bool"
  assumes done_agrees: "invar st \<Longrightarrow> t \<in> handles st \<Longrightarrow>
      ops_task_done ops st t \<longleftrightarrow> res_status (ops_task_result ops st t) \<noteq> MYIO_PENDING"
    and step_evolves: "invar st \<Longrightarrow> ops_step ops st = Some (b, st') \<Longrightarrow>
      evolves ops invar handles droppable st {} st'"
    and step_idle: "invar st \<Longrightarrow> ops_step ops st = Some (False, st') \<Longrightarrow> t \<in> handles st \<Longrightarrow>
      ops_task_done ops st' t \<Longrightarrow> ops_task_done ops st t"
    and sleep_evolves: "invar st \<Longrightarrow> ops_sleep ops st ms = Some (p, st') \<Longrightarrow>
      evolves ops invar handles droppable st {} st'"
    and sleep_handle: "invar st \<Longrightarrow> ops_sleep ops st ms = Some (Some t, st') \<Longrightarrow>
      t \<in> handles st' - handles st \<and> droppable st' t"
    and cancel_evolves: "invar st \<Longrightarrow> t \<in> handles st \<Longrightarrow> ops_cancel ops st t = Some (rc, st') \<Longrightarrow>
      evolves ops invar handles droppable st {} st' \<and> rc \<in> {0, - 1}"
    and free_evolves: "invar st \<Longrightarrow> t \<in> handles st \<Longrightarrow> ops_task_free ops st t = Some st' \<Longrightarrow>
      evolves ops invar handles droppable st {t} st' \<and> t \<notin> handles st'"
    and detach_evolves: "invar st \<Longrightarrow> t \<in> handles st \<Longrightarrow> droppable st t \<Longrightarrow>
      evolves ops invar handles droppable st {t} (ops_task_detach ops st t) \<and>
      t \<notin> handles (ops_task_detach ops st t)"
begin

abbreviation evolve :: "'st \<Rightarrow> addr set \<Rightarrow> 'st \<Rightarrow> bool" where
  "evolve \<equiv> evolves ops invar handles droppable"

lemma evolve_done:
  assumes "invar st" and "evolve st S st'" and "t \<in> handles st - S" and "ops_task_done ops st t"
  shows "ops_task_done ops st' t"
  using assms done_agrees [of st t] done_agrees [of st' t] by (auto simp: evolves_def)

lemma evolve_refl: "invar st \<Longrightarrow> evolve st {} st"
  by (simp add: evolves_def)

lemma evolve_trans:
  assumes "invar st" and "evolve st S st1" and "evolve st1 S' st2"
  shows "evolve st (S \<union> S') st2"
  using assms evolve_done [OF assms(1,2)] by (auto simp: evolves_def)

lemma evolve_trans0: "invar st \<Longrightarrow> evolve st {} st1 \<Longrightarrow> evolve st1 S st2 \<Longrightarrow> evolve st S st2"
  using evolve_trans [of st "{}" st1 S st2] by simp

lemma evolve_inv: "evolve st S st' \<Longrightarrow> invar st'"
  by (simp add: evolves_def)

lemma evolve_handle: "evolve st S st' \<Longrightarrow> t \<in> handles st \<Longrightarrow> t \<notin> S \<Longrightarrow> t \<in> handles st'"
  by (simp add: evolves_def)

lemma evolve_mono: "evolve st S st' \<Longrightarrow> S \<subseteq> S' \<Longrightarrow> evolve st S' st'"
  by (auto simp: evolves_def)

text \<open>
  \<open>myio_await\<close> returns the stored result of a completed task, or reports a deadlock
  for one that stays pending.
\<close>

lemma await_spec:
  assumes "invar st" and "t \<in> handles st" and "myio_await ops st t = Some (r, st')"
  shows "evolve st {} st' \<and>
    (if ops_task_done ops st' t then r = ops_task_result ops st' t
     else r = mk_result MYIO_ERROR 0 EDEADLK None)"
proof -
  define Q where "Q io t y \<longleftrightarrow> evolve io {} (snd y) \<and>
    (if ops_task_done ops (snd y) t then fst y = ops_task_result ops (snd y) t
     else fst y = mk_result MYIO_ERROR 0 EDEADLK None)" for io t y
  have "ops = ops \<longrightarrow> invar st \<longrightarrow> t \<in> handles st \<longrightarrow> Q st t (r, st')"
  proof (rule myio_await.raw_induct
      [where P = "\<lambda>o' io t y. o' = ops \<longrightarrow> invar io \<longrightarrow> t \<in> handles io \<longrightarrow> Q io t y", OF _ assms(3)])
    fix f o' io t y
    assume IH: "\<And>o' io t y. f o' io t = Some y \<Longrightarrow> o' = ops \<longrightarrow> invar io \<longrightarrow> t \<in> handles io \<longrightarrow> Q io t y"
      and eq: "(if ops_task_done o' io t then Some (ops_task_result o' io t, io)
        else Option.bind (ops_step o' io) (\<lambda>(progress, io).
          if \<not> progress then Some (mk_result MYIO_ERROR 0 EDEADLK None, io) else f o' io t)) = Some y"
    show "o' = ops \<longrightarrow> invar io \<longrightarrow> t \<in> handles io \<longrightarrow> Q io t y"
    proof (intro impI)
      assume o': "o' = ops" and i: "invar io" and h: "t \<in> handles io"
      show "Q io t y"
      proof (cases "ops_task_done ops io t")
        case True
        with eq o' have "y = (ops_task_result ops io t, io)" by simp
        with True show ?thesis using evolve_refl [OF i] by (simp add: Q_def)
      next
        case False
        with eq o' obtain b io1 where st: "ops_step ops io = Some (b, io1)"
          and y: "(if \<not> b then Some (mk_result MYIO_ERROR 0 EDEADLK None, io1) else f ops io1 t) = Some y"
          by (cases "ops_step ops io") auto
        note ev = step_evolves [OF i st]
        show ?thesis
        proof (cases b)
          case False
          with st step_idle [OF i _ h] \<open>\<not> ops_task_done ops io t\<close>
          have "\<not> ops_task_done ops io1 t" by auto
          with False y ev show ?thesis by (auto simp: Q_def)
        next
          case True
          with y have "f ops io1 t = Some y" by simp
          with IH ev h have "Q io1 t y" by (auto simp: evolves_def)
          with ev show ?thesis by (auto simp: Q_def intro: evolve_trans0 [OF i])
        qed
      qed
    qed
  qed
  with assms show ?thesis by (simp add: Q_def split: if_splits)
qed

text \<open>Once a task is done, awaiting it again changes nothing and yields the same result.\<close>

lemma await_done: "ops_task_done ops st t \<Longrightarrow> myio_await ops st t = Some (ops_task_result ops st t, st)"
  by (subst myio_await.simps) simp

lemma await_idempotent:
  assumes "invar st" and "t \<in> handles st" and "myio_await ops st t = Some (r, st')"
    and "r \<noteq> mk_result MYIO_ERROR 0 EDEADLK None"
  shows "myio_await ops st' t = Some (r, st') \<and> res_status r \<noteq> MYIO_PENDING"
proof -
  from await_spec [OF assms(1-3)] assms(4)
  have d: "ops_task_done ops st' t" "r = ops_task_result ops st' t" "evolve st {} st'"
    by (auto split: if_splits)
  with done_agrees [of st' t] assms(2) await_done [OF d(1)] show ?thesis
    by (auto simp: evolves_def)
qed

text \<open>\<open>myio_select\<close>: the lowest completed slot.\<close>

lemma scan_Some:
  "select_scan ops io ts i any = (Some k, b) \<Longrightarrow>
     i \<le> k \<and> k - i < length ts \<and> (\<exists>t. ts ! (k - i) = Some t \<and> ops_task_done ops io t) \<and>
     (\<forall>j < k - i. \<forall>t. ts ! j = Some t \<longrightarrow> \<not> ops_task_done ops io t)"
proof (induction ops io ts i any rule: select_scan.induct)
  case (3 ops io t ts i any)
  show ?case
  proof (cases "ops_task_done ops io t")
    case True
    with 3 show ?thesis by auto
  next
    case False
    with 3 have IH: "Suc i \<le> k \<and> k - Suc i < length ts \<and>
      (\<exists>t. ts ! (k - Suc i) = Some t \<and> ops_task_done ops io t) \<and>
      (\<forall>j < k - Suc i. \<forall>t. ts ! j = Some t \<longrightarrow> \<not> ops_task_done ops io t)" by simp
    then have "k - i = Suc (k - Suc i)" by linarith
    with IH False show ?thesis by (auto simp: less_Suc_eq_0_disj)
  qed
next
  case (2 ops io ts i any)
  then have IH: "Suc i \<le> k \<and> k - Suc i < length ts \<and>
      (\<exists>t. ts ! (k - Suc i) = Some t \<and> ops_task_done ops io t) \<and>
      (\<forall>j < k - Suc i. \<forall>t. ts ! j = Some t \<longrightarrow> \<not> ops_task_done ops io t)" by simp
  then have "k - i = Suc (k - Suc i)" by linarith
  with IH show ?case by (auto simp: less_Suc_eq_0_disj)
qed simp

lemma scan_None:
  "select_scan ops io ts i any = (None, b) \<Longrightarrow>
     (\<forall>t. Some t \<in> set ts \<longrightarrow> \<not> ops_task_done ops io t) \<and> (b \<longleftrightarrow> any \<or> (\<exists>t. Some t \<in> set ts))"
  by (induction ops io ts i any rule: select_scan.induct) (auto split: if_splits)

definition select_post :: "'st \<Rightarrow> ptr list \<Rightarrow> int \<Rightarrow> bool" where
  "select_post st ts i \<longleftrightarrow>
     (0 \<le> i \<and> nat i < length ts \<and> (\<exists>t. ts ! nat i = Some t \<and> ops_task_done ops st t) \<and>
        (\<forall>j < nat i. \<forall>t. ts ! j = Some t \<longrightarrow> \<not> ops_task_done ops st t)) \<or>
     (i = - 1 \<and> (\<forall>t. Some t \<in> set ts \<longrightarrow> \<not> ops_task_done ops st t))"

lemma select_spec:
  assumes "invar st" and "\<And>t. Some t \<in> set ts \<Longrightarrow> t \<in> handles st"
    and "myio_select ops st ts = Some (i, st')"
  shows "evolve st {} st' \<and> select_post st' ts i"
proof -
  have "ops = ops \<longrightarrow> invar st \<longrightarrow> (\<forall>t. Some t \<in> set ts \<longrightarrow> t \<in> handles st) \<longrightarrow>
      evolve st {} (snd (i, st')) \<and> select_post (snd (i, st')) ts (fst (i, st'))"
  proof (rule myio_select.raw_induct
      [where P = "\<lambda>o' io ts y. o' = ops \<longrightarrow> invar io \<longrightarrow> (\<forall>t. Some t \<in> set ts \<longrightarrow> t \<in> handles io) \<longrightarrow>
         evolve io {} (snd y) \<and> select_post (snd y) ts (fst y)", OF _ assms(3)])
    fix f o' io ts y
    assume IH: "\<And>o' io ts y. f o' io ts = Some y \<Longrightarrow> o' = ops \<longrightarrow> invar io \<longrightarrow>
        (\<forall>t. Some t \<in> set ts \<longrightarrow> t \<in> handles io) \<longrightarrow> evolve io {} (snd y) \<and> select_post (snd y) ts (fst y)"
      and eq: "(case select_scan o' io ts 0 False of
          (Some i, any) \<Rightarrow> Some (int i, io)
        | (None, any) \<Rightarrow>
            if \<not> any then Some (- 1, io)
            else Option.bind (ops_step o' io) (\<lambda>(progress, io).
              if \<not> progress then Some (- 1, io) else f o' io ts)) = Some y"
    show "o' = ops \<longrightarrow> invar io \<longrightarrow> (\<forall>t. Some t \<in> set ts \<longrightarrow> t \<in> handles io) \<longrightarrow>
        evolve io {} (snd y) \<and> select_post (snd y) ts (fst y)"
    proof (intro impI)
      assume o': "o' = ops" and i: "invar io" and h: "\<forall>t. Some t \<in> set ts \<longrightarrow> t \<in> handles io"
      obtain k any where sc: "select_scan ops io ts 0 False = (k, any)" by (cases "select_scan ops io ts 0 False")
      show "evolve io {} (snd y) \<and> select_post (snd y) ts (fst y)"
      proof (cases k)
        case (Some k')
        with sc eq o' have "y = (int k', io)" by simp
        with scan_Some [of io ts 0 False k' any] sc Some evolve_refl [OF i] show ?thesis
          by (simp add: select_post_def)
      next
        case None
        note nd = scan_None [OF sc [unfolded None]]
        show ?thesis
        proof (cases any)
          case False
          with None sc eq o' have "y = (- 1, io)" by simp
          with nd evolve_refl [OF i] show ?thesis by (simp add: select_post_def)
        next
          case True
          with None sc eq o' obtain b io1 where st: "ops_step ops io = Some (b, io1)"
            and y: "(if \<not> b then Some (- 1, io1) else f ops io1 ts) = Some y"
            by (cases "ops_step ops io") auto
          note ev = step_evolves [OF i st]
          show ?thesis
          proof (cases b)
            case False
            with nd step_idle [OF i] st h y ev show ?thesis by (auto simp: select_post_def)
          next
            case True
            with y have "f ops io1 ts = Some y" by simp
            moreover have "\<forall>t. Some t \<in> set ts \<longrightarrow> t \<in> handles io1" using h ev by (auto simp: evolves_def)
            ultimately have "evolve io1 {} (snd y) \<and> select_post (snd y) ts (fst y)"
              using IH ev by (auto simp: evolves_def)
            with ev show ?thesis by (auto intro: evolve_trans0 [OF i])
          qed
        qed
      qed
    qed
  qed
  with assms show ?thesis by simp
qed

text \<open>\<open>myio_join\<close>: awaits, then gives up the handle.\<close>

lemma join_spec:
  assumes "invar st" and "t \<in> handles st" and "myio_join ops st (Some t) = Some (r, st')"
  shows "evolve st {t} st' \<and> t \<notin> handles st' \<and> res_status r \<noteq> MYIO_PENDING"
proof -
  from assms(3) obtain st1 where aw: "myio_await ops st t = Some (r, st1)"
    and fr: "ops_task_free ops st1 t = Some st'"
    by (auto simp: myio_join_def split: option.splits Option.bind_splits)
  from await_spec [OF assms(1,2) aw] have ev: "evolve st {} st1"
    and r: "if ops_task_done ops st1 t then r = ops_task_result ops st1 t
      else r = mk_result MYIO_ERROR 0 EDEADLK None" by auto
  then have st1: "invar st1" "t \<in> handles st1" using assms(2) by (auto simp: evolves_def)
  from free_evolves [OF st1 fr] ev have "evolve st {t} st' \<and> t \<notin> handles st'"
    by (auto intro: evolve_trans0 [OF assms(1)])
  with r done_agrees [OF st1] show ?thesis by (auto split: if_splits)
qed

text \<open>
  \<open>myio_await_all\<close> answers 0 only when every slot holds a task and every one of them
  ended \<open>MYIO_OK\<close>; a null slot counts as a failure.
\<close>

definition all_ok :: "'st \<Rightarrow> ptr list \<Rightarrow> bool" where
  "all_ok st ts \<longleftrightarrow> (\<forall>p \<in> set ts. \<exists>t. p = Some t \<and> ops_task_done ops st t \<and>
     res_status (ops_task_result ops st t) = MYIO_OK)"

lemma all_ok_simps [simp]:
  "all_ok st []" "\<not> all_ok st (None # ts)"
  "all_ok st (Some t # ts) \<longleftrightarrow> ops_task_done ops st t \<and>
     res_status (ops_task_result ops st t) = MYIO_OK \<and> all_ok st ts"
  by (auto simp: all_ok_def)

lemma await_all_spec:
  assumes "invar st" and "\<And>t. Some t \<in> set ts \<Longrightarrow> t \<in> handles st"
    and "myio_await_all ops st ts rc = Some (rc', st')" and "rc \<in> {0, - 1}"
  shows "evolve st {} st' \<and> rc' \<in> {0, - 1} \<and> (rc' = 0 \<longrightarrow> rc = 0 \<and> all_ok st' ts)"
  using assms
proof (induction ts arbitrary: st rc)
  case Nil
  then show ?case using evolve_refl by auto
next
  case (Cons p ts)
  show ?case
  proof (cases p)
    case None
    with Cons.IH [of st "- 1"] Cons.prems show ?thesis by auto
  next
    case (Some t)
    with Cons.prems(3) obtain r st1 where aw: "myio_await ops st t = Some (r, st1)"
      and rest: "myio_await_all ops st1 ts (if res_status r \<noteq> MYIO_OK then - 1 else rc) = Some (rc', st')"
      by (auto split: option.splits)
    have t: "t \<in> handles st" using Cons.prems(2) Some by simp
    note sp = await_spec [OF Cons.prems(1) t aw]
    have i1: "invar st1" and h1: "t \<in> handles st1"
      and hs: "\<And>t. Some t \<in> set ts \<Longrightarrow> t \<in> handles st1"
      using sp t Cons.prems(2) by (auto simp: evolves_def)
    note IH = Cons.IH [OF i1 hs rest]
    have ev: "evolve st1 {} st'" using IH Cons.prems(4) by auto
    have "res_status r = MYIO_OK \<Longrightarrow>
        ops_task_done ops st' t \<and> res_status (ops_task_result ops st' t) = MYIO_OK"
      using sp evolve_done [OF i1 ev, of t] h1 ev by (auto simp: evolves_def split: if_splits)
    moreover have "(if res_status r \<noteq> MYIO_OK then - 1 else rc) \<in> {0, - 1}" using Cons.prems(4) by simp
    ultimately show ?thesis using IH sp Some
      by (auto intro: evolve_trans0 [OF Cons.prems(1)] split: if_splits)
  qed
qed

text \<open>
  \<open>myio_await_timeout\<close>: the caller keeps the task in every case; the timer it makes
  is gone again; and a result other than \<open>MYIO_PENDING\<close> is the task's own.
\<close>

lemma drop_spec:
  assumes "invar st" and "t \<in> handles st" and "droppable st t"
    and "myio_task_drop ops st (Some t) = Some st'"
  shows "evolve st {t} st' \<and> t \<notin> handles st'"
proof -
  from assms(4) obtain rc st1 where c: "ops_cancel ops st t = Some (rc, st1)"
    and st': "st' = ops_task_detach ops st1 t"
    by (auto simp: myio_task_drop_def)
  have ev: "evolve st {} st1" using cancel_evolves [OF assms(1,2) c] by simp
  with assms(2,3) have "invar st1" "t \<in> handles st1" "droppable st1 t" by (auto simp: evolves_def)
  from detach_evolves [OF this] ev st' show ?thesis by (auto intro: evolve_trans0 [OF assms(1)])
qed

lemma await_timeout_spec:
  assumes i: "invar st" and h: "t \<in> handles st"
    and ret: "myio_await_timeout ops st (Some t) ms = Some (r, st')"
  shows "(\<forall>t' \<in> handles st. t' \<in> handles st') \<and> invar st' \<and>
    (res_status r \<noteq> MYIO_PENDING \<longrightarrow>
       (if ops_task_done ops st' t then r = ops_task_result ops st' t
        else r = mk_result MYIO_ERROR 0 EDEADLK None))"
proof (cases "ops_task_done ops st t")
  case True
  with ret have "myio_await ops st t = Some (r, st')" by (simp add: myio_await_timeout_def)
  from await_spec [OF i h this] show ?thesis by (auto simp: evolves_def)
next
  case False
  with ret obtain p st1 where sl: "ops_sleep ops st ms = Some (p, st1)"
    by (cases "ops_sleep ops st ms") (auto simp: myio_await_timeout_def)
  have ev1: "evolve st {} st1" using sleep_evolves [OF i sl] .
  then have i1: "invar st1" and h1: "t \<in> handles st1" using h by (auto simp: evolves_def)
  show ?thesis
  proof (cases p)
    case None
    with False ret sl have "myio_await ops st1 t = Some (r, st')" by (simp add: myio_await_timeout_def)
    from await_spec [OF i1 h1 this] ev1 show ?thesis by (auto simp: evolves_def)
  next
    case (Some tm)
    note tm = sleep_handle [OF i sl [unfolded Some]]
    with h have ne: "t \<noteq> tm" by auto
    from False ret sl Some obtain k st2 where se: "myio_select ops st1 [Some t, Some tm] = Some (k, st2)"
      by (cases "myio_select ops st1 [Some t, Some tm]") (auto simp: myio_await_timeout_def)
    have ev12: "evolve st1 {} st2" using select_spec [OF i1 _ se] h1 tm by auto
    have ev2: "evolve st {} st2" by (rule evolve_trans0 [OF i ev1 ev12])
    have i2: "invar st2" and h2: "t \<in> handles st2" "tm \<in> handles st2"
      and d2: "droppable st2 tm"
      using ev12 h1 tm by (auto simp: evolves_def)
    show ?thesis
    proof (cases "ops_task_done ops st2 t")
      case False
      with \<open>\<not> ops_task_done ops st t\<close> ret sl Some se
      have fr: "ops_task_free ops st2 tm = Some st'" and r: "r = mk_result MYIO_PENDING 0 0 None"
        by (auto simp: myio_await_timeout_def myio_task_free_def)
      from free_evolves [OF i2 h2(2) fr] ev2 tm r show ?thesis by (auto simp: evolves_def)
    next
      case True
      with \<open>\<not> ops_task_done ops st t\<close> ret sl Some se obtain st3
        where dr: "myio_task_drop ops st2 (Some tm) = Some st3" and aw: "myio_await ops st3 t = Some (r, st')"
        by (cases "myio_task_drop ops st2 (Some tm)") (auto simp: myio_await_timeout_def)
      have ev3: "evolve st2 {tm} st3" using drop_spec [OF i2 h2(2) d2 dr] by simp
      then have "invar st3" "t \<in> handles st3" using h2 ne by (auto simp: evolves_def)
      from await_spec [OF this aw] ev2 ev3 tm show ?thesis by (auto simp: evolves_def)
    qed
  qed
qed

end

subsection \<open>Backends without deadlock\<close>

text \<open>
  A backend in which \<open>step\<close> answers 0 only when no task the caller holds is pending:
  then a wait never has to report a deadlock.
\<close>

locale live_backend = backend +
  assumes idle_done: "invar st \<Longrightarrow> ops_step ops st = Some (False, st') \<Longrightarrow> t \<in> handles st \<Longrightarrow>
    ops_task_done ops st t"
begin

lemma await_returns_done:
  assumes "invar st" and "t \<in> handles st" and "myio_await ops st t = Some (r, st')"
  shows "ops_task_done ops st' t \<and> r = ops_task_result ops st' t \<and> res_status r \<noteq> MYIO_PENDING"
proof -
  have "ops = ops \<longrightarrow> invar st \<longrightarrow> t \<in> handles st \<longrightarrow> ops_task_done ops (snd (r, st')) t"
  proof (rule myio_await.raw_induct
      [where P = "\<lambda>o' io t y. o' = ops \<longrightarrow> invar io \<longrightarrow> t \<in> handles io \<longrightarrow> ops_task_done ops (snd y) t",
        OF _ assms(3)])
    fix f o' io t y
    assume IH: "\<And>o' io t y. f o' io t = Some y \<Longrightarrow> o' = ops \<longrightarrow> invar io \<longrightarrow> t \<in> handles io \<longrightarrow>
        ops_task_done ops (snd y) t"
      and eq: "(if ops_task_done o' io t then Some (ops_task_result o' io t, io)
        else Option.bind (ops_step o' io) (\<lambda>(progress, io).
          if \<not> progress then Some (mk_result MYIO_ERROR 0 EDEADLK None, io) else f o' io t)) = Some y"
    show "o' = ops \<longrightarrow> invar io \<longrightarrow> t \<in> handles io \<longrightarrow> ops_task_done ops (snd y) t"
    proof (intro impI, cases "ops_task_done ops io t")
      case True
      assume "o' = ops"
      with eq True show "ops_task_done ops (snd y) t" by auto
    next
      case False
      assume o': "o' = ops" and i: "invar io" and h: "t \<in> handles io"
      from eq False o' obtain b io1 where st: "ops_step ops io = Some (b, io1)"
        and y: "(if \<not> b then Some (mk_result MYIO_ERROR 0 EDEADLK None, io1) else f ops io1 t) = Some y"
        by (cases "ops_step ops io") auto
      have b: b using idle_done [OF i _ h] st False by (cases b) auto
      with y have "f ops io1 t = Some y" by simp
      with IH step_evolves [OF i st] h show "ops_task_done ops (snd y) t" by (auto simp: evolves_def)
    qed
  qed
  with assms have d: "ops_task_done ops st' t" by simp
  with await_spec [OF assms] assms(2) done_agrees [of st' t] show ?thesis by (auto simp: evolves_def)
qed

text \<open>A wait over at least one task ends with one of them.\<close>

lemma select_pending:
  assumes "invar st" and "\<And>t. Some t \<in> set ts \<Longrightarrow> t \<in> handles st" and "Some s \<in> set ts"
    and "myio_select ops st ts = Some (i, st')"
  shows "i \<noteq> - 1"
proof -
  have "ops = ops \<longrightarrow> invar st \<longrightarrow> (\<forall>t. Some t \<in> set ts \<longrightarrow> t \<in> handles st) \<longrightarrow> Some s \<in> set ts \<longrightarrow> fst (i, st') \<noteq> - 1"
  proof (rule myio_select.raw_induct
      [where P = "\<lambda>o' io ts y. o' = ops \<longrightarrow> invar io \<longrightarrow> (\<forall>t. Some t \<in> set ts \<longrightarrow> t \<in> handles io) \<longrightarrow>
         Some s \<in> set ts \<longrightarrow> fst y \<noteq> - 1", OF _ assms(4)], intro impI)
    fix f o' io ts y
    assume IH: "\<And>o' io ts y. f o' io ts = Some y \<Longrightarrow> o' = ops \<longrightarrow> invar io \<longrightarrow>
        (\<forall>t. Some t \<in> set ts \<longrightarrow> t \<in> handles io) \<longrightarrow> Some s \<in> set ts \<longrightarrow> fst y \<noteq> - 1"
      and eq: "(case select_scan o' io ts 0 False of
          (Some i, any) \<Rightarrow> Some (int i, io)
        | (None, any) \<Rightarrow>
            if \<not> any then Some (- 1, io)
            else Option.bind (ops_step o' io) (\<lambda>(progress, io).
              if \<not> progress then Some (- 1, io) else f o' io ts)) = Some y"
      and o': "o' = ops" and i: "invar io" and h: "\<forall>t. Some t \<in> set ts \<longrightarrow> t \<in> handles io" and s: "Some s \<in> set ts"
    obtain k any where sc: "select_scan ops io ts 0 False = (k, any)" by (cases "select_scan ops io ts 0 False")
    show "fst y \<noteq> - 1"
    proof (cases k)
      case (Some k')
      with sc eq o' show ?thesis by auto
    next
      case None
      note nd = scan_None [OF sc [unfolded None]]
      have any using nd s by blast
      with None sc eq o' obtain b io1 where st: "ops_step ops io = Some (b, io1)"
        and y: "(if \<not> b then Some (- 1, io1) else f ops io1 ts) = Some y"
        by (cases "ops_step ops io") auto
      have b using idle_done [OF i _ h [rule_format, OF s]] st nd s by (cases b) auto
      with y IH [of ops io1 ts y] step_evolves [OF i st] h s show ?thesis by (auto simp: evolves_def)
    qed
  qed
  with assms show ?thesis by simp
qed

lemma await_timeout_done:
  assumes i: "invar st" and h: "t \<in> handles st"
    and ret: "myio_await_timeout ops st (Some t) ms = Some (r, st')" and np: "res_status r \<noteq> MYIO_PENDING"
  shows "ops_task_done ops st' t"
proof (cases "ops_task_done ops st t")
  case True
  with ret await_done [OF True] show ?thesis by (simp add: myio_await_timeout_def)
next
  case False
  with ret obtain p st1 where sl: "ops_sleep ops st ms = Some (p, st1)"
    by (cases "ops_sleep ops st ms") (auto simp: myio_await_timeout_def)
  have ev1: "evolve st {} st1" using sleep_evolves [OF i sl] .
  then have i1: "invar st1" and h1: "t \<in> handles st1" using h by (auto simp: evolves_def)
  show ?thesis
  proof (cases p)
    case None
    with False ret sl have "myio_await ops st1 t = Some (r, st')" by (simp add: myio_await_timeout_def)
    from await_returns_done [OF i1 h1 this] show ?thesis by simp
  next
    case (Some tm)
    note tm = sleep_handle [OF i sl [unfolded Some]]
    with h have ne: "t \<noteq> tm" by auto
    from False ret sl Some obtain k st2 where se: "myio_select ops st1 [Some t, Some tm] = Some (k, st2)"
      by (cases "myio_select ops st1 [Some t, Some tm]") (auto simp: myio_await_timeout_def)
    have ev2: "evolve st1 {} st2" using select_spec [OF i1 _ se] h1 tm by auto
    then have i2: "invar st2" and h2: "t \<in> handles st2" "tm \<in> handles st2" and d2: "droppable st2 tm"
      using h1 tm by (auto simp: evolves_def)
    have "ops_task_done ops st2 t"
      using False ret sl Some se np by (auto simp: myio_await_timeout_def myio_task_free_def split: if_splits)
    with False ret sl Some se obtain st3
      where dr: "myio_task_drop ops st2 (Some tm) = Some st3" and aw: "myio_await ops st3 t = Some (r, st')"
      by (cases "myio_task_drop ops st2 (Some tm)") (auto simp: myio_await_timeout_def)
    have "evolve st2 {tm} st3" using drop_spec [OF i2 h2(2) d2 dr] by simp
    then have "invar st3" "t \<in> handles st3" using h2 ne by (auto simp: evolves_def)
    from await_returns_done [OF this aw] show ?thesis by simp
  qed
qed

lemma await_all_iff:
  assumes "invar st" and "\<And>t. Some t \<in> set ts \<Longrightarrow> t \<in> handles st"
    and "myio_await_all ops st ts rc = Some (rc', st')" and "rc \<in> {0, - 1}"
  shows "evolve st {} st' \<and> (rc' = (if rc = 0 \<and> all_ok st' ts then 0 else - 1))"
  using assms
proof (induction ts arbitrary: st rc)
  case Nil
  then show ?case using evolve_refl by auto
next
  case (Cons p ts)
  show ?case
  proof (cases p)
    case None
    with Cons.IH [of st "- 1"] Cons.prems show ?thesis by simp
  next
    case (Some t)
    with Cons.prems(3) obtain r st1 where aw: "myio_await ops st t = Some (r, st1)"
      and rest: "myio_await_all ops st1 ts (if res_status r \<noteq> MYIO_OK then - 1 else rc) = Some (rc', st')"
      by (auto split: option.splits)
    have t: "t \<in> handles st" using Cons.prems(2) Some by simp
    note sp = await_spec [OF Cons.prems(1) t aw] and dn = await_returns_done [OF Cons.prems(1) t aw]
    have i1: "invar st1" and h1: "t \<in> handles st1"
      and hs: "\<And>t. Some t \<in> set ts \<Longrightarrow> t \<in> handles st1"
      using sp t Cons.prems(2) by (auto simp: evolves_def)
    note IH = Cons.IH [OF i1 hs rest]
    have ev: "evolve st1 {} st'" using IH Cons.prems(4) by auto
    have "res_status r = MYIO_OK \<longleftrightarrow>
        ops_task_done ops st' t \<and> res_status (ops_task_result ops st' t) = MYIO_OK"
      using dn evolve_done [OF i1 ev, of t] h1 ev by (auto simp: evolves_def)
    moreover have "(if res_status r \<noteq> MYIO_OK then - 1 else rc) \<in> {0, - 1}" using Cons.prems(4) by simp
    ultimately show ?thesis using IH sp Some
      by (auto intro: evolve_trans0 [OF Cons.prems(1)] split: if_splits)
  qed
qed

end

subsection \<open>Backends that make progress\<close>

text \<open>
  When every step returns and brings some bounded amount of outstanding work down,
  waiting for a task the caller holds terminates with its result.
\<close>

locale progress_backend = live_backend +
  fixes work :: "'a \<Rightarrow> nat"
  assumes step_returns: "invar st \<Longrightarrow> ops_step ops st \<noteq> None"
    and step_work: "invar st \<Longrightarrow> ops_step ops st = Some (True, st') \<Longrightarrow> work st' < work st"
begin

lemma await_terminates:
  "invar st \<Longrightarrow> t \<in> handles st \<Longrightarrow> \<exists>r st'. myio_await ops st t = Some (r, st')"
proof (induction "work st" arbitrary: st rule: less_induct)
  case less
  show ?case
  proof (cases "ops_task_done ops st t")
    case True
    then show ?thesis by (simp add: await_done)
  next
    case False
    from step_returns [OF less.prems(1)] obtain b st1 where st: "ops_step ops st = Some (b, st1)" by auto
    with idle_done [OF less.prems(1) _ less.prems(2)] False have b: b by (cases b) auto
    have "\<exists>r st'. myio_await ops st1 t = Some (r, st')"
    proof (rule less.hyps)
      show "work st1 < work st" using step_work [OF less.prems(1)] st b by simp
      show "invar st1" "t \<in> handles st1"
        using step_evolves [OF less.prems(1) st] less.prems(2) by (auto simp: evolves_def)
    qed
    with False st b show ?thesis by (subst myio_await.simps) simp
  qed
qed

end

subsection \<open>Programs over the interface\<close>

text \<open>
  A program is a sequence of vtable calls. \<open>exec_ucall\<close> performs one; \<open>ucall_ok\<close> says
  what \<^verbatim>\<open>myio.h\<close> requires of the caller: handles it still owns, sockets it still
  owns, and a detach only of a task whose socket it has not taken.
\<close>

datatype ucall =
    U_open string int int
  | U_close int
  | U_read int addr nat int
  | U_write int "byte list" int
  | U_sleep nat
  | U_spawn addr addr
  | U_tcp_connect string int
  | U_tcp_listen string int int
  | U_tcp_accept addr
  | U_sock_read addr addr nat
  | U_sock_write addr "byte list"
  | U_sock_close addr
  | U_sock_port addr
  | U_step
  | U_cancel addr
  | U_task_free addr
  | U_task_detach addr

fun exec_ucall :: "'st myio_ops \<Rightarrow> 'st \<Rightarrow> ucall \<Rightarrow> 'st option" where
  "exec_ucall ops st (U_open p f m) = map_option snd (ops_open ops st p f m)"
| "exec_ucall ops st (U_close fd) = map_option snd (ops_close ops st fd)"
| "exec_ucall ops st (U_read fd b n off) = map_option snd (ops_read ops st fd b n off)"
| "exec_ucall ops st (U_write fd b off) = map_option snd (ops_write ops st fd b off)"
| "exec_ucall ops st (U_sleep ms) = map_option snd (ops_sleep ops st ms)"
| "exec_ucall ops st (U_spawn fn arg) = map_option snd (ops_spawn ops st fn arg)"
| "exec_ucall ops st (U_tcp_connect h p) = map_option snd (ops_tcp_connect ops st h p)"
| "exec_ucall ops st (U_tcp_listen h p b) = map_option (snd \<circ> snd) (ops_tcp_listen ops st h p b)"
| "exec_ucall ops st (U_tcp_accept k) = map_option snd (ops_tcp_accept ops st k)"
| "exec_ucall ops st (U_sock_read k b n) = map_option snd (ops_sock_read ops st k b n)"
| "exec_ucall ops st (U_sock_write k b) = map_option snd (ops_sock_write ops st k b)"
| "exec_ucall ops st (U_sock_close k) = map_option snd (ops_sock_close ops st k)"
| "exec_ucall ops st (U_sock_port k) = Some (snd (ops_sock_port ops st k))"
| "exec_ucall ops st U_step = map_option snd (ops_step ops st)"
| "exec_ucall ops st (U_cancel t) = map_option snd (ops_cancel ops st t)"
| "exec_ucall ops st (U_task_free t) = ops_task_free ops st t"
| "exec_ucall ops st (U_task_detach t) = Some (ops_task_detach ops st t)"

fun ucall_ok ::
  "('st \<Rightarrow> addr set) \<Rightarrow> ('st \<Rightarrow> addr \<Rightarrow> bool) \<Rightarrow> ('st \<Rightarrow> addr set) \<Rightarrow> 'st \<Rightarrow> ucall \<Rightarrow> bool" where
  "ucall_ok handles droppable socks st (U_tcp_accept k) = (k \<in> socks st)"
| "ucall_ok handles droppable socks st (U_sock_read k b n) = (k \<in> socks st)"
| "ucall_ok handles droppable socks st (U_sock_write k b) = (k \<in> socks st)"
| "ucall_ok handles droppable socks st (U_sock_close k) = (k \<in> socks st)"
| "ucall_ok handles droppable socks st (U_sock_port k) = (k \<in> socks st)"
| "ucall_ok handles droppable socks st (U_cancel t) = (t \<in> handles st)"
| "ucall_ok handles droppable socks st (U_task_free t) = (t \<in> handles st)"
| "ucall_ok handles droppable socks st (U_task_detach t) = (t \<in> handles st \<and> droppable st t)"
| "ucall_ok handles droppable socks st _ = True"

inductive user_runs ::
  "'st myio_ops \<Rightarrow> ('st \<Rightarrow> ucall \<Rightarrow> bool) \<Rightarrow> 'st \<Rightarrow> ucall list \<Rightarrow> 'st \<Rightarrow> bool"
  for ops :: "'st myio_ops" and ok :: "'st \<Rightarrow> ucall \<Rightarrow> bool" where
  runs_nil: "user_runs ops ok st [] st"
| runs_cons: "ok st c \<Longrightarrow> exec_ucall ops st c = Some st1 \<Longrightarrow> user_runs ops ok st1 cs st' \<Longrightarrow>
    user_runs ops ok st (c # cs) st'"

inductive_cases user_runs_NilE: "user_runs ops ok st [] st'"
inductive_cases user_runs_ConsE: "user_runs ops ok st (c # cs) st'"

text \<open>
  A backend is safe when every permitted call keeps its invariant; then so does every
  program that respects the rules of the interface.
\<close>

locale safe_backend =
  fixes ops :: "'st myio_ops"
    and invar :: "'st \<Rightarrow> bool"
    and handles :: "'st \<Rightarrow> addr set"
    and droppable :: "'st \<Rightarrow> addr \<Rightarrow> bool"
    and socks :: "'st \<Rightarrow> addr set"
  assumes exec_invar: "invar st \<Longrightarrow> ucall_ok handles droppable socks st c \<Longrightarrow>
    exec_ucall ops st c = Some st' \<Longrightarrow> invar st'"
begin

lemma runs_invar: "user_runs ops (ucall_ok handles droppable socks) st cs st' \<Longrightarrow> invar st \<Longrightarrow> invar st'"
  by (induction rule: user_runs.induct) (auto intro: exec_invar)

end

end
