(* ===== verification/Myio_Common.thy ===== *)
theory Myio_Common
  imports Myio_Api
begin

text \<open>
  The helpers the C backends share, \<^verbatim>\<open>src/src/myio_common.h\<close>: result constructors,
  the port of a socket address, the mapping of resolver errors, the connect and
  listen walks over the resolved addresses, the local port and error strings.
\<close>

subsection \<open>Result constructors\<close>

definition r_ok :: "int \<Rightarrow> ptr \<Rightarrow> myio_result" where
  "r_ok v p = mk_result MYIO_OK v 0 p"

definition r_err :: "int \<Rightarrow> myio_result" where
  "r_err e = mk_result MYIO_ERROR 0 e None"

definition r_canceled :: myio_result where
  "r_canceled = mk_result MYIO_CANCELED 0 0 None"

text \<open>A raw system call's return value with the \<^verbatim>\<open>errno\<close> it left.\<close>

definition r_from :: "int \<Rightarrow> int \<Rightarrow> myio_result" where
  "r_from n err = (if n \<ge> 0 then r_ok n None else r_err err)"

lemmas r_defs = r_ok_def r_err_def r_canceled_def r_from_def

lemma r_status [simp]:
  "res_status (r_ok v p) = MYIO_OK" "res_status (r_err e) = MYIO_ERROR"
  "res_status r_canceled = MYIO_CANCELED"
  "res_ptr (r_ok v p) = p" "res_ptr (r_err e) = None" "res_ptr r_canceled = None"
  "res_value (r_ok v p) = v" "res_error (r_err e) = e"
  by (simp_all add: r_defs)

lemma r_from_final [simp]: "res_status (r_from n e) \<noteq> MYIO_PENDING" "res_ptr (r_from n e) = None"
  by (simp_all add: r_defs)

subsection \<open>Socket addresses\<close>

definition myio_sockaddr_port :: "sockaddr \<Rightarrow> int" where
  "myio_sockaddr_port ss =
     (if ss_family ss = AF_INET then uint (ntohs (ss_port ss))
      else if ss_family ss = AF_INET6 then uint (ntohs (ss_port ss))
      else - 1)"

subsection \<open>Resolver errors\<close>

definition gai_errno :: "int \<Rightarrow> int \<Rightarrow> int" where
  "gai_errno rc err = (if rc = EAI_SYSTEM then err else rc)"

subsection \<open>The service string\<close>

text \<open>\<^verbatim>\<open>snprintf(buf, size, "%d", n)\<close>: the decimal digits, cut to fit the buffer.\<close>

definition digit_char :: "nat \<Rightarrow> char" where
  "digit_char d = char_of (48 + d)"

fun nat_dec :: "nat \<Rightarrow> string" where
  "nat_dec n = (if n < 10 then [digit_char n] else nat_dec (n div 10) @ [digit_char (n mod 10)])"

declare nat_dec.simps [simp del]

definition int_dec :: "int \<Rightarrow> string" where
  "int_dec n = (if n < 0 then CHR ''-'' # nat_dec (nat (- n)) else nat_dec (nat n))"

definition snprintf_d :: "nat \<Rightarrow> int \<Rightarrow> string" where
  "snprintf_d sz n = take (sz - 1) (int_dec n)"

subsection \<open>Connect and listen\<close>

fun connect_walk :: "os \<Rightarrow> addrinfo list \<Rightarrow> int \<Rightarrow> int \<Rightarrow> 'a mach_scheme \<Rightarrow> (int \<times> int) \<times> 'a mach_scheme" where
  "connect_walk os [] fd err s = ((fd, err), s)"
| "connect_walk os (ai # ais) fd err s =
     (let (a, s) = sys_call os (C_socket (ai_family ai) (ai_socktype ai) (ai_protocol ai)) s;
          fd = a_ret a
      in if fd < 0 then connect_walk os ais fd (a_errno a) s
         else
           let (c, s) = sys_call os (C_connect fd (ai_addr ai)) s in
           if a_ret c = 0 then ((fd, err), s)
           else
             let err = a_errno c; (_, s) = sys_call os (C_close fd) s
             in connect_walk os ais (- 1) err s)"

definition myio_posix_connect ::
  "os \<Rightarrow> string \<Rightarrow> int \<Rightarrow> 'a mach_scheme \<Rightarrow> (int \<times> int) \<times> 'a mach_scheme" where
  "myio_posix_connect os host port s =
     (let service = snprintf_d 16 port;
          (a, s) = sys_call os (C_getaddrinfo host service False) s
      in if a_ret a \<noteq> 0 then ((- 1, gai_errno (a_ret a) (a_errno a)), s)
         else connect_walk os (a_addrs a) (- 1) ECONNREFUSED s)"

text \<open>
  The listener: the second component is what is stored through \<^verbatim>\<open>err\<close> (\<open>None\<close> when
  nothing is). A successful resolution without an address would be a null
  dereference.
\<close>

definition myio_posix_listen ::
  "os \<Rightarrow> string \<Rightarrow> int \<Rightarrow> int \<Rightarrow> 'a mach_scheme \<Rightarrow> (int \<times> int option) \<times> 'a mach_scheme" where
  "myio_posix_listen os host port backlog s =
     (let service = snprintf_d 16 port;
          (a, s) = sys_call os (C_getaddrinfo host service True) s
      in if a_ret a \<noteq> 0 then ((- 1, Some (gai_errno (a_ret a) (a_errno a))), s)
         else case a_addrs a of
           [] \<Rightarrow> ((- 1, None), m_flag s)
         | ai # _ \<Rightarrow>
             let (f, s) = sys_call os (C_socket (ai_family ai) (ai_socktype ai) (ai_protocol ai)) s;
                 fd = a_ret f
             in if fd < 0 then ((- 1, Some (a_errno f)), s)
                else
                  let (_, s) = sys_call os (C_setsockopt fd) s;
                      (b, s) = sys_call os (C_bind fd (ai_addr ai)) s
                  in if a_ret b \<noteq> 0 then
                       let (_, s) = sys_call os (C_close fd) s in ((- 1, Some (a_errno b)), s)
                     else
                       let (l, s) = sys_call os (C_listen fd backlog) s in
                       if a_ret l \<noteq> 0 then
                         let (_, s) = sys_call os (C_close fd) s in ((- 1, Some (a_errno l)), s)
                       else ((fd, None), s))"

subsection \<open>Local port, error strings\<close>

definition myio_local_port :: "os \<Rightarrow> int \<Rightarrow> 'a mach_scheme \<Rightarrow> int \<times> 'a mach_scheme" where
  "myio_local_port os fd s =
     (let (a, s) = sys_call os (C_getsockname fd) s in
      (if a_ret a \<noteq> 0 then - 1 else myio_sockaddr_port (a_addr a), s))"

definition myio_default_error_str :: "os \<Rightarrow> int \<Rightarrow> 'a mach_scheme \<Rightarrow> string \<times> 'a mach_scheme" where
  "myio_default_error_str os err s =
     (let (a, s) = sys_call os (if err < 0 then C_gai_strerror err else C_strerror err) s
      in (a_str a, s))"

subsection \<open>The walks leak no descriptor\<close>

lemma connect_walk_fds:
  "connect_walk os ais fd err s = ((fd', err'), s') \<Longrightarrow> fd < 0 \<Longrightarrow>
     fds_gained (m_trace s) (m_trace s') (if fd' \<ge> 0 then {#fd'#} else {#})"
proof (induction ais arbitrary: fd err s)
  case Nil
  then show ?case by (simp add: fds_gained_refl)
next
  case (Cons ai ais)
  from Cons.prems show ?case
    by (auto simp: sys_call_def Let_def fds_gained_def split: if_splits dest!: Cons.IH)
qed

lemma posix_connect_fds:
  "myio_posix_connect os host port s = ((fd, err), s') \<Longrightarrow>
     fds_gained (m_trace s) (m_trace s') (if fd \<ge> 0 then {#fd#} else {#})"
  by (auto simp: myio_posix_connect_def sys_call_def Let_def fds_gained_def
      split: if_splits dest!: connect_walk_fds)

lemma posix_listen_fds:
  "myio_posix_listen os host port backlog s = ((fd, err), s') \<Longrightarrow>
     fds_gained (m_trace s) (m_trace s') (if fd \<ge> 0 then {#fd#} else {#})"
  by (auto simp: myio_posix_listen_def sys_call_def Let_def fds_gained_def m_flag_def
      split: if_splits list.splits)

text \<open>Nothing but the trace (and the fault flag of the listener) is touched.\<close>

lemma connect_walk_state:
  "connect_walk os ais fd err s = (r, s') \<Longrightarrow> \<exists>tr. s' = s\<lparr>m_trace := tr\<rparr>"
proof (induction ais arbitrary: fd err s)
  case Nil
  then show ?case by (auto intro: exI [of _ "m_trace s"])
next
  case (Cons ai ais)
  from Cons.prems show ?case
    by (auto simp: sys_call_def Let_def split: if_splits dest!: Cons.IH)
qed

lemma posix_connect_state:
  "myio_posix_connect os host port s = (r, s') \<Longrightarrow> \<exists>tr. s' = s\<lparr>m_trace := tr\<rparr>"
  by (auto simp: myio_posix_connect_def sys_call_def Let_def split: if_splits dest!: connect_walk_state)

text \<open>
  The walk connects to the first address that accepts, and gives up only after it
  has tried every one of them.
\<close>

lemma connect_walk_first:
  "connect_walk os ais fd err s = ((fd', err'), s') \<Longrightarrow> fd < 0 \<Longrightarrow> fd' \<ge> 0 \<Longrightarrow>
     \<exists>i a tr. i < length ais \<and> m_trace s' = (C_connect fd' (ai_addr (ais ! i)), a) # tr \<and> a_ret a = 0"
proof (induction ais arbitrary: fd err s)
  case Nil
  then show ?case by simp
next
  case (Cons ai ais)
  have IH: "\<exists>i a tr. i < length (ai # ais) \<and>
      m_trace s' = (C_connect fd' (ai_addr ((ai # ais) ! i)), a) # tr \<and> a_ret a = 0"
    if "connect_walk os ais f e s1 = ((fd', err'), s')" "f < 0" for f e s1
    using Cons.IH [OF that Cons.prems(3)] by (metis length_Cons Suc_less_eq nth_Cons_Suc)
  from Cons.prems show ?case
    by (auto simp: sys_call_def Let_def split: if_splits dest!: IH)
qed

lemma connect_walk_tried:
  "connect_walk os ais fd err s = ((fd', err'), s') \<Longrightarrow> fd < 0 \<Longrightarrow> fd' < 0 \<Longrightarrow>
     length (filter (\<lambda>(c, a). \<exists>d t p. c = C_socket d t p) (m_trace s')) =
     length (filter (\<lambda>(c, a). \<exists>d t p. c = C_socket d t p) (m_trace s)) + length ais"
proof (induction ais arbitrary: fd err s)
  case Nil
  then show ?case by simp
next
  case (Cons ai ais)
  from Cons.prems show ?case
    by (auto simp: sys_call_def Let_def split: if_splits dest!: Cons.IH)
qed

text \<open>A resolver that succeeds hands out at least one address.\<close>

definition gai_ok :: "os \<Rightarrow> bool" where
  "gai_ok os \<longleftrightarrow> (\<forall>tr h v b. a_ret (os tr (C_getaddrinfo h v b)) = 0 \<longrightarrow>
     a_addrs (os tr (C_getaddrinfo h v b)) \<noteq> [])"

lemma posix_listen_state:
  assumes "gai_ok os" and "myio_posix_listen os host port backlog s = (r, s')"
  shows "\<exists>tr. s' = s\<lparr>m_trace := tr\<rparr>"
  using assms
  by (auto simp: myio_posix_listen_def sys_call_def Let_def gai_ok_def split: if_splits list.splits)

subsection \<open>Bounds\<close>

lemma length_nat_dec: "n < 10 ^ Suc k \<Longrightarrow> length (nat_dec n) \<le> Suc k"
proof (induction k arbitrary: n)
  case 0
  then show ?case by (simp add: nat_dec.simps)
next
  case (Suc k)
  have "n div 10 < 10 ^ Suc k" using Suc.prems by (simp add: less_mult_imp_div_less)
  from Suc.IH [OF this] show ?case by (subst nat_dec.simps) auto
qed

text \<open>
  The 16-byte buffer of \<open>myio_posix_connect\<close> holds every \<^verbatim>\<open>int\<close> port in full, sign and
  terminator included: the service string is never cut.
\<close>

lemma snprintf_port_fits:
  assumes "- (2 ^ 31) \<le> port" and "port < 2 ^ 31"
  shows "snprintf_d 16 port = int_dec port"
proof -
  have "nat (- port) < 10 ^ Suc 9" "nat port < 10 ^ Suc 9" using assms by (simp_all add: nat_less_iff)
  from this [THEN length_nat_dec] have "length (int_dec port) \<le> 11" by (simp add: int_dec_def)
  then show ?thesis by (simp add: snprintf_d_def)
qed

lemma sockaddr_port_range:
  "myio_sockaddr_port ss = - 1 \<or> (0 \<le> myio_sockaddr_port ss \<and> myio_sockaddr_port ss < 65536)"
  using uint_bounded [of "ntohs (ss_port ss)"] by (simp add: myio_sockaddr_port_def)

end
