(* ===== verification/Myio_Wq.thy ===== *)
theory Myio_Wq
  imports Myio_Prelude
begin

text \<open>
  The intrusive FIFO of \<^verbatim>\<open>src/src/myio_wq.h\<close>, at the level of its pointers. The
  \<^verbatim>\<open>next\<close> field of every embedded node is a link heap \<open>wlinks\<close>, one cell per node; a
  node and the task that embeds it share their address (\<open>myio_wq_item\<close> is a
  constant offset). The queue is then shown to be a list: \<open>wq_list nx q xs\<close> relates
  heap and queue header to the abstract FIFO \<open>xs\<close>, and each operation is the list
  operation its comment promises. The contract its clients use is the locale
  \<open>fifo\<close>, interpreted on the operations.
\<close>

type_synonym wlinks = "addr \<Rightarrow> ptr"

record myio_wq =
  wq_head :: ptr
  wq_tail :: ptr

definition myio_wq_empty :: myio_wq where
  "myio_wq_empty = \<lparr>wq_head = None, wq_tail = None\<rparr>"

subsection \<open>The operations\<close>

text \<open>\<open>myio_wq_push\<close> returns whether the new node became the head.\<close>

definition myio_wq_push :: "wlinks \<Rightarrow> myio_wq \<Rightarrow> addr \<Rightarrow> bool \<times> wlinks \<times> myio_wq" where
  "myio_wq_push nx q n =
     (let nx = nx(n := None) in
      case wq_tail q of
        Some l \<Rightarrow> (False, nx(l := Some n), q\<lparr>wq_tail := Some n\<rparr>)
      | None \<Rightarrow> (True, nx, q\<lparr>wq_head := Some n, wq_tail := Some n\<rparr>))"

text \<open>
  \<open>myio_wq_pop\<close> dereferences the head without a test: on an empty queue it has no
  defined behaviour (\<open>None\<close>). It returns the successor, the new head.
\<close>

definition myio_wq_pop :: "wlinks \<Rightarrow> myio_wq \<Rightarrow> (ptr \<times> wlinks \<times> myio_wq) option" where
  "myio_wq_pop nx q =
     (case wq_head q of
        None \<Rightarrow> None
      | Some n \<Rightarrow>
          let q = q\<lparr>wq_head := nx n\<rparr>;
              q = (if wq_head q = None then q\<lparr>wq_tail := None\<rparr> else q)
          in Some (wq_head q, nx(n := None), q))"

text \<open>
  The search loop of \<open>myio_wq_remove\<close> walks the links from the head with the
  previous node at hand. On a cyclic chain it would not return (\<open>None\<close>).
\<close>

partial_function (option) myio_wq_remove_loop ::
  "wlinks \<Rightarrow> myio_wq \<Rightarrow> addr \<Rightarrow> ptr \<Rightarrow> ptr \<Rightarrow> (bool \<times> wlinks \<times> myio_wq) option" where
  "myio_wq_remove_loop nx q n prev c =
     (case c of
        None \<Rightarrow> Some (False, nx, q)
      | Some c \<Rightarrow>
          if c \<noteq> n then myio_wq_remove_loop nx q n (Some c) (nx c)
          else
            let (nx', q) =
                  (case prev of
                     Some p \<Rightarrow> (nx(p := nx c), q)
                   | None \<Rightarrow> (nx, q\<lparr>wq_head := nx c\<rparr>));
                q = (if wq_tail q = Some c then q\<lparr>wq_tail := prev\<rparr> else q)
            in Some (True, nx'(n := None), q))"

definition myio_wq_remove ::
  "wlinks \<Rightarrow> myio_wq \<Rightarrow> addr \<Rightarrow> (bool \<times> wlinks \<times> myio_wq) option" where
  "myio_wq_remove nx q n = myio_wq_remove_loop nx q n None (wq_head q)"

subsection \<open>The abstract FIFO\<close>

fun wpath :: "wlinks \<Rightarrow> ptr \<Rightarrow> addr list \<Rightarrow> ptr \<Rightarrow> bool" where
  "wpath nx p [] r \<longleftrightarrow> p = r"
| "wpath nx p (x # xs) r \<longleftrightarrow> p = Some x \<and> wpath nx (nx x) xs r"

definition wq_list :: "wlinks \<Rightarrow> myio_wq \<Rightarrow> addr list \<Rightarrow> bool" where
  "wq_list nx q xs \<longleftrightarrow> wpath nx (wq_head q) xs None \<and> distinct xs \<and>
     wq_tail q = (if xs = [] then None else Some (last xs))"

lemma wpath_append [simp]:
  "wpath nx p (xs @ ys) r \<longleftrightarrow> (\<exists>m. wpath nx p xs m \<and> wpath nx m ys r)"
  by (induction xs arbitrary: p) auto

lemma wpath_None [simp]: "wpath nx None xs r \<longleftrightarrow> xs = [] \<and> r = None"
  by (cases xs) auto

lemma wpath_frame [simp]: "x \<notin> set xs \<Longrightarrow> wpath (nx(x := v)) p xs r = wpath nx p xs r"
  by (induction xs arbitrary: p) auto

lemma wpath_unique: "wpath nx p xs None \<Longrightarrow> wpath nx p ys None \<Longrightarrow> xs = ys"
proof (induction xs arbitrary: p ys)
  case Nil
  then show ?case by simp
next
  case (Cons x xs)
  then show ?case by (cases ys) auto
qed

lemma wpath_None_head: "wpath nx p xs None \<Longrightarrow> p = (if xs = [] then None else Some (hd xs))"
  by (cases xs) auto

lemma wq_list_unique: "wq_list nx q xs \<Longrightarrow> wq_list nx q ys \<Longrightarrow> xs = ys"
  by (auto simp: wq_list_def dest: wpath_unique)

lemma wq_list_head: "wq_list nx q xs \<Longrightarrow> wq_head q = (if xs = [] then None else Some (hd xs))"
  by (auto simp: wq_list_def dest: wpath_None_head)

lemma wq_list_head_None: "wq_list nx q xs \<Longrightarrow> wq_head q = None \<longleftrightarrow> xs = []"
  by (simp add: wq_list_head)

lemma wq_list_distinct: "wq_list nx q xs \<Longrightarrow> distinct xs"
  by (simp add: wq_list_def)

lemma wq_list_empty [simp]: "wq_list nx myio_wq_empty xs \<longleftrightarrow> xs = []"
  by (auto simp: wq_list_def myio_wq_empty_def)

text \<open>Writing the link of a node that is not queued leaves the queue alone.\<close>

lemma wq_list_frame: "x \<notin> set xs \<Longrightarrow> wq_list (nx(x := v)) q xs = wq_list nx q xs"
  by (simp add: wq_list_def)

lemma wq_list_next:
  "wq_list nx q (x # xs) \<Longrightarrow> nx x = (if xs = [] then None else Some (hd xs))"
  by (auto simp: wq_list_def dest: wpath_None_head)

subsection \<open>Each operation is its list operation\<close>

lemma wq_push_list [wq_rules]:
  assumes "wq_list nx q xs" and "n \<notin> set xs" and "myio_wq_push nx q n = (b, nx', q')"
  shows "wq_list nx' q' (xs @ [n])" and "b \<longleftrightarrow> xs = []"
proof -
  show "b \<longleftrightarrow> xs = []"
    using assms by (auto simp: myio_wq_push_def wq_list_def split: if_splits)
  show "wq_list nx' q' (xs @ [n])"
  proof (cases "xs = []")
    case True
    with assms show ?thesis by (auto simp: myio_wq_push_def wq_list_def)
  next
    case False
    then obtain ys l where xs: "xs = ys @ [l]" by (cases xs rule: rev_cases) auto
    with assms show ?thesis by (auto simp: myio_wq_push_def wq_list_def)
  qed
qed

lemma wq_pop_list [wq_rules]:
  assumes "wq_list nx q xs" and "xs \<noteq> []"
  shows "\<exists>nx' q'. myio_wq_pop nx q = Some (if tl xs = [] then None else Some (hd (tl xs)), nx', q')
           \<and> wq_list nx' q' (tl xs)"
proof -
  obtain x ys where xs: "xs = x # ys" using assms(2) by (cases xs) auto
  with assms(1) have "wq_head q = Some x" "nx x = (if ys = [] then None else Some (hd ys))"
    by (auto simp: wq_list_def dest: wpath_None_head)
  with assms(1) xs show ?thesis by (auto simp: myio_wq_pop_def wq_list_def)
qed

text \<open>The removal loop, started anywhere inside the queue.\<close>

lemma wq_remove_loop_list:
  assumes "wq_list nx q (as @ bs)" and "n \<notin> set as"
    and "prev = (if as = [] then None else Some (last as))"
    and "c = (if bs = [] then None else Some (hd bs))"
  shows "\<exists>nx' q'. myio_wq_remove_loop nx q n prev c = Some (n \<in> set bs, nx', q')
           \<and> wq_list nx' q' (as @ remove1 n bs)"
  using assms
proof (induction bs arbitrary: as prev c)
  case Nil
  then show ?case by (subst myio_wq_remove_loop.simps) simp
next
  case (Cons b bs)
  show ?case
  proof (cases "b = n")
    case False
    from Cons.prems(1) have "nx b = (if bs = [] then None else Some (hd bs))"
      by (auto simp: wq_list_def dest: wpath_None_head)
    with Cons.IH [of "as @ [b]" "Some b" "nx b"] Cons.prems False show ?thesis
      by (subst myio_wq_remove_loop.simps) auto
  next
    case True
    note q = Cons.prems(1) [unfolded True]
    have d: "distinct (as @ n # bs)" using q by (rule wq_list_distinct)
    have nb: "nx n = (if bs = [] then None else Some (hd bs))"
      using q by (auto simp: wq_list_def dest: wpath_None_head)
    show ?thesis
    proof (cases "as = []")
      case True
      have "bs \<noteq> [] \<Longrightarrow> last bs \<noteq> n" using d last_in_set [of bs] by auto
      with True Cons.prems \<open>b = n\<close> q d show ?thesis
        by (subst myio_wq_remove_loop.simps) (auto simp: wq_list_def)
    next
      case False
      then obtain ys p where as: "as = ys @ [p]" by (cases as rule: rev_cases) auto
      moreover have "bs \<noteq> [] \<Longrightarrow> last bs \<noteq> n" using d last_in_set [of bs] by auto
      ultimately show ?thesis using Cons.prems \<open>b = n\<close> q d
        by (subst myio_wq_remove_loop.simps) (auto simp: wq_list_def)
    qed
  qed
qed

lemma wq_remove_list [wq_rules]:
  assumes "wq_list nx q xs"
  shows "\<exists>nx' q'. myio_wq_remove nx q n = Some (n \<in> set xs, nx', q') \<and> wq_list nx' q' (remove1 n xs)"
  using wq_remove_loop_list [of nx q "[]" xs n None "wq_head q"] assms
  by (simp add: myio_wq_remove_def wq_list_head)

subsection \<open>The contract the backends rely on\<close>

text \<open>
  What a client may assume of the FIFO, with the representation hidden: pushing
  appends and says whether the node is the new head, popping drops the head and
  returns its successor, removal takes out one member.
\<close>

locale fifo =
  fixes repr :: "'h \<Rightarrow> 'q \<Rightarrow> 'n list \<Rightarrow> bool"
    and push :: "'h \<Rightarrow> 'q \<Rightarrow> 'n \<Rightarrow> bool \<times> 'h \<times> 'q"
    and pop :: "'h \<Rightarrow> 'q \<Rightarrow> ('n option \<times> 'h \<times> 'q) option"
    and remove :: "'h \<Rightarrow> 'q \<Rightarrow> 'n \<Rightarrow> (bool \<times> 'h \<times> 'q) option"
  assumes repr_distinct: "repr h q xs \<Longrightarrow> distinct xs"
    and push_repr: "repr h q xs \<Longrightarrow> n \<notin> set xs \<Longrightarrow>
      \<exists>h' q'. push h q n = (xs = [], h', q') \<and> repr h' q' (xs @ [n])"
    and pop_repr: "repr h q xs \<Longrightarrow> xs \<noteq> [] \<Longrightarrow>
      \<exists>h' q'. pop h q = Some (if tl xs = [] then None else Some (hd (tl xs)), h', q') \<and>
        repr h' q' (tl xs)"
    and remove_repr: "repr h q xs \<Longrightarrow>
      \<exists>h' q'. remove h q n = Some (n \<in> set xs, h', q') \<and> repr h' q' (remove1 n xs)"
begin

text \<open>Pushing a batch in order, then popping one head after another.\<close>

fun push_all :: "'h \<Rightarrow> 'q \<Rightarrow> 'n list \<Rightarrow> bool list \<times> 'h \<times> 'q" where
  "push_all h q [] = ([], h, q)"
| "push_all h q (n # ns) =
     (let (b, h, q) = push h q n; (bs, h, q) = push_all h q ns in (b # bs, h, q))"

fun pop_times :: "nat \<Rightarrow> 'h \<Rightarrow> 'q \<Rightarrow> 'n option list option" where
  "pop_times 0 h q = Some []"
| "pop_times (Suc k) h q =
     (case pop h q of
        None \<Rightarrow> None
      | Some (s, h, q) \<Rightarrow> map_option ((#) s) (pop_times k h q))"

lemma push_all_repr:
  "repr h q xs \<Longrightarrow> distinct (xs @ ns) \<Longrightarrow>
     \<exists>h' q'. push_all h q ns = (map (\<lambda>i. xs = [] \<and> i = 0) [0..<length ns], h', q') \<and>
       repr h' q' (xs @ ns)"
proof (induction ns arbitrary: h q xs)
  case Nil
  then show ?case by simp
next
  case (Cons n ns)
  from Cons.prems have "n \<notin> set xs" by auto
  with Cons.prems(1) obtain h1 q1
    where p: "push h q n = (xs = [], h1, q1)" and r: "repr h1 q1 (xs @ [n])"
    by (metis push_repr)
  from Cons.IH [OF r] Cons.prems(2) obtain h2 q2
    where "push_all h1 q1 ns = (map (\<lambda>i. False) [0..<length ns], h2, q2)"
      and "repr h2 q2 (xs @ n # ns)" by auto
  with p show ?case by (simp add: upt_conv_Cons map_Suc_upt [symmetric] del: upt_Suc)
qed

text \<open>Each pop hands over the next element in line, the last one nothing.\<close>

lemma pop_times_repr:
  "repr h q xs \<Longrightarrow> pop_times (length xs) h q = Some (map Some (tl xs) @ (if xs = [] then [] else [None]))"
proof (induction xs arbitrary: h q)
  case Nil
  then show ?case by simp
next
  case (Cons x xs)
  from pop_repr [OF Cons.prems] obtain h' q'
    where p: "pop h q = Some (if xs = [] then None else Some (hd xs), h', q')"
      and r: "repr h' q' xs" by auto
  from Cons.IH [OF r] p show ?case by (cases xs) auto
qed

text \<open>First in, first out: the successors returned are the batch in submission order.\<close>

lemma push_pop_order:
  assumes "repr h q []" and "distinct ns" and "push_all h q ns = (bs, h', q')"
  shows "pop_times (length ns) h' q' = Some (map Some (tl ns) @ (if ns = [] then [] else [None]))"
  using push_all_repr [OF assms(1), of ns] pop_times_repr [of h' q' ns] assms(2,3) by auto

end

interpretation wq: fifo wq_list myio_wq_push myio_wq_pop myio_wq_remove
proof
  show "wq_list nx q xs \<Longrightarrow> distinct xs" for nx q xs by (rule wq_list_distinct)
  show "wq_list nx q xs \<Longrightarrow> n \<notin> set xs \<Longrightarrow>
      \<exists>h' q'. myio_wq_push nx q n = (xs = [], h', q') \<and> wq_list h' q' (xs @ [n])" for nx q xs n
    by (cases "myio_wq_push nx q n") (auto dest: wq_push_list)
qed (fact wq_pop_list, fact wq_remove_list)

subsection \<open>Correctness of the FIFO\<close>

text \<open>
  Removal takes exactly the named node out, keeps everyone else in order, reports
  whether it was queued, always returns, and leaves every other queue of the same
  link heap as it was.
\<close>

lemma wq_remove_loop_links:
  assumes "wq_list nx q (as @ bs)"
    and "prev = (if as = [] then None else Some (last as))" and "c = (if bs = [] then None else Some (hd bs))"
    and "myio_wq_remove_loop nx q n prev c = Some (b, nx', q')" and "a \<notin> set (as @ bs)" and "a \<noteq> n"
  shows "nx' a = nx a"
  using assms
proof (induction bs arbitrary: as prev c)
  case Nil
  then show ?case using myio_wq_remove_loop.simps [of nx q n prev c] by simp
next
  case (Cons x bs)
  have eq: "myio_wq_remove_loop nx q n prev (Some x) = Some (b, nx', q')"
    using Cons.prems(3,4) by simp
  have nxx: "nx x = (if bs = [] then None else Some (hd bs))"
    using Cons.prems(1) by (auto simp: wq_list_def dest: wpath_None_head)
  show ?case
  proof (cases "x = n")
    case True
    have "as \<noteq> [] \<Longrightarrow> a \<noteq> last as" using Cons.prems(5) last_in_set [of as] by auto
    with True eq Cons.prems(2,6) show ?thesis
      using myio_wq_remove_loop.simps [of nx q n prev "Some x"]
      by (auto split: option.splits if_splits)
  next
    case False
    with eq have "myio_wq_remove_loop nx q n (Some x) (nx x) = Some (b, nx', q')"
      using myio_wq_remove_loop.simps [of nx q n prev "Some x"] by simp
    with Cons.IH [of "as @ [x]" "Some x" "nx x"] Cons.prems(1,5,6) nxx show ?thesis by simp
  qed
qed

lemma wpath_cong: "(\<And>a. a \<in> set xs \<Longrightarrow> nx' a = nx a) \<Longrightarrow> wpath nx' p xs r = wpath nx p xs r"
  by (induction xs arbitrary: p) auto

lemma wq_remove_frame:
  assumes "wq_list nx q xs" and "wq_list nx r ys" and "set xs \<inter> set ys = {}" and "n \<notin> set ys"
    and "myio_wq_remove nx q n = Some (b, nx', q')"
  shows "wq_list nx' r ys"
proof -
  have "nx' a = nx a" if "a \<in> set ys" for a
  proof (rule wq_remove_loop_links [of nx q "[]" xs None "wq_head q" n b nx' q'])
    show "a \<notin> set ([] @ xs)" "a \<noteq> n" using that assms(3,4) by auto
  qed (use assms(1,5) in \<open>auto simp: myio_wq_remove_def wq_list_head\<close>)
  then have "wpath nx' (wq_head r) ys None = wpath nx (wq_head r) ys None"
    by (rule wpath_cong)
  with assms(2) show ?thesis by (simp add: wq_list_def)
qed

lemma wq_push_frame:
  assumes "wq_list nx q xs" and "wq_list nx r ys" and "set xs \<inter> set ys = {}" and "n \<notin> set ys"
    and "myio_wq_push nx q n = (b, nx', q')"
  shows "wq_list nx' r ys"
proof -
  have "wq_tail q = Some l \<Longrightarrow> l \<notin> set ys" for l
    using assms(1,3) last_in_set [of xs] by (fastforce simp: wq_list_def split: if_splits)
  with assms(2,4,5) show ?thesis
    by (auto simp: myio_wq_push_def Let_def wq_list_frame split: option.splits)
qed

lemma wq_pop_frame:
  assumes "wq_list nx q xs" and "wq_list nx r ys" and "set xs \<inter> set ys = {}"
    and "myio_wq_pop nx q = Some (s, nx', q')"
  shows "wq_list nx' r ys"
proof -
  from assms(1,4) obtain n where "wq_head q = Some n" "n \<in> set xs" "nx' = nx(n := None)"
    by (cases xs) (auto simp: myio_wq_pop_def wq_list_head Let_def)
  moreover from this(2) assms(3) have "n \<notin> set ys" by auto
  ultimately show ?thesis using assms(2) by (simp add: wq_list_frame)
qed

end
