(* ===== verification/Myio_Dlist.thy ===== *)
theory Myio_Dlist
  imports Myio_Prelude
begin

text \<open>
  The intrusive doubly linked registries the backends keep (live tasks and live
  sockets of \<^verbatim>\<open>src/src/myio_uring.c\<close>, live sockets of \<^verbatim>\<open>src/src/myio_pool.c\<close>), at the
  level of their pointers: the head and the \<^verbatim>\<open>next\<close>/\<^verbatim>\<open>prev\<close> field of every node.
  The two sources unlink slightly differently; both are shown to implement the
  same contract, the locale \<open>registry\<close>.
\<close>

record dlist =
  dl_head :: ptr
  dl_next :: "addr \<Rightarrow> ptr"
  dl_prev :: "addr \<Rightarrow> ptr"

definition dl_empty :: dlist where
  "dl_empty = \<lparr>dl_head = None, dl_next = (\<lambda>_. None), dl_prev = (\<lambda>_. None)\<rparr>"

text \<open>A node from \<^verbatim>\<open>calloc\<close> has null links.\<close>

definition dl_zero :: "dlist \<Rightarrow> addr \<Rightarrow> dlist" where
  "dl_zero d n = d\<lparr>dl_next := (dl_next d)(n := None), dl_prev := (dl_prev d)(n := None)\<rparr>"

definition dl_link :: "dlist \<Rightarrow> addr \<Rightarrow> dlist" where
  "dl_link d n =
     (let d = d\<lparr>dl_next := (dl_next d)(n := dl_head d)\<rparr>;
          d = (case dl_head d of
                 Some h \<Rightarrow> d\<lparr>dl_prev := (dl_prev d)(h := Some n)\<rparr>
               | None \<Rightarrow> d)
      in d\<lparr>dl_head := Some n\<rparr>)"

text \<open>The io_uring backend moves the head only when it really is this node.\<close>

definition dl_unlink :: "dlist \<Rightarrow> addr \<Rightarrow> dlist" where
  "dl_unlink d n =
     (let d = (case dl_prev d n of
                 Some p \<Rightarrow> d\<lparr>dl_next := (dl_next d)(p := dl_next d n)\<rparr>
               | None \<Rightarrow> if dl_head d = Some n then d\<lparr>dl_head := dl_next d n\<rparr> else d)
      in case dl_next d n of
           Some m \<Rightarrow> d\<lparr>dl_prev := (dl_prev d)(m := dl_prev d n)\<rparr>
         | None \<Rightarrow> d)"

text \<open>The pool takes a node without predecessor to be the head.\<close>

definition dl_unlink_head :: "dlist \<Rightarrow> addr \<Rightarrow> dlist" where
  "dl_unlink_head d n =
     (let d = (case dl_prev d n of
                 Some p \<Rightarrow> d\<lparr>dl_next := (dl_next d)(p := dl_next d n)\<rparr>
               | None \<Rightarrow> d\<lparr>dl_head := dl_next d n\<rparr>)
      in case dl_next d n of
           Some m \<Rightarrow> d\<lparr>dl_prev := (dl_prev d)(m := dl_prev d n)\<rparr>
         | None \<Rightarrow> d)"

subsection \<open>The abstract list\<close>

text \<open>
  \<open>dpath nx pv q p xs r\<close>: the chain from \<open>p\<close> to \<open>r\<close> is \<open>xs\<close>, each node pointing
  back to the one before, the first to \<open>q\<close>.
\<close>

fun dpath :: "(addr \<Rightarrow> ptr) \<Rightarrow> (addr \<Rightarrow> ptr) \<Rightarrow> ptr \<Rightarrow> ptr \<Rightarrow> addr list \<Rightarrow> ptr \<Rightarrow> bool" where
  "dpath nx pv q p [] r \<longleftrightarrow> p = r"
| "dpath nx pv q p (x # xs) r \<longleftrightarrow> p = Some x \<and> pv x = q \<and> dpath nx pv (Some x) (nx x) xs r"

definition dl_list :: "dlist \<Rightarrow> addr list \<Rightarrow> bool" where
  "dl_list d xs \<longleftrightarrow> dpath (dl_next d) (dl_prev d) None (dl_head d) xs None \<and> distinct xs"

lemma dpath_frame [simp]:
  "x \<notin> set xs \<Longrightarrow> dpath (nx(x := v)) pv q p xs r = dpath nx pv q p xs r"
  "x \<notin> set xs \<Longrightarrow> dpath nx (pv(x := v)) q p xs r = dpath nx pv q p xs r"
  by (induction xs arbitrary: q p) auto

lemma dpath_head: "dpath nx pv q p xs None \<Longrightarrow> p = (if xs = [] then None else Some (hd xs))"
  by (cases xs) auto

lemma dl_list_head: "dl_list d xs \<Longrightarrow> dl_head d = (if xs = [] then None else Some (hd xs))"
  by (auto simp: dl_list_def dest: dpath_head)

lemma dl_list_empty [simp]: "dl_list dl_empty xs \<longleftrightarrow> xs = []"
  by (cases xs) (auto simp: dl_list_def dl_empty_def)

lemma dl_list_distinct: "dl_list d xs \<Longrightarrow> distinct xs"
  by (simp add: dl_list_def)

lemma dpath_unique: "dpath nx pv q p xs None \<Longrightarrow> dpath nx pv q p ys None \<Longrightarrow> xs = ys"
proof (induction xs arbitrary: q p ys)
  case Nil
  then show ?case by (cases ys) auto
next
  case (Cons x xs)
  then show ?case by (cases ys) auto
qed

lemma dl_list_unique: "dl_list d xs \<Longrightarrow> dl_list d ys \<Longrightarrow> xs = ys"
  by (auto simp: dl_list_def dest: dpath_unique)

lemma dl_link_list [dl_rules]:
  assumes "dl_list d xs" and "n \<notin> set xs"
  shows "dl_list (dl_link (dl_zero d n) n) (n # xs)"
  using assms by (cases xs) (auto simp: dl_list_def dl_link_def dl_zero_def Let_def)

text \<open>A member sits between its predecessor and its successor.\<close>

lemma dpath_append:
  "dpath nx pv q p (as @ bs) r \<longleftrightarrow>
     (\<exists>m. dpath nx pv q p as m \<and> dpath nx pv (if as = [] then q else Some (last as)) m bs r)"
  by (induction as arbitrary: q p) auto

lemma dl_unlink_split:
  assumes "dl_list d (as @ n # bs)"
  shows "dl_prev d n = (if as = [] then None else Some (last as))"
    and "dl_next d n = (if bs = [] then None else Some (hd bs))"
    and "as = [] \<Longrightarrow> dl_head d = Some n"
proof -
  from assms have p: "dl_prev d n = (if as = [] then None else Some (last as))"
    and r: "dpath (dl_next d) (dl_prev d) (Some n) (dl_next d n) bs None"
    by (auto simp: dl_list_def dpath_append)
  show "dl_prev d n = (if as = [] then None else Some (last as))" by (rule p)
  show "dl_next d n = (if bs = [] then None else Some (hd bs))" using dpath_head [OF r] .
  show "as = [] \<Longrightarrow> dl_head d = Some n" using assms by (simp add: dl_list_def)
qed

lemma dl_unlink_list [dl_rules]:
  assumes "dl_list d (as @ n # bs)"
  shows "dl_list (dl_unlink d n) (as @ bs)" and "dl_list (dl_unlink_head d n) (as @ bs)"
proof -
  note sp = dl_unlink_split [OF assms]
  have d: "distinct (as @ n # bs)" using assms by (rule dl_list_distinct)
  have eq: "dl_unlink d n = dl_unlink_head d n"
    using sp by (simp add: dl_unlink_def dl_unlink_head_def split: option.splits)
  have "dl_list (dl_unlink_head d n) (as @ bs)"
  proof (cases as rule: rev_cases)
    case Nil
    with assms sp d show ?thesis
      by (cases bs) (auto simp: dl_list_def dl_unlink_head_def Let_def)
  next
    case (snoc cs c)
    with assms sp d show ?thesis
      by (cases bs) (auto simp: dl_list_def dl_unlink_head_def Let_def dpath_append)
  qed
  with eq show "dl_list (dl_unlink d n) (as @ bs)" "dl_list (dl_unlink_head d n) (as @ bs)" by simp_all
qed

subsection \<open>The contract of a registry\<close>

locale registry =
  fixes repr :: "'d \<Rightarrow> 'n list \<Rightarrow> bool"
    and link :: "'d \<Rightarrow> 'n \<Rightarrow> 'd"
    and unlink :: "'d \<Rightarrow> 'n \<Rightarrow> 'd"
  assumes repr_distinct: "repr d xs \<Longrightarrow> distinct xs"
    and link_repr: "repr d xs \<Longrightarrow> n \<notin> set xs \<Longrightarrow> repr (link d n) (n # xs)"
    and unlink_repr: "repr d (as @ n # bs) \<Longrightarrow> repr (unlink d n) (as @ bs)"
begin

text \<open>Members registered: the set a walk over the registry visits.\<close>

definition members :: "'d \<Rightarrow> 'n set \<Rightarrow> bool" where
  "members d A \<longleftrightarrow> (\<exists>xs. repr d xs \<and> set xs = A)"

lemma members_link: "members d A \<Longrightarrow> n \<notin> A \<Longrightarrow> members (link d n) (insert n A)"
  unfolding members_def using link_repr by fastforce

lemma members_unlink: "members d A \<Longrightarrow> n \<in> A \<Longrightarrow> members (unlink d n) (A - {n})"
proof -
  assume "members d A" and "n \<in> A"
  then obtain as bs where r: "repr d (as @ n # bs)" and A: "A = set (as @ n # bs)"
    unfolding members_def by (metis split_list)
  with repr_distinct [OF r] have "set (as @ bs) = A - {n}" by auto
  with unlink_repr [OF r] show ?thesis unfolding members_def by blast
qed

lemma members_finite: "members d A \<Longrightarrow> finite A"
  unfolding members_def by auto

end

interpretation dl: registry dl_list "\<lambda>d n. dl_link (dl_zero d n) n" dl_unlink
  by unfold_locales (auto intro: dl_list_distinct dl_link_list dl_unlink_list)

interpretation dlh: registry dl_list "\<lambda>d n. dl_link (dl_zero d n) n" dl_unlink_head
  by unfold_locales (auto intro: dl_list_distinct dl_link_list dl_unlink_list)

end
