(* ===== verification/Myio_Uring.thy ===== *)
theory Myio_Uring
  imports Myio_Common Myio_Wq Myio_Dlist
begin

text \<open>
  The io_uring backend, \<^verbatim>\<open>src/src/myio_uring.c\<close>, function by function. Tasks and
  sockets are heap objects; the intrusive task and socket lists are the registries
  of \<open>Myio_Dlist\<close>, the per-socket write FIFO is the queue of \<open>Myio_Wq\<close>. The ring is the
  environment: an SQE is handed over by a call \<open>C_sqe\<close>, a CQE is what \<open>C_peek_cqe\<close>
  answers. A null or dangling pointer that the code dereferences sets the fault flag
  of the machine, and so does a counter decremented below zero.
\<close>

datatype task_kind =
    TASK_OPEN | TASK_CLOSE | TASK_READ | TASK_WRITE | TASK_SLEEP | TASK_SPAWN
  | TASK_CONNECT | TASK_ACCEPT | TASK_SOCK_READ | TASK_SOCK_WRITE | TASK_SOCK_CLOSE

record uring_task =
  ut_kind :: task_kind
  ut_done :: bool
  ut_detached :: bool
  ut_res :: myio_result
  ut_sock :: ptr
  ut_newsock :: ptr
  ut_path :: "string option"
  ut_ts :: "int \<times> int"
  ut_addr :: sockaddr
  ut_wfd :: int
  ut_wbuf :: "byte list"
  ut_wsent :: nat
  ut_wcanceled :: bool

record uring_sock =
  us_fd :: int
  us_read_task :: ptr
  us_accept_task :: ptr
  us_wq :: myio_wq

record uring_io = mach +
  u_inflight :: nat
  u_tasks :: dlist
  u_socks :: dlist
  u_th :: "addr \<rightharpoonup> uring_task"
  u_sh :: "addr \<rightharpoonup> uring_sock"
  u_wnext :: wlinks
  u_errbuf :: string

text \<open>What \<^verbatim>\<open>calloc\<close> and the first assignments make of a task, a socket.\<close>

definition uring_task0 :: "task_kind \<Rightarrow> uring_task" where
  "uring_task0 k = \<lparr>ut_kind = k, ut_done = False, ut_detached = False, ut_res = result0,
     ut_sock = None, ut_newsock = None, ut_path = None, ut_ts = (0, 0),
     ut_addr = \<lparr>ss_family = 0, ss_port = 0, ss_addr = []\<rparr>, ut_wfd = 0, ut_wbuf = [],
     ut_wsent = 0, ut_wcanceled = False\<rparr>"

definition uring_sock0 :: "int \<Rightarrow> uring_sock" where
  "uring_sock0 fd = \<lparr>us_fd = fd, us_read_task = None, us_accept_task = None, us_wq = myio_wq_empty\<rparr>"

subsection \<open>Access through pointers\<close>

definition ut :: "uring_io \<Rightarrow> addr \<Rightarrow> uring_task" where
  "ut u t = (case u_th u t of Some x \<Rightarrow> x | None \<Rightarrow> uring_task0 TASK_OPEN)"

definition us :: "uring_io \<Rightarrow> addr \<Rightarrow> uring_sock" where
  "us u s = (case u_sh u s of Some x \<Rightarrow> x | None \<Rightarrow> uring_sock0 (- 1))"

definition upd_ut :: "addr \<Rightarrow> (uring_task \<Rightarrow> uring_task) \<Rightarrow> uring_io \<Rightarrow> uring_io" where
  "upd_ut t f u = (case u_th u t of
     None \<Rightarrow> m_flag u
   | Some x \<Rightarrow> u\<lparr>u_th := (u_th u)(t \<mapsto> f x)\<rparr>)"

definition upd_us :: "addr \<Rightarrow> (uring_sock \<Rightarrow> uring_sock) \<Rightarrow> uring_io \<Rightarrow> uring_io" where
  "upd_us s f u = (case u_sh u s of
     None \<Rightarrow> m_flag u
   | Some x \<Rightarrow> u\<lparr>u_sh := (u_sh u)(s \<mapsto> f x)\<rparr>)"

definition chk_ut :: "addr \<Rightarrow> uring_io \<Rightarrow> uring_io" where
  "chk_ut t u = (if u_th u t = None then m_flag u else u)"

definition chk_us :: "addr \<Rightarrow> uring_io \<Rightarrow> uring_io" where
  "chk_us s u = (if u_sh u s = None then m_flag u else u)"

definition free_ut :: "addr \<Rightarrow> uring_io \<Rightarrow> uring_io" where
  "free_ut t u = (chk_ut t u)\<lparr>u_th := (u_th u)(t := None)\<rparr>"

definition free_us :: "addr \<Rightarrow> uring_io \<Rightarrow> uring_io" where
  "free_us s u = (chk_us s u)\<lparr>u_sh := (u_sh u)(s := None)\<rparr>"

subsection \<open>Intrusive lists, task and socket lifecycle\<close>

definition uring_task_link :: "uring_io \<Rightarrow> addr \<Rightarrow> uring_io" where
  "uring_task_link u t = u\<lparr>u_tasks := dl_link (u_tasks u) t\<rparr>"

definition uring_task_unlink :: "uring_io \<Rightarrow> addr \<Rightarrow> uring_io" where
  "uring_task_unlink u t = u\<lparr>u_tasks := dl_unlink (u_tasks u) t\<rparr>"

definition uring_sock_unlink :: "uring_io \<Rightarrow> addr \<Rightarrow> uring_io" where
  "uring_sock_unlink u s = u\<lparr>u_socks := dl_unlink (u_socks u) s\<rparr>"

definition uring_task_new :: "os \<Rightarrow> uring_io \<Rightarrow> task_kind \<Rightarrow> ptr \<times> uring_io" where
  "uring_task_new os u kind =
     (let (p, u) = sys_alloc os u in
      case p of
        None \<Rightarrow> (None, u)
      | Some t \<Rightarrow>
          (Some t, uring_task_link
             (u\<lparr>u_th := (u_th u)(t \<mapsto> uring_task0 kind), u_tasks := dl_zero (u_tasks u) t,
                u_wnext := (u_wnext u)(t := None)\<rparr>) t))"

definition uring_task_fail :: "uring_io \<Rightarrow> addr \<Rightarrow> int \<Rightarrow> ptr \<times> uring_io" where
  "uring_task_fail u t err =
     (Some t, upd_ut t (\<lambda>x. x\<lparr>ut_res := (ut_res x)\<lparr>res_status := MYIO_ERROR, res_error := err\<rparr>,
        ut_done := True\<rparr>) u)"

definition uring_sock_new :: "os \<Rightarrow> uring_io \<Rightarrow> int \<Rightarrow> ptr \<times> uring_io" where
  "uring_sock_new os u fd =
     (let (p, u) = sys_alloc os u in
      case p of
        None \<Rightarrow> (None, u)
      | Some s \<Rightarrow>
          (Some s, u\<lparr>u_sh := (u_sh u)(s \<mapsto> uring_sock0 fd),
             u_socks := dl_link (dl_zero (u_socks u) s) s\<rparr>))"

definition uring_sock_close_now :: "os \<Rightarrow> uring_io \<Rightarrow> addr \<Rightarrow> uring_io" where
  "uring_sock_close_now os u s =
     (let u = chk_us s u;
          u = (if us_fd (us u s) \<ge> 0 then snd (sys_call os (C_close (us_fd (us u s))) u) else u);
          u = uring_sock_unlink u s
      in free_us s u)"

definition uring_task_reap :: "os \<Rightarrow> uring_io \<Rightarrow> addr \<Rightarrow> uring_io" where
  "uring_task_reap os u t =
     (let u = chk_ut t u;
          u = (case res_ptr (ut_res (ut u t)) of
                 Some s \<Rightarrow> uring_sock_close_now os u s
               | None \<Rightarrow> u);
          u = uring_task_unlink u t
      in free_ut t u)"

definition uring_task_finish :: "os \<Rightarrow> uring_io \<Rightarrow> addr \<Rightarrow> uring_io" where
  "uring_task_finish os u t =
     (let u = upd_ut t (\<lambda>x. x\<lparr>ut_done := True\<rparr>) u in
      if ut_detached (ut u t) then uring_task_reap os u t else u)"

text \<open>The status a completion with value \<open>res\<close> gives a task.\<close>

definition complete_res :: "int \<Rightarrow> myio_result \<Rightarrow> myio_result" where
  "complete_res res r =
     (if res \<ge> 0 then r\<lparr>res_status := MYIO_OK, res_value := res\<rparr>
      else if res = - ECANCELED then r\<lparr>res_status := MYIO_CANCELED\<rparr>
      else r\<lparr>res_status := MYIO_ERROR, res_error := c_int (- res)\<rparr>)"

definition uring_task_complete :: "os \<Rightarrow> uring_io \<Rightarrow> addr \<Rightarrow> int \<Rightarrow> uring_io" where
  "uring_task_complete os u t res =
     uring_task_finish os (upd_ut t (\<lambda>x. x\<lparr>ut_res := complete_res res (ut_res x)\<rparr>) u) t"

subsection \<open>SQE submission\<close>

definition sqe_get :: "os \<Rightarrow> uring_io \<Rightarrow> bool \<times> uring_io" where
  "sqe_get os u =
     (let (a, u) = sys_call os C_get_sqe u in
      if a_ret a \<noteq> 0 then (True, u)
      else
        let (_, u) = sys_call os C_ring_submit u;
            (a, u) = sys_call os C_get_sqe u
        in (a_ret a \<noteq> 0, u))"

text \<open>Prepare the entry, tag it, flush it: the kernel owns it from here on.\<close>

definition sqe_flush :: "os \<Rightarrow> uring_io \<Rightarrow> sqe \<Rightarrow> udata \<Rightarrow> uring_io" where
  "sqe_flush os u q d =
     (let (_, u) = sys_call os (C_sqe q d) u in u\<lparr>u_inflight := Suc (u_inflight u)\<rparr>)"

subsection \<open>The per-socket write FIFO\<close>

definition uring_write_arm :: "os \<Rightarrow> uring_io \<Rightarrow> addr \<Rightarrow> bool \<times> uring_io" where
  "uring_write_arm os u t =
     (let (ok, u) = sqe_get os u in
      if \<not> ok then (False, u)
      else
        let u = chk_ut t u; x = ut u t
        in (True, sqe_flush os u (Sqe_send (ut_wfd x) (drop (ut_wsent x) (ut_wbuf x))) (Ud_task t)))"

definition uring_wq_push :: "uring_io \<Rightarrow> addr \<Rightarrow> addr \<Rightarrow> bool \<times> uring_io" where
  "uring_wq_push u s t =
     (let (b, nx, q) = myio_wq_push (u_wnext u) (us_wq (us u s)) t
      in (b, upd_us s (\<lambda>y. y\<lparr>us_wq := q\<rparr>) (u\<lparr>u_wnext := nx\<rparr>)))"

definition uring_wq_pop :: "uring_io \<Rightarrow> addr \<Rightarrow> ptr \<times> uring_io" where
  "uring_wq_pop u s =
     (case myio_wq_pop (u_wnext u) (us_wq (us u s)) of
        None \<Rightarrow> (None, m_flag u)
      | Some (h, nx, q) \<Rightarrow> (h, upd_us s (\<lambda>y. y\<lparr>us_wq := q\<rparr>) (u\<lparr>u_wnext := nx\<rparr>)))"

definition uring_wq_remove :: "uring_io \<Rightarrow> addr \<Rightarrow> addr \<Rightarrow> uring_io" where
  "uring_wq_remove u s t =
     (case myio_wq_remove (u_wnext u) (us_wq (us u s)) t of
        None \<Rightarrow> m_flag u
      | Some (b, nx, q) \<Rightarrow> upd_us s (\<lambda>y. y\<lparr>us_wq := q\<rparr>) (u\<lparr>u_wnext := nx\<rparr>))"

text \<open>
  The promotion loop of \<^verbatim>\<open>write_finish\<close>. Each round pops one node, and the nodes of a
  queue are distinct allocated addresses, so \<open>m_brk\<close> rounds always suffice; running
  out is recorded as a fault.
\<close>

fun uring_promote :: "os \<Rightarrow> nat \<Rightarrow> uring_io \<Rightarrow> addr \<Rightarrow> ptr \<Rightarrow> uring_io" where
  "uring_promote os fuel u s None = u"
| "uring_promote os 0 u s (Some n) = m_flag u"
| "uring_promote os (Suc fuel) u s (Some n) =
     (let (ok, u) = uring_write_arm os u n in
      if ok then u
      else
        let (h, u) = uring_wq_pop u s;
            u = upd_ut n (\<lambda>x. x\<lparr>ut_sock := None\<rparr>) u;
            u = uring_task_complete os u n (- EAGAIN)
        in uring_promote os fuel u s h)"

definition uring_write_finish :: "os \<Rightarrow> uring_io \<Rightarrow> addr \<Rightarrow> int \<Rightarrow> uring_io" where
  "uring_write_finish os u t res =
     (let s = ut_sock (ut u t);
          u = upd_ut t (\<lambda>x. x\<lparr>ut_sock := None\<rparr>) u;
          u = (case s of
                 None \<Rightarrow> u
               | Some s \<Rightarrow> let (h, u) = uring_wq_pop u s in uring_promote os (m_brk u) u s h)
      in uring_task_complete os u t res)"

subsection \<open>The drive loop\<close>

definition uring_dispatch :: "os \<Rightarrow> uring_io \<Rightarrow> addr \<Rightarrow> int \<Rightarrow> uring_io" where
  "uring_dispatch os u t res =
     (let u = chk_ut t u; x = ut u t in
      case ut_kind x of
        TASK_SLEEP \<Rightarrow> uring_task_complete os u t (if res = - ETIME then 0 else res)
      | TASK_CONNECT \<Rightarrow>
          if res = 0 then
            let u = upd_ut t (\<lambda>x. x\<lparr>ut_res := (ut_res x)\<lparr>res_ptr := ut_sock x\<rparr>, ut_sock := None\<rparr>) u
            in uring_task_complete os u t 0
          else
            let u = (case ut_sock x of Some s \<Rightarrow> uring_sock_close_now os u s | None \<Rightarrow> m_flag u);
                u = upd_ut t (\<lambda>x. x\<lparr>ut_sock := None\<rparr>) u
            in uring_task_complete os u t res
      | TASK_ACCEPT \<Rightarrow>
          let u = (case ut_sock x of
                     Some s \<Rightarrow>
                       let u = chk_us s u in
                       if us_accept_task (us u s) = Some t
                       then upd_us s (\<lambda>y. y\<lparr>us_accept_task := None\<rparr>) u else u
                   | None \<Rightarrow> u)
          in if res \<ge> 0 then
               let u = (case ut_newsock x of
                          Some n \<Rightarrow> upd_us n (\<lambda>y. y\<lparr>us_fd := res\<rparr>) u
                        | None \<Rightarrow> m_flag u);
                   u = upd_ut t (\<lambda>x. x\<lparr>ut_res := (ut_res x)\<lparr>res_ptr := ut_newsock x\<rparr>, ut_newsock := None\<rparr>) u
               in uring_task_complete os u t 0
             else
               let u = (case ut_newsock x of
                          Some n \<Rightarrow> uring_sock_close_now os u n
                        | None \<Rightarrow> m_flag u);
                   u = upd_ut t (\<lambda>x. x\<lparr>ut_newsock := None\<rparr>) u
               in uring_task_complete os u t res
      | TASK_SOCK_READ \<Rightarrow>
          let u = (case ut_sock x of
                     Some s \<Rightarrow>
                       let u = chk_us s u in
                       if us_read_task (us u s) = Some t
                       then upd_us s (\<lambda>y. y\<lparr>us_read_task := None\<rparr>) u else u
                   | None \<Rightarrow> u)
          in uring_task_complete os u t res
      | TASK_SOCK_WRITE \<Rightarrow>
          if res < 0 then uring_write_finish os u t res
          else
            let u = upd_ut t (\<lambda>x. x\<lparr>ut_wsent := ut_wsent x + nat res\<rparr>) u; x = ut u t in
            if ut_wsent x < length (ut_wbuf x) then
              if ut_sock x = None \<or> ut_wcanceled x then uring_write_finish os u t (- ECANCELED)
              else
                let (ok, u) = uring_write_arm os u t in
                if \<not> ok then uring_write_finish os u t (- EAGAIN) else u
            else uring_write_finish os u t (int (length (ut_wbuf x)))
      | TASK_SOCK_CLOSE \<Rightarrow>
          let s = ut_sock x;
              u = upd_ut t (\<lambda>x. x\<lparr>ut_sock := None\<rparr>) u;
              u = (case s of
                     Some s \<Rightarrow> free_us s (uring_sock_unlink u s)
                   | None \<Rightarrow> u)
          in uring_task_complete os u t res
      | _ \<Rightarrow> uring_task_complete os u t res)"

text \<open>
  The completion queue has room for twice the 256 entries the ring is created with,
  and nothing is consumed before the loop ends: one drain sees at most 512 CQEs.
\<close>

definition CQ_ENTRIES :: nat where "CQ_ENTRIES = 512"

definition uring_dec :: "uring_io \<Rightarrow> uring_io" where
  "uring_dec u = (if u_inflight u = 0 then m_flag u else u\<lparr>u_inflight := u_inflight u - 1\<rparr>)"

fun uring_drain :: "os \<Rightarrow> nat \<Rightarrow> uring_io \<Rightarrow> uring_io" where
  "uring_drain os 0 u = u"
| "uring_drain os (Suc n) u =
     (let (a, u) = sys_call os C_peek_cqe u in
      case a_cqe a of
        None \<Rightarrow> u
      | Some (d, res) \<Rightarrow>
          let u = uring_dec u;
              u = (case d of Ud_cancel \<Rightarrow> u | Ud_task t \<Rightarrow> uring_dispatch os u t res)
          in uring_drain os n u)"

definition uring_drain_cqes :: "os \<Rightarrow> uring_io \<Rightarrow> uring_io" where
  "uring_drain_cqes os u = uring_drain os CQ_ENTRIES u"

definition uring_step :: "os \<Rightarrow> uring_io \<Rightarrow> bool \<times> uring_io" where
  "uring_step os u =
     (if u_inflight u = 0 then (False, u)
      else
        let (_, u) = sys_call os C_submit_and_wait u
        in (True, uring_drain_cqes os u))"

subsection \<open>Files, timers, spawned functions\<close>

text \<open>The common tail of the simple submits: get an SQE or fail with \<open>EAGAIN\<close>, flush it.\<close>

definition uring_submit_sqe :: "os \<Rightarrow> uring_io \<Rightarrow> addr \<Rightarrow> sqe \<Rightarrow> ptr \<times> uring_io" where
  "uring_submit_sqe os u t q =
     (let (ok, u) = sqe_get os u in
      if \<not> ok then uring_task_fail u t EAGAIN else (Some t, sqe_flush os u q (Ud_task t)))"

definition uring_open :: "os \<Rightarrow> uring_io \<Rightarrow> string \<Rightarrow> int \<Rightarrow> int \<Rightarrow> ptr \<times> uring_io" where
  "uring_open os u path flags mode =
     (let (p, u) = uring_task_new os u TASK_OPEN in
      case p of
        None \<Rightarrow> (None, u)
      | Some t \<Rightarrow>
          let (a, u) = sys_call os (C_strdup path) u in
          if a_ret a = 0 then uring_task_fail u t ENOMEM
          else uring_submit_sqe os (upd_ut t (\<lambda>x. x\<lparr>ut_path := Some path\<rparr>) u) t (Sqe_openat path flags mode))"

definition uring_close :: "os \<Rightarrow> uring_io \<Rightarrow> int \<Rightarrow> ptr \<times> uring_io" where
  "uring_close os u fd =
     (let (p, u) = uring_task_new os u TASK_CLOSE in
      case p of
        None \<Rightarrow> (None, u)
      | Some t \<Rightarrow> uring_submit_sqe os u t (Sqe_close (c_int fd)))"

definition uring_read :: "os \<Rightarrow> uring_io \<Rightarrow> int \<Rightarrow> addr \<Rightarrow> nat \<Rightarrow> int \<Rightarrow> ptr \<times> uring_io" where
  "uring_read os u fd buf len offset =
     (let (p, u) = uring_task_new os u TASK_READ in
      case p of
        None \<Rightarrow> (None, u)
      | Some t \<Rightarrow> uring_submit_sqe os u t (Sqe_read (c_int fd) buf (len mod 2 ^ 32) offset))"

definition uring_write :: "os \<Rightarrow> uring_io \<Rightarrow> int \<Rightarrow> byte list \<Rightarrow> int \<Rightarrow> ptr \<times> uring_io" where
  "uring_write os u fd buf offset =
     (let (p, u) = uring_task_new os u TASK_WRITE in
      case p of
        None \<Rightarrow> (None, u)
      | Some t \<Rightarrow> uring_submit_sqe os u t (Sqe_write (c_int fd) (take (length buf mod 2 ^ 32) buf) offset))"

definition uring_sleep :: "os \<Rightarrow> uring_io \<Rightarrow> nat \<Rightarrow> ptr \<times> uring_io" where
  "uring_sleep os u ms =
     (let (p, u) = uring_task_new os u TASK_SLEEP in
      case p of
        None \<Rightarrow> (None, u)
      | Some t \<Rightarrow>
          let ts = (int (ms div 1000), int (ms mod 1000) * 1000000);
              u = upd_ut t (\<lambda>x. x\<lparr>ut_ts := ts\<rparr>) u
          in uring_submit_sqe os u t (Sqe_timeout (fst ts) (snd ts)))"

definition uring_spawn :: "os \<Rightarrow> uring_io \<Rightarrow> addr \<Rightarrow> addr \<Rightarrow> ptr \<times> uring_io" where
  "uring_spawn os u fn arg =
     (let (p, u) = uring_task_new os u TASK_SPAWN in
      case p of
        None \<Rightarrow> (None, u)
      | Some t \<Rightarrow>
          let (a, u) = sys_call os (C_fn fn arg) u; ret = a_ret a;
              u = upd_ut t (\<lambda>x. x\<lparr>ut_res :=
                    (if ret \<ge> 0 then (ut_res x)\<lparr>res_status := MYIO_OK, res_value := ret\<rparr>
                     else (ut_res x)\<lparr>res_status := MYIO_ERROR, res_error := c_int (- ret)\<rparr>),
                    ut_done := True\<rparr>) u
          in (Some t, u))"

subsection \<open>TCP: connect, listen, accept\<close>

definition uring_tcp_connect :: "os \<Rightarrow> uring_io \<Rightarrow> string \<Rightarrow> int \<Rightarrow> ptr \<times> uring_io" where
  "uring_tcp_connect os u host port =
     (let (p, u) = uring_task_new os u TASK_CONNECT in
      case p of
        None \<Rightarrow> (None, u)
      | Some t \<Rightarrow>
          let (a, u) = sys_call os (C_getaddrinfo host (snprintf_d 16 port) False) u in
          if a_ret a \<noteq> 0 then uring_task_fail u t (gai_errno (a_ret a) (a_errno a))
          else case a_addrs a of
            [] \<Rightarrow> (Some t, m_flag u)
          | ai # _ \<Rightarrow>
              let u = upd_ut t (\<lambda>x. x\<lparr>ut_addr := ai_addr ai\<rparr>) u;
                  (f, u) = sys_call os (C_socket (ai_family ai) SOCK_STREAM 0) u;
                  fd = a_ret f
              in if fd < 0 then uring_task_fail u t (a_errno f)
                 else
                   let (sp, u) = uring_sock_new os u fd in
                   case sp of
                     None \<Rightarrow>
                       let (_, u) = sys_call os (C_close fd) u in uring_task_fail u t ENOMEM
                   | Some s \<Rightarrow>
                       let u = upd_ut t (\<lambda>x. x\<lparr>ut_sock := Some s\<rparr>) u;
                           (ok, u) = sqe_get os u
                       in if \<not> ok then
                            let u = uring_sock_close_now os u s;
                                u = upd_ut t (\<lambda>x. x\<lparr>ut_sock := None\<rparr>) u
                            in uring_task_fail u t EAGAIN
                          else (Some t, sqe_flush os u (Sqe_connect fd (ai_addr ai)) (Ud_task t)))"

definition uring_tcp_listen :: "os \<Rightarrow> uring_io \<Rightarrow> string \<Rightarrow> int \<Rightarrow> int \<Rightarrow> ptr \<times> int option \<times> uring_io" where
  "uring_tcp_listen os u host port backlog =
     (let (a4, u) = sys_call os (C_inet_pton AF_INET host) u;
          (a6, u) = (if a_ret a4 = 1 then (a4, u) else sys_call os (C_inet_pton AF_INET6 host) u)
      in if a_ret a4 \<noteq> 1 \<and> a_ret a6 \<noteq> 1 then (None, Some EINVAL, u)
         else
           let fam = (if a_ret a4 = 1 then AF_INET else AF_INET6);
               ss = \<lparr>ss_family = fam, ss_port = htons (word_of_int port), ss_addr = host\<rparr>;
               (f, u) = sys_call os (C_socket fam SOCK_STREAM 0) u;
               fd = a_ret f
           in if fd < 0 then (None, Some (a_errno f), u)
              else
                let (_, u) = sys_call os (C_setsockopt fd) u;
                    (b, u) = sys_call os (C_bind fd ss) u
                in if a_ret b < 0 then
                     let (_, u) = sys_call os (C_close fd) u in (None, Some (a_errno b), u)
                   else
                     let (l, u) = sys_call os (C_listen fd backlog) u in
                     if a_ret l < 0 then
                       let (_, u) = sys_call os (C_close fd) u in (None, Some (a_errno l), u)
                     else
                       let (sp, u) = uring_sock_new os u fd in
                       case sp of
                         None \<Rightarrow>
                           let (_, u) = sys_call os (C_close fd) u in (None, Some ENOMEM, u)
                       | Some s \<Rightarrow> (Some s, None, u))"

definition uring_tcp_accept :: "os \<Rightarrow> uring_io \<Rightarrow> addr \<Rightarrow> ptr \<times> uring_io" where
  "uring_tcp_accept os u ls =
     (let (p, u) = uring_task_new os u TASK_ACCEPT in
      case p of
        None \<Rightarrow> (None, u)
      | Some t \<Rightarrow>
          let u = chk_us ls u in
          if us_accept_task (us u ls) \<noteq> None then uring_task_fail u t EBUSY
          else
            let (np, u) = uring_sock_new os u (- 1) in
            case np of
              None \<Rightarrow> uring_task_fail u t ENOMEM
            | Some n \<Rightarrow>
                let u = upd_ut t (\<lambda>x. x\<lparr>ut_newsock := Some n\<rparr>) u;
                    (ok, u) = sqe_get os u
                in if \<not> ok then
                     let u = uring_sock_close_now os u n;
                         u = upd_ut t (\<lambda>x. x\<lparr>ut_newsock := None\<rparr>) u
                     in uring_task_fail u t EAGAIN
                   else
                     let u = sqe_flush os u (Sqe_accept (us_fd (us u ls))) (Ud_task t);
                         u = upd_ut t (\<lambda>x. x\<lparr>ut_sock := Some ls\<rparr>) u
                     in (Some t, upd_us ls (\<lambda>y. y\<lparr>us_accept_task := Some t\<rparr>) u))"

subsection \<open>TCP: read, write, close\<close>

definition uring_sock_read :: "os \<Rightarrow> uring_io \<Rightarrow> addr \<Rightarrow> addr \<Rightarrow> nat \<Rightarrow> ptr \<times> uring_io" where
  "uring_sock_read os u s buf len =
     (let (p, u) = uring_task_new os u TASK_SOCK_READ in
      case p of
        None \<Rightarrow> (None, u)
      | Some t \<Rightarrow>
          let u = chk_us s u in
          if us_read_task (us u s) \<noteq> None then uring_task_fail u t EBUSY
          else
            let (ok, u) = sqe_get os u in
            if \<not> ok then uring_task_fail u t EAGAIN
            else
              let u = sqe_flush os u (Sqe_recv (us_fd (us u s)) buf len) (Ud_task t);
                  u = upd_ut t (\<lambda>x. x\<lparr>ut_sock := Some s\<rparr>) u
              in (Some t, upd_us s (\<lambda>y. y\<lparr>us_read_task := Some t\<rparr>) u))"

definition uring_sock_write :: "os \<Rightarrow> uring_io \<Rightarrow> addr \<Rightarrow> byte list \<Rightarrow> ptr \<times> uring_io" where
  "uring_sock_write os u s buf =
     (let (p, u) = uring_task_new os u TASK_SOCK_WRITE in
      case p of
        None \<Rightarrow> (None, u)
      | Some t \<Rightarrow>
          let u = chk_us s u;
              u = upd_ut t (\<lambda>x. x\<lparr>ut_wfd := us_fd (us u s), ut_wbuf := buf, ut_sock := Some s\<rparr>) u;
              (head, u) = uring_wq_push u s t
          in if \<not> head then (Some t, u)
             else
               let (ok, u) = uring_write_arm os u t in
               if \<not> ok then
                 let (_, u) = uring_wq_pop u s;
                     u = upd_ut t (\<lambda>x. x\<lparr>ut_sock := None\<rparr>) u
                 in uring_task_fail u t EAGAIN
               else (Some t, u))"

definition uring_cancel_submit :: "os \<Rightarrow> uring_io \<Rightarrow> addr \<Rightarrow> bool \<times> uring_io" where
  "uring_cancel_submit os u t =
     (let (ok, u) = sqe_get os u in
      if \<not> ok then (False, u)
      else
        let u = chk_ut t u in
        (True, sqe_flush os u (if ut_kind (ut u t) = TASK_SLEEP then Sqe_timeout_remove t else Sqe_cancel t)
                 Ud_cancel))"

text \<open>Complete every write still queued on \<open>s\<close> as canceled (the loop of close and destroy).\<close>

fun uring_cancel_queued :: "os \<Rightarrow> nat \<Rightarrow> uring_io \<Rightarrow> addr \<Rightarrow> uring_io" where
  "uring_cancel_queued os 0 u s = (if wq_head (us_wq (us u s)) = None then u else m_flag u)"
| "uring_cancel_queued os (Suc fuel) u s =
     (case wq_head (us_wq (us u s)) of
        None \<Rightarrow> u
      | Some q \<Rightarrow>
          let (_, u) = uring_wq_pop u s;
              u = upd_ut q (\<lambda>x. x\<lparr>ut_sock := None\<rparr>) u;
              u = uring_task_complete os u q (- ECANCELED)
          in uring_cancel_queued os fuel u s)"

text \<open>The three parts of \<^verbatim>\<open>impl_sock_close\<close> before the close itself is submitted.\<close>

definition uring_close_read :: "os \<Rightarrow> uring_io \<Rightarrow> addr \<Rightarrow> uring_io" where
  "uring_close_read os u s =
     (case us_read_task (us u s) of
        None \<Rightarrow> u
      | Some r \<Rightarrow>
          let (_, u) = uring_cancel_submit os u r;
              u = upd_ut r (\<lambda>x. x\<lparr>ut_sock := None\<rparr>) u
          in upd_us s (\<lambda>y. y\<lparr>us_read_task := None\<rparr>) u)"

definition uring_close_accept :: "os \<Rightarrow> uring_io \<Rightarrow> addr \<Rightarrow> uring_io" where
  "uring_close_accept os u s =
     (case us_accept_task (us u s) of
        None \<Rightarrow> u
      | Some r \<Rightarrow>
          let (_, u) = uring_cancel_submit os u r;
              u = upd_ut r (\<lambda>x. x\<lparr>ut_sock := None\<rparr>) u
          in upd_us s (\<lambda>y. y\<lparr>us_accept_task := None\<rparr>) u)"

definition uring_close_writes :: "os \<Rightarrow> uring_io \<Rightarrow> addr \<Rightarrow> uring_io" where
  "uring_close_writes os u s =
     (case wq_head (us_wq (us u s)) of
        None \<Rightarrow> u
      | Some w \<Rightarrow>
          let (_, u) = uring_cancel_submit os u w;
              u = upd_ut w (\<lambda>x. x\<lparr>ut_sock := None\<rparr>) u;
              (_, u) = uring_wq_pop u s
          in uring_cancel_queued os (m_brk u) u s)"

definition uring_sock_close :: "os \<Rightarrow> uring_io \<Rightarrow> addr \<Rightarrow> ptr \<times> uring_io" where
  "uring_sock_close os u s =
     (let (p, u) = uring_task_new os u TASK_SOCK_CLOSE in
      case p of
        None \<Rightarrow> (None, u)
      | Some t \<Rightarrow>
          let u = chk_us s u;
              u = uring_close_read os u s;
              u = uring_close_accept os u s;
              u = uring_close_writes os u s;
              (ok, u) = sqe_get os u
          in if \<not> ok then uring_task_fail u t EAGAIN
             else
               let u = sqe_flush os u (Sqe_close (us_fd (us u s))) (Ud_task t)
               in (Some t, upd_ut t (\<lambda>x. x\<lparr>ut_sock := Some s\<rparr>) u))"

definition uring_sock_port :: "os \<Rightarrow> uring_io \<Rightarrow> addr \<Rightarrow> int \<times> uring_io" where
  "uring_sock_port os u s = (let u = chk_us s u in myio_local_port os (us_fd (us u s)) u)"

subsection \<open>Synchronisation\<close>

text \<open>Cancellation drives the ring until the target has completed.\<close>

partial_function (option) uring_cancel_wait :: "os \<Rightarrow> uring_io \<Rightarrow> addr \<Rightarrow> (int \<times> uring_io) option" where
  "uring_cancel_wait os u t =
     (if ut_done (ut u t) then Some (if res_status (ut_res (ut u t)) = MYIO_CANCELED then 0 else - 1, u)
      else
        let (b, u) = uring_step os u in
        if \<not> b \<and> \<not> ut_done (ut u t) then Some (- 1, u) else uring_cancel_wait os u t)"

definition uring_cancel :: "os \<Rightarrow> uring_io \<Rightarrow> addr \<Rightarrow> (int \<times> uring_io) option" where
  "uring_cancel os u t =
     (let u = chk_ut t u; x = ut u t in
      if ut_done x then Some (- 1, u)
      else case ut_kind x of
        TASK_SOCK_WRITE \<Rightarrow>
          (case ut_sock x of
             Some s \<Rightarrow>
               if wq_head (us_wq (us u s)) \<noteq> Some t then
                 let u = uring_wq_remove u s t;
                     u = upd_ut t (\<lambda>x. x\<lparr>ut_sock := None\<rparr>) u;
                     u = uring_task_complete os u t (- ECANCELED)
                 in Some (0, u)
               else
                 let (ok, u) = uring_cancel_submit os u t in
                 if \<not> ok then Some (- 1, u)
                 else uring_cancel_wait os (upd_ut t (\<lambda>x. x\<lparr>ut_wcanceled := True\<rparr>) u) t
           | None \<Rightarrow>
               let (ok, u) = uring_cancel_submit os u t in
               if \<not> ok then Some (- 1, u)
               else uring_cancel_wait os (upd_ut t (\<lambda>x. x\<lparr>ut_wcanceled := True\<rparr>) u) t)
      | TASK_SPAWN \<Rightarrow> Some (- 1, u)
      | TASK_SOCK_CLOSE \<Rightarrow> Some (- 1, u)
      | _ \<Rightarrow>
          let (ok, u) = uring_cancel_submit os u t in
          if \<not> ok then Some (- 1, u) else uring_cancel_wait os u t)"

definition uring_task_result :: "uring_io \<Rightarrow> addr \<Rightarrow> myio_result" where
  "uring_task_result u t = ut_res (ut u t)"

definition uring_error_str :: "os \<Rightarrow> uring_io \<Rightarrow> int \<Rightarrow> string \<times> uring_io" where
  "uring_error_str os u err =
     (let (m, u) = myio_default_error_str os err u; b = take 127 m
      in (b, u\<lparr>u_errbuf := b\<rparr>))"

definition uring_caps :: "uring_io \<Rightarrow> 32 word" where
  "uring_caps u = or MYIO_CAP_CONCURRENT_WAIT MYIO_CAP_CANCEL_FILE"

subsection \<open>Lifetime\<close>

definition uring_task_done :: "uring_io \<Rightarrow> addr \<Rightarrow> bool" where
  "uring_task_done u t = ut_done (ut u t)"

partial_function (option) uring_free_wait :: "os \<Rightarrow> uring_io \<Rightarrow> addr \<Rightarrow> uring_io option" where
  "uring_free_wait os u t =
     (if ut_done (ut u t) then Some u
      else let (b, u) = uring_step os u in if b then uring_free_wait os u t else Some u)"

definition uring_task_free :: "os \<Rightarrow> uring_io \<Rightarrow> addr \<Rightarrow> uring_io option" where
  "uring_task_free os u t =
     (let u = chk_ut t u in
      map_option (\<lambda>u. free_ut t (uring_task_unlink u t))
        (if ut_done (ut u t) then Some u
         else Option.bind (uring_cancel os u t) (\<lambda>(_, u). uring_free_wait os u t)))"

definition uring_task_detach :: "os \<Rightarrow> uring_io \<Rightarrow> addr \<Rightarrow> uring_io" where
  "uring_task_detach os u t =
     (let u = chk_ut t u in
      if ut_done (ut u t) then uring_task_reap os u t
      else upd_ut t (\<lambda>x. x\<lparr>ut_detached := True\<rparr>) u)"

text \<open>The walks of \<^verbatim>\<open>impl_destroy\<close> over the two registries, then the final drain.\<close>

fun uring_destroy_fifos :: "os \<Rightarrow> nat \<Rightarrow> uring_io \<Rightarrow> ptr \<Rightarrow> uring_io" where
  "uring_destroy_fifos os fuel u None = u"
| "uring_destroy_fifos os 0 u (Some s) = m_flag u"
| "uring_destroy_fifos os (Suc fuel) u (Some s) =
     (let u = (case wq_head (us_wq (us u s)) of
                 None \<Rightarrow> u
               | Some w \<Rightarrow>
                   let u = upd_ut w (\<lambda>x. x\<lparr>ut_sock := None\<rparr>) u;
                       (_, u) = uring_wq_pop u s
                   in uring_cancel_queued os (m_brk u) u s)
      in uring_destroy_fifos os fuel u (dl_next (u_socks u) s))"

fun uring_destroy_cancels :: "os \<Rightarrow> nat \<Rightarrow> uring_io \<Rightarrow> ptr \<Rightarrow> uring_io" where
  "uring_destroy_cancels os fuel u None = u"
| "uring_destroy_cancels os 0 u (Some t) = m_flag u"
| "uring_destroy_cancels os (Suc fuel) u (Some t) =
     (let u = (if ut_done (ut u t) then u else snd (uring_cancel_submit os u t))
      in uring_destroy_cancels os fuel u (dl_next (u_tasks u) t))"

partial_function (option) uring_destroy_drain :: "os \<Rightarrow> uring_io \<Rightarrow> uring_io option" where
  "uring_destroy_drain os u =
     (if u_inflight u > 0 then
        let (_, u) = sys_call os C_submit_and_wait u
        in uring_destroy_drain os (uring_drain_cqes os u)
      else Some u)"

fun uring_destroy_tasks :: "nat \<Rightarrow> uring_io \<Rightarrow> ptr \<Rightarrow> uring_io" where
  "uring_destroy_tasks fuel u None = u"
| "uring_destroy_tasks 0 u (Some t) = m_flag u"
| "uring_destroy_tasks (Suc fuel) u (Some t) =
     (let next = dl_next (u_tasks u) t in uring_destroy_tasks fuel (free_ut t u) next)"

fun uring_destroy_socks :: "os \<Rightarrow> nat \<Rightarrow> uring_io \<Rightarrow> ptr \<Rightarrow> uring_io" where
  "uring_destroy_socks os fuel u None = u"
| "uring_destroy_socks os 0 u (Some s) = m_flag u"
| "uring_destroy_socks os (Suc fuel) u (Some s) =
     (let next = dl_next (u_socks u) s;
          u = (if us_fd (us u s) \<ge> 0 then snd (sys_call os (C_close (us_fd (us u s))) u) else u)
      in uring_destroy_socks os fuel (free_us s u) next)"

definition uring_destroy :: "os \<Rightarrow> uring_io \<Rightarrow> uring_io option" where
  "uring_destroy os u =
     (let u = uring_destroy_fifos os (m_brk u) u (dl_head (u_socks u));
          u = uring_destroy_cancels os (m_brk u) u (dl_head (u_tasks u))
      in map_option (\<lambda>u.
           let u = uring_destroy_tasks (m_brk u) u (dl_head (u_tasks u));
               u = uring_destroy_socks os (m_brk u) u (dl_head (u_socks u));
               (_, u) = sys_call os C_queue_exit u
           in u)
         (uring_destroy_drain os u))"

definition myio_uring_new :: "os \<Rightarrow> mach \<Rightarrow> uring_io option \<times> mach" where
  "myio_uring_new os m =
     (let (p, m) = sys_alloc os m in
      case p of
        None \<Rightarrow> (None, m)
      | Some _ \<Rightarrow>
          let (a, m) = sys_call os C_queue_init m in
          if a_ret a < 0 then (None, m)
          else (Some (mach.extend m \<lparr>u_inflight = 0, u_tasks = dl_empty, u_socks = dl_empty,
                  u_th = Map.empty, u_sh = Map.empty, u_wnext = (\<lambda>_. None), u_errbuf = []\<rparr>), m))"

definition uring_ops :: "os \<Rightarrow> uring_io myio_ops" where
  "uring_ops os = \<lparr>
     ops_open = \<lambda>u p f m. Some (uring_open os u p f m),
     ops_close = \<lambda>u fd. Some (uring_close os u fd),
     ops_read = \<lambda>u fd b n off. Some (uring_read os u fd b n off),
     ops_write = \<lambda>u fd b off. Some (uring_write os u fd b off),
     ops_sleep = \<lambda>u ms. Some (uring_sleep os u ms),
     ops_spawn = \<lambda>u fn arg. Some (uring_spawn os u fn arg),
     ops_tcp_connect = \<lambda>u h p. Some (uring_tcp_connect os u h p),
     ops_tcp_listen = \<lambda>u h p b. Some (uring_tcp_listen os u h p b),
     ops_tcp_accept = \<lambda>u l. Some (uring_tcp_accept os u l),
     ops_sock_read = \<lambda>u k b n. Some (uring_sock_read os u k b n),
     ops_sock_write = \<lambda>u k b. Some (uring_sock_write os u k b),
     ops_sock_close = \<lambda>u k. Some (uring_sock_close os u k),
     ops_sock_port = \<lambda>u k. uring_sock_port os u k,
     ops_step = \<lambda>u. Some (uring_step os u),
     ops_cancel = \<lambda>u t. uring_cancel os u t,
     ops_task_result = uring_task_result,
     ops_error_str = uring_error_str os,
     ops_caps = uring_caps,
     ops_task_done = uring_task_done,
     ops_task_free = \<lambda>u t. uring_task_free os u t,
     ops_task_detach = uring_task_detach os,
     ops_destroy = \<lambda>u. uring_destroy os u\<rparr>"

end
