(* ===== verification/Myio_Uring_Core.thy ===== *)
theory Myio_Uring_Core
  imports Myio_Uring
begin

text \<open>
  What the io_uring backend maintains, as a predicate on the plain data: the task
  heap, the socket heap, the links of the write queues and the requests the kernel
  holds. Every operation of the backend is a sequence of a few actions on these
  data; this theory shows what each action does to the predicate. The operations
  themselves are treated in \<open>Myio_Uring_Inv\<close>.
\<close>

subsection \<open>The requests in the kernel's hands\<close>

fun ring_out :: "event list \<Rightarrow> udata multiset" where
  "ring_out [] = {#}"
| "ring_out ((C_sqe q d, a) # tr) = add_mset d (ring_out tr)"
| "ring_out ((C_peek_cqe, a) # tr) =
     (case a_cqe a of Some (d, r) \<Rightarrow> ring_out tr - {#d#} | None \<Rightarrow> ring_out tr)"
| "ring_out (_ # tr) = ring_out tr"

text \<open>The kernel answers what it was asked: a CQE belongs to an outstanding request.\<close>

definition ring_ok :: "os \<Rightarrow> bool" where
  "ring_ok os \<longleftrightarrow> (\<forall>tr d r. a_cqe (os tr C_peek_cqe) = Some (d, r) \<longrightarrow> d \<in># ring_out tr)"

subsection \<open>The invariant on the data\<close>

text \<open>
  \<open>xref\<close>: the socket a task has to itself until it completes (a connect's future
  socket, an accept's preallocated one, the one being closed). \<open>own\<close>: the socket a
  task has won or is about to win.
\<close>

definition xref :: "uring_task \<Rightarrow> ptr" where
  "xref x = (if ut_kind x = TASK_CONNECT \<or> ut_kind x = TASK_SOCK_CLOSE then ut_sock x
             else if ut_kind x = TASK_ACCEPT then ut_newsock x else None)"

definition own :: "uring_task \<Rightarrow> ptr" where
  "own x = (if res_ptr (ut_res x) \<noteq> None then res_ptr (ut_res x)
            else if ut_kind x = TASK_CONNECT then ut_sock x
            else if ut_kind x = TASK_ACCEPT then ut_newsock x else None)"

definition quiet :: "uring_sock \<Rightarrow> bool" where
  "quiet y \<longleftrightarrow> us_read_task y = None \<and> us_accept_task y = None \<and> wq_head (us_wq y) = None"

type_synonym theap = "addr \<rightharpoonup> uring_task"
type_synonym sheap = "addr \<rightharpoonup> uring_sock"

definition loose :: "theap \<Rightarrow> sheap \<Rightarrow> addr \<Rightarrow> bool" where
  "loose th sh s \<longleftrightarrow> (\<exists>y. sh s = Some y \<and> quiet y) \<and> (\<forall>t x. th t = Some x \<longrightarrow> xref x \<noteq> Some s)"

text \<open>A write waits in its socket's queue without a request of its own unless it is the head.\<close>

definition parked :: "sheap \<Rightarrow> addr \<Rightarrow> uring_task \<Rightarrow> bool" where
  "parked sh t x \<longleftrightarrow> ut_kind x = TASK_SOCK_WRITE \<and>
     (\<exists>s y. ut_sock x = Some s \<and> sh s = Some y \<and> wq_head (us_wq y) \<noteq> Some t)"

definition wmembers :: "theap \<Rightarrow> addr \<Rightarrow> addr set" where
  "wmembers th s = {t. \<exists>x. th t = Some x \<and> ut_kind x = TASK_SOCK_WRITE \<and> ut_sock x = Some s}"

text \<open>
  The tasks in \<open>T\<close> are in transit: just allocated and not yet submitted, or taken
  off the ring and not yet settled. Every other pending task that is not parked has
  exactly one request in the ring, all other tasks none.
\<close>

definition ring_inv :: "addr set \<Rightarrow> theap \<Rightarrow> sheap \<Rightarrow> udata multiset \<Rightarrow> bool" where
  "ring_inv T th sh R \<longleftrightarrow> (\<forall>t. count R (Ud_task t) =
     (case th t of
        None \<Rightarrow> 0
      | Some x \<Rightarrow> if t \<in> T \<or> ut_done x \<or> parked sh t x then 0 else 1))"

definition task_ok :: "addr set \<Rightarrow> addr \<Rightarrow> addr \<Rightarrow> uring_task \<Rightarrow> bool" where
  "task_ok T b t x \<longleftrightarrow> t < b \<and> (\<forall>s. own x = Some s \<longrightarrow> s < b) \<and>
     (ut_done x \<longleftrightarrow> res_status (ut_res x) \<noteq> MYIO_PENDING) \<and>
     (res_ptr (ut_res x) \<noteq> None \<longrightarrow> ut_kind x = TASK_CONNECT \<or> ut_kind x = TASK_ACCEPT) \<and>
     (ut_done x \<longrightarrow> \<not> ut_detached x \<and> t \<notin> T \<and> xref x = None \<and>
        (ut_kind x = TASK_SOCK_WRITE \<longrightarrow> ut_sock x = None)) \<and>
     (\<not> ut_done x \<and> t \<notin> T \<longrightarrow> res_ptr (ut_res x) = None \<and>
        (ut_kind x = TASK_CONNECT \<or> ut_kind x = TASK_ACCEPT \<longrightarrow> xref x \<noteq> None))"

definition task_inv :: "addr set \<Rightarrow> addr \<Rightarrow> theap \<Rightarrow> bool" where
  "task_inv T b th \<longleftrightarrow> T \<subseteq> dom th \<and> (\<forall>t x. th t = Some x \<longrightarrow> task_ok T b t x)"

definition read_inv :: "addr set \<Rightarrow> theap \<Rightarrow> sheap \<Rightarrow> bool" where
  "read_inv T th sh \<longleftrightarrow>
     (\<forall>t x s. th t = Some x \<longrightarrow> ut_kind x = TASK_SOCK_READ \<longrightarrow> \<not> ut_done x \<longrightarrow> t \<notin> T \<longrightarrow>
        ut_sock x = Some s \<longrightarrow> (\<exists>y. sh s = Some y \<and> us_read_task y = Some t)) \<and>
     (\<forall>s y t. sh s = Some y \<longrightarrow> us_read_task y = Some t \<longrightarrow>
        (\<exists>x. th t = Some x \<and> ut_kind x = TASK_SOCK_READ \<and> \<not> ut_done x \<and> ut_sock x = Some s))"

definition acc_inv :: "addr set \<Rightarrow> theap \<Rightarrow> sheap \<Rightarrow> bool" where
  "acc_inv T th sh \<longleftrightarrow>
     (\<forall>t x s. th t = Some x \<longrightarrow> ut_kind x = TASK_ACCEPT \<longrightarrow> \<not> ut_done x \<longrightarrow> t \<notin> T \<longrightarrow>
        ut_sock x = Some s \<longrightarrow> (\<exists>y. sh s = Some y \<and> us_accept_task y = Some t)) \<and>
     (\<forall>s y t. sh s = Some y \<longrightarrow> us_accept_task y = Some t \<longrightarrow>
        (\<exists>x. th t = Some x \<and> ut_kind x = TASK_ACCEPT \<and> \<not> ut_done x \<and> ut_sock x = Some s))"

definition wq_inv :: "theap \<Rightarrow> sheap \<Rightarrow> wlinks \<Rightarrow> bool" where
  "wq_inv th sh nx \<longleftrightarrow>
     (\<forall>s y. sh s = Some y \<longrightarrow> (\<exists>xs. wq_list nx (us_wq y) xs \<and> set xs = wmembers th s)) \<and>
     (\<forall>s. wmembers th s \<noteq> {} \<longrightarrow> s \<in> dom sh)"

definition xr_inv :: "theap \<Rightarrow> sheap \<Rightarrow> bool" where
  "xr_inv th sh \<longleftrightarrow>
     (\<forall>t x s. th t = Some x \<longrightarrow> xref x = Some s \<longrightarrow> (\<exists>y. sh s = Some y \<and> quiet y)) \<and>
     (\<forall>t t' x x' s. th t = Some x \<longrightarrow> th t' = Some x' \<longrightarrow> xref x = Some s \<longrightarrow> xref x' = Some s \<longrightarrow> t = t')"

definition own_inv :: "theap \<Rightarrow> bool" where
  "own_inv th \<longleftrightarrow> (\<forall>t t' x x' s. th t = Some x \<longrightarrow> th t' = Some x' \<longrightarrow>
     own x = Some s \<longrightarrow> own x' = Some s \<longrightarrow> t = t')"

definition ucore ::
  "addr set \<Rightarrow> addr \<Rightarrow> theap \<Rightarrow> sheap \<Rightarrow> wlinks \<Rightarrow> udata multiset \<Rightarrow> bool" where
  "ucore T b th sh nx R \<longleftrightarrow> task_inv T b th \<and> ring_inv T th sh R \<and> read_inv T th sh \<and> acc_inv T th sh \<and>
     wq_inv th sh nx \<and> xr_inv th sh \<and> own_inv th \<and> (\<forall>s \<in> dom sh. s < b)"

text \<open>
  What no action may take away: a task the caller still holds stays, a result stays
  what it is, and a task that may be detached stays so.
\<close>

definition dropok :: "theap \<Rightarrow> sheap \<Rightarrow> addr \<Rightarrow> bool" where
  "dropok th sh t \<longleftrightarrow> (\<exists>x. th t = Some x \<and> (\<forall>s. res_ptr (ut_res x) = Some s \<longrightarrow> loose th sh s))"

definition keeps :: "addr set \<Rightarrow> theap \<Rightarrow> sheap \<Rightarrow> theap \<Rightarrow> sheap \<Rightarrow> bool" where
  "keeps S th sh th' sh' \<longleftrightarrow> (\<forall>t x. th t = Some x \<longrightarrow> \<not> ut_detached x \<longrightarrow> t \<notin> S \<longrightarrow>
     (\<exists>x'. th' t = Some x' \<and> \<not> ut_detached x' \<and>
        (ut_done x \<longrightarrow> ut_done x' \<and> ut_res x' = ut_res x)) \<and>
     (dropok th sh t \<longrightarrow> dropok th' sh' t))"

lemma keeps_refl: "keeps S th sh th sh"
  by (auto simp: keeps_def)

lemma keeps_trans: "keeps S th sh th1 sh1 \<Longrightarrow> keeps S th1 sh1 th2 sh2 \<Longrightarrow> keeps S th sh th2 sh2"
  unfolding keeps_def by (metis (no_types, lifting))

lemma keeps_mono: "keeps S th sh th' sh' \<Longrightarrow> S \<subseteq> S' \<Longrightarrow> keeps S' th sh th' sh'"
  by (auto simp: keeps_def)

text \<open>It is enough that tasks stay and that the sockets in results stay loose.\<close>

lemma keepsI:
  assumes "\<And>t x. th t = Some x \<Longrightarrow> \<not> ut_detached x \<Longrightarrow> t \<notin> S \<Longrightarrow>
      \<exists>x'. th' t = Some x' \<and> \<not> ut_detached x' \<and> (ut_done x \<longrightarrow> ut_done x' \<and> ut_res x' = ut_res x) \<and>
        (res_ptr (ut_res x') = res_ptr (ut_res x) \<or> (\<forall>s. res_ptr (ut_res x') = Some s \<longrightarrow> loose th' sh' s))"
    and "\<And>t x s. th t = Some x \<Longrightarrow> t \<notin> S \<Longrightarrow> res_ptr (ut_res x) = Some s \<Longrightarrow> loose th sh s \<Longrightarrow> loose th' sh' s"
  shows "keeps S th sh th' sh'"
  unfolding keeps_def
proof (intro allI impI conjI)
  fix t x
  assume t: "th t = Some x" "\<not> ut_detached x" "t \<notin> S"
  from assms(1) [OF this] obtain x' where x': "th' t = Some x'" "\<not> ut_detached x'"
    "ut_done x \<longrightarrow> ut_done x' \<and> ut_res x' = ut_res x"
    "res_ptr (ut_res x') = res_ptr (ut_res x) \<or> (\<forall>s. res_ptr (ut_res x') = Some s \<longrightarrow> loose th' sh' s)" by blast
  then show "\<exists>x'. th' t = Some x' \<and> \<not> ut_detached x' \<and> (ut_done x \<longrightarrow> ut_done x' \<and> ut_res x' = ut_res x)"
    by blast
  assume "dropok th sh t"
  with t x' assms(2) [OF t(1,3)] show "dropok th' sh' t" by (auto simp: dropok_def)
qed

text \<open>Field updates of a task that the invariant does not see.\<close>

definition same_task :: "uring_task \<Rightarrow> uring_task \<Rightarrow> bool" where
  "same_task x x' \<longleftrightarrow> ut_kind x' = ut_kind x \<and> ut_done x' = ut_done x \<and> ut_detached x' = ut_detached x \<and>
     ut_res x' = ut_res x \<and> ut_sock x' = ut_sock x \<and> ut_newsock x' = ut_newsock x"

lemma same_task_simps:
  assumes "same_task x x'"
  shows "xref x' = xref x" "own x' = own x" "parked sh t x' = parked sh t x" "task_ok T b t x' = task_ok T b t x"
  using assms by (auto simp: same_task_def xref_def own_def parked_def task_ok_def)

lemma wmembers_upd:
  "wmembers (th(t \<mapsto> x)) s = (if ut_kind x = TASK_SOCK_WRITE \<and> ut_sock x = Some s
     then insert t (wmembers th s) else wmembers th s - {t})"
  by (auto simp: wmembers_def)

lemma wmembers_None: "wmembers (th(t := None)) s = wmembers th s - {t}"
  by (auto simp: wmembers_def)

lemma wmembers_I: "th t = Some x \<Longrightarrow> ut_kind x = TASK_SOCK_WRITE \<Longrightarrow> ut_sock x = Some s \<Longrightarrow> t \<in> wmembers th s"
  by (simp add: wmembers_def)

lemma ucore_parts:
  assumes "ucore T b th sh nx R"
  shows "task_inv T b th" "ring_inv T th sh R" "read_inv T th sh" "acc_inv T th sh" "wq_inv th sh nx"
    "xr_inv th sh" "own_inv th" "\<And>s y. sh s = Some y \<Longrightarrow> s < b"
  using assms by (auto simp: ucore_def)

lemma ucoreI:
  assumes "task_inv T b th" "ring_inv T th sh R" "read_inv T th sh" "acc_inv T th sh" "wq_inv th sh nx"
    "xr_inv th sh" "own_inv th" "\<And>s y. sh s = Some y \<Longrightarrow> s < b"
  shows "ucore T b th sh nx R"
  using assms by (auto simp: ucore_def)

lemma read_inv_back: "read_inv T th sh \<Longrightarrow> th t = Some x \<Longrightarrow> ut_kind x = TASK_SOCK_READ \<Longrightarrow> \<not> ut_done x \<Longrightarrow>
    t \<notin> T \<Longrightarrow> ut_sock x = Some s \<Longrightarrow> \<exists>y. sh s = Some y \<and> us_read_task y = Some t"
  unfolding read_inv_def by blast

lemma read_inv_task: "read_inv T th sh \<Longrightarrow> sh s = Some y \<Longrightarrow> us_read_task y = Some t \<Longrightarrow>
    \<exists>x. th t = Some x \<and> ut_kind x = TASK_SOCK_READ \<and> \<not> ut_done x \<and> ut_sock x = Some s"
  unfolding read_inv_def by blast

lemma acc_inv_back: "acc_inv T th sh \<Longrightarrow> th t = Some x \<Longrightarrow> ut_kind x = TASK_ACCEPT \<Longrightarrow> \<not> ut_done x \<Longrightarrow>
    t \<notin> T \<Longrightarrow> ut_sock x = Some s \<Longrightarrow> \<exists>y. sh s = Some y \<and> us_accept_task y = Some t"
  unfolding acc_inv_def by blast

lemma acc_inv_task: "acc_inv T th sh \<Longrightarrow> sh s = Some y \<Longrightarrow> us_accept_task y = Some t \<Longrightarrow>
    \<exists>x. th t = Some x \<and> ut_kind x = TASK_ACCEPT \<and> \<not> ut_done x \<and> ut_sock x = Some s"
  unfolding acc_inv_def by blast

lemma xr_inv_live: "xr_inv th sh \<Longrightarrow> th t = Some x \<Longrightarrow> xref x = Some s \<Longrightarrow> \<exists>y. sh s = Some y \<and> quiet y"
  unfolding xr_inv_def by blast

lemma xr_inv_inj: "xr_inv th sh \<Longrightarrow> th t = Some x \<Longrightarrow> xref x = Some s \<Longrightarrow> th t' = Some x' \<Longrightarrow> xref x' = Some s \<Longrightarrow> t = t'"
  unfolding xr_inv_def by blast

lemma task_invD: "task_inv T b th \<Longrightarrow> th t = Some x \<Longrightarrow> task_ok T b t x"
  by (simp add: task_inv_def)

lemma task_inv_upd:
  assumes "task_inv T b th" and "T' - {t} = T - {t}" and "b \<le> b'"
    and "task_ok T' b' t x'"
  shows "task_inv T' b' (th(t \<mapsto> x'))"
proof -
  have "task_ok T' b' q z" if q: "th q = Some z" "q \<noteq> t" for q z
  proof -
    have "q \<in> T' \<longleftrightarrow> q \<in> T" using assms(2) q(2) by auto
    with task_invD [OF assms(1) q(1)] assms(3) show ?thesis by (auto simp: task_ok_def)
  qed
  moreover have "T' \<subseteq> insert t (dom th)" using assms(1,2) by (auto simp: task_inv_def)
  ultimately show ?thesis using assms(4) by (auto simp: task_inv_def)
qed

lemma task_inv_mono: "task_inv T b th \<Longrightarrow> b \<le> b' \<Longrightarrow> task_inv T b' th"
  unfolding task_inv_def task_ok_def by (meson less_le_trans)

lemma task_inv_del: "task_inv T b th \<Longrightarrow> task_inv (T - {t}) b (th(t := None))"
  unfolding task_inv_def task_ok_def by (auto split: if_splits)

lemma wq_inv_list: "wq_inv th sh nx \<Longrightarrow> sh s = Some y \<Longrightarrow> \<exists>xs. wq_list nx (us_wq y) xs \<and> set xs = wmembers th s"
  unfolding wq_inv_def by blast

lemma wq_inv_live: "wq_inv th sh nx \<Longrightarrow> t \<in> wmembers th s \<Longrightarrow> \<exists>y. sh s = Some y"
  unfolding wq_inv_def by blast

lemma wq_inv_quiet: "wq_inv th sh nx \<Longrightarrow> sh s = Some y \<Longrightarrow> quiet y \<Longrightarrow> wmembers th s = {}"
  by (drule (1) wq_inv_list) (auto simp: quiet_def dest: wq_list_head_None)

lemma parked_other:
  assumes "ut_kind z = TASK_SOCK_WRITE \<Longrightarrow> ut_sock z \<noteq> Some s"
  shows "parked (sh(s := v)) q z = parked sh q z"
  using assms by (cases "ut_sock z") (auto simp: parked_def)

lemma own_inv_upd:
  assumes "own_inv th" and "th t = Some x" and "own x' = None \<or> own x' = own x"
  shows "own_inv (th(t \<mapsto> x'))"
  using assms unfolding own_inv_def by (metis fun_upd_apply option.inject option.distinct(1))

lemma read_inv_upd:
  assumes "read_inv T th sh" and "th t = Some x" and "ut_kind x' = ut_kind x" and "ut_done x' = ut_done x"
    and "ut_kind x = TASK_SOCK_READ \<Longrightarrow> ut_sock x' = ut_sock x"
  shows "read_inv T (th(t \<mapsto> x')) sh"
  unfolding read_inv_def
proof (intro conjI allI impI)
  fix q z k
  assume q: "(th(t \<mapsto> x')) q = Some z" "ut_kind z = TASK_SOCK_READ" "\<not> ut_done z" "q \<notin> T" "ut_sock z = Some k"
  then obtain z' where "th q = Some z'" "ut_kind z' = TASK_SOCK_READ" "\<not> ut_done z'" "ut_sock z' = Some k"
    using assms(2-5) by (cases "q = t") auto
  from read_inv_back [OF assms(1) this(1-3) q(4) this(4)] show "\<exists>y. sh k = Some y \<and> us_read_task y = Some q" .
next
  fix k y q
  assume "sh k = Some y" "us_read_task y = Some q"
  from read_inv_task [OF assms(1) this] assms(2-5)
  show "\<exists>x. (th(t \<mapsto> x')) q = Some x \<and> ut_kind x = TASK_SOCK_READ \<and> \<not> ut_done x \<and> ut_sock x = Some k" by auto
qed

lemma acc_inv_upd:
  assumes "acc_inv T th sh" and "th t = Some x" and "ut_kind x' = ut_kind x" and "ut_done x' = ut_done x"
    and "ut_kind x = TASK_ACCEPT \<Longrightarrow> ut_sock x' = ut_sock x"
  shows "acc_inv T (th(t \<mapsto> x')) sh"
  unfolding acc_inv_def
proof (intro conjI allI impI)
  fix q z k
  assume q: "(th(t \<mapsto> x')) q = Some z" "ut_kind z = TASK_ACCEPT" "\<not> ut_done z" "q \<notin> T" "ut_sock z = Some k"
  then obtain z' where "th q = Some z'" "ut_kind z' = TASK_ACCEPT" "\<not> ut_done z'" "ut_sock z' = Some k"
    using assms(2-5) by (cases "q = t") auto
  from acc_inv_back [OF assms(1) this(1-3) q(4) this(4)] show "\<exists>y. sh k = Some y \<and> us_accept_task y = Some q" .
next
  fix k y q
  assume "sh k = Some y" "us_accept_task y = Some q"
  from acc_inv_task [OF assms(1) this] assms(2-5)
  show "\<exists>x. (th(t \<mapsto> x')) q = Some x \<and> ut_kind x = TASK_ACCEPT \<and> \<not> ut_done x \<and> ut_sock x = Some k" by auto
qed

text \<open>An idle socket goes, a task without a stake in it changes.\<close>

lemma read_inv_drop:
  assumes r: "read_inv T th sh" and t: "th t = Some x" "ut_kind x \<noteq> TASK_SOCK_READ" "ut_kind x' \<noteq> TASK_SOCK_READ"
    and s: "\<And>y. sh s = Some y \<Longrightarrow> us_read_task y = None"
  shows "read_inv T (th(t \<mapsto> x')) (sh(s := None))"
  unfolding read_inv_def
proof (intro conjI allI impI)
  fix q z k
  assume q: "(th(t \<mapsto> x')) q = Some z" "ut_kind z = TASK_SOCK_READ" "\<not> ut_done z" "q \<notin> T" "ut_sock z = Some k"
  with t(3) have "th q = Some z" by (auto split: if_splits)
  from read_inv_back [OF r this q(2-5)] s show "\<exists>y. (sh(s := None)) k = Some y \<and> us_read_task y = Some q" by fastforce
next
  fix k y q
  assume k: "(sh(s := None)) k = Some y" "us_read_task y = Some q"
  then have "sh k = Some y" by (simp split: if_splits)
  from read_inv_task [OF r this k(2)] t(1,2)
  show "\<exists>x. (th(t \<mapsto> x')) q = Some x \<and> ut_kind x = TASK_SOCK_READ \<and> \<not> ut_done x \<and> ut_sock x = Some k" by auto
qed

lemma acc_inv_drop:
  assumes r: "acc_inv T th sh" and t: "th t = Some x" "t \<in> T" "ut_kind x' = ut_kind x" "ut_done x' = ut_done x"
      "ut_kind x = TASK_ACCEPT \<Longrightarrow> ut_sock x' = ut_sock x"
    and s: "\<And>y. sh s = Some y \<Longrightarrow> us_accept_task y = None"
  shows "acc_inv T (th(t \<mapsto> x')) (sh(s := None))"
  unfolding acc_inv_def
proof (intro conjI allI impI)
  fix q z k
  assume q: "(th(t \<mapsto> x')) q = Some z" "ut_kind z = TASK_ACCEPT" "\<not> ut_done z" "q \<notin> T" "ut_sock z = Some k"
  with t(2) have "th q = Some z" by (auto split: if_splits)
  from acc_inv_back [OF r this q(2-5)] s show "\<exists>y. (sh(s := None)) k = Some y \<and> us_accept_task y = Some q" by fastforce
next
  fix k y q
  assume k: "(sh(s := None)) k = Some y" "us_accept_task y = Some q"
  then have "sh k = Some y" by (simp split: if_splits)
  from acc_inv_task [OF r this k(2)] t
  show "\<exists>x. (th(t \<mapsto> x')) q = Some x \<and> ut_kind x = TASK_ACCEPT \<and> \<not> ut_done x \<and> ut_sock x = Some k" by auto
qed

lemma core_same:
  assumes "ucore T b th sh nx R" and "th t = Some x" and "same_task x x'"
  shows "ucore T b (th(t \<mapsto> x')) sh nx R" and "keeps S th sh (th(t \<mapsto> x')) sh"
proof -
  note s = same_task_simps [OF assms(3)] and p = ucore_parts [OF assms(1)]
  have w: "wmembers (th(t \<mapsto> x')) k = wmembers th k" for k
    using assms(2,3) by (auto simp: wmembers_def same_task_def)
  show "ucore T b (th(t \<mapsto> x')) sh nx R"
  proof (rule ucoreI)
    show "task_inv T b (th(t \<mapsto> x'))" using p(1) assms(2) s by (auto simp: task_inv_def)
    show "ring_inv T (th(t \<mapsto> x')) sh R"
      using p(2) assms(2,3) s by (auto simp: ring_inv_def same_task_def split: option.splits)
    show "read_inv T (th(t \<mapsto> x')) sh"
      using p(3) assms(2,3) by (simp add: read_inv_def same_task_def) (metis option.inject)
    show "acc_inv T (th(t \<mapsto> x')) sh"
      using p(4) assms(2,3) by (simp add: acc_inv_def same_task_def) (metis option.inject)
    show "wq_inv (th(t \<mapsto> x')) sh nx" using p(5) by (simp add: wq_inv_def w)
    show "xr_inv (th(t \<mapsto> x')) sh" using p(6) assms(2) s by (auto simp: xr_inv_def)
    show "own_inv (th(t \<mapsto> x'))" using p(7) assms(2) s by (auto simp: own_inv_def)
  qed (use p(8) in auto)
  show "keeps S th sh (th(t \<mapsto> x')) sh"
    using assms s by (auto simp: keeps_def dropok_def loose_def same_task_def)
qed

subsection \<open>Allocation\<close>

lemma core_new_task:
  assumes "ucore T b th sh nx R"
  shows "ucore (insert b T) (Suc b) (th(b \<mapsto> uring_task0 k)) sh (nx(b := None)) R"
    and "keeps S th sh (th(b \<mapsto> uring_task0 k)) sh" and "th b = None"
proof -
  note p = ucore_parts [OF assms]
  show b: "th b = None" using task_invD [OF p(1)] by (cases "th b") (auto simp: task_ok_def)
  have x0: "xref (uring_task0 k) = None" "own (uring_task0 k) = None" "\<not> ut_done (uring_task0 k)"
    "\<not> ut_detached (uring_task0 k)" "ut_sock (uring_task0 k) = None" "res_ptr (ut_res (uring_task0 k)) = None"
    "res_status (ut_res (uring_task0 k)) = MYIO_PENDING"
    by (simp_all add: uring_task0_def xref_def own_def result0_def)
  have w: "wmembers (th(b \<mapsto> uring_task0 k)) s = wmembers th s" for s
    using b x0 by (auto simp: wmembers_def)
  have f: "b \<notin> wmembers th s" for s using b by (simp add: wmembers_def)
  show "ucore (insert b T) (Suc b) (th(b \<mapsto> uring_task0 k)) sh (nx(b := None)) R"
  proof (rule ucoreI)
    show "task_inv (insert b T) (Suc b) (th(b \<mapsto> uring_task0 k))"
      by (rule task_inv_upd [OF p(1)]) (use x0 in \<open>auto simp: task_ok_def\<close>)
    show "ring_inv (insert b T) (th(b \<mapsto> uring_task0 k)) sh R"
      using p(2) b by (auto simp: ring_inv_def split: option.splits)
    show "read_inv (insert b T) (th(b \<mapsto> uring_task0 k)) sh"
      using p(3) b by (simp add: read_inv_def) (metis option.distinct(1))
    show "acc_inv (insert b T) (th(b \<mapsto> uring_task0 k)) sh"
      using p(4) b by (simp add: acc_inv_def) (metis option.distinct(1))
    show "wq_inv (th(b \<mapsto> uring_task0 k)) sh (nx(b := None))"
      using p(5) f by (simp add: wq_inv_def w) (metis wq_list_frame)
    show "xr_inv (th(b \<mapsto> uring_task0 k)) sh" using p(6) x0 by (auto simp: xr_inv_def)
    show "own_inv (th(b \<mapsto> uring_task0 k))" using p(7) x0 by (auto simp: own_inv_def)
  qed (use p(8) in \<open>auto simp: less_Suc_eq\<close>)
  show "keeps S th sh (th(b \<mapsto> uring_task0 k)) sh"
    using b x0 by (intro keepsI) (auto simp: loose_def)
qed

lemma core_new_sock:
  assumes "ucore T b th sh nx R"
  shows "ucore T (Suc b) th (sh(b \<mapsto> uring_sock0 fd)) nx R" and "loose th (sh(b \<mapsto> uring_sock0 fd)) b"
    and "\<And>t x. th t = Some x \<Longrightarrow> own x \<noteq> Some b" and "sh b = None"
proof -
  note p = ucore_parts [OF assms]
  show b: "sh b = None" using p(8) [of b] by (cases "sh b") auto
  have y0: "quiet (uring_sock0 fd)" "us_wq (uring_sock0 fd) = myio_wq_empty"
    by (simp_all add: uring_sock0_def quiet_def myio_wq_empty_def)
  have xb: "th t = Some x \<Longrightarrow> xref x \<noteq> Some b" for t x using p(6) b by (metis xr_inv_def option.distinct(1))
  show "\<And>t x. th t = Some x \<Longrightarrow> own x \<noteq> Some b" using task_invD [OF p(1)] by (auto simp: task_ok_def)
  show "loose th (sh(b \<mapsto> uring_sock0 fd)) b" using y0 xb by (auto simp: loose_def)
  have w: "wmembers th b = {}" using p(5) b by (auto simp: wq_inv_def)
  have pk: "th t = Some x \<Longrightarrow> parked (sh(b \<mapsto> uring_sock0 fd)) t x = parked sh t x" for t x
    using w by (auto simp: wmembers_def intro!: parked_other)
  show "ucore T (Suc b) th (sh(b \<mapsto> uring_sock0 fd)) nx R"
  proof (rule ucoreI)
    show "task_inv T (Suc b) th" by (rule task_inv_mono [OF p(1)]) simp
    show "ring_inv T th (sh(b \<mapsto> uring_sock0 fd)) R"
      using p(2) pk by (auto simp: ring_inv_def split: option.splits)
    show "read_inv T th (sh(b \<mapsto> uring_sock0 fd))"
      using p(3) b y0 by (simp add: read_inv_def quiet_def) (metis option.distinct(1))
    show "acc_inv T th (sh(b \<mapsto> uring_sock0 fd))"
      using p(4) b y0 by (simp add: acc_inv_def quiet_def) (metis option.distinct(1))
    show "wq_inv th (sh(b \<mapsto> uring_sock0 fd)) nx" using p(5) w y0 by (auto simp: wq_inv_def)
    show "xr_inv th (sh(b \<mapsto> uring_sock0 fd))" using p(6) y0 by (auto simp: xr_inv_def)
    show "own_inv th" by (rule p(7))
  qed (use p(8) in \<open>auto simp: less_Suc_eq split: if_splits\<close>)
qed

subsection \<open>Completion\<close>

text \<open>Nothing refers to the task any more but the list of live tasks.\<close>

definition clean :: "theap \<Rightarrow> sheap \<Rightarrow> addr \<Rightarrow> bool" where
  "clean th sh t \<longleftrightarrow> (\<exists>x. th t = Some x \<and> xref x = None \<and>
       (ut_kind x = TASK_SOCK_WRITE \<longrightarrow> ut_sock x = None)) \<and>
     (\<forall>s y. sh s = Some y \<longrightarrow> us_read_task y \<noteq> Some t \<and> us_accept_task y \<noteq> Some t)"

lemma clean_done:
  assumes "ucore T b th sh nx R" and "th t = Some x" and "ut_done x"
  shows "clean th sh t"
  unfolding clean_def
proof
  note p = ucore_parts [OF assms(1)]
  show "\<exists>x. th t = Some x \<and> xref x = None \<and> (ut_kind x = TASK_SOCK_WRITE \<longrightarrow> ut_sock x = None)"
    using task_invD [OF p(1) assms(2)] assms(2,3) by (auto simp: task_ok_def)
  show "\<forall>s y. sh s = Some y \<longrightarrow> us_read_task y \<noteq> Some t \<and> us_accept_task y \<noteq> Some t"
    using p(3,4) assms(2,3) by (simp add: read_inv_def acc_inv_def) (metis option.inject)
qed

lemma core_settle:
  assumes "ucore T b th sh nx R" and "th t = Some x" and "t \<in> T" and "clean th sh t"
    and "\<not> ut_detached x" and "res_status r \<noteq> MYIO_PENDING" and "res_ptr r = res_ptr (ut_res x)"
  shows "ucore (T - {t}) b (th(t \<mapsto> x\<lparr>ut_res := r, ut_done := True\<rparr>)) sh nx R"
    and "keeps S th sh (th(t \<mapsto> x\<lparr>ut_res := r, ut_done := True\<rparr>)) sh"
proof -
  note p = ucore_parts [OF assms(1)]
  let ?x = "x\<lparr>ut_res := r, ut_done := True\<rparr>"
  have c: "xref x = None" "ut_kind x = TASK_SOCK_WRITE \<Longrightarrow> ut_sock x = None"
    "\<And>s y. sh s = Some y \<Longrightarrow> us_read_task y \<noteq> Some t \<and> us_accept_task y \<noteq> Some t"
    using assms(2,4) by (auto simp: clean_def)
  have x': "xref ?x = None" "own ?x = own x" using c(1) assms(7) by (auto simp: xref_def own_def)
  have nd: "\<not> ut_done x" using task_invD [OF p(1) assms(2)] assms(3) by (auto simp: task_ok_def)
  have w: "wmembers (th(t \<mapsto> ?x)) s = wmembers th s" for s using assms(2) by (auto simp: wmembers_def)
  show "ucore (T - {t}) b (th(t \<mapsto> ?x)) sh nx R"
  proof (rule ucoreI)
    show "task_inv (T - {t}) b (th(t \<mapsto> ?x))"
      by (rule task_inv_upd [OF p(1)]) (use task_invD [OF p(1) assms(2)] x' c assms(2,5-7) in \<open>auto simp: task_ok_def\<close>)
    show "ring_inv (T - {t}) (th(t \<mapsto> ?x)) sh R"
      using p(2) assms(2,3) by (auto simp: ring_inv_def split: option.splits)
    show "read_inv (T - {t}) (th(t \<mapsto> ?x)) sh" using p(3) c(3) by (auto simp: read_inv_def)
    show "acc_inv (T - {t}) (th(t \<mapsto> ?x)) sh" using p(4) c(3) by (auto simp: acc_inv_def)
    show "wq_inv (th(t \<mapsto> ?x)) sh nx" using p(5) by (simp add: wq_inv_def w)
    show "xr_inv (th(t \<mapsto> ?x)) sh" using p(6) x' by (auto simp: xr_inv_def)
    show "own_inv (th(t \<mapsto> ?x))" using p(7) x' assms(2) by (auto simp: own_inv_def)
  qed (use p(8) in auto)
  show "keeps S th sh (th(t \<mapsto> ?x)) sh"
    using nd assms(2,5,7) x' by (intro keepsI) (auto simp: loose_def)
qed

text \<open>A task that is let go takes the socket of its result with it.\<close>

lemma core_reap:
  assumes "ucore T b th sh nx R" and "th t = Some x" and "t \<in> T \<or> ut_done x" and "clean th sh t"
    and s: "\<And>s. res_ptr (ut_res x) = Some s \<Longrightarrow> loose th sh s"
    and sh': "sh' = (case res_ptr (ut_res x) of Some s \<Rightarrow> sh(s := None) | None \<Rightarrow> sh)"
  shows "ucore (T - {t}) b (th(t := None)) sh' nx R" and "keeps {t} th sh (th(t := None)) sh'"
proof -
  note p = ucore_parts [OF assms(1)]
  have c: "xref x = None" "ut_kind x = TASK_SOCK_WRITE \<Longrightarrow> ut_sock x = None"
    "\<And>s y. sh s = Some y \<Longrightarrow> us_read_task y \<noteq> Some t \<and> us_accept_task y \<noteq> Some t"
    using assms(2,4) by (auto simp: clean_def)
  have le: "sh' k = Some y \<Longrightarrow> sh k = Some y" for k y by (auto simp: sh' split: option.splits if_splits)
  have gone: "sh k = Some y \<Longrightarrow> sh' k \<noteq> Some y \<Longrightarrow> res_ptr (ut_res x) = Some k \<and> quiet y" for k y
    using s by (auto simp: sh' loose_def split: option.splits if_splits)
  have w: "wmembers (th(t := None)) k = wmembers th k" for k using assms(2) c by (auto simp: wmembers_def)
  note wq0 = wq_inv_quiet [OF p(5)]
  have pk: "th q = Some z \<Longrightarrow> parked sh' q z = parked sh q z" for q z
  proof
    assume q: "th q = Some z" and "parked sh q z"
    then obtain k y where k: "ut_kind z = TASK_SOCK_WRITE" "ut_sock z = Some k" "sh k = Some y"
      "wq_head (us_wq y) \<noteq> Some q" by (auto simp: parked_def)
    then have "wmembers th k \<noteq> {}" using wmembers_I [of th q z k] q by auto
    then have "sh' k = Some y" using gone [OF k(3)] wq0 [OF k(3)] by blast
    with k show "parked sh' q z" by (auto simp: parked_def)
  qed (use le in \<open>auto simp: parked_def\<close>)
  show "ucore (T - {t}) b (th(t := None)) sh' nx R"
  proof (rule ucoreI)
    show "task_inv (T - {t}) b (th(t := None))" by (rule task_inv_del [OF p(1)])
    have "count R (Ud_task t) = 0" using p(2) assms(2,3) by (auto simp: ring_inv_def)
    then show "ring_inv (T - {t}) (th(t := None)) sh' R"
      using p(2) pk by (auto simp: ring_inv_def split: option.splits)
    show "read_inv (T - {t}) (th(t := None)) sh'"
      unfolding read_inv_def
    proof (intro conjI allI impI)
      fix q z k
      assume a: "(th(t := None)) q = Some z" "ut_kind z = TASK_SOCK_READ" "\<not> ut_done z" "q \<notin> T - {t}" "ut_sock z = Some k"
      then have "q \<noteq> t" "th q = Some z" "q \<notin> T" by (auto split: if_splits)
      then obtain y where "sh k = Some y" "us_read_task y = Some q"
        using read_inv_back [OF p(3)] a by blast
      then show "\<exists>y. sh' k = Some y \<and> us_read_task y = Some q" using gone by (fastforce simp: quiet_def)
    next
      fix k y q
      assume a: "sh' k = Some y" "us_read_task y = Some q"
      with le have "sh k = Some y" by blast
      with a c(3) p(3) show "\<exists>x. (th(t := None)) q = Some x \<and> ut_kind x = TASK_SOCK_READ \<and> \<not> ut_done x \<and> ut_sock x = Some k"
        by (auto simp: read_inv_def)
    qed
    show "acc_inv (T - {t}) (th(t := None)) sh'"
      unfolding acc_inv_def
    proof (intro conjI allI impI)
      fix q z k
      assume a: "(th(t := None)) q = Some z" "ut_kind z = TASK_ACCEPT" "\<not> ut_done z" "q \<notin> T - {t}" "ut_sock z = Some k"
      then have "q \<noteq> t" "th q = Some z" "q \<notin> T" by (auto split: if_splits)
      then obtain y where "sh k = Some y" "us_accept_task y = Some q"
        using acc_inv_back [OF p(4)] a by blast
      then show "\<exists>y. sh' k = Some y \<and> us_accept_task y = Some q" using gone by (fastforce simp: quiet_def)
    next
      fix k y q
      assume a: "sh' k = Some y" "us_accept_task y = Some q"
      with le have "sh k = Some y" by blast
      with a c(3) p(4) show "\<exists>x. (th(t := None)) q = Some x \<and> ut_kind x = TASK_ACCEPT \<and> \<not> ut_done x \<and> ut_sock x = Some k"
        by (auto simp: acc_inv_def)
    qed
    show "wq_inv (th(t := None)) sh' nx"
      unfolding wq_inv_def w
    proof (intro conjI allI impI)
      show "\<exists>xs. wq_list nx (us_wq y) xs \<and> set xs = wmembers th k" if "sh' k = Some y" for k y
        using wq_inv_list [OF p(5) le [OF that]] .
      show "k \<in> dom sh'" if "wmembers th k \<noteq> {}" for k
        using that wq_inv_live [OF p(5)] wq0 gone by blast
    qed
    show "xr_inv (th(t := None)) sh'"
    proof -
      have "\<exists>y. sh' k = Some y \<and> quiet y" if qz: "th q = Some z" "xref z = Some k" for q z k
      proof -
        obtain y where y: "sh k = Some y" "quiet y" using xr_inv_live [OF p(6) qz] by blast
        have "res_ptr (ut_res x) \<noteq> Some k" using s [of k] qz by (auto simp: loose_def)
        with y gone show ?thesis by blast
      qed
      with p(6) show ?thesis by (auto simp: xr_inv_def)
    qed
    show "own_inv (th(t := None))" using p(7) by (auto simp: own_inv_def)
  qed (use p(8) le in auto)
  show "keeps {t} th sh (th(t := None)) sh'"
  proof (rule keepsI)
    fix q z k
    assume q: "th q = Some z" "q \<notin> {t}" "res_ptr (ut_res z) = Some k" "loose th sh k"
    then obtain y where y: "sh k = Some y" "quiet y" by (auto simp: loose_def)
    have "res_ptr (ut_res x) \<noteq> Some k"
      using p(7) q assms(2) by (auto simp: own_inv_def own_def)
    with y gone have "sh' k = Some y" by blast
    with y q show "loose (th(t := None)) sh' k" by (auto simp: loose_def)
  qed auto
qed

lemma core_reap_detached:
  assumes "keeps {t} th sh (th(t := None)) sh'" and "th t = Some x" and "ut_detached x"
  shows "keeps S th sh (th(t := None)) sh'"
  using assms by (auto simp: keeps_def)

subsection \<open>Requests given to the kernel and taken back\<close>

lemma core_arm:
  assumes "ucore T b th sh nx R" and "th t = Some x" and "t \<in> T" and "\<not> parked sh t x"
    and "res_ptr (ut_res x) = None"
    and "ut_kind x = TASK_CONNECT \<or> ut_kind x = TASK_ACCEPT \<Longrightarrow> xref x \<noteq> None"
    and "ut_kind x = TASK_SOCK_READ \<or> ut_kind x = TASK_ACCEPT \<Longrightarrow> ut_sock x = None"
  shows "ucore (T - {t}) b th sh nx (add_mset (Ud_task t) R)"
proof (rule ucoreI)
  note p = ucore_parts [OF assms(1)]
  have nd: "\<not> ut_done x" using task_invD [OF p(1) assms(2)] assms(3) by (auto simp: task_ok_def)
  have "task_inv (T - {t}) b (th(t \<mapsto> x))"
    by (rule task_inv_upd [OF p(1)]) (use task_invD [OF p(1) assms(2)] assms(2,5,6) nd in \<open>auto simp: task_ok_def\<close>)
  then show "task_inv (T - {t}) b th" using assms(2) by (simp add: fun_upd_idem)
  show "ring_inv (T - {t}) th sh (add_mset (Ud_task t) R)"
    using p(2) assms(2-4) nd by (auto simp: ring_inv_def split: option.splits)
  show "read_inv (T - {t}) th sh" using p(3) assms(2,7) by (auto simp: read_inv_def)
  show "acc_inv (T - {t}) th sh" using p(4) assms(2,7) by (auto simp: acc_inv_def)
qed (use ucore_parts [OF assms(1)] in auto)

lemma core_cancel_sqe: "ucore T b th sh nx R \<Longrightarrow> ucore T b th sh nx (add_mset Ud_cancel R)"
  by (simp add: ucore_def ring_inv_def)

lemma core_cancel_cqe: "ucore T b th sh nx R \<Longrightarrow> ucore T b th sh nx (R - {#Ud_cancel#})"
  by (simp add: ucore_def ring_inv_def)

text \<open>A CQE is for a pending task that nothing else of the program is settling.\<close>

lemma core_cqe_task:
  assumes "ucore T b th sh nx R" and "Ud_task t \<in># R"
  shows "\<exists>x. th t = Some x \<and> \<not> ut_done x \<and> t \<notin> T \<and> \<not> parked sh t x"
proof -
  have "count R (Ud_task t) \<noteq> 0" using assms(2) by (simp add: not_in_iff)
  with ucore_parts(2) [OF assms(1)] show ?thesis by (auto simp: ring_inv_def split: option.splits if_splits)
qed

lemma core_take:
  assumes "ucore T b th sh nx R" and "Ud_task t \<in># R"
  shows "ucore (insert t T) b th sh nx (R - {#Ud_task t#})"
proof (rule ucoreI)
  note p = ucore_parts [OF assms(1)]
  from core_cqe_task [OF assms] obtain x
    where x: "th t = Some x" "\<not> ut_done x" "t \<notin> T" "\<not> parked sh t x" by blast
  have "task_inv (insert t T) b (th(t \<mapsto> x))"
    by (rule task_inv_upd [OF p(1)]) (use task_invD [OF p(1) x(1)] x in \<open>auto simp: task_ok_def\<close>)
  then show "task_inv (insert t T) b th" using x(1) by (simp add: fun_upd_idem)
  show "ring_inv (insert t T) th sh (R - {#Ud_task t#})"
    using p(2) x by (auto simp: ring_inv_def split: option.splits)
  show "read_inv (insert t T) th sh" using p(3) by (auto simp: read_inv_def)
  show "acc_inv (insert t T) th sh" using p(4) by (auto simp: acc_inv_def)
qed (use ucore_parts [OF assms(1)] in auto)

subsection \<open>Sockets a task has to itself\<close>

text \<open>The task gives the socket up and the socket goes away (failed connect, failed accept, close).\<close>

lemma core_drop_xref:
  assumes "ucore T b th sh nx R" and "th t = Some x" and "t \<in> T" and "xref x = Some s"
    and x': "x' = (if ut_kind x = TASK_ACCEPT then x\<lparr>ut_newsock := None\<rparr> else x\<lparr>ut_sock := None\<rparr>)"
  shows "ucore T b (th(t \<mapsto> x')) (sh(s := None)) nx R"
    and "keeps S th sh (th(t \<mapsto> x')) (sh(s := None))" and "xref x' = None"
proof -
  note p = ucore_parts [OF assms(1)]
  obtain y where y: "sh s = Some y" "quiet y" using xr_inv_live [OF p(6) assms(2,4)] by blast
  have k: "ut_kind x = TASK_CONNECT \<or> ut_kind x = TASK_SOCK_CLOSE \<or> ut_kind x = TASK_ACCEPT"
    using assms(4) by (auto simp: xref_def split: if_splits)
  show x0: "xref x' = None" using k by (auto simp: x' xref_def)
  have x1: "ut_kind x' = ut_kind x" "ut_done x' = ut_done x" "ut_detached x' = ut_detached x" "ut_res x' = ut_res x"
    "ut_kind x = TASK_ACCEPT \<Longrightarrow> ut_sock x' = ut_sock x"
    by (auto simp: x')
  have o: "own x' = None \<or> own x' = own x" by (auto simp: x' own_def)
  have others: "th q = Some z \<Longrightarrow> xref z = Some s \<Longrightarrow> q = t" for q z
    using xr_inv_inj [OF p(6) assms(2,4)] by blast
  have ws: "wmembers th s = {}" by (rule wq_inv_quiet [OF p(5) y])
  have w: "wmembers (th(t \<mapsto> x')) r = wmembers th r" for r
    using k x1 assms(2) by (auto simp: wmembers_def)
  have pk: "th q = Some z \<Longrightarrow> parked (sh(s := None)) q z = parked sh q z" for q z
    using ws by (auto simp: wmembers_def intro!: parked_other)
  have pk': "\<not> parked sh' t x'" for sh' using k x1 by (auto simp: parked_def)
  show "ucore T b (th(t \<mapsto> x')) (sh(s := None)) nx R"
  proof (rule ucoreI)
    show "task_inv T b (th(t \<mapsto> x'))"
      by (rule task_inv_upd [OF p(1)]) (use task_invD [OF p(1) assms(2)] assms(3) x0 x1(1-4) k o in \<open>auto simp: task_ok_def\<close>)
    show "ring_inv T (th(t \<mapsto> x')) (sh(s := None)) R"
      using p(2) pk pk' assms(2,3) by (auto simp: ring_inv_def split: option.splits)
    show "read_inv T (th(t \<mapsto> x')) (sh(s := None))"
      by (rule read_inv_drop [OF p(3) assms(2)]) (use k x1 y in \<open>auto simp: quiet_def\<close>)
    show "acc_inv T (th(t \<mapsto> x')) (sh(s := None))"
      by (rule acc_inv_drop [OF p(4) assms(2,3)]) (use x1 y in \<open>auto simp: quiet_def\<close>)
    show "wq_inv (th(t \<mapsto> x')) (sh(s := None)) nx" using p(5) ws unfolding wq_inv_def w by auto
    show "xr_inv (th(t \<mapsto> x')) (sh(s := None))"
      using p(6) others x0 unfolding xr_inv_def by (auto split: if_splits)
    show "own_inv (th(t \<mapsto> x'))" by (rule own_inv_upd [OF p(7) assms(2) o])
  qed (use p(8) in \<open>auto split: if_splits\<close>)
  have "\<not> loose th sh s" using assms(2,4) by (auto simp: loose_def)
  then show "keeps S th sh (th(t \<mapsto> x')) (sh(s := None))"
    using x0 x1 assms(2) by (intro keepsI) (auto simp: loose_def)
qed

text \<open>A loose socket becomes the exclusive business of a task.\<close>

lemma core_set_xref:
  assumes "ucore T b th sh nx R" and "th t = Some x" and "\<not> ut_done x" and "loose th sh s"
    and "res_ptr (ut_res x) = None"
    and "x' = (if ut_kind x = TASK_ACCEPT then x\<lparr>ut_newsock := Some s\<rparr> else x\<lparr>ut_sock := Some s\<rparr>)"
    and "ut_kind x = TASK_CONNECT \<or> ut_kind x = TASK_SOCK_CLOSE \<or> ut_kind x = TASK_ACCEPT"
    and "ut_kind x \<noteq> TASK_SOCK_CLOSE \<Longrightarrow> \<forall>q z. th q = Some z \<longrightarrow> own z \<noteq> Some s"
  shows "ucore T b (th(t \<mapsto> x')) sh nx R" and "xref x' = Some s"
proof -
  note p = ucore_parts [OF assms(1)]
  show x0: "xref x' = Some s" using assms(6,7) by (auto simp: xref_def)
  have x1: "ut_kind x' = ut_kind x" "ut_done x' = ut_done x" "ut_detached x' = ut_detached x" "ut_res x' = ut_res x"
    "ut_kind x = TASK_ACCEPT \<Longrightarrow> ut_sock x' = ut_sock x"
    using assms(6) by auto
  have o: "own x' = (if ut_kind x = TASK_SOCK_CLOSE then None else Some s)"
    using assms(5-7) by (auto simp: own_def)
  have s: "s < b" "\<exists>y. sh s = Some y \<and> quiet y" using assms(4) p(8) [of s] by (auto simp: loose_def)
  have w: "wmembers (th(t \<mapsto> x')) r = wmembers th r" for r
    using assms(2,7) x1 by (auto simp: wmembers_def)
  have pk: "parked sh t x' = parked sh t x" using assms(7) x1 by (auto simp: parked_def)
  show "ucore T b (th(t \<mapsto> x')) sh nx R"
  proof (rule ucoreI)
    show "task_inv T b (th(t \<mapsto> x'))"
      by (rule task_inv_upd [OF p(1)]) (use task_invD [OF p(1) assms(2)] assms(3,5) x0 x1(1-4) s(1) o in \<open>auto simp: task_ok_def\<close>)
    show "ring_inv T (th(t \<mapsto> x')) sh R"
      using p(2) pk assms(2) x1 by (auto simp: ring_inv_def split: option.splits)
    show "read_inv T (th(t \<mapsto> x')) sh"
      by (rule read_inv_upd [OF p(3) assms(2)]) (use assms(7) x1 in auto)
    show "acc_inv T (th(t \<mapsto> x')) sh"
      by (rule acc_inv_upd [OF p(4) assms(2)]) (use assms(7) x1 in auto)
    show "wq_inv (th(t \<mapsto> x')) sh nx" using p(5) by (simp add: wq_inv_def w)
    show "xr_inv (th(t \<mapsto> x')) sh" using p(6) assms(4) s x0 by (auto simp: xr_inv_def loose_def)
    show "own_inv (th(t \<mapsto> x'))" using p(7) assms(8) o by (auto simp: own_inv_def split: if_splits)
  qed (use p(8) in auto)
qed

text \<open>A connect or accept succeeds: the socket moves into the task's result.\<close>

lemma core_win:
  assumes "ucore T b th sh nx R" and "th t = Some x" and "t \<in> T" and "xref x = Some s"
    and x1: "ut_kind x' = ut_kind x" "ut_done x' = ut_done x" "ut_detached x' = ut_detached x"
      "ut_res x' = (ut_res x)\<lparr>res_ptr := Some s\<rparr>" "ut_kind x = TASK_ACCEPT \<Longrightarrow> ut_sock x' = ut_sock x"
    and x0: "xref x' = None" and kk: "ut_kind x = TASK_CONNECT \<or> ut_kind x = TASK_ACCEPT"
    and rp: "res_ptr (ut_res x) = None"
  shows "ucore T b (th(t \<mapsto> x')) sh nx R" and "keeps S th sh (th(t \<mapsto> x')) sh"
    and "loose (th(t \<mapsto> x')) sh s"
proof -
  note p = ucore_parts [OF assms(1)]
  have o: "own x' = own x" using assms(4) x0 kk rp x1 by (auto simp: own_def xref_def)
  have w: "wmembers (th(t \<mapsto> x')) r = wmembers th r" for r
    using assms(2) kk x1 by (auto simp: wmembers_def)
  have pk: "parked sh t x' = parked sh t x" using kk x1 by (auto simp: parked_def)
  have nd: "\<not> ut_done x" using task_invD [OF p(1) assms(2)] assms(3) by (auto simp: task_ok_def)
  obtain y where y: "sh s = Some y" "quiet y" using xr_inv_live [OF p(6) assms(2,4)] by blast
  show l: "loose (th(t \<mapsto> x')) sh s"
    using y xr_inv_inj [OF p(6) assms(2,4)] x0 by (auto simp: loose_def)
  show "ucore T b (th(t \<mapsto> x')) sh nx R"
  proof (rule ucoreI)
    show "task_inv T b (th(t \<mapsto> x'))"
      by (rule task_inv_upd [OF p(1)]) (use task_invD [OF p(1) assms(2)] assms(3) nd x1(1-4) o kk in \<open>auto simp: task_ok_def\<close>)
    show "ring_inv T (th(t \<mapsto> x')) sh R"
      using p(2) pk assms(2) x1 by (auto simp: ring_inv_def split: option.splits)
    show "read_inv T (th(t \<mapsto> x')) sh"
      by (rule read_inv_upd [OF p(3) assms(2)]) (use kk x1 in auto)
    show "acc_inv T (th(t \<mapsto> x')) sh"
      by (rule acc_inv_upd [OF p(4) assms(2)]) (use x1 in auto)
    show "wq_inv (th(t \<mapsto> x')) sh nx" using p(5) by (simp add: wq_inv_def w)
    show "xr_inv (th(t \<mapsto> x')) sh" using p(6) x0 by (auto simp: xr_inv_def)
    show "own_inv (th(t \<mapsto> x'))" by (rule own_inv_upd [OF p(7) assms(2)]) (simp add: o)
  qed (use p(8) in auto)
  show "keeps S th sh (th(t \<mapsto> x')) sh"
    using nd assms(2) x0 x1 l by (intro keepsI) (auto simp: loose_def)
qed

subsection \<open>Reads and accepts: the links between task and socket\<close>

lemma parked_sock: "sh s = Some y \<Longrightarrow> us_wq y' = us_wq y \<Longrightarrow> parked (sh(s \<mapsto> y')) q z = parked sh q z"
  by (auto simp: parked_def)

lemma wq_inv_sock: "wq_inv th sh nx \<Longrightarrow> sh s = Some y \<Longrightarrow> us_wq y' = us_wq y \<Longrightarrow> wq_inv th (sh(s \<mapsto> y')) nx"
  by (auto simp: wq_inv_def)

lemma xr_inv_sock:
  assumes "xr_inv th sh" and "sh s = Some y" and "\<And>t x. th t = Some x \<Longrightarrow> xref x = Some s \<Longrightarrow> quiet y \<Longrightarrow> quiet y'"
  shows "xr_inv th (sh(s \<mapsto> y'))"
  unfolding xr_inv_def
proof (intro conjI allI impI)
  show "\<exists>y. (sh(s \<mapsto> y')) k = Some y \<and> quiet y" if "th q = Some z" "xref z = Some k" for q z k
    using xr_inv_live [OF assms(1) that] assms(2,3) that by (cases "k = s") auto
qed (use xr_inv_inj [OF assms(1)] in blast)

lemma xr_inv_upd:
  assumes "xr_inv th sh" and "th t = Some x" and "xref x' = xref x"
  shows "xr_inv (th(t \<mapsto> x')) sh"
  using assms by (auto simp: xr_inv_def)

lemma ring_inv_sock:
  "ring_inv T th sh R \<Longrightarrow> sh s = Some y \<Longrightarrow> us_wq y' = us_wq y \<Longrightarrow> ring_inv T th (sh(s \<mapsto> y')) R"
  by (simp add: ring_inv_def parked_sock cong: option.case_cong)

lemma ring_inv_upd:
  "ring_inv T th sh R \<Longrightarrow> th t = Some x \<Longrightarrow> ut_done x' = ut_done x \<Longrightarrow> parked sh t x' = parked sh t x \<Longrightarrow>
     ring_inv T (th(t \<mapsto> x')) sh R"
  by (auto simp: ring_inv_def)

lemma read_inv_sock:
  assumes r: "read_inv T th sh" and s: "sh s = Some y"
    and y': "us_read_task y' = us_read_task y \<or> us_read_task y' = None \<and> (\<exists>t \<in> T. us_read_task y = Some t)"
  shows "read_inv T th (sh(s \<mapsto> y'))"
  unfolding read_inv_def
proof (intro conjI allI impI)
  fix q z k
  assume q: "th q = Some z" "ut_kind z = TASK_SOCK_READ" "\<not> ut_done z" "q \<notin> T" "ut_sock z = Some k"
  from read_inv_back [OF r q] s y' q(4)
  show "\<exists>y. (sh(s \<mapsto> y')) k = Some y \<and> us_read_task y = Some q" by (cases "k = s") auto
next
  fix k z q
  assume "(sh(s \<mapsto> y')) k = Some z" "us_read_task z = Some q"
  then obtain z' where "sh k = Some z'" "us_read_task z' = Some q" using s y' by (auto split: if_splits)
  from read_inv_task [OF r this]
  show "\<exists>x. th q = Some x \<and> ut_kind x = TASK_SOCK_READ \<and> \<not> ut_done x \<and> ut_sock x = Some k" .
qed

lemma acc_inv_sock:
  assumes r: "acc_inv T th sh" and s: "sh s = Some y"
    and y': "us_accept_task y' = us_accept_task y \<or> us_accept_task y' = None \<and> (\<exists>t \<in> T. us_accept_task y = Some t)"
  shows "acc_inv T th (sh(s \<mapsto> y'))"
  unfolding acc_inv_def
proof (intro conjI allI impI)
  fix q z k
  assume q: "th q = Some z" "ut_kind z = TASK_ACCEPT" "\<not> ut_done z" "q \<notin> T" "ut_sock z = Some k"
  from acc_inv_back [OF r q] s y' q(4)
  show "\<exists>y. (sh(s \<mapsto> y')) k = Some y \<and> us_accept_task y = Some q" by (cases "k = s") auto
next
  fix k z q
  assume "(sh(s \<mapsto> y')) k = Some z" "us_accept_task z = Some q"
  then obtain z' where "sh k = Some z'" "us_accept_task z' = Some q" using s y' by (auto split: if_splits)
  from acc_inv_task [OF r this]
  show "\<exists>x. th q = Some x \<and> ut_kind x = TASK_ACCEPT \<and> \<not> ut_done x \<and> ut_sock x = Some k" .
qed

lemma core_sock_same:
  assumes "ucore T b th sh nx R" and "sh s = Some y" and "us_read_task y' = us_read_task y"
    and "us_accept_task y' = us_accept_task y" and "us_wq y' = us_wq y"
  shows "ucore T b th (sh(s \<mapsto> y')) nx R" and "keeps S th sh th (sh(s \<mapsto> y'))"
proof -
  note p = ucore_parts [OF assms(1)]
  have q: "quiet y' = quiet y" using assms(3-5) by (simp add: quiet_def)
  show "ucore T b th (sh(s \<mapsto> y')) nx R"
  proof (rule ucoreI)
    show "task_inv T b th" "own_inv th" by (rule p)+
    show "ring_inv T th (sh(s \<mapsto> y')) R" by (rule ring_inv_sock [OF p(2) assms(2,5)])
    show "read_inv T th (sh(s \<mapsto> y'))" by (rule read_inv_sock [OF p(3) assms(2)]) (simp add: assms)
    show "acc_inv T th (sh(s \<mapsto> y'))" by (rule acc_inv_sock [OF p(4) assms(2)]) (simp add: assms)
    show "wq_inv th (sh(s \<mapsto> y')) nx" by (rule wq_inv_sock [OF p(5) assms(2,5)])
    show "xr_inv th (sh(s \<mapsto> y'))" by (rule xr_inv_sock [OF p(6) assms(2)]) (simp add: q)
  qed (use p(8) assms(2) in \<open>auto split: if_splits\<close>)
  show "keeps S th sh th (sh(s \<mapsto> y'))" using assms(2) q by (intro keepsI) (auto simp: loose_def)
qed

lemma core_unread:
  assumes "ucore T b th sh nx R" and "sh s = Some y" and "us_read_task y = Some t" and "t \<in> T"
  shows "ucore T b th (sh(s \<mapsto> y\<lparr>us_read_task := None\<rparr>)) nx R" and "keeps S th sh th (sh(s \<mapsto> y\<lparr>us_read_task := None\<rparr>))"
    and "sh k = Some y' \<Longrightarrow> us_read_task y' = Some t \<Longrightarrow> k = s"
proof -
  note p = ucore_parts [OF assms(1)]
  from read_inv_task [OF p(3) assms(2,3)] obtain x where x: "th t = Some x" "ut_sock x = Some s" by blast
  show u: "k = s" if "sh k = Some y'" "us_read_task y' = Some t" for k y'
    using read_inv_task [OF p(3) that] x by auto
  show "ucore T b th (sh(s \<mapsto> y\<lparr>us_read_task := None\<rparr>)) nx R"
  proof (rule ucoreI)
    show "task_inv T b th" "own_inv th" by (rule p)+
    show "ring_inv T th (sh(s \<mapsto> y\<lparr>us_read_task := None\<rparr>)) R" by (rule ring_inv_sock [OF p(2) assms(2)]) simp
    show "read_inv T th (sh(s \<mapsto> y\<lparr>us_read_task := None\<rparr>))" by (rule read_inv_sock [OF p(3) assms(2)]) (use assms(3,4) in auto)
    show "acc_inv T th (sh(s \<mapsto> y\<lparr>us_read_task := None\<rparr>))" by (rule acc_inv_sock [OF p(4) assms(2)]) simp
    show "wq_inv th (sh(s \<mapsto> y\<lparr>us_read_task := None\<rparr>)) nx" by (rule wq_inv_sock [OF p(5) assms(2)]) simp
    show "xr_inv th (sh(s \<mapsto> y\<lparr>us_read_task := None\<rparr>))"
      by (rule xr_inv_sock [OF p(6) assms(2)]) (simp add: quiet_def)
  qed (use p(8) assms(2) in \<open>auto split: if_splits\<close>)
  show "keeps S th sh th (sh(s \<mapsto> y\<lparr>us_read_task := None\<rparr>))"
    using assms(2) by (intro keepsI) (auto simp: loose_def quiet_def)
qed

lemma core_sever_read:
  assumes "ucore T b th sh nx R" and "sh s = Some y" and "us_read_task y = Some t" and "th t = Some x"
  shows "ucore T b (th(t \<mapsto> x\<lparr>ut_sock := None\<rparr>)) (sh(s \<mapsto> y\<lparr>us_read_task := None\<rparr>)) nx R"
proof -
  note p = ucore_parts [OF assms(1)]
  let ?x = "x\<lparr>ut_sock := None\<rparr>" and ?y = "y\<lparr>us_read_task := None\<rparr>"
  from read_inv_task [OF p(3) assms(2,3)] assms(4)
  have x: "ut_kind x = TASK_SOCK_READ" "\<not> ut_done x" "ut_sock x = Some s" by auto
  have e: "xref ?x = xref x" "own ?x = own x" "parked sh t ?x = parked sh t x"
    using x by (auto simp: xref_def own_def parked_def)
  have w: "wmembers (th(t \<mapsto> ?x)) k = wmembers th k" for k using x assms(4) by (auto simp: wmembers_def)
  show ?thesis
  proof (rule ucoreI)
    show "task_inv T b (th(t \<mapsto> ?x))"
      by (rule task_inv_upd [OF p(1)]) (use task_invD [OF p(1) assms(4)] assms(4) x e in \<open>auto simp: task_ok_def\<close>)
    show "own_inv (th(t \<mapsto> ?x))" by (rule own_inv_upd [OF p(7) assms(4)]) (simp add: e)
    show "ring_inv T (th(t \<mapsto> ?x)) (sh(s \<mapsto> ?y)) R"
      by (rule ring_inv_sock [OF ring_inv_upd [OF p(2) assms(4)] assms(2)]) (simp_all add: e)
    show "read_inv T (th(t \<mapsto> ?x)) (sh(s \<mapsto> ?y))"
      unfolding read_inv_def
    proof (intro conjI allI impI)
      fix q z k
      assume q: "(th(t \<mapsto> ?x)) q = Some z" "ut_kind z = TASK_SOCK_READ" "\<not> ut_done z" "q \<notin> T" "ut_sock z = Some k"
      then have "q \<noteq> t" "th q = Some z" by (auto split: if_splits)
      with read_inv_back [OF p(3) this(2) q(2-5)] assms(2,3)
      show "\<exists>y. (sh(s \<mapsto> ?y)) k = Some y \<and> us_read_task y = Some q" by auto
    next
      fix k y' q
      assume "(sh(s \<mapsto> ?y)) k = Some y'" "us_read_task y' = Some q"
      then have "k \<noteq> s" "sh k = Some y'" "us_read_task y' = Some q" by (auto split: if_splits)
      with read_inv_task [OF p(3) this(2,3)] assms(4) x
      show "\<exists>x. (th(t \<mapsto> ?x)) q = Some x \<and> ut_kind x = TASK_SOCK_READ \<and> \<not> ut_done x \<and> ut_sock x = Some k" by auto
    qed
    show "acc_inv T (th(t \<mapsto> ?x)) (sh(s \<mapsto> ?y))"
    proof -
      have "acc_inv T (th(t \<mapsto> ?x)) sh" by (rule acc_inv_upd [OF p(4) assms(4)]) (simp_all add: x)
      then show ?thesis by (rule acc_inv_sock [where y = y]) (simp_all add: assms(2))
    qed
    show "wq_inv (th(t \<mapsto> ?x)) (sh(s \<mapsto> ?y)) nx"
      using wq_inv_sock [OF p(5) assms(2), of ?y] by (simp add: wq_inv_def w)
    show "xr_inv (th(t \<mapsto> ?x)) (sh(s \<mapsto> ?y))"
      by (rule xr_inv_upd [OF xr_inv_sock [OF p(6) assms(2)] assms(4) e(1)]) (simp add: quiet_def)
  qed (use p(8) assms(2) in \<open>auto split: if_splits\<close>)
qed

lemma core_set_read:
  assumes "ucore T b th sh nx R" and "sh s = Some y" and "us_read_task y = None" and "th t = Some x"
    and x: "ut_kind x = TASK_SOCK_READ" "\<not> ut_done x" "ut_sock x = None"
    and nox: "\<And>q z. th q = Some z \<Longrightarrow> xref z \<noteq> Some s"
  shows "ucore T b (th(t \<mapsto> x\<lparr>ut_sock := Some s\<rparr>)) (sh(s \<mapsto> y\<lparr>us_read_task := Some t\<rparr>)) nx R"
proof -
  note p = ucore_parts [OF assms(1)]
  let ?x = "x\<lparr>ut_sock := Some s\<rparr>" and ?y = "y\<lparr>us_read_task := Some t\<rparr>"
  have e: "xref ?x = xref x" "own ?x = own x" "parked sh t ?x = parked sh t x"
    using x by (auto simp: xref_def own_def parked_def)
  have w: "wmembers (th(t \<mapsto> ?x)) k = wmembers th k" for k using x assms(4) by (auto simp: wmembers_def)
  show ?thesis
  proof (rule ucoreI)
    show "task_inv T b (th(t \<mapsto> ?x))"
      by (rule task_inv_upd [OF p(1)]) (use task_invD [OF p(1) assms(4)] assms(4) x e in \<open>auto simp: task_ok_def\<close>)
    show "own_inv (th(t \<mapsto> ?x))" by (rule own_inv_upd [OF p(7) assms(4)]) (simp add: e)
    show "ring_inv T (th(t \<mapsto> ?x)) (sh(s \<mapsto> ?y)) R"
      by (rule ring_inv_sock [OF ring_inv_upd [OF p(2) assms(4)] assms(2)]) (simp_all add: e)
    show "read_inv T (th(t \<mapsto> ?x)) (sh(s \<mapsto> ?y))"
      unfolding read_inv_def
    proof (intro conjI allI impI)
      fix q z k
      assume q: "(th(t \<mapsto> ?x)) q = Some z" "ut_kind z = TASK_SOCK_READ" "\<not> ut_done z" "q \<notin> T" "ut_sock z = Some k"
      show "\<exists>y. (sh(s \<mapsto> ?y)) k = Some y \<and> us_read_task y = Some q"
      proof (cases "q = t")
        case False
        with q have "th q = Some z" by simp
        from read_inv_back [OF p(3) this q(2-5)] assms(2,3) show ?thesis by auto
      qed (use q in auto)
    next
      fix k y' q
      assume k: "(sh(s \<mapsto> ?y)) k = Some y'" "us_read_task y' = Some q"
      show "\<exists>x. (th(t \<mapsto> ?x)) q = Some x \<and> ut_kind x = TASK_SOCK_READ \<and> \<not> ut_done x \<and> ut_sock x = Some k"
      proof (cases "k = s")
        case False
        with k have "sh k = Some y'" by simp
        from read_inv_task [OF p(3) this k(2)] assms(4) x show ?thesis by auto
      qed (use k x in auto)
    qed
    show "acc_inv T (th(t \<mapsto> ?x)) (sh(s \<mapsto> ?y))"
    proof -
      have "acc_inv T (th(t \<mapsto> ?x)) sh" by (rule acc_inv_upd [OF p(4) assms(4)]) (simp_all add: x)
      then show ?thesis by (rule acc_inv_sock [where y = y]) (simp_all add: assms(2))
    qed
    show "wq_inv (th(t \<mapsto> ?x)) (sh(s \<mapsto> ?y)) nx"
      using wq_inv_sock [OF p(5) assms(2), of ?y] by (simp add: wq_inv_def w)
    show "xr_inv (th(t \<mapsto> ?x)) (sh(s \<mapsto> ?y))"
      by (rule xr_inv_upd [OF xr_inv_sock [OF p(6) assms(2)] assms(4) e(1)]) (use nox in auto)
  qed (use p(8) assms(2) in \<open>auto split: if_splits\<close>)
qed

lemma core_unacc:
  assumes "ucore T b th sh nx R" and "sh s = Some y" and "us_accept_task y = Some t" and "t \<in> T"
  shows "ucore T b th (sh(s \<mapsto> y\<lparr>us_accept_task := None\<rparr>)) nx R" and "keeps S th sh th (sh(s \<mapsto> y\<lparr>us_accept_task := None\<rparr>))"
    and "sh k = Some y' \<Longrightarrow> us_accept_task y' = Some t \<Longrightarrow> k = s"
proof -
  note p = ucore_parts [OF assms(1)]
  from acc_inv_task [OF p(4) assms(2,3)] obtain x where x: "th t = Some x" "ut_sock x = Some s" by blast
  show u: "k = s" if "sh k = Some y'" "us_accept_task y' = Some t" for k y'
    using acc_inv_task [OF p(4) that] x by auto
  show "ucore T b th (sh(s \<mapsto> y\<lparr>us_accept_task := None\<rparr>)) nx R"
  proof (rule ucoreI)
    show "task_inv T b th" "own_inv th" by (rule p)+
    show "ring_inv T th (sh(s \<mapsto> y\<lparr>us_accept_task := None\<rparr>)) R" by (rule ring_inv_sock [OF p(2) assms(2)]) simp
    show "acc_inv T th (sh(s \<mapsto> y\<lparr>us_accept_task := None\<rparr>))" by (rule acc_inv_sock [OF p(4) assms(2)]) (use assms(3,4) in auto)
    show "read_inv T th (sh(s \<mapsto> y\<lparr>us_accept_task := None\<rparr>))" by (rule read_inv_sock [OF p(3) assms(2)]) simp
    show "wq_inv th (sh(s \<mapsto> y\<lparr>us_accept_task := None\<rparr>)) nx" by (rule wq_inv_sock [OF p(5) assms(2)]) simp
    show "xr_inv th (sh(s \<mapsto> y\<lparr>us_accept_task := None\<rparr>))"
      by (rule xr_inv_sock [OF p(6) assms(2)]) (simp add: quiet_def)
  qed (use p(8) assms(2) in \<open>auto split: if_splits\<close>)
  show "keeps S th sh th (sh(s \<mapsto> y\<lparr>us_accept_task := None\<rparr>))"
    using assms(2) by (intro keepsI) (auto simp: loose_def quiet_def)
qed

lemma core_sever_acc:
  assumes "ucore T b th sh nx R" and "sh s = Some y" and "us_accept_task y = Some t" and "th t = Some x"
  shows "ucore T b (th(t \<mapsto> x\<lparr>ut_sock := None\<rparr>)) (sh(s \<mapsto> y\<lparr>us_accept_task := None\<rparr>)) nx R"
proof -
  note p = ucore_parts [OF assms(1)]
  let ?x = "x\<lparr>ut_sock := None\<rparr>" and ?y = "y\<lparr>us_accept_task := None\<rparr>"
  from acc_inv_task [OF p(4) assms(2,3)] assms(4)
  have x: "ut_kind x = TASK_ACCEPT" "\<not> ut_done x" "ut_sock x = Some s" by auto
  have e: "xref ?x = xref x" "own ?x = own x" "parked sh t ?x = parked sh t x"
    using x by (auto simp: xref_def own_def parked_def)
  have w: "wmembers (th(t \<mapsto> ?x)) k = wmembers th k" for k using x assms(4) by (auto simp: wmembers_def)
  show ?thesis
  proof (rule ucoreI)
    show "task_inv T b (th(t \<mapsto> ?x))"
      by (rule task_inv_upd [OF p(1)]) (use task_invD [OF p(1) assms(4)] assms(4) x e in \<open>auto simp: task_ok_def\<close>)
    show "own_inv (th(t \<mapsto> ?x))" by (rule own_inv_upd [OF p(7) assms(4)]) (simp add: e)
    show "ring_inv T (th(t \<mapsto> ?x)) (sh(s \<mapsto> ?y)) R"
      by (rule ring_inv_sock [OF ring_inv_upd [OF p(2) assms(4)] assms(2)]) (simp_all add: e)
    show "acc_inv T (th(t \<mapsto> ?x)) (sh(s \<mapsto> ?y))"
      unfolding acc_inv_def
    proof (intro conjI allI impI)
      fix q z k
      assume q: "(th(t \<mapsto> ?x)) q = Some z" "ut_kind z = TASK_ACCEPT" "\<not> ut_done z" "q \<notin> T" "ut_sock z = Some k"
      then have "q \<noteq> t" "th q = Some z" by (auto split: if_splits)
      with acc_inv_back [OF p(4) this(2) q(2-5)] assms(2,3)
      show "\<exists>y. (sh(s \<mapsto> ?y)) k = Some y \<and> us_accept_task y = Some q" by auto
    next
      fix k y' q
      assume "(sh(s \<mapsto> ?y)) k = Some y'" "us_accept_task y' = Some q"
      then have "k \<noteq> s" "sh k = Some y'" "us_accept_task y' = Some q" by (auto split: if_splits)
      with acc_inv_task [OF p(4) this(2,3)] assms(4) x
      show "\<exists>x. (th(t \<mapsto> ?x)) q = Some x \<and> ut_kind x = TASK_ACCEPT \<and> \<not> ut_done x \<and> ut_sock x = Some k" by auto
    qed
    show "read_inv T (th(t \<mapsto> ?x)) (sh(s \<mapsto> ?y))"
    proof -
      have "read_inv T (th(t \<mapsto> ?x)) sh" by (rule read_inv_upd [OF p(3) assms(4)]) (simp_all add: x)
      then show ?thesis by (rule read_inv_sock [where y = y]) (simp_all add: assms(2))
    qed
    show "wq_inv (th(t \<mapsto> ?x)) (sh(s \<mapsto> ?y)) nx"
      using wq_inv_sock [OF p(5) assms(2), of ?y] by (simp add: wq_inv_def w)
    show "xr_inv (th(t \<mapsto> ?x)) (sh(s \<mapsto> ?y))"
      by (rule xr_inv_upd [OF xr_inv_sock [OF p(6) assms(2)] assms(4) e(1)]) (simp add: quiet_def)
  qed (use p(8) assms(2) in \<open>auto split: if_splits\<close>)
qed

lemma core_set_acc:
  assumes "ucore T b th sh nx R" and "sh s = Some y" and "us_accept_task y = None" and "th t = Some x"
    and x: "ut_kind x = TASK_ACCEPT" "\<not> ut_done x" "ut_sock x = None"
    and nox: "\<And>q z. th q = Some z \<Longrightarrow> xref z \<noteq> Some s"
  shows "ucore T b (th(t \<mapsto> x\<lparr>ut_sock := Some s\<rparr>)) (sh(s \<mapsto> y\<lparr>us_accept_task := Some t\<rparr>)) nx R"
proof -
  note p = ucore_parts [OF assms(1)]
  let ?x = "x\<lparr>ut_sock := Some s\<rparr>" and ?y = "y\<lparr>us_accept_task := Some t\<rparr>"
  have e: "xref ?x = xref x" "own ?x = own x" "parked sh t ?x = parked sh t x"
    using x by (auto simp: xref_def own_def parked_def)
  have w: "wmembers (th(t \<mapsto> ?x)) k = wmembers th k" for k using x assms(4) by (auto simp: wmembers_def)
  show ?thesis
  proof (rule ucoreI)
    show "task_inv T b (th(t \<mapsto> ?x))"
      by (rule task_inv_upd [OF p(1)]) (use task_invD [OF p(1) assms(4)] assms(4) x e in \<open>auto simp: task_ok_def\<close>)
    show "own_inv (th(t \<mapsto> ?x))" by (rule own_inv_upd [OF p(7) assms(4)]) (simp add: e)
    show "ring_inv T (th(t \<mapsto> ?x)) (sh(s \<mapsto> ?y)) R"
      by (rule ring_inv_sock [OF ring_inv_upd [OF p(2) assms(4)] assms(2)]) (simp_all add: e)
    show "acc_inv T (th(t \<mapsto> ?x)) (sh(s \<mapsto> ?y))"
      unfolding acc_inv_def
    proof (intro conjI allI impI)
      fix q z k
      assume q: "(th(t \<mapsto> ?x)) q = Some z" "ut_kind z = TASK_ACCEPT" "\<not> ut_done z" "q \<notin> T" "ut_sock z = Some k"
      show "\<exists>y. (sh(s \<mapsto> ?y)) k = Some y \<and> us_accept_task y = Some q"
      proof (cases "q = t")
        case False
        with q have "th q = Some z" by simp
        from acc_inv_back [OF p(4) this q(2-5)] assms(2,3) show ?thesis by auto
      qed (use q in auto)
    next
      fix k y' q
      assume k: "(sh(s \<mapsto> ?y)) k = Some y'" "us_accept_task y' = Some q"
      show "\<exists>x. (th(t \<mapsto> ?x)) q = Some x \<and> ut_kind x = TASK_ACCEPT \<and> \<not> ut_done x \<and> ut_sock x = Some k"
      proof (cases "k = s")
        case False
        with k have "sh k = Some y'" by simp
        from acc_inv_task [OF p(4) this k(2)] assms(4) x show ?thesis by auto
      qed (use k x in auto)
    qed
    show "read_inv T (th(t \<mapsto> ?x)) (sh(s \<mapsto> ?y))"
    proof -
      have "read_inv T (th(t \<mapsto> ?x)) sh" by (rule read_inv_upd [OF p(3) assms(4)]) (simp_all add: x)
      then show ?thesis by (rule read_inv_sock [where y = y]) (simp_all add: assms(2))
    qed
    show "wq_inv (th(t \<mapsto> ?x)) (sh(s \<mapsto> ?y)) nx"
      using wq_inv_sock [OF p(5) assms(2), of ?y] by (simp add: wq_inv_def w)
    show "xr_inv (th(t \<mapsto> ?x)) (sh(s \<mapsto> ?y))"
      by (rule xr_inv_upd [OF xr_inv_sock [OF p(6) assms(2)] assms(4) e(1)]) (use nox in auto)
  qed (use p(8) assms(2) in \<open>auto split: if_splits\<close>)
qed

subsection \<open>The write queues\<close>

text \<open>What the three queue operations have in common: one write, one queue change.\<close>

lemma task_ok_transit:
  assumes "task_ok T b t x" and "t \<in> T \<Longrightarrow> t \<in> T'" and "t \<in> T' \<Longrightarrow> \<not> ut_done x"
  shows "task_ok T' b t x"
  using assms by (auto simp: task_ok_def)

lemma read_inv_transit:
  assumes "read_inv T th sh" and "\<And>q z. th q = Some z \<Longrightarrow> ut_kind z = TASK_SOCK_READ \<Longrightarrow> q \<in> T \<Longrightarrow> q \<in> T'"
  shows "read_inv T' th sh"
  using assms unfolding read_inv_def by blast

lemma acc_inv_transit:
  assumes "acc_inv T th sh" and "\<And>q z. th q = Some z \<Longrightarrow> ut_kind z = TASK_ACCEPT \<Longrightarrow> q \<in> T \<Longrightarrow> q \<in> T'"
  shows "acc_inv T' th sh"
  using assms unfolding acc_inv_def by blast

lemma core_wq:
  assumes "ucore T b th sh nx R" and t: "th t = Some x" "ut_kind x = TASK_SOCK_WRITE" "\<not> ut_done x" "ut_sock x \<in> {None, Some s}"
    and s: "sh s = Some y" and v: "v \<in> {None, Some s}"
    and wl: "wq_list nx' q' xs'" "set xs' = wmembers (th(t \<mapsto> x\<lparr>ut_sock := v\<rparr>)) s"
    and fr: "\<And>k z ys. k \<noteq> s \<Longrightarrow> sh k = Some z \<Longrightarrow> wq_list nx (us_wq z) ys \<Longrightarrow> set ys = wmembers th k \<Longrightarrow> wq_list nx' (us_wq z) ys"
    and ri: "ring_inv T' (th(t \<mapsto> x\<lparr>ut_sock := v\<rparr>)) (sh(s \<mapsto> y\<lparr>us_wq := q'\<rparr>)) R"
    and T': "T' \<subseteq> dom th" "T \<subseteq> insert t T'" "\<And>q z. q \<in> T' \<Longrightarrow> th q = Some z \<Longrightarrow> \<not> ut_done z"
      "t \<notin> T' \<Longrightarrow> res_ptr (ut_res x) = None"
    and nox: "\<And>q z. th q = Some z \<Longrightarrow> xref z = Some s \<Longrightarrow> wq_head q' = None"
  shows "ucore T' b (th(t \<mapsto> x\<lparr>ut_sock := v\<rparr>)) (sh(s \<mapsto> y\<lparr>us_wq := q'\<rparr>)) nx' R"
proof -
  note p = ucore_parts [OF assms(1)]
  let ?x = "x\<lparr>ut_sock := v\<rparr>" and ?y = "y\<lparr>us_wq := q'\<rparr>"
  have e: "xref ?x = xref x" "own ?x = own x" using t(2) by (auto simp: xref_def own_def)
  have w: "k \<noteq> s \<Longrightarrow> wmembers (th(t \<mapsto> ?x)) k = wmembers th k" for k
    using t v by (auto simp: wmembers_def)
  show ?thesis
  proof (rule ucoreI [OF _ ri])
    show "task_inv T' b (th(t \<mapsto> ?x))"
    proof -
      have "task_ok T' b q z" if "th q = Some z" "q \<noteq> t" for q z
        by (rule task_ok_transit [OF task_invD [OF p(1) that(1)]]) (use that T' in auto)
      moreover have "task_ok T' b t ?x"
        using task_invD [OF p(1) t(1)] T'(4) t e by (auto simp: task_ok_def)
      ultimately show ?thesis using T'(1) by (auto simp: task_inv_def)
    qed
    have "read_inv T' th sh" by (rule read_inv_transit [OF p(3)]) (use T'(2) t(1,2) in auto)
    then have "read_inv T' (th(t \<mapsto> ?x)) sh" by (rule read_inv_upd [where x = x]) (simp_all add: t)
    then show "read_inv T' (th(t \<mapsto> ?x)) (sh(s \<mapsto> ?y))" by (rule read_inv_sock [where y = y]) (simp_all add: s)
    have "acc_inv T' th sh" by (rule acc_inv_transit [OF p(4)]) (use T'(2) t(1,2) in auto)
    then have "acc_inv T' (th(t \<mapsto> ?x)) sh" by (rule acc_inv_upd [where x = x]) (simp_all add: t)
    then show "acc_inv T' (th(t \<mapsto> ?x)) (sh(s \<mapsto> ?y))" by (rule acc_inv_sock [where y = y]) (simp_all add: s)
    show "wq_inv (th(t \<mapsto> ?x)) (sh(s \<mapsto> ?y)) nx'"
      unfolding wq_inv_def
    proof (intro conjI allI impI)
      fix k z
      assume k: "(sh(s \<mapsto> ?y)) k = Some z"
      show "\<exists>xs. wq_list nx' (us_wq z) xs \<and> set xs = wmembers (th(t \<mapsto> ?x)) k"
      proof (cases "k = s")
        case True
        with k wl show ?thesis by auto
      next
        case False
        with k have k: "sh k = Some z" by simp
        from wq_inv_list [OF p(5) this] fr [OF False this] w [OF False] show ?thesis by auto
      qed
    next
      show "k \<in> dom (sh(s \<mapsto> ?y))" if "wmembers (th(t \<mapsto> ?x)) k \<noteq> {}" for k
        using that w [of k] wq_inv_live [OF p(5)] by (cases "k = s") auto
    qed
    show "xr_inv (th(t \<mapsto> ?x)) (sh(s \<mapsto> ?y))"
      by (rule xr_inv_upd [OF xr_inv_sock [OF p(6) s] t(1) e(1)]) (use nox in \<open>auto simp: quiet_def\<close>)
    show "own_inv (th(t \<mapsto> ?x))" by (rule own_inv_upd [OF p(7) t(1)]) (simp add: e)
  qed (use p(8) s in \<open>auto split: if_splits\<close>)
qed

lemma wq_write:
  assumes "ucore T b th sh nx R" and "t \<in> wmembers th s"
  shows "\<exists>x. th t = Some x \<and> ut_kind x = TASK_SOCK_WRITE \<and> ut_sock x = Some s \<and> \<not> ut_done x"
proof -
  from assms(2) obtain x where x: "th t = Some x" "ut_kind x = TASK_SOCK_WRITE" "ut_sock x = Some s" by (auto simp: wmembers_def)
  with task_invD [OF ucore_parts(1) [OF assms(1)] x(1)] show ?thesis by (auto simp: task_ok_def)
qed

lemma write_ptr:
  "ucore T b th sh nx R \<Longrightarrow> th t = Some x \<Longrightarrow> ut_kind x = TASK_SOCK_WRITE \<Longrightarrow> res_ptr (ut_res x) = None"
  using task_invD [OF ucore_parts(1)] by (fastforce simp: task_ok_def)

lemma core_push:
  assumes c: "ucore T b th sh nx R" and t: "th t = Some x" "t \<in> T" "ut_kind x = TASK_SOCK_WRITE" "ut_sock x = None"
    and s: "sh s = Some y" and nox: "\<And>q z. th q = Some z \<Longrightarrow> xref z \<noteq> Some s"
    and pu: "myio_wq_push nx (us_wq y) t = (h, nx', q')"
  shows "ucore (if h then T else T - {t}) b (th(t \<mapsto> x\<lparr>ut_sock := Some s\<rparr>)) (sh(s \<mapsto> y\<lparr>us_wq := q'\<rparr>)) nx' R"
    and "h \<longleftrightarrow> wq_head (us_wq y) = None" and "h \<Longrightarrow> wq_head q' = Some t"
proof -
  note p = ucore_parts [OF c]
  let ?x = "x\<lparr>ut_sock := Some s\<rparr>"
  obtain xs where xs: "wq_list nx (us_wq y) xs" "set xs = wmembers th s" using wq_inv_list [OF p(5) s] by blast
  have tn: "t \<notin> wmembers th k" for k using t by (auto simp: wmembers_def)
  note pl = wq_push_list [OF xs(1) _ pu]
  have wl: "wq_list nx' q' (xs @ [t])" and h: "h \<longleftrightarrow> xs = []" using pl xs(2) tn by auto
  show "h \<longleftrightarrow> wq_head (us_wq y) = None" using h wq_list_head_None [OF xs(1)] by simp
  have hd: "wq_head q' = Some (hd (xs @ [t]))" using wq_list_head [OF wl] by simp
  then show "h \<Longrightarrow> wq_head q' = Some t" using h by simp
  have nd: "\<not> ut_done x" using task_invD [OF p(1) t(1)] t(2) by (auto simp: task_ok_def)
  show "ucore (if h then T else T - {t}) b (th(t \<mapsto> ?x)) (sh(s \<mapsto> y\<lparr>us_wq := q'\<rparr>)) nx' R"
  proof (rule core_wq [OF c t(1,3) nd _ s _ wl])
    show "set (xs @ [t]) = wmembers (th(t \<mapsto> ?x)) s" using xs(2) t by (auto simp: wmembers_upd)
    show "wq_list nx' (us_wq z) ys" if "k \<noteq> s" "sh k = Some z" "wq_list nx (us_wq z) ys" "set ys = wmembers th k" for k z ys
      by (rule wq_push_frame [OF xs(1) that(3) _ _ pu]) (use that(1,4) xs(2) tn in \<open>auto simp: wmembers_def\<close>)
    have pk: "parked (sh(s \<mapsto> y\<lparr>us_wq := q'\<rparr>)) q z = parked sh q z" if "th q = Some z" "q \<noteq> t" for q z
    proof (cases "ut_kind z = TASK_SOCK_WRITE \<and> ut_sock z = Some s")
      case True
      with that(1) have "q \<in> set xs" using xs(2) by (simp add: wmembers_def)
      then have "wq_head q' = wq_head (us_wq y)" using hd wq_list_head [OF xs(1)] by auto
      with True s show ?thesis by (simp add: parked_def)
    qed (auto intro!: parked_other)
    have "\<not> h \<Longrightarrow> parked (sh(s \<mapsto> y\<lparr>us_wq := q'\<rparr>)) t ?x"
      using h hd t(3) tn [of s] xs(2) hd_in_set [of xs] by (auto simp: parked_def)
    with pk show "ring_inv (if h then T else T - {t}) (th(t \<mapsto> ?x)) (sh(s \<mapsto> y\<lparr>us_wq := q'\<rparr>)) R"
      using p(2) t(1,2) by (auto simp: ring_inv_def split: option.splits)
    show "(if h then T else T - {t}) \<subseteq> dom th" using p(1) by (auto simp: task_inv_def)
    show "\<not> ut_done z" if "q \<in> (if h then T else T - {t})" "th q = Some z" for q z
      using that task_invD [OF p(1) that(2)] by (auto simp: task_ok_def split: if_splits)
  qed (use t nox write_ptr [OF c t(1,3)] in auto)
qed

text \<open>
  The head leaves its queue. The write behind it becomes the head, and is in transit
  until its request is submitted.
\<close>

lemma core_pop:
  assumes c: "ucore T b th sh nx R" and s: "sh s = Some y" and xs: "wq_list nx (us_wq y) (t # xs)"
    and t: "th t = Some x"
  shows "\<exists>nx' q'. myio_wq_pop nx (us_wq y) = Some (wq_head q', nx', q') \<and> wq_list nx' q' xs \<and>
    wq_head q' = (if xs = [] then None else Some (hd xs)) \<and>
    ucore (T \<union> set_option (wq_head q')) b (th(t \<mapsto> x\<lparr>ut_sock := None\<rparr>)) (sh(s \<mapsto> y\<lparr>us_wq := q'\<rparr>)) nx' R \<and>
    keeps S th sh (th(t \<mapsto> x\<lparr>ut_sock := None\<rparr>)) (sh(s \<mapsto> y\<lparr>us_wq := q'\<rparr>)) \<and>
    clean (th(t \<mapsto> x\<lparr>ut_sock := None\<rparr>)) (sh(s \<mapsto> y\<lparr>us_wq := q'\<rparr>)) t"
proof -
  note p = ucore_parts [OF c]
  let ?x = "x\<lparr>ut_sock := None\<rparr>"
  obtain nx' q' where po: "myio_wq_pop nx (us_wq y) = Some (if xs = [] then None else Some (hd xs), nx', q')"
    and wl: "wq_list nx' q' xs" using wq_pop_list [OF xs] by auto
  have hd': "wq_head q' = (if xs = [] then None else Some (hd xs))" using wq_list_head [OF wl] .
  have hd: "wq_head (us_wq y) = Some t" using wq_list_head [OF xs] by simp
  have ms: "set (t # xs) = wmembers th s"
    using wq_inv_list [OF p(5) s] wq_list_unique [OF xs] by blast
  have d: "t \<notin> set xs" using wq_list_distinct [OF xs] by simp
  have "t \<in> wmembers th s" using ms by auto
  from wq_write [OF c this] t have tx: "ut_kind x = TASK_SOCK_WRITE" "ut_sock x = Some s" "\<not> ut_done x" by auto
  let ?T = "T \<union> set_option (wq_head q')"
  have wr: "\<exists>z. th q = Some z \<and> \<not> ut_done z \<and> ut_kind z = TASK_SOCK_WRITE \<and> ut_sock z = Some s" if "q \<in> set xs" for q
  proof -
    have "q \<in> wmembers th s" using that ms by auto
    from wq_write [OF c this] show ?thesis by blast
  qed
  have "ucore ?T b (th(t \<mapsto> ?x)) (sh(s \<mapsto> y\<lparr>us_wq := q'\<rparr>)) nx' R"
  proof (rule core_wq [OF c t tx(1,3) _ s _ wl])
    show "set xs = wmembers (th(t \<mapsto> ?x)) s" using ms d by (auto simp: wmembers_upd)
    show "wq_list nx' (us_wq z) ys" if "k \<noteq> s" "sh k = Some z" "wq_list nx (us_wq z) ys" "set ys = wmembers th k" for k z ys
      by (rule wq_pop_frame [OF xs that(3) _ po]) (use that(1,4) ms in \<open>auto simp: wmembers_def\<close>)
    show "ring_inv ?T (th(t \<mapsto> ?x)) (sh(s \<mapsto> y\<lparr>us_wq := q'\<rparr>)) R"
      unfolding ring_inv_def
    proof
      fix q
      show "count R (Ud_task q) = (case (th(t \<mapsto> ?x)) q of None \<Rightarrow> 0
          | Some z \<Rightarrow> if q \<in> ?T \<or> ut_done z \<or> parked (sh(s \<mapsto> y\<lparr>us_wq := q'\<rparr>)) q z then 0 else 1)"
      proof (cases "q = t")
        case True
        have "\<not> parked sh t x" "\<not> parked (sh(s \<mapsto> y\<lparr>us_wq := q'\<rparr>)) t ?x"
          using tx hd s by (auto simp: parked_def)
        moreover have "t \<in> ?T \<longleftrightarrow> t \<in> T" using hd' d hd_in_set [of xs] by auto
        ultimately show ?thesis using True p(2) t tx by (auto simp: ring_inv_def)
      next
        case False
        show ?thesis
        proof (cases "q \<in> set xs")
          case True
          with wr obtain z where z: "th q = Some z" "\<not> ut_done z" "ut_kind z = TASK_SOCK_WRITE" "ut_sock z = Some s" by blast
          then have "parked sh q z" using hd s False by (auto simp: parked_def)
          moreover have "q \<in> ?T \<or> parked (sh(s \<mapsto> y\<lparr>us_wq := q'\<rparr>)) q z" using z by (auto simp: parked_def)
          ultimately show ?thesis using p(2) z False by (auto simp: ring_inv_def)
        next
          case nm: False
          then have "q \<in> ?T \<longleftrightarrow> q \<in> T" using hd' hd_in_set [of xs] by auto
          moreover have "th q = Some z \<Longrightarrow> parked (sh(s \<mapsto> y\<lparr>us_wq := q'\<rparr>)) q z = parked sh q z" for z
            using nm ms False by (intro parked_other) (auto simp: wmembers_def)
          ultimately show ?thesis using p(2) False by (auto simp: ring_inv_def split: option.splits)
        qed
      qed
    qed
    show "?T \<subseteq> dom th"
      using p(1) hd' wr [OF hd_in_set] by (cases "xs = []") (auto simp: task_inv_def)
    show "\<not> ut_done z" if "q \<in> ?T" "th q = Some z" for q z
      using that hd' wr [OF hd_in_set] task_invD [OF p(1) that(2)]
      by (cases "xs = []") (auto simp: task_ok_def)
    show "wq_head q' = None" if "th q = Some z" "xref z = Some s" for q z
      using xr_inv_live [OF p(6) that] s hd by (auto simp: quiet_def)
  qed (use tx write_ptr [OF c t tx(1)] in auto)
  moreover have xw: "xref ?x = None" using tx by (simp add: xref_def)
  moreover have "keeps S th sh (th(t \<mapsto> ?x)) (sh(s \<mapsto> y\<lparr>us_wq := q'\<rparr>))"
    using t tx s hd xw by (intro keepsI) (auto simp: loose_def quiet_def)
  moreover have "clean (th(t \<mapsto> ?x)) (sh(s \<mapsto> y\<lparr>us_wq := q'\<rparr>)) t"
  proof -
    have "us_read_task z \<noteq> Some t \<and> us_accept_task z \<noteq> Some t" if "sh k = Some z" for k z
      using read_inv_task [OF p(3) that] acc_inv_task [OF p(4) that] t tx by auto
    with tx s show ?thesis by (auto simp: clean_def xref_def)
  qed
  ultimately show ?thesis using po wl hd' by auto
qed

text \<open>A write that is not the head leaves from the middle of the queue.\<close>

lemma core_remove:
  assumes c: "ucore T b th sh nx R" and t: "th t = Some x" "parked sh t x" "\<not> ut_done x" and s: "ut_sock x = Some s" "sh s = Some y"
  shows "\<exists>nx' q' r. myio_wq_remove nx (us_wq y) t = Some (r, nx', q') \<and>
    ucore (insert t T) b (th(t \<mapsto> x\<lparr>ut_sock := None\<rparr>)) (sh(s \<mapsto> y\<lparr>us_wq := q'\<rparr>)) nx' R \<and>
    keeps S th sh (th(t \<mapsto> x\<lparr>ut_sock := None\<rparr>)) (sh(s \<mapsto> y\<lparr>us_wq := q'\<rparr>)) \<and>
    clean (th(t \<mapsto> x\<lparr>ut_sock := None\<rparr>)) (sh(s \<mapsto> y\<lparr>us_wq := q'\<rparr>)) t"
proof -
  note p = ucore_parts [OF c]
  let ?x = "x\<lparr>ut_sock := None\<rparr>"
  have tx: "ut_kind x = TASK_SOCK_WRITE" and nh: "wq_head (us_wq y) \<noteq> Some t" using t(2) s by (auto simp: parked_def)
  obtain xs where xs: "wq_list nx (us_wq y) xs" "set xs = wmembers th s" using wq_inv_list [OF p(5) s(2)] by blast
  obtain nx' q' where re: "myio_wq_remove nx (us_wq y) t = Some (t \<in> set xs, nx', q')"
    and wl: "wq_list nx' q' (remove1 t xs)" using wq_remove_list [OF xs(1)] by blast
  have tm: "t \<in> set xs" using xs(2) wmembers_I [of th t x s] t(1) tx s(1) by simp
  obtain a as where xs': "xs = a # as" using tm by (cases xs) auto
  then have "a \<noteq> t" using nh wq_list_head [OF xs(1)] by auto
  then have hd: "wq_head q' = wq_head (us_wq y)"
    using wq_list_head [OF wl] wq_list_head [OF xs(1)] xs' by simp
  have "ucore (insert t T) b (th(t \<mapsto> ?x)) (sh(s \<mapsto> y\<lparr>us_wq := q'\<rparr>)) nx' R"
  proof (rule core_wq [OF c t(1) tx t(3) _ s(2) _ wl])
    show "set (remove1 t xs) = wmembers (th(t \<mapsto> ?x)) s"
      using xs(2) wq_list_distinct [OF xs(1)] by (auto simp: wmembers_upd)
    show "wq_list nx' (us_wq z) ys" if "k \<noteq> s" "sh k = Some z" "wq_list nx (us_wq z) ys" "set ys = wmembers th k" for k z ys
      by (rule wq_remove_frame [OF xs(1) that(3) _ _ re]) (use that(1,4) xs(2) t(1) s(1) in \<open>auto simp: wmembers_def\<close>)
    have pk: "parked (sh(s \<mapsto> y\<lparr>us_wq := q'\<rparr>)) q z = parked sh q z" for q z
      using hd s(2) by (auto simp: parked_def)
    show "ring_inv (insert t T) (th(t \<mapsto> ?x)) (sh(s \<mapsto> y\<lparr>us_wq := q'\<rparr>)) R"
      using p(2) t pk by (auto simp: ring_inv_def split: option.splits)
    show "insert t T \<subseteq> dom th" using p(1) t(1) by (auto simp: task_inv_def)
    show "\<not> ut_done z" if "q \<in> insert t T" "th q = Some z" for q z
      using that t task_invD [OF p(1) that(2)] by (auto simp: task_ok_def)
    show "wq_head q' = None" if "th q = Some z" "xref z = Some s" for q z
      using xr_inv_live [OF p(6) that] s hd by (auto simp: quiet_def)
  qed (use s in auto)
  moreover have xw: "xref ?x = None" using tx by (simp add: xref_def)
  moreover have "keeps S th sh (th(t \<mapsto> ?x)) (sh(s \<mapsto> y\<lparr>us_wq := q'\<rparr>))"
    using t tx s hd xw by (intro keepsI) (auto simp: loose_def quiet_def)
  moreover have "clean (th(t \<mapsto> ?x)) (sh(s \<mapsto> y\<lparr>us_wq := q'\<rparr>)) t"
  proof -
    have "us_read_task z \<noteq> Some t \<and> us_accept_task z \<noteq> Some t" if "sh k = Some z" for k z
      using read_inv_task [OF p(3) that] acc_inv_task [OF p(4) that] t tx by auto
    with tx s show ?thesis by (auto simp: clean_def xref_def)
  qed
  ultimately show ?thesis using re by blast
qed

text \<open>When the ring is empty and nothing is in transit, nothing is pending.\<close>

lemma core_idle:
  assumes c: "ucore {} b th sh nx {#}" and t: "th t = Some x"
  shows "ut_done x"
proof (rule ccontr)
  note p = ucore_parts [OF c]
  assume nd: "\<not> ut_done x"
  have settled: "th q = Some z \<Longrightarrow> ut_done z \<or> parked sh q z" for q z
    using spec [OF p(2) [unfolded ring_inv_def], of q] by (auto split: if_splits)
  from settled [OF t] nd have "parked sh t x" by simp
  then obtain s y where s: "ut_kind x = TASK_SOCK_WRITE" "ut_sock x = Some s" "sh s = Some y" by (auto simp: parked_def)
  obtain xs where xs: "wq_list nx (us_wq y) xs" "set xs = wmembers th s" using wq_inv_list [OF p(5) s(3)] by blast
  have "t \<in> wmembers th s" by (rule wmembers_I) (use t s in auto)
  with xs(2) have ne: "xs \<noteq> []" by auto
  have h: "wq_head (us_wq y) = Some (hd xs)" "hd xs \<in> wmembers th s"
    using wq_list_head [OF xs(1)] ne hd_in_set [OF ne] unfolding xs(2) by simp_all
  from wq_write [OF c h(2)] obtain z where z: "th (hd xs) = Some z" "\<not> ut_done z" "ut_sock z = Some s" by blast
  with settled [OF z(1)] h(1) s(3) show False by (auto simp: parked_def)
qed

end
