(* ===== verification/Myio_Uring_Inv.thy ===== *)
theory Myio_Uring_Inv
  imports Myio_Uring_Core
begin

text \<open>
  The invariant of the io_uring backend's state and its preservation by every
  operation of \<^verbatim>\<open>src/src/myio_uring.c\<close>, given a kernel that completes only requests
  it was given. The fault flag is part of it, so what is shown is memory safety:
  no operation dereferences a null or freed pointer, frees twice, lets a counter
  wrap, or runs a list walk out of bounds.
\<close>

definition uinv :: "addr set \<Rightarrow> uring_io \<Rightarrow> bool" where
  "uinv T u \<longleftrightarrow> \<not> m_fault u \<and> dl.members (u_tasks u) (dom (u_th u)) \<and> dl.members (u_socks u) (dom (u_sh u)) \<and>
     u_inflight u = size (ring_out (m_trace u)) \<and>
     ucore T (m_brk u) (u_th u) (u_sh u) (u_wnext u) (ring_out (m_trace u))"

definition ukeeps :: "addr set \<Rightarrow> uring_io \<Rightarrow> uring_io \<Rightarrow> bool" where
  "ukeeps S u u' \<longleftrightarrow> keeps S (u_th u) (u_sh u) (u_th u') (u_sh u')"

lemma ukeeps_refl [simp]: "ukeeps S u u"
  by (simp add: ukeeps_def keeps_refl)

lemma ukeeps_trans: "ukeeps S u u1 \<Longrightarrow> ukeeps S u1 u2 \<Longrightarrow> ukeeps S u u2"
  unfolding ukeeps_def by (rule keeps_trans)

lemma uinv_core: "uinv T u \<Longrightarrow> ucore T (m_brk u) (u_th u) (u_sh u) (u_wnext u) (ring_out (m_trace u))"
  by (simp add: uinv_def)

subsection \<open>Calls that do not concern the ring\<close>

definition off_ring :: "call \<Rightarrow> bool" where
  "off_ring c \<longleftrightarrow> (\<forall>q d. c \<noteq> C_sqe q d) \<and> c \<noteq> C_peek_cqe"

lemma ring_out_off [simp]: "off_ring c \<Longrightarrow> ring_out ((c, a) # tr) = ring_out tr"
  by (cases "(c, a) # tr" rule: ring_out.cases) (auto simp: off_ring_def)

text \<open>Only the trace grew, and not by a ring event.\<close>

definition only_trace :: "uring_io \<Rightarrow> uring_io \<Rightarrow> bool" where
  "only_trace u u' \<longleftrightarrow> (\<exists>tr. u' = u\<lparr>m_trace := tr\<rparr> \<and> ring_out tr = ring_out (m_trace u))"

lemma only_trace_same:
  assumes "only_trace u u'"
  shows "u_th u' = u_th u" "u_sh u' = u_sh u" "u_wnext u' = u_wnext u" "m_brk u' = m_brk u"
    "u_tasks u' = u_tasks u" "u_socks u' = u_socks u" "u_inflight u' = u_inflight u" "m_fault u' = m_fault u"
    "ring_out (m_trace u') = ring_out (m_trace u)"
  using assms by (auto simp: only_trace_def)

lemma only_trace_uinv: "only_trace u u' \<Longrightarrow> uinv T u' = uinv T u"
  by (simp add: uinv_def only_trace_same)

lemma only_trace_keeps: "only_trace u u' \<Longrightarrow> ukeeps S u u'"
  by (simp add: ukeeps_def only_trace_same keeps_refl)

lemma only_trace_refl: "only_trace u u"
  by (auto simp: only_trace_def intro: exI [of _ "m_trace u"])

lemma only_trace_trans: "only_trace u u1 \<Longrightarrow> only_trace u1 u2 \<Longrightarrow> only_trace u u2"
  by (auto simp: only_trace_def)

lemma only_trace_call: "off_ring c \<Longrightarrow> sys_call os c u = (a, u') \<Longrightarrow> only_trace u u'"
  by (auto simp: only_trace_def sys_call_def Let_def)

lemma off_ring_simps [simp]:
  "off_ring C_alloc" "off_ring (C_strdup p)" "off_ring (C_close f)" "off_ring (C_fn g x)"
  "off_ring (C_getaddrinfo h p b)" "off_ring (C_socket d t p')" "off_ring (C_setsockopt f)" "off_ring (C_bind f sa)"
  "off_ring (C_listen f n)" "off_ring (C_getsockname f)" "off_ring (C_inet_pton d h)" "off_ring (C_strerror e)"
  "off_ring (C_gai_strerror e)" "off_ring C_get_sqe" "off_ring C_ring_submit" "off_ring C_submit_and_wait"
  "off_ring C_queue_exit"
  by (simp_all add: off_ring_def)

lemma sqe_get_trace: "sqe_get os u = (ok, u') \<Longrightarrow> only_trace u u'"
  by (auto simp: sqe_get_def sys_call_def Let_def only_trace_def split: if_splits)

subsection \<open>Access to live objects\<close>

lemma live_simps:
  "u_th u t = Some x \<Longrightarrow> ut u t = x"
  "u_th u t = Some x \<Longrightarrow> chk_ut t u = u"
  "u_th u t = Some x \<Longrightarrow> upd_ut t f u = u\<lparr>u_th := (u_th u)(t \<mapsto> f x)\<rparr>"
  "u_th u t = Some x \<Longrightarrow> free_ut t u = u\<lparr>u_th := (u_th u)(t := None)\<rparr>"
  "u_sh u s = Some y \<Longrightarrow> us u s = y"
  "u_sh u s = Some y \<Longrightarrow> chk_us s u = u"
  "u_sh u s = Some y \<Longrightarrow> upd_us s g u = u\<lparr>u_sh := (u_sh u)(s \<mapsto> g y)\<rparr>"
  "u_sh u s = Some y \<Longrightarrow> free_us s u = u\<lparr>u_sh := (u_sh u)(s := None)\<rparr>"
  by (simp_all add: ut_def chk_ut_def upd_ut_def free_ut_def us_def chk_us_def upd_us_def free_us_def)

lemma members_upd [simp]: "u_th u t = Some x \<Longrightarrow> dom ((u_th u)(t \<mapsto> z)) = dom (u_th u)"
  by auto

lemma uinv_same:
  assumes "uinv T u" and "u_th u t = Some x" and "same_task x (f x)"
  shows "uinv T (upd_ut t f u)" and "ukeeps S u (upd_ut t f u)"
  using assms core_same [OF uinv_core [OF assms(1)] assms(2,3)]
  by (simp_all add: live_simps uinv_def ukeeps_def insert_absorb domI)

subsection \<open>Allocation\<close>

lemma uinv_task_new:
  assumes "uinv T u" and "uring_task_new os u k = (p, u')"
  shows "p = None \<Longrightarrow> uinv T u' \<and> only_trace u u'"
    and "p = Some t \<Longrightarrow> uinv (insert t T) u' \<and> ukeeps S u u' \<and> u_th u' = (u_th u)(t \<mapsto> uring_task0 k) \<and>
      u_sh u' = u_sh u \<and> u_th u t = None"
proof -
  note c = uinv_core [OF assms(1)]
  note n = core_new_task [OF c]
  show "p = None \<Longrightarrow> uinv T u' \<and> only_trace u u'"
    using assms by (auto simp: uring_task_new_def sys_alloc_def sys_call_def Let_def uinv_def only_trace_def split: if_splits)
  have m: "dl.members (dl_link (dl_zero (u_tasks u) (m_brk u)) (m_brk u)) (insert (m_brk u) (dom (u_th u)))"
    using dl.members_link [of "u_tasks u" "dom (u_th u)" "m_brk u"] assms(1) n(3) by (auto simp: uinv_def)
  assume "p = Some t"
  with assms(2) have t: "t = m_brk u" and u': "u_th u' = (u_th u)(t \<mapsto> uring_task0 k)" "u_sh u' = u_sh u"
    "u_wnext u' = (u_wnext u)(t := None)" "m_brk u' = Suc (m_brk u)" "m_fault u' = m_fault u"
    "ring_out (m_trace u') = ring_out (m_trace u)" "u_inflight u' = u_inflight u" "u_socks u' = u_socks u"
    "u_tasks u' = dl_link (dl_zero (u_tasks u) t) t"
    by (auto simp: uring_task_new_def uring_task_link_def sys_alloc_def sys_call_def Let_def split: if_splits)
  show "uinv (insert t T) u' \<and> ukeeps S u u' \<and> u_th u' = (u_th u)(t \<mapsto> uring_task0 k) \<and> u_sh u' = u_sh u \<and> u_th u t = None"
    using assms(1) n m by (simp add: uinv_def ukeeps_def u' t)
qed

lemma uinv_sock_new:
  assumes "uinv T u" and "uring_sock_new os u fd = (p, u')"
  shows "p = None \<Longrightarrow> uinv T u' \<and> only_trace u u'"
    and "p = Some s \<Longrightarrow> uinv T u' \<and> u_th u' = u_th u \<and> u_sh u' = (u_sh u)(s \<mapsto> uring_sock0 fd) \<and>
      loose (u_th u') (u_sh u') s \<and> (\<forall>t x. u_th u t = Some x \<longrightarrow> own x \<noteq> Some s) \<and> u_sh u s = None"
proof -
  note c = uinv_core [OF assms(1)]
  note n = core_new_sock [OF c]
  show "p = None \<Longrightarrow> uinv T u' \<and> only_trace u u'"
    using assms by (auto simp: uring_sock_new_def sys_alloc_def sys_call_def Let_def uinv_def only_trace_def split: if_splits)
  have m: "dl.members (dl_link (dl_zero (u_socks u) (m_brk u)) (m_brk u)) (insert (m_brk u) (dom (u_sh u)))"
    using dl.members_link [of "u_socks u" "dom (u_sh u)" "m_brk u"] assms(1) n(4) by (auto simp: uinv_def)
  assume "p = Some s"
  with assms(2) have s: "s = m_brk u" and u': "u_th u' = u_th u" "u_sh u' = (u_sh u)(s \<mapsto> uring_sock0 fd)"
    "u_wnext u' = u_wnext u" "m_brk u' = Suc (m_brk u)" "m_fault u' = m_fault u"
    "ring_out (m_trace u') = ring_out (m_trace u)" "u_inflight u' = u_inflight u" "u_tasks u' = u_tasks u"
    "u_socks u' = dl_link (dl_zero (u_socks u) s) s"
    by (auto simp: uring_sock_new_def sys_alloc_def sys_call_def Let_def split: if_splits)
  show "uinv T u' \<and> u_th u' = u_th u \<and> u_sh u' = (u_sh u)(s \<mapsto> uring_sock0 fd) \<and>
      loose (u_th u') (u_sh u') s \<and> (\<forall>t x. u_th u t = Some x \<longrightarrow> own x \<noteq> Some s) \<and> u_sh u s = None"
    using assms(1) n m by (simp add: uinv_def u' s)
qed

subsection \<open>Completion and release\<close>

lemma uinv_fail:
  assumes "uinv T u" and "u_th u t = Some x" and "t \<in> T" and "clean (u_th u) (u_sh u) t" and "\<not> ut_detached x"
  shows "uinv (T - {t}) (snd (uring_task_fail u t err))" and "ukeeps S u (snd (uring_task_fail u t err))"
    and "fst (uring_task_fail u t err) = Some t"
    and "u_th (snd (uring_task_fail u t err)) = (u_th u)(t \<mapsto> x\<lparr>ut_res := (ut_res x)\<lparr>res_status := MYIO_ERROR, res_error := err\<rparr>, ut_done := True\<rparr>)"
  using assms(1,2) core_settle [OF uinv_core [OF assms(1)] assms(2-5),
      of "(ut_res x)\<lparr>res_status := MYIO_ERROR, res_error := err\<rparr>"]
  by (simp_all add: uring_task_fail_def live_simps uinv_def ukeeps_def insert_absorb domI)

lemma close_now_eq:
  assumes "u_sh u s = Some y"
  shows "\<exists>tr. ring_out tr = ring_out (m_trace u) \<and> uring_sock_close_now os u s =
    u\<lparr>m_trace := tr, u_socks := dl_unlink (u_socks u) s, u_sh := (u_sh u)(s := None)\<rparr>"
proof -
  let ?tr = "if us_fd y \<ge> 0 then (C_close (us_fd y), os (m_trace u) (C_close (us_fd y))) # m_trace u else m_trace u"
  have "uring_sock_close_now os u s =
      u\<lparr>m_trace := ?tr, u_socks := dl_unlink (u_socks u) s, u_sh := (u_sh u)(s := None)\<rparr>"
    using assms by (simp add: uring_sock_close_now_def uring_sock_unlink_def sys_call_def Let_def live_simps
        chk_us_def us_def free_us_def)
  moreover have "ring_out ?tr = ring_out (m_trace u)" by simp
  ultimately show ?thesis by blast
qed

lemma members_del: "dl.members d (dom m) \<Longrightarrow> m s = Some y \<Longrightarrow> dl.members (dl_unlink d s) (dom (m(s := None)))"
  using dl.members_unlink [of d "dom m" s] by auto

lemma uinv_drop_connect:
  assumes "uinv T u" and "u_th u t = Some x" and "t \<in> T" and "ut_kind x = TASK_CONNECT" and "ut_sock x = Some s"
    and "u' = upd_ut t (\<lambda>x. x\<lparr>ut_sock := None\<rparr>) (uring_sock_close_now os u s)"
  shows "uinv T u'" and "ukeeps S u u'" and "u_th u' = (u_th u)(t \<mapsto> x\<lparr>ut_sock := None\<rparr>)"
    and "u_sh u' = (u_sh u)(s := None)"
proof -
  have xr: "xref x = Some s" using assms(4,5) by (simp add: xref_def)
  note c = uinv_core [OF assms(1)]
  obtain y where y: "u_sh u s = Some y" using xr_inv_live [OF ucore_parts(6) [OF c] assms(2) xr] by blast
  from close_now_eq [OF this, of os] obtain tr where tr: "ring_out tr = ring_out (m_trace u)"
    and eq: "uring_sock_close_now os u s = u\<lparr>m_trace := tr, u_socks := dl_unlink (u_socks u) s, u_sh := (u_sh u)(s := None)\<rparr>"
    by blast
  have u': "u' = u\<lparr>m_trace := tr, u_socks := dl_unlink (u_socks u) s, u_sh := (u_sh u)(s := None),
      u_th := (u_th u)(t \<mapsto> x\<lparr>ut_sock := None\<rparr>)\<rparr>"
    using assms(2,6) by (simp add: eq upd_ut_def)
  note d = core_drop_xref [OF c assms(2,3) xr, of "x\<lparr>ut_sock := None\<rparr>"]
  show "uinv T u'" using assms(1,2,4) d(1) tr members_del [of "u_socks u" "u_sh u" s y] y by (simp add: uinv_def u' insert_absorb domI)
  show "ukeeps S u u'" using d(2) assms(4) by (simp add: ukeeps_def u')
  show "u_th u' = (u_th u)(t \<mapsto> x\<lparr>ut_sock := None\<rparr>)" "u_sh u' = (u_sh u)(s := None)" by (simp_all add: u')
qed

lemma uinv_drop_accept:
  assumes "uinv T u" and "u_th u t = Some x" and "t \<in> T" and "ut_kind x = TASK_ACCEPT" and "ut_newsock x = Some s"
    and "u' = upd_ut t (\<lambda>x. x\<lparr>ut_newsock := None\<rparr>) (uring_sock_close_now os u s)"
  shows "uinv T u'" and "ukeeps S u u'" and "u_th u' = (u_th u)(t \<mapsto> x\<lparr>ut_newsock := None\<rparr>)"
    and "u_sh u' = (u_sh u)(s := None)"
proof -
  have xr: "xref x = Some s" using assms(4,5) by (simp add: xref_def)
  note c = uinv_core [OF assms(1)]
  obtain y where y: "u_sh u s = Some y" using xr_inv_live [OF ucore_parts(6) [OF c] assms(2) xr] by blast
  from close_now_eq [OF this, of os] obtain tr where tr: "ring_out tr = ring_out (m_trace u)"
    and eq: "uring_sock_close_now os u s = u\<lparr>m_trace := tr, u_socks := dl_unlink (u_socks u) s, u_sh := (u_sh u)(s := None)\<rparr>"
    by blast
  have u': "u' = u\<lparr>m_trace := tr, u_socks := dl_unlink (u_socks u) s, u_sh := (u_sh u)(s := None),
      u_th := (u_th u)(t \<mapsto> x\<lparr>ut_newsock := None\<rparr>)\<rparr>"
    using assms(2,6) by (simp add: eq upd_ut_def)
  note d = core_drop_xref [OF c assms(2,3) xr, of "x\<lparr>ut_newsock := None\<rparr>"]
  show "uinv T u'" using assms(1,2,4) d(1) tr members_del [of "u_socks u" "u_sh u" s y] y by (simp add: uinv_def u' insert_absorb domI)
  show "ukeeps S u u'" using d(2) assms(4) by (simp add: ukeeps_def u')
  show "u_th u' = (u_th u)(t \<mapsto> x\<lparr>ut_newsock := None\<rparr>)" "u_sh u' = (u_sh u)(s := None)" by (simp_all add: u')
qed

lemma uinv_reap:
  assumes "uinv T u" and "u_th u t = Some x" and "t \<in> T \<or> ut_done x" and "clean (u_th u) (u_sh u) t"
    and "\<And>s. res_ptr (ut_res x) = Some s \<Longrightarrow> loose (u_th u) (u_sh u) s"
  shows "uinv (T - {t}) (uring_task_reap os u t)" and "ukeeps {t} u (uring_task_reap os u t)"
    and "u_th (uring_task_reap os u t) = (u_th u)(t := None)"
    and "u_wnext (uring_task_reap os u t) = u_wnext u" and "m_brk (uring_task_reap os u t) = m_brk u"
    and "u_sh (uring_task_reap os u t) = (case res_ptr (ut_res x) of Some s \<Rightarrow> (u_sh u)(s := None) | None \<Rightarrow> u_sh u)"
proof -
  note c = uinv_core [OF assms(1)]
  define sh' where "sh' = (case res_ptr (ut_res x) of Some s \<Rightarrow> (u_sh u)(s := None) | None \<Rightarrow> u_sh u)"
  define so' where "so' = (case res_ptr (ut_res x) of Some s \<Rightarrow> dl_unlink (u_socks u) s | None \<Rightarrow> u_socks u)"
  note r = core_reap [OF c assms(2-5), of sh', OF _ sh'_def]
  have so: "dl.members so' (dom sh')"
    using assms(1) members_del [of "u_socks u" "u_sh u"] assms(5)
    by (auto simp: so'_def sh'_def uinv_def loose_def split: option.splits)
  obtain tr where tr: "ring_out tr = ring_out (m_trace u)"
    and eq: "uring_task_reap os u t =
      u\<lparr>m_trace := tr, u_socks := so', u_sh := sh', u_tasks := dl_unlink (u_tasks u) t, u_th := (u_th u)(t := None)\<rparr>"
  proof (cases "res_ptr (ut_res x)")
    case None
    have "u = u\<lparr>m_trace := m_trace u, u_socks := u_socks u, u_sh := u_sh u\<rparr>" by simp
    with None assms(2) have "uring_task_reap os u t =
      u\<lparr>m_trace := m_trace u, u_socks := so', u_sh := sh', u_tasks := dl_unlink (u_tasks u) t, u_th := (u_th u)(t := None)\<rparr>"
      by (simp add: uring_task_reap_def live_simps uring_task_unlink_def so'_def sh'_def free_ut_def chk_ut_def)
    then show ?thesis by (rule that [OF refl])
  next
    case (Some s)
    then obtain y where y: "u_sh u s = Some y" using assms(5) by (auto simp: loose_def)
    from close_now_eq [OF this, of os] obtain tr where tr: "ring_out tr = ring_out (m_trace u)"
      and e: "uring_sock_close_now os u s = u\<lparr>m_trace := tr, u_socks := dl_unlink (u_socks u) s, u_sh := (u_sh u)(s := None)\<rparr>"
      by blast
    show ?thesis
      by (rule that [OF tr]) (use Some assms(2) in \<open>simp add: uring_task_reap_def live_simps e uring_task_unlink_def
        so'_def sh'_def free_ut_def chk_ut_def\<close>)
  qed
  show "uinv (T - {t}) (uring_task_reap os u t)"
    using assms(1) r(1) so tr members_del [of "u_tasks u" "u_th u" t x] assms(2) by (simp add: uinv_def eq)
  show "ukeeps {t} u (uring_task_reap os u t)" using r(2) by (simp add: ukeeps_def eq)
  show "u_th (uring_task_reap os u t) = (u_th u)(t := None)" "u_wnext (uring_task_reap os u t) = u_wnext u"
    "m_brk (uring_task_reap os u t) = m_brk u" "u_sh (uring_task_reap os u t) = (case res_ptr (ut_res x) of
      Some s \<Rightarrow> (u_sh u)(s := None) | None \<Rightarrow> u_sh u)"
    by (simp_all add: eq sh'_def)
qed

lemma close_now_th: "uring_sock_close_now os (u\<lparr>u_th := m\<rparr>) s = (uring_sock_close_now os u s)\<lparr>u_th := m\<rparr>"
  by (simp add: uring_sock_close_now_def chk_us_def us_def uring_sock_unlink_def free_us_def sys_call_def m_flag_def Let_def)

lemma close_now_u_th: "u_th (uring_sock_close_now os u s) = u_th u"
  by (simp add: uring_sock_close_now_def chk_us_def us_def uring_sock_unlink_def free_us_def sys_call_def m_flag_def Let_def)

lemma reap_cong:
  assumes "u_th u t = Some x" and "res_ptr (ut_res x') = res_ptr (ut_res x)"
  shows "uring_task_reap os (u\<lparr>u_th := (u_th u)(t \<mapsto> x')\<rparr>) t = uring_task_reap os u t"
  using assms
  by (cases "res_ptr (ut_res x)")
    (simp_all add: uring_task_reap_def live_simps ut_def chk_ut_def free_ut_def uring_task_unlink_def close_now_th
      close_now_u_th Let_def)

lemma complete_res_simps [simp]:
  "res_status (complete_res r z) \<noteq> MYIO_PENDING" "res_ptr (complete_res r z) = res_ptr z"
  by (simp_all add: complete_res_def)

lemma complete_eq:
  assumes "u_th u t = Some x"
  shows "uring_task_complete os u t r =
    (if ut_detached x then uring_task_reap os u t
     else u\<lparr>u_th := (u_th u)(t \<mapsto> x\<lparr>ut_res := complete_res r (ut_res x), ut_done := True\<rparr>)\<rparr>)"
proof -
  let ?x = "x\<lparr>ut_res := complete_res r (ut_res x), ut_done := True\<rparr>"
  have "uring_task_complete os u t r =
      (if ut_detached x then uring_task_reap os (u\<lparr>u_th := (u_th u)(t \<mapsto> ?x)\<rparr>) t else u\<lparr>u_th := (u_th u)(t \<mapsto> ?x)\<rparr>)"
    using assms by (simp add: uring_task_complete_def uring_task_finish_def upd_ut_def ut_def)
  with reap_cong [OF assms, of ?x os] show ?thesis by simp
qed

lemma uinv_complete:
  assumes "uinv T u" and "u_th u t = Some x" and "t \<in> T" and "clean (u_th u) (u_sh u) t"
    and "\<And>s. res_ptr (ut_res x) = Some s \<Longrightarrow> loose (u_th u) (u_sh u) s"
    and u': "u' = uring_task_complete os u t r"
  shows "uinv (T - {t}) u'" and "ukeeps S u u'" and "\<And>q. q \<noteq> t \<Longrightarrow> u_th u' q = u_th u q"
    and "u_wnext u' = u_wnext u" and "m_brk u' = m_brk u" and "res_ptr (ut_res x) = None \<Longrightarrow> u_sh u' = u_sh u"
    and "\<not> ut_detached x \<Longrightarrow> u_th u' t = Some (x\<lparr>ut_res := complete_res r (ut_res x), ut_done := True\<rparr>)"
proof -
  note eq = complete_eq [OF assms(2), of os r, folded u']
  have "uinv (T - {t}) u' \<and> ukeeps S u u' \<and> (\<forall>q. q \<noteq> t \<longrightarrow> u_th u' q = u_th u q) \<and> u_wnext u' = u_wnext u \<and>
    m_brk u' = m_brk u \<and> (res_ptr (ut_res x) = None \<longrightarrow> u_sh u' = u_sh u) \<and>
    (\<not> ut_detached x \<longrightarrow> u_th u' t = Some (x\<lparr>ut_res := complete_res r (ut_res x), ut_done := True\<rparr>))"
  proof (cases "ut_detached x")
    case True
    note re = uinv_reap [OF assms(1,2) disjI1 [OF assms(3)] assms(4,5), of os]
    have "ukeeps S u (uring_task_reap os u t)"
      using re(2) True assms(2) by (auto simp: ukeeps_def keeps_def re(3))
    with re True eq show ?thesis by simp
  next
    case False
    from core_settle [OF uinv_core [OF assms(1)] assms(2-4) False, of "complete_res r (ut_res x)"] assms(1,2)
    show ?thesis using False eq by (simp add: uinv_def ukeeps_def insert_absorb domI)
  qed
  then show "uinv (T - {t}) u'" "ukeeps S u u'" "\<And>q. q \<noteq> t \<Longrightarrow> u_th u' q = u_th u q"
    "u_wnext u' = u_wnext u" "m_brk u' = m_brk u" "res_ptr (ut_res x) = None \<Longrightarrow> u_sh u' = u_sh u"
    "\<not> ut_detached x \<Longrightarrow> u_th u' t = Some (x\<lparr>ut_res := complete_res r (ut_res x), ut_done := True\<rparr>)"
    by blast+
qed

subsection \<open>Submission\<close>

lemma uinv_flush:
  assumes "uinv T u" and "u_th u t = Some x" and "t \<in> T" and "\<not> parked (u_sh u) t x" and "res_ptr (ut_res x) = None"
    and "ut_kind x = TASK_CONNECT \<or> ut_kind x = TASK_ACCEPT \<Longrightarrow> xref x \<noteq> None"
    and "ut_kind x = TASK_SOCK_READ \<or> ut_kind x = TASK_ACCEPT \<Longrightarrow> ut_sock x = None"
  shows "uinv (T - {t}) (sqe_flush os u q (Ud_task t))"
  using assms(1) core_arm [OF uinv_core [OF assms(1)] assms(2-7)]
  by (simp add: uinv_def sqe_flush_def sys_call_def Let_def)

lemma uinv_flush_cancel: "uinv T u \<Longrightarrow> uinv T (sqe_flush os u q Ud_cancel)"
  using core_cancel_sqe [OF uinv_core, of T u] by (simp add: uinv_def sqe_flush_def sys_call_def Let_def)

lemma flush_same [simp]:
  "u_th (sqe_flush os u q d) = u_th u" "u_sh (sqe_flush os u q d) = u_sh u" "u_wnext (sqe_flush os u q d) = u_wnext u"
  "m_brk (sqe_flush os u q d) = m_brk u"
  by (simp_all add: sqe_flush_def sys_call_def Let_def)

lemma uinv_cancel_submit:
  assumes "uinv T u" and "u_th u t = Some x" and "uring_cancel_submit os u t = (ok, u')"
  shows "uinv T u'" "u_th u' = u_th u" "u_sh u' = u_sh u" "u_wnext u' = u_wnext u" "m_brk u' = m_brk u"
proof -
  obtain ok1 u1 where g: "sqe_get os u = (ok1, u1)" by fastforce
  note s = only_trace_same [OF sqe_get_trace [OF g]]
  have i: "uinv T u1" using only_trace_uinv [OF sqe_get_trace [OF g]] assms(1) by simp
  have "chk_ut t u1 = u1" using s(1) assms(2) by (simp add: chk_ut_def)
  then show "uinv T u'" "u_th u' = u_th u" "u_sh u' = u_sh u" "u_wnext u' = u_wnext u" "m_brk u' = m_brk u"
    using assms(3) i s by (auto simp: uring_cancel_submit_def g Let_def uinv_flush_cancel split: if_splits)
qed

text \<open>Arming a write: it is the head of its queue and in transit, or nothing happens.\<close>

lemma uinv_write_arm:
  assumes "uinv T u" and "u_th u t = Some x" and "t \<in> T" and "\<not> parked (u_sh u) t x" and "ut_kind x = TASK_SOCK_WRITE"
    and "uring_write_arm os u t = (ok, u')"
  shows "uinv (if ok then T - {t} else T) u'" "u_th u' = u_th u" "u_sh u' = u_sh u" "u_wnext u' = u_wnext u"
    "m_brk u' = m_brk u"
proof -
  obtain ok1 u1 where g: "sqe_get os u = (ok1, u1)" by fastforce
  note s = only_trace_same [OF sqe_get_trace [OF g]]
  have i: "uinv T u1" using only_trace_uinv [OF sqe_get_trace [OF g]] assms(1) by simp
  have "chk_ut t u1 = u1" using s(1) assms(2) by (simp add: chk_ut_def)
  moreover have "uinv (T - {t}) (sqe_flush os u1 q (Ud_task t))" for q
    by (rule uinv_flush [OF i]) (use assms s write_ptr [OF uinv_core [OF assms(1)] assms(2,5)] in auto)
  ultimately show "uinv (if ok then T - {t} else T) u'" "u_th u' = u_th u" "u_sh u' = u_sh u"
    "u_wnext u' = u_wnext u" "m_brk u' = m_brk u"
    using assms(6) i s by (auto simp: uring_write_arm_def g Let_def split: if_splits)
qed

subsection \<open>The write queues\<close>

definition severed :: "addr \<Rightarrow> uring_io \<Rightarrow> uring_io" where
  "severed t u = upd_ut t (\<lambda>x. x\<lparr>ut_sock := None\<rparr>) u"

definition popped :: "uring_io \<Rightarrow> addr \<Rightarrow> addr \<Rightarrow> wlinks \<Rightarrow> myio_wq \<Rightarrow> uring_io" where
  "popped u s t nx q = u\<lparr>u_th := (u_th u)(t \<mapsto> (ut u t)\<lparr>ut_sock := None\<rparr>), u_wnext := nx,
     u_sh := (u_sh u)(s \<mapsto> (us u s)\<lparr>us_wq := q\<rparr>)\<rparr>"

text \<open>The head of a queue is severed and popped, in either order.\<close>

lemma uinv_pop:
  assumes "uinv T u" and s: "u_sh u s = Some y" and xs: "wq_list (u_wnext u) (us_wq y) (t # xs)"
    and t: "u_th u t = Some x"
  shows "\<exists>nx q. uring_wq_pop (severed t u) s = (wq_head q, popped u s t nx q) \<and>
    (\<exists>u1. uring_wq_pop u s = (wq_head q, u1) \<and> severed t u1 = popped u s t nx q) \<and>
    wq_list nx q xs \<and> wq_head q = (if xs = [] then None else Some (hd xs)) \<and>
    uinv (T \<union> set_option (wq_head q)) (popped u s t nx q) \<and> ukeeps S u (popped u s t nx q) \<and>
    clean (u_th (popped u s t nx q)) (u_sh (popped u s t nx q)) t"
proof -
  from core_pop [OF uinv_core [OF assms(1)] s xs t, of S] obtain nx q
    where po: "myio_wq_pop (u_wnext u) (us_wq y) = Some (wq_head q, nx, q)" and wl: "wq_list nx q xs"
      "wq_head q = (if xs = [] then None else Some (hd xs))"
      and c: "ucore (T \<union> set_option (wq_head q)) (m_brk u) ((u_th u)(t \<mapsto> x\<lparr>ut_sock := None\<rparr>))
        ((u_sh u)(s \<mapsto> y\<lparr>us_wq := q\<rparr>)) nx (ring_out (m_trace u))"
      and k: "keeps S (u_th u) (u_sh u) ((u_th u)(t \<mapsto> x\<lparr>ut_sock := None\<rparr>)) ((u_sh u)(s \<mapsto> y\<lparr>us_wq := q\<rparr>))"
        "clean ((u_th u)(t \<mapsto> x\<lparr>ut_sock := None\<rparr>)) ((u_sh u)(s \<mapsto> y\<lparr>us_wq := q\<rparr>)) t" by blast
  have P: "popped u s t nx q = u\<lparr>u_th := (u_th u)(t \<mapsto> x\<lparr>ut_sock := None\<rparr>), u_wnext := nx,
     u_sh := (u_sh u)(s \<mapsto> y\<lparr>us_wq := q\<rparr>)\<rparr>"
    using s t by (simp add: popped_def ut_def us_def)
  have "uring_wq_pop (severed t u) s = (wq_head q, popped u s t nx q)"
    "uring_wq_pop u s = (wq_head q, u\<lparr>u_wnext := nx, u_sh := (u_sh u)(s \<mapsto> y\<lparr>us_wq := q\<rparr>)\<rparr>)"
    "severed t (u\<lparr>u_wnext := nx, u_sh := (u_sh u)(s \<mapsto> y\<lparr>us_wq := q\<rparr>)\<rparr>) = popped u s t nx q"
    using s t po by (simp_all add: P severed_def uring_wq_pop_def upd_ut_def upd_us_def us_def)
  moreover have "uinv (T \<union> set_option (wq_head q)) (popped u s t nx q)"
    using assms(1) s t c by (simp add: P uinv_def insert_absorb domI)
  moreover have "ukeeps S u (popped u s t nx q)" "clean (u_th (popped u s t nx q)) (u_sh (popped u s t nx q)) t"
    using k by (simp_all add: P ukeeps_def)
  ultimately show ?thesis using wl by blast
qed

text \<open>
  Promotion: the new head in transit gets its request, or is completed with \<open>EAGAIN\<close>
  and the next one is tried. The queue's length bounds the rounds.
\<close>

lemma uinv_promote:
  assumes "uinv (T \<union> set_option h) u" and "u_sh u s = Some y" and "wq_list (u_wnext u) (us_wq y) xs"
    and "h = (if xs = [] then None else Some (hd xs))" and "length xs \<le> fuel"
    and "u' = uring_promote os fuel u s h" and "T \<inter> set xs = {}"
  shows "uinv T u' \<and> ukeeps S u u' \<and> (\<forall>q. q \<notin> set xs \<longrightarrow> u_th u' q = u_th u q) \<and>
    (\<forall>k z. u_sh u' k = Some z \<longrightarrow> (\<exists>z'. u_sh u k = Some z' \<and> us_read_task z = us_read_task z' \<and> us_accept_task z = us_accept_task z'))"
  using assms
proof (induction xs arbitrary: fuel u h y)
  case Nil
  then show ?case by simp
next
  case (Cons n ns)
  from Cons.prems(4,5) obtain f where h: "h = Some n" and f: "fuel = Suc f" "length ns \<le> f" by (cases fuel) auto
  note c = uinv_core [OF Cons.prems(1)]
  have ms: "set (n # ns) = wmembers (u_th u) s"
    using wq_inv_list [OF ucore_parts(5) [OF c] Cons.prems(2)] wq_list_unique [OF Cons.prems(3)] by blast
  have "n \<in> wmembers (u_th u) s" unfolding ms [symmetric] by simp
  from wq_write [OF c this] obtain x where x: "u_th u n = Some x" "ut_kind x = TASK_SOCK_WRITE" "ut_sock x = Some s" by blast
  have np: "\<not> parked (u_sh u) n x" using x Cons.prems(2) wq_list_head [OF Cons.prems(3)] by (auto simp: parked_def)
  obtain ok u1 where arm: "uring_write_arm os u n = (ok, u1)" by fastforce
  have nT: "n \<notin> T" using Cons.prems(7) by simp
  have "n \<in> T \<union> set_option h" using h by simp
  note ar = uinv_write_arm [OF Cons.prems(1) x(1) this np x(2) arm]
  show ?case
  proof (cases ok)
    case True
    then have "u' = u1" using Cons.prems(6) arm h f by simp
    moreover have "T \<union> set_option h - {n} = T" using nT h by auto
    ultimately show ?thesis using ar True by (auto simp: ukeeps_def keeps_refl)
  next
    case False
    have i1: "uinv (T \<union> {n}) u1" using ar False h by simp
    have s1: "u_sh u1 s = Some y" "wq_list (u_wnext u1) (us_wq y) (n # ns)" "u_th u1 n = Some x"
      using ar Cons.prems(2,3) x by auto
    from uinv_pop [OF i1 s1, of S] obtain nx q u2 where po: "uring_wq_pop u1 s = (wq_head q, u2)"
      "severed n u2 = popped u1 s n nx q" and wl: "wq_list nx q ns" "wq_head q = (if ns = [] then None else Some (hd ns))"
      and i2: "uinv (T \<union> {n} \<union> set_option (wq_head q)) (popped u1 s n nx q)" "ukeeps S u1 (popped u1 s n nx q)"
      "clean (u_th (popped u1 s n nx q)) (u_sh (popped u1 s n nx q)) n" by blast
    define u3 where "u3 = popped u1 s n nx q"
    have x3: "u_th u3 n = Some (x\<lparr>ut_sock := None\<rparr>)" "u_sh u3 s = Some (y\<lparr>us_wq := q\<rparr>)" "u_wnext u3 = nx"
      "\<And>p. p \<noteq> n \<Longrightarrow> u_th u3 p = u_th u p" "\<And>k. k \<noteq> s \<Longrightarrow> u_sh u3 k = u_sh u k"
      using s1 ar by (simp_all add: u3_def popped_def ut_def us_def)
    have rp: "res_ptr (ut_res x) = None" using write_ptr [OF c x(1,2)] .
    define u4 where "u4 = uring_task_complete os u3 n (- EAGAIN)"
    have d: "n \<notin> set ns" using wq_list_distinct [OF Cons.prems(3)] by simp
    have nh: "n \<notin> set_option (wq_head q)" using wl(2) d hd_in_set [of ns] by (auto split: if_splits)
    have "n \<in> T \<union> {n} \<union> set_option (wq_head q)" by simp
    note co = uinv_complete [OF i2(1) [folded u3_def] x3(1) this i2(3) [folded u3_def] _ u4_def]
    have "T \<union> {n} \<union> set_option (wq_head q) - {n} = T \<union> set_option (wq_head q)" using nT nh by auto
    then have i4: "uinv (T \<union> set_option (wq_head q)) u4" and k4: "ukeeps S u3 u4" and sh4: "u_sh u4 = u_sh u3"
      and th4: "\<And>p. p \<noteq> n \<Longrightarrow> u_th u4 p = u_th u3 p" and nx4: "u_wnext u4 = nx"
      using co rp x3(3) by auto
    have u': "u' = uring_promote os f u4 s (wq_head q)"
      using Cons.prems(6) arm False po h f by (simp add: severed_def u3_def u4_def)
    have "T \<inter> set ns = {}" using Cons.prems(7) by simp
    note IH = Cons.IH [OF i4 _ _ wl(2) f(2) u' this, of "y\<lparr>us_wq := q\<rparr>"]
    have IH: "uinv T u'" "ukeeps S u4 u'" "\<And>p. p \<notin> set ns \<Longrightarrow> u_th u' p = u_th u4 p"
      "\<And>k z. u_sh u' k = Some z \<Longrightarrow> \<exists>z'. u_sh u4 k = Some z' \<and> us_read_task z = us_read_task z' \<and> us_accept_task z = us_accept_task z'"
      using IH x3(2) sh4 nx4 wl(1) by auto
    have "ukeeps S u u1" using ar by (simp add: ukeeps_def keeps_refl)
    then have "ukeeps S u u'" using i2(2) k4 IH(2) by (auto simp: u3_def intro: ukeeps_trans)
    moreover have "\<exists>z'. u_sh u k = Some z' \<and> us_read_task z = us_read_task z' \<and> us_accept_task z = us_accept_task z'"
      if "u_sh u' k = Some z" for k z
      using IH(4) [OF that] Cons.prems(2) x3(2,5) by (cases "k = s") (auto simp: sh4)
    ultimately show ?thesis using IH(1,3) th4 x3(4) by auto
  qed
qed

lemma queue_len:
  assumes "uinv T u" and "u_sh u s = Some y" and "wq_list (u_wnext u) (us_wq y) xs"
  shows "length xs \<le> m_brk u" and "set xs = wmembers (u_th u) s"
proof -
  note c = uinv_core [OF assms(1)]
  show m: "set xs = wmembers (u_th u) s"
    using wq_inv_list [OF ucore_parts(5) [OF c] assms(2)] wq_list_unique [OF assms(3)] by blast
  have "wmembers (u_th u) s \<subseteq> {..<m_brk u}"
    using task_invD [OF ucore_parts(1) [OF c]] by (auto simp: wmembers_def task_ok_def)
  with m have "card (set xs) \<le> m_brk u" using card_mono [of "{..<m_brk u}" "set xs"] by simp
  with wq_list_distinct [OF assms(3)] show "length xs \<le> m_brk u" by (simp add: distinct_card)
qed

text \<open>The head write is done: it leaves the queue, its successor is promoted, then it completes.\<close>

lemma clean_write:
  assumes "ucore T b th sh nx R" and "th t = Some x" and "ut_kind x = TASK_SOCK_WRITE" and "ut_sock x = None"
  shows "clean th sh t"
proof -
  note p = ucore_parts [OF assms(1)]
  have "us_read_task y \<noteq> Some t \<and> us_accept_task y \<noteq> Some t" if "sh s = Some y" for s y
    using read_inv_task [OF p(3) that] acc_inv_task [OF p(4) that] assms(2,3) by auto
  with assms(2-4) show ?thesis by (auto simp: clean_def xref_def)
qed

lemma uinv_write_finish:
  assumes i: "uinv {t} u" and x: "u_th u t = Some x" "ut_kind x = TASK_SOCK_WRITE"
    and s: "\<And>s. ut_sock x = Some s \<Longrightarrow> \<exists>y. u_sh u s = Some y \<and> wq_head (us_wq y) = Some t"
    and u': "u' = uring_write_finish os u t r"
  shows "uinv {} u'" and "ukeeps S u u'"
proof -
  note c = uinv_core [OF i]
  have rp: "res_ptr (ut_res x) = None" using write_ptr [OF c x] .
  have goal: "uinv {} u' \<and> ukeeps S u u'"
    if u2: "uinv {t} u2" "ukeeps S u u2" "u_th u2 t = Some (x\<lparr>ut_sock := None\<rparr>)" and e: "u' = uring_task_complete os u2 t r" for u2
  proof -
    have cl: "clean (u_th u2) (u_sh u2) t" by (rule clean_write [OF uinv_core [OF u2(1)] u2(3)]) (use x in auto)
    note co = uinv_complete [OF u2(1,3) singletonI cl _ e]
    from co(1) co(2) [of S] rp have "uinv {} u'" "ukeeps S u2 u'" by auto
    then show ?thesis using ukeeps_trans [OF u2(2)] by blast
  qed
  have "uinv {} u' \<and> ukeeps S u u'"
  proof (cases "ut_sock x")
    case None
    then have "x\<lparr>ut_sock := None\<rparr> = x" by simp
    with x(1) have "upd_ut t (\<lambda>x. x\<lparr>ut_sock := None\<rparr>) u = u" by (simp add: upd_ut_def fun_upd_idem)
    then have "u' = uring_task_complete os u t r" using u' x(1) None by (simp add: uring_write_finish_def ut_def)
    then show ?thesis using goal [OF i ukeeps_refl] x(1) None by simp
  next
    case (Some s0)
    from s [OF this] obtain y where y: "u_sh u s0 = Some y" "wq_head (us_wq y) = Some t" by blast
    obtain ws where ws: "wq_list (u_wnext u) (us_wq y) ws" using wq_inv_list [OF ucore_parts(5) [OF c] y(1)] by blast
    then obtain xs where xs: "wq_list (u_wnext u) (us_wq y) (t # xs)"
      using wq_list_head [OF ws] y(2) by (cases ws) auto
    from uinv_pop [OF i y(1) xs x(1), of S] obtain nx q where po: "uring_wq_pop (severed t u) s0 = (wq_head q, popped u s0 t nx q)"
      and wl: "wq_list nx q xs" "wq_head q = (if xs = [] then None else Some (hd xs))"
      and i2: "uinv ({t} \<union> set_option (wq_head q)) (popped u s0 t nx q)" "ukeeps S u (popped u s0 t nx q)" by blast
    define u3 where "u3 = popped u s0 t nx q"
    have x3: "u_th u3 t = Some (x\<lparr>ut_sock := None\<rparr>)" "u_sh u3 s0 = Some (y\<lparr>us_wq := q\<rparr>)" "u_wnext u3 = nx"
      using x(1) y(1) by (simp_all add: u3_def popped_def ut_def us_def)
    have d: "t \<notin> set xs" using wq_list_distinct [OF xs] by simp
    define u4 where "u4 = uring_promote os (m_brk u3) u3 s0 (wq_head q)"
    have l: "length xs \<le> m_brk u3"
      by (rule queue_len(1) [OF i2(1) [folded u3_def] x3(2)]) (simp add: x3(3) wl(1))
    have "uinv {t} u4 \<and> ukeeps S u3 u4 \<and> (\<forall>p. p \<notin> set xs \<longrightarrow> u_th u4 p = u_th u3 p) \<and>
      (\<forall>k z. u_sh u4 k = Some z \<longrightarrow> (\<exists>z'. u_sh u3 k = Some z' \<and> us_read_task z = us_read_task z' \<and> us_accept_task z = us_accept_task z'))"
      by (rule uinv_promote [OF i2(1) [folded u3_def] x3(2) _ wl(2) l u4_def]) (use x3(3) wl(1) d in auto)
    then have i4: "uinv {t} u4" "ukeeps S u3 u4" "u_th u4 t = Some (x\<lparr>ut_sock := None\<rparr>)" using d x3(1) by auto
    have "u' = uring_task_complete os u4 t r"
      using u' x(1) Some po by (simp add: uring_write_finish_def ut_def severed_def u3_def u4_def)
    with goal [OF i4(1) _ i4(3)] i2(2) i4(2) show ?thesis by (auto simp: u3_def intro: ukeeps_trans)
  qed
  then show "uinv {} u'" "ukeeps S u u'" by auto
qed

text \<open>Every queued write is completed as canceled.\<close>

lemma uinv_cancel_queued:
  assumes "uinv (T \<union> set_option (wq_head (us_wq y))) u" and "u_sh u s = Some y" and "wq_list (u_wnext u) (us_wq y) xs"
    and "length xs \<le> fuel" and "u' = uring_cancel_queued os fuel u s" and "T \<inter> set xs = {}"
  shows "uinv T u' \<and> (\<forall>q. q \<notin> set xs \<longrightarrow> u_th u' q = u_th u q) \<and> (\<forall>k. k \<noteq> s \<longrightarrow> u_sh u' k = u_sh u k) \<and>
    (\<exists>w. u_sh u' s = Some (y\<lparr>us_wq := w\<rparr>) \<and> wq_head w = None) \<and> ukeeps S u u'"
  using assms
proof (induction xs arbitrary: fuel u y)
  case Nil
  then have "wq_head (us_wq y) = None" by (simp add: wq_list_head)
  with Nil have "u' = u" by (cases fuel) (auto simp: us_def)
  with Nil \<open>wq_head (us_wq y) = None\<close> show ?case by (auto intro: exI [of _ "us_wq y"])
next
  case (Cons n ns)
  have h: "wq_head (us_wq y) = Some n" using wq_list_head [OF Cons.prems(3)] by simp
  from Cons.prems(4) obtain f where f: "fuel = Suc f" "length ns \<le> f" by (cases fuel) auto
  note c = uinv_core [OF Cons.prems(1)]
  have "n \<in> wmembers (u_th u) s" using queue_len(2) [OF Cons.prems(1-3)] by auto
  from wq_write [OF c this] obtain x where x: "u_th u n = Some x" "ut_kind x = TASK_SOCK_WRITE" by blast
  have nT: "n \<notin> T" using Cons.prems(6) by simp
  from uinv_pop [OF Cons.prems(1-3) x(1), of S] obtain nx q u2 where po: "uring_wq_pop u s = (wq_head q, u2)"
    "severed n u2 = popped u s n nx q" and wl: "wq_list nx q ns" "wq_head q = (if ns = [] then None else Some (hd ns))"
    and i2: "uinv (T \<union> set_option (wq_head (us_wq y)) \<union> set_option (wq_head q)) (popped u s n nx q)"
      "ukeeps S u (popped u s n nx q)" "clean (u_th (popped u s n nx q)) (u_sh (popped u s n nx q)) n" by blast
  define u3 where "u3 = popped u s n nx q"
  have x3: "u_th u3 n = Some (x\<lparr>ut_sock := None\<rparr>)" "u_sh u3 s = Some (y\<lparr>us_wq := q\<rparr>)" "u_wnext u3 = nx"
    "\<And>p. p \<noteq> n \<Longrightarrow> u_th u3 p = u_th u p" "\<And>k. k \<noteq> s \<Longrightarrow> u_sh u3 k = u_sh u k"
    using x(1) Cons.prems(2) by (simp_all add: u3_def popped_def ut_def us_def)
  have rp: "res_ptr (ut_res x) = None" using write_ptr [OF c x(1,2)] .
  define u4 where "u4 = uring_task_complete os u3 n (- ECANCELED)"
  have d: "n \<notin> set ns" using wq_list_distinct [OF Cons.prems(3)] by simp
  have nh: "n \<notin> set_option (wq_head q)" using wl(2) d hd_in_set [of ns] by (auto split: if_splits)
  have "n \<in> T \<union> set_option (wq_head (us_wq y)) \<union> set_option (wq_head q)" using h by simp
  note co = uinv_complete [OF i2(1) [folded u3_def] x3(1) this i2(3) [folded u3_def] _ u4_def]
  have "T \<union> set_option (wq_head (us_wq y)) \<union> set_option (wq_head q) - {n} = T \<union> set_option (wq_head q)" using nT nh h by auto
  then have i4: "uinv (T \<union> set_option (wq_head (us_wq (y\<lparr>us_wq := q\<rparr>)))) u4" and k4: "ukeeps S u3 u4" and sh4: "u_sh u4 = u_sh u3"
    and th4: "\<And>p. p \<noteq> n \<Longrightarrow> u_th u4 p = u_th u3 p" and nx4: "u_wnext u4 = nx"
    using co rp x3(3) by auto
  have u': "u' = uring_cancel_queued os f u4 s"
    using Cons.prems(2,5) po h f by (simp add: severed_def u3_def u4_def us_def)
  have Tn: "T \<inter> set ns = {}" using Cons.prems(6) by simp
  note IH = Cons.IH [OF i4 _ _ f(2) u' Tn]
  have IH: "uinv T u'" "ukeeps S u4 u'" "\<And>p. p \<notin> set ns \<Longrightarrow> u_th u' p = u_th u4 p"
    "\<And>k. k \<noteq> s \<Longrightarrow> u_sh u' k = u_sh u4 k" "\<exists>w. u_sh u' s = Some (y\<lparr>us_wq := w\<rparr>) \<and> wq_head w = None"
    using IH x3(2) sh4 nx4 wl(1) by auto
  have "ukeeps S u u'" using i2(2) k4 IH(2) by (auto simp: u3_def intro: ukeeps_trans)
  then show ?case using IH th4 x3 sh4 by auto
qed

subsection \<open>Dispatching a completion\<close>

text \<open>What is known of a task whose CQE has just been taken off the ring.\<close>

definition ready :: "theap \<Rightarrow> sheap \<Rightarrow> addr \<Rightarrow> uring_task \<Rightarrow> bool" where
  "ready th sh t x \<longleftrightarrow> th t = Some x \<and> \<not> ut_done x \<and> res_ptr (ut_res x) = None \<and>
     (ut_kind x = TASK_CONNECT \<or> ut_kind x = TASK_ACCEPT \<longrightarrow> xref x \<noteq> None) \<and>
     (\<forall>s. ut_sock x = Some s \<longrightarrow>
        (ut_kind x = TASK_SOCK_READ \<longrightarrow> (\<exists>y. sh s = Some y \<and> us_read_task y = Some t)) \<and>
        (ut_kind x = TASK_ACCEPT \<longrightarrow> (\<exists>y. sh s = Some y \<and> us_accept_task y = Some t)) \<and>
        (ut_kind x = TASK_SOCK_WRITE \<longrightarrow> (\<exists>y. sh s = Some y \<and> wq_head (us_wq y) = Some t)))"

lemma core_ready:
  assumes "ucore T b th sh nx R" and "Ud_task t \<in># R"
  shows "\<exists>x. ready th sh t x"
proof -
  note p = ucore_parts [OF assms(1)]
  from core_cqe_task [OF assms] obtain x where x: "th t = Some x" "\<not> ut_done x" "t \<notin> T" "\<not> parked sh t x" by blast
  have "\<exists>y. sh s = Some y \<and> wq_head (us_wq y) = Some t" if w: "ut_kind x = TASK_SOCK_WRITE" "ut_sock x = Some s" for s
  proof -
    have "t \<in> wmembers th s" by (rule wmembers_I) (use x w in auto)
    from wq_inv_live [OF p(5) this] x(4) w show ?thesis by (auto simp: parked_def)
  qed
  with x task_invD [OF p(1) x(1)] read_inv_back [OF p(3) x(1) _ x(2,3)] acc_inv_back [OF p(4) x(1) _ x(2,3)]
  show ?thesis by (auto simp: ready_def task_ok_def)
qed

lemma clean_kind:
  assumes "ucore T b th sh nx R" and "th t = Some x" and "xref x = None" and "ut_kind x \<noteq> TASK_SOCK_WRITE"
    and "\<And>s y. ut_kind x = TASK_SOCK_READ \<Longrightarrow> ut_sock x = Some s \<Longrightarrow> sh s = Some y \<Longrightarrow> us_read_task y \<noteq> Some t"
    and "\<And>s y. ut_kind x = TASK_ACCEPT \<Longrightarrow> ut_sock x = Some s \<Longrightarrow> sh s = Some y \<Longrightarrow> us_accept_task y \<noteq> Some t"
  shows "clean th sh t"
proof -
  note p = ucore_parts [OF assms(1)]
  have "us_read_task y \<noteq> Some t \<and> us_accept_task y \<noteq> Some t" if "sh s = Some y" for s y
    using read_inv_task [OF p(3) that] acc_inv_task [OF p(4) that] assms(2,5,6) that by auto
  with assms(2-4) show ?thesis by (auto simp: clean_def)
qed

lemma uinv_plain_complete:
  assumes "uinv {t} u" and "u_th u t = Some x" and "res_ptr (ut_res x) = None" and "clean (u_th u) (u_sh u) t"
  shows "uinv {} (uring_task_complete os u t r)" and "ukeeps S u (uring_task_complete os u t r)"
  using uinv_complete(1) [OF assms(1,2) singletonI assms(4) _ refl] uinv_complete(2) [OF assms(1,2) singletonI assms(4) _ refl]
    assms(3) by auto

lemma dispatch_connect:
  assumes i: "uinv {t} u" and r: "ready (u_th u) (u_sh u) t x" and k: "ut_kind x = TASK_CONNECT"
  shows "uinv {} (uring_dispatch os u t res)" and "ukeeps S u (uring_dispatch os u t res)"
proof -
  note c = uinv_core [OF i]
  have x: "u_th u t = Some x" "res_ptr (ut_res x) = None" using r by (auto simp: ready_def)
  from r k obtain s where s: "ut_sock x = Some s" "xref x = Some s" by (auto simp: ready_def xref_def)
  have "uinv {} (uring_dispatch os u t res) \<and> ukeeps S u (uring_dispatch os u t res)"
  proof (cases "res = 0")
    case True
    let ?x = "x\<lparr>ut_res := (ut_res x)\<lparr>res_ptr := Some s\<rparr>, ut_sock := None\<rparr>"
    define u1 where "u1 = u\<lparr>u_th := (u_th u)(t \<mapsto> ?x)\<rparr>"
    have x': "xref ?x = None" using k by (simp add: xref_def)
    note w = core_win [OF c x(1) singletonI s(2), of ?x]
    have i1: "uinv {t} u1" and k1: "ukeeps S u u1" and l: "loose (u_th u1) (u_sh u1) s"
      using w(1) w(2) [of S] w(3) x' k x i by (simp_all add: u1_def uinv_def ukeeps_def insert_absorb domI)
    have t1: "u_th u1 t = Some ?x" by (simp add: u1_def)
    have cl: "clean (u_th u1) (u_sh u1) t" by (rule clean_kind [OF uinv_core [OF i1] t1 x']) (use k in auto)
    have e: "uring_dispatch os u t res = uring_task_complete os u1 t 0"
      using x k s True by (simp add: uring_dispatch_def ut_def chk_ut_def upd_ut_def u1_def)
    note co = uinv_complete [OF i1 t1 singletonI cl _ e]
    show ?thesis using co(1) co(2) [of S] l k1 by (auto intro: ukeeps_trans)
  next
    case False
    define u1 where "u1 = upd_ut t (\<lambda>x. x\<lparr>ut_sock := None\<rparr>) (uring_sock_close_now os u s)"
    note d = uinv_drop_connect [OF i x(1) singletonI k s(1) u1_def]
    have t1: "u_th u1 t = Some (x\<lparr>ut_sock := None\<rparr>)" using d(3) by simp
    have cl: "clean (u_th u1) (u_sh u1) t"
      by (rule clean_kind [OF uinv_core [OF d(1)] t1]) (use k in \<open>auto simp: xref_def\<close>)
    have e: "uring_dispatch os u t res = uring_task_complete os u1 t res"
      using x k s False by (simp add: uring_dispatch_def ut_def chk_ut_def u1_def)
    show ?thesis using uinv_plain_complete(1) [OF d(1) t1 _ cl] uinv_plain_complete(2) [OF d(1) t1 _ cl] x(2) ukeeps_trans [OF d(2) [of S]] unfolding e
      by auto
  qed
  then show "uinv {} (uring_dispatch os u t res)" "ukeeps S u (uring_dispatch os u t res)" by auto
qed

lemma dispatch_read:
  assumes i: "uinv {t} u" and r: "ready (u_th u) (u_sh u) t x" and k: "ut_kind x = TASK_SOCK_READ"
  shows "uinv {} (uring_dispatch os u t res)" and "ukeeps S u (uring_dispatch os u t res)"
proof -
  note c = uinv_core [OF i]
  have x: "u_th u t = Some x" "res_ptr (ut_res x) = None" "xref x = None" using r k by (auto simp: ready_def xref_def)
  have "uinv {} (uring_dispatch os u t res) \<and> ukeeps S u (uring_dispatch os u t res)"
  proof (cases "ut_sock x")
    case None
    have cl: "clean (u_th u) (u_sh u) t" by (rule clean_kind [OF c x(1,3)]) (use k None in auto)
    have e: "uring_dispatch os u t res = uring_task_complete os u t res"
      using x k None by (simp add: uring_dispatch_def ut_def chk_ut_def)
    show ?thesis using uinv_plain_complete [OF i x(1,2) cl] unfolding e by simp
  next
    case (Some s)
    with r k obtain y where y: "u_sh u s = Some y" "us_read_task y = Some t" by (auto simp: ready_def)
    define u1 where "u1 = u\<lparr>u_sh := (u_sh u)(s \<mapsto> y\<lparr>us_read_task := None\<rparr>)\<rparr>"
    note un = core_unread [OF c y singletonI]
    have i1: "uinv {t} u1" "ukeeps S u u1" "u_th u1 t = Some x"
      using un(1) un(2) [of S] i y x by (simp_all add: u1_def uinv_def ukeeps_def insert_absorb domI)
    have cl: "clean (u_th u1) (u_sh u1) t"
      by (rule clean_kind [OF uinv_core [OF i1(1)] i1(3) x(3)]) (use k Some in \<open>auto simp: u1_def\<close>)
    have e: "uring_dispatch os u t res = uring_task_complete os u1 t res"
      using x k Some y by (simp add: uring_dispatch_def ut_def chk_ut_def chk_us_def us_def upd_us_def u1_def)
    show ?thesis using uinv_plain_complete [OF i1(1,3) x(2) cl] i1(2) unfolding e
      by (auto intro: ukeeps_trans)
  qed
  then show "uinv {} (uring_dispatch os u t res)" "ukeeps S u (uring_dispatch os u t res)" by auto
qed

lemma dispatch_close:
  assumes i: "uinv {t} u" and r: "ready (u_th u) (u_sh u) t x" and k: "ut_kind x = TASK_SOCK_CLOSE"
  shows "uinv {} (uring_dispatch os u t res)" and "ukeeps S u (uring_dispatch os u t res)"
proof -
  note c = uinv_core [OF i]
  have x: "u_th u t = Some x" "res_ptr (ut_res x) = None" using r by (auto simp: ready_def)
  let ?x = "x\<lparr>ut_sock := None\<rparr>"
  have x': "xref ?x = None" using k by (simp add: xref_def)
  have goal: "uinv {} (uring_dispatch os u t res) \<and> ukeeps S u (uring_dispatch os u t res)"
    if u1: "uinv {t} u1" "ukeeps S u u1" "u_th u1 t = Some ?x"
      and e: "uring_dispatch os u t res = uring_task_complete os u1 t res" for u1
  proof -
    have cl: "clean (u_th u1) (u_sh u1) t" by (rule clean_kind [OF uinv_core [OF u1(1)] u1(3) x']) (use k in auto)
    show ?thesis using uinv_plain_complete [OF u1(1,3) _ cl] x(2) u1(2) unfolding e
      by (auto intro: ukeeps_trans)
  qed
  have "uinv {} (uring_dispatch os u t res) \<and> ukeeps S u (uring_dispatch os u t res)"
  proof (cases "ut_sock x")
    case None
    then have "?x = x" by simp
    then show ?thesis using goal [OF i ukeeps_refl] x k None
      by (simp add: uring_dispatch_def ut_def chk_ut_def upd_ut_def fun_upd_idem)
  next
    case (Some s)
    have xr: "xref x = Some s" using Some k by (simp add: xref_def)
    obtain y where y: "u_sh u s = Some y" using xr_inv_live [OF ucore_parts(6) [OF c] x(1) xr] by blast
    define u1 where "u1 = u\<lparr>u_th := (u_th u)(t \<mapsto> ?x), u_socks := dl_unlink (u_socks u) s, u_sh := (u_sh u)(s := None)\<rparr>"
    note d = core_drop_xref [OF c x(1) singletonI xr, of ?x]
    have i1: "uinv {t} u1" "ukeeps S u u1" "u_th u1 t = Some ?x"
      using d(1) d(2) [of S] i x(1) k members_del [of "u_socks u" "u_sh u" s y] y
      by (simp_all add: u1_def uinv_def ukeeps_def insert_absorb domI)
    show ?thesis using goal [OF i1] x k Some y
      by (simp add: uring_dispatch_def ut_def chk_ut_def upd_ut_def uring_sock_unlink_def free_us_def chk_us_def u1_def)
  qed
  then show "uinv {} (uring_dispatch os u t res)" "ukeeps S u (uring_dispatch os u t res)" by auto
qed

lemma dispatch_write:
  assumes i: "uinv {t} u" and r: "ready (u_th u) (u_sh u) t x" and k: "ut_kind x = TASK_SOCK_WRITE"
  shows "uinv {} (uring_dispatch os u t res)" and "ukeeps S u (uring_dispatch os u t res)"
proof -
  have x: "u_th u t = Some x" using r by (auto simp: ready_def)
  have hd: "\<exists>y. u_sh u s = Some y \<and> wq_head (us_wq y) = Some t" if "ut_sock x = Some s" for s
    using that r k by (auto simp: ready_def)
  define x1 where "x1 = x\<lparr>ut_wsent := ut_wsent x + nat res\<rparr>"
  define u1 where "u1 = u\<lparr>u_th := (u_th u)(t \<mapsto> x1)\<rparr>"
  have same: "same_task x x1" by (simp add: same_task_def x1_def)
  have k1: "ut_kind x1 = TASK_SOCK_WRITE" "ut_sock x1 = ut_sock x" using k by (simp_all add: x1_def)
  have t1: "u_th u1 t = Some x1" "u_sh u1 = u_sh u" by (simp_all add: u1_def)
  have i1: "uinv {t} u1" "ukeeps S u u1"
    using core_same [OF uinv_core [OF i] x same] i x by (simp_all add: u1_def uinv_def ukeeps_def insert_absorb domI)
  note wf = uinv_write_finish [OF i x k hd refl]
  have wf1: "uinv {} (uring_write_finish os u1 t r')" "ukeeps S u (uring_write_finish os u1 t r')" for r'
    using uinv_write_finish [OF i1(1) t1(1) k1(1) _ refl] hd k1(2) t1(2) i1(2) by (auto intro: ukeeps_trans)
  have np: "\<not> parked (u_sh u1) t x1" using hd k1(2) t1(2) by (auto simp: parked_def)
  obtain ok u2 where arm: "uring_write_arm os u1 t = (ok, u2)" by fastforce
  note ar = uinv_write_arm [OF i1(1) t1(1) singletonI np k1(1) arm]
  have k2: "ukeeps S u u2" using i1(2) ar(2,3) by (simp add: ukeeps_def)
  have wf2: "uinv {} (uring_write_finish os u2 t r')" "ukeeps S u (uring_write_finish os u2 t r')" if "\<not> ok" for r'
  proof -
    have "uinv {t} u2" "u_th u2 t = Some x1" "u_sh u2 = u_sh u" using ar that t1 by auto
    from uinv_write_finish [OF this(1,2) k1(1) _ refl] this(3) hd k1(2) k2
    show "uinv {} (uring_write_finish os u2 t r')" "ukeeps S u (uring_write_finish os u2 t r')" by (auto intro: ukeeps_trans)
  qed
  have e: "uring_dispatch os u t res =
      (if res < 0 then uring_write_finish os u t res
       else if ut_wsent x1 < length (ut_wbuf x1) then
         if ut_sock x1 = None \<or> ut_wcanceled x1 then uring_write_finish os u1 t (- ECANCELED)
         else if \<not> ok then uring_write_finish os u2 t (- EAGAIN) else u2
       else uring_write_finish os u1 t (int (length (ut_wbuf x1))))"
    using x k arm by (simp add: uring_dispatch_def ut_def chk_ut_def upd_ut_def u1_def x1_def Let_def)
  have "ok \<Longrightarrow> uinv {} u2" using ar(1) by simp
  then show "uinv {} (uring_dispatch os u t res)" using wf wf1 wf2 by (simp add: e)
  show "ukeeps S u (uring_dispatch os u t res)" using wf wf1 wf2 k2 by (simp add: e)
qed

lemma dispatch_accept:
  assumes i: "uinv {t} u" and r: "ready (u_th u) (u_sh u) t x" and k: "ut_kind x = TASK_ACCEPT"
  shows "uinv {} (uring_dispatch os u t res)" and "ukeeps S u (uring_dispatch os u t res)"
proof -
  have x: "u_th u t = Some x" "res_ptr (ut_res x) = None" using r by (auto simp: ready_def)
  from r k obtain n where n: "ut_newsock x = Some n" "xref x = Some n" by (auto simp: ready_def xref_def)
  define u1 where "u1 = (case ut_sock x of
      Some s \<Rightarrow> (let u = chk_us s u in
        if us_accept_task (us u s) = Some t then upd_us s (\<lambda>y. y\<lparr>us_accept_task := None\<rparr>) u else u)
    | None \<Rightarrow> u)"
  have u1: "uinv {t} u1 \<and> ukeeps S u u1 \<and> u_th u1 = u_th u \<and>
      (\<forall>s y. ut_sock x = Some s \<longrightarrow> u_sh u1 s = Some y \<longrightarrow> us_accept_task y \<noteq> Some t)"
  proof (cases "ut_sock x")
    case None
    then show ?thesis using i by (simp add: u1_def)
  next
    case (Some s)
    with r k obtain y where y: "u_sh u s = Some y" "us_accept_task y = Some t" by (auto simp: ready_def)
    note un = core_unacc [OF uinv_core [OF i] y singletonI]
    have "u1 = u\<lparr>u_sh := (u_sh u)(s \<mapsto> y\<lparr>us_accept_task := None\<rparr>)\<rparr>"
      using Some y by (simp add: u1_def chk_us_def us_def upd_us_def)
    then show ?thesis using un(1) un(2) [of S] i y Some by (auto simp: uinv_def ukeeps_def insert_absorb domI)
  qed
  have x1: "u_th u1 t = Some x" using u1 x by simp
  have i1: "uinv {t} u1" and k1: "ukeeps S u u1" using u1 by auto
  note c1 = uinv_core [OF i1]
  have "uinv {} (uring_dispatch os u t res) \<and> ukeeps S u (uring_dispatch os u t res)"
  proof (cases "res \<ge> 0")
    case True
    obtain y where y: "u_sh u1 n = Some y" "quiet y" using xr_inv_live [OF ucore_parts(6) [OF c1] x1 n(2)] by blast
    let ?y = "y\<lparr>us_fd := res\<rparr>"
    define u2 where "u2 = u1\<lparr>u_sh := (u_sh u1)(n \<mapsto> ?y)\<rparr>"
    note ss = core_sock_same [OF c1 y(1), of ?y]
    have i2: "uinv {t} u2" "ukeeps S u1 u2" "u_th u2 t = Some x"
      using ss(1) ss(2) [of S] i1 y x1 by (simp_all add: u2_def uinv_def ukeeps_def insert_absorb domI)
    let ?x = "x\<lparr>ut_res := (ut_res x)\<lparr>res_ptr := Some n\<rparr>, ut_newsock := None\<rparr>"
    define u3 where "u3 = u2\<lparr>u_th := (u_th u2)(t \<mapsto> ?x)\<rparr>"
    have x': "xref ?x = None" using k by (simp add: xref_def)
    note w = core_win [OF uinv_core [OF i2(1)] i2(3) singletonI n(2), of ?x]
    have i3: "uinv {t} u3" and k3: "ukeeps S u2 u3" and l: "loose (u_th u3) (u_sh u3) n"
      using w(1) w(2) [of S] w(3) x' k x i2 by (simp_all add: u3_def uinv_def ukeeps_def insert_absorb domI)
    have t3: "u_th u3 t = Some ?x" by (simp add: u3_def)
    have cl: "clean (u_th u3) (u_sh u3) t"
    proof (rule clean_kind [OF uinv_core [OF i3] t3 x'])
      fix s z
      assume "ut_sock ?x = Some s" "u_sh u3 s = Some z"
      then show "us_accept_task z \<noteq> Some t"
        using u1 y by (auto simp: u3_def u2_def split: if_splits)
    qed (use k in auto)
    have e: "uring_dispatch os u t res = uring_task_complete os u3 t 0"
      using x k n True y x1 by (simp add: uring_dispatch_def ut_def chk_ut_def u1_def [symmetric] upd_us_def upd_ut_def
          u2_def u3_def Let_def)
    note co = uinv_complete [OF i3 t3 singletonI cl _ e]
    show ?thesis using co(1) co(2) [of S] l k3 i2(2) u1 by (auto intro: ukeeps_trans)
  next
    case False
    define u2 where "u2 = upd_ut t (\<lambda>x. x\<lparr>ut_newsock := None\<rparr>) (uring_sock_close_now os u1 n)"
    note d = uinv_drop_accept [OF conjunct1 [OF u1] x1 singletonI k n(1) u2_def]
    have t2: "u_th u2 t = Some (x\<lparr>ut_newsock := None\<rparr>)" using d(3) by simp
    have cl: "clean (u_th u2) (u_sh u2) t"
    proof (rule clean_kind [OF uinv_core [OF d(1)] t2])
      fix s z
      assume "ut_sock (x\<lparr>ut_newsock := None\<rparr>) = Some s" "u_sh u2 s = Some z"
      then show "us_accept_task z \<noteq> Some t" using u1 by (auto simp: d(4) split: if_splits)
    qed (use k in \<open>auto simp: xref_def\<close>)
    have e: "uring_dispatch os u t res = uring_task_complete os u2 t res"
      using x k n False by (simp add: uring_dispatch_def ut_def chk_ut_def u1_def [symmetric] u2_def Let_def)
    have "ukeeps S u u2" using u1 d(2) [of S] by (auto intro: ukeeps_trans)
    with uinv_plain_complete [OF d(1) t2 _ cl] x(2) show ?thesis unfolding e by (auto intro: ukeeps_trans)
  qed
  then show "uinv {} (uring_dispatch os u t res)" "ukeeps S u (uring_dispatch os u t res)" by auto
qed

lemma dispatch_plain:
  assumes i: "uinv {t} u" and r: "ready (u_th u) (u_sh u) t x"
    and k: "ut_kind x \<in> {TASK_OPEN, TASK_CLOSE, TASK_READ, TASK_WRITE, TASK_SLEEP, TASK_SPAWN}"
  shows "uinv {} (uring_dispatch os u t res)" and "ukeeps S u (uring_dispatch os u t res)"
proof -
  have x: "u_th u t = Some x" "res_ptr (ut_res x) = None" using r by (auto simp: ready_def)
  have cl: "clean (u_th u) (u_sh u) t" by (rule clean_kind [OF uinv_core [OF i] x(1)]) (use k in \<open>auto simp: xref_def\<close>)
  have "\<exists>r'. uring_dispatch os u t res = uring_task_complete os u t r'"
    using x k by (auto simp: uring_dispatch_def ut_def chk_ut_def)
  then obtain r' where e: "uring_dispatch os u t res = uring_task_complete os u t r'" by blast
  show "uinv {} (uring_dispatch os u t res)" "ukeeps S u (uring_dispatch os u t res)"
    using uinv_plain_complete [OF i x cl] unfolding e by auto
qed

lemma uinv_dispatch:
  assumes "uinv {t} u" and "ready (u_th u) (u_sh u) t x"
  shows "uinv {} (uring_dispatch os u t res)" and "ukeeps S u (uring_dispatch os u t res)"
proof -
  note d = dispatch_connect [OF assms] dispatch_accept [OF assms] dispatch_read [OF assms] dispatch_write [OF assms]
    dispatch_close [OF assms] dispatch_plain [OF assms]
  show "uinv {} (uring_dispatch os u t res)" using d by (cases "ut_kind x") auto
  show "ukeeps S u (uring_dispatch os u t res)" using d by (cases "ut_kind x") auto
qed

subsection \<open>The drive loop\<close>

lemma uinv_drain:
  assumes "ring_ok os" and "uinv {} u"
  shows "uinv {} (uring_drain os n u) \<and> ukeeps S u (uring_drain os n u)"
  using assms(2)
proof (induction n arbitrary: u)
  case 0
  then show ?case by simp
next
  case (Suc n)
  define a where "a = os (m_trace u) C_peek_cqe"
  define u1 where "u1 = u\<lparr>m_trace := (C_peek_cqe, a) # m_trace u\<rparr>"
  have pk: "sys_call os C_peek_cqe u = (a, u1)" by (simp add: sys_call_def a_def u1_def Let_def)
  show ?case
  proof (cases "a_cqe a")
    case None
    then have "uinv {} u1" "ukeeps S u u1" using Suc.prems by (simp_all add: u1_def uinv_def ukeeps_def keeps_refl)
    with None pk show ?thesis by simp
  next
    case (Some dr)
    then obtain d r where dr: "a_cqe a = Some (d, r)" by (cases dr) auto
    have d: "d \<in># ring_out (m_trace u)" using assms(1) dr by (auto simp: ring_ok_def a_def)
    then have pos: "u_inflight u > 0" using Suc.prems by (auto simp: uinv_def nonempty_has_size [symmetric])
    define u2 where "u2 = u1\<lparr>u_inflight := u_inflight u - 1\<rparr>"
    have u2: "uring_dec u1 = u2" using pos by (simp add: uring_dec_def u1_def u2_def)
    have R: "ring_out (m_trace u2) = ring_out (m_trace u) - {#d#}" "u_inflight u2 = size (ring_out (m_trace u2))"
      using dr d Suc.prems by (simp_all add: u2_def u1_def uinv_def size_Diff_singleton)
    have k2: "ukeeps S u u2" by (simp add: u2_def u1_def ukeeps_def keeps_refl)
    define u3 where "u3 = (case d of Ud_cancel \<Rightarrow> u2 | Ud_task t \<Rightarrow> uring_dispatch os u2 t r)"
    have u3: "uinv {} u3 \<and> ukeeps S u2 u3"
    proof (cases d)
      case Ud_cancel
      have "uinv {} u2" using core_cancel_cqe [OF uinv_core [OF Suc.prems]] Suc.prems R Ud_cancel
        by (simp add: uinv_def) (simp add: u2_def u1_def)
      then show ?thesis using Ud_cancel by (simp add: u3_def)
    next
      case (Ud_task t)
      note c = uinv_core [OF Suc.prems]
      have i2: "uinv {t} u2" using core_take [OF c d [unfolded Ud_task]] Suc.prems R Ud_task
        by (simp add: uinv_def) (simp add: u2_def u1_def)
      from core_ready [OF c d [unfolded Ud_task]] obtain x where "ready (u_th u2) (u_sh u2) t x"
        by (auto simp: u2_def u1_def)
      from uinv_dispatch [OF i2 this] show ?thesis using Ud_task by (simp add: u3_def)
    qed
    have e: "uring_drain os (Suc n) u = uring_drain os n u3" unfolding u3_def u2 [symmetric] using pk dr by (simp add: Let_def)
    from Suc.IH [OF conjunct1 [OF u3]] u3 k2 show ?thesis unfolding e by (auto intro: ukeeps_trans)
  qed
qed

lemma uinv_step:
  assumes "ring_ok os" and "uinv {} u" and "uring_step os u = (b, u')"
  shows "uinv {} u'" and "ukeeps S u u'"
    and "\<not> b \<Longrightarrow> u' = u \<and> (\<forall>t x. u_th u t = Some x \<longrightarrow> ut_done x)"
proof -
  show "uinv {} u'" "ukeeps S u u'"
    using assms uinv_drain [OF assms(1), of "u\<lparr>m_trace := (C_submit_and_wait, os (m_trace u) C_submit_and_wait) # m_trace u\<rparr>"]
    by (auto simp: uring_step_def uring_drain_cqes_def sys_call_def Let_def uinv_def ukeeps_def keeps_refl split: if_splits)
  assume "\<not> b"
  then have u: "u_inflight u = 0" "u' = u" using assms(3) by (auto simp: uring_step_def Let_def split: if_splits prod.splits)
  then have "ring_out (m_trace u) = {#}" using assms(2) by (simp add: uinv_def)
  with u core_idle [of "m_brk u" "u_th u" "u_sh u" "u_wnext u"] uinv_core [OF assms(2)]
  show "u' = u \<and> (\<forall>t x. u_th u t = Some x \<longrightarrow> ut_done x)" by simp
qed

subsection \<open>Files, timers, spawned functions\<close>

text \<open>A task just made is clean; so is one of a plain kind whatever its other fields.\<close>

abbreviation plain_kind :: "task_kind \<Rightarrow> bool" where
  "plain_kind k \<equiv> k \<in> {TASK_OPEN, TASK_CLOSE, TASK_READ, TASK_WRITE, TASK_SLEEP, TASK_SPAWN}"

lemma clean_new:
  assumes "ucore T b th sh nx R" and "th t = Some x" and "ut_sock x = None" and "ut_newsock x = None"
  shows "clean th sh t"
  by (cases "ut_kind x = TASK_SOCK_WRITE"; rule clean_write [OF assms(1,2)] clean_kind [OF assms(1,2)])
    (use assms(3,4) in \<open>auto simp: xref_def\<close>)

lemma uinv_fail_new:
  assumes "uinv {t} u" and "u_th u t = Some x" and "ut_sock x = None" and "ut_newsock x = None" and "\<not> ut_detached x"
    and "uring_task_fail u t err = (p, u')"
  shows "uinv {} u'" and "ukeeps S u u'" and "p = Some t"
    and "\<exists>x'. u_th u' t = Some x' \<and> \<not> ut_detached x' \<and> res_ptr (ut_res x') = res_ptr (ut_res x)"
  using uinv_fail(1,3,4) [OF assms(1,2) singletonI clean_new [OF uinv_core [OF assms(1)] assms(2-4)] assms(5), of err]
    uinv_fail(2) [OF assms(1,2) singletonI clean_new [OF uinv_core [OF assms(1)] assms(2-4)] assms(5), of S err] assms(5,6)
  by auto

lemma uinv_submit_sqe:
  assumes "uinv {t} u" and "u_th u t = Some x" and "plain_kind (ut_kind x)" and "res_ptr (ut_res x) = None"
    and "\<not> ut_detached x" and "ut_sock x = None" and "ut_newsock x = None" and "uring_submit_sqe os u t q = (p, u')"
  shows "uinv {} u'" and "ukeeps S u u'" and "p = Some t"
    and "\<exists>x'. u_th u' t = Some x' \<and> \<not> ut_detached x' \<and> res_ptr (ut_res x') = None"
proof -
  obtain ok u1 where g: "sqe_get os u = (ok, u1)" by fastforce
  note s = only_trace_same [OF sqe_get_trace [OF g]]
  have i: "uinv {t} u1" using only_trace_uinv [OF sqe_get_trace [OF g]] assms(1) by simp
  have x1: "u_th u1 t = Some x" using s(1) assms(2) by simp
  have k1: "ukeeps S u u1" by (rule only_trace_keeps [OF sqe_get_trace [OF g]])
  have "uinv {} u' \<and> ukeeps S u u' \<and> p = Some t \<and>
    (\<exists>x'. u_th u' t = Some x' \<and> \<not> ut_detached x' \<and> res_ptr (ut_res x') = None)"
  proof (cases ok)
    case True
    have "uinv ({t} - {t}) (sqe_flush os u1 q (Ud_task t))"
      by (rule uinv_flush [OF i x1]) (use assms(3-7) in \<open>auto simp: parked_def\<close>)
    with True assms(5,8) g x1 k1 assms(4) show ?thesis by (auto simp: uring_submit_sqe_def ukeeps_def)
  next
    case False
    with assms(8) g have f: "uring_task_fail u1 t EAGAIN = (p, u')" by (simp add: uring_submit_sqe_def)
    from uinv_fail_new [OF i x1 assms(6,7,5) f] k1 assms(4) show ?thesis by (auto intro: ukeeps_trans)
  qed
  then show "uinv {} u'" "ukeeps S u u'" "p = Some t"
    "\<exists>x'. u_th u' t = Some x' \<and> \<not> ut_detached x' \<and> res_ptr (ut_res x') = None" by auto
qed

lemma task0_simps [simp]:
  "ut_kind (uring_task0 k) = k" "ut_done (uring_task0 k) = False" "ut_detached (uring_task0 k) = False"
  "ut_sock (uring_task0 k) = None" "ut_newsock (uring_task0 k) = None" "res_ptr (ut_res (uring_task0 k)) = None"
  "ut_res (uring_task0 k) = result0"
  by (simp_all add: uring_task0_def result0_def)

text \<open>A new task, some private fields, one request: the pattern of the plain operations.\<close>

lemma uinv_plain_op:
  assumes i: "uinv {} u" and n: "uring_task_new os u k = (np, u1)" and k: "plain_kind k"
    and op0: "np = None \<Longrightarrow> p = None \<and> u' = u1"
    and op: "\<And>t. np = Some t \<Longrightarrow> uring_submit_sqe os (upd_ut t f u1) t q = (p, u')"
    and f: "\<And>x. same_task x (f x)"
  shows "uinv {} u'" and "ukeeps S u u'"
    and "p = Some t \<Longrightarrow> u_th u t = None \<and> (\<exists>x. u_th u' t = Some x \<and> \<not> ut_detached x \<and> res_ptr (ut_res x) = None)"
proof -
  have "uinv {} u' \<and> ukeeps S u u' \<and>
    (p = Some t \<longrightarrow> u_th u t = None \<and> (\<exists>x. u_th u' t = Some x \<and> \<not> ut_detached x \<and> res_ptr (ut_res x) = None))" for t
  proof (cases np)
    case None
    with uinv_task_new(1) [OF i n] op0 show ?thesis by (auto intro: only_trace_keeps)
  next
    case (Some t')
    note tn = uinv_task_new(2) [OF i n Some]
    have i1: "uinv {t'} u1" and x1: "u_th u1 t' = Some (uring_task0 k)" using tn by auto
    note sm = uinv_same [where f = f, OF i1 x1 f]
    have x2: "u_th (upd_ut t' f u1) t' = Some (f (uring_task0 k))" using x1 by (simp add: upd_ut_def)
    have ff: "plain_kind (ut_kind (f (uring_task0 k)))" "res_ptr (ut_res (f (uring_task0 k))) = None"
      "\<not> ut_detached (f (uring_task0 k))" "ut_sock (f (uring_task0 k)) = None" "ut_newsock (f (uring_task0 k)) = None"
      using f [of "uring_task0 k"] k by (auto simp: same_task_def result0_def)
    note sq = op [OF Some]
    note su = uinv_submit_sqe [OF sm(1) x2 ff sq]
    show ?thesis using su(1,3,4) su(2) [of S] sm(2) [of S] tn by (auto intro: ukeeps_trans)
  qed
  then show "uinv {} u'" "ukeeps S u u'"
    "p = Some t \<Longrightarrow> u_th u t = None \<and> (\<exists>x. u_th u' t = Some x \<and> \<not> ut_detached x \<and> res_ptr (ut_res x) = None)" by auto
qed

lemma upd_ut_id: "u_th u t = Some x \<Longrightarrow> upd_ut t (\<lambda>x. x) u = u"
  by (simp add: upd_ut_def fun_upd_idem)

lemma task_new_live: "uring_task_new os u k = (Some t, u') \<Longrightarrow> u_th u' t = Some (uring_task0 k)"
  by (auto simp: uring_task_new_def uring_task_link_def Let_def split: option.splits prod.splits)

lemma uinv_close:
  assumes "uinv {} u" and "uring_close os u fd = (p, u')"
  shows "uinv {} u'"
proof -
  obtain np u1 where n: "uring_task_new os u TASK_CLOSE = (np, u1)" by fastforce
  show ?thesis
    by (rule uinv_plain_op(1) [OF assms(1) n, where f = "\<lambda>x. x" and p = p])
      (use assms(2) n in \<open>auto simp: uring_close_def same_task_def upd_ut_id [OF task_new_live]\<close>)
qed

lemma uinv_read:
  assumes "uinv {} u" and "uring_read os u fd b l off = (p, u')"
  shows "uinv {} u'"
proof -
  obtain np u1 where n: "uring_task_new os u TASK_READ = (np, u1)" by fastforce
  show ?thesis
    by (rule uinv_plain_op(1) [OF assms(1) n, where f = "\<lambda>x. x" and p = p])
      (use assms(2) n in \<open>auto simp: uring_read_def same_task_def upd_ut_id [OF task_new_live]\<close>)
qed

lemma uinv_write:
  assumes "uinv {} u" and "uring_write os u fd bs off = (p, u')"
  shows "uinv {} u'"
proof -
  obtain np u1 where n: "uring_task_new os u TASK_WRITE = (np, u1)" by fastforce
  show ?thesis
    by (rule uinv_plain_op(1) [OF assms(1) n, where f = "\<lambda>x. x" and p = p])
      (use assms(2) n in \<open>auto simp: uring_write_def same_task_def upd_ut_id [OF task_new_live]\<close>)
qed

lemma uinv_sleep:
  assumes "uinv {} u" and "uring_sleep os u ms = (p, u')"
  shows "uinv {} u'" and "ukeeps S u u'"
    and "p = Some t \<Longrightarrow> u_th u t = None \<and> (\<exists>x. u_th u' t = Some x \<and> \<not> ut_detached x \<and> res_ptr (ut_res x) = None)"
proof -
  obtain np u1 where n: "uring_task_new os u TASK_SLEEP = (np, u1)" by fastforce
  let ?ts = "(int (ms div 1000), int (ms mod 1000) * 1000000)"
  have e: "np = None \<Longrightarrow> p = None \<and> u' = u1"
    "\<And>t. np = Some t \<Longrightarrow> uring_submit_sqe os (upd_ut t (\<lambda>x. x\<lparr>ut_ts := ?ts\<rparr>) u1) t (Sqe_timeout (fst ?ts) (snd ?ts)) = (p, u')"
    using assms(2) n by (simp_all add: uring_sleep_def Let_def)
  have pk: "plain_kind TASK_SLEEP" and f: "\<And>x. same_task x (x\<lparr>ut_ts := ?ts\<rparr>)" by (simp_all add: same_task_def)
  note op = uinv_plain_op [where f = "\<lambda>x. x\<lparr>ut_ts := ?ts\<rparr>", OF assms(1) n pk e f]
  show "uinv {} u'" "ukeeps S u u'"
    "p = Some t \<Longrightarrow> u_th u t = None \<and> (\<exists>x. u_th u' t = Some x \<and> \<not> ut_detached x \<and> res_ptr (ut_res x) = None)"
    by (rule op; assumption?)+
qed

lemma uinv_open:
  assumes "uinv {} u" and "uring_open os u path fl md = (p, u')"
  shows "uinv {} u'"
proof -
  obtain np u1 where n: "uring_task_new os u TASK_OPEN = (np, u1)" by fastforce
  show ?thesis
  proof (cases np)
    case None
    with uinv_task_new(1) [OF assms(1) n] assms(2) n show ?thesis by (simp add: uring_open_def)
  next
    case (Some t)
    note tn = uinv_task_new(2) [OF assms(1) n Some]
    obtain a u2 where a: "sys_call os (C_strdup path) u1 = (a, u2)" by fastforce
    have o: "only_trace u1 u2" by (rule only_trace_call [OF _ a]) simp
    have i2: "uinv {t} u2" and x2: "u_th u2 t = Some (uring_task0 TASK_OPEN)"
      using tn only_trace_uinv [OF o] only_trace_same(1) [OF o] by simp_all
    show ?thesis
    proof (cases "a_ret a = 0")
      case True
      with assms(2) n Some a have "uring_task_fail u2 t ENOMEM = (p, u')" by (simp add: uring_open_def)
      from uinv_fail_new(1) [OF i2 x2 _ _ _ this] show ?thesis by simp
    next
      case False
      let ?f = "\<lambda>x. x\<lparr>ut_path := Some path\<rparr>"
      have i3: "uinv {t} (upd_ut t ?f u2)" by (rule uinv_same [OF i2 x2]) (simp add: same_task_def)
      have x3: "u_th (upd_ut t ?f u2) t = Some (?f (uring_task0 TASK_OPEN))" using x2 by (simp add: upd_ut_def)
      from False assms(2) n Some a have "uring_submit_sqe os (upd_ut t ?f u2) t (Sqe_openat path fl md) = (p, u')"
        by (simp add: uring_open_def)
      from uinv_submit_sqe(1) [OF i3 x3 _ _ _ _ _ this] show ?thesis by (simp add: result0_def)
    qed
  qed
qed

lemma uinv_spawn:
  assumes "uinv {} u" and "uring_spawn os u fn arg = (p, u')"
  shows "uinv {} u'"
proof -
  obtain np u1 where n: "uring_task_new os u TASK_SPAWN = (np, u1)" by fastforce
  show ?thesis
  proof (cases np)
    case None
    with uinv_task_new(1) [OF assms(1) n] assms(2) n show ?thesis by (simp add: uring_spawn_def)
  next
    case (Some t)
    note tn = uinv_task_new(2) [OF assms(1) n Some]
    obtain a u2 where a: "sys_call os (C_fn fn arg) u1 = (a, u2)" by fastforce
    have o: "only_trace u1 u2" by (rule only_trace_call [OF _ a]) simp
    have i2: "uinv {t} u2" and x2: "u_th u2 t = Some (uring_task0 TASK_SPAWN)"
      using tn only_trace_uinv [OF o] only_trace_same(1) [OF o] by simp_all
    let ?r = "if a_ret a \<ge> 0 then result0\<lparr>res_status := MYIO_OK, res_value := a_ret a\<rparr>
      else result0\<lparr>res_status := MYIO_ERROR, res_error := c_int (- a_ret a)\<rparr>"
    have cl: "clean (u_th u2) (u_sh u2) t" by (rule clean_new [OF uinv_core [OF i2] x2]) simp_all
    note cs = core_settle(1) [OF uinv_core [OF i2] x2 singletonI cl, of ?r]
    have u': "u' = u2\<lparr>u_th := (u_th u2)(t \<mapsto> (uring_task0 TASK_SPAWN)\<lparr>ut_res := ?r, ut_done := True\<rparr>)\<rparr>"
      using assms(2) n Some a x2 by (auto simp: uring_spawn_def upd_ut_def Let_def)
    show ?thesis using cs i2 x2 by (simp add: u' uinv_def insert_absorb domI)
  qed
qed

end
