(* ===== verification/Myio_Uring_Ops.thy ===== *)
theory Myio_Uring_Ops
  imports Myio_Uring_Inv
begin

text \<open>
  The socket operations, cancellation and the lifetime operations of the io_uring
  backend keep its invariant; the backend satisfies the contract of the interface.
\<close>

text \<open>The sockets a caller may use: live, and not about to be closed or not yet won.\<close>

definition uring_usable :: "uring_io \<Rightarrow> addr set" where
  "uring_usable u = {s. u_sh u s \<noteq> None \<and> (\<forall>t x. u_th u t = Some x \<longrightarrow> xref x \<noteq> Some s)}"

lemma xref_task0 [simp]: "xref (uring_task0 k) = None"
  by (simp add: xref_def)

lemma uinv_call: "uinv T u \<Longrightarrow> off_ring c \<Longrightarrow> sys_call os c u = (a, u') \<Longrightarrow> uinv T u'"
  using only_trace_uinv [OF only_trace_call] by blast

subsection \<open>Connect, listen, accept\<close>

lemma uinv_set_xref:
  assumes "uinv T u" and "u_th u t = Some x" and "\<not> ut_done x" and "loose (u_th u) (u_sh u) s" and "res_ptr (ut_res x) = None"
    and "f x = (if ut_kind x = TASK_ACCEPT then x\<lparr>ut_newsock := Some s\<rparr> else x\<lparr>ut_sock := Some s\<rparr>)"
    and "ut_kind x = TASK_CONNECT \<or> ut_kind x = TASK_SOCK_CLOSE \<or> ut_kind x = TASK_ACCEPT"
    and "ut_kind x \<noteq> TASK_SOCK_CLOSE \<Longrightarrow> \<forall>q z. u_th u q = Some z \<longrightarrow> own z \<noteq> Some s"
  shows "uinv T (upd_ut t f u)" and "u_th (upd_ut t f u) = (u_th u)(t \<mapsto> f x)" and "xref (f x) = Some s"
    and "u_sh (upd_ut t f u) = u_sh u"
  using assms(1,2) core_set_xref [OF uinv_core [OF assms(1)] assms(2-8)]
  by (simp_all add: upd_ut_def uinv_def insert_absorb domI)

lemma uinv_connect_go:
  assumes i: "uinv {t} u" and x: "u_th u t = Some x" "ut_kind x = TASK_CONNECT" "\<not> ut_done x" "\<not> ut_detached x"
      "res_ptr (ut_res x) = None" "ut_sock x = None" "ut_newsock x = None"
    and n: "uring_sock_new os u fd = (Some s, u1)"
    and e: "(p, u') = (let u = upd_ut t (\<lambda>x. x\<lparr>ut_sock := Some s\<rparr>) u1; (ok, u) = sqe_get os u
      in if \<not> ok then
           let u = uring_sock_close_now os u s; u = upd_ut t (\<lambda>x. x\<lparr>ut_sock := None\<rparr>) u in uring_task_fail u t EAGAIN
         else (Some t, sqe_flush os u q (Ud_task t)))"
  shows "uinv {} u'"
proof -
  note sn = uinv_sock_new(2) [OF i n refl]
  have x1: "u_th u1 t = Some x" and i1: "uinv {t} u1" and l: "loose (u_th u1) (u_sh u1) s"
    and nown: "\<forall>q z. u_th u1 q = Some z \<longrightarrow> own z \<noteq> Some s" using sn x by auto
  let ?f = "\<lambda>x. x\<lparr>ut_sock := Some s\<rparr>"
  define u2 where "u2 = upd_ut t ?f u1"
  have f: "?f x = (if ut_kind x = TASK_ACCEPT then x\<lparr>ut_newsock := Some s\<rparr> else ?f x)" using x by simp
  have k: "ut_kind x = TASK_CONNECT \<or> ut_kind x = TASK_SOCK_CLOSE \<or> ut_kind x = TASK_ACCEPT" using x by simp
  note sx = uinv_set_xref [where f = ?f, OF i1 x1 x(3) l x(5) f k nown, folded u2_def]
  obtain ok u3 where g: "sqe_get os u2 = (ok, u3)" by fastforce
  note o = sqe_get_trace [OF g]
  have i3: "uinv {t} u3" and x3: "u_th u3 t = Some (?f x)"
    using only_trace_uinv [OF o] only_trace_same(1) [OF o] sx by simp_all
  show ?thesis
  proof (cases ok)
    case True
    have "uinv ({t} - {t}) (sqe_flush os u3 q (Ud_task t))"
      by (rule uinv_flush [OF i3 x3]) (use x sx(3) in \<open>auto simp: parked_def\<close>)
    with True e g show ?thesis by (simp add: u2_def Let_def)
  next
    case False
    define u4 where "u4 = upd_ut t (\<lambda>x. x\<lparr>ut_sock := None\<rparr>) (uring_sock_close_now os u3 s)"
    note d = uinv_drop_connect [OF i3 x3 singletonI _ _ u4_def]
    have i4: "uinv {t} u4" and x4: "u_th u4 t = Some ((?f x)\<lparr>ut_sock := None\<rparr>)" using d x by auto
    from False e g have "uring_task_fail u4 t EAGAIN = (p, u')" by (simp add: u2_def u4_def Let_def)
    from uinv_fail_new(1) [OF i4 x4 _ _ _ this] x show ?thesis by simp
  qed
qed

lemma uinv_connect:
  assumes g: "gai_ok os" and i: "uinv {} u" and e: "uring_tcp_connect os u host port = (p, u')"
  shows "uinv {} u'"
proof -
  obtain np u1 where n: "uring_task_new os u TASK_CONNECT = (np, u1)" by fastforce
  show ?thesis
  proof (cases np)
    case None
    with uinv_task_new(1) [OF i n] e n show ?thesis by (simp add: uring_tcp_connect_def)
  next
    case (Some t)
    note tn = uinv_task_new(2) [OF i n Some]
    let ?x = "uring_task0 TASK_CONNECT"
    let ?ga = "C_getaddrinfo host (snprintf_d 16 port) False"
    obtain a u2 where a: "sys_call os ?ga u1 = (a, u2)" by fastforce
    have o: "only_trace u1 u2" by (rule only_trace_call [OF _ a]) simp
    have i2: "uinv {t} u2" and x2: "u_th u2 t = Some ?x"
      using tn only_trace_uinv [OF o] only_trace_same(1) [OF o] by simp_all
    have aa: "a = os (m_trace u1) ?ga" using a by (simp add: sys_call_def Let_def)
    show ?thesis
    proof (cases "a_ret a = 0")
      case False
      with e n Some a have "uring_task_fail u2 t (gai_errno (a_ret a) (a_errno a)) = (p, u')"
        by (simp add: uring_tcp_connect_def)
      from uinv_fail_new(1) [OF i2 x2 _ _ _ this] show ?thesis by simp
    next
      case True
      with g aa obtain ai ais where ai: "a_addrs a = ai # ais" by (cases "a_addrs a") (auto simp: gai_ok_def)
      let ?f = "\<lambda>x. x\<lparr>ut_addr := ai_addr ai\<rparr>"
      define u3 where "u3 = upd_ut t ?f u2"
      have i3: "uinv {t} u3" unfolding u3_def by (rule uinv_same [OF i2 x2]) (simp add: same_task_def)
      have x3: "u_th u3 t = Some (?f ?x)" using x2 by (simp add: u3_def upd_ut_def)
      obtain f u4 where f: "sys_call os (C_socket (ai_family ai) SOCK_STREAM 0) u3 = (f, u4)" by fastforce
      have o4: "only_trace u3 u4" by (rule only_trace_call [OF _ f]) simp
      have i4: "uinv {t} u4" and x4: "u_th u4 t = Some (?f ?x)"
        using i3 x3 only_trace_uinv [OF o4] only_trace_same(1) [OF o4] by simp_all
      show ?thesis
      proof (cases "a_ret f < 0")
        case neg: True
        with e n Some a True ai f have "uring_task_fail u4 t (a_errno f) = (p, u')"
          by (simp add: uring_tcp_connect_def u3_def [symmetric])
        from uinv_fail_new(1) [OF i4 x4 _ _ _ this] show ?thesis by simp
      next
        case pos: False
        obtain sp u5 where sn: "uring_sock_new os u4 (a_ret f) = (sp, u5)" by fastforce
        show ?thesis
        proof (cases sp)
          case sp: None
          note s5 = uinv_sock_new(1) [OF i4 sn sp]
          obtain b u6 where c: "sys_call os (C_close (a_ret f)) u5 = (b, u6)" by fastforce
          have o6: "only_trace u4 u6" using s5 only_trace_call [OF _ c] by (auto intro: only_trace_trans)
          have i6: "uinv {t} u6" and x6: "u_th u6 t = Some (?f ?x)"
            using i4 x4 only_trace_uinv [OF o6] only_trace_same(1) [OF o6] by simp_all
          from e n Some a True ai f pos sn sp c have "uring_task_fail u6 t ENOMEM = (p, u')"
            by (simp add: uring_tcp_connect_def u3_def [symmetric])
          from uinv_fail_new(1) [OF i6 x6 _ _ _ this] show ?thesis by simp
        next
          case sp: (Some s)
          show ?thesis
            by (rule uinv_connect_go [OF i4 x4 _ _ _ _ _ _ sn [unfolded sp],
                  where p = p and q = "Sqe_connect (a_ret f) (ai_addr ai)"])
              (use e n Some a True ai f pos sn sp in \<open>simp_all add: result0_def uring_tcp_connect_def u3_def [symmetric]\<close>)
        qed
      qed
    qed
  qed
qed

lemma uinv_listen:
  assumes i: "uinv {} u" and e: "uring_tcp_listen os u host port backlog = (p, err, u')"
  shows "uinv {} u'"
proof -
  obtain a4 u1 where c1: "sys_call os (C_inet_pton AF_INET host) u = (a4, u1)" by fastforce
  have i1: "uinv {} u1" by (rule uinv_call [OF i _ c1]) simp
  obtain a6 u2 where c2: "(if a_ret a4 = 1 then (a4, u1) else sys_call os (C_inet_pton AF_INET6 host) u1) = (a6, u2)" by fastforce
  have i2: "uinv {} u2" using c2 i1 uinv_call [OF i1, of "C_inet_pton AF_INET6 host" os a6 u2] by (auto split: if_splits)
  show ?thesis
  proof (cases "a_ret a4 \<noteq> 1 \<and> a_ret a6 \<noteq> 1")
    case True
    with e c1 c2 i2 show ?thesis by (simp add: uring_tcp_listen_def)
  next
    case False
    define fam where "fam = (if a_ret a4 = 1 then AF_INET else AF_INET6)"
    define ss where "ss = \<lparr>ss_family = fam, ss_port = htons (word_of_int port), ss_addr = host\<rparr>"
    obtain f u3 where c3: "sys_call os (C_socket fam SOCK_STREAM 0) u2 = (f, u3)" by fastforce
    have i3: "uinv {} u3" by (rule uinv_call [OF i2 _ c3]) simp
    obtain o' u4 where c4: "sys_call os (C_setsockopt (a_ret f)) u3 = (o', u4)" by fastforce
    have i4: "uinv {} u4" by (rule uinv_call [OF i3 _ c4]) simp
    obtain b u5 where c5: "sys_call os (C_bind (a_ret f) ss) u4 = (b, u5)" by fastforce
    have i5: "uinv {} u5" by (rule uinv_call [OF i4 _ c5]) simp
    obtain l u6 where c6: "sys_call os (C_listen (a_ret f) backlog) u5 = (l, u6)" by fastforce
    have i6: "uinv {} u6" by (rule uinv_call [OF i5 _ c6]) simp
    obtain sp u7 where n: "uring_sock_new os u6 (a_ret f) = (sp, u7)" by fastforce
    have i7: "uinv {} u7" using uinv_sock_new [OF i6 n] by (cases sp) auto
    have cl: "uinv {} v \<Longrightarrow> uinv {} (snd (sys_call os (C_close (a_ret f)) v))" for v
      by (rule uinv_call [OF _ _ surjective_pairing]) simp_all
    show ?thesis
      using e c1 c2 c3 c4 c5 c6 n i3 i7 cl [OF i5] cl [OF i6] cl [OF i7] False
      by (cases "a_ret a4 = 1")
        (auto simp: uring_tcp_listen_def fam_def ss_def Let_def split: if_splits option.splits prod.splits)
  qed
qed

lemma uinv_accept:
  assumes i: "uinv {} u" and ls: "ls \<in> uring_usable u" and e: "uring_tcp_accept os u ls = (p, u')"
  shows "uinv {} u'"
proof -
  obtain np u1 where n: "uring_task_new os u TASK_ACCEPT = (np, u1)" by fastforce
  show ?thesis
  proof (cases np)
    case None
    with uinv_task_new(1) [OF i n] e n show ?thesis by (simp add: uring_tcp_accept_def)
  next
    case (Some t)
    note tn = uinv_task_new(2) [OF i n Some]
    let ?x = "uring_task0 TASK_ACCEPT"
    obtain y where y: "u_sh u ls = Some y" and nox: "\<And>q z. u_th u q = Some z \<Longrightarrow> xref z \<noteq> Some ls"
      using ls by (auto simp: uring_usable_def)
    have i1: "uinv {t} u1" and x1: "u_th u1 t = Some ?x" and y1: "u_sh u1 ls = Some y"
      and nox1: "\<And>q z. u_th u1 q = Some z \<Longrightarrow> xref z \<noteq> Some ls"
      using tn y nox by (auto split: if_splits)
    have chk: "chk_us ls u1 = u1" "us u1 ls = y" using y1 by (simp_all add: chk_us_def us_def)
    show ?thesis
    proof (cases "us_accept_task y")
      case (Some w)
      with e n \<open>np = Some t\<close> chk have "uring_task_fail u1 t EBUSY = (p, u')" by (simp add: uring_tcp_accept_def)
      from uinv_fail_new(1) [OF i1 x1 _ _ _ this] show ?thesis by simp
    next
      case None
      obtain sp u2 where sn: "uring_sock_new os u1 (- 1) = (sp, u2)" by fastforce
      show ?thesis
      proof (cases sp)
        case sp: None
        note s2 = uinv_sock_new(1) [OF i1 sn sp]
        have x2: "u_th u2 t = Some ?x" using s2 x1 only_trace_same(1) [of u1 u2] by auto
        from e n Some chk None sn sp have "uring_task_fail u2 t ENOMEM = (p, u')" by (simp add: uring_tcp_accept_def)
        from uinv_fail_new(1) [OF conjunct1 [OF s2] x2 _ _ _ this] show ?thesis by simp
      next
        case sp: (Some m)
        note s2 = uinv_sock_new(2) [OF i1 sn sp]
        let ?f = "\<lambda>x. x\<lparr>ut_newsock := Some m\<rparr>"
        have i2: "uinv {t} u2" and x2: "u_th u2 t = Some ?x" and l: "loose (u_th u2) (u_sh u2) m"
          and nown: "\<forall>q z. u_th u2 q = Some z \<longrightarrow> own z \<noteq> Some m" and ml: "m \<noteq> ls" "u_sh u2 ls = Some y"
          using s2 x1 y1 by auto
        define u3 where "u3 = upd_ut t ?f u2"
        have sx: "uinv {t} u3" "u_th u3 = (u_th u2)(t \<mapsto> ?f ?x)" "xref (?f ?x) = Some m" "u_sh u3 = u_sh u2"
          unfolding u3_def by (rule uinv_set_xref [where f = ?f, OF i2 x2 _ l]; simp add: nown result0_def)+
        obtain ok u4 where g: "sqe_get os u3 = (ok, u4)" by fastforce
        note o = sqe_get_trace [OF g]
        have i4: "uinv {t} u4" and x4: "u_th u4 t = Some (?f ?x)" and y4: "u_sh u4 ls = Some y"
          using only_trace_uinv [OF o] only_trace_same(1,2) [OF o] sx ml by simp_all
        show ?thesis
        proof (cases ok)
          case True
          define u5 where "u5 = sqe_flush os u4 (Sqe_accept (us_fd y)) (Ud_task t)"
          have "uinv ({t} - {t}) u5" unfolding u5_def
            by (rule uinv_flush [OF i4 x4]) (use sx(3) in \<open>auto simp: parked_def result0_def\<close>)
          then have i5: "uinv {} u5" by simp
          have x5: "u_th u5 t = Some (?f ?x)" and y5: "u_sh u5 ls = Some y" using x4 y4 by (simp_all add: u5_def)
          have nox5: "xref z \<noteq> Some ls" if "u_th u5 q = Some z" for q z
            using that nox1 [of q z] s2 sx ml only_trace_same(1) [OF o] by (auto simp: u5_def split: if_splits)
          note cs = core_set_acc [OF uinv_core [OF i5] y5 None x5 _ _ _ nox5]
          have u': "u' = u5\<lparr>u_th := (u_th u5)(t \<mapsto> (?f ?x)\<lparr>ut_sock := Some ls\<rparr>),
              u_sh := (u_sh u5)(ls \<mapsto> y\<lparr>us_accept_task := Some t\<rparr>)\<rparr>"
          proof -
            have "us u4 ls = y" using y4 by (simp add: us_def)
            with e n Some chk None sn sp g True
            have "u' = upd_us ls (\<lambda>y. y\<lparr>us_accept_task := Some t\<rparr>) (upd_ut t (\<lambda>x. x\<lparr>ut_sock := Some ls\<rparr>) u5)"
              by (auto simp: uring_tcp_accept_def u3_def [symmetric] u5_def Let_def)
            with x5 y5 show ?thesis by (simp add: upd_ut_def upd_us_def)
          qed
          show ?thesis using cs i5 x5 y5 by (simp add: u' uinv_def insert_absorb domI)
        next
          case False
          define u5 where "u5 = upd_ut t (\<lambda>x. x\<lparr>ut_newsock := None\<rparr>) (uring_sock_close_now os u4 m)"
          note d = uinv_drop_accept [OF i4 x4 singletonI _ _ u5_def]
          have i5: "uinv {t} u5" and x5: "u_th u5 t = Some ((?f ?x)\<lparr>ut_newsock := None\<rparr>)" using d by auto
          from e n Some chk None sn sp g False have "uring_task_fail u5 t EAGAIN = (p, u')"
            by (simp add: uring_tcp_accept_def u3_def [symmetric] u5_def Let_def)
          from uinv_fail_new(1) [OF i5 x5 _ _ _ this] show ?thesis by simp
        qed
      qed
    qed
  qed
qed

subsection \<open>Read, write, close\<close>

lemma uinv_sock_read:
  assumes i: "uinv {} u" and s: "s \<in> uring_usable u" and e: "uring_sock_read os u s buf len = (p, u')"
  shows "uinv {} u'"
proof -
  obtain np u1 where n: "uring_task_new os u TASK_SOCK_READ = (np, u1)" by fastforce
  show ?thesis
  proof (cases np)
    case None
    with uinv_task_new(1) [OF i n] e n show ?thesis by (simp add: uring_sock_read_def)
  next
    case (Some t)
    note tn = uinv_task_new(2) [OF i n Some]
    let ?x = "uring_task0 TASK_SOCK_READ"
    obtain y where y: "u_sh u s = Some y" and nox: "\<And>q z. u_th u q = Some z \<Longrightarrow> xref z \<noteq> Some s"
      using s by (auto simp: uring_usable_def)
    have i1: "uinv {t} u1" and x1: "u_th u1 t = Some ?x" and y1: "u_sh u1 s = Some y"
      and nox1: "\<And>q z. u_th u1 q = Some z \<Longrightarrow> xref z \<noteq> Some s"
      using tn y nox by (auto split: if_splits)
    have chk: "chk_us s u1 = u1" "us u1 s = y" using y1 by (simp_all add: chk_us_def us_def)
    show ?thesis
    proof (cases "us_read_task y")
      case (Some w)
      with e n \<open>np = Some t\<close> chk have "uring_task_fail u1 t EBUSY = (p, u')" by (simp add: uring_sock_read_def)
      from uinv_fail_new(1) [OF i1 x1 _ _ _ this] show ?thesis by simp
    next
      case None
      obtain ok u2 where g: "sqe_get os u1 = (ok, u2)" by fastforce
      note o = sqe_get_trace [OF g]
      have i2: "uinv {t} u2" and x2: "u_th u2 t = Some ?x" and y2: "u_sh u2 s = Some y"
        using only_trace_uinv [OF o] only_trace_same(1,2) [OF o] i1 x1 y1 by simp_all
      show ?thesis
      proof (cases ok)
        case True
        define u3 where "u3 = sqe_flush os u2 (Sqe_recv (us_fd y) buf len) (Ud_task t)"
        have "uinv ({t} - {t}) u3" unfolding u3_def
          by (rule uinv_flush [OF i2 x2]) (auto simp: parked_def result0_def)
        then have i3: "uinv {} u3" by simp
        have x3: "u_th u3 t = Some ?x" and y3: "u_sh u3 s = Some y" using x2 y2 by (simp_all add: u3_def)
        have nox3: "xref z \<noteq> Some s" if "u_th u3 q = Some z" for q z
          using that nox1 [of q z] only_trace_same(1) [OF o] by (auto simp: u3_def)
        note cs = core_set_read [OF uinv_core [OF i3] y3 None x3 _ _ _ nox3]
        have u': "u' = u3\<lparr>u_th := (u_th u3)(t \<mapsto> ?x\<lparr>ut_sock := Some s\<rparr>), u_sh := (u_sh u3)(s \<mapsto> y\<lparr>us_read_task := Some t\<rparr>)\<rparr>"
        proof -
          have "us u2 s = y" using y2 by (simp add: us_def)
          with e n Some chk None g True
          have "u' = upd_us s (\<lambda>y. y\<lparr>us_read_task := Some t\<rparr>) (upd_ut t (\<lambda>x. x\<lparr>ut_sock := Some s\<rparr>) u3)"
            by (auto simp: uring_sock_read_def u3_def Let_def)
          with x3 y3 show ?thesis by (simp add: upd_ut_def upd_us_def)
        qed
        show ?thesis using cs i3 x3 y3 by (simp add: u' uinv_def insert_absorb domI)
      next
        case False
        with e n Some chk None g have "uring_task_fail u2 t EAGAIN = (p, u')" by (simp add: uring_sock_read_def)
        from uinv_fail_new(1) [OF i2 x2 _ _ _ this] show ?thesis by simp
      qed
    qed
  qed
qed

lemma uinv_sock_write:
  assumes i: "uinv {} u" and s: "s \<in> uring_usable u" and e: "uring_sock_write os u s buf = (p, u')"
  shows "uinv {} u'"
proof -
  obtain np u1 where n: "uring_task_new os u TASK_SOCK_WRITE = (np, u1)" by fastforce
  show ?thesis
  proof (cases np)
    case None
    with uinv_task_new(1) [OF i n] e n show ?thesis by (simp add: uring_sock_write_def)
  next
    case (Some t)
    note tn = uinv_task_new(2) [OF i n Some]
    obtain y where y: "u_sh u s = Some y" and nox: "\<And>q z. u_th u q = Some z \<Longrightarrow> xref z \<noteq> Some s"
      using s by (auto simp: uring_usable_def)
    have i1: "uinv {t} u1" and x1: "u_th u1 t = Some (uring_task0 TASK_SOCK_WRITE)" and y1: "u_sh u1 s = Some y"
      and nox1: "\<And>q z. u_th u1 q = Some z \<Longrightarrow> xref z \<noteq> Some s"
      using tn y nox by (auto split: if_splits)
    define x where "x = (uring_task0 TASK_SOCK_WRITE)\<lparr>ut_wfd := us_fd y, ut_wbuf := buf\<rparr>"
    have xf: "ut_kind x = TASK_SOCK_WRITE" "ut_sock x = None" "ut_newsock x = None" "\<not> ut_detached x" "xref x = None"
      by (simp_all add: x_def xref_def)
    define v where "v = u1\<lparr>u_th := (u_th u1)(t \<mapsto> x)\<rparr>"
    have iv: "uinv {t} v"
      using core_same(1) [OF uinv_core [OF i1] x1, of x] i1 x1 by (simp add: v_def uinv_def same_task_def x_def insert_absorb domI)
    have xv: "u_th v t = Some x" and yv: "u_sh v s = Some y" and noxv: "\<And>q z. u_th v q = Some z \<Longrightarrow> xref z \<noteq> Some s"
      using y1 nox1 xf by (auto simp: v_def split: if_splits)
    obtain h nx q where pu: "myio_wq_push (u_wnext v) (us_wq y) t = (h, nx, q)" by (cases "myio_wq_push (u_wnext v) (us_wq y) t") auto
    let ?x = "x\<lparr>ut_sock := Some s\<rparr>"
    have cp: "ucore (if h then {t} else {t} - {t}) (m_brk v) ((u_th v)(t \<mapsto> ?x)) ((u_sh v)(s \<mapsto> y\<lparr>us_wq := q\<rparr>)) nx
        (ring_out (m_trace v))" "h \<longleftrightarrow> wq_head (us_wq y) = None" "h \<Longrightarrow> wq_head q = Some t"
      by (rule core_push [OF uinv_core [OF iv] xv singletonI xf(1,2) yv _ pu]; (rule noxv | assumption)?; assumption?)+
    define u2 where "u2 = v\<lparr>u_th := (u_th v)(t \<mapsto> ?x), u_wnext := nx, u_sh := (u_sh v)(s \<mapsto> y\<lparr>us_wq := q\<rparr>)\<rparr>"
    have i2: "uinv (if h then {t} else {}) u2" using cp(1) iv xv yv by (simp add: u2_def uinv_def insert_absorb domI split: if_splits)
    have x2: "u_th u2 t = Some ?x" and y2: "u_sh u2 s = Some (y\<lparr>us_wq := q\<rparr>)" by (simp_all add: u2_def)
    have e1: "uring_wq_push (upd_ut t (\<lambda>x. x\<lparr>ut_wfd := us_fd y, ut_wbuf := buf, ut_sock := Some s\<rparr>) u1) s t = (h, u2)"
      using x1 y1 pu by (simp add: uring_wq_push_def upd_ut_def upd_us_def us_def u2_def v_def x_def)
    have chk: "chk_us s u1 = u1" "us u1 s = y" using y1 by (simp_all add: chk_us_def us_def)
    show ?thesis
    proof (cases h)
      case False
      with e n Some chk e1 i2 show ?thesis by (simp add: uring_sock_write_def Let_def)
    next
      case True
      obtain ok u3 where arm: "uring_write_arm os u2 t = (ok, u3)" by fastforce
      have i2': "uinv {t} u2" using i2 True by simp
      have np: "\<not> parked (u_sh u2) t ?x" using cp(3) True y2 by (simp add: parked_def)
      note ar = uinv_write_arm [OF i2' x2 singletonI np _ arm]
      show ?thesis
      proof (cases ok)
        case True
        with ar(1) xf e n Some chk e1 \<open>h\<close> arm show ?thesis by (simp add: uring_sock_write_def Let_def)
      next
        case False
        have i3: "uinv {t} u3" and x3: "u_th u3 t = Some ?x" and y3: "u_sh u3 s = Some (y\<lparr>us_wq := q\<rparr>)"
          using ar False xf x2 y2 by auto
        obtain ws where ws: "wq_list (u_wnext u3) q ws" "set ws = wmembers (u_th u3) s"
          using wq_inv_list [OF ucore_parts(5) [OF uinv_core [OF i3]] y3] by auto
        obtain xs where xs: "wq_list (u_wnext u3) (us_wq (y\<lparr>us_wq := q\<rparr>)) (t # xs)"
          using ws(1) wq_list_head [OF ws(1)] cp(3) \<open>h\<close> by (cases ws) auto
        have "xs = []"
        proof -
          have "wq_list (u_wnext v) (us_wq y) []"
            using wq_inv_list [OF ucore_parts(5) [OF uinv_core [OF iv]] yv] cp(2) \<open>h\<close> wq_list_head_None by blast
          from wq_push_list(1) [OF this _ pu] have "wq_list nx q [t]" by simp
          moreover have "u_wnext u3 = nx" using ar xf by (simp add: u2_def)
          ultimately show ?thesis using wq_list_unique [OF xs, of "[t]"] by simp
        qed
        with uinv_pop [OF i3 y3 xs x3] obtain nx' q' u4 where po: "uring_wq_pop u3 s = (None, u4)"
          "severed t u4 = popped u3 s t nx' q'" and i5: "uinv {t} (popped u3 s t nx' q')" by fastforce
        have x5: "u_th (popped u3 s t nx' q') t = Some (?x\<lparr>ut_sock := None\<rparr>)" using x3 by (simp add: popped_def ut_def)
        have "uring_task_fail (popped u3 s t nx' q') t EAGAIN = (p, u')"
          using e n Some chk e1 \<open>h\<close> arm False po by (simp add: uring_sock_write_def Let_def severed_def)
        from uinv_fail_new(1) [OF i5 x5 _ _ _ this] xf show ?thesis by simp
      qed
    qed
  qed
qed

text \<open>Severing, completing and popping never create a claim on a socket.\<close>

definition xsub :: "uring_io \<Rightarrow> uring_io \<Rightarrow> bool" where
  "xsub u u' \<longleftrightarrow> (\<forall>q z s. u_th u' q = Some z \<longrightarrow> xref z = Some s \<longrightarrow> (\<exists>z'. u_th u q = Some z' \<and> xref z' = Some s))"

lemma xsub_same [simp]: "u_th u' = u_th u \<Longrightarrow> xsub u u'"
  by (auto simp: xsub_def)

lemma xsub_trans: "xsub u u1 \<Longrightarrow> xsub u1 u2 \<Longrightarrow> xsub u u2"
  unfolding xsub_def by blast

lemma xsub_upd:
  assumes "\<And>x s. xref (f x) = Some s \<Longrightarrow> xref x = Some s"
  shows "xsub u (upd_ut t f u)"
proof (cases "u_th u t")
  case (Some x)
  have "xref z = Some s \<Longrightarrow> \<exists>z'. u_th u q = Some z' \<and> xref z' = Some s" if "u_th (upd_ut t f u) q = Some z" for q z s
    using that Some assms [of x s] by (cases "q = t") (simp_all add: upd_ut_def)
  then show ?thesis unfolding xsub_def by blast
qed (simp add: upd_ut_def m_flag_def)

lemma xsub_sever: "xsub u (upd_ut t (\<lambda>x. x\<lparr>ut_sock := None\<rparr>) u)"
  by (rule xsub_upd) (auto simp: xref_def split: if_splits)

lemma xsub_free: "u_th u' = (u_th u)(t := None) \<Longrightarrow> xsub u u'"
  by (auto simp: xsub_def split: if_splits)

lemma xsub_complete: "xsub u (uring_task_complete os u t r)"
proof (cases "u_th u t")
  case (Some x)
  have "u_th (uring_task_reap os u t) = (u_th u)(t := None)"
    using Some by (cases "res_ptr (ut_res x)")
      (simp_all add: uring_task_reap_def live_simps free_ut_def uring_task_unlink_def close_now_u_th Let_def)
  then have "xsub u (uring_task_reap os u t)" by (rule xsub_free)
  moreover have "xref (x\<lparr>ut_res := r', ut_done := True\<rparr>) = xref x" for r' by (simp add: xref_def)
  then have "xsub u (u\<lparr>u_th := (u_th u)(t \<mapsto> x\<lparr>ut_res := r', ut_done := True\<rparr>)\<rparr>)" for r'
    using Some by (auto simp: xsub_def)
  ultimately show ?thesis by (simp add: complete_eq [OF Some])
next
  case None
  then show ?thesis
    by (auto simp: uring_task_complete_def uring_task_finish_def upd_ut_def ut_def m_flag_def uring_task0_def)
qed

lemma xsub_pop: "uring_wq_pop u s = (h, u') \<Longrightarrow> xsub u u'"
  by (auto simp: uring_wq_pop_def upd_us_def m_flag_def split: option.splits)

lemma xsub_cancel_queued: "xsub u (uring_cancel_queued os fuel u s)"
proof (induction os fuel u s rule: uring_cancel_queued.induct)
  case (1 os u s)
  then show ?case by (simp add: m_flag_def)
next
  case (2 os fuel u s)
  show ?case
  proof (cases "wq_head (us_wq (us u s))")
    case (Some q)
    obtain h u1 where po: "uring_wq_pop u s = (h, u1)" by fastforce
    let ?u2 = "upd_ut q (\<lambda>x. x\<lparr>ut_sock := None\<rparr>) u1"
    let ?u3 = "uring_task_complete os ?u2 q (- ECANCELED)"
    from 2 [OF Some po [symmetric]] have "xsub ?u3 (uring_cancel_queued os fuel ?u3 s)" by simp
    then have "xsub u (uring_cancel_queued os fuel ?u3 s)"
      using xsub_pop [OF po] xsub_sever xsub_complete by (blast intro: xsub_trans)
    with Some po show ?thesis by simp
  qed simp
qed

lemma uinv_close_read:
  assumes i: "uinv T u" and y: "u_sh u s = Some y" and u': "u' = uring_close_read os u s"
  shows "uinv T u'" and "u_sh u' s = Some (y\<lparr>us_read_task := None\<rparr>)" and "xsub u u'"
    and "\<And>q z. u_th u q = Some z \<Longrightarrow> ut_kind z \<noteq> TASK_SOCK_READ \<Longrightarrow> u_th u' q = Some z"
proof -
  have "uinv T u' \<and> u_sh u' s = Some (y\<lparr>us_read_task := None\<rparr>) \<and> xsub u u' \<and>
    (\<forall>q z. u_th u q = Some z \<longrightarrow> ut_kind z \<noteq> TASK_SOCK_READ \<longrightarrow> u_th u' q = Some z)"
  proof (cases "us_read_task y")
    case None
    then have "u' = u" "y\<lparr>us_read_task := None\<rparr> = y" using u' y by (simp_all add: uring_close_read_def us_def)
    with i y show ?thesis by simp
  next
    case (Some r)
    note c = uinv_core [OF i]
    from read_inv_task [OF ucore_parts(3) [OF c] y Some] obtain x
      where x: "u_th u r = Some x" "ut_kind x = TASK_SOCK_READ" by blast
    obtain ok u1 where cs: "uring_cancel_submit os u r = (ok, u1)" by fastforce
    note s1 = uinv_cancel_submit [OF i x(1) cs]
    have c1: "ucore T (m_brk u1) (u_th u1) (u_sh u1) (u_wnext u1) (ring_out (m_trace u1))" by (rule uinv_core [OF s1(1)])
    have x1: "u_th u1 r = Some x" and y1: "u_sh u1 s = Some y" using s1 x y by auto
    note sv = core_sever_read [OF c1 y1 Some x1]
    have e: "u' = u1\<lparr>u_th := (u_th u1)(r \<mapsto> x\<lparr>ut_sock := None\<rparr>), u_sh := (u_sh u1)(s \<mapsto> y\<lparr>us_read_task := None\<rparr>)\<rparr>"
      using u' y Some cs x1 y1 by (simp add: uring_close_read_def us_def upd_ut_def upd_us_def)
    have "uinv T u'" using sv s1(1) x1 y1 by (simp add: e uinv_def insert_absorb domI)
    moreover have "xsub u u'" using s1(2) x by (auto simp: e xsub_def xref_def split: if_splits)
    ultimately show ?thesis using s1 x by (auto simp: e)
  qed
  then show "uinv T u'" "u_sh u' s = Some (y\<lparr>us_read_task := None\<rparr>)" "xsub u u'"
    "\<And>q z. u_th u q = Some z \<Longrightarrow> ut_kind z \<noteq> TASK_SOCK_READ \<Longrightarrow> u_th u' q = Some z" by auto
qed

lemma uinv_close_accept:
  assumes i: "uinv T u" and y: "u_sh u s = Some y" and u': "u' = uring_close_accept os u s"
  shows "uinv T u'" and "u_sh u' s = Some (y\<lparr>us_accept_task := None\<rparr>)" and "xsub u u'"
    and "\<And>q z. u_th u q = Some z \<Longrightarrow> ut_kind z \<noteq> TASK_ACCEPT \<Longrightarrow> u_th u' q = Some z"
proof -
  have "uinv T u' \<and> u_sh u' s = Some (y\<lparr>us_accept_task := None\<rparr>) \<and> xsub u u' \<and>
    (\<forall>q z. u_th u q = Some z \<longrightarrow> ut_kind z \<noteq> TASK_ACCEPT \<longrightarrow> u_th u' q = Some z)"
  proof (cases "us_accept_task y")
    case None
    then have "u' = u" "y\<lparr>us_accept_task := None\<rparr> = y" using u' y by (simp_all add: uring_close_accept_def us_def)
    with i y show ?thesis by simp
  next
    case (Some r)
    note c = uinv_core [OF i]
    from acc_inv_task [OF ucore_parts(4) [OF c] y Some] obtain x
      where x: "u_th u r = Some x" "ut_kind x = TASK_ACCEPT" by blast
    obtain ok u1 where cs: "uring_cancel_submit os u r = (ok, u1)" by fastforce
    note s1 = uinv_cancel_submit [OF i x(1) cs]
    have c1: "ucore T (m_brk u1) (u_th u1) (u_sh u1) (u_wnext u1) (ring_out (m_trace u1))" by (rule uinv_core [OF s1(1)])
    have x1: "u_th u1 r = Some x" and y1: "u_sh u1 s = Some y" using s1 x y by auto
    note sv = core_sever_acc [OF c1 y1 Some x1]
    have e: "u' = u1\<lparr>u_th := (u_th u1)(r \<mapsto> x\<lparr>ut_sock := None\<rparr>), u_sh := (u_sh u1)(s \<mapsto> y\<lparr>us_accept_task := None\<rparr>)\<rparr>"
      using u' y Some cs x1 y1 by (simp add: uring_close_accept_def us_def upd_ut_def upd_us_def)
    have "uinv T u'" using sv s1(1) x1 y1 by (simp add: e uinv_def insert_absorb domI)
    moreover have "xsub u u'" using s1(2) x by (auto simp: e xsub_def xref_def split: if_splits)
    ultimately show ?thesis using s1 x by (auto simp: e)
  qed
  then show "uinv T u'" "u_sh u' s = Some (y\<lparr>us_accept_task := None\<rparr>)" "xsub u u'"
    "\<And>q z. u_th u q = Some z \<Longrightarrow> ut_kind z \<noteq> TASK_ACCEPT \<Longrightarrow> u_th u' q = Some z" by auto
qed

lemma uinv_close_writes:
  assumes i: "uinv {t} u" and y: "u_sh u s = Some y" and t: "u_th u t = Some x" "ut_kind x \<noteq> TASK_SOCK_WRITE"
    and u': "u' = uring_close_writes os u s"
  shows "uinv {t} u'" and "\<exists>w. u_sh u' s = Some (y\<lparr>us_wq := w\<rparr>) \<and> wq_head w = None" and "xsub u u'"
    and "u_th u' t = Some x"
proof -
  note c = uinv_core [OF i]
  obtain ws where ws: "wq_list (u_wnext u) (us_wq y) ws" using wq_inv_list [OF ucore_parts(5) [OF c] y] by blast
  have "uinv {t} u' \<and> (\<exists>w. u_sh u' s = Some (y\<lparr>us_wq := w\<rparr>) \<and> wq_head w = None) \<and> xsub u u' \<and> u_th u' t = Some x"
  proof (cases ws)
    case Nil
    then have h: "wq_head (us_wq y) = None" using wq_list_head [OF ws] by simp
    then have "u' = u" using u' y by (simp add: uring_close_writes_def us_def)
    with i y t h show ?thesis by (auto intro: exI [of _ "us_wq y"])
  next
    case (Cons w xs)
    have h: "wq_head (us_wq y) = Some w" using wq_list_head [OF ws] Cons by simp
    have ms: "set ws = wmembers (u_th u) s" by (rule queue_len(2) [OF i y ws])
    have tw: "t \<notin> set ws" unfolding ms using t by (simp add: wmembers_def)
    have "w \<in> wmembers (u_th u) s" unfolding ms [symmetric] using Cons by simp
    from wq_write [OF c this] obtain z where z: "u_th u w = Some z" by blast
    obtain ok u1 where cs: "uring_cancel_submit os u w = (ok, u1)" by fastforce
    note s1 = uinv_cancel_submit [OF i z cs]
    have z1: "u_th u1 w = Some z" and y1: "u_sh u1 s = Some y" and l1: "wq_list (u_wnext u1) (us_wq y) (w # xs)"
      using s1 z y ws Cons by auto
    from uinv_pop [OF s1(1) y1 l1 z1] obtain nx q where po: "uring_wq_pop (severed w u1) s = (wq_head q, popped u1 s w nx q)"
      and wl: "wq_list nx q xs" and i2: "uinv ({t} \<union> set_option (wq_head q)) (popped u1 s w nx q)" by blast
    define u2 where "u2 = popped u1 s w nx q"
    have y2: "u_sh u2 s = Some (y\<lparr>us_wq := q\<rparr>)" "u_wnext u2 = nx" and t2: "u_th u2 t = Some x"
      using y1 z1 s1(2) t tw Cons by (auto simp: u2_def popped_def us_def)
    have i2': "uinv ({t} \<union> set_option (wq_head (us_wq (y\<lparr>us_wq := q\<rparr>)))) u2" using i2 by (simp add: u2_def)
    have l2: "wq_list (u_wnext u2) (us_wq (y\<lparr>us_wq := q\<rparr>)) xs" using wl y2 by simp
    have e: "u' = uring_cancel_queued os (m_brk u2) u2 s"
      using u' y h cs po by (simp add: uring_close_writes_def us_def severed_def u2_def)
    have tx: "{t} \<inter> set xs = {}" using tw Cons by simp
    note cq = uinv_cancel_queued [OF i2' y2(1) l2 queue_len(1) [OF i2' y2(1) l2] e tx]
    have "xsub u u2"
    proof -
      have "xsub u u1" using s1(2) by simp
      moreover have "xsub u1 (severed w u1)" unfolding severed_def by (rule xsub_sever)
      ultimately show ?thesis using xsub_pop [OF po] unfolding u2_def by (blast intro: xsub_trans)
    qed
    then have "xsub u u'" using xsub_cancel_queued unfolding e by (blast intro: xsub_trans)
    moreover have "u_th u' t = Some x" using cq t2 tx by auto
    ultimately show ?thesis using cq by auto
  qed
  then show "uinv {t} u'" "\<exists>w. u_sh u' s = Some (y\<lparr>us_wq := w\<rparr>) \<and> wq_head w = None" "xsub u u'" "u_th u' t = Some x"
    by auto
qed

lemma uinv_sock_close:
  assumes i: "uinv {} u" and s: "s \<in> uring_usable u" and e: "uring_sock_close os u s = (p, u')"
  shows "uinv {} u'"
proof -
  obtain np u1 where n: "uring_task_new os u TASK_SOCK_CLOSE = (np, u1)" by fastforce
  show ?thesis
  proof (cases np)
    case None
    with uinv_task_new(1) [OF i n] e n show ?thesis by (simp add: uring_sock_close_def)
  next
    case (Some t)
    note tn = uinv_task_new(2) [OF i n Some]
    let ?x = "uring_task0 TASK_SOCK_CLOSE"
    obtain y where y: "u_sh u s = Some y" and nox: "\<And>q z. u_th u q = Some z \<Longrightarrow> xref z \<noteq> Some s"
      using s by (auto simp: uring_usable_def)
    have i1: "uinv {t} u1" and x1: "u_th u1 t = Some ?x" and y1: "u_sh u1 s = Some y"
      and nox1: "\<And>q z. u_th u1 q = Some z \<Longrightarrow> xref z \<noteq> Some s"
      using tn y nox by (auto split: if_splits)
    define u2 where "u2 = uring_close_read os u1 s"
    note r = uinv_close_read [OF i1 y1 u2_def]
    have x2: "u_th u2 t = Some ?x" using r(4) [OF x1] by simp
    define u3 where "u3 = uring_close_accept os u2 s"
    note a = uinv_close_accept [OF r(1,2) u3_def]
    have x3: "u_th u3 t = Some ?x" using a(4) [OF x2] by simp
    define u4 where "u4 = uring_close_writes os u3 s"
    have k: "ut_kind ?x \<noteq> TASK_SOCK_WRITE" by simp
    note w = uinv_close_writes [OF a(1,2) x3 k u4_def]
    obtain y4 where y4: "u_sh u4 s = Some y4" "quiet y4" using w(2) by (auto simp: quiet_def)
    have xs: "xsub u1 u4" using r(3) a(3) w(3) by (blast intro: xsub_trans)
    obtain ok u5 where g: "sqe_get os u4 = (ok, u5)" by fastforce
    note o = sqe_get_trace [OF g]
    have i5: "uinv {t} u5" and x5: "u_th u5 t = Some ?x" and y5: "u_sh u5 s = Some y4"
      using only_trace_uinv [OF o] only_trace_same(1,2) [OF o] w y4 by simp_all
    have nox5: "xref z \<noteq> Some s" if "u_th u5 q = Some z" for q z
      using that xs nox1 unfolding xsub_def only_trace_same(1) [OF o] by blast
    have chk: "chk_us s u1 = u1" using y1 by (simp add: chk_us_def)
    show ?thesis
    proof (cases ok)
      case False
      with e n Some chk g have "uring_task_fail u5 t EAGAIN = (p, u')"
        by (simp add: uring_sock_close_def u2_def u3_def u4_def Let_def)
      from uinv_fail_new(1) [OF i5 x5 _ _ _ this] show ?thesis by simp
    next
      case True
      define u6 where "u6 = sqe_flush os u5 (Sqe_close (us_fd y4)) (Ud_task t)"
      have "uinv ({t} - {t}) u6" unfolding u6_def
        by (rule uinv_flush [OF i5 x5]) (auto simp: parked_def result0_def)
      then have i6: "uinv {} u6" by simp
      have x6: "u_th u6 t = Some ?x" using x5 by (simp add: u6_def)
      have l: "loose (u_th u6) (u_sh u6) s" using y5 y4(2) nox5 by (auto simp: loose_def u6_def)
      have "us u5 s = y4" using y5 by (simp add: us_def)
      with e n Some chk g True have u': "u' = upd_ut t (\<lambda>x. x\<lparr>ut_sock := Some s\<rparr>) u6"
        by (auto simp: uring_sock_close_def u2_def u3_def u4_def u6_def Let_def)
      show ?thesis unfolding u'
        by (rule uinv_set_xref(1) [where f = "\<lambda>x. x\<lparr>ut_sock := Some s\<rparr>", OF i6 x6 _ l]) (simp_all add: result0_def)
    qed
  qed
qed

lemma uinv_sock_port:
  assumes "uinv {} u" and "s \<in> uring_usable u"
  shows "uinv {} (snd (uring_sock_port os u s))"
proof -
  have "chk_us s u = u" using assms(2) by (auto simp: uring_usable_def chk_us_def)
  then show ?thesis using assms(1)
    by (simp add: uring_sock_port_def myio_local_port_def sys_call_def Let_def uinv_def)
qed

subsection \<open>Cancellation, release\<close>

text \<open>The caller holds every live task that it has not detached.\<close>

definition uring_handles :: "uring_io \<Rightarrow> addr set" where
  "uring_handles u = {t. \<exists>x. u_th u t = Some x \<and> \<not> ut_detached x}"

definition uring_droppable :: "uring_io \<Rightarrow> addr \<Rightarrow> bool" where
  "uring_droppable u t = dropok (u_th u) (u_sh u) t"

lemma keeps_handle: "ukeeps S u u' \<Longrightarrow> t \<in> uring_handles u \<Longrightarrow> t \<notin> S \<Longrightarrow> t \<in> uring_handles u'"
  by (auto simp: ukeeps_def keeps_def uring_handles_def)

lemma uinv_cancel_wait:
  assumes "ring_ok os" and "uinv {} u" and "t \<in> uring_handles u" and "uring_cancel_wait os u t = Some (rc, u')"
  shows "uinv {} u' \<and> ukeeps {} u u' \<and> ut_done (ut u' t) \<and>
    rc = (if res_status (ut_res (ut u' t)) = MYIO_CANCELED then 0 else - 1)"
proof -
  define Q where "Q u t y \<longleftrightarrow> uinv {} (snd y) \<and> ukeeps {} u (snd y) \<and> ut_done (ut (snd y) t) \<and>
    fst y = (if res_status (ut_res (ut (snd y) t)) = MYIO_CANCELED then 0 else - 1)" for u t and y :: "int \<times> uring_io"
  have "ring_ok os \<longrightarrow> uinv {} u \<longrightarrow> t \<in> uring_handles u \<longrightarrow> Q u t (rc, u')"
  proof (rule uring_cancel_wait.raw_induct
      [where P = "\<lambda>os u t y. ring_ok os \<longrightarrow> uinv {} u \<longrightarrow> t \<in> uring_handles u \<longrightarrow> Q u t y", OF _ assms(4)])
    fix f os u t y
    assume IH: "\<And>os u t y. f os u t = Some y \<Longrightarrow> ring_ok os \<longrightarrow> uinv {} u \<longrightarrow> t \<in> uring_handles u \<longrightarrow> Q u t y"
      and eq: "(if ut_done (ut u t) then Some (if res_status (ut_res (ut u t)) = MYIO_CANCELED then 0 else - 1, u)
        else let (b, u) = uring_step os u in if \<not> b \<and> \<not> ut_done (ut u t) then Some (- 1, u) else f os u t) = Some y"
    show "ring_ok os \<longrightarrow> uinv {} u \<longrightarrow> t \<in> uring_handles u \<longrightarrow> Q u t y"
    proof (intro impI)
      assume r: "ring_ok os" and i: "uinv {} u" and h: "t \<in> uring_handles u"
      show "Q u t y"
      proof (cases "ut_done (ut u t)")
        case True
        with eq i show ?thesis by (auto simp: Q_def)
      next
        case False
        obtain b u1 where st: "uring_step os u = (b, u1)" by fastforce
        note s = uinv_step(1) [OF r i st] uinv_step(2) [OF r i st, of "{}"]
        have "b \<or> ut_done (ut u1 t)" using uinv_step(3) [OF r i st] h by (cases b) (auto simp: uring_handles_def ut_def)
        with eq False st have "f os u1 t = Some y" by auto
        from IH [OF this] r s keeps_handle [OF s(2) h] have "Q u1 t y" by simp
        with s(2) show ?thesis by (auto simp: Q_def intro: ukeeps_trans)
      qed
    qed
  qed
  with assms show ?thesis by (simp add: Q_def)
qed

lemma pending_ptr:
  assumes "uinv {} u" and "u_th u t = Some x" and "\<not> ut_done x"
  shows "res_ptr (ut_res x) = None"
  using task_invD [OF ucore_parts(1) [OF uinv_core [OF assms(1)]] assms(2)] assms(3) by (simp add: task_ok_def)

text \<open>
  A queued write is unlinked and settled on the spot; everything else is asked of the
  kernel and driven to its end.
\<close>

lemma uinv_cancel_parked:
  assumes i: "uinv {} u" and x: "u_th u t = Some x" "\<not> ut_done x" "ut_kind x = TASK_SOCK_WRITE" "ut_sock x = Some s"
    and h: "u_sh u s = Some y" "wq_head (us_wq y) \<noteq> Some t" and d: "\<not> ut_detached x"
    and u': "u' = uring_task_complete os (upd_ut t (\<lambda>x. x\<lparr>ut_sock := None\<rparr>) (uring_wq_remove u s t)) t (- ECANCELED)"
  shows "uinv {} u'" and "ukeeps S u u'" and "\<exists>x'. u_th u' t = Some x' \<and> ut_done x' \<and> res_status (ut_res x') = MYIO_CANCELED"
proof -
  note c = uinv_core [OF i]
  have pk: "parked (u_sh u) t x" using x h by (auto simp: parked_def)
  from core_remove [OF c x(1) pk x(2,4) h(1), of S] obtain nx q r
    where re: "myio_wq_remove (u_wnext u) (us_wq y) t = Some (r, nx, q)"
      and c2: "ucore {t} (m_brk u) ((u_th u)(t \<mapsto> x\<lparr>ut_sock := None\<rparr>)) ((u_sh u)(s \<mapsto> y\<lparr>us_wq := q\<rparr>)) nx (ring_out (m_trace u))"
      and k2: "keeps S (u_th u) (u_sh u) ((u_th u)(t \<mapsto> x\<lparr>ut_sock := None\<rparr>)) ((u_sh u)(s \<mapsto> y\<lparr>us_wq := q\<rparr>))"
      and cl: "clean ((u_th u)(t \<mapsto> x\<lparr>ut_sock := None\<rparr>)) ((u_sh u)(s \<mapsto> y\<lparr>us_wq := q\<rparr>)) t" by blast
  define u2 where "u2 = u\<lparr>u_wnext := nx, u_sh := (u_sh u)(s \<mapsto> y\<lparr>us_wq := q\<rparr>), u_th := (u_th u)(t \<mapsto> x\<lparr>ut_sock := None\<rparr>)\<rparr>"
  have e: "u' = uring_task_complete os u2 t (- ECANCELED)"
    using u' x(1) h(1) re by (simp add: uring_wq_remove_def us_def upd_us_def upd_ut_def u2_def)
  have i2: "uinv {t} u2" using i c2 x h by (simp add: u2_def uinv_def insert_absorb domI)
  have x2: "u_th u2 t = Some (x\<lparr>ut_sock := None\<rparr>)" and cl2: "clean (u_th u2) (u_sh u2) t" and k: "ukeeps S u u2"
    using cl k2 by (simp_all add: u2_def ukeeps_def)
  have rp: "res_ptr (ut_res x) = None" by (rule pending_ptr [OF i x(1,2)])
  note co = uinv_complete [OF i2 x2 singletonI cl2 _ e]
  show "uinv {} u'" using co(1) rp by simp
  show "ukeeps S u u'" using co(2) [of S] rp k by (auto intro: ukeeps_trans)
  show "\<exists>x'. u_th u' t = Some x' \<and> ut_done x' \<and> res_status (ut_res x') = MYIO_CANCELED"
    using co(7) rp d by (simp add: complete_res_def errno_defs)
qed

lemma uinv_cancel:
  assumes r: "ring_ok os" and i: "uinv {} u" and h: "t \<in> uring_handles u" and e: "uring_cancel os u t = Some (rc, u')"
  shows "uinv {} u'" and "ukeeps {} u u'" and "rc \<in> {0, - 1}"
    and "rc = 0 \<longleftrightarrow> \<not> ut_done (ut u t) \<and> ut_done (ut u' t) \<and> res_status (ut_res (ut u' t)) = MYIO_CANCELED"
proof -
  obtain x where x: "u_th u t = Some x" "\<not> ut_detached x" using h by (auto simp: uring_handles_def)
  have ut: "ut u t = x" "chk_ut t u = u" using x by (simp_all add: ut_def chk_ut_def)
  let ?ok = "\<lambda>(rc::int) u'. uinv {} u' \<and> ukeeps {} u u' \<and> rc \<in> {0, - 1} \<and>
    (rc = 0 \<longleftrightarrow> \<not> ut_done x \<and> ut_done (ut u' t) \<and> res_status (ut_res (ut u' t)) = MYIO_CANCELED)"
  have dn: "ut_done x \<longleftrightarrow> res_status (ut_res x) \<noteq> MYIO_PENDING"
    using task_invD [OF ucore_parts(1) [OF uinv_core [OF i]] x(1)] by (simp add: task_ok_def)
  have no: "?ok (- 1) u" using i by (simp add: ut)
  have wait: "?ok rc u'" if s: "uring_cancel_submit os u t = (ok, u1)" and nd: "\<not> ut_done x"
    and w: "(if \<not> ok then Some (- 1, u1) else uring_cancel_wait os (if f then upd_ut t (\<lambda>x. x\<lparr>ut_wcanceled := True\<rparr>) u1 else u1) t) = Some (rc, u')"
    for ok u1 f
  proof -
    note s1 = uinv_cancel_submit [OF i x(1) s]
    have x1: "u_th u1 t = Some x" using s1 x by simp
    have k1: "ukeeps {} u u1" using s1 by (simp add: ukeeps_def keeps_refl)
    show ?thesis
    proof (cases ok)
      case False
      with w s1 k1 x1 nd show ?thesis by (auto simp: ut_def)
    next
      case True
      define u2 where "u2 = (if f then upd_ut t (\<lambda>x. x\<lparr>ut_wcanceled := True\<rparr>) u1 else u1)"
      have "uinv {} u2 \<and> ukeeps {} u1 u2"
        using uinv_same [where f = "\<lambda>x. x\<lparr>ut_wcanceled := True\<rparr>", OF s1(1) x1] s1(1) by (simp add: u2_def same_task_def)
      then have u2: "uinv {} u2" "ukeeps {} u u2" using k1 by (auto intro: ukeeps_trans)
      from True w have "uring_cancel_wait os u2 t = Some (rc, u')" by (simp add: u2_def)
      from uinv_cancel_wait [OF r u2(1) keeps_handle [OF u2(2) h] this] u2(2) nd show ?thesis
        by (auto intro: ukeeps_trans)
    qed
  qed
  have "?ok rc u'"
  proof (cases "ut_done x")
    case True
    with e ut no show ?thesis by (simp add: uring_cancel_def)
  next
    case nd: False
    obtain ok u1 where s: "uring_cancel_submit os u t = (ok, u1)" by fastforce
    show ?thesis
    proof (cases "ut_kind x = TASK_SOCK_WRITE")
      case kw: True
      show ?thesis
      proof (cases "ut_sock x")
        case None
        with e ut nd kw s show ?thesis by (intro wait [OF s nd, of True]) (simp add: uring_cancel_def split: if_splits)
      next
        case (Some k)
        have "t \<in> wmembers (u_th u) k" by (rule wmembers_I) (use x kw Some in auto)
        from wq_inv_live [OF ucore_parts(5) [OF uinv_core [OF i]] this] obtain y where y: "u_sh u k = Some y" by blast
        show ?thesis
        proof (cases "wq_head (us_wq y) = Some t")
          case True
          with e ut nd kw Some y s show ?thesis
            by (intro wait [OF s nd, of True]) (simp add: uring_cancel_def us_def split: if_splits)
        next
          case False
          with e ut nd kw Some y have rc: "rc = 0"
            and u': "u' = uring_task_complete os (upd_ut t (\<lambda>x. x\<lparr>ut_sock := None\<rparr>) (uring_wq_remove u k t)) t (- ECANCELED)"
            by (simp_all add: uring_cancel_def us_def Let_def)
          from uinv_cancel_parked [OF i x(1) nd kw Some y False x(2) u'] rc nd show ?thesis by (auto simp: ut_def)
        qed
      qed
    next
      case False
      show ?thesis
      proof (cases "ut_kind x = TASK_SPAWN \<or> ut_kind x = TASK_SOCK_CLOSE")
        case True
        with e ut nd no show ?thesis by (auto simp: uring_cancel_def Let_def)
      next
        case nk: False
        with False e ut nd s have "(if \<not> ok then Some (- 1, u1) else uring_cancel_wait os u1 t) = Some (rc, u')"
          by (cases "ut_kind x") (simp_all add: uring_cancel_def)
        then show ?thesis using wait [OF s nd, of False, unfolded if_False] by blast
      qed
    qed
  qed
  then show "uinv {} u'" "ukeeps {} u u'" "rc \<in> {0, - 1}"
    "rc = 0 \<longleftrightarrow> \<not> ut_done (ut u t) \<and> ut_done (ut u' t) \<and> res_status (ut_res (ut u' t)) = MYIO_CANCELED"
    unfolding ut by blast+
qed

lemma uinv_free_wait:
  assumes "ring_ok os" and "uinv {} u" and "t \<in> uring_handles u" and "uring_free_wait os u t = Some u'"
  shows "uinv {} u' \<and> ukeeps {} u u' \<and> ut_done (ut u' t)"
proof -
  define Q where "Q u t u' \<longleftrightarrow> uinv {} u' \<and> ukeeps {} u u' \<and> ut_done (ut u' t)" for u t u'
  have "ring_ok os \<longrightarrow> uinv {} u \<longrightarrow> t \<in> uring_handles u \<longrightarrow> Q u t u'"
  proof (rule uring_free_wait.raw_induct
      [where P = "\<lambda>os u t y. ring_ok os \<longrightarrow> uinv {} u \<longrightarrow> t \<in> uring_handles u \<longrightarrow> Q u t y", OF _ assms(4)])
    fix f os u t y
    assume IH: "\<And>os u t y. f os u t = Some y \<Longrightarrow> ring_ok os \<longrightarrow> uinv {} u \<longrightarrow> t \<in> uring_handles u \<longrightarrow> Q u t y"
      and eq: "(if ut_done (ut u t) then Some u
        else let (b, u) = uring_step os u in if b then f os u t else Some u) = Some y"
    show "ring_ok os \<longrightarrow> uinv {} u \<longrightarrow> t \<in> uring_handles u \<longrightarrow> Q u t y"
    proof (intro impI)
      assume r: "ring_ok os" and i: "uinv {} u" and h: "t \<in> uring_handles u"
      show "Q u t y"
      proof (cases "ut_done (ut u t)")
        case True
        with eq i show ?thesis by (auto simp: Q_def)
      next
        case False
        obtain b u1 where st: "uring_step os u = (b, u1)" by fastforce
        note s = uinv_step(1) [OF r i st] uinv_step(2) [OF r i st, of "{}"]
        have b using uinv_step(3) [OF r i st] h False by (cases b) (auto simp: uring_handles_def ut_def)
        with eq False st have "f os u1 t = Some y" by auto
        from IH [OF this] r s keeps_handle [OF s(2) h] have "Q u1 t y" by simp
        with s(2) show ?thesis by (auto simp: Q_def intro: ukeeps_trans)
      qed
    qed
  qed
  with assms show ?thesis by (simp add: Q_def)
qed

text \<open>Taking a completed task out: nobody points to it.\<close>

lemma uinv_free_done:
  assumes i: "uinv {} u" and x: "u_th u t = Some x" "ut_done x" and u': "u' = free_ut t (uring_task_unlink u t)"
  shows "uinv {} u'" and "ukeeps {t} u u'" and "u_th u' t = None"
proof -
  note c = uinv_core [OF i]
  note p = ucore_parts [OF c]
  have e: "u' = u\<lparr>u_tasks := dl_unlink (u_tasks u) t, u_th := (u_th u)(t := None)\<rparr>"
    using x u' by (simp add: free_ut_def chk_ut_def uring_task_unlink_def)
  have cl: "clean (u_th u) (u_sh u) t" by (rule clean_done [OF c x])
  define x0 where "x0 = x\<lparr>ut_res := (ut_res x)\<lparr>res_ptr := None\<rparr>\<rparr>"
  have ok: "task_ok {} (m_brk u) t x" by (rule task_invD [OF p(1) x(1)])
  define th0 where "th0 = (u_th u)(t \<mapsto> x0)"
  have xo: "xref x0 = xref x" "own x0 = None" "parked sh q x0 = parked sh q x" for sh q
    using ok x(2) by (auto simp: x0_def xref_def own_def parked_def task_ok_def split: if_splits)
  have c0: "ucore {} (m_brk u) th0 (u_sh u) (u_wnext u) (ring_out (m_trace u))"
    unfolding th0_def
  proof (rule ucoreI)
    show "task_inv {} (m_brk u) ((u_th u)(t \<mapsto> x0))"
      by (rule task_inv_upd [OF p(1)]) (use ok x(2) xo in \<open>auto simp: task_ok_def x0_def\<close>)
    show "ring_inv {} ((u_th u)(t \<mapsto> x0)) (u_sh u) (ring_out (m_trace u))"
      by (rule ring_inv_upd [OF p(2) x(1)]) (simp_all add: xo, simp add: x0_def)
    show "read_inv {} ((u_th u)(t \<mapsto> x0)) (u_sh u)" by (rule read_inv_upd [OF p(3) x(1)]) (simp_all add: x0_def)
    show "acc_inv {} ((u_th u)(t \<mapsto> x0)) (u_sh u)" by (rule acc_inv_upd [OF p(4) x(1)]) (simp_all add: x0_def)
    have "wmembers ((u_th u)(t \<mapsto> x0)) k = wmembers (u_th u) k" for k
      using x(1) by (auto simp: wmembers_def x0_def)
    then show "wq_inv ((u_th u)(t \<mapsto> x0)) (u_sh u) (u_wnext u)" using p(5) by (simp add: wq_inv_def)
    show "xr_inv ((u_th u)(t \<mapsto> x0)) (u_sh u)" by (rule xr_inv_upd [OF p(6) x(1) xo(1)])
    show "own_inv ((u_th u)(t \<mapsto> x0))" by (rule own_inv_upd [OF p(7) x(1)]) (simp add: xo)
  qed (use p(8) in auto)
  have t0: "th0 t = Some x0" "ut_done x0" "res_ptr (ut_res x0) = None" using x by (simp_all add: th0_def x0_def)
  have cl0: "clean th0 (u_sh u) t" by (rule clean_done [OF c0 t0(1,2)])
  have "ucore ({} - {t}) (m_brk u) (th0(t := None)) (u_sh u) (u_wnext u) (ring_out (m_trace u))"
    by (rule core_reap [OF c0 t0(1) _ cl0]) (simp_all add: t0)
  then show "uinv {} u'" using i x members_del [of "u_tasks u" "u_th u" t x] by (simp add: e uinv_def th0_def)
  show "ukeeps {t} u u'" unfolding ukeeps_def e by (rule keepsI) (auto simp: loose_def)
  show "u_th u' t = None" by (simp add: e)
qed

lemma uinv_task_free:
  assumes r: "ring_ok os" and i: "uinv {} u" and h: "t \<in> uring_handles u" and e: "uring_task_free os u t = Some u'"
  shows "uinv {} u'" and "ukeeps {t} u u'" and "t \<notin> uring_handles u'"
proof -
  obtain x where x: "u_th u t = Some x" using h by (auto simp: uring_handles_def)
  have ut: "ut u t = x" "chk_ut t u = u" using x by (simp_all add: ut_def chk_ut_def)
  obtain u1 where u1: "uinv {} u1" "ukeeps {} u u1" "ut_done (ut u1 t)" and u': "u' = free_ut t (uring_task_unlink u1 t)"
  proof (cases "ut_done x")
    case True
    with e ut i that [of u] show ?thesis by (simp add: uring_task_free_def)
  next
    case False
    with e ut obtain rc u0 u1 where c: "uring_cancel os u t = Some (rc, u0)" "uring_free_wait os u0 t = Some u1"
      "u' = free_ut t (uring_task_unlink u1 t)"
      by (cases "uring_cancel os u t") (auto simp: uring_task_free_def)
    note ca = uinv_cancel [OF r i h c(1)]
    from uinv_free_wait [OF r ca(1) keeps_handle [OF ca(2) h] c(2)] ca(2) c(3) that [of u1] show ?thesis
      by (auto intro: ukeeps_trans)
  qed
  have "t \<in> uring_handles u1" using keeps_handle [OF u1(2) h] by simp
  then obtain x1 where x1: "u_th u1 t = Some x1" "ut_done x1" using u1(3) by (auto simp: uring_handles_def ut_def)
  note f = uinv_free_done [OF u1(1) x1 u']
  show "uinv {} u'" by (rule f)
  show "ukeeps {t} u u'" using u1(2) f(2) by (auto simp: ukeeps_def intro: keeps_trans keeps_mono)
  show "t \<notin> uring_handles u'" using f(3) by (simp add: uring_handles_def)
qed

lemma uinv_detach:
  assumes i: "uinv {} u" and h: "t \<in> uring_handles u" and d: "uring_droppable u t" and u': "u' = uring_task_detach os u t"
  shows "uinv {} u'" and "ukeeps {t} u u'" and "t \<notin> uring_handles u'"
proof -
  note c = uinv_core [OF i]
  obtain x where x: "u_th u t = Some x" "\<not> ut_detached x" using h by (auto simp: uring_handles_def)
  have ut: "ut u t = x" "chk_ut t u = u" using x by (simp_all add: ut_def chk_ut_def)
  have lo: "res_ptr (ut_res x) = Some s \<Longrightarrow> loose (u_th u) (u_sh u) s" for s
    using d x by (auto simp: uring_droppable_def dropok_def)
  have "uinv {} u' \<and> ukeeps {t} u u' \<and> t \<notin> uring_handles u'"
  proof (cases "ut_done x")
    case True
    then have e: "u' = uring_task_reap os u t" using u' ut by (simp add: uring_task_detach_def)
    note re = uinv_reap [OF i x(1) disjI2 [OF True] clean_done [OF c x(1) True] lo, of os]
    then show ?thesis using re by (simp add: e uring_handles_def)
  next
    case False
    let ?x = "x\<lparr>ut_detached := True\<rparr>"
    have e: "u' = u\<lparr>u_th := (u_th u)(t \<mapsto> ?x)\<rparr>"
      using u' x ut False by (simp add: uring_task_detach_def upd_ut_def)
    note p = ucore_parts [OF c]
    have ok: "task_ok {} (m_brk u) t x" by (rule task_invD [OF p(1) x(1)])
    have xo: "xref ?x = xref x" "own ?x = own x" "parked sh q ?x = parked sh q x" for sh q
      by (auto simp: xref_def own_def parked_def)
    have "ucore {} (m_brk u) ((u_th u)(t \<mapsto> ?x)) (u_sh u) (u_wnext u) (ring_out (m_trace u))"
    proof (rule ucoreI)
      show "task_inv {} (m_brk u) ((u_th u)(t \<mapsto> ?x))"
        by (rule task_inv_upd [OF p(1)]) (use ok False xo in \<open>auto simp: task_ok_def\<close>)
      show "ring_inv {} ((u_th u)(t \<mapsto> ?x)) (u_sh u) (ring_out (m_trace u))"
        by (rule ring_inv_upd [OF p(2) x(1)]) (simp_all add: xo)
      show "read_inv {} ((u_th u)(t \<mapsto> ?x)) (u_sh u)" by (rule read_inv_upd [OF p(3) x(1)]) simp_all
      show "acc_inv {} ((u_th u)(t \<mapsto> ?x)) (u_sh u)" by (rule acc_inv_upd [OF p(4) x(1)]) simp_all
      have "wmembers ((u_th u)(t \<mapsto> ?x)) k = wmembers (u_th u) k" for k
        using x(1) by (auto simp: wmembers_def)
      then show "wq_inv ((u_th u)(t \<mapsto> ?x)) (u_sh u) (u_wnext u)" using p(5) by (simp add: wq_inv_def)
      show "xr_inv ((u_th u)(t \<mapsto> ?x)) (u_sh u)" by (rule xr_inv_upd [OF p(6) x(1) xo(1)])
      show "own_inv ((u_th u)(t \<mapsto> ?x))" by (rule own_inv_upd [OF p(7) x(1)]) (simp add: xo)
    qed (use p(8) in auto)
    then have "uinv {} u'" using i x(1) by (simp add: e uinv_def insert_absorb domI)
    moreover have "ukeeps {t} u u'" unfolding ukeeps_def e by (rule keepsI) (use x xo in \<open>auto simp: loose_def\<close>)
    ultimately show ?thesis by (simp add: e uring_handles_def)
  qed
  then show "uinv {} u'" "ukeeps {t} u u'" "t \<notin> uring_handles u'" by auto
qed

subsection \<open>Closing a socket settles the writes queued on it\<close>

lemma cancel_queued_done:
  assumes "uinv (T \<union> set_option (wq_head (us_wq y))) u" and "u_sh u s = Some y" and "wq_list (u_wnext u) (us_wq y) xs"
    and "length xs \<le> fuel" and "u' = uring_cancel_queued os fuel u s" and "T \<inter> set xs = {}"
    and "q \<in> set xs" and "u_th u q = Some z" and "\<not> ut_detached z"
  shows "\<exists>x. u_th u' q = Some x \<and> ut_done x \<and> \<not> ut_detached x \<and> res_status (ut_res x) = MYIO_CANCELED"
  using assms
proof (induction xs arbitrary: fuel u y)
  case (Cons n ns)
  have h: "wq_head (us_wq y) = Some n" using wq_list_head [OF Cons.prems(3)] by simp
  from Cons.prems(4) obtain f where f: "fuel = Suc f" "length ns \<le> f" by (cases fuel) auto
  note c = uinv_core [OF Cons.prems(1)]
  have "n \<in> wmembers (u_th u) s" using queue_len(2) [OF Cons.prems(1-3)] by auto
  from wq_write [OF c this] obtain x where x: "u_th u n = Some x" "ut_kind x = TASK_SOCK_WRITE" by blast
  have nT: "n \<notin> T" using Cons.prems(6) by simp
  from uinv_pop [OF Cons.prems(1-3) x(1), of "{}"] obtain nx w u2 where po: "uring_wq_pop u s = (wq_head w, u2)"
    "severed n u2 = popped u s n nx w" and wl: "wq_list nx w ns" "wq_head w = (if ns = [] then None else Some (hd ns))"
    and i2: "uinv (T \<union> set_option (wq_head (us_wq y)) \<union> set_option (wq_head w)) (popped u s n nx w)"
      "clean (u_th (popped u s n nx w)) (u_sh (popped u s n nx w)) n" by blast
  define u3 where "u3 = popped u s n nx w"
  have x3: "u_th u3 n = Some (x\<lparr>ut_sock := None\<rparr>)" "u_sh u3 s = Some (y\<lparr>us_wq := w\<rparr>)" "u_wnext u3 = nx"
    "\<And>p. p \<noteq> n \<Longrightarrow> u_th u3 p = u_th u p"
    using x(1) Cons.prems(2) by (simp_all add: u3_def popped_def ut_def us_def)
  have rp: "res_ptr (ut_res x) = None" using write_ptr [OF c x(1,2)] .
  define u4 where "u4 = uring_task_complete os u3 n (- ECANCELED)"
  have d: "n \<notin> set ns" using wq_list_distinct [OF Cons.prems(3)] by simp
  have nh: "n \<notin> set_option (wq_head w)" using wl(2) d hd_in_set [of ns] by (auto split: if_splits)
  have "n \<in> T \<union> set_option (wq_head (us_wq y)) \<union> set_option (wq_head w)" using h by simp
  note co = uinv_complete [OF i2(1) [folded u3_def] x3(1) this i2(2) [folded u3_def] _ u4_def]
  have "T \<union> set_option (wq_head (us_wq y)) \<union> set_option (wq_head w) - {n} = T \<union> set_option (wq_head w)" using nT nh h by auto
  then have i4: "uinv (T \<union> set_option (wq_head (us_wq (y\<lparr>us_wq := w\<rparr>)))) u4" and sh4: "u_sh u4 = u_sh u3"
    and th4: "\<And>p. p \<noteq> n \<Longrightarrow> u_th u4 p = u_th u3 p" and nx4: "u_wnext u4 = nx"
    and dn: "\<not> ut_detached x \<Longrightarrow> \<exists>x'. u_th u4 n = Some x' \<and> ut_done x' \<and> \<not> ut_detached x' \<and> res_status (ut_res x') = MYIO_CANCELED"
    using co rp x3(3) by (auto simp: complete_res_def errno_defs)
  have u': "u' = uring_cancel_queued os f u4 s"
    using Cons.prems(2,5) po h f by (simp add: severed_def u3_def u4_def us_def)
  have Tn: "T \<inter> set ns = {}" using Cons.prems(6) by simp
  have y4: "u_sh u4 s = Some (y\<lparr>us_wq := w\<rparr>)" and l4: "wq_list (u_wnext u4) (us_wq (y\<lparr>us_wq := w\<rparr>)) ns"
    using x3 sh4 nx4 wl by auto
  show ?case
  proof (cases "q = n")
    case True
    with Cons.prems(8,9) x dn obtain x' where x': "u_th u4 n = Some x'" "ut_done x'" "\<not> ut_detached x'"
      "res_status (ut_res x') = MYIO_CANCELED" by auto
    have "ukeeps {} u4 u'" using uinv_cancel_queued [OF i4 y4 l4 f(2) u' Tn] by blast
    with x' True show ?thesis by (fastforce simp: ukeeps_def keeps_def)
  next
    case False
    with Cons.prems(7) have "q \<in> set ns" by simp
    moreover have "u_th u4 q = Some z" using False th4 x3(4) Cons.prems(8) by simp
    ultimately show ?thesis using Cons.IH [OF i4 y4 l4 f(2) u' Tn] Cons.prems(9) by blast
  qed
qed simp

lemma close_writes_queued:
  assumes i: "uinv {t} u" and y: "u_sh u s = Some y" and t: "u_th u t = Some x" "ut_kind x \<noteq> TASK_SOCK_WRITE"
    and hd: "wq_head (us_wq y) = Some w"
    and z: "u_th u q = Some z" "ut_kind z = TASK_SOCK_WRITE" "ut_sock z = Some s" "\<not> ut_detached z" and qw: "q \<noteq> w"
    and u': "u' = uring_close_writes os u s"
  shows "\<exists>v. u_th u' q = Some v \<and> ut_done v \<and> res_status (ut_res v) = MYIO_CANCELED"
proof -
  note c = uinv_core [OF i]
  obtain ws where ws: "wq_list (u_wnext u) (us_wq y) ws" using wq_inv_list [OF ucore_parts(5) [OF c] y] by blast
  have ms: "set ws = wmembers (u_th u) s" by (rule queue_len(2) [OF i y ws])
  obtain xs where Cons: "ws = w # xs" using wq_list_head [OF ws] hd by (cases ws) auto
  have tw: "t \<notin> set ws" unfolding ms using t by (simp add: wmembers_def)
  have "q \<in> set ws" unfolding ms by (rule wmembers_I) (use z in auto)
  then have qx: "q \<in> set xs" using Cons qw by simp
  have "w \<in> wmembers (u_th u) s" unfolding ms [symmetric] using Cons by simp
  from wq_write [OF c this] obtain zw where zw: "u_th u w = Some zw" by blast
  obtain ok u1 where cs: "uring_cancel_submit os u w = (ok, u1)" by fastforce
  note s1 = uinv_cancel_submit [OF i zw cs]
  have zw1: "u_th u1 w = Some zw" and y1: "u_sh u1 s = Some y" and l1: "wq_list (u_wnext u1) (us_wq y) (w # xs)"
    using s1 zw y ws Cons by auto
  from uinv_pop [OF s1(1) y1 l1 zw1] obtain nx wq where po: "uring_wq_pop (severed w u1) s = (wq_head wq, popped u1 s w nx wq)"
    and wl: "wq_list nx wq xs" and i2: "uinv ({t} \<union> set_option (wq_head wq)) (popped u1 s w nx wq)" by blast
  define u2 where "u2 = popped u1 s w nx wq"
  have y2: "u_sh u2 s = Some (y\<lparr>us_wq := wq\<rparr>)" "u_wnext u2 = nx" and z2: "u_th u2 q = Some z"
    using y1 s1(2) z qw by (auto simp: u2_def popped_def us_def)
  have i2': "uinv ({t} \<union> set_option (wq_head (us_wq (y\<lparr>us_wq := wq\<rparr>)))) u2" using i2 by (simp add: u2_def)
  have l2: "wq_list (u_wnext u2) (us_wq (y\<lparr>us_wq := wq\<rparr>)) xs" using wl y2 by simp
  have e: "u' = uring_cancel_queued os (m_brk u2) u2 s"
    using u' y hd cs po by (simp add: uring_close_writes_def us_def severed_def u2_def)
  have tx: "{t} \<inter> set xs = {}" using tw Cons by simp
  from cancel_queued_done [OF i2' y2(1) l2 queue_len(1) [OF i2' y2(1) l2] e tx qx z2 z(4)] show ?thesis by blast
qed

lemma close_cancels_queued:
  assumes i: "uinv {} u" and s: "s \<in> uring_usable u" and y: "u_sh u s = Some y"
    and xs: "wq_list (u_wnext u) (us_wq y) (w # xs)" and q: "q \<in> set xs" "q \<in> uring_handles u"
    and e: "uring_sock_close os u s = (Some t, u')"
  shows "\<exists>x. u_th u' q = Some x \<and> ut_done x \<and> res_status (ut_res x) = MYIO_CANCELED"
proof -
  obtain np u1 where n: "uring_task_new os u TASK_SOCK_CLOSE = (np, u1)" by fastforce
  with e have np: "np = Some t"
    by (auto simp: uring_sock_close_def Let_def uring_task_fail_def split: option.splits prod.splits if_splits)
  note tn = uinv_task_new(2) [OF i n np]
  let ?x = "uring_task0 TASK_SOCK_CLOSE"
  obtain z where z: "u_th u q = Some z" "\<not> ut_detached z" using q(2) by (auto simp: uring_handles_def)
  have qw: "q \<in> wmembers (u_th u) s" using queue_len(2) [OF i y xs] q(1) by auto
  from wq_write [OF uinv_core [OF i] qw] z(1) have kz: "ut_kind z = TASK_SOCK_WRITE" by auto
  have qt: "q \<noteq> t" using tn z by auto
  have i1: "uinv {t} u1" and x1: "u_th u1 t = Some ?x" and y1: "u_sh u1 s = Some y" and z1: "u_th u1 q = Some z"
    using tn y z qt by auto
  define u2 where "u2 = uring_close_read os u1 s"
  note r = uinv_close_read [OF i1 y1 u2_def]
  define u3 where "u3 = uring_close_accept os u2 s"
  note a = uinv_close_accept [OF r(1,2) u3_def]
  have x3: "u_th u3 t = Some ?x" and z3: "u_th u3 q = Some z" using a(4) r(4) x1 z1 kz by auto
  define u4 where "u4 = uring_close_writes os u3 s"
  let ?y = "y\<lparr>us_read_task := None, us_accept_task := None\<rparr>"
  have y3: "u_sh u3 s = Some ?y" using a(2) by simp
  have hd: "wq_head (us_wq ?y) = Some w" using wq_list_head [OF xs] by simp
  have qw': "q \<noteq> w" using wq_list_distinct [OF xs] q(1) by auto
  have sz: "ut_sock z = Some s" using qw z(1) by (auto simp: wmembers_def)
  obtain v where dn: "u_th u4 q = Some v" "ut_done v" "res_status (ut_res v) = MYIO_CANCELED"
    using close_writes_queued [OF a(1) y3 x3 _ hd z3 kz sz z(2) qw' u4_def] by auto
  obtain ok u5 where g: "sqe_get os u4 = (ok, u5)" by fastforce
  have th5: "u_th u5 = u_th u4" by (rule only_trace_same(1) [OF sqe_get_trace [OF g]])
  have chk: "chk_us s u1 = u1" using y1 by (simp add: chk_us_def)
  have fr: "u_th (upd_ut t f v') q = u_th v' q" for f v' using qt by (simp add: upd_ut_def m_flag_def split: option.splits)
  have "u_th u' q = u_th u5 q"
    using e n np chk g fr by (auto simp: uring_sock_close_def u2_def [symmetric] u3_def [symmetric] u4_def [symmetric]
        uring_task_fail_def Let_def split: if_splits)
  with dn th5 show ?thesis by auto
qed
subsection \<open>The backend satisfies the interface\<close>

lemma uring_ops_sel [simp]:
  "ops_open (uring_ops os) u p f m = Some (uring_open os u p f m)"
  "ops_close (uring_ops os) u fd = Some (uring_close os u fd)"
  "ops_read (uring_ops os) u fd b n off = Some (uring_read os u fd b n off)"
  "ops_write (uring_ops os) u fd bs off = Some (uring_write os u fd bs off)"
  "ops_sleep (uring_ops os) u ms = Some (uring_sleep os u ms)"
  "ops_spawn (uring_ops os) u fn arg = Some (uring_spawn os u fn arg)"
  "ops_tcp_connect (uring_ops os) u h port = Some (uring_tcp_connect os u h port)"
  "ops_tcp_listen (uring_ops os) u h port bl = Some (uring_tcp_listen os u h port bl)"
  "ops_tcp_accept (uring_ops os) u k = Some (uring_tcp_accept os u k)"
  "ops_sock_read (uring_ops os) u k b n = Some (uring_sock_read os u k b n)"
  "ops_sock_write (uring_ops os) u k bs = Some (uring_sock_write os u k bs)"
  "ops_sock_close (uring_ops os) u k = Some (uring_sock_close os u k)"
  "ops_sock_port (uring_ops os) u k = uring_sock_port os u k"
  "ops_step (uring_ops os) u = Some (uring_step os u)"
  "ops_cancel (uring_ops os) u t = uring_cancel os u t"
  "ops_task_free (uring_ops os) u t = uring_task_free os u t"
  "ops_task_detach (uring_ops os) u t = uring_task_detach os u t"
  "ops_task_done (uring_ops os) u t = uring_task_done u t"
  "ops_task_result (uring_ops os) u t = uring_task_result u t"
  "ops_destroy (uring_ops os) u = uring_destroy os u"
  by (simp_all add: uring_ops_def)

lemma uring_keeps_evolves:
  assumes "ring_ok os" and "uinv {} u'" and "ukeeps S u u'"
  shows "evolves (uring_ops os) (\<lambda>u. ring_ok os \<and> uinv {} u) uring_handles uring_droppable u S u'"
  unfolding evolves_def
proof (intro conjI ballI)
  fix t
  assume "t \<in> uring_handles u - S"
  then obtain x where x: "u_th u t = Some x" "\<not> ut_detached x" "t \<notin> S" by (auto simp: uring_handles_def)
  with assms(3) obtain x' where x': "u_th u' t = Some x'" "\<not> ut_detached x'" "ut_done x \<longrightarrow> ut_res x' = ut_res x"
    "dropok (u_th u) (u_sh u) t \<longrightarrow> dropok (u_th u') (u_sh u') t"
    unfolding ukeeps_def keeps_def by blast
  then show "t \<in> uring_handles u'" by (auto simp: uring_handles_def)
  show "ops_task_done (uring_ops os) u t \<longrightarrow> ops_task_result (uring_ops os) u' t = ops_task_result (uring_ops os) u t"
    using x x' by (simp add: uring_task_done_def uring_task_result_def ut_def)
  show "uring_droppable u t \<longrightarrow> uring_droppable u' t" using x' by (simp add: uring_droppable_def)
qed (use assms in auto)

interpretation uring: live_backend "uring_ops os" "\<lambda>u. ring_ok os \<and> uinv {} u" uring_handles uring_droppable for os
proof
  fix st st' :: uring_io and t b p ms rc
  assume "ring_ok os \<and> uinv {} st"
  then have r: "ring_ok os" and i: "uinv {} st" by auto
  show "t \<in> uring_handles st \<Longrightarrow>
      ops_task_done (uring_ops os) st t = (res_status (ops_task_result (uring_ops os) st t) \<noteq> MYIO_PENDING)"
    using task_invD [OF ucore_parts(1) [OF uinv_core [OF i]]]
    by (auto simp: uring_handles_def uring_task_done_def uring_task_result_def ut_def task_ok_def)
  show "ops_step (uring_ops os) st = Some (b, st') \<Longrightarrow>
      evolves (uring_ops os) (\<lambda>u. ring_ok os \<and> uinv {} u) uring_handles uring_droppable st {} st'"
    using uinv_step(1) [OF r i] uinv_step(2) [OF r i] by (intro uring_keeps_evolves [OF r]) auto
  show "ops_step (uring_ops os) st = Some (False, st') \<Longrightarrow> t \<in> uring_handles st \<Longrightarrow>
      ops_task_done (uring_ops os) st' t \<Longrightarrow> ops_task_done (uring_ops os) st t"
    using uinv_step(3) [OF r i, of False st'] by auto
  show "ops_step (uring_ops os) st = Some (False, st') \<Longrightarrow> t \<in> uring_handles st \<Longrightarrow> ops_task_done (uring_ops os) st t"
    using uinv_step(3) [OF r i, of False st'] by (auto simp: uring_handles_def uring_task_done_def ut_def)
  show "ops_sleep (uring_ops os) st ms = Some (p, st') \<Longrightarrow>
      evolves (uring_ops os) (\<lambda>u. ring_ok os \<and> uinv {} u) uring_handles uring_droppable st {} st'"
    using uinv_sleep(1) [OF i] uinv_sleep(2) [OF i] by (intro uring_keeps_evolves [OF r]) auto
  show "ops_sleep (uring_ops os) st ms = Some (Some t, st') \<Longrightarrow>
      t \<in> uring_handles st' - uring_handles st \<and> uring_droppable st' t"
    using uinv_sleep(3) [OF i, of os ms "Some t" st' t]
    by (auto simp: uring_handles_def uring_droppable_def dropok_def)
  show "t \<in> uring_handles st \<Longrightarrow> ops_cancel (uring_ops os) st t = Some (rc, st') \<Longrightarrow>
      evolves (uring_ops os) (\<lambda>u. ring_ok os \<and> uinv {} u) uring_handles uring_droppable st {} st' \<and> rc \<in> {0, - 1}"
    using uinv_cancel(1-3) [OF r i, of t rc st'] by (auto intro: uring_keeps_evolves [OF r])
  show "t \<in> uring_handles st \<Longrightarrow> ops_task_free (uring_ops os) st t = Some st' \<Longrightarrow>
      evolves (uring_ops os) (\<lambda>u. ring_ok os \<and> uinv {} u) uring_handles uring_droppable st {t} st' \<and> t \<notin> uring_handles st'"
    using uinv_task_free [OF r i, of t st'] by (auto intro: uring_keeps_evolves [OF r])
  show "t \<in> uring_handles st \<Longrightarrow> uring_droppable st t \<Longrightarrow>
      evolves (uring_ops os) (\<lambda>u. ring_ok os \<and> uinv {} u) uring_handles uring_droppable st {t} (ops_task_detach (uring_ops os) st t) \<and>
      t \<notin> uring_handles (ops_task_detach (uring_ops os) st t)"
    using uinv_detach [OF i _ _ refl, of t os] by (auto intro: uring_keeps_evolves [OF r])
qed

text \<open>What the program assumes of its environment: an honest ring, a resolver that does not succeed emptily.\<close>

definition kernel_ok :: "os \<Rightarrow> bool" where
  "kernel_ok os \<longleftrightarrow> ring_ok os \<and> gai_ok os"

interpretation uring_safe: safe_backend "uring_ops os" "\<lambda>u. kernel_ok os \<and> uinv {} u"
  uring_handles uring_droppable uring_usable for os
proof
  fix st st' c
  assume "kernel_ok os \<and> uinv {} st" and ok: "ucall_ok uring_handles uring_droppable uring_usable st c"
    and ex: "exec_ucall (uring_ops os) st c = Some st'"
  then have r: "ring_ok os" and g: "gai_ok os" and i: "uinv {} st" by (auto simp: kernel_ok_def)
  have "uinv {} st'"
  proof (cases c)
    case U_step
    with ex uinv_step(1) [OF r i] show ?thesis by (cases "uring_step os st") auto
  next
    case (U_tcp_listen h port b)
    with ex uinv_listen [OF i] show ?thesis by (cases "uring_tcp_listen os st h port b") auto
  next
    case (U_tcp_connect h port)
    with ex uinv_connect [OF g i] show ?thesis by (cases "uring_tcp_connect os st h port") auto
  next
    case (U_cancel t)
    with ex ok uinv_cancel(1) [OF r i] show ?thesis by auto
  next
    case (U_task_free t)
    with ex ok uinv_task_free(1) [OF r i] show ?thesis by auto
  next
    case (U_task_detach t)
    with ex ok uinv_detach(1) [OF i] show ?thesis by auto
  next
    case (U_sock_port k)
    with ex ok uinv_sock_port [OF i] show ?thesis by auto
  qed (use ex ok i in \<open>auto intro: uinv_open uinv_close uinv_read uinv_write uinv_sleep(1) uinv_spawn
      uinv_accept uinv_sock_read uinv_sock_write uinv_sock_close surjective_pairing\<close>)
  with r g show "kernel_ok os \<and> uinv {} st'" by (simp add: kernel_ok_def)
qed

lemma uring_new_inv:
  assumes "myio_uring_new os m = (Some u, m')" and "\<not> m_fault m" and "ring_out (m_trace m) = {#}"
  shows "uinv {} u"
proof -
  have "ring_out ((C_queue_init, a) # tr) = ring_out tr" for a tr by simp
  then show ?thesis using assms
    by (auto simp: myio_uring_new_def sys_alloc_def sys_call_def Let_def mach.extend_def uinv_def ucore_def
        task_inv_def ring_inv_def read_inv_def acc_inv_def wq_inv_def xr_inv_def own_inv_def wmembers_def
        dl.members_def split: if_splits)
qed

end
