(* ===== verification/Myio_Sync.thy ===== *)
theory Myio_Sync
  imports Myio_Common
begin

text \<open>
  The blocking backend, \<^verbatim>\<open>src/src/myio_sync.c\<close>: every operation runs to completion
  inside its submit function. The state is the heap of task and socket objects;
  \<open>task_of\<close>/\<open>sock_of\<close> casts are the identity on addresses. The theory ends with the
  interpretation of the interface contract on the backend's vtable.
\<close>

record sync_task =
  sy_res :: myio_result

record sync_sock =
  sy_fd :: int

record sync_io = mach +
  sy_tasks :: "addr \<rightharpoonup> sync_task"
  sy_socks :: "addr \<rightharpoonup> sync_sock"

text \<open>Dereferencing a handle that is not allocated is a fault.\<close>

definition sync_task_at :: "sync_io \<Rightarrow> addr \<Rightarrow> sync_task" where
  "sync_task_at s t = (case sy_tasks s t of Some x \<Rightarrow> x | None \<Rightarrow> \<lparr>sy_res = result0\<rparr>)"

definition sync_sock_at :: "sync_io \<Rightarrow> addr \<Rightarrow> sync_sock" where
  "sync_sock_at s k = (case sy_socks s k of Some x \<Rightarrow> x | None \<Rightarrow> \<lparr>sy_fd = - 1\<rparr>)"

definition sync_chk_sock :: "sync_io \<Rightarrow> addr \<Rightarrow> sync_io" where
  "sync_chk_sock s k = (if sy_socks s k = None then m_flag s else s)"

definition sync_free_sock :: "sync_io \<Rightarrow> addr \<Rightarrow> sync_io" where
  "sync_free_sock s k = (sync_chk_sock s k)\<lparr>sy_socks := (sy_socks s)(k := None)\<rparr>"

definition sync_free_task :: "sync_io \<Rightarrow> addr \<Rightarrow> sync_io" where
  "sync_free_task s t =
     (if sy_tasks s t = None then m_flag s else s)\<lparr>sy_tasks := (sy_tasks s)(t := None)\<rparr>"

subsection \<open>Task construction\<close>

definition sync_task_res :: "os \<Rightarrow> myio_result \<Rightarrow> sync_io \<Rightarrow> ptr \<times> sync_io" where
  "sync_task_res os r s =
     (let (p, s) = sys_alloc os s in
      case p of
        None \<Rightarrow> (None, s)
      | Some t \<Rightarrow> (Some t, s\<lparr>sy_tasks := (sy_tasks s)(t \<mapsto> \<lparr>sy_res = r\<rparr>)\<rparr>))"

definition sync_task_err :: "os \<Rightarrow> int \<Rightarrow> sync_io \<Rightarrow> ptr \<times> sync_io" where
  "sync_task_err os e s = sync_task_res os (r_err e) s"

definition sync_task_ok :: "os \<Rightarrow> int \<Rightarrow> ptr \<Rightarrow> sync_io \<Rightarrow> ptr \<times> sync_io" where
  "sync_task_ok os v p s = sync_task_res os (r_ok v p) s"

definition sync_task_from :: "os \<Rightarrow> answer \<Rightarrow> sync_io \<Rightarrow> ptr \<times> sync_io" where
  "sync_task_from os a s = sync_task_res os (r_from (a_ret a) (a_errno a)) s"

subsection \<open>Files, timers, spawned functions\<close>

definition sync_open :: "os \<Rightarrow> sync_io \<Rightarrow> string \<Rightarrow> int \<Rightarrow> int \<Rightarrow> ptr \<times> sync_io" where
  "sync_open os s path flags mode =
     (let (a, s) = sys_call os (C_open path flags mode) s in sync_task_from os a s)"

definition sync_close :: "os \<Rightarrow> sync_io \<Rightarrow> int \<Rightarrow> ptr \<times> sync_io" where
  "sync_close os s fd =
     (let (a, s) = sys_call os (C_close (c_int fd)) s in sync_task_from os a s)"

definition sync_read :: "os \<Rightarrow> sync_io \<Rightarrow> int \<Rightarrow> addr \<Rightarrow> nat \<Rightarrow> int \<Rightarrow> ptr \<times> sync_io" where
  "sync_read os s fd buf len offset =
     (let (a, s) = sys_call os (if offset = MYIO_NO_OFFSET then C_read (c_int fd) buf len
                                else C_pread (c_int fd) buf len offset) s
      in sync_task_from os a s)"

definition sync_write :: "os \<Rightarrow> sync_io \<Rightarrow> int \<Rightarrow> byte list \<Rightarrow> int \<Rightarrow> ptr \<times> sync_io" where
  "sync_write os s fd buf offset =
     (let (a, s) = sys_call os (if offset = MYIO_NO_OFFSET then C_write (c_int fd) buf
                                else C_pwrite (c_int fd) buf offset) s
      in sync_task_from os a s)"

text \<open>The sleep resumes with the time that remains as long as it is interrupted.\<close>

partial_function (option) sync_sleep_loop :: "os \<Rightarrow> int \<times> int \<Rightarrow> sync_io \<Rightarrow> sync_io option" where
  "sync_sleep_loop os ts s =
     (let (a, s) = sys_call os (C_nanosleep (fst ts) (snd ts)) s in
      if a_ret a \<noteq> 0 \<and> a_errno a = EINTR then sync_sleep_loop os (a_rem a) s else Some s)"

definition sync_sleep :: "os \<Rightarrow> sync_io \<Rightarrow> nat \<Rightarrow> (ptr \<times> sync_io) option" where
  "sync_sleep os s ms =
     map_option (\<lambda>s. sync_task_res os (r_from 0 0) s)
       (sync_sleep_loop os (int (ms div 1000), int (ms mod 1000) * 1000000) s)"

definition sync_spawn :: "os \<Rightarrow> sync_io \<Rightarrow> addr \<Rightarrow> addr \<Rightarrow> ptr \<times> sync_io" where
  "sync_spawn os s fn arg =
     (let (a, s) = sys_call os (C_fn fn arg) s; rc = a_ret a in
      if rc \<ge> 0 then sync_task_ok os rc None s else sync_task_err os (c_int (- rc)) s)"

subsection \<open>TCP\<close>

definition sync_wrap_fd :: "os \<Rightarrow> int \<Rightarrow> sync_io \<Rightarrow> ptr \<times> sync_io" where
  "sync_wrap_fd os fd s =
     (let (p, s) = sys_alloc os s in
      case p of
        None \<Rightarrow> (let (_, s) = sys_call os (C_close fd) s in (None, s))
      | Some k \<Rightarrow> sync_task_ok os 0 (Some k) (s\<lparr>sy_socks := (sy_socks s)(k \<mapsto> \<lparr>sy_fd = fd\<rparr>)\<rparr>))"

definition sync_tcp_connect :: "os \<Rightarrow> sync_io \<Rightarrow> string \<Rightarrow> int \<Rightarrow> ptr \<times> sync_io" where
  "sync_tcp_connect os s host port =
     (let ((fd, err), s) = myio_posix_connect os host port s in
      if fd \<ge> 0 then sync_wrap_fd os fd s else sync_task_err os err s)"

definition sync_tcp_listen :: "os \<Rightarrow> sync_io \<Rightarrow> string \<Rightarrow> int \<Rightarrow> int \<Rightarrow> ptr \<times> int option \<times> sync_io" where
  "sync_tcp_listen os s host port backlog =
     (let ((fd, err), s) = myio_posix_listen os host port backlog s in
      if fd < 0 then (None, err, s)
      else
        let (p, s) = sys_alloc os s in
        case p of
          None \<Rightarrow> (let (_, s) = sys_call os (C_close fd) s in (None, Some ENOMEM, s))
        | Some k \<Rightarrow> (Some k, None, s\<lparr>sy_socks := (sy_socks s)(k \<mapsto> \<lparr>sy_fd = fd\<rparr>)\<rparr>))"

definition sync_tcp_accept :: "os \<Rightarrow> sync_io \<Rightarrow> addr \<Rightarrow> ptr \<times> sync_io" where
  "sync_tcp_accept os s listener =
     (let s = sync_chk_sock s listener;
          (a, s) = sys_call os (C_accept (sy_fd (sync_sock_at s listener))) s
      in if a_ret a \<ge> 0 then sync_wrap_fd os (a_ret a) s else sync_task_err os (a_errno a) s)"

definition sync_sock_read :: "os \<Rightarrow> sync_io \<Rightarrow> addr \<Rightarrow> addr \<Rightarrow> nat \<Rightarrow> ptr \<times> sync_io" where
  "sync_sock_read os s sock buf len =
     (let s = sync_chk_sock s sock;
          (a, s) = sys_call os (C_recv (sy_fd (sync_sock_at s sock)) buf len) s
      in sync_task_from os a s)"

text \<open>
  The send loop: the rest of the buffer is sent again and again until it is gone.
  An interrupted call is retried, any other failure is the task's error.
\<close>

partial_function (option) sync_send_loop ::
  "os \<Rightarrow> int \<Rightarrow> byte list \<Rightarrow> nat \<Rightarrow> sync_io \<Rightarrow> (int option \<times> sync_io) option" where
  "sync_send_loop os fd buf off s =
     (if off < length buf then
        let (a, s) = sys_call os (C_send fd (drop off buf)) s in
        if a_ret a < 0 then
          if a_errno a = EINTR then sync_send_loop os fd buf off s
          else Some (Some (a_errno a), s)
        else sync_send_loop os fd buf (off + nat (a_ret a)) s
      else Some (None, s))"

definition sync_sock_write :: "os \<Rightarrow> sync_io \<Rightarrow> addr \<Rightarrow> byte list \<Rightarrow> (ptr \<times> sync_io) option" where
  "sync_sock_write os s sock buf =
     (let s = sync_chk_sock s sock in
      map_option (\<lambda>(e, s). case e of
          Some err \<Rightarrow> sync_task_err os err s
        | None \<Rightarrow> sync_task_ok os (int (length buf)) None s)
        (sync_send_loop os (sy_fd (sync_sock_at s sock)) buf 0 s))"

definition sync_sock_close :: "os \<Rightarrow> sync_io \<Rightarrow> addr \<Rightarrow> ptr \<times> sync_io" where
  "sync_sock_close os s sock =
     (let s = sync_chk_sock s sock;
          (a, s) = sys_call os (C_close (sy_fd (sync_sock_at s sock))) s;
          s = sync_free_sock s sock
      in sync_task_from os a s)"

definition sync_sock_port :: "os \<Rightarrow> sync_io \<Rightarrow> addr \<Rightarrow> int \<times> sync_io" where
  "sync_sock_port os s sock =
     (let s = sync_chk_sock s sock in myio_local_port os (sy_fd (sync_sock_at s sock)) s)"

subsection \<open>Synchronisation and lifetime\<close>

definition sync_step :: "sync_io \<Rightarrow> bool \<times> sync_io" where
  "sync_step s = (False, s)"

definition sync_cancel :: "sync_io \<Rightarrow> addr \<Rightarrow> int \<times> sync_io" where
  "sync_cancel s t = (- 1, s)"

definition sync_task_result :: "sync_io \<Rightarrow> addr \<Rightarrow> myio_result" where
  "sync_task_result s t = sy_res (sync_task_at s t)"

definition sync_task_done :: "sync_io \<Rightarrow> addr \<Rightarrow> bool" where
  "sync_task_done s t = True"

definition sync_caps :: "sync_io \<Rightarrow> 32 word" where
  "sync_caps s = 0"

definition sync_task_free :: "sync_io \<Rightarrow> addr \<Rightarrow> sync_io" where
  "sync_task_free s t = sync_free_task s t"

text \<open>Discarding a result closes the socket it won.\<close>

definition sync_task_detach :: "os \<Rightarrow> sync_io \<Rightarrow> addr \<Rightarrow> sync_io" where
  "sync_task_detach os s t =
     (let s = (case res_ptr (sy_res (sync_task_at s t)) of
                 None \<Rightarrow> s
               | Some k \<Rightarrow>
                   let s = sync_chk_sock s k;
                       (_, s) = sys_call os (C_close (sy_fd (sync_sock_at s k))) s
                   in sync_free_sock s k)
      in sync_free_task s t)"

definition sync_destroy :: "sync_io \<Rightarrow> sync_io" where
  "sync_destroy s = s"

definition myio_sync_new :: "os \<Rightarrow> mach \<Rightarrow> sync_io option \<times> mach" where
  "myio_sync_new os m =
     (let (p, m) = sys_alloc os m in
      case p of
        None \<Rightarrow> (None, m)
      | Some _ \<Rightarrow> (Some (mach.extend m \<lparr>sy_tasks = Map.empty, sy_socks = Map.empty\<rparr>), m))"

definition sync_ops :: "os \<Rightarrow> sync_io myio_ops" where
  "sync_ops os = \<lparr>
     ops_open = \<lambda>s p f m. Some (sync_open os s p f m),
     ops_close = \<lambda>s fd. Some (sync_close os s fd),
     ops_read = \<lambda>s fd b n off. Some (sync_read os s fd b n off),
     ops_write = \<lambda>s fd b off. Some (sync_write os s fd b off),
     ops_sleep = \<lambda>s ms. sync_sleep os s ms,
     ops_spawn = \<lambda>s fn arg. Some (sync_spawn os s fn arg),
     ops_tcp_connect = \<lambda>s h p. Some (sync_tcp_connect os s h p),
     ops_tcp_listen = \<lambda>s h p b. Some (sync_tcp_listen os s h p b),
     ops_tcp_accept = \<lambda>s l. Some (sync_tcp_accept os s l),
     ops_sock_read = \<lambda>s k b n. Some (sync_sock_read os s k b n),
     ops_sock_write = \<lambda>s k b. sync_sock_write os s k b,
     ops_sock_close = \<lambda>s k. Some (sync_sock_close os s k),
     ops_sock_port = \<lambda>s k. sync_sock_port os s k,
     ops_step = \<lambda>s. Some (sync_step s),
     ops_cancel = \<lambda>s t. Some (sync_cancel s t),
     ops_task_result = sync_task_result,
     ops_error_str = \<lambda>s e. myio_default_error_str os e s,
     ops_caps = sync_caps,
     ops_task_done = sync_task_done,
     ops_task_free = \<lambda>s t. Some (sync_task_free s t),
     ops_task_detach = sync_task_detach os,
     ops_destroy = \<lambda>s. Some (sync_destroy s)\<rparr>"

subsection \<open>The invariant\<close>

text \<open>
  Nothing undefined has happened; every task carries a final result; and a socket
  won by one task is not in the result of another.
\<close>

definition sync_won :: "sync_io \<Rightarrow> addr \<Rightarrow> ptr" where
  "sync_won s t = (case sy_tasks s t of None \<Rightarrow> None | Some x \<Rightarrow> res_ptr (sy_res x))"

definition sync_inv :: "sync_io \<Rightarrow> bool" where
  "sync_inv s \<longleftrightarrow> \<not> m_fault s \<and>
     (\<forall>t x. sy_tasks s t = Some x \<longrightarrow> t < m_brk s \<and> res_status (sy_res x) \<noteq> MYIO_PENDING) \<and>
     (\<forall>k \<in> dom (sy_socks s). k < m_brk s) \<and>
     (\<forall>t k. sync_won s t = Some k \<longrightarrow> k < m_brk s) \<and>
     (\<forall>t t' k. sync_won s t = Some k \<longrightarrow> sync_won s t' = Some k \<longrightarrow> t = t')"

definition sync_handles :: "sync_io \<Rightarrow> addr set" where
  "sync_handles s = dom (sy_tasks s)"

definition sync_droppable :: "sync_io \<Rightarrow> addr \<Rightarrow> bool" where
  "sync_droppable s t \<longleftrightarrow> (\<forall>k. sync_won s t = Some k \<longrightarrow> k \<in> dom (sy_socks s))"

lemma sync_inv_trace [simp]: "sync_inv (s\<lparr>m_trace := tr\<rparr>) = sync_inv s"
  by (simp add: sync_inv_def sync_won_def)

lemma sync_at_trace [simp]:
  "sync_task_at (s\<lparr>m_trace := tr\<rparr>) t = sync_task_at s t"
  "sync_sock_at (s\<lparr>m_trace := tr\<rparr>) k = sync_sock_at s k"
  "sync_won (s\<lparr>m_trace := tr\<rparr>) = sync_won s"
  by (simp_all add: sync_task_at_def sync_sock_at_def sync_won_def fun_eq_iff)

text \<open>\<open>sync_grows s s'\<close>: only fresh objects were added.\<close>

definition sync_grows :: "sync_io \<Rightarrow> sync_io \<Rightarrow> bool" where
  "sync_grows s s' \<longleftrightarrow> sync_inv s' \<and> sy_tasks s \<subseteq>\<^sub>m sy_tasks s' \<and>
     dom (sy_socks s) \<subseteq> dom (sy_socks s') \<and> m_brk s \<le> m_brk s'"

lemma sync_grows_trans: "sync_grows a b \<Longrightarrow> sync_grows b c \<Longrightarrow> sync_grows a c"
  by (auto simp: sync_grows_def intro: map_le_trans)

lemma sync_grows_trace: "sync_inv s \<Longrightarrow> sync_grows s (s\<lparr>m_trace := tr\<rparr>)"
  by (simp add: sync_grows_def)

lemma sync_task_res_inv:
  assumes "sync_inv s" and "res_status r \<noteq> MYIO_PENDING"
    and "\<And>k. res_ptr r = Some k \<Longrightarrow> k < m_brk s \<and> (\<forall>t. sync_won s t \<noteq> Some k)"
    and "sync_task_res os r s = (p, s')"
  shows "sync_grows s s'" and "\<And>t. p = Some t \<Longrightarrow> sy_tasks s t = None \<and> sy_tasks s' t = Some \<lparr>sy_res = r\<rparr>"
    and "sy_socks s' = sy_socks s"
proof -
  have fresh: "sy_tasks s (m_brk s) = None"
    using assms(1) by (cases "sy_tasks s (m_brk s)") (auto simp: sync_inv_def)
  show "sync_grows s s'"
    using assms fresh
    by (auto simp: sync_task_res_def sys_alloc_def sys_call_def Let_def sync_grows_def sync_inv_def
        sync_won_def map_le_def less_Suc_eq split: if_splits option.splits)
  show "\<And>t. p = Some t \<Longrightarrow> sy_tasks s t = None \<and> sy_tasks s' t = Some \<lparr>sy_res = r\<rparr>"
    and "sy_socks s' = sy_socks s"
    using assms(4) fresh
    by (auto simp: sync_task_res_def sys_alloc_def sys_call_def Let_def split: if_splits)
qed

text \<open>Every submit goes through a final result without a socket, or through \<open>sync_wrap_fd\<close>.\<close>

lemma sync_plain_inv:
  assumes "sync_inv s" and "res_status r \<noteq> MYIO_PENDING" and "res_ptr r = None"
    and "sync_task_res os r (s\<lparr>m_trace := tr\<rparr>) = (p, s')"
  shows "sync_grows s s'"
    and "\<And>t. p = Some t \<Longrightarrow> sy_tasks s t = None \<and> sy_tasks s' t = Some \<lparr>sy_res = r\<rparr>"
  using sync_task_res_inv [of "s\<lparr>m_trace := tr\<rparr>" r os p s'] assms
  by (auto simp: sync_grows_def)

lemma sync_wrap_fd_inv:
  assumes "sync_inv s" and "sync_wrap_fd os fd s = (p, s')"
  shows "sync_grows s s'"
proof (cases "a_ret (os (m_trace s) C_alloc) = 0")
  case True
  with assms show ?thesis
    by (auto simp: sync_wrap_fd_def sys_alloc_def sys_call_def Let_def sync_grows_def)
next
  case False
  let ?s = "s\<lparr>m_trace := (C_alloc, os (m_trace s) C_alloc) # m_trace s, m_brk := Suc (m_brk s),
    sy_socks := (sy_socks s)(m_brk s \<mapsto> \<lparr>sy_fd = fd\<rparr>)\<rparr>"
  have won: "sync_won ?s = sync_won s" by (simp add: sync_won_def fun_eq_iff)
  have i: "sync_inv ?s"
    using assms(1) by (auto simp: sync_inv_def won less_Suc_eq)
  have g: "sync_grows s ?s" using assms(1) i by (auto simp: sync_grows_def)
  have eq: "sync_task_res os (r_ok 0 (Some (m_brk s))) ?s = (p, s')"
    using assms(2) False
    by (simp add: sync_wrap_fd_def sys_alloc_def sys_call_def Let_def sync_task_ok_def)
  have "sync_grows ?s s'"
    by (rule sync_task_res_inv(1) [OF i _ _ eq]) (use assms(1) in \<open>auto simp: won sync_inv_def\<close>)
  with g show ?thesis by (rule sync_grows_trans)
qed

lemmas sync_submit_defs = sync_task_from_def sync_task_err_def sync_task_ok_def

lemma sync_sleep_loop_trace:
  assumes "sync_sleep_loop os ts s = Some s'"
  shows "\<exists>tr. s' = s\<lparr>m_trace := tr\<rparr>"
proof (rule sync_sleep_loop.raw_induct
    [where P = "\<lambda>os ts s s'. \<exists>tr. s' = s\<lparr>m_trace := tr\<rparr>", OF _ assms])
  fix f :: "os \<Rightarrow> int \<times> int \<Rightarrow> sync_io \<Rightarrow> sync_io option" and os ts and s s' :: sync_io
  assume IH: "\<And>os ts s s'. f os ts s = Some s' \<Longrightarrow> \<exists>tr. s' = s\<lparr>m_trace := tr\<rparr>"
    and eq: "(let (a, s) = sys_call os (C_nanosleep (fst ts) (snd ts)) s in
      if a_ret a \<noteq> 0 \<and> a_errno a = EINTR then f os (a_rem a) s else Some s) = Some s'"
  then show "\<exists>tr. s' = s\<lparr>m_trace := tr\<rparr>"
    by (auto simp: sys_call_def Let_def split: if_splits dest!: IH)
qed

lemma sync_send_loop_trace:
  assumes "sync_send_loop os fd buf off s = Some (e, s')"
  shows "\<exists>tr. s' = s\<lparr>m_trace := tr\<rparr>"
proof -
  have "\<exists>tr. snd (e, s') = s\<lparr>m_trace := tr\<rparr>"
  proof (rule sync_send_loop.raw_induct
      [where P = "\<lambda>os fd buf off s y. \<exists>tr. snd y = s\<lparr>m_trace := tr\<rparr>", OF _ assms])
    fix f :: "os \<Rightarrow> int \<Rightarrow> byte list \<Rightarrow> nat \<Rightarrow> sync_io \<Rightarrow> (int option \<times> sync_io) option"
      and os fd buf off and s :: sync_io and y
    assume IH: "\<And>os fd buf off s y. f os fd buf off s = Some y \<Longrightarrow> \<exists>tr. snd y = s\<lparr>m_trace := tr\<rparr>"
      and eq: "(if off < length buf then
        let (a, s) = sys_call os (C_send fd (drop off buf)) s in
        if a_ret a < 0 then
          if a_errno a = EINTR then f os fd buf off s else Some (Some (a_errno a), s)
        else f os fd buf (off + nat (a_ret a)) s
      else Some (None, s)) = Some y"
    then show "\<exists>tr. snd y = s\<lparr>m_trace := tr\<rparr>"
      by (auto simp: sys_call_def Let_def split: if_splits dest!: IH intro: exI [of _ "m_trace s"])
  qed
  then show ?thesis by simp
qed

subsection \<open>Every call keeps the invariant\<close>

definition sync_usable :: "sync_io \<Rightarrow> addr set" where
  "sync_usable s = dom (sy_socks s)"

lemma sync_plain_submit:
  assumes "sync_inv s" and "res_status r \<noteq> MYIO_PENDING" and "res_ptr r = None"
  shows "sync_grows s (snd (sync_task_res os r (s\<lparr>m_trace := tr\<rparr>)))"
  using sync_plain_inv(1) [OF assms, of os tr] by (cases "sync_task_res os r (s\<lparr>m_trace := tr\<rparr>)") auto

lemma sync_chk_sock_live: "k \<in> dom (sy_socks s) \<Longrightarrow> sync_chk_sock s k = s"
  by (auto simp: sync_chk_sock_def)

lemma sync_wrap_submit: "sync_inv s \<Longrightarrow> sync_grows s (snd (sync_wrap_fd os fd (s\<lparr>m_trace := tr\<rparr>)))"
proof -
  assume i: "sync_inv s"
  have "sync_grows (s\<lparr>m_trace := tr\<rparr>) (snd (sync_wrap_fd os fd (s\<lparr>m_trace := tr\<rparr>)))"
    by (rule sync_wrap_fd_inv [of _ os fd "fst (sync_wrap_fd os fd (s\<lparr>m_trace := tr\<rparr>))"]) (use i in simp_all)
  then show ?thesis by (auto simp: sync_grows_def)
qed

text \<open>The submits that involve no socket of the caller, on every branch.\<close>

lemma sync_file_grows:
  assumes "sync_inv s"
  shows "sync_grows s (snd (sync_open os s path flags mode))"
    and "sync_grows s (snd (sync_close os s fd))"
    and "sync_grows s (snd (sync_read os s fd b n off))"
    and "sync_grows s (snd (sync_write os s fd bs off))"
    and "sync_grows s (snd (sync_spawn os s fn arg))"
  using assms
  by (simp_all add: sync_open_def sync_close_def sync_read_def sync_write_def sync_spawn_def
      sync_submit_defs sys_call_def Let_def sync_plain_submit)

lemma sync_sleep_grows:
  assumes "sync_inv s" and "sync_sleep os s ms = Some (p, s')"
  shows "sync_grows s s'" and "\<And>t. p = Some t \<Longrightarrow> sy_tasks s t = None \<and> sy_tasks s' t = Some \<lparr>sy_res = r_from 0 0\<rparr>"
proof -
  from assms(2) obtain s1 where lp: "sync_sleep_loop os (int (ms div 1000), int (ms mod 1000) * 1000000) s = Some s1"
    and r: "sync_task_res os (r_from 0 0) s1 = (p, s')" by (auto simp: sync_sleep_def)
  from sync_sleep_loop_trace [OF lp] obtain tr where s1: "s1 = s\<lparr>m_trace := tr\<rparr>" ..
  note res = sync_plain_inv [OF assms(1) r_from_final r [unfolded s1]]
  show "sync_grows s s'" by (rule res(1))
  show "\<And>t. p = Some t \<Longrightarrow> sy_tasks s t = None \<and> sy_tasks s' t = Some \<lparr>sy_res = r_from 0 0\<rparr>" by (rule res(2))
qed

lemma sync_connect_grows:
  assumes "sync_inv s"
  shows "sync_grows s (snd (sync_tcp_connect os s host port))"
proof -
  obtain fd err s1 where c: "myio_posix_connect os host port s = ((fd, err), s1)"
    by (metis surj_pair)
  from posix_connect_state [OF c] obtain tr where s1: "s1 = s\<lparr>m_trace := tr\<rparr>" ..
  with assms c show ?thesis
    by (simp add: sync_tcp_connect_def sync_submit_defs sync_plain_submit sync_wrap_submit)
qed

lemma sync_listen_grows:
  assumes "gai_ok os" and "sync_inv s"
  shows "sync_grows s (snd (snd (sync_tcp_listen os s host port backlog)))"
proof -
  obtain fd err s1 where c: "myio_posix_listen os host port backlog s = ((fd, err), s1)"
    by (metis surj_pair)
  from posix_listen_state [OF assms(1) c] obtain tr where s1: "s1 = s\<lparr>m_trace := tr\<rparr>" ..
  have won: "sync_won (s\<lparr>m_trace := t, m_brk := b, sy_socks := k\<rparr>) = sync_won s" for t b k
    by (simp add: sync_won_def fun_eq_iff)
  from assms(2) c s1 show ?thesis
    by (auto simp: sync_tcp_listen_def sys_alloc_def sys_call_def Let_def sync_grows_def sync_inv_def won less_Suc_eq)
qed

lemma sync_sock_grows:
  assumes "sync_inv s" and "k \<in> dom (sy_socks s)"
  shows "sync_grows s (snd (sync_tcp_accept os s k))"
    and "sync_grows s (snd (sync_sock_read os s k b n))"
  using assms
  by (simp_all add: sync_tcp_accept_def sync_sock_read_def sync_submit_defs sync_chk_sock_live
      sys_call_def Let_def sync_plain_submit sync_wrap_submit)

lemma sync_sock_write_grows:
  assumes "sync_inv s" and "k \<in> dom (sy_socks s)" and "sync_sock_write os s k buf = Some (p, s')"
  shows "sync_grows s s'"
proof -
  from assms(2,3) obtain e s1 where lp: "sync_send_loop os (sy_fd (sync_sock_at s k)) buf 0 s = Some (e, s1)"
    and r: "(case e of Some err \<Rightarrow> sync_task_err os err s1
       | None \<Rightarrow> sync_task_ok os (int (length buf)) None s1) = (p, s')"
    by (auto simp: sync_sock_write_def sync_chk_sock_live)
  from sync_send_loop_trace [OF lp] obtain tr where s1: "s1 = s\<lparr>m_trace := tr\<rparr>" ..
  from r s1 assms(1) show ?thesis
    by (cases e) (auto simp: sync_submit_defs dest: sync_plain_inv(1) [OF assms(1), rotated 2])
qed

lemma sync_sock_close_inv:
  assumes "sync_inv s" and "k \<in> dom (sy_socks s)"
  shows "sync_inv (snd (sync_sock_close os s k))"
proof -
  let ?s = "s\<lparr>sy_socks := (sy_socks s)(k := None)\<rparr>"
  have won: "sync_won ?s = sync_won s" by (simp add: sync_won_def fun_eq_iff)
  have i: "sync_inv ?s" using assms(1) by (auto simp: sync_inv_def won)
  have sw: "s\<lparr>m_trace := tr, sy_socks := f\<rparr> = s\<lparr>sy_socks := f, m_trace := tr\<rparr>" for tr f by simp
  have "sync_inv (snd (sync_task_res os (r_from a b) (s\<lparr>m_trace := tr, sy_socks := (sy_socks s)(k := None)\<rparr>)))"
    for a b tr
    unfolding sw using sync_plain_submit [OF i, of "r_from a b" os tr] by (simp add: sync_grows_def)
  with assms show ?thesis
    by (auto simp: sync_sock_close_def sync_chk_sock_live sync_free_sock_def sys_call_def Let_def sync_submit_defs)
qed

lemma sync_free_evolves:
  assumes "sync_inv s" and "t \<in> sync_handles s"
  shows "evolves (sync_ops os) sync_inv sync_handles sync_droppable s {t} (sync_task_free s t)"
    and "t \<notin> sync_handles (sync_task_free s t)"
  using assms
  by (auto simp: evolves_def sync_task_free_def sync_free_task_def sync_inv_def sync_won_def sync_handles_def
      sync_droppable_def sync_ops_def sync_task_result_def sync_task_at_def split: option.splits)

lemma sync_detach_evolves:
  assumes "sync_inv s" and "t \<in> sync_handles s" and "sync_droppable s t"
  shows "evolves (sync_ops os) sync_inv sync_handles sync_droppable s {t} (sync_task_detach os s t)"
    and "t \<notin> sync_handles (sync_task_detach os s t)"
proof -
  obtain x where x: "sy_tasks s t = Some x" using assms(2) by (auto simp: sync_handles_def)
  show "t \<notin> sync_handles (sync_task_detach os s t)"
    by (simp add: sync_handles_def sync_task_detach_def sync_free_task_def Let_def)
  show "evolves (sync_ops os) sync_inv sync_handles sync_droppable s {t} (sync_task_detach os s t)"
  proof (cases "res_ptr (sy_res x)")
    case None
    with x have "sync_task_detach os s t = sync_task_free s t"
      by (simp add: sync_task_detach_def sync_task_free_def sync_task_at_def)
    with sync_free_evolves [OF assms(1,2)] show ?thesis by simp
  next
    case (Some k)
    with x assms(3) have k: "k \<in> dom (sy_socks s)" by (simp add: sync_droppable_def sync_won_def)
    define s' where "s' = sync_task_detach os s t"
    from k x Some have s': "m_fault s' = m_fault s" "m_brk s' = m_brk s"
      "sy_tasks s' = (sy_tasks s)(t := None)" "sy_socks s' = (sy_socks s)(k := None)"
      by (auto simp: s'_def sync_task_detach_def sync_task_at_def sync_chk_sock_live sync_free_sock_def
          sync_free_task_def sys_call_def Let_def)
    have wt: "sync_won s t = Some k" using x Some by (simp add: sync_won_def)
    have won: "sync_won s' t' = (if t' = t then None else sync_won s t')" for t'
      by (simp add: sync_won_def s')
    have inj: "sync_won s t' = Some k \<Longrightarrow> t' = t" for t' using assms(1) wt by (auto simp: sync_inv_def)
    have "sync_inv s'" using assms(1) by (auto simp: sync_inv_def s' won split: if_splits)
    moreover have "sync_droppable s t' \<Longrightarrow> t' \<noteq> t \<Longrightarrow> sync_droppable s' t'" for t'
      using inj [of t'] by (auto simp: sync_droppable_def s' won)
    ultimately have "evolves (sync_ops os) sync_inv sync_handles sync_droppable s {t} s'"
      by (auto simp: evolves_def sync_handles_def sync_ops_def sync_task_result_def sync_task_at_def s')
    then show ?thesis by (simp add: s'_def)
  qed
qed

subsection \<open>The backend implements the interface\<close>

lemma sync_grows_evolves:
  assumes "sync_inv s" and "sync_grows s s'"
  shows "evolves (sync_ops os) sync_inv sync_handles sync_droppable s {} s'"
proof -
  have tk: "sy_tasks s' t = Some x" if "sy_tasks s t = Some x" for t x
    using assms(2) that by (auto simp: sync_grows_def map_le_def dom_def)
  then have "sync_won s' t = sync_won s t" if "t \<in> dom (sy_tasks s)" for t
    using that by (auto simp: sync_won_def)
  with tk assms(2) show ?thesis
    by (fastforce simp: evolves_def sync_handles_def sync_droppable_def sync_ops_def sync_task_result_def
        sync_task_at_def sync_grows_def)
qed

interpretation sync: progress_backend "sync_ops os" sync_inv sync_handles sync_droppable "\<lambda>_. 0" for os
proof
  fix st st' :: sync_io and t b ms p rc
  assume i: "sync_inv st"
  show "ops_step (sync_ops os) st \<noteq> None" by (simp add: sync_ops_def)
  show "t \<in> sync_handles st \<Longrightarrow> ops_task_done (sync_ops os) st t =
      (res_status (ops_task_result (sync_ops os) st t) \<noteq> MYIO_PENDING)"
    using i by (auto simp: sync_ops_def sync_task_done_def sync_task_result_def sync_task_at_def
        sync_handles_def sync_inv_def)
  show "ops_step (sync_ops os) st = Some (False, st') \<Longrightarrow> t \<in> sync_handles st \<Longrightarrow>
      ops_task_done (sync_ops os) st' t \<Longrightarrow> ops_task_done (sync_ops os) st t"
    by (simp add: sync_ops_def sync_task_done_def)
  show "ops_step (sync_ops os) st = Some (False, st') \<Longrightarrow> t \<in> sync_handles st \<Longrightarrow>
      ops_task_done (sync_ops os) st t"
    by (simp add: sync_ops_def sync_task_done_def)
  show "ops_step (sync_ops os) st = Some (b, st') \<Longrightarrow>
      evolves (sync_ops os) sync_inv sync_handles sync_droppable st {} st'"
    using i by (auto simp: sync_ops_def sync_step_def evolves_def)
  show "ops_step (sync_ops os) st = Some (True, st') \<Longrightarrow> (0::nat) < 0"
    by (simp add: sync_ops_def sync_step_def)
  show "ops_sleep (sync_ops os) st ms = Some (p, st') \<Longrightarrow>
      evolves (sync_ops os) sync_inv sync_handles sync_droppable st {} st'"
    using i sync_sleep_grows(1) [OF i, of os ms p st'] by (simp add: sync_ops_def sync_grows_evolves [unfolded sync_ops_def])
  show "ops_sleep (sync_ops os) st ms = Some (Some t, st') \<Longrightarrow>
      t \<in> sync_handles st' - sync_handles st \<and> sync_droppable st' t"
    using sync_sleep_grows(2) [OF i, of os ms "Some t" st' t]
    by (auto simp: sync_ops_def sync_handles_def sync_droppable_def sync_won_def)
  show "ops_cancel (sync_ops os) st t = Some (rc, st') \<Longrightarrow>
      evolves (sync_ops os) sync_inv sync_handles sync_droppable st {} st' \<and> rc \<in> {0, - 1}"
    using i by (auto simp: sync_ops_def sync_cancel_def evolves_def)
  show "t \<in> sync_handles st \<Longrightarrow> ops_task_free (sync_ops os) st t = Some st' \<Longrightarrow>
      evolves (sync_ops os) sync_inv sync_handles sync_droppable st {t} st' \<and> t \<notin> sync_handles st'"
    using sync_free_evolves(1) [OF i, of t os] sync_free_evolves(2) [OF i, of t] by (auto simp: sync_ops_def)
  show "t \<in> sync_handles st \<Longrightarrow> sync_droppable st t \<Longrightarrow>
      evolves (sync_ops os) sync_inv sync_handles sync_droppable st {t} (ops_task_detach (sync_ops os) st t) \<and>
      t \<notin> sync_handles (ops_task_detach (sync_ops os) st t)"
    using sync_detach_evolves [OF i, of t os] by (auto simp: sync_ops_def)
qed

lemma sync_ops_sel [simp]:
  "ops_open (sync_ops os) s p f m = Some (sync_open os s p f m)"
  "ops_close (sync_ops os) s fd = Some (sync_close os s fd)"
  "ops_read (sync_ops os) s fd b n off = Some (sync_read os s fd b n off)"
  "ops_write (sync_ops os) s fd bs off = Some (sync_write os s fd bs off)"
  "ops_sleep (sync_ops os) s ms = sync_sleep os s ms"
  "ops_spawn (sync_ops os) s fn arg = Some (sync_spawn os s fn arg)"
  "ops_tcp_connect (sync_ops os) s h port = Some (sync_tcp_connect os s h port)"
  "ops_tcp_listen (sync_ops os) s h port bl = Some (sync_tcp_listen os s h port bl)"
  "ops_tcp_accept (sync_ops os) s k = Some (sync_tcp_accept os s k)"
  "ops_sock_read (sync_ops os) s k b n = Some (sync_sock_read os s k b n)"
  "ops_sock_write (sync_ops os) s k bs = sync_sock_write os s k bs"
  "ops_sock_close (sync_ops os) s k = Some (sync_sock_close os s k)"
  "ops_sock_port (sync_ops os) s k = sync_sock_port os s k"
  "ops_step (sync_ops os) s = Some (sync_step s)"
  "ops_cancel (sync_ops os) s t = Some (sync_cancel s t)"
  "ops_task_free (sync_ops os) s t = Some (sync_task_free s t)"
  "ops_task_detach (sync_ops os) s t = sync_task_detach os s t"
  "ops_task_done (sync_ops os) s t = sync_task_done s t"
  "ops_task_result (sync_ops os) s t = sync_task_result s t"
  by (simp_all add: sync_ops_def)

lemma sync_grows_inv: "sync_grows s s' \<Longrightarrow> sync_inv s'"
  by (simp add: sync_grows_def)

interpretation sync_safe: safe_backend "sync_ops os" "\<lambda>s. gai_ok os \<and> sync_inv s"
  sync_handles sync_droppable sync_usable for os
proof
  fix st st' c
  assume i: "gai_ok os \<and> sync_inv st" and ok: "ucall_ok sync_handles sync_droppable sync_usable st c"
    and ex: "exec_ucall (sync_ops os) st c = Some st'"
  have g: "gai_ok os" and i: "sync_inv st" using i by auto
  have "sync_inv st'"
  proof (cases c)
    case (U_tcp_listen h port b)
    with ex sync_listen_grows [OF g i] show ?thesis by (auto intro: sync_grows_inv)
  next
    case (U_sleep ms)
    with ex show ?thesis by (auto intro: sync_grows_inv dest: sync_sleep_grows(1) [OF i])
  next
    case (U_sock_write k b)
    with ex ok show ?thesis
      by (auto simp: sync_usable_def intro: sync_grows_inv dest: sync_sock_write_grows [OF i, rotated])
  next
    case (U_sock_port k)
    with ex ok i show ?thesis
      by (auto simp: sync_usable_def sync_sock_port_def sync_chk_sock_live myio_local_port_def sys_call_def Let_def)
  next
    case (U_task_free t)
    with ex ok sync_free_evolves(1) [OF i, of t os] show ?thesis by (auto simp: evolves_def)
  next
    case (U_task_detach t)
    with ex ok sync_detach_evolves(1) [OF i, of t os] show ?thesis by (auto simp: evolves_def)
  next
    case (U_sock_close k)
    with ex ok sync_sock_close_inv [OF i] show ?thesis by (auto simp: sync_usable_def)
  qed (use ex ok i in \<open>auto simp: sync_usable_def sync_step_def sync_cancel_def
      intro!: sync_grows_inv sync_file_grows sync_connect_grows sync_sock_grows\<close>)
  with g show "gai_ok os \<and> sync_inv st'" by simp
qed

subsection \<open>Writes: all of the buffer or an error\<close>

text \<open>The bytes a descriptor's peer is sent, in order, read off the trace.\<close>

fun wire :: "int \<Rightarrow> event list \<Rightarrow> byte list" where
  "wire fd [] = []"
| "wire fd ((C_send f bs, a) # tr) =
     (if f = fd \<and> a_ret a \<ge> 0 then wire fd tr @ take (nat (a_ret a)) bs else wire fd tr)"
| "wire fd (_ # tr) = wire fd tr"

lemma sync_send_loop_wire:
  assumes "sync_send_loop os fd buf off s = Some (e, s')"
  shows "case e of
      None \<Rightarrow> wire fd (m_trace s') = wire fd (m_trace s) @ drop off buf
    | Some err \<Rightarrow> \<exists>k. off \<le> k \<and> k < length buf \<and>
        wire fd (m_trace s') = wire fd (m_trace s) @ take (k - off) (drop off buf)"
proof -
  define Q where "Q fd buf off s y \<longleftrightarrow> (case fst y of
      None \<Rightarrow> wire fd (m_trace (snd y)) = wire fd (m_trace s) @ drop off buf
    | Some err \<Rightarrow> \<exists>k. off \<le> k \<and> k < length buf \<and>
        wire fd (m_trace (snd y)) = wire fd (m_trace s) @ take (k - off) (drop off buf))"
    for fd buf off and s :: sync_io and y :: "int option \<times> sync_io"
  have "Q fd buf off s (e, s')"
  proof (rule sync_send_loop.raw_induct
      [where P = "\<lambda>os fd buf off s y. Q fd buf off s y", OF _ assms])
    fix f :: "os \<Rightarrow> int \<Rightarrow> byte list \<Rightarrow> nat \<Rightarrow> sync_io \<Rightarrow> (int option \<times> sync_io) option"
      and os fd buf off and s :: sync_io and y
    assume IH: "\<And>os fd buf off s y. f os fd buf off s = Some y \<Longrightarrow> Q fd buf off s y"
      and eq: "(if off < length buf then
        let (a, s) = sys_call os (C_send fd (drop off buf)) s in
        if a_ret a < 0 then
          if a_errno a = EINTR then f os fd buf off s else Some (Some (a_errno a), s)
        else f os fd buf (off + nat (a_ret a)) s
      else Some (None, s)) = Some y"
    show "Q fd buf off s y"
    proof (cases "off < length buf")
      case False
      with eq have "y = (None, s)" by simp
      with False show ?thesis by (simp add: Q_def)
    next
      case True
      define a where "a = os (m_trace s) (C_send fd (drop off buf))"
      define s1 where "s1 = s\<lparr>m_trace := (C_send fd (drop off buf), a) # m_trace s\<rparr>"
      have eq1: "(if a_ret a < 0 then
          if a_errno a = EINTR then f os fd buf off s1 else Some (Some (a_errno a), s1)
        else f os fd buf (off + nat (a_ret a)) s1) = Some y"
        using eq True by (simp add: sys_call_def Let_def a_def s1_def split: if_splits)
      show ?thesis
      proof (cases "a_ret a < 0")
        case neg: True
        show ?thesis
        proof (cases "a_errno a = EINTR")
          case True
          with eq1 neg IH [of os fd buf off s1 y] show ?thesis
            by (simp add: Q_def s1_def split: option.splits)
        next
          case False
          with eq1 neg \<open>off < length buf\<close> show ?thesis by (auto simp: Q_def s1_def)
        qed
      next
        case False
        define n where "n = nat (a_ret a)"
        have "Q fd buf (off + n) s1 y" using eq1 False IH n_def by simp
        then have q: "case fst y of
            None \<Rightarrow> wire fd (m_trace (snd y)) = wire fd (m_trace s) @ take n (drop off buf) @ drop (off + n) buf
          | Some err \<Rightarrow> \<exists>k. off + n \<le> k \<and> k < length buf \<and> wire fd (m_trace (snd y)) =
              wire fd (m_trace s) @ take n (drop off buf) @ take (k - (off + n)) (drop (off + n) buf)"
          using False by (simp add: Q_def s1_def n_def split: option.splits)
        have d: "take n (drop off buf) @ drop (off + n) buf = drop off buf"
          by (metis append_take_drop_id drop_drop add.commute)
        have "take n (drop off buf) @ take (k - (off + n)) (drop (off + n) buf) = take (k - off) (drop off buf)"
          if "off + n \<le> k" for k
          using that take_add [of n "k - (off + n)" "drop off buf"] by (simp add: add.commute)
        with q d show ?thesis by (fastforce simp: Q_def split: option.splits)
      qed
    qed
  qed
  then show ?thesis by (simp add: Q_def split: option.splits)
qed

text \<open>
  The loop comes to an end when the kernel never reports an interruption and takes
  at least one byte of a non-empty buffer.
\<close>

definition send_advances :: "os \<Rightarrow> bool" where
  "send_advances os \<longleftrightarrow> (\<forall>tr fd bs. bs \<noteq> [] \<longrightarrow>
     a_ret (os tr (C_send fd bs)) \<ge> 1 \<or>
     (a_ret (os tr (C_send fd bs)) < 0 \<and> a_errno (os tr (C_send fd bs)) \<noteq> EINTR))"

lemma sync_send_loop_returns:
  assumes "send_advances os"
  shows "\<exists>e s'. sync_send_loop os fd buf off s = Some (e, s')"
proof (induction "length buf - off" arbitrary: off s rule: less_induct)
  case less
  show ?case
  proof (cases "off < length buf")
    case False
    then show ?thesis by (subst sync_send_loop.simps) simp
  next
    case True
    define a where "a = os (m_trace s) (C_send fd (drop off buf))"
    have a: "a_ret a \<ge> 1 \<or> (a_ret a < 0 \<and> a_errno a \<noteq> EINTR)"
      using assms True by (auto simp: send_advances_def a_def)
    show ?thesis
    proof (cases "a_ret a < 0")
      case neg: True
      with a True show ?thesis by (subst sync_send_loop.simps) (simp add: sys_call_def Let_def a_def)
    next
      case False
      with a True have "length buf - (off + nat (a_ret a)) < length buf - off" by linarith
      from less.hyps [OF this, of "s\<lparr>m_trace := (C_send fd (drop off buf), a) # m_trace s\<rparr>"]
      show ?thesis using False True
        by (subst sync_send_loop.simps) (simp add: sys_call_def Let_def a_def)
    qed
  qed
qed

end
