(* ===== verification/Myio_Demo.thy ===== *)
theory Myio_Demo
  imports Myio_Uring_Ops Myio_Sync
begin

text \<open>
  A concrete environment: allocation succeeds, the resolver knows one address, system
  calls succeed, \<^verbatim>\<open>send\<close> takes everything, and the ring completes requests in the order
  they were made, a send with its full length. It satisfies every hypothesis the
  theorems of the development make about the environment, and the witnesses run on it.
\<close>

fun ring_fifo :: "event list \<Rightarrow> udata list" where
  "ring_fifo [] = []"
| "ring_fifo ((C_sqe q d, a) # tr) = ring_fifo tr @ [d]"
| "ring_fifo ((C_peek_cqe, a) # tr) =
     (case a_cqe a of Some (d, r) \<Rightarrow> remove1 d (ring_fifo tr) | None \<Rightarrow> ring_fifo tr)"
| "ring_fifo (_ # tr) = ring_fifo tr"

fun sqe_of :: "event list \<Rightarrow> udata \<Rightarrow> sqe option" where
  "sqe_of [] d = None"
| "sqe_of ((C_sqe q d', a) # tr) d = (if d' = d then Some q else sqe_of tr d)"
| "sqe_of (_ # tr) d = sqe_of tr d"

definition cqe_res :: "sqe option \<Rightarrow> int" where
  "cqe_res q = (case q of Some (Sqe_send fd bs) \<Rightarrow> int (length bs) | _ \<Rightarrow> 0)"

definition demo_addr :: addrinfo where
  "demo_addr = \<lparr>ai_family = AF_INET, ai_socktype = SOCK_STREAM, ai_protocol = 0,
     ai_addr = \<lparr>ss_family = AF_INET, ss_port = htons 80, ss_addr = ''::1''\<rparr>\<rparr>"

definition demo_os :: os where
  "demo_os tr c = (case c of
     C_alloc \<Rightarrow> answer0\<lparr>a_ret := 1\<rparr>
   | C_strdup s \<Rightarrow> answer0\<lparr>a_ret := 1\<rparr>
   | C_get_sqe \<Rightarrow> answer0\<lparr>a_ret := 1\<rparr>
   | C_inet_pton d h \<Rightarrow> answer0\<lparr>a_ret := 1\<rparr>
   | C_getaddrinfo h v b \<Rightarrow> answer0\<lparr>a_addrs := [demo_addr]\<rparr>
   | C_socket d t p \<Rightarrow> answer0\<lparr>a_ret := int (length tr)\<rparr>
   | C_accept f \<Rightarrow> answer0\<lparr>a_ret := int (length tr)\<rparr>
   | C_open p f m \<Rightarrow> answer0\<lparr>a_ret := int (length tr)\<rparr>
   | C_send fd bs \<Rightarrow> answer0\<lparr>a_ret := int (length bs)\<rparr>
   | C_peek_cqe \<Rightarrow> (case ring_fifo tr of
        [] \<Rightarrow> answer0
      | d # _ \<Rightarrow> answer0\<lparr>a_cqe := Some (d, cqe_res (sqe_of tr d))\<rparr>)
   | _ \<Rightarrow> answer0)"

lemma ring_fifo_out: "mset (ring_fifo tr) = ring_out tr"
  by (induction tr rule: ring_fifo.induct) (auto split: option.splits)

lemma demo_ring_ok: "ring_ok demo_os"
proof -
  have "d \<in># ring_out tr" if "a_cqe (demo_os tr C_peek_cqe) = Some (d, r)" for tr d r
    using that unfolding ring_fifo_out [symmetric]
    by (auto simp: demo_os_def answer0_def split: list.splits)
  then show ?thesis by (auto simp: ring_ok_def)
qed

lemma demo_gai_ok: "gai_ok demo_os"
  by (simp add: gai_ok_def demo_os_def)

lemma demo_kernel_ok: "kernel_ok demo_os"
  by (simp add: kernel_ok_def demo_ring_ok demo_gai_ok)

lemma demo_send_advances: "send_advances demo_os"
  by (auto simp: send_advances_def demo_os_def neq_Nil_conv)

definition mach0 :: mach where
  "mach0 = \<lparr>m_trace = [], m_brk = 1, m_fault = False\<rparr>"

definition sync0 :: sync_io where
  "sync0 = the (fst (myio_sync_new demo_os mach0))"

definition uring0 :: uring_io where
  "uring0 = the (fst (myio_uring_new demo_os mach0))"

lemma sync0_new: "myio_sync_new demo_os mach0 = (Some sync0, snd (myio_sync_new demo_os mach0))"
  by (simp add: sync0_def myio_sync_new_def sys_alloc_def sys_call_def demo_os_def answer0_def Let_def mach0_def)

lemma uring0_new: "myio_uring_new demo_os mach0 = (Some uring0, snd (myio_uring_new demo_os mach0))"
  by (simp add: uring0_def myio_uring_new_def sys_alloc_def sys_call_def demo_os_def answer0_def Let_def mach0_def)

lemma sync0_inv: "sync_inv sync0"
  by (simp add: sync0_def myio_sync_new_def sys_alloc_def sys_call_def demo_os_def answer0_def Let_def mach0_def
      mach.extend_def sync_inv_def sync_won_def)

lemma uring0_inv: "uinv {} uring0"
  by (rule uring_new_inv [OF uring0_new]) (simp_all add: mach0_def)

subsection \<open>Sample states of the io_uring backend\<close>

text \<open>
  A completed spawn; a connect in flight; the connection established (socket 3, won by
  task 2); two writes submitted on it (tasks 4 and 5).
\<close>

definition uring_spawned :: uring_io where
  "uring_spawned = snd (uring_spawn demo_os uring0 7 9)"

definition uring_dialing :: uring_io where
  "uring_dialing = snd (uring_tcp_connect demo_os uring0 ''localhost'' 80)"

definition uring_conn :: uring_io where
  "uring_conn = snd (uring_step demo_os uring_dialing)"

definition uring_write1 :: uring_io where
  "uring_write1 = snd (uring_sock_write demo_os uring_conn 3 [7, 8])"

definition uring_write2 :: uring_io where
  "uring_write2 = snd (uring_sock_write demo_os uring_write1 3 [9])"

lemmas run_defs = sys_call_def sys_alloc_def Let_def demo_os_def answer0_def
  uring_task_new_def uring_task_link_def uring_sock_new_def upd_ut_def upd_us_def chk_ut_def chk_us_def
  ut_def us_def sqe_get_def sqe_flush_def

lemma uring0_eq: "\<exists>tr. uring0 = \<lparr>m_trace = tr, m_brk = 2, m_fault = False, u_inflight = 0, u_tasks = dl_empty,
    u_socks = dl_empty, u_th = Map.empty, u_sh = Map.empty, u_wnext = (\<lambda>_. None), u_errbuf = []\<rparr> \<and>
    ring_fifo tr = [] \<and> length tr = 2"
  by (simp add: uring0_def myio_uring_new_def sys_alloc_def sys_call_def Let_def demo_os_def answer0_def mach0_def
      mach.extend_def)

lemma uring_spawned_facts: "uinv {} uring_spawned" "2 \<in> uring_handles uring_spawned" "uring_task_done uring_spawned 2"
    "res_status (uring_task_result uring_spawned 2) = MYIO_OK"
proof -
  show "uinv {} uring_spawned" unfolding uring_spawned_def by (rule uinv_spawn [OF uring0_inv surjective_pairing])
  obtain tr where u0: "uring0 = \<lparr>m_trace = tr, m_brk = 2, m_fault = False, u_inflight = 0, u_tasks = dl_empty,
    u_socks = dl_empty, u_th = Map.empty, u_sh = Map.empty, u_wnext = (\<lambda>_. None), u_errbuf = []\<rparr>"
    using uring0_eq by blast
  have "u_th uring_spawned 2 = Some ((uring_task0 TASK_SPAWN)\<lparr>ut_res := result0\<lparr>res_status := MYIO_OK, res_value := 0\<rparr>, ut_done := True\<rparr>)"
    by (simp add: uring_spawned_def u0 uring_spawn_def run_defs uring_task0_def)
  then show "2 \<in> uring_handles uring_spawned" "uring_task_done uring_spawned 2"
    "res_status (uring_task_result uring_spawned 2) = MYIO_OK"
    by (simp_all add: uring_handles_def uring_task_done_def uring_task_result_def ut_def uring_task0_def)
qed

lemma uring_dialing_eq: "\<exists>tr tl sl. uring_dialing = \<lparr>m_trace = tr, m_brk = 4, m_fault = False, u_inflight = 1,
   u_tasks = tl, u_socks = sl,
   u_th = [2 \<mapsto> (uring_task0 TASK_CONNECT)\<lparr>ut_sock := Some 3, ut_addr := ai_addr demo_addr\<rparr>],
   u_sh = [3 \<mapsto> uring_sock0 4], u_wnext = (\<lambda>_. None), u_errbuf = []\<rparr> \<and>
   ring_fifo tr = [Ud_task 2] \<and> sqe_of tr (Ud_task 2) = Some (Sqe_connect 4 (ai_addr demo_addr))"
proof -
  obtain tr where u0: "uring0 = \<lparr>m_trace = tr, m_brk = 2, m_fault = False, u_inflight = 0, u_tasks = dl_empty,
    u_socks = dl_empty, u_th = Map.empty, u_sh = Map.empty, u_wnext = (\<lambda>_. None), u_errbuf = []\<rparr>"
    "ring_fifo tr = []" "length tr = 2"
    using uring0_eq by blast
  show ?thesis unfolding uring_dialing_def u0(1)
    by (simp add: uring_tcp_connect_def run_defs demo_addr_def u0(2,3) net_defs uring_task0_def)
qed

lemma drain_numeral: "uring_drain os (numeral v) u =
     (let (a, u) = sys_call os C_peek_cqe u in
      case a_cqe a of
        None \<Rightarrow> u
      | Some (d, res) \<Rightarrow>
          let u = uring_dec u;
              u = (case d of Ud_cancel \<Rightarrow> u | Ud_task t \<Rightarrow> uring_dispatch os u t res)
          in uring_drain os (pred_numeral v) u)"
  by (simp add: numeral_eq_Suc)

lemma uring_conn_eq: "\<exists>tr tl sl. uring_conn = \<lparr>m_trace = tr, m_brk = 4, m_fault = False, u_inflight = 0,
   u_tasks = tl, u_socks = sl,
   u_th = [2 \<mapsto> (uring_task0 TASK_CONNECT)\<lparr>ut_done := True, ut_addr := ai_addr demo_addr, ut_res := r_ok 0 (Some 3)\<rparr>],
   u_sh = [3 \<mapsto> uring_sock0 4], u_wnext = (\<lambda>_. None), u_errbuf = []\<rparr> \<and> ring_fifo tr = []"
proof -
  obtain tr tl sl where c: "uring_dialing = \<lparr>m_trace = tr, m_brk = 4, m_fault = False, u_inflight = 1,
   u_tasks = tl, u_socks = sl,
   u_th = [2 \<mapsto> (uring_task0 TASK_CONNECT)\<lparr>ut_sock := Some 3, ut_addr := ai_addr demo_addr\<rparr>],
   u_sh = [3 \<mapsto> uring_sock0 4], u_wnext = (\<lambda>_. None), u_errbuf = []\<rparr>"
   "ring_fifo tr = [Ud_task 2]" "sqe_of tr (Ud_task 2) = Some (Sqe_connect 4 (ai_addr demo_addr))"
    using uring_dialing_eq by blast
  show ?thesis unfolding uring_conn_def c(1)
    by (simp add: uring_step_def uring_drain_cqes_def CQ_ENTRIES_def drain_numeral run_defs c(2-) uring_dec_def
        uring_dispatch_def uring_task_complete_def uring_task_finish_def complete_res_def uring_task0_def
        result0_def mk_result_def cqe_res_def r_ok_def)
qed

lemma uring_write2_facts:
  "u_sh uring_write2 3 = Some \<lparr>us_fd = 4, us_read_task = None, us_accept_task = None,
     us_wq = \<lparr>wq_head = Some 4, wq_tail = Some 5\<rparr>\<rparr>"
  "u_wnext uring_write2 4 = Some 5" "u_wnext uring_write2 5 = None"
  "uinv {} uring_write2" "3 \<in> uring_usable uring_write2" "uring_handles uring_write2 = {2, 4, 5}"
  "\<not> ut_done (ut uring_write2 4)" "\<not> ut_done (ut uring_write2 5)" "ut_kind (ut uring_write2 5) = TASK_SOCK_WRITE"
  "ut_sock (ut uring_write2 5) = Some 3"
  "res_ptr (ut_res (ut uring_write2 2)) = Some 3" "ut_done (ut uring_write2 2)"
proof -
  obtain tr tl sl where c: "uring_conn = \<lparr>m_trace = tr, m_brk = 4, m_fault = False, u_inflight = 0,
   u_tasks = tl, u_socks = sl,
   u_th = [2 \<mapsto> (uring_task0 TASK_CONNECT)\<lparr>ut_done := True, ut_addr := ai_addr demo_addr, ut_res := r_ok 0 (Some 3)\<rparr>],
   u_sh = [3 \<mapsto> uring_sock0 4], u_wnext = (\<lambda>_. None), u_errbuf = []\<rparr>"
    using uring_conn_eq by blast
  note dw = uring_sock_write_def uring_sock0_def uring_wq_push_def myio_wq_push_def myio_wq_empty_def
    uring_write_arm_def run_defs
  have us: "3 \<in> uring_usable uring_conn" "3 \<in> uring_usable uring_write1" "3 \<in> uring_usable uring_write2"
    by (simp_all add: uring_write2_def uring_write1_def c dw uring_usable_def xref_def uring_task0_def)
  then show "3 \<in> uring_usable uring_write2" by blast
  have "uinv {} uring_dialing" unfolding uring_dialing_def
    by (rule uinv_connect [OF demo_gai_ok uring0_inv surjective_pairing])
  then have "uinv {} uring_conn" unfolding uring_conn_def
    by (rule uinv_step(1) [OF demo_ring_ok _ surjective_pairing])
  then have "uinv {} uring_write1" unfolding uring_write1_def
    by (rule uinv_sock_write [OF _ us(1) surjective_pairing])
  then show "uinv {} uring_write2" unfolding uring_write2_def
    by (rule uinv_sock_write [OF _ us(2) surjective_pairing])
  show "u_sh uring_write2 3 = Some \<lparr>us_fd = 4, us_read_task = None, us_accept_task = None,
     us_wq = \<lparr>wq_head = Some 4, wq_tail = Some 5\<rparr>\<rparr>"
    "u_wnext uring_write2 4 = Some 5" "u_wnext uring_write2 5 = None"
    "\<not> ut_done (ut uring_write2 4)" "\<not> ut_done (ut uring_write2 5)" "ut_kind (ut uring_write2 5) = TASK_SOCK_WRITE"
    "ut_sock (ut uring_write2 5) = Some 3"
    "res_ptr (ut_res (ut uring_write2 2)) = Some 3" "ut_done (ut uring_write2 2)"
    "uring_handles uring_write2 = {2, 4, 5}"
    unfolding uring_write2_def uring_write1_def c
    by (auto simp: dw uring_task0_def uring_handles_def)
qed

lemma uring_write2_queue: "wq_list (u_wnext uring_write2) \<lparr>wq_head = Some 4, wq_tail = Some 5\<rparr> [4, 5]"
  using uring_write2_facts(2,3) by (simp add: wq_list_def)

end
