(* ===== verification/Myio_Uring_Destroy.thy ===== *)
theory Myio_Uring_Destroy
  imports Myio_Uring_Ops
begin

text \<open>
  Teardown of the io_uring backend: the walks over the registries, the final drain and
  the release of everything that is left keep to live memory, whatever is in flight.
\<close>

subsection \<open>The write queues are dismantled\<close>

lemma complete_socks:
  assumes "u_th u t = Some x" and "res_ptr (ut_res x) = None"
  shows "u_socks (uring_task_complete os u t r) = u_socks u" "u_sh (uring_task_complete os u t r) = u_sh u"
    "u_wnext (uring_task_complete os u t r) = u_wnext u" "m_brk (uring_task_complete os u t r) = m_brk u"
    "\<And>q. q \<noteq> t \<Longrightarrow> u_th (uring_task_complete os u t r) q = u_th u q"
  unfolding complete_eq [OF assms(1)]
  using assms by (auto simp: uring_task_reap_def chk_ut_def ut_def free_ut_def uring_task_unlink_def Let_def)

lemma cancel_queued_frame:
  assumes "u_sh u s = Some y" and "wq_list (u_wnext u) (us_wq y) xs" and "\<forall>t \<in> set xs. \<exists>x. u_th u t = Some x \<and> res_ptr (ut_res x) = None"
  shows "u_socks (uring_cancel_queued os fuel u s) = u_socks u \<and> m_brk (uring_cancel_queued os fuel u s) = m_brk u"
  using assms
proof (induction xs arbitrary: u y fuel)
  case Nil
  then have "wq_head (us_wq y) = None" by (simp add: wq_list_head)
  with Nil.prems(1) show ?case by (cases fuel) (auto simp: us_def)
next
  case (Cons n ns)
  have h: "wq_head (us_wq y) = Some n" using wq_list_head [OF Cons.prems(2)] by simp
  show ?case
  proof (cases fuel)
    case 0
    with h Cons.prems(1) show ?thesis by (simp add: us_def m_flag_def)
  next
    case (Suc f)
    from wq_pop_list [OF Cons.prems(2)] obtain nx q where po: "myio_wq_pop (u_wnext u) (us_wq y) = Some (if ns = [] then None else Some (hd ns), nx, q)"
      "wq_list nx q ns" by auto
    obtain x where x: "u_th u n = Some x" "res_ptr (ut_res x) = None" using Cons.prems(3) by auto
    let ?u = "u\<lparr>u_wnext := nx, u_sh := (u_sh u)(s \<mapsto> y\<lparr>us_wq := q\<rparr>), u_th := (u_th u)(n \<mapsto> x\<lparr>ut_sock := None\<rparr>)\<rparr>"
    let ?v = "uring_task_complete os ?u n (- ECANCELED)"
    have e: "uring_cancel_queued os fuel u s = uring_cancel_queued os f ?v s"
      using Suc h po(1) x Cons.prems(1) by (simp add: us_def uring_wq_pop_def upd_us_def upd_ut_def)
    have t: "u_th ?u n = Some (x\<lparr>ut_sock := None\<rparr>)" "res_ptr (ut_res (x\<lparr>ut_sock := None\<rparr>)) = None" using x(2) by simp_all
    note c = complete_socks [where os = os and r = "- ECANCELED", OF t]
    have d: "n \<notin> set ns" using wq_list_distinct [OF Cons.prems(2)] by simp
    have "u_th ?v m = u_th u m" if "m \<in> set ns" for m using c(5) [of m] that d by auto
    then have "\<forall>m \<in> set ns. \<exists>x. u_th ?v m = Some x \<and> res_ptr (ut_res x) = None" using Cons.prems(3) by simp
    moreover have "u_sh ?v s = Some (y\<lparr>us_wq := q\<rparr>)" "wq_list (u_wnext ?v) (us_wq (y\<lparr>us_wq := q\<rparr>)) ns" using c(2,3) po(2) by simp_all
    ultimately have "u_socks (uring_cancel_queued os f ?v s) = u_socks ?v \<and> m_brk (uring_cancel_queued os f ?v s) = m_brk ?v"
      by (intro Cons.IH)
    with c(1,4) show ?thesis unfolding e by simp
  qed
qed

definition uring_dismantle :: "os \<Rightarrow> uring_io \<Rightarrow> addr \<Rightarrow> uring_io" where
  "uring_dismantle os u s = (case wq_head (us_wq (us u s)) of
     None \<Rightarrow> u
   | Some w \<Rightarrow> let u = snd (uring_wq_pop (upd_ut w (\<lambda>x. x\<lparr>ut_sock := None\<rparr>) u) s) in uring_cancel_queued os (m_brk u) u s)"

lemma uinv_dismantle:
  assumes i: "uinv {} u" and y: "u_sh u s = Some y" and u': "u' = uring_dismantle os u s"
  shows "uinv {} u'" "u_socks u' = u_socks u" "m_brk u' = m_brk u" "dom (u_sh u') = dom (u_sh u)"
proof -
  note c = uinv_core [OF i]
  obtain ws where ws: "wq_list (u_wnext u) (us_wq y) ws" using wq_inv_list [OF ucore_parts(5) [OF c] y] by blast
  have ms: "set ws = wmembers (u_th u) s" by (rule queue_len(2) [OF i y ws])
  have "uinv {} u' \<and> u_socks u' = u_socks u \<and> m_brk u' = m_brk u \<and> dom (u_sh u') = dom (u_sh u)"
  proof (cases ws)
    case Nil
    then have "u' = u" using u' y wq_list_head [OF ws] by (simp add: uring_dismantle_def us_def)
    with i show ?thesis by simp
  next
    case (Cons w xs)
    have h: "wq_head (us_wq y) = Some w" using wq_list_head [OF ws] Cons by simp
    have wr: "\<exists>x. u_th u q = Some x \<and> res_ptr (ut_res x) = None" if "q \<in> set ws" for q
      using wq_write [OF c, of q s] that ms write_ptr [OF c] by blast
    then obtain z where z: "u_th u w = Some z" using Cons by auto
    from uinv_pop [OF i y ws [unfolded Cons] z] obtain nx q where po: "uring_wq_pop (severed w u) s = (wq_head q, popped u s w nx q)"
      and wl: "wq_list nx q xs" and i2: "uinv ({} \<union> set_option (wq_head q)) (popped u s w nx q)" by blast
    define u2 where "u2 = popped u s w nx q"
    have y2: "u_sh u2 s = Some (y\<lparr>us_wq := q\<rparr>)" "u_wnext u2 = nx" "u_socks u2 = u_socks u" "m_brk u2 = m_brk u"
      "\<And>k. k \<noteq> s \<Longrightarrow> u_sh u2 k = u_sh u k" using y by (simp_all add: u2_def popped_def us_def)
    have e: "u' = uring_cancel_queued os (m_brk u2) u2 s"
      using u' y h po by (simp add: uring_dismantle_def us_def severed_def u2_def Let_def)
    have i2': "uinv ({} \<union> set_option (wq_head (us_wq (y\<lparr>us_wq := q\<rparr>)))) u2" using i2 by (simp add: u2_def)
    have l2: "wq_list (u_wnext u2) (us_wq (y\<lparr>us_wq := q\<rparr>)) xs" using wl y2 by simp
    note cq = uinv_cancel_queued [where S = "{}", OF i2' y2(1) l2 queue_len(1) [OF i2' y2(1) l2] e Int_empty_left]
    have d: "w \<notin> set xs" using wq_list_distinct [OF ws] Cons by simp
    have "\<forall>t \<in> set xs. \<exists>x. u_th u2 t = Some x \<and> res_ptr (ut_res x) = None"
    proof
      fix t
      assume t: "t \<in> set xs"
      then have "u_th u2 t = u_th u t" using d by (auto simp: u2_def popped_def)
      with wr [of t] t Cons show "\<exists>x. u_th u2 t = Some x \<and> res_ptr (ut_res x) = None" by simp
    qed
    from cancel_queued_frame [OF y2(1) l2 this, of os "m_brk u2"] have f: "u_socks u' = u_socks u" "m_brk u' = m_brk u"
      unfolding e using y2(3,4) by simp_all
    have "dom (u_sh u') = dom (u_sh u)"
    proof (rule set_eqI)
      fix k
      show "k \<in> dom (u_sh u') \<longleftrightarrow> k \<in> dom (u_sh u)"
        using cq y y2(5) [of k] by (cases "k = s") auto
    qed
    with cq f show ?thesis by simp
  qed
  then show "uinv {} u'" "u_socks u' = u_socks u" "m_brk u' = m_brk u" "dom (u_sh u') = dom (u_sh u)" by simp_all
qed

lemma destroy_fifos_Suc: "uring_destroy_fifos os (Suc fuel) u (Some s) =
    uring_destroy_fifos os fuel (uring_dismantle os u s) (dl_next (u_socks (uring_dismantle os u s)) s)"
  by (simp add: uring_dismantle_def split_beta Let_def split: option.split)

lemma uinv_destroy_fifos:
  assumes "uinv {} u" and "dl_list (u_socks u) (as @ bs)" and "set bs \<subseteq> dom (u_sh u)"
    and "c = (if bs = [] then None else Some (hd bs))" and "length bs \<le> fuel"
  shows "uinv {} (uring_destroy_fifos os fuel u c)"
  using assms
proof (induction bs arbitrary: as fuel u c)
  case (Cons s bs)
  then obtain f where f: "fuel = Suc f" "length bs \<le> f" by (cases fuel) auto
  obtain y where y: "u_sh u s = Some y" using Cons.prems(3) by auto
  let ?u = "uring_dismantle os u s"
  note d = uinv_dismantle [OF Cons.prems(1) y refl, of os]
  have l: "dl_list (u_socks ?u) ((as @ [s]) @ bs)" using d(2) Cons.prems(2) by simp
  have n: "dl_next (u_socks ?u) s = (if bs = [] then None else Some (hd bs))" unfolding d(2) by (rule dl_unlink_split(2) [OF Cons.prems(2)])
  have "uinv {} (uring_destroy_fifos os f ?u (dl_next (u_socks ?u) s))"
    by (rule Cons.IH [OF d(1) l _ n f(2)]) (use Cons.prems(3) d(4) in auto)
  with Cons.prems(4) f(1) show ?case by (simp only: destroy_fifos_Suc list.distinct if_False list.sel)
qed simp

subsection \<open>Everything in flight is cancelled and drained\<close>

lemma uinv_destroy_cancels:
  assumes "uinv {} u" and "dl_list (u_tasks u) (as @ bs)" and "set bs \<subseteq> dom (u_th u)"
    and "c = (if bs = [] then None else Some (hd bs))" and "length bs \<le> fuel"
  shows "uinv {} (uring_destroy_cancels os fuel u c)"
  using assms
proof (induction bs arbitrary: as fuel u c)
  case (Cons t bs)
  then obtain f where f: "fuel = Suc f" "length bs \<le> f" by (cases fuel) auto
  obtain x where x: "u_th u t = Some x" using Cons.prems(3) by auto
  let ?u = "if ut_done (ut u t) then u else snd (uring_cancel_submit os u t)"
  obtain ok v where cs: "uring_cancel_submit os u t = (ok, v)" by fastforce
  obtain ok1 u1 where g: "sqe_get os u = (ok1, u1)" by fastforce
  note s = only_trace_same [OF sqe_get_trace [OF g]]
  have "u_tasks v = u_tasks u"
    using cs s x by (auto simp: uring_cancel_submit_def g chk_ut_def sqe_flush_def sys_call_def Let_def split: if_splits)
  with uinv_cancel_submit [OF Cons.prems(1) x cs] cs Cons.prems(1)
  have d: "uinv {} ?u" "u_tasks ?u = u_tasks u" "u_th ?u = u_th u" by simp_all
  have l: "dl_list (u_tasks ?u) ((as @ [t]) @ bs)" using d(2) Cons.prems(2) by simp
  have n: "dl_next (u_tasks ?u) t = (if bs = [] then None else Some (hd bs))" unfolding d(2) by (rule dl_unlink_split(2) [OF Cons.prems(2)])
  have "uinv {} (uring_destroy_cancels os f ?u (dl_next (u_tasks ?u) t))"
    by (rule Cons.IH [OF d(1) l _ n f(2)]) (use Cons.prems(3) d(3) in auto)
  moreover have "uring_destroy_cancels os fuel u c = uring_destroy_cancels os f ?u (dl_next (u_tasks ?u) t)"
    unfolding f(1) Cons.prems(4) by (simp add: Let_def)
  ultimately show ?case by simp
qed simp

lemma uinv_destroy_drain:
  assumes "ring_ok os" and "uinv {} u" and "uring_destroy_drain os u = Some u'"
  shows "uinv {} u' \<and> ring_out (m_trace u') = {#}"
proof -
  have "ring_ok os \<longrightarrow> uinv {} u \<longrightarrow> uinv {} u' \<and> u_inflight u' = 0"
  proof (rule uring_destroy_drain.raw_induct [where P = "\<lambda>os u u'. ring_ok os \<longrightarrow> uinv {} u \<longrightarrow> uinv {} u' \<and> u_inflight u' = 0", OF _ assms(3)])
    fix f os u u'
    assume IH: "\<And>os u u'. f os u = Some u' \<Longrightarrow> ring_ok os \<longrightarrow> uinv {} u \<longrightarrow> uinv {} u' \<and> u_inflight u' = 0"
      and eq: "(if 0 < u_inflight u then let (_, u) = sys_call os C_submit_and_wait u in f os (uring_drain_cqes os u) else Some u) = Some u'"
    show "ring_ok os \<longrightarrow> uinv {} u \<longrightarrow> uinv {} u' \<and> u_inflight u' = 0"
    proof (intro impI)
      assume r: "ring_ok os" and i: "uinv {} u"
      show "uinv {} u' \<and> u_inflight u' = 0"
      proof (cases "0 < u_inflight u")
        case True
        let ?u = "snd (sys_call os C_submit_and_wait u)"
        have "uinv {} ?u" using i by (simp add: sys_call_def Let_def uinv_def)
        then have "uinv {} (uring_drain_cqes os ?u)" using uinv_drain [OF r] by (simp add: uring_drain_cqes_def)
        moreover have "f os (uring_drain_cqes os ?u) = Some u'" using eq True by (simp add: split_beta)
        ultimately show ?thesis using IH r by blast
      qed (use eq i in auto)
    qed
  qed
  with assms(1,2) show ?thesis by (auto simp: uinv_def)
qed

subsection \<open>What is left is freed\<close>

lemma destroy_tasks_all:
  assumes "dl_list (u_tasks u) (as @ bs)" and "dom (u_th u) = set bs" and "c = (if bs = [] then None else Some (hd bs))" and "length bs \<le> fuel"
  shows "uring_destroy_tasks fuel u c = u\<lparr>u_th := Map.empty\<rparr>"
  using assms
proof (induction bs arbitrary: as fuel u c)
  case (Cons t bs)
  then obtain f where f: "fuel = Suc f" "length bs \<le> f" by (cases fuel) auto
  obtain x where x: "u_th u t = Some x" using Cons.prems(2) by force
  let ?u = "u\<lparr>u_th := (u_th u)(t := None)\<rparr>"
  have n: "dl_next (u_tasks u) t = (if bs = [] then None else Some (hd bs))" by (rule dl_unlink_split(2) [OF Cons.prems(1)])
  have e: "uring_destroy_tasks fuel u c = uring_destroy_tasks f ?u (dl_next (u_tasks u) t)"
    unfolding f(1) Cons.prems(3) using x by (simp add: free_ut_def chk_ut_def)
  have "t \<notin> set bs" using dl_list_distinct [OF Cons.prems(1)] by auto
  then have d: "dom (u_th ?u) = set bs" using Cons.prems(2) by auto
  have l: "dl_list (u_tasks ?u) ((as @ [t]) @ bs)" using Cons.prems(1) by simp
  show ?case unfolding e Cons.IH [OF l d n f(2)] by simp
qed simp

lemma destroy_socks_all:
  assumes "dl_list (u_socks u) (as @ bs)" and "dom (u_sh u) = set bs" and "c = (if bs = [] then None else Some (hd bs))" and "length bs \<le> fuel"
  shows "\<exists>new. uring_destroy_socks os fuel u c = u\<lparr>m_trace := new @ m_trace u, u_sh := Map.empty\<rparr> \<and>
    (\<forall>s y. u_sh u s = Some y \<longrightarrow> us_fd y \<ge> 0 \<longrightarrow> (\<exists>a. (C_close (us_fd y), a) \<in> set new)) \<and> (\<forall>e \<in> set new. \<exists>fd a. e = (C_close fd, a))"
  using assms
proof (induction bs arbitrary: as fuel u c)
  case Nil
  then have "u_sh u = Map.empty" by simp
  with Nil show ?case by (intro exI [of _ "[]"]) simp
next
  case (Cons s bs)
  then obtain f where f: "fuel = Suc f" "length bs \<le> f" by (cases fuel) auto
  obtain y where y: "u_sh u s = Some y" using Cons.prems(2) by force
  define ev where "ev = (if us_fd y \<ge> 0 then [(C_close (us_fd y), os (m_trace u) (C_close (us_fd y)))] else [])"
  let ?u = "u\<lparr>m_trace := ev @ m_trace u, u_sh := (u_sh u)(s := None)\<rparr>"
  have n: "dl_next (u_socks u) s = (if bs = [] then None else Some (hd bs))" by (rule dl_unlink_split(2) [OF Cons.prems(1)])
  have e: "uring_destroy_socks os fuel u c = uring_destroy_socks os f ?u (dl_next (u_socks u) s)"
    unfolding f(1) Cons.prems(3) ev_def using y by (simp add: us_def free_us_def chk_us_def sys_call_def Let_def)
  have "s \<notin> set bs" using dl_list_distinct [OF Cons.prems(1)] by auto
  then have d: "dom (u_sh ?u) = set bs" using Cons.prems(2) by auto
  have l: "dl_list (u_socks ?u) ((as @ [s]) @ bs)" using Cons.prems(1) by simp
  from Cons.IH [OF l d n f(2)] obtain new where new: "uring_destroy_socks os f ?u (dl_next (u_socks u) s) = ?u\<lparr>m_trace := new @ m_trace ?u, u_sh := Map.empty\<rparr>"
    "\<forall>k z. u_sh ?u k = Some z \<longrightarrow> us_fd z \<ge> 0 \<longrightarrow> (\<exists>a. (C_close (us_fd z), a) \<in> set new)" "\<forall>e \<in> set new. \<exists>fd a. e = (C_close fd, a)" by blast
  have "\<forall>k z. u_sh u k = Some z \<longrightarrow> us_fd z \<ge> 0 \<longrightarrow> (\<exists>a. (C_close (us_fd z), a) \<in> set (new @ ev))"
  proof (intro allI impI)
    fix k z
    assume "u_sh u k = Some z" "us_fd z \<ge> 0"
    with new(2) [rule_format, of k z] y show "\<exists>a. (C_close (us_fd z), a) \<in> set (new @ ev)" by (cases "k = s") (auto simp: ev_def)
  qed
  then show ?case unfolding e using new(1,3) by (intro exI [of _ "new @ ev"]) (auto simp: ev_def)
qed

text \<open>A registry is no longer than the number of addresses handed out.\<close>

lemma registry_len:
  assumes "dl.members d (dom m)" and "\<And>a. a \<in> dom m \<Longrightarrow> a < (b :: nat)"
  obtains xs where "dl_list d xs" "set xs = dom m" "length xs \<le> b" "dl_head d = (if xs = [] then None else Some (hd xs))"
proof -
  from assms(1) obtain xs where xs: "dl_list d xs" "set xs = dom m" by (auto simp: dl.members_def)
  have "card (set xs) \<le> b" using card_mono [of "{..<b}" "set xs"] assms(2) xs(2) by auto
  then have "length xs \<le> b" using dl_list_distinct [OF xs(1)] by (simp add: distinct_card)
  with xs show ?thesis by (rule that) (rule dl_list_head [OF xs(1)])
qed

lemma uinv_registries:
  assumes "uinv {} u"
  obtains ts ss where "dl_list (u_tasks u) ts" "set ts = dom (u_th u)" "length ts \<le> m_brk u"
    "dl_head (u_tasks u) = (if ts = [] then None else Some (hd ts))"
    "dl_list (u_socks u) ss" "set ss = dom (u_sh u)" "length ss \<le> m_brk u" "dl_head (u_socks u) = (if ss = [] then None else Some (hd ss))"
proof -
  note c = uinv_core [OF assms]
  have m: "dl.members (u_tasks u) (dom (u_th u))" "dl.members (u_socks u) (dom (u_sh u))" using assms by (simp_all add: uinv_def)
  obtain ts where ts: "dl_list (u_tasks u) ts" "set ts = dom (u_th u)" "length ts \<le> m_brk u" "dl_head (u_tasks u) = (if ts = [] then None else Some (hd ts))"
    by (rule registry_len [OF m(1), of "m_brk u"]) (use task_invD [OF ucore_parts(1) [OF c]] in \<open>auto simp: task_ok_def\<close>)
  obtain ss where "dl_list (u_socks u) ss" "set ss = dom (u_sh u)" "length ss \<le> m_brk u" "dl_head (u_socks u) = (if ss = [] then None else Some (hd ss))"
    by (rule registry_len [OF m(2), of "m_brk u"]) (use ucore_parts(8) [OF c] in auto)
  with ts show ?thesis by (rule that)
qed

text \<open>
  \<open>destroy\<close>, if it returns: it has touched only live memory, freed every task and socket
  object, and left no request in the ring.
\<close>

lemma uinv_destroy:
  assumes r: "ring_ok os" and i: "uinv {} u" and o: "uring_destroy os u = Some u'"
  shows "\<not> m_fault u' \<and> u_th u' = Map.empty \<and> u_sh u' = Map.empty \<and> ring_out (m_trace u') = {#}"
proof -
  let ?u1 = "uring_destroy_fifos os (m_brk u) u (dl_head (u_socks u))"
  let ?u2 = "uring_destroy_cancels os (m_brk ?u1) ?u1 (dl_head (u_tasks ?u1))"
  have i1: "uinv {} ?u1"
    by (rule uinv_registries [OF i]) (rule uinv_destroy_fifos [where as = "[]", OF i]; simp)
  have i2: "uinv {} ?u2"
    by (rule uinv_registries [OF i1]) (rule uinv_destroy_cancels [where as = "[]", OF i1]; simp)
  from o obtain u3 where d: "uring_destroy_drain os ?u2 = Some u3" and u': "u' = snd (sys_call os C_queue_exit
      (uring_destroy_socks os (m_brk (uring_destroy_tasks (m_brk u3) u3 (dl_head (u_tasks u3)))) (uring_destroy_tasks (m_brk u3) u3 (dl_head (u_tasks u3)))
        (dl_head (u_socks (uring_destroy_tasks (m_brk u3) u3 (dl_head (u_tasks u3)))))))"
    by (auto simp: uring_destroy_def Let_def split_beta)
  from uinv_destroy_drain [OF r i2 d] have i3: "uinv {} u3" and e: "ring_out (m_trace u3) = {#}" by simp_all
  obtain ts ss where ts: "dl_list (u_tasks u3) ts" "set ts = dom (u_th u3)" "length ts \<le> m_brk u3" "dl_head (u_tasks u3) = (if ts = [] then None else Some (hd ts))"
    and ss: "dl_list (u_socks u3) ss" "set ss = dom (u_sh u3)" "length ss \<le> m_brk u3" "dl_head (u_socks u3) = (if ss = [] then None else Some (hd ss))"
    by (rule uinv_registries [OF i3])
  have t4: "uring_destroy_tasks (m_brk u3) u3 (dl_head (u_tasks u3)) = u3\<lparr>u_th := Map.empty\<rparr>"
    by (rule destroy_tasks_all [where as = "[]"]) (use ts in auto)
  obtain new where s: "uring_destroy_socks os (m_brk u3) (u3\<lparr>u_th := Map.empty\<rparr>) (dl_head (u_socks u3)) =
      u3\<lparr>u_th := Map.empty, m_trace := new @ m_trace u3, u_sh := Map.empty\<rparr>" "\<forall>e \<in> set new. \<exists>fd a. e = (C_close fd, a)"
    using destroy_socks_all [where as = "[]" and u = "u3\<lparr>u_th := Map.empty\<rparr>" and os = os and fuel = "m_brk u3" and bs = ss and c = "dl_head (u_socks u3)"] ss
    by auto
  have "ring_out (new @ m_trace u3) = {#}" using s(2) e by (induction new) auto
  then show ?thesis unfolding u' t4 using s(1) i3 by (simp add: uinv_def sys_call_def Let_def)
qed

end
