(* ===== verification/Myio_Pool.thy ===== *)
theory Myio_Pool
  imports Myio_Common Myio_Wq Myio_Dlist
begin

text \<open>
  The thread-pool backend, \<^verbatim>\<open>src/src/myio_pool.c\<close>, as a state machine. Everything the
  mutex guards is one state; a critical section, the code between a lock and the next
  unlock or wait, is one transition. A worker thread is a program counter \<open>wpc\<close>, the
  user thread a program counter \<open>upc\<close>; the scheduler, which thread runs next, which
  parked worker a signal wakes, timeouts and spurious wakeups are left open. A call
  that blocks takes effect when it returns. \<open>pool_trans\<close> is the step relation. The
  counters of idle workers and of a socket's operations are plain integers: that they
  never go below zero is proved, not built in.
\<close>

datatype op_kind =
    OP_OPEN | OP_CLOSE | OP_READ | OP_WRITE | OP_SLEEP | OP_SPAWN | OP_CONNECT | OP_ACCEPT
  | OP_SOCK_READ | OP_SOCK_WRITE | OP_SOCK_CLOSE

definition op_on_sock :: "op_kind \<Rightarrow> bool" where
  "op_on_sock k \<longleftrightarrow> k = OP_SOCK_READ \<or> k = OP_SOCK_WRITE \<or> k = OP_ACCEPT"

definition op_interruptible :: "op_kind \<Rightarrow> bool" where
  "op_interruptible k \<longleftrightarrow> k = OP_SLEEP \<or> k = OP_ACCEPT \<or> k = OP_SOCK_READ"

record pool_sock =
  ps_fd :: int
  ps_closing :: bool
  ps_inflight :: int
  ps_wq :: myio_wq

text \<open>
  The arguments of an operation, then its status. A buffer to fill is the address
  \<open>pt_buf\<close> with \<open>pt_len\<close>, a buffer to send its bytes \<open>pt_data\<close>. The two link fields
  \<^verbatim>\<open>qnext\<close> and \<^verbatim>\<open>wnode\<close> are the link heaps of the pool.
\<close>

record pool_task =
  pt_kind :: op_kind
  pt_path :: "string option"
  pt_flags :: int
  pt_mode :: int
  pt_port :: int
  pt_fd :: int
  pt_buf :: addr
  pt_data :: "byte list"
  pt_len :: nat
  pt_offset :: int
  pt_ms :: nat
  pt_fn :: addr
  pt_arg :: addr
  pt_sock :: ptr
  pt_started :: bool
  pt_done :: bool
  pt_detached :: bool
  pt_cancel_req :: bool
  pt_worker :: nat
  pt_res :: myio_result

text \<open>
  Where a worker thread stands: at the lock before it looks at the queue; asleep on
  \<^verbatim>\<open>work_cv\<close>; back from there (with whether it timed out); with a task taken, inside
  \<^verbatim>\<open>worker_run\<close> or \<^verbatim>\<open>worker_close\<close>; gone.
\<close>

datatype wpc =
    W_top
  | W_parked "int \<times> int"
  | W_woken bool
  | W_start addr
  | W_wait addr "(int \<times> int) option"
  | W_poll addr "(int \<times> int) option"
  | W_call addr
  | W_send addr nat
  | W_commit addr myio_result int
  | W_drain addr
  | W_drain_wait addr
  | W_close addr addr int
  | W_closed addr
  | W_gone

text \<open>
  Where the user thread stands: outside the library, or in one of the three functions
  that wait on \<^verbatim>\<open>done_cv\<close>, awake or (\<open>True\<close>) asleep; after \<^verbatim>\<open>impl_destroy\<close> the instance
  is gone.
\<close>

datatype upc = U_ready | U_stepping bool | U_freeing addr bool | U_destroying bool | U_gone

record pool = mach +
  p_qhead :: ptr
  p_qtail :: ptr
  p_nqueued :: nat
  p_nrunning :: nat
  p_completions :: "64 word"
  p_comp_seen :: "64 word"
  p_idle :: int
  p_shutdown :: bool
  p_nlive :: nat
  p_socks :: dlist
  p_th :: "addr \<rightharpoonup> pool_task"
  p_sh :: "addr \<rightharpoonup> pool_sock"
  p_qnext :: wlinks
  p_wnext :: wlinks
  p_w :: "nat \<Rightarrow> wpc"
  p_nw :: nat
  p_user :: upc

definition pool_task0 :: "op_kind \<Rightarrow> pool_task" where
  "pool_task0 k = \<lparr>pt_kind = k, pt_path = None, pt_flags = 0, pt_mode = 0, pt_port = 0, pt_fd = 0,
     pt_buf = 0, pt_data = [], pt_len = 0, pt_offset = 0, pt_ms = 0, pt_fn = 0, pt_arg = 0,
     pt_sock = None, pt_started = False, pt_done = False, pt_detached = False,
     pt_cancel_req = False, pt_worker = 0, pt_res = result0\<rparr>"

definition pool_sock0 :: "int \<Rightarrow> pool_sock" where
  "pool_sock0 fd = \<lparr>ps_fd = fd, ps_closing = False, ps_inflight = 0, ps_wq = myio_wq_empty\<rparr>"

subsection \<open>Access through pointers\<close>

definition pt :: "pool \<Rightarrow> addr \<Rightarrow> pool_task" where
  "pt p t = (case p_th p t of Some x \<Rightarrow> x | None \<Rightarrow> pool_task0 OP_OPEN)"

definition psk :: "pool \<Rightarrow> addr \<Rightarrow> pool_sock" where
  "psk p s = (case p_sh p s of Some y \<Rightarrow> y | None \<Rightarrow> pool_sock0 (- 1))"

definition upd_pt :: "addr \<Rightarrow> (pool_task \<Rightarrow> pool_task) \<Rightarrow> pool \<Rightarrow> pool" where
  "upd_pt t f p = (case p_th p t of
     None \<Rightarrow> m_flag p
   | Some x \<Rightarrow> p\<lparr>p_th := (p_th p)(t \<mapsto> f x)\<rparr>)"

definition upd_ps :: "addr \<Rightarrow> (pool_sock \<Rightarrow> pool_sock) \<Rightarrow> pool \<Rightarrow> pool" where
  "upd_ps s f p = (case p_sh p s of
     None \<Rightarrow> m_flag p
   | Some y \<Rightarrow> p\<lparr>p_sh := (p_sh p)(s \<mapsto> f y)\<rparr>)"

definition chk_pt :: "addr \<Rightarrow> pool \<Rightarrow> pool" where
  "chk_pt t p = (if p_th p t = None then m_flag p else p)"

definition chk_ps :: "addr \<Rightarrow> pool \<Rightarrow> pool" where
  "chk_ps s p = (if p_sh p s = None then m_flag p else p)"

definition free_pt :: "addr \<Rightarrow> pool \<Rightarrow> pool" where
  "free_pt t p = (chk_pt t p)\<lparr>p_th := (p_th p)(t := None)\<rparr>"

definition free_ps :: "addr \<Rightarrow> pool \<Rightarrow> pool" where
  "free_ps s p = (chk_ps s p)\<lparr>p_sh := (p_sh p)(s := None)\<rparr>"

text \<open>\<^verbatim>\<open>t->sock\<close>, dereferenced.\<close>

definition upd_tsock :: "addr \<Rightarrow> (pool_sock \<Rightarrow> pool_sock) \<Rightarrow> pool \<Rightarrow> pool" where
  "upd_tsock t f p = (case pt_sock (pt p t) of None \<Rightarrow> m_flag p | Some s \<Rightarrow> upd_ps s f p)"

definition set_w :: "nat \<Rightarrow> wpc \<Rightarrow> pool \<Rightarrow> pool" where
  "set_w w pc p = p\<lparr>p_w := (p_w p)(w := pc)\<rparr>"

subsection \<open>The condition variables\<close>

fun w_parked :: "wpc \<Rightarrow> bool" where
  "w_parked (W_parked d) = True"
| "w_parked _ = False"

text \<open>A signal wakes one of the threads asleep, which one the environment says; none: it is lost.\<close>

definition work_signal :: "os \<Rightarrow> pool \<Rightarrow> pool" where
  "work_signal os p =
     (let (a, p) = sys_call os C_cond_signal p;
          ws = filter (\<lambda>w. w_parked (p_w p w)) [0..<p_nw p]
      in if ws = [] then p else set_w (ws ! (nat (a_ret a) mod length ws)) (W_woken False) p)"

definition work_broadcast :: "pool \<Rightarrow> pool" where
  "work_broadcast p = p\<lparr>p_w := (\<lambda>w. if w_parked (p_w p w) then W_woken False else p_w p w)\<rparr>"

fun w_alert :: "wpc \<Rightarrow> wpc" where
  "w_alert (W_drain_wait t) = W_drain t"
| "w_alert pc = pc"

fun u_alert :: "upc \<Rightarrow> upc" where
  "u_alert (U_stepping b) = U_stepping False"
| "u_alert (U_freeing t b) = U_freeing t False"
| "u_alert (U_destroying b) = U_destroying False"
| "u_alert pc = pc"

definition done_broadcast :: "pool \<Rightarrow> pool" where
  "done_broadcast p = p\<lparr>p_w := (\<lambda>w. w_alert (p_w p w)), p_user := u_alert (p_user p)\<rparr>"

subsection \<open>Socket list, task lifetime\<close>

definition pool_sock_link :: "os \<Rightarrow> pool \<Rightarrow> int \<Rightarrow> ptr \<times> pool" where
  "pool_sock_link os p fd =
     (let (a, p) = sys_alloc os p in
      case a of
        None \<Rightarrow> (None, p)
      | Some s \<Rightarrow>
          (Some s, p\<lparr>p_sh := (p_sh p)(s \<mapsto> pool_sock0 fd),
             p_socks := dl_link (dl_zero (p_socks p) s) s\<rparr>))"

definition pool_sock_unlink :: "pool \<Rightarrow> addr \<Rightarrow> pool" where
  "pool_sock_unlink p s = p\<lparr>p_socks := dl_unlink_head (p_socks p) s\<rparr>"

text \<open>Close and free a socket no one will claim.\<close>

definition pool_sock_drop :: "os \<Rightarrow> pool \<Rightarrow> addr \<Rightarrow> pool" where
  "pool_sock_drop os p s =
     (let p = chk_ps s p;
          p = pool_sock_unlink p s;
          (_, p) = sys_call os (C_close (ps_fd (psk p s))) p
      in free_ps s p)"

definition pool_reap :: "os \<Rightarrow> pool \<Rightarrow> addr \<Rightarrow> pool" where
  "pool_reap os p t =
     (let p = chk_pt t p;
          p = (case res_ptr (pt_res (pt p t)) of
                 Some s \<Rightarrow> pool_sock_drop os p s
               | None \<Rightarrow> p)
      in free_pt t p)"

definition queue_push :: "pool \<Rightarrow> addr \<Rightarrow> pool" where
  "queue_push p t =
     (let p = p\<lparr>p_qnext := (p_qnext p)(t := None)\<rparr>;
          p = (case p_qtail p of
                 Some l \<Rightarrow> p\<lparr>p_qnext := (p_qnext p)(l := Some t)\<rparr>
               | None \<Rightarrow> p\<lparr>p_qhead := Some t\<rparr>)
      in p\<lparr>p_qtail := Some t, p_nqueued := Suc (p_nqueued p)\<rparr>)"

text \<open>
  \<^verbatim>\<open>queue_remove\<close>: unlinking the node found behind \<open>prev\<close>, and the search loop, which on
  a cyclic queue would not return (\<open>None\<close>).
\<close>

definition queue_cut :: "pool \<Rightarrow> addr \<Rightarrow> ptr \<Rightarrow> pool" where
  "queue_cut p t prev =
     (let n = p_qnext p t;
          p = (case prev of
                 Some l \<Rightarrow> p\<lparr>p_qnext := (p_qnext p)(l := n)\<rparr>
               | None \<Rightarrow> p\<lparr>p_qhead := n\<rparr>);
          p = (if p_qtail p = Some t then p\<lparr>p_qtail := prev\<rparr> else p);
          p = p\<lparr>p_qnext := (p_qnext p)(t := None)\<rparr>
      in if p_nqueued p = 0 then m_flag p else p\<lparr>p_nqueued := p_nqueued p - 1\<rparr>)"

partial_function (option) queue_remove_loop ::
  "wlinks \<Rightarrow> pool \<Rightarrow> addr \<Rightarrow> ptr \<Rightarrow> ptr \<Rightarrow> pool option" where
  "queue_remove_loop qnext p t prev c =
     (case c of
        None \<Rightarrow> Some p
      | Some c \<Rightarrow>
          if c \<noteq> t then queue_remove_loop qnext p t (Some c) (qnext c)
          else Some (queue_cut p t prev))"

definition queue_remove :: "pool \<Rightarrow> addr \<Rightarrow> pool" where
  "queue_remove p t =
     (case queue_remove_loop (p_qnext p) p t None (p_qhead p) of None \<Rightarrow> m_flag p | Some p \<Rightarrow> p)"

subsection \<open>Dispatch\<close>

definition spawn_thread :: "os \<Rightarrow> pool \<Rightarrow> bool \<times> pool" where
  "spawn_thread os p =
     (let (a, p) = sys_call os C_attr_init p in
      if a_ret a \<noteq> 0 then (False, p)
      else
        let (c, p) = sys_call os C_thread_create p in
        if a_ret c \<noteq> 0 then (False, p)
        else (True, p\<lparr>p_w := (p_w p)(p_nw p := W_top), p_nw := Suc (p_nw p), p_nlive := Suc (p_nlive p)\<rparr>))"

definition dispatch_locked :: "os \<Rightarrow> pool \<Rightarrow> addr \<Rightarrow> bool \<times> pool" where
  "dispatch_locked os p t =
     (let p = queue_push p t in
      if p_idle p \<ge> int (p_nqueued p) then (True, work_signal os p)
      else
        let (ok, p) = spawn_thread os p in
        if ok then (True, p) else (False, queue_remove p t))"

definition pool_wq_push :: "pool \<Rightarrow> addr \<Rightarrow> addr \<Rightarrow> bool \<times> pool" where
  "pool_wq_push p s t =
     (let (b, nx, q) = myio_wq_push (p_wnext p) (ps_wq (psk p s)) t
      in (b, upd_ps s (\<lambda>y. y\<lparr>ps_wq := q\<rparr>) (p\<lparr>p_wnext := nx\<rparr>)))"

definition pool_wq_pop :: "pool \<Rightarrow> addr \<Rightarrow> ptr \<times> pool" where
  "pool_wq_pop p s =
     (case myio_wq_pop (p_wnext p) (ps_wq (psk p s)) of
        None \<Rightarrow> (None, m_flag p)
      | Some (h, nx, q) \<Rightarrow> (h, upd_ps s (\<lambda>y. y\<lparr>ps_wq := q\<rparr>) (p\<lparr>p_wnext := nx\<rparr>)))"

definition pool_wq_remove :: "pool \<Rightarrow> addr \<Rightarrow> addr \<Rightarrow> pool" where
  "pool_wq_remove p s t =
     (case myio_wq_remove (p_wnext p) (ps_wq (psk p s)) t of
        None \<Rightarrow> m_flag p
      | Some (b, nx, q) \<Rightarrow> upd_ps s (\<lambda>y. y\<lparr>ps_wq := q\<rparr>) (p\<lparr>p_wnext := nx\<rparr>))"

text \<open>
  The promotion loop of \<^verbatim>\<open>write_advance\<close>: each round pops one node of a queue of
  distinct allocated addresses, so \<open>m_brk\<close> rounds suffice; running out is a fault.
\<close>

fun pool_promote :: "os \<Rightarrow> nat \<Rightarrow> pool \<Rightarrow> addr \<Rightarrow> ptr \<Rightarrow> pool" where
  "pool_promote os fuel p s None = p"
| "pool_promote os 0 p s (Some n) = m_flag p"
| "pool_promote os (Suc fuel) p s (Some n) =
     (let (ok, p) = dispatch_locked os p n in
      if ok then p
      else
        let (h, p) = pool_wq_pop p s;
            p = upd_ps s (\<lambda>y. y\<lparr>ps_inflight := ps_inflight y - 1\<rparr>) p;
            p = upd_pt n (\<lambda>x. x\<lparr>pt_res := r_err EAGAIN, pt_done := True\<rparr>) p;
            p = (if pt_detached (pt p n) then pool_reap os p n else p);
            p = done_broadcast p
        in pool_promote os fuel p s h)"

definition write_advance :: "os \<Rightarrow> pool \<Rightarrow> addr \<Rightarrow> pool" where
  "write_advance os p t =
     (case pt_sock (pt p t) of
        None \<Rightarrow> m_flag p
      | Some s \<Rightarrow>
          let p = chk_ps s p in
          if wq_head (ps_wq (psk p s)) \<noteq> Some t then pool_wq_remove p s t
          else
            let (h, p) = pool_wq_pop p s in
            if p_shutdown p then p else pool_promote os (m_brk p) p s h)"

definition complete_unrun :: "os \<Rightarrow> pool \<Rightarrow> addr \<Rightarrow> pool" where
  "complete_unrun os p t =
     (let p = chk_pt t p;
          k = pt_kind (pt p t);
          p = queue_remove p t;
          p = (if op_on_sock k then upd_tsock t (\<lambda>y. y\<lparr>ps_inflight := ps_inflight y - 1\<rparr>) p else p);
          p = (if k = OP_SOCK_WRITE then write_advance os p t else p);
          p = upd_pt t (\<lambda>x. x\<lparr>pt_res := r_canceled, pt_done := True\<rparr>) p;
          p = (if pt_detached (pt p t) then pool_reap os p t else p)
      in done_broadcast p)"

subsection \<open>The worker: the blocking part of a task\<close>

definition POOL_IDLE_SEC :: int where "POOL_IDLE_SEC = 10"
definition INT_MAX :: nat where "INT_MAX = 2 ^ 31 - 1"

text \<open>The deadline \<open>timeout_ms\<close> from now, with the carry of the nanoseconds.\<close>

definition deadline_after :: "int \<times> int \<Rightarrow> nat \<Rightarrow> int \<times> int" where
  "deadline_after now ms =
     (let sec = fst now + int (ms div 1000);
          nsec = snd now + int (ms mod 1000) * 1000000
      in if nsec \<ge> 1000000000 then (sec + 1, nsec - 1000000000) else (sec, nsec))"

text \<open>What is left until the deadline; \<open>None\<close> when it has passed.\<close>

definition time_left :: "int \<times> int \<Rightarrow> int \<times> int \<Rightarrow> (int \<times> int) option" where
  "time_left deadline now =
     (let sec = fst deadline - fst now;
          nsec = snd deadline - snd now;
          (sec, nsec) = (if nsec < 0 then (sec - 1, nsec + 1000000000) else (sec, nsec))
      in if sec < 0 then None else Some (sec, nsec))"

text \<open>
  \<^verbatim>\<open>cancelable_wait\<close>: its entry, the check of the flag under the lock, and one round of
  \<^verbatim>\<open>ppoll\<close>. A worker leaves the loop to its real call (\<open>W_call\<close>) or, canceled, to the
  commit.
\<close>

definition wait_enter :: "os \<Rightarrow> pool \<Rightarrow> nat \<Rightarrow> addr \<Rightarrow> nat option \<Rightarrow> pool" where
  "wait_enter os p w t timeout =
     (case timeout of
        None \<Rightarrow> set_w w (W_wait t None) p
      | Some ms \<Rightarrow>
          let (a, p) = sys_call os C_clock p
          in set_w w (W_wait t (Some (deadline_after (a_rem a) ms))) p)"

definition wait_check :: "pool \<Rightarrow> nat \<Rightarrow> addr \<Rightarrow> (int \<times> int) option \<Rightarrow> pool" where
  "wait_check p w t d =
     (let p = chk_pt t p in
      if pt_cancel_req (pt p t) then set_w w (W_commit t r_canceled (- 1)) p
      else set_w w (W_poll t d) p)"

definition wait_poll :: "os \<Rightarrow> pool \<Rightarrow> nat \<Rightarrow> addr \<Rightarrow> (int \<times> int) option \<Rightarrow> pool" where
  "wait_poll os p w t d =
     (let p = chk_pt t p;
          fd = (if pt_kind (pt p t) = OP_SLEEP then - 1 else c_int (pt_fd (pt p t)));
          (late, ts, p) =
            (case d of
               None \<Rightarrow> (False, None, p)
             | Some dl \<Rightarrow>
                 let (a, p) = sys_call os C_clock p
                 in (time_left dl (a_rem a) = None, time_left dl (a_rem a), p))
      in if late then set_w w (W_call t) p
         else
           let (r, p) = sys_call os (C_ppoll fd ts) p in
           if a_ret r < 0 \<and> a_errno r = EINTR then set_w w (W_wait t d) p
           else set_w w (W_call t) p)"

text \<open>The start of a task: \<^verbatim>\<open>worker_close\<close>, or the case of \<^verbatim>\<open>worker_run\<close> for its kind.\<close>

definition worker_start :: "os \<Rightarrow> pool \<Rightarrow> nat \<Rightarrow> addr \<Rightarrow> pool" where
  "worker_start os p w t =
     (let p = chk_pt t p; x = pt p t in
      case pt_kind x of
        OP_OPEN \<Rightarrow>
          (let (a, p) = sys_call os (C_open (the (pt_path x)) (pt_flags x) (pt_mode x)) p
           in set_w w (W_commit t (r_from (a_ret a) (a_errno a)) (- 1)) p)
      | OP_CLOSE \<Rightarrow>
          (let (a, p) = sys_call os (C_close (c_int (pt_fd x))) p
           in set_w w (W_commit t (r_from (a_ret a) (a_errno a)) (- 1)) p)
      | OP_READ \<Rightarrow>
          (let (a, p) = sys_call os
                 (if pt_offset x = MYIO_NO_OFFSET then C_read (c_int (pt_fd x)) (pt_buf x) (pt_len x)
                  else C_pread (c_int (pt_fd x)) (pt_buf x) (pt_len x) (pt_offset x)) p
           in set_w w (W_commit t (r_from (a_ret a) (a_errno a)) (- 1)) p)
      | OP_WRITE \<Rightarrow>
          (let (a, p) = sys_call os
                 (if pt_offset x = MYIO_NO_OFFSET then C_write (c_int (pt_fd x)) (pt_data x)
                  else C_pwrite (c_int (pt_fd x)) (pt_data x) (pt_offset x)) p
           in set_w w (W_commit t (r_from (a_ret a) (a_errno a)) (- 1)) p)
      | OP_SLEEP \<Rightarrow> wait_enter os p w t (Some (if pt_ms x > INT_MAX then INT_MAX else pt_ms x))
      | OP_SPAWN \<Rightarrow>
          (let (a, p) = sys_call os (C_fn (pt_fn x) (pt_arg x)) p; rc = a_ret a
           in set_w w (W_commit t (if rc \<ge> 0 then r_ok rc None else r_err (c_int (- rc))) (- 1)) p)
      | OP_CONNECT \<Rightarrow>
          (let ((fd, err), p) = myio_posix_connect os (the (pt_path x)) (pt_port x) p
           in set_w w (W_commit t (r_err err) fd) p)
      | OP_ACCEPT \<Rightarrow> wait_enter os p w t None
      | OP_SOCK_READ \<Rightarrow> wait_enter os p w t None
      | OP_SOCK_WRITE \<Rightarrow>
          (case pt_sock x of
             None \<Rightarrow> m_flag p
           | Some s \<Rightarrow>
               let p = chk_ps s p in
               if ps_closing (psk p s) \<or> p_shutdown p then set_w w (W_commit t r_canceled (- 1)) p
               else set_w w (W_send t 0) p)
      | OP_SOCK_CLOSE \<Rightarrow> set_w w (W_drain t) p)"

text \<open>The call behind a finished wait.\<close>

definition worker_call :: "os \<Rightarrow> pool \<Rightarrow> nat \<Rightarrow> addr \<Rightarrow> pool" where
  "worker_call os p w t =
     (let p = chk_pt t p; x = pt p t in
      case pt_kind x of
        OP_SOCK_READ \<Rightarrow>
          (let (a, p) = sys_call os (C_recv (c_int (pt_fd x)) (pt_buf x) (pt_len x)) p
           in set_w w (W_commit t (r_from (a_ret a) (a_errno a)) (- 1)) p)
      | OP_ACCEPT \<Rightarrow>
          (let (a, p) = sys_call os (C_accept (c_int (pt_fd x))) p; fd = a_ret a
           in set_w w (W_commit t (if fd < 0 then r_err (a_errno a) else r_ok 0 None) fd) p)
      | _ \<Rightarrow> set_w w (W_commit t (r_ok 0 None) (- 1)) p)"

text \<open>One round of the send loop.\<close>

definition worker_send :: "os \<Rightarrow> pool \<Rightarrow> nat \<Rightarrow> addr \<Rightarrow> nat \<Rightarrow> pool" where
  "worker_send os p w t off =
     (let p = chk_pt t p; x = pt p t in
      if off < pt_len x then
        let (a, p) = sys_call os (C_send (c_int (pt_fd x)) (drop off (pt_data x))) p in
        if a_ret a < 0 then
          if a_errno a = EINTR then set_w w (W_send t off) p
          else set_w w (W_commit t (r_err (a_errno a)) (- 1)) p
        else set_w w (W_send t (off + nat (a_ret a))) p
      else set_w w (W_commit t (r_ok (int (pt_len x)) None) (- 1)) p)"

subsection \<open>The worker: committing a result\<close>

text \<open>The end of every task: result, done flag, counters, reaping, broadcast.\<close>

definition worker_finish :: "os \<Rightarrow> pool \<Rightarrow> nat \<Rightarrow> addr \<Rightarrow> myio_result \<Rightarrow> pool" where
  "worker_finish os p w t res =
     (let p = upd_pt t (\<lambda>x. x\<lparr>pt_res := res, pt_done := True\<rparr>) p;
          p = (if p_nrunning p = 0 then m_flag p else p\<lparr>p_nrunning := p_nrunning p - 1\<rparr>);
          p = p\<lparr>p_completions := p_completions p + 1\<rparr>;
          p = (if pt_detached (pt p t) then pool_reap os p t else p);
          p = done_broadcast p
      in set_w w W_top p)"

text \<open>Wrapping the new descriptor of a connect or accept.\<close>

definition worker_wrap :: "os \<Rightarrow> pool \<Rightarrow> op_kind \<Rightarrow> myio_result \<Rightarrow> int \<Rightarrow> myio_result \<times> pool" where
  "worker_wrap os p k res newfd =
     (if (k = OP_CONNECT \<or> k = OP_ACCEPT) \<and> newfd \<ge> 0 then
        let (sp, p) = pool_sock_link os p newfd in
        case sp of
          None \<Rightarrow> let (_, p) = sys_call os (C_close newfd) p in (r_err ENOMEM, p)
        | Some s \<Rightarrow> (r_ok 0 (Some s), p)
      else (res, p))"

text \<open>Leaving the socket: the count, the write FIFO, and the result on a closing socket.\<close>

definition worker_leave :: "os \<Rightarrow> pool \<Rightarrow> addr \<Rightarrow> op_kind \<Rightarrow> myio_result \<Rightarrow> myio_result \<times> pool" where
  "worker_leave os p t k res =
     (if op_on_sock k then
        let p = upd_tsock t (\<lambda>y. y\<lparr>ps_inflight := ps_inflight y - 1\<rparr>) p;
            p = (if k = OP_SOCK_WRITE then write_advance os p t else p)
        in case pt_sock (pt p t) of
             None \<Rightarrow> (res, m_flag p)
           | Some s \<Rightarrow>
               let p = chk_ps s p in
               if ps_closing (psk p s) then
                 (r_canceled, case res_ptr res of Some n \<Rightarrow> pool_sock_drop os p n | None \<Rightarrow> p)
               else (res, p)
      else (res, p))"

definition worker_commit :: "os \<Rightarrow> pool \<Rightarrow> nat \<Rightarrow> addr \<Rightarrow> myio_result \<Rightarrow> int \<Rightarrow> pool" where
  "worker_commit os p w t res newfd =
     (let p = chk_pt t p;
          k = pt_kind (pt p t);
          (res, p) = worker_wrap os p k res newfd;
          (res, p) = worker_leave os p t k res
      in worker_finish os p w t res)"

text \<open>\<^verbatim>\<open>worker_close\<close>: wait for the socket to drain, unlink it, then close and free it.\<close>

definition worker_drain :: "pool \<Rightarrow> nat \<Rightarrow> addr \<Rightarrow> pool" where
  "worker_drain p w t =
     (let p = chk_pt t p in
      case pt_sock (pt p t) of
        None \<Rightarrow> m_flag p
      | Some s \<Rightarrow>
          let p = chk_ps s p in
          if ps_inflight (psk p s) > 0 then set_w w (W_drain_wait t) p
          else
            let fd = ps_fd (psk p s)
            in set_w w (W_close t s fd) (pool_sock_unlink p s))"

definition worker_close_fd :: "os \<Rightarrow> pool \<Rightarrow> nat \<Rightarrow> addr \<Rightarrow> addr \<Rightarrow> int \<Rightarrow> pool" where
  "worker_close_fd os p w t s fd =
     (let (_, p) = sys_call os (C_close fd) p
      in set_w w (W_closed t) (free_ps s p))"

subsection \<open>The worker: its main loop\<close>

text \<open>Past the inner loop: take the head of the queue, or retire.\<close>

definition worker_take :: "pool \<Rightarrow> nat \<Rightarrow> pool" where
  "worker_take p w =
     (case p_qhead p of
        None \<Rightarrow>
          let p = set_w w W_gone (if p_nlive p = 0 then m_flag p else p\<lparr>p_nlive := p_nlive p - 1\<rparr>)
          in if p_shutdown p \<and> p_nlive p = 0 then done_broadcast p else p
      | Some t \<Rightarrow>
          let p = chk_pt t p;
              p = p\<lparr>p_qhead := p_qnext p t\<rparr>;
              p = (if p_qhead p = None then p\<lparr>p_qtail := None\<rparr> else p);
              p = p\<lparr>p_qnext := (p_qnext p)(t := None)\<rparr>;
              p = (if p_nqueued p = 0 then m_flag p else p\<lparr>p_nqueued := p_nqueued p - 1\<rparr>);
              p = p\<lparr>p_nrunning := Suc (p_nrunning p)\<rparr>;
              p = upd_pt t (\<lambda>x. x\<lparr>pt_started := True, pt_worker := w\<rparr>) p
          in set_w w (W_start t) p)"

text \<open>The condition of the inner loop: park, or go on.\<close>

definition worker_look :: "os \<Rightarrow> pool \<Rightarrow> nat \<Rightarrow> pool" where
  "worker_look os p w =
     (if p_qhead p = None \<and> \<not> p_shutdown p then
        let (a, p) = sys_call os C_clock p;
            deadline = (fst (a_rem a) + POOL_IDLE_SEC, snd (a_rem a))
        in set_w w (W_parked deadline) (p\<lparr>p_idle := p_idle p + 1\<rparr>)
      else worker_take p w)"

definition worker_wake :: "os \<Rightarrow> pool \<Rightarrow> nat \<Rightarrow> bool \<Rightarrow> pool" where
  "worker_wake os p w timedout =
     (let p = p\<lparr>p_idle := p_idle p - 1\<rparr> in
      if timedout then worker_take p w else worker_look os p w)"

text \<open>One transition of worker \<open>w\<close>; \<open>None\<close> when it is asleep or gone.\<close>

definition worker_step :: "os \<Rightarrow> pool \<Rightarrow> nat \<Rightarrow> pool option" where
  "worker_step os p w =
     (if w \<ge> p_nw p then None
      else case p_w p w of
        W_top \<Rightarrow> Some (worker_look os p w)
      | W_parked d \<Rightarrow> None
      | W_woken b \<Rightarrow> Some (worker_wake os p w b)
      | W_start t \<Rightarrow> Some (worker_start os p w t)
      | W_wait t d \<Rightarrow> Some (wait_check p w t d)
      | W_poll t d \<Rightarrow> Some (wait_poll os p w t d)
      | W_call t \<Rightarrow> Some (worker_call os p w t)
      | W_send t off \<Rightarrow> Some (worker_send os p w t off)
      | W_commit t res fd \<Rightarrow> Some (worker_commit os p w t res fd)
      | W_drain t \<Rightarrow> Some (worker_drain p w t)
      | W_drain_wait t \<Rightarrow> None
      | W_close t s fd \<Rightarrow> Some (worker_close_fd os p w t s fd)
      | W_closed t \<Rightarrow> Some (worker_finish os p w t (r_ok 0 None))
      | W_gone \<Rightarrow> None)"

subsection \<open>Submission\<close>

definition pool_task_new :: "os \<Rightarrow> pool \<Rightarrow> op_kind \<Rightarrow> ptr \<times> pool" where
  "pool_task_new os p kind =
     (let (a, p) = sys_alloc os p in
      case a of
        None \<Rightarrow> (None, p)
      | Some t \<Rightarrow>
          (Some t, p\<lparr>p_th := (p_th p)(t \<mapsto> pool_task0 kind), p_qnext := (p_qnext p)(t := None),
             p_wnext := (p_wnext p)(t := None)\<rparr>))"

text \<open>Nothing could be secured for the task: it fails with \<open>EAGAIN\<close>.\<close>

definition submit_fail :: "pool \<Rightarrow> addr \<Rightarrow> pool" where
  "submit_fail p t =
     (let k = pt_kind (pt p t);
          p = (if op_on_sock k then upd_tsock t (\<lambda>y. y\<lparr>ps_inflight := ps_inflight y - 1\<rparr>) p else p);
          p = (if k = OP_SOCK_WRITE then
                 (case pt_sock (pt p t) of None \<Rightarrow> m_flag p | Some s \<Rightarrow> snd (pool_wq_pop p s))
               else p)
      in upd_pt t (\<lambda>x. x\<lparr>pt_res := r_err EAGAIN, pt_done := True\<rparr>) p)"

definition pool_submit :: "os \<Rightarrow> pool \<Rightarrow> addr \<Rightarrow> pool" where
  "pool_submit os p t =
     (let p = chk_pt t p;
          k = pt_kind (pt p t);
          p = (if op_on_sock k then upd_tsock t (\<lambda>y. y\<lparr>ps_inflight := ps_inflight y + 1\<rparr>) p else p);
          (head, p) =
            (if k = OP_SOCK_WRITE then
               (case pt_sock (pt p t) of None \<Rightarrow> (False, m_flag p) | Some s \<Rightarrow> pool_wq_push p s t)
             else (True, p))
      in if \<not> head then p
         else
           let (ok, p) = dispatch_locked os p t in
           if ok then p else submit_fail p t)"

text \<open>Allocate a task, fill in its arguments, submit it: what most entry points do.\<close>

definition pool_op :: "os \<Rightarrow> pool \<Rightarrow> op_kind \<Rightarrow> (pool_task \<Rightarrow> pool_task) \<Rightarrow> ptr \<times> pool" where
  "pool_op os p kind args =
     (let (a, p) = pool_task_new os p kind in
      case a of
        None \<Rightarrow> (None, p)
      | Some t \<Rightarrow> (Some t, pool_submit os (upd_pt t args p) t))"

text \<open>The same for an operation with a copied string.\<close>

definition pool_op_str :: "os \<Rightarrow> pool \<Rightarrow> op_kind \<Rightarrow> string \<Rightarrow> (pool_task \<Rightarrow> pool_task) \<Rightarrow> ptr \<times> pool" where
  "pool_op_str os p kind str args =
     (let (a, p) = pool_task_new os p kind in
      case a of
        None \<Rightarrow> (None, p)
      | Some t \<Rightarrow>
          let (c, p) = sys_call os (C_strdup str) p in
          if a_ret c = 0 then (None, free_pt t p)
          else (Some t, pool_submit os (upd_pt t (\<lambda>x. args (x\<lparr>pt_path := Some str\<rparr>)) p) t))"

definition pool_open :: "os \<Rightarrow> pool \<Rightarrow> string \<Rightarrow> int \<Rightarrow> int \<Rightarrow> ptr \<times> pool" where
  "pool_open os p path flags mode =
     pool_op_str os p OP_OPEN path (\<lambda>x. x\<lparr>pt_flags := flags, pt_mode := mode\<rparr>)"

definition pool_close :: "os \<Rightarrow> pool \<Rightarrow> int \<Rightarrow> ptr \<times> pool" where
  "pool_close os p fd = pool_op os p OP_CLOSE (\<lambda>x. x\<lparr>pt_fd := fd\<rparr>)"

definition pool_read :: "os \<Rightarrow> pool \<Rightarrow> int \<Rightarrow> addr \<Rightarrow> nat \<Rightarrow> int \<Rightarrow> ptr \<times> pool" where
  "pool_read os p fd buf len offset =
     pool_op os p OP_READ (\<lambda>x. x\<lparr>pt_fd := fd, pt_buf := buf, pt_len := len, pt_offset := offset\<rparr>)"

definition pool_write :: "os \<Rightarrow> pool \<Rightarrow> int \<Rightarrow> byte list \<Rightarrow> int \<Rightarrow> ptr \<times> pool" where
  "pool_write os p fd buf offset =
     pool_op os p OP_WRITE (\<lambda>x. x\<lparr>pt_fd := fd, pt_data := buf, pt_len := length buf, pt_offset := offset\<rparr>)"

definition pool_sleep :: "os \<Rightarrow> pool \<Rightarrow> nat \<Rightarrow> ptr \<times> pool" where
  "pool_sleep os p ms = pool_op os p OP_SLEEP (\<lambda>x. x\<lparr>pt_ms := ms\<rparr>)"

definition pool_spawn :: "os \<Rightarrow> pool \<Rightarrow> addr \<Rightarrow> addr \<Rightarrow> ptr \<times> pool" where
  "pool_spawn os p fn arg = pool_op os p OP_SPAWN (\<lambda>x. x\<lparr>pt_fn := fn, pt_arg := arg\<rparr>)"

definition pool_tcp_connect :: "os \<Rightarrow> pool \<Rightarrow> string \<Rightarrow> int \<Rightarrow> ptr \<times> pool" where
  "pool_tcp_connect os p host port = pool_op_str os p OP_CONNECT host (\<lambda>x. x\<lparr>pt_port := port\<rparr>)"

definition pool_tcp_listen :: "os \<Rightarrow> pool \<Rightarrow> string \<Rightarrow> int \<Rightarrow> int \<Rightarrow> ptr \<times> int option \<times> pool" where
  "pool_tcp_listen os p host port backlog =
     (let ((fd, err), p) = myio_posix_listen os host port backlog p in
      if fd < 0 then (None, err, p)
      else
        let (sp, p) = pool_sock_link os p fd in
        case sp of
          None \<Rightarrow> (let (_, p) = sys_call os (C_close fd) p in (None, Some ENOMEM, p))
        | Some s \<Rightarrow> (Some s, None, p))"

text \<open>The operations on a socket read its descriptor when they are submitted.\<close>

definition pool_sock_op :: "os \<Rightarrow> pool \<Rightarrow> op_kind \<Rightarrow> addr \<Rightarrow> (pool_task \<Rightarrow> pool_task) \<Rightarrow> ptr \<times> pool" where
  "pool_sock_op os p kind s args =
     (let p = chk_ps s p; fd = ps_fd (psk p s)
      in pool_op os p kind (\<lambda>x. args (x\<lparr>pt_sock := Some s, pt_fd := fd\<rparr>)))"

definition pool_tcp_accept :: "os \<Rightarrow> pool \<Rightarrow> addr \<Rightarrow> ptr \<times> pool" where
  "pool_tcp_accept os p listener = pool_sock_op os p OP_ACCEPT listener (\<lambda>x. x)"

definition pool_sock_read :: "os \<Rightarrow> pool \<Rightarrow> addr \<Rightarrow> addr \<Rightarrow> nat \<Rightarrow> ptr \<times> pool" where
  "pool_sock_read os p s buf len = pool_sock_op os p OP_SOCK_READ s (\<lambda>x. x\<lparr>pt_buf := buf, pt_len := len\<rparr>)"

definition pool_sock_write :: "os \<Rightarrow> pool \<Rightarrow> addr \<Rightarrow> byte list \<Rightarrow> ptr \<times> pool" where
  "pool_sock_write os p s buf =
     pool_sock_op os p OP_SOCK_WRITE s (\<lambda>x. x\<lparr>pt_data := buf, pt_len := length buf\<rparr>)"

text \<open>The loop of \<^verbatim>\<open>impl_sock_close\<close> over the writes behind the FIFO head.\<close>

fun close_parked :: "os \<Rightarrow> nat \<Rightarrow> pool \<Rightarrow> addr \<Rightarrow> pool" where
  "close_parked os fuel p s =
     (case wq_head (ps_wq (psk p s)) of
        None \<Rightarrow> p
      | Some h \<Rightarrow>
          (case p_wnext p h of
             None \<Rightarrow> p
           | Some n \<Rightarrow>
               (case fuel of
                  0 \<Rightarrow> m_flag p
                | Suc fuel \<Rightarrow> close_parked os fuel (complete_unrun os p n) s)))"

declare close_parked.simps [simp del]

definition pool_sock_close :: "os \<Rightarrow> pool \<Rightarrow> addr \<Rightarrow> ptr \<times> pool" where
  "pool_sock_close os p s =
     (let (a, p) = pool_task_new os p OP_SOCK_CLOSE in
      case a of
        None \<Rightarrow> (None, p)
      | Some t \<Rightarrow>
          let p = upd_pt t (\<lambda>x. x\<lparr>pt_sock := Some s\<rparr>) p;
              p = upd_ps s (\<lambda>y. y\<lparr>ps_closing := True\<rparr>) p
          in if ps_inflight (psk p s) = 0 then
               let p = pool_sock_unlink p s;
                   fd = ps_fd (psk p s);
                   p = free_ps s p;
                   (_, p) = sys_call os (C_close fd) p
               in (Some t, upd_pt t (\<lambda>x. x\<lparr>pt_res := r_ok 0 None, pt_done := True\<rparr>) p)
             else
               let p = close_parked os (m_brk p) p s;
                   (_, p) = sys_call os (C_shutdown (ps_fd (psk p s))) p;
                   p = done_broadcast p;
                   (ok, p) = dispatch_locked os p t
               in (Some t, if ok then p
                     else upd_pt t (\<lambda>x. x\<lparr>pt_res := r_err EAGAIN, pt_done := True\<rparr>) p))"

definition pool_sock_port :: "os \<Rightarrow> pool \<Rightarrow> addr \<Rightarrow> int \<times> pool" where
  "pool_sock_port os p s = (let p = chk_ps s p in myio_local_port os (ps_fd (psk p s)) p)"

subsection \<open>Synchronisation and lifetime\<close>

text \<open>
  The head of the loop of \<^verbatim>\<open>impl_step\<close>, entered with the lock held: it returns, or
  (\<open>None\<close>) goes to sleep on \<^verbatim>\<open>done_cv\<close>.
\<close>

definition pool_step :: "pool \<Rightarrow> bool option \<times> pool" where
  "pool_step p =
     (if p_completions p = p_comp_seen p then
        if p_nqueued p = 0 \<and> p_nrunning p = 0 then (Some False, p\<lparr>p_user := U_ready\<rparr>)
        else (None, p\<lparr>p_user := U_stepping True\<rparr>)
      else (Some True, p\<lparr>p_comp_seen := p_completions p, p_user := U_ready\<rparr>))"

text \<open>Flag a running task and kick its worker out of \<^verbatim>\<open>ppoll\<close>.\<close>

definition interrupt_task :: "os \<Rightarrow> pool \<Rightarrow> addr \<Rightarrow> pool" where
  "interrupt_task os p t =
     (let p = upd_pt t (\<lambda>x. x\<lparr>pt_cancel_req := True\<rparr>) p
      in snd (sys_call os (C_thread_kill (pt_worker (pt p t))) p))"

definition pool_cancel :: "os \<Rightarrow> pool \<Rightarrow> addr \<Rightarrow> int \<times> pool" where
  "pool_cancel os p t =
     (let p = chk_pt t p; x = pt p t in
      if pt_done x then (- 1, p)
      else if \<not> pt_started x then (0, complete_unrun os p t)
      else if op_interruptible (pt_kind x) then (0, interrupt_task os p t)
      else (- 1, p))"

definition pool_task_result :: "pool \<Rightarrow> addr \<Rightarrow> myio_result" where
  "pool_task_result p t = pt_res (pt p t)"

definition pool_caps :: "pool \<Rightarrow> 32 word" where
  "pool_caps p = or (or MYIO_CAP_CONCURRENT_WAIT MYIO_CAP_NONBLOCKING_SUBMIT) MYIO_CAP_ASYNC_SPAWN"

definition pool_task_done :: "pool \<Rightarrow> addr \<Rightarrow> bool" where
  "pool_task_done p t = pt_done (pt p t)"

text \<open>\<^verbatim>\<open>impl_task_free\<close>: the test of its wait loop, then the whole entry.\<close>

definition pool_free_wait :: "pool \<Rightarrow> addr \<Rightarrow> pool" where
  "pool_free_wait p t =
     (let p = chk_pt t p in
      if pt_done (pt p t) then free_pt t (p\<lparr>p_user := U_ready\<rparr>)
      else p\<lparr>p_user := U_freeing t True\<rparr>)"

definition pool_task_free :: "os \<Rightarrow> pool \<Rightarrow> addr \<Rightarrow> pool" where
  "pool_task_free os p t =
     (let p = chk_pt t p; x = pt p t in
      if pt_done x then free_pt t p
      else if \<not> pt_started x then free_pt t (complete_unrun os p t)
      else pool_free_wait (if op_interruptible (pt_kind x) then interrupt_task os p t else p) t)"

definition pool_task_detach :: "os \<Rightarrow> pool \<Rightarrow> addr \<Rightarrow> pool" where
  "pool_task_detach os p t =
     (let p = chk_pt t p in
      if pt_done (pt p t) then pool_reap os p t else upd_pt t (\<lambda>x. x\<lparr>pt_detached := True\<rparr>) p)"

subsection \<open>Teardown\<close>

text \<open>Complete a task that never ran and reclaim it whoever owned it.\<close>

definition destroy_drop :: "os \<Rightarrow> pool \<Rightarrow> addr \<Rightarrow> pool" where
  "destroy_drop os p t =
     (let p = chk_pt t p;
          owned = (\<not> pt_detached (pt p t));
          p = complete_unrun os p t
      in if owned then pool_reap os p t else p)"

fun destroy_queue :: "os \<Rightarrow> nat \<Rightarrow> pool \<Rightarrow> pool" where
  "destroy_queue os fuel p =
     (case p_qhead p of
        None \<Rightarrow> p
      | Some t \<Rightarrow> (case fuel of 0 \<Rightarrow> m_flag p | Suc fuel \<Rightarrow> destroy_queue os fuel (destroy_drop os p t)))"

fun destroy_fifo :: "os \<Rightarrow> nat \<Rightarrow> pool \<Rightarrow> ptr \<Rightarrow> pool" where
  "destroy_fifo os fuel p h =
     (case h of
        None \<Rightarrow> p
      | Some w \<Rightarrow>
          (case fuel of
             0 \<Rightarrow> m_flag p
           | Suc fuel \<Rightarrow> let n = p_wnext p w in destroy_fifo os fuel (destroy_drop os p w) n))"

fun destroy_socks :: "os \<Rightarrow> nat \<Rightarrow> pool \<Rightarrow> ptr \<Rightarrow> pool" where
  "destroy_socks os fuel p c =
     (case c of
        None \<Rightarrow> p
      | Some s \<Rightarrow>
          (case fuel of
             0 \<Rightarrow> m_flag p
           | Suc fuel \<Rightarrow>
               let h = wq_head (ps_wq (psk p s));
                   h = (case h of
                          None \<Rightarrow> None
                        | Some t \<Rightarrow> if pt_started (pt p t) then p_wnext p t else Some t);
                   p = destroy_fifo os (m_brk p) p h;
                   (_, p) = sys_call os (C_shutdown (ps_fd (psk p s))) p
               in destroy_socks os fuel p (dl_next (p_socks p) s)))"

fun destroy_free :: "os \<Rightarrow> nat \<Rightarrow> pool \<Rightarrow> ptr \<Rightarrow> pool" where
  "destroy_free os fuel p c =
     (case c of
        None \<Rightarrow> p
      | Some s \<Rightarrow>
          (case fuel of
             0 \<Rightarrow> m_flag p
           | Suc fuel \<Rightarrow>
               let next = dl_next (p_socks p) s;
                   (_, p) = sys_call os (C_close (ps_fd (psk p s))) p
               in destroy_free os fuel (free_ps s p) next))"

declare destroy_queue.simps [simp del] destroy_fifo.simps [simp del]
  destroy_socks.simps [simp del] destroy_free.simps [simp del]

text \<open>The wait for the last worker, and the end of the instance.\<close>

definition pool_destroy_wait :: "os \<Rightarrow> pool \<Rightarrow> pool" where
  "pool_destroy_wait os p =
     (if p_nlive p > 0 then p\<lparr>p_user := U_destroying True\<rparr>
      else (destroy_free os (m_brk p) p (dl_head (p_socks p)))\<lparr>p_user := U_gone\<rparr>)"

definition pool_destroy :: "os \<Rightarrow> pool \<Rightarrow> pool" where
  "pool_destroy os p =
     (let p = p\<lparr>p_shutdown := True\<rparr>;
          p = destroy_queue os (m_brk p) p;
          p = destroy_socks os (m_brk p) p (dl_head (p_socks p));
          p = work_broadcast p;
          p = done_broadcast p
      in pool_destroy_wait os p)"

definition myio_pool_new :: "os \<Rightarrow> mach \<Rightarrow> pool option \<times> mach" where
  "myio_pool_new os m =
     (let (a, m) = sys_alloc os m in
      case a of
        None \<Rightarrow> (None, m)
      | Some _ \<Rightarrow>
          let (r, m) = sys_call os C_mutex_init m in
          if a_ret r \<noteq> 0 then (None, m)
          else
            let (i, m) = sys_call os C_condattr_init m;
                (c, m) = (if a_ret i \<noteq> 0 then (i, m) else sys_call os C_condattr_setclock m);
                (v, m) = (if a_ret i \<noteq> 0 \<or> a_ret c \<noteq> 0 then (c, m) else sys_call os C_cond_init m)
            in if a_ret i \<noteq> 0 \<or> a_ret c \<noteq> 0 \<or> a_ret v \<noteq> 0 then (None, m)
               else
                 let (d, m) = sys_call os C_cond_init m in
                 if a_ret d \<noteq> 0 then (None, m)
                 else (Some (mach.extend m \<lparr>p_qhead = None, p_qtail = None, p_nqueued = 0, p_nrunning = 0,
                    p_completions = 0, p_comp_seen = 0, p_idle = 0, p_shutdown = False, p_nlive = 0,
                    p_socks = dl_empty, p_th = Map.empty, p_sh = Map.empty, p_qnext = (\<lambda>_. None),
                    p_wnext = (\<lambda>_. None), p_w = (\<lambda>_. W_gone), p_nw = 0, p_user = U_ready\<rparr>), m))"

subsection \<open>The step relation\<close>

text \<open>What a call of the user thread does to the state, up to its return or its first wait.\<close>

fun pool_call :: "os \<Rightarrow> pool \<Rightarrow> ucall \<Rightarrow> pool" where
  "pool_call os p (U_open path f m) = snd (pool_open os p path f m)"
| "pool_call os p (U_close fd) = snd (pool_close os p fd)"
| "pool_call os p (U_read fd b n off) = snd (pool_read os p fd b n off)"
| "pool_call os p (U_write fd b off) = snd (pool_write os p fd b off)"
| "pool_call os p (U_sleep ms) = snd (pool_sleep os p ms)"
| "pool_call os p (U_spawn fn arg) = snd (pool_spawn os p fn arg)"
| "pool_call os p (U_tcp_connect h pr) = snd (pool_tcp_connect os p h pr)"
| "pool_call os p (U_tcp_listen h pr b) = snd (snd (pool_tcp_listen os p h pr b))"
| "pool_call os p (U_tcp_accept k) = snd (pool_tcp_accept os p k)"
| "pool_call os p (U_sock_read k b n) = snd (pool_sock_read os p k b n)"
| "pool_call os p (U_sock_write k b) = snd (pool_sock_write os p k b)"
| "pool_call os p (U_sock_close k) = snd (pool_sock_close os p k)"
| "pool_call os p (U_sock_port k) = snd (pool_sock_port os p k)"
| "pool_call os p U_step = snd (pool_step p)"
| "pool_call os p (U_cancel t) = snd (pool_cancel os p t)"
| "pool_call os p (U_task_free t) = pool_task_free os p t"
| "pool_call os p (U_task_detach t) = pool_task_detach os p t"

text \<open>The user thread, awake inside one of the three waiting functions, tests again.\<close>

definition user_step :: "os \<Rightarrow> pool \<Rightarrow> pool option" where
  "user_step os p =
     (case p_user p of
        U_stepping False \<Rightarrow> Some (snd (pool_step p))
      | U_freeing t False \<Rightarrow> Some (pool_free_wait p t)
      | U_destroying False \<Rightarrow> Some (pool_destroy_wait os p)
      | _ \<Rightarrow> None)"

text \<open>
  The handles and sockets the caller may name: tasks it has neither freed nor
  detached; sockets it owns and has not closed. The caller's rule on detach: a completed
  task whose result is a socket may be detached only while that socket is live, is not
  being closed and has no operation in flight, because detach closes and frees it at once.
\<close>

definition pool_handles :: "pool \<Rightarrow> addr set" where
  "pool_handles p = {t. \<exists>x. p_th p t = Some x \<and> \<not> pt_detached x}"

definition pool_usable :: "pool \<Rightarrow> addr set" where
  "pool_usable p = {s. \<exists>y. p_sh p s = Some y \<and> \<not> ps_closing y}"

definition pool_droppable :: "pool \<Rightarrow> addr \<Rightarrow> bool" where
  "pool_droppable p t \<longleftrightarrow> (\<forall>s. res_ptr (pt_res (pt p t)) = Some s \<longrightarrow>
     (\<exists>y. p_sh p s = Some y \<and> \<not> ps_closing y \<and> ps_inflight y = 0))"

definition pcall_ok :: "pool \<Rightarrow> ucall \<Rightarrow> bool" where
  "pcall_ok = ucall_ok pool_handles pool_droppable pool_usable"

inductive pool_trans :: "os \<Rightarrow> pool \<Rightarrow> pool \<Rightarrow> bool" for os :: os where
  tr_worker: "worker_step os p w = Some p' \<Longrightarrow> pool_trans os p p'"
| tr_wake: "w < p_nw p \<Longrightarrow> w_parked (p_w p w) \<Longrightarrow> pool_trans os p (set_w w (W_woken timedout) p)"
| tr_spurious: "pool_trans os p (done_broadcast p)"
| tr_call: "p_user p = U_ready \<Longrightarrow> pcall_ok p c \<Longrightarrow> pool_trans os p (pool_call os p c)"
| tr_destroy: "p_user p = U_ready \<Longrightarrow> pool_trans os p (pool_destroy os p)"
| tr_user: "user_step os p = Some p' \<Longrightarrow> pool_trans os p p'"

inductive_cases pool_transE: "pool_trans os p p'"

text \<open>Everything that can happen after \<^verbatim>\<open>myio_pool_new\<close>.\<close>

inductive pool_reach :: "os \<Rightarrow> pool \<Rightarrow> bool" for os :: os where
  reach_new: "myio_pool_new os m = (Some p, m') \<Longrightarrow> \<not> m_fault m \<Longrightarrow> pool_reach os p"
| reach_step: "pool_reach os p \<Longrightarrow> pool_trans os p p' \<Longrightarrow> pool_reach os p'"

end
