(* ===== verification/Myio_Pool_Core.thy ===== *)
theory Myio_Pool_Core
  imports Myio_Pool
begin

text \<open>
  What the thread pool maintains, on the plain data. The view \<open>pview\<close> of the task heap is
  the map of the tasks some queue, FIFO or worker is responsible for, with their kind and
  socket; \<open>locs\<close> says where each of them is: in the work queue, in the hands of a worker,
  or parked on the write FIFO of its socket. Every critical section is a few actions on
  these data, and each action has one lemma here.
\<close>

subsection \<open>The view of the task heap\<close>

type_synonym pview = "addr \<rightharpoonup> (op_kind \<times> ptr)"

text \<open>
  The tasks in \<open>T\<close> are in transit: allocated and not yet submitted, or taken from their
  place and not yet completed. A completed task is nobody's business.
\<close>

definition pview :: "addr set \<Rightarrow> (addr \<rightharpoonup> pool_task) \<Rightarrow> pview" where
  "pview T th t = (if t \<in> T then None else case th t of
     None \<Rightarrow> None
   | Some x \<Rightarrow> if pt_done x then None else Some (pt_kind x, pt_sock x))"

lemma pview_Some:
  "pview T th t = Some (k, s) \<longleftrightarrow> t \<notin> T \<and> (\<exists>x. th t = Some x \<and> \<not> pt_done x \<and> pt_kind x = k \<and> pt_sock x = s)"
  by (auto simp: pview_def split: option.splits)

lemma pview_insert: "pview (insert t T) th = (pview T th)(t := None)"
  by (auto simp: pview_def fun_eq_iff)

lemma pview_transit: "t \<in> T \<Longrightarrow> pview T (th(t := v)) = pview T th"
  by (auto simp: pview_def fun_eq_iff)

lemma pview_same:
  "th t = Some x \<Longrightarrow> pt_done x' = pt_done x \<Longrightarrow> pt_kind x' = pt_kind x \<Longrightarrow> pt_sock x' = pt_sock x \<Longrightarrow>
     pview T (th(t \<mapsto> x')) = pview T th"
  by (auto simp: pview_def fun_eq_iff)

lemma pview_submit:
  "t \<in> T \<Longrightarrow> th t = Some x \<Longrightarrow> \<not> pt_done x \<Longrightarrow> pview (T - {t}) th = (pview T th)(t \<mapsto> (pt_kind x, pt_sock x))"
  by (auto simp: pview_def fun_eq_iff)

lemma pview_settle:
  "t \<in> T \<Longrightarrow> (\<And>x. th t = Some x \<Longrightarrow> pt_done x) \<Longrightarrow> pview (T - {t}) th = pview T th"
  by (auto simp: pview_def fun_eq_iff split: option.splits)

lemma pview_done_gone: "th t = Some x \<Longrightarrow> pt_done x \<Longrightarrow> pview T (th(t := None)) = pview T th"
  by (auto simp: pview_def fun_eq_iff)

lemma pview_new: "th t = None \<Longrightarrow> pview (insert t T) (th(t \<mapsto> x)) = pview T th"
  by (auto simp: pview_def fun_eq_iff)

lemma pview_transit_None: "t \<in> T \<Longrightarrow> pview T th t = None"
  by (simp add: pview_def)

subsection \<open>Where the tasks are\<close>

definition writes_on :: "pview \<Rightarrow> addr \<Rightarrow> addr set" where
  "writes_on v s = {t. v t = Some (OP_SOCK_WRITE, Some s)}"

definition ops_on :: "pview \<Rightarrow> addr \<Rightarrow> addr set" where
  "ops_on v s = {t. \<exists>k. v t = Some (k, Some s) \<and> op_on_sock k}"

text \<open>
  A write is dispatched only as the head of its FIFO, every other task always. The
  sockets in \<open>D\<close> are those whose FIFO has just lost its head: nothing of them is
  dispatched.
\<close>

definition disp_inv :: "pview \<Rightarrow> (addr \<rightharpoonup> pool_sock) \<Rightarrow> addr list \<Rightarrow> addr set \<Rightarrow> addr set \<Rightarrow> bool" where
  "disp_inv v sh Q h D \<longleftrightarrow> (\<forall>t k s. v t = Some (k, s) \<longrightarrow>
     (t \<in> set Q \<union> h \<longleftrightarrow> (k = OP_SOCK_WRITE \<longrightarrow>
        (\<exists>s' y. s = Some s' \<and> sh s' = Some y \<and> s' \<notin> D \<and> wq_head (ps_wq y) = Some t))))"

definition place_inv :: "pview \<Rightarrow> addr list \<Rightarrow> addr set \<Rightarrow> bool" where
  "place_inv v Q h \<longleftrightarrow> set Q \<subseteq> dom v \<and> h \<subseteq> dom v \<and> set Q \<inter> h = {} \<and> distinct Q"

definition sock_inv :: "pview \<Rightarrow> (addr \<rightharpoonup> pool_sock) \<Rightarrow> bool" where
  "sock_inv v sh \<longleftrightarrow> (\<forall>t k s. v t = Some (k, s) \<longrightarrow>
     (op_on_sock k \<longrightarrow> (\<exists>s'. s = Some s' \<and> s' \<in> dom sh)) \<and> (k = OP_SOCK_CLOSE \<longrightarrow> s \<noteq> None))"

definition fifo_inv :: "pview \<Rightarrow> (addr \<rightharpoonup> pool_sock) \<Rightarrow> wlinks \<Rightarrow> bool" where
  "fifo_inv v sh nx \<longleftrightarrow> (\<forall>s y. sh s = Some y \<longrightarrow> (\<exists>xs. wq_list nx (ps_wq y) xs \<and> set xs = writes_on v s))"

definition infl_inv :: "pview \<Rightarrow> (addr \<rightharpoonup> pool_sock) \<Rightarrow> bool" where
  "infl_inv v sh \<longleftrightarrow> finite (dom v) \<and> (\<forall>s y. sh s = Some y \<longrightarrow> ps_inflight y = int (card (ops_on v s)))"

text \<open>A pending close has its socket to itself, until (\<open>C\<close>) it has freed it.\<close>

definition close_inv :: "pview \<Rightarrow> (addr \<rightharpoonup> pool_sock) \<Rightarrow> addr set \<Rightarrow> bool" where
  "close_inv v sh C \<longleftrightarrow>
     (\<forall>t s. v t = Some (OP_SOCK_CLOSE, Some s) \<longrightarrow> t \<notin> C \<longrightarrow> (\<exists>y. sh s = Some y \<and> ps_closing y)) \<and>
     (\<forall>t t' s. v t = Some (OP_SOCK_CLOSE, Some s) \<longrightarrow> t \<notin> C \<longrightarrow>
        v t' = Some (OP_SOCK_CLOSE, Some s) \<longrightarrow> t' \<notin> C \<longrightarrow> t = t')"

definition locs ::
  "pview \<Rightarrow> (addr \<rightharpoonup> pool_sock) \<Rightarrow> wlinks \<Rightarrow> addr list \<Rightarrow> addr set \<Rightarrow> addr set \<Rightarrow> addr set \<Rightarrow> bool" where
  "locs v sh nx Q h C D \<longleftrightarrow> place_inv v Q h \<and> disp_inv v sh Q h D \<and> sock_inv v sh \<and> fifo_inv v sh nx \<and>
     infl_inv v sh \<and> close_inv v sh C"

lemma locs_parts:
  assumes "locs v sh nx Q h C D"
  shows "place_inv v Q h" "disp_inv v sh Q h D" "sock_inv v sh" "fifo_inv v sh nx" "infl_inv v sh" "close_inv v sh C"
  using assms by (auto simp: locs_def)

lemma locsI:
  assumes "place_inv v Q h" "disp_inv v sh Q h D" "sock_inv v sh" "fifo_inv v sh nx" "infl_inv v sh" "close_inv v sh C"
  shows "locs v sh nx Q h C D"
  using assms by (auto simp: locs_def)

lemma on_sock_simps [simp]:
  "op_on_sock OP_SOCK_WRITE" "op_on_sock OP_SOCK_READ" "op_on_sock OP_ACCEPT" "\<not> op_on_sock OP_SOCK_CLOSE"
  by (simp_all add: op_on_sock_def)

lemma writes_on_sub: "writes_on v s \<subseteq> ops_on v s"
  by (auto simp: writes_on_def ops_on_def)

lemma ops_on_finite: "finite (dom v) \<Longrightarrow> finite (ops_on v s)"
  by (rule finite_subset [of _ "dom v"]) (auto simp: ops_on_def)

lemma ops_on_upd:
  "ops_on (v(t := None)) s = ops_on v s - {t}"
  "ops_on (v(t \<mapsto> (k, p))) s = (if op_on_sock k \<and> p = Some s then insert t (ops_on v s) else ops_on v s - {t})"
  by (auto simp: ops_on_def)

lemma writes_on_upd:
  "writes_on (v(t := None)) s = writes_on v s - {t}"
  "writes_on (v(t \<mapsto> (k, p))) s = (if k = OP_SOCK_WRITE \<and> p = Some s then insert t (writes_on v s) else writes_on v s - {t})"
  by (auto simp: writes_on_def)

lemma ops_on_mem: "v t = Some (k, Some s) \<Longrightarrow> op_on_sock k \<Longrightarrow> t \<in> ops_on v s"
  by (auto simp: ops_on_def)

lemma close_inv_upd_None: "close_inv v sh C \<Longrightarrow> close_inv (v(t := None)) sh C"
  by (auto simp: close_inv_def)

lemma close_inv_sock:
  "close_inv v sh C \<Longrightarrow> sh s = Some y \<Longrightarrow> (ps_closing y \<Longrightarrow> ps_closing y') \<Longrightarrow> close_inv v (sh(s \<mapsto> y')) C"
  unfolding close_inv_def
proof (elim conjE, intro conjI)
  assume y: "sh s = Some y" and c: "ps_closing y \<Longrightarrow> ps_closing y'"
    and a: "\<forall>t s. v t = Some (OP_SOCK_CLOSE, Some s) \<longrightarrow> t \<notin> C \<longrightarrow> (\<exists>y. sh s = Some y \<and> ps_closing y)"
  show "\<forall>t s'. v t = Some (OP_SOCK_CLOSE, Some s') \<longrightarrow> t \<notin> C \<longrightarrow> (\<exists>z. (sh(s \<mapsto> y')) s' = Some z \<and> ps_closing z)"
  proof (intro allI impI)
    fix t s'
    assume "v t = Some (OP_SOCK_CLOSE, Some s')" "t \<notin> C"
    with a have "\<exists>z. sh s' = Some z \<and> ps_closing z" by blast
    with y c show "\<exists>z. (sh(s \<mapsto> y')) s' = Some z \<and> ps_closing z" by (cases "s' = s") auto
  qed
qed

lemma sock_inv_upd_None: "sock_inv v sh \<Longrightarrow> sock_inv (v(t := None)) sh"
  by (simp add: sock_inv_def)

lemma sock_inv_sock: "sock_inv v sh \<Longrightarrow> sock_inv v (sh(s \<mapsto> y))"
  by (fastforce simp: sock_inv_def)

lemma fifo_list:
  assumes "fifo_inv v sh nx" and "sh s = Some y"
  obtains xs where "wq_list nx (ps_wq y) xs" "set xs = writes_on v s"
  using assms unfolding fifo_inv_def by blast

lemma writes_disjoint: "s \<noteq> s' \<Longrightarrow> writes_on v s \<inter> writes_on v s' = {}"
  by (auto simp: writes_on_def)

subsection \<open>A task leaves its place\<close>

text \<open>A task that is on no socket.\<close>

lemma locs_extract_plain:
  assumes l: "locs v sh nx Q h C D" and t: "v t = Some (k, s)" and k: "\<not> op_on_sock k"
  shows "locs (v(t := None)) sh nx (remove1 t Q) (h - {t}) C D"
proof (rule locsI)
  note p = locs_parts [OF l]
  have Q: "distinct Q" using p(1) by (simp add: place_inv_def)
  show "place_inv (v(t := None)) (remove1 t Q) (h - {t})"
    using p(1) by (auto simp: place_inv_def set_remove1_eq)
  show "disp_inv (v(t := None)) sh (remove1 t Q) (h - {t}) D"
    using p(2) Q by (auto simp: disp_inv_def set_remove1_eq)
  show "sock_inv (v(t := None)) sh" by (rule sock_inv_upd_None [OF p(3)])
  have n: "t \<notin> writes_on v s'" "t \<notin> ops_on v s'" for s' using t k by (auto simp: writes_on_def ops_on_def)
  then show "fifo_inv (v(t := None)) sh nx" using p(4) by (simp add: fifo_inv_def writes_on_upd)
  show "infl_inv (v(t := None)) sh" using p(5) n by (simp add: infl_inv_def ops_on_upd)
  show "close_inv (v(t := None)) sh C" by (rule close_inv_upd_None [OF p(6)])
qed

text \<open>A task on a socket that is not a write: the count goes down.\<close>

lemma infl_extract:
  assumes i: "infl_inv v sh" and t: "v t = Some (k, Some s)" "op_on_sock k" and y: "sh s = Some y"
  shows "infl_inv (v(t := None)) (sh(s \<mapsto> y\<lparr>ps_inflight := ps_inflight y - 1, ps_wq := q\<rparr>))"
proof -
  have m: "t \<in> ops_on v s" using t by (auto simp: ops_on_def)
  have f: "finite (dom v)" using i by (simp add: infl_inv_def)
  have c: "card (ops_on v s) = Suc (card (ops_on v s - {t}))"
    using m ops_on_finite [OF f] by (metis card_Suc_Diff1)
  have o: "s' \<noteq> s \<Longrightarrow> t \<notin> ops_on v s'" for s' using t by (auto simp: ops_on_def)
  show ?thesis unfolding infl_inv_def
  proof (intro conjI allI impI)
    show "finite (dom (v(t := None)))" using f by simp
    fix s' z
    assume z: "(sh(s \<mapsto> y\<lparr>ps_inflight := ps_inflight y - 1, ps_wq := q\<rparr>)) s' = Some z"
    show "ps_inflight z = int (card (ops_on (v(t := None)) s'))"
    proof (cases "s' = s")
      case True
      with z y i c show ?thesis by (auto simp: infl_inv_def ops_on_upd)
    next
      case False
      with z o [OF False] i show ?thesis by (simp add: infl_inv_def ops_on_upd)
    qed
  qed
qed

lemma locs_extract_sock:
  assumes l: "locs v sh nx Q h C D" and t: "v t = Some (k, Some s)" "op_on_sock k" "k \<noteq> OP_SOCK_WRITE"
    and y: "sh s = Some y"
  shows "locs (v(t := None)) (sh(s \<mapsto> y\<lparr>ps_inflight := ps_inflight y - 1\<rparr>)) nx (remove1 t Q) (h - {t}) C D"
proof (rule locsI)
  note p = locs_parts [OF l]
  have Q: "distinct Q" using p(1) by (simp add: place_inv_def)
  show "place_inv (v(t := None)) (remove1 t Q) (h - {t})"
    using p(1) by (auto simp: place_inv_def set_remove1_eq)
  show "disp_inv (v(t := None)) (sh(s \<mapsto> y\<lparr>ps_inflight := ps_inflight y - 1\<rparr>)) (remove1 t Q) (h - {t}) D"
    using p(2) Q y by (fastforce simp: disp_inv_def set_remove1_eq)
  show "sock_inv (v(t := None)) (sh(s \<mapsto> y\<lparr>ps_inflight := ps_inflight y - 1\<rparr>))"
    by (rule sock_inv_sock [OF sock_inv_upd_None [OF p(3)]])
  have n: "t \<notin> writes_on v s'" for s' using t by (auto simp: writes_on_def)
  then show "fifo_inv (v(t := None)) (sh(s \<mapsto> y\<lparr>ps_inflight := ps_inflight y - 1\<rparr>)) nx"
    using p(4) y by (auto simp: fifo_inv_def writes_on_upd)
  show "infl_inv (v(t := None)) (sh(s \<mapsto> y\<lparr>ps_inflight := ps_inflight y - 1\<rparr>))"
    using infl_extract [OF p(5) t(1,2) y, of "ps_wq y"] by simp
  show "close_inv (v(t := None)) (sh(s \<mapsto> y\<lparr>ps_inflight := ps_inflight y - 1\<rparr>)) C"
    by (rule close_inv_sock [OF close_inv_upd_None [OF p(6)] y]) simp
qed

text \<open>A write leaves its FIFO; when it was the head, its socket has nothing dispatched.\<close>

lemma fifo_change:
  assumes f: "fifo_inv v sh nx" and y: "sh s = Some y" and q: "wq_list nx' (ps_wq y') xs'" "set xs' = writes_on v' s"
    and o: "\<And>s'. s' \<noteq> s \<Longrightarrow> writes_on v' s' = writes_on v s'"
    and fr: "\<And>r ys. wq_list nx r ys \<Longrightarrow> set ys \<inter> writes_on v s = {} \<Longrightarrow> N \<inter> set ys = {} \<Longrightarrow> wq_list nx' r ys"
    and N: "\<And>s'. s' \<noteq> s \<Longrightarrow> N \<inter> writes_on v s' = {}"
  shows "fifo_inv v' (sh(s \<mapsto> y')) nx'"
  unfolding fifo_inv_def
proof (intro allI impI)
  fix s' z
  assume z: "(sh(s \<mapsto> y')) s' = Some z"
  show "\<exists>xs. wq_list nx' (ps_wq z) xs \<and> set xs = writes_on v' s'"
  proof (cases "s' = s")
    case True
    with z q show ?thesis by auto
  next
    case False
    with z have "sh s' = Some z" by simp
    then obtain ys where ys: "wq_list nx (ps_wq z) ys" "set ys = writes_on v s'" by (rule fifo_list [OF f])
    have "wq_list nx' (ps_wq z) ys"
      by (rule fr [OF ys(1)]) (use ys(2) writes_disjoint [of s' s v] N [OF False] False in auto)
    with ys(2) o [OF False] show ?thesis by auto
  qed
qed

lemma locs_extract_write:
  assumes l: "locs v sh nx Q h C D" and t: "v t = Some (OP_SOCK_WRITE, Some s)" and y: "sh s = Some y"
    and xs: "wq_list nx (ps_wq y) xs" and q: "wq_list nx' q (remove1 t xs)"
    and fr: "\<And>r ys. wq_list nx r ys \<Longrightarrow> set xs \<inter> set ys = {} \<Longrightarrow> t \<notin> set ys \<Longrightarrow> wq_list nx' r ys"
  shows "locs (v(t := None)) (sh(s \<mapsto> y\<lparr>ps_inflight := ps_inflight y - 1, ps_wq := q\<rparr>)) nx' (remove1 t Q) (h - {t}) C
    (if wq_head (ps_wq y) = Some t then insert s D else D)"
proof (rule locsI)
  note p = locs_parts [OF l]
  let ?sh = "sh(s \<mapsto> y\<lparr>ps_inflight := ps_inflight y - 1, ps_wq := q\<rparr>)"
  have Q: "distinct Q" using p(1) by (simp add: place_inv_def)
  have ms: "set xs = writes_on v s" using fifo_list [OF p(4) y] wq_list_unique [OF xs] by metis
  have tx: "t \<in> set xs" using ms t by (simp add: writes_on_def)
  have dx: "distinct xs" using xs by (rule wq_list_distinct)
  have hd: "wq_head (ps_wq y) = Some (hd xs)" using wq_list_head [OF xs] tx by auto
  show "place_inv (v(t := None)) (remove1 t Q) (h - {t})"
    using p(1) by (auto simp: place_inv_def set_remove1_eq)
  show "disp_inv (v(t := None)) ?sh (remove1 t Q) (h - {t}) (if wq_head (ps_wq y) = Some t then insert s D else D)"
    unfolding disp_inv_def
  proof (intro allI impI)
    fix u k a
    assume u: "(v(t := None)) u = Some (k, a)"
    then have ut: "u \<noteq> t" "v u = Some (k, a)" by (auto split: if_splits)
    have b: "u \<in> set Q \<union> h \<longleftrightarrow> (k = OP_SOCK_WRITE \<longrightarrow>
        (\<exists>s' y. a = Some s' \<and> sh s' = Some y \<and> s' \<notin> D \<and> wq_head (ps_wq y) = Some u))"
      using p(2) ut(2) unfolding disp_inv_def by blast
    have hq: "wq_head q = Some (hd xs)" if "hd xs \<noteq> t"
      using wq_list_head [OF q] tx that by (cases xs) auto
    show "u \<in> set (remove1 t Q) \<union> (h - {t}) \<longleftrightarrow> (k = OP_SOCK_WRITE \<longrightarrow>
        (\<exists>s' y'. a = Some s' \<and> ?sh s' = Some y' \<and> s' \<notin> (if wq_head (ps_wq y) = Some t then insert s D else D) \<and>
          wq_head (ps_wq y') = Some u))"
    proof (cases "a = Some s")
      case True
      show ?thesis
      proof (cases "hd xs = t")
        case True
        with \<open>a = Some s\<close> b hd ut(1) y Q show ?thesis by (auto simp: set_remove1_eq)
      next
        case False
        with \<open>a = Some s\<close> b hd ut(1) y Q hq [OF False] show ?thesis by (auto simp: set_remove1_eq)
      qed
    next
      case False
      with b ut(1) Q show ?thesis by (auto simp: set_remove1_eq)
    qed
  qed
  show "sock_inv (v(t := None)) ?sh" by (rule sock_inv_sock [OF sock_inv_upd_None [OF p(3)]])
  show "fifo_inv (v(t := None)) ?sh nx'"
  proof (rule fifo_change [OF p(4) y, of nx' _ "remove1 t xs" _ "{t}"])
    show "wq_list nx' (ps_wq (y\<lparr>ps_inflight := ps_inflight y - 1, ps_wq := q\<rparr>)) (remove1 t xs)" using q by simp
    show "set (remove1 t xs) = writes_on (v(t := None)) s" using dx ms by (simp add: writes_on_upd set_remove1_eq)
    show "\<And>s'. s' \<noteq> s \<Longrightarrow> writes_on (v(t := None)) s' = writes_on v s'" using t by (auto simp: writes_on_def)
    show "\<And>r ys. wq_list nx r ys \<Longrightarrow> set ys \<inter> writes_on v s = {} \<Longrightarrow> {t} \<inter> set ys = {} \<Longrightarrow> wq_list nx' r ys"
      using fr ms by (simp add: Int_commute)
    show "\<And>s'. s' \<noteq> s \<Longrightarrow> {t} \<inter> writes_on v s' = {}" using t by (auto simp: writes_on_def)
  qed
  show "infl_inv (v(t := None)) ?sh" by (rule infl_extract [OF p(5) t _ y]) simp
  show "close_inv (v(t := None)) ?sh C"
    by (rule close_inv_sock [OF close_inv_upd_None [OF p(6)] y]) simp
qed

subsection \<open>A task finds its place\<close>

lemma place_add:
  assumes "place_inv v Q h" and "v t = None"
  shows "place_inv (v(t \<mapsto> a)) (Q @ [t]) h" "place_inv (v(t \<mapsto> a)) Q h" "t \<notin> set Q" "t \<notin> h"
  using assms by (auto simp: place_inv_def domIff)

text \<open>A close that enters the queue needs a closing socket no other close is after.\<close>

lemma locs_enqueue_plain:
  assumes l: "locs v sh nx Q h C D" and t: "v t = None" and k: "\<not> op_on_sock k"
    and c: "k = OP_SOCK_CLOSE \<Longrightarrow> \<exists>s y. a = Some s \<and> sh s = Some y \<and> ps_closing y \<and>
      (\<forall>t'. v t' = Some (OP_SOCK_CLOSE, Some s) \<longrightarrow> t' \<in> C)"
  shows "locs (v(t \<mapsto> (k, a))) sh nx (Q @ [t]) h C D"
proof (rule locsI)
  note p = locs_parts [OF l] and pl = place_add [OF locs_parts(1) [OF l] t]
  show "place_inv (v(t \<mapsto> (k, a))) (Q @ [t]) h" by (rule pl(1))
  show "disp_inv (v(t \<mapsto> (k, a))) sh (Q @ [t]) h D"
    using p(2) k by (auto simp: disp_inv_def)
  show "sock_inv (v(t \<mapsto> (k, a))) sh"
    using p(3) k c by (auto simp: sock_inv_def)
  have n: "t \<notin> writes_on v s" "t \<notin> ops_on v s" for s using t by (auto simp: writes_on_def ops_on_def)
  have k': "k \<noteq> OP_SOCK_WRITE" using k by auto
  show "fifo_inv (v(t \<mapsto> (k, a))) sh nx" using p(4) n k' by (simp add: fifo_inv_def writes_on_upd)
  show "infl_inv (v(t \<mapsto> (k, a))) sh" using p(5) n k by (simp add: infl_inv_def ops_on_upd)
  show "close_inv (v(t \<mapsto> (k, a))) sh C"
  proof (cases "k = OP_SOCK_CLOSE")
    case False
    with p(6) show ?thesis by (auto simp: close_inv_def)
  next
    case True
    with c obtain s y where "a = Some s" "sh s = Some y" "ps_closing y"
      "\<forall>t'. v t' = Some (OP_SOCK_CLOSE, Some s) \<longrightarrow> t' \<in> C" by blast
    with p(6) True show ?thesis by (auto simp: close_inv_def)
  qed
qed

lemma infl_enter:
  assumes i: "infl_inv v sh" and t: "v t = None" and k: "op_on_sock k" and y: "sh s = Some y"
  shows "infl_inv (v(t \<mapsto> (k, Some s))) (sh(s \<mapsto> y\<lparr>ps_inflight := ps_inflight y + 1, ps_wq := q\<rparr>))"
proof -
  have n: "t \<notin> ops_on v s'" for s' using t by (auto simp: ops_on_def)
  have f: "finite (dom v)" using i by (simp add: infl_inv_def)
  have c: "card (insert t (ops_on v s)) = Suc (card (ops_on v s))"
    using n ops_on_finite [OF f] by (simp add: card_insert_if)
  show ?thesis unfolding infl_inv_def
  proof (intro conjI allI impI)
    show "finite (dom (v(t \<mapsto> (k, Some s))))" using f by simp
    fix s' z
    assume z: "(sh(s \<mapsto> y\<lparr>ps_inflight := ps_inflight y + 1, ps_wq := q\<rparr>)) s' = Some z"
    show "ps_inflight z = int (card (ops_on (v(t \<mapsto> (k, Some s))) s'))"
    proof (cases "s' = s")
      case True
      with z y i c k show ?thesis by (auto simp: infl_inv_def ops_on_upd)
    next
      case False
      with z n i show ?thesis by (simp add: infl_inv_def ops_on_upd)
    qed
  qed
qed

lemma sock_inv_enter: "sock_inv v sh \<Longrightarrow> sh s = Some y \<Longrightarrow> sock_inv (v(t \<mapsto> (k, Some s))) (sh(s \<mapsto> y'))"
  by (fastforce simp: sock_inv_def)

lemma close_inv_enter: "close_inv v sh C \<Longrightarrow> v t = None \<Longrightarrow> k \<noteq> OP_SOCK_CLOSE \<Longrightarrow> close_inv (v(t \<mapsto> (k, a))) sh C"
  by (auto simp: close_inv_def)

lemma locs_enqueue_sock:
  assumes l: "locs v sh nx Q h C D" and t: "v t = None" and k: "op_on_sock k" "k \<noteq> OP_SOCK_WRITE" and y: "sh s = Some y"
  shows "locs (v(t \<mapsto> (k, Some s))) (sh(s \<mapsto> y\<lparr>ps_inflight := ps_inflight y + 1\<rparr>)) nx (Q @ [t]) h C D"
proof (rule locsI)
  note p = locs_parts [OF l] and pl = place_add [OF locs_parts(1) [OF l] t]
  let ?sh = "sh(s \<mapsto> y\<lparr>ps_inflight := ps_inflight y + 1\<rparr>)"
  have kc: "k \<noteq> OP_SOCK_CLOSE" using k by auto
  show "place_inv (v(t \<mapsto> (k, Some s))) (Q @ [t]) h" by (rule pl(1))
  show "disp_inv (v(t \<mapsto> (k, Some s))) ?sh (Q @ [t]) h D"
    using p(2) k y by (fastforce simp: disp_inv_def)
  show "sock_inv (v(t \<mapsto> (k, Some s))) ?sh" by (rule sock_inv_enter [OF p(3) y])
  have n: "t \<notin> writes_on v s'" for s' using t by (auto simp: writes_on_def)
  then show "fifo_inv (v(t \<mapsto> (k, Some s))) ?sh nx" using p(4) k(2) y by (auto simp: fifo_inv_def writes_on_upd)
  show "infl_inv (v(t \<mapsto> (k, Some s))) ?sh" using infl_enter [OF p(5) t k(1) y, of "ps_wq y"] by simp
  show "close_inv (v(t \<mapsto> (k, Some s))) ?sh C"
    by (rule close_inv_sock [OF close_inv_enter [OF p(6) t kc] y]) simp
qed

text \<open>A write: dispatched when its FIFO was empty, parked otherwise.\<close>

lemma locs_push_write:
  assumes l: "locs v sh nx Q h C D" and t: "v t = None" and y: "sh s = Some y"
    and xs: "wq_list nx (ps_wq y) xs" and q: "wq_list nx' q (xs @ [t])"
    and fr: "\<And>r ys. wq_list nx r ys \<Longrightarrow> set xs \<inter> set ys = {} \<Longrightarrow> t \<notin> set ys \<Longrightarrow> wq_list nx' r ys"
    and D: "s \<notin> D"
  shows "locs (v(t \<mapsto> (OP_SOCK_WRITE, Some s))) (sh(s \<mapsto> y\<lparr>ps_inflight := ps_inflight y + 1, ps_wq := q\<rparr>)) nx'
    (if xs = [] then Q @ [t] else Q) h C D"
proof (rule locsI)
  note p = locs_parts [OF l] and pl = place_add [OF locs_parts(1) [OF l] t]
  let ?v = "v(t \<mapsto> (OP_SOCK_WRITE, Some s))"
  let ?sh = "sh(s \<mapsto> y\<lparr>ps_inflight := ps_inflight y + 1, ps_wq := q\<rparr>)"
  let ?Q = "if xs = [] then Q @ [t] else Q"
  have ms: "set xs = writes_on v s" using fifo_list [OF p(4) y] wq_list_unique [OF xs] by metis
  have hq: "wq_head q = Some (hd (xs @ [t]))" using wq_list_head [OF q] by simp
  have hx: "wq_head (ps_wq y) = (if xs = [] then None else Some (hd xs))" by (rule wq_list_head [OF xs])
  have tx: "t \<notin> set xs" using ms t by (auto simp: writes_on_def)
  show "place_inv ?v ?Q h" using pl(1,2) by simp
  show "disp_inv ?v ?sh ?Q h D"
    unfolding disp_inv_def
  proof (intro allI impI)
    fix u k a
    assume u: "?v u = Some (k, a)"
    show "u \<in> set ?Q \<union> h \<longleftrightarrow> (k = OP_SOCK_WRITE \<longrightarrow>
        (\<exists>s' y'. a = Some s' \<and> ?sh s' = Some y' \<and> s' \<notin> D \<and> wq_head (ps_wq y') = Some u))"
    proof (cases "u = t")
      case True
      with u have ka: "k = OP_SOCK_WRITE" "a = Some s" by auto
      have "t = hd (xs @ [t]) \<longleftrightarrow> xs = []" using tx by (cases xs) auto
      with True ka pl(3,4) hq D show ?thesis by auto
    next
      case False
      with u have v: "v u = Some (k, a)" by simp
      have b: "u \<in> set Q \<union> h \<longleftrightarrow> (k = OP_SOCK_WRITE \<longrightarrow>
          (\<exists>s' y. a = Some s' \<and> sh s' = Some y \<and> s' \<notin> D \<and> wq_head (ps_wq y) = Some u))"
        using p(2) v unfolding disp_inv_def by blast
      have mem: "k = OP_SOCK_WRITE \<Longrightarrow> a = Some s \<Longrightarrow> xs \<noteq> []" using v ms by (auto simp: writes_on_def)
      show ?thesis
      proof (cases "k = OP_SOCK_WRITE \<and> a = Some s")
        case True
        with mem have "xs \<noteq> []" by blast
        with True b hx hq y False show ?thesis by auto
      next
        case no: False
        with b False show ?thesis by auto
      qed
    qed
  qed
  show "sock_inv ?v ?sh" by (rule sock_inv_enter [OF p(3) y])
  show "fifo_inv ?v ?sh nx'"
  proof (rule fifo_change [OF p(4) y, of nx' _ "xs @ [t]" _ "{t}"])
    show "wq_list nx' (ps_wq (y\<lparr>ps_inflight := ps_inflight y + 1, ps_wq := q\<rparr>)) (xs @ [t])" using q by simp
    show "set (xs @ [t]) = writes_on ?v s" using ms by (simp add: writes_on_upd)
    show "\<And>s'. s' \<noteq> s \<Longrightarrow> writes_on ?v s' = writes_on v s'" using t by (auto simp: writes_on_def)
    show "\<And>r ys. wq_list nx r ys \<Longrightarrow> set ys \<inter> writes_on v s = {} \<Longrightarrow> {t} \<inter> set ys = {} \<Longrightarrow> wq_list nx' r ys"
      using fr ms by (simp add: Int_commute)
    show "\<And>s'. s' \<noteq> s \<Longrightarrow> {t} \<inter> writes_on v s' = {}" using t by (auto simp: writes_on_def)
  qed
  show "infl_inv ?v ?sh" by (rule infl_enter [OF p(5) t _ y]) simp
  show "close_inv ?v ?sh C"
    by (rule close_inv_sock [OF close_inv_enter [OF p(6) t] y]) simp_all
qed

text \<open>A worker takes the head of the queue.\<close>

lemma locs_take:
  assumes "locs v sh nx (t # Q) h C D"
  shows "locs v sh nx Q (insert t h) C D"
  using assms by (auto simp: locs_def place_inv_def disp_inv_def)

text \<open>The next write of a socket that has nothing dispatched goes to the queue.\<close>

lemma locs_promote:
  assumes l: "locs v sh nx Q h C D" and s: "s \<in> D" "sh s = Some y" "wq_head (ps_wq y) = Some t"
    and t: "v t = Some (OP_SOCK_WRITE, Some s)"
  shows "locs v sh nx (Q @ [t]) h C (D - {s})" and "t \<notin> set Q" and "t \<notin> h"
proof -
  note p = locs_parts [OF l]
  have n: "t \<notin> set Q \<union> h" using p(2) t s unfolding disp_inv_def by blast
  then show "t \<notin> set Q" "t \<notin> h" by auto
  show "locs v sh nx (Q @ [t]) h C (D - {s})"
  proof (rule locsI)
    show "place_inv v (Q @ [t]) h" using p(1) n t by (auto simp: place_inv_def)
    show "disp_inv v sh (Q @ [t]) h (D - {s})"
      unfolding disp_inv_def
    proof (intro allI impI)
      fix u k a
      assume u: "v u = Some (k, a)"
      have b: "u \<in> set Q \<union> h \<longleftrightarrow> (k = OP_SOCK_WRITE \<longrightarrow>
          (\<exists>s' y. a = Some s' \<and> sh s' = Some y \<and> s' \<notin> D \<and> wq_head (ps_wq y) = Some u))"
        using p(2) u unfolding disp_inv_def by blast
      show "u \<in> set (Q @ [t]) \<union> h \<longleftrightarrow> (k = OP_SOCK_WRITE \<longrightarrow>
          (\<exists>s' y. a = Some s' \<and> sh s' = Some y \<and> s' \<notin> D - {s} \<and> wq_head (ps_wq y) = Some u))"
        using b s t u n by (cases "u = t") auto
    qed
  qed (fact p(3-6))+
qed

lemma locs_settled:
  assumes l: "locs v sh nx Q h C D" and y: "sh s = Some y" "wq_head (ps_wq y) = None"
  shows "locs v sh nx Q h C (D - {s})"
proof (rule locsI)
  note p = locs_parts [OF l]
  obtain xs where "wq_list nx (ps_wq y) xs" "set xs = writes_on v s" using fifo_list [OF p(4) y(1)] by blast
  with y(2) have e: "writes_on v s = {}" by (simp add: wq_list_head_None)
  show "disp_inv v sh Q h (D - {s})"
    unfolding disp_inv_def
  proof (intro allI impI)
    fix u k a
    assume u: "v u = Some (k, a)"
    have "k = OP_SOCK_WRITE \<Longrightarrow> a \<noteq> Some s" using e u by (auto simp: writes_on_def)
    moreover have "u \<in> set Q \<union> h \<longleftrightarrow> (k = OP_SOCK_WRITE \<longrightarrow>
          (\<exists>s' y. a = Some s' \<and> sh s' = Some y \<and> s' \<notin> D \<and> wq_head (ps_wq y) = Some u))"
      using p(2) u unfolding disp_inv_def by blast
    ultimately show "u \<in> set Q \<union> h \<longleftrightarrow> (k = OP_SOCK_WRITE \<longrightarrow>
          (\<exists>s' y. a = Some s' \<and> sh s' = Some y \<and> s' \<notin> D - {s} \<and> wq_head (ps_wq y) = Some u))" by auto
  qed
qed (use locs_parts [OF l] in blast)+

subsection \<open>Sockets come and go\<close>

lemma locs_new_sock:
  assumes l: "locs v sh nx Q h C D" and n: "sh s = None" and r: "\<And>t k. v t \<noteq> Some (k, Some s)"
  shows "locs v (sh(s \<mapsto> pool_sock0 fd)) nx Q h C D"
proof (rule locsI)
  note p = locs_parts [OF l]
  have e: "writes_on v s = {}" "ops_on v s = {}" using r by (auto simp: writes_on_def ops_on_def)
  show "place_inv v Q h" by (rule p(1))
  show "disp_inv v (sh(s \<mapsto> pool_sock0 fd)) Q h D"
    unfolding disp_inv_def
  proof (intro allI impI)
    fix u k a
    assume u: "v u = Some (k, a)"
    have "u \<in> set Q \<union> h \<longleftrightarrow> (k = OP_SOCK_WRITE \<longrightarrow>
          (\<exists>s' y. a = Some s' \<and> sh s' = Some y \<and> s' \<notin> D \<and> wq_head (ps_wq y) = Some u))"
      using p(2) u unfolding disp_inv_def by blast
    moreover have "a \<noteq> Some s" using u r by auto
    ultimately show "u \<in> set Q \<union> h \<longleftrightarrow> (k = OP_SOCK_WRITE \<longrightarrow>
          (\<exists>s' y. a = Some s' \<and> (sh(s \<mapsto> pool_sock0 fd)) s' = Some y \<and> s' \<notin> D \<and> wq_head (ps_wq y) = Some u))" by auto
  qed
  show "sock_inv v (sh(s \<mapsto> pool_sock0 fd))" by (rule sock_inv_sock [OF p(3)])
  show "fifo_inv v (sh(s \<mapsto> pool_sock0 fd)) nx" using p(4) e by (auto simp: fifo_inv_def pool_sock0_def)
  show "infl_inv v (sh(s \<mapsto> pool_sock0 fd))" using p(5) e by (auto simp: infl_inv_def pool_sock0_def)
  show "close_inv v (sh(s \<mapsto> pool_sock0 fd)) C" using p(6) n r by (auto simp: close_inv_def)
qed

text \<open>A socket is freed when only closes that are done with it still name it.\<close>

lemma locs_free_sock:
  assumes l: "locs v sh nx Q h C D" and r: "\<And>t k. v t = Some (k, Some s) \<Longrightarrow> \<not> op_on_sock k \<and> (k = OP_SOCK_CLOSE \<longrightarrow> t \<in> C')"
    and C: "C \<subseteq> C'"
  shows "locs v (sh(s := None)) nx Q h C' D"
proof (rule locsI)
  note p = locs_parts [OF l]
  show "place_inv v Q h" by (rule p(1))
  show "disp_inv v (sh(s := None)) Q h D"
    unfolding disp_inv_def
  proof (intro allI impI)
    fix u k a
    assume u: "v u = Some (k, a)"
    have "u \<in> set Q \<union> h \<longleftrightarrow> (k = OP_SOCK_WRITE \<longrightarrow>
          (\<exists>s' y. a = Some s' \<and> sh s' = Some y \<and> s' \<notin> D \<and> wq_head (ps_wq y) = Some u))"
      using p(2) u unfolding disp_inv_def by blast
    moreover have "k = OP_SOCK_WRITE \<Longrightarrow> a \<noteq> Some s" using u r [of u k] by auto
    ultimately show "u \<in> set Q \<union> h \<longleftrightarrow> (k = OP_SOCK_WRITE \<longrightarrow>
          (\<exists>s' y. a = Some s' \<and> (sh(s := None)) s' = Some y \<and> s' \<notin> D \<and> wq_head (ps_wq y) = Some u))" by auto
  qed
  show "sock_inv v (sh(s := None))" using p(3) r by (fastforce simp: sock_inv_def)
  show "fifo_inv v (sh(s := None)) nx" using p(4) by (auto simp: fifo_inv_def)
  show "infl_inv v (sh(s := None))" using p(5) by (auto simp: infl_inv_def)
  show "close_inv v (sh(s := None)) C'"
    unfolding close_inv_def
  proof (intro conjI allI impI)
    fix t s'
    assume t: "v t = Some (OP_SOCK_CLOSE, Some s')" "t \<notin> C'"
    with r C have "s' \<noteq> s" "t \<notin> C" by auto
    with p(6) t show "\<exists>y. (sh(s := None)) s' = Some y \<and> ps_closing y" by (auto simp: close_inv_def)
  next
    fix t t' s'
    assume "v t = Some (OP_SOCK_CLOSE, Some s')" "t \<notin> C'" "v t' = Some (OP_SOCK_CLOSE, Some s')" "t' \<notin> C'"
    with p(6) C show "t = t'" unfolding close_inv_def by blast
  qed
qed

lemma locs_closing:
  assumes l: "locs v sh nx Q h C D" and y: "sh s = Some y"
  shows "locs v (sh(s \<mapsto> y\<lparr>ps_closing := True\<rparr>)) nx Q h C D"
proof (rule locsI)
  note p = locs_parts [OF l]
  show "place_inv v Q h" by (rule p(1))
  show "disp_inv v (sh(s \<mapsto> y\<lparr>ps_closing := True\<rparr>)) Q h D" using p(2) y by (fastforce simp: disp_inv_def)
  show "sock_inv v (sh(s \<mapsto> y\<lparr>ps_closing := True\<rparr>))" by (rule sock_inv_sock [OF p(3)])
  show "fifo_inv v (sh(s \<mapsto> y\<lparr>ps_closing := True\<rparr>)) nx" using p(4) y by (auto simp: fifo_inv_def)
  show "infl_inv v (sh(s \<mapsto> y\<lparr>ps_closing := True\<rparr>))" using p(5) y by (auto simp: infl_inv_def)
  show "close_inv v (sh(s \<mapsto> y\<lparr>ps_closing := True\<rparr>)) C" by (rule close_inv_sock [OF p(6) y]) simp
qed

subsection \<open>The task records\<close>

text \<open>
  A task's flags agree with its place: completed means a final result, no worker and not
  detached; pending means started exactly when a worker (\<open>H\<close>) has it.
\<close>

definition ptask :: "addr set \<Rightarrow> addr \<Rightarrow> addr set \<Rightarrow> addr \<Rightarrow> pool_task \<Rightarrow> bool" where
  "ptask T b H t x \<longleftrightarrow> t < b \<and> (\<forall>s. res_ptr (pt_res x) = Some s \<longrightarrow> s < b \<and> pt_done x) \<and>
     (\<forall>s. pt_sock x = Some s \<longrightarrow> s < b) \<and> (pt_done x \<longleftrightarrow> res_status (pt_res x) \<noteq> MYIO_PENDING) \<and>
     (t \<notin> T \<longrightarrow> (if pt_done x then \<not> pt_detached x \<and> t \<notin> H else pt_started x \<longleftrightarrow> t \<in> H))"

definition ptsk :: "addr set \<Rightarrow> addr \<Rightarrow> (addr \<rightharpoonup> pool_task) \<Rightarrow> addr set \<Rightarrow> bool" where
  "ptsk T b th H \<longleftrightarrow> (\<forall>t x. th t = Some x \<longrightarrow> ptask T b H t x) \<and>
     (\<forall>t t' x x' s. th t = Some x \<longrightarrow> th t' = Some x' \<longrightarrow> res_ptr (pt_res x) = Some s \<longrightarrow>
        res_ptr (pt_res x') = Some s \<longrightarrow> t = t')"

lemma ptskD: "ptsk T b th H \<Longrightarrow> th t = Some x \<Longrightarrow> ptask T b H t x"
  by (simp add: ptsk_def)

lemma ptsk_own: "ptsk T b th H \<Longrightarrow> th t = Some x \<Longrightarrow> th t' = Some x' \<Longrightarrow> res_ptr (pt_res x) = Some s \<Longrightarrow>
    res_ptr (pt_res x') = Some s \<Longrightarrow> t = t'"
  unfolding ptsk_def by blast

lemma ptsk_mono:
  assumes "ptsk T b th H" and "b \<le> b'" and "T \<subseteq> T'" and "\<And>t. t \<notin> T' \<Longrightarrow> t \<in> H' \<longleftrightarrow> t \<in> H"
  shows "ptsk T' b' th H'"
proof -
  have "ptask T' b' H' t x" if "th t = Some x" for t x
  proof -
    have "ptask T b H t x" by (rule ptskD [OF assms(1) that])
    with assms(2,3) assms(4) [of t] show ?thesis unfolding ptask_def
      by (auto intro: less_le_trans split: if_splits)
  qed
  with assms(1) show ?thesis unfolding ptsk_def by blast
qed

lemma ptsk_upd:
  assumes "ptsk T b th H" and "ptask T b H t x'"
    and "\<And>t' z s. th t' = Some z \<Longrightarrow> t' \<noteq> t \<Longrightarrow> res_ptr (pt_res x') = Some s \<Longrightarrow> res_ptr (pt_res z) \<noteq> Some s"
  shows "ptsk T b (th(t \<mapsto> x')) H"
  unfolding ptsk_def
proof (intro conjI allI impI)
  fix u x
  assume "(th(t \<mapsto> x')) u = Some x"
  with assms(1,2) show "ptask T b H u x" by (cases "u = t") (auto simp: ptsk_def)
next
  fix u u' x z s
  assume "(th(t \<mapsto> x')) u = Some x" "(th(t \<mapsto> x')) u' = Some z" "res_ptr (pt_res x) = Some s" "res_ptr (pt_res z) = Some s"
  with assms(3) [of u' z s] assms(3) [of u x s] ptsk_own [OF assms(1)] show "u = u'" by (auto split: if_splits)
qed

lemma ptsk_del: "ptsk T b th H \<Longrightarrow> ptsk T b (th(t := None)) H"
  unfolding ptsk_def by (auto split: if_splits)

text \<open>A task leaves transit when its record fits its place.\<close>

lemma ptsk_settle:
  assumes "ptsk T b th H" and "\<And>x. th t = Some x \<Longrightarrow> ptask (T - {t}) b H t x"
  shows "ptsk (T - {t}) b th H"
proof -
  have "ptask (T - {t}) b H u x" if "th u = Some x" for u x
    using ptskD [OF assms(1) that] assms(2) that by (cases "u = t") (auto simp: ptask_def)
  with assms(1) show ?thesis unfolding ptsk_def by blast
qed

lemma ptask_final:
  "t < b \<Longrightarrow> pt_done x \<Longrightarrow> res_status (pt_res x) \<noteq> MYIO_PENDING \<Longrightarrow> (\<And>s. pt_sock x = Some s \<Longrightarrow> s < b) \<Longrightarrow>
     (\<And>s. res_ptr (pt_res x) = Some s \<Longrightarrow> s < b) \<Longrightarrow> (t \<notin> T \<Longrightarrow> \<not> pt_detached x \<and> t \<notin> H) \<Longrightarrow> ptask T b H t x"
  by (simp add: ptask_def)

end
