(* ===== verification/Myio_Pool_Inv.thy ===== *)
theory Myio_Pool_Inv
  imports Myio_Pool_Core
begin

text \<open>
  The invariant of the thread pool's state: the data of \<open>Myio_Pool_Core\<close>, the work queue as
  a list, the counters against the program counters of the workers. The helpers that run
  under the lock (dispatch, promotion, completing a task that never ran, reaping) are
  shown to keep it; the transitions follow in \<open>Myio_Pool_Run\<close>.
\<close>

subsection \<open>The workers\<close>

fun w_task :: "wpc \<Rightarrow> ptr" where
  "w_task (W_start t) = Some t"
| "w_task (W_wait t d) = Some t"
| "w_task (W_poll t d) = Some t"
| "w_task (W_call t) = Some t"
| "w_task (W_send t off) = Some t"
| "w_task (W_commit t r fd) = Some t"
| "w_task (W_drain t) = Some t"
| "w_task (W_drain_wait t) = Some t"
| "w_task (W_close t s fd) = Some t"
| "w_task (W_closed t) = Some t"
| "w_task _ = None"

definition w_busy :: "wpc \<Rightarrow> bool" where
  "w_busy pc \<longleftrightarrow> w_task pc \<noteq> None"

fun w_looking :: "wpc \<Rightarrow> bool" where
  "w_looking W_top = True"
| "w_looking (W_woken b) = True"
| "w_looking _ = False"

fun w_idle :: "wpc \<Rightarrow> bool" where
  "w_idle (W_parked d) = True"
| "w_idle (W_woken b) = True"
| "w_idle _ = False"

definition wcount :: "(wpc \<Rightarrow> bool) \<Rightarrow> pool \<Rightarrow> nat" where
  "wcount P p = card {w. w < p_nw p \<and> P (p_w p w)}"

definition held :: "pool \<Rightarrow> addr set" where
  "held p = {t. \<exists>w < p_nw p. w_task (p_w p w) = Some t}"

definition freed :: "pool \<Rightarrow> addr set" where
  "freed p = {t. \<exists>w < p_nw p. p_w p w = W_closed t}"

definition unlinked :: "pool \<Rightarrow> addr set" where
  "unlinked p = {s. \<exists>w < p_nw p. \<exists>t fd. p_w p w = W_close t s fd}"

text \<open>
  Counters, and no stranded work: there are at least as many workers on their way to the
  queue as tasks in it. No two workers have the same task.
\<close>

definition pthr :: "pool \<Rightarrow> bool" where
  "pthr p \<longleftrightarrow> p_idle p = int (wcount w_idle p) \<and> p_nlive p = wcount (\<lambda>pc. pc \<noteq> W_gone) p \<and>
     p_nrunning p = wcount w_busy p \<and> p_nqueued p \<le> wcount w_looking p \<and>
     (\<forall>w w' t. w < p_nw p \<longrightarrow> w' < p_nw p \<longrightarrow> w_task (p_w p w) = Some t \<longrightarrow> w_task (p_w p w') = Some t \<longrightarrow> w = w')"

lemma wcount_fin [simp]: "finite {w. w < p_nw p \<and> P (p_w p w)}"
  by simp

lemma wcount_upd:
  assumes "w < p_nw p"
  shows "wcount P (p\<lparr>p_w := (p_w p)(w := pc)\<rparr>) + (if P (p_w p w) then 1 else 0) = wcount P p + (if P pc then 1 else 0)"
proof -
  let ?A = "{u. u < p_nw p \<and> P (p_w p u)}" and ?B = "{u. u < p_nw p \<and> P (((p_w p)(w := pc)) u)}"
  have e: "?B = (if P pc then insert w (?A - {w}) else ?A - {w})" using assms by auto
  have f: "finite (?A - {w})" by simp
  have B: "card ?B = card (?A - {w}) + (if P pc then 1 else 0)"
    unfolding e using card_insert_disjoint [OF f, of w] by simp
  have A: "card ?A = card (?A - {w}) + (if P (p_w p w) then 1 else 0)"
  proof (cases "P (p_w p w)")
    case True
    then have "w \<in> ?A" using assms by simp
    from card_Suc_Diff1 [OF wcount_fin this] True show ?thesis by presburger
  next
    case False
    then have "?A - {w} = ?A" by auto
    with False show ?thesis by presburger
  qed
  have "wcount P (p\<lparr>p_w := (p_w p)(w := pc)\<rparr>) = card ?B" "wcount P p = card ?A" by (simp_all add: wcount_def)
  with A B show ?thesis by linarith
qed

lemma wcount_set:
  assumes "w < p_nw p"
  shows "wcount P (set_w w pc p) = (if P (p_w p w) then wcount P p - 1 else wcount P p) + (if P pc then 1 else 0)"
    and "P (p_w p w) \<Longrightarrow> 0 < wcount P p"
proof -
  show "P (p_w p w) \<Longrightarrow> 0 < wcount P p"
    using assms by (auto simp: wcount_def card_gt_0_iff)
  then show "wcount P (set_w w pc p) = (if P (p_w p w) then wcount P p - 1 else wcount P p) + (if P pc then 1 else 0)"
    using wcount_upd [OF assms, of P pc] by (auto simp: set_w_def)
qed

lemma wcount_spawn:
  "wcount P (p\<lparr>p_w := (p_w p)(p_nw p := pc), p_nw := Suc (p_nw p)\<rparr>) = wcount P p + (if P pc then 1 else 0)"
proof -
  have "{w. w < Suc (p_nw p) \<and> P (((p_w p)(p_nw p := pc)) w)} =
      (if P pc then insert (p_nw p) {w. w < p_nw p \<and> P (p_w p w)} else {w. w < p_nw p \<and> P (p_w p w)})"
    by (auto simp: less_Suc_eq)
  then show ?thesis by (simp add: wcount_def)
qed

lemma wcount_cong: "p_nw p' = p_nw p \<Longrightarrow> (\<And>w. w < p_nw p \<Longrightarrow> P (p_w p' w) = P (p_w p w)) \<Longrightarrow> wcount P p' = wcount P p"
  unfolding wcount_def by (metis (no_types, lifting) Collect_cong)

lemma wcount_frame [simp]:
  "wcount P (p\<lparr>m_trace := tr\<rparr>) = wcount P p" "wcount P (p\<lparr>p_idle := i\<rparr>) = wcount P p"
  "wcount P (p\<lparr>p_th := th\<rparr>) = wcount P p" "wcount P (p\<lparr>p_sh := sh\<rparr>) = wcount P p"
  by (simp_all add: wcount_def)

lemma idle_awake: "w_idle pc \<Longrightarrow> \<not> w_parked pc \<Longrightarrow> w_looking pc"
  by (cases pc) auto

lemma wcount_pos: "0 < wcount P p \<longleftrightarrow> (\<exists>w < p_nw p. P (p_w p w))"
  by (auto simp: wcount_def card_gt_0_iff)

text \<open>What dispatching may do to the workers: those with a task go on as they were.\<close>

definition wsame :: "pool \<Rightarrow> pool \<Rightarrow> bool" where
  "wsame p p' \<longleftrightarrow> p_nw p \<le> p_nw p' \<and>
     (\<forall>w. (w < p_nw p \<and> w_busy (p_w p w)) \<or> (w < p_nw p' \<and> w_busy (p_w p' w)) \<longrightarrow> w < p_nw p \<and> p_w p' w = p_w p w)"

lemma wsame_sets:
  assumes "wsame p p'"
  shows "held p' = held p" "freed p' = freed p" "unlinked p' = unlinked p"
proof -
  have b: "w < p_nw p \<and> p_w p w = pc \<longleftrightarrow> w < p_nw p' \<and> p_w p' w = pc" if "w_busy pc" for w pc
    using assms that unfolding wsame_def by (metis order_less_le_trans)
  show "held p' = held p" unfolding held_def
    using b by (auto simp: w_busy_def) (metis option.discI)+
  show "freed p' = freed p" unfolding freed_def using b by (auto simp: w_busy_def)
  have "w < p_nw p \<and> p_w p w = W_close t s fd \<longleftrightarrow> w < p_nw p' \<and> p_w p' w = W_close t s fd" for w t s fd
    by (rule b) (simp add: w_busy_def)
  then show "unlinked p' = unlinked p" unfolding unlinked_def by blast
qed

text \<open>Everything but the queue, the trace and the workers without a task is as before.\<close>

definition psame :: "pool \<Rightarrow> pool \<Rightarrow> bool" where
  "psame p p' \<longleftrightarrow> wsame p p' \<and> p_th p' = p_th p \<and> p_sh p' = p_sh p \<and> p_wnext p' = p_wnext p \<and> p_socks p' = p_socks p \<and>
     p_user p' = p_user p \<and> p_shutdown p' = p_shutdown p \<and> m_brk p' = m_brk p \<and> m_fault p' = m_fault p \<and>
     p_completions p' = p_completions p \<and> p_comp_seen p' = p_comp_seen p \<and> p_nrunning p' = p_nrunning p"

lemma wsame_refl: "wsame p p" by (simp add: wsame_def)

lemma wsame_cong: "wsame p q \<Longrightarrow> p_w p' = p_w q \<Longrightarrow> p_nw p' = p_nw q \<Longrightarrow> wsame p p'"
  unfolding wsame_def by metis

lemma psame_frame: "psame p (p'\<lparr>p_sh := a, p_wnext := b\<rparr>) \<longleftrightarrow> wsame p p' \<and> p_th p' = p_th p \<and> a = p_sh p \<and> b = p_wnext p \<and>
    p_socks p' = p_socks p \<and> p_user p' = p_user p \<and> p_shutdown p' = p_shutdown p \<and> m_brk p' = m_brk p \<and>
    m_fault p' = m_fault p \<and> p_completions p' = p_completions p \<and> p_comp_seen p' = p_comp_seen p \<and>
    p_nrunning p' = p_nrunning p"
proof -
  have "wsame p (p'\<lparr>p_sh := a, p_wnext := b\<rparr>) = wsame p p'" by (simp add: wsame_def)
  then show ?thesis by (simp add: psame_def)
qed

lemma psame_refl: "psame p p" by (simp add: psame_def wsame_refl)

lemma wsame_trans: "wsame p q \<Longrightarrow> wsame q r \<Longrightarrow> wsame p r"
  unfolding wsame_def by (metis order_trans order_less_le_trans)

lemma psame_trans: "psame p q \<Longrightarrow> psame q r \<Longrightarrow> psame p r"
  unfolding psame_def using wsame_trans by metis

subsection \<open>The work queue\<close>

definition pq :: "pool \<Rightarrow> myio_wq" where
  "pq p = \<lparr>wq_head = p_qhead p, wq_tail = p_qtail p\<rparr>"

definition qlist :: "pool \<Rightarrow> addr list \<Rightarrow> bool" where
  "qlist p Q \<longleftrightarrow> wq_list (p_qnext p) (pq p) Q \<and> p_nqueued p = length Q"

text \<open>\<^verbatim>\<open>queue_push\<close> and \<^verbatim>\<open>queue_remove\<close> are the FIFO operations of \<^verbatim>\<open>myio_wq.h\<close> on the queue's own links.\<close>

lemma queue_push_wq:
  "p_qnext (queue_push p t) = fst (snd (myio_wq_push (p_qnext p) (pq p) t))"
  "pq (queue_push p t) = snd (snd (myio_wq_push (p_qnext p) (pq p) t))"
  "p_nqueued (queue_push p t) = Suc (p_nqueued p)"
  by (auto simp: queue_push_def myio_wq_push_def pq_def Let_def split: option.splits)

lemma queue_push_same [simp]:
  "p_th (queue_push p t) = p_th p" "p_sh (queue_push p t) = p_sh p" "p_wnext (queue_push p t) = p_wnext p"
  "p_socks (queue_push p t) = p_socks p" "p_user (queue_push p t) = p_user p" "p_shutdown (queue_push p t) = p_shutdown p"
  "m_brk (queue_push p t) = m_brk p" "m_fault (queue_push p t) = m_fault p" "m_trace (queue_push p t) = m_trace p"
  "p_completions (queue_push p t) = p_completions p" "p_comp_seen (queue_push p t) = p_comp_seen p"
  "p_nrunning (queue_push p t) = p_nrunning p" "p_w (queue_push p t) = p_w p" "p_nw (queue_push p t) = p_nw p"
  "p_idle (queue_push p t) = p_idle p" "p_nlive (queue_push p t) = p_nlive p"
  by (auto simp: queue_push_def Let_def split: option.splits)

lemma qlist_push:
  assumes "qlist p Q" and "t \<notin> set Q"
  shows "qlist (queue_push p t) (Q @ [t])"
  using assms wq_push_list(1) [of "p_qnext p" "pq p" Q t] unfolding qlist_def queue_push_wq
  by (metis length_append_singleton prod.collapse)

lemma queue_cut_wq:
  assumes "prev = (if as = [] then None else Some (last as))" and "qlist p (as @ t # bs)"
  shows "qlist (queue_cut p t prev) (as @ bs)" and "psame p (queue_cut p t prev)"
    and "p_w (queue_cut p t prev) = p_w p" "p_nw (queue_cut p t prev) = p_nw p" "m_trace (queue_cut p t prev) = m_trace p"
      "p_idle (queue_cut p t prev) = p_idle p" "p_nlive (queue_cut p t prev) = p_nlive p"
proof -
  have q: "wq_list (p_qnext p) (pq p) (as @ t # bs)" and n: "p_nqueued p = Suc (length as + length bs)"
    using assms(2) by (auto simp: qlist_def)
  have tn: "p_qnext p t = (if bs = [] then None else Some (hd bs))"
    using q by (auto simp: wq_list_def dest: wpath_None_head)
  have d: "distinct (as @ t # bs)" using q by (rule wq_list_distinct)
  have "bs \<noteq> [] \<Longrightarrow> last bs \<noteq> t" using d last_in_set [of bs] by auto
  then show "qlist (queue_cut p t prev) (as @ bs)"
    using q n d assms(1)
    by (cases as rule: rev_cases) (auto simp: qlist_def queue_cut_def wq_list_def pq_def Let_def)
  show "psame p (queue_cut p t prev)"
    using n by (auto simp: queue_cut_def psame_def wsame_def Let_def split: option.splits)
  show "p_w (queue_cut p t prev) = p_w p" "p_nw (queue_cut p t prev) = p_nw p" "m_trace (queue_cut p t prev) = m_trace p"
      "p_idle (queue_cut p t prev) = p_idle p" "p_nlive (queue_cut p t prev) = p_nlive p"
    using n by (auto simp: queue_cut_def Let_def split: option.splits)
qed

lemma queue_remove_loop_spec:
  assumes "qlist p (as @ bs)" and "t \<notin> set as" and "prev = (if as = [] then None else Some (last as))"
    and "c = (if bs = [] then None else Some (hd bs))"
  shows "\<exists>p'. queue_remove_loop (p_qnext p) p t prev c = Some p' \<and> qlist p' (as @ remove1 t bs) \<and> psame p p' \<and>
    p_w p' = p_w p \<and> p_nw p' = p_nw p \<and> p_idle p' = p_idle p \<and> p_nlive p' = p_nlive p"
  using assms
proof (induction bs arbitrary: as prev c)
  case Nil
  then show ?case by (subst queue_remove_loop.simps) (simp add: psame_refl)
next
  case (Cons b bs)
  show ?case
  proof (cases "b = t")
    case True
    with queue_cut_wq [of prev as p t bs] Cons.prems show ?thesis
      by (subst queue_remove_loop.simps) auto
  next
    case False
    have "p_qnext p b = (if bs = [] then None else Some (hd bs))"
      using Cons.prems(1) by (auto simp: qlist_def wq_list_def dest: wpath_None_head)
    with Cons.IH [of "as @ [b]" "Some b" "p_qnext p b"] Cons.prems False show ?thesis
      by (subst queue_remove_loop.simps) auto
  qed
qed

lemma qlist_remove:
  assumes "qlist p Q"
  shows "qlist (queue_remove p t) (remove1 t Q)" and "psame p (queue_remove p t)"
    and "p_w (queue_remove p t) = p_w p" "p_nw (queue_remove p t) = p_nw p"
    "p_idle (queue_remove p t) = p_idle p" "p_nlive (queue_remove p t) = p_nlive p"
proof -
  have "p_qhead p = (if Q = [] then None else Some (hd Q))"
    using assms wq_list_head [of "p_qnext p" "pq p" Q] by (simp add: qlist_def pq_def)
  from queue_remove_loop_spec [of p "[]" Q t None, OF _ _ _ this] assms
  show "qlist (queue_remove p t) (remove1 t Q)" "psame p (queue_remove p t)"
    "p_w (queue_remove p t) = p_w p" "p_nw (queue_remove p t) = p_nw p"
    "p_idle (queue_remove p t) = p_idle p" "p_nlive (queue_remove p t) = p_nlive p"
    by (auto simp: queue_remove_def)
qed

subsection \<open>Dispatch\<close>

lemma wsame_set: "w < p_nw p \<Longrightarrow> \<not> w_busy (p_w p w) \<Longrightarrow> \<not> w_busy pc \<Longrightarrow> wsame p (set_w w pc p)"
  by (auto simp: wsame_def set_w_def)

lemma pthr_tasks:
  assumes "pthr p" and "wsame p p'"
  shows "\<forall>w w' t. w < p_nw p' \<longrightarrow> w' < p_nw p' \<longrightarrow> w_task (p_w p' w) = Some t \<longrightarrow> w_task (p_w p' w') = Some t \<longrightarrow> w = w'"
proof (intro allI impI)
  fix w w' t
  assume a: "w < p_nw p'" "w' < p_nw p'" "w_task (p_w p' w) = Some t" "w_task (p_w p' w') = Some t"
  then have "w_busy (p_w p' w)" "w_busy (p_w p' w')" by (auto simp: w_busy_def)
  with assms(2) a have "w < p_nw p" "p_w p' w = p_w p w" "w' < p_nw p" "p_w p' w' = p_w p w'"
    unfolding wsame_def by blast+
  with assms(1) a show "w = w'" by (auto simp: pthr_def)
qed

lemma wcount_mono: "(\<And>pc. P pc \<Longrightarrow> P' pc) \<Longrightarrow> wcount P p \<le> wcount P' p"
  unfolding wcount_def by (rule card_mono) auto

text \<open>
  A signal after a push: with as many idle workers as queued tasks, either a parked one
  was there to be woken, or all of the idle ones are awake already.
\<close>

lemma work_signal_spec:
  assumes q: "qlist p (Q @ [t])" and i: "p_idle p = int (wcount w_idle p)" and n: "p_nlive p = wcount (\<lambda>pc. pc \<noteq> W_gone) p"
    and r: "p_nrunning p = wcount w_busy p" and l: "length Q \<le> wcount w_looking p" and e: "p_idle p \<ge> int (p_nqueued p)"
    and u: "\<forall>w w' t. w < p_nw p \<longrightarrow> w' < p_nw p \<longrightarrow> w_task (p_w p w) = Some t \<longrightarrow> w_task (p_w p w') = Some t \<longrightarrow> w = w'"
  shows "qlist (work_signal os p) (Q @ [t])" and "psame p (work_signal os p)" and "pthr (work_signal os p)"
proof -
  let ?p = "p\<lparr>m_trace := (C_cond_signal, os (m_trace p) C_cond_signal) # m_trace p\<rparr>"
  let ?ws = "filter (\<lambda>w. w_parked (p_w p w)) [0..<p_nw p]"
  have wc: "wcount P ?p = wcount P p" for P by (simp add: wcount_def)
  have nq: "p_nqueued p = Suc (length Q)" using q by (simp add: qlist_def)
  have "qlist (work_signal os p) (Q @ [t]) \<and> psame p (work_signal os p) \<and> pthr (work_signal os p)"
  proof (cases "?ws = []")
    case True
    then have s: "work_signal os p = ?p" by (simp add: work_signal_def sys_call_def Let_def)
    have "\<not> w_parked (p_w p w)" if "w < p_nw p" for w using True that by (auto simp: filter_empty_conv)
    then have "{w. w < p_nw p \<and> w_idle (p_w p w)} \<subseteq> {w. w < p_nw p \<and> w_looking (p_w p w)}"
      by (auto intro: idle_awake)
    then have "wcount w_idle p \<le> wcount w_looking p" unfolding wcount_def by (rule card_mono [OF wcount_fin])
    with s i n r e u nq q show ?thesis
      by (simp add: pthr_def wc qlist_def pq_def psame_def wsame_def)
  next
    case False
    define w where "w = ?ws ! (nat (a_ret (os (m_trace p) C_cond_signal)) mod length ?ws)"
    have "w \<in> set ?ws" unfolding w_def by (rule nth_mem) (use False in simp)
    then have w: "w < p_nw p" "w_parked (p_w p w)" by auto
    then obtain d where d: "p_w p w = W_parked d" by (auto elim: w_parked.elims)
    have s: "work_signal os p = set_w w (W_woken False) ?p"
      using False by (simp add: work_signal_def sys_call_def Let_def w_def)
    have c: "wcount P (set_w w (W_woken False) ?p) =
        (if P (W_parked d) then wcount P p - 1 else wcount P p) + (if P (W_woken False) then 1 else 0)" for P
      using wcount_set(1) [of w ?p P "W_woken False"] w d by (simp add: wc)
    have pos: "P (W_parked d) \<Longrightarrow> 0 < wcount P p" for P using wcount_set(2) [of w p P] w d by simp
    have ws: "wsame p (set_w w (W_woken False) ?p)" using w d by (auto simp: wsame_def set_w_def w_busy_def)
    have t: "pthr (set_w w (W_woken False) ?p)"
      unfolding pthr_def c
    proof (intro conjI)
      show "p_idle (set_w w (W_woken False) ?p) =
          int ((if w_idle (W_parked d) then wcount w_idle p - 1 else wcount w_idle p) + (if w_idle (W_woken False) then 1 else 0))"
        using i pos [of w_idle] by (simp add: set_w_def)
      show "p_nlive (set_w w (W_woken False) ?p) =
          (if W_parked d \<noteq> W_gone then wcount (\<lambda>pc. pc \<noteq> W_gone) p - 1 else wcount (\<lambda>pc. pc \<noteq> W_gone) p) +
          (if W_woken False \<noteq> W_gone then 1 else 0)"
        using n pos [of "\<lambda>pc. pc \<noteq> W_gone"] by (simp add: set_w_def)
      show "p_nrunning (set_w w (W_woken False) ?p) =
          (if w_busy (W_parked d) then wcount w_busy p - 1 else wcount w_busy p) + (if w_busy (W_woken False) then 1 else 0)"
        using r by (simp add: set_w_def w_busy_def)
      show "p_nqueued (set_w w (W_woken False) ?p) \<le>
          (if w_looking (W_parked d) then wcount w_looking p - 1 else wcount w_looking p) + (if w_looking (W_woken False) then 1 else 0)"
        using l nq by (simp add: set_w_def)
      show "\<forall>v w' t. v < p_nw (set_w w (W_woken False) ?p) \<longrightarrow> w' < p_nw (set_w w (W_woken False) ?p) \<longrightarrow>
          w_task (p_w (set_w w (W_woken False) ?p) v) = Some t \<longrightarrow> w_task (p_w (set_w w (W_woken False) ?p) w') = Some t \<longrightarrow> v = w'"
        using u by (simp add: set_w_def)
    qed
    have "psame p (set_w w (W_woken False) ?p)" using ws by (simp add: psame_def set_w_def)
    moreover have "qlist (set_w w (W_woken False) ?p) (Q @ [t])" using q by (simp add: qlist_def pq_def set_w_def)
    ultimately show ?thesis using s t by simp
  qed
  then show "qlist (work_signal os p) (Q @ [t])" "psame p (work_signal os p)" "pthr (work_signal os p)" by auto
qed

lemma spawn_thread_spec:
  assumes "spawn_thread os p = (ok, p')"
  shows "psame p p'" and "\<And>Q. qlist p Q \<Longrightarrow> qlist p' Q" and "p_idle p' = p_idle p"
    and "wcount P p' = wcount P p + (if ok \<and> P W_top then 1 else 0)"
    and "p_nlive p' = p_nlive p + (if ok then 1 else 0)"
proof -
  have c: "wcount P (p\<lparr>m_trace := tr, p_w := (p_w p)(p_nw p := W_top), p_nw := Suc (p_nw p), p_nlive := k\<rparr>) =
      wcount P p + (if P W_top then 1 else 0)" for tr k
    using wcount_spawn [of P p W_top] by (simp add: wcount_def)
  show "wcount P p' = wcount P p + (if ok \<and> P W_top then 1 else 0)"
    using assms by (auto simp: spawn_thread_def sys_call_def Let_def c split: if_splits)
  show "psame p p'"
    using assms by (auto simp: spawn_thread_def sys_call_def Let_def psame_def wsame_def w_busy_def less_Suc_eq split: if_splits)
  show "\<And>Q. qlist p Q \<Longrightarrow> qlist p' Q" "p_idle p' = p_idle p" "p_nlive p' = p_nlive p + (if ok then 1 else 0)"
    using assms by (auto simp: spawn_thread_def sys_call_def Let_def qlist_def pq_def split: if_splits)
qed

lemma dispatch_spec:
  assumes q: "qlist p Q" and t: "t \<notin> set Q" and th: "pthr p" and d: "dispatch_locked os p t = (ok, p')"
  shows "qlist p' (if ok then Q @ [t] else Q)" and "psame p p'" and "pthr p'"
proof -
  let ?p = "queue_push p t"
  have wc: "wcount P ?p = wcount P p" for P by (simp add: wcount_def)
  have qp: "qlist ?p (Q @ [t])" by (rule qlist_push [OF q t])
  have ps: "psame p ?p" by (simp add: psame_def wsame_def)
  have tk: "p_idle ?p = int (wcount w_idle ?p)" "p_nlive ?p = wcount (\<lambda>pc. pc \<noteq> W_gone) ?p" "p_nrunning ?p = wcount w_busy ?p"
    "length Q \<le> wcount w_looking ?p"
    "\<forall>w w' t'. w < p_nw ?p \<longrightarrow> w' < p_nw ?p \<longrightarrow> w_task (p_w ?p w) = Some t' \<longrightarrow> w_task (p_w ?p w') = Some t' \<longrightarrow> w = w'"
    using th q by (simp_all add: wc pthr_def qlist_def)
  have "qlist p' (if ok then Q @ [t] else Q) \<and> psame p p' \<and> pthr p'"
  proof (cases "p_idle ?p \<ge> int (p_nqueued ?p)")
    case True
    with d have e: "ok" "p' = work_signal os ?p" by (auto simp: dispatch_locked_def Let_def)
    from work_signal_spec [OF qp tk(1-4) True tk(5), of os] psame_trans [OF ps] e show ?thesis by auto
  next
    case False
    obtain ok1 p1 where s: "spawn_thread os ?p = (ok1, p1)" by fastforce
    note sp = spawn_thread_spec [OF s]
    have t1: "\<forall>w w' t'. w < p_nw p1 \<longrightarrow> w' < p_nw p1 \<longrightarrow> w_task (p_w p1 w) = Some t' \<longrightarrow> w_task (p_w p1 w') = Some t' \<longrightarrow> w = w'"
    proof -
      have "wsame p p1" using psame_trans [OF ps sp(1)] by (simp add: psame_def)
      from pthr_tasks [OF th this] show ?thesis .
    qed
    show ?thesis
    proof (cases ok1)
      case True
      with d False s have e: "ok" "p' = p1" by (auto simp: dispatch_locked_def Let_def)
      have nq: "p_nqueued p1 = Suc (length Q)" using sp(2) [OF qp] by (simp add: qlist_def)
      have "pthr p1" unfolding pthr_def
      proof (intro conjI)
        show "p_idle p1 = int (wcount w_idle p1)" using sp(3) sp(4) [of w_idle] tk(1) by simp
        show "p_nlive p1 = wcount (\<lambda>pc. pc \<noteq> W_gone) p1" using sp(5) sp(4) [of "\<lambda>pc. pc \<noteq> W_gone"] tk(2) True by simp
        show "p_nrunning p1 = wcount w_busy p1" using sp(1) sp(4) [of w_busy] tk(3) by (simp add: psame_def w_busy_def)
        show "p_nqueued p1 \<le> wcount w_looking p1" using nq sp(4) [of w_looking] tk(4) True by simp
      qed (rule t1)
      with e sp(2) [OF qp] psame_trans [OF ps sp(1)] show ?thesis by simp
    next
      case no: False
      with d False s have e: "\<not> ok" "p' = queue_remove p1 t" by (auto simp: dispatch_locked_def Let_def)
      note rm = qlist_remove [OF sp(2) [OF qp], of t]
      have r1: "remove1 t (Q @ [t]) = Q" using t by (simp add: remove1_append)
      have wc': "wcount P p' = wcount P p" for P using rm(3,4) sp(4) [of P] no wc e by (simp add: wcount_def)
      have ps': "psame p p'" using psame_trans [OF psame_trans [OF ps sp(1)] rm(2)] e by simp
      have "pthr p'" unfolding pthr_def wc'
      proof (intro conjI)
        show "p_idle p' = int (wcount w_idle p)" using rm(5) sp(3) tk(1) e wc by simp
        show "p_nlive p' = wcount (\<lambda>pc. pc \<noteq> W_gone) p" using rm(6) sp(5) tk(2) no e wc by simp
        show "p_nrunning p' = wcount w_busy p" using ps' th by (simp add: psame_def pthr_def)
        show "p_nqueued p' \<le> wcount w_looking p" using rm(1) r1 tk(4) e wc by (simp add: qlist_def)
      qed (rule pthr_tasks [OF th], use ps' in \<open>simp add: psame_def\<close>)
      with e rm(1) r1 ps' show ?thesis by simp
    qed
  qed
  then show "qlist p' (if ok then Q @ [t] else Q)" "psame p p'" "pthr p'" by auto
qed

subsection \<open>The invariant\<close>

text \<open>
  \<open>pdata T D Q\<close>: with the tasks \<open>T\<close> in transit and nothing of the sockets \<open>D\<close> dispatched, the
  queue is \<open>Q\<close>, tasks and sockets are where \<open>locs\<close> says, the registry holds every socket
  but those a close worker has just unlinked.
\<close>

definition pdata :: "addr set \<Rightarrow> addr set \<Rightarrow> addr list \<Rightarrow> pool \<Rightarrow> bool" where
  "pdata T D Q p \<longleftrightarrow> \<not> m_fault p \<and> qlist p Q \<and> ptsk T (m_brk p) (p_th p) (held p) \<and>
     locs (pview T (p_th p)) (p_sh p) (p_wnext p) Q (held p - T) (freed p) D \<and>
     (\<forall>s \<in> dom (p_sh p). s < m_brk p) \<and> held p \<subseteq> {..<m_brk p} \<and>
     dlh.members (p_socks p) (dom (p_sh p) - unlinked p) \<and>
     (\<forall>s \<in> unlinked p. \<exists>y. p_sh p s = Some y \<and> ps_closing y \<and> ps_inflight y = 0)"

text \<open>The kind of a worker's task fits the place in the code it has reached.\<close>

fun pc_ok :: "(addr \<rightharpoonup> pool_task) \<Rightarrow> wpc \<Rightarrow> bool" where
  "pc_ok th (W_wait t d) = (\<forall>x. th t = Some x \<longrightarrow> op_interruptible (pt_kind x))"
| "pc_ok th (W_poll t d) = (\<forall>x. th t = Some x \<longrightarrow> op_interruptible (pt_kind x))"
| "pc_ok th (W_call t) = (\<forall>x. th t = Some x \<longrightarrow> op_interruptible (pt_kind x))"
| "pc_ok th (W_send t off) = (\<forall>x. th t = Some x \<longrightarrow> pt_kind x = OP_SOCK_WRITE)"
| "pc_ok th (W_commit t r fd) = ((\<forall>x. th t = Some x \<longrightarrow> pt_kind x \<noteq> OP_SOCK_CLOSE) \<and>
     res_status r \<noteq> MYIO_PENDING \<and> res_ptr r = None)"
| "pc_ok th (W_drain t) = (\<forall>x. th t = Some x \<longrightarrow> pt_kind x = OP_SOCK_CLOSE)"
| "pc_ok th (W_drain_wait t) = (\<forall>x. th t = Some x \<longrightarrow> pt_kind x = OP_SOCK_CLOSE)"
| "pc_ok th (W_close t s fd) = (\<forall>x. th t = Some x \<longrightarrow> pt_kind x = OP_SOCK_CLOSE \<and> pt_sock x = Some s)"
| "pc_ok th (W_closed t) = (\<forall>x. th t = Some x \<longrightarrow> pt_kind x = OP_SOCK_CLOSE)"
| "pc_ok th _ = True"

definition ppc :: "pool \<Rightarrow> bool" where
  "ppc p \<longleftrightarrow> (\<forall>w < p_nw p. pc_ok (p_th p) (p_w p w))"

definition pmid :: "addr set \<Rightarrow> addr set \<Rightarrow> addr list \<Rightarrow> pool \<Rightarrow> bool" where
  "pmid T D Q p \<longleftrightarrow> pdata T D Q p \<and> pthr p \<and> ppc p"

text \<open>
  What a critical section leaves alone: tasks the caller still holds stay, with their
  results (except those in \<open>S\<close>); kind and socket of a task never change; a closing socket
  without operations stays as it is; a busy worker at most gets woken.
\<close>

definition pevo :: "addr set \<Rightarrow> pool \<Rightarrow> pool \<Rightarrow> bool" where
  "pevo S p p' \<longleftrightarrow> m_brk p \<le> m_brk p' \<and> p_shutdown p' = p_shutdown p \<and>
     (\<forall>t x'. p_th p' t = Some x' \<longrightarrow> t < m_brk p \<longrightarrow>
        (\<exists>x. p_th p t = Some x \<and> pt_kind x' = pt_kind x \<and> pt_sock x' = pt_sock x)) \<and>
     (\<forall>t x. p_th p t = Some x \<longrightarrow> \<not> pt_detached x \<longrightarrow> t \<notin> S \<longrightarrow>
        (\<exists>x'. p_th p' t = Some x' \<and> \<not> pt_detached x' \<and> (pt_done x \<longrightarrow> pt_done x' \<and> pt_res x' = pt_res x))) \<and>
     (\<forall>s y. p_sh p s = Some y \<longrightarrow> ps_closing y \<longrightarrow> ps_inflight y = 0 \<longrightarrow> p_sh p' s = Some y) \<and>
     p_nw p \<le> p_nw p' \<and>
     (\<forall>w. (w < p_nw p \<and> w_busy (p_w p w)) \<or> (w < p_nw p' \<and> w_busy (p_w p' w)) \<longrightarrow>
        w < p_nw p \<and> (p_w p' w = p_w p w \<or> p_w p' w = w_alert (p_w p w))) \<and>
     (p_user p' = p_user p \<or> p_user p' = u_alert (p_user p))"

lemma w_alert_simps [simp]:
  "w_task (w_alert pc) = w_task pc" "w_alert (w_alert pc) = w_alert pc" "w_idle (w_alert pc) = w_idle pc"
  "w_looking (w_alert pc) = w_looking pc" "w_busy (w_alert pc) = w_busy pc" "w_parked (w_alert pc) = w_parked pc"
  "w_alert pc = W_gone \<longleftrightarrow> pc = W_gone" "w_alert pc = W_closed t \<longleftrightarrow> pc = W_closed t"
  "w_alert pc = W_close t s fd \<longleftrightarrow> pc = W_close t s fd" "pc_ok th (w_alert pc) = pc_ok th pc"
  "W_closed t = w_alert pc \<longleftrightarrow> pc = W_closed t" "W_close t s fd = w_alert pc \<longleftrightarrow> pc = W_close t s fd"
  by (cases pc; auto simp: w_busy_def)+

lemma u_alert_idem [simp]: "u_alert (u_alert u) = u_alert u"
  by (cases u) auto

lemma pevo_refl: "pevo S p p"
  by (auto simp: pevo_def)

lemma pevo_trans:
  assumes "pevo S p q" and "pevo S q r"
  shows "pevo S p r"
  unfolding pevo_def
proof (intro conjI)
  show "m_brk p \<le> m_brk r" "p_shutdown r = p_shutdown p" "p_nw p \<le> p_nw r" using assms by (auto simp: pevo_def)
  show "p_user r = p_user p \<or> p_user r = u_alert (p_user p)" using assms by (auto simp: pevo_def)
  show "\<forall>t x'. p_th r t = Some x' \<longrightarrow> t < m_brk p \<longrightarrow>
      (\<exists>x. p_th p t = Some x \<and> pt_kind x' = pt_kind x \<and> pt_sock x' = pt_sock x)"
    using assms unfolding pevo_def by (metis (no_types, lifting) order_less_le_trans)
  show "\<forall>t x. p_th p t = Some x \<longrightarrow> \<not> pt_detached x \<longrightarrow> t \<notin> S \<longrightarrow>
      (\<exists>x'. p_th r t = Some x' \<and> \<not> pt_detached x' \<and> (pt_done x \<longrightarrow> pt_done x' \<and> pt_res x' = pt_res x))"
    using assms unfolding pevo_def by (metis (no_types, lifting))
  show "\<forall>s y. p_sh p s = Some y \<longrightarrow> ps_closing y \<longrightarrow> ps_inflight y = 0 \<longrightarrow> p_sh r s = Some y"
    using assms unfolding pevo_def by blast
  show "\<forall>w. (w < p_nw p \<and> w_busy (p_w p w)) \<or> (w < p_nw r \<and> w_busy (p_w r w)) \<longrightarrow>
      w < p_nw p \<and> (p_w r w = p_w p w \<or> p_w r w = w_alert (p_w p w))"
  proof (intro allI impI)
    fix w
    assume "(w < p_nw p \<and> w_busy (p_w p w)) \<or> (w < p_nw r \<and> w_busy (p_w r w))"
    moreover have "\<And>w. (w < p_nw p \<and> w_busy (p_w p w)) \<or> (w < p_nw q \<and> w_busy (p_w q w)) \<Longrightarrow>
        w < p_nw p \<and> (p_w q w = p_w p w \<or> p_w q w = w_alert (p_w p w))"
      and "\<And>w. (w < p_nw q \<and> w_busy (p_w q w)) \<or> (w < p_nw r \<and> w_busy (p_w r w)) \<Longrightarrow>
        w < p_nw q \<and> (p_w r w = p_w q w \<or> p_w r w = w_alert (p_w q w))" and "p_nw p \<le> p_nw q"
      using assms unfolding pevo_def by blast+
    ultimately show "w < p_nw p \<and> (p_w r w = p_w p w \<or> p_w r w = w_alert (p_w p w))"
      by (metis order_less_le_trans w_alert_simps(2,5))
  qed
qed

lemma pevo_mono: "pevo S p p' \<Longrightarrow> S \<subseteq> S' \<Longrightarrow> pevo S' p p'"
  unfolding pevo_def by blast

lemma pevo_sets:
  assumes "pevo S p p'"
  shows "held p' = held p" "freed p' = freed p" "unlinked p' = unlinked p"
proof -
  have b: "(w < p_nw p \<and> w_busy (p_w p w)) \<or> (w < p_nw p' \<and> w_busy (p_w p' w)) \<Longrightarrow>
      w < p_nw p \<and> w < p_nw p' \<and> (p_w p' w = p_w p w \<or> p_w p' w = w_alert (p_w p w))" for w
    using assms unfolding pevo_def by (metis order_less_le_trans)
  have "w < p_nw p \<and> w_task (p_w p w) = Some t \<longleftrightarrow> w < p_nw p' \<and> w_task (p_w p' w) = Some t" for w t
    using b [of w] by (auto simp: w_busy_def)
  then show "held p' = held p" unfolding held_def by blast
  have "w < p_nw p \<and> p_w p w = W_closed t \<longleftrightarrow> w < p_nw p' \<and> p_w p' w = W_closed t" for w t
    using b [of w] by (auto simp: w_busy_def)
  then show "freed p' = freed p" unfolding freed_def by blast
  have "w < p_nw p \<and> p_w p w = W_close t s fd \<longleftrightarrow> w < p_nw p' \<and> p_w p' w = W_close t s fd" for w t s fd
    using b [of w] by (auto simp: w_busy_def)
  then show "unlinked p' = unlinked p" unfolding unlinked_def by blast
qed

lemma pc_ok_task:
  assumes "w_task pc = Some t" and "pc_ok th pc"
    and "\<And>x'. th' t = Some x' \<Longrightarrow> \<exists>x. th t = Some x \<and> pt_kind x' = pt_kind x \<and> pt_sock x' = pt_sock x"
  shows "pc_ok th' pc"
  using assms by (cases pc) (simp_all, metis+)

lemma ppc_evo:
  assumes "ppc p" and "held p \<subseteq> {..<m_brk p}" and e: "pevo S p p'"
  shows "ppc p'"
  unfolding ppc_def
proof (intro allI impI)
  fix w
  assume w: "w < p_nw p'"
  show "pc_ok (p_th p') (p_w p' w)"
  proof (cases "w_busy (p_w p' w)")
    case False
    then show ?thesis by (cases "p_w p' w") (auto simp: w_busy_def)
  next
    case True
    with e w have wp: "w < p_nw p" and pc: "p_w p' w = p_w p w \<or> p_w p' w = w_alert (p_w p w)"
      unfolding pevo_def by blast+
    then obtain t where t: "w_task (p_w p w) = Some t" using True by (auto simp: w_busy_def)
    then have tb: "t < m_brk p" using wp assms(2) by (auto simp: held_def)
    have k: "p_th p' t = Some x' \<Longrightarrow> \<exists>x. p_th p t = Some x \<and> pt_kind x' = pt_kind x \<and> pt_sock x' = pt_sock x" for x'
      using e tb unfolding pevo_def by blast
    have "pc_ok (p_th p) (p_w p w)" using assms(1) wp by (simp add: ppc_def)
    then have "pc_ok (p_th p') (p_w p w)" by (rule pc_ok_task [where t = t, OF t]) (rule k)
    with pc show ?thesis by auto
  qed
qed

lemma psame_evo:
  assumes "psame p p'"
  shows "pevo S p p'"
proof -
  have e: "p_th p' = p_th p" "p_sh p' = p_sh p" "p_user p' = p_user p" "p_shutdown p' = p_shutdown p" "m_brk p' = m_brk p"
    and w: "wsame p p'" using assms unfolding psame_def by blast+
  show ?thesis unfolding pevo_def
  proof (intro conjI)
    show "p_nw p \<le> p_nw p'"
      "\<forall>w. (w < p_nw p \<and> w_busy (p_w p w)) \<or> (w < p_nw p' \<and> w_busy (p_w p' w)) \<longrightarrow>
        w < p_nw p \<and> (p_w p' w = p_w p w \<or> p_w p' w = w_alert (p_w p w))"
      using w unfolding wsame_def by blast+
  qed (simp_all add: e)
qed

lemma broadcast_evo: "pevo S p (done_broadcast p)"
  by (auto simp: pevo_def done_broadcast_def)

lemma broadcast_wcount: "wcount P (done_broadcast p) = wcount (\<lambda>pc. P (w_alert pc)) p"
  by (simp add: wcount_def done_broadcast_def)

lemma broadcast_pmid:
  assumes "pmid T D Q p"
  shows "pmid T D Q (done_broadcast p)"
proof -
  note s = pevo_sets [OF broadcast_evo, of p]
  have "pdata T D Q (done_broadcast p)"
    using assms unfolding pmid_def pdata_def s by (simp add: done_broadcast_def qlist_def pq_def)
  moreover have "pthr (done_broadcast p)"
    using assms by (simp add: pmid_def pthr_def broadcast_wcount) (simp add: done_broadcast_def)
  moreover have "ppc (done_broadcast p)" using assms by (simp add: pmid_def ppc_def done_broadcast_def)
  ultimately show ?thesis by (simp add: pmid_def)
qed

lemma pmid_stepI:
  assumes "pmid T D Q p" and e: "pevo S p p'" and "\<not> m_fault p'" and "qlist p' Q'"
    and "ptsk T' (m_brk p') (p_th p') (held p)"
    and "locs (pview T' (p_th p')) (p_sh p') (p_wnext p') Q' (held p - T') (freed p) D'"
    and "\<And>s. s \<in> dom (p_sh p') \<Longrightarrow> s < m_brk p'"
    and "dlh.members (p_socks p') (dom (p_sh p') - unlinked p)" and "pthr p'"
  shows "pmid T' D' Q' p'"
proof -
  note s = pevo_sets [OF e]
  have d: "pdata T D Q p" "ppc p" using assms(1) by (auto simp: pmid_def)
  have b: "m_brk p \<le> m_brk p'" using e by (simp add: pevo_def)
  have hp: "held p \<subseteq> {..<m_brk p}" using d(1) by (simp add: pdata_def)
  then have h: "held p' \<subseteq> {..<m_brk p'}" using b s(1) by auto
  have u: "\<forall>s \<in> unlinked p'. \<exists>y. p_sh p' s = Some y \<and> ps_closing y \<and> ps_inflight y = 0"
  proof
    fix a
    assume "a \<in> unlinked p'"
    with d(1) s(3) obtain y where "p_sh p a = Some y" "ps_closing y" "ps_inflight y = 0" by (auto simp: pdata_def)
    with e show "\<exists>y. p_sh p' a = Some y \<and> ps_closing y \<and> ps_inflight y = 0" unfolding pevo_def by blast
  qed
  have "pdata T' D' Q' p'" unfolding pdata_def using assms(3-8) s h u by simp
  moreover have "ppc p'" by (rule ppc_evo [OF d(2) hp e])
  ultimately show ?thesis using assms(9) by (simp add: pmid_def)
qed

lemma pthr_cong:
  assumes "pthr p" and "p_w p' = p_w p" "p_nw p' = p_nw p" "p_idle p' = p_idle p" "p_nlive p' = p_nlive p"
    "p_nrunning p' = p_nrunning p" "p_nqueued p' \<le> p_nqueued p"
  shows "pthr p'"
proof -
  have "wcount P p' = wcount P p" for P using assms by (simp add: wcount_def)
  with assms show ?thesis by (simp add: pthr_def)
qed

lemma pmid_parts:
  assumes "pmid T D Q p"
  shows "\<not> m_fault p" "qlist p Q" "ptsk T (m_brk p) (p_th p) (held p)"
    "locs (pview T (p_th p)) (p_sh p) (p_wnext p) Q (held p - T) (freed p) D"
    "\<And>s. s \<in> dom (p_sh p) \<Longrightarrow> s < m_brk p" "held p \<subseteq> {..<m_brk p}" "dlh.members (p_socks p) (dom (p_sh p) - unlinked p)"
    "\<And>s. s \<in> unlinked p \<Longrightarrow> \<exists>y. p_sh p s = Some y \<and> ps_closing y \<and> ps_inflight y = 0" "pthr p" "ppc p"
  using assms by (auto simp: pmid_def pdata_def)

text \<open>A change of the task heap alone.\<close>

lemma pevo_tasks:
  assumes "\<And>t x'. th t = Some x' \<Longrightarrow> t < m_brk p \<Longrightarrow> \<exists>x. p_th p t = Some x \<and> pt_kind x' = pt_kind x \<and> pt_sock x' = pt_sock x"
    and "\<And>t x. p_th p t = Some x \<Longrightarrow> \<not> pt_detached x \<Longrightarrow> t \<notin> S \<Longrightarrow>
        \<exists>x'. th t = Some x' \<and> \<not> pt_detached x' \<and> (pt_done x \<longrightarrow> pt_done x' \<and> pt_res x' = pt_res x)"
  shows "pevo S p (p\<lparr>p_th := th\<rparr>)"
  using assms by (simp add: pevo_def)

lemma pevo_upd:
  assumes "p_th p t = Some x" and "pt_kind x' = pt_kind x" and "pt_sock x' = pt_sock x"
    and "t \<in> S \<or> pt_detached x \<or> (\<not> pt_detached x' \<and> (pt_done x \<longrightarrow> pt_done x' \<and> pt_res x' = pt_res x))"
  shows "pevo S p (p\<lparr>p_th := (p_th p)(t \<mapsto> x')\<rparr>)"
  by (rule pevo_tasks) (use assms in \<open>auto split: if_splits\<close>)

lemma pevo_del: "t \<in> S \<or> (\<exists>x. p_th p t = Some x \<and> pt_detached x) \<Longrightarrow> pevo S p (p\<lparr>p_th := (p_th p)(t := None)\<rparr>)"
  by (rule pevo_tasks) (auto split: if_splits)

lemma pmid_tasks:
  assumes "pmid T D Q p" and "pevo S p (p\<lparr>p_th := th\<rparr>)" and "ptsk T' (m_brk p) th (held p)"
    and "locs (pview T' th) (p_sh p) (p_wnext p) Q (held p - T') (freed p) D"
  shows "pmid T' D Q (p\<lparr>p_th := th\<rparr>)"
  by (rule pmid_stepI [OF assms(1,2)])
    (use pmid_parts [OF assms(1)] assms(3,4) in \<open>auto simp: qlist_def pq_def intro: pthr_cong\<close>)

subsection \<open>Dropping a socket, reaping a task\<close>

text \<open>A socket that is neither closing nor in use: no pending task refers to it.\<close>

lemma idle_sock:
  assumes "locs v sh nx Q h C D" and "sh s = Some y" and "\<not> ps_closing y" and "ps_inflight y = 0" and "v t = Some (k, Some s)"
  shows "\<not> op_on_sock k \<and> (k = OP_SOCK_CLOSE \<longrightarrow> t \<in> C)"
proof -
  note p = locs_parts [OF assms(1)]
  have "finite (ops_on v s)" using p(5) by (simp add: infl_inv_def ops_on_finite)
  moreover have "card (ops_on v s) = 0" using p(5) assms(2,4) by (simp add: infl_inv_def)
  ultimately have "ops_on v s = {}" by simp
  then have "\<not> op_on_sock k" using assms(5) by (auto simp: ops_on_def)
  moreover have "k = OP_SOCK_CLOSE \<longrightarrow> t \<in> C" using p(6) assms(2,3,5) unfolding close_inv_def by (metis option.inject)
  ultimately show ?thesis by blast
qed

lemma sock_drop_fields:
  assumes "p_sh p s = Some y"
  shows "pool_sock_drop os p s = p\<lparr>m_trace := (C_close (ps_fd y), os (m_trace p) (C_close (ps_fd y))) # m_trace p,
    p_socks := dl_unlink_head (p_socks p) s, p_sh := (p_sh p)(s := None)\<rparr>"
  using assms by (simp add: pool_sock_drop_def chk_ps_def pool_sock_unlink_def sys_call_def psk_def free_ps_def Let_def)

lemma sock_drop_pmid:
  assumes m: "pmid T D Q p" and y: "p_sh p s = Some y" "\<not> ps_closing y" "ps_inflight y = 0"
  shows "pmid T D Q (pool_sock_drop os p s)" and "pevo {} p (pool_sock_drop os p s)"
proof -
  note p = pmid_parts [OF m]
  let ?p = "pool_sock_drop os p s"
  note f = sock_drop_fields [OF y(1), of os]
  show e: "pevo {} p ?p" unfolding f using y by (auto simp: pevo_def)
  have nu: "s \<notin> unlinked p" using p(8) y by force
  have l: "locs (pview T (p_th p)) ((p_sh p)(s := None)) (p_wnext p) Q (held p - T) (freed p) D"
    by (rule locs_free_sock [OF p(4)]) (use idle_sock [OF p(4) y] in auto)
  show "pmid T D Q ?p"
  proof (rule pmid_stepI [OF m e])
    have "dom ((p_sh p)(s := None)) - unlinked p = (dom (p_sh p) - unlinked p) - {s}" by auto
    then show "dlh.members (p_socks ?p) (dom (p_sh ?p) - unlinked p)"
      using dlh.members_unlink [OF p(7), of s] y(1) nu by (auto simp: f)
    show "pthr ?p" by (rule pthr_cong [OF p(9)]) (simp_all add: f)
  qed (use p l in \<open>auto simp: f qlist_def pq_def\<close>)
qed

text \<open>
  Reaping a completed task: it goes, with the socket in its result if that is idle.
\<close>

lemma free_pt_fields: "p_th p t = Some x \<Longrightarrow> free_pt t p = p\<lparr>p_th := (p_th p)(t := None)\<rparr>"
  by (simp add: free_pt_def chk_pt_def)

lemma upd_pt_fields: "p_th p t = Some x \<Longrightarrow> upd_pt t f p = p\<lparr>p_th := (p_th p)(t \<mapsto> f x)\<rparr>"
  by (simp add: upd_pt_def)

lemma upd_ps_fields: "p_sh p s = Some y \<Longrightarrow> upd_ps s f p = p\<lparr>p_sh := (p_sh p)(s \<mapsto> f y)\<rparr>"
  by (simp add: upd_ps_def)

lemma live_access:
  "p_th p t = Some x \<Longrightarrow> pt p t = x" "p_th p t = Some x \<Longrightarrow> chk_pt t p = p"
  "p_sh p s = Some y \<Longrightarrow> psk p s = y" "p_sh p s = Some y \<Longrightarrow> chk_ps s p = p"
  by (simp_all add: pt_def chk_pt_def psk_def chk_ps_def)

lemma free_done_pmid:
  assumes m: "pmid T D Q p" and x: "p_th p t = Some x" "pt_done x"
  shows "pmid T D Q (free_pt t p)" and "pevo {t} p (free_pt t p)"
proof -
  note p = pmid_parts [OF m]
  show e: "pevo {t} p (free_pt t p)" unfolding free_pt_fields [OF x(1)] by (rule pevo_del) simp
  show "pmid T D Q (free_pt t p)" unfolding free_pt_fields [OF x(1)]
    by (rule pmid_tasks [OF m e [unfolded free_pt_fields [OF x(1)]]])
      (use p x ptsk_del pview_done_gone [of "p_th p" t x T] in auto)
qed

lemma reap_pmid:
  assumes m: "pmid T D Q p" and x: "p_th p t = Some x" "pt_done x"
    and s: "\<And>s. res_ptr (pt_res x) = Some s \<Longrightarrow> \<exists>y. p_sh p s = Some y \<and> \<not> ps_closing y \<and> ps_inflight y = 0"
  shows "pmid T D Q (pool_reap os p t)" and "pevo {t} p (pool_reap os p t)" and "p_th (pool_reap os p t) = (p_th p)(t := None)"
    and "p_w (pool_reap os p t) = p_w p" "p_nw (pool_reap os p t) = p_nw p"
    "p_completions (pool_reap os p t) = p_completions p" "p_comp_seen (pool_reap os p t) = p_comp_seen p"
    and "res_ptr (pt_res x) = None \<Longrightarrow> p_sh (pool_reap os p t) = p_sh p"
proof -
  have "pmid T D Q (pool_reap os p t) \<and> pevo {t} p (pool_reap os p t) \<and> p_th (pool_reap os p t) = (p_th p)(t := None) \<and>
    p_w (pool_reap os p t) = p_w p \<and> p_nw (pool_reap os p t) = p_nw p \<and>
    p_completions (pool_reap os p t) = p_completions p \<and> p_comp_seen (pool_reap os p t) = p_comp_seen p \<and>
    (res_ptr (pt_res x) = None \<longrightarrow> p_sh (pool_reap os p t) = p_sh p)"
  proof (cases "res_ptr (pt_res x)")
    case None
    then have "pool_reap os p t = free_pt t p" using x by (simp add: pool_reap_def live_access)
    with free_done_pmid [OF m x] free_pt_fields [OF x(1)] show ?thesis by simp
  next
    case (Some a)
    from s [OF this] obtain y where y: "p_sh p a = Some y" "\<not> ps_closing y" "ps_inflight y = 0" by blast
    let ?q = "pool_sock_drop os p a"
    have r: "pool_reap os p t = free_pt t ?q" using x Some by (simp add: pool_reap_def live_access)
    have q: "p_th ?q t = Some x" "p_th ?q = p_th p" "p_w ?q = p_w p" "p_nw ?q = p_nw p"
        "p_completions ?q = p_completions p" "p_comp_seen ?q = p_comp_seen p"
      using x by (simp_all add: sock_drop_fields [OF y(1)])
    note d = sock_drop_pmid [OF m y, of os]
    from free_done_pmid [OF d(1) q(1) x(2)] free_pt_fields [OF q(1)] pevo_trans [OF pevo_mono [OF d(2)], of "{t}"] r q Some
    show ?thesis by simp
  qed
  then show "pmid T D Q (pool_reap os p t)" and "pevo {t} p (pool_reap os p t)" and "p_th (pool_reap os p t) = (p_th p)(t := None)"
    and "p_w (pool_reap os p t) = p_w p" "p_nw (pool_reap os p t) = p_nw p"
    "p_completions (pool_reap os p t) = p_completions p" "p_comp_seen (pool_reap os p t) = p_comp_seen p"
    and "res_ptr (pt_res x) = None \<Longrightarrow> p_sh (pool_reap os p t) = p_sh p" by auto
qed

subsection \<open>Completing a task in transit\<close>

lemma mark_done_pmid:
  assumes m: "pmid T D Q p" and t: "t \<in> T" and x: "p_th p t = Some x" "\<not> pt_done x"
    and r: "res_status r \<noteq> MYIO_PENDING" "\<And>s. res_ptr r = Some s \<Longrightarrow> s < m_brk p \<and>
      (\<forall>t' z. p_th p t' = Some z \<longrightarrow> res_ptr (pt_res z) \<noteq> Some s)"
  shows "pmid T D Q (upd_pt t (\<lambda>x. x\<lparr>pt_res := r, pt_done := True\<rparr>) p)"
    and "pevo {} p (upd_pt t (\<lambda>x. x\<lparr>pt_res := r, pt_done := True\<rparr>) p)"
proof -
  note p = pmid_parts [OF m] and f = upd_pt_fields [OF x(1), of "\<lambda>x. x\<lparr>pt_res := r, pt_done := True\<rparr>"]
  have px: "ptask T (m_brk p) (held p) t x" by (rule ptskD [OF p(3) x(1)])
  show e: "pevo {} p (upd_pt t (\<lambda>x. x\<lparr>pt_res := r, pt_done := True\<rparr>) p)"
    unfolding f by (rule pevo_upd [OF x(1)]) (use x(2) in auto)
  show "pmid T D Q (upd_pt t (\<lambda>x. x\<lparr>pt_res := r, pt_done := True\<rparr>) p)"
    unfolding f
  proof (rule pmid_tasks [OF m e [unfolded f]])
    show "ptsk T (m_brk p) ((p_th p)(t \<mapsto> x\<lparr>pt_res := r, pt_done := True\<rparr>)) (held p)"
      by (rule ptsk_upd [OF p(3)]) (use px r t in \<open>auto simp: ptask_def\<close>)
    show "locs (pview T ((p_th p)(t \<mapsto> x\<lparr>pt_res := r, pt_done := True\<rparr>))) (p_sh p) (p_wnext p) Q (held p - T) (freed p) D"
      using p(4) pview_transit [OF t] by simp
  qed
qed

lemma leave_pmid:
  assumes m: "pmid (insert t T) D Q p" and t: "t \<notin> T" "t \<notin> held p"
    and x: "\<And>x. p_th p t = Some x \<Longrightarrow> pt_done x \<and> \<not> pt_detached x"
  shows "pmid T D Q p"
proof -
  note p = pmid_parts [OF m]
  have T: "insert t T - {t} = T" using t by simp
  have "ptsk (insert t T - {t}) (m_brk p) (p_th p) (held p)"
    by (rule ptsk_settle [OF p(3)]) (use x t ptskD [OF p(3)] in \<open>auto simp: ptask_def\<close>)
  moreover have "pview (insert t T - {t}) (p_th p) = pview (insert t T) (p_th p)"
    by (rule pview_settle) (use x in auto)
  moreover have "held p - insert t T = held p - T" using t by auto
  ultimately show ?thesis using m unfolding pmid_def pdata_def T by simp
qed

text \<open>The common end of a completion: mark it, and reap it if its owner has left.\<close>

definition finish_unrun :: "os \<Rightarrow> pool \<Rightarrow> addr \<Rightarrow> myio_result \<Rightarrow> pool" where
  "finish_unrun os p t r =
     (let p = upd_pt t (\<lambda>x. x\<lparr>pt_res := r, pt_done := True\<rparr>) p
      in if pt_detached (pt p t) then pool_reap os p t else p)"

lemma finish_unrun_pmid:
  assumes m: "pmid (insert t T) D Q p" and t: "t \<notin> T" "t \<notin> held p" and x: "p_th p t = Some x" "\<not> pt_done x"
    and r: "res_status r \<noteq> MYIO_PENDING" "res_ptr r = None"
  shows "pmid T D Q (finish_unrun os p t r)" and "pevo {} p (finish_unrun os p t r)"
    and "p_sh (finish_unrun os p t r) = p_sh p" and "\<And>u. u \<noteq> t \<Longrightarrow> p_th (finish_unrun os p t r) u = p_th p u"
    and "p_th (finish_unrun os p t r) t = (if pt_detached x then None else Some (x\<lparr>pt_res := r, pt_done := True\<rparr>))"
    and "p_w (finish_unrun os p t r) = p_w p" "p_nw (finish_unrun os p t r) = p_nw p"
    "p_completions (finish_unrun os p t r) = p_completions p" "p_comp_seen (finish_unrun os p t r) = p_comp_seen p"
    "p_wnext (finish_unrun os p t r) = p_wnext p"
proof -
  let ?q = "upd_pt t (\<lambda>x. x\<lparr>pt_res := r, pt_done := True\<rparr>) p"
  let ?x = "x\<lparr>pt_res := r, pt_done := True\<rparr>"
  note f = upd_pt_fields [OF x(1), of "\<lambda>x. x\<lparr>pt_res := r, pt_done := True\<rparr>"]
  have q: "p_th ?q t = Some ?x" by (simp add: f)
  have mq: "pmid (insert t T) D Q ?q" "pevo {} p ?q"
    using mark_done_pmid [OF m insertI1 x r(1)] r(2) by auto
  let ?e = "finish_unrun os p t r"
  have "pmid T D Q ?e \<and> pevo {} p ?e \<and> p_sh ?e = p_sh p \<and> (\<forall>u. u \<noteq> t \<longrightarrow> p_th ?e u = p_th p u) \<and>
    p_th ?e t = (if pt_detached x then None else Some ?x) \<and> p_w ?e = p_w p \<and> p_nw ?e = p_nw p \<and>
    p_completions ?e = p_completions p \<and> p_comp_seen ?e = p_comp_seen p \<and> p_wnext ?e = p_wnext p"
  proof (cases "pt_detached x")
    case False
    then have e: "?e = ?q" using q by (simp add: finish_unrun_def live_access)
    have "pmid T D Q ?q" by (rule leave_pmid [OF mq(1) t(1)]) (use t(2) q False pevo_sets(1) [OF mq(2)] in auto)
    with False mq(2) q show ?thesis unfolding e by (simp add: f)
  next
    case True
    then have e: "?e = pool_reap os ?q t" using q by (simp add: finish_unrun_def live_access)
    have w: "p_wnext (pool_reap os ?q t) = p_wnext ?q"
      using q r(2) by (simp add: pool_reap_def live_access free_pt_fields Let_def)
    note rp = reap_pmid [OF mq(1) q, of os]
    have rq: "pmid (insert t T) D Q ?e" "p_th ?e = (p_th ?q)(t := None)" "p_w ?e = p_w ?q" "p_nw ?e = p_nw ?q"
      "p_completions ?e = p_completions ?q" "p_comp_seen ?e = p_comp_seen ?q" "p_sh ?e = p_sh ?q" "p_wnext ?e = p_wnext ?q"
      using rp r(2) w unfolding e by auto
    have ev: "pevo {} p ?e"
    proof -
      have 1: "pevo {t} p ?e" using pevo_trans [OF pevo_mono [OF mq(2)], of "{t}"] rp(2) r(2) unfolding e by simp
      show ?thesis unfolding pevo_def
      proof (intro conjI)
        show "\<forall>u z. p_th p u = Some z \<longrightarrow> \<not> pt_detached z \<longrightarrow> u \<notin> {} \<longrightarrow>
            (\<exists>x'. p_th ?e u = Some x' \<and> \<not> pt_detached x' \<and> (pt_done z \<longrightarrow> pt_done x' \<and> pt_res x' = pt_res z))"
          using True x(1) by (auto simp: rq(2) f)
      qed (use 1 in \<open>unfold pevo_def, blast\<close>)+
    qed
    have "pmid T D Q ?e"
      by (rule leave_pmid [OF rq(1) t(1)]) (use t(2) rq(2) pevo_sets(1) [OF ev] in auto)
    with ev rq True show ?thesis by (simp add: f)
  qed
  then show "pmid T D Q ?e" and "pevo {} p ?e" and "p_sh ?e = p_sh p" and "\<And>u. u \<noteq> t \<Longrightarrow> p_th ?e u = p_th p u"
    and "p_th ?e t = (if pt_detached x then None else Some ?x)" and "p_w ?e = p_w p" "p_nw ?e = p_nw p"
    "p_completions ?e = p_completions p" "p_comp_seen ?e = p_comp_seen p" "p_wnext ?e = p_wnext p" by auto
qed

subsection \<open>The write FIFO of a socket\<close>

lemma ps_swap: "y\<lparr>ps_wq := k, ps_inflight := i\<rparr> = y\<lparr>ps_inflight := i, ps_wq := k\<rparr>"
  by simp

lemma wq_pop_state:
  assumes y: "p_sh p s = Some y" and q: "wq_list (p_wnext p) (ps_wq y) (t # xs)"
  obtains nx k where "pool_wq_pop p s = (wq_head k, p\<lparr>p_wnext := nx, p_sh := (p_sh p)(s \<mapsto> y\<lparr>ps_wq := k\<rparr>)\<rparr>)"
    "wq_list nx k xs" "\<And>r ys. wq_list (p_wnext p) r ys \<Longrightarrow> set (t # xs) \<inter> set ys = {} \<Longrightarrow> wq_list nx r ys"
proof -
  from wq_pop_list [OF q] obtain nx k where po: "myio_wq_pop (p_wnext p) (ps_wq y) = Some (if xs = [] then None else Some (hd xs), nx, k)"
    and l: "wq_list nx k xs" by auto
  have "pool_wq_pop p s = (wq_head k, p\<lparr>p_wnext := nx, p_sh := (p_sh p)(s \<mapsto> y\<lparr>ps_wq := k\<rparr>)\<rparr>)"
    using y po wq_list_head [OF l] by (simp add: pool_wq_pop_def live_access upd_ps_def)
  from that [OF this l wq_pop_frame [OF q _ _ po]] show thesis .
qed

lemma wq_remove_state:
  assumes y: "p_sh p s = Some y" and q: "wq_list (p_wnext p) (ps_wq y) xs"
  obtains nx k where "pool_wq_remove p s t = p\<lparr>p_wnext := nx, p_sh := (p_sh p)(s \<mapsto> y\<lparr>ps_wq := k\<rparr>)\<rparr>"
    "wq_list nx k (remove1 t xs)"
    "\<And>r ys. wq_list (p_wnext p) r ys \<Longrightarrow> set xs \<inter> set ys = {} \<Longrightarrow> t \<notin> set ys \<Longrightarrow> wq_list nx r ys"
proof -
  from wq_remove_list [OF q, of t] obtain nx k where po: "myio_wq_remove (p_wnext p) (ps_wq y) t = Some (t \<in> set xs, nx, k)"
    and l: "wq_list nx k (remove1 t xs)" by auto
  have "pool_wq_remove p s t = p\<lparr>p_wnext := nx, p_sh := (p_sh p)(s \<mapsto> y\<lparr>ps_wq := k\<rparr>)\<rparr>"
    using y po by (simp add: pool_wq_remove_def live_access upd_ps_def)
  from that [OF this l wq_remove_frame [OF q _ _ _ po]] show thesis .
qed

lemma fifo_tasks:
  assumes m: "pmid T D Q p" and y: "p_sh p s = Some y" and q: "wq_list (p_wnext p) (ps_wq y) xs"
  shows "set xs = writes_on (pview T (p_th p)) s" and "length xs \<le> m_brk p"
proof -
  note p = pmid_parts [OF m]
  show e: "set xs = writes_on (pview T (p_th p)) s"
    using fifo_list [OF locs_parts(4) [OF p(4)] y] wq_list_unique [OF q] by metis
  have "set xs \<subseteq> {..<m_brk p}" unfolding e using ptskD [OF p(3)]
    by (auto simp: writes_on_def pview_Some ptask_def)
  then have "card (set xs) \<le> m_brk p" using card_mono [of "{..<m_brk p}"] by simp
  then show "length xs \<le> m_brk p" using wq_list_distinct [OF q] by (simp add: distinct_card)
qed

text \<open>
  A pending task leaves queue and FIFO for transit; \<open>p'\<close> is any state with the fields the
  code computes.
\<close>

lemma extract_write_pmid:
  assumes m: "pmid T D Q p" and t: "t \<notin> T" and x: "p_th p t = Some x" "\<not> pt_done x" "pt_kind x = OP_SOCK_WRITE" "pt_sock x = Some s"
    and y: "p_sh p s = Some y" and q: "wq_list (p_wnext p) (ps_wq y) xs" and k: "wq_list nx k (remove1 t xs)"
    and fr: "\<And>r ys. wq_list (p_wnext p) r ys \<Longrightarrow> set xs \<inter> set ys = {} \<Longrightarrow> t \<notin> set ys \<Longrightarrow> wq_list nx r ys"
    and Q': "qlist p' (remove1 t Q)" and sm: "psame p (p'\<lparr>p_sh := p_sh p, p_wnext := p_wnext p\<rparr>)"
    and th': "pthr p'" and f: "p_sh p' = (p_sh p)(s \<mapsto> y\<lparr>ps_inflight := ps_inflight y - 1, ps_wq := k\<rparr>)" "p_wnext p' = nx"
  shows "pmid (insert t T) (if wq_head (ps_wq y) = Some t then insert s D else D) (remove1 t Q) p'" and "pevo {} p p'"
proof -
  note p = pmid_parts [OF m]
  have vt: "pview T (p_th p) t = Some (OP_SOCK_WRITE, Some s)" using x t by (auto simp: pview_Some)
  have e: "p_th p' = p_th p" "p_socks p' = p_socks p" "p_user p' = p_user p" "p_shutdown p' = p_shutdown p"
    "m_brk p' = m_brk p" "m_fault p' = m_fault p" using sm by (simp_all add: psame_def)
  have op: "t \<in> ops_on (pview T (p_th p)) s" using vt by (auto simp: ops_on_def)
  have fin: "finite (ops_on (pview T (p_th p)) s)"
    using locs_parts(5) [OF p(4)] by (simp add: infl_inv_def ops_on_finite)
  have "0 < card (ops_on (pview T (p_th p)) s)" using op fin by (auto simp: card_gt_0_iff)
  then have pos: "ps_inflight y > 0" using locs_parts(5) [OF p(4)] y by (simp add: infl_inv_def)
  show ev: "pevo {} p p'"
  proof -
    have "pevo {} p (p'\<lparr>p_sh := p_sh p, p_wnext := p_wnext p\<rparr>)" by (rule psame_evo [OF sm])
    moreover have "\<forall>s' z. p_sh p s' = Some z \<longrightarrow> ps_closing z \<longrightarrow> ps_inflight z = 0 \<longrightarrow> p_sh p' s' = Some z"
      using f(1) y pos by auto
    ultimately show ?thesis unfolding pevo_def by simp
  qed
  show "pmid (insert t T) (if wq_head (ps_wq y) = Some t then insert s D else D) (remove1 t Q) p'"
  proof (rule pmid_stepI [OF m ev])
    show "ptsk (insert t T) (m_brk p') (p_th p') (held p)" unfolding e by (rule ptsk_mono [OF p(3)]) auto
    have "held p - insert t T = held p - T - {t}" by auto
    then show "locs (pview (insert t T) (p_th p')) (p_sh p') (p_wnext p') (remove1 t Q) (held p - insert t T) (freed p)
        (if wq_head (ps_wq y) = Some t then insert s D else D)"
      using locs_extract_write [OF p(4) vt y q k fr] by (simp add: f e pview_insert)
    show "dlh.members (p_socks p') (dom (p_sh p') - unlinked p)"
    proof -
      have "dom (p_sh p') = dom (p_sh p)" using f(1) y by auto
      then show ?thesis using p(7) e by simp
    qed
    show "\<And>s. s \<in> dom (p_sh p') \<Longrightarrow> s < m_brk p'" using p(5) f(1) e y by auto
  qed (use p e Q' th' in auto)
qed

lemma promote_pmid:
  assumes "pmid T D Q p" and "s \<in> D" and "p_sh p s = Some y" and "wq_list (p_wnext p) (ps_wq y) xs"
    and "h = (if xs = [] then None else Some (hd xs))" and "length xs \<le> fuel"
  shows "\<exists>Q'. pmid T (D - {s}) Q' (pool_promote os fuel p s h) \<and> pevo {} p (pool_promote os fuel p s h) \<and>
    dom (p_sh (pool_promote os fuel p s h)) = dom (p_sh p) \<and> (\<forall>u \<in> T. p_th (pool_promote os fuel p s h) u = p_th p u)"
  using assms
proof (induction xs arbitrary: fuel p Q y h)
  case Nil
  have "wq_head (ps_wq y) = None" using wq_list_head [OF Nil.prems(4)] by simp
  have "pmid T (D - {s}) Q p"
  proof -
    have "locs (pview T (p_th p)) (p_sh p) (p_wnext p) Q (held p - T) (freed p) (D - {s})"
      by (rule locs_settled [OF pmid_parts(4) [OF Nil.prems(1)] Nil.prems(3)]) fact
    with Nil.prems(1) show ?thesis by (simp add: pmid_def pdata_def)
  qed
  with Nil.prems(5) pevo_refl show ?case by auto
next
  case (Cons n ns)
  then obtain fu where fu: "fuel = Suc fu" "length ns \<le> fu" and h: "h = Some n" by (cases fuel) auto
  note m = Cons.prems(1) and y = Cons.prems(3) and q = Cons.prems(4) and p = pmid_parts [OF Cons.prems(1)]
  have "n \<in> writes_on (pview T (p_th p)) s" using fifo_tasks(1) [OF m y q] by auto
  then have vn: "pview T (p_th p) n = Some (OP_SOCK_WRITE, Some s)" by (simp add: writes_on_def)
  then obtain x where x: "p_th p n = Some x" "\<not> pt_done x" "pt_kind x = OP_SOCK_WRITE" "pt_sock x = Some s" and nT: "n \<notin> T"
    by (auto simp: pview_Some)
  have hd: "wq_head (ps_wq y) = Some n" using wq_list_head [OF q] by simp
  note lp = locs_promote [OF p(4) Cons.prems(2) y hd vn]
  have nh: "n \<notin> held p" using lp(3) nT by blast
  obtain ok p1 where d: "dispatch_locked os p n = (ok, p1)" by fastforce
  note ds = dispatch_spec [OF p(2) lp(2) p(9) d]
  note e1 = psame_evo [OF ds(2), of "{}"]
  have f1: "p_th p1 = p_th p" "p_sh p1 = p_sh p" "p_wnext p1 = p_wnext p" "p_socks p1 = p_socks p" "m_brk p1 = m_brk p"
    "m_fault p1 = m_fault p" using ds(2) by (simp_all add: psame_def)
  show ?case
  proof (cases ok)
    case True
    with d fu h have r: "pool_promote os fuel p s h = p1" by simp
    have "pmid T (D - {s}) (Q @ [n]) p1"
      by (rule pmid_stepI [OF m e1]) (use p f1 ds True lp(1) in auto)
    with r e1 f1 show ?thesis by auto
  next
    case False
    have m1: "pmid T D Q p1"
      by (rule pmid_stepI [OF m e1]) (use p f1 ds False in auto)
    have y1: "p_sh p1 s = Some y" and q1: "wq_list (p_wnext p1) (ps_wq y) (n # ns)" using f1 y q by simp_all
    obtain nx k where po: "pool_wq_pop p1 s = (wq_head k, p1\<lparr>p_wnext := nx, p_sh := (p_sh p1)(s \<mapsto> y\<lparr>ps_wq := k\<rparr>)\<rparr>)"
      and k: "wq_list nx k ns" and fr: "\<And>r ys. wq_list (p_wnext p1) r ys \<Longrightarrow> set (n # ns) \<inter> set ys = {} \<Longrightarrow> wq_list nx r ys"
      by (rule wq_pop_state [OF y1 q1]) blast
    define p2 where "p2 = p1\<lparr>p_wnext := nx, p_sh := (p_sh p1)(s \<mapsto> y\<lparr>ps_inflight := ps_inflight y - 1, ps_wq := k\<rparr>)\<rparr>"
    have rm: "remove1 n Q = Q" using lp(2) by (simp add: remove1_idem)
    have x1: "p_th p1 n = Some x" using x f1 by simp
    have "pmid (insert n T) (if wq_head (ps_wq y) = Some n then insert s D else D) (remove1 n Q) p2" "pevo {} p1 p2"
      by (rule extract_write_pmid [OF m1 nT x1 x(2-4) y1 q1 _ fr, of k];
          use k rm pmid_parts [OF m1] in \<open>auto simp: p2_def psame_def wsame_def qlist_def pq_def intro: pthr_cong\<close>)+
    then have m2: "pmid (insert n T) D Q p2" and e2: "pevo {} p1 p2" using hd rm Cons.prems(2) by (simp_all add: insert_absorb)
    have nh2: "n \<notin> held p2" using pevo_sets(1) [OF e1] pevo_sets(1) [OF e2] nh by simp
    have x2: "p_th p2 n = Some x" using x1 by (simp add: p2_def)
    let ?p3 = "finish_unrun os p2 n (r_err EAGAIN)"
    have rr: "res_status (r_err EAGAIN) \<noteq> MYIO_PENDING" "res_ptr (r_err EAGAIN) = None" by simp_all
    note fu3 = finish_unrun_pmid [where os = os, OF m2 nT nh2 x2 x(2) rr]
    let ?p4 = "done_broadcast ?p3"
    have m4: "pmid T D Q ?p4" and e4: "pevo {} p ?p4"
      using broadcast_pmid fu3(1) pevo_trans [OF pevo_trans [OF pevo_trans [OF e1 e2] fu3(2)] broadcast_evo] by simp_all
    have s4: "p_sh ?p4 s = Some (y\<lparr>ps_inflight := ps_inflight y - 1, ps_wq := k\<rparr>)" "p_wnext ?p4 = nx"
      using fu3(3,10) by (simp_all add: done_broadcast_def p2_def)
    have rec: "pool_promote os fuel p s h = pool_promote os fu ?p4 s (wq_head k)"
    proof -
      have "upd_ps s (\<lambda>y. y\<lparr>ps_inflight := ps_inflight y - 1\<rparr>) (p1\<lparr>p_wnext := nx, p_sh := (p_sh p1)(s \<mapsto> y\<lparr>ps_wq := k\<rparr>)\<rparr>) = p2"
        by (simp add: upd_ps_def p2_def ps_swap)
      with d po False show ?thesis unfolding fu h by (simp add: finish_unrun_def Let_def)
    qed
    have IH: "\<exists>Q'. pmid T (D - {s}) Q' (pool_promote os fu ?p4 s (wq_head k)) \<and> pevo {} ?p4 (pool_promote os fu ?p4 s (wq_head k)) \<and>
        dom (p_sh (pool_promote os fu ?p4 s (wq_head k))) = dom (p_sh ?p4) \<and>
        (\<forall>u \<in> T. p_th (pool_promote os fu ?p4 s (wq_head k)) u = p_th ?p4 u)"
      by (rule Cons.IH [OF m4 Cons.prems(2) s4(1)]) (use k s4(2) wq_list_head [OF k] fu(2) in auto)
    have dm: "dom (p_sh ?p4) = dom (p_sh p)" using fu3(3) f1 y by (auto simp: done_broadcast_def p2_def)
    have tt: "p_th ?p4 u = p_th p u" if "u \<in> T" for u
      using fu3(4) [of u] nT that f1 by (auto simp: done_broadcast_def p2_def)
    from IH dm tt pevo_trans [OF e4] show ?thesis unfolding rec by auto
  qed
qed

subsection \<open>A task leaves its socket\<close>

text \<open>The middle part of \<^verbatim>\<open>complete_unrun\<close> and of a worker's commit.\<close>

definition leave_sock :: "os \<Rightarrow> pool \<Rightarrow> addr \<Rightarrow> op_kind \<Rightarrow> pool" where
  "leave_sock os p t k =
     (let p = (if op_on_sock k then upd_tsock t (\<lambda>y. y\<lparr>ps_inflight := ps_inflight y - 1\<rparr>) p else p)
      in if k = OP_SOCK_WRITE then write_advance os p t else p)"

lemma infl_pos:
  assumes "infl_inv v sh" and "v t = Some (k, Some s)" and "op_on_sock k" and "sh s = Some y"
  shows "ps_inflight y > 0"
proof -
  have "t \<in> ops_on v s" using assms(2,3) by (auto simp: ops_on_def)
  moreover have "finite (ops_on v s)" using assms(1) by (simp add: infl_inv_def ops_on_finite)
  ultimately have "0 < card (ops_on v s)" by (auto simp: card_gt_0_iff)
  with assms(1,4) show ?thesis by (simp add: infl_inv_def)
qed

lemma tsock_dec:
  assumes "p_th p t = Some x" and "pt_sock x = Some s" and "p_sh p s = Some y"
  shows "upd_tsock t (\<lambda>y. y\<lparr>ps_inflight := ps_inflight y - 1\<rparr>) p =
    p\<lparr>p_sh := (p_sh p)(s \<mapsto> y\<lparr>ps_inflight := ps_inflight y - 1\<rparr>)\<rparr>"
  using assms by (simp add: upd_tsock_def live_access upd_ps_fields)

text \<open>Not a write: nothing else happens.\<close>

lemma leave_plain_pmid:
  assumes m: "pmid T D Q p" and t: "t \<notin> T" and x: "p_th p t = Some x" "\<not> pt_done x" "pt_kind x \<noteq> OP_SOCK_WRITE"
    and p1: "psame p p1" "qlist p1 (remove1 t Q)" "pthr p1"
  shows "pmid (insert t T) D (remove1 t Q) (leave_sock os p1 t (pt_kind x))" and "pevo {} p (leave_sock os p1 t (pt_kind x))"
    and "p_th (leave_sock os p1 t (pt_kind x)) = p_th p" and "dom (p_sh (leave_sock os p1 t (pt_kind x))) = dom (p_sh p)"
    and "p_wnext (leave_sock os p1 t (pt_kind x)) = p_wnext p"
    and "p_sh p s = Some z \<Longrightarrow> \<exists>z'. p_sh (leave_sock os p1 t (pt_kind x)) s = Some z' \<and> ps_wq z' = ps_wq z \<and> ps_closing z' = ps_closing z"
    and "pt_sock x \<noteq> Some u \<Longrightarrow> p_sh (leave_sock os p1 t (pt_kind x)) u = p_sh p u"
proof -
  note p = pmid_parts [OF m]
  let ?p = "leave_sock os p1 t (pt_kind x)"
  have f: "p_th p1 = p_th p" "p_sh p1 = p_sh p" "p_wnext p1 = p_wnext p" "p_socks p1 = p_socks p" "m_brk p1 = m_brk p"
    "m_fault p1 = m_fault p" "p_shutdown p1 = p_shutdown p" using p1(1) by (simp_all add: psame_def)
  have h: "held p - insert t T = held p - T - {t}" by auto
  have pt: "ptsk (insert t T) (m_brk p) (p_th p) (held p)" by (rule ptsk_mono [OF p(3)]) auto
  have vt: "pview T (p_th p) t = Some (pt_kind x, pt_sock x)" using x t by (auto simp: pview_Some)
  have "pmid (insert t T) D (remove1 t Q) ?p \<and> pevo {} p ?p \<and> p_th ?p = p_th p \<and> dom (p_sh ?p) = dom (p_sh p) \<and>
    p_wnext ?p = p_wnext p \<and> (\<forall>s z. p_sh p s = Some z \<longrightarrow> (\<exists>z'. p_sh ?p s = Some z' \<and> ps_wq z' = ps_wq z \<and> ps_closing z' = ps_closing z)) \<and>
    (\<forall>u. pt_sock x \<noteq> Some u \<longrightarrow> p_sh ?p u = p_sh p u)"
  proof (cases "op_on_sock (pt_kind x)")
    case False
    then have e: "?p = p1" using x(3) by (simp add: leave_sock_def)
    have l: "locs (pview (insert t T) (p_th p)) (p_sh p) (p_wnext p) (remove1 t Q) (held p - insert t T) (freed p) D"
      unfolding h pview_insert by (rule locs_extract_plain [OF p(4) vt False])
    have "pmid (insert t T) D (remove1 t Q) p1"
      by (rule pmid_stepI [OF m psame_evo [OF p1(1)]]) (use p f pt l p1 in auto)
    with e f psame_evo [OF p1(1)] show ?thesis by simp
  next
    case True
    then obtain s where s: "pt_sock x = Some s" "s \<in> dom (p_sh p)"
      using locs_parts(3) [OF p(4)] vt unfolding sock_inv_def by blast
    then obtain y where y: "p_sh p s = Some y" by auto
    have e: "?p = p1\<lparr>p_sh := (p_sh p)(s \<mapsto> y\<lparr>ps_inflight := ps_inflight y - 1\<rparr>)\<rparr>"
      using True x tsock_dec [of p1 t x s y] s y f by (simp add: leave_sock_def)
    have pos: "ps_inflight y > 0" by (rule infl_pos [OF locs_parts(5) [OF p(4)] vt [unfolded s(1)] True y])
    have ev: "pevo {} p ?p"
    proof -
      have "pevo {} p p1" by (rule psame_evo [OF p1(1)])
      then show ?thesis unfolding e pevo_def using y pos f by simp
    qed
    have l: "locs (pview (insert t T) (p_th p)) ((p_sh p)(s \<mapsto> y\<lparr>ps_inflight := ps_inflight y - 1\<rparr>)) (p_wnext p)
        (remove1 t Q) (held p - insert t T) (freed p) D"
      unfolding h pview_insert by (rule locs_extract_sock [OF p(4) vt [unfolded s(1)] True x(3) y])
    have d: "dom ((p_sh p)(s \<mapsto> y\<lparr>ps_inflight := ps_inflight y - 1\<rparr>)) = dom (p_sh p)" using y by auto
    have "pmid (insert t T) D (remove1 t Q) ?p"
    proof (rule pmid_stepI [OF m ev])
      show "qlist ?p (remove1 t Q)" using p1(2) by (simp add: e qlist_def pq_def)
      show "pthr ?p" by (rule pthr_cong [OF p1(3)]) (simp_all add: e)
    qed (use p f pt l d y in \<open>simp_all add: e\<close>, auto)
    with ev y d s(1) show ?thesis by (auto simp: e f)
  qed
  then show "pmid (insert t T) D (remove1 t Q) ?p" "pevo {} p ?p" "p_th ?p = p_th p" "dom (p_sh ?p) = dom (p_sh p)"
    "p_wnext ?p = p_wnext p" "p_sh p s = Some z \<Longrightarrow> \<exists>z'. p_sh ?p s = Some z' \<and> ps_wq z' = ps_wq z \<and> ps_closing z' = ps_closing z"
    "pt_sock x \<noteq> Some u \<Longrightarrow> p_sh ?p u = p_sh p u" by auto
qed

text \<open>A write that was parked, or that leaves during teardown: no successor is dispatched.\<close>

lemma leave_write_pmid:
  assumes m: "pmid T D Q p" and t: "t \<notin> T" and x: "p_th p t = Some x" "\<not> pt_done x" "pt_kind x = OP_SOCK_WRITE" "pt_sock x = Some s"
    and y: "p_sh p s = Some y" and q: "wq_list (p_wnext p) (ps_wq y) xs"
    and p1: "psame p p1" "qlist p1 (remove1 t Q)" "pthr p1" and nh: "wq_head (ps_wq y) \<noteq> Some t \<or> p_shutdown p"
  shows "pmid (insert t T) (if wq_head (ps_wq y) = Some t then insert s D else D) (remove1 t Q) (leave_sock os p1 t (pt_kind x))"
    and "pevo {} p (leave_sock os p1 t (pt_kind x))"
    and "p_th (leave_sock os p1 t (pt_kind x)) = p_th p" and "dom (p_sh (leave_sock os p1 t (pt_kind x))) = dom (p_sh p)"
    and "\<exists>z. p_sh (leave_sock os p1 t (pt_kind x)) s = Some z \<and>
      wq_list (p_wnext (leave_sock os p1 t (pt_kind x))) (ps_wq z) (remove1 t xs) \<and> ps_closing z = ps_closing y"
proof -
  note p = pmid_parts [OF m]
  let ?p = "leave_sock os p1 t (pt_kind x)" and ?i = "ps_inflight y - 1"
  have f: "p_th p1 = p_th p" "p_sh p1 = p_sh p" "p_wnext p1 = p_wnext p" "p_shutdown p1 = p_shutdown p"
    using p1(1) by (simp_all add: psame_def)
  let ?p2 = "p1\<lparr>p_sh := (p_sh p)(s \<mapsto> y\<lparr>ps_inflight := ?i\<rparr>)\<rparr>"
  have t2: "upd_tsock t (\<lambda>y. y\<lparr>ps_inflight := ps_inflight y - 1\<rparr>) p1 = ?p2" using tsock_dec [of p1 t x s y] x y f by simp
  have y2: "p_sh ?p2 s = Some (y\<lparr>ps_inflight := ?i\<rparr>)" and q2: "wq_list (p_wnext ?p2) (ps_wq (y\<lparr>ps_inflight := ?i\<rparr>)) xs"
    using q f by simp_all
  have mem: "t \<in> set xs" using fifo_tasks(1) [OF m y q] x t by (auto simp: writes_on_def pview_Some)
  have "\<exists>nx k. ?p = p1\<lparr>p_sh := (p_sh p)(s \<mapsto> y\<lparr>ps_inflight := ?i, ps_wq := k\<rparr>), p_wnext := nx\<rparr> \<and> wq_list nx k (remove1 t xs) \<and>
      (\<forall>r ys. wq_list (p_wnext p) r ys \<longrightarrow> set xs \<inter> set ys = {} \<longrightarrow> t \<notin> set ys \<longrightarrow> wq_list nx r ys)"
  proof (cases "wq_head (ps_wq y) = Some t")
    case False
    have e: "?p = pool_wq_remove ?p2 s t"
      using x(3,4) t2 y2 False f x(1) by (simp add: leave_sock_def write_advance_def live_access)
    obtain nx k where "pool_wq_remove ?p2 s t = ?p2\<lparr>p_wnext := nx, p_sh := (p_sh ?p2)(s \<mapsto> (y\<lparr>ps_inflight := ?i\<rparr>)\<lparr>ps_wq := k\<rparr>)\<rparr>"
      "wq_list nx k (remove1 t xs)"
      "\<And>r ys. wq_list (p_wnext ?p2) r ys \<Longrightarrow> set xs \<inter> set ys = {} \<Longrightarrow> t \<notin> set ys \<Longrightarrow> wq_list nx r ys"
      by (rule wq_remove_state [OF y2 q2]) blast
    with e f show ?thesis by (intro exI [of _ nx] exI [of _ k]) simp
  next
    case True
    then have sd: "p_shutdown p" using nh by blast
    obtain ys where xs: "xs = t # ys" using True wq_list_head [OF q] mem by (cases xs) auto
    obtain nx k where po: "pool_wq_pop ?p2 s = (wq_head k, ?p2\<lparr>p_wnext := nx, p_sh := (p_sh ?p2)(s \<mapsto> (y\<lparr>ps_inflight := ?i\<rparr>)\<lparr>ps_wq := k\<rparr>)\<rparr>)"
      "wq_list nx k ys" "\<And>r zs. wq_list (p_wnext ?p2) r zs \<Longrightarrow> set (t # ys) \<inter> set zs = {} \<Longrightarrow> wq_list nx r zs"
      by (rule wq_pop_state [OF y2 q2 [unfolded xs]]) blast
    have e: "?p = snd (pool_wq_pop ?p2 s)"
      using x(3,4) t2 y2 True f x(1) sd po(1) by (simp add: leave_sock_def write_advance_def live_access)
    from po e f xs show ?thesis by (intro exI [of _ nx] exI [of _ k]) simp
  qed
  then obtain nx k where e: "?p = p1\<lparr>p_sh := (p_sh p)(s \<mapsto> y\<lparr>ps_inflight := ?i, ps_wq := k\<rparr>), p_wnext := nx\<rparr>"
    and k: "wq_list nx k (remove1 t xs)"
    and fr: "\<And>r ys. wq_list (p_wnext p) r ys \<Longrightarrow> set xs \<inter> set ys = {} \<Longrightarrow> t \<notin> set ys \<Longrightarrow> wq_list nx r ys" by blast
  have a: "qlist ?p (remove1 t Q)" using p1(2) by (simp add: e qlist_def pq_def)
  have "wsame p p1" using p1(1) by (simp add: psame_def)
  then have "wsame p ?p" by (rule wsame_cong) (simp_all add: e)
  then have b: "psame p (?p\<lparr>p_sh := p_sh p, p_wnext := p_wnext p\<rparr>)"
    using p1(1) unfolding psame_frame by (simp add: e psame_def)
  have c: "pthr ?p" by (rule pthr_cong [OF p1(3)]) (simp_all add: e)
  have d: "p_sh ?p = (p_sh p)(s \<mapsto> y\<lparr>ps_inflight := ps_inflight y - 1, ps_wq := k\<rparr>)" "p_wnext ?p = nx" by (simp_all add: e)
  note ex = extract_write_pmid [OF m t x y q k fr a b c d]
  show "pmid (insert t T) (if wq_head (ps_wq y) = Some t then insert s D else D) (remove1 t Q) ?p" by (rule ex(1))
  show "pevo {} p ?p" by (rule ex(2))
  show "p_th ?p = p_th p" "dom (p_sh ?p) = dom (p_sh p)" using y by (auto simp: e f)
  show "\<exists>z. p_sh ?p s = Some z \<and> wq_list (p_wnext ?p) (ps_wq z) (remove1 t xs) \<and> ps_closing z = ps_closing y"
    using k by (simp add: e)
qed

end
