(* ===== verification/Myio_Pool_User.thy ===== *)
theory Myio_Pool_User
  imports Myio_Pool_Inv
begin

text \<open>
  The critical sections of the user thread keep the pool's invariant: completing a task that
  never ran, submission, closing a socket, cancel, free, detach.
\<close>

subsection \<open>The head of a FIFO leaves, its successor is dispatched\<close>

lemma leave_head_pmid:
  assumes m: "pmid T D Q p" and t: "t \<notin> T" and x: "p_th p t = Some x" "\<not> pt_done x" "pt_kind x = OP_SOCK_WRITE" "pt_sock x = Some s"
    and y: "p_sh p s = Some y" and hd: "wq_head (ps_wq y) = Some t" and D: "s \<notin> D" and sd: "\<not> p_shutdown p"
    and p1: "psame p p1" "qlist p1 (remove1 t Q)" "pthr p1"
  shows "\<exists>Q'. pmid (insert t T) D Q' (leave_sock os p1 t (pt_kind x)) \<and> pevo {} p (leave_sock os p1 t (pt_kind x)) \<and>
    dom (p_sh (leave_sock os p1 t (pt_kind x))) = dom (p_sh p) \<and>
    (\<forall>u \<in> insert t T. p_th (leave_sock os p1 t (pt_kind x)) u = p_th p u)"
proof -
  note p = pmid_parts [OF m]
  let ?p = "leave_sock os p1 t (pt_kind x)" and ?i = "ps_inflight y - 1"
  have f: "p_th p1 = p_th p" "p_sh p1 = p_sh p" "p_wnext p1 = p_wnext p" "p_shutdown p1 = p_shutdown p"
    and ws: "wsame p p1" using p1(1) by (simp_all add: psame_def)
  obtain xs where q: "wq_list (p_wnext p) (ps_wq y) xs" "set xs = writes_on (pview T (p_th p)) s"
    using fifo_list [OF locs_parts(4) [OF p(4)] y] by blast
  obtain ys where xs: "xs = t # ys" using hd wq_list_head [OF q(1)] by (cases xs) auto
  define p2 where "p2 = p1\<lparr>p_sh := (p_sh p)(s \<mapsto> y\<lparr>ps_inflight := ?i\<rparr>)\<rparr>"
  have t2: "upd_tsock t (\<lambda>y. y\<lparr>ps_inflight := ps_inflight y - 1\<rparr>) p1 = p2"
    using tsock_dec [of p1 t x s y] x y f by (simp add: p2_def)
  have y2: "p_sh p2 s = Some (y\<lparr>ps_inflight := ?i\<rparr>)" and q2: "wq_list (p_wnext p2) (ps_wq (y\<lparr>ps_inflight := ?i\<rparr>)) (t # ys)"
    using q f xs by (simp_all add: p2_def)
  obtain nx k where po: "pool_wq_pop p2 s = (wq_head k, p2\<lparr>p_wnext := nx, p_sh := (p_sh p2)(s \<mapsto> (y\<lparr>ps_inflight := ?i\<rparr>)\<lparr>ps_wq := k\<rparr>)\<rparr>)"
    and k: "wq_list nx k ys" and fr: "\<And>r zs. wq_list (p_wnext p2) r zs \<Longrightarrow> set (t # ys) \<inter> set zs = {} \<Longrightarrow> wq_list nx r zs"
    by (rule wq_pop_state [OF y2 q2]) blast
  define p3 where "p3 = p1\<lparr>p_wnext := nx, p_sh := (p_sh p)(s \<mapsto> y\<lparr>ps_inflight := ?i, ps_wq := k\<rparr>)\<rparr>"
  have s3: "snd (pool_wq_pop p2 s) = p3" using po by (simp add: p2_def p3_def)
  have e: "?p = pool_promote os (m_brk p3) p3 s (wq_head k)"
    using x t2 y2 hd f(4) sd po s3 f(1) by (simp add: leave_sock_def write_advance_def live_access p2_def Let_def p3_def)
  have a: "qlist p3 (remove1 t Q)" using p1(2) by (simp add: p3_def qlist_def pq_def)
  have "wsame p p3" by (rule wsame_cong [OF ws]) (simp_all add: p3_def)
  then have b: "psame p (p3\<lparr>p_sh := p_sh p, p_wnext := p_wnext p\<rparr>)"
    using p1(1) unfolding psame_frame by (simp add: p3_def psame_def)
  have c: "pthr p3" by (rule pthr_cong [OF p1(3)]) (simp_all add: p3_def)
  have d: "p_sh p3 = (p_sh p)(s \<mapsto> y\<lparr>ps_inflight := ps_inflight y - 1, ps_wq := k\<rparr>)" "p_wnext p3 = nx" by (simp_all add: p3_def)
  have kk: "wq_list nx k (remove1 t xs)" using k xs by simp
  have fr': "\<And>r zs. wq_list (p_wnext p) r zs \<Longrightarrow> set xs \<inter> set zs = {} \<Longrightarrow> t \<notin> set zs \<Longrightarrow> wq_list nx r zs"
    using fr f(3) xs by (simp add: p2_def)
  note ex = extract_write_pmid [OF m t x y q(1) kk fr' a b c d]
  have m3: "pmid (insert t T) (insert s D) (remove1 t Q) p3" using ex(1) hd by simp
  have y3: "p_sh p3 s = Some (y\<lparr>ps_inflight := ?i, ps_wq := k\<rparr>)" and q3: "wq_list (p_wnext p3) (ps_wq (y\<lparr>ps_inflight := ?i, ps_wq := k\<rparr>)) ys"
    using d k by simp_all
  have hk: "wq_head k = (if ys = [] then None else Some (hd ys))" by (rule wq_list_head [OF k])
  from promote_pmid [OF m3 insertI1 y3 q3 hk fifo_tasks(2) [OF m3 y3 q3], of os]
  obtain Q' where pr: "pmid (insert t T) (insert s D - {s}) Q' ?p" "pevo {} p3 ?p" "dom (p_sh ?p) = dom (p_sh p3)"
    "\<forall>u \<in> insert t T. p_th ?p u = p_th p3 u" unfolding e by blast
  have "insert s D - {s} = D" using D by simp
  moreover have "dom (p_sh p3) = dom (p_sh p)" using d y by auto
  moreover have "p_th p3 = p_th p" using f by (simp add: p3_def)
  ultimately show ?thesis using pr pevo_trans [OF ex(2) pr(2)] by auto
qed

subsection \<open>Completing a task that never ran\<close>

lemma complete_unrun_parts:
  assumes "p_th p t = Some x" and "qlist p Q"
  shows "complete_unrun os p t = done_broadcast (finish_unrun os (leave_sock os (queue_remove p t) t (pt_kind x)) t r_canceled)"
  using assms by (simp add: complete_unrun_def live_access finish_unrun_def leave_sock_def Let_def)

lemma queue_remove_same:
  assumes m: "pmid T D Q p"
  shows "psame p (queue_remove p t)" "qlist (queue_remove p t) (remove1 t Q)" "pthr (queue_remove p t)"
proof -
  note p = pmid_parts [OF m] and q = qlist_remove [OF pmid_parts(2) [OF m], of t]
  show ps: "psame p (queue_remove p t)" and ql: "qlist (queue_remove p t) (remove1 t Q)" by (rule q)+
  show "pthr (queue_remove p t)"
    by (rule pthr_cong [OF p(9)]) (use q ps p(2) in \<open>auto simp: psame_def qlist_def length_remove1\<close>)
qed

text \<open>The last part, common to the three cases: mark, reap, broadcast.\<close>

lemma unrun_end:
  assumes m: "pmid (insert t T) D Q p'" and e: "pevo {} p p'" and t: "t \<notin> T" "t \<notin> held p"
    and x: "p_th p' t = Some x" "\<not> pt_done x"
  shows "pmid T D Q (done_broadcast (finish_unrun os p' t r_canceled))"
    and "pevo {} p (done_broadcast (finish_unrun os p' t r_canceled))"
    and "p_th (done_broadcast (finish_unrun os p' t r_canceled)) =
      (p_th p')(t := if pt_detached x then None else Some (x\<lparr>pt_res := r_canceled, pt_done := True\<rparr>))"
    and "p_sh (done_broadcast (finish_unrun os p' t r_canceled)) = p_sh p'"
    and "p_wnext (done_broadcast (finish_unrun os p' t r_canceled)) = p_wnext p'"
proof -
  have h: "t \<notin> held p'" using pevo_sets(1) [OF e] t(2) by simp
  have r: "res_status r_canceled \<noteq> MYIO_PENDING" "res_ptr r_canceled = None" by simp_all
  note fu = finish_unrun_pmid [where os = os, OF m t(1) h x r]
  show "pmid T D Q (done_broadcast (finish_unrun os p' t r_canceled))" by (rule broadcast_pmid [OF fu(1)])
  show "pevo {} p (done_broadcast (finish_unrun os p' t r_canceled))"
    by (rule pevo_trans [OF pevo_trans [OF e fu(2)] broadcast_evo])
  show "p_th (done_broadcast (finish_unrun os p' t r_canceled)) =
      (p_th p')(t := if pt_detached x then None else Some (x\<lparr>pt_res := r_canceled, pt_done := True\<rparr>))"
    using fu(4,5) by (auto simp: done_broadcast_def fun_eq_iff)
  show "p_sh (done_broadcast (finish_unrun os p' t r_canceled)) = p_sh p'" "p_wnext (done_broadcast (finish_unrun os p' t r_canceled)) = p_wnext p'"
    using fu(3,10) by (simp_all add: done_broadcast_def)
qed

lemma unrun_plain:
  assumes m: "pmid T D Q p" and t: "t \<notin> T" "t \<notin> held p" and x: "p_th p t = Some x" "\<not> pt_done x" "pt_kind x \<noteq> OP_SOCK_WRITE"
  shows "pmid T D (remove1 t Q) (complete_unrun os p t)" and "pevo {} p (complete_unrun os p t)"
    and "p_th (complete_unrun os p t) = (p_th p)(t := if pt_detached x then None else Some (x\<lparr>pt_res := r_canceled, pt_done := True\<rparr>))"
    and "dom (p_sh (complete_unrun os p t)) = dom (p_sh p)"
proof -
  note l = leave_plain_pmid [where os = os, OF m t(1) x queue_remove_same [OF m, of t]]
  have x1: "p_th (leave_sock os (queue_remove p t) t (pt_kind x)) t = Some x" using l(3) x by simp
  note u = unrun_end [where os = os, OF l(1,2) t x1 x(2)]
  note e = complete_unrun_parts [where os = os, OF x(1) pmid_parts(2) [OF m]]
  show "pmid T D (remove1 t Q) (complete_unrun os p t)" "pevo {} p (complete_unrun os p t)" unfolding e by (rule u)+
  show "p_th (complete_unrun os p t) = (p_th p)(t := if pt_detached x then None else Some (x\<lparr>pt_res := r_canceled, pt_done := True\<rparr>))"
    "dom (p_sh (complete_unrun os p t)) = dom (p_sh p)" unfolding e using u l by simp_all
qed

text \<open>A parked write, or any write during teardown.\<close>

lemma unrun_write:
  assumes m: "pmid T D Q p" and t: "t \<notin> T" "t \<notin> held p" and x: "p_th p t = Some x" "\<not> pt_done x" "pt_kind x = OP_SOCK_WRITE" "pt_sock x = Some s"
    and y: "p_sh p s = Some y" and q: "wq_list (p_wnext p) (ps_wq y) xs" and nh: "wq_head (ps_wq y) \<noteq> Some t \<or> p_shutdown p"
  shows "pmid T (if wq_head (ps_wq y) = Some t then insert s D else D) (remove1 t Q) (complete_unrun os p t)"
    and "pevo {} p (complete_unrun os p t)"
    and "p_th (complete_unrun os p t) = (p_th p)(t := if pt_detached x then None else Some (x\<lparr>pt_res := r_canceled, pt_done := True\<rparr>))"
    and "dom (p_sh (complete_unrun os p t)) = dom (p_sh p)"
    and "\<exists>z. p_sh (complete_unrun os p t) s = Some z \<and> wq_list (p_wnext (complete_unrun os p t)) (ps_wq z) (remove1 t xs) \<and> ps_closing z = ps_closing y"
proof -
  note l = leave_write_pmid [where os = os, OF m t(1) x y q queue_remove_same [OF m, of t] nh]
  have x1: "p_th (leave_sock os (queue_remove p t) t (pt_kind x)) t = Some x" using l(3) x by simp
  note u = unrun_end [where os = os, OF l(1,2) t x1 x(2)]
  note e = complete_unrun_parts [where os = os, OF x(1) pmid_parts(2) [OF m]]
  show "pmid T (if wq_head (ps_wq y) = Some t then insert s D else D) (remove1 t Q) (complete_unrun os p t)"
    "pevo {} p (complete_unrun os p t)" unfolding e by (rule u)+
  show "p_th (complete_unrun os p t) = (p_th p)(t := if pt_detached x then None else Some (x\<lparr>pt_res := r_canceled, pt_done := True\<rparr>))"
    "dom (p_sh (complete_unrun os p t)) = dom (p_sh p)" unfolding e using u l by simp_all
  show "\<exists>z. p_sh (complete_unrun os p t) s = Some z \<and> wq_list (p_wnext (complete_unrun os p t)) (ps_wq z) (remove1 t xs) \<and> ps_closing z = ps_closing y"
    unfolding e u(4,5) by (rule l(5))
qed

text \<open>Any pending task no worker has, while the pool is in service.\<close>

lemma unrun_pmid:
  assumes m: "pmid T D Q p" and t: "t \<notin> T" "t \<notin> held p" and x: "p_th p t = Some x" "\<not> pt_done x"
    and sd: "\<not> p_shutdown p" and D: "\<And>s. pt_sock x = Some s \<Longrightarrow> s \<notin> D"
  shows "\<exists>Q'. pmid T D Q' (complete_unrun os p t) \<and> pevo {} p (complete_unrun os p t) \<and>
    p_th (complete_unrun os p t) t = (if pt_detached x then None else Some (x\<lparr>pt_res := r_canceled, pt_done := True\<rparr>)) \<and>
    (\<forall>u \<in> T. p_th (complete_unrun os p t) u = p_th p u) \<and> dom (p_sh (complete_unrun os p t)) = dom (p_sh p)"
proof (cases "pt_kind x = OP_SOCK_WRITE")
  case False
  have "u \<noteq> t" if "u \<in> T" for u using t(1) that by auto
  with unrun_plain [OF m t x False, of os] show ?thesis by auto
next
  case True
  note p = pmid_parts [OF m]
  have vt: "pview T (p_th p) t = Some (OP_SOCK_WRITE, pt_sock x)" using x t True by (auto simp: pview_Some)
  obtain s y where s: "pt_sock x = Some s" and y: "p_sh p s = Some y"
    using locs_parts(3) [OF p(4)] vt unfolding sock_inv_def by (metis on_sock_simps(1) domD)
  obtain xs where q: "wq_list (p_wnext p) (ps_wq y) xs" using fifo_list [OF locs_parts(4) [OF p(4)] y] by blast
  have ne: "u \<noteq> t" if "u \<in> T" for u using t(1) that by auto
  show ?thesis
  proof (cases "wq_head (ps_wq y) = Some t")
    case no: False
    with unrun_write [OF m t x True s y q, of os] ne show ?thesis by auto
  next
    case hd: True
    from leave_head_pmid [OF m t(1) x True s y hd D [OF s] sd queue_remove_same [OF m, of t], of os]
    obtain Q' where l: "pmid (insert t T) D Q' (leave_sock os (queue_remove p t) t (pt_kind x))"
      "pevo {} p (leave_sock os (queue_remove p t) t (pt_kind x))"
      "dom (p_sh (leave_sock os (queue_remove p t) t (pt_kind x))) = dom (p_sh p)"
      "\<forall>u \<in> insert t T. p_th (leave_sock os (queue_remove p t) t (pt_kind x)) u = p_th p u" by blast
    have x1: "p_th (leave_sock os (queue_remove p t) t (pt_kind x)) t = Some x" using l(4) x by simp
    note u = unrun_end [where os = os, OF l(1,2) t x1 x(2)]
    note e = complete_unrun_parts [where os = os, OF x(1) p(2)]
    show ?thesis unfolding e using u l(3,4) ne by auto
  qed
qed

text \<open>During teardown completing a task leaves the registry of sockets alone.\<close>

lemma upd_registry [simp]:
  "p_socks (upd_ps s f p) = p_socks p" "p_shutdown (upd_ps s f p) = p_shutdown p"
  "p_socks (upd_pt t g p) = p_socks p" "p_shutdown (upd_pt t g p) = p_shutdown p" "p_sh (upd_pt t g p) = p_sh p"
  "p_socks (upd_tsock t f p) = p_socks p" "p_shutdown (upd_tsock t f p) = p_shutdown p"
  "p_socks (chk_ps s p) = p_socks p" "p_shutdown (chk_ps s p) = p_shutdown p"
  "p_socks (pool_wq_remove p s t) = p_socks p"
  "p_socks (snd (pool_wq_pop p s)) = p_socks p" "p_shutdown (snd (pool_wq_pop p s)) = p_shutdown p"
  by (auto simp: upd_ps_def upd_pt_def upd_tsock_def chk_ps_def pool_wq_remove_def pool_wq_pop_def m_flag_def split: option.splits)

lemma leave_socks: "p_shutdown p \<Longrightarrow> p_socks (leave_sock os p t k) = p_socks p"
  by (simp add: leave_sock_def write_advance_def m_flag_def case_prod_beta Let_def split: option.splits)

lemma unrun_socks:
  assumes m: "pmid T D Q p" and x: "p_th p t = Some x" and sd: "p_shutdown p"
  shows "p_socks (complete_unrun os p t) = p_socks p"
proof -
  have q: "p_shutdown (queue_remove p t)" "p_socks (queue_remove p t) = p_socks p"
    using queue_remove_same(1) [OF m, of t] sd by (auto simp: psame_def)
  have "p_socks (finish_unrun os p' t r_canceled) = p_socks p'" for p'
    by (auto simp: finish_unrun_def upd_pt_def pool_reap_def free_pt_def chk_pt_def pt_def m_flag_def pool_task0_def result0_def Let_def
        split: option.splits)
  with q leave_socks [OF q(1)] show ?thesis
    unfolding complete_unrun_parts [OF x pmid_parts(2) [OF m]] by (simp add: done_broadcast_def)
qed

subsection \<open>Submission\<close>

lemma sets_frame [simp]:
  "held (p\<lparr>m_trace := tr\<rparr>) = held p" "freed (p\<lparr>m_trace := tr\<rparr>) = freed p" "unlinked (p\<lparr>m_trace := tr\<rparr>) = unlinked p"
  "held (p\<lparr>p_sh := sh\<rparr>) = held p" "freed (p\<lparr>p_sh := sh\<rparr>) = freed p" "unlinked (p\<lparr>p_sh := sh\<rparr>) = unlinked p"
  by (simp_all add: held_def freed_def unlinked_def)

lemma pmid_trace [simp]: "pmid T D Q (p\<lparr>m_trace := tr\<rparr>) = pmid T D Q p"
  by (simp add: pmid_def pdata_def pthr_def ppc_def qlist_def pq_def)

lemma pevo_trace: "pevo S p (p\<lparr>m_trace := tr\<rparr>)"
  by (simp add: pevo_def)

lemma pmid_brk:
  assumes m: "pmid T D Q p"
  shows "pmid T D Q (p\<lparr>m_brk := Suc (m_brk p)\<rparr>)"
proof -
  note p = pmid_parts [OF m]
  have e: "pevo {} p (p\<lparr>m_brk := Suc (m_brk p)\<rparr>)" by (simp add: pevo_def)
  show ?thesis
  proof (rule pmid_stepI [OF m e])
    show "ptsk T (m_brk (p\<lparr>m_brk := Suc (m_brk p)\<rparr>)) (p_th (p\<lparr>m_brk := Suc (m_brk p)\<rparr>)) (held p)"
      by simp (rule ptsk_mono [OF p(3)], auto)
    show "pthr (p\<lparr>m_brk := Suc (m_brk p)\<rparr>)" by (rule pthr_cong [OF p(9)]) simp_all
  qed (use p in \<open>auto simp: qlist_def pq_def intro: less_SucI\<close>)
qed

text \<open>A new task is in transit; its address is above every other.\<close>

definition fresh_task :: "pool_task \<Rightarrow> bool" where
  "fresh_task x \<longleftrightarrow> \<not> pt_done x \<and> \<not> pt_started x \<and> \<not> pt_detached x \<and> pt_res x = result0"

definition born :: "pool \<Rightarrow> event list \<Rightarrow> pool_task \<Rightarrow> pool" where
  "born p tr x = p\<lparr>m_trace := tr, m_brk := Suc (m_brk p), p_th := (p_th p)(m_brk p \<mapsto> x),
     p_qnext := (p_qnext p)(m_brk p := None), p_wnext := (p_wnext p)(m_brk p := None)\<rparr>"

lemma new_task_pmid:
  assumes m: "pmid {} {} Q p" and x: "fresh_task x" "\<And>s. pt_sock x = Some s \<Longrightarrow> s < m_brk p" and t: "t = m_brk p"
    and b: "p' = born p tr x"
  shows "pmid {t} {} Q p'" and "pevo {} p p'" and "t \<notin> held p'"
proof -
  note p = pmid_parts [OF m]
  have p': "p' = p\<lparr>m_trace := tr, m_brk := Suc t, p_th := (p_th p)(t \<mapsto> x), p_qnext := (p_qnext p)(t := None), p_wnext := (p_wnext p)(t := None)\<rparr>"
    unfolding b t born_def ..
  have n: "p_th p t = None" using ptskD [OF p(3)] t by (cases "p_th p t") (auto simp: ptask_def)
  have v: "pview {} (p_th p) u \<noteq> None \<Longrightarrow> u < t" for u
    using ptskD [OF p(3)] t by (auto simp: pview_def ptask_def split: option.splits if_splits)
  have h: "t \<notin> held p" using p(6) t by auto
  show e: "pevo {} p p'" unfolding p' using n t by (auto simp: pevo_def)
  show "t \<notin> held p'" using pevo_sets(1) [OF e] h by simp
  have tQ: "t \<notin> set Q" using locs_parts(1) [OF p(4)] v by (fastforce simp: place_inv_def)
  show "pmid {t} {} Q p'"
  proof (rule pmid_stepI [OF m e])
    show "qlist p' Q" using p(2) tQ by (simp add: p' qlist_def pq_def wq_list_frame)
    have "ptsk {t} (Suc t) (p_th p) (held p)" by (rule ptsk_mono [OF p(3)]) (auto simp: t)
    then have "ptsk {t} (Suc t) ((p_th p)(t \<mapsto> x)) (held p)"
      by (rule ptsk_upd) (use x t in \<open>auto simp: ptask_def fresh_task_def result0_def\<close>)
    then show "ptsk {t} (m_brk p') (p_th p') (held p)" by (simp add: p')
    have "fifo_inv (pview {} (p_th p)) (p_sh p) ((p_wnext p)(t := None))"
      unfolding fifo_inv_def
    proof (intro allI impI)
      fix s y
      assume "p_sh p s = Some y"
      then obtain xs where q: "wq_list (p_wnext p) (ps_wq y) xs" "set xs = writes_on (pview {} (p_th p)) s"
        using fifo_list [OF locs_parts(4) [OF p(4)]] by blast
      have "t \<notin> set xs" using q(2) v [of t] by (auto simp: writes_on_def)
      then have "wq_list ((p_wnext p)(t := None)) (ps_wq y) xs" using q(1) by (simp add: wq_list_frame)
      with q(2) show "\<exists>xs. wq_list ((p_wnext p)(t := None)) (ps_wq y) xs \<and> set xs = writes_on (pview {} (p_th p)) s" by blast
    qed
    with p(4) have "locs (pview {} (p_th p)) (p_sh p) ((p_wnext p)(t := None)) Q (held p - {}) (freed p) {}"
      by (simp add: locs_def)
    then show "locs (pview {t} (p_th p')) (p_sh p') (p_wnext p') Q (held p - {t}) (freed p) {}"
      using h n pview_new [of "p_th p" t "{}" x] by (simp add: p')
    show "pthr p'" by (rule pthr_cong [OF p(9)]) (simp_all add: p')
  qed (use p t in \<open>auto simp: p' intro: less_SucI\<close>)
qed

lemma settle_done:
  assumes m: "pmid {t} D Q p" and h: "t \<notin> held p" and x: "p_th p t = Some x" "\<not> pt_done x" "\<not> pt_detached x"
    and r: "res_status r \<noteq> MYIO_PENDING" "res_ptr r = None"
  shows "pmid {} D Q (upd_pt t (\<lambda>x. x\<lparr>pt_res := r, pt_done := True\<rparr>) p)"
    and "pevo {} p (upd_pt t (\<lambda>x. x\<lparr>pt_res := r, pt_done := True\<rparr>) p)"
proof -
  note md = mark_done_pmid [of "{t}" D Q p t x r]
  show e: "pevo {} p (upd_pt t (\<lambda>x. x\<lparr>pt_res := r, pt_done := True\<rparr>) p)" using md(2) m x r by simp
  have "pmid {t} D Q (upd_pt t (\<lambda>x. x\<lparr>pt_res := r, pt_done := True\<rparr>) p)" using md(1) m x r by simp
  then show "pmid {} D Q (upd_pt t (\<lambda>x. x\<lparr>pt_res := r, pt_done := True\<rparr>) p)"
    by (rule leave_pmid) (use pevo_sets(1) [OF e] h x in \<open>auto simp: upd_pt_fields\<close>)
qed

lemma submit_failed:
  assumes m: "pmid {t} D Q p" and h: "t \<notin> held p" and x: "p_th p t = Some x" "\<not> pt_done x" "\<not> pt_detached x"
  shows "pmid {} D Q (upd_pt t (\<lambda>x. x\<lparr>pt_res := r_err EAGAIN, pt_done := True\<rparr>) p)"
    and "pevo {} p (upd_pt t (\<lambda>x. x\<lparr>pt_res := r_err EAGAIN, pt_done := True\<rparr>) p)"
  by (rule settle_done [OF m h x]; simp)+

text \<open>
  The new task becomes pending: \<open>p'\<close> is a state in which it has its place in the queue
  \<open>Q'\<close> or on a FIFO.
\<close>

lemma enter_pmid:
  assumes m: "pmid {t} {} Q p" and h: "t \<notin> held p" and x: "p_th p t = Some x" "fresh_task x"
    and e: "pevo {} p p'" and th: "p_th p' = p_th p" "m_brk p' = m_brk p" "m_fault p' = m_fault p" "p_socks p' = p_socks p"
    and d: "dom (p_sh p') = dom (p_sh p)"
    and q: "qlist p' Q'" and t: "pthr p'"
    and l: "locs ((pview {t} (p_th p))(t \<mapsto> (pt_kind x, pt_sock x))) (p_sh p') (p_wnext p') Q' (held p) (freed p) {}"
  shows "pmid {} {} Q' p'"
proof -
  note p = pmid_parts [OF m]
  show ?thesis
  proof (rule pmid_stepI [OF m e _ q])
    have "ptsk ({t} - {t}) (m_brk p) (p_th p) (held p)"
      by (rule ptsk_settle [OF p(3)]) (use x h ptskD [OF p(3)] in \<open>auto simp: ptask_def fresh_task_def result0_def\<close>)
    then show "ptsk {} (m_brk p') (p_th p') (held p)" using th by simp
    have "pview ({t} - {t}) (p_th p) = (pview {t} (p_th p))(t \<mapsto> (pt_kind x, pt_sock x))"
      by (rule pview_submit) (use x in \<open>auto simp: fresh_task_def\<close>)
    with l show "locs (pview {} (p_th p')) (p_sh p') (p_wnext p') Q' (held p - {}) (freed p) {}" using th by simp
  qed (use p th d t in auto)
qed


lemma submit_plain:
  assumes m: "pmid {t} {} Q p" and h: "t \<notin> held p" and x: "p_th p t = Some x" "fresh_task x"
    and k: "\<not> op_on_sock (pt_kind x)" "pt_kind x \<noteq> OP_SOCK_CLOSE"
  shows "\<exists>Q'. pmid {} {} Q' (pool_submit os p t) \<and> pevo {} p (pool_submit os p t) \<and>
    (\<forall>a. pt_sock x \<noteq> Some a \<longrightarrow> p_sh (pool_submit os p t) a = p_sh p a)"
proof -
  note p = pmid_parts [OF m]
  have nw: "pt_kind x \<noteq> OP_SOCK_WRITE" using k(1) by auto
  have vt: "pview {t} (p_th p) t = None" by (simp add: pview_transit_None)
  have hh: "held p - {t} = held p" using h by simp
  have l: "locs ((pview {t} (p_th p))(t \<mapsto> (pt_kind x, pt_sock x))) (p_sh p) (p_wnext p) (Q @ [t]) (held p) (freed p) {}"
    using locs_enqueue_plain [OF p(4) vt k(1)] k(2) hh by simp
  have tQ: "t \<notin> set Q" using place_add(3) [OF locs_parts(1) [OF p(4)] vt] .
  obtain ok p1 where d: "dispatch_locked os p t = (ok, p1)" by fastforce
  note ds = dispatch_spec [OF p(2) tQ p(9) d]
  have f: "p_th p1 = p_th p" "p_sh p1 = p_sh p" "p_wnext p1 = p_wnext p" "p_socks p1 = p_socks p" "m_brk p1 = m_brk p" "m_fault p1 = m_fault p"
    using ds(2) by (simp_all add: psame_def)
  note ev = psame_evo [OF ds(2), of "{}"]
  have s: "pool_submit os p t = (if ok then p1 else submit_fail p1 t)"
    using x(1) k(1) nw d by (simp add: pool_submit_def live_access)
  show ?thesis
  proof (cases ok)
    case True
    have "pmid {} {} (Q @ [t]) p1"
      by (rule enter_pmid [OF m h x ev f(1,5,6,4)]) (use ds True f l in auto)
    with True s ev f show ?thesis by auto
  next
    case False
    have m1: "pmid {t} {} Q p1" by (rule pmid_stepI [OF m ev]) (use p f ds False in auto)
    have x1: "p_th p1 t = Some x" using x f by simp
    have sf: "submit_fail p1 t = upd_pt t (\<lambda>x. x\<lparr>pt_res := r_err EAGAIN, pt_done := True\<rparr>) p1"
      using x1 k(1) nw by (simp add: submit_fail_def live_access)
    have "t \<notin> held p1" using pevo_sets(1) [OF ev] h by simp
    with submit_failed [OF m1 _ x1] x(2) pevo_trans [OF ev] False s sf f show ?thesis by (auto simp: fresh_task_def)
  qed
qed

lemma tsock_inc:
  assumes "p_th p t = Some x" and "pt_sock x = Some s" and "p_sh p s = Some y"
  shows "upd_tsock t (\<lambda>y. y\<lparr>ps_inflight := ps_inflight y + 1\<rparr>) p =
    p\<lparr>p_sh := (p_sh p)(s \<mapsto> y\<lparr>ps_inflight := ps_inflight y + 1\<rparr>)\<rparr>"
  using assms by (simp add: upd_tsock_def live_access upd_ps_fields)

lemma wsame_cong_both:
  "wsame q r \<Longrightarrow> p_w p = p_w q \<Longrightarrow> p_nw p = p_nw q \<Longrightarrow> p_w p' = p_w r \<Longrightarrow> p_nw p' = p_nw r \<Longrightarrow> wsame p p'"
  unfolding wsame_def by metis

text \<open>A change of one open socket, on top of what dispatching does.\<close>

lemma pevo_sock:
  assumes "psame (p\<lparr>p_sh := (p_sh p)(s \<mapsto> y'), p_wnext := nx\<rparr>) p'" and "p_sh p s = Some y" "\<not> ps_closing y"
  shows "pevo {} p p'"
proof -
  have "pevo {} p (p\<lparr>p_sh := (p_sh p)(s \<mapsto> y'), p_wnext := nx\<rparr>)" using assms(2,3) by (auto simp: pevo_def)
  from pevo_trans [OF this psame_evo [OF assms(1)]] show ?thesis .
qed

lemma submit_sock:
  assumes m: "pmid {t} {} Q p" and h: "t \<notin> held p" and x: "p_th p t = Some x" "fresh_task x"
    and k: "op_on_sock (pt_kind x)" "pt_kind x \<noteq> OP_SOCK_WRITE" and s: "pt_sock x = Some s" and y: "p_sh p s = Some y" "\<not> ps_closing y"
  shows "\<exists>Q'. pmid {} {} Q' (pool_submit os p t) \<and> pevo {} p (pool_submit os p t) \<and>
    (\<forall>a. pt_sock x \<noteq> Some a \<longrightarrow> p_sh (pool_submit os p t) a = p_sh p a)"
proof -
  note p = pmid_parts [OF m]
  have vt: "pview {t} (p_th p) t = None" by (simp add: pview_transit_None)
  have hh: "held p - {t} = held p" using h by simp
  let ?y = "y\<lparr>ps_inflight := ps_inflight y + 1\<rparr>"
  define p2 where "p2 = p\<lparr>p_sh := (p_sh p)(s \<mapsto> ?y), p_wnext := p_wnext p\<rparr>"
  have l: "locs ((pview {t} (p_th p))(t \<mapsto> (pt_kind x, pt_sock x))) (p_sh p2) (p_wnext p2) (Q @ [t]) (held p) (freed p) {}"
    using locs_enqueue_sock [OF p(4) vt k y(1)] hh s by (simp add: p2_def)
  have tQ: "t \<notin> set Q" using place_add(3) [OF locs_parts(1) [OF p(4)] vt] .
  have q2: "qlist p2 Q" and t2: "pthr p2" using p by (auto simp: p2_def qlist_def pq_def intro: pthr_cong)
  obtain ok p1 where d: "dispatch_locked os p2 t = (ok, p1)" by fastforce
  note ds = dispatch_spec [OF q2 tQ t2 d]
  have f: "p_th p1 = p_th p" "p_sh p1 = p_sh p2" "p_wnext p1 = p_wnext p2" "p_socks p1 = p_socks p" "m_brk p1 = m_brk p" "m_fault p1 = m_fault p"
    using ds(2) by (simp_all add: psame_def p2_def)
  have ev: "pevo {} p p1" using pevo_sock [OF _ y] ds(2) p2_def by blast
  have sb: "pool_submit os p t = (if ok then p1 else submit_fail p1 t)"
    using x(1) k s y tsock_inc [OF x(1) s y(1)] d by (simp add: pool_submit_def live_access p2_def)
  have x1: "p_th p1 t = Some x" using x f by simp
  show ?thesis
  proof (cases ok)
    case True
    have "pmid {} {} (Q @ [t]) p1"
      by (rule enter_pmid [OF m h x ev f(1,5,6,4)]) (use ds True f l y in \<open>auto simp: p2_def\<close>)
    with True sb ev f \<open>pt_sock x = Some s\<close> show ?thesis by (auto simp: p2_def)
  next
    case False
    define p3 where "p3 = p1\<lparr>p_sh := p_sh p\<rparr>"
    have y1: "p_sh p1 s = Some ?y" using f by (simp add: p2_def)
    have td: "upd_tsock t (\<lambda>y. y\<lparr>ps_inflight := ps_inflight y - 1\<rparr>) p1 = p3"
      using tsock_dec [OF x1 s y1] f y(1) by (simp add: p3_def p2_def map_upd_triv fun_upd_idem)
    have x3: "p_th p3 t = Some x" using x1 by (simp add: p3_def)
    have sf: "submit_fail p1 t = upd_pt t (\<lambda>x. x\<lparr>pt_res := r_err EAGAIN, pt_done := True\<rparr>) p3"
      using x1 k td by (simp add: submit_fail_def live_access)
    have "wsame p2 p1" using ds(2) by (simp add: psame_def)
    then have "wsame p p3" by (rule wsame_cong_both) (simp_all add: p2_def p3_def)
    then have "psame p p3" using ds(2) by (simp add: psame_def p2_def p3_def)
    then have e3: "pevo {} p p3" by (rule psame_evo)
    have m3: "pmid {t} {} Q p3"
    proof (rule pmid_stepI [OF m e3])
      show "pthr p3" by (rule pthr_cong [OF ds(3)]) (simp_all add: p3_def)
    qed (use p f ds False in \<open>auto simp: p3_def p2_def qlist_def pq_def\<close>)
    have "t \<notin> held p3" using pevo_sets(1) [OF e3] h by simp
    with submit_failed [OF m3 _ x3] x(2) pevo_trans [OF e3] False sb sf show ?thesis by (auto simp: fresh_task_def p3_def)
  qed
qed


lemma wq_push_state:
  assumes y: "p_sh p s = Some y" and q: "wq_list (p_wnext p) (ps_wq y) xs" and n: "t \<notin> set xs"
  obtains nx k where "pool_wq_push p s t = (xs = [], p\<lparr>p_wnext := nx, p_sh := (p_sh p)(s \<mapsto> y\<lparr>ps_wq := k\<rparr>)\<rparr>)"
    "wq_list nx k (xs @ [t])" "\<And>r ys. wq_list (p_wnext p) r ys \<Longrightarrow> set xs \<inter> set ys = {} \<Longrightarrow> t \<notin> set ys \<Longrightarrow> wq_list nx r ys"
proof -
  obtain b nx k where po: "myio_wq_push (p_wnext p) (ps_wq y) t = (b, nx, k)" by (metis prod_cases3)
  note l = wq_push_list [OF q n po]
  have "pool_wq_push p s t = (xs = [], p\<lparr>p_wnext := nx, p_sh := (p_sh p)(s \<mapsto> y\<lparr>ps_wq := k\<rparr>)\<rparr>)"
    using y po l(2) by (simp add: pool_wq_push_def live_access upd_ps_def)
  from that [OF this l(1) wq_push_frame [OF q _ _ _ po]] show thesis .
qed

lemma submit_write:
  assumes m: "pmid {t} {} Q p" and h: "t \<notin> held p" and x: "p_th p t = Some x" "fresh_task x"
    and k: "pt_kind x = OP_SOCK_WRITE" and s: "pt_sock x = Some s" and y: "p_sh p s = Some y" "\<not> ps_closing y"
  shows "\<exists>Q'. pmid {} {} Q' (pool_submit os p t) \<and> pevo {} p (pool_submit os p t) \<and>
    (\<forall>a. pt_sock x \<noteq> Some a \<longrightarrow> p_sh (pool_submit os p t) a = p_sh p a)"
proof -
  note p = pmid_parts [OF m]
  have vt: "pview {t} (p_th p) t = None" by (simp add: pview_transit_None)
  have hh: "held p - {t} = held p" using h by simp
  obtain xs where q: "wq_list (p_wnext p) (ps_wq y) xs" "set xs = writes_on (pview {t} (p_th p)) s"
    using fifo_list [OF locs_parts(4) [OF p(4)] y(1)] by blast
  have tx: "t \<notin> set xs" using q(2) vt by (auto simp: writes_on_def)
  let ?i = "ps_inflight y + 1"
  have y0: "p_sh (p\<lparr>p_sh := (p_sh p)(s \<mapsto> y\<lparr>ps_inflight := ?i\<rparr>)\<rparr>) s = Some (y\<lparr>ps_inflight := ?i\<rparr>)" by simp
  have q0: "wq_list (p_wnext (p\<lparr>p_sh := (p_sh p)(s \<mapsto> y\<lparr>ps_inflight := ?i\<rparr>)\<rparr>)) (ps_wq (y\<lparr>ps_inflight := ?i\<rparr>)) xs" using q by simp
  obtain nx k' where po: "pool_wq_push (p\<lparr>p_sh := (p_sh p)(s \<mapsto> y\<lparr>ps_inflight := ?i\<rparr>)\<rparr>) s t =
      (xs = [], p\<lparr>p_wnext := nx, p_sh := (p_sh p)(s \<mapsto> y\<lparr>ps_inflight := ?i, ps_wq := k'\<rparr>)\<rparr>)"
    and kl: "wq_list nx k' (xs @ [t])" and fr: "\<And>r ys. wq_list (p_wnext p) r ys \<Longrightarrow> set xs \<inter> set ys = {} \<Longrightarrow> t \<notin> set ys \<Longrightarrow> wq_list nx r ys"
    by (rule wq_push_state [OF y0 q0 tx]) simp
  define p2 where "p2 = p\<lparr>p_sh := (p_sh p)(s \<mapsto> y\<lparr>ps_inflight := ?i, ps_wq := k'\<rparr>), p_wnext := nx\<rparr>"
  have l: "locs ((pview {t} (p_th p))(t \<mapsto> (pt_kind x, pt_sock x))) (p_sh p2) (p_wnext p2) (if xs = [] then Q @ [t] else Q) (held p) (freed p) {}"
    using locs_push_write [OF p(4) vt y(1) q(1) kl fr] hh s k by (simp add: p2_def)
  have e2: "pevo {} p p2" unfolding p2_def by (rule pevo_sock [OF psame_refl y])
  have q2: "qlist p2 Q" and t2: "pthr p2" using p by (auto simp: p2_def qlist_def pq_def intro: pthr_cong)
  have sw: "p\<lparr>p_wnext := nx, p_sh := sh\<rparr> = p\<lparr>p_sh := sh, p_wnext := nx\<rparr>" for sh by simp
  show ?thesis
  proof (cases "xs = []")
    case False
    have "pool_submit os p t = p2"
      using x(1) k s y tsock_inc [OF x(1) s y(1)] po False by (simp add: pool_submit_def live_access p2_def sw)
    moreover have "pmid {} {} Q p2"
      by (rule enter_pmid [OF m h x e2]) (use l False y q2 t2 in \<open>auto simp: p2_def\<close>)
    ultimately show ?thesis using e2 \<open>pt_sock x = Some s\<close> by (auto simp: p2_def)
  next
    case True
    have tQ: "t \<notin> set Q" using place_add(3) [OF locs_parts(1) [OF p(4)] vt] .
    obtain ok p1 where d: "dispatch_locked os p2 t = (ok, p1)" by fastforce
    note ds = dispatch_spec [OF q2 tQ t2 d]
    have f: "p_th p1 = p_th p" "p_sh p1 = p_sh p2" "p_wnext p1 = p_wnext p2" "p_socks p1 = p_socks p" "m_brk p1 = m_brk p" "m_fault p1 = m_fault p"
      using ds(2) by (simp_all add: psame_def p2_def)
    have ev: "pevo {} p p1" using pevo_trans [OF e2 psame_evo [OF ds(2)]] .
    have sb: "pool_submit os p t = (if ok then p1 else submit_fail p1 t)"
      using x(1) k s y tsock_inc [OF x(1) s y(1)] d po True by (simp add: pool_submit_def live_access p2_def sw)
    have x1: "p_th p1 t = Some x" using x f by simp
    show ?thesis
    proof (cases ok)
      case ok: True
      have "pmid {} {} (Q @ [t]) p1"
        by (rule enter_pmid [OF m h x ev f(1,5,6,4)]) (use ds True ok f l y in \<open>auto simp: p2_def\<close>)
      with ok sb ev f \<open>pt_sock x = Some s\<close> show ?thesis by (auto simp: p2_def)
    next
      case False
      have y1: "p_sh p1 s = Some (y\<lparr>ps_inflight := ?i, ps_wq := k'\<rparr>)" using f by (simp add: p2_def)
      let ?p0 = "p1\<lparr>p_sh := (p_sh p1)(s \<mapsto> y\<lparr>ps_wq := k'\<rparr>)\<rparr>"
      have td: "upd_tsock t (\<lambda>y. y\<lparr>ps_inflight := ps_inflight y - 1\<rparr>) p1 = ?p0"
        using tsock_dec [OF x1 s y1] by simp
      have yp: "p_sh ?p0 s = Some (y\<lparr>ps_wq := k'\<rparr>)" and qp: "wq_list (p_wnext ?p0) (ps_wq (y\<lparr>ps_wq := k'\<rparr>)) (t # [])"
        using kl True f by (simp_all add: p2_def)
      obtain nx3 k3 where pp: "pool_wq_pop ?p0 s = (wq_head k3, ?p0\<lparr>p_wnext := nx3, p_sh := (p_sh ?p0)(s \<mapsto> y\<lparr>ps_wq := k'\<rparr>\<lparr>ps_wq := k3\<rparr>)\<rparr>)"
        and k3: "wq_list nx3 k3 []" and fr3: "\<And>r ys. wq_list (p_wnext ?p0) r ys \<Longrightarrow> set [t] \<inter> set ys = {} \<Longrightarrow> wq_list nx3 r ys"
        by (rule wq_pop_state [OF yp qp]) blast
      define p3 where "p3 = p1\<lparr>p_sh := (p_sh p)(s \<mapsto> y\<lparr>ps_wq := k3\<rparr>), p_wnext := nx3\<rparr>"
      have s3: "snd (pool_wq_pop ?p0 s) = p3" using pp f by (simp add: p3_def p2_def)
      have x3: "p_th p3 t = Some x" using x1 by (simp add: p3_def)
      have sf: "submit_fail p1 t = upd_pt t (\<lambda>x. x\<lparr>pt_res := r_err EAGAIN, pt_done := True\<rparr>) p3"
        using x1 k td s s3 by (simp add: submit_fail_def live_access)
      have ws: "wsame p2 p1" using ds(2) by (simp add: psame_def)
      have "wsame (p\<lparr>p_sh := (p_sh p)(s \<mapsto> y\<lparr>ps_wq := k3\<rparr>), p_wnext := nx3\<rparr>) p3"
        by (rule wsame_cong_both [OF ws]) (simp_all add: p2_def p3_def)
      then have "psame (p\<lparr>p_sh := (p_sh p)(s \<mapsto> y\<lparr>ps_wq := k3\<rparr>), p_wnext := nx3\<rparr>) p3"
        using ds(2) by (simp add: psame_def p2_def p3_def)
      then have e3: "pevo {} p p3" by (rule pevo_sock [OF _ y])
      have "locs (((pview {t} (p_th p))(t \<mapsto> (OP_SOCK_WRITE, Some s)))(t := None))
          ((p_sh p2)(s \<mapsto> y\<lparr>ps_inflight := ?i, ps_wq := k'\<rparr>\<lparr>ps_inflight := ps_inflight (y\<lparr>ps_inflight := ?i, ps_wq := k'\<rparr>) - 1, ps_wq := k3\<rparr>)) nx3
          (remove1 t (Q @ [t])) (held p - {t}) (freed p) (if wq_head (ps_wq (y\<lparr>ps_inflight := ?i, ps_wq := k'\<rparr>)) = Some t then insert s {} else {})"
        by (rule locs_extract_write [where xs = "[t]" and nx = nx]) (use l True kl k s fr3 k3 f in \<open>auto simp: p2_def\<close>)
      moreover have "(pview {t} (p_th p))(t := None) = pview {t} (p_th p)" using vt by auto
      moreover have "remove1 t (Q @ [t]) = Q" using tQ by (simp add: remove1_append)
      moreover have "(if wq_head k' = Some t then {s} else {}) = {s}" using wq_list_head [OF kl] True by simp
      ultimately have "locs (pview {t} (p_th p)) ((p_sh p)(s \<mapsto> y\<lparr>ps_wq := k3\<rparr>)) nx3 Q (held p - {t}) (freed p) {s}"
        by (simp add: p2_def)
      from locs_settled [OF this, of s] wq_list_head [OF k3]
      have l3: "locs (pview {t} (p_th p)) ((p_sh p)(s \<mapsto> y\<lparr>ps_wq := k3\<rparr>)) nx3 Q (held p - {t}) (freed p) {}" by simp
      have d3: "dom ((p_sh p)(s \<mapsto> y\<lparr>ps_wq := k3\<rparr>)) = dom (p_sh p)" using y(1) by auto
      have m3: "pmid {t} {} Q p3"
      proof (rule pmid_stepI [OF m e3])
        show "pthr p3" by (rule pthr_cong [OF ds(3)]) (simp_all add: p3_def)
        show "locs (pview {t} (p_th p3)) (p_sh p3) (p_wnext p3) Q (held p - {t}) (freed p) {}" using l3 f by (simp add: p3_def)
        show "\<And>s'. s' \<in> dom (p_sh p3) \<Longrightarrow> s' < m_brk p3" using p(5) f y(1) by (auto simp: p3_def)
        show "dlh.members (p_socks p3) (dom (p_sh p3) - unlinked p)" using p(7) f d3 by (simp add: p3_def)
        show "\<not> m_fault p3" "ptsk {t} (m_brk p3) (p_th p3) (held p)" using p f by (simp_all add: p3_def)
        show "qlist p3 Q" using ds(1) False by (simp add: p3_def qlist_def pq_def)
      qed
      have "t \<notin> held p3" using pevo_sets(1) [OF e3] h by simp
      with submit_failed [OF m3 _ x3] x(2) pevo_trans [OF e3] False sb sf \<open>pt_sock x = Some s\<close> show ?thesis by (auto simp: fresh_task_def p3_def)
    qed
  qed
qed

lemma submit_pmid:
  assumes m: "pmid {t} {} Q p" and h: "t \<notin> held p" and x: "p_th p t = Some x" "fresh_task x" and k: "pt_kind x \<noteq> OP_SOCK_CLOSE"
    and s: "op_on_sock (pt_kind x) \<Longrightarrow> \<exists>s y. pt_sock x = Some s \<and> p_sh p s = Some y \<and> \<not> ps_closing y"
  shows "\<exists>Q'. pmid {} {} Q' (pool_submit os p t) \<and> pevo {} p (pool_submit os p t) \<and>
    (\<forall>a. pt_sock x \<noteq> Some a \<longrightarrow> p_sh (pool_submit os p t) a = p_sh p a)"
  using submit_plain [OF m h x _ k] submit_sock [OF m h x] submit_write [OF m h x] s by blast


subsection \<open>The entry points\<close>

text \<open>A critical section leaves the closing sockets alone, or it wakes the workers waiting for one to drain.\<close>

definition pquiet :: "pool \<Rightarrow> pool \<Rightarrow> bool" where
  "pquiet p p' \<longleftrightarrow> (\<forall>s y. p_sh p s = Some y \<longrightarrow> ps_closing y \<longrightarrow> p_sh p' s = Some y) \<or>
     (\<forall>w < p_nw p'. \<forall>t. p_w p' w \<noteq> W_drain_wait t)"

lemma pevo_fresh:
  assumes e: "pevo S p p'" and n: "\<And>t. t \<in> S \<Longrightarrow> p_th p t = None"
  shows "pevo {} p p'"
  unfolding pevo_def
proof (intro conjI)
  have "\<forall>t x. p_th p t = Some x \<longrightarrow> \<not> pt_detached x \<longrightarrow> t \<notin> S \<longrightarrow>
        (\<exists>x'. p_th p' t = Some x' \<and> \<not> pt_detached x' \<and> (pt_done x \<longrightarrow> pt_done x' \<and> pt_res x' = pt_res x))"
    using e unfolding pevo_def by blast
  with n show "\<forall>t x. p_th p t = Some x \<longrightarrow> \<not> pt_detached x \<longrightarrow> t \<notin> {} \<longrightarrow>
        (\<exists>x'. p_th p' t = Some x' \<and> \<not> pt_detached x' \<and> (pt_done x \<longrightarrow> pt_done x' \<and> pt_res x' = pt_res x))"
    by (metis option.distinct(1))
qed (use e in \<open>unfold pevo_def, blast\<close>)+

lemma drop_new_pmid:
  assumes m: "pmid {t} D Q p" and h: "t \<notin> held p" and x: "p_th p t = Some x"
  shows "pmid {} D Q (free_pt t p)" and "pevo {t} p (free_pt t p)"
proof -
  note p = pmid_parts [OF m]
  have e: "pevo {t} p (p\<lparr>p_th := (p_th p)(t := None)\<rparr>)" by (rule pevo_del) simp
  have "pmid {t} D Q (p\<lparr>p_th := (p_th p)(t := None)\<rparr>)"
    by (rule pmid_tasks [OF m e]) (use p ptsk_del pview_transit [of t "{t}"] in auto)
  then have "pmid {} D Q (p\<lparr>p_th := (p_th p)(t := None)\<rparr>)"
    by (rule leave_pmid) (use pevo_sets(1) [OF e] h in auto)
  then show "pmid {} D Q (free_pt t p)" by (simp add: free_pt_fields [OF x])
  show "pevo {t} p (free_pt t p)" using e by (simp add: free_pt_fields [OF x])
qed

text \<open>What \<^verbatim>\<open>task_new\<close> returns: nothing, or the task at the old break.\<close>

lemma born_simps [simp]:
  "upd_pt (m_brk p) f (born p tr x) = born p tr (f x)" "(born p tr x)\<lparr>m_trace := tr'\<rparr> = born p tr' x"
  "m_trace (born p tr x) = tr" "p_th (born p tr x) = (p_th p)(m_brk p \<mapsto> x)" "p_sh (born p tr x) = p_sh p"
  "m_brk (born p tr x) = Suc (m_brk p)" "p_shutdown (born p tr x) = p_shutdown p" "p_wnext (born p tr x) = (p_wnext p)(m_brk p := None)"
  by (simp_all add: born_def upd_pt_def)

lemma task_new_cases:
  obtains tr where "pool_task_new os p k = (None, p\<lparr>m_trace := tr\<rparr>)"
  | tr where "pool_task_new os p k = (Some (m_brk p), born p tr (pool_task0 k))"
  by (cases "a_ret (os (m_trace p) C_alloc) = 0") (auto simp: pool_task_new_def sys_alloc_def sys_call_def Let_def born_def)

lemma unborn:
  assumes "pmid T D Q p"
  shows "p_th p (m_brk p) = None" "p_sh p (m_brk p) = None"
proof -
  note p = pmid_parts [OF assms]
  show "p_th p (m_brk p) = None" using ptskD [OF p(3)] by (cases "p_th p (m_brk p)") (auto simp: ptask_def)
  show "p_sh p (m_brk p) = None" using p(5) by (cases "p_sh p (m_brk p)") auto
qed

definition args_ok :: "pool \<Rightarrow> op_kind \<Rightarrow> (pool_task \<Rightarrow> pool_task) \<Rightarrow> bool" where
  "args_ok p k args \<longleftrightarrow> (let x = args (pool_task0 k) in
     fresh_task x \<and> pt_kind x = k \<and> k \<noteq> OP_SOCK_CLOSE \<and> (\<forall>s. pt_sock x = Some s \<longrightarrow> s < m_brk p \<and> (\<exists>y. p_sh p s = Some y \<and> \<not> ps_closing y)) \<and>
     (op_on_sock k \<longrightarrow> pt_sock x \<noteq> None))"

lemma new_submit_pmid:
  assumes m: "pmid {} {} Q p" and a: "args_ok p k args"
  shows "\<exists>Q'. pmid {} {} Q' (pool_submit os (born p tr (args (pool_task0 k))) (m_brk p)) \<and>
    pevo {} p (pool_submit os (born p tr (args (pool_task0 k))) (m_brk p)) \<and>
    pquiet p (pool_submit os (born p tr (args (pool_task0 k))) (m_brk p))"
proof -
  let ?x = "args (pool_task0 k)"
  have x: "fresh_task ?x" "\<And>s. pt_sock ?x = Some s \<Longrightarrow> s < m_brk p" using a by (auto simp: args_ok_def Let_def)
  note nt = new_task_pmid [OF m x refl refl, of tr]
  let ?p = "pool_submit os (born p tr ?x) (m_brk p)"
  have "\<exists>Q'. pmid {} {} Q' ?p \<and> pevo {} (born p tr ?x) ?p \<and> (\<forall>a. pt_sock ?x \<noteq> Some a \<longrightarrow> p_sh ?p a = p_sh (born p tr ?x) a)"
    by (rule submit_pmid [OF nt(1,3), of ?x]) (use a in \<open>auto simp: args_ok_def Let_def\<close>)
  then obtain Q' where r: "pmid {} {} Q' ?p" "pevo {} (born p tr ?x) ?p" "\<And>a. pt_sock ?x \<noteq> Some a \<Longrightarrow> p_sh ?p a = p_sh p a" by auto
  have "p_sh ?p s = Some y" if "p_sh p s = Some y" "ps_closing y" for s y
  proof -
    have "pt_sock ?x \<noteq> Some s" using a that by (auto simp: args_ok_def Let_def)
    with r(3) that show ?thesis by simp
  qed
  then have "pquiet p ?p" by (simp add: pquiet_def)
  with r pevo_trans [OF nt(2) r(2)] show ?thesis by blast
qed

lemma pool_op_pmid:
  assumes m: "pmid {} {} Q p" and a: "args_ok p k args"
  shows "\<exists>Q'. pmid {} {} Q' (snd (pool_op os p k args)) \<and> pevo {} p (snd (pool_op os p k args)) \<and> pquiet p (snd (pool_op os p k args))"
proof (rule task_new_cases [of os p k])
  fix tr
  assume "pool_task_new os p k = (None, p\<lparr>m_trace := tr\<rparr>)"
  with m pevo_trace show ?thesis by (auto simp: pquiet_def pool_op_def)
next
  fix tr
  assume "pool_task_new os p k = (Some (m_brk p), born p tr (pool_task0 k))"
  with new_submit_pmid [OF m a, of os tr] show ?thesis by (simp add: pool_op_def)
qed

lemma pool_op_str_pmid:
  assumes m: "pmid {} {} Q p" and a: "args_ok p k (\<lambda>x. args (x\<lparr>pt_path := Some str\<rparr>))"
  shows "\<exists>Q'. pmid {} {} Q' (snd (pool_op_str os p k str args)) \<and> pevo {} p (snd (pool_op_str os p k str args)) \<and> pquiet p (snd (pool_op_str os p k str args))"
proof (rule task_new_cases [of os p k])
  fix tr
  assume "pool_task_new os p k = (None, p\<lparr>m_trace := tr\<rparr>)"
  with m pevo_trace show ?thesis by (auto simp: pquiet_def pool_op_str_def)
next
  fix tr
  let ?c = "os tr (C_strdup str)"
  let ?tr = "(C_strdup str, ?c) # tr" and ?t = "m_brk p"
  assume n: "pool_task_new os p k = (Some (m_brk p), born p tr (pool_task0 k))"
  show ?thesis
  proof (cases "a_ret ?c = 0")
    case False
    with n new_submit_pmid [OF m a, of os ?tr] show ?thesis by (simp add: pool_op_str_def sys_call_def Let_def)
  next
    case True
    with n have e: "snd (pool_op_str os p k str args) = free_pt ?t (born p ?tr (pool_task0 k))"
      by (simp add: pool_op_str_def sys_call_def Let_def)
    have fx: "fresh_task (pool_task0 k)" "\<And>s. pt_sock (pool_task0 k) = Some s \<Longrightarrow> s < m_brk p"
      by (simp_all add: fresh_task_def pool_task0_def)
    note nt = new_task_pmid [OF m fx refl refl, of ?tr]
    have x: "p_th (born p ?tr (pool_task0 k)) ?t = Some (pool_task0 k)" by simp
    note dn = drop_new_pmid [OF nt(1,3) x]
    have "pevo {?t} p (free_pt ?t (born p ?tr (pool_task0 k)))" by (rule pevo_trans [OF pevo_mono [OF nt(2)] dn(2)]) simp_all
    then have "pevo {} p (free_pt ?t (born p ?tr (pool_task0 k)))" by (rule pevo_fresh) (simp add: unborn [OF m])
    moreover have "pquiet p (free_pt ?t (born p ?tr (pool_task0 k)))" by (simp add: pquiet_def free_pt_fields [OF x])
    ultimately show ?thesis using dn(1) e by auto
  qed
qed

lemma sock_op_pmid:
  assumes m: "pmid {} {} Q p" and y: "p_sh p s = Some y" "\<not> ps_closing y" and k: "op_on_sock k"
    and a: "\<And>x. fresh_task (args x) = fresh_task x" "\<And>x. pt_kind (args x) = pt_kind x" "\<And>x. pt_sock (args x) = pt_sock x"
  shows "\<exists>Q'. pmid {} {} Q' (snd (pool_sock_op os p k s args)) \<and> pevo {} p (snd (pool_sock_op os p k s args)) \<and> pquiet p (snd (pool_sock_op os p k s args))"
proof -
  have "fresh_task ((pool_task0 k)\<lparr>pt_sock := Some s, pt_fd := ps_fd y\<rparr>)" "pt_kind (pool_task0 k) = k"
    by (simp_all add: fresh_task_def pool_task0_def)
  then have "args_ok p k (\<lambda>x. args (x\<lparr>pt_sock := Some s, pt_fd := ps_fd y\<rparr>))"
    using y k pmid_parts(5) [OF m, of s] by (auto simp: args_ok_def Let_def a)
  from pool_op_pmid [OF m this, of os] y(1) show ?thesis by (simp add: pool_sock_op_def live_access)
qed


subsection \<open>Closing a socket\<close>

text \<open>A parked write is with no worker.\<close>

lemma parked_free:
  assumes m: "pmid T D Q p" and y: "p_sh p s = Some y" and q: "wq_list (p_wnext p) (ps_wq y) xs" and n: "n \<in> set xs"
    and h: "wq_head (ps_wq y) \<noteq> Some n \<or> s \<in> D"
  obtains x where "p_th p n = Some x" "\<not> pt_done x" "pt_kind x = OP_SOCK_WRITE" "pt_sock x = Some s" "n \<notin> T" "n \<notin> held p" "n \<notin> set Q"
proof -
  note p = pmid_parts [OF m]
  have v: "pview T (p_th p) n = Some (OP_SOCK_WRITE, Some s)" using fifo_tasks(1) [OF m y q] n by (auto simp: writes_on_def)
  then have "n \<in> set Q \<union> (held p - T) \<longleftrightarrow> (\<exists>s' y. Some s = Some s' \<and> p_sh p s' = Some y \<and> s' \<notin> D \<and> wq_head (ps_wq y) = Some n)"
    using locs_parts(2) [OF p(4)] unfolding disp_inv_def by blast
  with y h have "n \<notin> set Q \<union> (held p - T)" by auto
  with v that show thesis by (auto simp: pview_Some)
qed

lemma close_parked_pmid:
  assumes "pmid T {} Q p" and "p_sh p s = Some y" and "wq_list (p_wnext p) (ps_wq y) xs" and "length xs \<le> Suc fuel"
  shows "\<exists>Q' z. pmid T {} Q' (close_parked os fuel p s) \<and> pevo {} p (close_parked os fuel p s) \<and>
    p_sh (close_parked os fuel p s) s = Some z \<and> ps_closing z = ps_closing y \<and>
    wq_list (p_wnext (close_parked os fuel p s)) (ps_wq z) (take 1 xs) \<and>
    (\<forall>u x. p_th (close_parked os fuel p s) u = Some x \<longrightarrow> \<not> pt_done x \<longrightarrow> p_th p u = Some x) \<and>
    (\<forall>u \<in> T. p_th (close_parked os fuel p s) u = p_th p u)"
  using assms
proof (induction fuel arbitrary: p Q y xs)
  case 0
  have e: "close_parked os 0 p s = p" using 0 wq_list_head [OF 0(3)] wq_list_next [of "p_wnext p" "ps_wq y" "hd xs" "tl xs"]
    by (cases xs) (auto simp: close_parked.simps live_access)
  show ?case unfolding e using 0 pevo_refl by (auto simp: le_Suc_eq)
next
  case (Suc fuel)
  note m = Suc.prems(1) and y = Suc.prems(2) and q = Suc.prems(3)
  show ?case
  proof (cases "length xs \<le> 1")
    case True
    have e: "close_parked os (Suc fuel) p s = p" using True y wq_list_head [OF q] wq_list_next [of "p_wnext p" "ps_wq y" "hd xs" "tl xs"] q
      by (cases xs) (auto simp: close_parked.simps live_access)
    show ?thesis unfolding e using m y q pevo_refl True by auto
  next
    case False
    then obtain h n r where xs: "xs = h # n # r" by (cases xs; cases "tl xs") auto
    have hd: "wq_head (ps_wq y) = Some h" "p_wnext p h = Some n" "h \<noteq> n"
      using wq_list_head [OF q] wq_list_next [OF q [unfolded xs]] wq_list_distinct [OF q] xs by auto
    obtain x where x: "p_th p n = Some x" "\<not> pt_done x" "pt_kind x = OP_SOCK_WRITE" "pt_sock x = Some s" and n: "n \<notin> T" "n \<notin> held p"
      by (rule parked_free [OF m y q, of n]) (use xs hd in auto)
    have nh: "wq_head (ps_wq y) \<noteq> Some n \<or> p_shutdown p" using hd by simp
    let ?p = "complete_unrun os p n"
    note u = unrun_write [where os = os, OF m n x y q nh]
    have e: "close_parked os (Suc fuel) p s = close_parked os fuel ?p s"
      using y hd by (subst close_parked.simps) (simp add: live_access)
    have m1: "pmid T {} (remove1 n Q) ?p" using u(1) hd by simp
    obtain z where z: "p_sh ?p s = Some z" "wq_list (p_wnext ?p) (ps_wq z) (h # r)" "ps_closing z = ps_closing y"
      using u(5) xs hd(3) by auto
    have ln: "length (h # r) \<le> Suc fuel" using Suc.prems(4) xs by simp
    let ?c = "close_parked os fuel ?p s"
    from Suc.IH [OF m1 z(1,2) ln] obtain Q' z' where IH: "pmid T {} Q' ?c" "pevo {} ?p ?c" "p_sh ?c s = Some z'" "ps_closing z' = ps_closing z"
      "wq_list (p_wnext ?c) (ps_wq z') (take 1 (h # r))"
      "\<forall>u x. p_th ?c u = Some x \<longrightarrow> \<not> pt_done x \<longrightarrow> p_th ?p u = Some x" "\<forall>u \<in> T. p_th ?c u = p_th ?p u" by blast
    have old: "p_th p v = Some x'" if "p_th ?p v = Some x'" "\<not> pt_done x'" for v x' using u(3) that by (auto split: if_splits)
    have keep: "p_th ?p v = p_th p v" if "v \<in> T" for v using u(3) n that by auto
    show ?thesis unfolding e
    proof (intro exI conjI)
      show "pmid T {} Q' ?c" "p_sh ?c s = Some z'" by fact+
      show "pevo {} p ?c" by (rule pevo_trans [OF u(2) IH(2)])
      show "ps_closing z' = ps_closing y" using IH(4) z(3) by simp
      show "wq_list (p_wnext ?c) (ps_wq z') (take 1 xs)" using IH(5) xs by simp
      show "\<forall>u x. p_th ?c u = Some x \<longrightarrow> \<not> pt_done x \<longrightarrow> p_th p u = Some x" using IH(6) old by blast
      show "\<forall>u \<in> T. p_th ?c u = p_th p u" using IH(7) keep by simp
    qed
  qed
qed


lemma broadcast_awake: "p_w (done_broadcast p) w \<noteq> W_drain_wait t"
  by (cases "p_w p w") (auto simp: done_broadcast_def)

lemma upd_pt_workers [simp]: "p_w (upd_pt t f p) = p_w p" "p_nw (upd_pt t f p) = p_nw p"
  by (auto simp: upd_pt_def m_flag_def split: option.splits)

lemma closing_pmid:
  assumes m: "pmid T D Q p" and y: "p_sh p s = Some y" "\<not> ps_closing y"
  shows "pmid T D Q (p\<lparr>p_sh := (p_sh p)(s \<mapsto> y\<lparr>ps_closing := True\<rparr>)\<rparr>)"
    and "pevo {} p (p\<lparr>p_sh := (p_sh p)(s \<mapsto> y\<lparr>ps_closing := True\<rparr>)\<rparr>)"
proof -
  note p = pmid_parts [OF m]
  let ?p = "p\<lparr>p_sh := (p_sh p)(s \<mapsto> y\<lparr>ps_closing := True\<rparr>)\<rparr>"
  have d: "dom (p_sh ?p) = dom (p_sh p)" using y by auto
  show e: "pevo {} p ?p" using y by (auto simp: pevo_def)
  show "pmid T D Q ?p"
  proof (rule pmid_stepI [OF m e])
    show "pthr ?p" by (rule pthr_cong [OF p(9)]) simp_all
    show "locs (pview T (p_th ?p)) (p_sh ?p) (p_wnext ?p) Q (held p - T) (freed p) D"
      using locs_closing [OF p(4) y(1)] by simp
    show "dlh.members (p_socks ?p) (dom (p_sh ?p) - unlinked p)" using p(7) d by simp
    show "\<And>s. s \<in> dom (p_sh ?p) \<Longrightarrow> s < m_brk ?p" using p(5) y(1) by auto
  qed (use p in \<open>auto simp: qlist_def pq_def\<close>)
qed

lemma sock_close_pmid:
  assumes m: "pmid {} {} Q p" and y: "p_sh p s = Some y" "\<not> ps_closing y"
  shows "\<exists>Q'. pmid {} {} Q' (snd (pool_sock_close os p s)) \<and> pevo {} p (snd (pool_sock_close os p s)) \<and>
    pquiet p (snd (pool_sock_close os p s))"
proof (rule task_new_cases [of os p OP_SOCK_CLOSE])
  fix tr
  assume "pool_task_new os p OP_SOCK_CLOSE = (None, p\<lparr>m_trace := tr\<rparr>)"
  with m pevo_trace show ?thesis by (auto simp: pquiet_def pool_sock_close_def)
next
  fix tr
  note p = pmid_parts [OF m]
  let ?t = "m_brk p"
  let ?x = "(pool_task0 OP_SOCK_CLOSE)\<lparr>pt_sock := Some s\<rparr>"
  assume n: "pool_task_new os p OP_SOCK_CLOSE = (Some (m_brk p), born p tr (pool_task0 OP_SOCK_CLOSE))"
  have fx: "fresh_task ?x" "\<And>a. pt_sock ?x = Some a \<Longrightarrow> a < m_brk p"
    using p(5) y by (auto simp: fresh_task_def pool_task0_def)
  have xk: "pt_kind ?x = OP_SOCK_CLOSE" "pt_sock ?x = Some s" "\<not> pt_done ?x" "\<not> pt_detached ?x" by (simp_all add: pool_task0_def)
  let ?p1 = "born p tr ?x"
  note nt = new_task_pmid [OF m fx refl refl, of tr]
  have y1: "p_sh ?p1 s = Some y" and x1: "p_th ?p1 ?t = Some ?x" using y by simp_all
  show ?thesis
  proof (cases "ps_inflight y = 0")
    case True
    let ?q = "pool_sock_drop os ?p1 s"
    note sd = sock_drop_pmid [OF nt(1) y1 y(2) True, of os]
    have e: "snd (pool_sock_close os p s) = upd_pt ?t (\<lambda>x. x\<lparr>pt_res := r_ok 0 None, pt_done := True\<rparr>) ?q"
      using n True y by (simp add: pool_sock_close_def upd_ps_def sock_drop_fields [OF y1] pool_sock_unlink_def psk_def
          free_ps_def chk_ps_def sys_call_def Let_def) (simp add: born_def upd_pt_def)
    have xq: "p_th ?q ?t = Some ?x" by (simp add: sock_drop_fields [OF y1])
    have hq: "?t \<notin> held ?q" using pevo_sets(1) [OF sd(2)] nt(3) by simp
    have rr: "res_status (r_ok 0 None) \<noteq> MYIO_PENDING" "res_ptr (r_ok 0 None) = None" by simp_all
    note st = settle_done [OF sd(1) hq xq xk(3,4) rr]
    have "pquiet p (upd_pt ?t (\<lambda>x. x\<lparr>pt_res := r_ok 0 None, pt_done := True\<rparr>) ?q)"
      using y by (auto simp: pquiet_def sock_drop_fields [OF y1])
    with st show ?thesis unfolding e using pevo_trans [OF pevo_trans [OF nt(2) sd(2)]] by blast
  next
    case False
    let ?y = "y\<lparr>ps_closing := True\<rparr>"
    define p2 where "p2 = ?p1\<lparr>p_sh := (p_sh p)(s \<mapsto> ?y)\<rparr>"
    have m2: "pmid {?t} {} Q p2" and e2: "pevo {} ?p1 p2" using closing_pmid [OF nt(1) y1 y(2)] by (simp_all add: p2_def)
    have y2: "p_sh p2 s = Some ?y" by (simp add: p2_def)
    obtain xs where q2: "wq_list (p_wnext p2) (ps_wq ?y) xs"
      using fifo_list [OF locs_parts(4) [OF pmid_parts(4) [OF m2]] y2] by blast
    have ln: "length xs \<le> Suc (m_brk p2)" using fifo_tasks(2) [OF m2 y2 q2] by simp
    define p3 where "p3 = close_parked os (m_brk p2) p2 s"
    from close_parked_pmid [OF m2 y2 q2 ln, of os] obtain Q3 z where m3: "pmid {?t} {} Q3 p3" and e3: "pevo {} p2 p3"
      and z: "p_sh p3 s = Some z" "ps_closing z" and old: "\<And>u x. p_th p3 u = Some x \<Longrightarrow> \<not> pt_done x \<Longrightarrow> p_th p2 u = Some x"
      and keep: "p_th p3 ?t = p_th p2 ?t" unfolding p3_def by auto
    let ?tr = "(C_shutdown (ps_fd z), os (m_trace p3) (C_shutdown (ps_fd z))) # m_trace p3"
    define p4 where "p4 = done_broadcast (p3\<lparr>m_trace := ?tr\<rparr>)"
    have m4: "pmid {?t} {} Q3 p4" unfolding p4_def by (rule broadcast_pmid) (use m3 in simp)
    have e4: "pevo {} p p4" unfolding p4_def
      using pevo_trans [OF pevo_trans [OF pevo_trans [OF pevo_trans [OF nt(2) e2] e3] pevo_trace] broadcast_evo] .
    have f4: "p_th p4 = p_th p3" "p_sh p4 = p_sh p3" by (simp_all add: p4_def done_broadcast_def)
    have x4: "p_th p4 ?t = Some ?x" using f4 keep by (simp add: p2_def)
    obtain ok p5 where d: "dispatch_locked os p4 ?t = (ok, p5)" by fastforce
    have e: "snd (pool_sock_close os p s) = (if ok then p5 else upd_pt ?t (\<lambda>x. x\<lparr>pt_res := r_err EAGAIN, pt_done := True\<rparr>) p5)"
    proof -
      have u1: "upd_ps s (\<lambda>y. y\<lparr>ps_closing := True\<rparr>) (born p tr ?x) = p2" using y1 by (simp add: upd_ps_def p2_def)
      have u2: "psk p2 s = ?y" "psk p3 s = z" using y2 z by (simp_all add: live_access)
      show ?thesis using n False d by (simp add: pool_sock_close_def Let_def u1 u2 sys_call_def p3_def [symmetric] p4_def [symmetric])
    qed
    note p' = pmid_parts [OF m4]
    have h4: "?t \<notin> held p4" using pevo_sets(1) [OF e4] p(6) by auto
    have vt: "pview {?t} (p_th p4) ?t = None" by (simp add: pview_transit_None)
    have tQ: "?t \<notin> set Q3" using place_add(3) [OF locs_parts(1) [OF p'(4)] vt] .
    note ds = dispatch_spec [OF p'(2) tQ p'(9) d]
    have f: "p_th p5 = p_th p4" "p_sh p5 = p_sh p4" "p_wnext p5 = p_wnext p4" "p_socks p5 = p_socks p4" "m_brk p5 = m_brk p4" "m_fault p5 = m_fault p4"
      using ds(2) by (simp_all add: psame_def)
    note e5 = psame_evo [OF ds(2), of "{}"]
    have "\<forall>w < p_nw p5. \<forall>t. p_w p5 w \<noteq> W_drain_wait t"
    proof (intro allI impI)
      fix w u
      assume w: "w < p_nw p5"
      have "wsame p4 p5" using ds(2) by (simp add: psame_def)
      moreover have "p_w p4 w \<noteq> W_drain_wait u" unfolding p4_def by (rule broadcast_awake)
      ultimately show "p_w p5 w \<noteq> W_drain_wait u" using w unfolding wsame_def by (metis w_busy_def w_task.simps(8) option.distinct(1))
    qed
    then have quiet: "pquiet p p5" "pquiet p (upd_pt ?t f p5)" for f by (auto simp: pquiet_def)
    show ?thesis
    proof (cases ok)
      case True
      have none: "u \<in> freed p4" if "pview {?t} (p_th p4) u = Some (OP_SOCK_CLOSE, Some s)" for u
      proof (rule ccontr)
        assume "u \<notin> freed p4"
        then have nf: "u \<notin> freed p" using pevo_sets(2) [OF e4] by simp
        from that obtain x' where u: "u \<noteq> ?t" "p_th p4 u = Some x'" "\<not> pt_done x'" "pt_kind x' = OP_SOCK_CLOSE" "pt_sock x' = Some s"
          by (auto simp: pview_Some)
        with old [of u x'] f4 have "p_th p u = Some x'" by (simp add: p2_def)
        with u have "pview {} (p_th p) u = Some (OP_SOCK_CLOSE, Some s)" by (auto simp: pview_Some)
        with nf locs_parts(6) [OF p(4)] y show False unfolding close_inv_def by force
      qed
      have l: "locs ((pview {?t} (p_th p4))(?t \<mapsto> (pt_kind ?x, pt_sock ?x))) (p_sh p5) (p_wnext p5) (Q3 @ [?t]) (held p4) (freed p4) {}"
        unfolding f xk(1,2) using locs_enqueue_plain [OF p'(4) vt, of OP_SOCK_CLOSE "Some s"] h4 z f4 none by auto
      have "pmid {} {} (Q3 @ [?t]) p5"
        by (rule enter_pmid [OF m4 h4 x4 fx(1) e5 f(1,5,6,4)]) (use ds True f l in auto)
      with True e pevo_trans [OF e4 e5] quiet show ?thesis by auto
    next
      case False
      have m5: "pmid {?t} {} Q3 p5" by (rule pmid_stepI [OF m4 e5]) (use p' f ds False in auto)
      have x5: "p_th p5 ?t = Some ?x" using x4 f by simp
      have h5: "?t \<notin> held p5" using pevo_sets(1) [OF e5] h4 by simp
      from submit_failed [OF m5 h5 x5 xk(3,4)] pevo_trans [OF pevo_trans [OF e4 e5]] False e quiet show ?thesis by auto
    qed
  qed
qed


end
