(* ===== verification/Myio_Pool_Calls.thy ===== *)
theory Myio_Pool_Calls
  imports Myio_Pool_User
begin

text \<open>
  The invariant of the whole pool, \<open>pinv\<close>, and that every call of the user thread keeps it.
\<close>

subsection \<open>Cancel, free, detach\<close>

text \<open>A task the caller still has a handle on; pending, it is either not started or with a worker.\<close>

lemma handle_task:
  assumes m: "pmid {} {} Q p" and t: "t \<in> pool_handles p"
  obtains x where "p_th p t = Some x" "\<not> pt_detached x" "pt_done x \<or> (pt_started x \<longleftrightarrow> t \<in> held p)"
    "pt_done x \<Longrightarrow> t \<notin> held p"
proof -
  from t obtain x where x: "p_th p t = Some x" "\<not> pt_detached x" by (auto simp: pool_handles_def)
  from ptskD [OF pmid_parts(3) [OF m] x(1)] that [OF x] show thesis by (auto simp: ptask_def split: if_splits)
qed

lemma same_task_pmid:
  assumes m: "pmid T D Q p" and x: "p_th p t = Some x" and f: "pt_done (f x) = pt_done x" "pt_kind (f x) = pt_kind x" "pt_sock (f x) = pt_sock x"
    "pt_started (f x) = pt_started x" "pt_res (f x) = pt_res x" "pt_detached (f x) \<noteq> pt_detached x \<Longrightarrow> \<not> pt_done x"
  shows "pmid T D Q (upd_pt t f p)" and "pevo {t} p (upd_pt t f p)" and "pt_detached (f x) = pt_detached x \<Longrightarrow> pevo {} p (upd_pt t f p)"
proof -
  note p = pmid_parts [OF m] and u = upd_pt_fields [OF x, of f]
  show e: "pevo {t} p (upd_pt t f p)" unfolding u by (rule pevo_upd [OF x]) (use f in auto)
  show "pt_detached (f x) = pt_detached x \<Longrightarrow> pevo {} p (upd_pt t f p)" unfolding u by (rule pevo_upd [OF x]) (use f in auto)
  show "pmid T D Q (upd_pt t f p)" unfolding u
  proof (rule pmid_tasks [OF m e [unfolded u]])
    show "ptsk T (m_brk p) ((p_th p)(t \<mapsto> f x)) (held p)"
    proof (rule ptsk_upd [OF p(3)])
      show "ptask T (m_brk p) (held p) t (f x)" using ptskD [OF p(3) x] f by (auto simp: ptask_def)
      show "\<And>t' z s. p_th p t' = Some z \<Longrightarrow> t' \<noteq> t \<Longrightarrow> res_ptr (pt_res (f x)) = Some s \<Longrightarrow> res_ptr (pt_res z) \<noteq> Some s"
        using ptsk_own [OF p(3) x] f(5) by metis
    qed
    show "locs (pview T ((p_th p)(t \<mapsto> f x))) (p_sh p) (p_wnext p) Q (held p - T) (freed p) D"
      using p(4) pview_same [of "p_th p" t x "f x" T] x f by simp
  qed
qed

lemma interrupt_pmid:
  assumes m: "pmid T D Q p" and x: "p_th p t = Some x"
  shows "pmid T D Q (interrupt_task os p t)" "pevo {} p (interrupt_task os p t)" "p_sh (interrupt_task os p t) = p_sh p"
    "p_th (interrupt_task os p t) = (p_th p)(t \<mapsto> x\<lparr>pt_cancel_req := True\<rparr>)" "p_user (interrupt_task os p t) = p_user p"
    "held (interrupt_task os p t) = held p"
proof -
  have e: "\<exists>tr. interrupt_task os p t = (upd_pt t (\<lambda>x. x\<lparr>pt_cancel_req := True\<rparr>) p)\<lparr>m_trace := tr\<rparr>"
    by (auto simp: interrupt_task_def sys_call_def Let_def)
  then obtain tr where e: "interrupt_task os p t = (upd_pt t (\<lambda>x. x\<lparr>pt_cancel_req := True\<rparr>) p)\<lparr>m_trace := tr\<rparr>" ..
  note s = same_task_pmid [OF m x, of "\<lambda>x. x\<lparr>pt_cancel_req := True\<rparr>"]
  show "pmid T D Q (interrupt_task os p t)" unfolding e using s(1) by simp
  show v: "pevo {} p (interrupt_task os p t)" unfolding e by (rule pevo_trans [OF s(3) pevo_trace]) auto
  show "p_sh (interrupt_task os p t) = p_sh p" "p_th (interrupt_task os p t) = (p_th p)(t \<mapsto> x\<lparr>pt_cancel_req := True\<rparr>)"
    "p_user (interrupt_task os p t) = p_user p" using x by (simp_all add: e upd_pt_fields)
  show "held (interrupt_task os p t) = held p" by (rule pevo_sets(1) [OF v])
qed

lemma unrun_awake: "p_w (complete_unrun os p t) w \<noteq> W_drain_wait u"
  by (simp add: complete_unrun_def Let_def broadcast_awake)

lemma unrun_quiet: "pquiet p (complete_unrun os p' t)"
  by (simp add: pquiet_def unrun_awake)

lemma cancel_pmid:
  assumes m: "pmid {} {} Q p" and t: "t \<in> pool_handles p" and sd: "\<not> p_shutdown p"
  shows "\<exists>Q'. pmid {} {} Q' (snd (pool_cancel os p t)) \<and> pevo {} p (snd (pool_cancel os p t)) \<and> pquiet p (snd (pool_cancel os p t))"
proof -
  obtain x where x: "p_th p t = Some x" "\<not> pt_detached x" "pt_done x \<or> (pt_started x \<longleftrightarrow> t \<in> held p)" by (rule handle_task [OF m t])
  have "pquiet p (interrupt_task os p t)" using interrupt_pmid(3) [OF m x(1), of os] by (simp add: pquiet_def)
  moreover have "pquiet p p" by (simp add: pquiet_def)
  ultimately show ?thesis
    using x m pevo_refl interrupt_pmid(1,2) [OF m x(1), of os] unrun_pmid [OF m _ _ x(1) _ sd, of os] unrun_quiet
    by (simp add: pool_cancel_def live_access Let_def) blast
qed

lemma pmid_user [simp]: "pmid T D Q (p\<lparr>p_user := u\<rparr>) = pmid T D Q p"
  by (simp add: pmid_def pdata_def pthr_def ppc_def qlist_def pq_def held_def freed_def unlinked_def wcount_def)

lemma free_unrun_pmid:
  assumes m: "pmid {} {} Q p" and x: "p_th p t = Some x" "\<not> pt_detached x" "\<not> pt_done x" "t \<notin> held p" and sd: "\<not> p_shutdown p"
  shows "\<exists>Q'. pmid {} {} Q' (free_pt t (complete_unrun os p t)) \<and> pevo {t} p (free_pt t (complete_unrun os p t)) \<and>
    pquiet p (free_pt t (complete_unrun os p t))"
proof -
  let ?q = "complete_unrun os p t"
  from unrun_pmid [OF m _ x(4,1,3) sd, of os] x(2) obtain Q' where q: "pmid {} {} Q' ?q" "pevo {} p ?q"
    "p_th ?q t = Some (x\<lparr>pt_res := r_canceled, pt_done := True\<rparr>)" by auto
  have d: "pt_done (x\<lparr>pt_res := r_canceled, pt_done := True\<rparr>)" by simp
  note f = free_done_pmid [OF q(1,3) d]
  have "pquiet p (free_pt t ?q)" using unrun_awake by (simp add: pquiet_def free_pt_fields [OF q(3)])
  with f pevo_trans [OF pevo_mono [OF q(2)] f(2)] show ?thesis by auto
qed

lemma detach_pmid:
  assumes m: "pmid {} {} Q p" and t: "t \<in> pool_handles p" and d: "pool_droppable p t"
  shows "\<exists>Q'. pmid {} {} Q' (pool_task_detach os p t) \<and> pevo {t} p (pool_task_detach os p t) \<and> pquiet p (pool_task_detach os p t)"
proof -
  obtain x where x: "p_th p t = Some x" "\<not> pt_detached x" by (rule handle_task [OF m t])
  show ?thesis
  proof (cases "pt_done x")
    case True
    have s: "\<exists>y. p_sh p s = Some y \<and> \<not> ps_closing y \<and> ps_inflight y = 0" if "res_ptr (pt_res x) = Some s" for s
      using d that x(1) by (simp add: pool_droppable_def live_access)
    note r = reap_pmid [OF m x(1) True s, of os]
    have e: "pool_task_detach os p t = pool_reap os p t" using x(1) True by (simp add: pool_task_detach_def live_access)
    have "p_sh (pool_reap os p t) u = Some y" if y: "p_sh p u = Some y" "ps_closing y" for u y
    proof (cases "res_ptr (pt_res x)")
      case None
      with y r(8) show ?thesis by auto
    next
      case (Some a)
      from s [OF this] obtain z where z: "p_sh p a = Some z" "\<not> ps_closing z" by blast
      then have "u \<noteq> a" using y by auto
      have "pool_reap os p t = free_pt t (pool_sock_drop os p a)" using x(1) Some by (simp add: pool_reap_def live_access)
      moreover have "p_th (pool_sock_drop os p a) t = Some x" using x(1) by (simp add: sock_drop_fields [OF z(1)])
      ultimately show ?thesis using y z \<open>u \<noteq> a\<close> by (simp add: free_pt_fields sock_drop_fields)
    qed
    then have "pquiet p (pool_reap os p t)" by (simp add: pquiet_def)
    with e r(1,2) show ?thesis by auto
  next
    case False
    have e: "pool_task_detach os p t = upd_pt t (\<lambda>x. x\<lparr>pt_detached := True\<rparr>) p" using x(1) False by (simp add: pool_task_detach_def live_access)
    note s = same_task_pmid [OF m x(1), of "\<lambda>x. x\<lparr>pt_detached := True\<rparr>"]
    have "pquiet p (upd_pt t (\<lambda>x. x\<lparr>pt_detached := True\<rparr>) p)" by (simp add: pquiet_def)
    with e s(1,2) False show ?thesis by auto
  qed
qed

subsection \<open>The invariant\<close>

text \<open>
  After \<^verbatim>\<open>impl_destroy\<close> has raised the flag nothing is queued, no worker sleeps, and every
  pending task is with a worker.
\<close>

definition psd :: "addr list \<Rightarrow> pool \<Rightarrow> bool" where
  "psd Q p \<longleftrightarrow> (p_shutdown p \<longrightarrow> Q = [] \<and> (\<forall>w < p_nw p. \<not> w_parked (p_w p w)) \<and>
     (\<forall>t x. p_th p t = Some x \<longrightarrow> \<not> pt_done x \<longrightarrow> t \<in> held p))"

text \<open>A close worker asleep waits for a socket that still has operations in flight.\<close>

definition pdrain :: "pool \<Rightarrow> bool" where
  "pdrain p \<longleftrightarrow> (\<forall>w < p_nw p. \<forall>t. p_w p w = W_drain_wait t \<longrightarrow>
     (\<exists>x s y. p_th p t = Some x \<and> pt_sock x = Some s \<and> p_sh p s = Some y \<and> ps_inflight y > 0))"

text \<open>The user thread asleep has something to wait for.\<close>

fun user_inv :: "pool \<Rightarrow> upc \<Rightarrow> bool" where
  "user_inv p U_ready = (\<not> p_shutdown p)"
| "user_inv p (U_stepping b) = (\<not> p_shutdown p \<and> (b \<longrightarrow> p_completions p = p_comp_seen p \<and> 0 < p_nqueued p + p_nrunning p))"
| "user_inv p (U_freeing t b) = (\<not> p_shutdown p \<and>
     (\<exists>x. p_th p t = Some x \<and> \<not> pt_detached x \<and> (if pt_done x then \<not> b else t \<in> held p)))"
| "user_inv p (U_destroying b) = (p_shutdown p \<and> (b \<longrightarrow> 0 < p_nlive p))"
| "user_inv p U_gone = False"

definition pend :: "pool \<Rightarrow> bool" where
  "pend p \<longleftrightarrow> \<not> m_fault p \<and> p_sh p = Map.empty \<and> (\<forall>w < p_nw p. p_w p w = W_gone) \<and>
     (\<forall>t x. p_th p t = Some x \<longrightarrow> pt_done x)"

definition pinv :: "pool \<Rightarrow> bool" where
  "pinv p \<longleftrightarrow> (if p_user p = U_gone then pend p
     else \<exists>Q. pmid {} {} Q p \<and> psd Q p \<and> pdrain p \<and> user_inv p (p_user p))"

lemma held_task:
  assumes "pmid T D Q p" and "t \<in> held p" and "t \<notin> T"
  obtains x where "p_th p t = Some x" "\<not> pt_done x" "pview T (p_th p) t = Some (pt_kind x, pt_sock x)"
proof -
  have "t \<in> dom (pview T (p_th p))" using locs_parts(1) [OF pmid_parts(4) [OF assms(1)]] assms(2,3) by (auto simp: place_inv_def)
  then obtain k s where v: "pview T (p_th p) t = Some (k, s)" by fast
  then obtain x where "p_th p t = Some x" "\<not> pt_done x" "pt_kind x = k" "pt_sock x = s" by (auto simp: pview_Some)
  with v that show thesis by simp
qed

lemma worker_task:
  assumes m: "pmid T D Q p" and w: "w < p_nw p" "w_task (p_w p w) = Some t"
  shows "t \<in> held p" and "t \<in> freed p \<Longrightarrow> p_w p w = W_closed t"
    and "\<And>w'. w' < p_nw p \<Longrightarrow> w_task (p_w p w') = Some t \<Longrightarrow> w' = w" and "pc_ok (p_th p) (p_w p w)"
proof -
  note p = pmid_parts [OF m]
  show "t \<in> held p" using w by (auto simp: held_def)
  have u: "\<And>w'. w' < p_nw p \<Longrightarrow> w_task (p_w p w') = Some t \<Longrightarrow> w' = w" using p(9) w unfolding pthr_def by blast
  then show "\<And>w'. w' < p_nw p \<Longrightarrow> w_task (p_w p w') = Some t \<Longrightarrow> w' = w" .
  show "p_w p w = W_closed t" if "t \<in> freed p"
  proof -
    from that obtain w' where "w' < p_nw p" "p_w p w' = W_closed t" by (auto simp: freed_def)
    with u [of w'] show ?thesis by simp
  qed
  show "pc_ok (p_th p) (p_w p w)" using p(10) w by (simp add: ppc_def)
qed

lemma pdrain_keep:
  assumes m: "pmid {} {} Q p" and d: "pdrain p" and m': "pmid {} {} Q' p'" and e: "pevo S p p'" and q: "pquiet p p'"
  shows "pdrain p'"
  unfolding pdrain_def
proof (intro allI impI)
  fix w t
  assume w: "w < p_nw p'" "p_w p' w = W_drain_wait t"
  with q have keep: "\<And>s y. p_sh p s = Some y \<Longrightarrow> ps_closing y \<Longrightarrow> p_sh p' s = Some y" by (auto simp: pquiet_def)
  have "w_busy (p_w p' w)" using w by (simp add: w_busy_def)
  with e w have wp: "w < p_nw p" "W_drain_wait t = p_w p w \<or> W_drain_wait t = w_alert (p_w p w)" unfolding pevo_def by metis+
  then have pc: "p_w p w = W_drain_wait t" by (cases "p_w p w") auto
  then have wt: "w_task (p_w p w) = Some t" by simp
  note k = worker_task [OF m wp(1) wt]
  from d wp(1) pc obtain x s y where x: "p_th p t = Some x" "pt_sock x = Some s" "p_sh p s = Some y" "ps_inflight y > 0" unfolding pdrain_def by blast
  obtain x0 where x0: "p_th p t = Some x0" "pview {} (p_th p) t = Some (pt_kind x0, pt_sock x0)" by (rule held_task [OF m k(1)]) auto
  then have v: "pview {} (p_th p) t = Some (OP_SOCK_CLOSE, Some s)" using x k(4) pc by simp
  have "t \<notin> freed p" using k(2) pc by auto
  with v x(3) locs_parts(6) [OF pmid_parts(4) [OF m]] have "ps_closing y" unfolding close_inv_def by force
  with keep x(3) have y': "p_sh p' s = Some y" by blast
  have "t \<in> held p'" using pevo_sets(1) [OF e] k(1) by simp
  then obtain x' where x': "p_th p' t = Some x'" by (rule held_task [OF m']) auto
  have "t < m_brk p" using pmid_parts(6) [OF m] k(1) by auto
  with e x' x have "pt_sock x' = Some s" unfolding pevo_def by fastforce
  with x' y' x(4) show "\<exists>x s y. p_th p' t = Some x \<and> pt_sock x = Some s \<and> p_sh p' s = Some y \<and> ps_inflight y > 0" by blast
qed

lemma call_pinv:
  assumes i: "pinv p" and r: "p_user p = U_ready" and c: "\<exists>Q'. pmid {} {} Q' p' \<and> pevo S p p' \<and> pquiet p p'"
  shows "pinv p'"
proof -
  from i r obtain Q where m: "pmid {} {} Q p" and d: "pdrain p" and sd: "\<not> p_shutdown p" by (auto simp: pinv_def)
  from c obtain Q' where c: "pmid {} {} Q' p'" "pevo S p p'" "pquiet p p'" by blast
  have f: "p_user p' = U_ready" "\<not> p_shutdown p'" using c(2) r sd unfolding pevo_def by force+
  with c(1) pdrain_keep [OF m d c] show ?thesis by (auto simp: pinv_def psd_def)
qed


lemma user_frame [simp]:
  "held (p\<lparr>p_user := u\<rparr>) = held p" "pdrain (p\<lparr>p_user := u\<rparr>) = pdrain p" "psd Q (p\<lparr>p_user := u\<rparr>) = psd Q p"
  "user_inv (p\<lparr>p_user := u\<rparr>) v = user_inv p v"
  "held (p\<lparr>p_comp_seen := c\<rparr>) = held p" "pdrain (p\<lparr>p_comp_seen := c\<rparr>) = pdrain p" "psd Q (p\<lparr>p_comp_seen := c\<rparr>) = psd Q p"
  "pmid T D Q (p\<lparr>p_comp_seen := c\<rparr>) = pmid T D Q p"
  by (simp_all add: held_def pdrain_def psd_def pmid_def pdata_def pthr_def ppc_def qlist_def pq_def freed_def unlinked_def wcount_def)
    (cases v; simp add: held_def)

lemma sock_link_cases:
  obtains tr where "pool_sock_link os p fd = (None, p\<lparr>m_trace := tr\<rparr>)"
  | tr where "pool_sock_link os p fd = (Some (m_brk p), p\<lparr>m_trace := tr, m_brk := Suc (m_brk p),
      p_sh := (p_sh p)(m_brk p \<mapsto> pool_sock0 fd), p_socks := dl_link (dl_zero (p_socks p) (m_brk p)) (m_brk p)\<rparr>)"
  by (cases "a_ret (os (m_trace p) C_alloc) = 0") (auto simp: pool_sock_link_def sys_alloc_def sys_call_def Let_def)

lemma sock_link_pmid:
  assumes m: "pmid T D Q p"
  shows "pmid T D Q (snd (pool_sock_link os p fd))" "pevo {} p (snd (pool_sock_link os p fd))"
    and "\<And>s y. p_sh p s = Some y \<Longrightarrow> p_sh (snd (pool_sock_link os p fd)) s = Some y"
    and "p_th (snd (pool_sock_link os p fd)) = p_th p" and "p_w (snd (pool_sock_link os p fd)) = p_w p"
    and "\<And>s. fst (pool_sock_link os p fd) = Some s \<Longrightarrow> s = m_brk p \<and> p_sh (snd (pool_sock_link os p fd)) s = Some (pool_sock0 fd) \<and>
      m_brk (snd (pool_sock_link os p fd)) = Suc (m_brk p)"
proof -
  note p = pmid_parts [OF m]
  let ?s = "m_brk p"
  let ?r = "snd (pool_sock_link os p fd)"
  have "pmid T D Q ?r \<and> pevo {} p ?r \<and> (\<forall>s y. p_sh p s = Some y \<longrightarrow> p_sh ?r s = Some y) \<and> p_th ?r = p_th p \<and> p_w ?r = p_w p \<and>
    (\<forall>s. fst (pool_sock_link os p fd) = Some s \<longrightarrow> s = ?s \<and> p_sh ?r s = Some (pool_sock0 fd) \<and> m_brk ?r = Suc ?s)"
  proof (rule sock_link_cases [of os p fd])
    fix tr
    assume "pool_sock_link os p fd = (None, p\<lparr>m_trace := tr\<rparr>)"
    with m pevo_trace show ?thesis by simp
  next
    fix tr
    let ?p = "p\<lparr>m_trace := tr, m_brk := Suc ?s, p_sh := (p_sh p)(?s \<mapsto> pool_sock0 fd), p_socks := dl_link (dl_zero (p_socks p) ?s) ?s\<rparr>"
    assume e: "pool_sock_link os p fd = (Some ?s, ?p)"
    have un: "p_sh p ?s = None" by (rule unborn(2) [OF m])
    have ev: "pevo {} p ?p" using un by (auto simp: pevo_def)
    have nu: "?s \<notin> unlinked p" using p(8) un by force
    have "pmid T D Q ?p"
    proof (rule pmid_stepI [OF m ev])
      show "ptsk T (m_brk ?p) (p_th ?p) (held p)" by simp (rule ptsk_mono [OF p(3)], auto)
      have "pview T (p_th p) t \<noteq> Some (k, Some ?s)" for t k
        using ptskD [OF p(3)] by (auto simp: pview_Some ptask_def)
      then show "locs (pview T (p_th ?p)) (p_sh ?p) (p_wnext ?p) Q (held p - T) (freed p) D"
        using locs_new_sock [OF p(4) un] by simp
      have "dom (p_sh ?p) - unlinked p = insert ?s (dom (p_sh p) - unlinked p)" using nu by auto
      then show "dlh.members (p_socks ?p) (dom (p_sh ?p) - unlinked p)"
        using dlh.members_link [OF p(7), of ?s] un by auto
      show "pthr ?p" by (rule pthr_cong [OF p(9)]) simp_all
    qed (use p in \<open>auto simp: qlist_def pq_def intro: less_SucI\<close>)
    with e ev un show ?thesis by auto
  qed
  then show "pmid T D Q ?r" "pevo {} p ?r" "\<And>s y. p_sh p s = Some y \<Longrightarrow> p_sh ?r s = Some y" "p_th ?r = p_th p" "p_w ?r = p_w p"
    "\<And>s. fst (pool_sock_link os p fd) = Some s \<Longrightarrow> s = ?s \<and> p_sh ?r s = Some (pool_sock0 fd) \<and> m_brk ?r = Suc ?s" by blast+
qed

lemma listen_pmid:
  assumes g: "gai_ok os" and m: "pmid {} {} Q p"
  shows "\<exists>Q'. pmid {} {} Q' (snd (snd (pool_tcp_listen os p h r b))) \<and> pevo {} p (snd (snd (pool_tcp_listen os p h r b))) \<and>
    pquiet p (snd (snd (pool_tcp_listen os p h r b)))"
proof -
  obtain fd err p1 where l: "myio_posix_listen os h r b p = ((fd, err), p1)" by (metis surj_pair)
  from posix_listen_state [OF g l] obtain tr where p1: "p1 = p\<lparr>m_trace := tr\<rparr>" by blast
  have m1: "pmid {} {} Q p1" using m by (simp add: p1)
  note k = sock_link_pmid [where os = os and fd = fd, OF m1]
  have e1: "pevo {} p p1" unfolding p1 by (rule pevo_trace)
  have "\<exists>tr. snd (snd (pool_tcp_listen os p h r b)) = p1\<lparr>m_trace := tr\<rparr> \<or>
      snd (snd (pool_tcp_listen os p h r b)) = (snd (pool_sock_link os p1 fd))\<lparr>m_trace := tr\<rparr> \<or>
      snd (snd (pool_tcp_listen os p h r b)) = snd (pool_sock_link os p1 fd)"
    using l p1 by (auto simp: pool_tcp_listen_def case_prod_beta sys_call_def Let_def split: option.splits)
  then obtain q tr where q: "q = p1 \<or> q = snd (pool_sock_link os p1 fd)"
    "snd (snd (pool_tcp_listen os p h r b)) = q\<lparr>m_trace := tr\<rparr> \<or> snd (snd (pool_tcp_listen os p h r b)) = q" by blast
  have a: "pmid {} {} Q q" "pevo {} p q" using q(1) m1 e1 k(1) pevo_trans [OF e1 k(2)] by auto
  have c: "\<forall>s y. p_sh p s = Some y \<longrightarrow> p_sh q s = Some y" using q(1) k(3) by (auto simp: p1)
  from q(2) show ?thesis using a c pevo_trans [OF a(2) pevo_trace] by (auto simp: pquiet_def)
qed


lemma pinv_ready:
  assumes "pinv p" and "p_user p = U_ready"
  obtains Q where "pmid {} {} Q p" "psd Q p" "pdrain p" "\<not> p_shutdown p"
  using assms by (auto simp: pinv_def)

lemma fresh_args: "args_ok p k args" if "pt_kind (args (pool_task0 k)) = k" "fresh_task (args (pool_task0 k))" "pt_sock (args (pool_task0 k)) = None"
    "\<not> op_on_sock k" "k \<noteq> OP_SOCK_CLOSE"
  using that by (simp add: args_ok_def)

lemma step_pinv:
  assumes "pmid {} {} Q p" "psd Q p" "pdrain p" "\<not> p_shutdown p"
  shows "pinv (snd (pool_step p))"
  using assms by (auto simp: pool_step_def pinv_def)

lemma free_wait_pinv:
  assumes m: "pmid {} {} Q p" "psd Q p" "pdrain p" "\<not> p_shutdown p"
    and x: "p_th p t = Some x" "\<not> pt_detached x" "\<not> pt_done x \<Longrightarrow> t \<in> held p"
  shows "pinv (pool_free_wait p t)"
proof (cases "pt_done x")
  case False
  with m x show ?thesis by (auto simp: pool_free_wait_def live_access pinv_def)
next
  case True
  let ?p = "p\<lparr>p_user := U_ready\<rparr>"
  have m': "pmid {} {} Q ?p" and x': "p_th ?p t = Some x" using m x by simp_all
  note f = free_done_pmid [OF m' x' True]
  have e: "pool_free_wait p t = free_pt t ?p" using x True by (simp add: pool_free_wait_def live_access)
  have i: "pinv ?p" using m by (auto simp: pinv_def)
  have "pquiet ?p (free_pt t ?p)" by (simp add: pquiet_def free_pt_fields [OF x'])
  with f have "\<exists>Q'. pmid {} {} Q' (free_pt t ?p) \<and> pevo {t} ?p (free_pt t ?p) \<and> pquiet ?p (free_pt t ?p)" by blast
  then have "pinv (free_pt t ?p)" by (rule call_pinv [OF i, rotated]) simp
  with e show ?thesis by simp
qed

lemma free_pinv:
  assumes i: "pinv p" "p_user p = U_ready" and t: "t \<in> pool_handles p"
  shows "pinv (pool_task_free os p t)"
proof -
  obtain Q where m: "pmid {} {} Q p" "psd Q p" "pdrain p" "\<not> p_shutdown p" by (rule pinv_ready [OF i])
  obtain x where x: "p_th p t = Some x" "\<not> pt_detached x" "pt_done x \<or> (pt_started x \<longleftrightarrow> t \<in> held p)" by (rule handle_task [OF m(1) t])
  consider "pt_done x" | "\<not> pt_done x" "\<not> pt_started x" | "\<not> pt_done x" "pt_started x" by blast
  then show ?thesis
  proof cases
    case 1
    have "pquiet p (free_pt t p)" by (simp add: pquiet_def free_pt_fields [OF x(1)])
    with free_done_pmid [OF m(1) x(1) 1] have "pinv (free_pt t p)" by (intro call_pinv [OF i]) blast
    with 1 x(1) show ?thesis by (simp add: pool_task_free_def live_access)
  next
    case 2
    have h: "t \<notin> held p" using 2 x(3) by blast
    have "pinv (free_pt t (complete_unrun os p t))"
      by (rule call_pinv [OF i free_unrun_pmid [OF m(1) x(1,2) 2(1) h m(4)]])
    with 2 x(1) show ?thesis by (simp add: pool_task_free_def live_access)
  next
    case 3
    let ?q = "if op_interruptible (pt_kind x) then interrupt_task os p t else p"
    note r = interrupt_pmid [OF m(1) x(1), of os]
    have q: "pmid {} {} Q ?q" "pevo {} p ?q" "pquiet p ?q" "held ?q = held p" using r m pevo_refl by (auto simp: pquiet_def)
    have sd: "\<not> p_shutdown ?q" using q(2) m(4) unfolding pevo_def by blast
    obtain z where z: "p_th ?q t = Some z" "\<not> pt_detached z" using x r(4) by (cases "op_interruptible (pt_kind x)") auto
    have "pinv (pool_free_wait ?q t)"
      by (rule free_wait_pinv [OF q(1) _ pdrain_keep [OF m(1,3) q(1-3)] sd z]) (use sd q(4) 3 x(3) in \<open>auto simp: psd_def\<close>)
    with 3 x(1) show ?thesis by (simp add: pool_task_free_def live_access)
  qed
qed

lemma call_keeps:
  assumes i: "pinv p" "p_user p = U_ready" and g: "gai_ok os" and ok: "pcall_ok p c"
  shows "pinv (pool_call os p c)"
proof -
  obtain Q where m: "pmid {} {} Q p" "psd Q p" "pdrain p" "\<not> p_shutdown p" by (rule pinv_ready [OF i])
  note go = call_pinv [OF i]
  have us: "\<And>P. k \<in> pool_usable p \<Longrightarrow> (\<And>y. p_sh p k = Some y \<Longrightarrow> \<not> ps_closing y \<Longrightarrow> P) \<Longrightarrow> P" for k by (auto simp: pool_usable_def)
  have op: "\<not> op_on_sock OP_OPEN" "\<not> op_on_sock OP_CLOSE" "\<not> op_on_sock OP_READ" "\<not> op_on_sock OP_WRITE" "\<not> op_on_sock OP_SLEEP"
    "\<not> op_on_sock OP_SPAWN" "\<not> op_on_sock OP_CONNECT" by (simp_all add: op_on_sock_def)
  note ft = fresh_task_def pool_task0_def
  have str: "pinv (snd (pool_op_str os p k s args))"
    if "let x = args ((pool_task0 k)\<lparr>pt_path := Some s\<rparr>) in pt_kind x = k \<and> fresh_task x \<and> pt_sock x = None" "\<not> op_on_sock k" "k \<noteq> OP_SOCK_CLOSE"
    for k s args
    by (rule go, rule pool_op_str_pmid, rule m(1), rule fresh_args) (use that in \<open>simp_all add: Let_def\<close>)
  have plain: "pinv (snd (pool_op os p k args))"
    if "let x = args (pool_task0 k) in pt_kind x = k \<and> fresh_task x \<and> pt_sock x = None" "\<not> op_on_sock k" "k \<noteq> OP_SOCK_CLOSE" for k args
    by (rule go, rule pool_op_pmid, rule m(1), rule fresh_args) (use that in \<open>simp_all add: Let_def\<close>)
  have sock: "pinv (snd (pool_sock_op os p k s args))"
    if "p_sh p s = Some y" "\<not> ps_closing y" "op_on_sock k" "\<And>x. fresh_task (args x) = fresh_task x" "\<And>x. pt_kind (args x) = pt_kind x"
      "\<And>x. pt_sock (args x) = pt_sock x" for k s args y
    by (rule go, rule sock_op_pmid, rule m(1)) (use that in simp_all)
  show ?thesis
  proof (cases c)
    case (U_open path f md)
    then show ?thesis by (simp add: pool_open_def str ft op)
  next
    case (U_close fd)
    then show ?thesis by (simp add: pool_close_def plain ft op)
  next
    case (U_read fd b n off)
    then show ?thesis by (simp add: pool_read_def plain ft op)
  next
    case (U_write fd b off)
    then show ?thesis by (simp add: pool_write_def plain ft op)
  next
    case (U_sleep ms)
    then show ?thesis by (simp add: pool_sleep_def plain ft op)
  next
    case (U_spawn fn arg)
    then show ?thesis by (simp add: pool_spawn_def plain ft op)
  next
    case (U_tcp_connect h pr)
    then show ?thesis by (simp add: pool_tcp_connect_def str ft op)
  next
    case (U_tcp_listen h pr b)
    then show ?thesis by simp (rule go [OF listen_pmid [OF g m(1)]])
  next
    case (U_tcp_accept k)
    with ok have "k \<in> pool_usable p" by (simp add: pcall_ok_def)
    then obtain y where y: "p_sh p k = Some y" "\<not> ps_closing y" by (rule us)
    from U_tcp_accept show ?thesis
      by (simp add: pool_tcp_accept_def sock [OF y] fresh_task_def)
  next
    case (U_sock_read k b n)
    with ok have "k \<in> pool_usable p" by (simp add: pcall_ok_def)
    then obtain y where y: "p_sh p k = Some y" "\<not> ps_closing y" by (rule us)
    from U_sock_read show ?thesis
      by (simp add: pool_sock_read_def sock [OF y] fresh_task_def)
  next
    case (U_sock_write k b)
    with ok have "k \<in> pool_usable p" by (simp add: pcall_ok_def)
    then obtain y where y: "p_sh p k = Some y" "\<not> ps_closing y" by (rule us)
    from U_sock_write show ?thesis
      by (simp add: pool_sock_write_def sock [OF y] fresh_task_def)
  next
    case (U_sock_close k)
    with ok have "k \<in> pool_usable p" by (simp add: pcall_ok_def)
    then obtain y where y: "p_sh p k = Some y" "\<not> ps_closing y" by (rule us)
    from U_sock_close show ?thesis by simp (rule go [OF sock_close_pmid [OF m(1) y]])
  next
    case (U_sock_port k)
    with ok have "k \<in> pool_usable p" by (simp add: pcall_ok_def)
    then obtain y where y: "p_sh p k = Some y" by (rule us)
    have "\<exists>tr. pool_call os p c = p\<lparr>m_trace := tr\<rparr>"
      using U_sock_port y by (auto simp: pool_sock_port_def live_access myio_local_port_def sys_call_def Let_def)
    then obtain tr where e: "pool_call os p c = p\<lparr>m_trace := tr\<rparr>" ..
    show ?thesis unfolding e by (rule go [of _ "{}"]) (use m(1) pevo_trace in \<open>auto simp: pquiet_def\<close>)
  next
    case U_step
    then show ?thesis using step_pinv [OF m] by simp
  next
    case (U_cancel t)
    with ok have t: "t \<in> pool_handles p" by (simp add: pcall_ok_def)
    from U_cancel show ?thesis by simp (rule go [OF cancel_pmid [OF m(1) t m(4)]])
  next
    case (U_task_free t)
    with ok have t: "t \<in> pool_handles p" by (simp add: pcall_ok_def)
    from U_task_free show ?thesis by simp (rule free_pinv [OF i t])
  next
    case (U_task_detach t)
    with ok have t: "t \<in> pool_handles p" "pool_droppable p t" by (simp_all add: pcall_ok_def)
    from U_task_detach show ?thesis by simp (rule go [OF detach_pmid [OF m(1) t]])
  qed
qed


end
