(* ===== verification/Myio_Pool_Run.thy ===== *)
theory Myio_Pool_Run
  imports Myio_Pool_Calls
begin

text \<open>
  The transitions of the workers and the teardown keep the invariant; with the calls of
  \<open>Myio_Pool_Calls\<close> it therefore holds in every reachable state.
\<close>

subsection \<open>A worker moves on within its task\<close>

lemma pc_pmid:
  assumes m: "pmid {} D Q p" and w: "w < p_nw p" "w_task (p_w p w) = Some t" and pc: "w_task pc = Some t" "pc_ok (p_th p) pc"
    and f: "p' = p\<lparr>m_trace := tr, p_sh := sh, p_socks := d, p_w := (p_w p)(w := pc)\<rparr>"
    and l: "locs (pview {} (p_th p)) sh (p_wnext p) Q (held p) (freed p') D" and b: "\<And>s. s \<in> dom sh \<Longrightarrow> s < m_brk p"
    and r: "dlh.members d (dom sh - unlinked p')" and u: "\<And>s. s \<in> unlinked p' \<Longrightarrow> \<exists>y. sh s = Some y \<and> ps_closing y \<and> ps_inflight y = 0"
  shows "pmid {} D Q p'" and "held p' = held p"
proof -
  note p = pmid_parts [OF m]
  have "w_task (p_w p' v) = w_task (p_w p v)" for v using w(2) pc(1) by (simp add: f)
  then show h: "held p' = held p" unfolding held_def by (simp add: f)
  have c: "wcount P p' = wcount P p" if "P (p_w p w) = P pc" for P
  proof -
    have "wcount P p' = wcount P (p\<lparr>p_w := (p_w p)(w := pc)\<rparr>)" by (simp add: wcount_def f)
    with wcount_upd [OF w(1), of P pc] that show ?thesis by simp
  qed
  have b1: "\<not> w_idle pc'" "pc' \<noteq> W_gone" "w_busy pc'" "\<not> w_looking pc'" if "w_task pc' = Some t" for pc' and t :: addr
    using that by (cases pc'; simp add: w_busy_def)+
  have "pthr p'"
    unfolding pthr_def
  proof (intro conjI)
    show "p_idle p' = int (wcount w_idle p')" "p_nlive p' = wcount (\<lambda>pc. pc \<noteq> W_gone) p'" "p_nrunning p' = wcount w_busy p'"
      "p_nqueued p' \<le> wcount w_looking p'"
      using p(9) c b1 [OF w(2)] b1 [OF pc(1)] by (simp_all add: pthr_def f)
    show "\<forall>v v' t. v < p_nw p' \<longrightarrow> v' < p_nw p' \<longrightarrow> w_task (p_w p' v) = Some t \<longrightarrow> w_task (p_w p' v') = Some t \<longrightarrow> v = v'"
      using p(9) w pc(1) unfolding pthr_def by (auto simp: f)
  qed
  moreover have "ppc p'" using p(10) pc(2) by (simp add: ppc_def f)
  moreover have "pdata {} D Q p'"
    unfolding pdata_def h
    using p b r u l by (auto simp: f qlist_def pq_def)
  ultimately show "pmid {} D Q p'" by (simp add: pmid_def)
qed

fun w_closes :: "wpc \<Rightarrow> bool" where
  "w_closes (W_close t s fd) = True"
| "w_closes (W_closed t) = True"
| "w_closes _ = False"

lemma silent_pmid:
  assumes m: "pmid {} D Q p" and w: "w < p_nw p" "w_task (p_w p w) = Some t" and pc: "w_task pc = Some t" "pc_ok (p_th p) pc"
    and c: "\<not> w_closes (p_w p w)" "\<not> w_closes pc"
  shows "pmid {} D Q (set_w w pc (p\<lparr>m_trace := tr\<rparr>))" and "held (set_w w pc (p\<lparr>m_trace := tr\<rparr>)) = held p"
proof -
  note p = pmid_parts [OF m]
  let ?p = "set_w w pc (p\<lparr>m_trace := tr\<rparr>)"
  have f: "?p = p\<lparr>m_trace := tr, p_sh := p_sh p, p_socks := p_socks p, p_w := (p_w p)(w := pc)\<rparr>" by (simp add: set_w_def)
  have fr: "freed ?p = freed p" using w(1) c by (auto simp: freed_def set_w_def split: if_splits) (metis fun_upd_apply w_closes.simps(2))+
  have un: "unlinked ?p = unlinked p" using w(1) c by (auto simp: unlinked_def set_w_def split: if_splits) (metis fun_upd_apply w_closes.simps(1))+
  show "pmid {} D Q ?p" "held ?p = held p"
    by (rule pc_pmid [OF m w pc f]; use p fr un in auto)+
qed

definition silent :: "pool \<Rightarrow> nat \<Rightarrow> addr \<Rightarrow> pool \<Rightarrow> bool" where
  "silent p w t p' \<longleftrightarrow> (\<exists>tr pc. p' = set_w w pc (p\<lparr>m_trace := tr\<rparr>) \<and> w_task pc = Some t \<and> pc_ok (p_th p) pc \<and>
     \<not> w_closes pc \<and> (\<forall>u. pc \<noteq> W_drain_wait u))"

lemma silentI: "p' = set_w w pc (p\<lparr>m_trace := tr\<rparr>) \<Longrightarrow> w_task pc = Some t \<Longrightarrow> pc_ok (p_th p) pc \<Longrightarrow> \<not> w_closes pc \<Longrightarrow>
    (\<And>u. pc \<noteq> W_drain_wait u) \<Longrightarrow> silent p w t p'"
  unfolding silent_def by blast

lemma silent_same: "w_task pc = Some t \<Longrightarrow> pc_ok (p_th p) pc \<Longrightarrow> \<not> w_closes pc \<Longrightarrow> (\<And>u. pc \<noteq> W_drain_wait u) \<Longrightarrow> silent p w t (set_w w pc p)"
  by (rule silentI [where pc = pc and tr = "m_trace p"]) simp_all

lemma silent_commit:
  "p_th p t = Some x \<Longrightarrow> pt_kind x \<noteq> OP_SOCK_CLOSE \<Longrightarrow> res_status r \<noteq> MYIO_PENDING \<Longrightarrow> res_ptr r = None \<Longrightarrow>
     silent p w t (set_w w (W_commit t r fd) (p\<lparr>m_trace := tr\<rparr>))"
  by (rule silentI [OF refl]) simp_all

lemma silent_wait:
  "p_th p t = Some x \<Longrightarrow> op_interruptible (pt_kind x) \<Longrightarrow> silent p w t (wait_enter os p w t tm)"
  "p_th p t = Some x \<Longrightarrow> op_interruptible (pt_kind x) \<Longrightarrow> silent p w t (wait_check p w t d)"
  "p_th p t = Some x \<Longrightarrow> op_interruptible (pt_kind x) \<Longrightarrow> silent p w t (wait_poll os p w t d)"
proof -
  assume x: "p_th p t = Some x" "op_interruptible (pt_kind x)"
  have same: "p = p\<lparr>m_trace := m_trace p\<rparr>" by simp
  have ok: "silent p w t (set_w w (W_wait t e) (p\<lparr>m_trace := tr\<rparr>))" "silent p w t (set_w w (W_poll t e) (p\<lparr>m_trace := tr\<rparr>))"
    "silent p w t (set_w w (W_call t) (p\<lparr>m_trace := tr\<rparr>))" for e tr
    by (rule silentI [OF refl]; use x in simp)+
  have nc: "pt_kind x \<noteq> OP_SOCK_CLOSE" using x(2) by (auto simp: op_interruptible_def)
  show "silent p w t (wait_enter os p w t tm)"
    using ok(1) [of None "m_trace p"] ok(1) by (cases tm) (simp_all add: wait_enter_def sys_call_def Let_def)
  show "silent p w t (wait_check p w t d)"
    using ok(2) [of d "m_trace p"] silent_commit [of p t x r_canceled w "- 1" "m_trace p"] x nc
    by (simp add: wait_check_def live_access)
  show "silent p w t (wait_poll os p w t d)"
    using ok(1,3) x by (cases d) (simp_all add: wait_poll_def live_access sys_call_def Let_def)
qed

lemma on_sock_live:
  assumes m: "pmid T D Q p" and t: "t \<notin> T" and x: "p_th p t = Some x" "\<not> pt_done x" "op_on_sock (pt_kind x)"
  obtains s y where "pt_sock x = Some s" "p_sh p s = Some y" "ps_inflight y > 0"
proof -
  note l = locs_parts [OF pmid_parts(4) [OF m]]
  have v: "pview T (p_th p) t = Some (pt_kind x, pt_sock x)" using x t by (auto simp: pview_Some)
  with l(3) x(3) obtain s where s: "pt_sock x = Some s" "s \<in> dom (p_sh p)" unfolding sock_inv_def by blast
  then obtain y where y: "p_sh p s = Some y" by auto
  from infl_pos [OF l(5) _ x(3) y, of t] v s(1) that [OF s(1) y] show thesis by simp
qed

lemma silent_start:
  assumes m: "pmid {} D Q p" and x: "p_th p t = Some x" "\<not> pt_done x"
  shows "silent p w t (worker_start os p w t)"
proof -
  note commit = silent_commit [where p = p and t = t and x = x and w = w, OF x(1)]
  show ?thesis
  proof (cases "pt_kind x")
    case OP_CONNECT
    obtain fd err p1 where c: "myio_posix_connect os (the (pt_path x)) (pt_port x) p = ((fd, err), p1)" by (metis surj_pair)
    from posix_connect_state [OF this] obtain tr where "p1 = p\<lparr>m_trace := tr\<rparr>" by blast
    with c OP_CONNECT x show ?thesis by (simp add: worker_start_def live_access commit)
  next
    case OP_SOCK_WRITE
    then have k: "op_on_sock (pt_kind x)" by simp
    obtain s y where s: "pt_sock x = Some s" "p_sh p s = Some y" by (rule on_sock_live [OF m _ x k]) auto
    have "silent p w t (set_w w (W_send t 0) p)" "silent p w t (set_w w (W_commit t r_canceled (- 1)) p)"
      by (rule silent_same; use x OP_SOCK_WRITE in simp)+
    with OP_SOCK_WRITE s x show ?thesis by (simp add: worker_start_def live_access Let_def)
  next
    case OP_SOCK_CLOSE
    have "silent p w t (set_w w (W_drain t) p)" by (rule silent_same) (use x OP_SOCK_CLOSE in simp_all)
    with OP_SOCK_CLOSE x show ?thesis by (simp add: worker_start_def live_access)
  qed (use x silent_wait(1) [OF x(1)] commit in
      \<open>simp_all add: worker_start_def live_access sys_call_def Let_def op_interruptible_def r_from_final\<close>)
qed

lemma silent_call:
  assumes x: "p_th p t = Some x" and k: "op_interruptible (pt_kind x)"
  shows "silent p w t (worker_call os p w t)"
  using x k silent_commit [where p = p and t = t and x = x and w = w, OF x] silent_commit [where p = p and t = t and x = x and w = w and tr = "m_trace p", OF x]
  by (cases "pt_kind x") (simp_all add: worker_call_def live_access sys_call_def Let_def op_interruptible_def)

lemma silent_send:
  assumes x: "p_th p t = Some x" and k: "pt_kind x = OP_SOCK_WRITE"
  shows "silent p w t (worker_send os p w t off)"
proof -
  have "silent p w t (set_w w (W_send t n) (p\<lparr>m_trace := tr\<rparr>))" for n tr by (rule silentI [OF refl]) (use x k in simp_all)
  with x k silent_commit [where p = p and t = t and x = x and w = w, OF x] silent_commit [where p = p and t = t and x = x and w = w and tr = "m_trace p", OF x]
  show ?thesis by (simp add: worker_send_def live_access sys_call_def Let_def)
qed

lemma pinv_worker:
  assumes "pinv p" and "w < p_nw p" and "p_w p w \<noteq> W_gone"
  obtains Q where "pmid {} {} Q p" "psd Q p" "pdrain p" "user_inv p (p_user p)"
  using assms by (auto simp: pinv_def pend_def split: if_splits)

text \<open>A step that leaves counters, tasks and the other workers alone.\<close>

lemma pinv_local:
  assumes m: "psd Q p" "user_inv p (p_user p)" and m': "pmid {} {} Q p'" "held p' = held p" "pdrain p'"
    and f: "p_th p' = p_th p" "p_user p' = p_user p" "p_shutdown p' = p_shutdown p" "p_completions p' = p_completions p"
      "p_comp_seen p' = p_comp_seen p" "p_nqueued p' = p_nqueued p" "p_nrunning p' = p_nrunning p" "p_nlive p' = p_nlive p"
      "p_nw p' = p_nw p"
    and w: "\<And>v. v < p_nw p \<Longrightarrow> w_parked (p_w p' v) \<Longrightarrow> w_parked (p_w p v)"
  shows "pinv p'"
proof -
  have g: "p_user p' \<noteq> U_gone" using m(2) f(2) by auto
  have "psd Q p'" using m(1) w by (auto simp: psd_def f m'(2))
  moreover have "user_inv p' u = user_inv p u" for u by (cases u) (simp_all only: user_inv.simps f m'(2))
  then have "user_inv p' (p_user p')" using m(2) by (simp add: f(2))
  ultimately show ?thesis using g m' by (auto simp: pinv_def)
qed

lemma silent_pinv:
  assumes i: "pinv p" and w: "w < p_nw p" "w_task (p_w p w) = Some t" "\<not> w_closes (p_w p w)" and s: "silent p w t p'"
  shows "pinv p'"
proof -
  have "p_w p w \<noteq> W_gone" using w(2) by auto
  then obtain Q where m: "pmid {} {} Q p" "psd Q p" "pdrain p" "user_inv p (p_user p)" by (rule pinv_worker [OF i w(1)])
  from s obtain tr pc where e: "p' = set_w w pc (p\<lparr>m_trace := tr\<rparr>)" and pc: "w_task pc = Some t" "pc_ok (p_th p) pc" "\<not> w_closes pc"
    "\<And>u. pc \<noteq> W_drain_wait u" unfolding silent_def by blast
  note k = silent_pmid [OF m(1) w(1,2) pc(1,2) w(3) pc(3), of tr]
  have "pdrain p'" unfolding pdrain_def
  proof (intro allI impI)
    fix v u
    assume v: "v < p_nw p'" "p_w p' v = W_drain_wait u"
    then have "v \<noteq> w" using pc(4) by (auto simp: e set_w_def)
    with v m(3) show "\<exists>x s y. p_th p' u = Some x \<and> pt_sock x = Some s \<and> p_sh p' s = Some y \<and> 0 < ps_inflight y"
      by (simp add: e set_w_def pdrain_def)
  qed
  moreover have "w_parked (p_w p v)" if "w_parked (p_w p' v)" for v
    using that pc(1) by (cases "v = w") (auto simp: e set_w_def elim: w_parked.elims)
  ultimately show ?thesis using k by (intro pinv_local [OF m(2,4)]) (auto simp: e set_w_def)
qed


subsection \<open>A close worker\<close>

lemma close_task:
  assumes m: "pmid {} D Q p" and w: "w < p_nw p" "w_task (p_w p w) = Some t" and c: "\<And>x. p_th p t = Some x \<Longrightarrow> pt_kind x = OP_SOCK_CLOSE"
    and nc: "p_w p w \<noteq> W_closed t"
  obtains x s y where "p_th p t = Some x" "pt_sock x = Some s" "p_sh p s = Some y" "ps_closing y" "0 \<le> ps_inflight y"
    "\<And>u. pview {} (p_th p) u = Some (OP_SOCK_CLOSE, Some s) \<Longrightarrow> u \<notin> freed p \<Longrightarrow> u = t"
    "pview {} (p_th p) t = Some (OP_SOCK_CLOSE, Some s)" "t \<notin> freed p"
proof -
  note k = worker_task [OF m w] and l = locs_parts [OF pmid_parts(4) [OF m]]
  obtain x where x: "p_th p t = Some x" "pview {} (p_th p) t = Some (pt_kind x, pt_sock x)" by (rule held_task [OF m k(1)]) auto
  obtain s where s: "pt_sock x = Some s" using l(3) x c unfolding sock_inv_def by fastforce
  have nf: "t \<notin> freed p" using k(2) nc by auto
  have v: "pview {} (p_th p) t = Some (OP_SOCK_CLOSE, Some s)" using x c s by simp
  obtain y where y: "p_sh p s = Some y" "ps_closing y" using l(6) v nf unfolding close_inv_def by blast
  have "0 \<le> ps_inflight y" using l(5) y by (simp add: infl_inv_def)
  moreover have "\<And>u. pview {} (p_th p) u = Some (OP_SOCK_CLOSE, Some s) \<Longrightarrow> u \<notin> freed p \<Longrightarrow> u = t" using l(6) v nf unfolding close_inv_def by blast
  ultimately show thesis using that [OF x(1) s y] v nf by blast
qed

lemma unlinked_task:
  assumes m: "pmid {} D Q p" and w: "w < p_nw p" "p_w p w = W_close t s fd"
  shows "pview {} (p_th p) t = Some (OP_SOCK_CLOSE, Some s)" and "t \<notin> freed p"
proof -
  have wt: "w_task (p_w p w) = Some t" using w by simp
  note k = worker_task [OF m w(1) wt]
  obtain x where x: "p_th p t = Some x" "pview {} (p_th p) t = Some (pt_kind x, pt_sock x)" by (rule held_task [OF m k(1)]) auto
  then show "pview {} (p_th p) t = Some (OP_SOCK_CLOSE, Some s)" using k(4) w by simp
  show "t \<notin> freed p" using k(2) w by auto
qed

lemma drain_pinv:
  assumes i: "pinv p" and w: "w < p_nw p" "p_w p w = W_drain t"
  shows "pinv (worker_drain p w t)"
proof -
  have wt: "w_task (p_w p w) = Some t" and ng: "p_w p w \<noteq> W_gone" using w by simp_all
  obtain Q where m: "pmid {} {} Q p" "psd Q p" "pdrain p" "user_inv p (p_user p)" by (rule pinv_worker [OF i w(1) ng])
  note p = pmid_parts [OF m(1)] and k = worker_task [OF m(1) w(1) wt]
  have kc: "\<And>x. p_th p t = Some x \<Longrightarrow> pt_kind x = OP_SOCK_CLOSE" using k(4) w by simp
  have nc: "p_w p w \<noteq> W_closed t" using w by simp
  obtain x s y where x: "p_th p t = Some x" "pt_sock x = Some s" "p_sh p s = Some y" "ps_closing y" "0 \<le> ps_inflight y"
    and un: "\<And>u. pview {} (p_th p) u = Some (OP_SOCK_CLOSE, Some s) \<Longrightarrow> u \<notin> freed p \<Longrightarrow> u = t"
    by (rule close_task [OF m(1) w(1) wt kc nc]) blast+
  show ?thesis
  proof (cases "ps_inflight y > 0")
    case True
    have e: "worker_drain p w t = set_w w (W_drain_wait t) (p\<lparr>m_trace := m_trace p\<rparr>)"
      using x True by (simp add: worker_drain_def live_access)
    let ?p = "set_w w (W_drain_wait t) (p\<lparr>m_trace := m_trace p\<rparr>)"
    have "pmid {} {} Q ?p" "held ?p = held p" by (rule silent_pmid [OF m(1) w(1) wt]; use w kc in simp)+
    moreover have "pdrain ?p" using m(3) x True by (simp add: pdrain_def set_w_def)
    ultimately show ?thesis unfolding e by (intro pinv_local [OF m(2,4)]) (auto simp: set_w_def split: if_splits)
  next
    case False
    let ?p = "p\<lparr>m_trace := m_trace p, p_sh := p_sh p, p_socks := dl_unlink_head (p_socks p) s, p_w := (p_w p)(w := W_close t s (ps_fd y))\<rparr>"
    have e: "worker_drain p w t = ?p" using x False by (simp add: worker_drain_def live_access set_w_def pool_sock_unlink_def)
    have fr: "freed ?p = freed p"
    proof -
      have "p_w ?p v = W_closed u \<longleftrightarrow> p_w p v = W_closed u" for v u using w by simp
      then show ?thesis unfolding freed_def by simp
    qed
    have nu: "s \<notin> unlinked p"
    proof
      assume "s \<in> unlinked p"
      then obtain v u fd where v: "v < p_nw p" "p_w p v = W_close u s fd" by (auto simp: unlinked_def)
      from unlinked_task [OF m(1) v] un have "u = t" by blast
      with v k(3) [of v] w show False by auto
    qed
    have ul: "unlinked ?p = insert s (unlinked p)"
    proof -
      have "(\<exists>u fd. p_w ?p v = W_close u r fd) \<longleftrightarrow> (v = w \<and> r = s) \<or> (\<exists>u fd. p_w p v = W_close u r fd)" for v r
        using w by auto
      then show ?thesis unfolding unlinked_def using w(1) by auto
    qed
    have i0: "ps_inflight y = 0" using False x(5) by simp
    have sd: "dom (p_sh p) - insert s (unlinked p) = (dom (p_sh p) - unlinked p) - {s}" by auto
    have mem: "dlh.members (dl_unlink_head (p_socks p) s) (dom (p_sh p) - unlinked ?p)"
      unfolding ul sd by (rule dlh.members_unlink [OF p(7)]) (use x(3) nu in auto)
    have pcs: "w_task (W_close t s (ps_fd y)) = Some t" "pc_ok (p_th p) (W_close t s (ps_fd y))" using x kc by simp_all
    have lc: "locs (pview {} (p_th p)) (p_sh p) (p_wnext p) Q (held p) (freed ?p) {}" using p(4) fr by simp
    have uu: "\<And>r. r \<in> unlinked ?p \<Longrightarrow> \<exists>y. p_sh p r = Some y \<and> ps_closing y \<and> ps_inflight y = 0" unfolding ul using p(8) x i0 by auto
    note r = pc_pmid [OF m(1) w(1) wt pcs refl lc p(5) mem uu]
    have "pdrain ?p" using m(3) by (simp add: pdrain_def)
    with r show ?thesis unfolding e by (intro pinv_local [OF m(2,4)]) (auto split: if_splits)
  qed
qed

lemma close_fd_pinv:
  assumes i: "pinv p" and w: "w < p_nw p" "p_w p w = W_close t s fd"
  shows "pinv (worker_close_fd os p w t s fd)"
proof -
  have wt: "w_task (p_w p w) = Some t" and ng: "p_w p w \<noteq> W_gone" using w by simp_all
  obtain Q where m: "pmid {} {} Q p" "psd Q p" "pdrain p" "user_inv p (p_user p)" by (rule pinv_worker [OF i w(1) ng])
  note p = pmid_parts [OF m(1)] and k = worker_task [OF m(1) w(1) wt] and l = locs_parts [OF pmid_parts(4) [OF m(1)]]
  have kc: "\<And>x. p_th p t = Some x \<Longrightarrow> pt_kind x = OP_SOCK_CLOSE" using k(4) w by simp
  have us: "s \<in> unlinked p" using w by (auto simp: unlinked_def)
  from p(8) [OF this] obtain y where y: "p_sh p s = Some y" "ps_closing y" "ps_inflight y = 0" by blast
  note vt = unlinked_task [OF m(1) w]
  have un: "\<And>u. pview {} (p_th p) u = Some (OP_SOCK_CLOSE, Some s) \<Longrightarrow> u \<notin> freed p \<Longrightarrow> u = t" using l(6) vt unfolding close_inv_def by blast
  let ?tr = "(C_close fd, os (m_trace p) (C_close fd)) # m_trace p"
  let ?p = "p\<lparr>m_trace := ?tr, p_sh := (p_sh p)(s := None), p_socks := p_socks p, p_w := (p_w p)(w := W_closed t)\<rparr>"
  have e: "worker_close_fd os p w t s fd = ?p"
    using y by (simp add: worker_close_fd_def sys_call_def free_ps_def chk_ps_def set_w_def Let_def)
  have fr: "freed ?p = insert t (freed p)"
  proof -
    have "p_w ?p v = W_closed u \<longleftrightarrow> (v = w \<and> u = t) \<or> p_w p v = W_closed u" for v u using w by auto
    then show ?thesis unfolding freed_def using w(1) by auto
  qed
  have ul: "unlinked ?p = unlinked p - {s}"
  proof -
    have "(\<exists>u fd. p_w ?p v = W_close u r fd) \<longleftrightarrow> r \<noteq> s \<and> (\<exists>u fd. p_w p v = W_close u r fd)" if v: "v < p_nw p" for v r
    proof (cases "v = w")
      case True
      with w show ?thesis by auto
    next
      case False
      have "p_w p v \<noteq> W_close u s f" for u f
      proof
        assume c: "p_w p v = W_close u s f"
        from unlinked_task [OF m(1) v c] un have "u = t" by blast
        with c v k(3) [of v] False show "False" by simp
      qed
      with False show ?thesis by auto
    qed
    then have "(\<exists>v < p_nw p. \<exists>u fd. p_w ?p v = W_close u r fd) \<longleftrightarrow> r \<noteq> s \<and> (\<exists>v < p_nw p. \<exists>u fd. p_w p v = W_close u r fd)" for r by blast
    then have "r \<in> unlinked ?p \<longleftrightarrow> r \<in> unlinked p - {s}" for r by (auto simp: unlinked_def)
    then show ?thesis by blast
  qed
  have "ops_on (pview {} (p_th p)) s = {}"
    using l(5) y ops_on_finite [of "pview {} (p_th p)" s] by (auto simp: infl_inv_def)
  then have nop: "\<And>u kd. pview {} (p_th p) u = Some (kd, Some s) \<Longrightarrow> \<not> op_on_sock kd" by (auto simp: ops_on_def)
  have lc: "locs (pview {} (p_th p)) ((p_sh p)(s := None)) (p_wnext p) Q (held p) (freed ?p) {}"
    unfolding fr using p(4) by (intro locs_free_sock [of _ _ _ _ _ "freed p"]) (use un nop in auto)
  have d: "dom ((p_sh p)(s := None)) - (unlinked p - {s}) = dom (p_sh p) - unlinked p" using us by auto
  have mem: "dlh.members (p_socks p) (dom ((p_sh p)(s := None)) - unlinked ?p)" unfolding ul d by (rule p(7))
  have pcs: "w_task (W_closed t) = Some t" "pc_ok (p_th p) (W_closed t)" using kc by simp_all
  have uu: "\<And>r. r \<in> unlinked ?p \<Longrightarrow> \<exists>y. ((p_sh p)(s := None)) r = Some y \<and> ps_closing y \<and> ps_inflight y = 0" unfolding ul using p(8) by auto
  have bb: "\<And>r. r \<in> dom ((p_sh p)(s := None)) \<Longrightarrow> r < m_brk p" using p(5) by auto
  have r1: "pmid {} {} Q ?p" by (rule pc_pmid(1) [OF m(1) w(1) wt pcs refl lc]) (use bb mem uu in blast)+
  have r2: "held ?p = held p" by (rule pc_pmid(2) [OF m(1) w(1) wt pcs refl lc]) (use bb mem uu in blast)+
  note r = r1 r2
  have "pdrain ?p" unfolding pdrain_def
  proof (intro allI impI)
    fix v u
    assume "v < p_nw ?p" "p_w ?p v = W_drain_wait u"
    then have "v < p_nw p" "p_w p v = W_drain_wait u" by (auto split: if_splits)
    with m(3) obtain x' s' y' where "p_th p u = Some x'" "pt_sock x' = Some s'" "p_sh p s' = Some y'" "0 < ps_inflight y'" unfolding pdrain_def by blast
    with y show "\<exists>x s' y. p_th ?p u = Some x \<and> pt_sock x = Some s' \<and> p_sh ?p s' = Some y \<and> 0 < ps_inflight y" by auto
  qed
  with r show ?thesis unfolding e by (intro pinv_local [OF m(2,4)]) (auto split: if_splits)
qed


subsection \<open>A worker finishes its task\<close>

lemma locs_freed_cong: "locs v sh nx Q h C D \<Longrightarrow> (\<And>t. v t \<noteq> None \<Longrightarrow> t \<in> C \<longleftrightarrow> t \<in> C') \<Longrightarrow> locs v sh nx Q h C' D"
  unfolding locs_def close_inv_def by (metis option.distinct(1))

lemma retire_pmid:
  assumes m: "pmid {t} D Q p" and w: "w < p_nw p" "w_task (p_w p w) = Some t" "\<And>s fd. p_w p w \<noteq> W_close t s fd"
    and x: "\<And>x. p_th p t = Some x \<Longrightarrow> pt_done x \<and> \<not> pt_detached x"
    and p': "p' = set_w w W_top (p\<lparr>p_nrunning := p_nrunning p - 1, p_completions := c\<rparr>)"
  shows "pmid {} D Q p'" and "held p' = held p - {t}"
proof -
  note p = pmid_parts [OF m] and k = worker_task [OF m w(1,2)]
  show h: "held p' = held p - {t}"
  proof -
    have "(\<exists>v < p_nw p. w_task (p_w p' v) = Some u) \<longleftrightarrow> u \<noteq> t \<and> (\<exists>v < p_nw p. w_task (p_w p v) = Some u)" for u
    proof
      assume "\<exists>v < p_nw p. w_task (p_w p' v) = Some u"
      then obtain v where v: "v < p_nw p" "v \<noteq> w" "w_task (p_w p v) = Some u" by (auto simp: p' set_w_def split: if_splits)
      with k(3) [of v] have "u \<noteq> t" by auto
      with v show "u \<noteq> t \<and> (\<exists>v < p_nw p. w_task (p_w p v) = Some u)" by blast
    next
      assume "u \<noteq> t \<and> (\<exists>v < p_nw p. w_task (p_w p v) = Some u)"
      then obtain v where v: "u \<noteq> t" "v < p_nw p" "w_task (p_w p v) = Some u" by blast
      then have "v \<noteq> w" using w(2) by auto
      with v show "\<exists>v < p_nw p. w_task (p_w p' v) = Some u" by (intro exI [of _ v]) (simp add: p' set_w_def)
    qed
    then show ?thesis unfolding held_def by (auto simp: p' set_w_def)
  qed
  have fr: "u \<in> freed p' \<longleftrightarrow> u \<in> freed p" if "u \<noteq> t" for u
  proof -
    have "p_w p' v = W_closed u \<longleftrightarrow> p_w p v = W_closed u" for v using w(2) that by (auto simp: p' set_w_def)
    then show ?thesis by (simp add: freed_def) (simp add: p' set_w_def)
  qed
  have ul: "unlinked p' = unlinked p"
  proof -
    have "p_w p w \<noteq> W_close u s fd" for u s fd using w(2,3) by (cases "p_w p w") auto
    then have "p_w p' v = W_close u s fd \<longleftrightarrow> p_w p v = W_close u s fd" for v u s fd by (auto simp: p' set_w_def)
    then show ?thesis by (simp add: unlinked_def) (simp add: p' set_w_def)
  qed
  have "ptsk ({t} - {t}) (m_brk p) (p_th p) (held p - {t})"
  proof (rule ptsk_settle)
    show "ptsk {t} (m_brk p) (p_th p) (held p - {t})" by (rule ptsk_mono [OF p(3)]) auto
    fix z
    assume "p_th p t = Some z"
    with x ptskD [OF p(3)] show "ptask ({t} - {t}) (m_brk p) (held p - {t}) t z" by (auto simp: ptask_def)
  qed
  then have tk: "ptsk {} (m_brk p') (p_th p') (held p')" unfolding h by (simp add: p' set_w_def)
  have vs: "pview {} (p_th p) = pview {t} (p_th p)" using pview_settle [of t "{t}" "p_th p"] x by simp
  have "locs (pview {t} (p_th p)) (p_sh p) (p_wnext p) Q (held p - {t}) (freed p') D"
    by (rule locs_freed_cong [OF p(4)]) (metis fr pview_transit_None singletonI)
  then have lc: "locs (pview {} (p_th p')) (p_sh p') (p_wnext p') Q (held p' - {}) (freed p') D"
    unfolding h using vs by (simp add: p' set_w_def)
  have b: "w_busy (p_w p w)" "\<not> w_idle (p_w p w)" "p_w p w \<noteq> W_gone" "\<not> w_looking (p_w p w)"
    using w(2) by (cases "p_w p w"; simp add: w_busy_def)+
  have cnt: "wcount P p' = (if P (p_w p w) then wcount P p - 1 else wcount P p) + (if P W_top then 1 else 0)" for P
  proof -
    have "wcount P p' = wcount P (set_w w W_top p)" by (simp add: wcount_def p' set_w_def)
    with wcount_set(1) [OF w(1)] show ?thesis by simp
  qed
  have pos: "P (p_w p w) \<Longrightarrow> 0 < wcount P p" for P by (rule wcount_set(2) [OF w(1)])
  have "pthr p'"
    unfolding pthr_def
  proof (intro conjI)
    show "p_idle p' = int (wcount w_idle p')" using p(9) b by (simp add: cnt pthr_def) (simp add: p' set_w_def)
    show "p_nlive p' = wcount (\<lambda>pc. pc \<noteq> W_gone) p'" using p(9) b pos [of "\<lambda>pc. pc \<noteq> W_gone"] by (simp add: cnt pthr_def) (simp add: p' set_w_def)
    show "p_nrunning p' = wcount w_busy p'" using p(9) b by (simp add: cnt pthr_def w_busy_def) (simp add: p' set_w_def)
    show "p_nqueued p' \<le> wcount w_looking p'" using p(9) b by (simp add: cnt pthr_def) (simp add: p' set_w_def)
    show "\<forall>v v' t. v < p_nw p' \<longrightarrow> v' < p_nw p' \<longrightarrow> w_task (p_w p' v) = Some t \<longrightarrow> w_task (p_w p' v') = Some t \<longrightarrow> v = v'"
      using p(9) unfolding pthr_def by (simp add: p' set_w_def)
  qed
  moreover have "ppc p'" using p(10) by (simp add: ppc_def p' set_w_def)
  moreover have "pdata {} D Q p'"
    unfolding pdata_def
  proof (intro conjI)
    show "\<not> m_fault p'" "qlist p' Q" "\<forall>s \<in> dom (p_sh p'). s < m_brk p'" using p(1,2,5) by (auto simp: p' set_w_def qlist_def pq_def)
    show "dlh.members (p_socks p') (dom (p_sh p') - unlinked p')" unfolding ul using p(7) by (simp add: p' set_w_def)
    show "\<forall>s \<in> unlinked p'. \<exists>y. p_sh p' s = Some y \<and> ps_closing y \<and> ps_inflight y = 0" unfolding ul using p(8) by (simp add: p' set_w_def)
    show "held p' \<subseteq> {..<m_brk p'}" unfolding h using p(6) by (auto simp: p' set_w_def)
  qed (fact tk lc)+
  ultimately show "pmid {} D Q p'" by (simp add: pmid_def)
qed

lemma drop_counters:
  "pool_sock_drop os (p\<lparr>p_nrunning := n, p_completions := c\<rparr>) s = (pool_sock_drop os p s)\<lparr>p_nrunning := n, p_completions := c\<rparr>"
  by (cases "p_sh p s") (simp_all add: pool_sock_drop_def chk_ps_def pool_sock_unlink_def sys_call_def psk_def free_ps_def m_flag_def Let_def)

lemma reap_counters:
  "pool_reap os (p\<lparr>p_nrunning := n, p_completions := c\<rparr>) t = (pool_reap os p t)\<lparr>p_nrunning := n, p_completions := c\<rparr>"
proof -
  have fr: "free_pt t (q\<lparr>p_nrunning := n, p_completions := c\<rparr>) = (free_pt t q)\<lparr>p_nrunning := n, p_completions := c\<rparr>" for q
    by (cases "p_th q t") (simp_all add: free_pt_def chk_pt_def m_flag_def)
  have ck: "chk_pt t (p\<lparr>p_nrunning := n, p_completions := c\<rparr>) = (chk_pt t p)\<lparr>p_nrunning := n, p_completions := c\<rparr>"
    by (simp add: chk_pt_def m_flag_def)
  have "pt (q\<lparr>p_nrunning := n, p_completions := c\<rparr>) t = pt q t" for q by (simp add: pt_def)
  then show ?thesis unfolding pool_reap_def Let_def ck by (cases "res_ptr (pt_res (pt (chk_pt t p) t))") (simp_all add: fr drop_counters)
qed

lemma finish_pmid:
  assumes m: "pmid {t} D Q p" and w: "w < p_nw p" "w_task (p_w p w) = Some t" "\<And>s fd. p_w p w \<noteq> W_close t s fd"
    and x: "p_th p t = Some x" "\<not> pt_done x" and r: "res_status r \<noteq> MYIO_PENDING"
    and rs: "\<And>s. res_ptr r = Some s \<Longrightarrow> s < m_brk p \<and> (\<forall>u z. p_th p u = Some z \<longrightarrow> res_ptr (pt_res z) \<noteq> Some s) \<and>
      (\<exists>y. p_sh p s = Some y \<and> \<not> ps_closing y \<and> ps_inflight y = 0)"
    and p': "p' = worker_finish os p w t r"
  shows "pmid {} D Q p'" and "held p' = held p - {t}" and "p_nw p' = p_nw p"
    and "p_th p' = (p_th p)(t := if pt_detached x then None else Some (x\<lparr>pt_res := r, pt_done := True\<rparr>))"
    and "\<And>v u. p_w p' v \<noteq> W_drain_wait u" and "\<And>v. w_parked (p_w p' v) \<Longrightarrow> w_parked (p_w p v)"
    and "p_user p' = u_alert (p_user p)" and "p_shutdown p' = p_shutdown p" and "p_completions p' = p_completions p + 1"
proof -
  let ?x = "x\<lparr>pt_res := r, pt_done := True\<rparr>"
  let ?a = "upd_pt t (\<lambda>x. x\<lparr>pt_res := r, pt_done := True\<rparr>) p"
  note f = upd_pt_fields [OF x(1), of "\<lambda>x. x\<lparr>pt_res := r, pt_done := True\<rparr>"]
  have ma: "pmid {t} D Q ?a" by (rule mark_done_pmid(1) [OF m _ x r]) (use rs in auto)
  have xa: "p_th ?a t = Some ?x" by (simp add: f)
  define b where "b = (if pt_detached x then pool_reap os ?a t else ?a)"
  have sa: "\<And>s. res_ptr (pt_res ?x) = Some s \<Longrightarrow> \<exists>y. p_sh ?a s = Some y \<and> \<not> ps_closing y \<and> ps_inflight y = 0" using rs by (simp add: f)
  note rp = reap_pmid [where os = os, OF ma xa _ sa]
  have mb: "pmid {t} D Q b" using ma rp(1) by (simp add: b_def)
  have fb: "p_th b = (p_th p)(t := if pt_detached x then None else Some ?x)" "p_w b = p_w p" "p_nw b = p_nw p" "p_completions b = p_completions p"
    using rp(3-6) by (auto simp: b_def f)
  have gb: "p_nrunning b = p_nrunning p \<and> p_user b = p_user p \<and> p_shutdown b = p_shutdown p"
  proof (cases "pt_detached x \<and> res_ptr r \<noteq> None")
    case False
    then show ?thesis using x(1) by (auto simp: b_def f pool_reap_def free_pt_def chk_pt_def pt_def split: option.splits)
  next
    case True
    then obtain s y where s: "res_ptr r = Some s" "p_sh ?a s = Some y" using sa by auto
    then show ?thesis using True xa
      by (simp add: b_def pool_reap_def live_access sock_drop_fields [OF s(2)] free_pt_def chk_pt_def) (simp add: f)
  qed
  let ?c = "done_broadcast b"
  have mc: "pmid {t} D Q ?c" by (rule broadcast_pmid [OF mb])
  have wc: "w < p_nw ?c" "w_task (p_w ?c w) = Some t" "\<And>s fd. p_w ?c w \<noteq> W_close t s fd" using w fb by (simp_all add: done_broadcast_def)
  have nr: "p_nrunning p \<noteq> 0"
  proof -
    have "w_busy (p_w p w)" using w(2) by (simp add: w_busy_def)
    then have "0 < wcount w_busy p" by (rule wcount_set(2) [OF w(1)])
    with pmid_parts(9) [OF m] show ?thesis by (simp add: pthr_def)
  qed
  have pe: "p' = set_w w W_top (?c\<lparr>p_nrunning := p_nrunning ?c - 1, p_completions := p_completions p + 1\<rparr>)"
  proof -
    have "p' = set_w w W_top (done_broadcast (b\<lparr>p_nrunning := p_nrunning p - 1, p_completions := p_completions p + 1\<rparr>))"
      using x nr unfolding p' worker_finish_def b_def by (simp add: f Let_def live_access reap_counters)
    then show ?thesis using gb by (simp add: done_broadcast_def set_w_def)
  qed
  have xc: "\<And>z. p_th ?c t = Some z \<Longrightarrow> pt_done z \<and> \<not> pt_detached z" using fb(1) by (auto simp: done_broadcast_def split: if_splits)
  note rt = retire_pmid [OF mc wc xc pe]
  show "pmid {} D Q p'" by (rule rt)
  have "held ?c = held p" using fb by (simp add: held_def done_broadcast_def)
  then show "held p' = held p - {t}" using rt(2) by simp
  show "p_nw p' = p_nw p" "p_th p' = (p_th p)(t := if pt_detached x then None else Some ?x)" "p_user p' = u_alert (p_user p)"
    "p_shutdown p' = p_shutdown p" "p_completions p' = p_completions p + 1"
    using fb gb by (simp_all add: pe set_w_def done_broadcast_def)
  show "p_w p' v \<noteq> W_drain_wait u" for v u using broadcast_awake [of b v u] by (simp add: pe set_w_def)
  show "w_parked (p_w p v)" if "w_parked (p_w p' v)" for v
    using that fb by (cases "v = w") (simp_all add: pe set_w_def done_broadcast_def)
qed


lemma awake_pinv:
  assumes m: "pmid {} {} Q p" "psd Q p" "\<And>v u. v < p_nw p \<Longrightarrow> p_w p v \<noteq> W_drain_wait u"
    and u: "p_user p = u_alert u" "user_inv p (u_alert u)"
  shows "pinv p"
proof -
  have "u_alert u \<noteq> U_gone" using u(2) by (cases u) auto
  with m u show ?thesis by (auto simp: pinv_def pdrain_def)
qed

text \<open>
  The end of a task: \<open>p1\<close> is the state in which it has left its place; all that has
  happened since \<open>p\<close> is what \<open>pevo\<close> allows.
\<close>

lemma finish_pinv:
  assumes m: "psd Q p" "user_inv p (p_user p)" and e: "pevo {} p p1"
    and m1: "pmid {t} {} Q1 p1" and sd: "p_shutdown p \<Longrightarrow> Q1 = [] \<and> p_w p1 = p_w p \<and> p_nw p1 = p_nw p \<and> p_th p1 = p_th p"
    and w: "w < p_nw p1" "w_task (p_w p1 w) = Some t" "\<And>s fd. p_w p1 w \<noteq> W_close t s fd"
    and x: "p_th p1 t = Some x" "\<not> pt_done x" and r: "res_status r \<noteq> MYIO_PENDING"
    and rs: "\<And>s. res_ptr r = Some s \<Longrightarrow> s < m_brk p1 \<and> (\<forall>u z. p_th p1 u = Some z \<longrightarrow> res_ptr (pt_res z) \<noteq> Some s) \<and>
      (\<exists>y. p_sh p1 s = Some y \<and> \<not> ps_closing y \<and> ps_inflight y = 0)"
  shows "pinv (worker_finish os p1 w t r)"
proof -
  let ?p = "worker_finish os p1 w t r"
  note f = finish_pmid [where os = os, OF m1 w x r rs refl]
  have h: "held p1 = held p" by (rule pevo_sets(1) [OF e])
  have f24: "held ?p = held p1 - {t}" "p_th ?p = (p_th p1)(t := if pt_detached x then None else Some (x\<lparr>pt_res := r, pt_done := True\<rparr>))"
    using f(2,4) by simp_all
  have us: "p_user ?p = u_alert (p_user p)" using f(7) e unfolding pevo_def by auto
  have sh: "p_shutdown ?p = p_shutdown p" using f(8) e unfolding pevo_def by auto
  have "psd Q1 ?p"
    unfolding psd_def
  proof (intro impI conjI)
    assume "p_shutdown ?p"
    then have s: "p_shutdown p" using sh by simp
    note q = sd [OF s]
    show "Q1 = []" using q by simp
    have np: "\<forall>v < p_nw p. \<not> w_parked (p_w p v)" and pd: "\<forall>t x. p_th p t = Some x \<longrightarrow> \<not> pt_done x \<longrightarrow> t \<in> held p"
      using m(1) s by (simp_all add: psd_def)
    show "\<forall>v < p_nw ?p. \<not> w_parked (p_w ?p v)"
    proof (intro allI impI notI)
      fix v
      assume "v < p_nw ?p" "w_parked (p_w ?p v)"
      then have "v < p_nw p" "w_parked (p_w p v)" using f(3) q f(6) [of v] by auto
      with np show False by blast
    qed
    show "\<forall>u z. p_th ?p u = Some z \<longrightarrow> \<not> pt_done z \<longrightarrow> u \<in> held ?p"
      using pd q unfolding f24 h by (auto split: if_splits)
  qed
  moreover have "user_inv ?p (u_alert (p_user p))"
  proof (cases "p_user p")
    case (U_freeing u b)
    with m(2) obtain z where z: "p_th p u = Some z" "\<not> pt_detached z" "pt_done z \<or> u \<in> held p" "\<not> p_shutdown p" by (auto split: if_splits)
    from e z obtain z1 where z1: "p_th p1 u = Some z1" "\<not> pt_detached z1" "pt_done z \<longrightarrow> pt_done z1" unfolding pevo_def by blast
    have "\<exists>z2. p_th ?p u = Some z2 \<and> \<not> pt_detached z2 \<and> (if pt_done z2 then \<not> False else u \<in> held ?p)"
    proof (cases "u = t")
      case True
      with z1 x(1) f(4) show ?thesis by auto
    next
      case False
      with z1 z f(2,4) h show ?thesis by auto
    qed
    with U_freeing z(4) sh show ?thesis by simp
  qed (use m(2) sh in auto)
  ultimately show ?thesis using f(1,5) us by (intro awake_pinv) auto
qed

lemma leave_frame:
  "p_shutdown p \<Longrightarrow> p_w (leave_sock os p t k) = p_w p \<and> p_nw (leave_sock os p t k) = p_nw p \<and> p_th (leave_sock os p t k) = p_th p"
proof -
  have u: "p_w (upd_ps s f q) = p_w q" "p_nw (upd_ps s f q) = p_nw q" "p_th (upd_ps s f q) = p_th q" for s f q
    by (simp_all add: upd_ps_def m_flag_def split: option.splits)
  have o: "p_w (pool_wq_remove q s t) = p_w q" "p_nw (pool_wq_remove q s t) = p_nw q" "p_th (pool_wq_remove q s t) = p_th q"
    "p_w (snd (pool_wq_pop q s)) = p_w q" "p_nw (snd (pool_wq_pop q s)) = p_nw q" "p_th (snd (pool_wq_pop q s)) = p_th q" for q s
    by (auto simp: pool_wq_remove_def pool_wq_pop_def m_flag_def u split: option.splits)
  have c: "p_w (chk_ps s q) = p_w q" "p_nw (chk_ps s q) = p_nw q" "p_th (chk_ps s q) = p_th q"
    "p_w (upd_tsock t f q) = p_w q" "p_nw (upd_tsock t f q) = p_nw q" "p_th (upd_tsock t f q) = p_th q" for s f q
    by (auto simp: chk_ps_def m_flag_def upd_tsock_def u split: option.splits)
  assume "p_shutdown p"
  then show ?thesis
    by (simp add: leave_sock_def write_advance_def case_prod_beta Let_def u o c m_flag_def split: option.splits)
qed

lemma psame_same: "qlist p Q \<Longrightarrow> t \<notin> set Q \<Longrightarrow> qlist p (remove1 t Q)"
  by (simp add: remove1_idem)

lemma leave_any:
  assumes m: "pmid {} {} Q p" "psd Q p" and t: "t \<in> held p" and x: "p_th p t = Some x" "\<not> pt_done x"
  shows "\<exists>Q'. pmid {t} {} Q' (leave_sock os p t (pt_kind x)) \<and> pevo {} p (leave_sock os p t (pt_kind x)) \<and>
    dom (p_sh (leave_sock os p t (pt_kind x))) = dom (p_sh p) \<and> p_th (leave_sock os p t (pt_kind x)) t = Some x \<and>
    (pt_kind x \<noteq> OP_SOCK_WRITE \<longrightarrow> p_th (leave_sock os p t (pt_kind x)) = p_th p \<and>
      (\<forall>u. pt_sock x \<noteq> Some u \<longrightarrow> p_sh (leave_sock os p t (pt_kind x)) u = p_sh p u)) \<and>
    (p_shutdown p \<longrightarrow> Q' = [])"
proof -
  note p = pmid_parts [OF m(1)] and l = locs_parts [OF pmid_parts(4) [OF m(1)]]
  have tQ: "t \<notin> set Q" using l(1) t by (auto simp: place_inv_def)
  have q: "qlist p (remove1 t Q)" by (rule psame_same [OF p(2) tQ])
  have rm: "remove1 t Q = Q" using tQ by (simp add: remove1_idem)
  show ?thesis
  proof (cases "pt_kind x = OP_SOCK_WRITE")
    case False
    note lp = leave_plain_pmid [where os = os, OF m(1) _ x False psame_refl q p(9)]
    show ?thesis using lp(1,2,3,4,7) rm x(1) m(2) by (intro exI [of _ Q]) (auto simp: psd_def)
  next
    case True
    obtain s y where s: "pt_sock x = Some s" "p_sh p s = Some y" by (rule on_sock_live [OF m(1) _ x]) (simp_all add: True)
    have vt: "pview {} (p_th p) t = Some (OP_SOCK_WRITE, Some s)" using x True s by (auto simp: pview_Some)
    have dw: "u \<in> held p \<Longrightarrow> wq_head (ps_wq y) = Some u" if "pview {} (p_th p) u = Some (OP_SOCK_WRITE, Some s)" for u
      using l(2) that s(2) unfolding disp_inv_def by fastforce
    have hd: "wq_head (ps_wq y) = Some t" by (rule dw [OF vt t])
    show ?thesis
    proof (cases "p_shutdown p")
      case False
      from leave_head_pmid [where os = os, OF m(1) _ x True s hd _ False psame_refl q p(9)] x(1) True False show ?thesis by auto
    next
      case sd: True
      obtain xs where xs: "wq_list (p_wnext p) (ps_wq y) xs" "set xs = writes_on (pview {} (p_th p)) s" using fifo_list [OF l(4) s(2)] by blast
      have sub: "set xs \<subseteq> {t}"
      proof
        fix u
        assume "u \<in> set xs"
        then have v: "pview {} (p_th p) u = Some (OP_SOCK_WRITE, Some s)" using xs(2) by (simp add: writes_on_def)
        then have "u \<in> held p" using m(2) sd by (auto simp: psd_def pview_Some)
        with dw [OF v] hd show "u \<in> {t}" by simp
      qed
      have "set (remove1 t xs) = set xs - {t}" by (rule set_remove1_eq [OF wq_list_distinct [OF xs(1)]])
      with sub have "set (remove1 t xs) = {}" by simp
      then have x1: "remove1 t xs = []" by simp
      let ?p = "leave_sock os p t (pt_kind x)"
      note lw = leave_write_pmid [where os = os, OF m(1) _ x True s xs(1) psame_refl q p(9)]
      have m1: "pmid {t} {s} Q ?p" using lw(1) sd hd rm by simp
      obtain z where z: "p_sh ?p s = Some z" "wq_list (p_wnext ?p) (ps_wq z) []" using lw(5) sd x1 by auto
      have "locs (pview {t} (p_th ?p)) (p_sh ?p) (p_wnext ?p) Q (held ?p - {t}) (freed ?p) ({s} - {s})"
        by (rule locs_settled [OF pmid_parts(4) [OF m1] z(1)]) (use wq_list_head [OF z(2)] in simp)
      then have "pmid {t} {} Q ?p" using m1 by (simp add: pmid_def pdata_def)
      with lw(2-4) sd x(1) True m(2) show ?thesis by (intro exI [of _ Q]) (auto simp: psd_def)
    qed
  qed
qed


lemma closed_pinv:
  assumes i: "pinv p" and w: "w < p_nw p" "p_w p w = W_closed t"
  shows "pinv (worker_finish os p w t (r_ok 0 None))"
proof -
  have wt: "w_task (p_w p w) = Some t" and ng: "p_w p w \<noteq> W_gone" using w by simp_all
  obtain Q where m: "pmid {} {} Q p" "psd Q p" "pdrain p" "user_inv p (p_user p)" by (rule pinv_worker [OF i w(1) ng])
  note k = worker_task [OF m(1) w(1) wt]
  obtain x where x: "p_th p t = Some x" "\<not> pt_done x" by (rule held_task [OF m(1) k(1)]) auto
  then have "leave_sock os p t (pt_kind x) = p" using k(4) w by (simp add: leave_sock_def)
  with leave_any [OF m(1,2) k(1) x, of os] obtain Q' where q: "pmid {t} {} Q' p" "p_shutdown p \<longrightarrow> Q' = []" by auto
  show ?thesis by (rule finish_pinv [OF m(2,4) pevo_refl q(1) _ w(1) wt _ x]) (use q(2) w in simp_all)
qed

lemma wrap_spec:
  assumes m: "pmid {} {} Q p" and r: "res_status r \<noteq> MYIO_PENDING" "res_ptr r = None" and e: "worker_wrap os p k r fd = (r1, p1)"
  shows "pmid {} {} Q p1" "pevo {} p p1" "p_th p1 = p_th p" "p_w p1 = p_w p" "p_nw p1 = p_nw p" "p_shutdown p1 = p_shutdown p"
    "res_status r1 \<noteq> MYIO_PENDING"
    "\<And>s. res_ptr r1 = Some s \<Longrightarrow> s = m_brk p \<and> p_sh p1 s = Some (pool_sock0 fd) \<and> m_brk p1 = Suc (m_brk p) \<and> (k = OP_CONNECT \<or> k = OP_ACCEPT)"
    "\<And>s y. p_sh p s = Some y \<Longrightarrow> p_sh p1 s = Some y"
proof -
  note sl = sock_link_pmid [where os = os and fd = fd, OF m]
  have nw: "p_nw (snd (pool_sock_link os p fd)) = p_nw p" "p_shutdown (snd (pool_sock_link os p fd)) = p_shutdown p"
    by (simp_all add: pool_sock_link_def sys_alloc_def sys_call_def Let_def)
  show "res_status r1 \<noteq> MYIO_PENDING"
    using e r by (auto simp: worker_wrap_def case_prod_beta split: if_splits option.splits)
  show "\<And>s. res_ptr r1 = Some s \<Longrightarrow> s = m_brk p \<and> p_sh p1 s = Some (pool_sock0 fd) \<and> m_brk p1 = Suc (m_brk p) \<and> (k = OP_CONNECT \<or> k = OP_ACCEPT)"
    using e r sl(6) by (auto simp: worker_wrap_def case_prod_beta split: if_splits option.splits)
  have "p1 = p \<or> p1 = snd (pool_sock_link os p fd) \<or> (\<exists>tr. p1 = (snd (pool_sock_link os p fd))\<lparr>m_trace := tr\<rparr>)"
    using e by (auto simp: worker_wrap_def case_prod_beta sys_call_def Let_def split: if_splits option.splits)
  then show "pmid {} {} Q p1" "pevo {} p p1" "p_th p1 = p_th p" "p_w p1 = p_w p" "p_nw p1 = p_nw p" "p_shutdown p1 = p_shutdown p"
    "\<And>s y. p_sh p s = Some y \<Longrightarrow> p_sh p1 s = Some y"
    using m sl(1-5) nw pevo_refl pevo_trans [OF sl(2) pevo_trace] by auto
qed

lemma leave_spec: "p_th p t = Some x \<Longrightarrow> pt_sock x = Some s \<Longrightarrow> op_on_sock k \<Longrightarrow> p_th (leave_sock os p t k) t = Some x \<Longrightarrow>
    p_sh (leave_sock os p t k) s = Some y \<Longrightarrow>
    worker_leave os p t k r =
      (if ps_closing y then (r_canceled, case res_ptr r of Some n \<Rightarrow> pool_sock_drop os (leave_sock os p t k) n | None \<Rightarrow> leave_sock os p t k)
       else (r, leave_sock os p t k))"
  by (cases "k = OP_SOCK_WRITE"; cases "res_ptr r") (simp_all add: worker_leave_def leave_sock_def Let_def live_access)

text \<open>The state a commit has reached when it stores the result.\<close>

lemma commit_parts:
  assumes m: "pmid {} {} Q p" "psd Q p" and w: "w < p_nw p" "p_w p w = W_commit t r fd"
  obtains p2 r2 Q' x where "worker_commit os p w t r fd = worker_finish os p2 w t r2" "pevo {} p p2" "pmid {t} {} Q' p2"
    "p_shutdown p \<Longrightarrow> Q' = [] \<and> p_w p2 = p_w p \<and> p_nw p2 = p_nw p \<and> p_th p2 = p_th p"
    "w < p_nw p2" "p_w p2 w = W_commit t r fd" "p_th p t = Some x" "p_th p2 t = Some x" "\<not> pt_done x" "res_status r2 \<noteq> MYIO_PENDING"
    "\<And>s. res_ptr r2 = Some s \<Longrightarrow> s < m_brk p2 \<and> (\<forall>u z. p_th p2 u = Some z \<longrightarrow> res_ptr (pt_res z) \<noteq> Some s) \<and>
      (\<exists>y. p_sh p2 s = Some y \<and> \<not> ps_closing y \<and> ps_inflight y = 0)"
proof -
  have wt: "w_task (p_w p w) = Some t" and ng: "p_w p w \<noteq> W_gone" using w by simp_all
  note k = worker_task [OF m(1) w(1) wt]
  obtain x where x: "p_th p t = Some x" "\<not> pt_done x" by (rule held_task [OF m(1) k(1)]) auto
  have r: "res_status r \<noteq> MYIO_PENDING" "res_ptr r = None" using k(4) w by simp_all
  let ?k = "pt_kind x"
  obtain r1 p1 where wr: "worker_wrap os p ?k r fd = (r1, p1)" by fastforce
  note wp = wrap_spec [OF m(1) r wr]
  have x1: "p_th p1 t = Some x" using wp(3) x by simp
  have h1: "t \<in> held p1" using pevo_sets(1) [OF wp(2)] k(1) by simp
  have sd1: "psd Q p1" using m(2) pevo_sets(1) [OF wp(2)] by (simp add: psd_def wp(3-6))
  let ?q = "leave_sock os p1 t ?k"
  from leave_any [OF wp(1) sd1 h1 x1 x(2), of os] obtain Q' where q: "pmid {t} {} Q' ?q" "pevo {} p1 ?q" "dom (p_sh ?q) = dom (p_sh p1)"
    "p_th ?q t = Some x" "?k \<noteq> OP_SOCK_WRITE \<longrightarrow> p_th ?q = p_th p1 \<and> (\<forall>u. pt_sock x \<noteq> Some u \<longrightarrow> p_sh ?q u = p_sh p1 u)"
    "p_shutdown p1 \<longrightarrow> Q' = []" by blast
  have fresh: "s < m_brk ?q \<and> (\<forall>u z. p_th ?q u = Some z \<longrightarrow> res_ptr (pt_res z) \<noteq> Some s) \<and> p_sh ?q s = Some (pool_sock0 fd)"
    if s: "res_ptr r1 = Some s" for s
  proof -
    note s1 = wp(8) [OF s]
    have px: "\<And>u z. p_th p u = Some z \<Longrightarrow> ptask {} (m_brk p) (held p) u z" by (rule ptskD [OF pmid_parts(3) [OF m(1)]])
    have "pt_sock x \<noteq> Some s" using px [OF x(1)] s1 by (auto simp: ptask_def)
    with q(5) s1 have "p_th ?q = p_th p" "p_sh ?q s = Some (pool_sock0 fd)" using wp(3) by auto
    moreover have "res_ptr (pt_res z) \<noteq> Some s" if "p_th p u = Some z" for u z using px [OF that] s1 by (auto simp: ptask_def)
    moreover have "s < m_brk ?q" using q(2) s1 unfolding pevo_def by simp
    ultimately show ?thesis by simp
  qed
  have idle: "\<not> ps_closing (pool_sock0 fd)" "ps_inflight (pool_sock0 fd) = 0" by (simp_all add: pool_sock0_def)
  obtain r2 p2 where lv: "worker_leave os p1 t ?k r1 = (r2, p2)" by fastforce
  have e: "worker_commit os p w t r fd = worker_finish os p2 w t r2"
    using x wr lv by (simp add: worker_commit_def live_access)
  have l2: "pmid {t} {} Q' p2 \<and> pevo {} p1 p2 \<and> p_th p2 = p_th ?q \<and> p_w p2 = p_w ?q \<and> p_nw p2 = p_nw ?q \<and>
      ((r2 = r1 \<and> p2 = ?q) \<or> r2 = r_canceled)"
  proof (cases "op_on_sock ?k")
    case False
    then have "worker_leave os p1 t ?k r1 = (r1, ?q)" by (auto simp: worker_leave_def leave_sock_def)
    with lv q(1,2) show ?thesis by simp
  next
    case True
    obtain s y where s: "pt_sock x = Some s" "p_sh p1 s = Some y" by (rule on_sock_live [OF wp(1) _ x1 x(2) True]) auto
    then obtain z where z: "p_sh ?q s = Some z" using q(3) by (metis domD domI)
    note ls = leave_spec [where r = r1, OF x1 s(1) True q(4) z]
    show ?thesis
    proof (cases "ps_closing z \<and> res_ptr r1 \<noteq> None")
      case False
      with ls lv q(1,2) show ?thesis by (auto split: if_splits)
    next
      case True
      then obtain n where n: "res_ptr r1 = Some n" by blast
      have y: "p_sh ?q n = Some (pool_sock0 fd)" using fresh [OF n] by blast
      note dr = sock_drop_pmid [OF q(1) y idle, of os]
      from True n ls lv have "r2 = r_canceled" "p2 = pool_sock_drop os ?q n" by auto
      with dr pevo_trans [OF q(2) dr(2)] show ?thesis by (simp add: sock_drop_fields [OF y])
    qed
  qed
  have e2: "pevo {} p p2" using pevo_trans [OF wp(2)] l2 by blast
  have pw: "w < p_nw p2" "p_w p2 w = W_commit t r fd"
  proof -
    have b: "w_busy (p_w p w)" using wt by (simp add: w_busy_def)
    have "p_nw p \<le> p_nw p2" "p_w p2 w = p_w p w \<or> p_w p2 w = w_alert (p_w p w)" using e2 b w(1) unfolding pevo_def by blast+
    with w show "w < p_nw p2" "p_w p2 w = W_commit t r fd" by auto
  qed
  have sd2: "p_shutdown p \<Longrightarrow> Q' = [] \<and> p_w p2 = p_w p \<and> p_nw p2 = p_nw p \<and> p_th p2 = p_th p"
    using q(6) wp(3-6) l2 leave_frame [of p1 os t ?k] by auto
  show thesis
  proof (rule that [OF e e2 _ sd2 pw x(1) _ x(2)])
    show "pmid {t} {} Q' p2" using l2 by blast
    show "p_th p2 t = Some x" using l2 q(4) by simp
    show "res_status r2 \<noteq> MYIO_PENDING" using l2 wp(7) by auto
    show "\<And>s. res_ptr r2 = Some s \<Longrightarrow> s < m_brk p2 \<and> (\<forall>u z. p_th p2 u = Some z \<longrightarrow> res_ptr (pt_res z) \<noteq> Some s) \<and>
      (\<exists>y. p_sh p2 s = Some y \<and> \<not> ps_closing y \<and> ps_inflight y = 0)" using l2 fresh idle by fastforce
  qed
qed

lemma commit_pinv:
  assumes i: "pinv p" and w: "w < p_nw p" "p_w p w = W_commit t r fd"
  shows "pinv (worker_commit os p w t r fd)"
proof -
  have ng: "p_w p w \<noteq> W_gone" using w by simp
  obtain Q where m: "pmid {} {} Q p" "psd Q p" "pdrain p" "user_inv p (p_user p)" by (rule pinv_worker [OF i w(1) ng])
  obtain p2 r2 Q' x where c: "worker_commit os p w t r fd = worker_finish os p2 w t r2" "pevo {} p p2" "pmid {t} {} Q' p2"
    "p_shutdown p \<Longrightarrow> Q' = [] \<and> p_w p2 = p_w p \<and> p_nw p2 = p_nw p \<and> p_th p2 = p_th p"
    "w < p_nw p2" "p_w p2 w = W_commit t r fd" "p_th p2 t = Some x" "\<not> pt_done x" "res_status r2 \<noteq> MYIO_PENDING"
    and rs: "\<And>s. res_ptr r2 = Some s \<Longrightarrow> s < m_brk p2 \<and> (\<forall>u z. p_th p2 u = Some z \<longrightarrow> res_ptr (pt_res z) \<noteq> Some s) \<and>
      (\<exists>y. p_sh p2 s = Some y \<and> \<not> ps_closing y \<and> ps_inflight y = 0)" by (rule commit_parts [where os = os, OF m(1,2) w]) blast
  show ?thesis unfolding c(1)
    by (rule finish_pinv [OF m(2,4) c(2,3,4,5) _ _ c(7,8,9) rs]) (use c(6) in simp_all)
qed

subsection \<open>A worker at the queue\<close>

lemma psame_pmid:
  assumes m: "pmid T D Q p" and s: "psame p p'" and q: "qlist p' Q" and t: "pthr p'"
  shows "pmid T D Q p'"
proof -
  have "p_th p' = p_th p" "p_sh p' = p_sh p" "p_wnext p' = p_wnext p" "p_socks p' = p_socks p" "m_brk p' = m_brk p" "m_fault p' = m_fault p"
    using s by (simp_all add: psame_def)
  with pmid_parts [OF m] q t show ?thesis by (intro pmid_stepI [OF m psame_evo [OF s]]) auto
qed

lemma free_pc:
  assumes m: "pmid T D Q p" and w: "w < p_nw p" "\<not> w_busy (p_w p w)" "\<not> w_busy pc"
    and p': "p' = p\<lparr>m_trace := tr, p_idle := i, p_nlive := n, p_w := (p_w p)(w := pc)\<rparr>"
    and i: "i = p_idle p - (if w_idle (p_w p w) then 1 else 0) + (if w_idle pc then 1 else 0)"
    and n: "n = p_nlive p - (if p_w p w \<noteq> W_gone then 1 else 0) + (if pc \<noteq> W_gone then 1 else 0)"
    and q: "Q = [] \<or> w_looking pc"
  shows "pmid T D Q p'" and "held p' = held p"
proof -
  note p = pmid_parts [OF m]
  have ws: "wsame p p'" using wsame_set [OF w] by (rule wsame_cong) (simp_all add: p' set_w_def)
  then have ps: "psame p p'" by (simp add: psame_def p')
  show "held p' = held p" by (rule wsame_sets(1) [OF ws])
  have ql: "qlist p' Q" using p(2) by (simp add: qlist_def pq_def p')
  have c: "wcount P p' = (if P (p_w p w) then wcount P p - 1 else wcount P p) + (if P pc then 1 else 0)" for P
  proof -
    have "wcount P p' = wcount P (set_w w pc p)" by (simp add: wcount_def p' set_w_def)
    with wcount_set(1) [OF w(1)] show ?thesis by simp
  qed
  have pos: "P (p_w p w) \<Longrightarrow> 0 < wcount P p" for P by (rule wcount_set(2) [OF w(1)])
  have "pthr p'" unfolding pthr_def
  proof (intro conjI)
    show "p_idle p' = int (wcount w_idle p')" using p(9) pos [of w_idle] by (simp add: c pthr_def) (simp add: p' i, linarith)
    show "p_nlive p' = wcount (\<lambda>pc. pc \<noteq> W_gone) p'" using p(9) pos [of "\<lambda>pc. pc \<noteq> W_gone"] by (simp add: c pthr_def) (simp add: p' n)
    show "p_nrunning p' = wcount w_busy p'" using p(9) w by (simp add: c pthr_def) (simp add: p')
    show "p_nqueued p' \<le> wcount w_looking p'"
      using p(2,9) q pos [of w_looking] by (auto simp: c pthr_def qlist_def) (simp_all add: p')
    show "\<forall>v v' t. v < p_nw p' \<longrightarrow> v' < p_nw p' \<longrightarrow> w_task (p_w p' v) = Some t \<longrightarrow> w_task (p_w p' v') = Some t \<longrightarrow> v = v'"
      by (rule pthr_tasks [OF p(9) ws])
  qed
  then show "pmid T D Q p'" by (rule psame_pmid [OF m ps ql])
qed

lemma pdrain_sub:
  assumes "pdrain p" and "p_sh p' = p_sh p" "p_nw p' = p_nw p" and "\<And>v t. p_w p' v = W_drain_wait t \<Longrightarrow> p_w p v = W_drain_wait t"
    and "\<And>t x. p_th p t = Some x \<Longrightarrow> \<exists>x'. p_th p' t = Some x' \<and> pt_sock x' = pt_sock x"
  shows "pdrain p'"
  unfolding pdrain_def
proof (intro allI impI)
  fix v t
  assume "v < p_nw p'" "p_w p' v = W_drain_wait t"
  with assms(3,4) have "v < p_nw p" "p_w p v = W_drain_wait t" by auto
  with assms(1) obtain x s y where x: "p_th p t = Some x" "pt_sock x = Some s" "p_sh p s = Some y" "0 < ps_inflight y" unfolding pdrain_def by blast
  from assms(5) [OF x(1)] x assms(2) show "\<exists>x s y. p_th p' t = Some x \<and> pt_sock x = Some s \<and> p_sh p' s = Some y \<and> 0 < ps_inflight y" by auto
qed

text \<open>The worker \<open>w\<close> is back at the lock; \<open>unidle\<close> is the state with its count taken back.\<close>

definition unidle :: "pool \<Rightarrow> nat \<Rightarrow> pool" where
  "unidle p w = p\<lparr>p_idle := p_idle p - (if w_idle (p_w p w) then 1 else 0)\<rparr>"

lemma retire_pinv:
  assumes m: "pmid {} {} [] p" "psd [] p" "pdrain p" "user_inv p (p_user p)" and w: "w < p_nw p" "w_looking (p_w p w)"
  shows "pinv (worker_take (unidle p w) w)"
proof -
  have qh: "p_qhead p = None" using pmid_parts(2) [OF m(1)] wq_list_head [of "p_qnext p" "pq p" "[]"] by (simp add: qlist_def pq_def)
  have b: "\<not> w_busy (p_w p w)" "p_w p w \<noteq> W_gone" "\<not> w_parked (p_w p w)" using w(2) by (cases "p_w p w"; simp add: w_busy_def)+
  have nl: "0 < p_nlive p" using wcount_set(2) [OF w(1), of "\<lambda>pc. pc \<noteq> W_gone"] b pmid_parts(9) [OF m(1)] by (simp add: pthr_def)
  let ?i = "p_idle p - (if w_idle (p_w p w) then 1 else 0)"
  let ?p = "p\<lparr>m_trace := m_trace p, p_idle := ?i, p_nlive := p_nlive p - 1, p_w := (p_w p)(w := W_gone)\<rparr>"
  have e: "worker_take (unidle p w) w = (if p_shutdown p \<and> p_nlive p - 1 = 0 then done_broadcast ?p else ?p)"
    using qh nl by (simp add: worker_take_def unidle_def set_w_def Let_def)
  have k: "pmid {} {} [] ?p" "held ?p = held p"
    by (rule free_pc [OF m(1) w(1) b(1) _ refl]; use b in \<open>simp add: w_busy_def\<close>)+
  have sd: "psd [] ?p" using m(2) k(2) by (auto simp: psd_def)
  have dr: "pdrain ?p" by (rule pdrain_sub [OF m(3)]) (auto split: if_splits)
  show ?thesis
  proof (cases "p_shutdown p \<and> p_nlive p - 1 = 0")
    case False
    have nd: "user_inv ?p (p_user p)" using m(4) False k(2) by (cases "p_user p") (auto split: if_splits)
    have "p_user p \<noteq> U_gone" using m(4) by auto
    with k sd dr nd False show ?thesis unfolding e by (auto simp: pinv_def)
  next
    case True
    have h: "held (done_broadcast ?p) = held p" using pevo_sets(1) [OF broadcast_evo] k(2) by metis
    have "psd [] (done_broadcast ?p)" using sd h k(2) unfolding psd_def by (auto simp: done_broadcast_def)
    moreover have "user_inv (done_broadcast ?p) (u_alert (p_user p))" using m(4) True by (cases "p_user p") (auto simp: done_broadcast_def)
    ultimately have "pinv (done_broadcast ?p)"
      by (intro awake_pinv [OF broadcast_pmid [OF k(1)], of "p_user p"]) (simp_all add: broadcast_awake, simp add: done_broadcast_def)
    with True show ?thesis unfolding e by simp
  qed
qed

lemma park_pinv:
  assumes m: "pmid {} {} [] p" "psd [] p" "pdrain p" "user_inv p (p_user p)" and w: "w < p_nw p" "w_looking (p_w p w)" and sd: "\<not> p_shutdown p"
  shows "pinv (worker_look os (unidle p w) w)"
proof -
  have qh: "p_qhead p = None" using pmid_parts(2) [OF m(1)] wq_list_head [of "p_qnext p" "pq p" "[]"] by (simp add: qlist_def pq_def)
  have b: "\<not> w_busy (p_w p w)" "p_w p w \<noteq> W_gone" using w(2) by (cases "p_w p w"; simp add: w_busy_def)+
  have nl: "0 < p_nlive p" using wcount_set(2) [OF w(1), of "\<lambda>pc. pc \<noteq> W_gone"] b pmid_parts(9) [OF m(1)] by (simp add: pthr_def)
  let ?a = "os (m_trace p) C_clock"
  let ?d = "W_parked (fst (a_rem ?a) + POOL_IDLE_SEC, snd (a_rem ?a))"
  let ?i = "p_idle p - (if w_idle (p_w p w) then 1 else 0) + 1"
  let ?p = "p\<lparr>m_trace := (C_clock, ?a) # m_trace p, p_idle := ?i, p_nlive := p_nlive p, p_w := (p_w p)(w := ?d)\<rparr>"
  have e: "worker_look os (unidle p w) w = ?p"
    using qh sd by (simp add: worker_look_def unidle_def sys_call_def set_w_def Let_def)
  have k: "pmid {} {} [] ?p" "held ?p = held p"
    by (rule free_pc [OF m(1) w(1) b(1) _ refl]; use b nl in \<open>simp add: w_busy_def\<close>)+
  have dr: "pdrain ?p" by (rule pdrain_sub [OF m(3)]) (auto split: if_splits)
  have nd: "user_inv ?p (p_user p)" using m(4) k(2) by (cases "p_user p") (auto split: if_splits)
  have "p_user p \<noteq> U_gone" using m(4) by auto
  with k dr nd sd show ?thesis unfolding e by (auto simp: pinv_def psd_def)
qed


lemma queue_take:
  assumes q: "qlist p (t # Q)"
  shows "p_qhead p = Some t" and "qlist (p\<lparr>p_qhead := p_qnext p t, p_qtail := if p_qnext p t = None then None else p_qtail p,
     p_qnext := (p_qnext p)(t := None), p_nqueued := p_nqueued p - 1\<rparr>) Q"
proof -
  have l: "wq_list (p_qnext p) (pq p) (t # Q)" using q by (simp add: qlist_def)
  show "p_qhead p = Some t" using wq_list_head [OF l] by (simp add: pq_def)
  have n: "p_qnext p t = (if Q = [] then None else Some (hd Q))" by (rule wq_list_next [OF l])
  have "wpath (p_qnext p) (p_qnext p t) Q None" "distinct (t # Q)" "Q \<noteq> [] \<Longrightarrow> p_qtail p = Some (last Q)"
    using l by (auto simp: wq_list_def pq_def)
  with n q show "qlist (p\<lparr>p_qhead := p_qnext p t, p_qtail := if p_qnext p t = None then None else p_qtail p,
     p_qnext := (p_qnext p)(t := None), p_nqueued := p_nqueued p - 1\<rparr>) Q"
    by (auto simp: qlist_def wq_list_def pq_def)
qed

lemma take_pmid:
  assumes m: "pmid {} {} (t # Q) p" and w: "w < p_nw p" "w_looking (p_w p w)" and x: "p_th p t = Some x"
    and p': "p' = worker_take (unidle p w) w"
  shows "pmid {} {} Q p'" and "held p' = insert t (held p)"
    and "p_th p' = (p_th p)(t \<mapsto> x\<lparr>pt_started := True, pt_worker := w\<rparr>)" and "p_sh p' = p_sh p"
    and "p_nqueued p' + p_nrunning p' = p_nqueued p + p_nrunning p" and "p_user p' = p_user p" and "p_shutdown p' = p_shutdown p"
    and "p_completions p' = p_completions p" and "p_comp_seen p' = p_comp_seen p" and "p_nlive p' = p_nlive p"
    and "p_nw p' = p_nw p" and "p_w p' = (p_w p)(w := W_start t)"
proof -
  note p = pmid_parts [OF m] and qt = queue_take [OF pmid_parts(2) [OF m]]
  have nq: "p_nqueued p = Suc (length Q)" using p(2) by (simp add: qlist_def)
  let ?x = "x\<lparr>pt_started := True, pt_worker := w\<rparr>"
  let ?i = "p_idle p - (if w_idle (p_w p w) then 1 else 0)"
  have e: "p' = p\<lparr>p_qhead := p_qnext p t, p_qtail := if p_qnext p t = None then None else p_qtail p, p_nqueued := p_nqueued p - 1,
      p_nrunning := Suc (p_nrunning p), p_idle := ?i, p_th := (p_th p)(t \<mapsto> ?x), p_qnext := (p_qnext p)(t := None), p_w := (p_w p)(w := W_start t)\<rparr>"
    using qt(1) nq x unfolding p' by (cases "p_qnext p t") (simp_all add: worker_take_def unidle_def set_w_def chk_pt_def upd_pt_def Let_def)
  show f: "p_th p' = (p_th p)(t \<mapsto> ?x)" "p_sh p' = p_sh p" "p_user p' = p_user p" "p_shutdown p' = p_shutdown p"
    "p_completions p' = p_completions p" "p_comp_seen p' = p_comp_seen p" "p_nlive p' = p_nlive p" "p_nw p' = p_nw p" "p_w p' = (p_w p)(w := W_start t)"
    by (simp_all add: e)
  show "p_nqueued p' + p_nrunning p' = p_nqueued p + p_nrunning p" using nq by (simp add: e)
  have b: "\<not> w_busy (p_w p w)" "p_w p w \<noteq> W_gone" "w_task (p_w p w) = None" "\<And>s fd u. p_w p w \<noteq> W_close u s fd" "\<And>u. p_w p w \<noteq> W_closed u"
    using w(2) by (cases "p_w p w"; simp add: w_busy_def)+
  show h: "held p' = insert t (held p)"
  proof -
    have "(\<exists>v < p_nw p. w_task (((p_w p)(w := W_start t)) v) = Some u) \<longleftrightarrow> u = t \<or> (\<exists>v < p_nw p. w_task (p_w p v) = Some u)" for u
      using w(1) b(3) by (auto simp: fun_upd_apply) (metis option.distinct(1))
    then show ?thesis unfolding held_def f by auto
  qed
  have fr: "freed p' = freed p"
  proof -
    have "((p_w p)(w := W_start t)) v = W_closed u \<longleftrightarrow> p_w p v = W_closed u" for v u using b(5) by simp
    then show ?thesis unfolding freed_def f by simp
  qed
  have ul: "unlinked p' = unlinked p"
  proof -
    have "((p_w p)(w := W_start t)) v = W_close u s fd \<longleftrightarrow> p_w p v = W_close u s fd" for v u s fd using b(4) by simp
    then show ?thesis unfolding unlinked_def f by simp
  qed
  have tp: "t \<notin> held p" "\<not> pt_done x"
  proof -
    have "t \<in> dom (pview {} (p_th p))" "t \<notin> held p" using locs_parts(1) [OF p(4)] by (auto simp: place_inv_def)
    then show "t \<notin> held p" "\<not> pt_done x" using x by (auto simp: pview_Some)
  qed
  have px: "ptask {} (m_brk p) (held p) t x" by (rule ptskD [OF p(3) x])
  have tk: "ptsk {} (m_brk p) ((p_th p)(t \<mapsto> ?x)) (insert t (held p))"
  proof -
    have "ptsk {t} (m_brk p) (p_th p) (insert t (held p))" by (rule ptsk_mono [OF p(3)]) auto
    then have "ptsk {t} (m_brk p) ((p_th p)(t \<mapsto> ?x)) (insert t (held p))"
      by (rule ptsk_upd) (use px ptsk_own [OF p(3) x] in \<open>auto simp: ptask_def\<close>)
    then have "ptsk ({t} - {t}) (m_brk p) ((p_th p)(t \<mapsto> ?x)) (insert t (held p))"
      by (rule ptsk_settle) (use px tp in \<open>auto simp: ptask_def\<close>)
    then show ?thesis by simp
  qed
  have vw: "pview {} ((p_th p)(t \<mapsto> ?x)) = pview {} (p_th p)" by (rule pview_same [where x = x]) (use x in simp_all)
  have lc: "locs (pview {} (p_th p)) (p_sh p) (p_wnext p) Q (insert t (held p)) (freed p) {}" using locs_take [OF p(4)] by simp
  have c: "wcount P p' = (if P (p_w p w) then wcount P p - 1 else wcount P p) + (if P (W_start t) then 1 else 0)" for P
  proof -
    have "wcount P p' = wcount P (set_w w (W_start t) p)" by (simp add: wcount_def set_w_def e)
    with wcount_set(1) [OF w(1)] show ?thesis by simp
  qed
  have pos: "P (p_w p w) \<Longrightarrow> 0 < wcount P p" for P by (rule wcount_set(2) [OF w(1)])
  have "pthr p'" unfolding pthr_def
  proof (intro conjI)
    show "p_idle p' = int (wcount w_idle p')" using p(9) pos [of w_idle] by (simp add: c pthr_def) (simp add: e, linarith)
    show "p_nlive p' = wcount (\<lambda>pc. pc \<noteq> W_gone) p'" using p(9) pos [of "\<lambda>pc. pc \<noteq> W_gone"] b by (simp add: c pthr_def) (simp add: e)
    show "p_nrunning p' = wcount w_busy p'" using p(9) b by (simp add: c pthr_def w_busy_def) (simp add: e)
    show "p_nqueued p' \<le> wcount w_looking p'" using p(9) w(2) by (simp add: c pthr_def) (simp add: e diff_le_mono)
    have un: "\<And>v v' u. v < p_nw p \<Longrightarrow> v' < p_nw p \<Longrightarrow> w_task (p_w p v) = Some u \<Longrightarrow> w_task (p_w p v') = Some u \<Longrightarrow> v = v'"
      using p(9) unfolding pthr_def by blast
    have nt: "\<And>v. v < p_nw p \<Longrightarrow> w_task (p_w p v) \<noteq> Some t" using tp(1) by (auto simp: held_def)
    show "\<forall>v v' u. v < p_nw p' \<longrightarrow> v' < p_nw p' \<longrightarrow> w_task (p_w p' v) = Some u \<longrightarrow> w_task (p_w p' v') = Some u \<longrightarrow> v = v'"
      unfolding f using un nt by (auto split: if_splits)
  qed
  moreover have "ppc p'"
    unfolding ppc_def
  proof (intro allI impI)
    fix v
    assume v: "v < p_nw p'"
    show "pc_ok (p_th p') (p_w p' v)"
    proof (cases "v = w")
      case True
      then show ?thesis by (simp add: f)
    next
      case False
      have ok: "pc_ok (p_th p) (p_w p v)" using p(10) v by (simp add: ppc_def f)
      have "pc_ok (p_th p') (p_w p v)"
      proof (cases "w_task (p_w p v)")
        case None
        then show ?thesis by (cases "p_w p v") auto
      next
        case (Some u)
        then show ?thesis by (rule pc_ok_task [OF _ ok]) (use x in \<open>auto simp: f split: if_splits\<close>)
      qed
      with False show ?thesis by (simp add: f)
    qed
  qed
  moreover have "pdata {} {} Q p'"
    unfolding pdata_def h fr ul
  proof (intro conjI)
    show "\<not> m_fault p'" "\<forall>s \<in> dom (p_sh p'). s < m_brk p'" "dlh.members (p_socks p') (dom (p_sh p') - unlinked p)"
      "\<forall>s \<in> unlinked p. \<exists>y. p_sh p' s = Some y \<and> ps_closing y \<and> ps_inflight y = 0" using p by (auto simp: e)
    show "qlist p' Q" using qt(2) by (simp add: e qlist_def pq_def)
    show "ptsk {} (m_brk p') (p_th p') (insert t (held p))" using tk by (simp add: e)
    show "locs (pview {} (p_th p')) (p_sh p') (p_wnext p') Q (insert t (held p) - {}) (freed p) {}" using lc vw by (simp add: e)
    show "insert t (held p) \<subseteq> {..<m_brk p'}" using p(6) px by (simp add: e ptask_def)
  qed
  ultimately show "pmid {} {} Q p'" by (simp add: pmid_def)
qed

lemma take_pinv:
  assumes m: "pmid {} {} Q p" "psd Q p" "pdrain p" "user_inv p (p_user p)" and w: "w < p_nw p" "w_looking (p_w p w)"
  shows "pinv (worker_take (unidle p w) w)"
proof (cases Q)
  case Nil
  with retire_pinv [OF _ _ m(3,4) w] m(1,2) show ?thesis by simp
next
  case (Cons t R)
  note m' = m(1) [unfolded Cons]
  have "t \<in> dom (pview {} (p_th p))" using locs_parts(1) [OF pmid_parts(4) [OF m']] by (auto simp: place_inv_def)
  then obtain x where x: "p_th p t = Some x" by (auto simp: pview_Some)
  let ?p = "worker_take (unidle p w) w"
  note k = take_pmid [OF m' w x refl]
  have sd: "\<not> p_shutdown p" using m(2) Cons by (auto simp: psd_def)
  have dr: "pdrain ?p" by (rule pdrain_sub [OF m(3) k(4,11)]) (auto simp: k(3,12) x split: if_splits)
  have "user_inv ?p (p_user p)"
  proof (cases "p_user p")
    case (U_freeing u b)
    with m(4) obtain z where z: "p_th p u = Some z" "\<not> pt_detached z" "if pt_done z then \<not> b else u \<in> held p" by auto
    show ?thesis unfolding U_freeing user_inv.simps k(2,3,7)
      by (intro conjI sd exI [of _ "if u = t then x\<lparr>pt_started := True, pt_worker := w\<rparr> else z"]) (use z x in \<open>auto split: if_splits\<close>)
  qed (use m(4) in \<open>auto simp only: user_inv.simps k\<close>)
  moreover have "p_user p \<noteq> U_gone" using m(4) by auto
  ultimately show ?thesis using k(1,6,7) dr sd by (auto simp: pinv_def psd_def)
qed

lemma look_pinv:
  assumes m: "pmid {} {} Q p" "psd Q p" "pdrain p" "user_inv p (p_user p)" and w: "w < p_nw p" "w_looking (p_w p w)"
  shows "pinv (worker_look os (unidle p w) w)"
proof (cases "Q = [] \<and> \<not> p_shutdown p")
  case True
  with park_pinv [OF _ _ m(3,4) w] m(1,2) show ?thesis by simp
next
  case False
  have "p_qhead p = (if Q = [] then None else Some (hd Q))"
    using pmid_parts(2) [OF m(1)] wq_list_head [of "p_qnext p" "pq p" Q] by (simp add: qlist_def pq_def)
  with False have "worker_look os (unidle p w) w = worker_take (unidle p w) w" by (auto simp: worker_look_def unidle_def)
  with take_pinv [OF m w] show ?thesis by simp
qed


subsection \<open>Every step of a worker\<close>

lemma worker_keeps:
  assumes i: "pinv p" and s: "worker_step os p w = Some p'"
  shows "pinv p'"
proof -
  have w: "w < p_nw p" using s by (auto simp: worker_step_def split: if_splits)
  have ng: "p_w p w \<noteq> W_gone" using s w by (auto simp: worker_step_def)
  obtain Q where m: "pmid {} {} Q p" "psd Q p" "pdrain p" "user_inv p (p_user p)" by (rule pinv_worker [OF i w ng])
  have live: "\<exists>x. p_th p t = Some x \<and> \<not> pt_done x" if "w_task (p_w p w) = Some t" for t
    using held_task [OF m(1) worker_task(1) [OF m(1) w that]] by blast
  have ok: "pc_ok (p_th p) (p_w p w)" using pmid_parts(10) [OF m(1)] w by (simp add: ppc_def)
  show ?thesis
  proof (cases "p_w p w")
    case W_top
    have "unidle p w = p" using W_top by (simp add: unidle_def)
    with look_pinv [OF m w, of os] W_top s w show ?thesis by (simp add: worker_step_def)
  next
    case (W_woken b)
    have "unidle p w = p\<lparr>p_idle := p_idle p - 1\<rparr>" using W_woken by (simp add: unidle_def)
    with look_pinv [OF m w, of os] take_pinv [OF m w] W_woken s w show ?thesis
      by (auto simp: worker_step_def worker_wake_def Let_def split: if_splits)
  next
    case (W_start t)
    with live obtain x where x: "p_th p t = Some x" "\<not> pt_done x" by auto
    have "silent p w t p'" using silent_start [OF m(1) x] s w W_start by (auto simp: worker_step_def)
    then show ?thesis by (rule silent_pinv [OF i w, rotated 2]) (simp_all add: W_start)
  next
    case (W_wait t d)
    with live obtain x where x: "p_th p t = Some x" by auto
    have "silent p w t p'" using silent_wait(2) [OF x] ok x s w W_wait by (auto simp: worker_step_def)
    then show ?thesis by (rule silent_pinv [OF i w, rotated 2]) (simp_all add: W_wait)
  next
    case (W_poll t d)
    with live obtain x where x: "p_th p t = Some x" by auto
    have "silent p w t p'" using silent_wait(3) [OF x] ok x s w W_poll by (auto simp: worker_step_def)
    then show ?thesis by (rule silent_pinv [OF i w, rotated 2]) (simp_all add: W_poll)
  next
    case (W_call t)
    with live obtain x where x: "p_th p t = Some x" by auto
    have "silent p w t p'" using silent_call [OF x] ok x s w W_call by (auto simp: worker_step_def)
    then show ?thesis by (rule silent_pinv [OF i w, rotated 2]) (simp_all add: W_call)
  next
    case (W_send t off)
    with live obtain x where x: "p_th p t = Some x" by auto
    have "silent p w t p'" using silent_send [OF x] ok x s w W_send by (auto simp: worker_step_def)
    then show ?thesis by (rule silent_pinv [OF i w, rotated 2]) (simp_all add: W_send)
  next
    case (W_commit t r fd)
    with commit_pinv [OF i w this, of os] s w show ?thesis by (auto simp: worker_step_def)
  next
    case (W_drain t)
    with drain_pinv [OF i w this] s w show ?thesis by (auto simp: worker_step_def)
  next
    case (W_close t a fd)
    with close_fd_pinv [OF i w this, of os] s w show ?thesis by (auto simp: worker_step_def)
  next
    case (W_closed t)
    with closed_pinv [OF i w this, of os] s w show ?thesis by (auto simp: worker_step_def)
  qed (use s w in \<open>auto simp: worker_step_def\<close>)
qed

text \<open>A signal, a timeout or a spurious wakeup of a parked worker; a spurious wakeup on \<^verbatim>\<open>done_cv\<close>.\<close>

lemma wake_keeps:
  assumes i: "pinv p" and w: "w < p_nw p" "w_parked (p_w p w)"
  shows "pinv (set_w w (W_woken b) p)"
proof -
  obtain d where d: "p_w p w = W_parked d" using w(2) by (auto elim: w_parked.elims)
  then have ng: "p_w p w \<noteq> W_gone" by simp
  obtain Q where m: "pmid {} {} Q p" "psd Q p" "pdrain p" "user_inv p (p_user p)" by (rule pinv_worker [OF i w(1) ng])
  have nl: "0 < p_nlive p" using wcount_set(2) [OF w(1), of "\<lambda>pc. pc \<noteq> W_gone"] ng pmid_parts(9) [OF m(1)] by (simp add: pthr_def)
  let ?p = "p\<lparr>m_trace := m_trace p, p_idle := p_idle p, p_nlive := p_nlive p, p_w := (p_w p)(w := W_woken b)\<rparr>"
  have e: "set_w w (W_woken b) p = ?p" by (simp add: set_w_def)
  have k: "pmid {} {} Q ?p" "held ?p = held p"
    by (rule free_pc [OF m(1) w(1) _ _ refl]; use d nl in \<open>simp add: w_busy_def\<close>)+
  have dr: "pdrain ?p" by (rule pdrain_sub [OF m(3)]) (auto split: if_splits)
  show ?thesis unfolding e by (rule pinv_local [OF m(2,4) k dr]) (auto split: if_splits)
qed

lemma spurious_keeps:
  assumes i: "pinv p"
  shows "pinv (done_broadcast p)"
proof (cases "p_user p = U_gone")
  case True
  with i show ?thesis by (auto simp: pinv_def pend_def done_broadcast_def)
next
  case False
  with i obtain Q where m: "pmid {} {} Q p" "psd Q p" "pdrain p" "user_inv p (p_user p)" by (auto simp: pinv_def)
  have h: "held (done_broadcast p) = held p" by (rule pevo_sets(1) [OF broadcast_evo])
  have "psd Q (done_broadcast p)" using m(2) unfolding psd_def h by (simp add: done_broadcast_def)
  moreover have "user_inv (done_broadcast p) (u_alert (p_user p))"
    using m(4) h by (cases "p_user p") (auto simp: done_broadcast_def)
  ultimately show ?thesis
    by (intro awake_pinv [OF broadcast_pmid [OF m(1)], of "p_user p"]) (simp_all add: broadcast_awake, simp add: done_broadcast_def)
qed


text \<open>A completed task is finished: no worker touches it.\<close>

lemma finish_keeps_done:
  assumes m1: "pmid {t} D Q p1" and w: "w < p_nw p1" "w_task (p_w p1 w) = Some t" "\<And>s fd. p_w p1 w \<noteq> W_close t s fd"
    and x: "p_th p1 t = Some x" "\<not> pt_done x" and r: "res_status r \<noteq> MYIO_PENDING"
    and rs: "\<And>s. res_ptr r = Some s \<Longrightarrow> s < m_brk p1 \<and> (\<forall>u z. p_th p1 u = Some z \<longrightarrow> res_ptr (pt_res z) \<noteq> Some s) \<and>
      (\<exists>y. p_sh p1 s = Some y \<and> \<not> ps_closing y \<and> ps_inflight y = 0)"
    and z: "p_th p1 u = Some z" "pt_done z"
  shows "p_th (worker_finish os p1 w t r) u = Some z"
proof -
  have "u \<noteq> t" using x z by auto
  with finish_pmid(4) [where os = os, OF m1 w x r rs refl] z(1) show ?thesis by auto
qed

lemma look_keeps_done:
  assumes m: "pmid {} {} Q p" and w: "w < p_nw p" "w_looking (p_w p w)"
    and p': "p' = worker_look os (unidle p w) w \<or> p' = worker_take (unidle p w) w"
    and z: "p_th p u = Some z" "pt_done z"
  shows "\<exists>z'. p_th p' u = Some z' \<and> pt_done z' \<and> pt_res z' = pt_res z"
proof (cases "p_qhead p")
  case None
  then have "p_th p' = p_th p"
    using p' by (auto simp: worker_look_def worker_take_def unidle_def sys_call_def set_w_def m_flag_def done_broadcast_def Let_def)
  with z show ?thesis by simp
next
  case (Some t)
  then obtain R where Q: "Q = t # R"
    using pmid_parts(2) [OF m] wq_list_head [of "p_qnext p" "pq p" Q] by (cases Q) (auto simp: qlist_def pq_def)
  have "t \<in> dom (pview {} (p_th p))" using locs_parts(1) [OF pmid_parts(4) [OF m]] Q by (auto simp: place_inv_def)
  then obtain x where x: "p_th p t = Some x" by (auto simp: pview_Some)
  have "p' = worker_take (unidle p w) w" using p' Some by (auto simp: worker_look_def unidle_def)
  with take_pmid(3) [OF m [unfolded Q] w x this] z x show ?thesis by auto
qed

lemma worker_keeps_done:
  assumes m: "pmid {} {} Q p" "psd Q p" and s: "worker_step os p w = Some p'" and z: "p_th p u = Some z" "pt_done z"
  shows "\<exists>z'. p_th p' u = Some z' \<and> pt_done z' \<and> pt_res z' = pt_res z"
proof -
  have w: "w < p_nw p" using s by (auto simp: worker_step_def split: if_splits)
  have live: "\<exists>x. p_th p t = Some x \<and> \<not> pt_done x" if "w_task (p_w p w) = Some t" for t
    using held_task [OF m(1) worker_task(1) [OF m(1) w that]] by blast
  have ok: "pc_ok (p_th p) (p_w p w)" using pmid_parts(10) [OF m(1)] w by (simp add: ppc_def)
  have nd: "\<not> pt_detached z" using ptskD [OF pmid_parts(3) [OF m(1)] z(1)] z(2) by (simp add: ptask_def)
  have sil: ?thesis if "silent p w t p'" for t using that z by (auto simp: silent_def set_w_def)
  show ?thesis
  proof (cases "p_w p w")
    case W_top
    have "unidle p w = p" using W_top by (simp add: unidle_def)
    then show ?thesis using look_keeps_done [OF m(1) w _ _ z, of p' os] W_top s w by (auto simp: worker_step_def)
  next
    case (W_woken b)
    have "unidle p w = p\<lparr>p_idle := p_idle p - 1\<rparr>" using W_woken by (simp add: unidle_def)
    then show ?thesis using look_keeps_done [OF m(1) w _ _ z, of p' os] W_woken s w
      by (auto simp: worker_step_def worker_wake_def Let_def split: if_splits)
  next
    case (W_start t)
    with live obtain x where x: "p_th p t = Some x" "\<not> pt_done x" by auto
    show ?thesis by (rule sil [of t]) (use silent_start [OF m(1) x] s w W_start in \<open>auto simp: worker_step_def\<close>)
  next
    case (W_wait t d)
    with live obtain x where x: "p_th p t = Some x" by auto
    show ?thesis by (rule sil [of t]) (use silent_wait(2) [OF x] ok x s w W_wait in \<open>auto simp: worker_step_def\<close>)
  next
    case (W_poll t d)
    with live obtain x where x: "p_th p t = Some x" by auto
    show ?thesis by (rule sil [of t]) (use silent_wait(3) [OF x] ok x s w W_poll in \<open>auto simp: worker_step_def\<close>)
  next
    case (W_call t)
    with live obtain x where x: "p_th p t = Some x" by auto
    show ?thesis by (rule sil [of t]) (use silent_call [OF x] ok x s w W_call in \<open>auto simp: worker_step_def\<close>)
  next
    case (W_send t off)
    with live obtain x where x: "p_th p t = Some x" by auto
    show ?thesis by (rule sil [of t]) (use silent_send [OF x] ok x s w W_send in \<open>auto simp: worker_step_def\<close>)
  next
    case (W_commit t r fd)
    obtain p2 r2 Q' x where c: "worker_commit os p w t r fd = worker_finish os p2 w t r2" "pevo {} p p2" "pmid {t} {} Q' p2"
      "w < p_nw p2" "p_w p2 w = W_commit t r fd" "p_th p2 t = Some x" "\<not> pt_done x" "res_status r2 \<noteq> MYIO_PENDING"
      and rs: "\<And>s. res_ptr r2 = Some s \<Longrightarrow> s < m_brk p2 \<and> (\<forall>u z. p_th p2 u = Some z \<longrightarrow> res_ptr (pt_res z) \<noteq> Some s) \<and>
        (\<exists>y. p_sh p2 s = Some y \<and> \<not> ps_closing y \<and> ps_inflight y = 0)" by (rule commit_parts [where os = os, OF m(1,2) w W_commit]) blast
    from c(2) z nd obtain z2 where z2: "p_th p2 u = Some z2" "pt_done z2" "pt_res z2 = pt_res z" unfolding pevo_def by blast
    have "p_th (worker_finish os p2 w t r2) u = Some z2"
      by (rule finish_keeps_done [OF c(3,4) _ _ c(6,7,8) rs z2(1,2)]) (use c(5) in simp_all)
    with z2 s w W_commit c(1) show ?thesis by (auto simp: worker_step_def)
  next
    case (W_drain t)
    with live obtain x where x: "p_th p t = Some x" by auto
    have "p_th p' = p_th p" using s w W_drain x
      by (auto simp: worker_step_def worker_drain_def live_access set_w_def pool_sock_unlink_def chk_ps_def m_flag_def Let_def split: option.splits)
    with z show ?thesis by simp
  next
    case (W_close t a fd)
    have "p_th p' = p_th p" using s w W_close
      by (auto simp: worker_step_def worker_close_fd_def free_ps_def chk_ps_def set_w_def sys_call_def m_flag_def Let_def)
    with z show ?thesis by simp
  next
    case (W_closed t)
    then have wt: "w_task (p_w p w) = Some t" by simp
    note k = worker_task [OF m(1) w wt]
    obtain x where x: "p_th p t = Some x" "\<not> pt_done x" by (rule held_task [OF m(1) k(1)]) auto
    then have "leave_sock os p t (pt_kind x) = p" using k(4) W_closed by (simp add: leave_sock_def)
    with leave_any [OF m(1,2) k(1) x, of os] obtain Q' where q: "pmid {t} {} Q' p" by auto
    have "p_th (worker_finish os p w t (r_ok 0 None)) u = Some z"
      by (rule finish_keeps_done [OF q w wt _ x _ _ z]) (use W_closed in simp_all)
    with s w W_closed z show ?thesis by (auto simp: worker_step_def)
  qed (use s w in \<open>auto simp: worker_step_def\<close>)
qed


end
