(* ===== verification/Myio_Pool_Reach.thy ===== *)
theory Myio_Pool_Reach
  imports Myio_Pool_Run
begin

text \<open>
  The teardown keeps the invariant, and so does every transition: the invariant holds in
  every reachable state of the pool.
\<close>

subsection \<open>Dropping a task during teardown\<close>

text \<open>What teardown may do: tasks go, everything else that matters stays.\<close>

definition ptear :: "pool \<Rightarrow> pool \<Rightarrow> bool" where
  "ptear p p' \<longleftrightarrow> p_shutdown p' = p_shutdown p \<and> p_socks p' = p_socks p \<and> dom (p_sh p') = dom (p_sh p) \<and> held p' = held p \<and>
     unlinked p' = unlinked p \<and> (\<forall>t x. p_th p' t = Some x \<longrightarrow> p_th p t = Some x) \<and>
     (p_user p' = p_user p \<or> p_user p' = u_alert (p_user p))"

lemma ptear_refl: "ptear p p" by (simp add: ptear_def)

lemma ptear_trans: "ptear p q \<Longrightarrow> ptear q r \<Longrightarrow> ptear p r"
  by (auto simp: ptear_def)

lemma destroy_drop_end:
  assumes m: "pmid {} D Q (complete_unrun os p t)" and e: "pevo {} p (complete_unrun os p t)" and x: "p_th p t = Some x"
    and th: "p_th (complete_unrun os p t) = (p_th p)(t := if pt_detached x then None else Some (x\<lparr>pt_res := r_canceled, pt_done := True\<rparr>))"
    and d: "dom (p_sh (complete_unrun os p t)) = dom (p_sh p)" and s: "p_socks (complete_unrun os p t) = p_socks p"
  shows "pmid {} D Q (destroy_drop os p t)" and "ptear p (destroy_drop os p t)" and "p_th (destroy_drop os p t) = (p_th p)(t := None)"
    and "p_sh (destroy_drop os p t) = p_sh (complete_unrun os p t)" and "p_wnext (destroy_drop os p t) = p_wnext (complete_unrun os p t)"
proof -
  let ?q = "complete_unrun os p t"
  have q: "destroy_drop os p t = (if pt_detached x then ?q else free_pt t ?q)"
    using x th by (simp add: destroy_drop_def live_access pool_reap_def r_canceled_def)
  have "pmid {} D Q (destroy_drop os p t) \<and> p_th (destroy_drop os p t) = (p_th p)(t := None) \<and> p_sh (destroy_drop os p t) = p_sh ?q \<and>
    p_wnext (destroy_drop os p t) = p_wnext ?q \<and> p_socks (destroy_drop os p t) = p_socks ?q \<and> p_shutdown (destroy_drop os p t) = p_shutdown ?q \<and>
    p_user (destroy_drop os p t) = p_user ?q \<and> held (destroy_drop os p t) = held ?q \<and> unlinked (destroy_drop os p t) = unlinked ?q"
  proof (cases "pt_detached x")
    case True
    with q m th show ?thesis by simp
  next
    case False
    then have xq: "p_th ?q t = Some (x\<lparr>pt_res := r_canceled, pt_done := True\<rparr>)" using th by simp
    from free_done_pmid(1) [OF m xq] False q free_pt_fields [OF xq] th show ?thesis by (simp add: held_def unlinked_def)
  qed
  then show "pmid {} D Q (destroy_drop os p t)" "p_th (destroy_drop os p t) = (p_th p)(t := None)" "p_sh (destroy_drop os p t) = p_sh ?q"
    "p_wnext (destroy_drop os p t) = p_wnext ?q" "ptear p (destroy_drop os p t)"
    using pevo_sets [OF e] e d s unfolding ptear_def pevo_def by (auto split: if_splits)
qed

lemma drop_plain:
  assumes m: "pmid {} D Q p" and sd: "p_shutdown p" and t: "t \<notin> held p" and x: "p_th p t = Some x" "\<not> pt_done x" "pt_kind x \<noteq> OP_SOCK_WRITE"
  shows "pmid {} D (remove1 t Q) (destroy_drop os p t)" and "ptear p (destroy_drop os p t)"
proof -
  note u = unrun_plain [where os = os, OF m _ t x]
  show "pmid {} D (remove1 t Q) (destroy_drop os p t)" "ptear p (destroy_drop os p t)"
    by (rule destroy_drop_end [OF _ _ x(1)]; use u unrun_socks [OF m x(1) sd, of os] in simp)+
qed

lemma drop_write:
  assumes m: "pmid {} D Q p" and sd: "p_shutdown p" and t: "t \<notin> held p" and x: "p_th p t = Some x" "\<not> pt_done x" "pt_kind x = OP_SOCK_WRITE" "pt_sock x = Some s"
    and y: "p_sh p s = Some y" and q: "wq_list (p_wnext p) (ps_wq y) xs"
  shows "pmid {} (if wq_head (ps_wq y) = Some t then insert s D else D) (remove1 t Q) (destroy_drop os p t)"
    and "ptear p (destroy_drop os p t)"
    and "\<exists>z. p_sh (destroy_drop os p t) s = Some z \<and> wq_list (p_wnext (destroy_drop os p t)) (ps_wq z) (remove1 t xs)"
proof -
  note u = unrun_write [where os = os, OF m _ t x y q]
  have e: "pmid {} (if wq_head (ps_wq y) = Some t then insert s D else D) (remove1 t Q) (complete_unrun os p t)"
    "pevo {} p (complete_unrun os p t)" "p_socks (complete_unrun os p t) = p_socks p"
    "p_th (complete_unrun os p t) = (p_th p)(t := if pt_detached x then None else Some (x\<lparr>pt_res := r_canceled, pt_done := True\<rparr>))"
    "dom (p_sh (complete_unrun os p t)) = dom (p_sh p)"
    using u(1-4) sd unrun_socks [OF m x(1) sd, of os] by simp_all
  note d = destroy_drop_end [OF e(1,2) x(1) e(4,5,3)]
  show "pmid {} (if wq_head (ps_wq y) = Some t then insert s D else D) (remove1 t Q) (destroy_drop os p t)" "ptear p (destroy_drop os p t)" by (rule d)+
  show "\<exists>z. p_sh (destroy_drop os p t) s = Some z \<and> wq_list (p_wnext (destroy_drop os p t)) (ps_wq z) (remove1 t xs)"
    unfolding d(4,5) using u(5) sd by auto
qed

lemma destroy_queue_pmid:
  assumes "pmid {} D Q p" and "p_shutdown p" and "length Q \<le> fuel"
  shows "\<exists>D'. pmid {} D' [] (destroy_queue os fuel p) \<and> ptear p (destroy_queue os fuel p)"
  using assms
proof (induction fuel arbitrary: D Q p)
  case 0
  have "p_qhead p = None" using 0 pmid_parts(2) [OF 0(1)] wq_list_head [of "p_qnext p" "pq p" Q] by (simp add: qlist_def pq_def)
  then have "destroy_queue os 0 p = p" by (simp add: destroy_queue.simps)
  with 0 ptear_refl show ?case by auto
next
  case (Suc fuel)
  note m = Suc.prems(1) and p = pmid_parts [OF Suc.prems(1)]
  have hd: "p_qhead p = (if Q = [] then None else Some (hd Q))" using p(2) wq_list_head [of "p_qnext p" "pq p" Q] by (simp add: qlist_def pq_def)
  show ?case
  proof (cases Q)
    case Nil
    then have "destroy_queue os (Suc fuel) p = p" using hd by (simp add: destroy_queue.simps)
    with m Nil ptear_refl show ?thesis by auto
  next
    case (Cons t R)
    have e: "destroy_queue os (Suc fuel) p = destroy_queue os fuel (destroy_drop os p t)"
      using hd Cons by (subst destroy_queue.simps) simp
    have tv: "t \<in> dom (pview {} (p_th p))" "t \<notin> held p" using locs_parts(1) [OF p(4)] Cons by (auto simp: place_inv_def)
    then obtain x where x: "p_th p t = Some x" "\<not> pt_done x" by (auto simp: pview_Some)
    have "\<exists>D'. pmid {} D' R (destroy_drop os p t) \<and> ptear p (destroy_drop os p t)"
    proof (cases "pt_kind x = OP_SOCK_WRITE")
      case False
      with drop_plain [OF m Suc.prems(2) tv(2) x False, of os] Cons show ?thesis by auto
    next
      case True
      obtain s y where s: "pt_sock x = Some s" "p_sh p s = Some y" by (rule on_sock_live [OF m _ x]) (simp_all add: True)
      obtain xs where xs: "wq_list (p_wnext p) (ps_wq y) xs" using fifo_list [OF locs_parts(4) [OF p(4)] s(2)] by blast
      from drop_write [OF m Suc.prems(2) tv(2) x True s xs, of os] Cons show ?thesis by auto
    qed
    then obtain D' where d: "pmid {} D' R (destroy_drop os p t)" "ptear p (destroy_drop os p t)" by blast
    have "p_shutdown (destroy_drop os p t)" using d(2) Suc.prems(2) by (simp add: ptear_def)
    with Suc.IH [OF d(1)] Suc.prems(3) Cons ptear_trans [OF d(2)] show ?thesis unfolding e by fastforce
  qed
qed

subsection \<open>Dropping the parked writes of every socket\<close>

lemma destroy_fifo_pmid:
  assumes "pmid {} D [] p" and "p_shutdown p" and "p_sh p s = Some y" and "wq_list (p_wnext p) (ps_wq y) (pre @ ys)"
    and "pre = [] \<Longrightarrow> ys \<noteq> [] \<Longrightarrow> s \<in> D" and "h = (if ys = [] then None else Some (hd ys))" and "length ys \<le> fuel"
  shows "\<exists>z. pmid {} D [] (destroy_fifo os fuel p h) \<and> ptear p (destroy_fifo os fuel p h) \<and> p_sh (destroy_fifo os fuel p h) s = Some z \<and>
    wq_list (p_wnext (destroy_fifo os fuel p h)) (ps_wq z) pre"
  using assms
proof (induction ys arbitrary: fuel p y h)
  case Nil
  then have "destroy_fifo os fuel p h = p" by (simp add: destroy_fifo.simps)
  with Nil ptear_refl show ?case by simp
next
  case (Cons w ys)
  then obtain f where f: "fuel = Suc f" "length ys \<le> f" by (cases fuel) auto
  note m = Cons.prems(1) and sd = Cons.prems(2) and y = Cons.prems(3) and q = Cons.prems(4)
  have dis: "distinct (pre @ w # ys)" by (rule wq_list_distinct [OF q])
  have hd: "wq_head (ps_wq y) = Some w \<longleftrightarrow> pre = []" using wq_list_head [OF q] dis by (cases pre) auto
  have inD: "s \<in> D" if "pre = []" using Cons.prems(5) that by simp
  obtain x where x: "p_th p w = Some x" "\<not> pt_done x" "pt_kind x = OP_SOCK_WRITE" "pt_sock x = Some s" and nh: "w \<notin> held p"
    by (rule parked_free [OF m y q, of w]) (use hd inD in auto)
  let ?p = "destroy_drop os p w"
  note dw = drop_write [where os = os, OF m sd nh x y q]
  have m1: "pmid {} D [] ?p" using dw(1) hd inD by (auto simp: insert_absorb split: if_splits)
  have sd1: "p_shutdown ?p" using dw(2) sd by (simp add: ptear_def)
  have rm: "remove1 w (pre @ w # ys) = pre @ ys" by (rule remove1_middle) (use dis in auto)
  obtain z where z: "p_sh ?p s = Some z" "wq_list (p_wnext ?p) (ps_wq z) (pre @ ys)" using dw(3) rm by auto
  have n: "p_wnext p w = (if ys = [] then None else Some (hd ys))" using q by (auto simp: wq_list_def dest: wpath_None_head)
  have e: "destroy_fifo os fuel p h = destroy_fifo os f ?p (p_wnext p w)"
    using Cons.prems(6) f by (subst destroy_fifo.simps) simp
  from Cons.IH [OF m1 sd1 z _ n f(2)] inD obtain z' where "pmid {} D [] (destroy_fifo os f ?p (p_wnext p w))"
    "ptear ?p (destroy_fifo os f ?p (p_wnext p w))" "p_sh (destroy_fifo os f ?p (p_wnext p w)) s = Some z'"
    "wq_list (p_wnext (destroy_fifo os f ?p (p_wnext p w))) (ps_wq z') pre" by blast
  with ptear_trans [OF dw(2)] show ?case unfolding e by blast
qed

text \<open>A socket is settled when a worker has all that is left of its writes.\<close>

definition settled :: "pool \<Rightarrow> addr \<Rightarrow> bool" where
  "settled p s \<longleftrightarrow> writes_on (pview {} (p_th p)) s \<subseteq> held p"

lemma settled_tear: "settled p s \<Longrightarrow> ptear p p' \<Longrightarrow> settled p' s"
  by (fastforce simp: settled_def ptear_def writes_on_def pview_Some)

lemma sock_settle:
  assumes m: "pmid {} D [] p" and sd: "p_shutdown p" and y: "p_sh p s = Some y"
    and h: "h = (case wq_head (ps_wq y) of None \<Rightarrow> None | Some t \<Rightarrow> if pt_started (pt p t) then p_wnext p t else Some t)"
  shows "pmid {} D [] (destroy_fifo os (m_brk p) p h) \<and> ptear p (destroy_fifo os (m_brk p) p h) \<and> settled (destroy_fifo os (m_brk p) p h) s"
proof -
  note p = pmid_parts [OF m] and l = locs_parts [OF pmid_parts(4) [OF m]]
  obtain xs where xs: "wq_list (p_wnext p) (ps_wq y) xs" "set xs = writes_on (pview {} (p_th p)) s" using fifo_list [OF l(4) y] by blast
  note ft = fifo_tasks(2) [OF m y xs(1)]
  let ?d = "destroy_fifo os (m_brk p) p h"
  have "\<exists>pre ys. xs = pre @ ys \<and> (pre = [] \<longrightarrow> ys \<noteq> [] \<longrightarrow> s \<in> D) \<and> h = (if ys = [] then None else Some (hd ys)) \<and> set pre \<subseteq> held p"
  proof (cases xs)
    case Nil
    then have "h = None" using h wq_list_head [OF xs(1)] by simp
    with Nil show ?thesis by simp
  next
    case (Cons t r)
    have hd: "wq_head (ps_wq y) = Some t" using wq_list_head [OF xs(1)] Cons by simp
    have v: "pview {} (p_th p) t = Some (OP_SOCK_WRITE, Some s)" using xs(2) Cons by (auto simp: writes_on_def)
    then obtain x where x: "p_th p t = Some x" "\<not> pt_done x" by (auto simp: pview_Some)
    have st: "pt_started x \<longleftrightarrow> t \<in> held p" using ptskD [OF p(3) x(1)] x(2) by (simp add: ptask_def)
    show ?thesis
    proof (cases "t \<in> held p")
      case True
      then have "h = p_wnext p t" using h hd x st by (simp add: live_access)
      then have "h = (if r = [] then None else Some (hd r))" using wq_list_next [OF xs(1) [unfolded Cons]] by simp
      with True Cons show ?thesis by (intro exI [of _ "[t]"] exI [of _ r]) simp
    next
      case False
      have "s \<in> D" using l(2) v y hd False unfolding disp_inv_def by fastforce
      moreover have "h = Some t" using h hd x st False by (simp add: live_access)
      ultimately show ?thesis using Cons by (intro exI [of _ "[]"] exI [of _ xs]) simp
    qed
  qed
  then obtain pre ys where py: "xs = pre @ ys" "pre = [] \<Longrightarrow> ys \<noteq> [] \<Longrightarrow> s \<in> D" "h = (if ys = [] then None else Some (hd ys))" "set pre \<subseteq> held p" by blast
  have ln: "length ys \<le> m_brk p" using ft py(1) by simp
  from destroy_fifo_pmid [OF m sd y xs(1) [unfolded py(1)] py(2,3) ln, of os] obtain z where z: "pmid {} D [] ?d" "ptear p ?d" "p_sh ?d s = Some z"
    "wq_list (p_wnext ?d) (ps_wq z) pre" by blast
  have "writes_on (pview {} (p_th ?d)) s = set pre" using fifo_tasks(1) [OF z(1,3,4)] by simp
  with py(4) z(2) have "settled ?d s" by (simp add: settled_def ptear_def)
  with z show ?thesis by blast
qed

lemma ptear_trace: "ptear p (p\<lparr>m_trace := tr\<rparr>)" by (simp add: ptear_def)

lemma destroy_socks_pmid:
  assumes "pmid {} D [] p" and "p_shutdown p" and "dl_list (p_socks p) (as @ bs)" and "set bs \<subseteq> dom (p_sh p)"
    and "\<And>s. s \<in> set as \<Longrightarrow> settled p s" and "c = (if bs = [] then None else Some (hd bs))" and "length bs \<le> fuel"
  shows "pmid {} D [] (destroy_socks os fuel p c) \<and> ptear p (destroy_socks os fuel p c) \<and>
    (\<forall>s \<in> set (as @ bs). settled (destroy_socks os fuel p c) s)"
  using assms
proof (induction bs arbitrary: as fuel p c)
  case Nil
  then have "destroy_socks os fuel p c = p" by (simp add: destroy_socks.simps)
  with Nil ptear_refl show ?case by simp
next
  case (Cons s bs)
  then obtain f where f: "fuel = Suc f" "length bs \<le> f" by (cases fuel) auto
  note m = Cons.prems(1) and sd = Cons.prems(2)
  obtain y where y: "p_sh p s = Some y" using Cons.prems(4) by auto
  let ?h = "case wq_head (ps_wq y) of None \<Rightarrow> None | Some t \<Rightarrow> if pt_started (pt p t) then p_wnext p t else Some t"
  let ?d = "destroy_fifo os (m_brk p) p ?h"
  from sock_settle [OF m sd y refl, of os] have d: "pmid {} D [] ?d" "ptear p ?d" "settled ?d s" by auto
  define q where "q = snd (sys_call os (C_shutdown (ps_fd (psk ?d s))) ?d)"
  have q: "\<exists>tr. q = ?d\<lparr>m_trace := tr\<rparr>" by (auto simp: q_def sys_call_def Let_def)
  then obtain tr where qe: "q = ?d\<lparr>m_trace := tr\<rparr>" ..
  have mq: "pmid {} D [] q" and tq: "ptear p q" using d ptear_trans [OF d(2) ptear_trace] by (simp_all add: qe)
  have ss: "p_socks q = p_socks p" "p_shutdown q" "dom (p_sh q) = dom (p_sh p)" using tq sd by (auto simp: ptear_def)
  have st: "settled q u" if "u \<in> set (as @ [s])" for u
    using that Cons.prems(5) settled_tear [OF _ tq] settled_tear [OF d(3) ptear_trace, of tr] by (auto simp: qe)
  have nx: "dl_next (p_socks q) s = (if bs = [] then None else Some (hd bs))" unfolding ss(1) by (rule dl_unlink_split(2) [OF Cons.prems(3)])
  have e: "destroy_socks os fuel p c = destroy_socks os f q (dl_next (p_socks q) s)"
    using Cons.prems(6) f(1) y by (subst destroy_socks.simps) (simp add: live_access q_def case_prod_beta Let_def)
  have l: "dl_list (p_socks q) ((as @ [s]) @ bs)" using Cons.prems(3) ss(1) by simp
  have b: "set bs \<subseteq> dom (p_sh q)" using Cons.prems(4) ss(3) by auto
  have "pmid {} D [] (destroy_socks os f q (dl_next (p_socks q) s)) \<and> ptear q (destroy_socks os f q (dl_next (p_socks q) s)) \<and>
    (\<forall>u \<in> set ((as @ [s]) @ bs). settled (destroy_socks os f q (dl_next (p_socks q) s)) u)"
    by (rule Cons.IH [OF mq ss(2) l b _ nx f(2)]) (rule st)
  with ptear_trans [OF tq] show ?case unfolding e by auto
qed

subsection \<open>The end of the instance\<close>

lemma work_broadcast_pmid:
  assumes m: "pmid T D Q p"
  shows "pmid T D Q (work_broadcast p)" and "psame p (work_broadcast p)"
proof -
  let ?p = "work_broadcast p"
  have a: "P (if w_parked pc then W_woken False else pc) = P pc" if "\<And>d. P (W_parked d) = P (W_woken False)" for P pc
    using that by (auto elim!: w_parked.elims)
  have c: "wcount P ?p = wcount P p" if "\<And>d. P (W_parked d) = P (W_woken False)" for P
    using a [of P] that by (simp add: wcount_def work_broadcast_def)
  have l: "wcount w_looking p \<le> wcount w_looking ?p"
    unfolding wcount_def work_broadcast_def by (rule card_mono) auto
  have ws: "wsame p ?p" by (auto simp: wsame_def work_broadcast_def w_busy_def elim!: w_parked.elims)
  show ps: "psame p ?p" using ws by (simp add: psame_def) (simp add: work_broadcast_def)
  have q: "qlist ?p Q" using pmid_parts(2) [OF m] by (simp add: qlist_def pq_def work_broadcast_def)
  have "pthr ?p"
    unfolding pthr_def
  proof (intro conjI)
    show "p_idle ?p = int (wcount w_idle ?p)" "p_nlive ?p = wcount (\<lambda>pc. pc \<noteq> W_gone) ?p" "p_nrunning ?p = wcount w_busy ?p"
      using pmid_parts(9) [OF m] c [of w_idle] c [of "\<lambda>pc. pc \<noteq> W_gone"] c [of w_busy] by (simp_all add: pthr_def w_busy_def work_broadcast_def)
    show "p_nqueued ?p \<le> wcount w_looking ?p" using pmid_parts(9) [OF m] l by (simp add: pthr_def) (simp add: work_broadcast_def)
  qed (rule pthr_tasks [OF pmid_parts(9) [OF m] ws])
  then show "pmid T D Q ?p" by (rule psame_pmid [OF m ps q])
qed

lemma destroy_free_all:
  assumes "dl_list (p_socks p) (as @ bs)" and "dom (p_sh p) = set bs" and "c = (if bs = [] then None else Some (hd bs))" and "length bs \<le> fuel"
  shows "\<exists>tr. destroy_free os fuel p c = p\<lparr>m_trace := tr, p_sh := Map.empty\<rparr>"
  using assms
proof (induction bs arbitrary: as fuel p c)
  case Nil
  then have "p_sh p = Map.empty" by simp
  then have "destroy_free os fuel p c = p\<lparr>m_trace := m_trace p, p_sh := Map.empty\<rparr>" using Nil by (simp add: destroy_free.simps)
  then show ?case ..
next
  case (Cons s bs)
  then obtain f where f: "fuel = Suc f" "length bs \<le> f" by (cases fuel) auto
  obtain y where y: "p_sh p s = Some y" using Cons.prems(2) by force
  let ?q = "p\<lparr>m_trace := (C_close (ps_fd y), os (m_trace p) (C_close (ps_fd y))) # m_trace p, p_sh := (p_sh p)(s := None)\<rparr>"
  have n: "dl_next (p_socks p) s = (if bs = [] then None else Some (hd bs))" by (rule dl_unlink_split(2) [OF Cons.prems(1)])
  have e: "destroy_free os fuel p c = destroy_free os f ?q (dl_next (p_socks p) s)"
    using Cons.prems(3) f(1) y by (subst destroy_free.simps) (simp add: live_access sys_call_def free_ps_def chk_ps_def Let_def)
  have "s \<notin> set bs" using dl_list_distinct [OF Cons.prems(1)] by auto
  then have d: "dom (p_sh ?q) = set bs" using Cons.prems(2) by auto
  from Cons.IH [OF _ d n f(2), of "as @ [s]"] Cons.prems(1) obtain tr where "destroy_free os f ?q (dl_next (p_socks p) s) = ?q\<lparr>m_trace := tr, p_sh := Map.empty\<rparr>" by auto
  then show ?case unfolding e by auto
qed


lemma destroy_wait_pinv:
  assumes m: "pmid {} {} [] p" "psd [] p" "pdrain p" "p_shutdown p"
  shows "pinv (pool_destroy_wait os p)"
proof (cases "p_nlive p > 0")
  case True
  with m show ?thesis by (auto simp: pool_destroy_wait_def pinv_def)
next
  case False
  note p = pmid_parts [OF m(1)]
  have wn: "wcount (\<lambda>pc. pc \<noteq> W_gone) p = 0" using p(9) False by (simp add: pthr_def)
  have g: "p_w p w = W_gone" if "w < p_nw p" for w
    using wcount_pos [of "\<lambda>pc. pc \<noteq> W_gone" p] wn that by fastforce
  then have h: "held p = {}" "unlinked p = {}" by (auto simp: held_def unlinked_def)
  obtain ss where ss: "dl_list (p_socks p) ss" "set ss = dom (p_sh p)" using p(7) h by (auto simp: dlh.members_def)
  have "set ss \<subseteq> {..<m_brk p}" using p(5) ss(2) by auto
  then have "card (set ss) \<le> m_brk p" using card_mono [of "{..<m_brk p}"] by simp
  then have ln: "length ss \<le> m_brk p" using dl_list_distinct [OF ss(1)] by (simp add: distinct_card)
  obtain tr where e: "destroy_free os (m_brk p) p (dl_head (p_socks p)) = p\<lparr>m_trace := tr, p_sh := Map.empty\<rparr>"
    using destroy_free_all [of p "[]" ss "dl_head (p_socks p)" "m_brk p" os] ss ln dl_list_head [OF ss(1)] by auto
  have "pt_done x" if "p_th p t = Some x" for t x using m(2,4) that h(1) by (auto simp: psd_def)
  with False p(1) g show ?thesis by (simp add: pool_destroy_wait_def e pinv_def pend_def)
qed

lemma pmid_settled:
  assumes m: "pmid {} D [] p" and s: "\<And>s. s \<in> dom (p_sh p) \<Longrightarrow> settled p s"
  shows "pmid {} {} [] p" and "\<And>t x. p_th p t = Some x \<Longrightarrow> \<not> pt_done x \<Longrightarrow> t \<in> held p"
proof -
  note l = locs_parts [OF pmid_parts(4) [OF m]]
  have w: "t \<in> held p" if "pview {} (p_th p) t = Some (OP_SOCK_WRITE, Some a)" for t a
  proof -
    have "a \<in> dom (p_sh p)" using l(3) that unfolding sock_inv_def by fastforce
    from s [OF this] that show ?thesis by (auto simp: settled_def writes_on_def)
  qed
  have d: "disp_inv (pview {} (p_th p)) (p_sh p) [] (held p - {}) {}"
    unfolding disp_inv_def
  proof (intro allI impI)
    fix t k a
    assume v: "pview {} (p_th p) t = Some (k, a)"
    have b: "t \<in> set [] \<union> (held p - {}) \<longleftrightarrow> (k = OP_SOCK_WRITE \<longrightarrow>
        (\<exists>s' y. a = Some s' \<and> p_sh p s' = Some y \<and> s' \<notin> D \<and> wq_head (ps_wq y) = Some t))"
      using l(2) v unfolding disp_inv_def by blast
    have "k = OP_SOCK_WRITE \<Longrightarrow> t \<in> held p" using w [of t] v l(3) unfolding sock_inv_def by fastforce
    with b show "t \<in> set [] \<union> (held p - {}) \<longleftrightarrow> (k = OP_SOCK_WRITE \<longrightarrow>
        (\<exists>s' y. a = Some s' \<and> p_sh p s' = Some y \<and> s' \<notin> {} \<and> wq_head (ps_wq y) = Some t))" by auto
  qed
  show m': "pmid {} {} [] p" using m d by (simp add: pmid_def pdata_def locs_def)
  show "t \<in> held p" if "p_th p t = Some x" "\<not> pt_done x" for t x
  proof -
    have v: "pview {} (p_th p) t = Some (pt_kind x, pt_sock x)" using that by (auto simp: pview_Some)
    show ?thesis
    proof (cases "pt_kind x = OP_SOCK_WRITE")
      case True
      with v l(3) w [of t] show ?thesis unfolding sock_inv_def by fastforce
    next
      case False
      with v d show ?thesis unfolding disp_inv_def by fastforce
    qed
  qed
qed

text \<open>Teardown up to the wait for the workers.\<close>

definition pool_teardown :: "os \<Rightarrow> pool \<Rightarrow> pool" where
  "pool_teardown os p = (let p1 = destroy_queue os (m_brk p) (p\<lparr>p_shutdown := True\<rparr>)
     in done_broadcast (work_broadcast (destroy_socks os (m_brk p1) p1 (dl_head (p_socks p1)))))"

lemma pool_destroy_teardown: "pool_destroy os p = pool_destroy_wait os (pool_teardown os p)"
  by (simp add: pool_destroy_def pool_teardown_def Let_def)

lemma pool_teardown_pmid:
  assumes m: "pmid {} {} Q p"
  shows "pmid {} {} [] (pool_teardown os p)" "psd [] (pool_teardown os p)" "pdrain (pool_teardown os p)" "p_shutdown (pool_teardown os p)"
proof -
  let ?p0 = "p\<lparr>p_shutdown := True\<rparr>"
  have m0: "pmid {} {} Q ?p0"
    using m by (simp add: pmid_def pdata_def pthr_def ppc_def qlist_def pq_def held_def freed_def unlinked_def wcount_def)
  have "length Q \<le> m_brk ?p0"
  proof -
    note p = pmid_parts [OF m]
    have "set Q \<subseteq> {..<m_brk p}"
      using locs_parts(1) [OF p(4)] ptskD [OF p(3)] by (fastforce simp: place_inv_def pview_def ptask_def split: option.splits if_splits)
    then have "card (set Q) \<le> m_brk p" using card_mono [of "{..<m_brk p}"] by simp
    moreover have "distinct Q" using locs_parts(1) [OF p(4)] by (simp add: place_inv_def)
    ultimately show ?thesis by (simp add: distinct_card)
  qed
  from destroy_queue_pmid [OF m0 _ this, of os] obtain D where m1: "pmid {} D [] (destroy_queue os (m_brk p) ?p0)"
    and t1: "ptear ?p0 (destroy_queue os (m_brk p) ?p0)" by auto
  define p1 where "p1 = destroy_queue os (m_brk p) ?p0"
  note m1 = m1 [folded p1_def] and t1 = t1 [folded p1_def]
  have sd1: "p_shutdown p1" using t1 by (simp add: ptear_def)
  obtain ss where ss: "dl_list (p_socks p1) ss" "set ss = dom (p_sh p1) - unlinked p1" using pmid_parts(7) [OF m1] by (auto simp: dlh.members_def)
  have ln: "length ss \<le> m_brk p1"
  proof -
    have "set ss \<subseteq> {..<m_brk p1}" using pmid_parts(5) [OF m1] ss(2) by auto
    then have "card (set ss) \<le> m_brk p1" using card_mono [of "{..<m_brk p1}"] by simp
    then show ?thesis using dl_list_distinct [OF ss(1)] by (simp add: distinct_card)
  qed
  define p2 where "p2 = destroy_socks os (m_brk p1) p1 (dl_head (p_socks p1))"
  have "pmid {} D [] p2 \<and> ptear p1 p2 \<and> (\<forall>s \<in> set ([] @ ss). settled p2 s)" unfolding p2_def
    by (rule destroy_socks_pmid [OF m1 sd1]) (use ss ln dl_list_head [OF ss(1)] in auto)
  then have m2: "pmid {} D [] p2" and t2: "ptear p1 p2" and s2: "\<And>s. s \<in> set ss \<Longrightarrow> settled p2 s" by auto
  have set2: "settled p2 s" if s: "s \<in> dom (p_sh p2)" for s
  proof (cases "s \<in> unlinked p2")
    case False
    then have "s \<in> set ss" using s ss(2) t2 by (auto simp: ptear_def)
    then show ?thesis by (rule s2)
  next
    case True
    then obtain y where y: "p_sh p2 s = Some y" "ps_inflight y = 0" using pmid_parts(8) [OF m2] by blast
    note l = locs_parts [OF pmid_parts(4) [OF m2]]
    have "ops_on (pview {} (p_th p2)) s = {}" using l(5) y ops_on_finite [of "pview {} (p_th p2)" s] by (auto simp: infl_inv_def)
    then show ?thesis using writes_on_sub [of "pview {} (p_th p2)" s] by (simp add: settled_def)
  qed
  note ms = pmid_settled [OF m2 set2]
  define p3 where "p3 = done_broadcast (work_broadcast p2)"
  have m3: "pmid {} {} [] p3" unfolding p3_def using broadcast_pmid work_broadcast_pmid(1) [OF ms(1)] by blast
  have th3: "p_th p3 = p_th p2" "p_nw p3 = p_nw p2" "p_shutdown p3" using t2 sd1 by (simp_all add: p3_def done_broadcast_def work_broadcast_def ptear_def)
  have h3: "held p3 = held p2" unfolding p3_def using pevo_sets(1) [OF broadcast_evo] pevo_sets(1) [OF psame_evo [OF work_broadcast_pmid(2) [OF ms(1)]]] by simp
  have np: "\<not> w_parked (p_w p3 w)" for w by (simp add: p3_def done_broadcast_def work_broadcast_def)
  have e: "pool_teardown os p = p3" by (simp add: pool_teardown_def p3_def p2_def p1_def Let_def)
  show "pmid {} {} [] (pool_teardown os p)" unfolding e by (rule m3)
  show "psd [] (pool_teardown os p)" unfolding e using ms(2) np by (auto simp: psd_def th3 h3)
  show "pdrain (pool_teardown os p)" unfolding e by (simp add: pdrain_def p3_def broadcast_awake)
  show "p_shutdown (pool_teardown os p)" unfolding e by (rule th3(3))
qed

lemma destroy_keeps:
  assumes i: "pinv p" and r: "p_user p = U_ready"
  shows "pinv (pool_destroy os p)"
proof -
  obtain Q where m: "pmid {} {} Q p" by (rule pinv_ready [OF i r])
  show ?thesis unfolding pool_destroy_teardown by (rule destroy_wait_pinv [OF pool_teardown_pmid [OF m]])
qed

subsection \<open>Every reachable state\<close>

lemma user_keeps:
  assumes i: "pinv p" and s: "user_step os p = Some p'"
  shows "pinv p'"
proof (cases "p_user p")
  case (U_stepping b)
  then have "\<not> b" using s by (auto simp: user_step_def split: bool.splits)
  from i U_stepping obtain Q where "pmid {} {} Q p" "psd Q p" "pdrain p" "\<not> p_shutdown p" by (auto simp: pinv_def)
  from step_pinv [OF this] s U_stepping \<open>\<not> b\<close> show ?thesis by (auto simp: user_step_def)
next
  case (U_freeing t b)
  then have "\<not> b" using s by (auto simp: user_step_def split: bool.splits)
  from i U_freeing obtain Q x where m: "pmid {} {} Q p" "psd Q p" "pdrain p" "\<not> p_shutdown p"
    and x: "p_th p t = Some x" "\<not> pt_detached x" "\<not> pt_done x \<longrightarrow> t \<in> held p" by (auto simp: pinv_def split: if_splits)
  from free_wait_pinv [OF m x(1,2)] x(3) s U_freeing \<open>\<not> b\<close> show ?thesis by (auto simp: user_step_def)
next
  case (U_destroying b)
  then have "\<not> b" using s by (auto simp: user_step_def split: bool.splits)
  from i U_destroying obtain Q where m: "pmid {} {} Q p" "psd Q p" "pdrain p" "p_shutdown p" by (auto simp: pinv_def)
  then have "Q = []" by (auto simp: psd_def)
  with destroy_wait_pinv [of p os] m s U_destroying \<open>\<not> b\<close> show ?thesis by (auto simp: user_step_def)
qed (use s in \<open>simp_all add: user_step_def\<close>)

lemma new_pinv:
  assumes "myio_pool_new os m = (Some p, m')" and "\<not> m_fault m"
  shows "pinv p"
proof -
  have f: "\<not> m_fault p" "p_qhead p = None" "p_qtail p = None" "p_nqueued p = 0" "p_nrunning p = 0" "p_idle p = 0" "\<not> p_shutdown p" "p_nlive p = 0"
    "p_socks p = dl_empty" "p_th p = Map.empty" "p_sh p = Map.empty" "p_nw p = 0" "p_user p = U_ready"
    using assms by (auto simp: myio_pool_new_def sys_alloc_def sys_call_def Let_def mach.defs split: if_splits)
  have s: "held p = {}" "freed p = {}" "unlinked p = {}" by (simp_all add: held_def freed_def unlinked_def f)
  have v: "pview {} Map.empty = Map.empty" by (simp add: pview_def fun_eq_iff)
  have l: "locs Map.empty Map.empty (p_wnext p) [] {} {} {}"
    by (simp add: locs_def place_inv_def disp_inv_def sock_inv_def fifo_inv_def infl_inv_def close_inv_def)
  have "pmid {} {} [] p"
    using l by (simp add: pmid_def pdata_def f s v pthr_def ppc_def wcount_def qlist_def pq_def wq_list_def ptsk_def dlh.members_def)
  then show ?thesis by (auto simp: pinv_def psd_def pdrain_def f)
qed

lemma pool_trans_pinv: "pool_trans os p p' \<Longrightarrow> gai_ok os \<Longrightarrow> pinv p \<Longrightarrow> pinv p'"
  by (induction rule: pool_trans.induct)
    (auto intro: worker_keeps wake_keeps spurious_keeps call_keeps destroy_keeps user_keeps)

lemma pool_reach_pinv: "pool_reach os p \<Longrightarrow> gai_ok os \<Longrightarrow> pinv p"
  by (induction rule: pool_reach.induct) (auto intro: new_pinv pool_trans_pinv)


subsection \<open>Progress\<close>

lemma looking_steps: "w < p_nw p \<Longrightarrow> w_looking (p_w p w) \<Longrightarrow> \<exists>p'. worker_step os p w = Some p'"
  by (cases "p_w p w") (auto simp: worker_step_def)

lemma busy_steps:
  "w < p_nw p \<Longrightarrow> w_task (p_w p w) = Some t \<Longrightarrow> p_w p w \<noteq> W_drain_wait t \<Longrightarrow> \<exists>p'. worker_step os p w = Some p'"
  by (cases "p_w p w") (auto simp: worker_step_def)

text \<open>A dispatched task that is no close: a worker can move.\<close>

lemma dispatched_steps:
  assumes m: "pmid {} {} Q p" and t: "t \<in> set Q \<union> held p" and k: "\<And>x. p_th p t = Some x \<Longrightarrow> pt_kind x \<noteq> OP_SOCK_CLOSE"
  shows "\<exists>w p'. worker_step os p w = Some p'"
proof (cases "t \<in> set Q")
  case True
  have "length Q \<le> wcount w_looking p" using pmid_parts(2,9) [OF m] by (simp add: qlist_def pthr_def)
  then have "0 < wcount w_looking p" using True by (cases Q) auto
  then obtain w where "w < p_nw p" "w_looking (p_w p w)" by (auto simp: wcount_pos)
  from looking_steps [OF this] show ?thesis by blast
next
  case False
  with t obtain w where w: "w < p_nw p" "w_task (p_w p w) = Some t" by (auto simp: held_def)
  note kt = worker_task [OF m w]
  obtain x where "p_th p t = Some x" by (rule held_task [OF m kt(1)]) auto
  with k kt(4) have "p_w p w \<noteq> W_drain_wait t" by auto
  from busy_steps [OF w this] show ?thesis by blast
qed

lemma pool_progress:
  assumes m: "pmid {} {} Q p" "psd Q p" "pdrain p" and some: "0 < p_nqueued p + p_nrunning p \<or> (p_shutdown p \<and> 0 < p_nlive p)"
  shows "\<exists>w p'. worker_step os p w = Some p'"
proof (rule ccontr)
  assume none: "\<nexists>w p'. worker_step os p w = Some p'"
  note p = pmid_parts [OF m(1)] and l = locs_parts [OF pmid_parts(4) [OF m(1)]]
  have nl: "\<not> w_looking (p_w p w)" if "w < p_nw p" for w using looking_steps [OF that, of os] none by blast
  have "wcount w_looking p = 0" using wcount_pos [of w_looking p] nl by auto
  then have q: "p_nqueued p = 0" "Q = []" using p(2,9) by (auto simp: pthr_def qlist_def)
  have "\<exists>w < p_nw p. \<exists>t. p_w p w = W_drain_wait t"
  proof -
    have "\<exists>w < p_nw p. p_w p w \<noteq> W_gone \<and> \<not> w_parked (p_w p w)"
    proof (cases "0 < p_nrunning p")
      case True
      then have "0 < wcount w_busy p" using p(9) by (simp add: pthr_def)
      then obtain w where "w < p_nw p" "w_busy (p_w p w)" by (auto simp: wcount_pos)
      then show ?thesis by (cases "p_w p w") (auto simp: w_busy_def)
    next
      case False
      with some q have sd: "p_shutdown p" "0 < p_nlive p" by auto
      then have "0 < wcount (\<lambda>pc. pc \<noteq> W_gone) p" using p(9) by (simp add: pthr_def)
      then obtain w where "w < p_nw p" "p_w p w \<noteq> W_gone" by (auto simp: wcount_pos)
      with m(2) sd(1) show ?thesis by (auto simp: psd_def)
    qed
    then obtain w where w: "w < p_nw p" "p_w p w \<noteq> W_gone" "\<not> w_parked (p_w p w)" by blast
    have "w_task (p_w p w) \<noteq> None" using nl [OF w(1)] w(2,3) by (cases "p_w p w") auto
    then obtain t where t: "w_task (p_w p w) = Some t" by blast
    have "p_w p w = W_drain_wait t" using busy_steps [OF w(1) t, of os] none by blast
    with w(1) show ?thesis by blast
  qed
  then obtain w t where "w < p_nw p" "p_w p w = W_drain_wait t" by blast
  with m(3) obtain s y where y: "p_sh p s = Some y" "0 < ps_inflight y" unfolding pdrain_def by blast
  then have "0 < card (ops_on (pview {} (p_th p)) s)" using l(5) by (simp add: infl_inv_def)
  then obtain u k where u: "pview {} (p_th p) u = Some (k, Some s)" "op_on_sock k" by (auto simp: card_gt_0_iff ops_on_def)
  obtain v kv where v: "v \<in> set Q \<union> held p" "pview {} (p_th p) v = Some (kv, Some s)" "op_on_sock kv"
  proof (cases "k = OP_SOCK_WRITE")
    case False
    with l(2) u have "u \<in> set Q \<union> held p" unfolding disp_inv_def by fastforce
    with u that show thesis by blast
  next
    case True
    obtain xs where xs: "wq_list (p_wnext p) (ps_wq y) xs" "set xs = writes_on (pview {} (p_th p)) s" using fifo_list [OF l(4) y(1)] by blast
    with u True have "xs \<noteq> []" by (auto simp: writes_on_def)
    then have hd: "hd xs \<in> set xs" "wq_head (ps_wq y) = Some (hd xs)" using wq_list_head [OF xs(1)] by auto
    then have h: "pview {} (p_th p) (hd xs) = Some (OP_SOCK_WRITE, Some s)" using xs(2) by (auto simp: writes_on_def)
    with l(2) hd(2) y(1) have "hd xs \<in> set Q \<union> held p" unfolding disp_inv_def by fastforce
    with h that show thesis by simp
  qed
  have "\<And>x. p_th p v = Some x \<Longrightarrow> pt_kind x \<noteq> OP_SOCK_CLOSE" using v(2,3) by (auto simp: pview_Some)
  from dispatched_steps [OF m(1) v(1) this] none show False by blast
qed

text \<open>Nothing queued, nothing running: nothing is pending.\<close>

lemma quiescent:
  assumes m: "pmid {} {} Q p" and z: "p_nqueued p = 0" "p_nrunning p = 0" and x: "p_th p t = Some x"
  shows "pt_done x"
proof (rule ccontr)
  assume nd: "\<not> pt_done x"
  note p = pmid_parts [OF m] and l = locs_parts [OF pmid_parts(4) [OF m]]
  have Q: "Q = []" using p(2) z(1) by (simp add: qlist_def)
  have "wcount w_busy p = 0" using p(9) z(2) by (simp add: pthr_def)
  then have nb: "\<not> w_busy (p_w p w)" if "w < p_nw p" for w using that wcount_pos [of w_busy p] by auto
  have h: "held p = {}" unfolding held_def using nb by (auto simp: w_busy_def)
  have v: "pview {} (p_th p) t = Some (pt_kind x, pt_sock x)" using x nd by (auto simp: pview_Some)
  have nd': "False" if "pview {} (p_th p) u = Some (k, a)" "k = OP_SOCK_WRITE \<Longrightarrow> \<exists>s y. a = Some s \<and> p_sh p s = Some y \<and> wq_head (ps_wq y) = Some u" for u k a
    using l(2) that Q h unfolding disp_inv_def by fastforce
  show False
  proof (cases "pt_kind x = OP_SOCK_WRITE")
    case False
    with nd' [OF v] show False by blast
  next
    case True
    obtain s y where s: "pt_sock x = Some s" "p_sh p s = Some y" by (rule on_sock_live [OF m _ x nd]) (simp_all add: True)
    obtain xs where xs: "wq_list (p_wnext p) (ps_wq y) xs" "set xs = writes_on (pview {} (p_th p)) s" using fifo_list [OF l(4) s(2)] by blast
    with v True s have "xs \<noteq> []" by (auto simp: writes_on_def)
    then have hd: "hd xs \<in> set xs" "wq_head (ps_wq y) = Some (hd xs)" using wq_list_head [OF xs(1)] by auto
    then have "pview {} (p_th p) (hd xs) = Some (OP_SOCK_WRITE, Some s)" using xs(2) by (auto simp: writes_on_def)
    from nd' [OF this] hd(2) s(2) show False by blast
  qed
qed

lemma pinv_open:
  assumes "pinv p" and "p_user p \<noteq> U_gone"
  obtains Q where "pmid {} {} Q p" "psd Q p" "pdrain p" "user_inv p (p_user p)"
  using assms by (auto simp: pinv_def)


subsection \<open>The work queue against the write FIFO\<close>

text \<open>\<^verbatim>\<open>queue_remove\<close> is \<^verbatim>\<open>myio_wq_remove\<close> on the queue's own links, counter aside.\<close>

lemma queue_cut_loop:
  "myio_wq_remove_loop (p_qnext p) (pq p) t prev (Some t) = Some (True, p_qnext (queue_cut p t prev), pq (queue_cut p t prev))"
  by (subst myio_wq_remove_loop.simps) (auto simp: queue_cut_def pq_def m_flag_def Let_def split: option.splits)

lemma queue_remove_loop_wq:
  assumes "qlist p (as @ bs)" and "t \<notin> set as" and "prev = (if as = [] then None else Some (last as))"
    and "c = (if bs = [] then None else Some (hd bs))"
  shows "\<exists>p'. queue_remove_loop (p_qnext p) p t prev c = Some p' \<and>
    myio_wq_remove_loop (p_qnext p) (pq p) t prev c = Some (t \<in> set bs, p_qnext p', pq p')"
  using assms
proof (induction bs arbitrary: as prev c)
  case Nil
  then show ?case by (subst queue_remove_loop.simps, subst myio_wq_remove_loop.simps) simp
next
  case (Cons b bs)
  show ?case
  proof (cases "b = t")
    case True
    with Cons.prems(4) queue_cut_loop [of p t prev] show ?thesis by (subst queue_remove_loop.simps) simp
  next
    case False
    have n: "p_qnext p b = (if bs = [] then None else Some (hd bs))"
      using Cons.prems(1) by (auto simp: qlist_def wq_list_def dest: wpath_None_head)
    from Cons.IH [of "as @ [b]" "Some b", OF _ _ _ n] Cons.prems(1,2) False
    obtain p' where "queue_remove_loop (p_qnext p) p t (Some b) (p_qnext p b) = Some p'"
      "myio_wq_remove_loop (p_qnext p) (pq p) t (Some b) (p_qnext p b) = Some (t \<in> set bs, p_qnext p', pq p')" by auto
    with False Cons.prems(4) show ?thesis by (subst queue_remove_loop.simps, subst myio_wq_remove_loop.simps) simp
  qed
qed

lemma queue_remove_wq:
  assumes "qlist p Q"
  shows "myio_wq_remove (p_qnext p) (pq p) t = Some (t \<in> set Q, p_qnext (queue_remove p t), pq (queue_remove p t))"
proof -
  have h: "p_qhead p = (if Q = [] then None else Some (hd Q))" using assms wq_list_head [of "p_qnext p" "pq p" Q] by (simp add: qlist_def pq_def)
  from queue_remove_loop_wq [of p "[]" Q t None, OF _ _ _ h] assms
  obtain p' where "queue_remove_loop (p_qnext p) p t None (p_qhead p) = Some p'"
    "myio_wq_remove_loop (p_qnext p) (pq p) t None (p_qhead p) = Some (t \<in> set Q, p_qnext p', pq p')" by auto
  then show ?thesis by (simp add: queue_remove_def myio_wq_remove_def) (simp add: pq_def)
qed

subsection \<open>Deadlines\<close>

definition nanos :: "int \<times> int \<Rightarrow> int" where
  "nanos t = fst t * 1000000000 + snd t"

lemma deadline_nanos:
  assumes "0 \<le> snd now" "snd now < 1000000000"
  shows "nanos (deadline_after now ms) = nanos now + int ms * 1000000"
    and "0 \<le> snd (deadline_after now ms)" "snd (deadline_after now ms) < 1000000000"
proof -
  obtain a b where ab: "a = int (ms div 1000)" "b = int (ms mod 1000)" by blast
  have "ms = 1000 * (ms div 1000) + ms mod 1000" by simp
  then have m: "int ms = 1000 * a + b" unfolding ab by linarith
  have b: "0 \<le> b" "b < 1000" unfolding ab by simp_all
  show "nanos (deadline_after now ms) = nanos now + int ms * 1000000"
    "0 \<le> snd (deadline_after now ms)" "snd (deadline_after now ms) < 1000000000"
    unfolding deadline_after_def nanos_def ab [symmetric] m using assms b by (auto simp: Let_def)
qed

lemma time_left_nanos:
  assumes "0 \<le> snd d" "snd d < 1000000000" "0 \<le> snd now" "snd now < 1000000000"
  shows "(case time_left d now of
      None \<Rightarrow> nanos d < nanos now
    | Some r \<Rightarrow> nanos r = nanos d - nanos now \<and> 0 \<le> fst r \<and> 0 \<le> snd r \<and> snd r < 1000000000)"
  using assms unfolding time_left_def nanos_def by (auto simp: Let_def)


end
