(* ===== verification/Myio_Pool_Destroy.thy ===== *)
theory Myio_Pool_Destroy
  imports Myio_Pool_Reach
begin

text \<open>
  What teardown of the thread pool does to descriptors: dropping the work that never ran
  leaves every socket its descriptor, and the last step closes each of them.
\<close>

subsection \<open>Dropping work keeps the descriptors\<close>

definition pkeep :: "pool \<Rightarrow> pool \<Rightarrow> bool" where
  "pkeep p p' \<longleftrightarrow> p_shutdown p' = p_shutdown p \<and> (\<forall>s. map_option ps_fd (p_sh p' s) = map_option ps_fd (p_sh p s)) \<and>
     (\<exists>new. m_trace p' = new @ m_trace p)"

lemma pkeep_refl [simp, intro]: "pkeep p p" by (simp add: pkeep_def)

lemma pkeep_trans: "pkeep p q \<Longrightarrow> pkeep q r \<Longrightarrow> pkeep p r"
  by (auto simp: pkeep_def)

lemma pkeep_basic:
  "pkeep p (m_flag p)" "pkeep p (chk_pt t p)" "pkeep p (chk_ps s p)" "pkeep p (free_pt t p)" "pkeep p (done_broadcast p)"
  "pkeep p (work_broadcast p)" "pkeep p (snd (sys_call os c p))" "pkeep p (upd_pt t f p)"
  by (auto simp: pkeep_def m_flag_def chk_pt_def chk_ps_def free_pt_def done_broadcast_def work_broadcast_def sys_call_def
      upd_pt_def Let_def split: option.splits)

lemma pkeep_upd_ps: "(\<And>y. ps_fd (f y) = ps_fd y) \<Longrightarrow> pkeep p (upd_ps s f p)"
  by (auto simp: pkeep_def upd_ps_def m_flag_def split: option.splits)

lemma pkeep_upd_tsock: "(\<And>y. ps_fd (f y) = ps_fd y) \<Longrightarrow> pkeep p (upd_tsock t f p)"
  by (auto simp: upd_tsock_def intro: pkeep_basic pkeep_upd_ps split: option.split)

lemma pkeep_links: "pkeep (p\<lparr>p_wnext := nx\<rparr>) q \<Longrightarrow> pkeep p q" by (simp add: pkeep_def)

lemma pkeep_queue_remove: "pkeep p (queue_remove p t)"
proof -
  have c: "pkeep p (queue_cut p t prev)" for p t prev
    by (auto simp: queue_cut_def pkeep_def m_flag_def Let_def split: option.splits)
  have "pkeep p q" if "queue_remove_loop nx p t prev c = Some q" for nx prev c q
    by (rule queue_remove_loop.raw_induct [where P = "\<lambda>nx p t prev c q. pkeep p q", OF _ that])
      (auto split: option.splits if_splits intro: c)
  then show ?thesis by (auto simp: queue_remove_def intro: pkeep_basic split: option.split)
qed

lemma pkeep_write_advance: "p_shutdown p \<Longrightarrow> pkeep p (write_advance os p t)"
proof -
  assume sd: "p_shutdown p"
  have w: "pkeep q (pool_wq_remove q s t)" "pkeep q (snd (pool_wq_pop q s))" for q s
    by (auto simp: pool_wq_remove_def pool_wq_pop_def intro: pkeep_basic pkeep_links [OF pkeep_upd_ps] split: option.split)
  have k: "pkeep p (pool_wq_remove (chk_ps s p) s t)" "pkeep p (snd (pool_wq_pop (chk_ps s p) s))" for s
    by (rule pkeep_trans [OF pkeep_basic(3) w(1)] pkeep_trans [OF pkeep_basic(3) w(2)])+
  then have "p_shutdown (snd (pool_wq_pop (chk_ps s p) s))" for s using sd unfolding pkeep_def by blast
  with k show ?thesis unfolding write_advance_def Let_def case_prod_beta by (auto intro: pkeep_basic(1) split: option.split)
qed

lemma pkeep_reap: "res_ptr (pt_res (pt p t)) = None \<Longrightarrow> pkeep p (pool_reap os p t)"
  by (auto simp: pool_reap_def chk_pt_def pt_def m_flag_def Let_def pkeep_def free_pt_def split: option.splits)

lemma pkeep_unrun:
  assumes "p_shutdown p"
  shows "pkeep p (complete_unrun os p t)" and "res_ptr (pt_res (pt (complete_unrun os p t) t)) = None"
proof -
  define k where "k = pt_kind (pt (chk_pt t p) t)"
  define p1 where "p1 = queue_remove (chk_pt t p) t"
  define p2 where "p2 = (if op_on_sock k then upd_tsock t (\<lambda>y. y\<lparr>ps_inflight := ps_inflight y - 1\<rparr>) p1 else p1)"
  define p3 where "p3 = (if k = OP_SOCK_WRITE then write_advance os p2 t else p2)"
  define p4 where "p4 = upd_pt t (\<lambda>x. x\<lparr>pt_res := r_canceled, pt_done := True\<rparr>) p3"
  define p5 where "p5 = (if pt_detached (pt p4 t) then pool_reap os p4 t else p4)"
  have e: "complete_unrun os p t = done_broadcast p5" by (simp add: complete_unrun_def Let_def k_def p1_def p2_def p3_def p4_def p5_def)
  have 1: "pkeep p p1" unfolding p1_def by (rule pkeep_trans [OF pkeep_basic(2) pkeep_queue_remove])
  have 2: "pkeep p p2" using pkeep_trans [OF 1 pkeep_upd_tsock] 1 by (simp add: p2_def)
  then have "p_shutdown p2" using assms by (simp add: pkeep_def)
  from pkeep_trans [OF 2 pkeep_write_advance [OF this]] 2 have 3: "pkeep p p3" by (simp add: p3_def)
  have 4: "pkeep p p4" unfolding p4_def by (rule pkeep_trans [OF 3 pkeep_basic(8)])
  have r: "res_ptr (pt_res (pt p4 t)) = None"
    by (simp add: p4_def upd_pt_def pt_def r_canceled_def m_flag_def pool_task0_def result0_def split: option.split)
  have 5: "pkeep p p5" using pkeep_trans [OF 4 pkeep_reap [OF r]] 4 by (simp add: p5_def)
  show "pkeep p (complete_unrun os p t)" unfolding e by (rule pkeep_trans [OF 5 pkeep_basic(5)])
  have "pt (done_broadcast p5) t = pt p5 t" by (simp add: pt_def done_broadcast_def)
  moreover have "res_ptr (pt_res (pt (pool_reap os p4 t) t)) = None"
    using r by (simp add: pool_reap_def Let_def free_pt_def pt_def pool_task0_def result0_def)
  ultimately show "res_ptr (pt_res (pt (complete_unrun os p t) t)) = None" unfolding e using r by (simp add: p5_def)
qed

lemma pkeep_drop:
  assumes "p_shutdown p"
  shows "pkeep p (destroy_drop os p t)"
proof -
  have "p_shutdown (chk_pt t p)" using assms by (simp add: chk_pt_def m_flag_def)
  note u = pkeep_unrun [OF this, of os t]
  from pkeep_trans [OF pkeep_basic(2) u(1)] pkeep_trans [OF pkeep_trans [OF pkeep_basic(2) u(1)] pkeep_reap [OF u(2)]]
  show ?thesis by (simp add: destroy_drop_def Let_def)
qed

lemma pkeep_destroy_queue: "p_shutdown p \<Longrightarrow> pkeep p (destroy_queue os fuel p)"
proof (induction fuel arbitrary: p)
  case 0
  then show ?case by (subst destroy_queue.simps) (auto intro: pkeep_basic split: option.split)
next
  case (Suc fuel)
  have "p_shutdown (destroy_drop os p t)" for t using pkeep_drop [OF Suc.prems] Suc.prems by (simp add: pkeep_def)
  then have "pkeep p (destroy_queue os fuel (destroy_drop os p t))" for t
    by (rule pkeep_trans [OF pkeep_drop [OF Suc.prems] Suc.IH])
  then show ?case by (subst destroy_queue.simps) (auto split: option.split)
qed

lemma pkeep_destroy_fifo: "p_shutdown p \<Longrightarrow> pkeep p (destroy_fifo os fuel p h)"
proof (induction fuel arbitrary: p h)
  case 0
  then show ?case by (subst destroy_fifo.simps) (auto intro: pkeep_basic split: option.split)
next
  case (Suc fuel)
  have "p_shutdown (destroy_drop os p t)" for t using pkeep_drop [OF Suc.prems] Suc.prems by (simp add: pkeep_def)
  then have "pkeep p (destroy_fifo os fuel (destroy_drop os p t) n)" for t n
    by (rule pkeep_trans [OF pkeep_drop [OF Suc.prems] Suc.IH])
  then show ?case by (subst destroy_fifo.simps) (auto simp: Let_def split: option.split)
qed

lemma pkeep_destroy_socks: "p_shutdown p \<Longrightarrow> pkeep p (destroy_socks os fuel p c)"
proof (induction fuel arbitrary: p c)
  case 0
  then show ?case by (subst destroy_socks.simps) (auto intro: pkeep_basic split: option.split)
next
  case (Suc fuel)
  have k: "pkeep p (snd (sys_call os c (destroy_fifo os f p h)))" for c f h
    by (rule pkeep_trans [OF pkeep_destroy_fifo [OF Suc.prems] pkeep_basic(7)])
  then have "p_shutdown (snd (sys_call os c (destroy_fifo os f p h)))" for c f h using Suc.prems unfolding pkeep_def by blast
  then have "pkeep p (destroy_socks os fuel (snd (sys_call os c (destroy_fifo os f p h))) n)" for c f h n
    by (rule pkeep_trans [OF k Suc.IH])
  then show ?case by (subst destroy_socks.simps) (auto simp: Let_def case_prod_beta split: option.split)
qed

subsection \<open>The last step closes what is left\<close>

lemma destroy_free_closes:
  assumes "dl_list (p_socks p) (as @ bs)" and "dom (p_sh p) = set bs" and "c = (if bs = [] then None else Some (hd bs))" and "length bs \<le> fuel"
  shows "\<exists>new. m_trace (destroy_free os fuel p c) = new @ m_trace p \<and>
    (\<forall>s y. p_sh p s = Some y \<longrightarrow> (\<exists>a. (C_close (ps_fd y), a) \<in> set new))"
  using assms
proof (induction bs arbitrary: as fuel p c)
  case Nil
  then show ?case by (simp add: destroy_free.simps)
next
  case (Cons s bs)
  then obtain f where f: "fuel = Suc f" "length bs \<le> f" by (cases fuel) auto
  obtain y where y: "p_sh p s = Some y" using Cons.prems(2) by force
  let ?e = "(C_close (ps_fd y), os (m_trace p) (C_close (ps_fd y)))"
  let ?q = "p\<lparr>m_trace := ?e # m_trace p, p_sh := (p_sh p)(s := None)\<rparr>"
  have n: "dl_next (p_socks p) s = (if bs = [] then None else Some (hd bs))" by (rule dl_unlink_split(2) [OF Cons.prems(1)])
  have e: "destroy_free os fuel p c = destroy_free os f ?q (dl_next (p_socks p) s)"
    using Cons.prems(3) f(1) y by (subst destroy_free.simps) (simp add: live_access sys_call_def free_ps_def chk_ps_def Let_def)
  have "s \<notin> set bs" using dl_list_distinct [OF Cons.prems(1)] by auto
  then have d: "dom (p_sh ?q) = set bs" using Cons.prems(2) by auto
  have l: "dl_list (p_socks ?q) ((as @ [s]) @ bs)" using Cons.prems(1) by simp
  from Cons.IH [OF l d n f(2)] obtain new where new: "m_trace (destroy_free os f ?q (dl_next (p_socks p) s)) = new @ m_trace ?q"
    "\<And>k z. p_sh ?q k = Some z \<Longrightarrow> \<exists>a. (C_close (ps_fd z), a) \<in> set new" by blast
  have "\<exists>a. (C_close (ps_fd z), a) \<in> set (new @ [?e])" if "p_sh p k = Some z" for k z
    using new(2) [of k z] that y by (cases "k = s") auto
  with new(1) show ?case unfolding e by (intro exI [of _ "new @ [?e]"]) simp
qed

lemma destroy_wait_closes:
  assumes m: "pmid {} {} [] p" and g: "p_user (pool_destroy_wait os p) = U_gone"
  shows "\<exists>new. m_trace (pool_destroy_wait os p) = new @ m_trace p \<and>
    (\<forall>s y. p_sh p s = Some y \<longrightarrow> (\<exists>a. (C_close (ps_fd y), a) \<in> set new))"
proof -
  note p = pmid_parts [OF m]
  have nl: "p_nlive p = 0" using g by (auto simp: pool_destroy_wait_def split: if_splits)
  have wn: "wcount (\<lambda>pc. pc \<noteq> W_gone) p = 0" using p(9) nl by (simp add: pthr_def)
  have "p_w p w = W_gone" if "w < p_nw p" for w
    using wcount_pos [of "\<lambda>pc. pc \<noteq> W_gone" p] wn that by fastforce
  then have h: "unlinked p = {}" by (auto simp: unlinked_def)
  obtain ss where ss: "dl_list (p_socks p) ss" "set ss = dom (p_sh p)" using p(7) h by (auto simp: dlh.members_def)
  have "set ss \<subseteq> {..<m_brk p}" using p(5) ss(2) by auto
  then have "card (set ss) \<le> m_brk p" using card_mono [of "{..<m_brk p}"] by simp
  then have ln: "length ss \<le> m_brk p" using dl_list_distinct [OF ss(1)] by (simp add: distinct_card)
  from destroy_free_closes [of p "[]" ss "dl_head (p_socks p)" "m_brk p" os] ss ln dl_list_head [OF ss(1)] nl
  show ?thesis by (simp add: pool_destroy_wait_def)
qed

lemma pkeep_teardown: "\<exists>new. m_trace (pool_teardown os p) = new @ m_trace p"
    "map_option ps_fd (p_sh (pool_teardown os p) s) = map_option ps_fd (p_sh p s)"
proof -
  let ?p0 = "p\<lparr>p_shutdown := True\<rparr>"
  define p1 where "p1 = destroy_queue os (m_brk p) ?p0"
  have 1: "pkeep ?p0 p1" unfolding p1_def by (rule pkeep_destroy_queue) simp
  then have "p_shutdown p1" by (simp add: pkeep_def)
  from pkeep_trans [OF 1 pkeep_destroy_socks [OF this]]
  have "pkeep ?p0 (destroy_socks os (m_brk p1) p1 (dl_head (p_socks p1)))" .
  from pkeep_trans [OF pkeep_trans [OF this pkeep_basic(6)] pkeep_basic(5)] have "pkeep ?p0 (pool_teardown os p)"
    by (simp add: pool_teardown_def p1_def Let_def)
  then show "\<exists>new. m_trace (pool_teardown os p) = new @ m_trace p" "map_option ps_fd (p_sh (pool_teardown os p) s) = map_option ps_fd (p_sh p s)"
    by (simp_all add: pkeep_def)
qed

text \<open>The step with which destroy returns, at the call or out of its wait.\<close>

lemma destroy_returns:
  assumes i: "pinv p" and s: "(p_user p = U_ready \<and> p' = pool_destroy os p) \<or> user_step os p = Some p'" and g: "p_user p' = U_gone"
  shows "\<exists>new. m_trace p' = new @ m_trace p \<and> (\<forall>s y. p_sh p s = Some y \<longrightarrow> (\<exists>a. (C_close (ps_fd y), a) \<in> set new))"
  using s
proof
  assume r: "p_user p = U_ready \<and> p' = pool_destroy os p"
  then have r: "p_user p = U_ready" and p': "p' = pool_destroy_wait os (pool_teardown os p)" by (simp_all add: pool_destroy_teardown)
  obtain Q where m: "pmid {} {} Q p" by (rule pinv_ready [OF i r])
  obtain new where n: "m_trace p' = new @ m_trace (pool_teardown os p)"
    "\<And>s y. p_sh (pool_teardown os p) s = Some y \<Longrightarrow> \<exists>a. (C_close (ps_fd y), a) \<in> set new"
    using destroy_wait_closes [OF pool_teardown_pmid(1) [OF m], of os] g p' by blast
  obtain old where o: "m_trace (pool_teardown os p) = old @ m_trace p" using pkeep_teardown(1) by blast
  have "\<exists>a. (C_close (ps_fd y), a) \<in> set new" if "p_sh p s = Some y" for s y
    using pkeep_teardown(2) [of os p s] n(2) [of s] that by fastforce
  with n(1) o show ?thesis by (intro exI [of _ "new @ old"]) auto
next
  assume u: "user_step os p = Some p'"
  show ?thesis
  proof (cases "p_user p")
    case (U_destroying b)
    with u have p': "p' = pool_destroy_wait os p" by (auto simp: user_step_def split: bool.splits)
    from i U_destroying obtain Q where m: "pmid {} {} Q p" "psd Q p" "p_shutdown p" by (auto simp: pinv_def)
    then have "Q = []" by (auto simp: psd_def)
    with destroy_wait_closes [of p os] m(1) g p' show ?thesis by simp
  qed (use u g in \<open>auto simp: user_step_def pool_step_def pool_free_wait_def free_pt_def chk_pt_def m_flag_def Let_def split: bool.splits if_splits\<close>)
qed

end
