(* ===== verification/Myio_Pool_Demo.thy ===== *)
theory Myio_Pool_Demo
  imports Myio_Pool_Reach Myio_Demo
begin

text \<open>
  A short run of the thread pool on the environment of \<open>Myio_Demo\<close>: a listening socket, a
  write that a new worker is to run, a second write parked behind it, the worker with the
  first one, the user thread asleep. The witnesses of the pool's theorems use these states.
\<close>

definition pool0 :: pool where
  "pool0 = the (fst (myio_pool_new demo_os mach0))"

definition pool_listening :: pool where
  "pool_listening = pool_call demo_os pool0 (U_tcp_listen ''h'' 80 5)"

definition pool_write1 :: pool where
  "pool_write1 = pool_call demo_os pool_listening (U_sock_write 2 [1])"

definition pool_write2 :: pool where
  "pool_write2 = pool_call demo_os pool_write1 (U_sock_write 2 [2, 3])"

definition pool_taken :: pool where
  "pool_taken = the (worker_step demo_os pool_write2 0)"

definition pool_asleep :: pool where
  "pool_asleep = pool_call demo_os pool_taken U_step"

definition pool_canceled :: pool where
  "pool_canceled = pool_call demo_os pool_write1 (U_cancel 3)"

definition pool_over :: pool where
  "pool_over = pool_destroy demo_os pool_listening"

lemma pool0_new: "myio_pool_new demo_os mach0 = (Some pool0, snd (myio_pool_new demo_os mach0))"
  by (simp add: pool0_def myio_pool_new_def run_defs mach0_def)

lemma pool0_fields [simp]:
  "m_brk pool0 = 2" "m_fault pool0 = False" "p_qhead pool0 = None" "p_qtail pool0 = None" "p_nqueued pool0 = 0" "p_nrunning pool0 = 0"
  "p_completions pool0 = 0" "p_comp_seen pool0 = 0" "p_idle pool0 = 0" "p_shutdown pool0 = False" "p_nlive pool0 = 0"
  "p_socks pool0 = dl_empty" "p_th pool0 = Map.empty" "p_sh pool0 = Map.empty" "p_qnext pool0 = (\<lambda>_. None)" "p_wnext pool0 = (\<lambda>_. None)"
  "p_w pool0 = (\<lambda>_. W_gone)" "p_nw pool0 = 0" "p_user pool0 = U_ready"
  by (simp_all add: pool0_def myio_pool_new_def run_defs mach0_def mach.defs)

lemmas pool_run_defs = pool_sock_write_def pool_sock_op_def pool_op_def pool_task_new_def pool_submit_def pool_wq_push_def myio_wq_push_def
  dispatch_locked_def queue_push_def spawn_thread_def upd_pt_def upd_ps_def upd_tsock_def chk_pt_def chk_ps_def psk_def pt_def
  pool_task0_def pool_sock0_def myio_wq_empty_def run_defs

text \<open>The states, up to the trace and the number of the listener's descriptor.\<close>

definition demo_fd :: int where
  "demo_fd = 1 + int (length (m_trace pool0))"

lemma pool_listening_eq:
  "pool_listening = pool0\<lparr>m_trace := m_trace pool_listening, m_brk := 3, p_sh := [2 \<mapsto> pool_sock0 demo_fd],
     p_socks := dl_link (dl_zero dl_empty 2) 2\<rparr>"
  by (simp add: pool_listening_def pool_tcp_listen_def myio_posix_listen_def pool_sock_link_def run_defs numeral_3_eq_3 demo_fd_def)

definition demo_write :: "byte list \<Rightarrow> pool_task" where
  "demo_write bs = (pool_task0 OP_SOCK_WRITE)\<lparr>pt_sock := Some 2, pt_fd := demo_fd, pt_data := bs, pt_len := length bs\<rparr>"

lemma pool_write1_eq:
  "pool_write1 = pool0\<lparr>m_trace := m_trace pool_write1, m_brk := 4, p_th := [3 \<mapsto> demo_write [1]],
     p_sh := [2 \<mapsto> (pool_sock0 demo_fd)\<lparr>ps_inflight := 1, ps_wq := \<lparr>wq_head = Some 3, wq_tail = Some 3\<rparr>\<rparr>],
     p_socks := dl_link (dl_zero dl_empty 2) 2, p_qhead := Some 3, p_qtail := Some 3, p_nqueued := 1,
     p_w := (\<lambda>_. W_gone)(0 := W_top), p_nw := 1, p_nlive := 1\<rparr>"
  unfolding pool_write1_def by (subst (1 2) pool_listening_eq) (simp add: pool_run_defs demo_write_def)

lemma pool_write2_eq:
  "pool_write2 = pool0\<lparr>m_trace := m_trace pool_write2, m_brk := 5, p_th := [3 \<mapsto> demo_write [1], 4 \<mapsto> demo_write [2, 3]],
     p_sh := [2 \<mapsto> (pool_sock0 demo_fd)\<lparr>ps_inflight := 2, ps_wq := \<lparr>wq_head = Some 3, wq_tail = Some 4\<rparr>\<rparr>],
     p_socks := dl_link (dl_zero dl_empty 2) 2, p_qhead := Some 3, p_qtail := Some 3, p_nqueued := 1,
     p_wnext := (\<lambda>_. None)(3 := Some 4), p_w := (\<lambda>_. W_gone)(0 := W_top), p_nw := 1, p_nlive := 1\<rparr>"
  unfolding pool_write2_def by (subst (1 2) pool_write1_eq) (simp add: pool_run_defs demo_write_def)

lemma pool_taken_eq:
  "pool_taken = pool0\<lparr>m_trace := m_trace pool_taken, m_brk := 5,
     p_th := [3 \<mapsto> (demo_write [1])\<lparr>pt_started := True, pt_worker := 0\<rparr>, 4 \<mapsto> demo_write [2, 3]],
     p_sh := [2 \<mapsto> (pool_sock0 demo_fd)\<lparr>ps_inflight := 2, ps_wq := \<lparr>wq_head = Some 3, wq_tail = Some 4\<rparr>\<rparr>],
     p_socks := dl_link (dl_zero dl_empty 2) 2, p_nrunning := 1,
     p_wnext := (\<lambda>_. None)(3 := Some 4), p_w := (\<lambda>_. W_gone)(0 := W_start 3), p_nw := 1, p_nlive := 1\<rparr>"
  unfolding pool_taken_def
  by (subst (1 2) pool_write2_eq) (simp add: worker_step_def worker_look_def worker_take_def chk_pt_def upd_pt_def set_w_def Let_def fun_upd_twist)

lemma pool_asleep_eq: "pool_asleep = pool_taken\<lparr>p_user := U_stepping True\<rparr>"
  unfolding pool_asleep_def by (subst (1 2) pool_taken_eq) (simp add: pool_step_def)

lemma pool_canceled_eq:
  "pool_canceled = pool0\<lparr>m_trace := m_trace pool_canceled, m_brk := 4,
     p_th := [3 \<mapsto> (demo_write [1])\<lparr>pt_res := r_canceled, pt_done := True\<rparr>],
     p_sh := [2 \<mapsto> pool_sock0 demo_fd], p_socks := dl_link (dl_zero dl_empty 2) 2,
     p_w := (\<lambda>_. W_gone)(0 := W_top), p_nw := 1, p_nlive := 1\<rparr>"
  unfolding pool_canceled_def
  by (subst (1 2) pool_write1_eq)
    (simp add: pool_cancel_def live_access demo_write_def complete_unrun_def queue_remove_def queue_remove_loop.simps queue_cut_def
      write_advance_def pool_wq_pop_def myio_wq_pop_def pool_run_defs numeral_eq_Suc done_broadcast_def fun_eq_iff)

lemma pool_over_eq:
  "pool_over = pool0\<lparr>m_trace := m_trace pool_over, m_brk := 3, p_shutdown := True, p_socks := dl_link (dl_zero dl_empty 2) 2, p_user := U_gone\<rparr>"
  unfolding pool_over_def
  by (subst (1 2) pool_listening_eq)
    (simp add: pool_destroy_def destroy_queue.simps destroy_socks.simps destroy_fifo.simps destroy_free.simps pool_destroy_wait_def
      work_broadcast_def done_broadcast_def dl_link_def dl_zero_def dl_empty_def psk_def pool_sock0_def myio_wq_empty_def free_ps_def chk_ps_def
      numeral_3_eq_3 sys_call_def Let_def)

subsection \<open>The states are reachable\<close>

lemma pool0_reach: "pool_reach demo_os pool0"
  by (rule reach_new [OF pool0_new]) (simp add: mach0_def)

lemma pool_listening_reach: "pool_reach demo_os pool_listening"
  unfolding pool_listening_def by (rule reach_step [OF pool0_reach tr_call]) (simp_all add: pcall_ok_def)

lemma pool_write1_reach: "pool_reach demo_os pool_write1"
  unfolding pool_write1_def
  by (rule reach_step [OF pool_listening_reach tr_call]; subst pool_listening_eq) (simp_all add: pcall_ok_def pool_usable_def pool_sock0_def)

lemma pool_write2_reach: "pool_reach demo_os pool_write2"
  unfolding pool_write2_def
  by (rule reach_step [OF pool_write1_reach tr_call]; subst pool_write1_eq) (simp_all add: pcall_ok_def pool_usable_def pool_sock0_def)

lemma pool_taken_step: "worker_step demo_os pool_write2 0 = Some pool_taken"
  unfolding pool_taken_def by (subst (1 2) pool_write2_eq) (simp add: worker_step_def)

lemma pool_taken_reach: "pool_reach demo_os pool_taken"
  by (rule reach_step [OF pool_write2_reach tr_worker]) (rule pool_taken_step)

lemma pool_asleep_reach: "pool_reach demo_os pool_asleep"
  unfolding pool_asleep_def by (rule reach_step [OF pool_taken_reach tr_call]) (subst pool_taken_eq, simp_all add: pcall_ok_def)

lemma pool_canceled_reach: "pool_reach demo_os pool_canceled"
  unfolding pool_canceled_def
  by (rule reach_step [OF pool_write1_reach tr_call]; subst pool_write1_eq) (simp_all add: pcall_ok_def pool_handles_def demo_write_def pool_task0_def)

lemma pool_over_reach: "pool_reach demo_os pool_over"
  unfolding pool_over_def by (rule reach_step [OF pool_listening_reach tr_destroy]) (subst pool_listening_eq, simp)

subsection \<open>A close that waits for a write in flight\<close>

definition pool_closing :: pool where
  "pool_closing = pool_call demo_os pool_taken (U_sock_close 2)"

definition demo_close :: pool_task where
  "demo_close = (pool_task0 OP_SOCK_CLOSE)\<lparr>pt_sock := Some 2\<rparr>"

lemma pool_closing_eq:
  "pool_closing = pool0\<lparr>m_trace := m_trace pool_closing, m_brk := 6,
     p_th := [3 \<mapsto> (demo_write [1])\<lparr>pt_started := True, pt_worker := 0\<rparr>, 4 \<mapsto> (demo_write [2, 3])\<lparr>pt_res := r_canceled, pt_done := True\<rparr>,
       5 \<mapsto> demo_close],
     p_sh := [2 \<mapsto> (pool_sock0 demo_fd)\<lparr>ps_closing := True, ps_inflight := 1, ps_wq := \<lparr>wq_head = Some 3, wq_tail = Some 3\<rparr>\<rparr>],
     p_socks := dl_link (dl_zero dl_empty 2) 2, p_nrunning := 1, p_qhead := Some 5, p_qtail := Some 5, p_nqueued := 1,
     p_w := (\<lambda>_. W_gone)(0 := W_start 3, 1 := W_top), p_nw := 2, p_nlive := 2\<rparr>"
  unfolding pool_closing_def
  by (subst (1 2) pool_taken_eq)
    (simp add: pool_sock_close_def live_access demo_write_def demo_close_def complete_unrun_def queue_remove_def queue_remove_loop.simps queue_cut_def
      close_parked.simps
      write_advance_def pool_wq_pop_def myio_wq_pop_def pool_wq_remove_def myio_wq_remove_def myio_wq_remove_loop.simps pool_run_defs numeral_eq_Suc done_broadcast_def fun_eq_iff)


definition pool_closer :: pool where
  "pool_closer = the (worker_step demo_os pool_closing 1)"

definition pool_draining :: pool where
  "pool_draining = set_w 1 (W_drain_wait 5) pool_closer"

lemma pool_closer_eq:
  "pool_closer = pool0\<lparr>m_trace := m_trace pool_closer, m_brk := 6,
     p_th := [3 \<mapsto> (demo_write [1])\<lparr>pt_started := True, pt_worker := 0\<rparr>, 4 \<mapsto> (demo_write [2, 3])\<lparr>pt_res := r_canceled, pt_done := True\<rparr>,
       5 \<mapsto> demo_close\<lparr>pt_started := True, pt_worker := 1\<rparr>],
     p_sh := [2 \<mapsto> (pool_sock0 demo_fd)\<lparr>ps_closing := True, ps_inflight := 1, ps_wq := \<lparr>wq_head = Some 3, wq_tail = Some 3\<rparr>\<rparr>],
     p_socks := dl_link (dl_zero dl_empty 2) 2, p_nrunning := 2,
     p_w := (\<lambda>_. W_gone)(0 := W_start 3, 1 := W_start 5), p_nw := 2, p_nlive := 2\<rparr>"
  unfolding pool_closer_def
  by (subst (1 2) pool_closing_eq) (simp add: worker_step_def worker_look_def worker_take_def chk_pt_def upd_pt_def set_w_def Let_def)

lemma pool_closer_fields:
  "p_th pool_closer 5 = Some (demo_close\<lparr>pt_started := True, pt_worker := 1\<rparr>)" "p_w pool_closer 1 = W_start 5" "p_nw pool_closer = 2"
  "p_sh pool_closer 2 = Some ((pool_sock0 demo_fd)\<lparr>ps_closing := True, ps_inflight := 1, ps_wq := \<lparr>wq_head = Some 3, wq_tail = Some 3\<rparr>\<rparr>)"
  "p_user pool_closer = U_ready"
  by (subst pool_closer_eq, simp)+

lemma pool_closing_reach: "pool_reach demo_os pool_closing"
  unfolding pool_closing_def
  by (rule reach_step [OF pool_taken_reach tr_call]; subst pool_taken_eq) (simp_all add: pcall_ok_def pool_usable_def pool_sock0_def)

lemma pool_closer_reach: "pool_reach demo_os pool_closer"
proof -
  have "worker_step demo_os pool_closing 1 = Some pool_closer"
    unfolding pool_closer_def by (subst (1 2) pool_closing_eq) (simp add: worker_step_def)
  from reach_step [OF pool_closing_reach tr_worker [OF this]] show ?thesis .
qed

lemma pool_draining_reach: "pool_reach demo_os pool_draining"
proof -
  have a: "worker_step demo_os pool_closer 1 = Some (set_w 1 (W_drain 5) pool_closer)"
    using pool_closer_fields by (simp add: worker_step_def worker_start_def live_access demo_close_def pool_task0_def Let_def)
  have b: "worker_step demo_os (set_w 1 (W_drain 5) pool_closer) 1 = Some pool_draining"
    using pool_closer_fields by (simp add: worker_step_def worker_drain_def live_access demo_close_def pool_draining_def pool_task0_def
        set_w_def Let_def)
  show ?thesis by (rule reach_step [OF reach_step [OF pool_closer_reach tr_worker [OF a]] tr_worker [OF b]])
qed

end
