(* ===== verification/Myio_Slist.thy ===== *)
theory Myio_Slist
  imports Myio_Wq Myio_Dlist
begin

text \<open>
  The singly linked intrusive lists of the Zephyr backends (in-flight tasks, live
  sockets, finished functions of \<^verbatim>\<open>src/src/myio_zephyr.c\<close>): a head and the \<^verbatim>\<open>next\<close>
  field of every node. A node is pushed at the head; removal walks a pointer to the
  pointer that leads to the node. The lists satisfy the contract \<open>registry\<close>.
\<close>

record slist =
  sl_head :: ptr
  sl_next :: wlinks

definition sl_empty :: slist where
  "sl_empty = \<lparr>sl_head = None, sl_next = (\<lambda>_. None)\<rparr>"

definition sl_push :: "slist \<Rightarrow> addr \<Rightarrow> slist" where
  "sl_push d n = d\<lparr>sl_next := (sl_next d)(n := sl_head d), sl_head := Some n\<rparr>"

text \<open>\<^verbatim>\<open>*p = n->next\<close>, where \<^verbatim>\<open>p\<close> is the link field of \<open>prev\<close>, or the head.\<close>

definition sl_skip :: "slist \<Rightarrow> addr \<Rightarrow> ptr \<Rightarrow> slist" where
  "sl_skip d n prev =
     (case prev of
        None \<Rightarrow> d\<lparr>sl_head := sl_next d n\<rparr>
      | Some p \<Rightarrow> d\<lparr>sl_next := (sl_next d)(p := sl_next d n)\<rparr>)"

text \<open>
  The walk \<^verbatim>\<open>for (p = &head; *p; p = &(*p)->next)\<close>: \<open>prev\<close> is the node whose field \<^verbatim>\<open>p\<close>
  points to (\<open>None\<close>: the head itself), \<open>c\<close> is \<^verbatim>\<open>*p\<close>. The result says whether the node was
  found. On a cyclic chain the walk might not return.
\<close>

partial_function (option) sl_remove_loop :: "addr \<Rightarrow> ptr \<Rightarrow> ptr \<Rightarrow> slist \<Rightarrow> (bool \<times> slist) option" where
  "sl_remove_loop n prev c d =
     (case c of
        None \<Rightarrow> Some (False, d)
      | Some c \<Rightarrow>
          if c \<noteq> n then sl_remove_loop n (Some c) (sl_next d c) d
          else Some (True, sl_skip d n prev))"

definition sl_remove :: "slist \<Rightarrow> addr \<Rightarrow> (bool \<times> slist) option" where
  "sl_remove d n = sl_remove_loop n None (sl_head d) d"

partial_function (option) sl_mem_loop :: "slist \<Rightarrow> addr \<Rightarrow> ptr \<Rightarrow> bool option" where
  "sl_mem_loop d n c =
     (case c of
        None \<Rightarrow> Some False
      | Some c \<Rightarrow> if c = n then Some True else sl_mem_loop d n (sl_next d c))"

definition sl_mem :: "slist \<Rightarrow> addr \<Rightarrow> bool option" where
  "sl_mem d n = sl_mem_loop d n (sl_head d)"

subsection \<open>The abstract list\<close>

definition sl_list :: "slist \<Rightarrow> addr list \<Rightarrow> bool" where
  "sl_list d xs \<longleftrightarrow> wpath (sl_next d) (sl_head d) xs None \<and> distinct xs"

lemma sl_list_distinct: "sl_list d xs \<Longrightarrow> distinct xs"
  by (simp add: sl_list_def)

lemma sl_list_unique: "sl_list d xs \<Longrightarrow> sl_list d ys \<Longrightarrow> xs = ys"
  by (auto simp: sl_list_def dest: wpath_unique)

lemma sl_list_head: "sl_list d xs \<Longrightarrow> sl_head d = (if xs = [] then None else Some (hd xs))"
  by (auto simp: sl_list_def dest: wpath_None_head)

lemma sl_list_empty [simp]: "sl_list sl_empty xs \<longleftrightarrow> xs = []"
  by (auto simp: sl_list_def sl_empty_def)

lemma sl_list_next:
  "sl_list d (as @ x # bs) \<Longrightarrow> sl_next d x = (if bs = [] then None else Some (hd bs))"
  by (auto simp: sl_list_def dest: wpath_None_head)

lemma sl_list_frame: "x \<notin> set xs \<Longrightarrow> sl_list (d\<lparr>sl_next := (sl_next d)(x := v)\<rparr>) xs = sl_list d xs"
  by (simp add: sl_list_def)

lemma sl_push_list: "sl_list d xs \<Longrightarrow> n \<notin> set xs \<Longrightarrow> sl_list (sl_push d n) (n # xs)"
  by (simp add: sl_list_def sl_push_def)

lemma sl_remove_loop_list:
  assumes "sl_list d (as @ bs)" and "n \<notin> set as"
    and "prev = (if as = [] then None else Some (last as))" and "c = (if bs = [] then None else Some (hd bs))"
  shows "\<exists>d'. sl_remove_loop n prev c d = Some (n \<in> set bs, d') \<and> sl_list d' (as @ remove1 n bs)"
  using assms
proof (induction bs arbitrary: as prev c)
  case Nil
  then show ?case by (subst sl_remove_loop.simps) simp
next
  case (Cons b bs)
  have nb: "sl_next d b = (if bs = [] then None else Some (hd bs))" by (rule sl_list_next [OF Cons.prems(1)])
  show ?case
  proof (cases "b = n")
    case False
    with Cons.IH [of "as @ [b]" "Some b" "sl_next d b"] Cons.prems nb show ?thesis
      by (subst sl_remove_loop.simps) auto
  next
    case True
    show ?thesis
    proof (cases as rule: rev_cases)
      case Nil
      with True Cons.prems show ?thesis by (subst sl_remove_loop.simps) (auto simp: sl_list_def sl_skip_def)
    next
      case (snoc ys p)
      with True Cons.prems show ?thesis by (subst sl_remove_loop.simps) (auto simp: sl_list_def sl_skip_def)
    qed
  qed
qed

lemma sl_remove_list:
  assumes "sl_list d xs"
  shows "\<exists>d'. sl_remove d n = Some (n \<in> set xs, d') \<and> sl_list d' (remove1 n xs)"
  using sl_remove_loop_list [of d "[]" xs n None "sl_head d"] assms by (simp add: sl_remove_def sl_list_head)

lemma sl_mem_loop_list:
  "sl_list d (as @ bs) \<Longrightarrow> sl_mem_loop d n (if bs = [] then None else Some (hd bs)) = Some (n \<in> set bs)"
proof (induction bs arbitrary: as)
  case Nil
  then show ?case by (subst sl_mem_loop.simps) simp
next
  case (Cons b bs)
  note nb = sl_list_next [OF Cons.prems]
  from Cons.IH [of "as @ [b]"] Cons.prems nb show ?case by (subst sl_mem_loop.simps) auto
qed

lemma sl_mem_list: "sl_list d xs \<Longrightarrow> sl_mem d n = Some (n \<in> set xs)"
  using sl_mem_loop_list [of d "[]" xs n] by (simp add: sl_mem_def sl_list_head)

interpretation sl: registry sl_list sl_push "\<lambda>d n. snd (the (sl_remove d n))"
proof
  fix d n as bs
  assume l: "sl_list d (as @ n # bs)"
  then have "n \<notin> set as" by (auto dest: sl_list_distinct)
  with sl_remove_list [OF l, of n] show "sl_list (snd (the (sl_remove d n))) (as @ bs)"
    by (auto simp: remove1_append)
qed (auto intro: sl_list_distinct sl_push_list)

end
