(* ===== verification/Myio_Zephyr.thy ===== *)
theory Myio_Zephyr
  imports Myio_Common Myio_Slist
begin

text \<open>
  The event-loop backend for Zephyr, \<^verbatim>\<open>src/src/myio_zephyr.c\<close>, function by function and
  for every build configuration (\<open>zcfg\<close> holds the Kconfig values the file tests). Tasks
  and sockets come from slabs of fixed size. The loop is the program's own: one turn
  polls the in-flight socket operations and an eventfd, fires timers, advances what is
  ready and harvests finished functions.

  Functions given to \<open>myio_spawn\<close> run on a work-queue thread. That thread touches an
  instance only in \<open>spawn_work_handler\<close>, which finishes by pushing its task on a list
  under a lock; the user thread looks at what the handler writes only under the same
  lock (when it drains the list, when it cancels a spawn). At each of these points, and
  while the user thread sleeps in poll, the environment decides which handlers have
  run in the meantime (\<open>z_turns\<close>); elsewhere the two threads share nothing but the eventfd.
  The push and the eventfd write that follows it are one step of the model, so a destroy
  that closes the eventfd between the two is not expressible.

  Signed 64-bit sums wrap (\<open>c_int64\<close>) where C leaves an overflow undefined: the deadline of
  a sleep and the time left until it, the only two such sums of the file.
\<close>

subsection \<open>Configuration, constants\<close>

record zcfg =
  cfg_max_tasks :: nat
  cfg_max_sockets :: nat
  cfg_max_files :: nat
  cfg_file_system :: bool
  cfg_spawn_inline :: bool

text \<open>C's conversion to a signed 64-bit integer.\<close>

definition c_int64 :: "int \<Rightarrow> int" where
  "c_int64 x = signed_take_bit 63 x"

definition INT64_MAX :: int where "INT64_MAX = 2 ^ 63 - 1"
definition INT32_MAX :: int where "INT32_MAX = 2 ^ 31 - 1"
definition ZSOCK_POLLIN :: int where "ZSOCK_POLLIN = 1"
definition ZSOCK_POLLOUT :: int where "ZSOCK_POLLOUT = 4"
definition ZVFS_O_NONBLOCK :: int where "ZVFS_O_NONBLOCK = 16384"
definition IPPROTO_TCP :: int where "IPPROTO_TCP = 6"
definition O_ACCMODE :: int where "O_ACCMODE = 3"
definition O_RDONLY :: int where "O_RDONLY = 0"
definition O_WRONLY :: int where "O_WRONLY = 1"
definition O_CREAT :: int where "O_CREAT = 64"
definition O_TRUNC :: int where "O_TRUNC = 512"
definition O_APPEND :: int where "O_APPEND = 1024"
definition FS_O_READ :: int where "FS_O_READ = 1"
definition FS_O_WRITE :: int where "FS_O_WRITE = 2"
definition FS_O_RDWR :: int where "FS_O_RDWR = 3"
definition FS_O_CREATE :: int where "FS_O_CREATE = 16"
definition FS_O_APPEND :: int where "FS_O_APPEND = 32"
definition FS_O_TRUNC :: int where "FS_O_TRUNC = 64"

lemmas z_flag_defs = ZSOCK_POLLIN_def ZSOCK_POLLOUT_def ZVFS_O_NONBLOCK_def O_ACCMODE_def O_RDONLY_def O_WRONLY_def
  O_CREAT_def O_TRUNC_def O_APPEND_def FS_O_READ_def FS_O_WRITE_def FS_O_RDWR_def FS_O_CREATE_def FS_O_APPEND_def
  FS_O_TRUNC_def

subsection \<open>Data\<close>

datatype z_kind =
    ZTASK_INLINE | ZTASK_TIMER | ZTASK_SPAWN | ZTASK_CONNECT | ZTASK_ACCEPT | ZTASK_SOCK_READ | ZTASK_SOCK_WRITE

record z_task =
  zt_kind :: z_kind
  zt_done :: bool
  zt_detached :: bool
  zt_res :: myio_result
  zt_sock :: ptr
  zt_buf :: addr
  zt_cbuf :: "byte list"
  zt_len :: nat
  zt_off :: nat
  zt_deadline :: int
  zt_fn :: addr
  zt_arg :: addr
  zt_fn_ret :: int
  zt_pushed :: bool

record z_sock =
  zs_fd :: int
  zs_port :: int
  zs_read_task :: ptr
  zs_accept_task :: ptr
  zs_wq :: myio_wq

text \<open>
  The instance, with the heaps of its objects. \<open>z_ntask\<close> and \<open>z_nsock\<close> are the blocks in
  use of the two slabs, \<open>z_spawn_q\<close> is \<^verbatim>\<open>spawn_q_started\<close>, \<open>z_errno\<close> is \<^verbatim>\<open>errno\<close>. The link
  fields \<^verbatim>\<open>next\<close>, \<^verbatim>\<open>done_next\<close> and \<^verbatim>\<open>wnode\<close> of the objects are in the lists they form.
\<close>

record z_io = mach +
  z_in_use :: bool
  z_evfd :: int
  z_pend :: slist
  z_socks :: slist
  z_sdone :: slist
  z_th :: "addr \<rightharpoonup> z_task"
  z_sh :: "addr \<rightharpoonup> z_sock"
  z_wnext :: wlinks
  z_ntask :: nat
  z_nsock :: nat
  z_file_used :: "bool list"
  z_errbuf :: string
  z_errno :: int
  z_spawn_q :: bool

definition z_task0 :: "z_kind \<Rightarrow> z_task" where
  "z_task0 k = \<lparr>zt_kind = k, zt_done = False, zt_detached = False, zt_res = result0, zt_sock = None, zt_buf = 0,
     zt_cbuf = [], zt_len = 0, zt_off = 0, zt_deadline = 0, zt_fn = 0, zt_arg = 0, zt_fn_ret = 0, zt_pushed = False\<rparr>"

definition z_sock0 :: "int \<Rightarrow> z_sock" where
  "z_sock0 fd = \<lparr>zs_fd = fd, zs_port = 0, zs_read_task = None, zs_accept_task = None, zs_wq = myio_wq_empty\<rparr>"

subsection \<open>Access through pointers, system calls\<close>

definition zt :: "z_io \<Rightarrow> addr \<Rightarrow> z_task" where
  "zt z t = (case z_th z t of Some x \<Rightarrow> x | None \<Rightarrow> z_task0 ZTASK_INLINE)"

definition zs :: "z_io \<Rightarrow> addr \<Rightarrow> z_sock" where
  "zs z s = (case z_sh z s of Some y \<Rightarrow> y | None \<Rightarrow> z_sock0 (- 1))"

definition upd_zt :: "addr \<Rightarrow> (z_task \<Rightarrow> z_task) \<Rightarrow> z_io \<Rightarrow> z_io" where
  "upd_zt t f z = (case z_th z t of
     None \<Rightarrow> m_flag z
   | Some x \<Rightarrow> z\<lparr>z_th := (z_th z)(t \<mapsto> f x)\<rparr>)"

definition upd_zs :: "addr \<Rightarrow> (z_sock \<Rightarrow> z_sock) \<Rightarrow> z_io \<Rightarrow> z_io" where
  "upd_zs s f z = (case z_sh z s of
     None \<Rightarrow> m_flag z
   | Some y \<Rightarrow> z\<lparr>z_sh := (z_sh z)(s \<mapsto> f y)\<rparr>)"

definition chk_zt :: "addr \<Rightarrow> z_io \<Rightarrow> z_io" where
  "chk_zt t z = (if z_th z t = None then m_flag z else z)"

definition chk_zs :: "addr \<Rightarrow> z_io \<Rightarrow> z_io" where
  "chk_zs s z = (if z_sh z s = None then m_flag z else z)"

text \<open>Giving a block back to its slab.\<close>

definition free_zt :: "addr \<Rightarrow> z_io \<Rightarrow> z_io" where
  "free_zt t z =
     (let z = chk_zt t z; z = z\<lparr>z_th := (z_th z)(t := None)\<rparr>
      in if z_ntask z = 0 then m_flag z else z\<lparr>z_ntask := z_ntask z - 1\<rparr>)"

definition free_zs :: "addr \<Rightarrow> z_io \<Rightarrow> z_io" where
  "free_zs s z =
     (let z = chk_zs s z; z = z\<lparr>z_sh := (z_sh z)(s := None)\<rparr>
      in if z_nsock z = 0 then m_flag z else z\<lparr>z_nsock := z_nsock z - 1\<rparr>)"

text \<open>A call that reports failure by a negative value and leaves its reason in \<^verbatim>\<open>errno\<close>.\<close>

definition z_call :: "os \<Rightarrow> call \<Rightarrow> z_io \<Rightarrow> answer \<times> z_io" where
  "z_call os c z =
     (let (a, z) = sys_call os c z in (a, if a_ret a < 0 then z\<lparr>z_errno := a_errno a\<rparr> else z))"

subsection \<open>Task allocation and completion\<close>

definition z_task_new :: "zcfg \<Rightarrow> z_io \<Rightarrow> z_kind \<Rightarrow> ptr \<times> z_io" where
  "z_task_new c z kind =
     (if z_ntask z \<ge> cfg_max_tasks c then (None, z)
      else
        let t = m_brk z
        in (Some t, z\<lparr>m_brk := Suc t, z_ntask := Suc (z_ntask z), z_th := (z_th z)(t \<mapsto> z_task0 kind),
             z_pend := (z_pend z)\<lparr>sl_next := (sl_next (z_pend z))(t := None)\<rparr>,
             z_sdone := (z_sdone z)\<lparr>sl_next := (sl_next (z_sdone z))(t := None)\<rparr>,
             z_wnext := (z_wnext z)(t := None)\<rparr>))"

definition z_sock_release :: "os \<Rightarrow> z_io \<Rightarrow> addr \<Rightarrow> z_io" where
  "z_sock_release os z s =
     (let z = chk_zs s z;
          z = (case sl_remove (z_socks z) s of None \<Rightarrow> m_flag z | Some (_, d) \<Rightarrow> z\<lparr>z_socks := d\<rparr>);
          (_, z) = z_call os (C_close (zs_fd (zs z s))) z
      in free_zs s z)"

definition z_task_free_mem :: "zcfg \<Rightarrow> os \<Rightarrow> z_io \<Rightarrow> addr \<Rightarrow> z_io" where
  "z_task_free_mem c os z t =
     (let z = chk_zt t z;
          z = (if \<not> cfg_spawn_inline c \<and> zt_kind (zt z t) = ZTASK_SPAWN then
                 let (a, z) = sys_call os (C_work_busy t) z
                 in if a_ret a \<noteq> 0 then snd (sys_call os (C_work_flush t) z) else z
               else z)
      in free_zt t z)"

definition z_task_reap :: "zcfg \<Rightarrow> os \<Rightarrow> z_io \<Rightarrow> addr \<Rightarrow> z_io" where
  "z_task_reap c os z t =
     (let z = chk_zt t z;
          z = (case res_ptr (zt_res (zt z t)) of
                 Some s \<Rightarrow> z_sock_release os z s
               | None \<Rightarrow> z)
      in z_task_free_mem c os z t)"

definition z_pending_remove :: "z_io \<Rightarrow> addr \<Rightarrow> z_io" where
  "z_pending_remove z t =
     (case sl_remove (z_pend z) t of
        None \<Rightarrow> m_flag z
      | Some (found, d) \<Rightarrow>
          z\<lparr>z_pend := (if found then d\<lparr>sl_next := (sl_next d)(t := None)\<rparr> else d)\<rparr>)"

definition z_task_complete ::
  "zcfg \<Rightarrow> os \<Rightarrow> z_io \<Rightarrow> addr \<Rightarrow> myio_status \<Rightarrow> int \<Rightarrow> int \<Rightarrow> ptr \<Rightarrow> z_io" where
  "z_task_complete c os z t status value error p =
     (let z = z_pending_remove z t;
          z = upd_zt t (\<lambda>x. x\<lparr>zt_res := mk_result status value error p, zt_done := True\<rparr>) z
      in if zt_detached (zt z t) then z_task_reap c os z t else z)"

definition z_task_ok :: "zcfg \<Rightarrow> os \<Rightarrow> z_io \<Rightarrow> addr \<Rightarrow> int \<Rightarrow> ptr \<Rightarrow> z_io" where
  "z_task_ok c os z t value p = z_task_complete c os z t MYIO_OK value 0 p"

definition z_task_err :: "zcfg \<Rightarrow> os \<Rightarrow> z_io \<Rightarrow> addr \<Rightarrow> int \<Rightarrow> z_io" where
  "z_task_err c os z t error = z_task_complete c os z t MYIO_ERROR 0 error None"

definition z_task_canceled :: "zcfg \<Rightarrow> os \<Rightarrow> z_io \<Rightarrow> addr \<Rightarrow> z_io" where
  "z_task_canceled c os z t = z_task_complete c os z t MYIO_CANCELED 0 0 None"

definition z_task_new_failed :: "zcfg \<Rightarrow> os \<Rightarrow> z_io \<Rightarrow> int \<Rightarrow> ptr \<times> z_io" where
  "z_task_new_failed c os z err =
     (let (p, z) = z_task_new c z ZTASK_INLINE in
      case p of None \<Rightarrow> (None, z) | Some t \<Rightarrow> (Some t, z_task_err c os z t err))"

definition z_pending_push :: "z_io \<Rightarrow> addr \<Rightarrow> z_io" where
  "z_pending_push z t = (chk_zt t z)\<lparr>z_pend := sl_push (z_pend z) t\<rparr>"

subsection \<open>Sockets: creation\<close>

definition z_sock_new :: "zcfg \<Rightarrow> z_io \<Rightarrow> int \<Rightarrow> ptr \<times> z_io" where
  "z_sock_new c z fd =
     (if z_nsock z \<ge> cfg_max_sockets c then (None, z)
      else
        let s = m_brk z
        in (Some s, z\<lparr>m_brk := Suc s, z_nsock := Suc (z_nsock z), z_sh := (z_sh z)(s \<mapsto> z_sock0 fd),
             z_socks := sl_push (z_socks z) s\<rparr>))"

definition z_sock_set_nonblock :: "os \<Rightarrow> z_io \<Rightarrow> int \<Rightarrow> int \<times> z_io" where
  "z_sock_set_nonblock os z fd =
     (let (fl, z) = z_call os (C_fcntl_getfl fd) z in
      if a_ret fl < 0 then (- 1, z)
      else let (r, z) = z_call os (C_fcntl_setfl fd (or (a_ret fl) ZVFS_O_NONBLOCK)) z in (a_ret r, z))"

subsection \<open>Files: complete inside submit\<close>

definition z_fs_result :: "zcfg \<Rightarrow> os \<Rightarrow> z_io \<Rightarrow> int \<Rightarrow> int \<Rightarrow> ptr \<times> z_io" where
  "z_fs_result c os z rc value =
     (let (p, z) = z_task_new c z ZTASK_INLINE in
      case p of
        None \<Rightarrow> (None, z)
      | Some t \<Rightarrow> (Some t, if rc < 0 then z_task_err c os z t (- rc) else z_task_ok c os z t value None))"

fun z_free_slot :: "bool list \<Rightarrow> nat \<Rightarrow> nat option" where
  "z_free_slot [] i = None"
| "z_free_slot (used # us) i = (if \<not> used then Some i else z_free_slot us (Suc i))"

definition z_open_flags :: "int \<Rightarrow> int" where
  "z_open_flags flags =
     (let zflags = (if and flags O_ACCMODE = O_RDONLY then FS_O_READ
                    else if and flags O_ACCMODE = O_WRONLY then FS_O_WRITE
                    else FS_O_RDWR);
          zflags = (if and flags O_CREAT \<noteq> 0 then or zflags FS_O_CREATE else zflags);
          zflags = (if and flags O_APPEND \<noteq> 0 then or zflags FS_O_APPEND else zflags)
      in if and flags O_TRUNC \<noteq> 0 then or zflags FS_O_TRUNC else zflags)"

definition z_open :: "zcfg \<Rightarrow> os \<Rightarrow> z_io \<Rightarrow> string \<Rightarrow> int \<Rightarrow> int \<Rightarrow> ptr \<times> z_io" where
  "z_open c os z path flags mode =
     (if \<not> cfg_file_system c then z_task_new_failed c os z ENOSYS
      else case z_free_slot (z_file_used z) 0 of
        None \<Rightarrow> z_task_new_failed c os z EMFILE
      | Some slot \<Rightarrow>
          let (a, z) = sys_call os (C_fs_open slot path (z_open_flags flags)) z;
              rc = a_ret a;
              z = (if rc = 0 then z\<lparr>z_file_used := (z_file_used z)[slot := True]\<rparr> else z)
          in z_fs_result c os z rc (int slot))"

definition z_file_ok :: "zcfg \<Rightarrow> z_io \<Rightarrow> int \<Rightarrow> bool" where
  "z_file_ok c z fd \<longleftrightarrow> 0 \<le> fd \<and> fd < int (cfg_max_files c) \<and> z_file_used z ! nat fd"

definition z_close :: "zcfg \<Rightarrow> os \<Rightarrow> z_io \<Rightarrow> int \<Rightarrow> ptr \<times> z_io" where
  "z_close c os z fd =
     (if \<not> cfg_file_system c then z_task_new_failed c os z ENOSYS
      else if \<not> z_file_ok c z fd then z_task_new_failed c os z EBADF
      else
        let (a, z) = sys_call os (C_fs_close (nat fd)) z;
            rc = a_ret a;
            z = (if rc = 0 then z\<lparr>z_file_used := (z_file_used z)[nat fd := False]\<rparr> else z)
        in z_fs_result c os z rc 0)"

text \<open>Seek, transfer, restore; \<open>xfer\<close> is the read or the write of the open file.\<close>

definition z_file_rw :: "zcfg \<Rightarrow> os \<Rightarrow> z_io \<Rightarrow> int \<Rightarrow> (nat \<Rightarrow> call) \<Rightarrow> int \<Rightarrow> ptr \<times> z_io" where
  "z_file_rw c os z fd xfer offset =
     (if \<not> cfg_file_system c then z_task_new_failed c os z ENOSYS
      else if \<not> z_file_ok c z fd then z_task_new_failed c os z EBADF
      else
        let f = nat fd in
        if offset \<noteq> MYIO_NO_OFFSET then
          let (saved, z) = sys_call os (C_fs_tell f) z in
          if a_ret saved < 0 then z_fs_result c os z (c_int (a_ret saved)) 0
          else
            let (r, z) = sys_call os (C_fs_seek f offset) z in
            if a_ret r < 0 then z_fs_result c os z (a_ret r) 0
            else
              let (n, z) = sys_call os (xfer f) z;
                  (_, z) = sys_call os (C_fs_seek f (a_ret saved)) z
              in z_fs_result c os z (if a_ret n < 0 then c_int (a_ret n) else 0) (a_ret n)
        else
          let (n, z) = sys_call os (xfer f) z
          in z_fs_result c os z (if a_ret n < 0 then c_int (a_ret n) else 0) (a_ret n))"

definition z_read :: "zcfg \<Rightarrow> os \<Rightarrow> z_io \<Rightarrow> int \<Rightarrow> addr \<Rightarrow> nat \<Rightarrow> int \<Rightarrow> ptr \<times> z_io" where
  "z_read c os z fd buf len offset = z_file_rw c os z fd (\<lambda>f. C_fs_read f buf len) offset"

definition z_write :: "zcfg \<Rightarrow> os \<Rightarrow> z_io \<Rightarrow> int \<Rightarrow> byte list \<Rightarrow> int \<Rightarrow> ptr \<times> z_io" where
  "z_write c os z fd buf offset = z_file_rw c os z fd (\<lambda>f. C_fs_write f buf) offset"

subsection \<open>Timers\<close>

text \<open>The deadline is computed in signed 64-bit arithmetic: in the model a wait beyond its range wraps.\<close>

definition z_sleep :: "zcfg \<Rightarrow> os \<Rightarrow> z_io \<Rightarrow> nat \<Rightarrow> ptr \<times> z_io" where
  "z_sleep c os z ms =
     (let (p, z) = z_task_new c z ZTASK_TIMER in
      case p of
        None \<Rightarrow> (None, z)
      | Some t \<Rightarrow>
          let (a, z) = sys_call os C_uptime z;
              z = upd_zt t (\<lambda>x. x\<lparr>zt_deadline := c_int64 (a_ret a + c_int64 (int ms))\<rparr>) z
          in (Some t, z_pending_push z t))"

subsection \<open>Spawned functions\<close>

definition spawn_work_handler :: "os \<Rightarrow> z_io \<Rightarrow> addr \<Rightarrow> z_io" where
  "spawn_work_handler os z t =
     (let z = chk_zt t z;
          (a, z) = sys_call os (C_fn (zt_fn (zt z t)) (zt_arg (zt z t))) z;
          z = upd_zt t (\<lambda>x. x\<lparr>zt_fn_ret := a_ret a, zt_pushed := True\<rparr>) z;
          z = z\<lparr>z_sdone := sl_push (z_sdone z) t\<rparr>
      in snd (sys_call os (C_eventfd_write (z_evfd z)) z))"

text \<open>
  The work-queue thread gets as far as the environment says: each answer names the
  next task whose handler has run. No more handlers can run than there are tasks, so
  the bound \<open>m_brk\<close> used below leaves the environment free.
\<close>

fun z_turns :: "os \<Rightarrow> nat \<Rightarrow> z_io \<Rightarrow> z_io" where
  "z_turns os 0 z = z"
| "z_turns os (Suc n) z =
     (let (a, z) = sys_call os C_work_turn z in
      case a_cqe a of
        Some (Ud_task t, _) \<Rightarrow> z_turns os n (spawn_work_handler os z t)
      | _ \<Rightarrow> z)"

definition z_others :: "zcfg \<Rightarrow> os \<Rightarrow> z_io \<Rightarrow> z_io" where
  "z_others c os z = (if cfg_spawn_inline c then z else z_turns os (m_brk z) z)"

definition z_spawn :: "zcfg \<Rightarrow> os \<Rightarrow> z_io \<Rightarrow> addr \<Rightarrow> addr \<Rightarrow> ptr \<times> z_io" where
  "z_spawn c os z fn arg =
     (if cfg_spawn_inline c then
        let (p, z) = z_task_new c z ZTASK_INLINE in
        case p of
          None \<Rightarrow> (None, z)
        | Some t \<Rightarrow>
            let (a, z) = sys_call os (C_fn fn arg) z; rc = a_ret a
            in (Some t, if rc \<ge> 0 then z_task_ok c os z t rc None else z_task_err c os z t (c_int (- rc)))
      else
        let (p, z) = z_task_new c z ZTASK_SPAWN in
        case p of
          None \<Rightarrow> (None, z)
        | Some t \<Rightarrow>
            let z = upd_zt t (\<lambda>x. x\<lparr>zt_fn := fn, zt_arg := arg\<rparr>) z;
                z = z_pending_push z t
            in (Some t, snd (sys_call os (C_work_submit t) z)))"

text \<open>
  The harvest loop: each round takes one task off the list. There are fewer finished
  spawns than allocated addresses; a list that never empties would be a fault.
\<close>

fun z_drain :: "zcfg \<Rightarrow> os \<Rightarrow> nat \<Rightarrow> z_io \<Rightarrow> z_io" where
  "z_drain c os 0 z = m_flag z"
| "z_drain c os (Suc n) z =
     (let z = z_others c os z in
      case sl_head (z_sdone z) of
        None \<Rightarrow> z
      | Some t \<Rightarrow>
          let z = chk_zt t z;
              z = z\<lparr>z_sdone := (z_sdone z)\<lparr>sl_head := sl_next (z_sdone z) t\<rparr>\<rparr>;
              ret = zt_fn_ret (zt z t)
          in z_drain c os n
               (if ret \<ge> 0 then z_task_ok c os z t ret None else z_task_err c os z t (c_int (- ret))))"

definition drain_spawn_done :: "zcfg \<Rightarrow> os \<Rightarrow> z_io \<Rightarrow> z_io" where
  "drain_spawn_done c os z = z_drain c os (Suc (m_brk z)) z"

subsection \<open>TCP: connect\<close>

definition z_tcp_connect :: "zcfg \<Rightarrow> os \<Rightarrow> z_io \<Rightarrow> string \<Rightarrow> int \<Rightarrow> ptr \<times> z_io" where
  "z_tcp_connect c os z host port =
     (let (p, z) = z_task_new c z ZTASK_CONNECT in
      case p of
        None \<Rightarrow> (None, z)
      | Some t \<Rightarrow>
          let (a, z) = z_call os (C_getaddrinfo host (snprintf_d 8 port) False) z;
              rc = a_ret a
          in if rc \<noteq> 0 then
               (Some t, z_task_err c os z t (if rc = EAI_SYSTEM then z_errno z else if rc < 0 then rc else - rc))
             else case a_addrs a of
               [] \<Rightarrow> (Some t, m_flag z)
             | ai # _ \<Rightarrow>
                 let (f, z) = z_call os (C_socket (ai_family ai) SOCK_STREAM IPPROTO_TCP) z;
                     fd = a_ret f;
                     (nb, z) = (if fd < 0 then (- 1, z) else z_sock_set_nonblock os z fd)
                 in if fd < 0 \<or> nb < 0 then
                      let err = z_errno z;
                          z = (if fd \<ge> 0 then snd (z_call os (C_close fd) z) else z)
                      in (Some t, z_task_err c os z t err)
                    else
                      let (sp, z) = z_sock_new c z fd in
                      case sp of
                        None \<Rightarrow>
                          let (_, z) = z_call os (C_close fd) z in (Some t, z_task_err c os z t ENOMEM)
                      | Some s \<Rightarrow>
                          let z = upd_zt t (\<lambda>x. x\<lparr>zt_sock := Some s\<rparr>) z;
                              (r, z) = z_call os (C_connect fd (ai_addr ai)) z
                          in if a_ret r = 0 then
                               let z = upd_zt t (\<lambda>x. x\<lparr>zt_sock := None\<rparr>) z
                               in (Some t, z_task_ok c os z t 0 (Some s))
                             else if z_errno z = EINPROGRESS then (Some t, z_pending_push z t)
                             else
                               let z = upd_zt t (\<lambda>x. x\<lparr>zt_sock := None\<rparr>) z;
                                   z = z_sock_release os z s
                               in (Some t, z_task_err c os z t (z_errno z)))"

definition z_connect_ready :: "zcfg \<Rightarrow> os \<Rightarrow> z_io \<Rightarrow> addr \<Rightarrow> z_io" where
  "z_connect_ready c os z t =
     (let z = chk_zt t z in
      case zt_sock (zt z t) of
        None \<Rightarrow> m_flag z
      | Some s \<Rightarrow>
          let z = chk_zs s z;
              (a, z) = z_call os (C_getsockopt_error (zs_fd (zs z s))) z;
              soerr = (if a_ret a < 0 then z_errno z else fst (a_rem a));
              z = upd_zt t (\<lambda>x. x\<lparr>zt_sock := None\<rparr>) z
          in if soerr = 0 then z_task_ok c os z t 0 (Some s)
             else z_task_err c os (z_sock_release os z s) t soerr)"

subsection \<open>TCP: listen, accept\<close>

definition z_tcp_listen :: "zcfg \<Rightarrow> os \<Rightarrow> z_io \<Rightarrow> string \<Rightarrow> int \<Rightarrow> int \<Rightarrow> ptr \<times> int option \<times> z_io" where
  "z_tcp_listen c os z host port backlog =
     (let (a4, z) = z_call os (C_inet_pton AF_INET host) z;
          (a6, z) = (if a_ret a4 = 1 then (a4, z) else z_call os (C_inet_pton AF_INET6 host) z)
      in if a_ret a4 \<noteq> 1 \<and> a_ret a6 \<noteq> 1 then (None, Some EINVAL, z)
         else
           let fam = (if a_ret a4 = 1 then AF_INET else AF_INET6);
               ss = \<lparr>ss_family = fam, ss_port = htons (word_of_int port), ss_addr = host\<rparr>;
               (f, z) = z_call os (C_socket fam SOCK_STREAM IPPROTO_TCP) z;
               fd = a_ret f
           in if fd < 0 then (None, Some (z_errno z), z)
              else
                let (_, z) = z_call os (C_setsockopt fd) z;
                    (nb, z) = z_sock_set_nonblock os z fd;
                    (b, z) = (if nb < 0 then (nb, z) else let (b, z) = z_call os (C_bind fd ss) z in (a_ret b, z));
                    (l, z) = (if b < 0 then (b, z) else let (l, z) = z_call os (C_listen fd backlog) z in (a_ret l, z))
                in if l < 0 then
                     let err = z_errno z; (_, z) = z_call os (C_close fd) z in (None, Some err, z)
                   else
                     let (sp, z) = z_sock_new c z fd in
                     case sp of
                       None \<Rightarrow> let (_, z) = z_call os (C_close fd) z in (None, Some ENOMEM, z)
                     | Some s \<Rightarrow> (Some s, None, upd_zs s (\<lambda>y. y\<lparr>zs_port := port\<rparr>) z))"

text \<open>The tries of accept and read say whether the task completed.\<close>

definition z_accept_try :: "zcfg \<Rightarrow> os \<Rightarrow> z_io \<Rightarrow> addr \<Rightarrow> bool \<times> z_io" where
  "z_accept_try c os z t =
     (let z = chk_zt t z in
      case zt_sock (zt z t) of
        None \<Rightarrow> (True, m_flag z)
      | Some ls \<Rightarrow>
          let z = chk_zs ls z;
              (a, z) = z_call os (C_accept (zs_fd (zs z ls))) z;
              fd = a_ret a
          in if fd < 0 \<and> z_errno z = EAGAIN then (False, z)
             else
               let z = upd_zs ls (\<lambda>y. y\<lparr>zs_accept_task := None\<rparr>) z in
               if fd < 0 then (True, z_task_err c os z t (z_errno z))
               else
                 let (nb, z) = z_sock_set_nonblock os z fd in
                 if nb < 0 then
                   let e = z_errno z; (_, z) = z_call os (C_close fd) z in (True, z_task_err c os z t e)
                 else
                   let (sp, z) = z_sock_new c z fd in
                   case sp of
                     None \<Rightarrow> let (_, z) = z_call os (C_close fd) z in (True, z_task_err c os z t ENOMEM)
                   | Some s \<Rightarrow> (True, z_task_ok c os z t 0 (Some s)))"

definition z_tcp_accept :: "zcfg \<Rightarrow> os \<Rightarrow> z_io \<Rightarrow> addr \<Rightarrow> ptr \<times> z_io" where
  "z_tcp_accept c os z ls =
     (let z = chk_zs ls z in
      if zs_accept_task (zs z ls) \<noteq> None then z_task_new_failed c os z EBUSY
      else
        let (p, z) = z_task_new c z ZTASK_ACCEPT in
        case p of
          None \<Rightarrow> (None, z)
        | Some t \<Rightarrow>
            let z = upd_zt t (\<lambda>x. x\<lparr>zt_sock := Some ls\<rparr>) z;
                z = upd_zs ls (\<lambda>y. y\<lparr>zs_accept_task := Some t\<rparr>) z;
                (ready, z) = z_accept_try c os z t
            in (Some t, if ready then z else z_pending_push z t))"

subsection \<open>TCP: read, write, close\<close>

definition z_read_try :: "zcfg \<Rightarrow> os \<Rightarrow> z_io \<Rightarrow> addr \<Rightarrow> bool \<times> z_io" where
  "z_read_try c os z t =
     (let z = chk_zt t z; x = zt z t in
      case zt_sock x of
        None \<Rightarrow> (True, m_flag z)
      | Some s \<Rightarrow>
          let z = chk_zs s z;
              (a, z) = z_call os (C_recv (zs_fd (zs z s)) (zt_buf x) (zt_len x)) z;
              n = a_ret a
          in if n < 0 \<and> z_errno z = EAGAIN then (False, z)
             else
               let z = upd_zs s (\<lambda>y. y\<lparr>zs_read_task := None\<rparr>) z
               in (True, if n < 0 then z_task_err c os z t (z_errno z) else z_task_ok c os z t n None))"

definition z_sock_read :: "zcfg \<Rightarrow> os \<Rightarrow> z_io \<Rightarrow> addr \<Rightarrow> addr \<Rightarrow> nat \<Rightarrow> ptr \<times> z_io" where
  "z_sock_read c os z s buf len =
     (let z = chk_zs s z in
      if zs_read_task (zs z s) \<noteq> None then z_task_new_failed c os z EBUSY
      else
        let (p, z) = z_task_new c z ZTASK_SOCK_READ in
        case p of
          None \<Rightarrow> (None, z)
        | Some t \<Rightarrow>
            let z = upd_zt t (\<lambda>x. x\<lparr>zt_sock := Some s, zt_buf := buf, zt_len := len\<rparr>) z;
                z = upd_zs s (\<lambda>y. y\<lparr>zs_read_task := Some t\<rparr>) z;
                (ready, z) = z_read_try c os z t
            in (Some t, if ready then z else z_pending_push z t))"

text \<open>
  The send loop: 0 when the whole buffer is out, -1 when it would block, else the
  error number. A socket that keeps taking nothing would keep it running (\<open>None\<close>).
\<close>

partial_function (option) z_write_try :: "os \<Rightarrow> z_io \<Rightarrow> addr \<Rightarrow> (int \<times> z_io) option" where
  "z_write_try os z t =
     (let x = zt z t in
      if zt_off x < zt_len x then
        case zt_sock x of
          None \<Rightarrow> Some (0, m_flag z)
        | Some s \<Rightarrow>
            let (a, z) = z_call os (C_send (zs_fd (zs z s)) (drop (zt_off x) (zt_cbuf x))) (chk_zs s z) in
            if a_ret a < 0 then Some (if z_errno z = EAGAIN then - 1 else z_errno z, z)
            else z_write_try os (upd_zt t (\<lambda>x. x\<lparr>zt_off := zt_off x + nat (a_ret a)\<rparr>) z) t
      else Some (0, z))"

definition z_wq_push :: "z_io \<Rightarrow> addr \<Rightarrow> addr \<Rightarrow> bool \<times> z_io" where
  "z_wq_push z s t =
     (let (b, nx, q) = myio_wq_push (z_wnext z) (zs_wq (zs z s)) t
      in (b, upd_zs s (\<lambda>y. y\<lparr>zs_wq := q\<rparr>) (z\<lparr>z_wnext := nx\<rparr>)))"

definition z_wq_pop :: "z_io \<Rightarrow> addr \<Rightarrow> ptr \<times> z_io" where
  "z_wq_pop z s =
     (case myio_wq_pop (z_wnext z) (zs_wq (zs z s)) of
        None \<Rightarrow> (None, m_flag z)
      | Some (h, nx, q) \<Rightarrow> (h, upd_zs s (\<lambda>y. y\<lparr>zs_wq := q\<rparr>) (z\<lparr>z_wnext := nx\<rparr>)))"

definition z_wq_remove :: "z_io \<Rightarrow> addr \<Rightarrow> addr \<Rightarrow> z_io" where
  "z_wq_remove z s t =
     (case myio_wq_remove (z_wnext z) (zs_wq (zs z s)) t of
        None \<Rightarrow> m_flag z
      | Some (b, nx, q) \<Rightarrow> upd_zs s (\<lambda>y. y\<lparr>zs_wq := q\<rparr>) (z\<lparr>z_wnext := nx\<rparr>))"

text \<open>The head write \<open>t\<close> is over (\<open>r\<close> is 0 or an error): pop it, complete it, name its successor.\<close>

definition z_write_end :: "zcfg \<Rightarrow> os \<Rightarrow> z_io \<Rightarrow> addr \<Rightarrow> int \<Rightarrow> ptr \<times> z_io" where
  "z_write_end c os z t r =
     (case zt_sock (zt z t) of
        None \<Rightarrow> (None, m_flag z)
      | Some s \<Rightarrow>
          let (next, z) = z_wq_pop z s
          in (next, if r = 0 then z_task_ok c os z t (int (zt_len (zt z t))) None else z_task_err c os z t r))"

fun z_write_arm :: "zcfg \<Rightarrow> os \<Rightarrow> nat \<Rightarrow> z_io \<Rightarrow> addr \<Rightarrow> z_io option" where
  "z_write_arm c os 0 z t = Some (m_flag z)"
| "z_write_arm c os (Suc fuel) z t =
     Option.bind (z_write_try os (chk_zt t z) t) (\<lambda>(r, z).
       if r < 0 then Some (z_pending_push z t)
       else case z_write_end c os z t r of
         (None, z) \<Rightarrow> Some z
       | (Some n, z) \<Rightarrow> z_write_arm c os fuel z n)"

definition z_write_ready :: "zcfg \<Rightarrow> os \<Rightarrow> z_io \<Rightarrow> addr \<Rightarrow> z_io option" where
  "z_write_ready c os z t =
     Option.bind (z_write_try os (chk_zt t z) t) (\<lambda>(r, z).
       if r < 0 then Some z
       else case z_write_end c os z t r of
         (None, z) \<Rightarrow> Some z
       | (Some n, z) \<Rightarrow> z_write_arm c os (m_brk z) z n)"

definition z_sock_write :: "zcfg \<Rightarrow> os \<Rightarrow> z_io \<Rightarrow> addr \<Rightarrow> byte list \<Rightarrow> (ptr \<times> z_io) option" where
  "z_sock_write c os z s buf =
     (let (p, z) = z_task_new c z ZTASK_SOCK_WRITE in
      case p of
        None \<Rightarrow> Some (None, z)
      | Some t \<Rightarrow>
          let z = upd_zt t (\<lambda>x. x\<lparr>zt_sock := Some s, zt_cbuf := buf, zt_len := length buf\<rparr>) (chk_zs s z);
              (head, z) = z_wq_push z s t
          in if head then map_option (\<lambda>z. (Some t, z)) (z_write_arm c os (m_brk z) z t)
             else Some (Some t, z))"

definition z_close_read :: "zcfg \<Rightarrow> os \<Rightarrow> z_io \<Rightarrow> addr \<Rightarrow> z_io" where
  "z_close_read c os z s =
     (case zs_read_task (zs z s) of
        None \<Rightarrow> z
      | Some rt \<Rightarrow> z_task_canceled c os (upd_zs s (\<lambda>y. y\<lparr>zs_read_task := None\<rparr>) z) rt)"

definition z_close_accept :: "zcfg \<Rightarrow> os \<Rightarrow> z_io \<Rightarrow> addr \<Rightarrow> z_io" where
  "z_close_accept c os z s =
     (case zs_accept_task (zs z s) of
        None \<Rightarrow> z
      | Some at \<Rightarrow> z_task_canceled c os (upd_zs s (\<lambda>y. y\<lparr>zs_accept_task := None\<rparr>) z) at)"

fun z_close_writes :: "zcfg \<Rightarrow> os \<Rightarrow> nat \<Rightarrow> z_io \<Rightarrow> addr \<Rightarrow> z_io" where
  "z_close_writes c os 0 z s = (if wq_head (zs_wq (zs z s)) = None then z else m_flag z)"
| "z_close_writes c os (Suc fuel) z s =
     (case wq_head (zs_wq (zs z s)) of
        None \<Rightarrow> z
      | Some w \<Rightarrow>
          let (_, z) = z_wq_pop z s
          in z_close_writes c os fuel (z_task_canceled c os z w) s)"

definition z_sock_close :: "zcfg \<Rightarrow> os \<Rightarrow> z_io \<Rightarrow> addr \<Rightarrow> ptr \<times> z_io" where
  "z_sock_close c os z s =
     (let (p, z) = z_task_new c z ZTASK_INLINE in
      case p of
        None \<Rightarrow> (None, z)
      | Some t \<Rightarrow>
          let z = chk_zs s z;
              z = z_close_read c os z s;
              z = z_close_accept c os z s;
              z = z_close_writes c os (m_brk z) z s;
              z = z_sock_release os z s
          in (Some t, z_task_ok c os z t 0 None))"

definition z_sock_port :: "os \<Rightarrow> z_io \<Rightarrow> addr \<Rightarrow> int \<times> z_io" where
  "z_sock_port os z s =
     (let z = chk_zs s z;
          (a, z) = z_call os (C_getsockname (zs_fd (zs z s))) z
      in (if a_ret a \<noteq> 0 then (if zs_port (zs z s) > 0 then zs_port (zs z s) else - 1)
          else myio_sockaddr_port (a_addr a), z))"


subsection \<open>The loop\<close>

text \<open>The events a pending task polls its socket for, none for timers and spawns.\<close>

fun z_events :: "z_kind \<Rightarrow> int option" where
  "z_events ZTASK_CONNECT = Some ZSOCK_POLLOUT"
| "z_events ZTASK_SOCK_WRITE = Some ZSOCK_POLLOUT"
| "z_events ZTASK_ACCEPT = Some ZSOCK_POLLIN"
| "z_events ZTASK_SOCK_READ = Some ZSOCK_POLLIN"
| "z_events _ = None"

text \<open>
  Filling the arrays \<^verbatim>\<open>fds\<close> and \<^verbatim>\<open>owner\<close>, which have \<open>cfg_max_tasks + 1\<close> entries; a store
  behind their end is a fault.
\<close>

fun z_scan :: "zcfg \<Rightarrow> nat \<Rightarrow> z_io \<Rightarrow> ptr \<Rightarrow> (int \<times> int) list \<Rightarrow> addr list \<Rightarrow> int \<Rightarrow>
    ((int \<times> int) list \<times> addr list \<times> int) \<times> z_io" where
  "z_scan c fuel z None fds owner dl = ((fds, owner, dl), z)"
| "z_scan c 0 z (Some t) fds owner dl = ((fds, owner, dl), m_flag z)"
| "z_scan c (Suc fuel) z (Some t) fds owner dl =
     (let z = chk_zt t z; x = zt z t; next = sl_next (z_pend z) t in
      if zt_kind x = ZTASK_TIMER then
        z_scan c fuel z next fds owner (if zt_deadline x < dl then zt_deadline x else dl)
      else case z_events (zt_kind x) of
        None \<Rightarrow> z_scan c fuel z next fds owner dl
      | Some ev \<Rightarrow>
          let z = (if length fds \<le> cfg_max_tasks c then z else m_flag z) in
          case zt_sock x of
            None \<Rightarrow> ((fds, owner, dl), m_flag z)
          | Some s \<Rightarrow>
              let z = chk_zs s z
              in z_scan c fuel z next (fds @ [(zs_fd (zs z s), ev)]) (owner @ [t]) dl)"

definition z_timeout :: "int \<Rightarrow> int \<Rightarrow> int" where
  "z_timeout deadline now =
     (let delta = c_int64 (deadline - now)
      in if delta > 0 then (if delta > INT32_MAX then INT32_MAX else delta) else 0)"

fun z_timers :: "zcfg \<Rightarrow> os \<Rightarrow> nat \<Rightarrow> z_io \<Rightarrow> ptr \<Rightarrow> int \<Rightarrow> z_io" where
  "z_timers c os fuel z None now = z"
| "z_timers c os 0 z (Some t) now = m_flag z"
| "z_timers c os (Suc fuel) z (Some t) now =
     (let z = chk_zt t z;
          next = sl_next (z_pend z) t;
          z = (if zt_kind (zt z t) = ZTASK_TIMER \<and> zt_deadline (zt z t) \<le> now
               then z_task_ok c os z t 0 None else z)
      in z_timers c os fuel z next now)"

definition z_ready :: "zcfg \<Rightarrow> os \<Rightarrow> z_io \<Rightarrow> addr \<Rightarrow> z_io option" where
  "z_ready c os z t =
     (case zt_kind (zt z t) of
        ZTASK_CONNECT \<Rightarrow> Some (z_connect_ready c os z t)
      | ZTASK_ACCEPT \<Rightarrow> Some (snd (z_accept_try c os z t))
      | ZTASK_SOCK_READ \<Rightarrow> Some (snd (z_read_try c os z t))
      | ZTASK_SOCK_WRITE \<Rightarrow> z_write_ready c os z t
      | _ \<Rightarrow> Some z)"

text \<open>The walk over the owners whose descriptor has events, each only if it is still in flight.\<close>

fun z_dispatch :: "zcfg \<Rightarrow> os \<Rightarrow> z_io \<Rightarrow> (addr \<times> bool) list \<Rightarrow> z_io option" where
  "z_dispatch c os z [] = Some z"
| "z_dispatch c os z ((t, revents) # ts) =
     (if \<not> revents then z_dispatch c os z ts
      else case sl_mem (z_pend z) t of
        None \<Rightarrow> Some (m_flag z)
      | Some False \<Rightarrow> z_dispatch c os z ts
      | Some True \<Rightarrow> Option.bind (z_ready c os z t) (\<lambda>z. z_dispatch c os z ts))"

definition revents_at :: "answer \<Rightarrow> nat \<Rightarrow> bool" where
  "revents_at a i \<longleftrightarrow> i < length (a_revents a) \<and> a_revents a ! i"

definition run_loop_once :: "zcfg \<Rightarrow> os \<Rightarrow> z_io \<Rightarrow> z_io option" where
  "run_loop_once c os z =
     (let ((fds, owner, dl), z) = z_scan c (m_brk z) z (sl_head (z_pend z)) [] [] INT64_MAX;
          z = (if length fds \<le> cfg_max_tasks c then z else m_flag z);
          fds = fds @ [(z_evfd z, ZSOCK_POLLIN)];
          (timeout, z) = (if dl \<noteq> INT64_MAX
             then let (u, z) = sys_call os C_uptime z in (z_timeout dl (a_ret u), z) else (- 1, z));
          z = z_others c os z;
          (rc, z) = sys_call os (C_poll fds timeout) z;
          (now, z) = sys_call os C_uptime z;
          z = z_timers c os (m_brk z) z (sl_head (z_pend z)) (a_ret now)
      in if a_ret rc \<le> 0 then Some z
         else map_option (\<lambda>z.
             if revents_at rc (length owner) then
               let (_, z) = sys_call os (C_eventfd_read (z_evfd z)) z
               in if cfg_spawn_inline c then z else drain_spawn_done c os z
             else z)
           (z_dispatch c os z (zip owner (map (revents_at rc) [0..<length owner]))))"

definition z_progress_possible :: "z_io \<Rightarrow> bool" where
  "z_progress_possible z \<longleftrightarrow> sl_head (z_pend z) \<noteq> None"

subsection \<open>Synchronisation\<close>

definition z_step :: "zcfg \<Rightarrow> os \<Rightarrow> z_io \<Rightarrow> (bool \<times> z_io) option" where
  "z_step c os z =
     (if \<not> z_progress_possible z then Some (False, z)
      else map_option (\<lambda>z. (True, z)) (run_loop_once c os z))"

definition z_task_result :: "z_io \<Rightarrow> addr \<Rightarrow> myio_result" where
  "z_task_result z t = zt_res (zt z t)"

definition z_cancel_write :: "zcfg \<Rightarrow> os \<Rightarrow> z_io \<Rightarrow> addr \<Rightarrow> addr \<Rightarrow> (int \<times> z_io) option" where
  "z_cancel_write c os z t s =
     (if zt_off (zt z t) > 0 then Some (- 1, z)
      else
        let z = chk_zs s z;
            was_head = (wq_head (zs_wq (zs z s)) = Some t);
            z = z_wq_remove z s t;
            z = z_task_canceled c os z t
        in case wq_head (zs_wq (zs z s)) of
             Some n \<Rightarrow> if was_head then map_option (\<lambda>z. (0, z)) (z_write_arm c os (m_brk z) z n) else Some (0, z)
           | None \<Rightarrow> Some (0, z))"

definition z_cancel :: "zcfg \<Rightarrow> os \<Rightarrow> z_io \<Rightarrow> addr \<Rightarrow> (int \<times> z_io) option" where
  "z_cancel c os z t =
     (let z = chk_zt t z; x = zt z t in
      if zt_done x then Some (- 1, z)
      else case zt_kind x of
        ZTASK_TIMER \<Rightarrow> Some (0, z_task_canceled c os z t)
      | ZTASK_CONNECT \<Rightarrow>
          (case zt_sock x of
             None \<Rightarrow> Some (0, m_flag z)
           | Some s \<Rightarrow>
               let z = upd_zt t (\<lambda>x. x\<lparr>zt_sock := None\<rparr>) z;
                   z = z_task_canceled c os z t
               in Some (0, z_sock_release os z s))
      | ZTASK_ACCEPT \<Rightarrow>
          (case zt_sock x of
             None \<Rightarrow> Some (0, m_flag z)
           | Some s \<Rightarrow> Some (0, z_task_canceled c os (upd_zs s (\<lambda>y. y\<lparr>zs_accept_task := None\<rparr>) z) t))
      | ZTASK_SOCK_READ \<Rightarrow>
          (case zt_sock x of
             None \<Rightarrow> Some (0, m_flag z)
           | Some s \<Rightarrow> Some (0, z_task_canceled c os (upd_zs s (\<lambda>y. y\<lparr>zs_read_task := None\<rparr>) z) t))
      | ZTASK_SOCK_WRITE \<Rightarrow>
          (case zt_sock x of
             None \<Rightarrow> Some (0, m_flag z)
           | Some s \<Rightarrow> z_cancel_write c os z t s)
      | ZTASK_SPAWN \<Rightarrow>
          if cfg_spawn_inline c then Some (- 1, z)
          else
            let z = z_others c os z;
                (stopped, z) = (if zt_pushed (zt z t) then (False, z)
                  else let (a, z) = sys_call os (C_work_cancel t) z in (a_ret a = 0, z))
            in if \<not> stopped then Some (- 1, z) else Some (0, z_task_canceled c os z t)
      | ZTASK_INLINE \<Rightarrow> Some (- 1, z))"

definition z_error_str :: "os \<Rightarrow> z_io \<Rightarrow> int \<Rightarrow> string \<times> z_io" where
  "z_error_str os z err =
     (if err < 0 then let (a, z) = sys_call os (C_gai_strerror err) z in (a_str a, z)
      else
        let (a, z) = sys_call os (C_strerror err) z in
        if a_str a \<noteq> [] then (a_str a, z)
        else let b = take 63 (''error '' @ int_dec err) in (b, z\<lparr>z_errbuf := b\<rparr>))"

definition z_caps :: "zcfg \<Rightarrow> z_io \<Rightarrow> 32 word" where
  "z_caps c z = (if cfg_spawn_inline c then MYIO_CAP_CONCURRENT_WAIT
     else or MYIO_CAP_CONCURRENT_WAIT MYIO_CAP_ASYNC_SPAWN)"

subsection \<open>Lifetime\<close>

definition z_task_done :: "z_io \<Rightarrow> addr \<Rightarrow> bool" where
  "z_task_done z t = zt_done (zt z t)"

partial_function (option) z_free_wait :: "zcfg \<Rightarrow> os \<Rightarrow> z_io \<Rightarrow> addr \<Rightarrow> z_io option" where
  "z_free_wait c os z t =
     (if zt_done (zt z t) then Some z
      else Option.bind (z_step c os z) (\<lambda>(progress, z).
        if progress then z_free_wait c os z t else Some z))"

definition z_task_free :: "zcfg \<Rightarrow> os \<Rightarrow> z_io \<Rightarrow> addr \<Rightarrow> z_io option" where
  "z_task_free c os z t =
     (let z = chk_zt t z in
      map_option (\<lambda>z. z_task_free_mem c os z t)
        (if zt_done (zt z t) then Some z
         else Option.bind (z_cancel c os z t) (\<lambda>(rc, z).
           if rc \<noteq> 0 then z_free_wait c os z t else Some z)))"

definition z_task_detach :: "zcfg \<Rightarrow> os \<Rightarrow> z_io \<Rightarrow> addr \<Rightarrow> z_io" where
  "z_task_detach c os z t =
     (let z = chk_zt t z in
      if zt_done (zt z t) then z_task_reap c os z t
      else upd_zt t (\<lambda>x. x\<lparr>zt_detached := True\<rparr>) z)"

partial_function (option) z_destroy_tasks :: "zcfg \<Rightarrow> os \<Rightarrow> z_io \<Rightarrow> z_io option" where
  "z_destroy_tasks c os z =
     (case sl_head (z_pend z) of
        None \<Rightarrow> Some z
      | Some t \<Rightarrow>
          Option.bind (z_cancel c os z t) (\<lambda>(rc, z).
            if rc \<noteq> 0 then Option.bind (run_loop_once c os z) (\<lambda>z. z_destroy_tasks c os z)
            else z_destroy_tasks c os z))"

fun z_destroy_socks :: "os \<Rightarrow> nat \<Rightarrow> z_io \<Rightarrow> z_io" where
  "z_destroy_socks os 0 z = (if sl_head (z_socks z) = None then z else m_flag z)"
| "z_destroy_socks os (Suc fuel) z =
     (case sl_head (z_socks z) of
        None \<Rightarrow> z
      | Some s \<Rightarrow> z_destroy_socks os fuel (z_sock_release os z s))"

fun z_destroy_files :: "os \<Rightarrow> nat list \<Rightarrow> z_io \<Rightarrow> z_io" where
  "z_destroy_files os [] z = z"
| "z_destroy_files os (i # is) z =
     z_destroy_files os is
       (if z_file_used z ! i then
          let (_, z) = sys_call os (C_fs_close i) z in z\<lparr>z_file_used := (z_file_used z)[i := False]\<rparr>
        else z)"

definition z_destroy :: "zcfg \<Rightarrow> os \<Rightarrow> z_io \<Rightarrow> z_io option" where
  "z_destroy c os z =
     map_option (\<lambda>z.
       let z = z_destroy_socks os (m_brk z) z;
           z = (if cfg_file_system c then z_destroy_files os [0..<cfg_max_files c] z else z);
           (_, z) = z_call os (C_close (z_evfd z)) z
       in z\<lparr>z_in_use := False\<rparr>)
     (z_destroy_tasks c os z)"

text \<open>
  The single static instance. \<^verbatim>\<open>memset\<close> clears the instance, not the slabs: the task
  blocks a caller never freed stay in use.
\<close>

definition myio_zephyr_new :: "zcfg \<Rightarrow> os \<Rightarrow> z_io \<Rightarrow> bool \<times> z_io" where
  "myio_zephyr_new c os z =
     (if z_in_use z then (False, z)
      else
        let z = z\<lparr>z_pend := (z_pend z)\<lparr>sl_head := None\<rparr>, z_socks := (z_socks z)\<lparr>sl_head := None\<rparr>,
              z_sdone := (z_sdone z)\<lparr>sl_head := None\<rparr>, z_file_used := replicate (cfg_max_files c) False,
              z_errbuf := [], z_evfd := 0\<rparr>;
            (a, z) = z_call os C_eventfd z;
            z = z\<lparr>z_evfd := a_ret a\<rparr>
        in if a_ret a < 0 then (False, z)
           else
             let z = (if \<not> cfg_spawn_inline c \<and> \<not> z_spawn_q z
                      then (snd (sys_call os C_work_queue_start z))\<lparr>z_spawn_q := True\<rparr> else z)
             in (True, z\<lparr>z_in_use := True\<rparr>))"

definition zephyr_ops :: "zcfg \<Rightarrow> os \<Rightarrow> z_io myio_ops" where
  "zephyr_ops c os = \<lparr>
     ops_open = \<lambda>z p f m. Some (z_open c os z p f m),
     ops_close = \<lambda>z fd. Some (z_close c os z fd),
     ops_read = \<lambda>z fd b n off. Some (z_read c os z fd b n off),
     ops_write = \<lambda>z fd b off. Some (z_write c os z fd b off),
     ops_sleep = \<lambda>z ms. Some (z_sleep c os z ms),
     ops_spawn = \<lambda>z fn arg. Some (z_spawn c os z fn arg),
     ops_tcp_connect = \<lambda>z h p. Some (z_tcp_connect c os z h p),
     ops_tcp_listen = \<lambda>z h p b. Some (z_tcp_listen c os z h p b),
     ops_tcp_accept = \<lambda>z l. Some (z_tcp_accept c os z l),
     ops_sock_read = \<lambda>z k b n. Some (z_sock_read c os z k b n),
     ops_sock_write = \<lambda>z k b. z_sock_write c os z k b,
     ops_sock_close = \<lambda>z k. Some (z_sock_close c os z k),
     ops_sock_port = \<lambda>z k. z_sock_port os z k,
     ops_step = \<lambda>z. z_step c os z,
     ops_cancel = \<lambda>z t. z_cancel c os z t,
     ops_task_result = z_task_result,
     ops_error_str = z_error_str os,
     ops_caps = z_caps c,
     ops_task_done = z_task_done,
     ops_task_free = \<lambda>z t. z_task_free c os z t,
     ops_task_detach = z_task_detach c os,
     ops_destroy = \<lambda>z. z_destroy c os z\<rparr>"


end
