(* ===== verification/Myio_Zephyr_Core.thy ===== *)
theory Myio_Zephyr_Core
  imports Myio_Zephyr
begin

text \<open>
  What the Zephyr backend maintains, as predicates on the plain data: the task heap, the
  socket heap with the links of the write queues, the in-flight list, the list of
  finished functions and the work items the kernel holds. Every operation is a sequence
  of a few actions on these data; this theory shows what each action does.
\<close>

subsection \<open>The work items in the kernel's hands\<close>

fun work_out :: "event list \<Rightarrow> addr set" where
  "work_out [] = {}"
| "work_out ((C_work_submit t, a) # tr) = insert t (work_out tr)"
| "work_out ((C_work_cancel t, a) # tr) = (if a_ret a = 0 then work_out tr - {t} else work_out tr)"
| "work_out ((C_work_turn, a) # tr) =
     (case a_cqe a of Some (Ud_task t, r) \<Rightarrow> work_out tr - {t} | _ \<Rightarrow> work_out tr)"
| "work_out (_ # tr) = work_out tr"

text \<open>The kernel runs what was submitted to it, once, and not what it has agreed to cancel.\<close>

definition workq_ok :: "os \<Rightarrow> bool" where
  "workq_ok os \<longleftrightarrow> (\<forall>tr t r. a_cqe (os tr C_work_turn) = Some (Ud_task t, r) \<longrightarrow> t \<in> work_out tr)"

subsection \<open>The invariant on the data\<close>

type_synonym ztheap = "addr \<rightharpoonup> z_task"
type_synonym zsheap = "addr \<rightharpoonup> z_sock"

text \<open>
  \<open>zx\<close>: the socket a pending connect is building, its own until it completes. \<open>zown\<close>: the
  socket a task has won or is about to win.
\<close>

definition zx :: "z_task \<Rightarrow> ptr" where
  "zx x = (if zt_kind x = ZTASK_CONNECT \<and> \<not> zt_done x then zt_sock x else None)"

definition zown :: "z_task \<Rightarrow> ptr" where
  "zown x = (if zt_done x then res_ptr (zt_res x) else zx x)"

definition zquiet :: "z_sock \<Rightarrow> bool" where
  "zquiet y \<longleftrightarrow> zs_read_task y = None \<and> zs_accept_task y = None \<and> wq_head (zs_wq y) = None"

definition zloose :: "ztheap \<Rightarrow> zsheap \<Rightarrow> addr \<Rightarrow> bool" where
  "zloose th sh s \<longleftrightarrow> (\<exists>y. sh s = Some y \<and> zquiet y) \<and> (\<forall>t x. th t = Some x \<longrightarrow> zx x \<noteq> Some s)"

definition zslot :: "z_kind \<Rightarrow> z_sock \<Rightarrow> ptr" where
  "zslot k y = (if k = ZTASK_SOCK_READ then zs_read_task y else if k = ZTASK_ACCEPT then zs_accept_task y else None)"

definition zhead :: "zsheap \<Rightarrow> addr \<Rightarrow> z_task \<Rightarrow> bool" where
  "zhead sh t x \<longleftrightarrow> (\<exists>s y. zt_sock x = Some s \<and> sh s = Some y \<and> wq_head (zs_wq y) = Some t)"

definition zwset :: "ztheap \<Rightarrow> addr \<Rightarrow> addr set" where
  "zwset th s = {t. \<exists>x. th t = Some x \<and> zt_kind x = ZTASK_SOCK_WRITE \<and> \<not> zt_done x \<and> zt_sock x = Some s}"

text \<open>
  The tasks in \<open>F\<close> are in transit: pending, but not (or not yet) on the in-flight list.
  Every other pending task is on it, except the writes that wait behind the head of
  their socket's queue.
\<close>

definition zpset :: "addr set \<Rightarrow> ztheap \<Rightarrow> zsheap \<Rightarrow> addr set" where
  "zpset F th sh = {t. \<exists>x. th t = Some x \<and> \<not> zt_done x \<and> t \<notin> F \<and> (zt_kind x = ZTASK_SOCK_WRITE \<longrightarrow> zhead sh t x)}"

definition ztask_ok :: "addr set \<Rightarrow> addr \<Rightarrow> addr \<Rightarrow> z_task \<Rightarrow> bool" where
  "ztask_ok F b t x \<longleftrightarrow> t < b \<and> (\<forall>s. zown x = Some s \<longrightarrow> s < b) \<and>
     (if zt_done x then res_status (zt_res x) \<noteq> MYIO_PENDING \<and> \<not> zt_detached x \<and> t \<notin> F
      else zt_res x = result0 \<and>
        (t \<notin> F \<longrightarrow> zt_kind x \<in> {ZTASK_CONNECT, ZTASK_SOCK_WRITE} \<longrightarrow> zt_sock x \<noteq> None))"

definition ztask_inv :: "addr set \<Rightarrow> addr \<Rightarrow> ztheap \<Rightarrow> bool" where
  "ztask_inv F b th \<longleftrightarrow> F \<subseteq> dom th \<and> (\<forall>t x. th t = Some x \<longrightarrow> ztask_ok F b t x)"

definition zslot_inv :: "addr set \<Rightarrow> ztheap \<Rightarrow> zsheap \<Rightarrow> bool" where
  "zslot_inv F th sh \<longleftrightarrow>
     (\<forall>s y k t. sh s = Some y \<longrightarrow> zslot k y = Some t \<longrightarrow>
        (\<exists>x. th t = Some x \<and> zt_kind x = k \<and> \<not> zt_done x \<and> zt_sock x = Some s)) \<and>
     (\<forall>t x. th t = Some x \<longrightarrow> \<not> zt_done x \<longrightarrow> t \<notin> F \<longrightarrow> zt_kind x \<in> {ZTASK_SOCK_READ, ZTASK_ACCEPT} \<longrightarrow>
        (\<exists>s y. zt_sock x = Some s \<and> sh s = Some y \<and> zslot (zt_kind x) y = Some t))"

definition zwq_inv :: "ztheap \<Rightarrow> zsheap \<Rightarrow> wlinks \<Rightarrow> bool" where
  "zwq_inv th sh nx \<longleftrightarrow>
     (\<forall>s y. sh s = Some y \<longrightarrow> (\<exists>xs. wq_list nx (zs_wq y) xs \<and> set xs = zwset th s)) \<and>
     (\<forall>s. zwset th s \<noteq> {} \<longrightarrow> s \<in> dom sh)"

definition zx_inv :: "ztheap \<Rightarrow> zsheap \<Rightarrow> bool" where
  "zx_inv th sh \<longleftrightarrow> (\<forall>t x s. th t = Some x \<longrightarrow> zx x = Some s \<longrightarrow> (\<exists>y. sh s = Some y \<and> zquiet y))"

definition zown_inv :: "ztheap \<Rightarrow> bool" where
  "zown_inv th \<longleftrightarrow> (\<forall>t t' x x' s. th t = Some x \<longrightarrow> th t' = Some x' \<longrightarrow>
     zown x = Some s \<longrightarrow> zown x' = Some s \<longrightarrow> t = t')"

definition zspawn_inv :: "ztheap \<Rightarrow> addr list \<Rightarrow> addr set \<Rightarrow> bool" where
  "zspawn_inv th D K \<longleftrightarrow>
     set D = {t. \<exists>x. th t = Some x \<and> \<not> zt_done x \<and> zt_pushed x} \<and>
     (\<forall>t x. th t = Some x \<longrightarrow> zt_pushed x \<longrightarrow> zt_kind x = ZTASK_SPAWN) \<and>
     K \<subseteq> {t. \<exists>x. th t = Some x \<and> zt_kind x = ZTASK_SPAWN \<and> \<not> zt_done x \<and> \<not> zt_pushed x}"

definition zcore ::
  "addr set \<Rightarrow> addr \<Rightarrow> ztheap \<Rightarrow> zsheap \<Rightarrow> wlinks \<Rightarrow> addr list \<Rightarrow> addr list \<Rightarrow> addr set \<Rightarrow> bool" where
  "zcore F b th sh nx P D K \<longleftrightarrow> ztask_inv F b th \<and> zslot_inv F th sh \<and> zwq_inv th sh nx \<and> zx_inv th sh \<and>
     zown_inv th \<and> zspawn_inv th D K \<and> set P = zpset F th sh \<and> (\<forall>s \<in> dom sh. s < b)"

lemma zcore_parts:
  assumes "zcore F b th sh nx P D K"
  shows "ztask_inv F b th" "zslot_inv F th sh" "zwq_inv th sh nx" "zx_inv th sh" "zown_inv th" "zspawn_inv th D K"
    "set P = zpset F th sh" "\<And>s y. sh s = Some y \<Longrightarrow> s < b"
  using assms by (auto simp: zcore_def)

lemma zcoreI:
  assumes "ztask_inv F b th" "zslot_inv F th sh" "zwq_inv th sh nx" "zx_inv th sh" "zown_inv th" "zspawn_inv th D K"
    "set P = zpset F th sh" "\<And>s y. sh s = Some y \<Longrightarrow> s < b"
  shows "zcore F b th sh nx P D K"
  using assms by (auto simp: zcore_def)

lemma ztask_invD: "ztask_inv F b th \<Longrightarrow> th t = Some x \<Longrightarrow> ztask_ok F b t x"
  by (simp add: ztask_inv_def)

lemma zslot_task: "zslot_inv F th sh \<Longrightarrow> sh s = Some y \<Longrightarrow> zslot k y = Some t \<Longrightarrow>
    \<exists>x. th t = Some x \<and> zt_kind x = k \<and> \<not> zt_done x \<and> zt_sock x = Some s"
  unfolding zslot_inv_def by blast

lemma zslot_back: "zslot_inv F th sh \<Longrightarrow> th t = Some x \<Longrightarrow> \<not> zt_done x \<Longrightarrow> t \<notin> F \<Longrightarrow>
    zt_kind x = ZTASK_SOCK_READ \<or> zt_kind x = ZTASK_ACCEPT \<Longrightarrow>
    \<exists>s y. zt_sock x = Some s \<and> sh s = Some y \<and> zslot (zt_kind x) y = Some t"
  unfolding zslot_inv_def by blast

lemma zwq_list: "zwq_inv th sh nx \<Longrightarrow> sh s = Some y \<Longrightarrow> \<exists>xs. wq_list nx (zs_wq y) xs \<and> set xs = zwset th s"
  unfolding zwq_inv_def by blast

lemma zwq_live: "zwq_inv th sh nx \<Longrightarrow> t \<in> zwset th s \<Longrightarrow> \<exists>y. sh s = Some y"
  unfolding zwq_inv_def by blast

lemma zx_live: "zx_inv th sh \<Longrightarrow> th t = Some x \<Longrightarrow> zx x = Some s \<Longrightarrow> \<exists>y. sh s = Some y \<and> zquiet y"
  unfolding zx_inv_def by blast

lemma zown_inj: "zown_inv th \<Longrightarrow> th t = Some x \<Longrightarrow> th t' = Some x' \<Longrightarrow> zown x = Some s \<Longrightarrow> zown x' = Some s \<Longrightarrow> t = t'"
  unfolding zown_inv_def by blast

subsection \<open>What no action may take away\<close>

definition zdropok :: "ztheap \<Rightarrow> zsheap \<Rightarrow> addr \<Rightarrow> bool" where
  "zdropok th sh t \<longleftrightarrow> (\<exists>x. th t = Some x \<and> (\<forall>s. res_ptr (zt_res x) = Some s \<longrightarrow> zloose th sh s))"

definition zkeep :: "addr set \<Rightarrow> ztheap \<Rightarrow> zsheap \<Rightarrow> ztheap \<Rightarrow> zsheap \<Rightarrow> bool" where
  "zkeep S th sh th' sh' \<longleftrightarrow> (\<forall>t x. th t = Some x \<longrightarrow> \<not> zt_detached x \<longrightarrow> t \<notin> S \<longrightarrow>
     (\<exists>x'. th' t = Some x' \<and> \<not> zt_detached x' \<and> (zt_done x \<longrightarrow> zt_done x' \<and> zt_res x' = zt_res x)) \<and>
     (zdropok th sh t \<longrightarrow> zdropok th' sh' t))"

lemma zkeep_refl: "zkeep S th sh th sh"
  by (auto simp: zkeep_def)

lemma zkeep_trans: "zkeep S th sh th1 sh1 \<Longrightarrow> zkeep S th1 sh1 th2 sh2 \<Longrightarrow> zkeep S th sh th2 sh2"
  unfolding zkeep_def by (metis (no_types, lifting))

lemma zkeep_mono: "zkeep S th sh th' sh' \<Longrightarrow> S \<subseteq> S' \<Longrightarrow> zkeep S' th sh th' sh'"
  by (auto simp: zkeep_def)

text \<open>It is enough that tasks stay and that the sockets in results stay loose.\<close>

lemma zkeepI:
  assumes "\<And>t x. th t = Some x \<Longrightarrow> \<not> zt_detached x \<Longrightarrow> t \<notin> S \<Longrightarrow>
      \<exists>x'. th' t = Some x' \<and> \<not> zt_detached x' \<and> (zt_done x \<longrightarrow> zt_done x' \<and> zt_res x' = zt_res x) \<and>
        (res_ptr (zt_res x') = res_ptr (zt_res x) \<or> (\<forall>s. res_ptr (zt_res x') = Some s \<longrightarrow> zloose th' sh' s))"
    and "\<And>t x s. th t = Some x \<Longrightarrow> t \<notin> S \<Longrightarrow> res_ptr (zt_res x) = Some s \<Longrightarrow> zloose th sh s \<Longrightarrow> zloose th' sh' s"
  shows "zkeep S th sh th' sh'"
  unfolding zkeep_def
proof (intro allI impI conjI)
  fix t x
  assume t: "th t = Some x" "\<not> zt_detached x" "t \<notin> S"
  from assms(1) [OF this] obtain x' where x': "th' t = Some x'" "\<not> zt_detached x'"
    "zt_done x \<longrightarrow> zt_done x' \<and> zt_res x' = zt_res x"
    "res_ptr (zt_res x') = res_ptr (zt_res x) \<or> (\<forall>s. res_ptr (zt_res x') = Some s \<longrightarrow> zloose th' sh' s)" by blast
  then show "\<exists>x'. th' t = Some x' \<and> \<not> zt_detached x' \<and> (zt_done x \<longrightarrow> zt_done x' \<and> zt_res x' = zt_res x)"
    by blast
  assume "zdropok th sh t"
  with t x' assms(2) [OF t(1,3)] show "zdropok th' sh' t" by (auto simp: zdropok_def)
qed

subsection \<open>New tasks and sockets\<close>

lemma zcore_fresh: "zcore F b th sh nx P D K \<Longrightarrow> b \<le> t \<Longrightarrow> th t = None"
  by (cases "th t") (auto simp: ztask_ok_def dest!: zcore_parts(1) ztask_invD)

lemma zcore_fresh_sock: "zcore F b th sh nx P D K \<Longrightarrow> b \<le> s \<Longrightarrow> sh s = None"
  by (cases "sh s") (auto dest: zcore_parts(8))

lemma zwset_upd:
  "zwset (th(t \<mapsto> x)) s = (if zt_kind x = ZTASK_SOCK_WRITE \<and> \<not> zt_done x \<and> zt_sock x = Some s
     then insert t (zwset th s) else zwset th s - {t})"
  by (auto simp: zwset_def)

lemma zwset_None: "zwset (th(t := None)) s = zwset th s - {t}"
  by (auto simp: zwset_def)

lemma zwset_I: "th t = Some x \<Longrightarrow> zt_kind x = ZTASK_SOCK_WRITE \<Longrightarrow> \<not> zt_done x \<Longrightarrow> zt_sock x = Some s \<Longrightarrow> t \<in> zwset th s"
  by (simp add: zwset_def)

lemma z_task0_simps [simp]:
  "zt_kind (z_task0 k) = k" "\<not> zt_done (z_task0 k)" "\<not> zt_detached (z_task0 k)" "zt_res (z_task0 k) = result0"
  "zt_sock (z_task0 k) = None" "\<not> zt_pushed (z_task0 k)" "zx (z_task0 k) = None" "zown (z_task0 k) = None"
  by (simp_all add: z_task0_def zx_def zown_def)

lemma result0_simps [simp]: "res_status result0 = MYIO_PENDING" "res_ptr result0 = None"
  by (simp_all add: result0_def)

lemma z_sock0_simps [simp]:
  "zs_read_task (z_sock0 fd) = None" "zs_accept_task (z_sock0 fd) = None" "zs_wq (z_sock0 fd) = myio_wq_empty"
  "zs_fd (z_sock0 fd) = fd" "zslot k (z_sock0 fd) = None" "zquiet (z_sock0 fd)"
  by (simp_all add: z_sock0_def zslot_def zquiet_def myio_wq_empty_def)

lemma ztask_inv_upd:
  assumes "ztask_inv F b th" and "F' - {t} = F - {t}" and "b \<le> b'" and "ztask_ok F' b' t x'"
  shows "ztask_inv F' b' (th(t \<mapsto> x'))"
proof -
  have "ztask_ok F' b' q z" if q: "th q = Some z" "q \<noteq> t" for q z
  proof -
    have "q \<in> F' \<longleftrightarrow> q \<in> F" using assms(2) q(2) by auto
    with ztask_invD [OF assms(1) q(1)] assms(3) show ?thesis by (auto simp: ztask_ok_def)
  qed
  moreover have "F' \<subseteq> insert t (dom th)" using assms(1,2) by (auto simp: ztask_inv_def)
  ultimately show ?thesis using assms(4) by (auto simp: ztask_inv_def)
qed

lemma ztask_inv_del: "ztask_inv F b th \<Longrightarrow> ztask_inv (F - {t}) b (th(t := None))"
  unfolding ztask_inv_def ztask_ok_def by (auto split: if_splits)

lemma ztask_inv_mono: "ztask_inv F b th \<Longrightarrow> b \<le> b' \<Longrightarrow> ztask_inv F b' th"
  unfolding ztask_inv_def ztask_ok_def by (meson less_le_trans)

lemma zslot_inv_sock:
  assumes r: "zslot_inv F th sh"
    and a: "\<And>s y k t. sh' s = Some y \<Longrightarrow> zslot k y = Some t \<Longrightarrow> \<exists>y0. sh s = Some y0 \<and> zslot k y0 = Some t"
    and b: "\<And>s y t x. th t = Some x \<Longrightarrow> t \<notin> F \<Longrightarrow> sh s = Some y \<Longrightarrow> zslot (zt_kind x) y = Some t \<Longrightarrow>
      \<exists>y'. sh' s = Some y' \<and> zslot (zt_kind x) y' = Some t"
  shows "zslot_inv F th sh'"
  unfolding zslot_inv_def
proof (intro conjI allI impI)
  fix s y k t
  assume "sh' s = Some y" "zslot k y = Some t"
  from a [OF this] zslot_task [OF r] show "\<exists>x. th t = Some x \<and> zt_kind x = k \<and> \<not> zt_done x \<and> zt_sock x = Some s" by blast
next
  fix t x
  assume t: "th t = Some x" "\<not> zt_done x" "t \<notin> F" "zt_kind x \<in> {ZTASK_SOCK_READ, ZTASK_ACCEPT}"
  with zslot_back [OF r] obtain s y where "zt_sock x = Some s" "sh s = Some y" "zslot (zt_kind x) y = Some t" by blast
  with b [OF t(1,3)] show "\<exists>s y. zt_sock x = Some s \<and> sh' s = Some y \<and> zslot (zt_kind x) y = Some t" by blast
qed

lemma zx_inv_change:
  assumes "zx_inv th sh" and "\<And>t x'. th' t = Some x' \<Longrightarrow> zx x' = None \<or> (\<exists>x. th t = Some x \<and> zx x = zx x')"
    and "\<And>s y. sh s = Some y \<Longrightarrow> zquiet y \<Longrightarrow> (\<exists>t x. th' t = Some x \<and> zx x = Some s) \<Longrightarrow> \<exists>y'. sh' s = Some y' \<and> zquiet y'"
  shows "zx_inv th' sh'"
  unfolding zx_inv_def
proof (intro allI impI)
  fix t x s
  assume t: "th' t = Some x" "zx x = Some s"
  with assms(2) [OF t(1)] obtain x0 where "th t = Some x0" "zx x0 = Some s" by auto
  from zx_live [OF assms(1) this] assms(3) t show "\<exists>y. sh' s = Some y \<and> zquiet y" by blast
qed

lemma zown_inv_change:
  assumes "zown_inv th" and "\<And>t x'. th' t = Some x' \<Longrightarrow> zown x' = None \<or> (\<exists>x. th t = Some x \<and> zown x = zown x')"
  shows "zown_inv th'"
  unfolding zown_inv_def
proof (intro allI impI)
  fix t t' x x' s
  assume t: "th' t = Some x" "th' t' = Some x'" "zown x = Some s" "zown x' = Some s"
  with assms(2) [OF t(1)] assms(2) [OF t(2)] obtain x0 x0' where "th t = Some x0" "th t' = Some x0'" "zown x0 = Some s" "zown x0' = Some s"
    by auto
  from zown_inj [OF assms(1) this] show "t = t'" .
qed

lemma zcore_new:
  assumes c: "zcore F b th sh nx P D K"
  shows "zcore (insert b F) (Suc b) (th(b \<mapsto> z_task0 k)) sh (nx(b := None)) P D K"
proof -
  note p = zcore_parts [OF c] and fr = zcore_fresh [OF c le_refl]
  show ?thesis
  proof (rule zcoreI)
    show "ztask_inv (insert b F) (Suc b) (th(b \<mapsto> z_task0 k))"
      by (rule ztask_inv_upd [OF p(1)]) (auto simp: ztask_ok_def)
    show "zslot_inv (insert b F) (th(b \<mapsto> z_task0 k)) sh"
      using p(2) fr unfolding zslot_inv_def by fastforce
    have "zwset (th(b \<mapsto> z_task0 k)) s = zwset th s" for s using fr by (auto simp: zwset_def)
    moreover have "b \<notin> zwset th s" for s using fr by (simp add: zwset_def)
    ultimately show "zwq_inv (th(b \<mapsto> z_task0 k)) sh (nx(b := None))"
      using p(3) unfolding zwq_inv_def by (metis wq_list_frame)
    show "zx_inv (th(b \<mapsto> z_task0 k)) sh" using p(4) unfolding zx_inv_def by auto
    show "zown_inv (th(b \<mapsto> z_task0 k))" using p(5) unfolding zown_inv_def by auto
    show "zspawn_inv (th(b \<mapsto> z_task0 k)) D K" using p(6) fr unfolding zspawn_inv_def by auto
    show "set P = zpset (insert b F) (th(b \<mapsto> z_task0 k)) sh" using p(7) fr by (auto simp: zpset_def)
  qed (use p(8) in \<open>auto intro: less_SucI\<close>)
qed

lemma zkeep_new: "th b = None \<Longrightarrow> zkeep S th sh (th(b \<mapsto> z_task0 k)) sh"
  by (rule zkeepI) (auto simp: zloose_def)

lemma zcore_newsock:
  assumes c: "zcore F b th sh nx P D K"
  shows "zcore F (Suc b) th (sh(b \<mapsto> z_sock0 fd)) nx P D K"
proof -
  note p = zcore_parts [OF c] and fr = zcore_fresh_sock [OF c le_refl]
  have ns: "zx x \<noteq> Some b" if "th t = Some x" for t x using p(4) fr that by (fastforce simp: zx_inv_def)
  have nw: "zwset th b = {}" using p(3) fr by (auto simp: zwq_inv_def)
  have zh: "zhead (sh(b \<mapsto> z_sock0 fd)) t x = zhead sh t x" for t x
    using fr by (cases "zt_sock x") (auto simp: zhead_def myio_wq_empty_def)
  show ?thesis
  proof (rule zcoreI)
    show "ztask_inv F (Suc b) th" by (rule ztask_inv_mono [OF p(1)]) simp
    show "zslot_inv F th (sh(b \<mapsto> z_sock0 fd))"
      by (rule zslot_inv_sock [OF p(2)]) (use fr in \<open>auto split: if_splits\<close>)
    show "zwq_inv th (sh(b \<mapsto> z_sock0 fd)) nx" using p(3) fr nw unfolding zwq_inv_def by auto
    show "zx_inv th (sh(b \<mapsto> z_sock0 fd))" using p(4) fr unfolding zx_inv_def by fastforce
    show "set P = zpset F th (sh(b \<mapsto> z_sock0 fd))" using p(7) by (simp add: zpset_def zh)
  qed (use p(5,6,8) in \<open>auto intro: less_SucI split: if_splits\<close>)
qed

lemma zkeep_newsock: "sh b = None \<Longrightarrow> zkeep S th sh th (sh(b \<mapsto> z_sock0 fd))"
  by (rule zkeepI) (auto simp: zloose_def)

text \<open>A fresh socket is loose, and nobody's.\<close>

lemma zloose_newsock: "zcore F b th sh nx P D K \<Longrightarrow> zloose th (sh(b \<mapsto> z_sock0 fd)) b"
proof -
  assume c: "zcore F b th sh nx P D K"
  have "zx x \<noteq> Some b" if "th t = Some x" for t x
    using zx_live [OF zcore_parts(4) [OF c] that] zcore_fresh_sock [OF c le_refl] by auto
  then show ?thesis by (auto simp: zloose_def)
qed

subsection \<open>Changes the invariant does not see\<close>

definition zsame :: "z_task \<Rightarrow> z_task \<Rightarrow> bool" where
  "zsame x x' \<longleftrightarrow> zt_kind x' = zt_kind x \<and> zt_done x' = zt_done x \<and>
     (zt_done x \<longrightarrow> zt_detached x' = zt_detached x) \<and> zt_res x' = zt_res x \<and> zt_sock x' = zt_sock x \<and> zt_pushed x' = zt_pushed x"

lemma zslot_inv_upd:
  assumes r: "zslot_inv F th sh" and t: "th t = Some x"
    and e: "zt_kind x' = zt_kind x" "zt_done x' = zt_done x"
      "zt_kind x = ZTASK_SOCK_READ \<or> zt_kind x = ZTASK_ACCEPT \<Longrightarrow> zt_sock x' = zt_sock x"
  shows "zslot_inv F (th(t \<mapsto> x')) sh"
  unfolding zslot_inv_def
proof (intro conjI allI impI)
  fix s y k q
  assume "sh s = Some y" and k: "zslot k y = Some q"
  with zslot_task [OF r] obtain z where "th q = Some z" "zt_kind z = k" "\<not> zt_done z" "zt_sock z = Some s" by blast
  moreover have "k = ZTASK_SOCK_READ \<or> k = ZTASK_ACCEPT" using k by (auto simp: zslot_def split: if_splits)
  ultimately show "\<exists>z. (th(t \<mapsto> x')) q = Some z \<and> zt_kind z = k \<and> \<not> zt_done z \<and> zt_sock z = Some s" using t e by auto
next
  fix q z
  assume q: "(th(t \<mapsto> x')) q = Some z" "\<not> zt_done z" "q \<notin> F" "zt_kind z \<in> {ZTASK_SOCK_READ, ZTASK_ACCEPT}"
  then obtain z' where "th q = Some z'" "zt_kind z' = zt_kind z" "\<not> zt_done z'" "zt_sock z' = zt_sock z"
    using t e by (cases "q = t") auto
  with zslot_back [OF r, of q z'] q(3,4)
  show "\<exists>s y. zt_sock z = Some s \<and> sh s = Some y \<and> zslot (zt_kind z) y = Some q" by auto
qed

lemma zcore_upd:
  assumes c: "zcore F b th sh nx P D K" and t: "th t = Some x" and s: "zsame x x'"
  shows "zcore F b (th(t \<mapsto> x')) sh nx P D K"
proof -
  note p = zcore_parts [OF c]
  have e: "zx x' = zx x" "zown x' = zown x" "\<And>b. ztask_ok F b t x' = ztask_ok F b t x" "zhead sh t x' = zhead sh t x"
    using s by (auto simp: zsame_def zx_def zown_def ztask_ok_def zhead_def)
  show ?thesis
  proof (rule zcoreI)
    show "ztask_inv F b (th(t \<mapsto> x'))" using p(1) t e by (auto simp: ztask_inv_def)
    show "zslot_inv F (th(t \<mapsto> x')) sh" by (rule zslot_inv_upd [OF p(2) t]) (use s in \<open>auto simp: zsame_def\<close>)
    have "zwset (th(t \<mapsto> x')) k = zwset th k" for k using t s by (auto simp: zwset_def zsame_def)
    then show "zwq_inv (th(t \<mapsto> x')) sh nx" using p(3) by (simp add: zwq_inv_def)
    show "zx_inv (th(t \<mapsto> x')) sh" by (rule zx_inv_change [OF p(4)]) (use t e in \<open>auto split: if_splits\<close>)
    show "zown_inv (th(t \<mapsto> x'))" by (rule zown_inv_change [OF p(5)]) (use t e in \<open>auto split: if_splits\<close>)
    show "zspawn_inv (th(t \<mapsto> x')) D K" using p(6) t s by (auto simp: zspawn_inv_def zsame_def set_eq_iff subset_iff)
    show "set P = zpset F (th(t \<mapsto> x')) sh" using p(7) t s e by (auto simp: zpset_def zsame_def)
  qed (rule p(8))
qed

lemma zkeep_task:
  assumes "th t = Some x" and "zx x' = zx x \<or> zx x' = None"
    and "\<not> zt_detached x \<Longrightarrow> t \<notin> S \<Longrightarrow>
      \<not> zt_detached x' \<and> (zt_done x \<longrightarrow> zt_done x' \<and> zt_res x' = zt_res x) \<and> res_ptr (zt_res x') = res_ptr (zt_res x)"
  shows "zkeep S th sh (th(t \<mapsto> x')) sh"
proof (rule zkeepI)
  show "zloose (th(t \<mapsto> x')) sh s" if "zloose th sh s" for s
    using that assms(1,2) unfolding zloose_def by (metis fun_upd_apply option.distinct(1) option.inject)
qed (use assms in auto)

lemma zsame_zx: "zsame x x' \<Longrightarrow> zx x' = zx x"
  by (simp add: zsame_def zx_def)

lemma zkeep_upd: "th t = Some x \<Longrightarrow> zsame x x' \<Longrightarrow> zt_detached x' = zt_detached x \<or> t \<in> S \<Longrightarrow> zkeep S th sh (th(t \<mapsto> x')) sh"
  by (rule zkeep_task, assumption) (auto simp: zsame_zx, auto simp: zsame_def)

subsection \<open>Putting a task on the in-flight list\<close>

definition zsettled :: "ztheap \<Rightarrow> zsheap \<Rightarrow> addr \<Rightarrow> z_task \<Rightarrow> bool" where
  "zsettled th sh t x \<longleftrightarrow>
     (zt_kind x = ZTASK_CONNECT \<longrightarrow> zt_sock x \<noteq> None) \<and> (zt_kind x = ZTASK_SOCK_WRITE \<longrightarrow> zhead sh t x) \<and>
     (zt_kind x = ZTASK_SOCK_READ \<or> zt_kind x = ZTASK_ACCEPT \<longrightarrow>
        (\<exists>s y. zt_sock x = Some s \<and> sh s = Some y \<and> zslot (zt_kind x) y = Some t))"

lemma zfloat_pending: "zcore F b th sh nx P D K \<Longrightarrow> th t = Some x \<Longrightarrow> t \<in> F \<Longrightarrow> \<not> zt_done x \<and> zt_res x = result0"
  using ztask_invD [OF zcore_parts(1)] by (fastforce simp: ztask_ok_def split: if_splits)

lemma zcore_unfloat:
  assumes c: "zcore F b th sh nx P D K" and t: "th t = Some x" "t \<in> F" and s: "zsettled th sh t x"
  shows "zcore (F - {t}) b th sh nx (t # P) D K" and "t \<notin> set P"
proof -
  note p = zcore_parts [OF c] and nd = zfloat_pending [OF c t]
  show "t \<notin> set P" using p(7) t by (simp add: zpset_def)
  show "zcore (F - {t}) b th sh nx (t # P) D K"
  proof (rule zcoreI)
    have so: "zt_kind x \<in> {ZTASK_CONNECT, ZTASK_SOCK_WRITE} \<longrightarrow> zt_sock x \<noteq> None" using s by (auto simp: zsettled_def zhead_def)
    have "ztask_ok (F - {t}) b t x" using ztask_invD [OF p(1) t(1)] nd so by (auto simp: ztask_ok_def)
    from ztask_inv_upd [OF p(1) _ _ this, of] t(1) show "ztask_inv (F - {t}) b th" by (simp add: fun_upd_idem)
    show "zslot_inv (F - {t}) th sh"
      unfolding zslot_inv_def
    proof (intro conjI allI impI)
      fix q z
      assume q: "th q = Some z" "\<not> zt_done z" "q \<notin> F - {t}" "zt_kind z \<in> {ZTASK_SOCK_READ, ZTASK_ACCEPT}"
      show "\<exists>s y. zt_sock z = Some s \<and> sh s = Some y \<and> zslot (zt_kind z) y = Some q"
      proof (cases "q = t")
        case True
        with q t s show ?thesis by (auto simp: zsettled_def)
      next
        case False
        with q zslot_back [OF p(2) q(1,2)] show ?thesis by auto
      qed
    qed (rule zslot_task [OF p(2)])
    have "zpset (F - {t}) th sh = insert t (zpset F th sh)" using t nd s by (auto simp: zpset_def zsettled_def)
    then show "set (t # P) = zpset (F - {t}) th sh" using p(7) by simp
  qed (use p in auto)
qed

subsection \<open>Giving a task its socket\<close>

lemma zsame_sock:
  assumes "zsame (x\<lparr>zt_sock := Some s\<rparr>) x'"
  shows "zt_kind x' = zt_kind x" "zt_done x' = zt_done x" "zt_res x' = zt_res x" "zt_sock x' = Some s" "zt_pushed x' = zt_pushed x"
  using assms by (simp_all add: zsame_def)

lemma zcore_connect:
  assumes c: "zcore F b th sh nx P D K" and t: "th t = Some x" "t \<in> F" "zt_kind x = ZTASK_CONNECT"
    and x': "zsame (x\<lparr>zt_sock := Some s\<rparr>) x'" and l: "zloose th sh s" and o: "\<And>q z. th q = Some z \<Longrightarrow> zown z \<noteq> Some s"
  shows "zcore F b (th(t \<mapsto> x')) sh nx P D K"
proof -
  note p = zcore_parts [OF c] and nd = zfloat_pending [OF c t(1,2)] and e = zsame_sock [OF x']
  obtain y where y: "sh s = Some y" "zquiet y" using l by (auto simp: zloose_def)
  have xo: "zx x' = Some s" "zown x' = Some s" using e t(3) nd by (auto simp: zx_def zown_def)
  show ?thesis
  proof (rule zcoreI)
    show "ztask_inv F b (th(t \<mapsto> x'))"
      by (rule ztask_inv_upd [OF p(1)]) (use ztask_invD [OF p(1) t(1)] e t nd xo p(8) [OF y(1)] in \<open>auto simp: ztask_ok_def\<close>)
    show "zslot_inv F (th(t \<mapsto> x')) sh" by (rule zslot_inv_upd [OF p(2) t(1)]) (use e t in auto)
    have "zwset (th(t \<mapsto> x')) k = zwset th k" for k using t e by (auto simp: zwset_def)
    then show "zwq_inv (th(t \<mapsto> x')) sh nx" using p(3) by (simp add: zwq_inv_def)
    show "zx_inv (th(t \<mapsto> x')) sh" using p(4) y xo unfolding zx_inv_def by auto
    show "zown_inv (th(t \<mapsto> x'))" using p(5) xo o unfolding zown_inv_def by (auto split: if_splits)
    show "zspawn_inv (th(t \<mapsto> x')) D K" using p(6) t e by (auto simp: zspawn_inv_def set_eq_iff subset_iff)
    show "set P = zpset F (th(t \<mapsto> x')) sh" using p(7) t e by (auto simp: zpset_def)
  qed (rule p(8))
qed

lemma zcore_attach:
  assumes c: "zcore F b th sh nx P D K" and t: "th t = Some x" "t \<in> F" "zt_sock x = None"
    and k: "zt_kind x = ZTASK_SOCK_READ \<or> zt_kind x = ZTASK_ACCEPT"
    and x': "zsame (x\<lparr>zt_sock := Some s\<rparr>) x'" and y: "sh s = Some y" "zslot (zt_kind x) y = None"
    and y': "\<And>j. zslot j y' = (if j = zt_kind x then Some t else zslot j y)" "zs_wq y' = zs_wq y"
    and u: "\<And>q z. th q = Some z \<Longrightarrow> zx z \<noteq> Some s"
  shows "zcore F b (th(t \<mapsto> x')) (sh(s \<mapsto> y')) nx P D K"
proof -
  note p = zcore_parts [OF c] and nd = zfloat_pending [OF c t(1,2)] and e = zsame_sock [OF x']
  have xo: "zx x' = None" "zown x' = None" "zx x = None" using e k nd by (auto simp: zx_def zown_def)
  have kn: "zt_kind x \<noteq> ZTASK_SOCK_WRITE" "zt_kind x \<noteq> ZTASK_SPAWN" using k by auto
  have ns: "zslot j y0 \<noteq> Some t" if "sh s0 = Some y0" for s0 y0 j using zslot_task [OF p(2) that, of j t] t by auto
  have zh: "zhead (sh(s \<mapsto> y')) q z = zhead sh q z" for q z
    using y(1) y'(2) by (cases "zt_sock z") (auto simp: zhead_def)
  show ?thesis
  proof (rule zcoreI)
    show "ztask_inv F b (th(t \<mapsto> x'))"
      by (rule ztask_inv_upd [OF p(1)]) (use ztask_invD [OF p(1) t(1)] e t nd xo in \<open>auto simp: ztask_ok_def\<close>)
    show "zslot_inv F (th(t \<mapsto> x')) (sh(s \<mapsto> y'))"
      unfolding zslot_inv_def
    proof (intro conjI allI impI)
      fix s0 y0 j q
      assume a: "(sh(s \<mapsto> y')) s0 = Some y0" "zslot j y0 = Some q"
      show "\<exists>z. (th(t \<mapsto> x')) q = Some z \<and> zt_kind z = j \<and> \<not> zt_done z \<and> zt_sock z = Some s0"
      proof (cases "q = t")
        case True
        with a ns [of s y j] ns [of s0 y0 j] y y' e nd show ?thesis by (auto split: if_splits)
      next
        case False
        with a y y' have "\<exists>y1. sh s0 = Some y1 \<and> zslot j y1 = Some q" by (auto split: if_splits)
        with zslot_task [OF p(2)] False show ?thesis by fastforce
      qed
    next
      fix q z
      assume q: "(th(t \<mapsto> x')) q = Some z" "\<not> zt_done z" "q \<notin> F" "zt_kind z \<in> {ZTASK_SOCK_READ, ZTASK_ACCEPT}"
      then have q': "th q = Some z" using t(2) by (auto split: if_splits)
      then obtain s0 y0 where s0: "zt_sock z = Some s0" "sh s0 = Some y0" "zslot (zt_kind z) y0 = Some q"
        using zslot_back [OF p(2) q' q(2,3)] q(4) by auto
      then show "\<exists>s0 y0. zt_sock z = Some s0 \<and> (sh(s \<mapsto> y')) s0 = Some y0 \<and> zslot (zt_kind z) y0 = Some q"
        using y y'(1) [of "zt_kind z"] by (cases "s0 = s") auto
    qed
    have "zwset (th(t \<mapsto> x')) j = zwset th j" for j using t e kn by (auto simp: zwset_def)
    then show "zwq_inv (th(t \<mapsto> x')) (sh(s \<mapsto> y')) nx" using p(3) y y' by (auto simp: zwq_inv_def)
    show "zx_inv (th(t \<mapsto> x')) (sh(s \<mapsto> y'))"
      by (rule zx_inv_change [OF p(4)]) (use xo u in \<open>auto split: if_splits\<close>)
    show "zown_inv (th(t \<mapsto> x'))" by (rule zown_inv_change [OF p(5)]) (use xo in \<open>auto split: if_splits\<close>)
    show "zspawn_inv (th(t \<mapsto> x')) D K" using p(6) t e by (auto simp: zspawn_inv_def set_eq_iff subset_iff)
    show "set P = zpset F (th(t \<mapsto> x')) (sh(s \<mapsto> y'))" using p(7) t e by (auto simp: zpset_def zh)
  qed (use p(8) y in \<open>auto split: if_splits\<close>)
qed


subsection \<open>Queueing a write\<close>

lemma zwset_disjoint: "s \<noteq> s' \<Longrightarrow> zwset th s \<inter> zwset th s' = {}"
  by (auto simp: zwset_def)

lemma zcore_push:
  assumes c: "zcore F b th sh nx P D K" and t: "th t = Some x" "t \<in> F" "zt_sock x = None" "zt_kind x = ZTASK_SOCK_WRITE"
    and x': "zsame (x\<lparr>zt_sock := Some s\<rparr>) x'" and y: "sh s = Some y" and u: "\<And>q z. th q = Some z \<Longrightarrow> zx z \<noteq> Some s"
    and push: "myio_wq_push nx (zs_wq y) t = (h, nx', w)"
  shows "zcore (if h then F else F - {t}) b (th(t \<mapsto> x')) (sh(s \<mapsto> y\<lparr>zs_wq := w\<rparr>)) nx' P D K"
    and "h \<Longrightarrow> wq_head w = Some t"
proof -
  note p = zcore_parts [OF c] and nd = zfloat_pending [OF c t(1,2)] and e = zsame_sock [OF x']
  let ?F = "if h then F else F - {t}" and ?th = "th(t \<mapsto> x')" and ?sh = "sh(s \<mapsto> y\<lparr>zs_wq := w\<rparr>)"
  obtain xs where xs: "wq_list nx (zs_wq y) xs" "set xs = zwset th s" using zwq_list [OF p(3) y] by blast
  have nt: "t \<notin> zwset th k" for k using t by (simp add: zwset_def)
  with xs have tx: "t \<notin> set xs" by simp
  note pl = wq_push_list [OF xs(1) tx push]
  have hd': "wq_head w = (if xs = [] then Some t else wq_head (zs_wq y))"
    using wq_list_head [OF pl(1)] wq_list_head [OF xs(1)] by simp
  then show "h \<Longrightarrow> wq_head w = Some t" using pl(2) by simp
  have sl: "zslot k (y\<lparr>zs_wq := w\<rparr>) = zslot k y" for k by (simp add: zslot_def)
  have xo: "zx x' = None" "zown x' = None" using e t nd by (auto simp: zx_def zown_def)
  have ws: "zwset ?th k = (if k = s then insert t (zwset th k) else zwset th k)" for k
    using nt e t(4) nd by (auto simp: zwset_upd)
  show "zcore ?F b ?th ?sh nx' P D K"
  proof (rule zcoreI)
    have Ft: "?F - {t} = F - {t}" by auto
    show "ztask_inv ?F b ?th"
      by (rule ztask_inv_upd [OF p(1) Ft]) (use ztask_invD [OF p(1) t(1)] e t nd xo in \<open>auto simp: ztask_ok_def\<close>)
    have "zslot_inv F ?th ?sh"
      by (rule zslot_inv_sock [OF zslot_inv_upd [OF p(2) t(1)]]) (use e t y sl in \<open>auto split: if_splits\<close>)
    then show "zslot_inv ?F ?th ?sh" using e(1) t(4) unfolding zslot_inv_def by auto
    show "zwq_inv ?th ?sh nx'"
      unfolding zwq_inv_def
    proof (intro conjI allI impI)
      fix k z
      assume k: "?sh k = Some z"
      show "\<exists>xs. wq_list nx' (zs_wq z) xs \<and> set xs = zwset ?th k"
      proof (cases "k = s")
        case True
        with k pl xs(2) ws show ?thesis by (intro exI [of _ "xs @ [t]"]) auto
      next
        case False
        with k have "sh k = Some z" by simp
        then obtain zs where zs: "wq_list nx (zs_wq z) zs" "set zs = zwset th k" using zwq_list [OF p(3)] by blast
        have "wq_list nx' (zs_wq z) zs"
          by (rule wq_push_frame [OF xs(1) zs(1) _ _ push]) (use zwset_disjoint [OF False, of th] nt zs(2) xs(2) in auto)
        with zs(2) ws False show ?thesis by auto
      qed
    qed (use p(3) ws y in \<open>auto simp: zwq_inv_def split: if_splits\<close>)
    show "zx_inv ?th ?sh" by (rule zx_inv_change [OF p(4)]) (use xo u in \<open>auto split: if_splits\<close>)
    show "zown_inv ?th" by (rule zown_inv_change [OF p(5)]) (use xo in \<open>auto split: if_splits\<close>)
    show "zspawn_inv ?th D K" using p(6) t e by (auto simp: zspawn_inv_def set_eq_iff subset_iff)
    have zh: "zhead ?sh q z = zhead sh q z" if "q \<noteq> t" "th q = Some z" "zt_kind z = ZTASK_SOCK_WRITE" "\<not> zt_done z" for q z
    proof (cases "zt_sock z = Some s")
      case True
      with that have "q \<in> set xs" using xs(2) by (simp add: zwset_def)
      with True y hd' show ?thesis by (auto simp: zhead_def)
    qed (auto simp: zhead_def)
    have th: "\<not> h \<Longrightarrow> \<not> zhead ?sh t x'"
      using e y hd' pl(2) wq_list_head [OF xs(1)] tx by (auto simp: zhead_def)
    show "set P = zpset ?F ?th ?sh"
    proof -
      have "q \<in> zpset ?F ?th ?sh \<longleftrightarrow> q \<in> zpset F th sh" for q
        using zh [of q] th t e nd by (cases "q = t") (auto simp: zpset_def)
      with p(7) show ?thesis by auto
    qed
  qed (use p(8) y in \<open>auto split: if_splits\<close>)
qed

subsection \<open>Completing a task\<close>

text \<open>
  Task \<open>t\<close> has left its socket: no slot names it, its queue goes on without it. The task
  that thereby became the head of the queue is in transit.
\<close>

definition zcleared :: "addr \<Rightarrow> zsheap \<Rightarrow> wlinks \<Rightarrow> zsheap \<Rightarrow> wlinks \<Rightarrow> bool" where
  "zcleared t sh nx sh' nx' \<longleftrightarrow> dom sh' = dom sh \<and>
     (\<forall>s y y'. sh s = Some y \<longrightarrow> sh' s = Some y' \<longrightarrow>
        (\<forall>k. zslot k y' = (if zslot k y = Some t then None else zslot k y)) \<and>
        (\<forall>xs. wq_list nx (zs_wq y) xs \<longrightarrow> wq_list nx' (zs_wq y') (remove1 t xs)))"

definition znext :: "addr \<Rightarrow> zsheap \<Rightarrow> zsheap \<Rightarrow> addr set" where
  "znext t sh sh' = {n. \<exists>s y y'. sh s = Some y \<and> sh' s = Some y' \<and> wq_head (zs_wq y) = Some t \<and> wq_head (zs_wq y') = Some n}"

lemma zcleared_sock:
  assumes "zcleared t sh nx sh' nx'" and "sh' s = Some y'"
  obtains y where "sh s = Some y" "\<And>k. zslot k y' = (if zslot k y = Some t then None else zslot k y)"
    "\<And>xs. wq_list nx (zs_wq y) xs \<Longrightarrow> wq_list nx' (zs_wq y') (remove1 t xs)"
proof -
  from assms have "s \<in> dom sh" unfolding zcleared_def by auto
  then obtain y where "sh s = Some y" by auto
  with assms show ?thesis using that unfolding zcleared_def by blast
qed

lemma zcleared_back:
  assumes "zcleared t sh nx sh' nx'" and "sh s = Some y"
  obtains y' where "sh' s = Some y'" "\<And>k. zslot k y' = (if zslot k y = Some t then None else zslot k y)"
    "\<And>xs. wq_list nx (zs_wq y) xs \<Longrightarrow> wq_list nx' (zs_wq y') (remove1 t xs)"
proof -
  from assms have "s \<in> dom sh'" unfolding zcleared_def by auto
  then obtain y' where "sh' s = Some y'" by auto
  with assms show ?thesis using that unfolding zcleared_def by blast
qed

lemma zquiet_slot: "zquiet y \<longleftrightarrow> (\<forall>k. zslot k y = None) \<and> wq_head (zs_wq y) = None"
  by (auto simp: zquiet_def zslot_def)

lemma zcleared_quiet:
  assumes "zwq_inv th sh nx" and "zcleared t sh nx sh' nx'" and "sh s = Some y" and "zquiet y"
  shows "\<exists>y'. sh' s = Some y' \<and> zquiet y'"
proof -
  obtain xs where xs: "wq_list nx (zs_wq y) xs" using zwq_list [OF assms(1,3)] by blast
  obtain y' where y': "sh' s = Some y'" "\<And>k. zslot k y' = (if zslot k y = Some t then None else zslot k y)"
    "\<And>xs. wq_list nx (zs_wq y) xs \<Longrightarrow> wq_list nx' (zs_wq y') (remove1 t xs)" by (rule zcleared_back [OF assms(2,3)]) blast
  have "xs = []" using xs assms(4) by (simp add: zquiet_def wq_list_head_None)
  with y'(3) [OF xs] have "wq_head (zs_wq y') = None" by (simp add: wq_list_head_None)
  with y'(1,2) assms(4) show ?thesis by (auto simp: zquiet_slot)
qed

lemma zloose_finish:
  assumes "zwq_inv th sh nx" and "zcleared t sh nx sh' nx'" and "\<And>x'. v = Some x' \<Longrightarrow> zx x' = None" and "zloose th sh s"
  shows "zloose (th(t := v)) sh' s"
  using assms(3,4) zcleared_quiet [OF assms(1,2)] unfolding zloose_def by (auto split: if_splits)

lemma znext_member:
  assumes c: "zcore F b th sh nx P D K" and cl: "zcleared t sh nx sh' nx'" and n: "n \<in> znext t sh sh'"
  shows "n \<noteq> t" and "\<exists>x s. th n = Some x \<and> zt_kind x = ZTASK_SOCK_WRITE \<and> \<not> zt_done x \<and> zt_sock x = Some s" and "n \<notin> set P"
proof -
  note p = zcore_parts [OF c]
  from n obtain s y y' where y: "sh s = Some y" "sh' s = Some y'" "wq_head (zs_wq y) = Some t" "wq_head (zs_wq y') = Some n"
    by (auto simp: znext_def)
  obtain xs where xs: "wq_list nx (zs_wq y) xs" "set xs = zwset th s" using zwq_list [OF p(3) y(1)] by blast
  have xs': "wq_list nx' (zs_wq y') (remove1 t xs)" using cl y xs(1) unfolding zcleared_def by blast
  have "remove1 t xs \<noteq> []" "n = hd (remove1 t xs)" using wq_list_head [OF xs'] y(4) by (auto split: if_splits)
  then have "n \<in> set (remove1 t xs)" by (metis hd_in_set)
  then have m: "n \<in> set xs" "n \<noteq> t" using wq_list_distinct [OF xs(1)] by auto
  then show "n \<noteq> t" by simp
  from m xs(2) obtain x where x: "th n = Some x" "zt_kind x = ZTASK_SOCK_WRITE" "\<not> zt_done x" "zt_sock x = Some s"
    by (auto simp: zwset_def)
  then show "\<exists>x s. th n = Some x \<and> zt_kind x = ZTASK_SOCK_WRITE \<and> \<not> zt_done x \<and> zt_sock x = Some s" by blast
  show "n \<notin> set P" using p(7) x y(1,3) m(2) by (auto simp: zpset_def zhead_def)
qed

text \<open>For everyone else, being the head is not affected, unless by succession.\<close>

lemma zhead_finish:
  assumes c: "zcore F b th sh nx P D K" and cl: "zcleared t sh nx sh' nx'"
    and q: "th q = Some z" "zt_kind z = ZTASK_SOCK_WRITE" "\<not> zt_done z" "q \<noteq> t" "q \<notin> znext t sh sh'"
  shows "zhead sh' q z = zhead sh q z"
proof (cases "zt_sock z")
  case (Some s)
  note p = zcore_parts [OF c]
  have m: "q \<in> zwset th s" using q Some by (simp add: zwset_def)
  then obtain y where y: "sh s = Some y" using zwq_live [OF p(3)] by blast
  obtain y' where y': "sh' s = Some y'" "\<And>xs. wq_list nx (zs_wq y) xs \<Longrightarrow> wq_list nx' (zs_wq y') (remove1 t xs)"
    by (rule zcleared_back [OF cl y]) blast
  obtain xs where xs: "wq_list nx (zs_wq y) xs" "set xs = zwset th s" using zwq_list [OF p(3) y] by blast
  then obtain a as where as: "xs = a # as" using m by (cases xs) auto
  have h: "wq_head (zs_wq y) = Some a" using wq_list_head [OF xs(1)] as by simp
  have h': "wq_head (zs_wq y') = (if remove1 t xs = [] then None else Some (hd (remove1 t xs)))"
    by (rule wq_list_head [OF y'(2) [OF xs(1)]])
  have "wq_head (zs_wq y') = Some q \<longleftrightarrow> a = q"
  proof (cases "a = t")
    case True
    have "wq_head (zs_wq y') \<noteq> Some q" using q(5) y y'(1) h True by (auto simp: znext_def)
    with True q(4) show ?thesis by auto
  next
    case False
    then show ?thesis using as h' by auto
  qed
  with Some y y'(1) h show ?thesis by (auto simp: zhead_def)
qed (simp add: zhead_def)


text \<open>What a completed task looks like; a detached one is gone (\<open>None\<close>).\<close>

definition zfinal :: "ztheap \<Rightarrow> addr \<Rightarrow> addr \<Rightarrow> z_task \<Rightarrow> z_task option \<Rightarrow> bool" where
  "zfinal th b t x v \<longleftrightarrow> (\<forall>x'. v = Some x' \<longrightarrow>
     zt_done x' \<and> \<not> zt_detached x' \<and> res_status (zt_res x') \<noteq> MYIO_PENDING \<and>
     (zt_pushed x' \<longrightarrow> zt_kind x' = ZTASK_SPAWN) \<and>
     (\<forall>s. res_ptr (zt_res x') = Some s \<longrightarrow> s < b \<and> (\<forall>q z. th q = Some z \<longrightarrow> q \<noteq> t \<longrightarrow> zown z \<noteq> Some s)))"

lemma zcore_finish:
  assumes c: "zcore F b th sh nx P D K" and d: "distinct P" "distinct D" and t: "th t = Some x" "\<not> zt_done x" "t \<notin> K"
    and cl: "zcleared t sh nx sh' nx'" and v: "zfinal th b t x v"
  shows "zcore (F - {t} \<union> znext t sh sh') b (th(t := v)) sh' nx' (remove1 t P) (remove1 t D) K"
proof -
  note p = zcore_parts [OF c] and nm = znext_member [OF c cl]
  let ?F = "F - {t} \<union> znext t sh sh'" and ?th = "th(t := v)"
  have vx: "zx x' = None" "zt_done x'" if "v = Some x'" for x' using v that by (auto simp: zfinal_def zx_def)
  have ws: "zwset ?th s = zwset th s - {t}" for s
    using vx(2) by (cases v) (auto simp: zwset_None zwset_upd)
  show ?thesis
  proof (rule zcoreI)
    show "ztask_inv ?F b ?th"
      unfolding ztask_inv_def
    proof (intro conjI allI impI)
      have "F - {t} \<subseteq> dom ?th" using p(1) by (auto simp: ztask_inv_def)
      then show "?F \<subseteq> dom ?th" using nm(1,2) by fastforce
      fix q z
      assume q: "?th q = Some z"
      show "ztask_ok ?F b q z"
      proof (cases "q = t")
        case True
        have "t < b" using ztask_invD [OF p(1) t(1)] by (simp add: ztask_ok_def)
        with True q v nm(1) show ?thesis by (auto simp: ztask_ok_def zfinal_def zown_def)
      next
        case False
        with q have q': "th q = Some z" by simp
        have "zt_done z \<Longrightarrow> q \<notin> znext t sh sh'" using nm(2) q' by fastforce
        with ztask_invD [OF p(1) q'] False show ?thesis by (auto simp: ztask_ok_def split: if_splits)
      qed
    qed
    show "zslot_inv ?F ?th sh'"
      unfolding zslot_inv_def
    proof (intro conjI allI impI)
      fix s y' k q
      assume a: "sh' s = Some y'" "zslot k y' = Some q"
      obtain y where y: "sh s = Some y" "zslot k y' = (if zslot k y = Some t then None else zslot k y)"
        by (rule zcleared_sock [OF cl a(1)]) blast
      with a(2) have "zslot k y = Some q" "q \<noteq> t" by (auto split: if_splits)
      with zslot_task [OF p(2) y(1)] show "\<exists>x. ?th q = Some x \<and> zt_kind x = k \<and> \<not> zt_done x \<and> zt_sock x = Some s" by auto
    next
      fix q z
      assume q: "?th q = Some z" "\<not> zt_done z" "q \<notin> ?F" "zt_kind z \<in> {ZTASK_SOCK_READ, ZTASK_ACCEPT}"
      then have qt: "q \<noteq> t" using vx(2) by auto
      with q have q': "th q = Some z" "q \<notin> F" by auto
      from zslot_back [OF p(2) q'(1) q(2) q'(2)] q(4) obtain s y where s: "zt_sock z = Some s" "sh s = Some y"
        "zslot (zt_kind z) y = Some q" by auto
      obtain y' where "sh' s = Some y'" "zslot (zt_kind z) y' = (if zslot (zt_kind z) y = Some t then None else zslot (zt_kind z) y)"
        by (rule zcleared_back [OF cl s(2)]) blast
      with s qt show "\<exists>s y. zt_sock z = Some s \<and> sh' s = Some y \<and> zslot (zt_kind z) y = Some q" by auto
    qed
    show "zwq_inv ?th sh' nx'"
      unfolding zwq_inv_def
    proof (intro conjI allI impI)
      fix s y'
      assume "sh' s = Some y'"
      then obtain y where y: "sh s = Some y" "\<And>xs. wq_list nx (zs_wq y) xs \<Longrightarrow> wq_list nx' (zs_wq y') (remove1 t xs)"
        by (rule zcleared_sock [OF cl]) blast
      obtain xs where xs: "wq_list nx (zs_wq y) xs" "set xs = zwset th s" using zwq_list [OF p(3) y(1)] by blast
      from y(2) [OF xs(1)] xs(2) wq_list_distinct [OF xs(1)] ws
      show "\<exists>xs. wq_list nx' (zs_wq y') xs \<and> set xs = zwset ?th s" by (intro exI [of _ "remove1 t xs"]) auto
    next
      fix s
      assume "zwset ?th s \<noteq> {}"
      then show "s \<in> dom sh'" using ws p(3) cl by (auto simp: zwq_inv_def zcleared_def)
    qed
    show "zx_inv ?th sh'"
      by (rule zx_inv_change [OF p(4)]) (use vx zcleared_quiet [OF p(3) cl] in \<open>auto split: if_splits\<close>)
    show "zown_inv ?th"
      using p(5) v unfolding zown_inv_def zfinal_def by (auto simp: zown_def split: if_splits) (metis+)?
    show "zspawn_inv ?th (remove1 t D) K"
      using p(6) t d(2) v vx(2) by (auto simp: zspawn_inv_def set_eq_iff subset_iff zfinal_def split: if_splits)
    have "q \<in> zpset ?F ?th sh' \<longleftrightarrow> q \<in> zpset F th sh - {t}" for q
    proof (cases "q = t \<or> q \<in> znext t sh sh'")
      case True
      then show ?thesis using vx nm(3) [of q] p(7) by (auto simp: zpset_def)
    next
      case False
      then show ?thesis using zhead_finish [OF c cl, of q] by (auto simp: zpset_def)
    qed
    then show "set (remove1 t P) = zpset ?F ?th sh'" using p(7) d(1) by auto
    show "s < b" if "sh' s = Some y" for s y by (rule zcleared_sock [OF cl that]) (rule p(8))
  qed
qed

lemma zkeep_finish:
  assumes "zwq_inv th sh nx" and t: "th t = Some x" "\<not> zt_done x" and cl: "zcleared t sh nx sh' nx'"
    and v: "zfinal th b t x v" "\<not> zt_detached x \<Longrightarrow> t \<notin> S \<Longrightarrow> v \<noteq> None"
    and l: "\<And>x' s. v = Some x' \<Longrightarrow> res_ptr (zt_res x') = Some s \<Longrightarrow> zloose (th(t := v)) sh' s"
  shows "zkeep S th sh (th(t := v)) sh'"
proof -
  have vx: "zx x' = None" if "v = Some x'" for x' using v(1) that by (auto simp: zfinal_def zx_def)
  note lo = zloose_finish [OF assms(1) cl vx]
  show ?thesis
  proof (rule zkeepI)
    fix q z
    assume q: "th q = Some z" "\<not> zt_detached z" "q \<notin> S"
    show "\<exists>x'. (th(t := v)) q = Some x' \<and> \<not> zt_detached x' \<and> (zt_done z \<longrightarrow> zt_done x' \<and> zt_res x' = zt_res z) \<and>
        (res_ptr (zt_res x') = res_ptr (zt_res z) \<or> (\<forall>s. res_ptr (zt_res x') = Some s \<longrightarrow> zloose (th(t := v)) sh' s))"
    proof (cases "q = t")
      case True
      with q t v obtain x' where x': "v = Some x'" by auto
      with True q t v(1) lo l [OF x'] show ?thesis by (auto simp: zfinal_def)
    qed (use q in auto)
  qed (rule lo)
qed

subsection \<open>Sockets and tasks that go\<close>

lemma zloose_idle:
  assumes c: "zcore F b th sh nx P D K" and l: "zloose th sh s"
  shows "zwset th s = {}" and "th t = Some x \<Longrightarrow> \<not> zt_done x \<Longrightarrow> t \<notin> F \<Longrightarrow> zt_sock x = Some s \<Longrightarrow>
    zt_kind x \<notin> {ZTASK_SOCK_READ, ZTASK_ACCEPT, ZTASK_SOCK_WRITE, ZTASK_CONNECT}"
proof -
  note p = zcore_parts [OF c]
  obtain y where y: "sh s = Some y" "zquiet y" and nx: "\<And>t x. th t = Some x \<Longrightarrow> zx x \<noteq> Some s" using l by (auto simp: zloose_def)
  show w: "zwset th s = {}" using zwq_list [OF p(3) y(1)] y(2) by (auto simp: zquiet_def wq_list_head_None)
  assume t: "th t = Some x" "\<not> zt_done x" "t \<notin> F" "zt_sock x = Some s"
  show "zt_kind x \<notin> {ZTASK_SOCK_READ, ZTASK_ACCEPT, ZTASK_SOCK_WRITE, ZTASK_CONNECT}"
  proof
    assume k: "zt_kind x \<in> {ZTASK_SOCK_READ, ZTASK_ACCEPT, ZTASK_SOCK_WRITE, ZTASK_CONNECT}"
    have "zt_kind x \<noteq> ZTASK_SOCK_WRITE" using zwset_I [of th t x s] t w by auto
    moreover have "zt_kind x \<noteq> ZTASK_CONNECT" using nx [OF t(1)] t by (auto simp: zx_def)
    ultimately show False using zslot_back [OF p(2) t(1-3)] k y t(4) by (auto simp: zquiet_slot)
  qed
qed

lemma zcore_dropsock:
  assumes c: "zcore F b th sh nx P D K" and l: "zloose th sh s"
  shows "zcore F b th (sh(s := None)) nx P D K"
proof -
  note p = zcore_parts [OF c] and i = zloose_idle [OF c l]
  have nx: "\<And>t x. th t = Some x \<Longrightarrow> zx x \<noteq> Some s" using l by (auto simp: zloose_def)
  obtain y where y: "sh s = Some y" "zquiet y" using l by (auto simp: zloose_def)
  show ?thesis
  proof (rule zcoreI)
    show "zslot_inv F th (sh(s := None))" by (rule zslot_inv_sock [OF p(2)]) (use y in \<open>auto simp: zquiet_slot split: if_splits\<close>)
    show "zwq_inv th (sh(s := None)) nx" using p(3) i(1) unfolding zwq_inv_def by (auto split: if_splits)
    show "zx_inv th (sh(s := None))" using p(4) nx unfolding zx_inv_def by fastforce
    have "zhead (sh(s := None)) q z = zhead sh q z" if "th q = Some z" "zt_kind z = ZTASK_SOCK_WRITE" "\<not> zt_done z" for q z
    proof -
      have "zt_sock z \<noteq> Some s" using zwset_I [of th q z s] that i(1) by auto
      then show ?thesis by (auto simp: zhead_def)
    qed
    then show "set P = zpset F th (sh(s := None))" using p(7) by (auto simp: zpset_def)
  qed (use p in \<open>auto split: if_splits\<close>)
qed

lemma zkeep_dropsock:
  assumes "\<And>t x. th t = Some x \<Longrightarrow> t \<notin> S \<Longrightarrow> res_ptr (zt_res x) \<noteq> Some s"
  shows "zkeep S th sh th (sh(s := None))"
  by (rule zkeepI) (use assms in \<open>auto simp: zloose_def\<close>)

lemma zcore_free:
  assumes c: "zcore F b th sh nx P D K" and t: "th t = Some x" "zt_done x"
  shows "zcore F b (th(t := None)) sh nx P D K"
proof -
  note p = zcore_parts [OF c]
  have tF: "t \<notin> F" using ztask_invD [OF p(1) t(1)] t(2) by (simp add: ztask_ok_def)
  then have Fe: "F - {t} = F" by simp
  show ?thesis
  proof (rule zcoreI)
    show "ztask_inv F b (th(t := None))" using ztask_inv_del [OF p(1), of t] Fe by simp
    show "zslot_inv F (th(t := None)) sh" using p(2) t unfolding zslot_inv_def by (fastforce split: if_splits)
    have "zwset (th(t := None)) s = zwset th s" for s using t by (auto simp: zwset_def)
    then show "zwq_inv (th(t := None)) sh nx" using p(3) by (simp add: zwq_inv_def)
    show "zx_inv (th(t := None)) sh" by (rule zx_inv_change [OF p(4)]) (auto split: if_splits)
    show "zown_inv (th(t := None))" by (rule zown_inv_change [OF p(5)]) (auto split: if_splits)
    show "zspawn_inv (th(t := None)) D K" using p(6) t by (auto simp: zspawn_inv_def set_eq_iff subset_iff)
    show "set P = zpset F (th(t := None)) sh" using p(7) t by (auto simp: zpset_def)
  qed (rule p(8))
qed

lemma zkeep_free: "t \<in> S \<Longrightarrow> zkeep S th sh (th(t := None)) sh"
  by (rule zkeepI) (auto simp: zloose_def)

subsection \<open>Spawned functions\<close>

lemma zcore_handler:
  assumes c: "zcore F b th sh nx P D K" and t: "th t = Some x" "t \<in> K"
  shows "zcore F b (th(t \<mapsto> x\<lparr>zt_fn_ret := r, zt_pushed := True\<rparr>)) sh nx P (t # D) (K - {t})" and "t \<notin> set D"
proof -
  note p = zcore_parts [OF c]
  let ?x = "x\<lparr>zt_fn_ret := r, zt_pushed := True\<rparr>"
  have k: "zt_kind x = ZTASK_SPAWN" "\<not> zt_done x" "\<not> zt_pushed x" using p(6) t by (auto simp: zspawn_inv_def)
  show "t \<notin> set D" using p(6) t k by (auto simp: zspawn_inv_def)
  have e: "zx ?x = zx x" "zown ?x = zown x" "ztask_ok F b t ?x = ztask_ok F b t x" "zhead sh t ?x = zhead sh t x"
    by (auto simp: zx_def zown_def ztask_ok_def zhead_def)
  show "zcore F b (th(t \<mapsto> ?x)) sh nx P (t # D) (K - {t})"
  proof (rule zcoreI)
    show "ztask_inv F b (th(t \<mapsto> ?x))" using p(1) t e by (auto simp: ztask_inv_def)
    show "zslot_inv F (th(t \<mapsto> ?x)) sh" by (rule zslot_inv_upd [OF p(2) t(1)]) auto
    have "zwset (th(t \<mapsto> ?x)) j = zwset th j" for j using t k by (auto simp: zwset_def)
    then show "zwq_inv (th(t \<mapsto> ?x)) sh nx" using p(3) by (simp add: zwq_inv_def)
    show "zx_inv (th(t \<mapsto> ?x)) sh" by (rule zx_inv_change [OF p(4)]) (use t e in \<open>auto split: if_splits\<close>)
    show "zown_inv (th(t \<mapsto> ?x))" by (rule zown_inv_change [OF p(5)]) (use t e in \<open>auto split: if_splits\<close>)
    show "zspawn_inv (th(t \<mapsto> ?x)) (t # D) (K - {t})" using p(6) t k by (auto simp: zspawn_inv_def set_eq_iff subset_iff)
    show "set P = zpset F (th(t \<mapsto> ?x)) sh" using p(7) t k e by (auto simp: zpset_def)
  qed (rule p(8))
qed

lemma zcore_submit:
  assumes c: "zcore F b th sh nx P D K" and t: "th t = Some x" "zt_kind x = ZTASK_SPAWN" "\<not> zt_done x" "\<not> zt_pushed x"
  shows "zcore F b th sh nx P D (insert t K)"
  using c t by (auto simp: zcore_def zspawn_inv_def)

lemma zcore_unsubmit: "zcore F b th sh nx P D K \<Longrightarrow> zcore F b th sh nx P D (K - {t})"
  by (auto simp: zcore_def zspawn_inv_def)


end
