(* ===== verification/Myio_Zephyr_Inv.thy ===== *)
theory Myio_Zephyr_Inv
  imports Myio_Zephyr_Core
begin

text \<open>
  The invariant of a Zephyr instance: the predicate of \<open>Myio_Zephyr_Core\<close> on its heaps,
  with the linked lists as they are in memory and the slabs' counters. Every operation
  of the backend keeps it.
\<close>

definition zlists :: "addr set \<Rightarrow> z_io \<Rightarrow> addr list \<Rightarrow> addr list \<Rightarrow> addr list \<Rightarrow> bool" where
  "zlists F z P D L \<longleftrightarrow> sl_list (z_pend z) P \<and> sl_list (z_sdone z) D \<and> sl_list (z_socks z) L \<and> set L = dom (z_sh z) \<and>
     zcore F (m_brk z) (z_th z) (z_sh z) (z_wnext z) P D (work_out (m_trace z))"

definition zslabs :: "zcfg \<Rightarrow> z_io \<Rightarrow> bool" where
  "zslabs c z \<longleftrightarrow> z_ntask z = card (dom (z_th z)) \<and> z_ntask z \<le> cfg_max_tasks c \<and>
     z_nsock z = card (dom (z_sh z)) \<and> length (z_file_used z) = cfg_max_files c"

definition zinv :: "zcfg \<Rightarrow> addr set \<Rightarrow> z_io \<Rightarrow> bool" where
  "zinv c F z \<longleftrightarrow> \<not> m_fault z \<and> zslabs c z \<and> (\<exists>P D L. zlists F z P D L)"

definition zkeeps :: "addr set \<Rightarrow> z_io \<Rightarrow> z_io \<Rightarrow> bool" where
  "zkeeps S z z' \<longleftrightarrow> zkeep S (z_th z) (z_sh z) (z_th z') (z_sh z')"

lemma zkeeps_refl: "zkeeps S z z"
  by (simp add: zkeeps_def zkeep_refl)

lemma zkeeps_trans: "zkeeps S z z1 \<Longrightarrow> zkeeps S z1 z2 \<Longrightarrow> zkeeps S z z2"
  unfolding zkeeps_def by (rule zkeep_trans)

lemma zkeeps_mono: "zkeeps S z z' \<Longrightarrow> S \<subseteq> S' \<Longrightarrow> zkeeps S' z z'"
  unfolding zkeeps_def by (rule zkeep_mono)

lemma zlists_core: "zlists F z P D L \<Longrightarrow> zcore F (m_brk z) (z_th z) (z_sh z) (z_wnext z) P D (work_out (m_trace z))"
  by (simp add: zlists_def)

lemma zinvE:
  assumes "zinv c F z"
  obtains P D L where "\<not> m_fault z" "zslabs c z" "zlists F z P D L"
  using assms by (auto simp: zinv_def)

lemma zcore_finite: "zcore F b th sh nx P D K \<Longrightarrow> finite (dom th)" "zcore F b th sh nx P D K \<Longrightarrow> finite (dom sh)"
proof -
  assume c: "zcore F b th sh nx P D K"
  have "dom th \<subseteq> {..<b}" using ztask_invD [OF zcore_parts(1) [OF c]] by (auto simp: ztask_ok_def)
  then show "finite (dom th)" by (rule finite_subset) simp
  have "dom sh \<subseteq> {..<b}" using zcore_parts(8) [OF c] by auto
  then show "finite (dom sh)" by (rule finite_subset) simp
qed

lemma card_dom_add: "finite (dom m) \<Longrightarrow> m t = None \<Longrightarrow> card (insert t (dom m)) = Suc (card (dom m))"
  by (simp add: card_insert_if domIff)

lemma card_dom_del: "finite (dom m) \<Longrightarrow> m t = Some x \<Longrightarrow> card (dom m - {t}) = card (dom m) - 1"
  by (simp add: card_Diff_singleton domI)

lemma card_dom_pos: "finite (dom m) \<Longrightarrow> m t = Some x \<Longrightarrow> card (dom m) \<noteq> 0"
  by auto

subsection \<open>Calls\<close>

text \<open>Two states that differ only in what the invariant does not look at.\<close>

definition zframe :: "z_io \<Rightarrow> z_io \<Rightarrow> bool" where
  "zframe z z' \<longleftrightarrow> z_pend z' = z_pend z \<and> z_sdone z' = z_sdone z \<and> z_socks z' = z_socks z \<and> z_th z' = z_th z \<and>
     z_sh z' = z_sh z \<and> z_wnext z' = z_wnext z \<and> z_ntask z' = z_ntask z \<and> z_nsock z' = z_nsock z \<and>
     z_file_used z' = z_file_used z \<and> m_brk z' = m_brk z \<and> m_fault z' = m_fault z \<and>
     work_out (m_trace z') = work_out (m_trace z)"

lemma zframe_refl [simp]: "zframe z z"
  by (simp add: zframe_def)

lemma zframe_trans: "zframe z z1 \<Longrightarrow> zframe z1 z2 \<Longrightarrow> zframe z z2"
  by (simp add: zframe_def)

lemma zframe_inv: "zframe z z' \<Longrightarrow> zinv c F z' = zinv c F z"
  by (simp add: zframe_def zinv_def zslabs_def zlists_def)

lemma zframe_lists: "zframe z z' \<Longrightarrow> zlists F z' P D L = zlists F z P D L"
  by (simp add: zframe_def zlists_def)

lemma zframe_same: "zframe z z' \<Longrightarrow> z_th z' = z_th z \<and> z_sh z' = z_sh z \<and> m_brk z' = m_brk z"
  by (simp add: zframe_def)

lemma zframe_keeps: "zframe z z' \<Longrightarrow> zkeeps S z z'"
  by (simp add: zframe_def zkeeps_def zkeep_refl)

lemma zframe_at: "zframe z z' \<Longrightarrow> zt z' = zt z" "zframe z z' \<Longrightarrow> zs z' = zs z"
  by (auto simp: zframe_def zt_def zs_def fun_eq_iff)

fun off_work :: "call \<Rightarrow> bool" where
  "off_work (C_work_submit t) = False"
| "off_work (C_work_cancel t) = False"
| "off_work C_work_turn = False"
| "off_work _ = True"

lemma off_work_out: "off_work q \<Longrightarrow> work_out ((q, a) # tr) = work_out tr"
  by (cases q rule: off_work.cases) auto

lemma sys_call_zframe: "off_work q \<Longrightarrow> sys_call os q z = (a, z') \<Longrightarrow> zframe z z'"
  by (auto simp: sys_call_def Let_def zframe_def off_work_out)

lemma z_call_zframe: "off_work q \<Longrightarrow> z_call os q z = (a, z') \<Longrightarrow> zframe z z'"
  by (auto simp: z_call_def sys_call_def Let_def zframe_def off_work_out split: if_splits)

lemma set_nonblock_zframe: "z_sock_set_nonblock os z fd = (r, z') \<Longrightarrow> zframe z z'"
  unfolding z_sock_set_nonblock_def
  by (auto split: prod.splits if_splits dest!: z_call_zframe [rotated] intro: zframe_trans)

subsection \<open>Access\<close>

lemma zlive:
  "z_th z t = Some x \<Longrightarrow> zt z t = x" "z_th z t = Some x \<Longrightarrow> chk_zt t z = z"
  "z_th z t = Some x \<Longrightarrow> upd_zt t f z = z\<lparr>z_th := (z_th z)(t \<mapsto> f x)\<rparr>"
  "z_sh z s = Some y \<Longrightarrow> zs z s = y" "z_sh z s = Some y \<Longrightarrow> chk_zs s z = z"
  "z_sh z s = Some y \<Longrightarrow> upd_zs s g z = z\<lparr>z_sh := (z_sh z)(s \<mapsto> g y)\<rparr>"
  by (simp_all add: zt_def zs_def chk_zt_def chk_zs_def upd_zt_def upd_zs_def)

subsection \<open>Allocation\<close>

lemma zinv_task_new:
  assumes i: "zinv c F z" and n: "z_task_new c z k = (p, z')"
  shows "p = None \<Longrightarrow> z' = z"
    and "p = Some t \<Longrightarrow> zinv c (insert t F) z' \<and> z_th z t = None \<and> z_th z' = (z_th z)(t \<mapsto> z_task0 k) \<and>
      z_sh z' = z_sh z \<and> t \<notin> F \<and> m_trace z' = m_trace z \<and> zkeeps S z z'"
proof -
  show "p = None \<Longrightarrow> z' = z" using n by (auto simp: z_task_new_def Let_def split: if_splits)
  assume "p = Some t"
  with n have t: "t = m_brk z" "z_ntask z < cfg_max_tasks c" and e: "z' = z\<lparr>m_brk := Suc t, z_ntask := Suc (z_ntask z),
      z_th := (z_th z)(t \<mapsto> z_task0 k), z_pend := (z_pend z)\<lparr>sl_next := (sl_next (z_pend z))(t := None)\<rparr>,
      z_sdone := (z_sdone z)\<lparr>sl_next := (sl_next (z_sdone z))(t := None)\<rparr>, z_wnext := (z_wnext z)(t := None)\<rparr>"
    by (auto simp: z_task_new_def Let_def split: if_splits)
  obtain P D L where f: "\<not> m_fault z" "zslabs c z" and l: "zlists F z P D L" by (rule zinvE [OF i])
  note c = zlists_core [OF l]
  have fr: "z_th z t = None" unfolding t(1) by (rule zcore_fresh [OF c le_refl])
  have "t \<notin> set P" using zcore_parts(7) [OF c] fr by (simp add: zpset_def)
  moreover have "t \<notin> set D" using zcore_parts(6) [OF c] fr by (simp add: zspawn_inv_def)
  ultimately have "zlists (insert t F) z' P D L"
    using l zcore_new [OF c, of k] by (simp add: zlists_def e t(1) sl_list_frame)
  moreover have "zslabs c z'" using f(2) t(2) fr zcore_finite(1) [OF c] by (simp add: zslabs_def e card_dom_add)
  ultimately have "zinv c (insert t F) z'" using f(1) by (auto simp: zinv_def e)
  moreover have "t \<notin> F" using zcore_parts(1) [OF c] fr by (auto simp: ztask_inv_def)
  ultimately show "zinv c (insert t F) z' \<and> z_th z t = None \<and> z_th z' = (z_th z)(t \<mapsto> z_task0 k) \<and>
      z_sh z' = z_sh z \<and> t \<notin> F \<and> m_trace z' = m_trace z \<and> zkeeps S z z'"
    using fr by (simp add: e zkeeps_def zkeep_new)
qed

lemma zinv_sock_new:
  assumes i: "zinv c F z" and n: "z_sock_new c z fd = (p, z')"
  shows "p = None \<Longrightarrow> z' = z"
    and "p = Some s \<Longrightarrow> zinv c F z' \<and> z_sh z s = None \<and> z_th z' = z_th z \<and> z_sh z' = (z_sh z)(s \<mapsto> z_sock0 fd) \<and>
      m_trace z' = m_trace z \<and> z_wnext z' = z_wnext z \<and> z_errno z' = z_errno z \<and> zkeeps S z z' \<and> zloose (z_th z') (z_sh z') s \<and>
      (\<forall>q x. z_th z q = Some x \<longrightarrow> zown x \<noteq> Some s) \<and> s < m_brk z'"
proof -
  show "p = None \<Longrightarrow> z' = z" using n by (auto simp: z_sock_new_def Let_def split: if_splits)
  assume "p = Some s"
  with n have s: "s = m_brk z" and e: "z' = z\<lparr>m_brk := Suc s, z_nsock := Suc (z_nsock z), z_sh := (z_sh z)(s \<mapsto> z_sock0 fd),
      z_socks := sl_push (z_socks z) s\<rparr>" by (auto simp: z_sock_new_def Let_def split: if_splits)
  obtain P D L where f: "\<not> m_fault z" "zslabs c z" and l: "zlists F z P D L" by (rule zinvE [OF i])
  note c = zlists_core [OF l]
  have fr: "z_sh z s = None" unfolding s by (rule zcore_fresh_sock [OF c le_refl])
  have "s \<notin> set L" using l fr by (auto simp: zlists_def)
  then have "zlists F z' P D (s # L)" using l zcore_newsock [OF c, of fd] by (simp add: zlists_def e s sl_push_list)
  moreover have "zslabs c z'" using f(2) fr zcore_finite(2) [OF c] by (simp add: zslabs_def e card_dom_add)
  ultimately have "zinv c F z'" using f(1) by (auto simp: zinv_def e)
  moreover have "zown x \<noteq> Some s" if "z_th z q = Some x" for q x
    using ztask_invD [OF zcore_parts(1) [OF c] that] s by (auto simp: ztask_ok_def)
  ultimately show "zinv c F z' \<and> z_sh z s = None \<and> z_th z' = z_th z \<and> z_sh z' = (z_sh z)(s \<mapsto> z_sock0 fd) \<and>
      m_trace z' = m_trace z \<and> z_wnext z' = z_wnext z \<and> z_errno z' = z_errno z \<and> zkeeps S z z' \<and> zloose (z_th z') (z_sh z') s \<and>
      (\<forall>q x. z_th z q = Some x \<longrightarrow> zown x \<noteq> Some s) \<and> s < m_brk z'"
    using fr zloose_newsock [OF c, of fd] by (simp add: e zkeeps_def zkeep_newsock s)
qed

subsection \<open>Releasing a socket\<close>

definition zreleased :: "z_io \<Rightarrow> addr \<Rightarrow> slist \<Rightarrow> event list \<Rightarrow> int \<Rightarrow> z_io" where
  "zreleased z s d tr e =
     z\<lparr>z_socks := d, m_trace := tr, z_errno := e, z_sh := (z_sh z)(s := None), z_nsock := z_nsock z - 1\<rparr>"

lemma z_sock_release_eq:
  assumes "sl_list (z_socks z) L" and "z_sh z s = Some y" and "z_nsock z \<noteq> 0"
  obtains d a e where "z_sock_release os z s = zreleased z s d ((C_close (zs_fd y), a) # m_trace z) e" "sl_list d (remove1 s L)"
proof -
  obtain d where d: "sl_remove (z_socks z) s = Some (s \<in> set L, d)" "sl_list d (remove1 s L)"
    using sl_remove_list [OF assms(1)] by blast
  define a where "a = os (m_trace z) (C_close (zs_fd y))"
  have "z_sock_release os z s =
      zreleased z s d ((C_close (zs_fd y), a) # m_trace z) (if a_ret a < 0 then a_errno a else z_errno z)"
    using assms(2,3) d(1)
    by (simp add: z_sock_release_def zlive zs_def z_call_def sys_call_def Let_def free_zs_def chk_zs_def zreleased_def a_def)
  from that [OF this d(2)] show ?thesis .
qed

lemma zinv_release:
  assumes i: "zinv c F z" and l: "zloose (z_th z) (z_sh z) s" and z': "z' = z_sock_release os z s"
  shows "zinv c F z'" "z_th z' = z_th z" "z_sh z' = (z_sh z)(s := None)" "m_brk z' = m_brk z"
    "(\<And>t x. z_th z t = Some x \<Longrightarrow> t \<notin> S \<Longrightarrow> res_ptr (zt_res x) \<noteq> Some s) \<Longrightarrow> zkeeps S z z'"
proof -
  obtain P D L where f: "\<not> m_fault z" "zslabs c z" and li: "zlists F z P D L" by (rule zinvE [OF i])
  note co = zlists_core [OF li]
  obtain y where y: "z_sh z s = Some y" using l by (auto simp: zloose_def)
  have fin: "finite (dom (z_sh z))" using zcore_finite(2) [OF co] .
  have n0: "z_nsock z \<noteq> 0" using f(2) y fin by (auto simp: zslabs_def)
  have sl: "sl_list (z_socks z) L" using li by (simp add: zlists_def)
  obtain d a e where e: "z_sock_release os z s = zreleased z s d ((C_close (zs_fd y), a) # m_trace z) e" "sl_list d (remove1 s L)"
    by (rule z_sock_release_eq [OF sl y n0])
  have "set (remove1 s L) = dom (z_sh z) - {s}" using li by (simp add: zlists_def sl_list_distinct [OF sl])
  then have "zlists F z' P D (remove1 s L)"
    using li e zcore_dropsock [OF co l] by (simp add: zlists_def z' zreleased_def)
  moreover have "zslabs c z'" using f(2) y fin by (simp add: zslabs_def z' e zreleased_def card_dom_del)
  ultimately show "zinv c F z'" using f(1) by (auto simp: zinv_def z' e zreleased_def)
  show "z_th z' = z_th z" "z_sh z' = (z_sh z)(s := None)" "m_brk z' = m_brk z" by (simp_all add: z' e zreleased_def)
  assume "\<And>t x. z_th z t = Some x \<Longrightarrow> t \<notin> S \<Longrightarrow> res_ptr (zt_res x) \<noteq> Some s"
  then show "zkeeps S z z'" unfolding zkeeps_def by (simp add: z' e zreleased_def zkeep_dropsock)
qed

subsection \<open>Completing a task\<close>

lemma z_free_mem_eq:
  assumes "z_th z t = Some x" and "z_ntask z \<noteq> 0"
  obtains z2 where "zframe z z2" "z_task_free_mem c os z t = z2\<lparr>z_th := (z_th z)(t := None), z_ntask := z_ntask z - 1\<rparr>"
proof -
  define z2 where "z2 = (if \<not> cfg_spawn_inline c \<and> zt_kind (zt z t) = ZTASK_SPAWN then
      let (a, z) = sys_call os (C_work_busy t) z
      in if a_ret a \<noteq> 0 then snd (sys_call os (C_work_flush t) z) else z else z)"
  have f: "zframe z z2"
    by (auto simp: z2_def zframe_def sys_call_def Let_def)
  then have s: "z_th z2 = z_th z" "z_ntask z2 = z_ntask z" by (simp_all add: zframe_def)
  have "z_task_free_mem c os z t = free_zt t z2" using assms(1) by (simp add: z_task_free_mem_def zlive z2_def Let_def)
  also have "\<dots> = z2\<lparr>z_th := (z_th z)(t := None), z_ntask := z_ntask z - 1\<rparr>"
    using s assms by (simp add: free_zt_def chk_zt_def Let_def)
  finally show ?thesis using that f by blast
qed

text \<open>
  Between \<open>z0\<close>, where the invariant holds, and \<open>z\<close> the pending task \<open>t\<close> has been cut loose
  from its socket and from the list of finished functions.
\<close>

definition zcut :: "z_io \<Rightarrow> addr \<Rightarrow> z_task \<Rightarrow> z_io \<Rightarrow> bool" where
  "zcut z0 t x z \<longleftrightarrow> z_pend z = z_pend z0 \<and> z_socks z = z_socks z0 \<and> m_brk z = m_brk z0 \<and> m_fault z = m_fault z0 \<and>
     z_ntask z = z_ntask z0 \<and> z_nsock z = z_nsock z0 \<and> z_file_used z = z_file_used z0 \<and>
     work_out (m_trace z) = work_out (m_trace z0) \<and>
     (\<exists>x0. z_th z0 t = Some x0 \<and> \<not> zt_done x0 \<and> zt_kind x = zt_kind x0 \<and> zt_pushed x = zt_pushed x0 \<and>
        zt_detached x = zt_detached x0) \<and> \<not> zt_done x \<and> z_th z = (z_th z0)(t \<mapsto> x) \<and>
     (\<forall>D. sl_list (z_sdone z0) D \<longrightarrow> sl_list (z_sdone z) (remove1 t D)) \<and>
     zcleared t (z_sh z0) (z_wnext z0) (z_sh z) (z_wnext z)"

text \<open>The socket a task wins belongs to nobody else and nothing goes on on it.\<close>

definition zwins :: "z_io \<Rightarrow> addr \<Rightarrow> ptr \<Rightarrow> bool" where
  "zwins z t p \<longleftrightarrow> (\<forall>s. p = Some s \<longrightarrow> (\<exists>y. z_sh z s = Some y \<and> zquiet y) \<and>
     (\<forall>q x. z_th z q = Some x \<longrightarrow> q \<noteq> t \<longrightarrow> zown x \<noteq> Some s))"

lemma zwins_None [simp]: "zwins z t None"
  by (simp add: zwins_def)

lemma zx_own: "zx x = Some s \<Longrightarrow> zown x = Some s"
  by (auto simp: zown_def zx_def split: if_splits)

lemma pending_remove_eq:
  assumes "sl_list (z_pend z) P"
  obtains d where "z_pending_remove z t = z\<lparr>z_pend := d\<rparr>" "sl_list d (remove1 t P)"
proof -
  obtain d where d: "sl_remove (z_pend z) t = Some (t \<in> set P, d)" "sl_list d (remove1 t P)"
    using sl_remove_list [OF assms] by blast
  have "t \<notin> set (remove1 t P)" using sl_list_distinct [OF assms] by simp
  with d(2) have "sl_list (if t \<in> set P then d\<lparr>sl_next := (sl_next d)(t := None)\<rparr> else d) (remove1 t P)"
    by (simp add: sl_list_frame)
  moreover have "z_pending_remove z t = z\<lparr>z_pend := (if t \<in> set P then d\<lparr>sl_next := (sl_next d)(t := None)\<rparr> else d)\<rparr>"
    by (simp add: z_pending_remove_def d)
  ultimately show ?thesis using that by blast
qed

lemma zinv_complete:
  assumes i: "zinv c F z0" and cut: "zcut z0 t x z" and k: "t \<notin> work_out (m_trace z0)" and st: "st \<noteq> MYIO_PENDING"
    and w: "zwins z0 t p" and z': "z' = z_task_complete c os z t st v e p"
  shows "zinv c (F - {t} \<union> znext t (z_sh z0) (z_sh z)) z'" and "zkeeps {} z0 z'"
    and "z_th z' = (z_th z)(t := if zt_detached x then None else Some (x\<lparr>zt_res := mk_result st v e p, zt_done := True\<rparr>))"
    and "zt_detached x \<longrightarrow> p = None \<Longrightarrow> z_sh z' = z_sh z" and "z_wnext z' = z_wnext z" and "m_brk z' = m_brk z"
proof -
  obtain P D L where f: "\<not> m_fault z0" "zslabs c z0" and li: "zlists F z0 P D L" by (rule zinvE [OF i])
  note co = zlists_core [OF li]
  note p = zcore_parts [OF co]
  have cl: "zcleared t (z_sh z0) (z_wnext z0) (z_sh z) (z_wnext z)" using cut by (simp add: zcut_def)
  obtain x0 where x0: "z_th z0 t = Some x0" "\<not> zt_done x0" "zt_pushed x = zt_pushed x0" "zt_kind x = zt_kind x0"
      "zt_detached x = zt_detached x0" and th: "z_th z = (z_th z0)(t \<mapsto> x)" using cut by (auto simp: zcut_def)
  have sP: "sl_list (z_pend z) P" and sD: "sl_list (z_sdone z) (remove1 t D)" and sL: "sl_list (z_socks z) L" "set L = dom (z_sh z)"
    using li cut by (auto simp: zlists_def zcut_def zcleared_def)
  have dist: "distinct P" "distinct D" using li by (auto simp: zlists_def dest: sl_list_distinct)
  have ch: "m_brk z = m_brk z0" "\<not> m_fault z" "work_out (m_trace z) = work_out (m_trace z0)" "z_ntask z = z_ntask z0"
    "z_nsock z = z_nsock z0" "z_file_used z = z_file_used z0" using cut f(1) by (auto simp: zcut_def)
  let ?x = "x\<lparr>zt_res := mk_result st v e p, zt_done := True\<rparr>"
  obtain d where d: "z_pending_remove z t = z\<lparr>z_pend := d\<rparr>" "sl_list d (remove1 t P)" by (rule pending_remove_eq [OF sP])
  define z1 where "z1 = z\<lparr>z_pend := d, z_th := (z_th z)(t \<mapsto> ?x)\<rparr>"
  have e0: "z' = (if zt_detached x then z_task_reap c os z1 t else z1)"
    unfolding z' z_task_complete_def d(1) Let_def using th by (simp add: zlive z1_def)
  let ?F = "F - {t} \<union> znext t (z_sh z0) (z_sh z)"
  let ?ok = "\<lambda>q. zfinal (z_th z0) (m_brk z0) t x0 q"
  have fin: "finite (dom (z_th z0))" "finite (dom (z_sh z0))" by (rule zcore_finite [OF co])+
  have pu: "zt_pushed x0 \<longrightarrow> zt_kind x0 = ZTASK_SPAWN" using p(6) x0(1) by (auto simp: zspawn_inv_def)
  have pd: "p = Some s \<Longrightarrow> s < m_brk z0" for s using w p(8) by (auto simp: zwins_def)
  have v1: "?ok (Some ?x)" if "\<not> zt_detached x" using that st w pu x0 pd by (auto simp: zfinal_def zwins_def)
  have v2: "?ok None" by (simp add: zfinal_def)
  note fi = zcore_finish [OF co dist x0(1,2) k cl]
  have lo: "zloose ((z_th z0)(t := q)) (z_sh z) s" if "p = Some s" "q = None \<or> q = Some ?x" for q s
  proof -
    from w that(1) obtain y where y: "z_sh z0 s = Some y" "zquiet y" by (auto simp: zwins_def)
    have "zx z2 \<noteq> Some s" if "z_th z0 r = Some z2" "r \<noteq> t" for r z2
      using w \<open>p = Some s\<close> that zx_own [of z2 s] by (auto simp: zwins_def)
    moreover have "zx ?x = None" by (simp add: zx_def)
    ultimately show ?thesis using zcleared_quiet [OF p(3) cl y] that(2) by (auto simp: zloose_def split: if_splits)
  qed
  have keep: "zkeep {} (z_th z0) (z_sh z0) ((z_th z0)(t := if zt_detached x then None else Some ?x)) (z_sh z)"
    by (rule zkeep_finish [OF p(3) x0(1,2) cl]) (use v1 v2 x0(5) lo in \<open>auto split: if_splits\<close>)
  have "zinv c ?F z' \<and> zkeeps {} z0 z' \<and> z_th z' = (z_th z)(t := if zt_detached x then None else Some ?x) \<and>
      (\<not> (zt_detached x \<and> p \<noteq> None) \<longrightarrow> z_sh z' = z_sh z) \<and> z_wnext z' = z_wnext z \<and> m_brk z' = m_brk z"
  proof (cases "zt_detached x")
    case False
    with e0 have e: "z' = z1" by simp
    have "zlists ?F z1 (remove1 t P) (remove1 t D) L"
      using fi [OF v1 [OF False]] d(2) sD sL th ch by (simp add: zlists_def z1_def)
    moreover have "zslabs c z1" using f(2) ch th x0(1) cl fin
      by (auto simp: zslabs_def z1_def zcleared_def insert_absorb domI)
    ultimately have "zinv c ?F z1" using ch by (auto simp: zinv_def z1_def)
    then show ?thesis using e False th keep by (simp add: z1_def zkeeps_def)
  next
    case True
    have n0: "z_ntask z1 \<noteq> 0" using f(2) ch card_dom_pos [OF fin(1) x0(1)] by (simp add: zslabs_def z1_def)
    show ?thesis
    proof (cases p)
      case None
      have t1: "z_th z1 t = Some ?x" by (simp add: z1_def)
      obtain z2 where z2: "zframe z1 z2" "z_task_free_mem c os z1 t = z2\<lparr>z_th := (z_th z1)(t := None), z_ntask := z_ntask z1 - 1\<rparr>"
        by (rule z_free_mem_eq [OF t1 n0])
      have e: "z' = z2\<lparr>z_th := (z_th z1)(t := None), z_ntask := z_ntask z1 - 1\<rparr>"
        using e0 True None t1 z2(2) by (simp add: z_task_reap_def zlive)
      have "zlists ?F z' (remove1 t P) (remove1 t D) L"
        using fi [OF v2] d(2) sD sL th ch z2(1) by (simp add: zlists_def e z1_def zframe_def)
      moreover have "zslabs c z'" using f(2) ch th x0(1) cl fin z2(1)
        by (auto simp: zslabs_def e z1_def zframe_def zcleared_def card_dom_del)
      ultimately have "zinv c ?F z'" using ch z2(1) by (auto simp: zinv_def e z1_def zframe_def)
      then show ?thesis using True th keep z2(1) by (simp add: e z1_def zkeeps_def zframe_def)
    next
      case (Some s)
      obtain y0 where y0: "z_sh z0 s = Some y0" "zquiet y0" using w Some by (auto simp: zwins_def)
      note cs = card_dom_del [OF fin(2) y0(1)]
      from zcleared_quiet [OF p(3) cl y0] obtain y where y: "z_sh z s = Some y" by blast
      have fs: "finite (dom (z_sh z))" using fin cl by (simp add: zcleared_def)
      have n1: "z_nsock z1 \<noteq> 0" using f(2) ch y card_dom_pos [OF fs y] cl by (auto simp: zslabs_def z1_def zcleared_def)
      have t1: "z_th z1 t = Some ?x" "z_sh z1 s = Some y" "sl_list (z_socks z1) L" using y sL by (simp_all add: z1_def)
      obtain d2 a er where r: "z_sock_release os z1 s = zreleased z1 s d2 ((C_close (zs_fd y), a) # m_trace z1) er"
        "sl_list d2 (remove1 s L)" by (rule z_sock_release_eq [OF t1(3,2) n1])
      define z3 where "z3 = zreleased z1 s d2 ((C_close (zs_fd y), a) # m_trace z1) er"
      have t3: "z_th z3 t = Some ?x" "z_ntask z3 \<noteq> 0" using t1(1) n0 by (simp_all add: z3_def zreleased_def)
      obtain z2 where z2: "zframe z3 z2" "z_task_free_mem c os z3 t = z2\<lparr>z_th := (z_th z3)(t := None), z_ntask := z_ntask z3 - 1\<rparr>"
        by (rule z_free_mem_eq [OF t3])
      have e: "z' = z2\<lparr>z_th := (z_th z3)(t := None), z_ntask := z_ntask z3 - 1\<rparr>"
        using e0 True Some t1(1) z2(2) r(1) by (simp add: z_task_reap_def zlive z3_def)
      have sr: "set (remove1 s L) = dom (z_sh z) - {s}" using sL by (simp add: sl_list_distinct [OF sL(1)])
      have l2: "zloose ((z_th z0)(t := None)) (z_sh z) s" by (rule lo [OF Some]) simp
      have "zlists ?F z' (remove1 t P) (remove1 t D) (remove1 s L)"
        using zcore_dropsock [OF fi [OF v2] l2] d(2) sD r(2) sr th ch z2(1)
        by (simp add: zlists_def e z3_def zreleased_def z1_def zframe_def)
      moreover have "zslabs c z'" using f(2) ch th x0(1) cl fin y fs z2(1) cs
        by (auto simp: zslabs_def e z3_def zreleased_def z1_def zframe_def zcleared_def card_dom_del)
      ultimately have i': "zinv c ?F z'" using ch z2(1) by (auto simp: zinv_def e z3_def zreleased_def z1_def zframe_def)
      have own: "res_ptr (zt_res q) \<noteq> Some s" if "((z_th z0)(t := None)) r = Some q" for r q
      proof
        assume rq: "res_ptr (zt_res q) = Some s"
        from that have q: "z_th z0 r = Some q" "r \<noteq> t" by (auto split: if_splits)
        have "zt_done q" using ztask_invD [OF p(1) q(1)] rq by (auto simp: ztask_ok_def split: if_splits)
        then have "zown q = Some s" using rq by (simp add: zown_def)
        with w Some q show False by (auto simp: zwins_def)
      qed
      have "zkeep {} ((z_th z0)(t := None)) (z_sh z) ((z_th z0)(t := None)) ((z_sh z)(s := None))"
        by (rule zkeep_dropsock) (rule own)
      from zkeep_trans [OF keep [unfolded if_P [OF True]] this] have "zkeeps {} z0 z'"
        using th z2(1) by (simp add: zkeeps_def e z3_def zreleased_def z1_def zframe_def)
      with i' show ?thesis using True Some th z2(1) by (simp add: e z3_def zreleased_def z1_def zframe_def)
    qed
  qed
  then show "zinv c ?F z'" "zkeeps {} z0 z'" "z_th z' = (z_th z)(t := if zt_detached x then None else Some ?x)"
    "zt_detached x \<longrightarrow> p = None \<Longrightarrow> z_sh z' = z_sh z" "z_wnext z' = z_wnext z" "m_brk z' = m_brk z" by auto
qed


subsection \<open>Cutting a task loose\<close>

lemma zno_slot:
  assumes "zcore F b th sh nx P D K" and "th t = Some x" and "zt_done x \<or> zt_kind x \<noteq> k" and "sh s = Some y"
  shows "zslot k y \<noteq> Some t"
  using zslot_task [OF zcore_parts(2) [OF assms(1)] assms(4), of k t] assms(2,3) by auto

lemma zno_queue:
  assumes "zcore F b th sh nx P D K" and "t \<notin> zwset th s" and "sh s = Some y"
  shows "wq_list nx (zs_wq y) xs \<Longrightarrow> t \<notin> set xs" and "wq_head (zs_wq y) \<noteq> Some t"
proof -
  obtain ys where ys: "wq_list nx (zs_wq y) ys" "set ys = zwset th s" using zwq_list [OF zcore_parts(3) [OF assms(1)] assms(3)] by blast
  then show "wq_list nx (zs_wq y) xs \<Longrightarrow> t \<notin> set xs" using assms(2) wq_list_unique by blast
  show "wq_head (zs_wq y) \<noteq> Some t" using wq_list_head [OF ys(1)] ys(2) assms(2) hd_in_set [of ys] by (auto split: if_splits)
qed

lemma zcleared_id:
  assumes c: "zcore F b th sh nx P D K" and t: "th t = Some x"
    and k: "zt_kind x \<notin> {ZTASK_SOCK_READ, ZTASK_ACCEPT, ZTASK_SOCK_WRITE}"
  shows "zcleared t sh nx sh nx" and "znext t sh sh = {}"
proof -
  have w: "t \<notin> zwset th s" for s using t k by (simp add: zwset_def)
  have "zslot j y \<noteq> Some t" if "sh s = Some y" for s y j
    using zslot_task [OF zcore_parts(2) [OF c] that, of j t] t k by (auto simp: zslot_def split: if_splits)
  moreover have "remove1 t xs = xs" if "sh s = Some y" "wq_list nx (zs_wq y) xs" for s y xs
    using zno_queue(1) [OF c w that] by (simp add: remove1_idem)
  ultimately show "zcleared t sh nx sh nx" by (auto simp: zcleared_def)
  show "znext t sh sh = {}" using zno_queue(2) [OF c w] by (auto simp: znext_def)
qed

lemma zcleared_slot:
  assumes c: "zcore F b th sh nx P D K" and t: "th t = Some x" and k: "zt_kind x = ZTASK_SOCK_READ \<or> zt_kind x = ZTASK_ACCEPT"
    and y: "sh s = Some y" "zslot (zt_kind x) y = Some t"
    and y': "\<And>j. zslot j y' = (if j = zt_kind x then None else zslot j y)" "zs_wq y' = zs_wq y"
  shows "zcleared t sh nx (sh(s \<mapsto> y')) nx" and "znext t sh (sh(s \<mapsto> y')) = {}"
proof -
  note p = zcore_parts [OF c]
  have w: "t \<notin> zwset th s" for s using t k by (auto simp: zwset_def)
  have sx: "zt_sock x = Some s" using zslot_task [OF p(2) y] t by auto
  have so: "s0 = s \<and> j = zt_kind x" if "sh s0 = Some y0" "zslot j y0 = Some t" for s0 y0 j
    using zslot_task [OF p(2) that] t sx by auto
  have r: "remove1 t xs = xs" if "sh s0 = Some y0" "wq_list nx (zs_wq y0) xs" for s0 y0 xs
    using zno_queue(1) [OF c w that] by (simp add: remove1_idem)
  show "zcleared t sh nx (sh(s \<mapsto> y')) nx"
    unfolding zcleared_def
  proof (intro conjI allI impI)
    show "dom (sh(s \<mapsto> y')) = dom sh" using y by auto
    fix s0 y0 y0'
    assume a: "sh s0 = Some y0" "(sh(s \<mapsto> y')) s0 = Some y0'"
    show "zslot j y0' = (if zslot j y0 = Some t then None else zslot j y0)" for j
    proof (cases "s0 = s")
      case True
      with a y(1) have "y0 = y" "y0' = y'" by auto
      moreover have "zslot j y = Some t \<longleftrightarrow> j = zt_kind x" using y so by blast
      ultimately show ?thesis using y'(1) [of j] by presburger
    next
      case False
      then have "zslot j y0 \<noteq> Some t" "y0' = y0" using a so by auto
      then show ?thesis by simp
    qed
    show "wq_list nx (zs_wq y0') (remove1 t xs)" if "wq_list nx (zs_wq y0) xs" for xs
      using a r [OF a(1) that] that y y'(2) by (cases "s0 = s") auto
  qed
  show "znext t sh (sh(s \<mapsto> y')) = {}" using zno_queue(2) [OF c w] by (auto simp: znext_def)
qed

lemma zcleared_queue:
  assumes c: "zcore F b th sh nx P D K" and t: "th t = Some x" "zt_kind x = ZTASK_SOCK_WRITE" "\<not> zt_done x" "zt_sock x = Some s"
    and y: "sh s = Some y" and xs: "wq_list nx (zs_wq y) xs"
    and w: "wq_list nx' w (remove1 t xs)"
    and fr: "\<And>r ys. wq_list nx r ys \<Longrightarrow> set xs \<inter> set ys = {} \<Longrightarrow> t \<notin> set ys \<Longrightarrow> wq_list nx' r ys"
  shows "zcleared t sh nx (sh(s \<mapsto> y\<lparr>zs_wq := w\<rparr>)) nx'"
    and "znext t sh (sh(s \<mapsto> y\<lparr>zs_wq := w\<rparr>)) = (if wq_head (zs_wq y) = Some t then set_option (wq_head w) else {})"
proof -
  note p = zcore_parts [OF c]
  have ms: "set xs = zwset th s" using zwq_list [OF p(3) y] wq_list_unique [OF xs] by blast
  have o: "t \<notin> zwset th s0" if "s0 \<noteq> s" for s0 using t that by (simp add: zwset_def)
  have ns: "zslot j y0 \<noteq> Some t" if "sh s0 = Some y0" for s0 y0 j
    using zslot_task [OF p(2) that, of j t] t by (auto simp: zslot_def split: if_splits)
  show "zcleared t sh nx (sh(s \<mapsto> y\<lparr>zs_wq := w\<rparr>)) nx'"
    unfolding zcleared_def
  proof (intro conjI allI impI)
    show "dom (sh(s \<mapsto> y\<lparr>zs_wq := w\<rparr>)) = dom sh" using y by auto
    fix s0 y0 y0'
    assume a: "sh s0 = Some y0" "(sh(s \<mapsto> y\<lparr>zs_wq := w\<rparr>)) s0 = Some y0'"
    show "zslot j y0' = (if zslot j y0 = Some t then None else zslot j y0)" for j
      using a ns [OF a(1), of j] y by (cases "s0 = s") (auto simp: zslot_def)
    show "wq_list nx' (zs_wq y0') (remove1 t ys)" if ys: "wq_list nx (zs_wq y0) ys" for ys
    proof (cases "s0 = s")
      case True
      with a y ys xs have "ys = xs" by (auto dest: wq_list_unique)
      with True a w show ?thesis by auto
    next
      case False
      have m: "set ys = zwset th s0" using zwq_list [OF p(3) a(1)] wq_list_unique [OF ys] by blast
      then have nt: "t \<notin> set ys" using o [OF False] by simp
      from fr [OF ys _ nt] zwset_disjoint [OF False, of th] m ms have "wq_list nx' (zs_wq y0) ys" by blast
      with False a nt show ?thesis by (simp add: remove1_idem)
    qed
  qed
  show "znext t sh (sh(s \<mapsto> y\<lparr>zs_wq := w\<rparr>)) = (if wq_head (zs_wq y) = Some t then set_option (wq_head w) else {})"
    using y zno_queue(2) [OF c o] by (auto simp: znext_def split: if_splits)
qed

text \<open>The three ways a pending task is cut loose, on a state.\<close>

lemma zcut_plain:
  assumes i: "zinv c F z0" and t: "z_th z0 t = Some x0" "\<not> zt_done x0" "\<not> zt_pushed x0"
      "zt_kind x0 \<notin> {ZTASK_SOCK_READ, ZTASK_ACCEPT, ZTASK_SOCK_WRITE}"
    and x: "zt_kind x = zt_kind x0" "zt_done x = zt_done x0" "zt_pushed x = zt_pushed x0" "zt_detached x = zt_detached x0"
    and f: "zframe (z0\<lparr>z_th := (z_th z0)(t \<mapsto> x)\<rparr>) z"
  shows "zcut z0 t x z" and "znext t (z_sh z0) (z_sh z) = {}"
proof -
  obtain P D L where li: "zlists F z0 P D L" by (rule zinvE [OF i])
  note co = zlists_core [OF li]
  have "t \<notin> set D" using zcore_parts(6) [OF co] t by (simp add: zspawn_inv_def)
  moreover have "D' = D" if "sl_list (z_sdone z0) D'" for D' using li that by (auto simp: zlists_def dest: sl_list_unique)
  ultimately have r: "remove1 t D' = D'" if "sl_list (z_sdone z0) D'" for D' using that by (simp add: remove1_idem)
  note cl = zcleared_id [OF co t(1,4)]
  show "zcut z0 t x z" using t x f cl(1) by (auto simp: zcut_def zframe_def r)
  show "znext t (z_sh z0) (z_sh z) = {}" using cl(2) f by (simp add: zframe_def)
qed

lemma zcut_slot:
  assumes i: "zinv c F z0" and t: "z_th z0 t = Some x" "\<not> zt_done x" "zt_kind x = ZTASK_SOCK_READ \<or> zt_kind x = ZTASK_ACCEPT"
    and y: "z_sh z0 s = Some y" "zslot (zt_kind x) y = Some t"
    and y': "\<And>j. zslot j y' = (if j = zt_kind x then None else zslot j y)" "zs_wq y' = zs_wq y"
    and f: "zframe (z0\<lparr>z_sh := (z_sh z0)(s \<mapsto> y')\<rparr>) z"
  shows "zcut z0 t x z" and "znext t (z_sh z0) (z_sh z) = {}"
proof -
  obtain P D L where li: "zlists F z0 P D L" by (rule zinvE [OF i])
  note co = zlists_core [OF li]
  have "t \<notin> set D" using zcore_parts(6) [OF co] t by (auto simp: zspawn_inv_def)
  moreover have "D' = D" if "sl_list (z_sdone z0) D'" for D' using li that by (auto simp: zlists_def dest: sl_list_unique)
  ultimately have r: "remove1 t D' = D'" if "sl_list (z_sdone z0) D'" for D' using that by (simp add: remove1_idem)
  note cl = zcleared_slot [OF co t(1,3) y y']
  show "zcut z0 t x z" using t f cl(1) by (auto simp: zcut_def zframe_def r)
  show "znext t (z_sh z0) (z_sh z) = {}" using cl(2) f by (simp add: zframe_def)
qed

lemma zcut_queue:
  assumes i: "zinv c F z0" and t: "z_th z0 t = Some x" "zt_kind x = ZTASK_SOCK_WRITE" "\<not> zt_done x" "zt_sock x = Some s"
    and y: "z_sh z0 s = Some y" and xs: "wq_list (z_wnext z0) (zs_wq y) xs" and w: "wq_list nx w (remove1 t xs)"
    and fr: "\<And>r ys. wq_list (z_wnext z0) r ys \<Longrightarrow> set xs \<inter> set ys = {} \<Longrightarrow> t \<notin> set ys \<Longrightarrow> wq_list nx r ys"
    and z: "z = z0\<lparr>z_sh := (z_sh z0)(s \<mapsto> y\<lparr>zs_wq := w\<rparr>), z_wnext := nx\<rparr>"
  shows "zcut z0 t x z"
    and "znext t (z_sh z0) (z_sh z) = (if wq_head (zs_wq y) = Some t then set_option (wq_head w) else {})"
proof -
  obtain P D L where li: "zlists F z0 P D L" by (rule zinvE [OF i])
  note co = zlists_core [OF li]
  have "t \<notin> set D" using zcore_parts(6) [OF co] t by (auto simp: zspawn_inv_def)
  moreover have "D' = D" if "sl_list (z_sdone z0) D'" for D' using li that by (auto simp: zlists_def dest: sl_list_unique)
  ultimately have r: "remove1 t D' = D'" if "sl_list (z_sdone z0) D'" for D' using that by (simp add: remove1_idem)
  note cl = zcleared_queue [OF co t y xs w fr]
  have th: "(z_th z0)(t \<mapsto> x) = z_th z0" using t(1) by auto
  show "zcut z0 t x z" using t cl(1) th by (simp add: zcut_def z r)
  show "znext t (z_sh z0) (z_sh z) = (if wq_head (zs_wq y) = Some t then set_option (wq_head w) else {})"
    using cl(2) by (simp add: z)
qed


lemma znot_work:
  assumes "zinv c F z" and "z_th z t = Some x" and "zt_kind x \<noteq> ZTASK_SPAWN \<or> zt_pushed x \<or> zt_done x"
  shows "t \<notin> work_out (m_trace z)"
proof -
  obtain P D L where "zlists F z P D L" by (rule zinvE [OF assms(1)])
  from zcore_parts(6) [OF zlists_core [OF this]] assms(2,3) show ?thesis by (auto simp: zspawn_inv_def)
qed

lemma zinv_task:
  assumes "zinv c F z" and "z_th z t = Some x"
  shows "ztask_ok F (m_brk z) t x"
proof -
  obtain P D L where "zlists F z P D L" by (rule zinvE [OF assms(1)])
  from ztask_invD [OF zcore_parts(1) [OF zlists_core [OF this]] assms(2)] show ?thesis .
qed

lemma zinv_pushed: "zinv c F z \<Longrightarrow> z_th z t = Some x \<Longrightarrow> zt_pushed x \<Longrightarrow> zt_kind x = ZTASK_SPAWN"
  by (erule zinvE) (auto simp: zspawn_inv_def dest!: zlists_core zcore_parts(6))

text \<open>Completion of a task that has no place on a socket.\<close>

lemma zinv_complete_plain:
  assumes i: "zinv c F z0" and t: "z_th z0 t = Some x0" "\<not> zt_done x0"
      "zt_kind x0 \<notin> {ZTASK_SOCK_READ, ZTASK_ACCEPT, ZTASK_SOCK_WRITE, ZTASK_SPAWN}"
    and x: "zt_kind x = zt_kind x0" "zt_done x = zt_done x0" "zt_pushed x = zt_pushed x0" "zt_detached x = zt_detached x0"
    and f: "zframe (z0\<lparr>z_th := (z_th z0)(t \<mapsto> x)\<rparr>) z"
    and st: "st \<noteq> MYIO_PENDING" and w: "zwins z0 t p" and z': "z' = z_task_complete c os z t st v e p"
  shows "zinv c (F - {t}) z'" and "zkeeps {} z0 z'"
    and "z_th z' = (z_th z0)(t := if zt_detached x0 then None else Some (x\<lparr>zt_res := mk_result st v e p, zt_done := True\<rparr>))"
    and "zt_detached x0 \<longrightarrow> p = None \<Longrightarrow> z_sh z' = z_sh z0" and "m_brk z' = m_brk z0"
proof -
  have "\<not> zt_pushed x0" using zinv_pushed [OF i t(1)] t(3) by auto
  note cut = zcut_plain [OF i t(1,2) this _ x f]
  have k: "zt_kind x0 \<notin> {ZTASK_SOCK_READ, ZTASK_ACCEPT, ZTASK_SOCK_WRITE}" using t(3) by simp
  note co = zinv_complete [OF i cut(1) [OF k] znot_work [OF i t(1)] st w z']
  show "zinv c (F - {t}) z'" "zkeeps {} z0 z'" using co(1,2) cut(2) [OF k] t(3) by auto
  have th: "z_th z = (z_th z0)(t \<mapsto> x)" "z_sh z = z_sh z0" "m_brk z = m_brk z0" using f by (simp_all add: zframe_def)
  show "z_th z' = (z_th z0)(t := if zt_detached x0 then None else Some (x\<lparr>zt_res := mk_result st v e p, zt_done := True\<rparr>))"
    using co(3) t(3) th x(4) by auto
  show "zt_detached x0 \<longrightarrow> p = None \<Longrightarrow> z_sh z' = z_sh z0" using co(4) t(3) th x(4) by auto
  show "m_brk z' = m_brk z0" using co(6) t(3) th by auto
qed

subsection \<open>Files and inline completions\<close>

lemma zinv_inline:
  assumes i: "zinv c F z" and n: "z_task_new c z ZTASK_INLINE = (Some t, z1)" and f: "zframe z1 z2" and st: "st \<noteq> MYIO_PENDING"
  shows "zinv c F (z_task_complete c os z2 t st v e None)"
proof -
  note tn = zinv_task_new(2) [OF i n refl]
  have i1: "zinv c (insert t F) z1" and x: "z_th z1 t = Some (z_task0 ZTASK_INLINE)" and tF: "t \<notin> F" using tn by auto
  have f': "zframe (z1\<lparr>z_th := (z_th z1)(t \<mapsto> z_task0 ZTASK_INLINE)\<rparr>) z2" using f x by (auto simp: zframe_def)
  from zinv_complete_plain(1) [OF i1 x _ _ _ _ _ _ f' st zwins_None refl] have "zinv c (insert t F - {t}) (z_task_complete c os z2 t st v e None)"
    by simp
  then show ?thesis using tF by simp
qed

lemma zinv_new_failed: "zinv c F z \<Longrightarrow> zinv c F (snd (z_task_new_failed c os z err))"
  using zinv_inline [of c F z _ _ _ MYIO_ERROR] zinv_task_new(1) [of c F z ZTASK_INLINE]
  by (auto simp: z_task_new_failed_def z_task_err_def split: prod.splits option.splits)

lemma zinv_fs_result: "zinv c F z \<Longrightarrow> zinv c F (snd (z_fs_result c os z rc v))"
  using zinv_inline [of c F z _ _ _ MYIO_ERROR] zinv_inline [of c F z _ _ _ MYIO_OK] zinv_task_new(1) [of c F z ZTASK_INLINE]
  by (auto simp: z_fs_result_def z_task_err_def z_task_ok_def split: prod.splits option.splits)

lemma zinv_sys: "off_work q \<Longrightarrow> zinv c F z \<Longrightarrow> sys_call os q z = (a, z') \<Longrightarrow> zinv c F z'"
  using zframe_inv sys_call_zframe by blast

lemma zinv_files: "zinv c F z \<Longrightarrow> zinv c F (z\<lparr>z_file_used := (z_file_used z)[i := b]\<rparr>)"
  by (simp add: zinv_def zslabs_def zlists_def)

lemma zinv_open: "zinv c F z \<Longrightarrow> zinv c F (snd (z_open c os z p fl m))"
  by (auto simp: z_open_def Let_def intro!: zinv_new_failed zinv_fs_result zinv_files zinv_sys [of "C_fs_open _ _ _" c F z]
      split: option.splits prod.splits)

lemma zinv_close: "zinv c F z \<Longrightarrow> zinv c F (snd (z_close c os z fd))"
  by (auto simp: z_close_def Let_def intro!: zinv_new_failed zinv_fs_result zinv_files zinv_sys [of "C_fs_close _" c F z]
      split: prod.splits)

lemma zinv_bind:
  assumes "off_work q" and "zinv c F z" and "\<And>a z'. zinv c F z' \<Longrightarrow> zinv c F (snd (g a z'))"
  shows "zinv c F (snd (case sys_call os q z of (a, z') \<Rightarrow> g a z'))"
  using assms zinv_sys [OF assms(1,2)] by (cases "sys_call os q z") auto

lemma zinv_file_rw:
  assumes "zinv c F z" and x: "\<And>f. off_work (xfer f)"
  shows "zinv c F (snd (z_file_rw c os z fd xfer off))"
  unfolding z_file_rw_def Let_def using assms by (auto intro!: zinv_bind zinv_new_failed zinv_fs_result)

lemma zinv_read: "zinv c F z \<Longrightarrow> zinv c F (snd (z_read c os z fd b n off))"
  unfolding z_read_def by (erule zinv_file_rw) simp

lemma zinv_write: "zinv c F z \<Longrightarrow> zinv c F (snd (z_write c os z fd bs off))"
  unfolding z_write_def by (erule zinv_file_rw) simp

subsection \<open>Timers and spawned functions\<close>

lemma zinv_upd:
  assumes i: "zinv c F z" and t: "z_th z t = Some x" and s: "zsame x x'" and f: "zframe (z\<lparr>z_th := (z_th z)(t \<mapsto> x')\<rparr>) z'"
  shows "zinv c F z'" and "zt_detached x' = zt_detached x \<or> t \<in> S \<Longrightarrow> zkeeps S z z'"
proof -
  obtain P D L where fl: "\<not> m_fault z" "zslabs c z" and li: "zlists F z P D L" by (rule zinvE [OF i])
  have "zlists F (z\<lparr>z_th := (z_th z)(t \<mapsto> x')\<rparr>) P D L" using li zcore_upd [OF zlists_core [OF li] t s] by (simp add: zlists_def)
  moreover have "zslabs c (z\<lparr>z_th := (z_th z)(t \<mapsto> x')\<rparr>)" using fl(2) t by (simp add: zslabs_def insert_absorb domI)
  ultimately have "zinv c F (z\<lparr>z_th := (z_th z)(t \<mapsto> x')\<rparr>)" using fl(1) by (auto simp: zinv_def)
  then show "zinv c F z'" using zframe_inv [OF f] by simp
  show "zkeeps S z z'" if "zt_detached x' = zt_detached x \<or> t \<in> S"
    using zkeep_upd [of "z_th z" t x x' S "z_sh z"] t s that f by (simp add: zkeeps_def zframe_def)
qed

lemma zinv_push_pending:
  assumes i: "zinv c F z" and t: "z_th z t = Some x" "t \<in> F" and s: "zsettled (z_th z) (z_sh z) t x"
  shows "zinv c (F - {t}) (z_pending_push z t)" and "z_th (z_pending_push z t) = z_th z" and "z_sh (z_pending_push z t) = z_sh z"
    and "m_trace (z_pending_push z t) = m_trace z"
proof -
  obtain P D L where fl: "\<not> m_fault z" "zslabs c z" and li: "zlists F z P D L" by (rule zinvE [OF i])
  note u = zcore_unfloat [OF zlists_core [OF li] t s]
  have e: "z_pending_push z t = z\<lparr>z_pend := sl_push (z_pend z) t\<rparr>" using t by (simp add: z_pending_push_def zlive)
  have "zlists (F - {t}) (z_pending_push z t) (t # P) D L" using li u by (simp add: zlists_def e sl_push_list)
  then show "zinv c (F - {t}) (z_pending_push z t)" using fl by (auto simp: zinv_def e zslabs_def)
  show "z_th (z_pending_push z t) = z_th z" "z_sh (z_pending_push z t) = z_sh z" "m_trace (z_pending_push z t) = m_trace z"
    by (simp_all add: e)
qed

lemma zinv_sleep:
  assumes i: "zinv c F z" and e: "z_sleep c os z ms = (p, z')"
  shows "zinv c F z'" and "zkeeps S z z'"
    and "p = Some t \<Longrightarrow> z_th z t = None \<and> (\<exists>x. z_th z' t = Some x \<and> \<not> zt_done x \<and> \<not> zt_detached x \<and> zt_res x = result0)"
proof -
  obtain np z1 where n: "z_task_new c z ZTASK_TIMER = (np, z1)" by fastforce
  have "zinv c F z' \<and> zkeeps S z z' \<and>
      (p = Some t \<longrightarrow> z_th z t = None \<and> (\<exists>x. z_th z' t = Some x \<and> \<not> zt_done x \<and> \<not> zt_detached x \<and> zt_res x = result0))" for t
  proof (cases np)
    case None
    with e n zinv_task_new(1) [OF i n] i show ?thesis by (auto simp: z_sleep_def zkeeps_refl)
  next
    case (Some q)
    note tn = zinv_task_new(2) [OF i n Some, of S]
    obtain a z2 where u: "sys_call os C_uptime z1 = (a, z2)" by fastforce
    have f: "zframe z1 z2" by (rule sys_call_zframe [OF _ u]) simp
    let ?x = "(z_task0 ZTASK_TIMER)\<lparr>zt_deadline := c_int64 (a_ret a + c_int64 (int ms))\<rparr>"
    let ?z = "z2\<lparr>z_th := (z_th z2)(q \<mapsto> ?x)\<rparr>"
    have x1: "z_th z1 q = Some (z_task0 ZTASK_TIMER)" and x2: "z_th z2 q = Some (z_task0 ZTASK_TIMER)" using tn f by (auto simp: zframe_def)
    have z': "z' = z_pending_push ?z q" "p = Some q" using e n Some u x2 by (simp_all add: z_sleep_def zlive)
    have f2: "zframe (z1\<lparr>z_th := (z_th z1)(q \<mapsto> ?x)\<rparr>) ?z" using f by (simp add: zframe_def)
    have i1: "zinv c (insert q F) z1" and qF: "q \<notin> F" and fq: "z_th z q = None" and k1: "zkeeps S z z1" using tn by auto
    have sm: "zsame (z_task0 ZTASK_TIMER) ?x" by (simp add: zsame_def)
    note i3 = zinv_upd(1) [OF i1 x1 sm f2]
    have k3: "zkeeps S z1 ?z" by (rule zinv_upd(2) [OF i1 x1 sm f2]) simp
    have pp: "zinv c (insert q F - {q}) z'" "z_th z' = z_th ?z" "z_sh z' = z_sh ?z"
      unfolding z' by (rule zinv_push_pending [OF i3, of q ?x]; simp add: zsettled_def)+
    have "zkeeps S z z'" using zkeeps_trans [OF k1 k3] pp(2,3) by (simp add: zkeeps_def)
    with pp qF fq z'(2) show ?thesis by auto
  qed
  then show "zinv c F z'" "zkeeps S z z'"
    "p = Some t \<Longrightarrow> z_th z t = None \<and> (\<exists>x. z_th z' t = Some x \<and> \<not> zt_done x \<and> \<not> zt_detached x \<and> zt_res x = result0)" by auto
qed


text \<open>What the work-queue thread may change behind the user thread's back.\<close>

definition zrest :: "z_task \<Rightarrow> z_task" where
  "zrest x = x\<lparr>zt_fn_ret := 0, zt_pushed := False\<rparr>"

definition zmild :: "z_io \<Rightarrow> z_io \<Rightarrow> bool" where
  "zmild z z' \<longleftrightarrow> z_sh z' = z_sh z \<and> z_pend z' = z_pend z \<and> m_brk z' = m_brk z \<and> z_wnext z' = z_wnext z \<and>
     (\<forall>t. map_option zrest (z_th z' t) = map_option zrest (z_th z t))"

lemma zmild_refl: "zmild z z"
  by (simp add: zmild_def)

lemma zmild_trans: "zmild z z1 \<Longrightarrow> zmild z1 z2 \<Longrightarrow> zmild z z2"
  by (simp add: zmild_def)

lemma zrest_eq:
  assumes "zrest x' = zrest x"
  shows "zt_kind x' = zt_kind x" "zt_done x' = zt_done x" "zt_detached x' = zt_detached x" "zt_res x' = zt_res x"
    "zt_sock x' = zt_sock x" "zt_off x' = zt_off x" "zt_len x' = zt_len x" "zt_cbuf x' = zt_cbuf x" "zt_deadline x' = zt_deadline x"
  using arg_cong [OF assms, of zt_kind] arg_cong [OF assms, of zt_done] arg_cong [OF assms, of zt_detached]
    arg_cong [OF assms, of zt_res] arg_cong [OF assms, of zt_sock] arg_cong [OF assms, of zt_off] arg_cong [OF assms, of zt_len]
    arg_cong [OF assms, of zt_cbuf] arg_cong [OF assms, of zt_deadline]
  by (simp_all add: zrest_def)

lemma zmild_task:
  assumes "zmild z z'" and "z_th z t = Some x"
  obtains x' where "z_th z' t = Some x'" "zrest x' = zrest x"
proof -
  have "map_option zrest (z_th z' t) = Some (zrest x)" using assms by (simp add: zmild_def)
  with that show ?thesis by auto
qed

lemma zmild_back:
  assumes "zmild z z'" and "z_th z' t = Some x'"
  obtains x where "z_th z t = Some x" "zrest x' = zrest x"
proof -
  have "map_option zrest (z_th z' t) = map_option zrest (z_th z t)" using assms(1) by (simp add: zmild_def)
  with assms(2) that show ?thesis by (cases "z_th z t") auto
qed

lemma zframe_mild:
  assumes "zframe z z'"
  shows "zmild z z'"
proof -
  show ?thesis using assms by (simp add: zframe_def zmild_def)
qed

lemma zinv_turn:
  assumes w: "workq_ok os" and i: "zinv c F z" and u: "sys_call os C_work_turn z = (a, z1)"
    and r: "a_cqe a = Some (Ud_task t, r)" and z': "z' = spawn_work_handler os z1 t"
  shows "zinv c F z'" and "zkeeps S z z'" and "zmild z z'"
proof -
  obtain P D L where fl: "\<not> m_fault z" "zslabs c z" and li: "zlists F z P D L" by (rule zinvE [OF i])
  note co = zlists_core [OF li]
  have a: "a = os (m_trace z) C_work_turn" and z1: "z1 = z\<lparr>m_trace := (C_work_turn, a) # m_trace z\<rparr>"
    using u by (auto simp: sys_call_def Let_def)
  have t: "t \<in> work_out (m_trace z)" using w r a by (auto simp: workq_ok_def)
  then obtain x where x: "z_th z t = Some x" "\<not> zt_done x" "zt_kind x = ZTASK_SPAWN" using zcore_parts(6) [OF co] by (auto simp: zspawn_inv_def)
  obtain b z2 where c2: "sys_call os (C_fn (zt_fn x) (zt_arg x)) z1 = (b, z2)" by fastforce
  have f2: "zframe z1 z2" by (rule sys_call_zframe [OF _ c2]) simp
  let ?x = "x\<lparr>zt_fn_ret := a_ret b, zt_pushed := True\<rparr>"
  define z3 where "z3 = z2\<lparr>z_th := (z_th z)(t \<mapsto> ?x), z_sdone := sl_push (z_sdone z) t\<rparr>"
  have x1: "z_th z1 t = Some x" "z_th z2 t = Some x" "z_th z2 = z_th z" "z_sdone z2 = z_sdone z" using x z1 f2 by (auto simp: zframe_def)
  obtain d z4 where c4: "sys_call os (C_eventfd_write (z_evfd z3)) z3 = (d, z4)" by fastforce
  have "z' = z4" using x1 c2 c4 unfolding z' spawn_work_handler_def by (simp add: zlive z3_def)
  moreover have f4: "zframe z3 z4" by (rule sys_call_zframe [OF _ c4]) simp
  ultimately have f: "zframe z3 z'" by simp
  note h = zcore_handler(1) [OF co x(1) t, of "a_ret b"] zcore_handler(2) [OF co x(1) t]
  have k: "work_out (m_trace z1) = work_out (m_trace z) - {t}" using z1 r by simp
  have s3: "z_pend z3 = z_pend z" "z_socks z3 = z_socks z" "z_sh z3 = z_sh z" "z_wnext z3 = z_wnext z" "m_brk z3 = m_brk z"
    "m_fault z3 = m_fault z" "z_ntask z3 = z_ntask z" "z_nsock z3 = z_nsock z" "z_file_used z3 = z_file_used z"
    "work_out (m_trace z3) = work_out (m_trace z) - {t}" "z_th z3 = (z_th z)(t \<mapsto> ?x)" "z_sdone z3 = sl_push (z_sdone z) t"
    using f2 k by (simp_all add: z3_def z1 zframe_def)
  have "zlists F z3 P (t # D) L" using li h by (simp add: zlists_def s3 sl_push_list)
  moreover have "zslabs c z3" using fl(2) x(1) by (simp add: zslabs_def s3 insert_absorb domI)
  ultimately have "zinv c F z3" using fl(1) s3 by (auto simp: zinv_def)
  then show "zinv c F z'" using zframe_inv [OF f] by simp
  have "zx ?x = zx x" by (simp add: zx_def)
  then have "zkeep S (z_th z) (z_sh z) ((z_th z)(t \<mapsto> ?x)) (z_sh z)" by (intro zkeep_task [of "z_th z" t x]) (use x(1) in auto)
  then show "zkeeps S z z'" using f s3 by (simp add: zkeeps_def zframe_def)
  have "zmild z z3" using x(1) by (simp add: zmild_def s3 zrest_def)
  then show "zmild z z'" using zmild_trans zframe_mild [OF f] by blast
qed

lemma zinv_turns:
  assumes w: "workq_ok os"
  shows "zinv c F z \<Longrightarrow> zinv c F (z_turns os n z) \<and> zkeeps S z (z_turns os n z) \<and> zmild z (z_turns os n z)"
proof (induction n arbitrary: z)
  case 0
  then show ?case by (simp add: zkeeps_refl zmild_refl)
next
  case (Suc n)
  obtain a z1 where u: "sys_call os C_work_turn z = (a, z1)" by fastforce
  show ?case
  proof (cases "\<exists>t r. a_cqe a = Some (Ud_task t, r)")
    case True
    then obtain t r where r: "a_cqe a = Some (Ud_task t, r)" by blast
    note t = zinv_turn [OF w Suc.prems u r refl]
    have "z_turns os (Suc n) z = z_turns os n (spawn_work_handler os z1 t)" using u r by simp
    with Suc.IH [OF t(1)] t(2,3) show ?thesis by (metis zkeeps_trans zmild_trans)
  next
    case False
    then have e: "z_turns os (Suc n) z = z1" using u by (auto split: option.splits udata.splits)
    have "z1 = z\<lparr>m_trace := (C_work_turn, a) # m_trace z\<rparr>" using u by (auto simp: sys_call_def Let_def)
    moreover have "work_out ((C_work_turn, a) # m_trace z) = work_out (m_trace z)" using False by (auto split: option.splits udata.splits)
    ultimately have f: "zframe z z1" by (simp add: zframe_def)
    then show ?thesis using e Suc.prems zframe_inv [OF f] zframe_keeps [OF f] zframe_mild [OF f] by simp
  qed
qed

lemma zinv_others:
  assumes "workq_ok os" and "zinv c F z" and "z' = z_others c os z"
  shows "zinv c F z'" and "zkeeps S z z'" and "zmild z z'"
  using zinv_turns [OF assms(1,2)] assms(2,3) by (auto simp: z_others_def zkeeps_refl zmild_refl)

lemma zinv_spawn:
  assumes i: "zinv c F z"
  shows "zinv c F (snd (z_spawn c os z fn arg))"
proof (cases "cfg_spawn_inline c")
  case True
  obtain np z1 where n: "z_task_new c z ZTASK_INLINE = (np, z1)" by fastforce
  show ?thesis
  proof (cases np)
    case None
    with True n zinv_task_new(1) [OF i n] i show ?thesis by (simp add: z_spawn_def)
  next
    case (Some t)
    obtain a z2 where u: "sys_call os (C_fn fn arg) z1 = (a, z2)" by fastforce
    have f: "zframe z1 z2" by (rule sys_call_zframe [OF _ u]) simp
    from True n u Some zinv_inline [OF i n [unfolded Some] f] show ?thesis by (simp add: z_spawn_def Let_def z_task_ok_def z_task_err_def)
  qed
next
  case False
  obtain np z1 where n: "z_task_new c z ZTASK_SPAWN = (np, z1)" by fastforce
  show ?thesis
  proof (cases np)
    case None
    with False n zinv_task_new(1) [OF i n] i show ?thesis by (simp add: z_spawn_def)
  next
    case (Some t)
    note tn = zinv_task_new(2) [OF i n Some]
    have i1: "zinv c (insert t F) z1" and x1: "z_th z1 t = Some (z_task0 ZTASK_SPAWN)" and tF: "t \<notin> F" using tn by auto
    let ?x = "(z_task0 ZTASK_SPAWN)\<lparr>zt_fn := fn, zt_arg := arg\<rparr>"
    let ?z = "z1\<lparr>z_th := (z_th z1)(t \<mapsto> ?x)\<rparr>"
    have i2: "zinv c (insert t F) ?z" by (rule zinv_upd(1) [OF i1 x1 _ zframe_refl]) (simp add: zsame_def)
    define w where "w = z_pending_push ?z t"
    have pp: "zinv c (insert t F - {t}) w" "z_th w = z_th ?z" unfolding w_def by (rule zinv_push_pending [OF i2, of t ?x]; simp add: zsettled_def)+
    obtain a z4 where u: "sys_call os (C_work_submit t) w = (a, z4)" by fastforce
    have z4: "z4 = w\<lparr>m_trace := (C_work_submit t, a) # m_trace w\<rparr>" using u by (auto simp: sys_call_def Let_def)
    have e: "snd (z_spawn c os z fn arg) = z4" using False n Some u x1 by (simp add: z_spawn_def zlive w_def)
    have iw: "zinv c F w" using pp(1) tF by simp
    then obtain P D L where fl: "\<not> m_fault w" "zslabs c w" and li: "zlists F w P D L" by (rule zinvE)
    have tx: "z_th w t = Some ?x" using pp(2) by simp
    have "zcore F (m_brk w) (z_th w) (z_sh w) (z_wnext w) P D (insert t (work_out (m_trace w)))"
      by (rule zcore_submit [OF zlists_core [OF li] tx]) simp_all
    then have "zlists F z4 P D L" using li by (simp add: zlists_def z4)
    then show ?thesis using fl unfolding e by (auto simp: zinv_def z4 zslabs_def)
  qed
qed

text \<open>The harvest: what it completes was finished, and it empties the list within its bound.\<close>

lemma zinv_harvest:
  assumes i: "zinv c F z" and h: "sl_head (z_sdone z) = Some t"
    and z1: "z1 = z\<lparr>z_sdone := (z_sdone z)\<lparr>sl_head := sl_next (z_sdone z) t\<rparr>\<rparr>"
    and st: "st \<noteq> MYIO_PENDING" and z': "z' = z_task_complete c os z1 t st v e None"
  obtains x where "z_th z t = Some x" "\<not> zt_done x" "zt_kind x = ZTASK_SPAWN" "t \<notin> F \<Longrightarrow> zinv c F z'" "zkeeps {} z z'" "m_brk z' = m_brk z"
    "z_th z' = (z_th z)(t := if zt_detached x then None else Some (x\<lparr>zt_res := mk_result st v e None, zt_done := True\<rparr>))"
    "z_sh z' = z_sh z"
proof -
  obtain P D L where fl: "\<not> m_fault z" "zslabs c z" and li: "zlists F z P D L" by (rule zinvE [OF i])
  note co = zlists_core [OF li] and sD = li [unfolded zlists_def, THEN conjunct2, THEN conjunct1]
  obtain D' where D: "D = t # D'" using sl_list_head [OF sD] h by (cases D) auto
  then have "t \<in> set D" by simp
  then obtain x where x: "z_th z t = Some x" "\<not> zt_done x" "zt_pushed x" "zt_kind x = ZTASK_SPAWN"
    using zcore_parts(6) [OF co] by (auto simp: zspawn_inv_def)
  have k: "zt_kind x \<notin> {ZTASK_SOCK_READ, ZTASK_ACCEPT, ZTASK_SOCK_WRITE}" using x(4) by simp
  note cl = zcleared_id [OF co x(1) k]
  have d1: "sl_list (z_sdone z1) (remove1 t E)" if "sl_list (z_sdone z) E" for E
  proof -
    have "E = t # D'" using sl_list_unique [OF that sD] D by simp
    with that show ?thesis by (simp add: z1 sl_list_def)
  qed
  have cut: "zcut z t x z1" using x cl(1) d1 by (auto simp: zcut_def z1)
  note nw = znot_work [OF i x(1) disjI2 [OF disjI1 [OF x(3)]]]
  note co = zinv_complete [OF i cut nw st zwins_None z']
  show ?thesis
    by (rule that [OF x(1,2,4)]) (use co cl(2) in \<open>auto simp: z1\<close>)
qed


end
