(* ===== verification/Myio_Zephyr_Ops.thy ===== *)
theory Myio_Zephyr_Ops
  imports Myio_Zephyr_Inv
begin

text \<open>
  The socket operations of the Zephyr backend keep its invariant: connecting, accepting,
  reading, writing in queue order, closing.
\<close>

subsection \<open>The harvest loop\<close>

definition zspawns :: "z_io \<Rightarrow> addr set" where
  "zspawns z = {t. \<exists>x. z_th z t = Some x \<and> \<not> zt_done x \<and> zt_kind x = ZTASK_SPAWN}"

lemma zinv_below: "zinv c F z \<Longrightarrow> dom (z_th z) \<subseteq> {..<m_brk z}"
  using zinv_task by (fastforce simp: ztask_ok_def)

lemma zinv_finite: "zinv c F z \<Longrightarrow> finite (dom (z_th z))"
  by (rule finite_subset [OF zinv_below]) auto

lemma zspawns_dom: "zspawns z \<subseteq> dom (z_th z)"
  by (auto simp: zspawns_def)

lemma zspawns_finite: "zinv c F z \<Longrightarrow> finite (zspawns z)"
  by (rule finite_subset [OF zspawns_dom zinv_finite])

lemma zspawns_bound: "zinv c F z \<Longrightarrow> card (zspawns z) \<le> m_brk z"
  using card_mono [OF _ subset_trans [OF zspawns_dom zinv_below]] by force

lemma zmild_spawns:
  assumes "zmild z z'"
  shows "zspawns z' = zspawns z"
proof -
  have "(\<exists>x. z_th z' t = Some x \<and> \<not> zt_done x \<and> zt_kind x = ZTASK_SPAWN) \<longleftrightarrow>
      (\<exists>x. z_th z t = Some x \<and> \<not> zt_done x \<and> zt_kind x = ZTASK_SPAWN)" for t
  proof (cases "z_th z t")
    case None
    then have "z_th z' t = None" using assms by (simp add: zmild_def) (metis map_option_is_None)
    with None show ?thesis by simp
  next
    case (Some x)
    obtain x' where "z_th z' t = Some x'" "zrest x' = zrest x" by (rule zmild_task [OF assms Some])
    with Some zrest_eq(1,2) [of x' x] show ?thesis by simp
  qed
  then show ?thesis by (simp add: zspawns_def)
qed

lemma zinv_drain:
  assumes w: "workq_ok os"
  shows "zinv c {} z \<Longrightarrow> card (zspawns z) < n \<Longrightarrow> zinv c {} (z_drain c os n z) \<and> zkeeps {} z (z_drain c os n z)"
proof (induction n arbitrary: z)
  case (Suc n)
  define z1 where "z1 = z_others c os z"
  note o = zinv_others [OF w Suc.prems(1) z1_def]
  show ?case
  proof (cases "sl_head (z_sdone z1)")
    case None
    with o show ?thesis by (simp add: z1_def [symmetric])
  next
    case (Some t)
    define z2 where "z2 = z1\<lparr>z_sdone := (z_sdone z1)\<lparr>sl_head := sl_next (z_sdone z1) t\<rparr>\<rparr>"
    define z3 where "z3 = (if zt_fn_ret (zt z2 t) \<ge> 0 then z_task_ok c os z2 t (zt_fn_ret (zt z2 t)) None
      else z_task_err c os z2 t (c_int (- zt_fn_ret (zt z2 t))))"
    obtain st v e where z3: "z3 = z_task_complete c os z2 t st v e None" "st \<noteq> MYIO_PENDING"
      by (cases "zt_fn_ret (zt z2 t) \<ge> 0") (simp_all add: z3_def z_task_ok_def z_task_err_def)
    obtain x where x: "z_th z1 t = Some x" "\<not> zt_done x" "zt_kind x = ZTASK_SPAWN" "zinv c {} z3" "zkeeps {} z1 z3"
      "z_th z3 = (z_th z1)(t := if zt_detached x then None else Some (x\<lparr>zt_res := mk_result st v e None, zt_done := True\<rparr>))"
      by (rule zinv_harvest [OF o(1) Some z2_def z3(2,1)]) auto
    have "zspawns z3 = zspawns z1 - {t}" "t \<in> zspawns z1" using x by (auto simp: zspawns_def)
    moreover have "finite (zspawns z1)" by (rule zspawns_finite [OF o(1)])
    ultimately have "card (zspawns z3) < card (zspawns z1)" by (simp add: card_Diff1_less del: card_Diff_insert)
    then have "card (zspawns z3) < n" using Suc.prems(2) zmild_spawns [OF o(3)] by simp
    from Suc.IH [OF x(4) this] have "zinv c {} (z_drain c os n z3) \<and> zkeeps {} z (z_drain c os n z3)"
      using zkeeps_trans [OF o(2) zkeeps_trans [OF x(5)]] by blast
    moreover have "z_drain c os (Suc n) z = z_drain c os n z3"
      using Some x(1) by (simp add: z1_def [symmetric] zlive Let_def z2_def [symmetric] z3_def)
    ultimately show ?thesis by simp
  qed
qed simp

lemma zinv_drain_spawn_done:
  assumes "workq_ok os" and "zinv c {} z" and "z' = drain_spawn_done c os z"
  shows "zinv c {} z'" and "zkeeps {} z z'"
  using zinv_drain [OF assms(1,2), of "Suc (m_brk z)"] zspawns_bound [OF assms(2)] assms(3)
  by (auto simp: drain_spawn_done_def)

subsection \<open>Connecting\<close>

text \<open>A completion without a socket and a release do not get into each other's way.\<close>

lemma z_complete_None_eq:
  assumes "sl_list (z_pend z) P" and "z_th z t = Some x" and "zt_kind x \<noteq> ZTASK_SPAWN" and "z_ntask z \<noteq> 0"
  obtains d where "\<And>z'. z_pend z' = z_pend z \<Longrightarrow> z_th z' = z_th z \<Longrightarrow> z_ntask z' = z_ntask z \<Longrightarrow>
    z_task_complete c os z' t st v e None = z'\<lparr>z_pend := d,
      z_th := (z_th z)(t := if zt_detached x then None else Some (x\<lparr>zt_res := mk_result st v e None, zt_done := True\<rparr>)),
      z_ntask := if zt_detached x then z_ntask z - 1 else z_ntask z\<rparr>"
proof -
  obtain d0 where d0: "sl_remove (z_pend z) t = Some (t \<in> set P, d0)" using sl_remove_list [OF assms(1)] by blast
  define d where "d = (if t \<in> set P then d0\<lparr>sl_next := (sl_next d0)(t := None)\<rparr> else d0)"
  show ?thesis
  proof (rule that [of d])
    fix z' :: z_io
    assume "z_pend z' = z_pend z" "z_th z' = z_th z" "z_ntask z' = z_ntask z"
    then show "z_task_complete c os z' t st v e None = z'\<lparr>z_pend := d,
      z_th := (z_th z)(t := if zt_detached x then None else Some (x\<lparr>zt_res := mk_result st v e None, zt_done := True\<rparr>)),
      z_ntask := if zt_detached x then z_ntask z - 1 else z_ntask z\<rparr>"
      using assms(2-4) d0
      by (cases "zt_detached x") (simp_all add: z_task_complete_def z_pending_remove_def d_def zlive Let_def z_task_reap_def
        z_task_free_mem_def free_zt_def)
  qed
qed

lemma z_sock_release_det:
  assumes "sl_list (z_socks z) L" and "z_sh z s = Some y" and "z_nsock z \<noteq> 0"
  obtains d a e where "\<And>z'. z_socks z' = z_socks z \<Longrightarrow> z_sh z' = z_sh z \<Longrightarrow> z_nsock z' = z_nsock z \<Longrightarrow>
    m_trace z' = m_trace z \<Longrightarrow> z_errno z' = z_errno z \<Longrightarrow>
    z_sock_release os z' s = zreleased z' s d ((C_close (zs_fd y), a) # m_trace z) e"
proof -
  obtain d where d: "sl_remove (z_socks z) s = Some (s \<in> set L, d)" using sl_remove_list [OF assms(1)] by blast
  define a where "a = os (m_trace z) (C_close (zs_fd y))"
  show ?thesis
    by (rule that [of d a "if a_ret a < 0 then a_errno a else z_errno z"])
      (use assms(2,3) d in \<open>simp add: z_sock_release_def zlive zs_def z_call_def sys_call_def Let_def free_zs_def chk_zs_def
        zreleased_def a_def\<close>)
qed

lemma z_release_complete:
  assumes i: "zinv c F z" and t: "z_th z t = Some x" "zt_kind x \<noteq> ZTASK_SPAWN" and s: "z_sh z s = Some y"
    and z1: "z1 = z\<lparr>z_th := (z_th z)(t \<mapsto> x')\<rparr>" "zt_kind x' = zt_kind x"
  shows "z_task_complete c os (z_sock_release os z1 s) t st v e None = z_sock_release os (z_task_complete c os z1 t st v e None) s"
proof -
  obtain P D L where f: "zslabs c z" and li: "zlists F z P D L" by (rule zinvE [OF i])
  note fin = zcore_finite [OF zlists_core [OF li]]
  have n: "z_ntask z1 \<noteq> 0" "z_nsock z1 \<noteq> 0" using f t s fin by (auto simp: zslabs_def z1)
  have l: "sl_list (z_pend z1) P" "sl_list (z_socks z1) L" "z_th z1 t = Some x'" "zt_kind x' \<noteq> ZTASK_SPAWN" "z_sh z1 s = Some y"
    using li t s by (simp_all add: zlists_def z1)
  obtain d where d: "\<And>z'. z_pend z' = z_pend z1 \<Longrightarrow> z_th z' = z_th z1 \<Longrightarrow> z_ntask z' = z_ntask z1 \<Longrightarrow>
    z_task_complete c os z' t st v e None = z'\<lparr>z_pend := d,
      z_th := (z_th z1)(t := if zt_detached x' then None else Some (x'\<lparr>zt_res := mk_result st v e None, zt_done := True\<rparr>)),
      z_ntask := if zt_detached x' then z_ntask z1 - 1 else z_ntask z1\<rparr>"
    by (rule z_complete_None_eq [OF l(1,3,4) n(1)]) blast
  obtain d2 a er where r: "\<And>z'. z_socks z' = z_socks z1 \<Longrightarrow> z_sh z' = z_sh z1 \<Longrightarrow> z_nsock z' = z_nsock z1 \<Longrightarrow>
    m_trace z' = m_trace z1 \<Longrightarrow> z_errno z' = z_errno z1 \<Longrightarrow>
    z_sock_release os z' s = zreleased z' s d2 ((C_close (zs_fd y), a) # m_trace z1) er"
    by (rule z_sock_release_det [OF l(2,5) n(2)]) blast
  define th' where "th' = (z_th z1)(t := if zt_detached x' then None else Some (x'\<lparr>zt_res := mk_result st v e None, zt_done := True\<rparr>))"
  define n' where "n' = (if zt_detached x' then z_ntask z1 - 1 else z_ntask z1)"
  note d' = d [folded th'_def n'_def]
  have "z_task_complete c os z1 t st v e None = z1\<lparr>z_pend := d, z_th := th', z_ntask := n'\<rparr>" by (rule d') simp_all
  moreover have "z_sock_release os (z1\<lparr>z_pend := d, z_th := th', z_ntask := n'\<rparr>) s =
      zreleased (z1\<lparr>z_pend := d, z_th := th', z_ntask := n'\<rparr>) s d2 ((C_close (zs_fd y), a) # m_trace z1) er" by (rule r) simp_all
  moreover have "z_sock_release os z1 s = zreleased z1 s d2 ((C_close (zs_fd y), a) # m_trace z1) er" by (rule r) simp_all
  moreover have "z_task_complete c os (zreleased z1 s d2 ((C_close (zs_fd y), a) # m_trace z1) er) t st v e None =
      (zreleased z1 s d2 ((C_close (zs_fd y), a) # m_trace z1) er)\<lparr>z_pend := d, z_th := th', z_ntask := n'\<rparr>"
    by (rule d') (simp_all add: zreleased_def)
  ultimately show ?thesis by (simp add: zreleased_def)
qed

lemma zinv_sole:
  assumes "zinv c F z" and "z_th z t = Some x" and "zown x = Some s" and "z_th z q = Some x'" and "q \<noteq> t"
  shows "zown x' \<noteq> Some s"
proof -
  obtain P D L where "zlists F z P D L" by (rule zinvE [OF assms(1)])
  from zown_inj [OF zcore_parts(5) [OF zlists_core [OF this]], of t x q x' s] assms(2-5) show ?thesis by auto
qed

lemma zres_own: "zinv c F z \<Longrightarrow> z_th z q = Some x \<Longrightarrow> res_ptr (zt_res x) = Some s \<Longrightarrow> zown x = Some s"
  using zinv_task [of c F z q x] by (auto simp: ztask_ok_def zown_def split: if_splits)

lemma zinv_building:
  assumes i: "zinv c F z" and t: "z_th z t = Some x" "\<not> zt_done x" "zt_kind x = ZTASK_CONNECT" "zt_sock x = Some s"
  shows "\<exists>y. z_sh z s = Some y \<and> zquiet y" and "zwins z t (Some s)"
proof -
  obtain P D L where li: "zlists F z P D L" by (rule zinvE [OF i])
  have x: "zx x = Some s" using t by (simp add: zx_def)
  show y: "\<exists>y. z_sh z s = Some y \<and> zquiet y" by (rule zx_live [OF zcore_parts(4) [OF zlists_core [OF li]] t(1) x])
  show "zwins z t (Some s)" using y zinv_sole [OF i t(1) zx_own [OF x]] by (auto simp: zwins_def)
qed

lemma zinv_connect_end:
  assumes i: "zinv c F z" and t: "z_th z t = Some x" "\<not> zt_done x" "zt_kind x = ZTASK_CONNECT" "zt_sock x = Some s"
    and f: "zframe (z\<lparr>z_th := (z_th z)(t \<mapsto> x\<lparr>zt_sock := None\<rparr>)\<rparr>) z1" and st: "st \<noteq> MYIO_PENDING"
  shows "zinv c (F - {t}) (z_task_complete c os z1 t st v e (Some s))" and "zkeeps {} z (z_task_complete c os z1 t st v e (Some s))"
    and "z' = z_sock_release os (z_task_complete c os z1 t st v e None) s \<Longrightarrow> zinv c (F - {t}) z'"
    and "z' = z_sock_release os (z_task_complete c os z1 t st v e None) s \<Longrightarrow> zkeeps {} z z'"
    and "z' = z_sock_release os (z_task_complete c os z1 t st v e None) s \<Longrightarrow>
      z_th z' = (z_th z)(t := if zt_detached x then None else Some (x\<lparr>zt_sock := None, zt_res := mk_result st v e None, zt_done := True\<rparr>))"
proof -
  note b = zinv_building [OF i t]
  have k: "zt_kind x \<notin> {ZTASK_SOCK_READ, ZTASK_ACCEPT, ZTASK_SOCK_WRITE, ZTASK_SPAWN}" using t(3) by simp
  note cp = zinv_complete_plain [OF i t(1,2) k _ _ _ _ f st, of]
  show "zinv c (F - {t}) (z_task_complete c os z1 t st v e (Some s))" "zkeeps {} z (z_task_complete c os z1 t st v e (Some s))"
    by (rule cp(1) [OF _ _ _ _ b(2) refl] cp(2) [OF _ _ _ _ b(2) refl]; simp)+
  define w where "w = z_task_complete c os z1 t st v e None"
  have w: "zinv c (F - {t}) w" "zkeeps {} z w"
    "z_th w = (z_th z)(t := if zt_detached x then None else Some (x\<lparr>zt_sock := None, zt_res := mk_result st v e None, zt_done := True\<rparr>))"
    "z_sh w = z_sh z"
    using cp(1) [OF _ _ _ _ zwins_None w_def] cp(2) [OF _ _ _ _ zwins_None w_def] cp(3) [OF _ _ _ _ zwins_None w_def]
      cp(4) [OF _ _ _ _ zwins_None w_def] by simp_all
  have o: "zown x' \<noteq> Some s" if "z_th w q = Some x'" for q x'
    using that w(3) b(2) by (auto simp: zwins_def zown_def split: if_splits)
  have l: "zloose (z_th w) (z_sh w) s" using b(1) w(4) o zx_own by (auto simp: zloose_def)
  assume z': "z' = z_sock_release os (z_task_complete c os z1 t st v e None) s"
  note r = zinv_release [OF w(1) l z' [folded w_def]]
  show "zinv c (F - {t}) z'" by (rule r(1))
  have "zkeeps {} w z'" by (rule r(5)) (use o zres_own [OF w(1)] in blast)
  with w(2) show "zkeeps {} z z'" by (rule zkeeps_trans)
  show "z_th z' = (z_th z)(t := if zt_detached x then None else Some (x\<lparr>zt_sock := None, zt_res := mk_result st v e None, zt_done := True\<rparr>))"
    using r(2) w(3) by simp
qed

lemma zinv_connect_ready:
  assumes i: "zinv c F z" and t: "z_th z t = Some x" "\<not> zt_done x" "zt_kind x = ZTASK_CONNECT" "t \<notin> F"
    and z': "z' = z_connect_ready c os z t"
  shows "zinv c F z'" and "zkeeps {} z z'"
proof -
  obtain s where s: "zt_sock x = Some s" using zinv_task [OF i t(1)] t by (auto simp: ztask_ok_def)
  note b = zinv_building [OF i t(1-3) s]
  obtain y where y: "z_sh z s = Some y" using b(1) by blast
  obtain a z1 where u: "z_call os (C_getsockopt_error (zs_fd y)) z = (a, z1)" by fastforce
  have f: "zframe z z1" by (rule z_call_zframe [OF _ u]) simp
  have t1: "z_th z1 t = Some x" using f t(1) by (simp add: zframe_def)
  define z2 where "z2 = z1\<lparr>z_th := (z_th z1)(t \<mapsto> x\<lparr>zt_sock := None\<rparr>)\<rparr>"
  have f2: "zframe (z\<lparr>z_th := (z_th z)(t \<mapsto> x\<lparr>zt_sock := None\<rparr>)\<rparr>) z2" using f by (simp add: zframe_def z2_def)
  have i1: "zinv c F z1" using i zframe_inv [OF f] by simp
  have Ft: "F - {t} = F" using t(4) by simp
  define er where "er = (if a_ret a < 0 then z_errno z1 else fst (a_rem a))"
  have e: "z' = (if er = 0 then z_task_ok c os z2 t 0 (Some s) else z_task_err c os (z_sock_release os z2 s) t er)"
    using t(1) s y u t1 by (simp add: z' z_connect_ready_def zlive z2_def er_def Let_def)
  have y1: "z_sh z1 s = Some y" using f y by (simp add: zframe_def)
  have "zinv c F z' \<and> zkeeps {} z z'"
  proof (cases "er = 0")
    case True
    with e zinv_connect_end(1,2) [OF i t(1-3) s f2, of MYIO_OK os 0 0] Ft show ?thesis by (simp add: z_task_ok_def)
  next
    case False
    have "z' = z_sock_release os (z_task_complete c os z2 t MYIO_ERROR 0 er None) s"
      using e False z_release_complete [OF i1 t1 _ y1 z2_def, of os MYIO_ERROR 0 er] t(3) by (simp add: z_task_err_def)
    with zinv_connect_end(3,4) [OF i t(1-3) s f2, of MYIO_ERROR z' os 0 er] Ft show ?thesis by simp
  qed
  then show "zinv c F z'" "zkeeps {} z z'" by auto
qed

text \<open>A connect task gets a socket that is nobody's.\<close>

lemma zinv_connect_sock:
  assumes i: "zinv c F z" and t: "z_th z t = Some x" "t \<in> F" "zt_kind x = ZTASK_CONNECT"
    and l: "zloose (z_th z) (z_sh z) s" and o: "\<And>q x. z_th z q = Some x \<Longrightarrow> zown x \<noteq> Some s"
  shows "zinv c F (z\<lparr>z_th := (z_th z)(t \<mapsto> x\<lparr>zt_sock := Some s\<rparr>)\<rparr>)"
proof -
  obtain P D L where fl: "\<not> m_fault z" "zslabs c z" and li: "zlists F z P D L" by (rule zinvE [OF i])
  have "zsame (x\<lparr>zt_sock := Some s\<rparr>) (x\<lparr>zt_sock := Some s\<rparr>)" by (simp add: zsame_def)
  from zcore_connect [OF zlists_core [OF li] t this l o]
  have "zlists F (z\<lparr>z_th := (z_th z)(t \<mapsto> x\<lparr>zt_sock := Some s\<rparr>)\<rparr>) P D L" using li by (simp add: zlists_def)
  moreover have "zslabs c (z\<lparr>z_th := (z_th z)(t \<mapsto> x\<lparr>zt_sock := Some s\<rparr>)\<rparr>)" using fl(2) t by (simp add: zslabs_def insert_absorb domI)
  ultimately show ?thesis using fl(1) by (auto simp: zinv_def)
qed

text \<open>Completing a new connect task, with or without the socket it made.\<close>

lemma zinv_connect_new:
  assumes i: "zinv c F z" and t: "z_th z t = Some (z_task0 ZTASK_CONNECT)" and f: "zframe z z1" and st: "st \<noteq> MYIO_PENDING" and w: "zwins z t p"
  shows "zinv c (F - {t}) (z_task_complete c os z1 t st v e p)"
proof -
  have "zframe (z\<lparr>z_th := (z_th z)(t \<mapsto> z_task0 ZTASK_CONNECT)\<rparr>) z1" using f t by (auto simp: zframe_def)
  from zinv_complete_plain(1) [OF i t _ _ _ _ _ _ this st w refl] show ?thesis by simp
qed

lemma zinv_connect_start:
  assumes i: "zinv c (insert t F) z" and tF: "t \<notin> F" and t: "z_th z t = Some (z_task0 ZTASK_CONNECT)"
    and n: "z_sock_new c z fd = (Some s, z1)"
    and r: "z_call os (C_connect fd ad) (upd_zt t (\<lambda>x. x\<lparr>zt_sock := Some s\<rparr>) z1) = (r, z2)"
    and z': "z' = (if a_ret r = 0 then z_task_ok c os (upd_zt t (\<lambda>x. x\<lparr>zt_sock := None\<rparr>) z2) t 0 (Some s)
      else if z_errno z2 = EINPROGRESS then z_pending_push z2 t
      else let z = upd_zt t (\<lambda>x. x\<lparr>zt_sock := None\<rparr>) z2; z = z_sock_release os z s in z_task_err c os z t (z_errno z))"
  shows "zinv c F z'"
proof -
  note sn = zinv_sock_new(2) [OF i n refl, of "{}"]
  have i1: "zinv c (insert t F) z1" and l1: "zloose (z_th z1) (z_sh z1) s" using sn by blast+
  have t1: "z_th z1 t = Some (z_task0 ZTASK_CONNECT)" and o1: "\<And>q x. z_th z1 q = Some x \<Longrightarrow> zown x \<noteq> Some s" using sn t by auto
  let ?x = "(z_task0 ZTASK_CONNECT)\<lparr>zt_sock := Some s\<rparr>"
  define w where "w = z1\<lparr>z_th := (z_th z1)(t \<mapsto> ?x)\<rparr>"
  have r': "z_call os (C_connect fd ad) w = (r, z2)" using r t1 by (simp add: zlive w_def)
  have f2: "zframe w z2" by (rule z_call_zframe [OF _ r']) simp
  have t2: "z_th z2 t = Some ?x" using f2 by (simp add: zframe_def w_def)
  define z3 where "z3 = upd_zt t (\<lambda>x. x\<lparr>zt_sock := None\<rparr>) z2"
  have e0: "(z_task0 ZTASK_CONNECT)\<lparr>zt_sock := None\<rparr> = z_task0 ZTASK_CONNECT" by (simp add: z_task0_def)
  have f3: "zframe z1 z3" using f2 t1 t2 by (auto simp: z3_def zlive zframe_def w_def e0)
  have Ft: "insert t F - {t} = F" using tF by simp
  have wi: "zwins z1 t (Some s)" using l1 o1 by (auto simp: zwins_def zloose_def)
  consider "a_ret r = 0" | "a_ret r \<noteq> 0" "z_errno z2 = EINPROGRESS" | "a_ret r \<noteq> 0" "z_errno z2 \<noteq> EINPROGRESS" by blast
  then show ?thesis
  proof cases
    case 1
    with z' zinv_connect_new [OF i1 t1 f3 _ wi, of MYIO_OK os 0 0] Ft show ?thesis by (simp add: z3_def [symmetric] z_task_ok_def)
  next
    case 2
    have iw: "zinv c (insert t F) w" unfolding w_def by (rule zinv_connect_sock [OF i1 t1 _ _ l1 o1]) simp_all
    have i2: "zinv c (insert t F) z2" using iw zframe_inv [OF f2] by simp
    have "zinv c (insert t F - {t}) (z_pending_push z2 t)" by (rule zinv_push_pending(1) [OF i2 t2]) (simp_all add: zsettled_def)
    with 2 z' Ft show ?thesis by simp
  next
    case 3
    have i3: "zinv c (insert t F) z3" using i1 zframe_inv [OF f3] by simp
    have l3: "zloose (z_th z3) (z_sh z3) s" using l1 f3 by (simp add: zframe_def)
    define z4 where "z4 = z_sock_release os z3 s"
    note re = zinv_release(1,2) [OF i3 l3 z4_def]
    have t4: "z_th z4 t = Some (z_task0 ZTASK_CONNECT)" using re(2) f3 t1 by (simp add: zframe_def)
    have "z' = z_task_err c os z4 t (z_errno z4)" using z' 3 by (simp add: z3_def [symmetric] z4_def Let_def)
    with zinv_connect_new [OF re(1) t4 zframe_refl _ zwins_None, of MYIO_ERROR os 0 "z_errno z4"] Ft show ?thesis
      by (simp add: z_task_err_def)
  qed
qed

lemma zinv_tcp_connect:
  assumes g: "gai_ok os" and i: "zinv c F z"
  shows "zinv c F (snd (z_tcp_connect c os z host port))"
proof -
  obtain np z1 where n: "z_task_new c z ZTASK_CONNECT = (np, z1)" by fastforce
  show ?thesis
  proof (cases np)
    case None
    with n zinv_task_new(1) [OF i n] i show ?thesis by (simp add: z_tcp_connect_def)
  next
    case (Some t)
    note tn = zinv_task_new(2) [OF i n Some]
    have i1: "zinv c (insert t F) z1" and tF: "t \<notin> F" and t1: "z_th z1 t = Some (z_task0 ZTASK_CONNECT)" using tn by auto
    have Ft: "insert t F - {t} = F" using tF by simp
    have er: "zinv c F (z_task_err c os z' t e)" if "zframe z1 z'" for z' e
      using zinv_connect_new [OF i1 t1 that _ zwins_None, of MYIO_ERROR os 0 e] Ft by (simp add: z_task_err_def)
    obtain a z2 where u2: "z_call os (C_getaddrinfo host (snprintf_d 8 port) False) z1 = (a, z2)" by fastforce
    have f2: "zframe z1 z2" by (rule z_call_zframe [OF _ u2]) simp
    show ?thesis
    proof (cases "a_ret a = 0")
      case False
      with n Some u2 er [OF f2] show ?thesis by (simp add: z_tcp_connect_def Let_def)
    next
      case True
      have "a = os (m_trace z1) (C_getaddrinfo host (snprintf_d 8 port) False)" using u2
        by (simp add: z_call_def sys_call_def Let_def)
      with True g obtain ai as where as: "a_addrs a = ai # as" by (cases "a_addrs a") (auto simp: gai_ok_def)
      obtain f z3 where u3: "z_call os (C_socket (ai_family ai) SOCK_STREAM IPPROTO_TCP) z2 = (f, z3)" by fastforce
      have f3: "zframe z1 z3" by (rule zframe_trans [OF f2 z_call_zframe [OF _ u3]]) simp
      obtain nb z4 where u4: "(if a_ret f < 0 then (- 1, z3) else z_sock_set_nonblock os z3 (a_ret f)) = (nb, z4)" by fastforce
      have f4: "zframe z1 z4" using u4 f3 set_nonblock_zframe [of os z3 "a_ret f"] zframe_trans by (auto split: if_splits)
      obtain cl z5 where u5: "z_call os (C_close (a_ret f)) z4 = (cl, z5)" by fastforce
      have f5: "zframe z1 z5" by (rule zframe_trans [OF f4 z_call_zframe [OF _ u5]]) simp
      show ?thesis
      proof (cases "a_ret f < 0 \<or> nb < 0")
        case True
        with n Some u2 \<open>a_ret a = 0\<close> as u3 u4 u5 er [OF f5] er [OF f4] show ?thesis
          by (simp add: z_tcp_connect_def Let_def split del: if_split) (simp split: if_splits)
      next
        case False
        have i4: "zinv c (insert t F) z4" and t4: "z_th z4 t = Some (z_task0 ZTASK_CONNECT)"
          using zframe_inv [OF f4] i1 t1 f4 by (auto simp: zframe_def)
        obtain sp z6 where u6: "z_sock_new c z4 (a_ret f) = (sp, z6)" by fastforce
        show ?thesis
        proof (cases sp)
          case None
          then have "z6 = z4" using zinv_sock_new(1) [OF i4 u6] by simp
          with None False n Some u2 \<open>a_ret a = 0\<close> as u3 u4 u5 u6 er [OF f5] show ?thesis
            by (simp add: z_tcp_connect_def Let_def)
        next
          case (Some s)
          obtain r z7 where u7: "z_call os (C_connect (a_ret f) (ai_addr ai)) (upd_zt t (\<lambda>x. x\<lparr>zt_sock := Some s\<rparr>) z6) = (r, z7)"
            by fastforce
          from zinv_connect_start [OF i4 tF t4 u6 [unfolded Some] u7 refl] show ?thesis
            using False n \<open>np = Some t\<close> u2 \<open>a_ret a = 0\<close> as u3 u4 u6 Some u7
            by (simp add: z_tcp_connect_def Let_def split del: if_split) (auto simp: Let_def split: if_splits)
        qed
      qed
    qed
  qed
qed

subsection \<open>Listening\<close>

lemma zcore_port:
  assumes c: "zcore F b th sh nx P D K" and y: "sh s = Some y"
  shows "zcore F b th (sh(s \<mapsto> y\<lparr>zs_port := pt\<rparr>)) nx P D K"
proof -
  note p = zcore_parts [OF c]
  let ?y = "y\<lparr>zs_port := pt\<rparr>"
  have e: "zslot k ?y = zslot k y" "zquiet ?y = zquiet y" for k by (simp_all add: zslot_def zquiet_def)
  have zh: "zhead (sh(s \<mapsto> ?y)) q z = zhead sh q z" for q z using y by (cases "zt_sock z") (auto simp: zhead_def)
  show ?thesis
  proof (rule zcoreI)
    show "zslot_inv F th (sh(s \<mapsto> ?y))" by (rule zslot_inv_sock [OF p(2)]) (use y e(1) in \<open>auto split: if_splits\<close>)
    show "zwq_inv th (sh(s \<mapsto> ?y)) nx" using p(3) y unfolding zwq_inv_def by auto
    show "zx_inv th (sh(s \<mapsto> ?y))" using p(4) y e(2) unfolding zx_inv_def by fastforce
    show "set P = zpset F th (sh(s \<mapsto> ?y))" using p(7) by (simp add: zpset_def zh)
  qed (use p y in \<open>auto split: if_splits\<close>)
qed

lemma zinv_port:
  assumes i: "zinv c F z" and y: "z_sh z s = Some y"
  shows "zinv c F (upd_zs s (\<lambda>y. y\<lparr>zs_port := pt\<rparr>) z)"
proof -
  obtain P D L where fl: "\<not> m_fault z" "zslabs c z" and li: "zlists F z P D L" by (rule zinvE [OF i])
  from zcore_port [OF zlists_core [OF li] y, of pt] li y
  have "zlists F (upd_zs s (\<lambda>y. y\<lparr>zs_port := pt\<rparr>) z) P D L" by (simp add: zlists_def zlive insert_absorb domI)
  with fl y show ?thesis by (auto simp: zinv_def zlive zslabs_def insert_absorb domI)
qed

lemma zinv_listen_sock:
  assumes i: "zinv c F z" and n: "z_sock_new c z fd = (sp, z1)"
  shows "zinv c F (snd (snd (case sp of None \<Rightarrow> let (_, z) = z_call os (C_close fd) z1 in (None, Some ENOMEM, z)
     | Some s \<Rightarrow> (Some s, None, upd_zs s (\<lambda>y. y\<lparr>zs_port := pt\<rparr>) z1))))"
proof (cases sp)
  case None
  then have "z1 = z" using zinv_sock_new(1) [OF i n] by simp
  obtain a z2 where u: "z_call os (C_close fd) z = (a, z2)" by fastforce
  have "zinv c F z2" using zframe_inv [OF z_call_zframe [OF _ u]] i by simp
  with None u \<open>z1 = z\<close> show ?thesis by simp
next
  case (Some s)
  note sn = zinv_sock_new(2) [OF i n Some, of "{}"]
  then have "zinv c F z1" "z_sh z1 s = Some (z_sock0 fd)" by auto
  from zinv_port [OF this] Some show ?thesis by simp
qed

lemma zframe_bind:
  assumes "zframe z0 z" and "off_work q" and "\<And>a z'. zframe z0 z' \<Longrightarrow> Q (g a z')"
  shows "Q (case z_call os q z of (a, z') \<Rightarrow> g a z')"
  using assms z_call_zframe [OF assms(2)] zframe_trans by (cases "z_call os q z") auto

lemma zinv_tcp_listen:
  assumes i: "zinv c F z"
  shows "zinv c F (snd (snd (z_tcp_listen c os z host port bl)))"
proof -
  obtain a4 z1 where u1: "z_call os (C_inet_pton AF_INET host) z = (a4, z1)" by fastforce
  have f1: "zframe z z1" by (rule z_call_zframe [OF _ u1]) simp
  obtain a6 z2 where u2: "(if a_ret a4 = 1 then (a4, z1) else z_call os (C_inet_pton AF_INET6 host) z1) = (a6, z2)" by fastforce
  have f2: "zframe z z2" using u2 f1 z_call_zframe [of "C_inet_pton AF_INET6 host" os z1] zframe_trans by (auto split: if_splits)
  define fam where "fam = (if a_ret a4 = 1 then AF_INET else AF_INET6)"
  define ss where "ss = \<lparr>ss_family = fam, ss_port = htons (word_of_int port), ss_addr = host\<rparr>"
  obtain f z3 where u3: "z_call os (C_socket fam SOCK_STREAM IPPROTO_TCP) z2 = (f, z3)" by fastforce
  have f3: "zframe z z3" by (rule zframe_trans [OF f2 z_call_zframe [OF _ u3]]) simp
  obtain so z4 where u4: "z_call os (C_setsockopt (a_ret f)) z3 = (so, z4)" by fastforce
  have f4: "zframe z z4" by (rule zframe_trans [OF f3 z_call_zframe [OF _ u4]]) simp
  obtain nb z5 where u5: "z_sock_set_nonblock os z4 (a_ret f) = (nb, z5)" by fastforce
  have f5: "zframe z z5" by (rule zframe_trans [OF f4 set_nonblock_zframe [OF u5]])
  obtain b z6 where u6: "(if nb < 0 then (nb, z5) else let (b, z) = z_call os (C_bind (a_ret f) ss) z5 in (a_ret b, z)) = (b, z6)" by fastforce
  have f6: "zframe z z6" using u6 f5 z_call_zframe [of "C_bind (a_ret f) ss" os z5] zframe_trans by (auto split: if_splits prod.splits)
  obtain l z7 where u7: "(if b < 0 then (b, z6) else let (l, z) = z_call os (C_listen (a_ret f) bl) z6 in (a_ret l, z)) = (l, z7)" by fastforce
  have f7: "zframe z z7" using u7 f6 z_call_zframe [of "C_listen (a_ret f) bl" os z6] zframe_trans by (auto split: if_splits prod.splits)
  obtain cl z8 where u8: "z_call os (C_close (a_ret f)) z7 = (cl, z8)" by fastforce
  have f8: "zframe z z8" by (rule zframe_trans [OF f7 z_call_zframe [OF _ u8]]) simp
  obtain sp z9 where u9: "z_sock_new c z7 (a_ret f) = (sp, z9)" by fastforce
  have i7: "zinv c F z7" using zframe_inv [OF f7] i by simp
  have r: "zinv c F z2" "zinv c F z3" "zinv c F z8" using zframe_inv [OF f2] zframe_inv [OF f3] zframe_inv [OF f8] i by simp_all
  note ls = zinv_listen_sock [OF i7 u9, of os port, unfolded Let_def]
  note e = z_tcp_listen_def [of c os z host port bl, unfolded u1 Let_def prod.case u2 [unfolded Let_def prod.case] fam_def [symmetric]
      ss_def [symmetric] u3 u4 u5 u6 [unfolded Let_def] u7 [unfolded Let_def] u8 u9]
  show ?thesis using r ls by (simp add: e Let_def u8)
qed

subsection \<open>Reading and accepting\<close>

definition zclear_slot :: "z_kind \<Rightarrow> z_sock \<Rightarrow> z_sock" where
  "zclear_slot k y = (if k = ZTASK_SOCK_READ then y\<lparr>zs_read_task := None\<rparr> else if k = ZTASK_ACCEPT then y\<lparr>zs_accept_task := None\<rparr> else y)"

lemma zclear_slot_simps:
  "zslot j (zclear_slot k y) = (if j = k then None else zslot j y)" "zs_wq (zclear_slot k y) = zs_wq y" "zs_fd (zclear_slot k y) = zs_fd y"
  by (auto simp: zclear_slot_def zslot_def)

text \<open>Completion of a task in a socket's read or accept slot.\<close>

lemma zinv_complete_slot:
  assumes i: "zinv c F z" and t: "z_th z t = Some x" "\<not> zt_done x" "zt_kind x = ZTASK_SOCK_READ \<or> zt_kind x = ZTASK_ACCEPT"
    and y: "z_sh z s = Some y" "zslot (zt_kind x) y = Some t"
    and f: "zframe (z\<lparr>z_sh := (z_sh z)(s \<mapsto> zclear_slot (zt_kind x) y)\<rparr>) z1"
    and st: "st \<noteq> MYIO_PENDING" and w: "zwins z t p" and z': "z' = z_task_complete c os z1 t st v e p"
  shows "zinv c (F - {t}) z'" and "zkeeps {} z z'"
    and "z_th z' = (z_th z)(t := if zt_detached x then None else Some (x\<lparr>zt_res := mk_result st v e p, zt_done := True\<rparr>))"
    and "zt_detached x \<longrightarrow> p = None \<Longrightarrow> z_sh z' = (z_sh z)(s \<mapsto> zclear_slot (zt_kind x) y)" and "m_brk z' = m_brk z"
proof -
  note cut = zcut_slot [OF i t y zclear_slot_simps(1,2) f]
  have k: "t \<notin> work_out (m_trace z)" by (rule znot_work [OF i t(1)]) (use t(3) in auto)
  note co = zinv_complete [OF i cut(1) k st w z']
  have e: "z_th z1 = z_th z" "z_sh z1 = (z_sh z)(s \<mapsto> zclear_slot (zt_kind x) y)" "m_brk z1 = m_brk z" using f by (simp_all add: zframe_def)
  show "zinv c (F - {t}) z'" "zkeeps {} z z'" using co(1,2) cut(2) by simp_all
  show "z_th z' = (z_th z)(t := if zt_detached x then None else Some (x\<lparr>zt_res := mk_result st v e p, zt_done := True\<rparr>))"
    using co(3) e by simp
  show "zt_detached x \<longrightarrow> p = None \<Longrightarrow> z_sh z' = (z_sh z)(s \<mapsto> zclear_slot (zt_kind x) y)" using co(4) e by simp
  show "m_brk z' = m_brk z" using co(6) e by simp
qed

definition zplaced :: "z_io \<Rightarrow> addr \<Rightarrow> z_task \<Rightarrow> bool" where
  "zplaced z t x \<longleftrightarrow> z_th z t = Some x \<and> \<not> zt_done x \<and>
     (\<exists>s y. zt_sock x = Some s \<and> z_sh z s = Some y \<and> zslot (zt_kind x) y = Some t)"

lemma zinv_read_try:
  assumes i: "zinv c F z" and t: "zplaced z t x" "zt_kind x = ZTASK_SOCK_READ"
    and e: "z_read_try c os z t = (ready, z')"
  shows "ready \<Longrightarrow> zinv c (F - {t}) z'" and "ready \<Longrightarrow> zkeeps {} z z'" and "\<not> ready \<Longrightarrow> zframe z z'"
proof -
  from t obtain s y where x: "z_th z t = Some x" "\<not> zt_done x" and s: "zt_sock x = Some s" and y: "z_sh z s = Some y" "zslot (zt_kind x) y = Some t"
    by (auto simp: zplaced_def)
  obtain a z1 where u: "z_call os (C_recv (zs_fd y) (zt_buf x) (zt_len x)) z = (a, z1)" by fastforce
  have f: "zframe z z1" by (rule z_call_zframe [OF _ u]) simp
  have y1: "z_sh z1 s = Some y" "z_th z1 t = Some x" using f y x by (simp_all add: zframe_def)
  define z2 where "z2 = z1\<lparr>z_sh := (z_sh z1)(s \<mapsto> zclear_slot (zt_kind x) y)\<rparr>"
  have f2: "zframe (z\<lparr>z_sh := (z_sh z)(s \<mapsto> zclear_slot (zt_kind x) y)\<rparr>) z2" using f by (simp add: zframe_def z2_def)
  have z2: "upd_zs s (\<lambda>y. y\<lparr>zs_read_task := None\<rparr>) z1 = z2" using y1 t(2) by (simp add: zlive z2_def zclear_slot_def)
  have ev: "(ready, z') = (if a_ret a < 0 \<and> z_errno z1 = EAGAIN then (False, z1)
      else (True, if a_ret a < 0 then z_task_err c os z2 t (z_errno z2) else z_task_ok c os z2 t (a_ret a) None))"
    using e s y x u z2 by (simp add: z_read_try_def zlive Let_def split: if_splits)
  show "\<not> ready \<Longrightarrow> zframe z z'" using ev f by (auto split: if_splits)
  have k: "zt_kind x = ZTASK_SOCK_READ \<or> zt_kind x = ZTASK_ACCEPT" using t by simp
  note cs = zinv_complete_slot(1,2) [OF i x k y f2 _ zwins_None refl]
  show "ready \<Longrightarrow> zinv c (F - {t}) z'" "ready \<Longrightarrow> zkeeps {} z z'"
    using ev cs by (auto simp: z_task_err_def z_task_ok_def split: if_splits)
qed

lemma zinv_accept_try:
  assumes i: "zinv c F z" and t: "zplaced z t x" "zt_kind x = ZTASK_ACCEPT"
    and e: "z_accept_try c os z t = (ready, z')"
  shows "ready \<Longrightarrow> zinv c (F - {t}) z'" and "ready \<Longrightarrow> zkeeps {} z z'" and "\<not> ready \<Longrightarrow> zframe z z'"
proof -
  from t obtain s y where x: "z_th z t = Some x" "\<not> zt_done x" and s: "zt_sock x = Some s" and y: "z_sh z s = Some y" "zslot (zt_kind x) y = Some t"
    by (auto simp: zplaced_def)
  have k: "zt_kind x = ZTASK_SOCK_READ \<or> zt_kind x = ZTASK_ACCEPT" using t by simp
  obtain a z1 where u: "z_call os (C_accept (zs_fd y)) z = (a, z1)" by fastforce
  have f: "zframe z z1" by (rule z_call_zframe [OF _ u]) simp
  have y1: "z_sh z1 s = Some y" "z_th z1 t = Some x" using f y x by (simp_all add: zframe_def)
  let ?y = "zclear_slot (zt_kind x) y"
  define zc where "zc = (\<lambda>z :: z_io. z\<lparr>z_sh := (z_sh z)(s \<mapsto> ?y)\<rparr>)"
  have zc: "zframe (zc z) (zc w)" if "zframe z w" for w using that by (simp add: zframe_def zc_def)
  have z2: "upd_zs s (\<lambda>y. y\<lparr>zs_accept_task := None\<rparr>) z1 = zc z1" using y1 t(2) by (simp add: zlive zc_def zclear_slot_def)
  have er: "zinv c (F - {t}) (z_task_err c os w t er) \<and> zkeeps {} z (z_task_err c os w t er)" if "zframe (zc z) w" for w er
    using zinv_complete_slot(1,2) [OF i x k y that [unfolded zc_def] _ zwins_None refl] by (simp add: z_task_err_def)
  obtain nb z3 where u3: "z_sock_set_nonblock os (zc z1) (a_ret a) = (nb, z3)" by fastforce
  have f3: "zframe (zc z) z3" by (rule zframe_trans [OF zc [OF f] set_nonblock_zframe [OF u3]])
  obtain cl z4 where u4: "z_call os (C_close (a_ret a)) z3 = (cl, z4)" by fastforce
  have f4: "zframe (zc z) z4" by (rule zframe_trans [OF f3 z_call_zframe [OF _ u4]]) simp
  obtain sp z5 where u5: "z_sock_new c z3 (a_ret a) = (sp, z5)" by fastforce
  have ev: "(ready, z') = (if a_ret a < 0 \<and> z_errno z1 = EAGAIN then (False, z1)
      else (True, if a_ret a < 0 then z_task_err c os (zc z1) t (z_errno (zc z1)) else
        if nb < 0 then z_task_err c os z4 t (z_errno z3) else
        (case sp of None \<Rightarrow> (let (_, z) = z_call os (C_close (a_ret a)) z5 in z_task_err c os z t ENOMEM)
          | Some s \<Rightarrow> z_task_ok c os z5 t 0 (Some s))))"
    using e s y x u z2 u3 u4 u5 by (auto simp: z_accept_try_def zlive Let_def split: if_splits option.splits prod.splits)
  show "\<not> ready \<Longrightarrow> zframe z z'" using ev f by (auto split: if_splits)
  have ok: "zinv c (F - {t}) (z_task_ok c os z5 t 0 (Some k)) \<and> zkeeps {} z (z_task_ok c os z5 t 0 (Some k))" if "sp = Some k" for k
  proof -
    define w where "w = z3\<lparr>z_sh := z_sh z\<rparr>"
    have fw: "zframe z w" and wc: "z3 = zc w" using f3 by (simp_all add: zframe_def zc_def w_def)
    have iw: "zinv c F w" using zframe_inv [OF fw] i by simp
    obtain P D L where li: "zlists F w P D L" by (rule zinvE [OF iw])
    have sw: "z_sh w s = Some y" "z_sh w (m_brk w) = None" using zcore_fresh_sock [OF zlists_core [OF li] le_refl] fw y by (auto simp: zframe_def)
    then have ne: "s \<noteq> m_brk w" by auto
    obtain p5 w5 where w5': "z_sock_new c w (a_ret a) = (p5, w5)" by fastforce
    have "p5 = Some k" and z5: "z5 = w5\<lparr>z_sh := (z_sh w5)(s \<mapsto> ?y)\<rparr>"
      using u5 that w5' ne by (auto simp: wc z_sock_new_def Let_def zc_def fun_upd_twist [OF ne] split: if_splits)
    with w5' have w5: "z_sock_new c w (a_ret a) = (Some k, w5)" by simp
    note sn = zinv_sock_new(2) [OF iw w5 refl, of "{}"]
    have i5: "zinv c F w5" and k5: "zkeeps {} w w5" and th5: "z_th w5 = z_th z" and sh5: "z_sh w5 = (z_sh z)(k \<mapsto> z_sock0 (a_ret a))"
      and o5: "\<And>q x. z_th z q = Some x \<Longrightarrow> zown x \<noteq> Some k" and fk: "z_sh z k = None" using sn fw by (auto simp: zframe_def)
    have wi: "zwins w5 t (Some k)" using th5 sh5 o5 by (auto simp: zwins_def)
    have y5: "z_sh w5 s = Some y" and x5: "z_th w5 t = Some x" using sh5 y fk th5 x by auto
    have f5: "zframe (w5\<lparr>z_sh := (z_sh w5)(s \<mapsto> ?y)\<rparr>) z5" by (simp add: z5)
    from zinv_complete_slot(1,2) [OF i5 x5 x(2) \<open>zt_kind x = ZTASK_SOCK_READ \<or> zt_kind x = ZTASK_ACCEPT\<close> y5 y(2) f5 _ wi refl, of MYIO_OK os 0 0]
    show ?thesis using zkeeps_trans [OF zframe_keeps [OF fw] zkeeps_trans [OF k5]] by (simp add: z_task_ok_def)
  qed
  have nn: "z5 = z3" if "sp = None" using u5 that by (auto simp: z_sock_new_def Let_def split: if_splits)
  have "zinv c (F - {t}) z' \<and> zkeeps {} z z'" if ready
    using ev that er [OF zc [OF f]] er [OF f4] ok nn u4 by (cases sp) (auto split: if_splits)
  then show "ready \<Longrightarrow> zinv c (F - {t}) z'" "ready \<Longrightarrow> zkeeps {} z z'" by auto
qed

definition zusable :: "z_io \<Rightarrow> addr \<Rightarrow> bool" where
  "zusable z s \<longleftrightarrow> z_sh z s \<noteq> None \<and> (\<forall>t x. z_th z t = Some x \<longrightarrow> zx x \<noteq> Some s)"

lemma zinv_attach:
  assumes i: "zinv c F z" and t: "z_th z t = Some x" "t \<in> F" "zt_sock x = None"
    and k: "zt_kind x = ZTASK_SOCK_READ \<or> zt_kind x = ZTASK_ACCEPT"
    and x': "zsame (x\<lparr>zt_sock := Some s\<rparr>) x'" and y: "z_sh z s = Some y" "zslot (zt_kind x) y = None"
    and y': "\<And>j. zslot j y' = (if j = zt_kind x then Some t else zslot j y)" "zs_wq y' = zs_wq y"
    and u: "zusable z s" and z': "z' = z\<lparr>z_th := (z_th z)(t \<mapsto> x'), z_sh := (z_sh z)(s \<mapsto> y')\<rparr>"
  shows "zinv c F z'" and "zplaced z' t x'"
proof -
  obtain P D L where fl: "\<not> m_fault z" "zslabs c z" and li: "zlists F z P D L" by (rule zinvE [OF i])
  note co = zlists_core [OF li]
  have u': "zx z0 \<noteq> Some s" if "z_th z q = Some z0" for q z0 using u that by (auto simp: zusable_def)
  have "zlists F z' P D L" using li y zcore_attach [OF co t k x' y y' u'] by (simp add: zlists_def z' insert_absorb domI)
  moreover have "zslabs c z'" using fl(2) t y by (simp add: zslabs_def z' insert_absorb domI)
  ultimately show "zinv c F z'" using fl(1) by (auto simp: zinv_def z')
  have "\<not> zt_done x" using zfloat_pending [OF co t(1,2)] by simp
  with zsame_sock [OF x'] y'(1) [of "zt_kind x"] show "zplaced z' t x'" by (simp add: zplaced_def z')
qed

text \<open>The task is on its socket; either the first try completed it, or it waits.\<close>

lemma zinv_settle:
  assumes i: "zinv c (insert t F) z" and tF: "t \<notin> F" and p: "zplaced z t x" "zt_kind x = ZTASK_SOCK_READ \<or> zt_kind x = ZTASK_ACCEPT"
    and r: "ready \<Longrightarrow> zinv c (insert t F - {t}) z1" "\<not> ready \<Longrightarrow> zframe z z1"
  shows "zinv c F (if ready then z1 else z_pending_push z1 t)"
proof (cases ready)
  case True
  with r(1) tF show ?thesis by simp
next
  case False
  note f = r(2) [OF False]
  have i1: "zinv c (insert t F) z1" and x: "z_th z1 t = Some x" using zframe_inv [OF f] i f p by (auto simp: zframe_def zplaced_def)
  have "zsettled (z_th z1) (z_sh z1) t x" using p f by (auto simp: zsettled_def zplaced_def zframe_def)
  from zinv_push_pending(1) [OF i1 x _ this] False tF show ?thesis by simp
qed

lemma zinv_sock_read:
  assumes i: "zinv c F z" and u: "zusable z s"
  shows "zinv c F (snd (z_sock_read c os z s buf len))"
proof -
  obtain y where y: "z_sh z s = Some y" using u by (auto simp: zusable_def)
  obtain np z1 where n: "z_task_new c z ZTASK_SOCK_READ = (np, z1)" by fastforce
  show ?thesis
  proof (cases "zs_read_task y = None \<and> np \<noteq> None")
    case False
    then show ?thesis using y n zinv_new_failed [OF i] zinv_task_new(1) [OF i n] i
      by (cases np) (auto simp: z_sock_read_def zlive)
  next
    case True
    then obtain t where Some: "np = Some t" and ry: "zs_read_task y = None" by auto
    note tn = zinv_task_new(2) [OF i n Some, of "{}"]
    have i1: "zinv c (insert t F) z1" and x1: "z_th z1 t = Some (z_task0 ZTASK_SOCK_READ)" and tF: "t \<notin> F" and y1: "z_sh z1 s = Some y"
      using tn y by auto
    have u1: "zusable z1 s" using u tn by (auto simp: zusable_def)
    define x where "x = (z_task0 ZTASK_SOCK_READ)\<lparr>zt_sock := Some s, zt_buf := buf, zt_len := len\<rparr>"
    define w where "w = z1\<lparr>z_th := (z_th z1)(t \<mapsto> x), z_sh := (z_sh z1)(s \<mapsto> y\<lparr>zs_read_task := Some t\<rparr>)\<rparr>"
    have sm: "zsame ((z_task0 ZTASK_SOCK_READ)\<lparr>zt_sock := Some s\<rparr>) x" by (simp add: x_def zsame_def)
    have at: "zinv c (insert t F) w" "zplaced w t x"
      by (rule zinv_attach [OF i1 x1 _ _ _ sm y1 _ _ _ u1 w_def]; use ry in \<open>simp add: zslot_def\<close>)+
    obtain ready z2 where r: "z_read_try c os w t = (ready, z2)" by fastforce
    have "snd (z_sock_read c os z s buf len) = (if ready then z2 else z_pending_push z2 t)"
      using y n Some ry x1 y1 r by (simp add: z_sock_read_def zlive x_def [symmetric] w_def)
    moreover have "zinv c F (if ready then z2 else z_pending_push z2 t)"
      by (rule zinv_settle [OF at(1) tF at(2)]) (use zinv_read_try [OF at _ r] in \<open>auto simp: x_def\<close>)
    ultimately show ?thesis by simp
  qed
qed

lemma zinv_tcp_accept:
  assumes i: "zinv c F z" and u: "zusable z s"
  shows "zinv c F (snd (z_tcp_accept c os z s))"
proof -
  obtain y where y: "z_sh z s = Some y" using u by (auto simp: zusable_def)
  obtain np z1 where n: "z_task_new c z ZTASK_ACCEPT = (np, z1)" by fastforce
  show ?thesis
  proof (cases "zs_accept_task y = None \<and> np \<noteq> None")
    case False
    then show ?thesis using y n zinv_new_failed [OF i] zinv_task_new(1) [OF i n] i
      by (cases np) (auto simp: z_tcp_accept_def zlive)
  next
    case True
    then obtain t where Some: "np = Some t" and ry: "zs_accept_task y = None" by auto
    note tn = zinv_task_new(2) [OF i n Some, of "{}"]
    have i1: "zinv c (insert t F) z1" and x1: "z_th z1 t = Some (z_task0 ZTASK_ACCEPT)" and tF: "t \<notin> F" and y1: "z_sh z1 s = Some y"
      using tn y by auto
    have u1: "zusable z1 s" using u tn by (auto simp: zusable_def)
    define x where "x = (z_task0 ZTASK_ACCEPT)\<lparr>zt_sock := Some s\<rparr>"
    define w where "w = z1\<lparr>z_th := (z_th z1)(t \<mapsto> x), z_sh := (z_sh z1)(s \<mapsto> y\<lparr>zs_accept_task := Some t\<rparr>)\<rparr>"
    have sm: "zsame ((z_task0 ZTASK_ACCEPT)\<lparr>zt_sock := Some s\<rparr>) x" by (simp add: x_def zsame_def)
    have at: "zinv c (insert t F) w" "zplaced w t x"
      by (rule zinv_attach [OF i1 x1 _ _ _ sm y1 _ _ _ u1 w_def]; use ry in \<open>simp add: zslot_def\<close>)+
    obtain ready z2 where r: "z_accept_try c os w t = (ready, z2)" by fastforce
    have "snd (z_tcp_accept c os z s) = (if ready then z2 else z_pending_push z2 t)"
      using y n Some ry x1 y1 r by (simp add: z_tcp_accept_def zlive x_def [symmetric] w_def)
    moreover have "zinv c F (if ready then z2 else z_pending_push z2 t)"
      by (rule zinv_settle [OF at(1) tF at(2)]) (use zinv_accept_try [OF at _ r] in \<open>auto simp: x_def\<close>)
    ultimately show ?thesis by simp
  qed
qed

subsection \<open>Writing\<close>

lemma z_write_try_frame:
  assumes "z_write_try os z t = Some (r, z')" and "z_th z t = Some x" and "zt_sock x = Some s" and "z_sh z s = Some y"
  shows "\<exists>n. zframe (z\<lparr>z_th := (z_th z)(t \<mapsto> x\<lparr>zt_off := n\<rparr>)\<rparr>) z'"
proof -
  have "\<forall>x y. z_th z t = Some x \<longrightarrow> zt_sock x = Some s \<longrightarrow> z_sh z s = Some y \<longrightarrow>
      (\<exists>n. zframe (z\<lparr>z_th := (z_th z)(t \<mapsto> x\<lparr>zt_off := n\<rparr>)\<rparr>) (snd (r, z')))"
  proof (rule z_write_try.raw_induct [where P = "\<lambda>os z t w. \<forall>x y. z_th z t = Some x \<longrightarrow> zt_sock x = Some s \<longrightarrow> z_sh z s = Some y \<longrightarrow>
      (\<exists>n. zframe (z\<lparr>z_th := (z_th z)(t \<mapsto> x\<lparr>zt_off := n\<rparr>)\<rparr>) (snd w))", OF _ assms(1)], intro allI impI)
    fix wt os z t w x y
    assume IH: "\<And>os z t w. wt os z t = Some w \<Longrightarrow> \<forall>x y. z_th z t = Some x \<longrightarrow> zt_sock x = Some s \<longrightarrow> z_sh z s = Some y \<longrightarrow>
        (\<exists>n. zframe (z\<lparr>z_th := (z_th z)(t \<mapsto> x\<lparr>zt_off := n\<rparr>)\<rparr>) (snd w))"
      and eq: "(let x = zt z t in if zt_off x < zt_len x then
        case zt_sock x of None \<Rightarrow> Some (0, m_flag z)
        | Some s \<Rightarrow>
            let (a, z) = z_call os (C_send (zs_fd (zs z s)) (drop (zt_off x) (zt_cbuf x))) (chk_zs s z) in
            if a_ret a < 0 then Some (if z_errno z = EAGAIN then - 1 else z_errno z, z)
            else wt os (upd_zt t (\<lambda>x. x\<lparr>zt_off := zt_off x + nat (a_ret a)\<rparr>) z) t
      else Some (0, z)) = Some w"
      and x: "z_th z t = Some x" "zt_sock x = Some s" and y: "z_sh z s = Some y"
    have id: "zframe (z\<lparr>z_th := (z_th z)(t \<mapsto> x\<lparr>zt_off := zt_off x\<rparr>)\<rparr>) z2" if "zframe z z2" for z2
      using that x(1) by (auto simp: zframe_def)
    have id': "\<exists>n. zframe (z\<lparr>z_th := (z_th z)(t \<mapsto> x\<lparr>zt_off := n\<rparr>)\<rparr>) z2" if "zframe z z2" for z2
      using id [OF that] by blast
    show "\<exists>n. zframe (z\<lparr>z_th := (z_th z)(t \<mapsto> x\<lparr>zt_off := n\<rparr>)\<rparr>) (snd w)"
    proof (cases "zt_off x < zt_len x")
      case False
      with eq x id' [OF zframe_refl] show ?thesis by (auto simp: zlive)
    next
      case True
      obtain a z1 where u: "z_call os (C_send (zs_fd y) (drop (zt_off x) (zt_cbuf x))) z = (a, z1)" by fastforce
      have f: "zframe z z1" by (rule z_call_zframe [OF _ u]) simp
      show ?thesis
      proof (cases "a_ret a < 0")
        case neg: True
        with True eq x y u id' [OF f] show ?thesis by (auto simp: zlive)
      next
        case pos: False
        have x1: "z_th z1 t = Some x" using f x by (simp add: zframe_def)
        define z2 where "z2 = z1\<lparr>z_th := (z_th z1)(t \<mapsto> x\<lparr>zt_off := zt_off x + nat (a_ret a)\<rparr>)\<rparr>"
        have "wt os z2 t = Some w" using True pos eq x y u x1 by (simp add: zlive z2_def)
        from IH [OF this] obtain n where "zframe (z2\<lparr>z_th := (z_th z2)(t \<mapsto> x\<lparr>zt_off := n\<rparr>)\<rparr>) (snd w)"
          using f x y by (auto simp: z2_def zframe_def)
        then show ?thesis using f by (intro exI [of _ n]) (simp add: zframe_def z2_def)
      qed
    qed
  qed
  with assms show ?thesis by simp
qed

text \<open>A pending write at the head of its socket's queue, with those behind it.\<close>

definition zwrites :: "z_io \<Rightarrow> addr \<Rightarrow> z_task \<Rightarrow> addr \<Rightarrow> z_sock \<Rightarrow> addr list \<Rightarrow> bool" where
  "zwrites z t x s y xs \<longleftrightarrow> z_th z t = Some x \<and> zt_kind x = ZTASK_SOCK_WRITE \<and> \<not> zt_done x \<and> zt_sock x = Some s \<and>
     z_sh z s = Some y \<and> wq_list (z_wnext z) (zs_wq y) (t # xs)"

lemma zinv_write_try:
  assumes i: "zinv c F z" and h: "zwrites z t x s y xs" and e: "z_write_try os z t = Some (r, z')"
  obtains n where "zinv c F z'" "zkeeps {} z z'" "zwrites z' t (x\<lparr>zt_off := n\<rparr>) s y xs" "m_brk z' = m_brk z"
    "z_th z' = (z_th z)(t \<mapsto> x\<lparr>zt_off := n\<rparr>)" "z_sh z' = z_sh z"
proof -
  have x: "z_th z t = Some x" "zt_sock x = Some s" "z_sh z s = Some y" using h by (simp_all add: zwrites_def)
  obtain n where f: "zframe (z\<lparr>z_th := (z_th z)(t \<mapsto> x\<lparr>zt_off := n\<rparr>)\<rparr>) z'" using z_write_try_frame [OF e x] by blast
  have sm: "zsame x (x\<lparr>zt_off := n\<rparr>)" by (simp add: zsame_def)
  note up = zinv_upd [OF i x(1) sm f]
  show ?thesis
    by (rule that [of n, OF up(1) up(2)]) (use f h in \<open>auto simp: zframe_def zwrites_def\<close>)
qed

lemma zinv_write_end:
  assumes i: "zinv c F z" "F \<subseteq> {t}" and h: "zwrites z t x s y xs" and e: "z_write_end c os z t r = (next, z')"
  obtains y' where "next = (if xs = [] then None else Some (hd xs))" "zinv c (set_option next) z'" "zkeeps {} z z'" "m_brk z' = m_brk z"
    "z_sh z' = (z_sh z)(s \<mapsto> y')" "wq_list (z_wnext z') (zs_wq y') xs" "\<And>q. q \<noteq> t \<Longrightarrow> z_th z' q = z_th z q"
proof -
  have x: "z_th z t = Some x" "zt_kind x = ZTASK_SOCK_WRITE" "\<not> zt_done x" "zt_sock x = Some s" and y: "z_sh z s = Some y"
    and l: "wq_list (z_wnext z) (zs_wq y) (t # xs)" using h by (simp_all add: zwrites_def)
  obtain nx w where p: "myio_wq_pop (z_wnext z) (zs_wq y) = Some (if xs = [] then None else Some (hd xs), nx, w)" "wq_list nx w xs"
    using wq_pop_list [OF l] by auto
  define z1 where "z1 = z\<lparr>z_sh := (z_sh z)(s \<mapsto> y\<lparr>zs_wq := w\<rparr>), z_wnext := nx\<rparr>"
  have pop: "z_wq_pop z s = (if xs = [] then None else Some (hd xs), z1)" using y p(1) by (simp add: z_wq_pop_def zlive z1_def)
  obtain st v er where z': "z' = z_task_complete c os z1 t st v er None" "st \<noteq> MYIO_PENDING" and nx: "next = (if xs = [] then None else Some (hd xs))"
    using e x pop by (cases "r = 0") (auto simp: z_write_end_def zlive z_task_ok_def z_task_err_def)
  have r1: "wq_list nx w (remove1 t (t # xs))" using p(2) by simp
  have fr: "wq_list nx q ys" if "wq_list (z_wnext z) q ys" "set (t # xs) \<inter> set ys = {}" "t \<notin> set ys" for q ys
    by (rule wq_pop_frame [OF l that(1,2) p(1)])
  note cut = zcut_queue [OF i(1) x y l r1 fr z1_def]
  have k: "t \<notin> work_out (m_trace z)" by (rule znot_work [OF i(1) x(1)]) (use x(2) in auto)
  note co = zinv_complete [OF i(1) cut(1) k z'(2) zwins_None z'(1)]
  have hd: "wq_head (zs_wq y) = Some t" "wq_head w = next" using wq_list_head [OF l] wq_list_head [OF p(2)] nx by simp_all
  have F: "F - {t} = {}" using i(2) by auto
  have "zinv c (set_option next) z'" using co(1) cut(2) hd unfolding F by simp
  moreover have "z_th z' q = z_th z q" if "q \<noteq> t" for q using co(3) that by (simp add: z1_def)
  ultimately show ?thesis
    by (intro that [of "y\<lparr>zs_wq := w\<rparr>", OF nx _ co(2)]) (use co(4-6) p(2) in \<open>auto simp: z1_def\<close>)
qed

lemma zwrites_next:
  assumes i: "zinv c F z" and h: "zwrites z t x s y (n # xs)" and sh: "z_sh z' = (z_sh z)(s \<mapsto> y')" "wq_list (z_wnext z') (zs_wq y') (n # xs)"
    and th: "\<And>q. q \<noteq> t \<Longrightarrow> z_th z' q = z_th z q"
  obtains x' where "zwrites z' n x' s y' xs"
proof -
  obtain P D L where li: "zlists F z P D L" by (rule zinvE [OF i])
  have y: "z_sh z s = Some y" and l: "wq_list (z_wnext z) (zs_wq y) (t # n # xs)" using h by (simp_all add: zwrites_def)
  obtain ys where "wq_list (z_wnext z) (zs_wq y) ys" "set ys = zwset (z_th z) s" using zwq_list [OF zcore_parts(3) [OF zlists_core [OF li]] y] by blast
  with wq_list_unique [OF l, of ys] have "n \<in> zwset (z_th z) s" by force
  moreover have "n \<noteq> t" using wq_list_distinct [OF l] by auto
  ultimately show ?thesis using that th [of n] sh by (auto simp: zwset_def zwrites_def)
qed

lemma zinv_write_arm:
  assumes "zinv c {t} z" and "zwrites z t x s y xs" and "length xs < fuel" and "z_write_arm c os fuel z t = Some z'"
  shows "zinv c {} z' \<and> zkeeps {} z z' \<and> m_brk z' = m_brk z"
  using assms
proof (induction fuel arbitrary: z t x y xs)
  case (Suc fuel)
  have xt: "z_th z t = Some x" using Suc.prems(2) by (simp add: zwrites_def)
  from Suc.prems(4) obtain r z1 where wt: "z_write_try os z t = Some (r, z1)"
    and rest: "(if r < 0 then Some (z_pending_push z1 t) else case z_write_end c os z1 t r of
         (None, z) \<Rightarrow> Some z | (Some n, z) \<Rightarrow> z_write_arm c os fuel z n) = Some z'"
    using xt by (cases "z_write_try os z t") (auto simp: zlive)
  obtain n where w: "zinv c {t} z1" "zkeeps {} z z1" "zwrites z1 t (x\<lparr>zt_off := n\<rparr>) s y xs" "m_brk z1 = m_brk z"
    by (rule zinv_write_try [OF Suc.prems(1,2) wt])
  have x1: "z_th z1 t = Some (x\<lparr>zt_off := n\<rparr>)" using w(3) by (simp add: zwrites_def)
  show ?case
  proof (cases "r < 0")
    case True
    then have z': "z' = z_pending_push z1 t" using rest by simp
    have "wq_head (zs_wq y) = Some t" using w(3) wq_list_head by (fastforce simp: zwrites_def)
    then have "zsettled (z_th z1) (z_sh z1) t (x\<lparr>zt_off := n\<rparr>)" using w(3) by (auto simp: zsettled_def zwrites_def zhead_def)
    note pp = zinv_push_pending [OF w(1) x1 _ this]
    have "zkeeps {} z z'" "m_brk z' = m_brk z" using w(2,4) pp(2,3) x1 by (simp_all add: z' zkeeps_def) (simp add: z_pending_push_def zlive)
    with pp(1) z' show ?thesis by simp
  next
    case False
    obtain nxt z2 where we: "z_write_end c os z1 t r = (nxt, z2)" by fastforce
    obtain y' where e: "nxt = (if xs = [] then None else Some (hd xs))" "zinv c (set_option nxt) z2" "zkeeps {} z1 z2" "m_brk z2 = m_brk z1"
      "z_sh z2 = (z_sh z1)(s \<mapsto> y')" "wq_list (z_wnext z2) (zs_wq y') xs" "\<And>q. q \<noteq> t \<Longrightarrow> z_th z2 q = z_th z1 q"
      by (rule zinv_write_end [OF w(1) _ w(3) we]) auto
    have k: "zkeeps {} z z2" by (rule zkeeps_trans [OF w(2) e(3)])
    show ?thesis
    proof (cases xs)
      case Nil
      with False rest we e k w(4) show ?thesis by auto
    next
      case (Cons m ms)
      obtain x' where h: "zwrites z2 m x' s y' ms" by (rule zwrites_next [OF w(1) w(3) [unfolded Cons] e(5) e(6) [unfolded Cons] e(7)])
      have "zinv c {m} z2" "length ms < fuel" "z_write_arm c os fuel z2 m = Some z'"
        using Cons e(1,2) Suc.prems(3) False rest we by auto
      from Suc.IH [OF this(1) h this(2,3)] k e(4) w(4) show ?thesis by (auto intro: zkeeps_trans)
    qed
  qed
qed simp

lemma zinv_writes:
  assumes i: "zinv c F z" and t: "z_th z t = Some x" "zt_kind x = ZTASK_SOCK_WRITE" "\<not> zt_done x" "zt_sock x = Some s"
    and y: "z_sh z s = Some y" "wq_head (zs_wq y) = Some t"
  obtains xs where "zwrites z t x s y xs" "length xs < m_brk z"
proof -
  obtain P D L where li: "zlists F z P D L" by (rule zinvE [OF i])
  obtain ys where ys: "wq_list (z_wnext z) (zs_wq y) ys" "set ys = zwset (z_th z) s"
    using zwq_list [OF zcore_parts(3) [OF zlists_core [OF li]] y(1)] by blast
  then obtain xs where xs: "ys = t # xs" using wq_list_head [OF ys(1)] y(2) by (cases ys) auto
  have "set ys \<subseteq> {..<m_brk z}" using ys(2) zinv_below [OF i] by (auto simp: zwset_def)
  from card_mono [OF _ this] have "length ys \<le> m_brk z" using distinct_card [OF wq_list_distinct [OF ys(1)]] by simp
  with that [of xs] t y ys(1) xs show ?thesis by (simp add: zwrites_def)
qed

lemma zinv_write_ready:
  assumes i: "zinv c {} z" and t: "z_th z t = Some x" "zt_kind x = ZTASK_SOCK_WRITE" "\<not> zt_done x" "zhead (z_sh z) t x"
    and e: "z_write_ready c os z t = Some z'"
  shows "zinv c {} z'" and "zkeeps {} z z'"
proof -
  obtain s y where s: "zt_sock x = Some s" and y: "z_sh z s = Some y" "wq_head (zs_wq y) = Some t" using t(4) by (auto simp: zhead_def)
  obtain xs where h: "zwrites z t x s y xs" "length xs < m_brk z" by (rule zinv_writes [OF i t(1-3) s y])
  from e obtain r z1 where wt: "z_write_try os z t = Some (r, z1)"
    and rest: "(if r < 0 then Some z1 else case z_write_end c os z1 t r of
         (None, z) \<Rightarrow> Some z | (Some n, z) \<Rightarrow> z_write_arm c os (m_brk z) z n) = Some z'"
    using t(1) by (cases "z_write_try os z t") (auto simp: z_write_ready_def zlive)
  obtain n where w: "zinv c {} z1" "zkeeps {} z z1" "zwrites z1 t (x\<lparr>zt_off := n\<rparr>) s y xs" "m_brk z1 = m_brk z"
    by (rule zinv_write_try [OF i h(1) wt])
  obtain nxt z2 where we: "z_write_end c os z1 t r = (nxt, z2)" by fastforce
  obtain y' where e: "nxt = (if xs = [] then None else Some (hd xs))" "zinv c (set_option nxt) z2" "zkeeps {} z1 z2" "m_brk z2 = m_brk z1"
    "z_sh z2 = (z_sh z1)(s \<mapsto> y')" "wq_list (z_wnext z2) (zs_wq y') xs" "\<And>q. q \<noteq> t \<Longrightarrow> z_th z2 q = z_th z1 q"
    by (rule zinv_write_end [OF w(1) _ w(3) we]) auto
  have k: "zkeeps {} z z2" by (rule zkeeps_trans [OF w(2) e(3)])
  have "zinv c {} z' \<and> zkeeps {} z z'"
  proof (cases "r < 0 \<or> xs = []")
    case True
    with rest w(1,2) we e k show ?thesis by (auto split: if_splits)
  next
    case False
    then obtain m ms where Cons: "xs = m # ms" by (cases xs) auto
    obtain x' where h': "zwrites z2 m x' s y' ms" by (rule zwrites_next [OF w(1) w(3) [unfolded Cons] e(5) e(6) [unfolded Cons] e(7)])
    have "zinv c {m} z2" "length ms < m_brk z2" "z_write_arm c os (m_brk z2) z2 m = Some z'"
      using Cons e(1,2,4) h(2) w(4) False rest we by auto
    from zinv_write_arm [OF this(1) h' this(2,3)] k show ?thesis by (auto intro: zkeeps_trans)
  qed
  then show "zinv c {} z'" "zkeeps {} z z'" by auto
qed

lemma zinv_wq_push:
  assumes i: "zinv c F z" and t: "z_th z t = Some x" "t \<in> F" "zt_sock x = None" "zt_kind x = ZTASK_SOCK_WRITE"
    and x': "zsame (x\<lparr>zt_sock := Some s\<rparr>) x'" and y: "z_sh z s = Some y" and u: "zusable z s"
    and push: "z_wq_push (z\<lparr>z_th := (z_th z)(t \<mapsto> x')\<rparr>) s t = (h, z')"
  obtains y' where "zinv c (if h then F else F - {t}) z'" "z_th z' = (z_th z)(t \<mapsto> x')" "z_sh z' s = Some y'" "h \<Longrightarrow> wq_head (zs_wq y') = Some t"
proof -
  obtain P D L where fl: "\<not> m_fault z" "zslabs c z" and li: "zlists F z P D L" by (rule zinvE [OF i])
  obtain h' nx w where p: "myio_wq_push (z_wnext z) (zs_wq y) t = (h', nx, w)" by (cases "myio_wq_push (z_wnext z) (zs_wq y) t")
  have z': "z' = z\<lparr>z_th := (z_th z)(t \<mapsto> x'), z_wnext := nx, z_sh := (z_sh z)(s \<mapsto> y\<lparr>zs_wq := w\<rparr>)\<rparr>" and h: "h' = h"
    using push y p by (auto simp: z_wq_push_def zs_def upd_zs_def)
  have u': "zx z0 \<noteq> Some s" if "z_th z q = Some z0" for q z0 using u that by (auto simp: zusable_def)
  note cp = zcore_push [OF zlists_core [OF li] t x' y u' p]
  have "zlists (if h then F else F - {t}) z' P D L" using li y cp(1) unfolding h zlists_def by (simp add: z' insert_absorb domI)
  moreover have "zslabs c z'" using fl(2) t y by (simp add: zslabs_def z' insert_absorb domI)
  moreover have "\<not> m_fault z'" using fl(1) by (simp add: z')
  ultimately have "zinv c (if h then F else F - {t}) z'" unfolding zinv_def by blast
  then show ?thesis by (rule that [of "y\<lparr>zs_wq := w\<rparr>"]) (use cp(2) h in \<open>simp_all add: z'\<close>)
qed

lemma zinv_sock_write:
  assumes i: "zinv c {} z" and u: "zusable z s" and e: "z_sock_write c os z s buf = Some (p, z')"
  shows "zinv c {} z'"
proof -
  obtain y where y: "z_sh z s = Some y" using u by (auto simp: zusable_def)
  obtain np z1 where n: "z_task_new c z ZTASK_SOCK_WRITE = (np, z1)" by fastforce
  show ?thesis
  proof (cases np)
    case None
    with n zinv_task_new(1) [OF i n] i e show ?thesis by (simp add: z_sock_write_def)
  next
    case (Some t)
    note tn = zinv_task_new(2) [OF i n Some, of "{}"]
    have i1: "zinv c {t} z1" and x1: "z_th z1 t = Some (z_task0 ZTASK_SOCK_WRITE)" and y1: "z_sh z1 s = Some y"
      using tn y by auto
    have u1: "zusable z1 s" using u tn by (auto simp: zusable_def)
    define x where "x = (z_task0 ZTASK_SOCK_WRITE)\<lparr>zt_sock := Some s, zt_cbuf := buf, zt_len := length buf\<rparr>"
    have sm: "zsame ((z_task0 ZTASK_SOCK_WRITE)\<lparr>zt_sock := Some s\<rparr>) x" by (simp add: x_def zsame_def)
    have kx: "zt_kind x = ZTASK_SOCK_WRITE" "\<not> zt_done x" "zt_sock x = Some s" by (simp_all add: x_def)
    obtain h z2 where p: "z_wq_push (z1\<lparr>z_th := (z_th z1)(t \<mapsto> x)\<rparr>) s t = (h, z2)" by fastforce
    obtain y' where q: "zinv c (if h then {t} else {t} - {t}) z2" "z_th z2 = (z_th z1)(t \<mapsto> x)" "z_sh z2 s = Some y'"
      "h \<Longrightarrow> wq_head (zs_wq y') = Some t"
      by (rule zinv_wq_push [OF i1 x1 _ _ _ sm y1 u1 p]) (auto simp: z_task0_def)
    have ev: "(if h then map_option (\<lambda>z. (Some t, z)) (z_write_arm c os (m_brk z2) z2 t) else Some (Some t, z2)) = Some (p, z')"
      using e n Some x1 y1 p by (simp add: z_sock_write_def zlive x_def [symmetric])
    show ?thesis
    proof (cases h)
      case False
      with q(1) ev show ?thesis by simp
    next
      case True
      have i2: "zinv c {t} z2" "z_th z2 t = Some x" using q True by auto
      obtain xs where "zwrites z2 t x s y' xs" "length xs < m_brk z2" by (rule zinv_writes [OF i2(1,2) kx q(3) q(4) [OF True]])
      from zinv_write_arm [OF i2(1) this] ev True show ?thesis by auto
    qed
  qed
qed

subsection \<open>Closing\<close>

lemma zusable_done:
  assumes "zusable z s" and "z_th z' = (z_th z)(t := if b then None else Some x)" and "zt_done x" and "z_sh z' s \<noteq> None"
  shows "zusable z' s"
  using assms by (auto simp: zusable_def zx_def split: if_splits)

text \<open>What a close does to the tasks: some are cancelled, the detached ones of these freed.\<close>

definition zcan :: "ztheap \<Rightarrow> ztheap \<Rightarrow> bool" where
  "zcan th th' \<longleftrightarrow> (\<forall>q. th q = None \<longrightarrow> th' q = None) \<and> (\<forall>q x. th q = Some x \<longrightarrow> th' q = Some x \<or> \<not> zt_done x \<and>
     th' q = (if zt_detached x then None else Some (x\<lparr>zt_res := mk_result MYIO_CANCELED 0 0 None, zt_done := True\<rparr>)))"

lemma zcan_refl: "zcan th th"
  by (simp add: zcan_def)

lemma zcan_trans:
  assumes "zcan th th1" and "zcan th1 th2"
  shows "zcan th th2"
  unfolding zcan_def
proof (intro conjI allI impI)
  show "th2 q = None" if "th q = None" for q using assms that unfolding zcan_def by blast
  fix q and x :: z_task
  let ?v = "if zt_detached x then None else Some (x\<lparr>zt_res := mk_result MYIO_CANCELED 0 0 None, zt_done := True\<rparr>)"
  assume q: "th q = Some x"
  consider "th1 q = Some x" | "\<not> zt_done x" "th1 q = ?v" using assms(1) q unfolding zcan_def by blast
  then show "th2 q = Some x \<or> \<not> zt_done x \<and> th2 q = ?v"
  proof cases
    case 1
    with assms(2) show ?thesis unfolding zcan_def by blast
  next
    case 2
    then show ?thesis using assms(2) [unfolded zcan_def, THEN conjunct1, rule_format, of q]
        assms(2) [unfolded zcan_def, THEN conjunct2, rule_format, of q "x\<lparr>zt_res := mk_result MYIO_CANCELED 0 0 None, zt_done := True\<rparr>"]
      by (cases "zt_detached x") auto
  qed
qed

lemma zcan_one: "th t = Some x \<Longrightarrow> \<not> zt_done x \<Longrightarrow>
    zcan th (th(t := if zt_detached x then None else Some (x\<lparr>zt_res := mk_result MYIO_CANCELED 0 0 None, zt_done := True\<rparr>)))"
  by (simp add: zcan_def)

text \<open>Closing runs with a fresh inline task at hand, which nothing it cancels can be.\<close>

definition zclosing :: "zcfg \<Rightarrow> addr \<Rightarrow> addr \<Rightarrow> z_io \<Rightarrow> z_sock \<Rightarrow> bool" where
  "zclosing c t s z y \<longleftrightarrow> zinv c {t} z \<and> z_th z t = Some (z_task0 ZTASK_INLINE) \<and> z_sh z s = Some y \<and> zusable z s"

lemma zinv_close_slot:
  assumes i: "zclosing c t s z y" and k: "k = ZTASK_SOCK_READ \<or> k = ZTASK_ACCEPT" and y: "zslot k y = Some q"
    and z': "z' = z_task_canceled c os (z\<lparr>z_sh := (z_sh z)(s \<mapsto> zclear_slot k y)\<rparr>) q"
  shows "zclosing c t s z' (zclear_slot k y) \<and> zcan (z_th z) (z_th z')"
proof -
  have p: "zinv c {t} z" "z_th z t = Some (z_task0 ZTASK_INLINE)" "z_sh z s = Some y" "zusable z s" using i by (auto simp: zclosing_def)
  obtain P D L where li: "zlists {t} z P D L" by (rule zinvE [OF p(1)])
  obtain x where x: "z_th z q = Some x" "zt_kind x = k" "\<not> zt_done x"
    using zslot_task [OF zcore_parts(2) [OF zlists_core [OF li]] p(3) y] by blast
  have qt: "q \<noteq> t" using x p(2) k by auto
  note cs = zinv_complete_slot [OF p(1) x(1,3) _ p(3) _ _ _ zwins_None z' [unfolded z_task_canceled_def], unfolded x(2), OF k y zframe_refl]
  have "z_sh z' = (z_sh z)(s \<mapsto> zclear_slot k y)" by (rule cs(4)) simp_all
  moreover have "zusable z' s" by (rule zusable_done [OF p(4) cs(3)]) (use calculation in simp_all)
  moreover have "zinv c {t} z'" using cs(1) qt by simp
  moreover have th: "z_th z' = (z_th z)(q := if zt_detached x then None
      else Some (x\<lparr>zt_res := mk_result MYIO_CANCELED 0 0 None, zt_done := True\<rparr>))" by (rule cs(3)) simp_all
  moreover have "zcan (z_th z) (z_th z')" unfolding th by (rule zcan_one [of "z_th z", OF x(1,3)])
  ultimately show ?thesis using cs(3) p(2) qt by (simp add: zclosing_def)
qed

lemma zinv_close_read:
  assumes i: "zclosing c t s z y"
  shows "zclosing c t s (z_close_read c os z s) (zclear_slot ZTASK_SOCK_READ y) \<and> zcan (z_th z) (z_th (z_close_read c os z s))"
proof (cases "zs_read_task y")
  case None
  moreover from this have "zclear_slot ZTASK_SOCK_READ y = y" by (simp add: zclear_slot_def)
  ultimately show ?thesis using i by (auto simp: z_close_read_def zclosing_def zlive zcan_refl)
next
  case (Some q)
  have y: "z_sh z s = Some y" using i by (simp add: zclosing_def)
  have "z_close_read c os z s = z_task_canceled c os (z\<lparr>z_sh := (z_sh z)(s \<mapsto> zclear_slot ZTASK_SOCK_READ y)\<rparr>) q"
    using y Some by (simp add: z_close_read_def zlive zclear_slot_def)
  from zinv_close_slot [OF i _ _ this] Some show ?thesis by (simp add: zslot_def)
qed

lemma zinv_close_accept:
  assumes i: "zclosing c t s z y"
  shows "zclosing c t s (z_close_accept c os z s) (zclear_slot ZTASK_ACCEPT y) \<and> zcan (z_th z) (z_th (z_close_accept c os z s))"
proof (cases "zs_accept_task y")
  case None
  moreover from this have "zclear_slot ZTASK_ACCEPT y = y" by (simp add: zclear_slot_def)
  ultimately show ?thesis using i by (auto simp: z_close_accept_def zclosing_def zlive zcan_refl)
next
  case (Some q)
  have y: "z_sh z s = Some y" using i by (simp add: zclosing_def)
  have "z_close_accept c os z s = z_task_canceled c os (z\<lparr>z_sh := (z_sh z)(s \<mapsto> zclear_slot ZTASK_ACCEPT y)\<rparr>) q"
    using y Some by (simp add: z_close_accept_def zlive zclear_slot_def)
  from zinv_close_slot [OF i _ _ this] Some show ?thesis by (simp add: zslot_def)
qed

text \<open>The loop over the queue: whoever is at its head may be in transit.\<close>

definition zdraining :: "zcfg \<Rightarrow> addr \<Rightarrow> addr \<Rightarrow> z_io \<Rightarrow> z_sock \<Rightarrow> bool" where
  "zdraining c t s z y \<longleftrightarrow> (\<exists>F. zinv c F z \<and> t \<in> F \<and> F \<subseteq> insert t (set_option (wq_head (zs_wq y)))) \<and>
     z_th z t = Some (z_task0 ZTASK_INLINE) \<and> z_sh z s = Some y \<and> zusable z s"

lemma zclosing_draining: "zclosing c t s z y \<Longrightarrow> zdraining c t s z y"
  by (auto simp: zclosing_def zdraining_def)

lemma zdraining_closing: "zdraining c t s z y \<Longrightarrow> wq_head (zs_wq y) = None \<Longrightarrow> zclosing c t s z y"
  by (auto simp: zclosing_def zdraining_def dest: subset_singletonD)

lemma zdraining_pop:
  assumes d: "zdraining c t s z y" and l: "wq_list (z_wnext z) (zs_wq y) (q # qs)" and z2: "z2 = z_task_canceled c os (snd (z_wq_pop z s)) q"
  obtains w where "zdraining c t s z2 (y\<lparr>zs_wq := w\<rparr>)" "wq_list (z_wnext z2) w qs" "zcan (z_th z) (z_th z2)"
proof -
  have hq: "wq_head (zs_wq y) = Some q" using wq_list_head [OF l] by simp
  with d obtain F where i: "zinv c F z" "t \<in> F" "F \<subseteq> {t, q}" and p: "z_th z t = Some (z_task0 ZTASK_INLINE)" "z_sh z s = Some y" "zusable z s"
    by (auto simp: zdraining_def)
  obtain P D L where li: "zlists F z P D L" by (rule zinvE [OF i(1)])
  obtain ys where "wq_list (z_wnext z) (zs_wq y) ys" "set ys = zwset (z_th z) s"
    using zwq_list [OF zcore_parts(3) [OF zlists_core [OF li]] p(2)] by blast
  with wq_list_unique [OF l, of ys] have "q \<in> zwset (z_th z) s" by force
  then obtain x where x: "z_th z q = Some x" "zt_kind x = ZTASK_SOCK_WRITE" "\<not> zt_done x" "zt_sock x = Some s" by (auto simp: zwset_def)
  have qt: "q \<noteq> t" using x p(1) by auto
  obtain nx w where po: "myio_wq_pop (z_wnext z) (zs_wq y) = Some (if qs = [] then None else Some (hd qs), nx, w)" "wq_list nx w qs"
    using wq_pop_list [OF l] by auto
  define z1 where "z1 = z\<lparr>z_sh := (z_sh z)(s \<mapsto> y\<lparr>zs_wq := w\<rparr>), z_wnext := nx\<rparr>"
  have z2': "z2 = z_task_complete c os z1 q MYIO_CANCELED 0 0 None"
  proof -
    have "snd (z_wq_pop z s) = z1" using p(2) po(1) by (simp add: z_wq_pop_def zlive z1_def)
    then show ?thesis by (simp add: z2 z_task_canceled_def)
  qed
  have r1: "wq_list nx w (remove1 q (q # qs))" using po(2) by simp
  have fr: "wq_list nx r ys" if "wq_list (z_wnext z) r ys" "set (q # qs) \<inter> set ys = {}" "q \<notin> set ys" for r ys
    by (rule wq_pop_frame [OF l that(1,2) po(1)])
  note cut = zcut_queue [OF i(1) x p(2) l r1 fr z1_def]
  have k: "q \<notin> work_out (m_trace z)" by (rule znot_work [OF i(1) x(1)]) (use x(2) in auto)
  note co = zinv_complete [OF i(1) cut(1) k _ zwins_None z2', simplified]
  have th: "z_th z2 = (z_th z)(q := if zt_detached x then None else Some (x\<lparr>zt_res := mk_result MYIO_CANCELED 0 0 None, zt_done := True\<rparr>))"
    and sh: "z_sh z2 = (z_sh z)(s \<mapsto> y\<lparr>zs_wq := w\<rparr>)" and wn: "z_wnext z2 = nx" using co(3-5) by (simp_all add: z1_def)
  have F: "F - {q} = {t}" using i(2,3) qt by auto
  have "zinv c ({t} \<union> set_option (wq_head w)) z2" using co(1) cut(2) hq unfolding F by simp
  moreover have "zusable z2 s" by (rule zusable_done [OF p(3) th]) (use sh in simp_all)
  ultimately have "zdraining c t s z2 (y\<lparr>zs_wq := w\<rparr>)" unfolding zdraining_def
    using th sh qt p(1) by (intro conjI exI [of _ "{t} \<union> set_option (wq_head w)"]) auto
  moreover have "zcan (z_th z) (z_th z2)" unfolding th by (rule zcan_one [of "z_th z", OF x(1,3)])
  ultimately show ?thesis using that wn po(2) by simp
qed

lemma zinv_close_writes:
  assumes "zdraining c t s z y" and "wq_list (z_wnext z) (zs_wq y) xs" and "length xs \<le> fuel"
  shows "\<exists>w. zclosing c t s (z_close_writes c os fuel z s) (y\<lparr>zs_wq := w\<rparr>) \<and> wq_head w = None \<and>
    zcan (z_th z) (z_th (z_close_writes c os fuel z s))"
  using assms
proof (induction xs arbitrary: z y fuel)
  case Nil
  then have h: "wq_head (zs_wq y) = None" using wq_list_head [OF Nil(2)] by simp
  have "z_sh z s = Some y" using Nil(1) by (simp add: zdraining_def)
  then have "z_close_writes c os fuel z s = z" using h by (cases fuel) (simp_all add: zlive)
  then show ?case using zdraining_closing [OF Nil(1) h] h by (intro exI [of _ "zs_wq y"]) (simp add: zcan_refl)
next
  case (Cons q qs)
  then obtain f where f: "fuel = Suc f" "length qs \<le> f" by (cases fuel) auto
  have y: "z_sh z s = Some y" using Cons.prems(1) by (simp add: zdraining_def)
  obtain w where w: "zdraining c t s (z_task_canceled c os (snd (z_wq_pop z s)) q) (y\<lparr>zs_wq := w\<rparr>)"
    "wq_list (z_wnext (z_task_canceled c os (snd (z_wq_pop z s)) q)) w qs"
    "zcan (z_th z) (z_th (z_task_canceled c os (snd (z_wq_pop z s)) q))" by (rule zdraining_pop [OF Cons.prems(1,2) refl])
  have "z_close_writes c os fuel z s = z_close_writes c os f (z_task_canceled c os (snd (z_wq_pop z s)) q) s"
    using y wq_list_head [OF Cons.prems(2)] by (simp add: f(1) zlive split: prod.splits)
  with Cons.IH [OF w(1) _ f(2)] w(2) zcan_trans [OF w(3)] show ?case by auto
qed

text \<open>The socket is gone; every operation that was pending on it is cancelled.\<close>

definition zsevered :: "addr \<Rightarrow> z_io \<Rightarrow> z_io \<Rightarrow> bool" where
  "zsevered s z z' \<longleftrightarrow> z_sh z' s = None \<and> (\<forall>q x. z_th z q = Some x \<longrightarrow> \<not> zt_done x \<longrightarrow>
     zt_kind x \<in> {ZTASK_SOCK_READ, ZTASK_ACCEPT, ZTASK_SOCK_WRITE} \<longrightarrow> zt_sock x = Some s \<longrightarrow> \<not> zt_detached x \<longrightarrow>
     z_th z' q = Some (x\<lparr>zt_res := mk_result MYIO_CANCELED 0 0 None, zt_done := True\<rparr>))"

lemma zinv_sock_close:
  assumes i: "zinv c {} z" and u: "zusable z s"
  shows "zinv c {} (snd (z_sock_close c os z s))" and "fst (z_sock_close c os z s) = Some q \<Longrightarrow> zsevered s z (snd (z_sock_close c os z s))"
proof -
  obtain y where y: "z_sh z s = Some y" using u by (auto simp: zusable_def)
  obtain np z1 where n: "z_task_new c z ZTASK_INLINE = (np, z1)" by fastforce
  have "zinv c {} (snd (z_sock_close c os z s)) \<and> (fst (z_sock_close c os z s) = Some q \<longrightarrow> zsevered s z (snd (z_sock_close c os z s)))"
  proof (cases np)
    case None
    with n zinv_task_new(1) [OF i n] i show ?thesis by (simp add: z_sock_close_def)
  next
    case (Some t)
    note tn = zinv_task_new(2) [OF i n Some, of "{}"]
    have c1: "zclosing c t s z1 y" using tn y u by (auto simp: zclosing_def zusable_def)
    have y1: "z_sh z1 s = Some y" using c1 by (simp add: zclosing_def)
    define z3 where "z3 = z_close_accept c os (z_close_read c os z1 s) s"
    define y3 where "y3 = zclear_slot ZTASK_ACCEPT (zclear_slot ZTASK_SOCK_READ y)"
    note cr = zinv_close_read [OF c1, of os]
    note ca = zinv_close_accept [OF conjunct1 [OF cr], of os]
    have c3: "zclosing c t s z3 y3" unfolding z3_def y3_def by (rule conjunct1 [OF ca])
    have k3: "zcan (z_th z1) (z_th z3)" unfolding z3_def by (rule zcan_trans [OF conjunct2 [OF cr] conjunct2 [OF ca]])
    have i3: "zinv c {t} z3" "z_sh z3 s = Some y3" using c3 by (simp_all add: zclosing_def)
    obtain P D L where li: "zlists {t} z3 P D L" by (rule zinvE [OF i3(1)])
    obtain xs where xs: "wq_list (z_wnext z3) (zs_wq y3) xs" "set xs = zwset (z_th z3) s"
      using zwq_list [OF zcore_parts(3) [OF zlists_core [OF li]] i3(2)] by blast
    have "set xs \<subseteq> {..<m_brk z3}" using xs(2) zinv_below [OF i3(1)] by (auto simp: zwset_def)
    from card_mono [OF _ this] have ln: "length xs \<le> m_brk z3" using distinct_card [OF wq_list_distinct [OF xs(1)]] by simp
    define z4 where "z4 = z_close_writes c os (m_brk z3) z3 s"
    obtain w where w: "zclosing c t s z4 (y3\<lparr>zs_wq := w\<rparr>)" "wq_head w = None" "zcan (z_th z3) (z_th z4)"
      using zinv_close_writes [OF zclosing_draining [OF c3] xs(1) ln, of os] unfolding z4_def by blast
    have q: "zquiet (y3\<lparr>zs_wq := w\<rparr>)" using w(2) by (auto simp: zquiet_def y3_def zclear_slot_def)
    have i4: "zinv c {t} z4" and l4: "zloose (z_th z4) (z_sh z4) s" and t4: "z_th z4 t = Some (z_task0 ZTASK_INLINE)"
      using w(1) q by (auto simp: zclosing_def zloose_def zusable_def)
    define z5 where "z5 = z_sock_release os z4 s"
    note re = zinv_release(1,2) [OF i4 l4 z5_def]
    have t5: "z_th z5 t = Some (z_task0 ZTASK_INLINE)" using re(2) t4 by simp
    define z6 where "z6 = z_task_ok c os z5 t 0 None"
    have e: "z_sock_close c os z s = (Some t, z6)"
      using n Some y1 by (simp add: z_sock_close_def Let_def zlive z3_def [symmetric] z4_def [symmetric] z5_def z6_def)
    have f5: "zframe (z5\<lparr>z_th := (z_th z5)(t \<mapsto> z_task0 ZTASK_INLINE)\<rparr>) z5" using t5 by (auto simp: zframe_def)
    note cp = zinv_complete_plain [OF re(1) t5 _ _ refl refl refl refl f5 _ zwins_None z6_def [unfolded z_task_ok_def], simplified]
    have "zsevered s z z6"
      unfolding zsevered_def
    proof (intro conjI allI impI)
      show "z_sh z6 s = None" using cp(4) zinv_release(3) [OF i4 l4 z5_def] by simp
      fix q x
      assume q: "z_th z q = Some x" "\<not> zt_done x" "zt_kind x \<in> {ZTASK_SOCK_READ, ZTASK_ACCEPT, ZTASK_SOCK_WRITE}"
        "zt_sock x = Some s" "\<not> zt_detached x"
      have q1: "z_th z1 q = Some x" "q \<noteq> t" using q(1) tn by auto
      obtain P4 D4 L4 where l4': "zlists {t} z4 P4 D4 L4" by (rule zinvE [OF i4])
      have "z_th z4 q \<noteq> Some x" using zloose_idle(2) [OF zlists_core [OF l4'] l4, of q x] q q1(2) by auto
      then have "z_th z4 q = Some (x\<lparr>zt_res := mk_result MYIO_CANCELED 0 0 None, zt_done := True\<rparr>)"
        using zcan_trans [OF k3 w(3)] q1(1) q(5) unfolding zcan_def by (metis (full_types))
      then show "z_th z6 q = Some (x\<lparr>zt_res := mk_result MYIO_CANCELED 0 0 None, zt_done := True\<rparr>)"
        using cp(3) re(2) q1(2) by simp
    qed
    with cp(1) e show ?thesis by simp
  qed
  then show "zinv c {} (snd (z_sock_close c os z s))" "fst (z_sock_close c os z s) = Some q \<Longrightarrow> zsevered s z (snd (z_sock_close c os z s))"
    by auto
qed

lemma zinv_sock_port:
  assumes i: "zinv c F z" and u: "zusable z s"
  shows "zinv c F (snd (z_sock_port os z s))"
proof -
  obtain y where y: "z_sh z s = Some y" using u by (auto simp: zusable_def)
  obtain a z1 where u1: "z_call os (C_getsockname (zs_fd y)) z = (a, z1)" by fastforce
  have "zframe z z1" by (rule z_call_zframe [OF _ u1]) simp
  with zframe_inv i have "zinv c F z1" by simp
  with y u1 show ?thesis by (simp add: z_sock_port_def zlive Let_def)
qed

end
