(* ===== verification/Myio_Zephyr_Run.thy ===== *)
theory Myio_Zephyr_Run
  imports Myio_Zephyr_Ops
begin

text \<open>
  The event loop of the Zephyr backend, cancellation, and the end of tasks and of the
  instance. The backend meets the interface of \<open>Myio_Api\<close>.
\<close>

subsection \<open>The tasks on the in-flight list\<close>

lemma zlisted:
  assumes l: "zlists {} z P D L" and t: "t \<in> set P"
  obtains x where "z_th z t = Some x" "\<not> zt_done x" "zt_kind x = ZTASK_SOCK_WRITE \<Longrightarrow> zhead (z_sh z) t x"
    "zt_kind x = ZTASK_SOCK_READ \<or> zt_kind x = ZTASK_ACCEPT \<Longrightarrow> zplaced z t x"
    "z_events (zt_kind x) \<noteq> None \<Longrightarrow> \<exists>s y. zt_sock x = Some s \<and> z_sh z s = Some y"
proof -
  note p = zcore_parts [OF zlists_core [OF l]]
  from t p(7) obtain x where x: "z_th z t = Some x" "\<not> zt_done x" "zt_kind x = ZTASK_SOCK_WRITE \<longrightarrow> zhead (z_sh z) t x"
    by (auto simp: zpset_def)
  have pl: "zplaced z t x" if "zt_kind x = ZTASK_SOCK_READ \<or> zt_kind x = ZTASK_ACCEPT"
    using zslot_back [OF p(2) x(1,2) _ that] x that by (auto simp: zplaced_def)
  have co: "\<exists>s y. zt_sock x = Some s \<and> z_sh z s = Some y" if k: "zt_kind x = ZTASK_CONNECT"
  proof -
    from ztask_invD [OF p(1) x(1)] x(2) k obtain s where s: "zt_sock x = Some s" by (auto simp: ztask_ok_def)
    then have "zx x = Some s" using x(2) k by (simp add: zx_def)
    with zx_live [OF p(4) x(1)] s show ?thesis by blast
  qed
  have "\<exists>s y. zt_sock x = Some s \<and> z_sh z s = Some y" if "z_events (zt_kind x) \<noteq> None"
    using that pl co x(3) by (cases "zt_kind x") (auto simp: zplaced_def zhead_def)
  with that [of x] x pl show ?thesis by blast
qed

lemma zlisted_count:
  assumes i: "zinv c {} z" and l: "zlists {} z P D L"
  shows "length P \<le> cfg_max_tasks c" and "length P \<le> m_brk z"
proof -
  have d: "set P \<subseteq> dom (z_th z)" using zcore_parts(7) [OF zlists_core [OF l]] by (auto simp: zpset_def)
  have di: "distinct P" using l by (auto simp: zlists_def dest: sl_list_distinct)
  have "length P \<le> card (dom (z_th z))" using card_mono [OF zinv_finite [OF i] d] distinct_card [OF di] by simp
  also have "\<dots> \<le> cfg_max_tasks c" using i by (auto simp: zinv_def zslabs_def)
  finally show "length P \<le> cfg_max_tasks c" .
  have "set P \<subseteq> {..<m_brk z}" using d zinv_below [OF i] by blast
  from card_mono [OF _ this] show "length P \<le> m_brk z" using distinct_card [OF di] by simp
qed

text \<open>Nothing on the list: nothing is pending.\<close>

lemma zinv_idle:
  assumes i: "zinv c {} z" and h: "sl_head (z_pend z) = None" and t: "z_th z t = Some x"
  shows "zt_done x"
proof (rule ccontr)
  assume nd: "\<not> zt_done x"
  obtain P D L where li: "zlists {} z P D L" by (rule zinvE [OF i])
  note p = zcore_parts [OF zlists_core [OF li]]
  have "P = []" using li sl_list_head [of "z_pend z" P] h by (auto simp: zlists_def split: if_splits)
  then have e: "zpset {} (z_th z) (z_sh z) = {}" using p(7) by simp
  have k: "zt_kind x = ZTASK_SOCK_WRITE" using e t nd by (auto simp: zpset_def)
  obtain s where s: "zt_sock x = Some s" using ztask_invD [OF p(1) t] nd k by (auto simp: ztask_ok_def)
  have m: "t \<in> zwset (z_th z) s" by (rule zwset_I [of "z_th z", OF t k nd s])
  then obtain y where y: "z_sh z s = Some y" using zwq_live [OF p(3)] by blast
  obtain xs where xs: "wq_list (z_wnext z) (zs_wq y) xs" "set xs = zwset (z_th z) s" using zwq_list [OF p(3) y] by blast
  then obtain q qs where q: "xs = q # qs" using m by (cases xs) auto
  then have "q \<in> zwset (z_th z) s" "wq_head (zs_wq y) = Some q" using xs wq_list_head [OF xs(1)] by auto
  then have "q \<in> zpset {} (z_th z) (z_sh z)" using y by (auto simp: zpset_def zwset_def zhead_def)
  with e show False by simp
qed

subsection \<open>Filling the poll array\<close>

text \<open>The scan changes nothing; the array holds at most one entry per task.\<close>

lemma z_scan_list:
  assumes l: "zlists {} z P D L" and P: "P = as @ bs" and n: "length bs \<le> fuel" "length fds + length bs \<le> cfg_max_tasks c"
    and e: "z_scan c fuel z (if bs = [] then None else Some (hd bs)) fds owner dl = ((fds', owner', dl'), z')"
  shows "z' = z \<and> length fds' \<le> cfg_max_tasks c \<and> (length owner = length fds \<longrightarrow> length owner' = length fds') \<and>
    set owner' \<subseteq> set owner \<union> set bs"
  using P n e
proof (induction bs arbitrary: as fuel fds owner dl)
  case (Cons t bs)
  obtain f where f: "fuel = Suc f" "length bs \<le> f" using Cons.prems(2) by (cases fuel) auto
  obtain x where x: "z_th z t = Some x" "z_events (zt_kind x) \<noteq> None \<Longrightarrow> \<exists>s y. zt_sock x = Some s \<and> z_sh z s = Some y"
    by (rule zlisted [OF l, of t]) (use Cons.prems(1) in auto)
  have nx: "sl_next (z_pend z) t = (if bs = [] then None else Some (hd bs))"
    using l Cons.prems(1) by (auto simp: zlists_def sl_list_next)
  have P': "P = (as @ [t]) @ bs" using Cons.prems(1) by simp
  show ?case
  proof (cases "z_events (zt_kind x)")
    case None
    with Cons.prems(3,4) f x(1) nx obtain d where
      "z_scan c f z (if bs = [] then None else Some (hd bs)) fds owner d = ((fds', owner', dl'), z')"
      by (auto simp: zlive Let_def simp del: z_events.simps split: if_splits)
    from Cons.IH [OF P' f(2) _ this] Cons.prems(3) show ?thesis by auto
  next
    case (Some ev)
    with x(2) obtain s y where s: "zt_sock x = Some s" "z_sh z s = Some y" by auto
    have "zt_kind x \<noteq> ZTASK_TIMER" using Some by auto
    then have "z_scan c f z (if bs = [] then None else Some (hd bs)) (fds @ [(zs_fd y, ev)]) (owner @ [t]) dl = ((fds', owner', dl'), z')"
      using Cons.prems(3,4) f x(1) nx Some s by (simp add: zlive Let_def)
    from Cons.IH [OF P' f(2) _ this] Cons.prems(3) show ?thesis by auto
  qed
qed simp

subsection \<open>Timers\<close>

lemma z_pend_sys [simp]: "z_pend (snd (sys_call os q z)) = z_pend z" "z_pend (snd (z_call os q z)) = z_pend z"
  by (simp_all add: sys_call_def z_call_def Let_def)

lemma z_pend_reap [simp]: "z_pend (z_task_free_mem c os z t) = z_pend z" "z_pend (z_sock_release os z s) = z_pend z"
    "z_pend (z_task_reap c os z t) = z_pend z"
proof -
  show a: "z_pend (z_task_free_mem c os z t) = z_pend z" for z
    by (auto simp: z_task_free_mem_def free_zt_def chk_zt_def m_flag_def Let_def sys_call_def)
  show b: "z_pend (z_sock_release os z s) = z_pend z" for z s
    by (auto simp: z_sock_release_def free_zs_def chk_zs_def m_flag_def Let_def sys_call_def z_call_def split: option.splits)
  show "z_pend (z_task_reap c os z t) = z_pend z"
    by (auto simp: z_task_reap_def a b chk_zt_def m_flag_def Let_def split: option.splits)
qed

lemma z_complete_pend:
  assumes "sl_list (z_pend z) P"
  shows "sl_list (z_pend (z_task_complete c os z t st v e p)) (remove1 t P)"
proof -
  obtain d where d: "z_pending_remove z t = z\<lparr>z_pend := d\<rparr>" "sl_list d (remove1 t P)" by (rule pending_remove_eq [OF assms])
  show ?thesis using d(2) by (auto simp: z_task_complete_def d(1) Let_def upd_zt_def m_flag_def split: option.splits)
qed

lemma zinv_timer_fires:
  assumes i: "zinv c F z" and t: "z_th z t = Some x" "\<not> zt_done x" "zt_kind x = ZTASK_TIMER" "t \<notin> F"
    and st: "st \<noteq> MYIO_PENDING" and z': "z' = z_task_complete c os z t st v e None"
  shows "zinv c F z'" and "zkeeps {} z z'" and "m_brk z' = m_brk z"
    and "z_th z' = (z_th z)(t := if zt_detached x then None else Some (x\<lparr>zt_res := mk_result st v e None, zt_done := True\<rparr>))"
proof -
  have f: "zframe (z\<lparr>z_th := (z_th z)(t \<mapsto> x)\<rparr>) z" using t(1) by (auto simp: zframe_def)
  note cp = zinv_complete_plain [OF i t(1,2) _ refl refl refl refl f st zwins_None z']
  show "zinv c F z'" "zkeeps {} z z'" "m_brk z' = m_brk z" using cp(1,2,5) t(3,4) by simp_all
  show "z_th z' = (z_th z)(t := if zt_detached x then None else Some (x\<lparr>zt_res := mk_result st v e None, zt_done := True\<rparr>))"
    by (rule cp(3)) (simp add: t(3))
qed

lemma zinv_timers:
  assumes "zinv c {} z" and "sl_list (z_pend z) (as @ bs)" and "length bs \<le> fuel"
  shows "zinv c {} (z_timers c os fuel z (if bs = [] then None else Some (hd bs)) now) \<and>
    zkeeps {} z (z_timers c os fuel z (if bs = [] then None else Some (hd bs)) now)"
  using assms
proof (induction bs arbitrary: z as fuel)
  case Nil
  then show ?case by (simp add: zkeeps_refl)
next
  case (Cons t bs)
  obtain f where f: "fuel = Suc f" "length bs \<le> f" using Cons.prems(3) by (cases fuel) auto
  obtain P D L where li: "zlists {} z P D L" by (rule zinvE [OF Cons.prems(1)])
  have P: "P = as @ t # bs" using li Cons.prems(2) by (auto simp: zlists_def dest: sl_list_unique)
  obtain x where x: "z_th z t = Some x" "\<not> zt_done x" by (rule zlisted [OF li, of t]) (use P in auto)
  have nx: "sl_next (z_pend z) t = (if bs = [] then None else Some (hd bs))" using sl_list_next [OF Cons.prems(2)] .
  define z1 where "z1 = (if zt_kind x = ZTASK_TIMER \<and> zt_deadline x \<le> now then z_task_ok c os z t 0 None else z)"
  have step: "z_timers c os fuel z (Some t) now = z_timers c os f z1 (if bs = [] then None else Some (hd bs)) now"
    using x(1) nx by (simp add: f(1) zlive Let_def z1_def)
  show ?case
  proof (cases "zt_kind x = ZTASK_TIMER \<and> zt_deadline x \<le> now")
    case True
    then have z1: "z1 = z_task_complete c os z t MYIO_OK 0 0 None" by (simp add: z1_def z_task_ok_def)
    have k: "zt_kind x = ZTASK_TIMER" using True by simp
    note tf = zinv_timer_fires(1,2) [OF Cons.prems(1) x k _ _ z1, simplified]
    have "remove1 t (as @ t # bs) = as @ bs" using sl_list_distinct [OF Cons.prems(2)] by (simp add: remove1_append)
    then have "sl_list (z_pend z1) (as @ bs)" using z_complete_pend [OF Cons.prems(2), of c os t MYIO_OK 0 0 None] z1 by simp
    from Cons.IH [OF tf(1) this f(2)] step tf(2) show ?thesis by (auto intro: zkeeps_trans)
  next
    case False
    then have "z1 = z" by (auto simp: z1_def)
    moreover have "sl_list (z_pend z) ((as @ [t]) @ bs)" using Cons.prems(2) by simp
    note Cons.IH [OF Cons.prems(1) this f(2)]
    ultimately show ?thesis using step by simp
  qed
qed

subsection \<open>One turn of the loop\<close>

lemma zinv_ready:
  assumes i: "zinv c {} z" and l: "zlists {} z P D L" and t: "t \<in> set P" and e: "z_ready c os z t = Some z'"
  shows "zinv c {} z'" and "zkeeps {} z z'"
proof -
  obtain x where x: "z_th z t = Some x" "\<not> zt_done x" "zt_kind x = ZTASK_SOCK_WRITE \<Longrightarrow> zhead (z_sh z) t x"
    "zt_kind x = ZTASK_SOCK_READ \<or> zt_kind x = ZTASK_ACCEPT \<Longrightarrow> zplaced z t x" by (rule zlisted [OF l t]) blast
  have "zinv c {} z' \<and> zkeeps {} z z'"
  proof (cases "zt_kind x")
    case ZTASK_CONNECT
    with zinv_connect_ready [OF i x(1,2) _ _ refl, of os] e x(1) show ?thesis by (simp add: z_ready_def zlive)
  next
    case ZTASK_ACCEPT
    obtain b w where r: "z_accept_try c os z t = (b, w)" by fastforce
    have "zplaced z t x" using x(4) ZTASK_ACCEPT by simp
    note at = zinv_accept_try [OF i this ZTASK_ACCEPT r]
    have "z' = w" using e x(1) r ZTASK_ACCEPT by (simp add: z_ready_def zlive)
    with at zframe_inv zframe_keeps i show ?thesis by (cases b) auto
  next
    case ZTASK_SOCK_READ
    obtain b w where r: "z_read_try c os z t = (b, w)" by fastforce
    have "zplaced z t x" using x(4) ZTASK_SOCK_READ by simp
    note at = zinv_read_try [OF i this ZTASK_SOCK_READ r]
    have "z' = w" using e x(1) r ZTASK_SOCK_READ by (simp add: z_ready_def zlive)
    with at zframe_inv zframe_keeps i show ?thesis by (cases b) auto
  next
    case ZTASK_SOCK_WRITE
    with zinv_write_ready [OF i x(1) _ x(2) x(3), of os z'] e x(1) show ?thesis by (simp add: z_ready_def zlive)
  qed (use e x(1) i in \<open>auto simp: z_ready_def zlive zkeeps_refl\<close>)
  then show "zinv c {} z'" "zkeeps {} z z'" by auto
qed

lemma zinv_dispatch:
  assumes "zinv c {} z" and "z_dispatch c os z ts = Some z'"
  shows "zinv c {} z' \<and> zkeeps {} z z'"
  using assms
proof (induction ts arbitrary: z)
  case Nil
  then show ?case by (auto simp: zkeeps_refl)
next
  case (Cons tr ts)
  obtain t rev where tr: "tr = (t, rev)" by (cases tr)
  obtain P D L where li: "zlists {} z P D L" by (rule zinvE [OF Cons.prems(1)])
  have m: "sl_mem (z_pend z) t = Some (t \<in> set P)" using li by (simp add: zlists_def sl_mem_list)
  show ?case
  proof (cases "rev \<and> t \<in> set P")
    case True
    with Cons.prems(2) tr m obtain z1 where z1: "z_ready c os z t = Some z1" "z_dispatch c os z1 ts = Some z'"
      by (cases "z_ready c os z t") auto
    have tP: "t \<in> set P" using True by simp
    note r = zinv_ready [OF Cons.prems(1) li tP z1(1)]
    from Cons.IH [OF r(1) z1(2)] r(2) show ?thesis by (auto intro: zkeeps_trans)
  next
    case False
    with Cons.prems(2) tr m have "z_dispatch c os z ts = Some z'" by (auto split: if_splits)
    from Cons.IH [OF Cons.prems(1) this] show ?thesis .
  qed
qed

lemma zinv_loop_once:
  assumes w: "workq_ok os" and i: "zinv c {} z" and e: "run_loop_once c os z = Some z'"
  shows "zinv c {} z'" and "zkeeps {} z z'"
proof -
  obtain P D L where li: "zlists {} z P D L" by (rule zinvE [OF i])
  have sP: "sl_list (z_pend z) P" using li by (simp add: zlists_def)
  note ct = zlisted_count [OF i li]
  obtain fds ow dl z0 where s: "z_scan c (m_brk z) z (sl_head (z_pend z)) [] [] INT64_MAX = ((fds, ow, dl), z0)"
    by (metis prod.exhaust)
  have sc: "z0 = z" "length fds \<le> cfg_max_tasks c"
    using z_scan_list [OF li _ ct(2), of "[]" "[]" c "[]" INT64_MAX fds ow dl z0] ct(1) s sl_list_head [OF sP] by auto
  have sc2: "(if length fds \<le> cfg_max_tasks c then z else m_flag z) = z" using sc(2) by simp
  obtain tmo z1 where u1: "(if dl \<noteq> INT64_MAX then let (u, z) = sys_call os C_uptime z in (z_timeout dl (a_ret u), z) else (- 1, z)) = (tmo, z1)"
    by fastforce
  have f1: "zframe z z1" using u1 sys_call_zframe [of C_uptime os z] by (auto split: if_splits prod.splits)
  have i1: "zinv c {} z1" using zframe_inv [OF f1] i by simp
  define z2 where "z2 = z_others c os z1"
  note o = zinv_others [OF w i1 z2_def]
  obtain rc z3 where u3: "sys_call os (C_poll (fds @ [(z_evfd z, ZSOCK_POLLIN)]) tmo) z2 = (rc, z3)" by fastforce
  obtain now z4 where u4: "sys_call os C_uptime z3 = (now, z4)" by fastforce
  have f4: "zframe z2 z4" by (rule zframe_trans [OF sys_call_zframe [OF _ u3] sys_call_zframe [OF _ u4]]) simp_all
  have i4: "zinv c {} z4" using zframe_inv [OF f4] o(1) by simp
  obtain P4 D4 L4 where l4: "zlists {} z4 P4 D4 L4" by (rule zinvE [OF i4])
  have s4: "sl_list (z_pend z4) ([] @ P4)" using l4 by (simp add: zlists_def)
  define z5 where "z5 = z_timers c os (m_brk z4) z4 (sl_head (z_pend z4)) (a_ret now)"
  have i5: "zinv c {} z5" "zkeeps {} z4 z5"
    using zinv_timers [OF i4 s4 zlisted_count(2) [OF i4 l4], of os "a_ret now"] sl_list_head [OF s4] by (auto simp: z5_def)
  have k5: "zkeeps {} z z5"
    by (rule zkeeps_trans [OF zframe_keeps [OF f1] zkeeps_trans [OF o(2) zkeeps_trans [OF zframe_keeps [OF f4] i5(2)]]])
  let ?fin = "\<lambda>z. if revents_at rc (length ow) then
               let (_, z) = sys_call os (C_eventfd_read (z_evfd z)) z
               in if cfg_spawn_inline c then z else drain_spawn_done c os z
             else z"
  have ev: "run_loop_once c os z = (if a_ret rc \<le> 0 then Some z5 else map_option ?fin
      (z_dispatch c os z5 (zip ow (map (revents_at rc) [0..<length ow]))))"
    unfolding run_loop_once_def Let_def s [unfolded sc(1)] prod.case sc2 u1 [unfolded Let_def] z2_def [symmetric] u3 u4 z5_def [symmetric]
    by (rule refl)
  have fin: "zinv c {} (?fin x) \<and> zkeeps {} x (?fin x)" if "zinv c {} x" for x
  proof -
    obtain b y where u: "sys_call os (C_eventfd_read (z_evfd x)) x = (b, y)" by fastforce
    have f: "zframe x y" by (rule sys_call_zframe [OF _ u]) simp
    have iy: "zinv c {} y" using zframe_inv [OF f] that by simp
    show ?thesis using zinv_drain_spawn_done [OF w iy refl] iy zframe_keeps [OF f] that u
      by (auto simp: zkeeps_refl intro: zkeeps_trans)
  qed
  have "zinv c {} z' \<and> zkeeps {} z z'"
  proof (cases "a_ret rc \<le> 0")
    case True
    with e ev i5 k5 show ?thesis by simp
  next
    case False
    with e ev obtain z6 where d: "z_dispatch c os z5 (zip ow (map (revents_at rc) [0..<length ow])) = Some z6" and z': "z' = ?fin z6" by auto
    note di = zinv_dispatch [OF i5(1) d]
    have "zinv c {} z'" "zkeeps {} z6 z'" using fin [of z6] di unfolding z' by blast+
    then show ?thesis using zkeeps_trans [OF k5 zkeeps_trans [of _ z5 z6 z']] di by blast
  qed
  then show "zinv c {} z'" "zkeeps {} z z'" by auto
qed

lemma zinv_step:
  assumes w: "workq_ok os" and i: "zinv c {} z" and e: "z_step c os z = Some (b, z')"
  shows "zinv c {} z'" and "zkeeps {} z z'" and "\<not> b \<Longrightarrow> z' = z \<and> (\<forall>t x. z_th z t = Some x \<longrightarrow> zt_done x)"
proof -
  have "(zinv c {} z' \<and> zkeeps {} z z') \<and> (\<not> b \<longrightarrow> z' = z \<and> (\<forall>t x. z_th z t = Some x \<longrightarrow> zt_done x))"
  proof (cases "sl_head (z_pend z) = None")
    case True
    with e i zinv_idle [OF i True] show ?thesis by (auto simp: z_step_def z_progress_possible_def zkeeps_refl)
  next
    case False
    with e zinv_loop_once [OF w i] show ?thesis by (auto simp: z_step_def z_progress_possible_def)
  qed
  then show "zinv c {} z'" "zkeeps {} z z'" "\<not> b \<Longrightarrow> z' = z \<and> (\<forall>t x. z_th z t = Some x \<longrightarrow> zt_done x)" by auto
qed

subsection \<open>Cancellation\<close>

text \<open>A completed task, unless it was detached.\<close>

definition zended :: "z_io \<Rightarrow> addr \<Rightarrow> z_task \<Rightarrow> myio_status \<Rightarrow> bool" where
  "zended z t x st \<longleftrightarrow> (\<not> zt_detached x \<longrightarrow> (\<exists>x'. z_th z t = Some x' \<and> \<not> zt_detached x' \<and> zt_done x' \<and> res_status (zt_res x') = st))"

lemma zended_keeps: "zended z t x st \<Longrightarrow> zkeeps {} z z' \<Longrightarrow> zended z' t x st"
  unfolding zended_def zkeeps_def zkeep_def by (metis empty_iff)

lemma mk_result_status [simp]: "res_status (mk_result st v e p) = st"
  by (simp add: mk_result_def)

lemma zinv_cancel_write:
  assumes i: "zinv c {} z" and t: "z_th z t = Some x" "\<not> zt_done x" "zt_kind x = ZTASK_SOCK_WRITE" "zt_sock x = Some s"
    and e: "z_cancel_write c os z t s = Some (rc, z')"
  shows "zinv c {} z'" and "zkeeps {} z z'" and "rc = 0 \<and> zended z' t x MYIO_CANCELED \<or> rc = - 1 \<and> z' = z"
proof -
  obtain P D L where li: "zlists {} z P D L" by (rule zinvE [OF i])
  note p = zcore_parts [OF zlists_core [OF li]]
  have "t \<in> zwset (z_th z) s" by (rule zwset_I [of "z_th z", OF t(1,3,2,4)])
  then obtain y where y: "z_sh z s = Some y" using zwq_live [OF p(3)] by blast
  obtain xs where xs: "wq_list (z_wnext z) (zs_wq y) xs" "set xs = zwset (z_th z) s" using zwq_list [OF p(3) y] by blast
  obtain nx w where rm: "myio_wq_remove (z_wnext z) (zs_wq y) t = Some (t \<in> set xs, nx, w)" "wq_list nx w (remove1 t xs)"
    using wq_remove_list [OF xs(1)] by blast
  have fr: "wq_list nx q ys" if "wq_list (z_wnext z) q ys" "set xs \<inter> set ys = {}" "t \<notin> set ys" for q ys
    by (rule wq_remove_frame [OF xs(1) that rm(1)])
  define z1 where "z1 = z\<lparr>z_sh := (z_sh z)(s \<mapsto> y\<lparr>zs_wq := w\<rparr>), z_wnext := nx\<rparr>"
  have r1: "z_wq_remove z s t = z1" using y rm(1) by (simp add: z_wq_remove_def zlive z1_def)
  define z2 where "z2 = z_task_complete c os z1 t MYIO_CANCELED 0 0 None"
  note cut = zcut_queue [OF i t(1,3,2,4) y xs(1) rm(2) fr z1_def]
  have k: "t \<notin> work_out (m_trace z)" by (rule znot_work [OF i t(1)]) (use t(3) in auto)
  note co = zinv_complete [OF i cut(1) k _ zwins_None z2_def, simplified]
  let ?was = "wq_head (zs_wq y) = Some t"
  have i2: "zinv c (if ?was then set_option (wq_head w) else {}) z2" using co(1) cut(2) by simp
  have k2: "zkeeps {} z z2" by (rule co(2))
  have sh2: "z_sh z2 s = Some (y\<lparr>zs_wq := w\<rparr>)" using co(4) by (simp add: z1_def)
  have th2: "zended z2 t x MYIO_CANCELED" using co(3) by (auto simp: zended_def z1_def)
  have ev: "z_cancel_write c os z t s = (if zt_off x > 0 then Some (- 1, z) else
      (case wq_head w of Some n \<Rightarrow> if ?was then map_option (\<lambda>z. (0, z)) (z_write_arm c os (m_brk z2) z2 n) else Some (0, z2)
       | None \<Rightarrow> Some (0, z2)))"
    using t(1) y r1 sh2 by (cases "wq_head w") (simp_all add: z_cancel_write_def zlive Let_def z_task_canceled_def z2_def [symmetric])
  consider "zt_off x > 0" | "\<not> zt_off x > 0" "\<not> ?was \<or> wq_head w = None" | n where "\<not> zt_off x > 0" ?was "wq_head w = Some n" by fastforce
  then have "zinv c {} z' \<and> zkeeps {} z z' \<and> (rc = 0 \<and> zended z' t x MYIO_CANCELED \<or> rc = - 1 \<and> z' = z)"
  proof cases
    case 1
    with e ev i show ?thesis by (auto simp: zkeeps_refl)
  next
    case 2
    with e ev have "rc = 0" "z' = z2" by (auto split: option.splits if_splits)
    moreover have "zinv c {} z2" using i2 2 by (auto split: if_splits)
    ultimately show ?thesis using k2 th2 by simp
  next
    case (3 n)
    with e ev have rc: "rc = 0" and arm: "z_write_arm c os (m_brk z2) z2 n = Some z'" by auto
    have in2: "zinv c {n} z2" using i2 3 by simp
    obtain P2 D2 L2 where l2: "zlists {n} z2 P2 D2 L2" by (rule zinvE [OF in2])
    note p2 = zcore_parts [OF zlists_core [OF l2]]
    obtain ys where ys: "wq_list (z_wnext z2) (zs_wq (y\<lparr>zs_wq := w\<rparr>)) ys" "set ys = zwset (z_th z2) s" using zwq_list [OF p2(3) sh2] by blast
    have "n \<in> set ys" using wq_list_head [OF ys(1)] 3(3) by (auto split: if_splits)
    then obtain xn where xn: "z_th z2 n = Some xn" "zt_kind xn = ZTASK_SOCK_WRITE" "\<not> zt_done xn" "zt_sock xn = Some s"
      using ys(2) by (auto simp: zwset_def)
    have hn: "wq_head (zs_wq (y\<lparr>zs_wq := w\<rparr>)) = Some n" using 3(3) by simp
    obtain zs where "zwrites z2 n xn s (y\<lparr>zs_wq := w\<rparr>) zs" "length zs < m_brk z2" by (rule zinv_writes [OF in2 xn sh2 hn])
    from zinv_write_arm [OF in2 this arm] have "zinv c {} z'" "zkeeps {} z2 z'" by auto
    with rc k2 zended_keeps [OF th2] show ?thesis by (auto intro: zkeeps_trans)
  qed
  then show "zinv c {} z'" "zkeeps {} z z'" "rc = 0 \<and> zended z' t x MYIO_CANCELED \<or> rc = - 1 \<and> z' = z" by auto
qed

lemma zinv_cancel_spawn:
  assumes w: "workq_ok os" and i: "zinv c {} z" and t: "z_th z t = Some x" "\<not> zt_done x" "zt_kind x = ZTASK_SPAWN" and ci: "\<not> cfg_spawn_inline c"
    and e: "z_cancel c os z t = Some (rc, z')"
  shows "zinv c {} z'" and "zkeeps {} z z'" and "rc = 0 \<and> zended z' t x MYIO_CANCELED \<or> rc = - 1 \<and> zmild z z'"
proof -
  define z1 where "z1 = z_others c os z"
  note o = zinv_others [OF w i z1_def]
  obtain x1 where x1: "z_th z1 t = Some x1" "zrest x1 = zrest x" by (rule zmild_task [OF o(3) t(1)])
  note r = zrest_eq [OF x1(2)]
  obtain a z2 where u: "sys_call os (C_work_cancel t) z1 = (a, z2)" by fastforce
  have z2: "z2 = z1\<lparr>m_trace := (C_work_cancel t, a) # m_trace z1\<rparr>" using u by (auto simp: sys_call_def Let_def)
  have ev: "(rc, z') = (if zt_pushed x1 then (- 1, z1) else if a_ret a = 0 then (0, z_task_complete c os z2 t MYIO_CANCELED 0 0 None) else (- 1, z2))"
    using e t ci x1(1) u by (auto simp: z_cancel_def zlive z1_def [symmetric] z_task_canceled_def Let_def split: if_splits)
  obtain P D L where fl: "\<not> m_fault z1" "zslabs c z1" and li: "zlists {} z1 P D L" by (rule zinvE [OF o(1)])
  consider "zt_pushed x1" | "\<not> zt_pushed x1" "a_ret a \<noteq> 0" | "\<not> zt_pushed x1" "a_ret a = 0" by blast
  then have "zinv c {} z' \<and> zkeeps {} z z' \<and> (rc = 0 \<and> zended z' t x MYIO_CANCELED \<or> rc = - 1 \<and> zmild z z')"
  proof cases
    case 1
    with ev o show ?thesis by auto
  next
    case 2
    have f: "zframe z1 z2" using 2 by (simp add: zframe_def z2)
    with ev 2 o(1) zframe_inv [OF f] zkeeps_trans [OF o(2) zframe_keeps [OF f]] zmild_trans [OF o(3) zframe_mild [OF f]] show ?thesis by auto
  next
    case 3
    have "zlists {} z2 P D L" using li zcore_unsubmit [OF zlists_core [OF li], of t] 3 by (simp add: zlists_def z2)
    then have i2: "zinv c {} z2" using fl by (auto simp: zinv_def z2 zslabs_def)
    have k2: "zkeeps {} z1 z2" by (simp add: z2 zkeeps_def zkeep_refl)
    have x2: "z_th z2 t = Some x1" "\<not> zt_done x1" using x1 r t by (simp_all add: z2)
    have nk: "zt_kind x1 \<notin> {ZTASK_SOCK_READ, ZTASK_ACCEPT, ZTASK_SOCK_WRITE}" using r t by simp
    have fx: "zframe (z2\<lparr>z_th := (z_th z2)(t \<mapsto> x1)\<rparr>) z2" using x2(1) by (auto simp: zframe_def)
    note cut = zcut_plain [OF i2 x2 3(1) nk refl refl refl refl fx]
    have kt: "t \<notin> work_out (m_trace z2)" using 3 by (simp add: z2)
    have st: "MYIO_CANCELED \<noteq> MYIO_PENDING" by simp
    note co = zinv_complete [OF i2 cut(1) kt st zwins_None refl, of os 0 0]
    from ev 3 have z': "rc = 0" "z' = z_task_complete c os z2 t MYIO_CANCELED 0 0 None" by auto
    have "zinv c {} z'" using co(1) cut(2) z' by simp
    moreover have "zkeeps {} z z'" using zkeeps_trans [OF o(2) zkeeps_trans [OF k2 co(2)]] z' by simp
    moreover have "zended z' t x MYIO_CANCELED" using co(3) r(3) z' by (simp add: zended_def)
    ultimately show ?thesis using z' by simp
  qed
  then show "zinv c {} z'" "zkeeps {} z z'" "rc = 0 \<and> zended z' t x MYIO_CANCELED \<or> rc = - 1 \<and> zmild z z'" by auto
qed

lemma zinv_cancel:
  assumes w: "workq_ok os" and i: "zinv c {} z" and t: "z_th z t = Some x" and e: "z_cancel c os z t = Some (rc, z')"
  shows "zinv c {} z'" and "zkeeps {} z z'" and "rc = 0 \<and> \<not> zt_done x \<and> zended z' t x MYIO_CANCELED \<or> rc = - 1 \<and> zmild z z'"
proof -
  obtain P D L where li: "zlists {} z P D L" by (rule zinvE [OF i])
  note p = zcore_parts [OF zlists_core [OF li]]
  have st: "MYIO_CANCELED \<noteq> MYIO_PENDING" by simp
  have "zinv c {} z' \<and> zkeeps {} z z' \<and> (rc = 0 \<and> \<not> zt_done x \<and> zended z' t x MYIO_CANCELED \<or> rc = - 1 \<and> zmild z z')"
  proof (cases "zt_done x")
    case True
    with e t i show ?thesis by (auto simp: z_cancel_def zlive zkeeps_refl zmild_refl)
  next
    case nd: False
    have tok: "ztask_ok {} (m_brk z) t x" by (rule ztask_invD [OF p(1) t])
    show ?thesis
    proof (cases "zt_kind x")
      case ZTASK_TIMER
      from e t nd ZTASK_TIMER have z': "rc = 0" "z' = z_task_complete c os z t MYIO_CANCELED 0 0 None"
        by (simp_all add: z_cancel_def zlive z_task_canceled_def)
      from zinv_timer_fires [OF i t nd ZTASK_TIMER _ st z'(2)] z'(1) nd show ?thesis by (simp add: zended_def)
    next
      case ZTASK_CONNECT
      obtain s where s: "zt_sock x = Some s" using tok nd ZTASK_CONNECT by (auto simp: ztask_ok_def)
      define z1 where "z1 = z\<lparr>z_th := (z_th z)(t \<mapsto> x\<lparr>zt_sock := None\<rparr>)\<rparr>"
      have f: "zframe (z\<lparr>z_th := (z_th z)(t \<mapsto> x\<lparr>zt_sock := None\<rparr>)\<rparr>) z1" by (simp add: z1_def)
      from e t nd ZTASK_CONNECT s have z': "rc = 0" "z' = z_sock_release os (z_task_complete c os z1 t MYIO_CANCELED 0 0 None) s"
        by (simp_all add: z_cancel_def zlive z_task_canceled_def z1_def Let_def)
      from zinv_connect_end(3-5) [OF i t nd ZTASK_CONNECT s f st z'(2)] z'(1) nd show ?thesis by (simp add: zended_def)
    next
      case ZTASK_ACCEPT
      then obtain s y where s: "zt_sock x = Some s" "z_sh z s = Some y" "zslot (zt_kind x) y = Some t" using zslot_back [OF p(2) t nd] by auto
      define z1 where "z1 = z\<lparr>z_sh := (z_sh z)(s \<mapsto> zclear_slot (zt_kind x) y)\<rparr>"
      have k: "zt_kind x = ZTASK_SOCK_READ \<or> zt_kind x = ZTASK_ACCEPT" using ZTASK_ACCEPT by simp
      from e t nd ZTASK_ACCEPT s have z': "rc = 0" "z' = z_task_complete c os z1 t MYIO_CANCELED 0 0 None"
        by (simp_all add: z_cancel_def zlive z_task_canceled_def z1_def zclear_slot_def)
      have f1: "zframe (z\<lparr>z_sh := (z_sh z)(s \<mapsto> zclear_slot (zt_kind x) y)\<rparr>) z1" by (simp add: z1_def)
      from zinv_complete_slot(1-3) [OF i t nd k s(2,3) f1 st zwins_None z'(2)] z'(1) nd show ?thesis by (simp add: zended_def)
    next
      case ZTASK_SOCK_READ
      then obtain s y where s: "zt_sock x = Some s" "z_sh z s = Some y" "zslot (zt_kind x) y = Some t" using zslot_back [OF p(2) t nd] by auto
      define z1 where "z1 = z\<lparr>z_sh := (z_sh z)(s \<mapsto> zclear_slot (zt_kind x) y)\<rparr>"
      have k: "zt_kind x = ZTASK_SOCK_READ \<or> zt_kind x = ZTASK_ACCEPT" using ZTASK_SOCK_READ by simp
      from e t nd ZTASK_SOCK_READ s have z': "rc = 0" "z' = z_task_complete c os z1 t MYIO_CANCELED 0 0 None"
        by (simp_all add: z_cancel_def zlive z_task_canceled_def z1_def zclear_slot_def)
      have f1: "zframe (z\<lparr>z_sh := (z_sh z)(s \<mapsto> zclear_slot (zt_kind x) y)\<rparr>) z1" by (simp add: z1_def)
      from zinv_complete_slot(1-3) [OF i t nd k s(2,3) f1 st zwins_None z'(2)] z'(1) nd show ?thesis by (simp add: zended_def)
    next
      case ZTASK_SOCK_WRITE
      obtain s where s: "zt_sock x = Some s" using tok nd ZTASK_SOCK_WRITE by (auto simp: ztask_ok_def)
      from e t nd ZTASK_SOCK_WRITE s have "z_cancel_write c os z t s = Some (rc, z')" by (simp add: z_cancel_def zlive)
      from zinv_cancel_write [OF i t nd ZTASK_SOCK_WRITE s this] nd show ?thesis by (auto simp: zmild_refl)
    next
      case ZTASK_SPAWN
      show ?thesis
      proof (cases "cfg_spawn_inline c")
        case True
        with e t nd ZTASK_SPAWN i show ?thesis by (simp add: z_cancel_def zlive zkeeps_refl zmild_refl)
      next
        case False
        from zinv_cancel_spawn [OF w i t nd ZTASK_SPAWN False e] nd show ?thesis by auto
      qed
    next
      case ZTASK_INLINE
      with e t nd i show ?thesis by (simp add: z_cancel_def zlive zkeeps_refl zmild_refl)
    qed
  qed
  then show "zinv c {} z'" "zkeeps {} z z'" "rc = 0 \<and> \<not> zt_done x \<and> zended z' t x MYIO_CANCELED \<or> rc = - 1 \<and> zmild z z'" by auto
qed

subsection \<open>The end of a task\<close>

definition z_handles :: "z_io \<Rightarrow> addr set" where
  "z_handles z = {t. \<exists>x. z_th z t = Some x \<and> \<not> zt_detached x}"

definition z_droppable :: "z_io \<Rightarrow> addr \<Rightarrow> bool" where
  "z_droppable z t = zdropok (z_th z) (z_sh z) t"

lemma zkeeps_handle: "zkeeps S z z' \<Longrightarrow> t \<in> z_handles z \<Longrightarrow> t \<notin> S \<Longrightarrow> t \<in> z_handles z'"
  unfolding zkeeps_def zkeep_def z_handles_def by blast

lemma zinv_free_wait:
  assumes "workq_ok os" and "zinv c {} z" and "t \<in> z_handles z" and "z_free_wait c os z t = Some z'"
  shows "zinv c {} z' \<and> zkeeps {} z z' \<and> zt_done (zt z' t)"
proof -
  define Q where "Q c z t z' \<longleftrightarrow> zinv c {} z' \<and> zkeeps {} z z' \<and> zt_done (zt z' t)" for c z t z'
  have "workq_ok os \<longrightarrow> zinv c {} z \<longrightarrow> t \<in> z_handles z \<longrightarrow> Q c z t z'"
  proof (rule z_free_wait.raw_induct
      [where P = "\<lambda>c os z t y. workq_ok os \<longrightarrow> zinv c {} z \<longrightarrow> t \<in> z_handles z \<longrightarrow> Q c z t y", OF _ assms(4)], intro impI)
    fix f c os z t y
    assume IH: "\<And>c os z t y. f c os z t = Some y \<Longrightarrow> workq_ok os \<longrightarrow> zinv c {} z \<longrightarrow> t \<in> z_handles z \<longrightarrow> Q c z t y"
      and eq: "(if zt_done (zt z t) then Some z
        else Option.bind (z_step c os z) (\<lambda>(progress, z). if progress then f c os z t else Some z)) = Some y"
      and r: "workq_ok os" and i: "zinv c {} z" and h: "t \<in> z_handles z"
    show "Q c z t y"
    proof (cases "zt_done (zt z t)")
      case True
      with eq i show ?thesis by (auto simp: Q_def zkeeps_refl)
    next
      case False
      with eq obtain b z1 where st: "z_step c os z = Some (b, z1)" and rest: "(if b then f c os z1 t else Some z1) = Some y"
        by (cases "z_step c os z") auto
      note s = zinv_step [OF r i st]
      have b using s(3) h False by (cases b) (auto simp: z_handles_def zt_def)
      with rest have "f c os z1 t = Some y" by simp
      from IH [OF this] r s(1) zkeeps_handle [OF s(2) h] have "Q c z1 t y" by simp
      with s(2) show ?thesis by (auto simp: Q_def intro: zkeeps_trans)
    qed
  qed
  with assms show ?thesis by (simp add: Q_def)
qed

lemma zinv_free_mem:
  assumes i: "zinv c F z" and x: "z_th z t = Some x" "zt_done x" and z': "z' = z_task_free_mem c os z t"
  shows "zinv c F z'" and "zkeeps {t} z z'" and "z_th z' = (z_th z)(t := None)"
proof -
  obtain P D L where fl: "\<not> m_fault z" "zslabs c z" and li: "zlists F z P D L" by (rule zinvE [OF i])
  note fin = zcore_finite [OF zlists_core [OF li]]
  have n0: "z_ntask z \<noteq> 0" using fl(2) card_dom_pos [OF fin(1) x(1)] by (simp add: zslabs_def)
  obtain z2 where z2: "zframe z z2" "z_task_free_mem c os z t = z2\<lparr>z_th := (z_th z)(t := None), z_ntask := z_ntask z - 1\<rparr>"
    by (rule z_free_mem_eq [OF x(1) n0])
  have "zlists F z' P D L" using li zcore_free [OF zlists_core [OF li] x] z2(1) by (simp add: zlists_def z' z2(2) zframe_def)
  moreover have "zslabs c z'" using fl(2) x(1) fin z2(1) by (auto simp: zslabs_def z' z2(2) zframe_def card_dom_del)
  moreover have "\<not> m_fault z'" using fl(1) z2(1) by (simp add: z' z2(2) zframe_def)
  ultimately show "zinv c F z'" unfolding zinv_def by blast
  show "z_th z' = (z_th z)(t := None)" by (simp add: z' z2(2))
  show "zkeeps {t} z z'" using z2(1) by (simp add: zkeeps_def z' z2(2) zframe_def zkeep_free)
qed

lemma zinv_task_free:
  assumes w: "workq_ok os" and i: "zinv c {} z" and h: "t \<in> z_handles z" and e: "z_task_free c os z t = Some z'"
  shows "zinv c {} z'" and "zkeeps {t} z z'" and "t \<notin> z_handles z'"
proof -
  obtain x where x: "z_th z t = Some x" "\<not> zt_detached x" using h by (auto simp: z_handles_def)
  obtain z1 where z1: "zinv c {} z1" "zkeeps {} z z1" "zt_done (zt z1 t)" and z': "z' = z_task_free_mem c os z1 t"
  proof (cases "zt_done x")
    case True
    with e x(1) i that [of z] show ?thesis by (simp add: z_task_free_def zlive zkeeps_refl)
  next
    case False
    with e x(1) obtain rc z2 where c: "z_cancel c os z t = Some (rc, z2)"
      and rest: "map_option (\<lambda>z. z_task_free_mem c os z t) (if rc \<noteq> 0 then z_free_wait c os z2 t else Some z2) = Some z'"
      by (cases "z_cancel c os z t") (auto simp: z_task_free_def zlive)
    note ca = zinv_cancel [OF w i x(1) c]
    note h2 = zkeeps_handle [OF ca(2) h]
    show ?thesis
    proof (cases "rc = 0")
      case True
      with ca(3) x(2) have "zt_done (zt z2 t)" by (auto simp: zended_def zlive)
      with True ca(1,2) rest that [of z2] show ?thesis by simp
    next
      case False
      with rest obtain z3 where "z_free_wait c os z2 t = Some z3" "z' = z_task_free_mem c os z3 t" by auto
      with zinv_free_wait [OF w ca(1) h2, of z3] ca(2) that [of z3] show ?thesis by (auto intro: zkeeps_trans)
    qed
  qed
  from zkeeps_handle [OF z1(2) h] obtain x1 where x1: "z_th z1 t = Some x1" by (auto simp: z_handles_def)
  have "zt_done x1" using z1(3) x1 by (simp add: zlive)
  note f = zinv_free_mem [OF z1(1) x1 this z']
  show "zinv c {} z'" by (rule f(1))
  show "zkeeps {t} z z'" by (rule zkeeps_trans [OF zkeeps_mono [OF z1(2)] f(2)]) simp
  show "t \<notin> z_handles z'" using f(3) by (simp add: z_handles_def)
qed

lemma zinv_detach:
  assumes i: "zinv c {} z" and h: "t \<in> z_handles z" and d: "z_droppable z t" and z': "z' = z_task_detach c os z t"
  shows "zinv c {} z'" and "zkeeps {t} z z'" and "t \<notin> z_handles z'"
proof -
  obtain x where x: "z_th z t = Some x" "\<not> zt_detached x" using h by (auto simp: z_handles_def)
  have "zinv c {} z' \<and> zkeeps {t} z z' \<and> t \<notin> z_handles z'"
  proof (cases "zt_done x")
    case False
    have e: "z' = z\<lparr>z_th := (z_th z)(t \<mapsto> x\<lparr>zt_detached := True\<rparr>)\<rparr>" using x False by (simp add: z' z_task_detach_def zlive)
    have sm: "zsame x (x\<lparr>zt_detached := True\<rparr>)" using False by (simp add: zsame_def)
    have f: "zframe (z\<lparr>z_th := (z_th z)(t \<mapsto> x\<lparr>zt_detached := True\<rparr>)\<rparr>) z'" by (simp add: e)
    from zinv_upd [OF i x(1) sm f] show ?thesis by (auto simp: e z_handles_def)
  next
    case dn: True
    define z1 where "z1 = (case res_ptr (zt_res x) of Some s \<Rightarrow> z_sock_release os z s | None \<Rightarrow> z)"
    have e: "z' = z_task_free_mem c os z1 t" using x dn by (simp add: z' z_task_detach_def zlive z_task_reap_def z1_def)
    have z1: "zinv c {} z1 \<and> zkeeps {t} z z1 \<and> z_th z1 = z_th z"
    proof (cases "res_ptr (zt_res x)")
      case None
      then show ?thesis using i by (simp add: z1_def zkeeps_refl)
    next
      case (Some s)
      have l: "zloose (z_th z) (z_sh z) s" using d x(1) Some by (auto simp: z_droppable_def zdropok_def)
      have s1: "z1 = z_sock_release os z s" by (simp add: z1_def Some)
      note re = zinv_release [OF i l s1]
      have "zkeeps {t} z z1"
        by (rule re(5)) (use zinv_sole [OF i x(1) zres_own [OF i x(1) Some]] zres_own [OF i] in blast)
      with re(1,2) show ?thesis by simp
    qed
    then have x1: "z_th z1 t = Some x" using x by simp
    from z1 have "zinv c {} z1" by simp
    note f = zinv_free_mem [OF this x1 dn e]
    from f zkeeps_trans [of "{t}" z z1 z'] z1 show ?thesis by (auto simp: z_handles_def)
  qed
  then show "zinv c {} z'" "zkeeps {t} z z'" "t \<notin> z_handles z'" by auto
qed

subsection \<open>The end of the instance\<close>

lemma zinv_destroy_tasks:
  assumes "workq_ok os" and "zinv c {} z" and "z_destroy_tasks c os z = Some z'"
  shows "zinv c {} z' \<and> sl_head (z_pend z') = None"
proof -
  have "workq_ok os \<longrightarrow> zinv c {} z \<longrightarrow> zinv c {} z' \<and> sl_head (z_pend z') = None"
  proof (rule z_destroy_tasks.raw_induct
      [where P = "\<lambda>c os z y. workq_ok os \<longrightarrow> zinv c {} z \<longrightarrow> zinv c {} y \<and> sl_head (z_pend y) = None", OF _ assms(3)], intro impI)
    fix f c os z y
    assume IH: "\<And>c os z y. f c os z = Some y \<Longrightarrow> workq_ok os \<longrightarrow> zinv c {} z \<longrightarrow> zinv c {} y \<and> sl_head (z_pend y) = None"
      and eq: "(case sl_head (z_pend z) of None \<Rightarrow> Some z
        | Some t \<Rightarrow> Option.bind (z_cancel c os z t) (\<lambda>(rc, z).
            if rc \<noteq> 0 then Option.bind (run_loop_once c os z) (\<lambda>z. f c os z) else f c os z)) = Some y"
      and w: "workq_ok os" and i: "zinv c {} z"
    show "zinv c {} y \<and> sl_head (z_pend y) = None"
    proof (cases "sl_head (z_pend z)")
      case None
      with eq i show ?thesis by auto
    next
      case (Some t)
      obtain P D L where li: "zlists {} z P D L" by (rule zinvE [OF i])
      have tP: "t \<in> set P" using li sl_list_head [of "z_pend z" P] Some by (auto simp: zlists_def split: if_splits)
      obtain x where x: "z_th z t = Some x" by (rule zlisted [OF li tP])
      from eq Some obtain rc z1 where c: "z_cancel c os z t = Some (rc, z1)"
        and rest: "(if rc \<noteq> 0 then Option.bind (run_loop_once c os z1) (\<lambda>z. f c os z) else f c os z1) = Some y"
        by (cases "z_cancel c os z t") auto
      note ca = zinv_cancel(1) [OF w i x c]
      show ?thesis
      proof (cases "rc = 0")
        case True
        with rest IH [of c os z1 y] w ca show ?thesis by simp
      next
        case False
        with rest obtain z2 where "run_loop_once c os z1 = Some z2" "f c os z2 = Some y" by (cases "run_loop_once c os z1") auto
        with IH [of c os z2 y] w zinv_loop_once(1) [OF w ca] show ?thesis by simp
      qed
    qed
  qed
  with assms show ?thesis by simp
qed

text \<open>When every task is over, every socket is loose.\<close>

lemma zinv_all_loose:
  assumes i: "zinv c {} z" and d: "\<And>t x. z_th z t = Some x \<Longrightarrow> zt_done x" and y: "z_sh z s = Some y"
  shows "zloose (z_th z) (z_sh z) s"
proof -
  obtain P D L where li: "zlists {} z P D L" by (rule zinvE [OF i])
  note p = zcore_parts [OF zlists_core [OF li]]
  have "zslot k y = None" for k using zslot_task [OF p(2) y, of k] d by (cases "zslot k y") auto
  moreover have "zwset (z_th z) s = {}" using d by (auto simp: zwset_def)
  with zwq_list [OF p(3) y] have "wq_head (zs_wq y) = None" by (auto simp: wq_list_head)
  ultimately have "zquiet y" by (simp add: zquiet_slot)
  with y d show ?thesis by (auto simp: zloose_def zx_def)
qed

lemma zinv_destroy_socks:
  assumes "zinv c {} z" and "\<And>t x. z_th z t = Some x \<Longrightarrow> zt_done x" and "sl_list (z_socks z) L" and "length L \<le> fuel"
  shows "zinv c {} (z_destroy_socks os fuel z) \<and> z_sh (z_destroy_socks os fuel z) = Map.empty \<and> z_th (z_destroy_socks os fuel z) = z_th z"
  using assms
proof (induction L arbitrary: z fuel)
  case Nil
  obtain P D L where li: "zlists {} z P D L" by (rule zinvE [OF Nil(1)])
  then have "L = []" using Nil(3) by (auto simp: zlists_def dest: sl_list_unique)
  with li have "dom (z_sh z) = {}" by (simp add: zlists_def)
  then have "z_sh z = Map.empty" by simp
  moreover have "z_destroy_socks os fuel z = z" using sl_list_head [OF Nil(3)] by (cases fuel) simp_all
  ultimately show ?case using Nil(1) by simp
next
  case (Cons s L)
  then obtain f where f: "fuel = Suc f" "length L \<le> f" by (cases fuel) auto
  obtain P D L' where li: "zlists {} z P D L'" by (rule zinvE [OF Cons.prems(1)])
  then have "L' = s # L" using Cons.prems(3) by (auto simp: zlists_def dest: sl_list_unique)
  then obtain y where y: "z_sh z s = Some y" using li by (force simp: zlists_def)
  define z1 where "z1 = z_sock_release os z s"
  note re = zinv_release [OF Cons.prems(1) zinv_all_loose [OF Cons.prems(1,2) y] z1_def]
  have "z_nsock z \<noteq> 0" using Cons.prems(1) y zcore_finite(2) [OF zlists_core [OF li]] by (auto simp: zinv_def zslabs_def)
  then obtain d a e where "z_sock_release os z s = zreleased z s d ((C_close (zs_fd y), a) # m_trace z) e" "sl_list d (remove1 s (s # L))"
    by (rule z_sock_release_eq [OF Cons.prems(3) y])
  then have l1: "sl_list (z_socks z1) L" by (simp add: z1_def zreleased_def)
  have "z_destroy_socks os fuel z = z_destroy_socks os f z1" using sl_list_head [OF Cons.prems(3)] by (simp add: f(1) z1_def)
  with Cons.IH [OF re(1) _ l1 f(2)] re(2) Cons.prems(2) show ?case by simp
qed

lemma z_destroy_files_frame:
  "zinv c F z \<Longrightarrow> zinv c F (z_destroy_files os is z) \<and> z_sh (z_destroy_files os is z) = z_sh z \<and> z_th (z_destroy_files os is z) = z_th z"
proof (induction "is" arbitrary: z)
  case (Cons j js)
  define z1 where "z1 = (if z_file_used z ! j then let (_, z) = sys_call os (C_fs_close j) z in z\<lparr>z_file_used := (z_file_used z)[j := False]\<rparr> else z)"
  obtain a z2 where u: "sys_call os (C_fs_close j) z = (a, z2)" by fastforce
  have "zframe z z2" by (rule sys_call_zframe [OF _ u]) simp
  then have "zinv c F z1 \<and> z_sh z1 = z_sh z \<and> z_th z1 = z_th z"
    using Cons.prems zinv_files [OF zinv_sys [OF _ Cons.prems u]] u by (auto simp: z1_def zframe_def)
  with Cons.IH [of z1] show ?case by (simp add: z1_def)
qed simp

lemma zinv_destroy:
  assumes w: "workq_ok os" and i: "zinv c {} z" and e: "z_destroy c os z = Some z'"
  shows "zinv c {} z'" and "z_sh z' = Map.empty" and "\<And>t x. z_th z' t = Some x \<Longrightarrow> zt_done x" and "\<not> z_in_use z'"
proof -
  from e obtain z1 where d: "z_destroy_tasks c os z = Some z1" and z': "z' = (let z = z_destroy_socks os (m_brk z1) z1;
           z = (if cfg_file_system c then z_destroy_files os [0..<cfg_max_files c] z else z);
           (_, z) = z_call os (C_close (z_evfd z)) z in z\<lparr>z_in_use := False\<rparr>)" by (auto simp: z_destroy_def)
  from zinv_destroy_tasks [OF w i d] have i1: "zinv c {} z1" and h: "sl_head (z_pend z1) = None" by auto
  note id = zinv_idle [OF i1 h]
  obtain P D L where li: "zlists {} z1 P D L" by (rule zinvE [OF i1])
  have sL: "sl_list (z_socks z1) L" "set L \<subseteq> {..<m_brk z1}" using li zcore_parts(8) [OF zlists_core [OF li]] by (auto simp: zlists_def)
  from card_mono [OF _ sL(2)] have "length L \<le> m_brk z1" using distinct_card [OF sl_list_distinct [OF sL(1)]] by simp
  with zinv_destroy_socks [OF i1 _ sL(1)] id
  have so: "zinv c {} (z_destroy_socks os (m_brk z1) z1) \<and> z_sh (z_destroy_socks os (m_brk z1) z1) = Map.empty \<and>
      z_th (z_destroy_socks os (m_brk z1) z1) = z_th z1" by blast
  define z2 where "z2 = (if cfg_file_system c then z_destroy_files os [0..<cfg_max_files c] (z_destroy_socks os (m_brk z1) z1)
    else z_destroy_socks os (m_brk z1) z1)"
  have z2: "zinv c {} z2 \<and> z_sh z2 = Map.empty \<and> z_th z2 = z_th z1"
    using so z_destroy_files_frame [of c "{}" "z_destroy_socks os (m_brk z1) z1" os "[0..<cfg_max_files c]"] by (simp add: z2_def)
  obtain a z3 where u: "z_call os (C_close (z_evfd z2)) z2 = (a, z3)" by fastforce
  have f: "zframe z2 z3" by (rule z_call_zframe [OF _ u]) simp
  have e: "z' = z3\<lparr>z_in_use := False\<rparr>" using z' u by (simp add: Let_def z2_def [symmetric])
  have f': "zframe z2 z'" using f by (simp add: e zframe_def)
  show "zinv c {} z'" using zframe_inv [OF f'] z2 by simp
  show "z_sh z' = Map.empty" "\<not> z_in_use z'" using f' z2 by (simp_all add: zframe_def e)
  show "zt_done x" if "z_th z' t = Some x" for t x using that f' z2 id by (simp add: zframe_def)
qed

subsection \<open>The contract of the interface\<close>

lemma zephyr_ops_simps [simp]:
  "ops_open (zephyr_ops c os) z pa fl m = Some (z_open c os z pa fl m)"
  "ops_close (zephyr_ops c os) z fd = Some (z_close c os z fd)"
  "ops_read (zephyr_ops c os) z fd a n off = Some (z_read c os z fd a n off)"
  "ops_write (zephyr_ops c os) z fd bs off = Some (z_write c os z fd bs off)"
  "ops_sleep (zephyr_ops c os) z ms = Some (z_sleep c os z ms)"
  "ops_spawn (zephyr_ops c os) z fn arg = Some (z_spawn c os z fn arg)"
  "ops_tcp_connect (zephyr_ops c os) z h po = Some (z_tcp_connect c os z h po)"
  "ops_tcp_listen (zephyr_ops c os) z h po bl = Some (z_tcp_listen c os z h po bl)"
  "ops_tcp_accept (zephyr_ops c os) z k = Some (z_tcp_accept c os z k)"
  "ops_sock_read (zephyr_ops c os) z k a n = Some (z_sock_read c os z k a n)"
  "ops_sock_write (zephyr_ops c os) z k bs = z_sock_write c os z k bs"
  "ops_sock_close (zephyr_ops c os) z k = Some (z_sock_close c os z k)"
  "ops_sock_port (zephyr_ops c os) z k = z_sock_port os z k"
  "ops_step (zephyr_ops c os) z = z_step c os z"
  "ops_cancel (zephyr_ops c os) z t = z_cancel c os z t"
  "ops_task_result (zephyr_ops c os) z t = z_task_result z t"
  "ops_task_done (zephyr_ops c os) z t = z_task_done z t"
  "ops_task_free (zephyr_ops c os) z t = z_task_free c os z t"
  "ops_task_detach (zephyr_ops c os) z t = z_task_detach c os z t"
  "ops_destroy (zephyr_ops c os) z = z_destroy c os z"
  by (simp_all add: zephyr_ops_def)

lemma zkeeps_evolves:
  assumes "workq_ok os" and "zinv c {} z'" and "zkeeps S z z'"
  shows "evolves (zephyr_ops c os) (\<lambda>z. workq_ok os \<and> zinv c {} z) z_handles z_droppable z S z'"
  unfolding evolves_def
proof (intro conjI ballI)
  fix t
  assume "t \<in> z_handles z - S"
  then obtain x where x: "z_th z t = Some x" "\<not> zt_detached x" "t \<notin> S" by (auto simp: z_handles_def)
  with assms(3) obtain x' where x': "z_th z' t = Some x'" "\<not> zt_detached x'" "zt_done x \<longrightarrow> zt_res x' = zt_res x"
    "zdropok (z_th z) (z_sh z) t \<longrightarrow> zdropok (z_th z') (z_sh z') t"
    unfolding zkeeps_def zkeep_def by blast
  then show "t \<in> z_handles z'" by (auto simp: z_handles_def)
  show "ops_task_done (zephyr_ops c os) z t \<longrightarrow> ops_task_result (zephyr_ops c os) z' t = ops_task_result (zephyr_ops c os) z t"
    using x x' by (simp add: z_task_done_def z_task_result_def zlive)
  show "z_droppable z t \<longrightarrow> z_droppable z' t" using x' by (simp add: z_droppable_def)
qed (use assms in auto)

lemma zinv_done_status: "zinv c F z \<Longrightarrow> z_th z t = Some x \<Longrightarrow> zt_done x \<longleftrightarrow> res_status (zt_res x) \<noteq> MYIO_PENDING"
  using zinv_task [of c F z t x] by (cases "zt_done x") (auto simp: ztask_ok_def)

interpretation zephyr: live_backend "zephyr_ops c os" "\<lambda>z. workq_ok os \<and> zinv c {} z" z_handles z_droppable for c os
proof
  fix st st' :: z_io and t b p ms rc
  assume "workq_ok os \<and> zinv c {} st"
  then have w: "workq_ok os" and i: "zinv c {} st" by auto
  show "t \<in> z_handles st \<Longrightarrow>
      ops_task_done (zephyr_ops c os) st t = (res_status (ops_task_result (zephyr_ops c os) st t) \<noteq> MYIO_PENDING)"
    using zinv_done_status [OF i] by (auto simp: z_handles_def z_task_done_def z_task_result_def zlive)
  show "ops_step (zephyr_ops c os) st = Some (b, st') \<Longrightarrow>
      evolves (zephyr_ops c os) (\<lambda>z. workq_ok os \<and> zinv c {} z) z_handles z_droppable st {} st'"
    using zinv_step(1,2) [OF w i] by (intro zkeeps_evolves [OF w]) auto
  show "ops_step (zephyr_ops c os) st = Some (False, st') \<Longrightarrow> t \<in> z_handles st \<Longrightarrow>
      ops_task_done (zephyr_ops c os) st' t \<Longrightarrow> ops_task_done (zephyr_ops c os) st t"
    using zinv_step(3) [OF w i, of False st'] by auto
  show "ops_step (zephyr_ops c os) st = Some (False, st') \<Longrightarrow> t \<in> z_handles st \<Longrightarrow> ops_task_done (zephyr_ops c os) st t"
    using zinv_step(3) [OF w i, of False st'] by (auto simp: z_handles_def z_task_done_def zlive)
  show "ops_sleep (zephyr_ops c os) st ms = Some (p, st') \<Longrightarrow>
      evolves (zephyr_ops c os) (\<lambda>z. workq_ok os \<and> zinv c {} z) z_handles z_droppable st {} st'"
    using zinv_sleep(1,2) [OF i] by (intro zkeeps_evolves [OF w]) auto
  show "ops_sleep (zephyr_ops c os) st ms = Some (Some t, st') \<Longrightarrow> t \<in> z_handles st' - z_handles st \<and> z_droppable st' t"
    using zinv_sleep(3) [OF i, of os ms "Some t" st' t]
    by (auto simp: z_handles_def z_droppable_def zdropok_def)
  show "t \<in> z_handles st \<Longrightarrow> ops_cancel (zephyr_ops c os) st t = Some (rc, st') \<Longrightarrow>
      evolves (zephyr_ops c os) (\<lambda>z. workq_ok os \<and> zinv c {} z) z_handles z_droppable st {} st' \<and> rc \<in> {0, - 1}"
    using zinv_cancel [OF w i, of t _ rc st'] by (auto simp: z_handles_def intro!: zkeeps_evolves [OF w])
  show "t \<in> z_handles st \<Longrightarrow> ops_task_free (zephyr_ops c os) st t = Some st' \<Longrightarrow>
      evolves (zephyr_ops c os) (\<lambda>z. workq_ok os \<and> zinv c {} z) z_handles z_droppable st {t} st' \<and> t \<notin> z_handles st'"
    using zinv_task_free [OF w i, of t st'] by (auto intro: zkeeps_evolves [OF w])
  show "t \<in> z_handles st \<Longrightarrow> z_droppable st t \<Longrightarrow>
      evolves (zephyr_ops c os) (\<lambda>z. workq_ok os \<and> zinv c {} z) z_handles z_droppable st {t} (ops_task_detach (zephyr_ops c os) st t) \<and>
      t \<notin> z_handles (ops_task_detach (zephyr_ops c os) st t)"
    using zinv_detach [OF i _ _ refl, of t os] by (auto intro: zkeeps_evolves [OF w])
qed

text \<open>What the program assumes of its environment: an honest work queue, a resolver that does not succeed emptily.\<close>

definition zkernel_ok :: "os \<Rightarrow> bool" where
  "zkernel_ok os \<longleftrightarrow> workq_ok os \<and> gai_ok os"

definition z_usable :: "z_io \<Rightarrow> addr set" where
  "z_usable z = {s. zusable z s}"

interpretation zephyr_safe: safe_backend "zephyr_ops c os" "\<lambda>z. zkernel_ok os \<and> zinv c {} z"
  z_handles z_droppable z_usable for c os
proof
  fix st st' :: z_io and q
  assume "zkernel_ok os \<and> zinv c {} st" and ok: "ucall_ok z_handles z_droppable z_usable st q"
    and ex: "exec_ucall (zephyr_ops c os) st q = Some st'"
  then have w: "workq_ok os" and g: "gai_ok os" and i: "zinv c {} st" by (auto simp: zkernel_ok_def)
  have "zinv c {} st'"
  proof (cases q)
    case U_step
    with ex zinv_step(1) [OF w i] show ?thesis by (cases "z_step c os st") auto
  next
    case (U_tcp_connect h port)
    with ex zinv_tcp_connect [OF g i] show ?thesis by auto
  next
    case (U_sock_write k b)
    with ex ok zinv_sock_write [OF i] show ?thesis by (auto simp: z_usable_def)
  next
    case (U_cancel t)
    with ex ok zinv_cancel(1) [OF w i] show ?thesis by (auto simp: z_handles_def)
  next
    case (U_task_free t)
    with ex ok zinv_task_free(1) [OF w i] show ?thesis by auto
  next
    case (U_task_detach t)
    with ex ok zinv_detach(1) [OF i] show ?thesis by auto
  qed (use ex ok i in \<open>auto simp: z_usable_def intro: zinv_open zinv_close zinv_read zinv_write zinv_sleep(1) zinv_spawn zinv_tcp_listen
      zinv_tcp_accept zinv_sock_read zinv_sock_close(1) zinv_sock_port surjective_pairing\<close>)
  with w g show "zkernel_ok os \<and> zinv c {} st'" by (simp add: zkernel_ok_def)
qed

subsection \<open>Starting an instance\<close>

text \<open>Before the first instance: empty slabs.\<close>

definition z_boot :: "mach \<Rightarrow> z_io" where
  "z_boot m = mach.extend m \<lparr>z_in_use = False, z_evfd = 0, z_pend = sl_empty, z_socks = sl_empty, z_sdone = sl_empty,
     z_th = Map.empty, z_sh = Map.empty, z_wnext = (\<lambda>_. None), z_ntask = 0, z_nsock = 0, z_file_used = [], z_errbuf = [],
     z_errno = 0, z_spawn_q = False\<rparr>"

text \<open>No instance: no sockets, and what is left in the task slab is over.\<close>

definition z_vacant :: "zcfg \<Rightarrow> z_io \<Rightarrow> bool" where
  "z_vacant c z \<longleftrightarrow> \<not> z_in_use z \<and> zinv c {} (z\<lparr>z_file_used := replicate (cfg_max_files c) False\<rparr>) \<and> z_sh z = Map.empty \<and>
     (\<forall>t x. z_th z t = Some x \<longrightarrow> zt_done x)"

lemma z_boot_vacant:
  assumes "\<not> m_fault m" and "work_out (m_trace m) = {}"
  shows "z_vacant c (z_boot m)"
proof -
  have "zlists {} ((z_boot m)\<lparr>z_file_used := replicate (cfg_max_files c) False\<rparr>) [] [] []"
    using assms by (auto simp: zlists_def z_boot_def mach.extend_def zcore_def ztask_inv_def zslot_inv_def zwq_inv_def zwset_def
      zx_inv_def zown_inv_def zspawn_inv_def zpset_def)
  moreover have "zslabs c ((z_boot m)\<lparr>z_file_used := replicate (cfg_max_files c) False\<rparr>)"
    by (simp add: zslabs_def z_boot_def mach.extend_def)
  ultimately show ?thesis using assms by (auto simp: z_vacant_def zinv_def z_boot_def mach.extend_def)
qed

lemma z_destroy_vacant:
  assumes "workq_ok os" and "zinv c {} z" and "z_destroy c os z = Some z'"
  shows "z_vacant c z'"
proof -
  note d = zinv_destroy [OF assms]
  have "zinv c {} (z'\<lparr>z_file_used := replicate (cfg_max_files c) False\<rparr>)" using d(1) by (auto simp: zinv_def zslabs_def zlists_def)
  then show ?thesis using d by (auto simp: z_vacant_def)
qed

lemma zephyr_new_inv:
  assumes v: "z_vacant c z" and e: "myio_zephyr_new c os z = (True, z')"
  shows "zinv c {} z'" and "z_in_use z'"
proof -
  define z1 where "z1 = z\<lparr>z_pend := (z_pend z)\<lparr>sl_head := None\<rparr>, z_socks := (z_socks z)\<lparr>sl_head := None\<rparr>,
      z_sdone := (z_sdone z)\<lparr>sl_head := None\<rparr>, z_file_used := replicate (cfg_max_files c) False, z_errbuf := [], z_evfd := 0\<rparr>"
  let ?z = "z\<lparr>z_file_used := replicate (cfg_max_files c) False\<rparr>"
  have i: "zinv c {} ?z" and dn: "\<And>t x. z_th z t = Some x \<Longrightarrow> zt_done x" and sh: "z_sh z = Map.empty" and nu: "\<not> z_in_use z"
    using v by (auto simp: z_vacant_def)
  obtain P D L where fl: "\<not> m_fault ?z" "zslabs c ?z" and li: "zlists {} ?z P D L" by (rule zinvE [OF i])
  note p = zcore_parts [OF zlists_core [OF li]]
  have "q \<notin> set P" for q using p(7) dn [of q] by (auto simp: zpset_def)
  then have P: "P = []" by (cases P) auto
  have sD: "set D = {t. \<exists>x. z_th z t = Some x \<and> \<not> zt_done x \<and> zt_pushed x}" using p(6) by (simp add: zspawn_inv_def)
  have "q \<notin> set D" for q unfolding sD using dn [of q] by blast
  then have D: "D = []" by (cases D) auto
  have "zlists {} z1 [] [] []" using li P D sh by (auto simp: zlists_def z1_def sl_list_def)
  moreover have "zslabs c z1" "\<not> m_fault z1" using fl by (simp_all add: zslabs_def z1_def)
  ultimately have i1: "zinv c {} z1" by (auto simp: zinv_def)
  obtain a z2 where u: "z_call os C_eventfd z1 = (a, z2)" by fastforce
  have f2: "zframe z1 z2" by (rule z_call_zframe [OF _ u]) simp
  define z3 where "z3 = z2\<lparr>z_evfd := a_ret a\<rparr>"
  define z4 where "z4 = (if \<not> cfg_spawn_inline c \<and> \<not> z_spawn_q z3 then (snd (sys_call os C_work_queue_start z3))\<lparr>z_spawn_q := True\<rparr> else z3)"
  have f3: "zframe z2 z3" by (simp add: z3_def zframe_def)
  have "zframe z3 z4" by (simp add: z4_def zframe_def sys_call_def Let_def)
  with zframe_trans [OF zframe_trans [OF f2 f3]] have f4: "zframe z1 z4" .
  have z': "z' = z4\<lparr>z_in_use := True\<rparr>"
    using e nu u by (auto simp: myio_zephyr_new_def z1_def [symmetric] Let_def z3_def z4_def split: if_splits)
  have "zframe z1 z'" using f4 by (simp add: z' zframe_def)
  then show "zinv c {} z'" using zframe_inv i1 by blast
  show "z_in_use z'" by (simp add: z')
qed

end
