(* ===== verification/Myio_Zephyr_Facts.thy ===== *)
theory Myio_Zephyr_Facts
  imports Myio_Zephyr_Run Myio_Sync
begin

text \<open>
  What the Zephyr backend's operations do, exactly: the poll set and its timeout, the
  timers a turn fires, the bytes a write puts on the wire, the deadline of a sleep.
\<close>

subsection \<open>The poll set\<close>

definition zpolled :: "z_io \<Rightarrow> addr \<Rightarrow> bool" where
  "zpolled z t \<longleftrightarrow> z_events (zt_kind (zt z t)) \<noteq> None"

definition zpollfd :: "z_io \<Rightarrow> addr \<Rightarrow> int \<times> int" where
  "zpollfd z t = (zs_fd (zs z (the (zt_sock (zt z t)))), the (z_events (zt_kind (zt z t))))"

definition zmin :: "z_io \<Rightarrow> addr \<Rightarrow> int \<Rightarrow> int" where
  "zmin z t dl = (if zt_kind (zt z t) = ZTASK_TIMER then min (zt_deadline (zt z t)) dl else dl)"

lemma z_scan_exact:
  assumes l: "zlists {} z P D L" and P: "P = as @ bs" and n: "length bs \<le> fuel" "length fds + length bs \<le> cfg_max_tasks c"
  shows "z_scan c fuel z (if bs = [] then None else Some (hd bs)) fds owner dl =
    ((fds @ map (zpollfd z) (filter (zpolled z) bs), owner @ filter (zpolled z) bs, fold (zmin z) bs dl), z)"
  using P n
proof (induction bs arbitrary: as fuel fds owner dl)
  case (Cons t bs)
  obtain f where f: "fuel = Suc f" "length bs \<le> f" using Cons.prems(2) by (cases fuel) auto
  obtain x where x: "z_th z t = Some x" "z_events (zt_kind x) \<noteq> None \<Longrightarrow> \<exists>s y. zt_sock x = Some s \<and> z_sh z s = Some y"
    by (rule zlisted [OF l, of t]) (use Cons.prems(1) in auto)
  have nx: "sl_next (z_pend z) t = (if bs = [] then None else Some (hd bs))"
    using l Cons.prems(1) by (auto simp: zlists_def sl_list_next)
  have P': "P = (as @ [t]) @ bs" using Cons.prems(1) by simp
  show ?case
  proof (cases "z_events (zt_kind x)")
    case None
    have m: "zt_kind x = ZTASK_TIMER \<Longrightarrow> (if zt_deadline x < dl then zt_deadline x else dl) = zmin z t dl"
      "zt_kind x \<noteq> ZTASK_TIMER \<Longrightarrow> zmin z t dl = dl" using x(1) by (simp_all add: zmin_def zlive)
    have "z_scan c fuel z (Some t) fds owner dl = z_scan c f z (if bs = [] then None else Some (hd bs)) fds owner (zmin z t dl)"
      using None f x(1) nx m by (cases "zt_kind x = ZTASK_TIMER") (simp_all add: zlive Let_def cong: if_cong split del: if_split)
    also have "\<dots> = ((fds @ map (zpollfd z) (filter (zpolled z) bs), owner @ filter (zpolled z) bs, fold (zmin z) bs (zmin z t dl)), z)"
      by (rule Cons.IH [OF P' f(2)]) (use Cons.prems(3) in simp)
    finally have e: "z_scan c fuel z (Some t) fds owner dl =
      ((fds @ map (zpollfd z) (filter (zpolled z) bs), owner @ filter (zpolled z) bs, fold (zmin z) bs (zmin z t dl)), z)" .
    have "\<not> zpolled z t" using None x(1) by (simp add: zpolled_def zlive)
    with e show ?thesis by simp
  next
    case (Some ev)
    with x(2) obtain s y where s: "zt_sock x = Some s" "z_sh z s = Some y" by auto
    have k: "zt_kind x \<noteq> ZTASK_TIMER" using Some by auto
    have "z_scan c fuel z (Some t) fds owner dl = z_scan c f z (if bs = [] then None else Some (hd bs)) (fds @ [(zs_fd y, ev)]) (owner @ [t]) dl"
      using Cons.prems(3) f x(1) nx Some s k by (simp add: zlive Let_def)
    also have "\<dots> = (((fds @ [(zs_fd y, ev)]) @ map (zpollfd z) (filter (zpolled z) bs), (owner @ [t]) @ filter (zpolled z) bs, fold (zmin z) bs dl), z)"
      by (rule Cons.IH [OF P' f(2)]) (use Cons.prems(3) in simp)
    finally have e: "z_scan c fuel z (Some t) fds owner dl =
      (((fds @ [(zs_fd y, ev)]) @ map (zpollfd z) (filter (zpolled z) bs), (owner @ [t]) @ filter (zpolled z) bs, fold (zmin z) bs dl), z)" .
    have "zpolled z t" "zpollfd z t = (zs_fd y, ev)" "zmin z t dl = dl" using Some x(1) s k by (simp_all add: zpolled_def zpollfd_def zmin_def zlive)
    with e show ?thesis by simp
  qed
qed simp

lemma zmin_fold:
  "fold (zmin z) bs dl \<le> dl \<and> (\<forall>t \<in> set bs. zt_kind (zt z t) = ZTASK_TIMER \<longrightarrow> fold (zmin z) bs dl \<le> zt_deadline (zt z t)) \<and>
   (fold (zmin z) bs dl = dl \<or> (\<exists>t \<in> set bs. zt_kind (zt z t) = ZTASK_TIMER \<and> zt_deadline (zt z t) = fold (zmin z) bs dl))"
proof (induction bs arbitrary: dl)
  case (Cons b bs)
  from Cons [of "zmin z b dl"] show ?case by (auto simp: zmin_def split: if_splits)
qed simp

subsection \<open>Timers\<close>

definition z_fired :: "int \<Rightarrow> z_task \<Rightarrow> z_task option" where
  "z_fired now x = (if zt_kind x = ZTASK_TIMER \<and> \<not> zt_done x \<and> zt_deadline x \<le> now
     then if zt_detached x then None else Some (x\<lparr>zt_res := mk_result MYIO_OK 0 0 None, zt_done := True\<rparr>) else Some x)"

lemma z_timers_exact:
  assumes "zinv c {} z" and "sl_list (z_pend z) (as @ bs)" and "length bs \<le> fuel"
  shows "z_th (z_timers c os fuel z (if bs = [] then None else Some (hd bs)) now) q =
    (if q \<in> set bs then Option.bind (z_th z q) (z_fired now) else z_th z q)"
  using assms
proof (induction bs arbitrary: z as fuel)
  case (Cons t bs)
  obtain f where f: "fuel = Suc f" "length bs \<le> f" using Cons.prems(3) by (cases fuel) auto
  obtain P D L where li: "zlists {} z P D L" by (rule zinvE [OF Cons.prems(1)])
  have P: "P = as @ t # bs" using li Cons.prems(2) by (auto simp: zlists_def dest: sl_list_unique)
  obtain x where x: "z_th z t = Some x" "\<not> zt_done x" by (rule zlisted [OF li, of t]) (use P in auto)
  have nx: "sl_next (z_pend z) t = (if bs = [] then None else Some (hd bs))" using sl_list_next [OF Cons.prems(2)] .
  have tb: "t \<notin> set bs" using sl_list_distinct [OF Cons.prems(2)] by simp
  define z1 where "z1 = (if zt_kind x = ZTASK_TIMER \<and> zt_deadline x \<le> now then z_task_ok c os z t 0 None else z)"
  have step: "z_timers c os fuel z (Some t) now = z_timers c os f z1 (if bs = [] then None else Some (hd bs)) now"
    using x(1) nx by (simp add: f(1) zlive Let_def z1_def)
  show ?case
  proof (cases "zt_kind x = ZTASK_TIMER \<and> zt_deadline x \<le> now")
    case True
    then have z1: "z1 = z_task_complete c os z t MYIO_OK 0 0 None" by (simp add: z1_def z_task_ok_def)
    have k: "zt_kind x = ZTASK_TIMER" using True by simp
    note tf = zinv_timer_fires [OF Cons.prems(1) x k _ _ z1, simplified]
    have "remove1 t (as @ t # bs) = as @ bs" using sl_list_distinct [OF Cons.prems(2)] by (simp add: remove1_append)
    then have "sl_list (z_pend z1) (as @ bs)" using z_complete_pend [OF Cons.prems(2), of c os t MYIO_OK 0 0 None] z1 by simp
    note IH = Cons.IH [OF tf(1) this f(2)]
    have "z_th z1 q = (if q = t then z_fired now x else z_th z q)" using tf(4) True x by (simp add: z_fired_def)
    with IH step tb x(1) show ?thesis by (cases "q = t") simp_all
  next
    case False
    then have "z1 = z" "z_fired now x = Some x" by (auto simp: z1_def z_fired_def)
    moreover have "sl_list (z_pend z) ((as @ [t]) @ bs)" using Cons.prems(2) by simp
    note IH = Cons.IH [OF Cons.prems(1) this f(2)]
    ultimately show ?thesis using IH step tb x(1) by (cases "q = t") simp_all
  qed
qed simp

text \<open>A turn's sweep over the timers: exactly the due ones complete.\<close>

lemma z_timers_sweep:
  assumes i: "zinv c {} z" and z': "z' = z_timers c os (m_brk z) z (sl_head (z_pend z)) now"
  shows "z_th z' q = Option.bind (z_th z q) (z_fired now)"
proof -
  obtain P D L where li: "zlists {} z P D L" by (rule zinvE [OF i])
  have sP: "sl_list (z_pend z) ([] @ P)" using li by (simp add: zlists_def)
  have hd: "sl_head (z_pend z) = (if P = [] then None else Some (hd P))" using sl_list_head [OF sP] by simp
  have e: "z_th z' q = (if q \<in> set P then Option.bind (z_th z q) (z_fired now) else z_th z q)"
    unfolding z' hd by (rule z_timers_exact [OF i sP zlisted_count(2) [OF i li]])
  show ?thesis
  proof (cases "q \<in> set P")
    case False
    have "z_fired now x = Some x" if "z_th z q = Some x" for x
      using zcore_parts(7) [OF zlists_core [OF li]] that False by (auto simp: zpset_def z_fired_def)
    with e False show ?thesis by (cases "z_th z q") auto
  qed (use e in simp)
qed

subsection \<open>Sleeping\<close>

lemma c_int64_id: "- (2 ^ 63) \<le> x \<Longrightarrow> x < 2 ^ 63 \<Longrightarrow> c_int64 x = x"
  by (simp add: c_int64_def signed_take_bit_int_eq_self)

lemma c_int64_wrap: "2 ^ 63 \<le> x \<Longrightarrow> x < 2 ^ 64 \<Longrightarrow> c_int64 x = x - 2 ^ 64"
  using minus_mod_self2 [of "x + 2 ^ 63" "2 ^ 64"] mod_pos_pos_trivial [of "x + 2 ^ 63 - 2 ^ 64" "2 ^ 64"]
  by (simp add: c_int64_def signed_take_bit_eq_take_bit_shift take_bit_eq_mod)

text \<open>The deadline is exact as long as it is in range; a wait of 2^63 ms or more is over at once.\<close>

lemma z_sleep_deadline:
  assumes i: "zinv c {} z" and e: "z_sleep c os z ms = (Some t, z')" and a: "a = os (m_trace z) C_uptime" "0 \<le> a_ret a"
  shows "a_ret a + int ms < 2 ^ 63 \<Longrightarrow> zt_deadline (zt z' t) = a_ret a + int ms"
    and "2 ^ 63 \<le> int ms \<Longrightarrow> int ms < 2 ^ 64 \<Longrightarrow> a_ret a < 2 ^ 63 \<Longrightarrow> zt_deadline (zt z' t) < a_ret a"
proof -
  have d: "zt_deadline (zt z' t) = c_int64 (a_ret a + c_int64 (int ms))"
    using e a(1) by (auto simp: z_sleep_def z_task_new_def Let_def sys_call_def z_pending_push_def upd_zt_def chk_zt_def zt_def z_task0_def
      split: if_splits)
  show "zt_deadline (zt z' t) = a_ret a + int ms" if "a_ret a + int ms < 2 ^ 63"
    using d that a(2) by (simp add: c_int64_id)
  assume m: "2 ^ 63 \<le> int ms" "int ms < 2 ^ 64" "a_ret a < 2 ^ 63"
  then have "c_int64 (int ms) = int ms - 2 ^ 64" by (rule_tac c_int64_wrap)
  with d m a(2) show "zt_deadline (zt z' t) < a_ret a" by (simp add: c_int64_id)
qed

subsection \<open>The bytes a write sends\<close>

text \<open>A send that fails says why.\<close>

definition send_errors :: "os \<Rightarrow> bool" where
  "send_errors os \<longleftrightarrow> (\<forall>tr fd bs. a_ret (os tr (C_send fd bs)) < 0 \<longrightarrow> 0 < a_errno (os tr (C_send fd bs)))"

lemma z_write_try_exact:
  assumes adv: "send_advances os" and er: "send_errors os" and s: "zt_sock x = Some s" and len: "zt_len x = length (zt_cbuf x)"
  shows "z_th z t = Some x \<Longrightarrow> z_sh z s = Some y \<Longrightarrow> zt_off x = off \<Longrightarrow>
    \<exists>r n z'. z_write_try os z t = Some (r, z') \<and> off \<le> n \<and> z_th z' t = Some (x\<lparr>zt_off := n\<rparr>) \<and>
      wire (zs_fd y) (m_trace z') = wire (zs_fd y) (m_trace z) @ take (n - off) (drop off (zt_cbuf x)) \<and>
      (r = 0 \<longleftrightarrow> length (zt_cbuf x) \<le> n)"
  using s len
proof (induction "length (zt_cbuf x) - off" arbitrary: off x z rule: less_induct)
  case less
  note x = less.prems
  show ?case
  proof (cases "off < length (zt_cbuf x)")
    case False
    have "x\<lparr>zt_off := off\<rparr> = x" using x(3) by auto
    with False x show ?thesis by (subst z_write_try.simps) (auto simp: zlive Let_def intro!: exI [of _ off])
  next
    case True
    let ?q = "C_send (zs_fd y) (drop off (zt_cbuf x))"
    obtain a z1 where u: "z_call os ?q z = (a, z1)" by fastforce
    have f: "zframe z z1" by (rule z_call_zframe [OF _ u]) simp
    have aq: "a = os (m_trace z) ?q" "m_trace z1 = (?q, a) # m_trace z" "a_ret a < 0 \<Longrightarrow> z_errno z1 = a_errno a"
      using u by (auto simp: z_call_def sys_call_def Let_def split: if_splits)
    have y1: "z_sh z1 s = Some y" and x1: "z_th z1 t = Some x" using f x by (simp_all add: zframe_def)
    have st: "z_write_try os z t = (if a_ret a < 0 then Some (if z_errno z1 = EAGAIN then - 1 else z_errno z1, z1)
        else z_write_try os (z1\<lparr>z_th := (z_th z1)(t \<mapsto> x\<lparr>zt_off := off + nat (a_ret a)\<rparr>)\<rparr>) t)"
      using x True u x1 by (subst z_write_try.simps) (simp add: zlive)
    show ?thesis
    proof (cases "a_ret a < 0")
      case neg: True
      then have "0 < z_errno z1" using er aq by (auto simp: send_errors_def)
      moreover have "x\<lparr>zt_off := off\<rparr> = x" using x(3) by auto
      ultimately show ?thesis using st neg True x1 aq by (auto intro!: exI [of _ off])
    next
      case pos: False
      define n where "n = nat (a_ret a)"
      have "drop off (zt_cbuf x) \<noteq> []" using True by simp
      with adv have "a_ret a \<ge> 1 \<or> a_ret a < 0" unfolding send_advances_def aq(1) by blast
      then have n1: "n \<ge> 1" using pos by (simp add: n_def)
      define x2 where "x2 = x\<lparr>zt_off := off + n\<rparr>"
      define z2 where "z2 = z1\<lparr>z_th := (z_th z1)(t \<mapsto> x2)\<rparr>"
      have st2: "z_write_try os z t = z_write_try os z2 t" using st pos by (simp add: n_def z2_def x2_def)
      have ls: "length (zt_cbuf x2) - (off + n) < length (zt_cbuf x) - off" using n1 True by (simp add: x2_def)
      have "\<exists>r m z'. z_write_try os z2 t = Some (r, z') \<and> off + n \<le> m \<and> z_th z' t = Some (x2\<lparr>zt_off := m\<rparr>) \<and>
        wire (zs_fd y) (m_trace z') = wire (zs_fd y) (m_trace z2) @ take (m - (off + n)) (drop (off + n) (zt_cbuf x2)) \<and>
        (r = 0 \<longleftrightarrow> length (zt_cbuf x2) \<le> m)"
        by (rule less.hyps [OF ls]) (use x y1 in \<open>simp_all add: z2_def x2_def\<close>)
      then obtain r m z' where m: "z_write_try os z2 t = Some (r, z')" "off + n \<le> m" "z_th z' t = Some (x2\<lparr>zt_off := m\<rparr>)"
        "wire (zs_fd y) (m_trace z') = wire (zs_fd y) (m_trace z2) @ take (m - (off + n)) (drop (off + n) (zt_cbuf x2))"
        "r = 0 \<longleftrightarrow> length (zt_cbuf x2) \<le> m" by blast
      have w2: "wire (zs_fd y) (m_trace z2) = wire (zs_fd y) (m_trace z) @ take n (drop off (zt_cbuf x))"
        using aq(2) pos by (simp add: z2_def n_def)
      have "take n (drop off (zt_cbuf x)) @ take (m - (off + n)) (drop (off + n) (zt_cbuf x)) = take (m - off) (drop off (zt_cbuf x))"
        using m(2) take_add [of n "m - (off + n)" "drop off (zt_cbuf x)"] by (simp add: add.commute)
      with m w2 st2 show ?thesis by (intro exI [of _ r] exI [of _ m] exI [of _ z']) (simp add: x2_def)
    qed
  qed
qed

end
