(* ===== verification/Myio_Zephyr_Demo.thy ===== *)
theory Myio_Zephyr_Demo
  imports Myio_Zephyr_Facts Myio_Demo
begin

text \<open>
  Sample states of the Zephyr backend: a small configuration in an environment whose
  work queue runs functions in order, whose clock counts events, whose poll reports
  everything ready, and whose sockets take up to two bytes at once.
\<close>

fun work_fifo :: "event list \<Rightarrow> addr list" where
  "work_fifo [] = []"
| "work_fifo ((C_work_submit t, a) # tr) = (if t \<in> set (work_fifo tr) then work_fifo tr else work_fifo tr @ [t])"
| "work_fifo ((C_work_cancel t, a) # tr) = (if a_ret a = 0 then remove1 t (work_fifo tr) else work_fifo tr)"
| "work_fifo ((C_work_turn, a) # tr) =
     (case a_cqe a of Some (Ud_task t, r) \<Rightarrow> remove1 t (work_fifo tr) | _ \<Rightarrow> work_fifo tr)"
| "work_fifo (_ # tr) = work_fifo tr"

definition zdemo_os :: os where
  "zdemo_os tr c = (case c of
     C_work_turn \<Rightarrow> (case work_fifo tr of [] \<Rightarrow> answer0 | t # _ \<Rightarrow> answer0\<lparr>a_cqe := Some (Ud_task t, 0)\<rparr>)
   | C_uptime \<Rightarrow> answer0\<lparr>a_ret := int (length tr)\<rparr>
   | C_poll fds tmo \<Rightarrow> answer0\<lparr>a_ret := int (length fds), a_revents := replicate (length fds) True\<rparr>
   | C_send fd bs \<Rightarrow> (if length bs \<le> 2 then answer0\<lparr>a_ret := int (length bs)\<rparr> else answer0\<lparr>a_ret := - 1, a_errno := EAGAIN\<rparr>)
   | _ \<Rightarrow> demo_os tr c)"

lemma work_fifo_out: "distinct (work_fifo tr) \<and> set (work_fifo tr) = work_out tr"
  by (induction tr rule: work_fifo.induct) (auto split: option.splits udata.splits)

lemma zdemo_workq_ok: "workq_ok zdemo_os"
proof -
  have "t \<in> work_out tr" if "a_cqe (zdemo_os tr C_work_turn) = Some (Ud_task t, r)" for tr t r
    using that work_fifo_out [of tr] by (auto simp: zdemo_os_def answer0_def split: list.splits)
  then show ?thesis by (auto simp: workq_ok_def)
qed

lemma zdemo_kernel_ok: "zkernel_ok zdemo_os"
  by (simp add: zkernel_ok_def zdemo_workq_ok gai_ok_def zdemo_os_def demo_os_def)

lemma zdemo_sends: "send_advances zdemo_os" "send_errors zdemo_os"
  by (auto simp: send_advances_def send_errors_def zdemo_os_def answer0_def errno_defs neq_Nil_conv)

definition zcfg0 :: zcfg where
  "zcfg0 = \<lparr>cfg_max_tasks = 8, cfg_max_sockets = 2, cfg_max_files = 1, cfg_file_system = True, cfg_spawn_inline = False\<rparr>"

definition zmach0 :: mach where
  "zmach0 = \<lparr>m_trace = [], m_brk = 10, m_fault = False\<rparr>"

lemma sl_remove_nil [simp]: "sl_head d = None \<Longrightarrow> sl_remove d n = Some (False, d)"
  by (simp add: sl_remove_def sl_remove_loop.simps)

lemma sl_empty_simps [simp]: "sl_head sl_empty = None" "(sl_next sl_empty)(a := None) = sl_next sl_empty"
  by (simp_all add: sl_empty_def fun_eq_iff)

definition zephyr0 :: z_io where
  "zephyr0 = snd (myio_zephyr_new zcfg0 zdemo_os (z_boot zmach0))"

lemmas zrun_defs = sys_call_def z_call_def Let_def zdemo_os_def demo_os_def answer0_def upd_zt_def upd_zs_def chk_zt_def chk_zs_def
  zt_def zs_def z_task_new_def z_sock_new_def z_pending_push_def sl_push_def z_task_ok_def z_task_complete_def z_pending_remove_def
  mk_result_def zcfg0_def

lemma zephyr0_new: "myio_zephyr_new zcfg0 zdemo_os (z_boot zmach0) = (True, zephyr0)"
  by (simp add: zephyr0_def myio_zephyr_new_def zrun_defs z_boot_def zmach0_def mach.extend_def)

lemma zephyr0_eq: "\<exists>tr. zephyr0 = \<lparr>m_trace = tr, m_brk = 10, m_fault = False, z_in_use = True, z_evfd = 0, z_pend = sl_empty,
   z_socks = sl_empty, z_sdone = sl_empty, z_th = Map.empty, z_sh = Map.empty, z_wnext = (\<lambda>_. None), z_ntask = 0, z_nsock = 0,
   z_file_used = [False], z_errbuf = [], z_errno = 0, z_spawn_q = True\<rparr> \<and> work_fifo tr = [] \<and> length tr = 2"
  by (simp add: zephyr0_def myio_zephyr_new_def zrun_defs z_boot_def zmach0_def mach.extend_def sl_empty_def)

lemma zephyr0_inv: "zinv zcfg0 {} zephyr0"
  by (rule zephyr_new_inv(1) [OF z_boot_vacant zephyr0_new]) (simp_all add: zmach0_def)

text \<open>
  A connection (socket 11, won by task 10), a write the socket does not take at once
  (task 12) and one queued behind it (task 13); a sleep (task 14).
\<close>

definition zephyr_conn :: z_io where
  "zephyr_conn = snd (z_tcp_connect zcfg0 zdemo_os zephyr0 ''localhost'' 80)"

lemma zephyr_conn_eq: "\<exists>tr. zephyr_conn = \<lparr>m_trace = tr, m_brk = 12, m_fault = False, z_in_use = True, z_evfd = 0, z_pend = sl_empty,
   z_socks = sl_push sl_empty 11, z_sdone = sl_empty,
   z_th = [10 \<mapsto> (z_task0 ZTASK_CONNECT)\<lparr>zt_done := True, zt_res := mk_result MYIO_OK 0 0 (Some 11)\<rparr>],
   z_sh = [11 \<mapsto> z_sock0 3], z_wnext = (\<lambda>_. None), z_ntask = 1, z_nsock = 1,
   z_file_used = [False], z_errbuf = [], z_errno = 0, z_spawn_q = True\<rparr> \<and> work_fifo tr = [] \<and> length tr = 7"
proof -
  obtain tr where z0: "zephyr0 = \<lparr>m_trace = tr, m_brk = 10, m_fault = False, z_in_use = True, z_evfd = 0, z_pend = sl_empty,
   z_socks = sl_empty, z_sdone = sl_empty, z_th = Map.empty, z_sh = Map.empty, z_wnext = (\<lambda>_. None), z_ntask = 0, z_nsock = 0,
   z_file_used = [False], z_errbuf = [], z_errno = 0, z_spawn_q = True\<rparr>" "work_fifo tr = []" "length tr = 2" using zephyr0_eq by blast
  show ?thesis unfolding zephyr_conn_def z0(1)
    by (simp add: z_tcp_connect_def zrun_defs z0 z_sock_set_nonblock_def demo_addr_def z_task0_def)
qed

definition zephyr_write1 :: z_io where
  "zephyr_write1 = snd (the (z_sock_write zcfg0 zdemo_os zephyr_conn 11 [7, 8, 9]))"

definition zephyr_write2 :: z_io where
  "zephyr_write2 = snd (the (z_sock_write zcfg0 zdemo_os zephyr_write1 11 [1]))"

definition zephyr_busy :: z_io where
  "zephyr_busy = snd (z_sleep zcfg0 zdemo_os zephyr_write2 1)"

definition zsock_demo :: z_sock where
  "zsock_demo = \<lparr>zs_fd = 3, zs_port = 0, zs_read_task = None, zs_accept_task = None, zs_wq = \<lparr>wq_head = Some 12, wq_tail = Some 13\<rparr>\<rparr>"

definition zwrite_demo :: "byte list \<Rightarrow> z_task" where
  "zwrite_demo bs = (z_task0 ZTASK_SOCK_WRITE)\<lparr>zt_sock := Some 11, zt_cbuf := bs, zt_len := length bs\<rparr>"

lemma z_write_arm_numeral: "z_write_arm c os (numeral v) z t =
     Option.bind (z_write_try os (chk_zt t z) t) (\<lambda>(r, z).
       if r < 0 then Some (z_pending_push z t)
       else case z_write_end c os z t r of (None, z) \<Rightarrow> Some z | (Some n, z) \<Rightarrow> z_write_arm c os (pred_numeral v) z n)"
  by (simp add: numeral_eq_Suc)

lemma zephyr_write1_eq: "\<exists>tr. z_sock_write zcfg0 zdemo_os zephyr_conn 11 [7, 8, 9] = Some (Some 12, zephyr_write1) \<and>
   zephyr_write1 = \<lparr>m_trace = tr, m_brk = 13, m_fault = False, z_in_use = True, z_evfd = 0,
   z_pend = \<lparr>sl_head = Some 12, sl_next = (\<lambda>_. None)\<rparr>, z_socks = sl_push sl_empty 11, z_sdone = sl_empty,
   z_th = [10 \<mapsto> (z_task0 ZTASK_CONNECT)\<lparr>zt_done := True, zt_res := mk_result MYIO_OK 0 0 (Some 11)\<rparr>, 12 \<mapsto> zwrite_demo [7, 8, 9]],
   z_sh = [11 \<mapsto> (z_sock0 3)\<lparr>zs_wq := \<lparr>wq_head = Some 12, wq_tail = Some 12\<rparr>\<rparr>], z_wnext = (\<lambda>_. None), z_ntask = 2, z_nsock = 1,
   z_file_used = [False], z_errbuf = [], z_errno = EAGAIN, z_spawn_q = True\<rparr> \<and> work_fifo tr = [] \<and> length tr = 8"
proof -
  obtain tr where c: "zephyr_conn = \<lparr>m_trace = tr, m_brk = 12, m_fault = False, z_in_use = True, z_evfd = 0, z_pend = sl_empty,
   z_socks = sl_push sl_empty 11, z_sdone = sl_empty,
   z_th = [10 \<mapsto> (z_task0 ZTASK_CONNECT)\<lparr>zt_done := True, zt_res := mk_result MYIO_OK 0 0 (Some 11)\<rparr>],
   z_sh = [11 \<mapsto> z_sock0 3], z_wnext = (\<lambda>_. None), z_ntask = 1, z_nsock = 1,
   z_file_used = [False], z_errbuf = [], z_errno = 0, z_spawn_q = True\<rparr>" "work_fifo tr = []" "length tr = 7" using zephyr_conn_eq by blast
  show ?thesis unfolding zephyr_write1_def c(1)
    by (simp add: z_sock_write_def zrun_defs z_wq_push_def myio_wq_push_def myio_wq_empty_def z_write_arm_numeral
        z_write_try.simps zwrite_demo_def z_task0_def z_sock0_def errno_defs c(2,3) sl_empty_def fun_eq_iff)
qed

lemma zephyr_write2_eq: "\<exists>tr. z_sock_write zcfg0 zdemo_os zephyr_write1 11 [1] = Some (Some 13, zephyr_write2) \<and>
   zephyr_write2 = \<lparr>m_trace = tr, m_brk = 14, m_fault = False, z_in_use = True, z_evfd = 0,
   z_pend = \<lparr>sl_head = Some 12, sl_next = (\<lambda>_. None)\<rparr>, z_socks = sl_push sl_empty 11, z_sdone = sl_empty,
   z_th = [10 \<mapsto> (z_task0 ZTASK_CONNECT)\<lparr>zt_done := True, zt_res := mk_result MYIO_OK 0 0 (Some 11)\<rparr>, 12 \<mapsto> zwrite_demo [7, 8, 9],
     13 \<mapsto> zwrite_demo [1]],
   z_sh = [11 \<mapsto> zsock_demo], z_wnext = [12 \<mapsto> 13], z_ntask = 3, z_nsock = 1,
   z_file_used = [False], z_errbuf = [], z_errno = EAGAIN, z_spawn_q = True\<rparr> \<and> work_fifo tr = [] \<and> length tr = 8"
proof -
  obtain tr where c: "zephyr_write1 = \<lparr>m_trace = tr, m_brk = 13, m_fault = False, z_in_use = True, z_evfd = 0,
   z_pend = \<lparr>sl_head = Some 12, sl_next = (\<lambda>_. None)\<rparr>, z_socks = sl_push sl_empty 11, z_sdone = sl_empty,
   z_th = [10 \<mapsto> (z_task0 ZTASK_CONNECT)\<lparr>zt_done := True, zt_res := mk_result MYIO_OK 0 0 (Some 11)\<rparr>, 12 \<mapsto> zwrite_demo [7, 8, 9]],
   z_sh = [11 \<mapsto> (z_sock0 3)\<lparr>zs_wq := \<lparr>wq_head = Some 12, wq_tail = Some 12\<rparr>\<rparr>], z_wnext = (\<lambda>_. None), z_ntask = 2, z_nsock = 1,
   z_file_used = [False], z_errbuf = [], z_errno = EAGAIN, z_spawn_q = True\<rparr>" "work_fifo tr = []" "length tr = 8" using zephyr_write1_eq by blast
  show ?thesis unfolding zephyr_write2_def c(1)
    by (simp add: z_sock_write_def zrun_defs z_wq_push_def myio_wq_push_def
        zwrite_demo_def z_task0_def zsock_demo_def z_sock0_def c(2,3) sl_empty_def fun_eq_iff)
qed

lemma zephyr_busy_eq: "\<exists>tr. z_sleep zcfg0 zdemo_os zephyr_write2 1 = (Some 14, zephyr_busy) \<and>
   zephyr_busy = \<lparr>m_trace = tr, m_brk = 15, m_fault = False, z_in_use = True, z_evfd = 0,
   z_pend = \<lparr>sl_head = Some 14, sl_next = [14 \<mapsto> 12]\<rparr>, z_socks = sl_push sl_empty 11, z_sdone = sl_empty,
   z_th = [10 \<mapsto> (z_task0 ZTASK_CONNECT)\<lparr>zt_done := True, zt_res := mk_result MYIO_OK 0 0 (Some 11)\<rparr>, 12 \<mapsto> zwrite_demo [7, 8, 9],
     13 \<mapsto> zwrite_demo [1], 14 \<mapsto> (z_task0 ZTASK_TIMER)\<lparr>zt_deadline := c_int64 (int (length (m_trace zephyr_write2)) + c_int64 1)\<rparr>],
   z_sh = [11 \<mapsto> zsock_demo], z_wnext = [12 \<mapsto> 13], z_ntask = 4, z_nsock = 1,
   z_file_used = [False], z_errbuf = [], z_errno = EAGAIN, z_spawn_q = True\<rparr>"
proof -
  obtain tr where c: "zephyr_write2 = \<lparr>m_trace = tr, m_brk = 14, m_fault = False, z_in_use = True, z_evfd = 0,
   z_pend = \<lparr>sl_head = Some 12, sl_next = (\<lambda>_. None)\<rparr>, z_socks = sl_push sl_empty 11, z_sdone = sl_empty,
   z_th = [10 \<mapsto> (z_task0 ZTASK_CONNECT)\<lparr>zt_done := True, zt_res := mk_result MYIO_OK 0 0 (Some 11)\<rparr>, 12 \<mapsto> zwrite_demo [7, 8, 9],
     13 \<mapsto> zwrite_demo [1]],
   z_sh = [11 \<mapsto> zsock_demo], z_wnext = [12 \<mapsto> 13], z_ntask = 3, z_nsock = 1,
   z_file_used = [False], z_errbuf = [], z_errno = EAGAIN, z_spawn_q = True\<rparr>" using zephyr_write2_eq by blast
  show ?thesis unfolding zephyr_busy_def c
    by (simp add: z_sleep_def zrun_defs z_task0_def sl_empty_def fun_eq_iff)
qed

lemma zephyr_conn_inv: "zinv zcfg0 {} zephyr_conn"
  unfolding zephyr_conn_def by (rule zinv_tcp_connect [OF _ zephyr0_inv]) (use zdemo_kernel_ok in \<open>simp add: zkernel_ok_def\<close>)

lemma z_io_parts: "z = \<lparr>m_trace = tr, m_brk = b, m_fault = f, z_in_use = iu, z_evfd = ev, z_pend = pe, z_socks = so, z_sdone = sd,
   z_th = th, z_sh = sh, z_wnext = wn, z_ntask = nt, z_nsock = ns, z_file_used = fu, z_errbuf = eb, z_errno = er, z_spawn_q = sq\<rparr> \<Longrightarrow>
   z_th z = th \<and> z_sh z = sh \<and> z_wnext z = wn \<and> z_pend z = pe \<and> m_trace z = tr"
  by simp

lemma zephyr_conn_parts:
  "z_th zephyr_conn = [10 \<mapsto> (z_task0 ZTASK_CONNECT)\<lparr>zt_done := True, zt_res := mk_result MYIO_OK 0 0 (Some 11)\<rparr>] \<and>
   z_sh zephyr_conn = [11 \<mapsto> z_sock0 3]"
  using zephyr_conn_eq by (elim exE conjE) (drule z_io_parts, simp)

lemma zephyr_write1_parts:
  "z_th zephyr_write1 = (z_th zephyr_conn)(12 \<mapsto> zwrite_demo [7, 8, 9]) \<and>
   z_sh zephyr_write1 = [11 \<mapsto> (z_sock0 3)\<lparr>zs_wq := \<lparr>wq_head = Some 12, wq_tail = Some 12\<rparr>\<rparr>]"
  using zephyr_write1_eq by (elim exE conjE) (drule z_io_parts, simp add: zephyr_conn_parts)

lemma zephyr_write2_parts:
  "z_th zephyr_write2 = (z_th zephyr_write1)(13 \<mapsto> zwrite_demo [1]) \<and> z_sh zephyr_write2 = [11 \<mapsto> zsock_demo] \<and>
   z_wnext zephyr_write2 = [12 \<mapsto> 13] \<and> z_pend zephyr_write2 = \<lparr>sl_head = Some 12, sl_next = (\<lambda>_. None)\<rparr> \<and>
   length (m_trace zephyr_write2) = 8"
  using zephyr_write2_eq by (elim exE conjE) (drule z_io_parts, simp add: zephyr_conn_parts zephyr_write1_parts)

lemma zephyr_busy_parts:
  "z_th zephyr_busy = (z_th zephyr_write2)(14 \<mapsto> (z_task0 ZTASK_TIMER)\<lparr>zt_deadline :=
     c_int64 (int (length (m_trace zephyr_write2)) + c_int64 1)\<rparr>) \<and> z_sh zephyr_busy = [11 \<mapsto> zsock_demo] \<and>
   z_wnext zephyr_busy = [12 \<mapsto> 13] \<and> z_pend zephyr_busy = \<lparr>sl_head = Some 14, sl_next = [14 \<mapsto> 12]\<rparr>"
  using zephyr_busy_eq by (elim exE conjE) (drule z_io_parts, simp add: zephyr_conn_parts zephyr_write1_parts zephyr_write2_parts)

lemmas zephyr_states = zephyr_conn_parts zephyr_write1_parts zephyr_write2_parts zephyr_busy_parts

lemma zephyr_usable: "zusable zephyr_conn 11" "zusable zephyr_write1 11" "zusable zephyr_write2 11" "zusable zephyr_busy 11"
  by (auto simp: zusable_def zx_def zwrite_demo_def zephyr_states split: if_splits)

lemma zephyr_writes_inv: "zinv zcfg0 {} zephyr_write1" "zinv zcfg0 {} zephyr_write2" "zinv zcfg0 {} zephyr_busy"
proof -
  show 1: "zinv zcfg0 {} zephyr_write1" using zephyr_write1_eq zinv_sock_write [OF zephyr_conn_inv zephyr_usable(1)] by blast
  show 2: "zinv zcfg0 {} zephyr_write2" using zephyr_write2_eq zinv_sock_write [OF 1 zephyr_usable(2)] by blast
  show "zinv zcfg0 {} zephyr_busy" using zephyr_busy_eq zinv_sleep(1) [OF 2] by blast
qed

end
