(* ===== verification/Myio_Libuv.thy ===== *)
theory Myio_Libuv
  imports Myio_Os
begin

text \<open>
  What the libuv backend relies on, the documented behaviour of libuv's loop. The state
  of a loop, as far as its documentation speaks of it, is read off the calls made and the
  callbacks delivered so far: the request a task has outstanding, the state of each timer
  and TCP handle, and the requests whose cancellation was accepted. \<open>uv_call_ok\<close> says when
  a call is allowed, \<open>uv_may\<close> which callbacks may come next.
\<close>

subsection \<open>Constants of libuv's interface\<close>

definition UV_ECANCELED :: int where "UV_ECANCELED = - 125"
definition UV_EOF :: int where "UV_EOF = - 4095"
definition UV_EAI_AGAIN :: int where "UV_EAI_AGAIN = - 3001"
definition UV_EAI_BADFLAGS :: int where "UV_EAI_BADFLAGS = - 3002"
definition UV_EAI_CANCELED :: int where "UV_EAI_CANCELED = - 3003"
definition UV_EAI_FAIL :: int where "UV_EAI_FAIL = - 3004"
definition UV_EAI_FAMILY :: int where "UV_EAI_FAMILY = - 3005"
definition UV_EAI_MEMORY :: int where "UV_EAI_MEMORY = - 3006"
definition UV_EAI_NODATA :: int where "UV_EAI_NODATA = - 3007"
definition UV_EAI_NONAME :: int where "UV_EAI_NONAME = - 3008"
definition UV_EAI_OVERFLOW :: int where "UV_EAI_OVERFLOW = - 3009"
definition UV_EAI_SERVICE :: int where "UV_EAI_SERVICE = - 3010"
definition UV_EAI_SOCKTYPE :: int where "UV_EAI_SOCKTYPE = - 3011"

lemmas uv_const_defs = UV_ECANCELED_def UV_EOF_def UV_EAI_AGAIN_def UV_EAI_BADFLAGS_def UV_EAI_CANCELED_def
  UV_EAI_FAIL_def UV_EAI_FAMILY_def UV_EAI_MEMORY_def UV_EAI_NODATA_def UV_EAI_NONAME_def UV_EAI_OVERFLOW_def
  UV_EAI_SERVICE_def UV_EAI_SOCKTYPE_def

subsection \<open>The state of a loop\<close>

text \<open>A connect or write request is on a TCP handle, named by its socket.\<close>

datatype uv_req = Rq_fs | Rq_work | Rq_gai | Rq_connect addr | Rq_write addr

datatype timer_state = Timer_idle | Timer_armed | Timer_closing

text \<open>An open TCP handle reads or not, listens or not.\<close>

datatype tcp_state = Tcp_open bool bool | Tcp_closing

record uv_loop =
  ul_req :: "addr \<rightharpoonup> uv_req"
  ul_timer :: "addr \<rightharpoonup> timer_state"
  ul_tcp :: "addr \<rightharpoonup> tcp_state"
  ul_cancel :: "addr set"

definition uv_loop0 :: uv_loop where
  "uv_loop0 = \<lparr>ul_req = Map.empty, ul_timer = Map.empty, ul_tcp = Map.empty, ul_cancel = {}\<rparr>"

definition uv_start :: "answer \<Rightarrow> addr \<Rightarrow> uv_req \<Rightarrow> uv_loop \<Rightarrow> uv_loop" where
  "uv_start a t r l = (if a_ret a < 0 then l else l\<lparr>ul_req := (ul_req l)(t \<mapsto> r)\<rparr>)"

definition uv_finish :: "addr \<Rightarrow> uv_loop \<Rightarrow> uv_loop" where
  "uv_finish t l = l\<lparr>ul_req := (ul_req l)(t := None), ul_cancel := ul_cancel l - {t}\<rparr>"

definition tcp_reading :: "bool \<Rightarrow> tcp_state option \<Rightarrow> tcp_state option" where
  "tcp_reading b h = (case h of Some (Tcp_open r l) \<Rightarrow> Some (Tcp_open b l) | _ \<Rightarrow> h)"

definition tcp_listening :: "tcp_state option \<Rightarrow> tcp_state option" where
  "tcp_listening h = (case h of Some (Tcp_open r l) \<Rightarrow> Some (Tcp_open r True) | _ \<Rightarrow> h)"

fun uv_deliver :: "uv_cb \<Rightarrow> uv_loop \<Rightarrow> uv_loop" where
  "uv_deliver (Cb_fs t r) l = uv_finish t l"
| "uv_deliver (Cb_timer t) l = l\<lparr>ul_timer := (ul_timer l)(t \<mapsto> Timer_idle)\<rparr>"
| "uv_deliver (Cb_after_work t r) l = uv_finish t l"
| "uv_deliver (Cb_getaddrinfo t r) l = uv_finish t l"
| "uv_deliver (Cb_connect t r) l = uv_finish t l"
| "uv_deliver (Cb_write t r) l = uv_finish t l"
| "uv_deliver (Cb_close (H_timer t)) l = l\<lparr>ul_timer := (ul_timer l)(t := None)\<rparr>"
| "uv_deliver (Cb_close (H_tcp s)) l = l\<lparr>ul_tcp := (ul_tcp l)(s := None)\<rparr>"
| "uv_deliver _ l = l"

fun uv_effect :: "uv_call \<Rightarrow> answer \<Rightarrow> uv_loop \<Rightarrow> uv_loop" where
  "uv_effect (Uv_run m) a l = (case a_cb a of Some cb \<Rightarrow> uv_deliver cb l | None \<Rightarrow> l)"
| "uv_effect (Uv_close (H_timer t)) a l = l\<lparr>ul_timer := (ul_timer l)(t \<mapsto> Timer_closing)\<rparr>"
| "uv_effect (Uv_close (H_tcp s)) a l = l\<lparr>ul_tcp := (ul_tcp l)(s \<mapsto> Tcp_closing)\<rparr>"
| "uv_effect (Uv_cancel t) a l = (if a_ret a = 0 then l\<lparr>ul_cancel := insert t (ul_cancel l)\<rparr> else l)"
| "uv_effect (Uv_fs_open t p f m) a l = uv_start a t Rq_fs l"
| "uv_effect (Uv_fs_close t fd) a l = uv_start a t Rq_fs l"
| "uv_effect (Uv_fs_read t fd b n off) a l = uv_start a t Rq_fs l"
| "uv_effect (Uv_fs_write t fd b off) a l = uv_start a t Rq_fs l"
| "uv_effect (Uv_timer_init t) a l = l\<lparr>ul_timer := (ul_timer l)(t \<mapsto> Timer_idle)\<rparr>"
| "uv_effect (Uv_timer_start t ms) a l =
     (if a_ret a < 0 then l else l\<lparr>ul_timer := (ul_timer l)(t \<mapsto> Timer_armed)\<rparr>)"
| "uv_effect (Uv_timer_stop t) a l = l\<lparr>ul_timer := (ul_timer l)(t \<mapsto> Timer_idle)\<rparr>"
| "uv_effect (Uv_queue_work t) a l = uv_start a t Rq_work l"
| "uv_effect (Uv_tcp_init s) a l = l\<lparr>ul_tcp := (ul_tcp l)(s \<mapsto> Tcp_open False False)\<rparr>"
| "uv_effect (Uv_getaddrinfo t h sv) a l = uv_start a t Rq_gai l"
| "uv_effect (Uv_tcp_connect t s d) a l = uv_start a t (Rq_connect s) l"
| "uv_effect (Uv_listen s b) a l =
     (if a_ret a = 0 then l\<lparr>ul_tcp := (ul_tcp l)(s := tcp_listening (ul_tcp l s))\<rparr> else l)"
| "uv_effect (Uv_read_start s) a l =
     (if a_ret a < 0 then l else l\<lparr>ul_tcp := (ul_tcp l)(s := tcp_reading True (ul_tcp l s))\<rparr>)"
| "uv_effect (Uv_read_stop s) a l = l\<lparr>ul_tcp := (ul_tcp l)(s := tcp_reading False (ul_tcp l s))\<rparr>"
| "uv_effect (Uv_write t s b) a l = uv_start a t (Rq_write s) l"
| "uv_effect _ a l = l"

fun uv_state :: "event list \<Rightarrow> uv_loop" where
  "uv_state [] = uv_loop0"
| "uv_state ((C_uv c, a) # tr) = uv_effect c a (uv_state tr)"
| "uv_state (_ # tr) = uv_state tr"

subsection \<open>Which calls are allowed\<close>

text \<open>
  A handle is initialized once and closed once, and used only in between; a request is
  not reused while it is outstanding and cancelled only then; \<^verbatim>\<open>uv_read_stop\<close> may come at any
  time until the handle is gone; a loop is closed when nothing is left in it.
\<close>

definition tcp_is_open :: "uv_loop \<Rightarrow> addr \<Rightarrow> bool" where
  "tcp_is_open l s \<longleftrightarrow> (case ul_tcp l s of Some (Tcp_open r k) \<Rightarrow> True | _ \<Rightarrow> False)"

definition tcp_live :: "uv_loop \<Rightarrow> addr \<Rightarrow> bool" where
  "tcp_live l s \<longleftrightarrow> ul_tcp l s \<noteq> None"

definition timer_usable :: "uv_loop \<Rightarrow> addr \<Rightarrow> bool" where
  "timer_usable l t \<longleftrightarrow> ul_timer l t \<in> {Some Timer_idle, Some Timer_armed}"

fun uv_call_ok :: "uv_loop \<Rightarrow> uv_call \<Rightarrow> bool" where
  "uv_call_ok l (Uv_close (H_timer t)) = timer_usable l t"
| "uv_call_ok l (Uv_close (H_tcp s)) = tcp_is_open l s"
| "uv_call_ok l (Uv_is_closing (H_timer t)) = (ul_timer l t \<noteq> None)"
| "uv_call_ok l (Uv_is_closing (H_tcp s)) = tcp_live l s"
| "uv_call_ok l (Uv_cancel t) = (ul_req l t \<in> {Some Rq_fs, Some Rq_work, Some Rq_gai})"
| "uv_call_ok l (Uv_fs_open t p f m) = (ul_req l t = None)"
| "uv_call_ok l (Uv_fs_close t fd) = (ul_req l t = None)"
| "uv_call_ok l (Uv_fs_read t fd b n off) = (ul_req l t = None)"
| "uv_call_ok l (Uv_fs_write t fd b off) = (ul_req l t = None)"
| "uv_call_ok l (Uv_timer_init t) = (ul_timer l t = None)"
| "uv_call_ok l (Uv_timer_start t ms) = timer_usable l t"
| "uv_call_ok l (Uv_timer_stop t) = timer_usable l t"
| "uv_call_ok l (Uv_queue_work t) = (ul_req l t = None)"
| "uv_call_ok l (Uv_tcp_init s) = (ul_tcp l s = None)"
| "uv_call_ok l (Uv_getaddrinfo t h sv) = (ul_req l t = None)"
| "uv_call_ok l (Uv_tcp_connect t s d) = (ul_req l t = None \<and> tcp_is_open l s)"
| "uv_call_ok l (Uv_tcp_bind s d) = tcp_is_open l s"
| "uv_call_ok l (Uv_listen s b) = tcp_is_open l s"
| "uv_call_ok l (Uv_accept s c) = (tcp_is_open l s \<and> tcp_is_open l c)"
| "uv_call_ok l (Uv_read_start s) = tcp_is_open l s"
| "uv_call_ok l (Uv_read_stop s) = tcp_live l s"
| "uv_call_ok l (Uv_write t s b) = (ul_req l t = None \<and> tcp_is_open l s)"
| "uv_call_ok l (Uv_tcp_getsockname s) = tcp_is_open l s"
| "uv_call_ok l Uv_loop_close = (ul_req l = Map.empty \<and> ul_timer l = Map.empty \<and> ul_tcp l = Map.empty)"
| "uv_call_ok l _ = True"

fun uv_disciplined :: "event list \<Rightarrow> bool" where
  "uv_disciplined [] = True"
| "uv_disciplined ((C_uv c, a) # tr) = (uv_call_ok (uv_state tr) c \<and> uv_disciplined tr)"
| "uv_disciplined (_ # tr) = uv_disciplined tr"

subsection \<open>Which callbacks may come\<close>

text \<open>
  A request has one callback, with the cancellation code when its cancellation was
  accepted; a connect on a closing handle fails. A timer fires while armed; a stream
  reports connections while it listens and data while it reads. A closing handle
  has one last callback, once no connect or write is outstanding on it.
\<close>

fun uv_may :: "uv_loop \<Rightarrow> uv_cb \<Rightarrow> bool" where
  "uv_may l (Cb_fs t r) = (ul_req l t = Some Rq_fs \<and> (t \<in> ul_cancel l \<longrightarrow> r = UV_ECANCELED))"
| "uv_may l (Cb_work t) = (ul_req l t = Some Rq_work \<and> t \<notin> ul_cancel l)"
| "uv_may l (Cb_after_work t r) = (ul_req l t = Some Rq_work \<and> (t \<in> ul_cancel l \<longrightarrow> r = UV_ECANCELED))"
| "uv_may l (Cb_getaddrinfo t r) = (ul_req l t = Some Rq_gai \<and> (t \<in> ul_cancel l \<longrightarrow> r = UV_EAI_CANCELED))"
| "uv_may l (Cb_connect t r) = (\<exists>s. ul_req l t = Some (Rq_connect s) \<and> (r = 0 \<longrightarrow> tcp_is_open l s))"
| "uv_may l (Cb_write t r) = (\<exists>s. ul_req l t = Some (Rq_write s))"
| "uv_may l (Cb_timer t) = (ul_timer l t = Some Timer_armed)"
| "uv_may l (Cb_connection s r) = (\<exists>b. ul_tcp l s = Some (Tcp_open b True))"
| "uv_may l (Cb_alloc s) = (\<exists>b. ul_tcp l s = Some (Tcp_open True b))"
| "uv_may l (Cb_read s n) = (\<exists>b. ul_tcp l s = Some (Tcp_open True b))"
| "uv_may l (Cb_close (H_timer t)) = (ul_timer l t = Some Timer_closing)"
| "uv_may l (Cb_close (H_tcp s)) = (ul_tcp l s = Some Tcp_closing \<and>
     (\<forall>t. ul_req l t \<noteq> Some (Rq_connect s) \<and> ul_req l t \<noteq> Some (Rq_write s)))"

text \<open>Nothing keeps the loop alive: no request, no closing handle, no active one.\<close>

definition uv_quiet :: "uv_loop \<Rightarrow> bool" where
  "uv_quiet l \<longleftrightarrow> ul_req l = Map.empty \<and> (\<forall>t. ul_timer l t \<in> {None, Some Timer_idle}) \<and>
     (\<forall>s. ul_tcp l s \<in> {None, Some (Tcp_open False False)})"

text \<open>
  The contract: on a loop used as documented, callbacks come as described; a run for one
  turn reports a dead loop only when it is quiet, an unlimited run returns only then;
  \<^verbatim>\<open>uv_is_closing\<close> tells the truth; a resolution that succeeds yields an address; a walk
  visits every handle once.
\<close>

definition uv_ok :: "os \<Rightarrow> bool" where
  "uv_ok os \<longleftrightarrow> (\<forall>tr. uv_disciplined tr \<longrightarrow>
     (\<forall>m cb. a_cb (os tr (C_uv (Uv_run m))) = Some cb \<longrightarrow> uv_may (uv_state tr) cb \<and>
        (\<forall>t r. cb = Cb_getaddrinfo t r \<longrightarrow> r \<ge> 0 \<longrightarrow> a_addrs (os tr (C_uv (Uv_run m))) \<noteq> [])) \<and>
     (\<forall>m. a_cb (os tr (C_uv (Uv_run m))) = None \<longrightarrow>
        m = UV_RUN_DEFAULT \<or> a_ret (os tr (C_uv (Uv_run m))) = 0 \<longrightarrow> uv_quiet (uv_state tr)) \<and>
     (\<forall>t st. ul_timer (uv_state tr) t = Some st \<longrightarrow>
        (a_ret (os tr (C_uv (Uv_is_closing (H_timer t)))) \<noteq> 0 \<longleftrightarrow> st = Timer_closing)) \<and>
     (\<forall>s st. ul_tcp (uv_state tr) s = Some st \<longrightarrow>
        (a_ret (os tr (C_uv (Uv_is_closing (H_tcp s)))) \<noteq> 0 \<longleftrightarrow> st = Tcp_closing)) \<and>
     distinct (a_handles (os tr (C_uv Uv_walk))) \<and>
     set (a_handles (os tr (C_uv Uv_walk))) =
       H_timer ` dom (ul_timer (uv_state tr)) \<union> H_tcp ` dom (ul_tcp (uv_state tr)))"

end
