(* ===== verification/Myio_Uv.thy ===== *)
theory Myio_Uv
  imports Myio_Libuv Myio_Common Myio_Wq
begin

text \<open>
  The libuv backend, \<^verbatim>\<open>src/src/myio_uv.c\<close>, function by function. Tasks and sockets are
  heap objects; a libuv request or handle is named by the task or socket it is embedded
  in. libuv is the environment: a call to it is a call \<open>C_uv\<close>, and the callbacks it makes
  while \<^verbatim>\<open>uv_run\<close> is active are the answers to \<open>Uv_run\<close>, dispatched to the backend's
  callback functions. A null or dangling pointer that the code dereferences sets the
  fault flag.
\<close>

datatype v_kind =
    VTASK_FS | VTASK_TIMER | VTASK_SPAWN | VTASK_CONNECT | VTASK_ACCEPT
  | VTASK_SOCK_READ | VTASK_SOCK_WRITE | VTASK_SOCK_CLOSE

text \<open>A \<^verbatim>\<open>uv_buf_t\<close>: memory to fill, or bytes to send. Its length is an \<^verbatim>\<open>unsigned\<close>.\<close>

datatype uv_buf = Buf_in addr nat | Buf_out "byte list"

definition c_unsigned :: "nat \<Rightarrow> nat" where
  "c_unsigned n = n mod 2 ^ 32"

definition uv_buf_in :: "addr \<Rightarrow> nat \<Rightarrow> uv_buf" where
  "uv_buf_in b n = Buf_in b (c_unsigned n)"

definition uv_buf_out :: "byte list \<Rightarrow> uv_buf" where
  "uv_buf_out b = Buf_out (take (c_unsigned (length b)) b)"

fun buf_len :: "uv_buf \<Rightarrow> nat" where
  "buf_len (Buf_in b n) = n"
| "buf_len (Buf_out b) = length b"

fun buf_bytes :: "uv_buf \<Rightarrow> byte list" where
  "buf_bytes (Buf_in b n) = []"
| "buf_bytes (Buf_out b) = b"

record uv_task =
  vt_kind :: v_kind
  vt_done :: bool
  vt_detached :: bool
  vt_res :: myio_result
  vt_buf :: uv_buf
  vt_sock :: ptr
  vt_fn :: addr
  vt_arg :: addr
  vt_fn_ret :: int
  vt_connecting :: bool
  vt_timer_closed :: bool
  vt_free_on_close :: bool

record uv_sock =
  vs_read_task :: ptr
  vs_accept_task :: ptr
  vs_close_task :: ptr
  vs_pending :: myio_wq

record uv_io = mach +
  v_ncompleted :: "32 word"
  v_errbuf :: string
  v_th :: "addr \<rightharpoonup> uv_task"
  v_sh :: "addr \<rightharpoonup> uv_sock"
  v_pnode :: wlinks

definition v_task0 :: "v_kind \<Rightarrow> uv_task" where
  "v_task0 k = \<lparr>vt_kind = k, vt_done = False, vt_detached = False, vt_res = result0, vt_buf = Buf_in 0 0,
     vt_sock = None, vt_fn = 0, vt_arg = 0, vt_fn_ret = 0, vt_connecting = False, vt_timer_closed = False,
     vt_free_on_close = False\<rparr>"

definition v_sock0 :: uv_sock where
  "v_sock0 = \<lparr>vs_read_task = None, vs_accept_task = None, vs_close_task = None, vs_pending = myio_wq_empty\<rparr>"

subsection \<open>Access through pointers, calls to libuv\<close>

definition vt :: "uv_io \<Rightarrow> addr \<Rightarrow> uv_task" where
  "vt u t = (case v_th u t of Some x \<Rightarrow> x | None \<Rightarrow> v_task0 VTASK_FS)"

definition vs :: "uv_io \<Rightarrow> addr \<Rightarrow> uv_sock" where
  "vs u s = (case v_sh u s of Some y \<Rightarrow> y | None \<Rightarrow> v_sock0)"

definition upd_vt :: "addr \<Rightarrow> (uv_task \<Rightarrow> uv_task) \<Rightarrow> uv_io \<Rightarrow> uv_io" where
  "upd_vt t f u = (case v_th u t of
     None \<Rightarrow> m_flag u
   | Some x \<Rightarrow> u\<lparr>v_th := (v_th u)(t \<mapsto> f x)\<rparr>)"

definition upd_vs :: "addr \<Rightarrow> (uv_sock \<Rightarrow> uv_sock) \<Rightarrow> uv_io \<Rightarrow> uv_io" where
  "upd_vs s f u = (case v_sh u s of
     None \<Rightarrow> m_flag u
   | Some y \<Rightarrow> u\<lparr>v_sh := (v_sh u)(s \<mapsto> f y)\<rparr>)"

definition chk_vt :: "addr \<Rightarrow> uv_io \<Rightarrow> uv_io" where
  "chk_vt t u = (if v_th u t = None then m_flag u else u)"

definition chk_vs :: "addr \<Rightarrow> uv_io \<Rightarrow> uv_io" where
  "chk_vs s u = (if v_sh u s = None then m_flag u else u)"

definition free_vt :: "addr \<Rightarrow> uv_io \<Rightarrow> uv_io" where
  "free_vt t u = (chk_vt t u)\<lparr>v_th := (v_th u)(t := None)\<rparr>"

definition free_vs :: "addr \<Rightarrow> uv_io \<Rightarrow> uv_io" where
  "free_vs s u = (chk_vs s u)\<lparr>v_sh := (v_sh u)(s := None)\<rparr>"

definition uv :: "os \<Rightarrow> uv_call \<Rightarrow> uv_io \<Rightarrow> answer \<times> uv_io" where
  "uv os c u = sys_call os (C_uv c) u"

definition uv_do :: "os \<Rightarrow> uv_call \<Rightarrow> uv_io \<Rightarrow> uv_io" where
  "uv_do os c u = snd (uv os c u)"

subsection \<open>Tasks\<close>

definition v_task_new :: "os \<Rightarrow> uv_io \<Rightarrow> v_kind \<Rightarrow> ptr \<times> uv_io" where
  "v_task_new os u kind =
     (let (p, u) = sys_alloc os u in
      case p of
        None \<Rightarrow> (None, u)
      | Some t \<Rightarrow> (Some t, u\<lparr>v_th := (v_th u)(t \<mapsto> v_task0 kind)\<rparr>))"

definition v_sock_destroy :: "os \<Rightarrow> uv_io \<Rightarrow> addr \<Rightarrow> uv_io" where
  "v_sock_destroy os u s =
     (let u = chk_vs s u;
          (a, u) = uv os (Uv_is_closing (H_tcp s)) u
      in if a_ret a = 0 then uv_do os (Uv_close (H_tcp s)) u else u)"

definition v_sock_destroy_at :: "os \<Rightarrow> uv_io \<Rightarrow> ptr \<Rightarrow> uv_io" where
  "v_sock_destroy_at os u p = (case p of None \<Rightarrow> m_flag u | Some s \<Rightarrow> v_sock_destroy os u s)"

text \<open>
  The end of a task's memory, shared by \<^verbatim>\<open>task_reap\<close> and \<^verbatim>\<open>impl_task_free\<close>: a timer that
  has not finished closing is freed from its close callback.
\<close>

definition v_release :: "os \<Rightarrow> uv_io \<Rightarrow> addr \<Rightarrow> uv_io" where
  "v_release os u t =
     (if vt_kind (vt u t) = VTASK_TIMER \<and> \<not> vt_timer_closed (vt u t) then
        let u = upd_vt t (\<lambda>x. x\<lparr>vt_free_on_close := True\<rparr>) u;
            (a, u) = uv os (Uv_is_closing (H_timer t)) u
        in if a_ret a = 0 then uv_do os (Uv_close (H_timer t)) u else u
      else free_vt t u)"

definition v_task_reap :: "os \<Rightarrow> uv_io \<Rightarrow> addr \<Rightarrow> uv_io" where
  "v_task_reap os u t =
     (let u = chk_vt t u;
          u = (case res_ptr (vt_res (vt u t)) of Some s \<Rightarrow> v_sock_destroy os u s | None \<Rightarrow> u)
      in v_release os u t)"

definition v_task_finish :: "os \<Rightarrow> uv_io \<Rightarrow> addr \<Rightarrow> uv_io" where
  "v_task_finish os u t =
     (let u = upd_vt t (\<lambda>x. x\<lparr>vt_done := True\<rparr>) u;
          u = u\<lparr>v_ncompleted := v_ncompleted u + 1\<rparr>
      in if vt_detached (vt u t) then v_task_reap os u t else u)"

definition v_complete_res :: "int \<Rightarrow> myio_result \<Rightarrow> myio_result" where
  "v_complete_res r res =
     (if r \<ge> 0 then res\<lparr>res_status := MYIO_OK, res_value := r\<rparr>
      else if r = UV_ECANCELED then res\<lparr>res_status := MYIO_CANCELED\<rparr>
      else res\<lparr>res_status := MYIO_ERROR, res_error := c_int (- r)\<rparr>)"

definition v_task_complete :: "os \<Rightarrow> uv_io \<Rightarrow> addr \<Rightarrow> int \<Rightarrow> uv_io" where
  "v_task_complete os u t r =
     v_task_finish os (upd_vt t (\<lambda>x. x\<lparr>vt_res := v_complete_res r (vt_res x)\<rparr>) u) t"

text \<open>A task completed with an error number kept as it is.\<close>

definition v_task_error :: "os \<Rightarrow> uv_io \<Rightarrow> addr \<Rightarrow> int \<Rightarrow> uv_io" where
  "v_task_error os u t e =
     v_task_finish os (upd_vt t (\<lambda>x. x\<lparr>vt_res := (vt_res x)\<lparr>res_status := MYIO_ERROR, res_error := e\<rparr>\<rparr>) u) t"

definition v_task_new_failed :: "os \<Rightarrow> uv_io \<Rightarrow> v_kind \<Rightarrow> int \<Rightarrow> ptr \<times> uv_io" where
  "v_task_new_failed os u kind err =
     (let (p, u) = v_task_new os u kind in
      case p of
        None \<Rightarrow> (None, u)
      | Some t \<Rightarrow> (Some t, upd_vt t (\<lambda>x. x\<lparr>vt_res := (vt_res x)\<lparr>res_status := MYIO_ERROR, res_error := err\<rparr>,
                       vt_done := True\<rparr>) u))"

subsection \<open>Sockets: creation and teardown\<close>

definition v_sock_new :: "os \<Rightarrow> uv_io \<Rightarrow> ptr \<times> uv_io" where
  "v_sock_new os u =
     (let (p, u) = sys_alloc os u in
      case p of
        None \<Rightarrow> (None, u)
      | Some s \<Rightarrow>
          (Some s, uv_do os (Uv_tcp_init s) (u\<lparr>v_sh := (v_sh u)(s \<mapsto> v_sock0), v_pnode := (v_pnode u)(s := None)\<rparr>)))"

definition v_close_slot_read :: "os \<Rightarrow> uv_io \<Rightarrow> addr \<Rightarrow> uv_io" where
  "v_close_slot_read os u s =
     (case vs_read_task (vs u s) of
        None \<Rightarrow> u
      | Some t \<Rightarrow> upd_vs s (\<lambda>y. y\<lparr>vs_read_task := None\<rparr>) (v_task_complete os u t UV_ECANCELED))"

definition v_close_slot_accept :: "os \<Rightarrow> uv_io \<Rightarrow> addr \<Rightarrow> uv_io" where
  "v_close_slot_accept os u s =
     (case vs_accept_task (vs u s) of
        None \<Rightarrow> u
      | Some t \<Rightarrow> upd_vs s (\<lambda>y. y\<lparr>vs_accept_task := None\<rparr>) (v_task_complete os u t UV_ECANCELED))"

definition v_sock_close_cb :: "os \<Rightarrow> uv_io \<Rightarrow> addr \<Rightarrow> uv_io" where
  "v_sock_close_cb os u s =
     (let u = chk_vs s u;
          u = v_close_slot_read os u s;
          u = v_close_slot_accept os u s;
          u = (case vs_close_task (vs u s) of None \<Rightarrow> u | Some t \<Rightarrow> v_task_complete os u t 0)
      in free_vs s u)"

subsection \<open>Files\<close>

definition v_fs_cb :: "os \<Rightarrow> uv_io \<Rightarrow> addr \<Rightarrow> int \<Rightarrow> uv_io" where
  "v_fs_cb os u t result = v_task_complete os (chk_vt t u) t result"

definition v_fs_submitted :: "os \<Rightarrow> uv_io \<Rightarrow> addr \<Rightarrow> int \<Rightarrow> ptr \<times> uv_io" where
  "v_fs_submitted os u t rc = (Some t, if rc < 0 then v_task_complete os u t rc else u)"

definition v_open :: "os \<Rightarrow> uv_io \<Rightarrow> string \<Rightarrow> int \<Rightarrow> int \<Rightarrow> ptr \<times> uv_io" where
  "v_open os u path flags mode =
     (let (p, u) = v_task_new os u VTASK_FS in
      case p of
        None \<Rightarrow> (None, u)
      | Some t \<Rightarrow> let (a, u) = uv os (Uv_fs_open t path flags mode) u in v_fs_submitted os u t (a_ret a))"

definition v_close :: "os \<Rightarrow> uv_io \<Rightarrow> int \<Rightarrow> ptr \<times> uv_io" where
  "v_close os u fd =
     (let (p, u) = v_task_new os u VTASK_FS in
      case p of
        None \<Rightarrow> (None, u)
      | Some t \<Rightarrow> let (a, u) = uv os (Uv_fs_close t (c_int fd)) u in v_fs_submitted os u t (a_ret a))"

definition v_read :: "os \<Rightarrow> uv_io \<Rightarrow> int \<Rightarrow> addr \<Rightarrow> nat \<Rightarrow> int \<Rightarrow> ptr \<times> uv_io" where
  "v_read os u fd buf len offset =
     (let (p, u) = v_task_new os u VTASK_FS in
      case p of
        None \<Rightarrow> (None, u)
      | Some t \<Rightarrow>
          let u = upd_vt t (\<lambda>x. x\<lparr>vt_buf := uv_buf_in buf len\<rparr>) u;
              (a, u) = uv os (Uv_fs_read t (c_int fd) buf (buf_len (vt_buf (vt u t))) offset) u
          in v_fs_submitted os u t (a_ret a))"

definition v_write :: "os \<Rightarrow> uv_io \<Rightarrow> int \<Rightarrow> byte list \<Rightarrow> int \<Rightarrow> ptr \<times> uv_io" where
  "v_write os u fd buf offset =
     (let (p, u) = v_task_new os u VTASK_FS in
      case p of
        None \<Rightarrow> (None, u)
      | Some t \<Rightarrow>
          let u = upd_vt t (\<lambda>x. x\<lparr>vt_buf := uv_buf_out buf\<rparr>) u;
              (a, u) = uv os (Uv_fs_write t (c_int fd) (buf_bytes (vt_buf (vt u t))) offset) u
          in v_fs_submitted os u t (a_ret a))"

subsection \<open>Timers\<close>

definition v_timer_close_cb :: "uv_io \<Rightarrow> addr \<Rightarrow> uv_io" where
  "v_timer_close_cb u t =
     (let u = upd_vt t (\<lambda>x. x\<lparr>vt_timer_closed := True\<rparr>) u
      in if vt_free_on_close (vt u t) then free_vt t u else u)"

definition v_timer_cb :: "os \<Rightarrow> uv_io \<Rightarrow> addr \<Rightarrow> uv_io" where
  "v_timer_cb os u t = v_task_complete os (uv_do os (Uv_close (H_timer t)) (chk_vt t u)) t 0"

definition v_sleep :: "os \<Rightarrow> uv_io \<Rightarrow> nat \<Rightarrow> ptr \<times> uv_io" where
  "v_sleep os u ms =
     (let (p, u) = v_task_new os u VTASK_TIMER in
      case p of
        None \<Rightarrow> (None, u)
      | Some t \<Rightarrow>
          let u = uv_do os (Uv_timer_init t) u;
              (a, u) = uv os (Uv_timer_start t ms) u
          in (Some t, if a_ret a < 0
                then uv_do os (Uv_close (H_timer t)) (v_task_complete os u t (a_ret a))
                else u))"

subsection \<open>Spawned functions\<close>

definition v_work_cb :: "os \<Rightarrow> uv_io \<Rightarrow> addr \<Rightarrow> uv_io" where
  "v_work_cb os u t =
     (let u = chk_vt t u;
          (a, u) = sys_call os (C_fn (vt_fn (vt u t)) (vt_arg (vt u t))) u
      in upd_vt t (\<lambda>x. x\<lparr>vt_fn_ret := a_ret a\<rparr>) u)"

definition v_after_work_cb :: "os \<Rightarrow> uv_io \<Rightarrow> addr \<Rightarrow> int \<Rightarrow> uv_io" where
  "v_after_work_cb os u t status =
     (let u = chk_vt t u in
      if status < 0 then v_task_complete os u t status
      else if vt_fn_ret (vt u t) \<ge> 0 then v_task_complete os u t (vt_fn_ret (vt u t))
      else v_task_error os u t (c_int (- vt_fn_ret (vt u t))))"

definition v_spawn :: "os \<Rightarrow> uv_io \<Rightarrow> addr \<Rightarrow> addr \<Rightarrow> ptr \<times> uv_io" where
  "v_spawn os u fn arg =
     (let (p, u) = v_task_new os u VTASK_SPAWN in
      case p of
        None \<Rightarrow> (None, u)
      | Some t \<Rightarrow>
          let u = upd_vt t (\<lambda>x. x\<lparr>vt_fn := fn, vt_arg := arg\<rparr>) u;
              (a, u) = uv os (Uv_queue_work t) u
          in (Some t, if a_ret a < 0 then v_task_complete os u t (a_ret a) else u))"

subsection \<open>TCP: connect\<close>

definition v_connect_cb :: "os \<Rightarrow> uv_io \<Rightarrow> addr \<Rightarrow> int \<Rightarrow> uv_io" where
  "v_connect_cb os u t status =
     (let u = chk_vt t u in
      if status = 0 then
        v_task_complete os (upd_vt t (\<lambda>x. x\<lparr>vt_res := (vt_res x)\<lparr>res_ptr := vt_sock x\<rparr>\<rparr>) u) t 0
      else
        let u = v_sock_destroy_at os u (vt_sock (vt u t));
            u = upd_vt t (\<lambda>x. x\<lparr>vt_sock := None\<rparr>) u
        in v_task_complete os u t status)"

text \<open>The resolver codes of \<^verbatim>\<open><netdb.h>\<close> (glibc).\<close>

definition EAI_BADFLAGS :: int where "EAI_BADFLAGS = - 1"
definition EAI_NONAME :: int where "EAI_NONAME = - 2"
definition EAI_AGAIN :: int where "EAI_AGAIN = - 3"
definition EAI_FAIL :: int where "EAI_FAIL = - 4"
definition EAI_NODATA :: int where "EAI_NODATA = - 5"
definition EAI_FAMILY :: int where "EAI_FAMILY = - 6"
definition EAI_SOCKTYPE :: int where "EAI_SOCKTYPE = - 7"
definition EAI_SERVICE :: int where "EAI_SERVICE = - 8"
definition EAI_MEMORY :: int where "EAI_MEMORY = - 10"
definition EAI_OVERFLOW :: int where "EAI_OVERFLOW = - 12"

lemmas eai_defs = EAI_BADFLAGS_def EAI_NONAME_def EAI_AGAIN_def EAI_FAIL_def EAI_NODATA_def EAI_FAMILY_def
  EAI_SOCKTYPE_def EAI_SERVICE_def EAI_MEMORY_def EAI_OVERFLOW_def

definition uv_eai_to_system :: "int \<Rightarrow> int" where
  "uv_eai_to_system status =
     (if status = UV_EAI_NONAME then EAI_NONAME
      else if status = UV_EAI_AGAIN then EAI_AGAIN
      else if status = UV_EAI_FAIL then EAI_FAIL
      else if status = UV_EAI_FAMILY then EAI_FAMILY
      else if status = UV_EAI_MEMORY then EAI_MEMORY
      else if status = UV_EAI_SERVICE then EAI_SERVICE
      else if status = UV_EAI_SOCKTYPE then EAI_SOCKTYPE
      else if status = UV_EAI_BADFLAGS then EAI_BADFLAGS
      else if status = UV_EAI_NODATA then EAI_NODATA
      else if status = UV_EAI_OVERFLOW then EAI_OVERFLOW
      else EAI_FAIL)"

definition v_task_fail_gai :: "os \<Rightarrow> uv_io \<Rightarrow> addr \<Rightarrow> int \<Rightarrow> uv_io" where
  "v_task_fail_gai os u t status = v_task_error os u t (uv_eai_to_system status)"

definition v_gai_cb :: "os \<Rightarrow> uv_io \<Rightarrow> addr \<Rightarrow> int \<Rightarrow> addrinfo list \<Rightarrow> uv_io" where
  "v_gai_cb os u t status res =
     (let u = chk_vt t u in
      if status < 0 then
        let u = v_sock_destroy_at os u (vt_sock (vt u t));
            u = upd_vt t (\<lambda>x. x\<lparr>vt_sock := None\<rparr>) u;
            u = uv_do os Uv_freeaddrinfo u
        in v_task_fail_gai os u t status
      else
        let u = upd_vt t (\<lambda>x. x\<lparr>vt_connecting := True\<rparr>) u in
        case (vt_sock (vt u t), res) of
          (Some s, ai # _) \<Rightarrow>
            let (a, u) = uv os (Uv_tcp_connect t s (ai_addr ai)) (chk_vs s u);
                u = uv_do os Uv_freeaddrinfo u
            in if a_ret a < 0 then
                 let u = v_sock_destroy_at os u (vt_sock (vt u t));
                     u = upd_vt t (\<lambda>x. x\<lparr>vt_sock := None\<rparr>) u
                 in v_task_complete os u t (a_ret a)
               else u
        | _ \<Rightarrow> m_flag u)"

definition v_tcp_connect :: "os \<Rightarrow> uv_io \<Rightarrow> string \<Rightarrow> int \<Rightarrow> ptr \<times> uv_io" where
  "v_tcp_connect os u host port =
     (let (p, u) = v_task_new os u VTASK_CONNECT in
      case p of
        None \<Rightarrow> (None, u)
      | Some t \<Rightarrow>
          let (sp, u) = v_sock_new os u;
              u = upd_vt t (\<lambda>x. x\<lparr>vt_sock := sp\<rparr>) u
          in case sp of
               None \<Rightarrow> (None, free_vt t u)
             | Some s \<Rightarrow>
                 let (a, u) = uv os (Uv_getaddrinfo t host (snprintf_d 16 port)) u
                 in (Some t,
                     if a_ret a < 0 then
                       let u = v_task_fail_gai os u t (a_ret a);
                           u = v_sock_destroy_at os u (vt_sock (vt u t))
                       in upd_vt t (\<lambda>x. x\<lparr>vt_sock := None\<rparr>) u
                     else u))"

subsection \<open>TCP: listen and accept\<close>

definition v_pending_push :: "uv_io \<Rightarrow> addr \<Rightarrow> addr \<Rightarrow> uv_io" where
  "v_pending_push u ls c =
     (let (_, nx, q) = myio_wq_push (v_pnode u) (vs_pending (vs u ls)) c
      in upd_vs ls (\<lambda>y. y\<lparr>vs_pending := q\<rparr>) (u\<lparr>v_pnode := nx\<rparr>))"

definition v_pending_pop :: "uv_io \<Rightarrow> addr \<Rightarrow> uv_io" where
  "v_pending_pop u ls =
     (case myio_wq_pop (v_pnode u) (vs_pending (vs u ls)) of
        None \<Rightarrow> m_flag u
      | Some (_, nx, q) \<Rightarrow> upd_vs ls (\<lambda>y. y\<lparr>vs_pending := q\<rparr>) (u\<lparr>v_pnode := nx\<rparr>))"

definition v_connection_cb :: "os \<Rightarrow> uv_io \<Rightarrow> addr \<Rightarrow> int \<Rightarrow> uv_io" where
  "v_connection_cb os u ls status =
     (let u = chk_vs ls u in
      if status < 0 then
        case vs_accept_task (vs u ls) of
          None \<Rightarrow> u
        | Some t \<Rightarrow> v_task_complete os (upd_vs ls (\<lambda>y. y\<lparr>vs_accept_task := None\<rparr>) u) t status
      else
        let (cp, u) = v_sock_new os u in
        case cp of
          None \<Rightarrow> u
        | Some c \<Rightarrow>
            let (a, u) = uv os (Uv_accept ls c) u in
            if a_ret a \<noteq> 0 then v_sock_destroy os u c
            else case vs_accept_task (vs u ls) of
                None \<Rightarrow> v_pending_push u ls c
              | Some t \<Rightarrow>
                  let u = upd_vs ls (\<lambda>y. y\<lparr>vs_accept_task := None\<rparr>) u;
                      u = upd_vt t (\<lambda>x. x\<lparr>vt_res := (vt_res x)\<lparr>res_ptr := Some c\<rparr>\<rparr>) u
                  in v_task_complete os u t 0)"

text \<open>The chain of synchronous calls of \<^verbatim>\<open>impl_tcp_listen\<close>, each made only when the previous succeeded.\<close>

definition v_listen_calls :: "os \<Rightarrow> uv_io \<Rightarrow> addr \<Rightarrow> string \<Rightarrow> int \<Rightarrow> int \<Rightarrow> int \<times> uv_io" where
  "v_listen_calls os u s host port backlog =
     (let (a, u) = uv os (Uv_ip4_addr host port) u;
          (a, u) = (if a_ret a \<noteq> 0 then uv os (Uv_ip6_addr host port) u else (a, u))
      in if a_ret a \<noteq> 0 then (a_ret a, u)
         else
           let (b, u) = uv os (Uv_tcp_bind s (a_addr a)) u in
           if a_ret b \<noteq> 0 then (a_ret b, u)
           else let (l, u) = uv os (Uv_listen s backlog) u in (a_ret l, u))"

definition v_tcp_listen :: "os \<Rightarrow> uv_io \<Rightarrow> string \<Rightarrow> int \<Rightarrow> int \<Rightarrow> ptr \<times> int option \<times> uv_io" where
  "v_tcp_listen os u host port backlog =
     (let (p, u) = v_sock_new os u in
      case p of
        None \<Rightarrow> (None, Some ENOMEM, u)
      | Some s \<Rightarrow>
          let (rc, u) = v_listen_calls os u s host port backlog in
          if rc \<noteq> 0 then (None, Some (- rc), v_sock_destroy os u s)
          else (Some s, None, u))"

definition v_tcp_accept :: "os \<Rightarrow> uv_io \<Rightarrow> addr \<Rightarrow> ptr \<times> uv_io" where
  "v_tcp_accept os u ls =
     (let u = chk_vs ls u in
      if vs_accept_task (vs u ls) \<noteq> None then v_task_new_failed os u VTASK_ACCEPT EBUSY
      else
        let (p, u) = v_task_new os u VTASK_ACCEPT in
        case p of
          None \<Rightarrow> (None, u)
        | Some t \<Rightarrow>
            let u = upd_vt t (\<lambda>x. x\<lparr>vt_sock := Some ls\<rparr>) u in
            case wq_head (vs_pending (vs u ls)) of
              Some c \<Rightarrow>
                let u = v_pending_pop u ls;
                    u = upd_vt t (\<lambda>x. x\<lparr>vt_res := (vt_res x)\<lparr>res_ptr := Some c\<rparr>\<rparr>) u
                in (Some t, v_task_complete os u t 0)
            | None \<Rightarrow> (Some t, upd_vs ls (\<lambda>y. y\<lparr>vs_accept_task := Some t\<rparr>) u))"

subsection \<open>TCP: read, write, close\<close>

definition v_read_alloc_cb :: "os \<Rightarrow> uv_io \<Rightarrow> addr \<Rightarrow> uv_io" where
  "v_read_alloc_cb os u s =
     (let u = chk_vs s u in
      case vs_read_task (vs u s) of
        None \<Rightarrow> uv_do os (Uv_read_buf s None) u
      | Some t \<Rightarrow>
          let u = chk_vt t u in
          uv_do os (Uv_read_buf s (case vt_buf (vt u t) of Buf_in b n \<Rightarrow> Some (b, n) | Buf_out b \<Rightarrow> None)) u)"

definition v_read_cb :: "os \<Rightarrow> uv_io \<Rightarrow> addr \<Rightarrow> int \<Rightarrow> uv_io" where
  "v_read_cb os u s nread =
     (let u = chk_vs s u in
      if nread = 0 then u
      else
        let u = uv_do os (Uv_read_stop s) u in
        case vs_read_task (vs u s) of
          None \<Rightarrow> u
        | Some t \<Rightarrow>
            v_task_complete os (upd_vs s (\<lambda>y. y\<lparr>vs_read_task := None\<rparr>) u) t (if nread = UV_EOF then 0 else nread))"

definition v_sock_read :: "os \<Rightarrow> uv_io \<Rightarrow> addr \<Rightarrow> addr \<Rightarrow> nat \<Rightarrow> ptr \<times> uv_io" where
  "v_sock_read os u s buf len =
     (let u = chk_vs s u in
      if vs_read_task (vs u s) \<noteq> None then v_task_new_failed os u VTASK_SOCK_READ EBUSY
      else
        let (p, u) = v_task_new os u VTASK_SOCK_READ in
        case p of
          None \<Rightarrow> (None, u)
        | Some t \<Rightarrow>
            let u = upd_vt t (\<lambda>x. x\<lparr>vt_sock := Some s, vt_buf := uv_buf_in buf len\<rparr>) u;
                u = upd_vs s (\<lambda>y. y\<lparr>vs_read_task := Some t\<rparr>) u;
                (a, u) = uv os (Uv_read_start s) u
            in (Some t,
                if a_ret a < 0
                then v_task_complete os (upd_vs s (\<lambda>y. y\<lparr>vs_read_task := None\<rparr>) u) t (a_ret a)
                else u))"

definition v_write_cb :: "os \<Rightarrow> uv_io \<Rightarrow> addr \<Rightarrow> int \<Rightarrow> uv_io" where
  "v_write_cb os u t status =
     (let u = chk_vt t u
      in v_task_complete os u t (if status < 0 then status else int (buf_len (vt_buf (vt u t)))))"

definition v_sock_write :: "os \<Rightarrow> uv_io \<Rightarrow> addr \<Rightarrow> byte list \<Rightarrow> ptr \<times> uv_io" where
  "v_sock_write os u s buf =
     (let (p, u) = v_task_new os u VTASK_SOCK_WRITE in
      case p of
        None \<Rightarrow> (None, u)
      | Some t \<Rightarrow>
          let u = upd_vt t (\<lambda>x. x\<lparr>vt_sock := Some s, vt_buf := uv_buf_out buf\<rparr>) u;
              (a, u) = uv os (Uv_write t s (buf_bytes (vt_buf (vt u t)))) (chk_vs s u)
          in (Some t, if a_ret a < 0 then v_task_complete os u t (a_ret a) else u))"

text \<open>The loop that drops the parked connections.\<close>

fun v_drop_pending :: "os \<Rightarrow> nat \<Rightarrow> uv_io \<Rightarrow> addr \<Rightarrow> uv_io" where
  "v_drop_pending os 0 u s = (if wq_head (vs_pending (vs u s)) = None then u else m_flag u)"
| "v_drop_pending os (Suc fuel) u s =
     (case wq_head (vs_pending (vs u s)) of
        None \<Rightarrow> u
      | Some c \<Rightarrow> v_drop_pending os fuel (v_sock_destroy os (v_pending_pop u s) c) s)"

definition v_sock_close :: "os \<Rightarrow> uv_io \<Rightarrow> addr \<Rightarrow> ptr \<times> uv_io" where
  "v_sock_close os u s =
     (let (p, u) = v_task_new os u VTASK_SOCK_CLOSE in
      case p of
        None \<Rightarrow> (None, u)
      | Some t \<Rightarrow>
          let u = chk_vs s u;
              u = (if vs_read_task (vs u s) \<noteq> None
                   then v_close_slot_read os (uv_do os (Uv_read_stop s) u) s else u);
              u = v_close_slot_accept os u s;
              u = v_drop_pending os (m_brk u) u s;
              u = upd_vs s (\<lambda>y. y\<lparr>vs_close_task := Some t\<rparr>) u
          in (Some t, v_sock_destroy os u s))"

definition v_sock_port :: "os \<Rightarrow> uv_io \<Rightarrow> addr \<Rightarrow> int \<times> uv_io" where
  "v_sock_port os u s =
     (let (a, u) = uv os (Uv_tcp_getsockname s) (chk_vs s u)
      in (if a_ret a \<noteq> 0 then - 1 else myio_sockaddr_port (a_addr a), u))"

subsection \<open>Running the loop\<close>

text \<open>libuv's jump to the callback a request or handle was registered with.\<close>

fun v_callback :: "os \<Rightarrow> uv_io \<Rightarrow> uv_cb \<Rightarrow> addrinfo list \<Rightarrow> uv_io" where
  "v_callback os u (Cb_fs t r) res = v_fs_cb os u t r"
| "v_callback os u (Cb_timer t) res = v_timer_cb os u t"
| "v_callback os u (Cb_work t) res = v_work_cb os u t"
| "v_callback os u (Cb_after_work t st) res = v_after_work_cb os u t st"
| "v_callback os u (Cb_getaddrinfo t st) res = v_gai_cb os u t st res"
| "v_callback os u (Cb_connect t st) res = v_connect_cb os u t st"
| "v_callback os u (Cb_connection s st) res = v_connection_cb os u s st"
| "v_callback os u (Cb_alloc s) res = v_read_alloc_cb os u s"
| "v_callback os u (Cb_read s n) res = v_read_cb os u s n"
| "v_callback os u (Cb_write t st) res = v_write_cb os u t st"
| "v_callback os u (Cb_close (H_timer t)) res = v_timer_close_cb u t"
| "v_callback os u (Cb_close (H_tcp s)) res = v_sock_close_cb os u s"

text \<open>
  \<^verbatim>\<open>uv_run\<close>: callbacks until the run is over, then its return value; \<open>None\<close> when it never
  is. The thread pool's call of \<^verbatim>\<open>work_cb\<close> writes one field of a task that nothing else
  touches before \<^verbatim>\<open>after_work_cb\<close>, so it takes its place in this sequence like the others.
\<close>

partial_function (option) v_run :: "os \<Rightarrow> uv_run_mode \<Rightarrow> uv_io \<Rightarrow> (int \<times> uv_io) option" where
  "v_run os m u =
     (let (a, u) = uv os (Uv_run m) u in
      case a_cb a of
        None \<Rightarrow> Some (a_ret a, u)
      | Some cb \<Rightarrow> v_run os m (v_callback os u cb (a_addrs a)))"

definition v_step :: "os \<Rightarrow> uv_io \<Rightarrow> (bool \<times> uv_io) option" where
  "v_step os u =
     map_option (\<lambda>(rc, u'). (rc \<noteq> 0 \<or> v_ncompleted u' \<noteq> v_ncompleted u, u')) (v_run os UV_RUN_ONCE u)"

subsection \<open>Synchronisation\<close>

definition v_cancel_request :: "os \<Rightarrow> uv_io \<Rightarrow> addr \<Rightarrow> int \<times> uv_io" where
  "v_cancel_request os u t = (let (a, u) = uv os (Uv_cancel t) u in (if a_ret a = 0 then 0 else - 1, u))"

definition v_cancel :: "os \<Rightarrow> uv_io \<Rightarrow> addr \<Rightarrow> int \<times> uv_io" where
  "v_cancel os u t =
     (let u = chk_vt t u; x = vt u t in
      if vt_done x then (- 1, u)
      else case vt_kind x of
        VTASK_TIMER \<Rightarrow>
          let u = uv_do os (Uv_timer_stop t) u;
              u = uv_do os (Uv_close (H_timer t)) u
          in (0, v_task_complete os u t UV_ECANCELED)
      | VTASK_FS \<Rightarrow> v_cancel_request os u t
      | VTASK_SPAWN \<Rightarrow> v_cancel_request os u t
      | VTASK_CONNECT \<Rightarrow>
          if \<not> vt_connecting x then v_cancel_request os u t
          else (0, v_sock_destroy_at os u (vt_sock x))
      | VTASK_SOCK_READ \<Rightarrow>
          (case vt_sock x of
             None \<Rightarrow> (0, m_flag u)
           | Some s \<Rightarrow>
               let u = uv_do os (Uv_read_stop s) (chk_vs s u);
                   u = upd_vs s (\<lambda>y. y\<lparr>vs_read_task := None\<rparr>) u
               in (0, v_task_complete os u t UV_ECANCELED))
      | VTASK_ACCEPT \<Rightarrow>
          (case vt_sock x of
             None \<Rightarrow> (0, m_flag u)
           | Some s \<Rightarrow>
               let u = upd_vs s (\<lambda>y. y\<lparr>vs_accept_task := None\<rparr>) u
               in (0, v_task_complete os u t UV_ECANCELED))
      | _ \<Rightarrow> (- 1, u))"

definition v_task_result :: "uv_io \<Rightarrow> addr \<Rightarrow> myio_result" where
  "v_task_result u t = vt_res (vt u t)"

definition v_error_str :: "os \<Rightarrow> uv_io \<Rightarrow> int \<Rightarrow> string \<times> uv_io" where
  "v_error_str os u err =
     (let (a, u) = sys_call os (if err < 0 then C_gai_strerror err else C_uv (Uv_strerror (- err))) u;
          b = take 127 (a_str a)
      in (b, u\<lparr>v_errbuf := b\<rparr>))"

definition v_caps :: "uv_io \<Rightarrow> 32 word" where
  "v_caps u = or (or MYIO_CAP_CONCURRENT_WAIT MYIO_CAP_NONBLOCKING_SUBMIT) MYIO_CAP_ASYNC_SPAWN"

subsection \<open>Lifetime\<close>

definition v_task_done :: "uv_io \<Rightarrow> addr \<Rightarrow> bool" where
  "v_task_done u t = vt_done (vt u t)"

partial_function (option) v_free_wait :: "os \<Rightarrow> uv_io \<Rightarrow> addr \<Rightarrow> uv_io option" where
  "v_free_wait os u t =
     (if vt_done (vt u t) then Some u
      else Option.bind (v_step os u) (\<lambda>(b, u). if b then v_free_wait os u t else Some u))"

definition v_task_free :: "os \<Rightarrow> uv_io \<Rightarrow> addr \<Rightarrow> uv_io option" where
  "v_task_free os u t =
     (let u = chk_vt t u in
      map_option (\<lambda>u. v_release os u t)
        (if vt_done (vt u t) then Some u
         else let (_, u) = v_cancel os u t in v_free_wait os u t))"

definition v_task_detach :: "os \<Rightarrow> uv_io \<Rightarrow> addr \<Rightarrow> uv_io" where
  "v_task_detach os u t =
     (let u = chk_vt t u in
      if vt_done (vt u t) then v_task_reap os u t
      else upd_vt t (\<lambda>x. x\<lparr>vt_detached := True\<rparr>) u)"

definition v_close_walk_cb :: "os \<Rightarrow> uv_io \<Rightarrow> uv_handle \<Rightarrow> uv_io" where
  "v_close_walk_cb os u h =
     (let (a, u) = uv os (Uv_is_closing h) u in
      if a_ret a \<noteq> 0 then u
      else case h of
        H_timer t \<Rightarrow>
          let u = chk_vt t u;
              u = (if vt_detached (vt u t) then upd_vt t (\<lambda>x. x\<lparr>vt_free_on_close := True\<rparr>) u else u)
          in uv_do os (Uv_close (H_timer t)) u
      | H_tcp s \<Rightarrow> uv_do os (Uv_close (H_tcp s)) u)"

fun v_walk :: "os \<Rightarrow> uv_io \<Rightarrow> uv_handle list \<Rightarrow> uv_io" where
  "v_walk os u [] = u"
| "v_walk os u (h # hs) = v_walk os (v_close_walk_cb os u h) hs"

definition v_destroy :: "os \<Rightarrow> uv_io \<Rightarrow> uv_io option" where
  "v_destroy os u =
     (let (a, u) = uv os Uv_walk u;
          u = v_walk os u (a_handles a)
      in map_option (\<lambda>(_, u). uv_do os Uv_loop_close u) (v_run os UV_RUN_DEFAULT u))"

definition myio_uv_new :: "os \<Rightarrow> mach \<Rightarrow> uv_io option \<times> mach" where
  "myio_uv_new os m =
     (let (p, m) = sys_alloc os m in
      case p of
        None \<Rightarrow> (None, m)
      | Some _ \<Rightarrow>
          let (a, m) = sys_call os (C_uv Uv_loop_init) m in
          if a_ret a \<noteq> 0 then (None, m)
          else (Some (mach.extend m \<lparr>v_ncompleted = 0, v_errbuf = [], v_th = Map.empty, v_sh = Map.empty,
                  v_pnode = (\<lambda>_. None)\<rparr>), m))"

definition uv_ops :: "os \<Rightarrow> uv_io myio_ops" where
  "uv_ops os = \<lparr>
     ops_open = \<lambda>u p f m. Some (v_open os u p f m),
     ops_close = \<lambda>u fd. Some (v_close os u fd),
     ops_read = \<lambda>u fd b n off. Some (v_read os u fd b n off),
     ops_write = \<lambda>u fd b off. Some (v_write os u fd b off),
     ops_sleep = \<lambda>u ms. Some (v_sleep os u ms),
     ops_spawn = \<lambda>u fn arg. Some (v_spawn os u fn arg),
     ops_tcp_connect = \<lambda>u h p. Some (v_tcp_connect os u h p),
     ops_tcp_listen = \<lambda>u h p b. Some (v_tcp_listen os u h p b),
     ops_tcp_accept = \<lambda>u l. Some (v_tcp_accept os u l),
     ops_sock_read = \<lambda>u k b n. Some (v_sock_read os u k b n),
     ops_sock_write = \<lambda>u k b. Some (v_sock_write os u k b),
     ops_sock_close = \<lambda>u k. Some (v_sock_close os u k),
     ops_sock_port = \<lambda>u k. v_sock_port os u k,
     ops_step = \<lambda>u. v_step os u,
     ops_cancel = \<lambda>u t. Some (v_cancel os u t),
     ops_task_result = v_task_result,
     ops_error_str = v_error_str os,
     ops_caps = v_caps,
     ops_task_done = v_task_done,
     ops_task_free = \<lambda>u t. v_task_free os u t,
     ops_task_detach = v_task_detach os,
     ops_destroy = \<lambda>u. v_destroy os u\<rparr>"

end
