(* ===== verification/Myio_Uv_Core.thy ===== *)
theory Myio_Uv_Core
  imports Myio_Uv
begin

text \<open>
  What the libuv backend maintains, as a predicate on the plain data: the task heap, the
  socket heap, the parked connections and the state of the loop. The operations of the
  backend are built from a few actions on these data; this theory shows what each does
  to the predicate.
\<close>

type_synonym vtheap = "addr \<rightharpoonup> uv_task"
type_synonym vsheap = "addr \<rightharpoonup> uv_sock"
type_synonym vqueues = "addr \<Rightarrow> addr list"

subsection \<open>The invariant on the data\<close>

text \<open>The request, and the timer state, a settled task has with libuv.\<close>

definition v_want_req :: "uv_task \<Rightarrow> uv_req option" where
  "v_want_req x =
     (if vt_done x then None
      else case vt_kind x of
        VTASK_FS \<Rightarrow> Some Rq_fs
      | VTASK_SPAWN \<Rightarrow> Some Rq_work
      | VTASK_SOCK_WRITE \<Rightarrow> map_option Rq_write (vt_sock x)
      | VTASK_CONNECT \<Rightarrow> if vt_connecting x then map_option Rq_connect (vt_sock x) else Some Rq_gai
      | _ \<Rightarrow> None)"

definition v_want_timer :: "uv_task \<Rightarrow> timer_state option" where
  "v_want_timer x =
     (if vt_kind x \<noteq> VTASK_TIMER \<or> vt_timer_closed x then None
      else if vt_done x \<or> vt_free_on_close x then Some Timer_closing else Some Timer_armed)"

text \<open>The socket a task has won or is about to win.\<close>

definition v_own :: "uv_task \<Rightarrow> ptr" where
  "v_own x = (if res_ptr (vt_res x) \<noteq> None then res_ptr (vt_res x)
     else if vt_kind x = VTASK_CONNECT \<and> \<not> vt_done x then vt_sock x else None)"

text \<open>The field of a socket that points to its outstanding task of a kind.\<close>

fun v_slot :: "v_kind \<Rightarrow> uv_sock \<Rightarrow> ptr" where
  "v_slot VTASK_SOCK_READ y = vs_read_task y"
| "v_slot VTASK_ACCEPT y = vs_accept_task y"
| "v_slot VTASK_SOCK_CLOSE y = vs_close_task y"
| "v_slot _ y = None"

definition v_pull :: "v_kind \<Rightarrow> bool" where
  "v_pull k \<longleftrightarrow> k \<in> {VTASK_SOCK_READ, VTASK_ACCEPT, VTASK_SOCK_CLOSE}"

definition v_idle :: "uv_sock \<Rightarrow> bool" where
  "v_idle y \<longleftrightarrow> vs_read_task y = None \<and> vs_accept_task y = None \<and> vs_close_task y = None"

text \<open>
  The tasks in \<open>T\<close> are in transit, just allocated or just reported by libuv and not yet
  settled; the sockets in \<open>D\<close> have seen their last callback and are about to be freed.
\<close>

definition vtask :: "addr set \<Rightarrow> addr \<Rightarrow> uv_loop \<Rightarrow> addr \<Rightarrow> uv_task \<Rightarrow> bool" where
  "vtask T b l t x \<longleftrightarrow> t < b \<and> (\<forall>s. v_own x = Some s \<longrightarrow> s < b) \<and>
     (vt_done x \<longleftrightarrow> res_status (vt_res x) \<noteq> MYIO_PENDING) \<and>
     (res_ptr (vt_res x) \<noteq> None \<longrightarrow> vt_kind x = VTASK_CONNECT \<or> vt_kind x = VTASK_ACCEPT) \<and>
     (\<not> vt_done x \<longrightarrow> res_ptr (vt_res x) = None \<and>
        (vt_kind x = VTASK_SOCK_WRITE \<and> t \<notin> T \<longrightarrow> vt_sock x \<noteq> None)) \<and>
     (vt_done x \<longrightarrow> t \<notin> T \<and> (vt_detached x \<longrightarrow> vt_free_on_close x)) \<and>
     (vt_free_on_close x \<longrightarrow> vt_kind x = VTASK_TIMER \<and> \<not> vt_timer_closed x \<and>
        (vt_done x \<or> vt_detached x) \<and> t \<notin> T) \<and>
     (vt_timer_closed x \<longrightarrow> vt_kind x = VTASK_TIMER \<and> vt_done x) \<and>
     ul_req l t = (if t \<in> T then None else v_want_req x) \<and>
     (vt_kind x = VTASK_TIMER \<and> t \<in> T \<or> ul_timer l t = v_want_timer x)"

definition vtasks :: "addr set \<Rightarrow> addr \<Rightarrow> uv_loop \<Rightarrow> vtheap \<Rightarrow> bool" where
  "vtasks T b l th \<longleftrightarrow>
     (\<forall>t x. th t = Some x \<longrightarrow> vtask T b l t x) \<and>
     (\<forall>t. th t = None \<longrightarrow> ul_req l t = None \<and> ul_timer l t = None \<and> t \<notin> T)"

definition vsock :: "addr set \<Rightarrow> addr \<Rightarrow> uv_loop \<Rightarrow> addr \<Rightarrow> uv_sock \<Rightarrow> bool" where
  "vsock D b l s y \<longleftrightarrow> s < b \<and> (ul_tcp l s = None \<longleftrightarrow> s \<in> D) \<and>
     (\<forall>r k. ul_tcp l s = Some (Tcp_open r k) \<longrightarrow> (r \<longleftrightarrow> vs_read_task y \<noteq> None) \<and> vs_close_task y = None)"

definition vsocks :: "addr set \<Rightarrow> addr \<Rightarrow> uv_loop \<Rightarrow> vsheap \<Rightarrow> bool" where
  "vsocks D b l sh \<longleftrightarrow>
     (\<forall>s y. sh s = Some y \<longrightarrow> vsock D b l s y) \<and>
     (\<forall>s. sh s = None \<longrightarrow> ul_tcp l s = None \<and> s \<notin> D)"

text \<open>Sockets and their outstanding reads, accepts and closes point to each other.\<close>

definition vlinks :: "addr set \<Rightarrow> vtheap \<Rightarrow> vsheap \<Rightarrow> bool" where
  "vlinks T th sh \<longleftrightarrow>
     (\<forall>t x. th t = Some x \<longrightarrow> v_pull (vt_kind x) \<longrightarrow> \<not> vt_done x \<longrightarrow> t \<notin> T \<longrightarrow>
        (\<exists>s y. sh s = Some y \<and> v_slot (vt_kind x) y = Some t \<and> (vt_kind x \<noteq> VTASK_SOCK_CLOSE \<longrightarrow> vt_sock x = Some s))) \<and>
     (\<forall>s y k t. sh s = Some y \<longrightarrow> v_slot k y = Some t \<longrightarrow>
        (\<exists>x. th t = Some x \<and> vt_kind x = k \<and> \<not> vt_done x \<and> t \<notin> T \<and> (k \<noteq> VTASK_SOCK_CLOSE \<longrightarrow> vt_sock x = Some s))) \<and>
     (\<forall>s s' y y' t. sh s = Some y \<longrightarrow> sh s' = Some y' \<longrightarrow> vs_close_task y = Some t \<longrightarrow> vs_close_task y' = Some t \<longrightarrow> s = s')"

text \<open>A pending connect has a socket of its own that nobody else uses.\<close>

definition vconn_ok :: "vsheap \<Rightarrow> uv_loop \<Rightarrow> uv_task \<Rightarrow> bool" where
  "vconn_ok sh l x \<longleftrightarrow> (\<exists>s y. vt_sock x = Some s \<and> sh s = Some y \<and> v_idle y \<and>
     ul_tcp l s \<in> {Some (Tcp_open False False)} \<union> (if vt_connecting x then {Some Tcp_closing} else {}))"

definition vconns :: "addr set \<Rightarrow> vtheap \<Rightarrow> vsheap \<Rightarrow> uv_loop \<Rightarrow> bool" where
  "vconns T th sh l \<longleftrightarrow> (\<forall>t x. th t = Some x \<longrightarrow> vt_kind x = VTASK_CONNECT \<longrightarrow> \<not> vt_done x \<longrightarrow> t \<notin> T \<longrightarrow> vconn_ok sh l x)"

definition vowns :: "vtheap \<Rightarrow> bool" where
  "vowns th \<longleftrightarrow> (\<forall>t t' x x' s. th t = Some x \<longrightarrow> th t' = Some x' \<longrightarrow> v_own x = Some s \<longrightarrow> v_own x' = Some s \<longrightarrow> t = t')"

text \<open>The connections \<open>Q s\<close> parked at a listener \<open>s\<close> belong to nobody else.\<close>

definition vpark :: "vtheap \<Rightarrow> vsheap \<Rightarrow> vqueues \<Rightarrow> uv_loop \<Rightarrow> bool" where
  "vpark th sh Q l \<longleftrightarrow>
     (\<forall>s c. c \<in> set (Q s) \<longrightarrow> tcp_is_open l s \<and> ul_tcp l c = Some (Tcp_open False False) \<and>
        (\<exists>y. sh c = Some y \<and> v_idle y) \<and> (\<forall>t x. th t = Some x \<longrightarrow> v_own x \<noteq> Some c)) \<and>
     (\<forall>s s' c. c \<in> set (Q s) \<longrightarrow> c \<in> set (Q s') \<longrightarrow> s = s')"

definition vcore :: "addr set \<Rightarrow> addr set \<Rightarrow> addr \<Rightarrow> vtheap \<Rightarrow> vsheap \<Rightarrow> vqueues \<Rightarrow> uv_loop \<Rightarrow> bool" where
  "vcore T D b th sh Q l \<longleftrightarrow> vtasks T b l th \<and> vsocks D b l sh \<and> vlinks T th sh \<and> vconns T th sh l \<and>
     vowns th \<and> vpark th sh Q l"

subsection \<open>What no action may take away\<close>

text \<open>A socket the caller may use; a task the caller may detach; the tasks the caller holds.\<close>

definition vusable :: "vtheap \<Rightarrow> vsheap \<Rightarrow> vqueues \<Rightarrow> uv_loop \<Rightarrow> addr \<Rightarrow> bool" where
  "vusable th sh Q l s \<longleftrightarrow> sh s \<noteq> None \<and> tcp_is_open l s \<and> (\<forall>s'. s \<notin> set (Q s')) \<and>
     (\<forall>t x. th t = Some x \<longrightarrow> vt_kind x = VTASK_CONNECT \<longrightarrow> \<not> vt_done x \<longrightarrow> vt_sock x \<noteq> Some s)"

definition vdropok :: "vtheap \<Rightarrow> vsheap \<Rightarrow> vqueues \<Rightarrow> uv_loop \<Rightarrow> addr \<Rightarrow> bool" where
  "vdropok th sh Q l t \<longleftrightarrow> (\<exists>x. th t = Some x \<and> (\<forall>s. res_ptr (vt_res x) = Some s \<longrightarrow> vusable th sh Q l s))"

definition v_held :: "uv_task \<Rightarrow> bool" where
  "v_held x \<longleftrightarrow> \<not> vt_detached x \<and> \<not> vt_free_on_close x"

definition vkeep ::
  "addr set \<Rightarrow> vtheap \<Rightarrow> vsheap \<Rightarrow> vqueues \<Rightarrow> uv_loop \<Rightarrow> vtheap \<Rightarrow> vsheap \<Rightarrow> vqueues \<Rightarrow> uv_loop \<Rightarrow> bool" where
  "vkeep S th sh Q l th' sh' Q' l' \<longleftrightarrow> (\<forall>t x. th t = Some x \<longrightarrow> v_held x \<longrightarrow> t \<notin> S \<longrightarrow>
     (\<exists>x'. th' t = Some x' \<and> v_held x' \<and> vt_kind x' = vt_kind x \<and> (vt_done x \<longrightarrow> vt_done x' \<and> vt_res x' = vt_res x)) \<and>
     (vdropok th sh Q l t \<longrightarrow> vdropok th' sh' Q' l' t))"

lemma vkeep_refl: "vkeep S th sh Q l th sh Q l"
  by (auto simp: vkeep_def)

lemma vkeep_trans:
  "vkeep S th sh Q l th1 sh1 Q1 l1 \<Longrightarrow> vkeep S th1 sh1 Q1 l1 th2 sh2 Q2 l2 \<Longrightarrow> vkeep S th sh Q l th2 sh2 Q2 l2"
  unfolding vkeep_def by (metis (no_types, lifting))

lemma vkeep_mono: "vkeep S th sh Q l th' sh' Q' l' \<Longrightarrow> S \<subseteq> S' \<Longrightarrow> vkeep S' th sh Q l th' sh' Q' l'"
  by (auto simp: vkeep_def)

text \<open>It is enough that tasks stay and that the usable sockets in results stay usable.\<close>

lemma vkeepI:
  assumes "\<And>t x. th t = Some x \<Longrightarrow> v_held x \<Longrightarrow> t \<notin> S \<Longrightarrow>
      \<exists>x'. th' t = Some x' \<and> v_held x' \<and> vt_kind x' = vt_kind x \<and> (vt_done x \<longrightarrow> vt_done x' \<and> vt_res x' = vt_res x) \<and>
        (\<forall>s. res_ptr (vt_res x') = Some s \<longrightarrow> res_ptr (vt_res x) = Some s \<or> vusable th' sh' Q' l' s)"
    and "\<And>t x s. th t = Some x \<Longrightarrow> v_held x \<Longrightarrow> t \<notin> S \<Longrightarrow> res_ptr (vt_res x) = Some s \<Longrightarrow> vusable th sh Q l s \<Longrightarrow> vusable th' sh' Q' l' s"
  shows "vkeep S th sh Q l th' sh' Q' l'"
  unfolding vkeep_def
proof (intro allI impI conjI)
  fix t x
  assume t: "th t = Some x" "v_held x" "t \<notin> S"
  from assms(1) [OF t] show "\<exists>x'. th' t = Some x' \<and> v_held x' \<and> vt_kind x' = vt_kind x \<and> (vt_done x \<longrightarrow> vt_done x' \<and> vt_res x' = vt_res x)"
    by blast
  assume "vdropok th sh Q l t"
  with assms(1) [OF t] assms(2) [OF t] t(1) show "vdropok th' sh' Q' l' t"
    by (fastforce simp: vdropok_def)
qed

subsection \<open>Taking the invariant apart\<close>

lemma vcore_parts:
  assumes "vcore T D b th sh Q l"
  shows "vtasks T b l th" "vsocks D b l sh" "vlinks T th sh" "vconns T th sh l" "vowns th" "vpark th sh Q l"
  using assms by (auto simp: vcore_def)

lemma vcoreI:
  assumes "vtasks T b l th" "vsocks D b l sh" "vlinks T th sh" "vconns T th sh l" "vowns th" "vpark th sh Q l"
  shows "vcore T D b th sh Q l"
  using assms by (auto simp: vcore_def)

lemma vcore_task: "vcore T D b th sh Q l \<Longrightarrow> th t = Some x \<Longrightarrow> vtask T b l t x"
  by (simp add: vcore_def vtasks_def)

lemma vcore_sock: "vcore T D b th sh Q l \<Longrightarrow> sh s = Some y \<Longrightarrow> vsock D b l s y"
  by (simp add: vcore_def vsocks_def)

lemma vcore_no_task:
  "vcore T D b th sh Q l \<Longrightarrow> th t = None \<Longrightarrow> ul_req l t = None \<and> ul_timer l t = None \<and> t \<notin> T"
  by (simp add: vcore_def vtasks_def)

lemma vcore_no_sock: "vcore T D b th sh Q l \<Longrightarrow> sh s = None \<Longrightarrow> ul_tcp l s = None \<and> s \<notin> D"
  by (simp add: vcore_def vsocks_def)

lemma vcore_conn:
  "vcore T D b th sh Q l \<Longrightarrow> th t = Some x \<Longrightarrow> vt_kind x = VTASK_CONNECT \<Longrightarrow> \<not> vt_done x \<Longrightarrow> t \<notin> T \<Longrightarrow> vconn_ok sh l x"
  by (simp add: vcore_def vconns_def)

lemma vcore_slot:
  "vcore T D b th sh Q l \<Longrightarrow> sh s = Some y \<Longrightarrow> v_slot k y = Some t \<Longrightarrow>
    \<exists>x. th t = Some x \<and> vt_kind x = k \<and> \<not> vt_done x \<and> t \<notin> T \<and> (k \<noteq> VTASK_SOCK_CLOSE \<longrightarrow> vt_sock x = Some s)"
  unfolding vcore_def vlinks_def by blast

lemma vcore_pull:
  "vcore T D b th sh Q l \<Longrightarrow> th t = Some x \<Longrightarrow> v_pull (vt_kind x) \<Longrightarrow> \<not> vt_done x \<Longrightarrow> t \<notin> T \<Longrightarrow>
    \<exists>s y. sh s = Some y \<and> v_slot (vt_kind x) y = Some t \<and> (vt_kind x \<noteq> VTASK_SOCK_CLOSE \<longrightarrow> vt_sock x = Some s)"
  unfolding vcore_def vlinks_def by blast

lemma vcore_own:
  "vcore T D b th sh Q l \<Longrightarrow> th t = Some x \<Longrightarrow> v_own x = Some s \<Longrightarrow> th t' = Some x' \<Longrightarrow> v_own x' = Some s \<Longrightarrow> t' = t"
  unfolding vcore_def vowns_def by blast

lemma vcore_park:
  "vcore T D b th sh Q l \<Longrightarrow> c \<in> set (Q s) \<Longrightarrow> tcp_is_open l s \<and> ul_tcp l c = Some (Tcp_open False False) \<and>
    (\<exists>y. sh c = Some y \<and> v_idle y) \<and> (\<forall>t x. th t = Some x \<longrightarrow> v_own x \<noteq> Some c)"
  unfolding vcore_def vpark_def by blast

lemma vcore_closed_queue: "vcore T D b th sh Q l \<Longrightarrow> \<not> tcp_is_open l s \<Longrightarrow> Q s = []"
  using vcore_park [of T D b th sh Q l "hd (Q s)" s] by (cases "Q s") auto

lemma vcore_park_inj: "vcore T D b th sh Q l \<Longrightarrow> c \<in> set (Q s) \<Longrightarrow> c \<in> set (Q s') \<Longrightarrow> s = s'"
  unfolding vcore_def vpark_def by blast

lemma v_slot_pull: "v_slot k y = Some t \<Longrightarrow> v_pull k"
  by (cases k) (auto simp: v_pull_def)

lemma v_idle_slot: "v_idle y \<longleftrightarrow> (\<forall>k. v_slot k y = None)"
proof
  assume "\<forall>k. v_slot k y = None"
  then have "v_slot VTASK_SOCK_READ y = None" "v_slot VTASK_ACCEPT y = None" "v_slot VTASK_SOCK_CLOSE y = None" by blast+
  then show "v_idle y" by (simp add: v_idle_def)
next
  assume "v_idle y"
  then have "v_slot k y = None" for k by (cases k) (auto simp: v_idle_def)
  then show "\<forall>k. v_slot k y = None" by blast
qed

subsection \<open>A task changes\<close>

text \<open>The loop's view of everything but task \<open>t\<close> stays.\<close>

definition loop_off :: "addr \<Rightarrow> uv_loop \<Rightarrow> uv_loop \<Rightarrow> bool" where
  "loop_off t l l' \<longleftrightarrow> (\<forall>q. q \<noteq> t \<longrightarrow> ul_req l' q = ul_req l q \<and> ul_timer l' q = ul_timer l q) \<and> ul_tcp l' = ul_tcp l"

lemma loop_off_tcp: "loop_off t l l' \<Longrightarrow> ul_tcp l' = ul_tcp l"
  by (simp add: loop_off_def)

lemma tcp_is_open_cong: "ul_tcp l' s = ul_tcp l s \<Longrightarrow> tcp_is_open l' s = tcp_is_open l s"
  by (simp add: tcp_is_open_def)

lemma vtask_off:
  "vtask T b l q x \<Longrightarrow> (q \<in> T' \<longleftrightarrow> q \<in> T) \<Longrightarrow> b \<le> b' \<Longrightarrow> ul_req l' q = ul_req l q \<Longrightarrow> ul_timer l' q = ul_timer l q \<Longrightarrow>
    vtask T' b' l' q x"
  by (auto simp: vtask_def)

lemma vsocks_tcp: "vsocks D b l sh \<Longrightarrow> b \<le> b' \<Longrightarrow> ul_tcp l' = ul_tcp l \<Longrightarrow> vsocks D b' l' sh"
  unfolding vsocks_def vsock_def by (metis less_le_trans)

lemma vconn_ok_tcp: "ul_tcp l' = ul_tcp l \<Longrightarrow> vconn_ok sh l' x = vconn_ok sh l x"
  by (simp add: vconn_ok_def)

lemma vpark_own:
  assumes "vpark th sh Q l" and "\<And>q z s. th' q = Some z \<Longrightarrow> v_own z = Some s \<Longrightarrow> \<exists>q' z'. th q' = Some z' \<and> v_own z' = Some s"
    and "ul_tcp l' = ul_tcp l"
  shows "vpark th' sh Q l'"
proof -
  have "v_own z \<noteq> Some c" if "c \<in> set (Q s)" "th' q = Some z" for c s q z
    using assms(1) assms(2) [OF that(2), of c] that(1) unfolding vpark_def by blast
  then show ?thesis using assms(1,3) unfolding vpark_def tcp_is_open_def by simp
qed

lemma vcore_upd:
  assumes c: "vcore T D b th sh Q l" and t: "th t = Some x" and lo: "loop_off t l l'" and T: "T' - {t} = T - {t}"
    and v: "vtask T' b l' t x'" and k: "vt_kind x' = vt_kind x"
    and o: "v_own x' = v_own x \<or> v_own x' = None \<or>
      (\<exists>k. v_own x' = Some k \<and> (\<forall>q z. th q = Some z \<longrightarrow> v_own z \<noteq> Some k) \<and> (\<forall>s. k \<notin> set (Q s)))"
    and p: "v_pull (vt_kind x) \<Longrightarrow> (vt_done x' \<or> t \<in> T' \<longleftrightarrow> vt_done x \<or> t \<in> T) \<and>
      (vt_done x \<or> t \<in> T \<or> vt_sock x' = vt_sock x)"
    and cn: "vt_kind x = VTASK_CONNECT \<Longrightarrow> \<not> vt_done x' \<Longrightarrow> t \<notin> T' \<Longrightarrow> vconn_ok sh l x'"
  shows "vcore T' D b (th(t \<mapsto> x')) sh Q l'"
proof (rule vcoreI)
  note tcp = loop_off_tcp [OF lo]
  have mem: "q \<in> T' \<longleftrightarrow> q \<in> T" if "q \<noteq> t" for q using T that by blast
  show "vtasks T' b l' (th(t \<mapsto> x'))"
    unfolding vtasks_def
  proof (intro conjI allI impI)
    fix q z
    assume q: "(th(t \<mapsto> x')) q = Some z"
    show "vtask T' b l' q z"
    proof (cases "q = t")
      case False
      with q have "th q = Some z" by simp
      from vcore_task [OF c this] show ?thesis by (rule vtask_off) (use lo False mem in \<open>auto simp: loop_off_def\<close>)
    qed (use q v in auto)
  next
    fix q
    assume "(th(t \<mapsto> x')) q = None"
    then have "th q = None" "q \<noteq> t" by (auto split: if_splits)
    with vcore_no_task [OF c this(1)] lo mem show "ul_req l' q = None" "ul_timer l' q = None" "q \<notin> T'"
      by (auto simp: loop_off_def)
  qed
  show "vsocks D b l' sh" using vcore_parts(2) [OF c] order_refl tcp by (rule vsocks_tcp)
  show "vlinks T' (th(t \<mapsto> x')) sh"
    unfolding vlinks_def
  proof (intro conjI allI impI)
    fix q z
    assume q: "(th(t \<mapsto> x')) q = Some z" "v_pull (vt_kind z)" "\<not> vt_done z" "q \<notin> T'"
    show "\<exists>s y. sh s = Some y \<and> v_slot (vt_kind z) y = Some q \<and> (vt_kind z \<noteq> VTASK_SOCK_CLOSE \<longrightarrow> vt_sock z = Some s)"
    proof (cases "q = t")
      case True
      with q k have "v_pull (vt_kind x)" "z = x'" by auto
      with p [OF this(1)] q True have "\<not> vt_done x" "t \<notin> T" "vt_sock z = vt_sock x" by auto
      with vcore_pull [OF c t \<open>v_pull (vt_kind x)\<close>] \<open>z = x'\<close> k True show ?thesis by simp
    qed (use q mem vcore_pull [OF c] in auto)
  next
    fix s y j q
    assume "sh s = Some y" "v_slot j y = Some q"
    from vcore_slot [OF c this] v_slot_pull [OF this(2)] p t k mem
    show "\<exists>x. (th(t \<mapsto> x')) q = Some x \<and> vt_kind x = j \<and> \<not> vt_done x \<and> q \<notin> T' \<and>
        (j \<noteq> VTASK_SOCK_CLOSE \<longrightarrow> vt_sock x = Some s)" by (cases "q = t") auto
  next
    fix s s' y y' q
    assume "sh s = Some y" "sh s' = Some y'" "vs_close_task y = Some q" "vs_close_task y' = Some q"
    then show "s = s'" using vcore_parts(3) [OF c] unfolding vlinks_def by blast
  qed
  show "vconns T' (th(t \<mapsto> x')) sh l'"
    unfolding vconns_def using cn k mem vcore_conn [OF c] vconn_ok_tcp [OF tcp] by (auto split: if_splits)
  show "vowns (th(t \<mapsto> x'))"
    unfolding vowns_def
  proof (intro allI impI)
    fix q q' z z' s
    assume a: "(th(t \<mapsto> x')) q = Some z" "(th(t \<mapsto> x')) q' = Some z'" "v_own z = Some s" "v_own z' = Some s"
    show "q = q'"
    proof (cases "q = t"; cases "q' = t")
      assume "q \<noteq> t" "q' \<noteq> t"
      with a vcore_own [OF c, of q' z' s q z] show ?thesis by simp
    next
      assume "q = t" "q' \<noteq> t"
      with a o t vcore_own [OF c t, of s q' z'] show ?thesis by auto
    next
      assume "q \<noteq> t" "q' = t"
      with a o t vcore_own [OF c t, of s q z] show ?thesis by auto
    qed simp
  qed
  show "vpark (th(t \<mapsto> x')) sh Q l'"
  proof -
    have "v_own z \<noteq> Some k" if "k \<in> set (Q s)" "(th(t \<mapsto> x')) q = Some z" for k s q z
      using vcore_park [OF c that(1)] that t o by (cases "q = t") auto
    then show ?thesis using vcore_parts(6) [OF c] tcp unfolding vpark_def tcp_is_open_def by simp
  qed
qed

lemma vusable_upd:
  assumes "vusable th sh Q l s" and "th t = Some x" and "ul_tcp l' = ul_tcp l"
    and "vt_kind x' = VTASK_CONNECT \<Longrightarrow> \<not> vt_done x' \<Longrightarrow> vt_sock x' \<noteq> None \<Longrightarrow>
      vt_kind x = VTASK_CONNECT \<and> \<not> vt_done x \<and> vt_sock x' = vt_sock x"
  shows "vusable (th(t \<mapsto> x')) sh Q l' s"
  using assms tcp_is_open_cong [of l' s l] unfolding vusable_def
  by (metis fun_upd_apply option.distinct(1) option.inject)

lemma vkeep_upd:
  assumes "th t = Some x" and "ul_tcp l' = ul_tcp l"
    and "vt_kind x' = VTASK_CONNECT \<Longrightarrow> \<not> vt_done x' \<Longrightarrow> vt_sock x' \<noteq> None \<Longrightarrow>
      vt_kind x = VTASK_CONNECT \<and> \<not> vt_done x \<and> vt_sock x' = vt_sock x"
    and "t \<notin> S \<Longrightarrow> v_held x \<Longrightarrow> v_held x' \<and> vt_kind x' = vt_kind x \<and> (vt_done x \<longrightarrow> vt_done x' \<and> vt_res x' = vt_res x) \<and>
      (res_ptr (vt_res x') = res_ptr (vt_res x) \<or> (\<forall>s. res_ptr (vt_res x') = Some s \<longrightarrow> vusable (th(t \<mapsto> x')) sh Q l' s))"
  shows "vkeep S th sh Q l (th(t \<mapsto> x')) sh Q l'"
proof (rule vkeepI)
  fix q z
  assume "th q = Some z" "v_held z" "q \<notin> S"
  then show "\<exists>x''. (th(t \<mapsto> x')) q = Some x'' \<and> v_held x'' \<and> vt_kind x'' = vt_kind z \<and> (vt_done z \<longrightarrow> vt_done x'' \<and> vt_res x'' = vt_res z) \<and>
      (\<forall>s. res_ptr (vt_res x'') = Some s \<longrightarrow> res_ptr (vt_res z) = Some s \<or> vusable (th(t \<mapsto> x')) sh Q l' s)"
    using assms(1,4) by (cases "q = t") auto
next
  fix s
  assume "vusable th sh Q l s"
  then show "vusable (th(t \<mapsto> x')) sh Q l' s" using assms(1-3) by (rule vusable_upd)
qed

subsection \<open>A task comes and goes\<close>

lemma vcore_new:
  assumes c: "vcore T D b th sh Q l"
  shows "th b = None" "vcore (insert b T) D (Suc b) (th(b \<mapsto> v_task0 k)) sh Q l"
    "vkeep S th sh Q l (th(b \<mapsto> v_task0 k)) sh Q l"
proof -
  show n: "th b = None"
  proof (cases "th b")
    case (Some x)
    from vcore_task [OF c this] show ?thesis by (simp add: vtask_def)
  qed
  have own: "v_own (v_task0 k) = None" by (simp add: v_own_def v_task0_def result0_def mk_result_def)
  show "vcore (insert b T) D (Suc b) (th(b \<mapsto> v_task0 k)) sh Q l"
  proof (rule vcoreI)
    show "vtasks (insert b T) (Suc b) l (th(b \<mapsto> v_task0 k))"
      unfolding vtasks_def
    proof (intro conjI allI impI)
      fix q z
      assume q: "(th(b \<mapsto> v_task0 k)) q = Some z"
      show "vtask (insert b T) (Suc b) l q z"
      proof (cases "q = b")
        case True
        with q vcore_no_task [OF c n] own show ?thesis
          by (auto simp: vtask_def v_task0_def v_want_timer_def result0_def mk_result_def)
      next
        case False
        with q have "th q = Some z" by simp
        from vcore_task [OF c this] show ?thesis by (rule vtask_off) (use False in auto)
      qed
    next
      fix q
      assume "(th(b \<mapsto> v_task0 k)) q = None"
      then show "ul_req l q = None" "ul_timer l q = None" "q \<notin> insert b T"
        using vcore_no_task [OF c, of q] by (auto split: if_splits)
    qed
    show "vsocks D (Suc b) l sh" using vcore_parts(2) [OF c] by (rule vsocks_tcp) auto
    show "vlinks (insert b T) (th(b \<mapsto> v_task0 k)) sh"
      unfolding vlinks_def
    proof (intro conjI allI impI)
      fix q z
      assume "(th(b \<mapsto> v_task0 k)) q = Some z" "v_pull (vt_kind z)" "\<not> vt_done z" "q \<notin> insert b T"
      then show "\<exists>s y. sh s = Some y \<and> v_slot (vt_kind z) y = Some q \<and> (vt_kind z \<noteq> VTASK_SOCK_CLOSE \<longrightarrow> vt_sock z = Some s)"
        using vcore_pull [OF c, of q z] by auto
    next
      fix s y j q
      assume "sh s = Some y" "v_slot j y = Some q"
      from vcore_slot [OF c this] n
      show "\<exists>x. (th(b \<mapsto> v_task0 k)) q = Some x \<and> vt_kind x = j \<and> \<not> vt_done x \<and> q \<notin> insert b T \<and>
          (j \<noteq> VTASK_SOCK_CLOSE \<longrightarrow> vt_sock x = Some s)" by (cases "q = b") auto
    next
      fix s s' y y' q
      assume "sh s = Some y" "sh s' = Some y'" "vs_close_task y = Some q" "vs_close_task y' = Some q"
      then show "s = s'" using vcore_parts(3) [OF c] unfolding vlinks_def by blast
    qed
    show "vconns (insert b T) (th(b \<mapsto> v_task0 k)) sh l"
      unfolding vconns_def using vcore_conn [OF c] by (auto split: if_splits)
    show "vowns (th(b \<mapsto> v_task0 k))"
      using vcore_parts(5) [OF c] own unfolding vowns_def by (metis fun_upd_apply option.inject option.distinct(1))
    show "vpark (th(b \<mapsto> v_task0 k)) sh Q l"
    proof (rule vpark_own [OF vcore_parts(6) [OF c]])
      fix q z s
      assume "(th(b \<mapsto> v_task0 k)) q = Some z" "v_own z = Some s"
      then show "\<exists>q' z'. th q' = Some z' \<and> v_own z' = Some s" using own by (cases "q = b") auto
    qed simp
  qed
  show "vkeep S th sh Q l (th(b \<mapsto> v_task0 k)) sh Q l"
  proof (rule vkeepI)
    fix q z
    assume "th q = Some z" "v_held z" "q \<notin> S"
    then show "\<exists>x'. (th(b \<mapsto> v_task0 k)) q = Some x' \<and> v_held x' \<and> vt_kind x' = vt_kind z \<and> (vt_done z \<longrightarrow> vt_done x' \<and> vt_res x' = vt_res z) \<and>
        (\<forall>s. res_ptr (vt_res x') = Some s \<longrightarrow> res_ptr (vt_res z) = Some s \<or> vusable (th(b \<mapsto> v_task0 k)) sh Q l s)"
      using n by (cases "q = b") auto
  next
    fix s
    assume "vusable th sh Q l s"
    then show "vusable (th(b \<mapsto> v_task0 k)) sh Q l s" by (auto simp: vusable_def v_task0_def)
  qed
qed

lemma vcore_del:
  assumes c: "vcore T D b th sh Q l" and t: "th t = Some x" and lo: "loop_off t l l'"
    and l': "ul_req l' t = None" "ul_timer l' t = None" and p: "v_pull (vt_kind x) \<Longrightarrow> vt_done x \<or> t \<in> T"
  shows "vcore (T - {t}) D b (th(t := None)) sh Q l'"
proof (rule vcoreI)
  note tcp = loop_off_tcp [OF lo]
  show "vtasks (T - {t}) b l' (th(t := None))"
    unfolding vtasks_def
  proof (intro conjI allI impI)
    fix q z
    assume q: "(th(t := None)) q = Some z"
    then have z: "th q = Some z" "q \<noteq> t" by (auto split: if_splits)
    from vcore_task [OF c z(1)] show "vtask (T - {t}) b l' q z"
      by (rule vtask_off) (use lo z(2) in \<open>auto simp: loop_off_def\<close>)
  next
    fix q
    assume "(th(t := None)) q = None"
    with vcore_no_task [OF c, of q] lo l' show "ul_req l' q = None" "ul_timer l' q = None" "q \<notin> T - {t}"
      by (auto simp: loop_off_def split: if_splits)
  qed
  show "vsocks D b l' sh" using vcore_parts(2) [OF c] order_refl tcp by (rule vsocks_tcp)
  show "vlinks (T - {t}) (th(t := None)) sh"
    unfolding vlinks_def
  proof (intro conjI allI impI)
    fix q z
    assume "(th(t := None)) q = Some z" "v_pull (vt_kind z)" "\<not> vt_done z" "q \<notin> T - {t}"
    then show "\<exists>s y. sh s = Some y \<and> v_slot (vt_kind z) y = Some q \<and> (vt_kind z \<noteq> VTASK_SOCK_CLOSE \<longrightarrow> vt_sock z = Some s)"
      using vcore_pull [OF c, of q z] by (auto split: if_splits)
  next
    fix s y j q
    assume "sh s = Some y" "v_slot j y = Some q"
    from vcore_slot [OF c this] v_slot_pull [OF this(2)] t p
    show "\<exists>x. (th(t := None)) q = Some x \<and> vt_kind x = j \<and> \<not> vt_done x \<and> q \<notin> T - {t} \<and>
        (j \<noteq> VTASK_SOCK_CLOSE \<longrightarrow> vt_sock x = Some s)" by (cases "q = t") auto
  next
    fix s s' y y' q
    assume "sh s = Some y" "sh s' = Some y'" "vs_close_task y = Some q" "vs_close_task y' = Some q"
    then show "s = s'" using vcore_parts(3) [OF c] unfolding vlinks_def by blast
  qed
  show "vconns (T - {t}) (th(t := None)) sh l'"
    unfolding vconns_def using vcore_conn [OF c] vconn_ok_tcp [OF tcp] by (auto split: if_splits)
  show "vowns (th(t := None))"
    using vcore_parts(5) [OF c] unfolding vowns_def by (metis fun_upd_apply option.distinct(1))
  show "vpark (th(t := None)) sh Q l'"
    by (rule vpark_own [OF vcore_parts(6) [OF c] _ tcp]) (auto split: if_splits)
qed

lemma vkeep_del:
  assumes "th t = Some x" and "ul_tcp l' = ul_tcp l" and "t \<in> S \<or> \<not> v_held x"
  shows "vkeep S th sh Q l (th(t := None)) sh Q l'"
proof (rule vkeepI)
  fix q z
  assume "th q = Some z" "v_held z" "q \<notin> S"
  then show "\<exists>x'. (th(t := None)) q = Some x' \<and> v_held x' \<and> vt_kind x' = vt_kind z \<and> (vt_done z \<longrightarrow> vt_done x' \<and> vt_res x' = vt_res z) \<and>
      (\<forall>s. res_ptr (vt_res x') = Some s \<longrightarrow> res_ptr (vt_res z) = Some s \<or> vusable (th(t := None)) sh Q l' s)"
    using assms by (cases "q = t") auto
next
  fix s
  assume "vusable th sh Q l s"
  then show "vusable (th(t := None)) sh Q l' s" using assms(2) tcp_is_open_cong [of l' s l]
    by (auto simp: vusable_def split: if_splits)
qed

subsection \<open>A socket comes, changes and goes\<close>

lemma vcore_no_own:
  assumes "vcore T D b th sh Q l" and "th t = Some x" and "v_own x = Some s"
  shows "s < b"
  using vcore_task [OF assms(1,2)] assms(3) by (simp add: vtask_def)

lemma vcore_sock_new:
  assumes c: "vcore T D b th sh Q l" and l': "l' = l\<lparr>ul_tcp := (ul_tcp l)(b \<mapsto> Tcp_open False False)\<rparr>"
  shows "sh b = None" "vcore T D (Suc b) th (sh(b \<mapsto> v_sock0)) Q l'"
    "vkeep S th sh Q l th (sh(b \<mapsto> v_sock0)) Q l'"
    "\<And>q z. th q = Some z \<Longrightarrow> v_own z \<noteq> Some b" "\<And>s. b \<notin> set (Q s)" "Q b = []"
proof -
  show n: "sh b = None"
  proof (cases "sh b")
    case (Some y)
    from vcore_sock [OF c this] show ?thesis by (simp add: vsock_def)
  qed
  show no: "v_own z \<noteq> Some b" if "th q = Some z" for q z using vcore_no_own [OF c that] by blast
  show nq: "b \<notin> set (Q s)" for s using vcore_park [OF c, of b s] n by auto
  have "ul_tcp l b = None" using vcore_no_sock [OF c n] by simp
  then have "\<not> tcp_is_open l b" by (simp add: tcp_is_open_def)
  then show qb: "Q b = []" by (rule vcore_closed_queue [OF c])
  have idle: "v_idle v_sock0" by (simp add: v_idle_def v_sock0_def)
  have tcp: "ul_tcp l' q = ul_tcp l q" if "q \<noteq> b" for q using that l' by simp
  show "vcore T D (Suc b) th (sh(b \<mapsto> v_sock0)) Q l'"
  proof (rule vcoreI)
    show "vtasks T (Suc b) l' th"
      using vcore_parts(1) [OF c] vtask_off [of T b l _ _ T "Suc b" l'] l' unfolding vtasks_def by simp
    show "vsocks D (Suc b) l' (sh(b \<mapsto> v_sock0))"
      using vcore_parts(2) [OF c] vcore_no_sock [OF c n] l' unfolding vsocks_def vsock_def
      by (auto simp: v_sock0_def less_Suc_eq split: if_splits)
    show "vlinks T th (sh(b \<mapsto> v_sock0))"
    proof -
      have f: "sh s = Some y" if "(sh(b \<mapsto> v_sock0)) s = Some y" "v_slot k y = Some t" for s y k t
        using that idle unfolding v_idle_slot by (cases "s = b") auto
      show ?thesis
        unfolding vlinks_def
      proof (intro conjI allI impI)
        fix q z
        assume "th q = Some z" "v_pull (vt_kind z)" "\<not> vt_done z" "q \<notin> T"
        from vcore_pull [OF c this] n
        show "\<exists>s y. (sh(b \<mapsto> v_sock0)) s = Some y \<and> v_slot (vt_kind z) y = Some q \<and> (vt_kind z \<noteq> VTASK_SOCK_CLOSE \<longrightarrow> vt_sock z = Some s)"
          by (metis fun_upd_other option.distinct(1))
      next
        fix s y j q
        assume "(sh(b \<mapsto> v_sock0)) s = Some y" "v_slot j y = Some q"
        from vcore_slot [OF c f [OF this] this(2)]
        show "\<exists>x. th q = Some x \<and> vt_kind x = j \<and> \<not> vt_done x \<and> q \<notin> T \<and> (j \<noteq> VTASK_SOCK_CLOSE \<longrightarrow> vt_sock x = Some s)" .
      next
        fix s s' y y' q
        assume a: "(sh(b \<mapsto> v_sock0)) s = Some y" "(sh(b \<mapsto> v_sock0)) s' = Some y'" "vs_close_task y = Some q" "vs_close_task y' = Some q"
        then have "sh s = Some y" "sh s' = Some y'"
          using f [of s y VTASK_SOCK_CLOSE q] f [of s' y' VTASK_SOCK_CLOSE q] by auto
        with a(3,4) show "s = s'" using vcore_parts(3) [OF c] unfolding vlinks_def by blast
      qed
    qed
    show "vconns T th (sh(b \<mapsto> v_sock0)) l'"
      unfolding vconns_def
    proof (intro allI impI)
      fix t x
      assume "th t = Some x" "vt_kind x = VTASK_CONNECT" "\<not> vt_done x" "t \<notin> T"
      from vcore_conn [OF c this] obtain s y where s: "vt_sock x = Some s" "sh s = Some y" "v_idle y"
        "ul_tcp l s \<in> {Some (Tcp_open False False)} \<union> (if vt_connecting x then {Some Tcp_closing} else {})"
        unfolding vconn_ok_def by blast
      then have "s \<noteq> b" using n by auto
      with s tcp [OF this] show "vconn_ok (sh(b \<mapsto> v_sock0)) l' x" unfolding vconn_ok_def by auto
    qed
    show "vowns th" by (rule vcore_parts(5) [OF c])
    show "vpark th (sh(b \<mapsto> v_sock0)) Q l'"
      unfolding vpark_def
    proof (intro conjI allI impI)
      fix s q
      assume q: "q \<in> set (Q s)"
      note p = vcore_park [OF c q]
      have "q \<noteq> b" using nq q by blast
      have "s \<noteq> b" using q qb by auto
      show "tcp_is_open l' s" using p tcp_is_open_cong [OF tcp [OF \<open>s \<noteq> b\<close>]] by blast
      show "ul_tcp l' q = Some (Tcp_open False False)" using p tcp [OF \<open>q \<noteq> b\<close>] by simp
      show "\<exists>y. (sh(b \<mapsto> v_sock0)) q = Some y \<and> v_idle y" using p \<open>q \<noteq> b\<close> by simp
      show "v_own x \<noteq> Some q" if "th t = Some x" for t x using p that by blast
    next
      fix s s' q
      assume "q \<in> set (Q s)" "q \<in> set (Q s')"
      then show "s = s'" by (rule vcore_park_inj [OF c])
    qed
  qed
  show "vkeep S th sh Q l th (sh(b \<mapsto> v_sock0)) Q l'"
  proof (rule vkeepI)
    fix s
    assume u: "vusable th sh Q l s"
    then have "s \<noteq> b" using n by (auto simp: vusable_def)
    with u tcp_is_open_cong [OF tcp [OF this]] show "vusable th (sh(b \<mapsto> v_sock0)) Q l' s" by (auto simp: vusable_def)
  qed auto
qed

text \<open>Only the handle of socket \<open>s\<close> changes.\<close>

definition tcp_off :: "addr \<Rightarrow> uv_loop \<Rightarrow> uv_loop \<Rightarrow> bool" where
  "tcp_off s l l' \<longleftrightarrow> (\<forall>q. q \<noteq> s \<longrightarrow> ul_tcp l' q = ul_tcp l q) \<and> ul_req l' = ul_req l \<and> ul_timer l' = ul_timer l"

lemma vcore_sock_upd:
  assumes c: "vcore T D b th sh Q l" and s: "sh s = Some y" and lo: "tcp_off s l l'" and TT: "T \<subseteq> T' \<or> (\<exists>t x. T = insert t T' \<and> th t = Some x \<and> vt_kind x \<noteq> VTASK_CONNECT)"
    and v: "vsock D' b l' s y'" and D: "D' - {s} = D - {s}"
    and tk: "vtasks T' b l' th" and lk: "vlinks T' th (sh(s \<mapsto> y'))"
    and cn: "\<And>t x. th t = Some x \<Longrightarrow> vt_kind x = VTASK_CONNECT \<Longrightarrow> \<not> vt_done x \<Longrightarrow> t \<notin> T' \<Longrightarrow> vt_sock x = Some s \<Longrightarrow>
      v_idle y' \<and> ul_tcp l' s \<in> {Some (Tcp_open False False)} \<union> (if vt_connecting x then {Some Tcp_closing} else {})"
    and pk: "\<And>s'. s \<in> set (Q s') \<Longrightarrow> v_idle y' \<and> ul_tcp l' s = Some (Tcp_open False False)"
    and op: "Q s \<noteq> [] \<Longrightarrow> tcp_is_open l' s"
  shows "vcore T' D' b th (sh(s \<mapsto> y')) Q l'"
proof (rule vcoreI)
  have tcp: "ul_tcp l' q = ul_tcp l q" if "q \<noteq> s" for q using lo that by (simp add: tcp_off_def)
  have mem: "q \<in> D' \<longleftrightarrow> q \<in> D" if "q \<noteq> s" for q using D that by blast
  show "vtasks T' b l' th" "vlinks T' th (sh(s \<mapsto> y'))" by (fact tk lk)+
  show "vowns th" by (rule vcore_parts(5) [OF c])
  show "vsocks D' b l' (sh(s \<mapsto> y'))"
    unfolding vsocks_def
  proof (intro conjI allI impI)
    fix q z
    assume "(sh(s \<mapsto> y')) q = Some z"
    then show "vsock D' b l' q z" using v vcore_sock [OF c, of q z] tcp [of q] mem [of q]
      by (cases "q = s") (auto simp: vsock_def)
  next
    fix q
    assume "(sh(s \<mapsto> y')) q = None"
    then have "sh q = None" "q \<noteq> s" by (auto split: if_splits)
    then show "ul_tcp l' q = None" "q \<notin> D'" using vcore_no_sock [OF c, of q] tcp mem by auto
  qed
  show "vconns T' th (sh(s \<mapsto> y')) l'"
    unfolding vconns_def
  proof (intro allI impI)
    fix t x
    assume t: "th t = Some x" "vt_kind x = VTASK_CONNECT" "\<not> vt_done x" "t \<notin> T'"
    then have "t \<notin> T" using TT by auto
    from vcore_conn [OF c t(1-3) this] obtain q z where q: "vt_sock x = Some q" "sh q = Some z" "v_idle z"
      "ul_tcp l q \<in> {Some (Tcp_open False False)} \<union> (if vt_connecting x then {Some Tcp_closing} else {})"
      unfolding vconn_ok_def by blast
    show "vconn_ok (sh(s \<mapsto> y')) l' x"
    proof (cases "q = s")
      case True
      with cn [OF t] q show ?thesis unfolding vconn_ok_def by auto
    next
      case False
      with q tcp [OF False] show ?thesis unfolding vconn_ok_def by auto
    qed
  qed
  show "vpark th (sh(s \<mapsto> y')) Q l'"
    unfolding vpark_def
  proof (intro conjI allI impI)
    fix k q
    assume q: "q \<in> set (Q k)"
    note p = vcore_park [OF c q]
    have "Q k \<noteq> []" using q by auto
    then show "tcp_is_open l' k" using op p tcp_is_open_cong [OF tcp, of k] by (cases "k = s") auto
    show "ul_tcp l' q = Some (Tcp_open False False)" using p pk [of k] q tcp [of q] by (cases "q = s") auto
    show "\<exists>z. (sh(s \<mapsto> y')) q = Some z \<and> v_idle z" using p pk [of k] q by (cases "q = s") auto
    show "v_own x \<noteq> Some q" if "th t = Some x" for t x using p that by blast
  next
    fix k k' q
    assume "q \<in> set (Q k)" "q \<in> set (Q k')"
    then show "k = k'" by (rule vcore_park_inj [OF c])
  qed
qed

text \<open>While its handle stays open, a socket stays usable; a socket nobody may use may close.\<close>

lemma vkeep_sock:
  assumes "sh s = Some y" and "\<And>q. q \<noteq> s \<Longrightarrow> ul_tcp l' q = ul_tcp l q"
    and "tcp_is_open l' s \<or> (\<forall>t x. th t = Some x \<longrightarrow> v_held x \<longrightarrow> t \<notin> S \<longrightarrow> res_ptr (vt_res x) = Some s \<longrightarrow> \<not> vusable th sh Q l s)"
  shows "vkeep S th sh Q l th (sh(s \<mapsto> y')) Q l'"
proof (rule vkeepI)
  fix t x q
  assume "th t = Some x" "v_held x" "t \<notin> S" "res_ptr (vt_res x) = Some q" and u: "vusable th sh Q l q"
  with assms(3) have "q = s \<Longrightarrow> tcp_is_open l' s" by blast
  with u tcp_is_open_cong [OF assms(2)] show "vusable th (sh(s \<mapsto> y')) Q l' q"
    unfolding vusable_def by (cases "q = s") auto
qed auto

text \<open>Two sockets with the same slots but for one of kind \<open>k\<close>.\<close>

definition slot_upd :: "v_kind \<Rightarrow> ptr \<Rightarrow> uv_sock \<Rightarrow> uv_sock \<Rightarrow> bool" where
  "slot_upd k p y y' \<longleftrightarrow> v_pull k \<and> (\<forall>j. v_slot j y' = (if j = k then p else v_slot j y))"

lemma slot_updI [intro]:
  "slot_upd VTASK_SOCK_READ p y (y\<lparr>vs_read_task := p\<rparr>)"
  "slot_upd VTASK_ACCEPT p y (y\<lparr>vs_accept_task := p\<rparr>)"
  "slot_upd VTASK_SOCK_CLOSE p y (y\<lparr>vs_close_task := p\<rparr>)"
proof -
  have "v_slot j (y\<lparr>vs_read_task := p\<rparr>) = (if j = VTASK_SOCK_READ then p else v_slot j y)"
    "v_slot j (y\<lparr>vs_accept_task := p\<rparr>) = (if j = VTASK_ACCEPT then p else v_slot j y)"
    "v_slot j (y\<lparr>vs_close_task := p\<rparr>) = (if j = VTASK_SOCK_CLOSE then p else v_slot j y)" for j
    by (cases j; simp)+
  then show "slot_upd VTASK_SOCK_READ p y (y\<lparr>vs_read_task := p\<rparr>)"
    "slot_upd VTASK_ACCEPT p y (y\<lparr>vs_accept_task := p\<rparr>)"
    "slot_upd VTASK_SOCK_CLOSE p y (y\<lparr>vs_close_task := p\<rparr>)" by (auto simp: slot_upd_def v_pull_def)
qed

lemma vcore_close_inj:
  "vcore T D b th sh Q l \<Longrightarrow> sh s = Some y \<Longrightarrow> sh s' = Some y' \<Longrightarrow> vs_close_task y = Some t \<Longrightarrow> vs_close_task y' = Some t \<Longrightarrow> s = s'"
  unfolding vcore_def vlinks_def by blast

lemma vlinks_set:
  assumes c: "vcore T D b th sh Q l" and t: "t \<in> T" "th t = Some x" "vt_kind x = k" "\<not> vt_done x"
      "k \<noteq> VTASK_SOCK_CLOSE \<longrightarrow> vt_sock x = Some s"
    and s: "sh s = Some y" "v_slot k y = None" and y': "slot_upd k (Some t) y y'"
  shows "vlinks (T - {t}) th (sh(s \<mapsto> y'))"
  unfolding vlinks_def
proof (intro conjI allI impI)
  have sl: "v_slot j y' = (if j = k then Some t else v_slot j y)" for j using y' by (simp add: slot_upd_def)
  fix q z
  assume q: "th q = Some z" "v_pull (vt_kind z)" "\<not> vt_done z" "q \<notin> T - {t}"
  show "\<exists>r w. (sh(s \<mapsto> y')) r = Some w \<and> v_slot (vt_kind z) w = Some q \<and> (vt_kind z \<noteq> VTASK_SOCK_CLOSE \<longrightarrow> vt_sock z = Some r)"
  proof (cases "q = t")
    case True
    with t q sl show ?thesis by (intro exI [of _ s] exI [of _ y']) auto
  next
    case False
    with q obtain r w where r: "sh r = Some w" "v_slot (vt_kind z) w = Some q" "vt_kind z \<noteq> VTASK_SOCK_CLOSE \<longrightarrow> vt_sock z = Some r"
      using vcore_pull [OF c, of q z] by auto
    show ?thesis
    proof (cases "r = s")
      case True
      with r s have "vt_kind z \<noteq> k" by auto
      with True r s(1) sl show ?thesis by (intro exI [of _ s] exI [of _ y']) auto
    next
      case False
      with r show ?thesis by (intro exI [of _ r] exI [of _ w]) auto
    qed
  qed
next
  have sl: "v_slot j y' = (if j = k then Some t else v_slot j y)" for j using y' by (simp add: slot_upd_def)
  fix r w j q
  assume r: "(sh(s \<mapsto> y')) r = Some w" "v_slot j w = Some q"
  show "\<exists>z. th q = Some z \<and> vt_kind z = j \<and> \<not> vt_done z \<and> q \<notin> T - {t} \<and> (j \<noteq> VTASK_SOCK_CLOSE \<longrightarrow> vt_sock z = Some r)"
  proof (cases "r = s")
    case True
    with r sl [of j] have "(if j = k then Some t else v_slot j y) = Some q" by auto
    with True t s vcore_slot [OF c s(1), of j q] show ?thesis by (cases "j = k") auto
  next
    case False
    with r vcore_slot [OF c, of r w j q] show ?thesis by auto
  qed
next
  have sl: "vs_close_task y' = (if k = VTASK_SOCK_CLOSE then Some t else vs_close_task y)"
    using y' by (auto simp: slot_upd_def dest: spec [of _ VTASK_SOCK_CLOSE])
  have nt: "vs_close_task w \<noteq> Some t" if "sh r = Some w" for r w
    using vcore_slot [OF c that, of VTASK_SOCK_CLOSE t] t by auto
  fix r r' w w' q
  assume "(sh(s \<mapsto> y')) r = Some w" "(sh(s \<mapsto> y')) r' = Some w'" "vs_close_task w = Some q" "vs_close_task w' = Some q"
  then show "r = r'" using sl nt s(1) vcore_close_inj [OF c, of _ _ _ _ q]
    by (cases "r = s"; cases "r' = s") (auto split: if_splits)
qed

lemma vlinks_clear:
  assumes c: "vcore T D b th sh Q l" and s: "sh s = Some y" "v_slot k y = Some t" and y': "slot_upd k None y y'"
  shows "vlinks (insert t T) th (sh(s \<mapsto> y'))"
proof -
  have sl: "v_slot j y' = (if j = k then None else v_slot j y)" for j using y' by (simp add: slot_upd_def)
  have old: "\<exists>w'. sh r = Some w' \<and> v_slot j w' = Some q \<and> (r = s \<longrightarrow> j \<noteq> k)"
    if "(sh(s \<mapsto> y')) r = Some w" "v_slot j w = Some q" for r w j q
    using that sl s by (cases "r = s") (auto split: if_splits)
  from vcore_slot [OF c s] obtain x where x: "th t = Some x" "vt_kind x = k" "k \<noteq> VTASK_SOCK_CLOSE \<longrightarrow> vt_sock x = Some s" by blast
  have nt: "q \<noteq> t" if r: "sh r = Some w" "v_slot j w = Some q" "r = s \<longrightarrow> j \<noteq> k" for r w j q
  proof
    assume "q = t"
    with vcore_slot [OF c r(1,2)] x have j: "j = k" "k \<noteq> VTASK_SOCK_CLOSE \<longrightarrow> vt_sock x = Some r" by auto
    with x r(3) have "k = VTASK_SOCK_CLOSE" "r \<noteq> s" by auto
    with j r s \<open>q = t\<close> vcore_close_inj [OF c r(1) s(1), of t] show False by auto
  qed
  show ?thesis
    unfolding vlinks_def
  proof (intro conjI allI impI)
    fix q z
    assume q: "th q = Some z" "v_pull (vt_kind z)" "\<not> vt_done z" "q \<notin> insert t T"
    then obtain r w where r: "sh r = Some w" "v_slot (vt_kind z) w = Some q" "vt_kind z \<noteq> VTASK_SOCK_CLOSE \<longrightarrow> vt_sock z = Some r"
      using vcore_pull [OF c, of q z] by auto
    show "\<exists>r w. (sh(s \<mapsto> y')) r = Some w \<and> v_slot (vt_kind z) w = Some q \<and> (vt_kind z \<noteq> VTASK_SOCK_CLOSE \<longrightarrow> vt_sock z = Some r)"
    proof (cases "r = s")
      case True
      with r s q have "vt_kind z \<noteq> k" by auto
      with True r s(1) sl show ?thesis by (intro exI [of _ s] exI [of _ y']) auto
    next
      case False
      with r show ?thesis by (intro exI [of _ r] exI [of _ w]) auto
    qed
  next
    fix r w j q
    assume "(sh(s \<mapsto> y')) r = Some w" "v_slot j w = Some q"
    from old [OF this] obtain w' where w': "sh r = Some w'" "v_slot j w' = Some q" "r = s \<longrightarrow> j \<noteq> k" by blast
    from vcore_slot [OF c w'(1,2)] nt [OF w']
    show "\<exists>z. th q = Some z \<and> vt_kind z = j \<and> \<not> vt_done z \<and> q \<notin> insert t T \<and> (j \<noteq> VTASK_SOCK_CLOSE \<longrightarrow> vt_sock z = Some r)" by auto
  next
    fix r r' w w' q
    assume a: "(sh(s \<mapsto> y')) r = Some w" "(sh(s \<mapsto> y')) r' = Some w'" "vs_close_task w = Some q" "vs_close_task w' = Some q"
    from old [OF a(1), of VTASK_SOCK_CLOSE q] old [OF a(2), of VTASK_SOCK_CLOSE q] a(3,4)
    show "r = r'" using vcore_close_inj [OF c] by auto
  qed
qed

lemma vlinks_keep:
  assumes "vcore T D b th sh Q l" and "sh s = Some y" and "\<And>j. v_slot j y' = v_slot j y"
  shows "vlinks T th (sh(s \<mapsto> y'))"
proof -
  have cl: "vs_close_task y' = vs_close_task y" using assms(3) [of VTASK_SOCK_CLOSE] by simp
  have e: "((\<exists>w. (sh(s \<mapsto> y')) r = Some w \<and> v_slot j w = p) = (\<exists>w. sh r = Some w \<and> v_slot j w = p))" for r j p
    using assms(2,3) by (cases "r = s") auto
  show ?thesis
    unfolding vlinks_def
  proof (intro conjI allI impI)
    fix q z
    assume "th q = Some z" "v_pull (vt_kind z)" "\<not> vt_done z" "q \<notin> T"
    from vcore_pull [OF assms(1) this] e [of _ "vt_kind z" "Some q"]
    show "\<exists>r w. (sh(s \<mapsto> y')) r = Some w \<and> v_slot (vt_kind z) w = Some q \<and> (vt_kind z \<noteq> VTASK_SOCK_CLOSE \<longrightarrow> vt_sock z = Some r)"
      by metis
  next
    fix r w j q
    assume "(sh(s \<mapsto> y')) r = Some w" "v_slot j w = Some q"
    then obtain w' where "sh r = Some w'" "v_slot j w' = Some q" using e [of r j "Some q"] by metis
    then show "\<exists>z. th q = Some z \<and> vt_kind z = j \<and> \<not> vt_done z \<and> q \<notin> T \<and> (j \<noteq> VTASK_SOCK_CLOSE \<longrightarrow> vt_sock z = Some r)"
      by (rule vcore_slot [OF assms(1)])
  next
    fix r r' w w' q
    assume "(sh(s \<mapsto> y')) r = Some w" "(sh(s \<mapsto> y')) r' = Some w'" "vs_close_task w = Some q" "vs_close_task w' = Some q"
    then show "r = r'" using vcore_close_inj [OF assms(1), of _ _ _ _ q] assms(2) cl
      by (cases "r = s"; cases "r' = s") auto
  qed
qed

lemma vtasks_tcp: "vtasks T b l th \<Longrightarrow> ul_req l' = ul_req l \<Longrightarrow> ul_timer l' = ul_timer l \<Longrightarrow> vtasks T b l' th"
  using vtask_off [of T b l _ _ T b l'] unfolding vtasks_def by simp

text \<open>A task in transit is entered in a usable socket's slot, and taken out again.\<close>

lemma vcore_link:
  assumes c: "vcore T D b th sh Q l" and t: "t \<in> T" "th t = Some x" "vt_kind x = k" "\<not> vt_done x"
      "k \<noteq> VTASK_SOCK_CLOSE \<longrightarrow> vt_sock x = Some s"
    and s: "sh s = Some y" "v_slot k y = None" "vusable th sh Q l s" and y': "slot_upd k (Some t) y y'"
    and lo: "tcp_off s l l'" and v: "vsock D b l' s y'" and op: "Q s \<noteq> [] \<Longrightarrow> tcp_is_open l' s"
  shows "vcore (T - {t}) D b th (sh(s \<mapsto> y')) Q l'"
proof (rule vcore_sock_upd [OF c s(1) lo _ v])
  have pl: "v_pull k" using y' by (simp add: slot_upd_def)
  have nk: "k \<noteq> VTASK_TIMER" "k \<noteq> VTASK_CONNECT" "v_want_req x = None"
    using pl t(3) by (auto simp: v_pull_def v_want_req_def)
  show "T \<subseteq> T - {t} \<or> (\<exists>q z. T = insert q (T - {t}) \<and> th q = Some z \<and> vt_kind z \<noteq> VTASK_CONNECT)"
    using t nk by blast
  show "vlinks (T - {t}) th (sh(s \<mapsto> y'))" by (rule vlinks_set [OF c t(1-5) s(1,2) y'])
  show "vtasks (T - {t}) b l' th"
    unfolding vtasks_def
  proof (intro conjI allI impI)
    fix q z
    assume q: "th q = Some z"
    show "vtask (T - {t}) b l' q z"
    proof (cases "q = t")
      case True
      with q t vcore_task [OF c t(2)] nk lo pl show ?thesis by (auto simp: vtask_def tcp_off_def v_pull_def)
    next
      case False
      from vcore_task [OF c q] show ?thesis by (rule vtask_off) (use lo False in \<open>auto simp: tcp_off_def\<close>)
    qed
  next
    fix q
    assume "th q = None"
    with vcore_no_task [OF c this] lo show "ul_req l' q = None" "ul_timer l' q = None" "q \<notin> T - {t}" by (auto simp: tcp_off_def)
  qed
qed (use s(3) op in \<open>auto simp: vusable_def\<close>)

lemma vcore_unlink:
  assumes c: "vcore T D b th sh Q l" and s: "sh s = Some y" "v_slot k y = Some t" and y': "slot_upd k None y y'"
    and lo: "tcp_off s l l'" and v: "vsock D b l' s y'" and op: "Q s \<noteq> [] \<Longrightarrow> tcp_is_open l' s"
  shows "vcore (insert t T) D b th (sh(s \<mapsto> y')) Q l'"
proof (rule vcore_sock_upd [OF c s(1) lo _ v])
  from vcore_slot [OF c s] obtain x where x: "th t = Some x" "vt_kind x = k" "\<not> vt_done x" "t \<notin> T" by blast
  have pl: "v_pull k" using y' by (simp add: slot_upd_def)
  have ni: "\<not> v_idle y" using s(2) unfolding v_idle_slot by auto
  show "vlinks (insert t T) th (sh(s \<mapsto> y'))" by (rule vlinks_clear [OF c s y'])
  show "vtasks (insert t T) b l' th"
    unfolding vtasks_def
  proof (intro conjI allI impI)
    fix q z
    assume q: "th q = Some z"
    show "vtask (insert t T) b l' q z"
    proof (cases "q = t")
      case True
      with q x have "z = x" by simp
      with True vcore_task [OF c x(1)] x lo pl show ?thesis
        by (auto simp: vtask_def tcp_off_def v_pull_def v_want_req_def)
    next
      case False
      from vcore_task [OF c q] show ?thesis by (rule vtask_off) (use lo False in \<open>auto simp: tcp_off_def\<close>)
    qed
  next
    fix q
    assume "th q = None"
    with vcore_no_task [OF c this] x lo show "ul_req l' q = None" "ul_timer l' q = None" "q \<notin> insert t T" by (auto simp: tcp_off_def)
  qed
  show "v_idle y' \<and> ul_tcp l' s = Some (Tcp_open False False)" if "s \<in> set (Q s')" for s'
    using vcore_park [OF c that] s(1) ni by auto
  show "v_idle y' \<and> ul_tcp l' s \<in> {Some (Tcp_open False False)} \<union> (if vt_connecting z then {Some Tcp_closing} else {})"
    if "th q = Some z" "vt_kind z = VTASK_CONNECT" "\<not> vt_done z" "q \<notin> insert t T" "vt_sock z = Some s" for q z
    using vcore_conn [OF c that(1-3)] that(4,5) s(1) ni by (auto simp: vconn_ok_def)
qed (use op in auto)

text \<open>The handle of a socket starts or stops reading, starts listening or closing.\<close>

lemma vcore_tcp:
  assumes c: "vcore T D b th sh Q l" and s: "sh s = Some y" and lo: "tcp_off s l l'" and v: "vsock D b l' s y"
    and cn: "\<And>t x. th t = Some x \<Longrightarrow> vt_kind x = VTASK_CONNECT \<Longrightarrow> \<not> vt_done x \<Longrightarrow> t \<notin> T \<Longrightarrow> vt_sock x = Some s \<Longrightarrow>
      ul_tcp l' s \<in> {Some (Tcp_open False False)} \<union> (if vt_connecting x then {Some Tcp_closing} else {})"
    and pk: "\<And>s'. s \<in> set (Q s') \<Longrightarrow> ul_tcp l' s = Some (Tcp_open False False)"
    and op: "Q s \<noteq> [] \<Longrightarrow> tcp_is_open l' s"
  shows "vcore T D b th sh Q l'"
proof -
  have "vcore T D b th (sh(s \<mapsto> y)) Q l'"
  proof (rule vcore_sock_upd [OF c s lo _ v _ _ _ _ _ op])
    show "vtasks T b l' th" using vcore_parts(1) [OF c] by (rule vtasks_tcp) (use lo in \<open>auto simp: tcp_off_def\<close>)
    show "vlinks T th (sh(s \<mapsto> y))" by (rule vlinks_keep [OF c s]) simp
    show "v_idle y \<and> ul_tcp l' s = Some (Tcp_open False False)" if "s \<in> set (Q s')" for s'
      using vcore_park [OF c that] pk [OF that] s by auto
    show "v_idle y \<and> ul_tcp l' s \<in> {Some (Tcp_open False False)} \<union> (if vt_connecting z then {Some Tcp_closing} else {})"
      if "th q = Some z" "vt_kind z = VTASK_CONNECT" "\<not> vt_done z" "q \<notin> T" "vt_sock z = Some s" for q z
      using vcore_conn [OF c that(1-4)] cn [OF that] s that(5) by (auto simp: vconn_ok_def)
  qed auto
  moreover have "sh(s \<mapsto> y) = sh" using s by (simp add: fun_upd_idem)
  ultimately show ?thesis by simp
qed

lemma vcore_dying:
  assumes c: "vcore T D b th sh Q l" and s: "ul_tcp l s = Some Tcp_closing" and l': "l' = l\<lparr>ul_tcp := (ul_tcp l)(s := None)\<rparr>"
    and cn: "\<And>t. ul_req l t \<noteq> Some (Rq_connect s)"
  shows "vcore T (insert s D) b th sh Q l'" "Q s = []" "\<exists>y. sh s = Some y"
proof -
  have "\<not> tcp_is_open l s" using s by (simp add: tcp_is_open_def)
  then show q: "Q s = []" by (rule vcore_closed_queue [OF c])
  from s obtain y where y: "sh s = Some y" using vcore_no_sock [OF c, of s] by (cases "sh s") auto
  then show "\<exists>y. sh s = Some y" by blast
  have lo: "tcp_off s l l'" using l' by (simp add: tcp_off_def)
  have "vcore T (insert s D) b th (sh(s \<mapsto> y)) Q l'"
  proof (rule vcore_sock_upd [OF c y lo])
    show "vsock (insert s D) b l' s y" using vcore_sock [OF c y] l' by (auto simp: vsock_def)
    show "vtasks T b l' th" using vcore_parts(1) [OF c] by (rule vtasks_tcp) (use lo in \<open>auto simp: tcp_off_def\<close>)
    show "vlinks T th (sh(s \<mapsto> y))" by (rule vlinks_keep [OF c y]) simp
    show "v_idle y \<and> ul_tcp l' s = Some (Tcp_open False False)" if "s \<in> set (Q s')" for s'
      using vcore_park [OF c that] s by auto
    show "v_idle y \<and> ul_tcp l' s \<in> {Some (Tcp_open False False)} \<union> (if vt_connecting z then {Some Tcp_closing} else {})"
      if z: "th q = Some z" "vt_kind z = VTASK_CONNECT" "\<not> vt_done z" "q \<notin> T" "vt_sock z = Some s" for q z
    proof -
      from vcore_conn [OF c z(1-4)] s z(5) have "vt_connecting z" by (auto simp: vconn_ok_def split: if_splits)
      with vcore_task [OF c z(1)] z have "ul_req l q = Some (Rq_connect s)" by (simp add: vtask_def v_want_req_def)
      with cn show ?thesis by blast
    qed
  qed (use q in auto)
  moreover have "sh(s \<mapsto> y) = sh" using y by (simp add: fun_upd_idem)
  ultimately show "vcore T (insert s D) b th sh Q l'" by simp
qed

lemma vcore_sock_gone:
  assumes c: "vcore T D b th sh Q l" and s: "s \<in> D" "sh s = Some y" "v_idle y"
  shows "vcore T (D - {s}) b th (sh(s := None)) Q l"
proof (rule vcoreI)
  have n: "ul_tcp l s = None" using vcore_sock [OF c s(2)] s(1) by (simp add: vsock_def)
  show "vtasks T b l th" "vowns th" by (rule vcore_parts [OF c])+
  show "vsocks (D - {s}) b l (sh(s := None))"
    using vcore_parts(2) [OF c] n unfolding vsocks_def vsock_def by auto
  show "vlinks T th (sh(s := None))"
  proof -
    have i: "v_slot k y = None" for k using s(3) by (simp add: v_idle_slot)
    show ?thesis
      unfolding vlinks_def
    proof (intro conjI allI impI)
      fix q z
      assume "th q = Some z" "v_pull (vt_kind z)" "\<not> vt_done z" "q \<notin> T"
      then obtain r w where r: "sh r = Some w" "v_slot (vt_kind z) w = Some q" "vt_kind z \<noteq> VTASK_SOCK_CLOSE \<longrightarrow> vt_sock z = Some r"
        using vcore_pull [OF c] by blast
      then have "r \<noteq> s" using s(2) i [of "vt_kind z"] by auto
      with r show "\<exists>r w. (sh(s := None)) r = Some w \<and> v_slot (vt_kind z) w = Some q \<and> (vt_kind z \<noteq> VTASK_SOCK_CLOSE \<longrightarrow> vt_sock z = Some r)"
        by (intro exI [of _ r] exI [of _ w]) simp
    next
      fix r w j q
      assume "(sh(s := None)) r = Some w" "v_slot j w = Some q"
      then show "\<exists>z. th q = Some z \<and> vt_kind z = j \<and> \<not> vt_done z \<and> q \<notin> T \<and> (j \<noteq> VTASK_SOCK_CLOSE \<longrightarrow> vt_sock z = Some r)"
        using vcore_slot [OF c, of r w j q] by (simp split: if_splits)
    next
      fix r r' w w' q
      assume "(sh(s := None)) r = Some w" "(sh(s := None)) r' = Some w'" "vs_close_task w = Some q" "vs_close_task w' = Some q"
      then show "r = r'" using vcore_close_inj [OF c, of r w r' w' q] by (simp split: if_splits)
    qed
  qed
  show "vconns T th (sh(s := None)) l"
    unfolding vconns_def
  proof (intro allI impI)
    fix t x
    assume "th t = Some x" "vt_kind x = VTASK_CONNECT" "\<not> vt_done x" "t \<notin> T"
    from vcore_conn [OF c this] obtain r w where r: "vt_sock x = Some r" "sh r = Some w" "v_idle w"
      "ul_tcp l r \<in> {Some (Tcp_open False False)} \<union> (if vt_connecting x then {Some Tcp_closing} else {})"
      unfolding vconn_ok_def by blast
    then have "r \<noteq> s" using n by (auto split: if_splits)
    with r show "vconn_ok (sh(s := None)) l x" unfolding vconn_ok_def by auto
  qed
  show "vpark th (sh(s := None)) Q l"
  proof -
    have "(sh(s := None)) q = sh q" if "q \<in> set (Q r)" for q r using vcore_park [OF c that] n by auto
    then show ?thesis using vcore_parts(6) [OF c] unfolding vpark_def by fastforce
  qed
qed

lemma vkeep_sock_gone:
  assumes "\<not> tcp_is_open l s" and "\<And>q. q \<noteq> s \<Longrightarrow> ul_tcp l' q = ul_tcp l q"
  shows "vkeep S th sh Q l th (sh(s := None)) Q l'"
proof (rule vkeepI)
  fix q
  assume u: "vusable th sh Q l q"
  with assms(1) have "q \<noteq> s" by (auto simp: vusable_def)
  with u tcp_is_open_cong [OF assms(2) [OF this]] show "vusable th (sh(s := None)) Q l' q" by (simp add: vusable_def)
qed auto

subsection \<open>Connections are parked and claimed\<close>

lemma vcore_park_add:
  assumes c: "vcore T D b th sh Q l" and s: "tcp_is_open l s" and k: "sh k = Some y" "v_idle y" "ul_tcp l k = Some (Tcp_open False False)"
    and o: "\<And>t x. th t = Some x \<Longrightarrow> v_own x \<noteq> Some k" and n: "\<And>s'. k \<notin> set (Q s')"
  shows "vcore T D b th sh (Q(s := Q s @ [k])) l"
proof -
  have "vpark th sh (Q(s := Q s @ [k])) l"
    unfolding vpark_def
  proof (intro conjI allI impI)
    fix r q
    assume "q \<in> set ((Q(s := Q s @ [k])) r)"
    then have q: "q = k \<and> r = s \<or> q \<in> set (Q r)" by (auto split: if_splits)
    then show "tcp_is_open l r" "ul_tcp l q = Some (Tcp_open False False)" "\<exists>y. sh q = Some y \<and> v_idle y"
      using s k vcore_park [OF c, of q r] by auto
    show "v_own x \<noteq> Some q" if "th t = Some x" for t x using q o [OF that] vcore_park [OF c, of q r] that by auto
  next
    fix r r' q
    assume "q \<in> set ((Q(s := Q s @ [k])) r)" "q \<in> set ((Q(s := Q s @ [k])) r')"
    then show "r = r'" using n vcore_park_inj [OF c, of q r r'] by (auto split: if_splits dest: vcore_park_inj [OF c])
  qed
  with c show ?thesis by (simp add: vcore_def)
qed

lemma vcore_park_sub:
  assumes "vcore T D b th sh Q l" and "\<And>s. set (Q' s) \<subseteq> set (Q s)"
  shows "vcore T D b th sh Q' l"
proof -
  have "vpark th sh Q' l" using vcore_parts(6) [OF assms(1)] assms(2) unfolding vpark_def by (meson subsetD)
  with assms(1) show ?thesis by (simp add: vcore_def)
qed

lemma vkeep_park:
  assumes "\<And>s q. q \<in> set (Q' s) \<Longrightarrow> q \<in> set (Q s) \<or> (\<forall>t x. th t = Some x \<longrightarrow> v_own x \<noteq> Some q)"
  shows "vkeep S th sh Q l th sh Q' l"
proof (rule vkeepI)
  fix t x q
  assume t: "th t = Some x" "res_ptr (vt_res x) = Some q" and u: "vusable th sh Q l q"
  have "v_own x = Some q" using t(2) by (simp add: v_own_def)
  with t(1) u assms [of q] show "vusable th sh Q' l q" unfolding vusable_def by blast
qed auto

end
