(* ===== verification/Myio_Uv_Inv.thy ===== *)
theory Myio_Uv_Inv
  imports Myio_Uv_Core
begin

text \<open>
  The invariant of the libuv backend on its states, and what its inner functions do to
  it: allocation, calls to libuv, starting to close a socket, and above all the
  completion of a task.
\<close>

subsection \<open>The invariant\<close>

text \<open>
  The number of successful allocations is kept below the range of the completion
  counter, so that a turn of the loop cannot wrap it around.
\<close>

fun v_allocs :: "event list \<Rightarrow> nat" where
  "v_allocs [] = 0"
| "v_allocs ((C_alloc, a) # tr) = (if a_ret a = 0 then 0 else 1) + v_allocs tr"
| "v_allocs (_ # tr) = v_allocs tr"

definition v_env :: "os \<Rightarrow> bool" where
  "v_env os \<longleftrightarrow> uv_ok os \<and> (\<forall>tr. v_allocs tr \<ge> 2 ^ 32 - 1 \<longrightarrow> a_ret (os tr C_alloc) = 0)"

abbreviation vl :: "uv_io \<Rightarrow> uv_loop" where
  "vl u \<equiv> uv_state (m_trace u)"

definition v_queued :: "uv_io \<Rightarrow> vqueues \<Rightarrow> bool" where
  "v_queued u Q \<longleftrightarrow> (\<forall>s y. v_sh u s = Some y \<longrightarrow> tcp_is_open (vl u) s \<longrightarrow> wq_list (v_pnode u) (vs_pending y) (Q s))"

definition vgood :: "addr set \<Rightarrow> addr set \<Rightarrow> vqueues \<Rightarrow> uv_io \<Rightarrow> bool" where
  "vgood T D Q u \<longleftrightarrow> \<not> m_fault u \<and> uv_disciplined (m_trace u) \<and>
     vcore T D (m_brk u) (v_th u) (v_sh u) Q (vl u) \<and> v_queued u Q \<and>
     card (dom (v_th u)) \<le> v_allocs (m_trace u) \<and> v_allocs (m_trace u) < 2 ^ 32"

definition vinv :: "uv_io \<Rightarrow> bool" where
  "vinv u \<longleftrightarrow> (\<exists>Q. vgood {} {} Q u)"

definition vkeeps :: "addr set \<Rightarrow> vqueues \<Rightarrow> uv_io \<Rightarrow> vqueues \<Rightarrow> uv_io \<Rightarrow> bool" where
  "vkeeps S Q u Q' u' \<longleftrightarrow> vkeep S (v_th u) (v_sh u) Q (vl u) (v_th u') (v_sh u') Q' (vl u')"

text \<open>The pending tasks, but for timers that are only waiting to be freed; what a stretch of the program does to them and to the counter.\<close>

definition v_pend :: "uv_io \<Rightarrow> addr set" where
  "v_pend u = {t. \<exists>x. v_th u t = Some x \<and> \<not> vt_done x \<and> \<not> vt_free_on_close x}"

definition v_count :: "uv_io \<Rightarrow> uv_io \<Rightarrow> bool" where
  "v_count u u' \<longleftrightarrow> v_pend u' \<subseteq> v_pend u \<and>
     v_ncompleted u' = v_ncompleted u + of_nat (card (v_pend u - v_pend u'))"

lemma vkeeps_refl: "vkeeps S Q u Q u"
  by (simp add: vkeeps_def vkeep_refl)

lemma vkeeps_trans: "vkeeps S Q u Q1 u1 \<Longrightarrow> vkeeps S Q1 u1 Q2 u2 \<Longrightarrow> vkeeps S Q u Q2 u2"
  unfolding vkeeps_def by (rule vkeep_trans)

lemma vkeeps_mono: "vkeeps S Q u Q' u' \<Longrightarrow> S \<subseteq> S' \<Longrightarrow> vkeeps S' Q u Q' u'"
  unfolding vkeeps_def by (rule vkeep_mono)

lemma vgood_core: "vgood T D Q u \<Longrightarrow> vcore T D (m_brk u) (v_th u) (v_sh u) Q (vl u)"
  by (simp add: vgood_def)

lemma vgood_fine: "vgood T D Q u \<Longrightarrow> \<not> m_fault u"
  by (simp add: vgood_def)

lemma vgood_disc: "vgood T D Q u \<Longrightarrow> uv_disciplined (m_trace u)"
  by (simp add: vgood_def)

lemma vgood_queue: "vgood T D Q u \<Longrightarrow> v_sh u s = Some y \<Longrightarrow> tcp_is_open (vl u) s \<Longrightarrow> wq_list (v_pnode u) (vs_pending y) (Q s)"
  by (simp add: vgood_def v_queued_def)

lemma vgood_finite:
  assumes "vgood T D Q u"
  shows "finite (dom (v_th u))" "finite (v_pend u)" "card (v_pend u) < 2 ^ 32"
proof -
  have "dom (v_th u) \<subseteq> {..<m_brk u}" using vcore_task [OF vgood_core [OF assms]] by (auto simp: vtask_def)
  then show f: "finite (dom (v_th u))" by (rule finite_subset) simp
  have s: "v_pend u \<subseteq> dom (v_th u)" by (auto simp: v_pend_def)
  then show "finite (v_pend u)" using f by (rule finite_subset)
  have "card (v_pend u) \<le> card (dom (v_th u))" using f s by (rule card_mono)
  with assms show "card (v_pend u) < 2 ^ 32" by (simp add: vgood_def)
qed

lemma v_count_refl: "v_count u u"
  by (simp add: v_count_def)

lemma v_count_trans:
  assumes "finite (v_pend u)" and "v_count u u1" and "v_count u1 u2"
  shows "v_count u u2"
proof -
  have s: "v_pend u1 \<subseteq> v_pend u" "v_pend u2 \<subseteq> v_pend u1" using assms(2,3) by (auto simp: v_count_def)
  have "v_pend u - v_pend u2 = (v_pend u - v_pend u1) \<union> (v_pend u1 - v_pend u2)" using s by blast
  moreover have "card ((v_pend u - v_pend u1) \<union> (v_pend u1 - v_pend u2)) = card (v_pend u - v_pend u1) + card (v_pend u1 - v_pend u2)"
    using assms(1) s by (intro card_Un_disjoint) (auto intro: finite_subset)
  ultimately show ?thesis using assms(2,3) s by (auto simp: v_count_def)
qed

text \<open>A counter that did not move means that no task completed.\<close>

lemma v_count_still:
  assumes "v_count u u'" and "finite (v_pend u)" and "card (v_pend u) < 2 ^ 32" and "v_ncompleted u' = v_ncompleted u"
  shows "v_pend u' = v_pend u"
proof -
  let ?k = "card (v_pend u - v_pend u')"
  have "?k \<le> card (v_pend u)" using assms(2) by (intro card_mono) auto
  then have k: "?k < 2 ^ 32" using assms(3) by simp
  have "(of_nat ?k :: 32 word) = 0" using assms(1,4) by (simp add: v_count_def)
  then have "unat (of_nat ?k :: 32 word) = 0" by simp
  with k have "?k = 0" by (simp add: unat_of_nat take_bit_nat_eq_self)
  then have "v_pend u - v_pend u' = {}" using assms(2) by simp
  with assms(1) show ?thesis by (auto simp: v_count_def)
qed

subsection \<open>Access\<close>

lemma vt_Some [simp]: "v_th u t = Some x \<Longrightarrow> vt u t = x"
  by (simp add: vt_def)

lemma vs_Some [simp]: "v_sh u s = Some y \<Longrightarrow> vs u s = y"
  by (simp add: vs_def)

lemma chk_vt_Some [simp]: "v_th u t = Some x \<Longrightarrow> chk_vt t u = u"
  by (simp add: chk_vt_def)

lemma chk_vs_Some [simp]: "v_sh u s = Some y \<Longrightarrow> chk_vs s u = u"
  by (simp add: chk_vs_def)

lemma upd_vt_Some [simp]: "v_th u t = Some x \<Longrightarrow> upd_vt t f u = u\<lparr>v_th := (v_th u)(t \<mapsto> f x)\<rparr>"
  by (simp add: upd_vt_def)

lemma upd_vs_Some [simp]: "v_sh u s = Some y \<Longrightarrow> upd_vs s f u = u\<lparr>v_sh := (v_sh u)(s \<mapsto> f y)\<rparr>"
  by (simp add: upd_vs_def)

lemma free_vt_Some [simp]: "v_th u t = Some x \<Longrightarrow> free_vt t u = u\<lparr>v_th := (v_th u)(t := None)\<rparr>"
  by (simp add: free_vt_def)

lemma free_vs_Some [simp]: "v_sh u s = Some y \<Longrightarrow> free_vs s u = u\<lparr>v_sh := (v_sh u)(s := None)\<rparr>"
  by (simp add: free_vs_def)

lemma vt_more [simp]: "vt (u\<lparr>m_trace := tr\<rparr>) = vt u" "vs (u\<lparr>m_trace := tr\<rparr>) = vs u"
  by (simp_all add: vt_def vs_def fun_eq_iff)

subsection \<open>Calls\<close>

text \<open>The state after a call to libuv: one event more.\<close>

definition v_log :: "os \<Rightarrow> uv_call \<Rightarrow> uv_io \<Rightarrow> uv_io" where
  "v_log os c u = u\<lparr>m_trace := (C_uv c, os (m_trace u) (C_uv c)) # m_trace u\<rparr>"

abbreviation v_ans :: "os \<Rightarrow> uv_call \<Rightarrow> uv_io \<Rightarrow> answer" where
  "v_ans os c u \<equiv> os (m_trace u) (C_uv c)"

lemma uv_eq: "uv os c u = (v_ans os c u, v_log os c u)"
  by (simp add: uv_def sys_call_def v_log_def Let_def)

lemma uv_do_eq: "uv_do os c u = v_log os c u"
  by (simp add: uv_do_def uv_eq)

lemma v_log_simps [simp]:
  "v_th (v_log os c u) = v_th u" "v_sh (v_log os c u) = v_sh u" "v_pnode (v_log os c u) = v_pnode u"
  "m_brk (v_log os c u) = m_brk u" "m_fault (v_log os c u) = m_fault u" "v_ncompleted (v_log os c u) = v_ncompleted u"
  "v_errbuf (v_log os c u) = v_errbuf u"
  "uv_state (m_trace (v_log os c u)) = uv_effect c (v_ans os c u) (vl u)"
  "uv_disciplined (m_trace (v_log os c u)) = (uv_call_ok (vl u) c \<and> uv_disciplined (m_trace u))"
  "v_allocs (m_trace (v_log os c u)) = v_allocs (m_trace u)"
  "v_pend (v_log os c u) = v_pend u" "vt (v_log os c u) = vt u" "vs (v_log os c u) = vs u"
  by (simp_all add: v_log_def v_pend_def)

lemma v_pend_log_simps [simp]:
  "v_pend (u\<lparr>v_sh := sh\<rparr>) = v_pend u" "v_pend (u\<lparr>v_pnode := nx\<rparr>) = v_pend u" "v_pend (u\<lparr>v_ncompleted := n\<rparr>) = v_pend u"
  "v_pend (u\<lparr>m_trace := tr\<rparr>) = v_pend u"
  by (simp_all add: v_pend_def)

lemma vgood_log:
  assumes "vgood T D Q u" and "uv_call_ok (vl u) c"
    and "vcore T' D' (m_brk u) (v_th u) (v_sh u) Q' (uv_effect c (v_ans os c u) (vl u))"
    and "\<And>s. tcp_is_open (uv_effect c (v_ans os c u) (vl u)) s \<Longrightarrow> v_sh u s \<noteq> None \<Longrightarrow> tcp_is_open (vl u) s \<and> Q' s = Q s"
  shows "vgood T' D' Q' (v_log os c u)"
  using assms by (auto simp: vgood_def v_queued_def)

text \<open>A call that leaves the loop's state as it is.\<close>

lemma vgood_log_same:
  assumes "vgood T D Q u" and "uv_call_ok (vl u) c" and "uv_effect c (v_ans os c u) (vl u) = vl u"
  shows "vgood T D Q (v_log os c u)" "vkeeps S Q u Q (v_log os c u)"
  using assms by (auto simp: vgood_def v_queued_def vkeeps_def vkeep_refl)

lemma v_env_ok: "v_env os \<Longrightarrow> uv_ok os"
  by (simp add: v_env_def)

lemma uv_closing_tcp:
  "uv_ok os \<Longrightarrow> uv_disciplined (m_trace u) \<Longrightarrow> ul_tcp (vl u) s = Some st \<Longrightarrow>
    a_ret (v_ans os (Uv_is_closing (H_tcp s)) u) = 0 \<longleftrightarrow> st \<noteq> Tcp_closing"
  unfolding uv_ok_def by blast

lemma uv_closing_timer:
  "uv_ok os \<Longrightarrow> uv_disciplined (m_trace u) \<Longrightarrow> ul_timer (vl u) t = Some st \<Longrightarrow>
    a_ret (v_ans os (Uv_is_closing (H_timer t)) u) = 0 \<longleftrightarrow> st \<noteq> Timer_closing"
  unfolding uv_ok_def by blast

subsection \<open>Allocation\<close>

lemma vgood_alloc:
  assumes g: "vgood T D Q u" and e: "v_env os"
    and u: "(c, a) = (C_alloc, os (m_trace u) C_alloc)"
  shows "v_allocs ((c, a) # m_trace u) < 2 ^ 32" "uv_state ((c, a) # m_trace u) = vl u"
    "uv_disciplined ((c, a) # m_trace u)"
proof -
  have "v_allocs (m_trace u) \<ge> 2 ^ 32 - 1 \<Longrightarrow> a_ret a = 0" using e u by (simp add: v_env_def)
  then show "v_allocs ((c, a) # m_trace u) < 2 ^ 32"
    using g u by (cases "v_allocs (m_trace u) \<ge> 2 ^ 32 - 1") (auto simp: vgood_def)
qed (use g u in \<open>auto simp: vgood_def\<close>)

lemma vgood_task_new:
  assumes e: "v_env os" and g: "vgood T D Q u" and n: "v_task_new os u k = (p, u')"
  shows "case p of
      None \<Rightarrow> vgood T D Q u'
    | Some t \<Rightarrow> t = m_brk u \<and> v_th u t = None \<and> t \<notin> T \<and> vgood (insert t T) D Q u' \<and>
        v_th u' = (v_th u)(t \<mapsto> v_task0 k)"
    and "vkeeps S Q u Q u'" "v_sh u' = v_sh u" "v_pnode u' = v_pnode u" "vl u' = vl u" "v_ncompleted u' = v_ncompleted u"
    "p = None \<Longrightarrow> v_th u' = v_th u"
proof -
  let ?a = "os (m_trace u) C_alloc"
  note al = vgood_alloc [OF g e refl]
  note c = vgood_core [OF g]
  show "v_sh u' = v_sh u" "v_pnode u' = v_pnode u" "vl u' = vl u" "v_ncompleted u' = v_ncompleted u"
    "p = None \<Longrightarrow> v_th u' = v_th u"
    using n by (auto simp: v_task_new_def sys_alloc_def sys_call_def Let_def split: if_splits)
  show "vkeeps S Q u Q u'"
    using n vcore_new(3) [OF c, of S k]
    by (auto simp: v_task_new_def sys_alloc_def sys_call_def Let_def vkeeps_def vkeep_refl split: if_splits)
  show "case p of
      None \<Rightarrow> vgood T D Q u'
    | Some t \<Rightarrow> t = m_brk u \<and> v_th u t = None \<and> t \<notin> T \<and> vgood (insert t T) D Q u' \<and>
        v_th u' = (v_th u)(t \<mapsto> v_task0 k)"
  proof (cases "a_ret ?a = 0")
    case True
    with n have "p = None" and u': "u' = u\<lparr>m_trace := (C_alloc, ?a) # m_trace u\<rparr>"
      by (auto simp: v_task_new_def sys_alloc_def sys_call_def Let_def)
    with g al True show ?thesis by (simp add: vgood_def v_queued_def)
  next
    case False
    with n have p: "p = Some (m_brk u)" and u': "u' = u\<lparr>m_trace := (C_alloc, ?a) # m_trace u, m_brk := Suc (m_brk u),
        v_th := (v_th u)(m_brk u \<mapsto> v_task0 k)\<rparr>"
      by (auto simp: v_task_new_def sys_alloc_def sys_call_def Let_def)
    have nb: "v_th u (m_brk u) = None" by (rule vcore_new(1) [OF c])
    have "card (dom ((v_th u)(m_brk u \<mapsto> v_task0 k))) \<le> Suc (card (dom (v_th u)))"
      by (simp add: card_insert_if vgood_finite [OF g])
    then have "vgood (insert (m_brk u) T) D Q u'"
      using g al vcore_new(2) [OF c, of k] u' False by (simp add: vgood_def v_queued_def)
    with p nb u' vcore_no_task [OF c nb] show ?thesis by simp
  qed
qed

lemma vgood_sock_new:
  assumes e: "v_env os" and g: "vgood T D Q u" and n: "v_sock_new os u = (p, u')"
  shows "case p of
      None \<Rightarrow> vgood T D Q u' \<and> vkeeps S Q u Q u' \<and> vl u' = vl u \<and> v_sh u' = v_sh u
    | Some s \<Rightarrow> s = m_brk u \<and> vgood T D Q u' \<and> vkeeps S Q u Q u' \<and> v_sh u s = None \<and> v_sh u' = (v_sh u)(s \<mapsto> v_sock0) \<and>
        vl u' = (vl u)\<lparr>ul_tcp := (ul_tcp (vl u))(s \<mapsto> Tcp_open False False)\<rparr> \<and>
        (\<forall>t x. v_th u t = Some x \<longrightarrow> v_own x \<noteq> Some s) \<and> (\<forall>r. s \<notin> set (Q r)) \<and> Q s = []"
    and "v_th u' = v_th u" "v_ncompleted u' = v_ncompleted u"
proof -
  let ?a = "os (m_trace u) C_alloc"
  let ?l = "(vl u)\<lparr>ul_tcp := (ul_tcp (vl u))(m_brk u \<mapsto> Tcp_open False False)\<rparr>"
  note al = vgood_alloc [OF g e refl]
  note c = vgood_core [OF g]
  show "v_th u' = v_th u" "v_ncompleted u' = v_ncompleted u"
    using n by (auto simp: v_sock_new_def sys_alloc_def sys_call_def Let_def uv_do_eq split: if_splits)
  show "case p of
      None \<Rightarrow> vgood T D Q u' \<and> vkeeps S Q u Q u' \<and> vl u' = vl u \<and> v_sh u' = v_sh u
    | Some s \<Rightarrow> s = m_brk u \<and> vgood T D Q u' \<and> vkeeps S Q u Q u' \<and> v_sh u s = None \<and> v_sh u' = (v_sh u)(s \<mapsto> v_sock0) \<and>
        vl u' = (vl u)\<lparr>ul_tcp := (ul_tcp (vl u))(s \<mapsto> Tcp_open False False)\<rparr> \<and>
        (\<forall>t x. v_th u t = Some x \<longrightarrow> v_own x \<noteq> Some s) \<and> (\<forall>r. s \<notin> set (Q r)) \<and> Q s = []"
  proof (cases "a_ret ?a = 0")
    case True
    with n have "p = None" and u': "u' = u\<lparr>m_trace := (C_alloc, ?a) # m_trace u\<rparr>"
      by (auto simp: v_sock_new_def sys_alloc_def sys_call_def Let_def)
    with g al True show ?thesis by (simp add: vgood_def v_queued_def vkeeps_def vkeep_refl)
  next
    case False
    define u1 where "u1 = u\<lparr>m_trace := (C_alloc, ?a) # m_trace u, m_brk := Suc (m_brk u),
        v_sh := (v_sh u)(m_brk u \<mapsto> v_sock0), v_pnode := (v_pnode u)(m_brk u := None)\<rparr>"
    with False n have p: "p = Some (m_brk u)" and u': "u' = v_log os (Uv_tcp_init (m_brk u)) u1"
      by (auto simp: v_sock_new_def sys_alloc_def sys_call_def Let_def uv_do_eq)
    note new = vcore_sock_new [OF c refl]
    have l1: "vl u1 = vl u" by (simp add: u1_def)
    have q: "v_queued u' Q"
      unfolding v_queued_def
    proof (intro allI impI)
      fix s y
      assume s: "v_sh u' s = Some y" "tcp_is_open (vl u') s"
      show "wq_list (v_pnode u') (vs_pending y) (Q s)"
      proof (cases "s = m_brk u")
        case True
        with s(1) have "y = v_sock0" by (simp add: u' u1_def)
        with True new(6) show ?thesis by (simp add: v_sock0_def)
      next
        case False
        with s have "v_sh u s = Some y" "tcp_is_open (vl u) s" by (auto simp: u' u1_def l1 tcp_is_open_def)
        from vgood_queue [OF g this] new(5) show ?thesis by (simp add: u' u1_def wq_list_frame)
      qed
    qed
    have d: "uv_call_ok (vl u1) (Uv_tcp_init (m_brk u))" using vcore_no_sock [OF c new(1)] by (simp add: l1)
    have "vgood T D Q u'"
      using g al new(2) q d False by (simp add: vgood_def u' l1) (simp add: u1_def)
    moreover have "vkeeps S Q u Q u'" using new(3) [of S] by (simp add: vkeeps_def u' l1) (simp add: u1_def)
    ultimately show ?thesis using p new(1,4,5,6) by (simp add: u' l1) (simp add: u1_def)
  qed
qed

subsection \<open>Starting to close a socket\<close>

lemma vgood_sock_destroy:
  assumes e: "v_env os" and g: "vgood T D Q u" and s: "v_sh u s = Some y" "s \<notin> D" "\<And>r. s \<notin> set (Q r)"
    and cn: "\<And>t x. v_th u t = Some x \<Longrightarrow> vt_kind x = VTASK_CONNECT \<Longrightarrow> \<not> vt_done x \<Longrightarrow> t \<notin> T \<Longrightarrow> vt_sock x = Some s \<Longrightarrow>
      vt_connecting x"
    and nk: "\<And>t x. v_th u t = Some x \<Longrightarrow> v_held x \<Longrightarrow> t \<notin> S \<Longrightarrow> res_ptr (vt_res x) = Some s \<Longrightarrow>
      \<not> vusable (v_th u) (v_sh u) Q (vl u) s"
  shows "vgood T D (Q(s := [])) (v_sock_destroy os u s)" (is "vgood _ _ ?Q ?u")
    "vkeeps S Q u (Q(s := [])) (v_sock_destroy os u s)"
    "v_th (v_sock_destroy os u s) = v_th u" "v_sh (v_sock_destroy os u s) = v_sh u"
    "v_ncompleted (v_sock_destroy os u s) = v_ncompleted u" "m_brk (v_sock_destroy os u s) = m_brk u"
    "vl (v_sock_destroy os u s) = (vl u)\<lparr>ul_tcp := (ul_tcp (vl u))(s \<mapsto> Tcp_closing)\<rparr>"
proof -
  let ?c = "Uv_is_closing (H_tcp s)"
  let ?u1 = "v_log os ?c u"
  note c = vgood_core [OF g]
  from vcore_sock [OF c s(1)] s(2) obtain st where st: "ul_tcp (vl u) s = Some st" by (auto simp: vsock_def)
  have ok: "uv_call_ok (vl u) ?c" using st by (simp add: tcp_live_def)
  have same: "uv_effect ?c (v_ans os ?c u) (vl u) = vl u" by simp
  note g1 = vgood_log_same [where os = os and c = ?c, OF g ok same]
  have d: "v_sock_destroy os u s = (if st = Tcp_closing then ?u1 else v_log os (Uv_close (H_tcp s)) ?u1)"
    using uv_closing_tcp [OF v_env_ok [OF e] vgood_disc [OF g] st] s(1)
    by (simp add: v_sock_destroy_def uv_eq uv_do_eq)
  show "v_th ?u = v_th u" "v_sh ?u = v_sh u" "v_ncompleted ?u = v_ncompleted u" "m_brk ?u = m_brk u" by (simp_all add: d)
  show l: "vl ?u = (vl u)\<lparr>ul_tcp := (ul_tcp (vl u))(s \<mapsto> Tcp_closing)\<rparr>"
    using st by (simp add: d fun_upd_idem)
  have sub: "set (?Q r) \<subseteq> set (Q r)" for r by simp
  show "vgood T D ?Q ?u"
  proof (cases "st = Tcp_closing")
    case True
    then have "\<not> tcp_is_open (vl u) s" using st by (simp add: tcp_is_open_def)
    from vcore_closed_queue [OF c this] have "?Q = Q" by (simp add: fun_upd_idem)
    with True d g1(1) show ?thesis by simp
  next
    case False
    then obtain r k where rk: "st = Tcp_open r k" by (cases st) auto
    have op: "tcp_is_open (vl ?u1) s" using st rk by (simp add: tcp_is_open_def)
    let ?l = "(vl u)\<lparr>ul_tcp := (ul_tcp (vl u))(s \<mapsto> Tcp_closing)\<rparr>"
    have "vcore T D (m_brk u) (v_th u) (v_sh u) ?Q ?l"
    proof (rule vcore_tcp [OF vcore_park_sub [OF c sub] s(1)])
      show "tcp_off s (vl u) ?l" by (simp add: tcp_off_def)
      show "vsock D (m_brk u) ?l s y" using vcore_sock [OF c s(1)] s(2) by (simp add: vsock_def)
    qed (use cn s(3) in \<open>auto split: if_splits\<close>)
    then have "vgood T D ?Q (v_log os (Uv_close (H_tcp s)) ?u1)"
      by (intro vgood_log [OF g1(1)]) (use op in \<open>auto simp: tcp_is_open_def split: if_splits\<close>)
    with False d show ?thesis by simp
  qed
  show "vkeeps S Q u ?Q ?u"
    unfolding vkeeps_def
  proof (rule vkeep_trans)
    show "vkeep S (v_th u) (v_sh u) Q (vl u) (v_th u) ((v_sh u)(s \<mapsto> y)) Q (vl ?u)"
      by (rule vkeep_sock [of "v_sh u", OF s(1)]) (use nk in \<open>auto simp: l\<close>)
    show "vkeep S (v_th u) ((v_sh u)(s \<mapsto> y)) Q (vl ?u) (v_th ?u) (v_sh ?u) ?Q (vl ?u)"
      unfolding \<open>v_th ?u = v_th u\<close> \<open>v_sh ?u = v_sh u\<close> fun_upd_idem [of "v_sh u", OF s(1)]
      by (rule vkeep_park) (auto split: if_splits)
  qed
qed

subsection \<open>Completing a task\<close>

lemma vgood_heap:
  assumes "vgood T D Q u" and "vcore T' D (m_brk u) th (v_sh u) Q (vl u)" and "dom th \<subseteq> dom (v_th u)"
  shows "vgood T' D Q (u\<lparr>v_th := th, v_ncompleted := n\<rparr>)"
proof -
  have "card (dom th) \<le> card (dom (v_th u))" using vgood_finite(1) [OF assms(1)] assms(3) by (rule card_mono)
  with assms(1,2) show ?thesis by (simp add: vgood_def v_queued_def)
qed

lemma v_sock_destroy_th:
  "v_sock_destroy os (u\<lparr>v_th := th, v_ncompleted := n\<rparr>) s = (v_sock_destroy os u s)\<lparr>v_th := th, v_ncompleted := n\<rparr>"
  by (simp add: v_sock_destroy_def chk_vs_def m_flag_def uv_eq uv_do_eq v_log_def)

text \<open>
  A task in transit completes: if its owner still holds it, it stays with its result;
  if it was detached, a socket it won is closed and its memory goes, for a timer when
  its handle has closed.
\<close>

definition v_settles :: "addr set \<Rightarrow> addr set \<Rightarrow> vqueues \<Rightarrow> uv_io \<Rightarrow> addr \<Rightarrow> uv_task \<Rightarrow> uv_task \<Rightarrow> bool" where
  "v_settles T D Q u t x x1 \<longleftrightarrow> t \<in> T \<and> v_th u t = Some x \<and> \<not> vt_done x \<and>
     vt_kind x1 = vt_kind x \<and> vt_detached x1 = vt_detached x \<and> vt_free_on_close x1 = vt_free_on_close x \<and>
     vt_timer_closed x1 = vt_timer_closed x \<and> res_status (vt_res x1) \<noteq> MYIO_PENDING \<and>
     (vt_kind x = VTASK_TIMER \<longrightarrow> ul_timer (vl u) t = Some Timer_closing) \<and>
     (\<forall>s. res_ptr (vt_res x1) = Some s \<longrightarrow> vt_kind x \<in> {VTASK_CONNECT, VTASK_ACCEPT} \<and> s < m_brk u \<and> v_sh u s \<noteq> None \<and>
        s \<notin> D \<and> tcp_is_open (vl u) s \<and> (\<forall>r. s \<notin> set (Q r)) \<and>
        (\<forall>q z. v_th u q = Some z \<longrightarrow> q \<noteq> t \<longrightarrow> v_own z \<noteq> Some s))"

abbreviation v_over :: "uv_task \<Rightarrow> uv_task" where
  "v_over x \<equiv> x\<lparr>vt_done := True\<rparr>"

lemma v_settlesD:
  assumes "v_settles T D Q u t x x1"
  shows "t \<in> T" "v_th u t = Some x" "\<not> vt_done x" "vt_kind x1 = vt_kind x" "vt_detached x1 = vt_detached x"
    "vt_free_on_close x1 = vt_free_on_close x" "vt_timer_closed x1 = vt_timer_closed x" "res_status (vt_res x1) \<noteq> MYIO_PENDING"
    "vt_kind x = VTASK_TIMER \<Longrightarrow> ul_timer (vl u) t = Some Timer_closing"
    "\<And>s. res_ptr (vt_res x1) = Some s \<Longrightarrow> vt_kind x \<in> {VTASK_CONNECT, VTASK_ACCEPT} \<and> s < m_brk u \<and> v_sh u s \<noteq> None \<and>
      s \<notin> D \<and> tcp_is_open (vl u) s \<and> (\<forall>r. s \<notin> set (Q r)) \<and> (\<forall>q z. v_th u q = Some z \<longrightarrow> q \<noteq> t \<longrightarrow> v_own z \<noteq> Some s)"
  using assms by (auto simp: v_settles_def)

lemma v_settles_task:
  assumes "vgood T D Q u" and "v_settles T D Q u t x x1"
  shows "\<not> vt_free_on_close x" "\<not> vt_timer_closed x" "t < m_brk u" "ul_req (vl u) t = None"
    "vt_kind x \<noteq> VTASK_TIMER \<Longrightarrow> ul_timer (vl u) t = None"
  using vcore_task [OF vgood_core [OF assms(1)] v_settlesD(2) [OF assms(2)]] v_settlesD(1,3) [OF assms(2)]
  by (auto simp: vtask_def v_want_timer_def)

lemma v_finish_eq:
  assumes "v_settles T D Q u t x (f x)"
  shows "v_task_finish os (upd_vt t f u) t =
    (let w = u\<lparr>v_th := (v_th u)(t \<mapsto> v_over (f x)), v_ncompleted := v_ncompleted u + 1\<rparr>
     in if vt_detached x then v_task_reap os w t else w)"
proof -
  have "vt (u\<lparr>v_th := (v_th u)(t \<mapsto> v_over (f x)), v_ncompleted := v_ncompleted u + 1\<rparr>) t = v_over (f x)" by simp
  then show ?thesis using v_settlesD [OF assms] by (simp add: v_task_finish_def Let_def)
qed

text \<open>The completed task in the heap, as its owner sees it or as a timer about to be freed.\<close>

lemma v_settled_core:
  assumes g: "vgood T D Q u" and s: "v_settles T D Q u t x x1" and d: "vt_detached x \<Longrightarrow> vt_kind x = VTASK_TIMER"
    and x3: "x3 = x1\<lparr>vt_done := True, vt_free_on_close := vt_detached x\<rparr>"
  shows "vcore (T - {t}) D (m_brk u) ((v_th u)(t \<mapsto> x3)) (v_sh u) Q (vl u)"
proof (rule vcore_upd [OF vgood_core [OF g] v_settlesD(2) [OF s]])
  note sd = v_settlesD [OF s] and st = v_settles_task [OF g s]
  have own: "v_own x3 = res_ptr (vt_res x1)" by (simp add: x3 v_own_def)
  show "vtask (T - {t}) (m_brk u) (vl u) t x3"
    unfolding vtask_def own using st sd(1-9) d sd(10)
    by (cases "res_ptr (vt_res x1)") (auto simp: v_want_req_def v_want_timer_def x3)
  show "v_own x3 = v_own x \<or> v_own x3 = None \<or>
      (\<exists>k. v_own x3 = Some k \<and> (\<forall>q z. v_th u q = Some z \<longrightarrow> v_own z \<noteq> Some k) \<and> (\<forall>s. k \<notin> set (Q s)))"
  proof (cases "res_ptr (vt_res x1)")
    case (Some s)
    have "v_own z \<noteq> Some s" if "v_own x \<noteq> Some s" "v_th u q = Some z" for q z
      using that sd(10) [OF Some] sd(2) by (cases "q = t") auto
    with sd(10) [OF Some] own Some show ?thesis by metis
  qed (use own in auto)
qed (use v_settlesD [OF s] x3 in \<open>auto simp: loop_off_def\<close>)

lemma v_won_usable:
  assumes g: "vgood T D Q u" and s: "v_settles T D Q u t x x1" and r: "res_ptr (vt_res x1) = Some s" and x3: "vt_done x3"
  shows "vusable ((v_th u)(t \<mapsto> x3)) (v_sh u) Q (vl u) s"
proof -
  note w = v_settlesD(10) [OF s r]
  have "vt_sock z \<noteq> Some s" if z: "v_th u q = Some z" "q \<noteq> t" "vt_kind z = VTASK_CONNECT" "\<not> vt_done z" for q z
  proof
    assume "vt_sock z = Some s"
    with z vcore_task [OF vgood_core [OF g] z(1)] have "v_own z = Some s" by (simp add: v_own_def vtask_def)
    with w z show False by blast
  qed
  then show ?thesis using w x3 by (auto simp: vusable_def)
qed

lemma v_pend_upd: "v_th u t = Some x \<Longrightarrow> vt_done x3 \<Longrightarrow> v_pend (u\<lparr>v_th := (v_th u)(t \<mapsto> x3), v_ncompleted := n\<rparr>) = v_pend u - {t}"
  by (auto simp: v_pend_def)

lemma v_pend_del: "v_pend (u\<lparr>v_th := (v_th u)(t := None), v_ncompleted := n\<rparr>) = v_pend u - {t}"
  by (auto simp: v_pend_def)

text \<open>What every completion leaves alone, and that it is counted.\<close>

definition v_settled :: "uv_io \<Rightarrow> addr \<Rightarrow> uv_io \<Rightarrow> bool" where
  "v_settled u t u' \<longleftrightarrow> v_sh u' = v_sh u \<and> v_pnode u' = v_pnode u \<and> m_brk u' = m_brk u \<and>
     v_ncompleted u' = v_ncompleted u + 1 \<and> v_pend u' = v_pend u - {t} \<and> (\<forall>q. q \<noteq> t \<longrightarrow> v_th u' q = v_th u q) \<and>
     ul_req (vl u') = ul_req (vl u) \<and> ul_timer (vl u') = ul_timer (vl u)"

lemma settle_held:
  assumes g: "vgood T D Q u" and s: "v_settles T D Q u t x (f x)" and d: "\<not> vt_detached x"
    and u': "u' = v_task_finish os (upd_vt t f u) t"
  shows "vgood (T - {t}) D Q u'" "vkeeps {} Q u Q u'" "v_settled u t u'" "vl u' = vl u"
    "v_th u' t = Some (v_over (f x))" "m_trace u' = m_trace u"
proof -
  note sd = v_settlesD [OF s] and st = v_settles_task [OF g s]
  let ?x = "v_over (f x)"
  have a: "u' = u\<lparr>v_th := (v_th u)(t \<mapsto> ?x), v_ncompleted := v_ncompleted u + 1\<rparr>"
    using d by (simp add: u' v_finish_eq [where f = f, OF s] Let_def)
  have "?x = (f x)\<lparr>vt_done := True, vt_free_on_close := vt_detached x\<rparr>" using d st sd by (simp add: uv_task.equality)
  from v_settled_core [OF g s _ this] d have c: "vcore (T - {t}) D (m_brk u) ((v_th u)(t \<mapsto> ?x)) (v_sh u) Q (vl u)" by blast
  show "vgood (T - {t}) D Q u'" unfolding a by (rule vgood_heap [OF g c]) (use sd in auto)
  show "vkeeps {} Q u Q u'"
    unfolding a vkeeps_def using sd(3,4,5,6) st d v_won_usable [OF g s, of _ ?x]
    by simp (rule vkeep_upd [of "v_th u", OF sd(2)], auto simp: v_held_def)
  show "v_settled u t u'" "vl u' = vl u" "v_th u' t = Some ?x" "m_trace u' = m_trace u"
    unfolding v_settled_def a using v_pend_upd [of u, OF sd(2), of ?x] by simp_all
qed

lemma settle_timer:
  assumes e: "v_env os" and g: "vgood T D Q u" and s: "v_settles T D Q u t x (f x)" and d: "vt_detached x" "vt_kind x = VTASK_TIMER"
    and u': "u' = v_task_finish os (upd_vt t f u) t"
  shows "vgood (T - {t}) D Q u'" "vkeeps {} Q u Q u'" "v_settled u t u'" "vl u' = vl u"
proof -
  note sd = v_settlesD [OF s] and st = v_settles_task [OF g s]
  let ?x = "(f x)\<lparr>vt_done := True, vt_free_on_close := vt_detached x\<rparr>"
  let ?w = "u\<lparr>v_th := (v_th u)(t \<mapsto> ?x), v_ncompleted := v_ncompleted u + 1\<rparr>"
  let ?c = "Uv_is_closing (H_timer t)"
  have r: "res_ptr (vt_res (f x)) = None" using sd(10) d(2) by (cases "res_ptr (vt_res (f x))") auto
  have cl: "a_ret (v_ans os ?c ?w) \<noteq> 0"
    using uv_closing_timer [OF v_env_ok [OF e] vgood_disc [OF g], of t Timer_closing] sd(9) d(2) by simp
  have a: "u' = v_log os ?c ?w"
    using d sd(4-7) st r cl
    by (simp add: u' v_finish_eq [where f = f, OF s] Let_def v_task_reap_def v_release_def uv_eq v_log_def)
  have c: "vcore (T - {t}) D (m_brk u) ((v_th u)(t \<mapsto> ?x)) (v_sh u) Q (vl u)"
    by (rule v_settled_core [OF g s _ refl]) (rule d(2))
  have gw: "vgood (T - {t}) D Q ?w" by (rule vgood_heap [OF g c]) (use sd in auto)
  show "vgood (T - {t}) D Q u'" unfolding a by (rule vgood_log_same [OF gw]) (use sd(9) d(2) in simp_all)
  show "vkeeps {} Q u Q u'"
    unfolding a vkeeps_def using sd d st
    by simp (rule vkeep_upd [of "v_th u", OF sd(2)], auto simp: v_held_def)
  show "v_settled u t u'" "vl u' = vl u"
    unfolding v_settled_def a using v_pend_upd [of u, OF sd(2), of ?x] by simp_all
qed

lemma settle_gone:
  assumes e: "v_env os" and g: "vgood T D Q u" and s: "v_settles T D Q u t x (f x)" and d: "vt_detached x" "vt_kind x \<noteq> VTASK_TIMER"
    and u': "u' = v_task_finish os (upd_vt t f u) t"
  shows "\<exists>Q'. vgood (T - {t}) D Q' u' \<and> vkeeps {} Q u Q' u' \<and> v_settled u t u' \<and>
    (res_ptr (vt_res (f x)) = None \<longrightarrow> vl u' = vl u \<and> Q' = Q)"
proof -
  note sd = v_settlesD [OF s] and st = v_settles_task [OF g s]
  define u0 where "u0 = (case res_ptr (vt_res (f x)) of Some s \<Rightarrow> v_sock_destroy os u s | None \<Rightarrow> u)"
  define Q' where "Q' = (case res_ptr (vt_res (f x)) of Some s \<Rightarrow> Q(s := []) | None \<Rightarrow> Q)"
  have "vgood T D Q' u0 \<and> vkeeps {} Q u Q' u0 \<and> v_th u0 = v_th u \<and> v_sh u0 = v_sh u \<and> v_pnode u0 = v_pnode u \<and>
      m_brk u0 = m_brk u \<and> v_ncompleted u0 = v_ncompleted u \<and> ul_req (vl u0) = ul_req (vl u) \<and> ul_timer (vl u0) = ul_timer (vl u) \<and>
      (res_ptr (vt_res (f x)) = None \<longrightarrow> u0 = u \<and> Q' = Q)"
  proof (cases "res_ptr (vt_res (f x))")
    case None
    then show ?thesis using g by (simp add: u0_def Q'_def vkeeps_refl)
  next
    case (Some s)
    note w = sd(10) [OF Some]
    then obtain y where y: "v_sh u s = Some y" by blast
    have other: "v_own z \<noteq> Some s" if "v_th u q = Some z" "q \<noteq> t" for q z using w that by blast
    have own: "v_own z = Some s" if "v_th u q = Some z" "vt_kind z = VTASK_CONNECT" "\<not> vt_done z" "vt_sock z = Some s" for q z
      using vcore_task [OF vgood_core [OF g] that(1)] that by (simp add: v_own_def vtask_def)
    have "vt_connecting z" if "v_th u q = Some z" "vt_kind z = VTASK_CONNECT" "\<not> vt_done z" "q \<notin> T" "vt_sock z = Some s" for q z
      using other [of q z] own [of q z] that sd(1) by auto
    moreover have "\<not> vusable (v_th u) (v_sh u) Q (vl u) s" if "v_th u q = Some z" "v_held z" "res_ptr (vt_res z) = Some s" for q z
      using other [of q z] that sd(2) d(1) by (cases "q = t") (auto simp: v_own_def v_held_def)
    ultimately have h: "vgood T D (Q(s := [])) (v_sock_destroy os u s)" "vkeeps {} Q u (Q(s := [])) (v_sock_destroy os u s)"
      "v_th (v_sock_destroy os u s) = v_th u" "v_sh (v_sock_destroy os u s) = v_sh u"
      "v_ncompleted (v_sock_destroy os u s) = v_ncompleted u" "m_brk (v_sock_destroy os u s) = m_brk u"
      "vl (v_sock_destroy os u s) = (vl u)\<lparr>ul_tcp := (ul_tcp (vl u))(s \<mapsto> Tcp_closing)\<rparr>"
      using vgood_sock_destroy [OF e g y, of "{}"] w by auto
    have "v_pnode (v_sock_destroy os u s) = v_pnode u" using y by (simp add: v_sock_destroy_def uv_eq uv_do_eq)
    with h Some show ?thesis by (simp add: u0_def Q'_def)
  qed
  then have Q': "vgood T D Q' u0" "vkeeps {} Q u Q' u0" "v_th u0 = v_th u" "v_sh u0 = v_sh u" "v_pnode u0 = v_pnode u"
    "m_brk u0 = m_brk u" "v_ncompleted u0 = v_ncompleted u" "ul_req (vl u0) = ul_req (vl u)" "ul_timer (vl u0) = ul_timer (vl u)"
    "res_ptr (vt_res (f x)) = None \<longrightarrow> u0 = u \<and> Q' = Q" by simp_all
  have a: "u' = u0\<lparr>v_th := (v_th u0)(t := None), v_ncompleted := v_ncompleted u0 + 1\<rparr>"
  proof -
    let ?w = "u\<lparr>v_th := (v_th u)(t \<mapsto> v_over (f x)), v_ncompleted := v_ncompleted u + 1\<rparr>"
    let ?wd = "u0\<lparr>v_th := (v_th u)(t \<mapsto> v_over (f x)), v_ncompleted := v_ncompleted u + 1\<rparr>"
    have "(case res_ptr (vt_res (f x)) of Some s \<Rightarrow> v_sock_destroy os ?w s | None \<Rightarrow> ?w) = ?wd"
      by (simp add: u0_def v_sock_destroy_th split: option.splits)
    then have "v_task_reap os ?w t = v_release os ?wd t" by (simp add: v_task_reap_def)
    also have "\<dots> = ?wd\<lparr>v_th := (v_th u)(t := None)\<rparr>" using d sd by (simp add: v_release_def)
    finally show ?thesis using d Q'(3,7) by (simp add: u' v_finish_eq [where f = f, OF s] Let_def)
  qed
  have t0: "v_th u0 t = Some x" using Q'(3) sd(2) by simp
  have c: "vcore (T - {t}) D (m_brk u0) ((v_th u0)(t := None)) (v_sh u0) Q' (vl u0)"
    by (rule vcore_del [OF vgood_core [OF Q'(1)] t0]) (use Q' st d sd in \<open>auto simp: loop_off_def\<close>)
  have "vgood (T - {t}) D Q' u'" unfolding a by (rule vgood_heap [OF Q'(1) c]) auto
  moreover have "vkeeps {} Q u Q' u'"
  proof (rule vkeeps_trans [OF Q'(2)])
    show "vkeeps {} Q' u0 Q' u'"
      unfolding a vkeeps_def by simp (rule vkeep_del [of "v_th u0", OF t0], use d(1) in \<open>auto simp: v_held_def\<close>)
  qed
  moreover have "v_settled u t u'"
  proof -
    have "v_pend u0 = v_pend u" using Q'(3) by (simp add: v_pend_def)
    then have "v_pend u' = v_pend u - {t}" unfolding a by (simp only: v_pend_del)
    then show ?thesis unfolding v_settled_def a using Q' by simp
  qed
  ultimately show ?thesis using Q'(10) by (intro exI [of _ Q']) (simp add: a)
qed

lemma vgood_settle:
  assumes e: "v_env os" and g: "vgood T D Q u" and s: "v_settles T D Q u t x (f x)" and u': "u' = v_task_finish os (upd_vt t f u) t"
  shows "\<exists>Q'. vgood (T - {t}) D Q' u' \<and> vkeeps {} Q u Q' u' \<and> v_settled u t u' \<and>
    (res_ptr (vt_res (f x)) = None \<longrightarrow> vl u' = vl u \<and> Q' = Q) \<and>
    (\<not> vt_detached x \<longrightarrow> v_th u' t = Some (v_over (f x)) \<and> vl u' = vl u)"
proof (cases "vt_detached x")
  case False
  from settle_held [where f = f, OF g s False u'] show ?thesis by (intro exI [of _ Q]) simp
next
  case True
  show ?thesis
  proof (cases "vt_kind x = VTASK_TIMER")
    case k: True
    from settle_timer [where f = f, OF e g s True k u'] True show ?thesis by (intro exI [of _ Q]) simp
  next
    case False
    from settle_gone [where f = f, OF e g s True False u'] True show ?thesis by simp
  qed
qed

lemma v_complete_res_simps [simp]:
  "res_status (v_complete_res r res) \<noteq> MYIO_PENDING" "res_ptr (v_complete_res r res) = res_ptr res"
  by (simp_all add: v_complete_res_def)

lemma v_complete_status:
  "r \<ge> 0 \<Longrightarrow> v_complete_res r res = res\<lparr>res_status := MYIO_OK, res_value := r\<rparr>"
  "v_complete_res UV_ECANCELED res = res\<lparr>res_status := MYIO_CANCELED\<rparr>"
  by (simp_all add: v_complete_res_def UV_ECANCELED_def)

text \<open>A task that wins no socket completes with a result of libuv, or with an error of its own.\<close>

lemma v_settlesI:
  assumes g: "vgood T D Q u" and t: "t \<in> T" "v_th u t = Some x" "vt_kind x = VTASK_TIMER \<Longrightarrow> ul_timer (vl u) t = Some Timer_closing"
    and f: "f x = x\<lparr>vt_res := r\<rparr>" "res_status r \<noteq> MYIO_PENDING" "res_ptr r = res_ptr (vt_res x)"
  shows "v_settles T D Q u t x (f x)" "res_ptr (vt_res (f x)) = None" "\<not> vt_done x"
proof -
  from vcore_task [OF vgood_core [OF g] t(2)] t(1) show n: "\<not> vt_done x" by (auto simp: vtask_def)
  from vcore_task [OF vgood_core [OF g] t(2)] n have "res_ptr (vt_res x) = None" by (simp add: vtask_def)
  with f show "res_ptr (vt_res (f x)) = None" by simp
  with t f n show "v_settles T D Q u t x (f x)" by (auto simp: v_settles_def)
qed

definition v_completes :: "addr set \<Rightarrow> addr set \<Rightarrow> vqueues \<Rightarrow> uv_io \<Rightarrow> addr \<Rightarrow> uv_task \<Rightarrow> myio_result \<Rightarrow> uv_io \<Rightarrow> bool" where
  "v_completes T D Q u t x r u' \<longleftrightarrow> vgood (T - {t}) D Q u' \<and> vkeeps {} Q u Q u' \<and> v_settled u t u' \<and> vl u' = vl u \<and>
     (\<not> vt_detached x \<longrightarrow> v_th u' t = Some (x\<lparr>vt_res := r, vt_done := True\<rparr>))"

lemma vgood_complete:
  assumes "v_env os" and "vgood T D Q u" and "t \<in> T" and "v_th u t = Some x"
    and "vt_kind x = VTASK_TIMER \<Longrightarrow> ul_timer (vl u) t = Some Timer_closing"
  shows "v_completes T D Q u t x (v_complete_res r (vt_res x)) (v_task_complete os u t r)"
proof -
  let ?f = "\<lambda>x. x\<lparr>vt_res := v_complete_res r (vt_res x)\<rparr>"
  have s: "v_settles T D Q u t x (?f x)" "res_ptr (vt_res (?f x)) = None"
    by (rule v_settlesI [where f = ?f, OF assms(2-5) refl]; simp)+
  from vgood_settle [where f = ?f, OF assms(1,2) s(1) refl] s(2)
  show ?thesis unfolding v_completes_def v_task_complete_def by auto
qed

lemma vgood_error:
  assumes "v_env os" and "vgood T D Q u" and "t \<in> T" and "v_th u t = Some x" and "vt_kind x \<noteq> VTASK_TIMER"
  shows "v_completes T D Q u t x ((vt_res x)\<lparr>res_status := MYIO_ERROR, res_error := er\<rparr>) (v_task_error os u t er)"
proof -
  let ?f = "\<lambda>x. x\<lparr>vt_res := (vt_res x)\<lparr>res_status := MYIO_ERROR, res_error := er\<rparr>\<rparr>"
  have s: "v_settles T D Q u t x (?f x)" "res_ptr (vt_res (?f x)) = None"
    by (rule v_settlesI [where f = ?f, OF assms(2-4) _ refl]; use assms(5) in simp)+
  from vgood_settle [where f = ?f, OF assms(1,2) s(1) refl] s(2)
  show ?thesis unfolding v_completes_def v_task_error_def by auto
qed

lemma v_completesD:
  assumes "v_completes T D Q u t x r u'"
  shows "vgood (T - {t}) D Q u'" "vkeeps {} Q u Q u'" "v_settled u t u'" "vl u' = vl u"
    "\<not> vt_detached x \<Longrightarrow> v_th u' t = Some (x\<lparr>vt_res := r, vt_done := True\<rparr>)"
    "v_sh u' = v_sh u" "v_pnode u' = v_pnode u" "\<And>q. q \<noteq> t \<Longrightarrow> v_th u' q = v_th u q" "v_pend u' = v_pend u - {t}"
    "v_ncompleted u' = v_ncompleted u + 1"
  using assms by (auto simp: v_completes_def v_settled_def)

lemma v_settled_count:
  assumes "v_settled u t u'" and "t \<in> v_pend u"
  shows "v_count u u'"
proof -
  have "v_pend u - v_pend u' = {t}" using assms by (auto simp: v_settled_def)
  with assms show ?thesis by (auto simp: v_count_def v_settled_def)
qed

lemma v_pendI: "vgood T D Q u \<Longrightarrow> t \<in> T \<Longrightarrow> v_th u t = Some x \<Longrightarrow> t \<in> v_pend u"
  using vcore_task [OF vgood_core, of T D Q u t x] by (auto simp: v_pend_def vtask_def)

lemma v_count_same: "v_pend u' = v_pend u \<Longrightarrow> v_ncompleted u' = v_ncompleted u \<Longrightarrow> v_count u u'"
  by (simp add: v_count_def)

end
