(* ===== verification/Myio_Uv_Events.thy ===== *)
theory Myio_Uv_Events
  imports Myio_Uv_Inv
begin

text \<open>
  The callbacks of the libuv backend keep its invariant, every task the
  caller holds and every result.
\<close>

subsection \<open>A task in transit\<close>

lemma vgood_upd_T:
  assumes g: "vgood T D Q u" and t: "t \<in> T" "v_th u t = Some x"
    and x': "vt_kind x' = vt_kind x" "vt_done x' = vt_done x" "vt_detached x' = vt_detached x" "vt_res x' = vt_res x"
      "vt_free_on_close x' = vt_free_on_close x" "vt_timer_closed x' = vt_timer_closed x"
    and sk: "vt_sock x' = vt_sock x \<or> vt_kind x = VTASK_CONNECT \<and> vt_sock x' = None \<or> vt_kind x \<noteq> VTASK_CONNECT"
  shows "vgood T D Q (u\<lparr>v_th := (v_th u)(t \<mapsto> x')\<rparr>)" "vkeeps S Q u Q (u\<lparr>v_th := (v_th u)(t \<mapsto> x')\<rparr>)"
proof -
  note c = vgood_core [OF g]
  have v: "vtask T (m_brk u) (vl u) t x" by (rule vcore_task [OF c t(2)])
  have own: "v_own x' = v_own x \<or> v_own x' = None" using x' sk by (auto simp: v_own_def)
  have vt: "vtask T (m_brk u) (vl u) t x'" using v x' t(1) own by (auto simp: vtask_def v_want_timer_def)
  have "vcore T D (m_brk u) ((v_th u)(t \<mapsto> x')) (v_sh u) Q (vl u)"
    by (rule vcore_upd [OF c t(2) _ refl vt x'(1)]) (use own x' t(1) in \<open>auto simp: loop_off_def\<close>)
  from vgood_heap [OF g this, of "v_ncompleted u"] t(2) show "vgood T D Q (u\<lparr>v_th := (v_th u)(t \<mapsto> x')\<rparr>)" by auto
  show "vkeeps S Q u Q (u\<lparr>v_th := (v_th u)(t \<mapsto> x')\<rparr>)"
    unfolding vkeeps_def by simp (rule vkeep_upd [of "v_th u", OF t(2)], use x' sk in \<open>auto simp: v_held_def\<close>)
qed

text \<open>A task leaves transit with a request or an armed timer.\<close>

lemma vgood_start:
  assumes g: "vgood T D Q u" and t: "t \<in> T" "v_th u t = Some x" "\<not> vt_done x" "\<not> v_pull (vt_kind x)"
    and l: "loop_off t (vl u) (uv_effect c (v_ans os c u) (vl u))" and ok: "uv_call_ok (vl u) c"
    and want: "ul_req (uv_effect c (v_ans os c u) (vl u)) t = v_want_req x"
      "ul_timer (uv_effect c (v_ans os c u) (vl u)) t = v_want_timer x"
    and k: "vt_kind x = VTASK_CONNECT \<Longrightarrow> vconn_ok (v_sh u) (vl u) x" "vt_kind x = VTASK_SOCK_WRITE \<Longrightarrow> vt_sock x \<noteq> None"
  shows "vgood (T - {t}) D Q (v_log os c u)" "vkeeps S Q u Q (v_log os c u)"
proof -
  let ?l = "uv_effect c (v_ans os c u) (vl u)"
  note co = vgood_core [OF g]
  have vt: "vtask (T - {t}) (m_brk u) ?l t x" using vcore_task [OF co t(2)] t want k(2) by (auto simp: vtask_def)
  have "vcore (T - {t}) D (m_brk u) ((v_th u)(t \<mapsto> x)) (v_sh u) Q ?l"
    by (rule vcore_upd [OF co t(2) l _ vt refl]) (use k(1) t(4) in auto)
  moreover have "(v_th u)(t \<mapsto> x) = v_th u" using t(2) by (simp add: fun_upd_idem)
  ultimately have "vcore (T - {t}) D (m_brk u) (v_th u) (v_sh u) Q ?l" by simp
  then show "vgood (T - {t}) D Q (v_log os c u)"
    by (rule vgood_log [OF g ok]) (use l in \<open>simp add: loop_off_def tcp_is_open_def\<close>)
  have "vkeep S (v_th u) (v_sh u) Q (vl u) ((v_th u)(t \<mapsto> x)) (v_sh u) Q ?l"
    by (rule vkeep_upd [of "v_th u", OF t(2)]) (use l in \<open>auto simp: loop_off_def\<close>)
  then show "vkeeps S Q u Q (v_log os c u)" using t(2) by (simp add: vkeeps_def fun_upd_idem)
qed

text \<open>libuv's callback for a request takes its task into transit.\<close>

lemma vcore_take:
  assumes c: "vcore T D b th sh Q l" and r: "ul_req l t = Some rq"
  shows "\<exists>x. th t = Some x \<and> \<not> vt_done x \<and> t \<notin> T \<and> v_want_req x = Some rq \<and> vcore (insert t T) D b th sh Q (uv_finish t l)"
proof -
  from r obtain x where x: "th t = Some x" using vcore_no_task [OF c, of t] by (cases "th t") auto
  note v = vcore_task [OF c x]
  from v r have w: "t \<notin> T" "v_want_req x = Some rq" "\<not> vt_done x" by (auto simp: vtask_def v_want_req_def split: if_splits)
  then have "\<not> v_pull (vt_kind x)" "vt_kind x \<noteq> VTASK_TIMER" by (auto simp: v_pull_def v_want_req_def)
  moreover from this v w have "vtask (insert t T) b (uv_finish t l) t x" by (auto simp: vtask_def uv_finish_def)
  ultimately have "vcore (insert t T) D b (th(t \<mapsto> x)) sh Q (uv_finish t l)"
    by (intro vcore_upd [OF c x]) (auto simp: loop_off_def uv_finish_def)
  with x w show ?thesis by (auto simp: fun_upd_idem)
qed

lemma vkeep_req: "ul_tcp l' = ul_tcp l \<Longrightarrow> vkeep S th sh Q l th sh Q l'"
  by (rule vkeepI) (auto simp: vusable_def tcp_is_open_def)

abbreviation v_event :: "os \<Rightarrow> uv_run_mode \<Rightarrow> uv_io \<Rightarrow> uv_io" where
  "v_event os m u \<equiv> v_log os (Uv_run m) u"

lemma v_event_loop: "a_cb (v_ans os (Uv_run m) u) = Some cb \<Longrightarrow> vl (v_event os m u) = uv_deliver cb (vl u)"
  by simp

lemma vgood_take:
  assumes g: "vgood {} {} Q u" and a: "a_cb (v_ans os (Uv_run m) u) = Some cb" and d: "uv_deliver cb (vl u) = uv_finish t (vl u)"
    and r: "ul_req (vl u) t = Some rq"
  shows "\<exists>x. v_th u t = Some x \<and> \<not> vt_done x \<and> v_want_req x = Some rq \<and> vgood {t} {} Q (v_event os m u) \<and>
    vkeeps {} Q u Q (v_event os m u)"
proof -
  from vcore_take [OF vgood_core [OF g] r] obtain x where x: "v_th u t = Some x" "\<not> vt_done x" "v_want_req x = Some rq"
    "vcore {t} {} (m_brk u) (v_th u) (v_sh u) Q (uv_finish t (vl u))" by auto
  have "vgood {t} {} Q (v_event os m u)"
    by (rule vgood_log [OF g]) (use x(4) a d in \<open>auto simp: tcp_is_open_def uv_finish_def\<close>)
  moreover have "vkeeps {} Q u Q (v_event os m u)"
    unfolding vkeeps_def using a d by (auto simp: uv_finish_def intro: vkeep_req)
  ultimately show ?thesis using x by blast
qed

subsection \<open>Callbacks of requests\<close>

text \<open>What a callback as a whole does.\<close>

definition v_turn :: "vqueues \<Rightarrow> uv_io \<Rightarrow> uv_io \<Rightarrow> bool" where
  "v_turn Q u u' \<longleftrightarrow> (\<exists>Q'. vgood {} {} Q' u' \<and> vkeeps {} Q u Q' u' \<and> v_count u u')"

lemma v_turnI: "vgood {} {} Q' u' \<Longrightarrow> vkeeps {} Q u Q' u' \<Longrightarrow> v_count u u' \<Longrightarrow> v_turn Q u u'"
  unfolding v_turn_def by blast

lemma v_turn_completes:
  assumes g: "vgood {t} {} Q1 u1" and k: "vkeeps {} Q u Q1 u1" and p: "v_pend u1 = v_pend u" "v_ncompleted u1 = v_ncompleted u"
    and t: "v_th u1 t = Some x" and c: "v_completes {t} {} Q1 u1 t x r u'"
  shows "v_turn Q u u'"
proof (rule v_turnI)
  note d = v_completesD [OF c]
  show "vgood {} {} Q1 u'" using d(1) by simp
  show "vkeeps {} Q u Q1 u'" by (rule vkeeps_trans [OF k d(2)])
  have "v_count u1 u'" by (rule v_settled_count [OF d(3) v_pendI [OF g _ t]]) simp
  then show "v_count u u'" using p by (simp add: v_count_def)
qed

lemma v_want_req_kind:
  "v_want_req x = Some Rq_fs \<Longrightarrow> vt_kind x = VTASK_FS"
  "v_want_req x = Some Rq_work \<Longrightarrow> vt_kind x = VTASK_SPAWN"
  "v_want_req x = Some Rq_gai \<Longrightarrow> vt_kind x = VTASK_CONNECT \<and> \<not> vt_connecting x"
  "v_want_req x = Some (Rq_write s) \<Longrightarrow> vt_kind x = VTASK_SOCK_WRITE \<and> vt_sock x = Some s"
  "v_want_req x = Some (Rq_connect s) \<Longrightarrow> vt_kind x = VTASK_CONNECT \<and> vt_connecting x \<and> vt_sock x = Some s"
  by (auto simp: v_want_req_def split: if_splits v_kind.splits)

lemma v_turn_fs:
  assumes e: "v_env os" and g: "vgood {} {} Q u" and a: "a_cb (v_ans os (Uv_run m) u) = Some (Cb_fs t r)"
    and may: "uv_may (vl u) (Cb_fs t r)"
  shows "v_turn Q u (v_fs_cb os (v_event os m u) t r)"
proof -
  from may have "ul_req (vl u) t = Some Rq_fs" by simp
  from vgood_take [where os = os and m = m, OF g a _ this] obtain x where x: "v_th u t = Some x" "\<not> vt_done x" "v_want_req x = Some Rq_fs"
    "vgood {t} {} Q (v_event os m u)" "vkeeps {} Q u Q (v_event os m u)" by auto
  have c: "v_completes {t} {} Q (v_event os m u) t x (v_complete_res r (vt_res x)) (v_task_complete os (v_event os m u) t r)"
    by (rule vgood_complete [OF e x(4)]) (use x v_want_req_kind(1) [OF x(3)] in auto)
  show ?thesis using v_turn_completes [OF x(4,5) _ _ _ c] x(1) by (simp add: v_fs_cb_def)
qed

lemma v_turn_write:
  assumes e: "v_env os" and g: "vgood {} {} Q u" and a: "a_cb (v_ans os (Uv_run m) u) = Some (Cb_write t r)"
    and may: "uv_may (vl u) (Cb_write t r)"
  shows "v_turn Q u (v_write_cb os (v_event os m u) t r)"
proof -
  from may obtain s where "ul_req (vl u) t = Some (Rq_write s)" by auto
  from vgood_take [where os = os and m = m, OF g a _ this] obtain x where x: "v_th u t = Some x" "\<not> vt_done x" "v_want_req x = Some (Rq_write s)"
    "vgood {t} {} Q (v_event os m u)" "vkeeps {} Q u Q (v_event os m u)" by auto
  let ?r = "if r < 0 then r else int (buf_len (vt_buf x))"
  have c: "v_completes {t} {} Q (v_event os m u) t x (v_complete_res ?r (vt_res x)) (v_task_complete os (v_event os m u) t ?r)"
    by (rule vgood_complete [OF e x(4)]) (use x v_want_req_kind(4) [OF x(3)] in auto)
  show ?thesis using v_turn_completes [OF x(4,5) _ _ _ c] x(1) by (simp add: v_write_cb_def Let_def split: if_splits)
qed

lemma v_turn_after_work:
  assumes e: "v_env os" and g: "vgood {} {} Q u" and a: "a_cb (v_ans os (Uv_run m) u) = Some (Cb_after_work t r)"
    and may: "uv_may (vl u) (Cb_after_work t r)"
  shows "v_turn Q u (v_after_work_cb os (v_event os m u) t r)"
proof -
  from may have "ul_req (vl u) t = Some Rq_work" by simp
  from vgood_take [where os = os and m = m, OF g a _ this] obtain x where x: "v_th u t = Some x" "\<not> vt_done x" "v_want_req x = Some Rq_work"
    "vgood {t} {} Q (v_event os m u)" "vkeeps {} Q u Q (v_event os m u)" by auto
  have k: "vt_kind x \<noteq> VTASK_TIMER" using v_want_req_kind(2) [OF x(3)] by simp
  have c: "v_completes {t} {} Q (v_event os m u) t x (v_complete_res q (vt_res x)) (v_task_complete os (v_event os m u) t q)" for q
    by (rule vgood_complete [OF e x(4)]) (use x k in auto)
  have d: "v_completes {t} {} Q (v_event os m u) t x ((vt_res x)\<lparr>res_status := MYIO_ERROR, res_error := er\<rparr>)
      (v_task_error os (v_event os m u) t er)" for er
    by (rule vgood_error [OF e x(4)]) (use x k in auto)
  have "v_turn Q u (v_task_complete os (v_event os m u) t q)" "v_turn Q u (v_task_error os (v_event os m u) t er)" for q er
    using v_turn_completes [OF x(4,5) _ _ _ c] v_turn_completes [OF x(4,5) _ _ _ d] x(1) by simp_all
  then show ?thesis using x(1) by (simp add: v_after_work_cb_def Let_def)
qed

subsection \<open>Callbacks of connects\<close>

text \<open>Until its connect is over, a socket belongs to the connect alone.\<close>

lemma vgood_conn_private:
  assumes g: "vgood T D Q u" and t: "v_th u t = Some x" "vt_kind x = VTASK_CONNECT" "\<not> vt_done x" "vt_sock x = Some s"
  shows "v_own x = Some s" "\<And>r. s \<notin> set (Q r)" "\<And>q z. v_th u q = Some z \<Longrightarrow> q \<noteq> t \<Longrightarrow> v_own z \<noteq> Some s"
    "\<And>q z. v_th u q = Some z \<Longrightarrow> res_ptr (vt_res z) \<noteq> Some s"
proof -
  note c = vgood_core [OF g]
  show own: "v_own x = Some s" using vcore_task [OF c t(1)] t by (simp add: v_own_def vtask_def)
  show "s \<notin> set (Q r)" for r using vcore_park [OF c, of s r] own t(1) by blast
  show o: "v_own z \<noteq> Some s" if "v_th u q = Some z" "q \<noteq> t" for q z using vcore_own [OF c t(1) own that(1)] that(2) by blast
  show "res_ptr (vt_res z) \<noteq> Some s" if "v_th u q = Some z" for q z
  proof
    assume r: "res_ptr (vt_res z) = Some s"
    then have "v_own z = Some s" by (simp add: v_own_def)
    with o [OF that] have "q = t" by blast
    with that t(1) r vcore_task [OF c t(1)] t(3) show False by (auto simp: vtask_def)
  qed
qed

lemma vgood_conn_destroy:
  assumes e: "v_env os" and g: "vgood T D Q u" and t: "t \<in> T" "v_th u t = Some x" "vt_kind x = VTASK_CONNECT" "\<not> vt_done x" "vt_sock x = Some s"
    and s: "v_sh u s = Some y" "s \<notin> D"
    and u': "u' = upd_vt t (\<lambda>x. x\<lparr>vt_sock := None\<rparr>) (v_sock_destroy_at os u (vt_sock x))"
  shows "vgood T D (Q(s := [])) u'" "vkeeps {} Q u (Q(s := [])) u'" "v_th u' = (v_th u)(t \<mapsto> x\<lparr>vt_sock := None\<rparr>)"
    "v_ncompleted u' = v_ncompleted u" "v_pend u' = v_pend u"
proof -
  let ?u = "v_sock_destroy os u s"
  note p = vgood_conn_private [OF g t(2-5)]
  have cn: "vt_connecting z" if "v_th u q = Some z" "vt_kind z = VTASK_CONNECT" "\<not> vt_done z" "q \<notin> T" "vt_sock z = Some s" for q z
    using vgood_conn_private(1) [OF g that(1-3) that(5)] p(3) [OF that(1)] that(4) t(1) by blast
  have nk: "\<not> vusable (v_th u) (v_sh u) Q (vl u) s" if "v_th u q = Some z" "v_held z" "q \<notin> {}" "res_ptr (vt_res z) = Some s" for q z
    using p(4) [OF that(1)] that(4) by simp
  have d: "vgood T D (Q(s := [])) ?u" "vkeeps {} Q u (Q(s := [])) ?u" "v_th ?u = v_th u" "v_ncompleted ?u = v_ncompleted u"
    by (rule vgood_sock_destroy [where S = "{}", OF e g s p(2)]; (rule cn nk; assumption))+
  have t': "v_th ?u t = Some x" using d(3) t(2) by simp
  have a: "u' = ?u\<lparr>v_th := (v_th ?u)(t \<mapsto> x\<lparr>vt_sock := None\<rparr>)\<rparr>" using t' t(5) by (simp add: u' v_sock_destroy_at_def)
  show "vgood T D (Q(s := [])) u'" unfolding a by (rule vgood_upd_T [OF d(1) t(1) t']) (use t(3) in auto)
  show "vkeeps {} Q u (Q(s := [])) u'"
    unfolding a by (rule vkeeps_trans [OF d(2)], rule vgood_upd_T [OF d(1) t(1) t']) (use t(3) in auto)
  show "v_th u' = (v_th u)(t \<mapsto> x\<lparr>vt_sock := None\<rparr>)" "v_ncompleted u' = v_ncompleted u" using a d(3,4) by simp_all
  then show "v_pend u' = v_pend u" using t(2,4) by (auto simp: v_pend_def)
qed

lemma v_turn_conn_failed:
  assumes e: "v_env os" and g: "vgood {t} {} Q u1" and k: "vkeeps {} Q u Q u1" "v_pend u1 = v_pend u" "v_ncompleted u1 = v_ncompleted u"
    and t: "v_th u1 t = Some x" "vt_kind x = VTASK_CONNECT" "\<not> vt_done x" "vt_sock x = Some s" and s: "v_sh u1 s \<noteq> None"
    and u2: "u2 = upd_vt t (\<lambda>x. x\<lparr>vt_sock := None\<rparr>) (v_sock_destroy_at os u1 (vt_sock x))"
  shows "v_turn Q u (v_task_complete os u2 t r)" "v_turn Q u (v_task_fail_gai os (v_log os Uv_freeaddrinfo u2) t r)"
proof -
  from s obtain y where y: "v_sh u1 s = Some y" by blast
  note d = vgood_conn_destroy [OF e g _ t y _ u2]
  have t2: "v_th u2 t = Some (x\<lparr>vt_sock := None\<rparr>)" using d(3) by simp
  have c: "v_completes {t} {} (Q(s := [])) u2 t (x\<lparr>vt_sock := None\<rparr>) (v_complete_res r (vt_res x)) (v_task_complete os u2 t r)"
    using vgood_complete [OF e d(1) _ t2, of r] t(2) by simp
  show "v_turn Q u (v_task_complete os u2 t r)"
    using v_turn_completes [OF d(1) vkeeps_trans [OF k(1) d(2)] _ _ t2 c] k(2,3) d(4,5) by simp
  let ?u = "v_log os Uv_freeaddrinfo u2"
  have f: "vgood {t} {} (Q(s := [])) ?u" "vkeeps {} (Q(s := [])) u2 (Q(s := [])) ?u"
    using vgood_log_same [OF d(1), of Uv_freeaddrinfo os] by simp_all
  have t3: "v_th ?u t = Some (x\<lparr>vt_sock := None\<rparr>)" using t2 by simp
  have c: "v_completes {t} {} (Q(s := [])) ?u t (x\<lparr>vt_sock := None\<rparr>) ((vt_res x)\<lparr>res_status := MYIO_ERROR, res_error := uv_eai_to_system r\<rparr>)
      (v_task_error os ?u t (uv_eai_to_system r))"
    using vgood_error [OF e f(1) _ t3] t(2) by simp
  show "v_turn Q u (v_task_fail_gai os ?u t r)"
    using v_turn_completes [OF f(1) vkeeps_trans [OF vkeeps_trans [OF k(1) d(2)] f(2)] _ _ t3 c] k(2,3) d(4,5)
    by (simp add: v_task_fail_gai_def)
qed

lemma v_turn_connect:
  assumes e: "v_env os" and g: "vgood {} {} Q u" and a: "a_cb (v_ans os (Uv_run m) u) = Some (Cb_connect t r)"
    and may: "uv_may (vl u) (Cb_connect t r)"
  shows "v_turn Q u (v_connect_cb os (v_event os m u) t r)"
proof -
  let ?u = "v_event os m u"
  note c = vgood_core [OF g]
  from may obtain s where s: "ul_req (vl u) t = Some (Rq_connect s)" "r = 0 \<longrightarrow> tcp_is_open (vl u) s" by auto
  from vgood_take [where os = os and m = m, OF g a _ s(1)] obtain x where x: "v_th u t = Some x" "\<not> vt_done x" "v_want_req x = Some (Rq_connect s)"
    "vgood {t} {} Q ?u" "vkeeps {} Q u Q ?u" by auto
  note k = v_want_req_kind(5) [OF x(3)]
  from vcore_conn [OF c x(1) _ x(2)] k obtain y where y: "v_sh u s = Some y" by (auto simp: vconn_ok_def)
  have t1: "v_th ?u t = Some x" using x(1) by simp
  show ?thesis
  proof (cases "r = 0")
    case False
    with v_turn_conn_failed(1) [OF e x(4,5) _ _ t1 _ x(2) _ _ refl, of s r] k y t1 show ?thesis
      by (simp add: v_connect_cb_def Let_def)
  next
    case True
    let ?f = "\<lambda>x. x\<lparr>vt_res := v_complete_res 0 ((vt_res x)\<lparr>res_ptr := vt_sock x\<rparr>)\<rparr>"
    have l: "ul_tcp (vl ?u) = ul_tcp (vl u)" using a by (simp add: uv_finish_def)
    have "vsock {} (m_brk u) (vl u) s y" by (rule vcore_sock [OF c y])
    then have "v_settles {t} {} Q ?u t x (?f x)"
      unfolding v_settles_def using t1 x(2) k y s(2) True l vgood_conn_private [OF g x(1) _ x(2)]
      by (simp add: tcp_is_open_def vsock_def)
    from vgood_settle [where f = ?f, OF e x(4) this refl] obtain Q' where Q': "vgood {} {} Q' (v_task_finish os (upd_vt t ?f ?u) t)"
      "vkeeps {} Q ?u Q' (v_task_finish os (upd_vt t ?f ?u) t)" "v_settled ?u t (v_task_finish os (upd_vt t ?f ?u) t)" by auto
    have "v_connect_cb os ?u t r = v_task_finish os (upd_vt t ?f ?u) t"
      using True t1 k by (simp add: v_connect_cb_def v_task_complete_def)
    moreover have "v_count u (v_task_finish os (upd_vt t ?f ?u) t)"
      using v_settled_count [OF Q'(3) v_pendI [OF x(4) _ t1]] by (simp add: v_count_def)
    ultimately show ?thesis using v_turnI [OF Q'(1) vkeeps_trans [OF x(5) Q'(2)]] by simp
  qed
qed

lemma v_turn_gai:
  assumes e: "v_env os" and g: "vgood {} {} Q u" and a: "a_cb (v_ans os (Uv_run m) u) = Some (Cb_getaddrinfo t r)"
    and may: "uv_may (vl u) (Cb_getaddrinfo t r)" and res: "r \<ge> 0 \<Longrightarrow> res \<noteq> []"
  shows "v_turn Q u (v_gai_cb os (v_event os m u) t r res)"
proof -
  let ?u = "v_event os m u"
  note c = vgood_core [OF g]
  from may have q: "ul_req (vl u) t = Some Rq_gai" by simp
  from vgood_take [where os = os and m = m, OF g a _ q] obtain x where x: "v_th u t = Some x" "\<not> vt_done x" "v_want_req x = Some Rq_gai"
    "vgood {t} {} Q ?u" "vkeeps {} Q u Q ?u" by auto
  have k: "vt_kind x = VTASK_CONNECT" "\<not> vt_connecting x" using v_want_req_kind(3) [OF x(3)] by auto
  from vcore_conn [OF c x(1) k(1) x(2)] k obtain s y where s: "vt_sock x = Some s" "v_sh u s = Some y" "v_idle y"
    "ul_tcp (vl u) s = Some (Tcp_open False False)" by (auto simp: vconn_ok_def)
  have t1: "v_th ?u t = Some x" using x(1) by simp
  show ?thesis
  proof (cases "r < 0")
    case True
    with v_turn_conn_failed(2) [OF e x(4,5) _ _ t1 k(1) x(2) s(1) _ refl, of r] s(2) t1 show ?thesis
      by (simp add: v_gai_cb_def uv_do_eq Let_def)
  next
    case False
    with res obtain ai ais where ai: "res = ai # ais" by (cases res) auto
    let ?x = "x\<lparr>vt_connecting := True\<rparr>"
    let ?u1 = "?u\<lparr>v_th := (v_th ?u)(t \<mapsto> ?x)\<rparr>"
    let ?c = "Uv_tcp_connect t s (ai_addr ai)"
    let ?u2 = "v_log os ?c ?u1"
    have g1: "vgood {t} {} Q ?u1" "vkeeps {} Q ?u Q ?u1" by (rule vgood_upd_T [OF x(4) _ t1]; simp)+
    have t2: "v_th ?u2 t = Some ?x" by simp
    have l: "ul_req (vl ?u1) t = None" "ul_tcp (vl ?u1) s = Some (Tcp_open False False)" "ul_timer (vl ?u1) t = None"
      using a s(4) vcore_task [OF c x(1)] k(1) by (simp_all add: uv_finish_def vtask_def v_want_timer_def)
    have ok: "uv_call_ok (vl ?u1) ?c" using l by (simp add: tcp_is_open_def)
    have eff: "uv_effect ?c (v_ans os ?c ?u1) (vl ?u1) =
        (if a_ret (v_ans os ?c ?u1) < 0 then vl ?u1 else (vl ?u1)\<lparr>ul_req := (ul_req (vl ?u1))(t \<mapsto> Rq_connect s)\<rparr>)"
      by (simp add: uv_start_def)
    let ?u3 = "v_log os Uv_freeaddrinfo ?u2"
    have d: "v_gai_cb os ?u t r res = (if a_ret (v_ans os ?c ?u1) < 0
        then v_task_complete os (upd_vt t (\<lambda>x. x\<lparr>vt_sock := None\<rparr>) (v_sock_destroy_at os ?u3 (vt_sock ?x))) t (a_ret (v_ans os ?c ?u1))
        else ?u3)"
      using False s t1 ai by (simp add: v_gai_cb_def uv_eq uv_do_eq Let_def)
    have p: "v_pend ?u1 = v_pend u" using x(1,2) by (auto simp: v_pend_def)
    show ?thesis
    proof (cases "a_ret (v_ans os ?c ?u1) < 0")
      case True
      have g2: "vgood {t} {} Q ?u2" "vkeeps {} Q ?u1 Q ?u2"
        using vgood_log_same [where os = os and c = ?c, OF g1(1) ok] True by (simp_all only: eff if_True simp_thms)
      have g3: "vgood {t} {} Q ?u3" "vkeeps {} Q ?u2 Q ?u3"
        using vgood_log_same [where os = os and c = Uv_freeaddrinfo, OF g2(1)] by simp_all
      have kk: "vkeeps {} Q u Q ?u3" by (rule vkeeps_trans [OF vkeeps_trans [OF x(5) g1(2)] vkeeps_trans [OF g2(2) g3(2)]])
      have t3: "v_th ?u3 t = Some ?x" by simp
      show ?thesis
        unfolding d using True v_turn_conn_failed(1) [OF e g3(1) kk _ _ t3 _ _ _ _ refl, of s] p k(1) s x(2) by simp
    next
      case False
      have g2: "vgood ({t} - {t}) {} Q ?u2" "vkeeps {} Q ?u1 Q ?u2"
      proof -
        have "vconn_ok (v_sh ?u1) (vl ?u1) ?x" using s l(2) by (auto simp: vconn_ok_def)
        then show "vgood ({t} - {t}) {} Q ?u2" "vkeeps {} Q ?u1 Q ?u2"
          using vgood_start [where os = os and c = ?c and x = ?x, OF g1(1) _ _ _ _ _ ok] False x(2) k(1) l s(1)
          unfolding eff by (auto simp: loop_off_def v_pull_def v_want_req_def v_want_timer_def)
      qed
      have g3: "vgood {} {} Q ?u3" "vkeeps {} Q ?u2 Q ?u3"
        using vgood_log_same [where os = os and c = Uv_freeaddrinfo, OF g2(1)] by simp_all
      have "vkeeps {} Q u Q ?u3" by (rule vkeeps_trans [OF vkeeps_trans [OF x(5) g1(2)] vkeeps_trans [OF g2(2) g3(2)]])
      moreover have "v_count u ?u3" using p by (intro v_count_same) simp_all
      ultimately show ?thesis unfolding d using False g3(1) by (simp add: v_turnI)
    qed
  qed
qed

subsection \<open>Callbacks of timers, of the thread pool\<close>

lemma vgood_timer_take:
  assumes g: "vgood {} {} Q u" and t: "ul_timer (vl u) t = Some Timer_armed"
    and l: "loop_off t (vl u) (uv_effect c (v_ans os c u) (vl u))" "ul_req (uv_effect c (v_ans os c u) (vl u)) t = ul_req (vl u) t"
    and ok: "uv_call_ok (vl u) c"
  shows "\<exists>x. v_th u t = Some x \<and> vt_kind x = VTASK_TIMER \<and> \<not> vt_done x \<and> \<not> vt_free_on_close x \<and> vgood {t} {} Q (v_log os c u) \<and>
    vkeeps {} Q u Q (v_log os c u)"
proof -
  note c = vgood_core [OF g]
  let ?l = "uv_effect c (v_ans os c u) (vl u)"
  from t obtain x where x: "v_th u t = Some x" using vcore_no_task [OF c, of t] by (cases "v_th u t") auto
  note v = vcore_task [OF c x]
  from v t have w: "v_want_timer x = Some Timer_armed" by (simp add: vtask_def)
  then have k: "vt_kind x = VTASK_TIMER" "\<not> vt_done x" "\<not> vt_free_on_close x" "\<not> vt_timer_closed x"
    by (auto simp: v_want_timer_def split: if_splits)
  then have r: "ul_req (vl u) t = None" using v by (simp add: vtask_def v_want_req_def)
  have vt: "vtask {t} (m_brk u) ?l t x" using v k r l by (auto simp: vtask_def)
  have "vcore {t} {} (m_brk u) ((v_th u)(t \<mapsto> x)) (v_sh u) Q ?l"
    by (rule vcore_upd [OF c x l(1) _ vt refl]) (use k in \<open>auto simp: v_pull_def\<close>)
  moreover have id: "(v_th u)(t \<mapsto> x) = v_th u" using x by (simp add: fun_upd_idem)
  ultimately have "vcore {t} {} (m_brk u) (v_th u) (v_sh u) Q ?l" by simp
  then have "vgood {t} {} Q (v_log os c u)"
    by (rule vgood_log [OF g ok]) (use l in \<open>simp add: loop_off_def tcp_is_open_def\<close>)
  moreover have "vkeeps {} Q u Q (v_log os c u)"
    unfolding vkeeps_def using l(1) by (auto simp: loop_off_def intro: vkeep_req)
  ultimately show ?thesis using x k by blast
qed

text \<open>While a timer's task is in transit, its handle may change.\<close>

lemma vgood_timer_call:
  assumes g: "vgood {t} D Q u" and x: "v_th u t = Some x" "vt_kind x = VTASK_TIMER" and ok: "uv_call_ok (vl u) c"
    and l: "loop_off t (vl u) (uv_effect c (v_ans os c u) (vl u))" "ul_req (uv_effect c (v_ans os c u) (vl u)) t = ul_req (vl u) t"
  shows "vgood {t} D Q (v_log os c u)" "vkeeps S Q u Q (v_log os c u)"
proof -
  note c = vgood_core [OF g]
  let ?l = "uv_effect c (v_ans os c u) (vl u)"
  have vt: "vtask {t} (m_brk u) ?l t x" using vcore_task [OF c x(1)] x(2) l by (auto simp: vtask_def)
  have "vcore {t} D (m_brk u) ((v_th u)(t \<mapsto> x)) (v_sh u) Q ?l"
    by (rule vcore_upd [OF c x(1) l(1) _ vt refl]) (use x(2) in \<open>auto simp: v_pull_def\<close>)
  moreover have "(v_th u)(t \<mapsto> x) = v_th u" using x(1) by (simp add: fun_upd_idem)
  ultimately have "vcore {t} D (m_brk u) (v_th u) (v_sh u) Q ?l" by simp
  then show "vgood {t} D Q (v_log os c u)"
    by (rule vgood_log [OF g ok]) (use l in \<open>simp add: loop_off_def tcp_is_open_def\<close>)
  show "vkeeps S Q u Q (v_log os c u)" unfolding vkeeps_def using l(1) by (auto simp: loop_off_def intro: vkeep_req)
qed

lemma v_timer_over:
  assumes e: "v_env os" and g: "vgood {t} {} Q u1" and k: "vkeeps {} Q u Q u1" "v_pend u1 = v_pend u" "v_ncompleted u1 = v_ncompleted u"
    and x: "v_th u1 t = Some x" "vt_kind x = VTASK_TIMER" "\<not> vt_done x" and tm: "ul_timer (vl u1) t = Some Timer_idle"
  shows "v_turn Q u (v_task_complete os (v_log os (Uv_close (H_timer t)) u1) t r)"
    "v_completes {t} {} Q (v_log os (Uv_close (H_timer t)) u1) t x (v_complete_res r (vt_res x))
       (v_task_complete os (v_log os (Uv_close (H_timer t)) u1) t r)"
proof -
  let ?c = "Uv_close (H_timer t)"
  have g2: "vgood {t} {} Q (v_log os ?c u1)" "vkeeps {} Q u1 Q (v_log os ?c u1)"
    using vgood_timer_call [where os = os and c = ?c, OF g x(1,2)] tm by (simp_all add: timer_usable_def loop_off_def)
  have t2: "v_th (v_log os ?c u1) t = Some x" using x(1) by simp
  show c: "v_completes {t} {} Q (v_log os ?c u1) t x (v_complete_res r (vt_res x)) (v_task_complete os (v_log os ?c u1) t r)"
    by (rule vgood_complete [OF e g2(1) _ t2]) simp_all
  show "v_turn Q u (v_task_complete os (v_log os ?c u1) t r)"
    using v_turn_completes [OF g2(1) vkeeps_trans [OF k(1) g2(2)] _ _ t2 c] k(2,3) by simp
qed

lemma v_turn_timer:
  assumes e: "v_env os" and g: "vgood {} {} Q u" and a: "a_cb (v_ans os (Uv_run m) u) = Some (Cb_timer t)"
    and may: "uv_may (vl u) (Cb_timer t)"
  shows "v_turn Q u (v_timer_cb os (v_event os m u) t)"
proof -
  from may have t: "ul_timer (vl u) t = Some Timer_armed" by simp
  from vgood_timer_take [where os = os and c = "Uv_run m", OF g t] a
  obtain x where x: "v_th u t = Some x" "vt_kind x = VTASK_TIMER" "\<not> vt_done x" "vgood {t} {} Q (v_event os m u)" "vkeeps {} Q u Q (v_event os m u)"
    by (auto simp: loop_off_def)
  have t1: "v_th (v_event os m u) t = Some x" using x(1) by simp
  have "ul_timer (vl (v_event os m u)) t = Some Timer_idle" using a by simp
  from v_timer_over(1) [OF e x(4,5) _ _ t1 x(2,3) this] show ?thesis
    using t1 by (simp add: v_timer_cb_def uv_do_eq)
qed

lemma vgood_heap_same:
  assumes "vgood T D Q u" and "v_th u t = Some x" and "vt_kind x' = vt_kind x" "vt_done x' = vt_done x" "vt_detached x' = vt_detached x"
    "vt_res x' = vt_res x" "vt_sock x' = vt_sock x" "vt_connecting x' = vt_connecting x" "vt_timer_closed x' = vt_timer_closed x"
    "vt_free_on_close x' = vt_free_on_close x"
  shows "vgood T D Q (u\<lparr>v_th := (v_th u)(t \<mapsto> x')\<rparr>)" "vkeeps S Q u Q (u\<lparr>v_th := (v_th u)(t \<mapsto> x')\<rparr>)"
    "v_pend (u\<lparr>v_th := (v_th u)(t \<mapsto> x')\<rparr>) = v_pend u"
proof -
  note c = vgood_core [OF assms(1)]
  have own: "v_own x' = v_own x" "v_want_req x' = v_want_req x" "v_want_timer x' = v_want_timer x"
    using assms by (simp_all add: v_own_def v_want_req_def v_want_timer_def split: v_kind.splits)
  have vt: "vtask T (m_brk u) (vl u) t x'" using vcore_task [OF c assms(2)] own assms by (auto simp: vtask_def)
  have cn: "vconn_ok sh l x' = vconn_ok sh l x" for sh l using assms by (simp add: vconn_ok_def)
  have "vcore T D (m_brk u) ((v_th u)(t \<mapsto> x')) (v_sh u) Q (vl u)"
    by (rule vcore_upd [OF c assms(2) _ refl vt assms(3)]) (use own cn assms vcore_conn [OF c assms(2)] in \<open>auto simp: loop_off_def\<close>)
  from vgood_heap [OF assms(1) this, of "v_ncompleted u"] assms(2) show "vgood T D Q (u\<lparr>v_th := (v_th u)(t \<mapsto> x')\<rparr>)" by auto
  show "vkeeps S Q u Q (u\<lparr>v_th := (v_th u)(t \<mapsto> x')\<rparr>)"
    unfolding vkeeps_def by simp (rule vkeep_upd [of "v_th u", OF assms(2)], use assms in \<open>auto simp: v_held_def\<close>)
  show "v_pend (u\<lparr>v_th := (v_th u)(t \<mapsto> x')\<rparr>) = v_pend u" using assms by (auto simp: v_pend_def)
qed

lemma v_turn_work:
  assumes e: "v_env os" and g: "vgood {} {} Q u" and a: "a_cb (v_ans os (Uv_run m) u) = Some (Cb_work t)"
    and may: "uv_may (vl u) (Cb_work t)"
  shows "v_turn Q u (v_work_cb os (v_event os m u) t)"
proof -
  let ?u = "v_event os m u"
  have g1: "vgood {} {} Q ?u" "vkeeps {} Q u Q ?u"
    using vgood_log_same [where os = os and c = "Uv_run m", OF g] a by simp_all
  from may have "ul_req (vl u) t \<noteq> None" by simp
  then obtain x where x: "v_th u t = Some x" using vcore_no_task [OF vgood_core [OF g], of t] by (cases "v_th u t") auto
  let ?c = "C_fn (vt_fn x) (vt_arg x)"
  let ?u1 = "?u\<lparr>m_trace := (?c, os (m_trace ?u) ?c) # m_trace ?u\<rparr>"
  have g2: "vgood {} {} Q ?u1" "vkeeps {} Q ?u Q ?u1" using g1(1) by (simp_all add: vgood_def v_queued_def vkeeps_def vkeep_refl)
  let ?x = "x\<lparr>vt_fn_ret := a_ret (os (m_trace ?u) ?c)\<rparr>"
  have t1: "v_th ?u1 t = Some x" using x by simp
  have w: "v_work_cb os ?u t = ?u1\<lparr>v_th := (v_th ?u1)(t \<mapsto> ?x)\<rparr>" using x by (simp add: v_work_cb_def sys_call_def Let_def)
  note h = vgood_heap_same [OF g2(1) t1, of ?x]
  show ?thesis
    unfolding w
  proof (rule v_turnI)
    show "vgood {} {} Q (?u1\<lparr>v_th := (v_th ?u1)(t \<mapsto> ?x)\<rparr>)" using h(1) by simp
    show "vkeeps {} Q u Q (?u1\<lparr>v_th := (v_th ?u1)(t \<mapsto> ?x)\<rparr>)"
      using vkeeps_trans [OF vkeeps_trans [OF g1(2) g2(2)] h(2)] by simp
    show "v_count u (?u1\<lparr>v_th := (v_th ?u1)(t \<mapsto> ?x)\<rparr>)" using h(3) by (intro v_count_same) simp_all
  qed
qed

lemma v_turn_timer_close:
  assumes g: "vgood {} {} Q u" and a: "a_cb (v_ans os (Uv_run m) u) = Some (Cb_close (H_timer t))"
    and may: "uv_may (vl u) (Cb_close (H_timer t))"
  shows "v_turn Q u (v_timer_close_cb (v_event os m u) t)"
proof -
  let ?u = "v_event os m u"
  note c = vgood_core [OF g]
  from may have t: "ul_timer (vl u) t = Some Timer_closing" by simp
  then obtain x where x: "v_th u t = Some x" using vcore_no_task [OF c, of t] by (cases "v_th u t") auto
  note v = vcore_task [OF c x]
  from v t have w: "vt_kind x = VTASK_TIMER" "\<not> vt_timer_closed x" "vt_done x \<or> vt_free_on_close x"
    by (auto simp: vtask_def v_want_timer_def split: if_splits)
  let ?x = "x\<lparr>vt_timer_closed := True\<rparr>"
  have l: "vl ?u = (vl u)\<lparr>ul_timer := (ul_timer (vl u))(t := None)\<rparr>" using a by simp
  have r: "ul_req (vl u) t = None" using v w by (auto simp: vtask_def v_want_req_def)
  have d: "v_timer_close_cb ?u t = ?u\<lparr>v_th := (if vt_free_on_close x then (v_th u)(t := None) else (v_th u)(t \<mapsto> ?x))\<rparr>"
    using x by (simp add: v_timer_close_cb_def)
  have k: "vkeep {} (v_th u) (v_sh u) Q (vl u) (if vt_free_on_close x then (v_th u)(t := None) else (v_th u)(t \<mapsto> ?x)) (v_sh u) Q (vl ?u)"
  proof (cases "vt_free_on_close x")
    case True
    with vkeep_del [of "v_th u", OF x, of "vl ?u" "vl u" "{}" "v_sh u" Q] l show ?thesis by (simp add: v_held_def)
  next
    case False
    have "vkeep {} (v_th u) (v_sh u) Q (vl u) ((v_th u)(t \<mapsto> ?x)) (v_sh u) Q (vl ?u)"
      by (rule vkeep_upd [of "v_th u", OF x]) (use l w(1) in \<open>auto simp: v_held_def\<close>)
    with False show ?thesis by simp
  qed
  have "vcore {} {} (m_brk u) (if vt_free_on_close x then (v_th u)(t := None) else (v_th u)(t \<mapsto> ?x)) (v_sh u) Q (vl ?u)"
  proof (cases "vt_free_on_close x")
    case True
    with vcore_del [OF c x, of "vl ?u"] l r w show ?thesis by (simp add: loop_off_def v_pull_def)
  next
    case False
    then have dn: "vt_done x" "\<not> vt_detached x" using w(3) v by (auto simp: vtask_def)
    have vt: "vtask {} (m_brk u) (vl ?u) t ?x"
      using v w l r False dn by (auto simp: vtask_def v_want_timer_def v_own_def v_want_req_def)
    have "vcore {} {} (m_brk u) ((v_th u)(t \<mapsto> ?x)) (v_sh u) Q (vl ?u)"
      by (rule vcore_upd [OF c x _ _ vt]) (use l w dn in \<open>auto simp: loop_off_def v_pull_def v_own_def\<close>)
    with False show ?thesis by simp
  qed
  moreover have "card (dom (if vt_free_on_close x then (v_th u)(t := None) else (v_th u)(t \<mapsto> ?x))) \<le> card (dom (v_th u))"
    using vgood_finite(1) [OF g] x by (intro card_mono) (auto split: if_splits)
  ultimately have "vgood {} {} Q (v_timer_close_cb ?u t)"
    unfolding d using g l by (simp add: vgood_def v_queued_def tcp_is_open_def)
  moreover have "vkeeps {} Q u Q (v_timer_close_cb ?u t)" unfolding d vkeeps_def using k by simp
  moreover have "v_count u (v_timer_close_cb ?u t)"
    unfolding d using x w(3) by (intro v_count_same) (auto simp: v_pend_def split: if_splits)
  ultimately show ?thesis by (rule v_turnI)
qed

subsection \<open>Callbacks of sockets\<close>

text \<open>A call to libuv together with a change of the socket heap.\<close>

lemma vgood_call_sh:
  assumes "vgood T D Q u" and "uv_call_ok (vl u) c" and "vcore T' D' (m_brk u) (v_th u) sh' Q' (uv_effect c (v_ans os c u) (vl u))"
    and "\<And>s y. sh' s = Some y \<Longrightarrow> tcp_is_open (uv_effect c (v_ans os c u) (vl u)) s \<Longrightarrow> wq_list nx (vs_pending y) (Q' s)"
  shows "vgood T' D' Q' ((v_log os c u)\<lparr>v_sh := sh', v_pnode := nx\<rparr>)"
  using assms by (auto simp: vgood_def v_queued_def)

lemma vgood_sh:
  assumes "vgood T D Q u" and "vcore T' D' (m_brk u) (v_th u) sh' Q' (vl u)"
    and "\<And>s y. sh' s = Some y \<Longrightarrow> tcp_is_open (vl u) s \<Longrightarrow> wq_list nx (vs_pending y) (Q' s)"
  shows "vgood T' D' Q' (u\<lparr>v_sh := sh', v_pnode := nx\<rparr>)"
  using assms by (auto simp: vgood_def v_queued_def)

lemma sock_pnode_id:
  "u\<lparr>v_sh := sh', v_pnode := v_pnode u\<rparr> = u\<lparr>v_sh := sh'\<rparr>"
  "(v_log os c u)\<lparr>v_sh := sh', v_pnode := v_pnode u\<rparr> = (v_log os c u)\<lparr>v_sh := sh'\<rparr>"
  by (simp_all add: v_log_def)

text \<open>A socket's slot is cleared and its task goes into transit; the handle may stop reading at the same time.\<close>

lemma vgood_unlink_call:
  assumes g: "vgood T D Q u" and s: "v_sh u s = Some y" "v_slot k y = Some t"
    and y': "slot_upd k None y y'" "vs_pending y' = vs_pending y" and ok: "uv_call_ok (vl u) c"
    and lo: "tcp_off s (vl u) (uv_effect c (v_ans os c u) (vl u))"
    and v: "vsock D (m_brk u) (uv_effect c (v_ans os c u) (vl u)) s y'"
    and op: "tcp_is_open (uv_effect c (v_ans os c u) (vl u)) s = tcp_is_open (vl u) s"
  shows "vgood (insert t T) D Q ((v_log os c u)\<lparr>v_sh := (v_sh u)(s \<mapsto> y')\<rparr>)"
    "vkeeps S Q u Q ((v_log os c u)\<lparr>v_sh := (v_sh u)(s \<mapsto> y')\<rparr>)"
proof -
  let ?l = "uv_effect c (v_ans os c u) (vl u)"
  note co = vgood_core [OF g]
  have o: "tcp_is_open ?l r = tcp_is_open (vl u) r" for r
    using lo op by (cases "r = s") (auto simp: tcp_off_def tcp_is_open_def)
  have qs: "Q s \<noteq> [] \<Longrightarrow> tcp_is_open ?l s" using vcore_closed_queue [OF co, of s] o by blast
  have "vcore (insert t T) D (m_brk u) (v_th u) ((v_sh u)(s \<mapsto> y')) Q ?l" by (rule vcore_unlink [OF co s y'(1) lo v qs])
  moreover have "wq_list (v_pnode u) (vs_pending z) (Q r)" if "((v_sh u)(s \<mapsto> y')) r = Some z" "tcp_is_open ?l r" for r z
    using that s(1) y'(2) o vgood_queue [OF g] by (cases "r = s") auto
  ultimately show "vgood (insert t T) D Q ((v_log os c u)\<lparr>v_sh := (v_sh u)(s \<mapsto> y')\<rparr>)"
    using vgood_call_sh [where nx = "v_pnode u" and c = c and os = os, OF g ok, of "insert t T" D "(v_sh u)(s \<mapsto> y')" Q]
    by (simp add: sock_pnode_id)
  have "vkeep S (v_th u) (v_sh u) Q (vl u) (v_th u) ((v_sh u)(s \<mapsto> y')) Q ?l"
  proof (rule vkeep_sock [of "v_sh u", OF s(1)])
    show "ul_tcp ?l q = ul_tcp (vl u) q" if "q \<noteq> s" for q using lo that by (simp add: tcp_off_def)
    show "tcp_is_open ?l s \<or> (\<forall>t x. v_th u t = Some x \<longrightarrow> v_held x \<longrightarrow> t \<notin> S \<longrightarrow> res_ptr (vt_res x) = Some s \<longrightarrow>
        \<not> vusable (v_th u) (v_sh u) Q (vl u) s)" using o by (auto simp: vusable_def)
  qed
  then show "vkeeps S Q u Q ((v_log os c u)\<lparr>v_sh := (v_sh u)(s \<mapsto> y')\<rparr>)" by (simp add: vkeeps_def)
qed

lemma vgood_unlink:
  assumes g: "vgood T D Q u" and s: "v_sh u s = Some y" "v_slot k y = Some t"
    and y': "slot_upd k None y y'" "vs_pending y' = vs_pending y" and v: "vsock D (m_brk u) (vl u) s y'"
  shows "vgood (insert t T) D Q (u\<lparr>v_sh := (v_sh u)(s \<mapsto> y')\<rparr>)" "vkeeps S Q u Q (u\<lparr>v_sh := (v_sh u)(s \<mapsto> y')\<rparr>)"
proof -
  note co = vgood_core [OF g]
  have qs: "Q s \<noteq> [] \<Longrightarrow> tcp_is_open (vl u) s" using vcore_closed_queue [OF co, of s] by blast
  have lo: "tcp_off s (vl u) (vl u)" by (simp add: tcp_off_def)
  have "vcore (insert t T) D (m_brk u) (v_th u) ((v_sh u)(s \<mapsto> y')) Q (vl u)" by (rule vcore_unlink [OF co s y'(1) lo v qs])
  moreover have "wq_list (v_pnode u) (vs_pending z) (Q r)" if "((v_sh u)(s \<mapsto> y')) r = Some z" "tcp_is_open (vl u) r" for r z
    using that s(1) y'(2) vgood_queue [OF g] by (cases "r = s") auto
  ultimately show "vgood (insert t T) D Q (u\<lparr>v_sh := (v_sh u)(s \<mapsto> y')\<rparr>)"
    using vgood_sh [where nx = "v_pnode u", OF g, of "insert t T" D "(v_sh u)(s \<mapsto> y')" Q]
    by (simp add: sock_pnode_id)
  show "vkeeps S Q u Q (u\<lparr>v_sh := (v_sh u)(s \<mapsto> y')\<rparr>)"
    unfolding vkeeps_def using vkeep_sock [of "v_sh u", OF s(1), of "vl u" "vl u"] by (auto simp: vusable_def)
qed

lemma v_turn_alloc:
  assumes g: "vgood {} {} Q u" and a: "a_cb (v_ans os (Uv_run m) u) = Some (Cb_alloc s)" and may: "uv_may (vl u) (Cb_alloc s)"
  shows "v_turn Q u (v_read_alloc_cb os (v_event os m u) s)"
proof -
  let ?u = "v_event os m u"
  note c = vgood_core [OF g]
  have g1: "vgood {} {} Q ?u" "vkeeps {} Q u Q ?u" using vgood_log_same [where os = os and c = "Uv_run m", OF g] a by simp_all
  from may obtain b where b: "ul_tcp (vl u) s = Some (Tcp_open True b)" by auto
  then obtain y where y: "v_sh u s = Some y" using vcore_no_sock [OF c, of s] by (cases "v_sh u s") auto
  from vcore_sock [OF c y] b obtain t where t: "v_slot VTASK_SOCK_READ y = Some t" by (auto simp: vsock_def)
  from vcore_slot [OF c y t] obtain x where x: "v_th u t = Some x" by blast
  have "\<exists>p. v_read_alloc_cb os ?u s = v_log os (Uv_read_buf s p) ?u"
    using y t x by (simp add: v_read_alloc_cb_def uv_do_eq) blast
  then obtain p where p: "v_read_alloc_cb os ?u s = v_log os (Uv_read_buf s p) ?u" ..
  have g2: "vgood {} {} Q (v_log os (Uv_read_buf s p) ?u)" "vkeeps {} Q ?u Q (v_log os (Uv_read_buf s p) ?u)"
    using vgood_log_same [where os = os and c = "Uv_read_buf s p", OF g1(1)] by simp_all
  show ?thesis unfolding p by (rule v_turnI [OF g2(1) vkeeps_trans [OF g1(2) g2(2)] v_count_same]) simp_all
qed

lemma v_turn_read:
  assumes e: "v_env os" and g: "vgood {} {} Q u" and a: "a_cb (v_ans os (Uv_run m) u) = Some (Cb_read s n)" and may: "uv_may (vl u) (Cb_read s n)"
  shows "v_turn Q u (v_read_cb os (v_event os m u) s n)"
proof -
  let ?u = "v_event os m u"
  let ?c = "Uv_read_stop s"
  note c = vgood_core [OF g]
  have g1: "vgood {} {} Q ?u" "vkeeps {} Q u Q ?u" using vgood_log_same [where os = os and c = "Uv_run m", OF g] a by simp_all
  from may obtain b where b: "ul_tcp (vl u) s = Some (Tcp_open True b)" by auto
  then obtain y where y: "v_sh u s = Some y" using vcore_no_sock [OF c, of s] by (cases "v_sh u s") auto
  note vs = vcore_sock [OF c y]
  from vs b obtain t where t: "vs_read_task y = Some t" by (auto simp: vsock_def)
  from vcore_slot [OF c y, of VTASK_SOCK_READ t] t obtain x where x: "v_th u t = Some x" "vt_kind x = VTASK_SOCK_READ" by auto
  let ?y = "y\<lparr>vs_read_task := None\<rparr>"
  let ?w = "(v_log os ?c ?u)\<lparr>v_sh := (v_sh u)(s \<mapsto> ?y)\<rparr>"
  have l: "vl ?u = vl u" using a by simp
  have g2: "vgood {t} {} Q ?w" "vkeeps {} Q ?u Q ?w"
    using vgood_unlink_call [where os = os and c = ?c and k = VTASK_SOCK_READ and y' = ?y and s = s and y = y and t = t, OF g1(1)]
      y t b l vs slot_updI(1) [of None y]
    by (auto simp: tcp_live_def tcp_off_def tcp_reading_def tcp_is_open_def vsock_def)
  have tw: "v_th ?w t = Some x" using x(1) by simp
  let ?r = "if n = UV_EOF then 0 else n"
  have cm: "v_completes {t} {} Q ?w t x (v_complete_res ?r (vt_res x)) (v_task_complete os ?w t ?r)"
    by (rule vgood_complete [OF e g2(1) _ tw]) (use x(2) in auto)
  show ?thesis
  proof (cases "n = 0")
    case True
    then show ?thesis using y g1 by (simp add: v_read_cb_def v_turnI v_count_same)
  next
    case False
    then have "v_read_cb os ?u s n = v_task_complete os ?w t ?r" using y t by (simp add: v_read_cb_def uv_do_eq Let_def)
    with v_turn_completes [OF g2(1) vkeeps_trans [OF g1(2) g2(2)] _ _ tw cm] show ?thesis by simp
  qed
qed

subsection \<open>The last callback of a socket\<close>

text \<open>Completing a task that won nothing does not look at the sockets.\<close>

lemma v_task_complete_sh:
  assumes "v_th u t = Some x" and "res_ptr (vt_res x) = None"
  shows "v_task_complete os (u\<lparr>v_sh := sh'\<rparr>) t r = (v_task_complete os u t r)\<lparr>v_sh := sh'\<rparr>"
proof -
  have f: "free_vt t (w\<lparr>v_sh := sh'\<rparr>) = (free_vt t w)\<lparr>v_sh := sh'\<rparr>" for w
    by (simp add: free_vt_def chk_vt_def m_flag_def)
  have rl: "v_release os (w\<lparr>v_sh := sh'\<rparr>) t = (v_release os w t)\<lparr>v_sh := sh'\<rparr>" for w
    by (simp add: v_release_def f vt_def upd_vt_def uv_eq uv_do_eq v_log_def Let_def m_flag_def split: option.splits)
  have eq: "u\<lparr>v_sh := sh', v_th := th, v_ncompleted := n\<rparr> = (u\<lparr>v_th := th, v_ncompleted := n\<rparr>)\<lparr>v_sh := sh'\<rparr>" for th n by simp
  show ?thesis using assms
    by (simp add: v_task_complete_def v_task_finish_def v_task_reap_def Let_def eq) (simp only: rl simp_thms)
qed

text \<open>A slot whose task is cancelled, with or without the handle stopping to read first.\<close>

lemma v_slot_cancel:
  assumes e: "v_env os" and g: "vgood T D Q u" and s: "v_sh u s = Some y" "v_slot k y = Some t" and tT: "t \<notin> T"
    and w: "v_th w = v_th u" "v_sh w = (v_sh u)(s \<mapsto> y')" "v_pend w = v_pend u" "v_ncompleted w = v_ncompleted u"
      "vgood (insert t T) D Q w" "vkeeps {} Q u Q w" and u': "u' = v_task_complete os w t r"
  shows "vgood T D Q u'" "vkeeps {} Q u Q u'" "v_count u u'" "v_sh u' = (v_sh u)(s \<mapsto> y')" "vl u' = vl w"
    "\<And>q. q \<noteq> t \<Longrightarrow> v_th u' q = v_th u q" "m_brk u' = m_brk w"
    "\<And>x. v_th u t = Some x \<Longrightarrow> \<not> vt_detached x \<Longrightarrow> v_th u' t = Some (x\<lparr>vt_res := v_complete_res r (vt_res x), vt_done := True\<rparr>)"
    "v_pend u' = v_pend u - {t}"
proof -
  from vcore_slot [OF vgood_core [OF g] s] obtain x where x: "v_th u t = Some x" "vt_kind x = k" "\<not> vt_done x" by blast
  have k: "vt_kind x \<noteq> VTASK_TIMER" using x(2) v_slot_pull [OF s(2)] by (auto simp: v_pull_def)
  have tw: "v_th w t = Some x" using w(1) x(1) by simp
  have c: "v_completes (insert t T) D Q w t x (v_complete_res r (vt_res x)) u'"
    unfolding u' by (rule vgood_complete [OF e w(5) _ tw]) (use k in auto)
  note d = v_completesD [OF c]
  have "insert t T - {t} = T" using tT by simp
  with d(1) show "vgood T D Q u'" by simp
  show "vkeeps {} Q u Q u'" by (rule vkeeps_trans [OF w(6) d(2)])
  have "v_count w u'" by (rule v_settled_count [OF d(3) v_pendI [OF w(5) _ tw]]) simp
  with w(3,4) show "v_count u u'" by (simp add: v_count_def)
  show "v_sh u' = (v_sh u)(s \<mapsto> y')" using d(6) w(2) by simp
  show "vl u' = vl w" by (rule d(4))
  show "v_th u' q = v_th u q" if "q \<noteq> t" for q using d(8) [OF that] w(1) by simp
  show "m_brk u' = m_brk w" using d(3) by (simp add: v_settled_def)
  show "v_pend u' = v_pend u - {t}" using d(9) w(3) by simp
  show "v_th u' t = Some (z\<lparr>vt_res := v_complete_res r (vt_res z), vt_done := True\<rparr>)" if "v_th u t = Some z" "\<not> vt_detached z" for z
    using d(5) that x(1) by simp
qed

lemma vsock_dead: "vsock D b l s y \<Longrightarrow> s \<in> D \<or> ul_tcp l s = Some Tcp_closing \<Longrightarrow> vsock D b l s y'"
  by (auto simp: vsock_def)

text \<open>One slot of a socket whose handle is closing or closed is emptied.\<close>

lemma v_slot_closed:
  assumes e: "v_env os" and g: "vgood {} D Q u" and s: "v_sh u s = Some y" "v_slot k y = Some t"
    and dead: "s \<in> D \<or> ul_tcp (vl u) s = Some Tcp_closing" and y': "slot_upd k None y y'" "vs_pending y' = vs_pending y"
    and u': "u' = v_task_complete os (u\<lparr>v_sh := (v_sh u)(s \<mapsto> y')\<rparr>) t r"
  shows "vgood {} D Q u'" "vkeeps {} Q u Q u'" "v_count u u'" "v_sh u' = (v_sh u)(s \<mapsto> y')" "vl u' = vl u"
    "u' = (v_task_complete os u t r)\<lparr>v_sh := (v_sh u)(s \<mapsto> y')\<rparr>" "v_sh (v_task_complete os u t r) = v_sh u"
proof -
  let ?w = "u\<lparr>v_sh := (v_sh u)(s \<mapsto> y')\<rparr>"
  note co = vgood_core [OF g]
  have un: "vgood {t} D Q ?w" "vkeeps {} Q u Q ?w"
    by (rule vgood_unlink [OF g s y' vsock_dead [OF vcore_sock [OF co s(1)] dead]])+
  note c = v_slot_cancel [OF e g s _ _ _ _ _ un u']
  show "vgood {} D Q u'" "vkeeps {} Q u Q u'" "v_count u u'" "v_sh u' = (v_sh u)(s \<mapsto> y')" "vl u' = vl u" using c by simp_all
  from vcore_slot [OF co s] obtain x where x: "v_th u t = Some x" "\<not> vt_done x" by blast
  then have r: "res_ptr (vt_res x) = None" using vcore_task [OF co x(1)] by (simp add: vtask_def)
  show "u' = (v_task_complete os u t r)\<lparr>v_sh := (v_sh u)(s \<mapsto> y')\<rparr>" unfolding u' by (rule v_task_complete_sh [OF x(1) r])
  have "v_sh ((v_task_complete os u t r)\<lparr>v_sh := v_sh u\<rparr>) = v_sh u" by simp
  moreover have "(v_task_complete os u t r)\<lparr>v_sh := v_sh u\<rparr> = v_task_complete os u t r"
    using v_task_complete_sh [OF x(1) r, of os "v_sh u" r] by simp
  ultimately show "v_sh (v_task_complete os u t r) = v_sh u" by simp
qed

text \<open>What emptying a slot of a socket leaves.\<close>

definition v_emptied :: "addr set \<Rightarrow> vqueues \<Rightarrow> uv_io \<Rightarrow> addr \<Rightarrow> uv_sock \<Rightarrow> uv_io \<Rightarrow> bool" where
  "v_emptied D Q u s y' u' \<longleftrightarrow> vgood {} D Q u' \<and> vkeeps {} Q u Q u' \<and> v_count u u' \<and> v_sh u' = (v_sh u)(s \<mapsto> y') \<and> vl u' = vl u"

lemma v_emptied_same: "vgood {} D Q u \<Longrightarrow> v_sh u s = Some y \<Longrightarrow> v_emptied D Q u s y u"
  by (simp add: v_emptied_def vkeeps_refl v_count_refl fun_upd_idem)

lemma v_emptied_trans:
  assumes "v_emptied D Q u s y1 u1" and "v_emptied D Q u1 s y2 u2" and "finite (v_pend u)"
  shows "v_emptied D Q u s y2 u2"
  using assms v_count_trans [OF assms(3), of u1 u2] vkeeps_trans [of "{}" Q u Q u1 Q u2] by (auto simp: v_emptied_def)

lemma v_slot_emptied:
  assumes "v_env os" and "vgood {} D Q u" and "v_sh u s = Some y" "v_slot k y = Some t"
    and "s \<in> D \<or> ul_tcp (vl u) s = Some Tcp_closing" and "slot_upd k None y (f y)" "vs_pending (f y) = vs_pending y"
  shows "v_emptied D Q u s (f y) (upd_vs s f (v_task_complete os u t r))"
    "upd_vs s f (v_task_complete os u t r) = (v_task_complete os u t r)\<lparr>v_sh := (v_sh u)(s \<mapsto> f y)\<rparr>"
proof -
  note c = v_slot_closed [OF assms refl, of r]
  show "upd_vs s f (v_task_complete os u t r) = (v_task_complete os u t r)\<lparr>v_sh := (v_sh u)(s \<mapsto> f y)\<rparr>"
    using c(7) assms(3) by simp
  then show "v_emptied D Q u s (f y) (upd_vs s f (v_task_complete os u t r))"
    using c(1-6) by (simp add: v_emptied_def)
qed

lemma v_close_slots:
  assumes e: "v_env os" and g: "vgood {} D Q u" and s: "v_sh u s = Some y" and dead: "s \<in> D \<or> ul_tcp (vl u) s = Some Tcp_closing"
  shows "v_emptied D Q u s (y\<lparr>vs_read_task := None\<rparr>) (v_close_slot_read os u s)"
    "v_emptied D Q u s (y\<lparr>vs_accept_task := None\<rparr>) (v_close_slot_accept os u s)"
proof -
  show "v_emptied D Q u s (y\<lparr>vs_read_task := None\<rparr>) (v_close_slot_read os u s)"
  proof (cases "vs_read_task y")
    case None
    then have eq: "y\<lparr>vs_read_task := None\<rparr> = y" by simp
    show ?thesis unfolding eq using None s v_emptied_same [OF g s] by (simp add: v_close_slot_read_def)
  next
    case (Some t)
    with s show ?thesis
      using v_slot_emptied(1) [where f = "\<lambda>y. y\<lparr>vs_read_task := None\<rparr>" and k = VTASK_SOCK_READ, OF e g s _ dead slot_updI(1)]
      by (simp add: v_close_slot_read_def)
  qed
  show "v_emptied D Q u s (y\<lparr>vs_accept_task := None\<rparr>) (v_close_slot_accept os u s)"
  proof (cases "vs_accept_task y")
    case None
    then have eq: "y\<lparr>vs_accept_task := None\<rparr> = y" by simp
    show ?thesis unfolding eq using None s v_emptied_same [OF g s] by (simp add: v_close_slot_accept_def)
  next
    case (Some t)
    with s show ?thesis
      using v_slot_emptied(1) [where f = "\<lambda>y. y\<lparr>vs_accept_task := None\<rparr>" and k = VTASK_ACCEPT, OF e g s _ dead slot_updI(2)]
      by (simp add: v_close_slot_accept_def)
  qed
qed

lemma v_turn_sock_close:
  assumes e: "v_env os" and g: "vgood {} {} Q u" and a: "a_cb (v_ans os (Uv_run m) u) = Some (Cb_close (H_tcp s))"
    and may: "uv_may (vl u) (Cb_close (H_tcp s))"
  shows "v_turn Q u (v_sock_close_cb os (v_event os m u) s)"
proof -
  let ?u = "v_event os m u"
  note c = vgood_core [OF g]
  have l: "vl ?u = (vl u)\<lparr>ul_tcp := (ul_tcp (vl u))(s := None)\<rparr>" using a by simp
  from may have cl: "ul_tcp (vl u) s = Some Tcp_closing" "\<And>t. ul_req (vl u) t \<noteq> Some (Rq_connect s)" by auto
  note dy = vcore_dying [OF c cl(1) l cl(2)]
  from dy(3) obtain y where y: "v_sh u s = Some y" ..
  have no: "\<not> tcp_is_open (vl u) s" using cl(1) by (simp add: tcp_is_open_def)
  have g1: "vgood {} {s} Q ?u"
    by (rule vgood_log [OF g]) (use dy(1) a no in \<open>auto simp: tcp_is_open_def split: if_splits\<close>)
  have k1: "vkeeps {} Q u Q ?u"
    unfolding vkeeps_def l using vkeep_sock [of "v_sh u", OF y, of "vl ?u" "vl u" "v_th u" "{}" Q y] no l y
    by (simp add: vusable_def fun_upd_idem)
  have c1: "v_count u ?u" by (simp add: v_count_same)
  define u2 where "u2 = v_close_slot_read os ?u s"
  have e2: "v_emptied {s} Q ?u s (y\<lparr>vs_read_task := None\<rparr>) u2"
    unfolding u2_def by (rule v_close_slots(1) [OF e g1]) (use y in auto)
  define u3 where "u3 = v_close_slot_accept os u2 s"
  have e3: "v_emptied {s} Q u2 s (y\<lparr>vs_read_task := None, vs_accept_task := None\<rparr>) u3"
    using v_close_slots(2) [OF e, of "{s}" Q u2 s "y\<lparr>vs_read_task := None\<rparr>"] e2 by (simp add: v_emptied_def u3_def)
  define y3 where "y3 = y\<lparr>vs_read_task := None, vs_accept_task := None\<rparr>"
  have s3: "v_sh u3 s = Some y3" "vgood {} {s} Q u3" using e3 by (simp_all add: v_emptied_def y3_def)
  let ?y = "y3\<lparr>vs_close_task := None\<rparr>"
  have e4: "\<exists>u4. v_emptied {s} Q u3 s ?y u4 \<and> v_sock_close_cb os ?u s = u4\<lparr>v_sh := (v_sh u4)(s := None)\<rparr>"
  proof (cases "vs_close_task y3")
    case None
    then have "?y = y3" by simp
    moreover have "v_sock_close_cb os ?u s = u3\<lparr>v_sh := (v_sh u3)(s := None)\<rparr>"
      using y None s3 by (simp add: v_sock_close_cb_def flip: u2_def u3_def)
    ultimately show ?thesis using v_emptied_same [OF s3(2,1)] by metis
  next
    case (Some t)
    let ?f = "\<lambda>y. y\<lparr>vs_close_task := None\<rparr>"
    note em = v_slot_emptied [where f = ?f and k = VTASK_SOCK_CLOSE and r = 0, OF e s3(2,1) _ _ slot_updI(3)]
    have "v_sh (v_task_complete os u3 t 0) = v_sh u3"
      using v_slot_closed(7) [where k = VTASK_SOCK_CLOSE and r = 0, OF e s3(2,1) _ _ slot_updI(3) _ refl] Some by simp
    then have "v_sock_close_cb os ?u s = (v_task_complete os u3 t 0)\<lparr>v_sh := (v_sh u3)(s := None)\<rparr>"
      using y Some s3 by (simp add: v_sock_close_cb_def flip: u2_def u3_def)
    with em Some show ?thesis by (intro exI [of _ "upd_vs s ?f (v_task_complete os u3 t 0)"]) simp
  qed
  then obtain u4 where u4: "v_emptied {s} Q u3 s ?y u4" "v_sock_close_cb os ?u s = u4\<lparr>v_sh := (v_sh u4)(s := None)\<rparr>" by blast
  have fin: "finite (v_pend ?u)" by (rule vgood_finite(2) [OF g1])
  have e24: "v_emptied {s} Q ?u s ?y u4"
    using v_emptied_trans [OF v_emptied_trans [OF e2 _ fin] _ fin] e3 u4(1) by (simp add: y3_def)
  then have em: "vgood {} {s} Q u4" "vkeeps {} Q ?u Q u4" "v_count ?u u4" "v_sh u4 s = Some ?y" "vl u4 = vl ?u"
    by (simp_all add: v_emptied_def)
  have id: "v_idle ?y" by (simp add: v_idle_def y3_def)
  have g4: "vgood {} {} Q (u4\<lparr>v_sh := (v_sh u4)(s := None), v_pnode := v_pnode u4\<rparr>)"
  proof (rule vgood_sh [OF em(1)])
    from vcore_sock_gone [OF vgood_core [OF em(1)] _ em(4) id]
    show "vcore {} {} (m_brk u4) (v_th u4) ((v_sh u4)(s := None)) Q (vl u4)" by simp
    show "wq_list (v_pnode u4) (vs_pending z) (Q q)" if "((v_sh u4)(s := None)) q = Some z" "tcp_is_open (vl u4) q" for q z
      using that vgood_queue [OF em(1)] by (simp split: if_splits)
  qed
  show ?thesis
    unfolding u4(2)
  proof (rule v_turnI)
    show "vgood {} {} Q (u4\<lparr>v_sh := (v_sh u4)(s := None)\<rparr>)" using g4 by (simp only: sock_pnode_id)
    have "\<not> tcp_is_open (vl u4) s" using em(5) l by (simp add: tcp_is_open_def)
    then have "vkeeps {} Q u4 Q (u4\<lparr>v_sh := (v_sh u4)(s := None)\<rparr>)"
      unfolding vkeeps_def using vkeep_sock_gone [of "vl u4" s "vl u4"] by simp
    then show "vkeeps {} Q u Q (u4\<lparr>v_sh := (v_sh u4)(s := None)\<rparr>)" by (rule vkeeps_trans [OF vkeeps_trans [OF k1 em(2)]])
    have "v_count u u4" by (rule v_count_trans [OF vgood_finite(2) [OF g] c1 em(3)])
    then show "v_count u (u4\<lparr>v_sh := (v_sh u4)(s := None)\<rparr>)" by (simp add: v_count_def)
  qed
qed

subsection \<open>A connection arrives\<close>

text \<open>Only the queue of a socket changes.\<close>

lemma vcore_pending:
  assumes c: "vcore T D b th sh Q l" and s: "sh s = Some y"
  shows "vcore T D b th (sh(s \<mapsto> y\<lparr>vs_pending := q\<rparr>)) Q l"
proof (rule vcore_sock_upd [OF c s])
  let ?y = "y\<lparr>vs_pending := q\<rparr>"
  have sl: "v_slot j ?y = v_slot j y" for j by (cases j) simp_all
  have id: "v_idle ?y = v_idle y" by (simp add: v_idle_def)
  show "tcp_off s l l" by (simp add: tcp_off_def)
  show "vsock D b l s ?y" using vcore_sock [OF c s] by (simp add: vsock_def)
  show "vtasks T b l th" by (rule vcore_parts(1) [OF c])
  show "vlinks T th (sh(s \<mapsto> ?y))" by (rule vlinks_keep [OF c s sl])
  show "v_idle ?y \<and> ul_tcp l s \<in> {Some (Tcp_open False False)} \<union> (if vt_connecting x then {Some Tcp_closing} else {})"
    if "th t = Some x" "vt_kind x = VTASK_CONNECT" "\<not> vt_done x" "t \<notin> T" "vt_sock x = Some s" for t x
    using vcore_conn [OF c that(1-4)] that(5) s id by (auto simp: vconn_ok_def)
  show "v_idle ?y \<and> ul_tcp l s = Some (Tcp_open False False)" if "s \<in> set (Q r)" for r
    using vcore_park [OF c that] s id by auto
  show "tcp_is_open l s" if "Q s \<noteq> []" using vcore_closed_queue [OF c, of s] that by blast
qed auto

text \<open>A fresh connection nobody claims is parked at the end of the listener's queue.\<close>

lemma vgood_pending_push:
  assumes g: "vgood {} {} Q u" and s: "v_sh u ls = Some y" "tcp_is_open (vl u) ls"
    and k: "v_sh u k = Some z" "v_idle z" "ul_tcp (vl u) k = Some (Tcp_open False False)" "k \<noteq> ls" "Q k = []" "vs_pending z = myio_wq_empty"
    and o: "\<And>t x. v_th u t = Some x \<Longrightarrow> v_own x \<noteq> Some k" and n: "\<And>r. k \<notin> set (Q r)"
  shows "vgood {} {} (Q(ls := Q ls @ [k])) (v_pending_push u ls k)" "vkeeps S Q u (Q(ls := Q ls @ [k])) (v_pending_push u ls k)"
    "v_th (v_pending_push u ls k) = v_th u" "v_ncompleted (v_pending_push u ls k) = v_ncompleted u"
proof -
  note c = vgood_core [OF g]
  let ?Q = "Q(ls := Q ls @ [k])"
  obtain b nx q where p: "myio_wq_push (v_pnode u) (vs_pending y) k = (b, nx, q)" by (cases "myio_wq_push (v_pnode u) (vs_pending y) k")
  let ?sh = "(v_sh u)(ls \<mapsto> y\<lparr>vs_pending := q\<rparr>)"
  have d: "v_pending_push u ls k = u\<lparr>v_sh := ?sh, v_pnode := nx\<rparr>" using p s(1) by (simp add: v_pending_push_def)
  note wl = vgood_queue [OF g s]
  have core: "vcore {} {} (m_brk u) (v_th u) (v_sh u) ?Q (vl u)" by (rule vcore_park_add [OF c s(2) k(1-3) o n])
  have core': "vcore {} {} (m_brk u) (v_th u) ?sh ?Q (vl u)" by (rule vcore_pending [OF core s(1)])
  show "vgood {} {} ?Q (v_pending_push u ls k)"
    unfolding d
  proof (rule vgood_sh [OF g core'])
    fix r w
    assume r: "?sh r = Some w" "tcp_is_open (vl u) r"
    show "wq_list nx (vs_pending w) (?Q r)"
    proof (cases "r = ls")
      case True
      with r wq_push_list(1) [OF wl n p] show ?thesis by auto
    next
      case False
      with r have w: "v_sh u r = Some w" by simp
      have "set (Q ls) \<inter> set (Q r) = {}" using vcore_park_inj [OF c] False by blast
      from wq_push_frame [OF wl vgood_queue [OF g w r(2)] this n p] False show ?thesis by simp
    qed
  qed
  show "vkeeps S Q u ?Q (v_pending_push u ls k)"
    unfolding d vkeeps_def
  proof (simp, rule vkeep_trans)
    show "vkeep S (v_th u) (v_sh u) Q (vl u) (v_th u) (v_sh u) ?Q (vl u)"
      using o by (intro vkeep_park) (auto split: if_splits)
    show "vkeep S (v_th u) (v_sh u) ?Q (vl u) (v_th u) ?sh ?Q (vl u)"
      by (rule vkeep_sock [of "v_sh u", OF s(1)]) (use s(2) in auto)
  qed
  show "v_th (v_pending_push u ls k) = v_th u" "v_ncompleted (v_pending_push u ls k) = v_ncompleted u" by (simp_all add: d)
qed

text \<open>An accept that waits gets the connection.\<close>

lemma v_accept_wins:
  assumes e: "v_env os" and g: "vgood {t} {} Q w" and t: "v_th w t = Some x" "vt_kind x = VTASK_ACCEPT" "\<not> vt_done x"
    and k: "v_sh w k \<noteq> None" "tcp_is_open (vl w) k" "\<And>r. k \<notin> set (Q r)" "\<And>q z. v_th w q = Some z \<Longrightarrow> v_own z \<noteq> Some k"
    and u': "u' = v_task_complete os (upd_vt t (\<lambda>x. x\<lparr>vt_res := (vt_res x)\<lparr>res_ptr := Some k\<rparr>\<rparr>) w) t 0"
  shows "\<exists>Q'. vgood {} {} Q' u' \<and> vkeeps {} Q w Q' u' \<and> v_settled w t u' \<and>
    (\<not> vt_detached x \<longrightarrow> v_th u' t = Some (x\<lparr>vt_res := (vt_res x)\<lparr>res_status := MYIO_OK, res_value := 0, res_ptr := Some k\<rparr>, vt_done := True\<rparr>))"
proof -
  let ?f = "\<lambda>x. x\<lparr>vt_res := v_complete_res 0 ((vt_res x)\<lparr>res_ptr := Some k\<rparr>)\<rparr>"
  from k(1) obtain z where z: "v_sh w k = Some z" by blast
  have "k < m_brk w" using vcore_sock [OF vgood_core [OF g] z] by (simp add: vsock_def)
  then have s: "v_settles {t} {} Q w t x (?f x)" unfolding v_settles_def using t k by auto
  have "u' = v_task_finish os (upd_vt t ?f w) t" using t(1) by (simp add: u' v_task_complete_def)
  from vgood_settle [where f = ?f, OF e g s this]
  show ?thesis by (auto simp: v_complete_status)
qed

lemma v_turn_connection:
  assumes e: "v_env os" and g: "vgood {} {} Q u" and a: "a_cb (v_ans os (Uv_run m) u) = Some (Cb_connection ls st)"
    and may: "uv_may (vl u) (Cb_connection ls st)"
  shows "v_turn Q u (v_connection_cb os (v_event os m u) ls st)"
proof -
  let ?u = "v_event os m u"
  note c = vgood_core [OF g]
  have g1: "vgood {} {} Q ?u" "vkeeps {} Q u Q ?u" using vgood_log_same [where os = os and c = "Uv_run m", OF g] a by simp_all
  from may obtain b where b: "ul_tcp (vl u) ls = Some (Tcp_open b True)" by auto
  then obtain y where y: "v_sh u ls = Some y" using vcore_no_sock [OF c, of ls] by (cases "v_sh u ls") auto
  have l: "vl ?u = vl u" using a by simp
  have acc: "\<exists>x. v_th u t = Some x \<and> vt_kind x = VTASK_ACCEPT \<and> \<not> vt_done x" if "vs_accept_task y = Some t" for t
    using vcore_slot [OF c y, of VTASK_ACCEPT t] that by auto
  let ?y = "y\<lparr>vs_accept_task := None\<rparr>"
  show ?thesis
  proof (cases "st < 0")
    case True
    show ?thesis
    proof (cases "vs_accept_task y")
      case None
      with True y g1 show ?thesis by (simp add: v_connection_cb_def v_turnI v_count_same)
    next
      case (Some t)
      from acc [OF Some] obtain x where x: "v_th u t = Some x" "vt_kind x = VTASK_ACCEPT" "\<not> vt_done x" by blast
      let ?w = "?u\<lparr>v_sh := (v_sh ?u)(ls \<mapsto> ?y)\<rparr>"
      have v: "vsock {} (m_brk ?u) (vl ?u) ls ?y" using vcore_sock [OF c y] l by (simp add: vsock_def)
      have un: "vgood {t} {} Q ?w" "vkeeps {} Q ?u Q ?w"
        by (rule vgood_unlink [where k = VTASK_ACCEPT, OF g1(1) _ _ slot_updI(2) _ v]; use y Some in simp)+
      have tw: "v_th ?w t = Some x" using x(1) by simp
      have cm: "v_completes {t} {} Q ?w t x (v_complete_res st (vt_res x)) (v_task_complete os ?w t st)"
        by (rule vgood_complete [OF e un(1) _ tw]) (use x(2) in auto)
      have "v_connection_cb os ?u ls st = v_task_complete os ?w t st" using True y Some by (simp add: v_connection_cb_def)
      with v_turn_completes [OF un(1) vkeeps_trans [OF g1(2) un(2)] _ _ tw cm] show ?thesis by simp
    qed
  next
    case False
    obtain cp u2 where nw: "v_sock_new os ?u = (cp, u2)" by (cases "v_sock_new os ?u")
    note sn = vgood_sock_new(1) [where S = "{}", OF e g1(1) nw] vgood_sock_new(2,3) [OF e g1(1) nw]
    show ?thesis
    proof (cases cp)
      case None
      have "v_count u u2" using sn(2,3) by (intro v_count_same) (simp_all add: v_pend_def)
      moreover have "vgood {} {} Q u2" "vkeeps {} Q ?u Q u2" using sn(1) None by simp_all
      ultimately have "v_turn Q u u2" using vkeeps_trans [OF g1(2)] by (intro v_turnI)
      moreover have "v_connection_cb os ?u ls st = u2" using None nw False y by (simp add: v_connection_cb_def)
      ultimately show ?thesis by simp
    next
      case (Some k)
      let ?c = "Uv_accept ls k"
      let ?u3 = "v_log os ?c u2"
      have g2: "vgood {} {} Q u2" "vkeeps {} Q ?u Q u2" "v_sh ?u k = None" "v_sh u2 = (v_sh ?u)(k \<mapsto> v_sock0)"
        "vl u2 = (vl ?u)\<lparr>ul_tcp := (ul_tcp (vl ?u))(k \<mapsto> Tcp_open False False)\<rparr>" "k = m_brk ?u"
        "\<And>t x. v_th ?u t = Some x \<Longrightarrow> v_own x \<noteq> Some k" "\<And>r. k \<notin> set (Q r)" "Q k = []" "v_th u2 = v_th ?u"
        using sn Some by auto
      have kl: "k \<noteq> ls" using g2(3) y by auto
      have tcp: "ul_tcp (vl u2) ls = Some (Tcp_open b True)" "ul_tcp (vl u2) k = Some (Tcp_open False False)"
        using g2(5) b kl l by simp_all
      have g3: "vgood {} {} Q ?u3" "vkeeps {} Q u2 Q ?u3"
        using vgood_log_same [where os = os and c = ?c, OF g2(1)] tcp by (simp_all add: tcp_is_open_def)
      have k3: "vkeeps {} Q u Q ?u3" by (rule vkeeps_trans [OF vkeeps_trans [OF g1(2) g2(2)] g3(2)])
      have p3: "v_pend ?u3 = v_pend u" "v_ncompleted ?u3 = v_ncompleted u" using sn(2,3) by (simp_all add: v_pend_def)
      have y3: "v_sh ?u3 ls = Some y" "v_sh ?u3 k = Some v_sock0" using g2(4) y kl by simp_all
      have o3: "v_own z \<noteq> Some k" if "v_th ?u3 q = Some z" for q z using g2(7,10) that by simp
      show ?thesis
      proof (cases "a_ret (v_ans os ?c u2) = 0")
        case no: False
        have un: "v_th ?u3 q = Some z \<Longrightarrow> vt_kind z = VTASK_CONNECT \<Longrightarrow> \<not> vt_done z \<Longrightarrow> vt_sock z \<noteq> Some k" for q z
          using vgood_conn_private(1) [OF g3(1), of q z k] o3 [of q z] by blast
        have ur: "v_th ?u3 q = Some z \<Longrightarrow> res_ptr (vt_res z) \<noteq> Some k" for q z using o3 [of q z] by (auto simp: v_own_def)
        have "vgood {} {} (Q(k := [])) (v_sock_destroy os ?u3 k)" "vkeeps {} Q ?u3 (Q(k := [])) (v_sock_destroy os ?u3 k)"
          "v_th (v_sock_destroy os ?u3 k) = v_th ?u3" "v_ncompleted (v_sock_destroy os ?u3 k) = v_ncompleted ?u3"
          by (rule vgood_sock_destroy [where S = "{}", OF e g3(1) y3(2) _ g2(8)]; use un ur in blast)+
        then have "v_turn Q u (v_sock_destroy os ?u3 k)"
          using p3 by (intro v_turnI [OF _ vkeeps_trans [OF k3]] v_count_same) (auto simp: v_pend_def)
        then show ?thesis using False no nw Some y by (simp add: v_connection_cb_def uv_eq Let_def)
      next
        case ok: True
        show ?thesis
        proof (cases "vs_accept_task y")
          case None
          have op: "tcp_is_open (vl ?u3) ls" using tcp by (simp add: tcp_is_open_def)
          have id: "v_idle v_sock0" "vs_pending v_sock0 = myio_wq_empty" by (simp_all add: v_idle_def v_sock0_def)
          have t3: "ul_tcp (vl ?u3) k = Some (Tcp_open False False)" using tcp by simp
          have ps: "vgood {} {} (Q(ls := Q ls @ [k])) (v_pending_push ?u3 ls k)"
            "vkeeps {} Q ?u3 (Q(ls := Q ls @ [k])) (v_pending_push ?u3 ls k)"
            "v_th (v_pending_push ?u3 ls k) = v_th ?u3" "v_ncompleted (v_pending_push ?u3 ls k) = v_ncompleted ?u3"
            by (rule vgood_pending_push [OF g3(1) y3(1) op y3(2) id(1) t3 kl g2(9) id(2)]; use o3 g2(8) in blast)+
          have "v_connection_cb os ?u ls st = v_pending_push ?u3 ls k"
            using False ok nw Some y None y3 by (simp add: v_connection_cb_def uv_eq)
          moreover have "v_count u (v_pending_push ?u3 ls k)" using ps(3,4) p3 by (intro v_count_same) (auto simp: v_pend_def)
          ultimately show ?thesis using v_turnI [OF ps(1) vkeeps_trans [OF k3 ps(2)]] by simp
        next
          case t: (Some t)
          from acc [OF t] obtain x where x: "v_th u t = Some x" "vt_kind x = VTASK_ACCEPT" "\<not> vt_done x" by blast
          let ?w = "?u3\<lparr>v_sh := (v_sh ?u3)(ls \<mapsto> ?y)\<rparr>"
          have v: "vsock {} (m_brk ?u3) (vl ?u3) ls ?y" using vcore_sock [OF vgood_core [OF g3(1)] y3(1)] by (simp add: vsock_def)
          have un: "vgood {t} {} Q ?w" "vkeeps {} Q ?u3 Q ?w"
            by (rule vgood_unlink [where k = VTASK_ACCEPT, OF g3(1) y3(1) _ slot_updI(2) _ v]; use t in simp)+
          have tw: "v_th ?w t = Some x" using x(1) g2(10) by simp
          let ?u' = "v_task_complete os (upd_vt t (\<lambda>x. x\<lparr>vt_res := (vt_res x)\<lparr>res_ptr := Some k\<rparr>\<rparr>) ?w) t 0"
          have "\<exists>Q'. vgood {} {} Q' ?u' \<and> vkeeps {} Q ?w Q' ?u' \<and> v_settled ?w t ?u'"
            using v_accept_wins [OF e un(1) tw x(2,3) _ _ g2(8) _ refl] y3(2) kl tcp o3 by (auto simp: tcp_is_open_def)
          then obtain Q' where Q': "vgood {} {} Q' ?u'" "vkeeps {} Q ?w Q' ?u'" "v_settled ?w t ?u'" by blast
          have "v_connection_cb os ?u ls st = ?u'" using False ok nw Some y t y3 by (simp add: v_connection_cb_def uv_eq)
          moreover have "v_count u ?u'" using v_settled_count [OF Q'(3) v_pendI [OF un(1) _ tw]] p3 by (simp add: v_count_def)
          ultimately show ?thesis using v_turnI [OF Q'(1) vkeeps_trans [OF vkeeps_trans [OF k3 un(2)] Q'(2)]] by simp
        qed
      qed
    qed
  qed
qed

end
