(* ===== verification/Myio_Uv_Run.thy ===== *)
theory Myio_Uv_Run
  imports Myio_Uv_Events
begin

text \<open>
  A run of the libuv backend's loop: every callback keeps the invariant, the tasks the
  caller holds and their results, and counts every completion; a run that ends because the
  loop is dead leaves nothing pending.
\<close>

subsection \<open>Any callback\<close>

lemma uv_okD: "uv_ok os \<Longrightarrow> uv_disciplined tr \<Longrightarrow>
    (\<forall>m cb. a_cb (os tr (C_uv (Uv_run m))) = Some cb \<longrightarrow> uv_may (uv_state tr) cb \<and>
        (\<forall>t r. cb = Cb_getaddrinfo t r \<longrightarrow> r \<ge> 0 \<longrightarrow> a_addrs (os tr (C_uv (Uv_run m))) \<noteq> [])) \<and>
     (\<forall>m. a_cb (os tr (C_uv (Uv_run m))) = None \<longrightarrow>
        m = UV_RUN_DEFAULT \<or> a_ret (os tr (C_uv (Uv_run m))) = 0 \<longrightarrow> uv_quiet (uv_state tr))"
  unfolding uv_ok_def by (elim allE [of _ tr] impE) simp_all

lemma uv_run_may:
  assumes "uv_ok os" and "uv_disciplined (m_trace u)" and "a_cb (v_ans os (Uv_run m) u) = Some cb"
  shows "uv_may (vl u) cb" "\<And>t r. cb = Cb_getaddrinfo t r \<Longrightarrow> r \<ge> 0 \<Longrightarrow> a_addrs (v_ans os (Uv_run m) u) \<noteq> []"
  using uv_okD [OF assms(1,2)] assms(3) by simp_all

lemma uv_run_quiet:
  assumes "uv_ok os" and "uv_disciplined (m_trace u)" and "a_cb (v_ans os (Uv_run m) u) = None"
    and "m = UV_RUN_DEFAULT \<or> a_ret (v_ans os (Uv_run m) u) = 0"
  shows "uv_quiet (vl u)"
  using uv_okD [OF assms(1,2)] assms(3,4) by blast

lemma v_turn_callback:
  assumes e: "v_env os" and g: "vgood {} {} Q u" and a: "a_cb (v_ans os (Uv_run m) u) = Some cb"
  shows "v_turn Q u (v_callback os (v_event os m u) cb (a_addrs (v_ans os (Uv_run m) u)))"
proof -
  note may = uv_run_may [OF v_env_ok [OF e] vgood_disc [OF g] a]
  show ?thesis
  proof (cases cb)
    case (Cb_close h)
    show ?thesis
    proof (cases h)
      case (H_timer t)
      with Cb_close show ?thesis using v_turn_timer_close [OF g, of os m t] a may(1) by simp
    next
      case (H_tcp s)
      with Cb_close show ?thesis using v_turn_sock_close [OF e g, of m s] a may(1) by simp
    qed
  next
    case (Cb_fs t r)
    then show ?thesis using v_turn_fs [OF e g, of m t r] a may(1) by simp
  next
    case (Cb_timer t)
    then show ?thesis using v_turn_timer [OF e g, of m t] a may(1) by simp
  next
    case (Cb_work t)
    then show ?thesis using v_turn_work [OF e g, of m t] a may(1) by simp
  next
    case (Cb_after_work t r)
    then show ?thesis using v_turn_after_work [OF e g, of m t r] a may(1) by simp
  next
    case (Cb_getaddrinfo t r)
    then show ?thesis using v_turn_gai [OF e g, of m t r] a may by simp
  next
    case (Cb_connect t r)
    then show ?thesis using v_turn_connect [OF e g, of m t r] a may(1) by simp
  next
    case (Cb_connection s r)
    then show ?thesis using v_turn_connection [OF e g, of m s r] a may(1) by simp
  next
    case (Cb_alloc s)
    then show ?thesis using v_turn_alloc [OF g, of os m s] a may(1) by simp
  next
    case (Cb_read s n)
    then show ?thesis using v_turn_read [OF e g, of m s n] a may(1) by simp
  next
    case (Cb_write t r)
    then show ?thesis using v_turn_write [OF e g, of m t r] a may(1) by simp
  qed
qed

subsection \<open>Runs\<close>

text \<open>What a run does, and that its last event says that it is over.\<close>

definition v_ran :: "os \<Rightarrow> uv_run_mode \<Rightarrow> vqueues \<Rightarrow> uv_io \<Rightarrow> int \<Rightarrow> uv_io \<Rightarrow> bool" where
  "v_ran os m Q u rc u' \<longleftrightarrow> v_turn Q u u' \<and> (m = UV_RUN_DEFAULT \<or> rc = 0 \<longrightarrow> uv_quiet (vl u'))"

text \<open>What every event of a run keeps, the run keeps.\<close>

lemma v_run_keeps:
  assumes "v_run os m u = Some (rc, u')" and "P u"
    and "\<And>u. P u \<Longrightarrow> a_cb (v_ans os (Uv_run m) u) = None \<Longrightarrow> P (v_event os m u)"
    and "\<And>u cb. P u \<Longrightarrow> a_cb (v_ans os (Uv_run m) u) = Some cb \<Longrightarrow>
      P (v_callback os (v_event os m u) cb (a_addrs (v_ans os (Uv_run m) u)))"
  shows "P u'"
proof -
  have "os = os \<longrightarrow> m = m \<longrightarrow> P u \<longrightarrow> P (snd (rc, u'))"
  proof (rule v_run.raw_induct [where P = "\<lambda>os' m' u y. os' = os \<longrightarrow> m' = m \<longrightarrow> P u \<longrightarrow> P (snd y)", OF _ assms(1)])
    fix f os' m' u y
    assume IH: "\<And>os' m' u y. f os' m' u = Some y \<Longrightarrow> os' = os \<longrightarrow> m' = m \<longrightarrow> P u \<longrightarrow> P (snd y)"
      and eq: "(let (a, u) = uv os' (Uv_run m') u in
        case a_cb a of None \<Rightarrow> Some (a_ret a, u) | Some cb \<Rightarrow> f os' m' (v_callback os' u cb (a_addrs a))) = Some y"
    show "os' = os \<longrightarrow> m' = m \<longrightarrow> P u \<longrightarrow> P (snd y)"
    proof (intro impI)
      assume s: "os' = os" "m' = m" and P: "P u"
      show "P (snd y)"
      proof (cases "a_cb (v_ans os (Uv_run m) u)")
        case None
        with eq s assms(3) [OF P] show ?thesis by (auto simp: uv_eq)
      next
        case (Some cb)
        with eq s have "f os m (v_callback os (v_event os m u) cb (a_addrs (v_ans os (Uv_run m) u))) = Some y" by (simp add: uv_eq)
        with IH assms(4) [OF P Some] show ?thesis by blast
      qed
    qed
  qed
  with assms(2) show ?thesis by simp
qed

lemma v_turn_trans:
  assumes "vgood {} {} Q u" and "v_turn Q u u1" and "\<And>Q1. vgood {} {} Q1 u1 \<Longrightarrow> v_turn Q1 u1 u2"
  shows "v_turn Q u u2"
proof -
  from assms(2) obtain Q1 where 1: "vgood {} {} Q1 u1" "vkeeps {} Q u Q1 u1" "v_count u u1" by (auto simp: v_turn_def)
  from assms(3) [OF 1(1)] obtain Q2 where 2: "vgood {} {} Q2 u2" "vkeeps {} Q1 u1 Q2 u2" "v_count u1 u2" by (auto simp: v_turn_def)
  show ?thesis
    by (rule v_turnI [OF 2(1) vkeeps_trans [OF 1(2) 2(2)] v_count_trans [OF vgood_finite(2) [OF assms(1)] 1(3) 2(3)]])
qed

lemma v_run_ran:
  assumes "v_env os" and "vgood {} {} Q u" and "v_run os m u = Some (rc, u')"
  shows "v_ran os m Q u rc u'"
proof -
  have "v_env os \<longrightarrow> (\<forall>Q. vgood {} {} Q u \<longrightarrow> v_ran os m Q u (fst (rc, u')) (snd (rc, u')))"
  proof (rule v_run.raw_induct [where P = "\<lambda>os m u y. v_env os \<longrightarrow> (\<forall>Q. vgood {} {} Q u \<longrightarrow> v_ran os m Q u (fst y) (snd y))", OF _ assms(3)])
    fix f os m u y
    assume IH: "\<And>os m u y. f os m u = Some y \<Longrightarrow> v_env os \<longrightarrow> (\<forall>Q. vgood {} {} Q u \<longrightarrow> v_ran os m Q u (fst y) (snd y))"
      and eq: "(let (a, u) = uv os (Uv_run m) u in
        case a_cb a of None \<Rightarrow> Some (a_ret a, u) | Some cb \<Rightarrow> f os m (v_callback os u cb (a_addrs a))) = Some y"
    show "v_env os \<longrightarrow> (\<forall>Q. vgood {} {} Q u \<longrightarrow> v_ran os m Q u (fst y) (snd y))"
    proof (intro impI allI)
      fix Q
      assume e: "v_env os" and g: "vgood {} {} Q u"
      let ?a = "v_ans os (Uv_run m) u"
      show "v_ran os m Q u (fst y) (snd y)"
      proof (cases "a_cb ?a")
        case None
        with eq have y: "y = (a_ret ?a, v_event os m u)" by (simp add: uv_eq)
        have "vgood {} {} Q (v_event os m u)" "vkeeps {} Q u Q (v_event os m u)"
          using vgood_log_same [where os = os and c = "Uv_run m", OF g] None by simp_all
        then have "v_turn Q u (v_event os m u)" by (rule v_turnI) (simp add: v_count_same)
        moreover have "m = UV_RUN_DEFAULT \<or> a_ret ?a = 0 \<Longrightarrow> uv_quiet (vl u)"
          by (rule uv_run_quiet [OF v_env_ok [OF e] vgood_disc [OF g] None])
        ultimately show ?thesis using None by (simp add: v_ran_def y)
      next
        case (Some cb)
        let ?u = "v_callback os (v_event os m u) cb (a_addrs ?a)"
        from Some eq have f: "f os m ?u = Some y" by (simp add: uv_eq)
        note t = v_turn_callback [OF e g Some]
        then obtain Q1 where g1: "vgood {} {} Q1 ?u" by (auto simp: v_turn_def)
        have r: "v_ran os m Q1 ?u (fst y) (snd y)" if "vgood {} {} Q1 ?u" for Q1 using IH [OF f] e that by blast
        have "v_turn Q u (snd y)" by (rule v_turn_trans [OF g t]) (use r in \<open>auto simp: v_ran_def\<close>)
        with r [OF g1] show ?thesis by (simp add: v_ran_def)
      qed
    qed
  qed
  with assms show ?thesis by simp
qed

lemma v_step_turn:
  assumes "v_env os" and "vgood {} {} Q u" and "v_step os u = Some (b, u')"
  shows "v_turn Q u u'" "\<not> b \<Longrightarrow> uv_quiet (vl u') \<and> v_pend u' = v_pend u"
proof -
  from assms(3) obtain rc where rc: "v_run os UV_RUN_ONCE u = Some (rc, u')" "b \<longleftrightarrow> rc \<noteq> 0 \<or> v_ncompleted u' \<noteq> v_ncompleted u"
    by (auto simp: v_step_def)
  note r = v_run_ran [OF assms(1,2) rc(1)]
  then show t: "v_turn Q u u'" by (simp add: v_ran_def)
  assume "\<not> b"
  with rc(2) have q: "rc = 0" "v_ncompleted u' = v_ncompleted u" by auto
  from t have "v_count u u'" by (auto simp: v_turn_def)
  from v_count_still [OF this vgood_finite(2,3) [OF assms(2)] q(2)] r q(1)
  show "uv_quiet (vl u') \<and> v_pend u' = v_pend u" by (simp add: v_ran_def)
qed

subsection \<open>Accepts wait on listeners\<close>

text \<open>An accept submitted on a listening socket stays on one, until that closes.\<close>

definition v_listens :: "uv_io \<Rightarrow> bool" where
  "v_listens u \<longleftrightarrow> (\<forall>s y r. v_sh u s = Some y \<longrightarrow> vs_accept_task y \<noteq> None \<longrightarrow> ul_tcp (vl u) s \<noteq> Some (Tcp_open r False))"

lemma v_listensI:
  assumes "v_listens u"
    and "\<And>s y. v_sh u' s = Some y \<Longrightarrow> vs_accept_task y \<noteq> None \<Longrightarrow> \<exists>y'. v_sh u s = Some y' \<and> vs_accept_task y' \<noteq> None"
    and "\<And>s r. v_sh u s \<noteq> None \<Longrightarrow> ul_tcp (vl u') s = Some (Tcp_open r False) \<Longrightarrow> \<exists>r. ul_tcp (vl u) s = Some (Tcp_open r False)"
  shows "v_listens u'"
  unfolding v_listens_def
proof (intro allI impI notI)
  fix s y r
  assume s: "v_sh u' s = Some y" "vs_accept_task y \<noteq> None" "ul_tcp (vl u') s = Some (Tcp_open r False)"
  from assms(2) [OF s(1,2)] obtain y' where y: "v_sh u s = Some y'" "vs_accept_task y' \<noteq> None" by blast
  then obtain r where "ul_tcp (vl u) s = Some (Tcp_open r False)" using assms(3) [OF _ s(3)] by auto
  with assms(1) y show False unfolding v_listens_def by blast
qed

lemma uv_effect_listen:
  assumes "\<And>s. c \<noteq> Uv_tcp_init s" and "ul_tcp (uv_effect c a l) s = Some (Tcp_open r False)"
  shows "\<exists>r. ul_tcp l s = Some (Tcp_open r False)"
proof -
  have d: "ul_tcp (uv_deliver cb l) s = Some (Tcp_open r False) \<Longrightarrow> ul_tcp l s = Some (Tcp_open r False)" for cb
    by (cases "(cb, l)" rule: uv_deliver.cases) (auto simp: uv_finish_def split: if_splits)
  show ?thesis
    using assms by (cases "(c, a, l)" rule: uv_effect.cases)
      (auto simp: uv_start_def tcp_reading_def tcp_listening_def dest: d split: if_splits option.splits tcp_state.splits)
qed

lemma v_listens_log:
  assumes "v_listens u" and "\<And>s. c \<noteq> Uv_tcp_init s"
  shows "v_listens (v_log os c u)"
  using assms(1) by (rule v_listensI) (use uv_effect_listen [OF assms(2)] in auto)

lemma v_listens_heap [simp]:
  "v_listens (m_flag u) = v_listens u" "v_listens (u\<lparr>v_th := th\<rparr>) = v_listens u" "v_listens (u\<lparr>v_ncompleted := n\<rparr>) = v_listens u"
  "v_listens (u\<lparr>v_pnode := nx\<rparr>) = v_listens u"
  by (simp_all add: v_listens_def m_flag_def)

lemma v_listens_acc [simp]:
  "v_listens (upd_vt t f u) = v_listens u" "v_listens (chk_vt t u) = v_listens u" "v_listens (chk_vs s u) = v_listens u"
  "v_listens (free_vt t u) = v_listens u"
  by (simp_all add: upd_vt_def chk_vt_def chk_vs_def free_vt_def split: option.splits)

lemma v_listens_upd_vs:
  assumes "v_listens u" and "\<And>y. vs_accept_task (f y) = vs_accept_task y \<or> vs_accept_task (f y) = None"
  shows "v_listens (upd_vs s f u)"
proof (cases "v_sh u s")
  case (Some y)
  have "\<exists>y'. v_sh u r = Some y' \<and> vs_accept_task y' \<noteq> None" if "((v_sh u)(s \<mapsto> f y)) r = Some z" "vs_accept_task z \<noteq> None" for r z
    using that Some assms(2) [of y] by (cases "r = s") auto
  with assms(1) Some show ?thesis by (auto intro!: v_listensI [of u])
qed (use assms(1) in \<open>simp add: upd_vs_def\<close>)

lemma v_listens_free_vs: "v_listens u \<Longrightarrow> v_listens (free_vs s u)"
  by (auto simp: free_vs_def chk_vs_def v_listens_def m_flag_def)

lemma v_listens_alloc:
  assumes "v_listens u"
  shows "v_listens (snd (sys_alloc os u))" "v_listens (snd (v_task_new os u k))"
  using assms by (auto simp: v_task_new_def sys_alloc_def sys_call_def Let_def v_listens_def split: option.splits)

lemma v_listens_sock_new:
  assumes "v_listens u"
  shows "v_listens (snd (v_sock_new os u))"
  using assms by (auto simp: v_sock_new_def sys_alloc_def sys_call_def Let_def v_listens_def uv_do_eq v_sock0_def split: if_splits)

named_theorems v_listens_intros

lemmas [v_listens_intros] = v_listens_log v_listens_upd_vs v_listens_free_vs

lemma v_listens_destroy [v_listens_intros]:
  assumes "v_listens u"
  shows "v_listens (v_sock_destroy os u s)" "v_listens (v_sock_destroy_at os u p)"
  using assms by (auto simp: v_sock_destroy_def v_sock_destroy_at_def uv_eq uv_do_eq Let_def intro!: v_listens_intros split: option.splits)

lemma v_listens_reap [v_listens_intros]:
  assumes "v_listens u"
  shows "v_listens (v_release os u t)" "v_listens (v_task_reap os u t)"
proof -
  have r: "v_listens (v_release os u t)" if "v_listens u" for u
    using that by (auto simp: v_release_def uv_eq uv_do_eq Let_def intro!: v_listens_intros)
  show "v_listens (v_release os u t)" by (rule r [OF assms])
  show "v_listens (v_task_reap os u t)"
    unfolding v_task_reap_def Let_def using assms by (auto intro!: r v_listens_intros split: option.splits)
qed

lemma v_listens_complete [v_listens_intros]:
  assumes "v_listens u"
  shows "v_listens (v_task_complete os u t r)" "v_listens (v_task_error os u t er)"
  using assms by (auto simp: v_task_complete_def v_task_error_def v_task_finish_def Let_def intro!: v_listens_intros)

lemma v_listens_slots [v_listens_intros]:
  assumes "v_listens u"
  shows "v_listens (v_close_slot_read os u s)" "v_listens (v_close_slot_accept os u s)" "v_listens (v_pending_push u ls k)"
    "v_listens (v_pending_pop u ls)"
  using assms by (auto simp: v_close_slot_read_def v_close_slot_accept_def v_pending_push_def v_pending_pop_def
      intro!: v_listens_intros split: option.splits prod.splits)

lemma v_listens_fn:
  "v_listens u \<Longrightarrow> v_listens (snd (sys_call os (C_fn f a) u))"
  by (simp add: sys_call_def Let_def v_listens_def)

lemma v_listens_connection:
  assumes "v_listens u"
  shows "v_listens (v_connection_cb os u s r)"
proof -
  let ?u = "chk_vs s u"
  obtain p u1 where n: "v_sock_new os ?u = (p, u1)" by (cases "v_sock_new os ?u")
  have l: "v_listens ?u" using assms by simp
  have "v_listens u1" using v_listens_sock_new [OF l, of os] n by simp
  with l n show ?thesis
    unfolding v_connection_cb_def Let_def by (auto simp: uv_eq intro!: v_listens_intros split: option.splits)
qed

lemma v_listens_callback:
  assumes "v_listens u"
  shows "v_listens (v_callback os u cb ads)"
proof (cases cb)
  case (Cb_close h)
  with assms show ?thesis
    by (cases h) (auto simp: v_timer_close_cb_def v_sock_close_cb_def Let_def intro!: v_listens_intros split: option.splits)
next
  case (Cb_connection s r)
  with v_listens_connection [OF assms] show ?thesis by simp
next
  case (Cb_work t)
  with assms show ?thesis by (simp add: v_work_cb_def split_beta Let_def v_listens_fn)
next
  case (Cb_getaddrinfo t r)
  with assms show ?thesis
    by (auto simp: v_gai_cb_def v_task_fail_gai_def uv_eq uv_do_eq Let_def intro!: v_listens_intros split: option.splits list.splits)
qed (use assms in \<open>auto simp: v_fs_cb_def v_timer_cb_def v_after_work_cb_def v_connect_cb_def v_read_alloc_cb_def
    v_read_cb_def v_write_cb_def uv_do_eq Let_def intro!: v_listens_intros split: option.splits\<close>)

lemma v_listens_run:
  assumes "v_listens u" and "v_run os m u = Some (rc, u')"
  shows "v_listens u'"
proof (rule v_run_keeps [where P = v_listens, OF assms(2,1)])
  fix u cb
  assume "v_listens u"
  then show l: "v_listens (v_event os m u)" by (rule v_listens_log) simp
  show "v_listens (v_callback os (v_event os m u) cb (a_addrs (v_ans os (Uv_run m) u)))" by (rule v_listens_callback [OF l])
qed

lemma v_listens_step: "v_listens u \<Longrightarrow> v_step os u = Some (b, u') \<Longrightarrow> v_listens u'"
  by (auto simp: v_step_def intro: v_listens_run)

subsection \<open>A dead loop has nothing pending\<close>

lemma vgood_quiet_done:
  assumes g: "vgood {} {} Q u" and q: "uv_quiet (vl u)" and ls: "vt_kind x = VTASK_ACCEPT \<Longrightarrow> v_listens u" and t: "v_th u t = Some x" "\<not> vt_free_on_close x"
  shows "vt_done x"
proof (rule ccontr)
  assume n: "\<not> vt_done x"
  note c = vgood_core [OF g]
  note v = vcore_task [OF c t(1)]
  from q have rq: "ul_req (vl u) t = None" "ul_timer (vl u) t \<noteq> Some Timer_armed"
    and tcp: "\<And>s. ul_tcp (vl u) s \<in> {None, Some (Tcp_open False False)}" by (auto simp: uv_quiet_def) (metis timer_state.distinct(1) option.inject option.distinct(1))
  have cn: "vt_kind x = VTASK_CONNECT \<Longrightarrow> vt_sock x \<noteq> None" using vcore_conn [OF c t(1) _ n] by (auto simp: vconn_ok_def)
  from v rq(1) n cn have k: "v_pull (vt_kind x) \<or> vt_kind x = VTASK_TIMER"
    by (auto simp: vtask_def v_want_req_def v_pull_def split: v_kind.splits if_splits)
  show False
  proof (cases "vt_kind x = VTASK_TIMER")
    case True
    with v n t(2) rq(2) show False by (auto simp: vtask_def v_want_timer_def)
  next
    case False
    with k have pl: "v_pull (vt_kind x)" by simp
    from vcore_pull [OF c t(1) pl n] obtain s y where s: "v_sh u s = Some y" "v_slot (vt_kind x) y = Some t" by auto
    from vcore_sock [OF c s(1)] tcp [of s] have "ul_tcp (vl u) s = Some (Tcp_open False False)" by (auto simp: vsock_def)
    with vcore_sock [OF c s(1)] s pl ls show False by (auto simp: vsock_def v_pull_def v_listens_def)
  qed
qed

end
