(* ===== verification/Myio_Uv_Submit.thy ===== *)
theory Myio_Uv_Submit
  imports Myio_Uv_Run
begin

text \<open>
  The submits of the libuv backend keep its
  invariant, every task the caller holds and every result; a submit that yields a task
  yields a new one.
\<close>

subsection \<open>Submits\<close>

definition v_submit :: "vqueues \<Rightarrow> uv_io \<Rightarrow> ptr \<Rightarrow> uv_io \<Rightarrow> bool" where
  "v_submit Q u p u' \<longleftrightarrow> (\<exists>Q'. vgood {} {} Q' u' \<and> vkeeps {} Q u Q' u' \<and>
     (\<forall>t. p = Some t \<longrightarrow> v_th u t = None \<and> (\<exists>x. v_th u' t = Some x \<and> v_held x) \<and> vdropok (v_th u') (v_sh u') Q' (vl u') t))"

lemma v_submitI:
  assumes "vgood {} {} Q' u'" and "vkeeps {} Q u Q' u'"
    and "\<And>t. p = Some t \<Longrightarrow> v_th u t = None \<and> (\<exists>x. v_th u' t = Some x \<and> v_held x \<and>
      (\<forall>s. res_ptr (vt_res x) = Some s \<longrightarrow> vusable (v_th u') (v_sh u') Q' (vl u') s))"
  shows "v_submit Q u p u'"
  unfolding v_submit_def vdropok_def using assms by blast

lemma v_submit_none:
  assumes e: "v_env os" and g: "vgood {} {} Q u" and n: "v_task_new os u k = (None, u')"
  shows "v_submit Q u None u'"
  using vgood_task_new(1,2) [OF e g n] by (intro v_submitI) auto

text \<open>The fields of a task that the code sets before it hands the task to libuv.\<close>

definition v_fresh :: "v_kind \<Rightarrow> uv_task \<Rightarrow> bool" where
  "v_fresh k x \<longleftrightarrow> vt_kind x = k \<and> \<not> vt_done x \<and> \<not> vt_detached x \<and> vt_res x = result0 \<and> \<not> vt_free_on_close x \<and> \<not> vt_timer_closed x"

lemma v_fresh_simps [simp]:
  "v_fresh k (v_task0 k)" "v_fresh k (x\<lparr>vt_buf := b\<rparr>) = v_fresh k x" "v_fresh k (x\<lparr>vt_sock := s\<rparr>) = v_fresh k x"
  "v_fresh k (x\<lparr>vt_fn := f\<rparr>) = v_fresh k x" "v_fresh k (x\<lparr>vt_arg := a\<rparr>) = v_fresh k x"
  by (simp_all add: v_fresh_def v_task0_def)

lemma v_freshD:
  assumes "v_fresh k x"
  shows "vt_kind x = k" "\<not> vt_done x" "\<not> vt_detached x" "vt_res x = result0" "\<not> vt_free_on_close x" "\<not> vt_timer_closed x" "v_held x"
    "res_ptr (vt_res x) = None"
  using assms by (simp_all add: v_fresh_def v_held_def result0_def)

text \<open>A new task, its fields set, on its way to libuv.\<close>

lemma v_new_task:
  assumes e: "v_env os" and g: "vgood {} {} Q u" and n: "v_task_new os u k = (Some t, u1)" and x: "v_fresh k x"
    and sk: "k \<noteq> VTASK_CONNECT \<or> vt_sock x = None" and w: "w = u1\<lparr>v_th := (v_th u1)(t \<mapsto> x)\<rparr>"
  shows "vgood {t} {} Q w" "vkeeps {} Q u Q w" "v_th u t = None" "v_th w = (v_th u)(t \<mapsto> x)" "v_sh w = v_sh u" "v_pnode w = v_pnode u"
    "vl w = vl u" "v_ncompleted w = v_ncompleted u" "ul_req (vl u) t = None" "ul_timer (vl u) t = None"
proof -
  note tn = vgood_task_new [OF e g n]
  have t: "v_th u t = None" "vgood {t} {} Q u1" "v_th u1 = (v_th u)(t \<mapsto> v_task0 k)" using tn(1) by auto
  have t1: "v_th u1 t = Some (v_task0 k)" using t(3) by simp
  note f = v_freshD [OF x]
  have s0: "vt_sock (v_task0 k) = None" "vt_res (v_task0 k) = result0" by (simp_all add: v_task0_def)
  have up: "vgood {t} {} Q w" "vkeeps {} Q u1 Q w"
    unfolding w by (rule vgood_upd_T [OF t(2) _ t1]; use f sk s0 in \<open>auto simp: v_task0_def\<close>)+
  then show "vgood {t} {} Q w" by simp
  show "vkeeps {} Q u Q w" by (rule vkeeps_trans [OF tn(2) up(2)])
  show "v_th u t = None" by (rule t(1))
  show "ul_req (vl u) t = None" "ul_timer (vl u) t = None" using vcore_no_task [OF vgood_core [OF g] t(1)] by simp_all
  show "v_th w = (v_th u)(t \<mapsto> x)" "v_sh w = v_sh u" "v_pnode w = v_pnode u" "vl w = vl u" "v_ncompleted w = v_ncompleted u"
    using t(3) tn(3-6) by (simp_all add: w)
qed

text \<open>A new task that completes on the spot.\<close>

lemma v_submit_completed:
  assumes e: "v_env os" and g: "vgood {t} {} Q w" and k: "vkeeps {} Q u Q w" and t: "v_th u t = None" "v_th w t = Some x" "v_fresh kd x"
    and kd: "kd = VTASK_TIMER \<Longrightarrow> ul_timer (vl w) t = Some Timer_closing"
  shows "v_submit Q u (Some t) (v_task_complete os w t r)"
    "kd \<noteq> VTASK_TIMER \<Longrightarrow> v_submit Q u (Some t) (v_task_error os w t er)"
proof -
  note f = v_freshD [OF t(3)]
  have c: "v_completes {t} {} Q w t x (v_complete_res r (vt_res x)) (v_task_complete os w t r)"
    by (rule vgood_complete [OF e g _ t(2)]) (use f kd in auto)
  from v_completesD [OF c] f t(1) show "v_submit Q u (Some t) (v_task_complete os w t r)"
    by (intro v_submitI [OF _ vkeeps_trans [OF k]]) (auto simp: v_held_def)
  assume "kd \<noteq> VTASK_TIMER"
  then have c: "v_completes {t} {} Q w t x ((vt_res x)\<lparr>res_status := MYIO_ERROR, res_error := er\<rparr>) (v_task_error os w t er)"
    by (intro vgood_error [OF e g _ t(2)]) (use f in auto)
  from v_completesD [OF c] f t(1) show "v_submit Q u (Some t) (v_task_error os w t er)"
    by (intro v_submitI [OF _ vkeeps_trans [OF k]]) (auto simp: v_held_def)
qed

text \<open>A request handed to libuv, which may refuse it.\<close>

lemma v_submit_req:
  assumes e: "v_env os" and g: "vgood {} {} Q u" and n: "v_task_new os u k = (Some t, u1)" and x: "v_fresh k x"
    and k: "k \<in> {VTASK_FS, VTASK_SPAWN, VTASK_SOCK_WRITE}" "v_want_req x = Some rq"
    and w: "w = u1\<lparr>v_th := (v_th u1)(t \<mapsto> x)\<rparr>"
    and c: "\<And>a l. uv_effect c a l = uv_start a t rq l" "uv_call_ok (vl u) c"
  shows "v_submit Q u (Some t) (if a_ret (v_ans os c w) < 0 then v_task_complete os (v_log os c w) t (a_ret (v_ans os c w)) else v_log os c w)"
proof -
  note nt = v_new_task [OF e g n x _ w]
  have g1: "vgood {t} {} Q w" "vkeeps {} Q u Q w" "v_th u t = None" "v_th w = (v_th u)(t \<mapsto> x)" "vl w = vl u"
    "ul_req (vl u) t = None" "ul_timer (vl u) t = None" using nt k(1) by auto
  note f = v_freshD [OF x]
  have t1: "v_th w t = Some x" using g1(4) by simp
  have ok: "uv_call_ok (vl w) c" using c(2) g1(5) by simp
  show ?thesis
  proof (cases "a_ret (v_ans os c w) < 0")
    case True
    have g2: "vgood {t} {} Q (v_log os c w)" "vkeeps {} Q w Q (v_log os c w)"
      using vgood_log_same [where os = os and c = c, OF g1(1) ok] True by (simp_all add: c(1) uv_start_def)
    have t2: "v_th (v_log os c w) t = Some x" using t1 by simp
    have "v_submit Q u (Some t) (v_task_complete os (v_log os c w) t (a_ret (v_ans os c w)))"
      by (rule v_submit_completed(1) [OF e g2(1) vkeeps_trans [OF g1(2) g2(2)] g1(3) t2 x]) (use k(1) in auto)
    with True show ?thesis by simp
  next
    case False
    have l: "uv_effect c (v_ans os c w) (vl w) = (vl w)\<lparr>ul_req := (ul_req (vl w))(t \<mapsto> rq)\<rparr>" using False by (simp add: c(1) uv_start_def)
    have "vgood ({t} - {t}) {} Q (v_log os c w)" "vkeeps {} Q w Q (v_log os c w)"
    proof -
      have p: "\<not> v_pull (vt_kind x)" "vt_kind x \<noteq> VTASK_CONNECT" "v_want_timer x = None" using f(1) k(1) by (auto simp: v_pull_def v_want_timer_def)
      have sk: "vt_kind x = VTASK_SOCK_WRITE \<Longrightarrow> vt_sock x \<noteq> None" using k(2) f(2) by (auto simp: v_want_req_def)
      show "vgood ({t} - {t}) {} Q (v_log os c w)" "vkeeps {} Q w Q (v_log os c w)"
        by (rule vgood_start [where c = c and x = x, OF g1(1) _ t1 f(2) p(1) _ ok]; use l k(2) p sk g1 in \<open>simp add: loop_off_def\<close>)+
    qed
    then have "v_submit Q u (Some t) (v_log os c w)"
      by (intro v_submitI [OF _ vkeeps_trans [OF g1(2)]]) (use g1(3) t1 f in auto)
    with False show ?thesis by simp
  qed
qed

subsection \<open>Files, spawned functions, timers\<close>

lemma v_task0_want: "v_want_req (v_task0 VTASK_FS) = Some Rq_fs" "v_want_req ((v_task0 VTASK_FS)\<lparr>vt_buf := b\<rparr>) = Some Rq_fs"
  "v_want_req ((v_task0 VTASK_SPAWN)\<lparr>vt_fn := f, vt_arg := a\<rparr>) = Some Rq_work"
  "v_want_req ((v_task0 VTASK_SOCK_WRITE)\<lparr>vt_sock := Some s, vt_buf := b\<rparr>) = Some (Rq_write s)"
  by (simp_all add: v_want_req_def v_task0_def)

lemma v_new_heap:
  assumes "v_env os" and "vgood {} {} Q u" and "v_task_new os u k = (Some t, u1)"
  shows "v_th u1 t = Some (v_task0 k)" "u1\<lparr>v_th := (v_th u1)(t \<mapsto> v_task0 k)\<rparr> = u1" "ul_req (vl u) t = None"
proof -
  note tn = vgood_task_new(1) [OF assms]
  then show "v_th u1 t = Some (v_task0 k)" by auto
  then show "u1\<lparr>v_th := (v_th u1)(t \<mapsto> v_task0 k)\<rparr> = u1" by (simp add: fun_upd_idem)
  show "ul_req (vl u) t = None" using tn vcore_no_task [OF vgood_core [OF assms(2)], of t] by auto
qed

text \<open>Every submit starts with a new task, or ends without one.\<close>

lemma v_submit_by:
  assumes "v_env os" and "vgood {} {} Q u"
    and "(let (p, u) = v_task_new os u k in case p of None \<Rightarrow> (None, u) | Some t \<Rightarrow> F t u) = (p, u')"
    and "\<And>t u1. v_task_new os u k = (Some t, u1) \<Longrightarrow> F t u1 = (p, u') \<Longrightarrow> v_submit Q u p u'"
  shows "v_submit Q u p u'"
proof (cases "v_task_new os u k")
  case (Pair q u1)
  with assms(3,4) v_submit_none [OF assms(1,2), of k u1] show ?thesis by (cases q) auto
qed

lemma v_submit_files:
  assumes e: "v_env os" and g: "vgood {} {} Q u"
  shows "v_open os u path fl md = (p, u') \<Longrightarrow> v_submit Q u p u'"
    "v_close os u fd = (p, u') \<Longrightarrow> v_submit Q u p u'"
    "v_read os u fd buf len off = (p, u') \<Longrightarrow> v_submit Q u p u'"
    "v_write os u fd bs off = (p, u') \<Longrightarrow> v_submit Q u p u'"
    "v_spawn os u fn arg = (p, u') \<Longrightarrow> v_submit Q u p u'"
proof -
  have rq: "v_submit Q u (Some t) (if a_ret (v_ans os c w) < 0 then v_task_complete os (v_log os c w) t (a_ret (v_ans os c w)) else v_log os c w)"
    if "v_task_new os u k = (Some t, u1)" "v_fresh k x" "k \<in> {VTASK_FS, VTASK_SPAWN, VTASK_SOCK_WRITE}" "v_want_req x = Some rq"
      "w = u1\<lparr>v_th := (v_th u1)(t \<mapsto> x)\<rparr>" "\<And>a l. uv_effect c a l = uv_start a t rq l" "ul_req (vl u) t = None \<Longrightarrow> uv_call_ok (vl u) c"
    for k t u1 x rq w c
    by (rule v_submit_req [OF e g that(1-6) that(7) [OF v_new_heap(3) [OF e g that(1)]]])
  note heap = v_new_heap(1,2) [OF e g]
  show "v_submit Q u p u'" if "v_open os u path fl md = (p, u')"
  proof (rule v_submit_by [OF e g that [unfolded v_open_def]])
    fix t u1
    assume n: "v_task_new os u VTASK_FS = (Some t, u1)" "(let (a, u) = uv os (Uv_fs_open t path fl md) u1 in v_fs_submitted os u t (a_ret a)) = (p, u')"
    from rq [OF n(1) v_fresh_simps(1) _ v_task0_want(1) refl, of "Uv_fs_open t path fl md"] heap [OF n(1)] n(2)
    show "v_submit Q u p u'" by (auto simp: v_fs_submitted_def uv_eq split: if_splits)
  qed
  show "v_submit Q u p u'" if "v_close os u fd = (p, u')"
  proof (rule v_submit_by [OF e g that [unfolded v_close_def]])
    fix t u1
    assume n: "v_task_new os u VTASK_FS = (Some t, u1)" "(let (a, u) = uv os (Uv_fs_close t (c_int fd)) u1 in v_fs_submitted os u t (a_ret a)) = (p, u')"
    from rq [OF n(1) v_fresh_simps(1) _ v_task0_want(1) refl, of "Uv_fs_close t (c_int fd)"] heap [OF n(1)] n(2)
    show "v_submit Q u p u'" by (auto simp: v_fs_submitted_def uv_eq split: if_splits)
  qed
  have buf: "v_fresh VTASK_FS ((v_task0 VTASK_FS)\<lparr>vt_buf := b\<rparr>)" for b by simp
  show "v_submit Q u p u'" if "v_read os u fd buf len off = (p, u')"
  proof (rule v_submit_by [OF e g that [unfolded v_read_def]], goal_cases)
    case (1 t u1)
    from rq [OF 1(1) buf _ v_task0_want(2) refl, of "Uv_fs_read t (c_int fd) buf (c_unsigned len) off"] heap [OF 1(1)] 1(2)
    show ?case by (auto simp: v_fs_submitted_def uv_eq uv_buf_in_def Let_def split: if_splits)
  qed
  show "v_submit Q u p u'" if "v_write os u fd bs off = (p, u')"
  proof (rule v_submit_by [OF e g that [unfolded v_write_def]], goal_cases)
    case (1 t u1)
    from rq [OF 1(1) buf _ v_task0_want(2) refl, of "Uv_fs_write t (c_int fd) (buf_bytes (uv_buf_out bs)) off"] heap [OF 1(1)] 1(2)
    show ?case by (auto simp: v_fs_submitted_def uv_eq Let_def split: if_splits)
  qed
  show "v_submit Q u p u'" if "v_spawn os u fn arg = (p, u')"
  proof (rule v_submit_by [OF e g that [unfolded v_spawn_def]], goal_cases)
    case (1 t u1)
    have fr: "v_fresh VTASK_SPAWN ((v_task0 VTASK_SPAWN)\<lparr>vt_fn := fn, vt_arg := arg\<rparr>)" by simp
    from rq [OF 1(1) fr _ v_task0_want(3) refl, of "Uv_queue_work t"] heap [OF 1(1)] 1(2)
    show ?case by (auto simp: uv_eq Let_def split: if_splits)
  qed
qed

lemma v_submit_sock_write:
  assumes e: "v_env os" and g: "vgood {} {} Q u" and s: "vusable (v_th u) (v_sh u) Q (vl u) s" and o: "v_sock_write os u s bs = (p, u')"
  shows "v_submit Q u p u'"
proof -
  obtain q u1 where n: "v_task_new os u VTASK_SOCK_WRITE = (q, u1)" by (cases "v_task_new os u VTASK_SOCK_WRITE")
  show ?thesis
  proof (cases q)
    case None
    with v_submit_none [OF e g, of VTASK_SOCK_WRITE] n o show ?thesis by (auto simp: v_sock_write_def)
  next
    case (Some t)
    note h = v_new_heap [OF e g, of VTASK_SOCK_WRITE t u1]
    let ?x = "(v_task0 VTASK_SOCK_WRITE)\<lparr>vt_sock := Some s, vt_buf := uv_buf_out bs\<rparr>"
    let ?c = "Uv_write t s (buf_bytes (uv_buf_out bs))"
    from s have sk: "v_sh u s \<noteq> None" "tcp_is_open (vl u) s" by (simp_all add: vusable_def)
    have s1: "v_sh u1 s \<noteq> None" using vgood_task_new(3) [OF e g n] sk(1) by simp
    have fr: "v_fresh VTASK_SOCK_WRITE ?x" by simp
    from v_submit_req [OF e g, of VTASK_SOCK_WRITE t u1, OF _ fr _ v_task0_want(4) refl, of ?c] n Some h sk s1 o
    show ?thesis by (auto simp: v_sock_write_def uv_eq Let_def split: if_splits)
  qed
qed

text \<open>A timer: when it cannot be started, its task completes and its handle closes.\<close>

lemma v_task_complete_log:
  assumes "v_th u t = Some x" and "\<not> vt_detached x"
  shows "v_task_complete os (v_log os c u) t r =
    (v_task_complete os u t r)\<lparr>m_trace := (C_uv c, v_ans os c u) # m_trace u\<rparr>" "m_trace (v_task_complete os u t r) = m_trace u"
  using assms by (simp_all add: v_task_complete_def v_task_finish_def Let_def v_log_def)

lemma v_complete_commutes:
  assumes "v_th u t = Some x" and "\<not> vt_detached x"
  shows "v_log os c (v_task_complete os u t r) = v_task_complete os (v_log os c u) t r"
  unfolding v_task_complete_log(1) [OF assms] using v_task_complete_log(2) [OF assms, of os r] by (simp add: v_log_def)

lemma v_submit_sleep:
  assumes e: "v_env os" and g: "vgood {} {} Q u" and o: "v_sleep os u ms = (p, u')"
  shows "v_submit Q u p u'"
proof -
  obtain q u1 where n: "v_task_new os u VTASK_TIMER = (q, u1)" by (cases "v_task_new os u VTASK_TIMER")
  show ?thesis
  proof (cases q)
    case None
    with v_submit_none [OF e g, of VTASK_TIMER] n o show ?thesis by (auto simp: v_sleep_def)
  next
    case (Some t)
    let ?x = "v_task0 VTASK_TIMER"
    have n': "v_task_new os u VTASK_TIMER = (Some t, u1)" using n Some by simp
    note h = v_new_heap [OF e g n'] and f = v_freshD [OF v_fresh_simps(1) [of VTASK_TIMER]]
    note nt = v_new_task [OF e g n' v_fresh_simps(1) _ refl, unfolded h(2), simplified]
    let ?u2 = "v_log os (Uv_timer_init t) u1"
    let ?c = "Uv_timer_start t ms"
    let ?u3 = "v_log os ?c ?u2"
    have t1: "v_th u1 t = Some ?x" "vt_kind ?x = VTASK_TIMER" using h(1) f(1) by simp_all
    have g2: "vgood {t} {} Q ?u2" "vkeeps {} Q u1 Q ?u2"
      by (rule vgood_timer_call [where c = "Uv_timer_init t", OF nt(1) t1]; use nt in \<open>simp add: loop_off_def\<close>)+
    have t2: "v_th ?u2 t = Some ?x" "v_th ?u3 t = Some ?x" using t1 by simp_all
    have idle: "ul_timer (vl ?u2) t = Some Timer_idle" by simp
    have kk: "vkeeps {} Q u Q ?u2" by (rule vkeeps_trans [OF nt(2) g2(2)])
    have ok: "uv_call_ok (vl ?u2) ?c" by (simp add: timer_usable_def)
    show ?thesis
    proof (cases "a_ret (v_ans os ?c ?u2) < 0")
      case True
      have g3: "vgood {t} {} Q ?u3" "vkeeps {} Q ?u2 Q ?u3"
        by (rule vgood_log_same [where c = ?c, OF g2(1) ok]; use True in simp)+
      have i3: "ul_timer (vl ?u3) t = Some Timer_idle" using True by simp
      let ?u4 = "v_log os (Uv_close (H_timer t)) ?u3"
      have g4: "vgood {t} {} Q ?u4" "vkeeps {} Q ?u3 Q ?u4"
        by (rule vgood_timer_call [where c = "Uv_close (H_timer t)", OF g3(1) t2(2) t1(2)]; use i3 in \<open>simp add: loop_off_def timer_usable_def\<close>)+
      have t4: "v_th ?u4 t = Some ?x" using t1 by simp
      have "v_submit Q u (Some t) (v_task_complete os ?u4 t (a_ret (v_ans os ?c ?u2)))"
        by (rule v_submit_completed(1) [OF e g4(1) vkeeps_trans [OF kk vkeeps_trans [OF g3(2) g4(2)]] nt(3) t4 v_fresh_simps(1)]) simp
      moreover have "p = Some t" "u' = v_task_complete os ?u4 t (a_ret (v_ans os ?c ?u2))"
        using o n' True v_complete_commutes [OF t2(2) f(3)] by (auto simp: v_sleep_def uv_eq uv_do_eq Let_def)
      ultimately show ?thesis by simp
    next
      case False
      have "vgood ({t} - {t}) {} Q ?u3" "vkeeps {} Q ?u2 Q ?u3"
        by (rule vgood_start [where c = ?c and x = ?x, OF g2(1) _ t2(1) f(2) _ _ ok];
            use False nt f in \<open>simp add: loop_off_def v_pull_def v_want_req_def v_want_timer_def\<close>)+
      then have "v_submit Q u (Some t) ?u3"
        by (intro v_submitI [OF _ vkeeps_trans [OF kk]]) (use nt(3) t2(2) f in auto)
      moreover have "p = Some t" "u' = ?u3" using o n' False by (auto simp: v_sleep_def uv_eq uv_do_eq Let_def)
      ultimately show ?thesis by simp
    qed
  qed
qed

subsection \<open>Connecting\<close>

text \<open>A connect takes a fresh socket for itself.\<close>

lemma vgood_own_T:
  assumes g: "vgood T D Q u" and t: "t \<in> T" "v_th u t = Some x" "vt_kind x = VTASK_CONNECT" "vt_sock x = None"
    and s: "s < m_brk u" "\<And>q z. v_th u q = Some z \<Longrightarrow> v_own z \<noteq> Some s" "\<And>r. s \<notin> set (Q r)"
  shows "vgood T D Q (u\<lparr>v_th := (v_th u)(t \<mapsto> x\<lparr>vt_sock := Some s\<rparr>)\<rparr>)" (is "vgood _ _ _ ?u")
    "vkeeps S Q u Q (u\<lparr>v_th := (v_th u)(t \<mapsto> x\<lparr>vt_sock := Some s\<rparr>)\<rparr>)"
proof -
  let ?x = "x\<lparr>vt_sock := Some s\<rparr>"
  note c = vgood_core [OF g]
  note v = vcore_task [OF c t(2)]
  from v t(1) have nd: "\<not> vt_done x" "res_ptr (vt_res x) = None" by (auto simp: vtask_def)
  have own: "v_own ?x = Some s" using nd t(3) by (simp add: v_own_def)
  have vt: "vtask T (m_brk u) (vl u) t ?x" using v t(1) own s(1) by (auto simp: vtask_def v_want_timer_def)
  have "vcore T D (m_brk u) ((v_th u)(t \<mapsto> ?x)) (v_sh u) Q (vl u)"
    by (rule vcore_upd [OF c t(2) _ refl vt]) (use own s t in \<open>auto simp: loop_off_def v_pull_def\<close>)
  from vgood_heap [OF g this, of "v_ncompleted u"] t(2) show "vgood T D Q ?u" by auto
  have us: "vusable ((v_th u)(t \<mapsto> ?x)) (v_sh u) Q (vl u) r" if "vusable (v_th u) (v_sh u) Q (vl u) r" "r \<noteq> s" for r
    using that by (auto simp: vusable_def split: if_splits)
  have "vkeep S (v_th u) (v_sh u) Q (vl u) ((v_th u)(t \<mapsto> ?x)) (v_sh u) Q (vl u)"
  proof (rule vkeepI)
    fix q z
    assume "v_th u q = Some z" "v_held z" "q \<notin> S"
    then show "\<exists>x'. ((v_th u)(t \<mapsto> ?x)) q = Some x' \<and> v_held x' \<and> vt_kind x' = vt_kind z \<and> (vt_done z \<longrightarrow> vt_done x' \<and> vt_res x' = vt_res z) \<and>
        (\<forall>r. res_ptr (vt_res x') = Some r \<longrightarrow> res_ptr (vt_res z) = Some r \<or> vusable ((v_th u)(t \<mapsto> ?x)) (v_sh u) Q (vl u) r)"
      using t(2) by (cases "q = t") (auto simp: v_held_def)
  next
    fix q z r
    assume q: "v_th u q = Some z" "res_ptr (vt_res z) = Some r" and r: "vusable (v_th u) (v_sh u) Q (vl u) r"
    have "v_own z = Some r" using q(2) by (simp add: v_own_def)
    with s(2) [OF q(1)] have "r \<noteq> s" by auto
    with us r show "vusable ((v_th u)(t \<mapsto> ?x)) (v_sh u) Q (vl u) r" by blast
  qed
  then show "vkeeps S Q u Q ?u" by (simp add: vkeeps_def)
qed

text \<open>A connect that is over forgets its socket.\<close>

lemma vgood_forget:
  assumes g: "vgood T D Q u" and t: "v_th u t = Some x" "vt_kind x = VTASK_CONNECT" "vt_done x"
  shows "vgood T D Q (u\<lparr>v_th := (v_th u)(t \<mapsto> x\<lparr>vt_sock := None\<rparr>)\<rparr>)" (is "vgood _ _ _ ?u")
    "vkeeps S Q u Q (u\<lparr>v_th := (v_th u)(t \<mapsto> x\<lparr>vt_sock := None\<rparr>)\<rparr>)"
proof -
  let ?x = "x\<lparr>vt_sock := None\<rparr>"
  note c = vgood_core [OF g]
  have own: "v_own ?x = v_own x" using t(3) by (simp add: v_own_def)
  have vt: "vtask T (m_brk u) (vl u) t ?x"
    using vcore_task [OF c t(1)] own t by (auto simp: vtask_def v_want_timer_def v_want_req_def)
  have "vcore T D (m_brk u) ((v_th u)(t \<mapsto> ?x)) (v_sh u) Q (vl u)"
    by (rule vcore_upd [OF c t(1) _ refl vt]) (use own t in \<open>auto simp: loop_off_def v_pull_def\<close>)
  from vgood_heap [OF g this, of "v_ncompleted u"] t(1) show "vgood T D Q ?u" by auto
  show "vkeeps S Q u Q ?u"
    unfolding vkeeps_def by simp (rule vkeep_upd [of "v_th u", OF t(1)], use t in \<open>auto simp: v_held_def\<close>)
qed

lemma vgood_unowned:
  assumes g: "vgood T D Q u" and s: "\<forall>q z. v_th u q = Some z \<longrightarrow> v_own z \<noteq> Some s"
  shows "v_th u q = Some z \<Longrightarrow> vt_kind z = VTASK_CONNECT \<Longrightarrow> \<not> vt_done z \<Longrightarrow> vt_sock z \<noteq> Some s"
    "v_th u q = Some z \<Longrightarrow> res_ptr (vt_res z) \<noteq> Some s"
  using vgood_conn_private(1) [OF g, of q z s] s [rule_format, of q z] by (blast, auto simp: v_own_def)

text \<open>A socket nobody owns is closed.\<close>

lemma vgood_destroy_unowned:
  assumes e: "v_env os" and g: "vgood T D Q u" and s: "v_sh u s = Some y" "s \<notin> D" "\<And>r. s \<notin> set (Q r)"
    "\<And>q z. v_th u q = Some z \<Longrightarrow> v_own z \<noteq> Some s"
  shows "vgood T D (Q(s := [])) (v_sock_destroy os u s)" "vkeeps S Q u (Q(s := [])) (v_sock_destroy os u s)"
    "v_th (v_sock_destroy os u s) = v_th u" "v_sh (v_sock_destroy os u s) = v_sh u" "v_ncompleted (v_sock_destroy os u s) = v_ncompleted u"
proof -
  have "\<forall>q z. v_th u q = Some z \<longrightarrow> v_own z \<noteq> Some s" using s(4) by blast
  note un = vgood_unowned [OF g this]
  have cn: "vt_connecting z" if "v_th u q = Some z" "vt_kind z = VTASK_CONNECT" "\<not> vt_done z" "q \<notin> T" "vt_sock z = Some s" for q z
    using un(1) [OF that(1-3)] that(5) by simp
  have nk: "\<not> vusable (v_th u) (v_sh u) Q (vl u) s" if "v_th u q = Some z" "v_held z" "q \<notin> S" "res_ptr (vt_res z) = Some s" for q z
    using un(2) [OF that(1)] that(4) by simp
  show "vgood T D (Q(s := [])) (v_sock_destroy os u s)" "vkeeps S Q u (Q(s := [])) (v_sock_destroy os u s)"
    "v_th (v_sock_destroy os u s) = v_th u" "v_sh (v_sock_destroy os u s) = v_sh u" "v_ncompleted (v_sock_destroy os u s) = v_ncompleted u"
    by (rule vgood_sock_destroy [OF e g s(1-3)]; (rule cn nk; assumption))+
qed

lemma v_submit_gone:
  assumes g: "vgood {t} {} Q w" and k: "vkeeps {} Q u Q w" and t: "v_th u t = None" "v_th w t = Some x" "ul_req (vl w) t = None" "ul_timer (vl w) t = None"
  shows "v_submit Q u None (w\<lparr>v_th := (v_th w)(t := None)\<rparr>)"
proof -
  let ?th = "(v_th w)(t := None)"
  have "vcore ({t} - {t}) {} (m_brk w) ?th (v_sh w) Q (vl w)"
    by (rule vcore_del [OF vgood_core [OF g] t(2)]) (use t in \<open>auto simp: loop_off_def\<close>)
  from vgood_heap [OF g this, of "v_ncompleted w"] t have g': "vgood {} {} Q (w\<lparr>v_th := ?th\<rparr>)" by auto
  have "vkeep {} (v_th u) (v_sh u) Q (vl u) ?th (v_sh w) Q (vl w)"
    unfolding vkeep_def
  proof (intro allI impI conjI)
    fix q z
    assume q: "v_th u q = Some z" "v_held z" "q \<notin> {}"
    then have nt: "q \<noteq> t" using t(1) by auto
    have kk: "(\<exists>x'. v_th w q = Some x' \<and> v_held x' \<and> vt_kind x' = vt_kind z \<and> (vt_done z \<longrightarrow> vt_done x' \<and> vt_res x' = vt_res z)) \<and>
      (vdropok (v_th u) (v_sh u) Q (vl u) q \<longrightarrow> vdropok (v_th w) (v_sh w) Q (vl w) q)"
      using k q unfolding vkeeps_def vkeep_def by blast
    then show "\<exists>x'. ?th q = Some x' \<and> v_held x' \<and> vt_kind x' = vt_kind z \<and> (vt_done z \<longrightarrow> vt_done x' \<and> vt_res x' = vt_res z)" using nt by auto
    have us: "vusable ?th (v_sh w) Q (vl w) r" if "vusable (v_th w) (v_sh w) Q (vl w) r" for r
      using that by (auto simp: vusable_def split: if_splits)
    assume "vdropok (v_th u) (v_sh u) Q (vl u) q"
    with kk have "vdropok (v_th w) (v_sh w) Q (vl w) q" by blast
    with us nt show "vdropok ?th (v_sh w) Q (vl w) q" by (auto simp: vdropok_def)
  qed
  with g' show ?thesis by (intro v_submitI) (auto simp: vkeeps_def)
qed

lemma v_submit_tcp_connect:
  assumes e: "v_env os" and g: "vgood {} {} Q u" and o: "v_tcp_connect os u host port = (p, u')"
  shows "v_submit Q u p u'"
proof (rule v_submit_by [OF e g o [unfolded v_tcp_connect_def]], goal_cases)
  case (1 t u1)
  let ?x = "v_task0 VTASK_CONNECT"
  note h = v_new_heap [OF e g 1(1)] and f = v_freshD [OF v_fresh_simps(1) [of VTASK_CONNECT]]
  have sk0: "vt_sock ?x = None" by (simp add: v_task0_def)
  note nt = v_new_task [OF e g 1(1) v_fresh_simps(1) _ refl, unfolded h(2), simplified sk0 simp_thms, OF TrueI]
  obtain sp u2 where sn: "v_sock_new os u1 = (sp, u2)" by (cases "v_sock_new os u1")
  note ns = vgood_sock_new(1) [where S = "{}", OF e nt(1) sn] vgood_sock_new(2,3) [OF e nt(1) sn]
  have t2: "v_th u2 t = Some ?x" using ns(2) h(1) by simp
  show ?case
  proof (cases sp)
    case None
    have g2: "vgood {t} {} Q u2" "vkeeps {} Q u1 Q u2" "vl u2 = vl u1" using ns(1) None by simp_all
    have "u2\<lparr>v_th := (v_th u2)(t \<mapsto> ?x\<lparr>vt_sock := None\<rparr>)\<rparr> = u2" using t2 sk0 by (simp add: fun_upd_idem v_task0_def)
    then have "p = None" "u' = u2\<lparr>v_th := (v_th u2)(t := None)\<rparr>" using 1(2) None sn t2 by (auto simp: Let_def)
    with v_submit_gone [OF g2(1) vkeeps_trans [OF nt(2) g2(2)] nt(3) t2] g2(3) nt show ?thesis by simp
  next
    case (Some s)
    have g2: "vgood {t} {} Q u2" "vkeeps {} Q u1 Q u2" "v_sh u2 = (v_sh u1)(s \<mapsto> v_sock0)" "s < m_brk u2"
      "vl u2 = (vl u1)\<lparr>ul_tcp := (ul_tcp (vl u1))(s \<mapsto> Tcp_open False False)\<rparr>" "\<forall>r. s \<notin> set (Q r)"
      "\<forall>q z. v_th u1 q = Some z \<longrightarrow> v_own z \<noteq> Some s"
      using ns(1) Some vcore_sock [OF vgood_core, of "{t}" "{}" Q u2 s v_sock0] by (auto simp: vsock_def)
    have un: "v_own z \<noteq> Some s" if "v_th u2 q = Some z" for q z using g2(7) ns(2) that by simp
    let ?x1 = "?x\<lparr>vt_sock := Some s\<rparr>"
    let ?u3 = "u2\<lparr>v_th := (v_th u2)(t \<mapsto> ?x1)\<rparr>"
    have g3: "vgood {t} {} Q ?u3" "vkeeps {} Q u2 Q ?u3"
      by (rule vgood_own_T [OF g2(1) _ t2 f(1) sk0 g2(4)]; use un g2(6) in blast)+
    have t3: "v_th ?u3 t = Some ?x1" by simp
    have s3: "v_sh ?u3 s = Some v_sock0" "ul_tcp (vl ?u3) s = Some (Tcp_open False False)" "ul_req (vl ?u3) t = None" "ul_timer (vl ?u3) t = None"
      using g2(3,5) nt by simp_all
    have k3: "vkeeps {} Q u Q ?u3" by (rule vkeeps_trans [OF nt(2) vkeeps_trans [OF g2(2) g3(2)]])
    let ?c = "Uv_getaddrinfo t host (snprintf_d 16 port)"
    let ?u4 = "v_log os ?c ?u3"
    have t4: "v_th ?u4 t = Some ?x1" by simp
    have ok: "uv_call_ok (vl ?u3) ?c" using s3(3) by simp
    have fr: "v_fresh VTASK_CONNECT ?x1" by simp
    show ?thesis
    proof (cases "a_ret (v_ans os ?c ?u3) < 0")
      case False
      have "vgood ({t} - {t}) {} Q ?u4" "vkeeps {} Q ?u3 Q ?u4"
        by (rule vgood_start [where c = ?c and x = ?x1, OF g3(1) _ t3 _ _ _ ok];
            use False s3 f in \<open>auto simp: loop_off_def uv_start_def v_pull_def v_want_req_def v_want_timer_def vconn_ok_def v_task0_def v_idle_def v_sock0_def\<close>)+
      then have "v_submit Q u (Some t) ?u4"
        by (intro v_submitI [OF _ vkeeps_trans [OF k3]]) (use nt(3) t4 v_freshD [OF fr] in auto)
      moreover have "p = Some t" "u' = ?u4" using 1(2) sn Some t2 False by (auto simp: uv_eq Let_def)
      ultimately show ?thesis by simp
    next
      case True
      have g4: "vgood {t} {} Q ?u4" "vkeeps {} Q ?u3 Q ?u4"
        by (rule vgood_log_same [where c = ?c, OF g3(1) ok]; use True in \<open>simp add: uv_start_def\<close>)+
      let ?er = "uv_eai_to_system (a_ret (v_ans os ?c ?u3))"
      let ?u5 = "v_task_error os ?u4 t ?er"
      let ?r = "(vt_res ?x1)\<lparr>res_status := MYIO_ERROR, res_error := ?er\<rparr>"
      have "v_completes {t} {} Q ?u4 t ?x1 ?r ?u5" by (rule vgood_error [OF e g4(1) _ t4]) (use f in auto)
      note d = v_completesD [OF this]
      let ?x5 = "?x1\<lparr>vt_res := ?r, vt_done := True\<rparr>"
      have t5: "v_th ?u5 t = Some ?x5" using d(5) v_freshD [OF fr] by simp
      have un5: "v_own z \<noteq> Some s" if "v_th ?u5 q = Some z" for q z
      proof (cases "q = t")
        case True
        then have "z = ?x5" using that t5 by simp
        then show ?thesis using f by (simp add: v_own_def)
      next
        case False
        then show ?thesis using that d(8) [OF False] un [of q z] by simp
      qed
      have s5: "v_sh ?u5 s = Some v_sock0" using d(6) s3(1) by simp
      let ?u6 = "v_sock_destroy os ?u5 s"
      have g6: "vgood {} {} (Q(s := [])) ?u6" "vkeeps {} Q ?u5 (Q(s := [])) ?u6" "v_th ?u6 = v_th ?u5"
        by (rule vgood_destroy_unowned [OF e, of "{}" "{}" Q, OF _ s5]; use d(1) g2(6) un5 in force)+
      have t6: "v_th ?u6 t = Some ?x5" using g6(3) t5 by simp
      let ?u7 = "?u6\<lparr>v_th := (v_th ?u6)(t \<mapsto> ?x5\<lparr>vt_sock := None\<rparr>)\<rparr>"
      have g7: "vgood {} {} (Q(s := [])) ?u7" "vkeeps {} (Q(s := [])) ?u6 (Q(s := [])) ?u7"
        by (rule vgood_forget [OF g6(1) t6]; use f in simp)+
      have "v_submit Q u (Some t) ?u7"
        by (rule v_submitI [OF g7(1) vkeeps_trans [OF vkeeps_trans [OF vkeeps_trans [OF k3 g4(2)] vkeeps_trans [OF d(2) g6(2)]] g7(2)]])
          (use nt(3) f in \<open>auto simp: v_held_def\<close>)
      moreover have "p = Some t" "u' = ?u7"
        using 1(2) sn Some t2 True t5 t6 by (auto simp: uv_eq Let_def v_task_fail_gai_def v_sock_destroy_at_def)
      ultimately show ?thesis by simp
    qed
  qed
qed

subsection \<open>Listening\<close>

lemma v_log_sames:
  assumes "vgood T D Q u" and "c \<in> {Uv_ip4_addr h p, Uv_ip6_addr h p}"
  shows "vgood T D Q (v_log os c u)" "vkeeps S Q u Q (v_log os c u)" "vl (v_log os c u) = vl u"
  using vgood_log_same [where c = c and os = os, OF assms(1)] assms(2) by auto

text \<open>The calls that make a fresh socket a listener.\<close>

lemma v_listen_calls_good:
  assumes g: "vgood {} {} Q u" and s: "v_sh u s = Some y" "v_idle y" "ul_tcp (vl u) s = Some (Tcp_open False False)"
      "\<And>r. s \<notin> set (Q r)" "\<And>q z. v_th u q = Some z \<Longrightarrow> v_own z \<noteq> Some s"
    and o: "v_listen_calls os u s h p b = (rc, u')"
  shows "vgood {} {} Q u'" "vkeeps {} Q u Q u'" "v_th u' = v_th u" "v_sh u' = v_sh u" "v_ncompleted u' = v_ncompleted u"
    "tcp_is_open (vl u') s" "rc = 0 \<Longrightarrow> ul_tcp (vl u') s = Some (Tcp_open False True)"
proof -
  define w where "w = snd (let (a, u) = uv os (Uv_ip4_addr h p) u in if a_ret a \<noteq> 0 then uv os (Uv_ip6_addr h p) u else (a, u))"
  define a where "a = fst (let (a, u) = uv os (Uv_ip4_addr h p) u in if a_ret a \<noteq> 0 then uv os (Uv_ip6_addr h p) u else (a, u))"
  note i4 = v_log_sames [where os = os and h = h and p = p, OF g insertI1]
  have i6: "vgood {} {} Q (v_log os (Uv_ip6_addr h p) (v_log os (Uv_ip4_addr h p) u))"
    "vkeeps {} Q (v_log os (Uv_ip4_addr h p) u) Q (v_log os (Uv_ip6_addr h p) (v_log os (Uv_ip4_addr h p) u))"
    using v_log_sames [where os = os and h = h and p = p and c = "Uv_ip6_addr h p", OF i4(1)] by simp_all
  have w: "vgood {} {} Q w" "vkeeps {} Q u Q w" "v_th w = v_th u" "v_sh w = v_sh u" "v_ncompleted w = v_ncompleted u" "vl w = vl u"
    using i4 i6 vkeeps_trans [OF i4(2) i6(2)] by (auto simp: w_def uv_eq)
  have eq: "v_listen_calls os u s h p b = (if a_ret a \<noteq> 0 then (a_ret a, w)
      else let (b', v) = uv os (Uv_tcp_bind s (a_addr a)) w in if a_ret b' \<noteq> 0 then (a_ret b', v) else let (l, v) = uv os (Uv_listen s b) v in (a_ret l, v))"
    by (simp add: v_listen_calls_def a_def w_def uv_eq Let_def)
  let ?v = "v_log os (Uv_tcp_bind s (a_addr a)) w"
  have op: "tcp_is_open (vl w) s" using s(3) w(6) by (simp add: tcp_is_open_def)
  have v: "vgood {} {} Q ?v" "vkeeps {} Q w Q ?v" "vl ?v = vl w"
    using vgood_log_same [where os = os and c = "Uv_tcp_bind s (a_addr a)", OF w(1)] op by simp_all
  let ?c = "Uv_listen s b"
  let ?l = "uv_effect ?c (v_ans os ?c ?v) (vl ?v)"
  have l: "ul_tcp ?l = (ul_tcp (vl u))(s \<mapsto> Tcp_open False (a_ret (v_ans os ?c ?v) = 0))" "ul_req ?l = ul_req (vl u)" "ul_timer ?l = ul_timer (vl u)"
    using v(3) w(6) s(3) by (auto simp: tcp_listening_def fun_upd_idem)
  have un: "\<forall>q z. v_th ?v q = Some z \<longrightarrow> v_own z \<noteq> Some s" using s(5) w(3) by simp
  have core: "vcore {} {} (m_brk ?v) (v_th ?v) (v_sh ?v) Q ?l"
  proof (rule vcore_tcp [OF vgood_core [OF v(1)]])
    show "v_sh ?v s = Some y" using w(4) s(1) by simp
    show "tcp_off s (vl ?v) ?l" using l v(3) w(6) by (simp add: tcp_off_def)
    show "vsock {} (m_brk ?v) ?l s y" using vcore_sock [OF vgood_core [OF v(1)], of s y] w(4) s(1,2) l by (auto simp: vsock_def v_idle_def)
    show "ul_tcp ?l s \<in> {Some (Tcp_open False False)} \<union> (if vt_connecting x then {Some Tcp_closing} else {})"
      if "v_th ?v t = Some x" "vt_kind x = VTASK_CONNECT" "\<not> vt_done x" "t \<notin> {}" "vt_sock x = Some s" for t x
      using vgood_unowned(1) [OF v(1) un that(1-3)] that(5) by simp
    show "ul_tcp ?l s = Some (Tcp_open False False)" if "s \<in> set (Q r)" for r using s(4) that by blast
    show "tcp_is_open ?l s" using l by (simp add: tcp_is_open_def)
  qed
  have lg: "vgood {} {} Q (v_log os ?c ?v)"
    by (rule vgood_log [where os = os and c = ?c, OF v(1) _ core]) (use op v(3) w(6) l in \<open>auto simp: tcp_is_open_def split: if_splits\<close>)
  have "vkeep {} (v_th ?v) (v_sh ?v) Q (vl ?v) (v_th ?v) ((v_sh ?v)(s \<mapsto> y)) Q ?l"
    by (rule vkeep_sock [of "v_sh ?v"]) (use s(1) w l v(3) in \<open>auto simp: tcp_is_open_def\<close>)
  then have lk: "vkeeps {} Q ?v Q (v_log os ?c ?v)" using s(1) w(4) by (simp add: vkeeps_def fun_upd_idem)
  note tr = vkeeps_trans [OF w(2) v(2)] vkeeps_trans [OF vkeeps_trans [OF w(2) v(2)] lk]
  show "vgood {} {} Q u'" "vkeeps {} Q u Q u'" "v_th u' = v_th u" "v_sh u' = v_sh u" "v_ncompleted u' = v_ncompleted u"
    using o w v(1) lg tr unfolding eq by (auto simp: uv_eq split: if_splits)
  show "tcp_is_open (vl u') s" using o op v(3) l unfolding eq by (auto simp: uv_eq tcp_is_open_def split: if_splits)
  show "ul_tcp (vl u') s = Some (Tcp_open False True)" if "rc = 0"
    using o that l unfolding eq by (auto simp: uv_eq split: if_splits)
qed

lemma v_submit_tcp_listen:
  assumes e: "v_env os" and g: "vgood {} {} Q u" and o: "v_tcp_listen os u host port backlog = (p, er, u')"
  shows "\<exists>Q'. vgood {} {} Q' u' \<and> vkeeps {} Q u Q' u' \<and> v_th u' = v_th u \<and> (p = None \<longleftrightarrow> er \<noteq> None) \<and>
    (\<forall>s. p = Some s \<longrightarrow> v_sh u s = None \<and> vusable (v_th u') (v_sh u') Q' (vl u') s \<and> ul_tcp (vl u') s = Some (Tcp_open False True))"
proof -
  obtain sp u1 where sn: "v_sock_new os u = (sp, u1)" by (cases "v_sock_new os u")
  note ns = vgood_sock_new(1) [where S = "{}", OF e g sn] vgood_sock_new(2,3) [OF e g sn]
  show ?thesis
  proof (cases sp)
    case None
    with ns sn o show ?thesis by (intro exI [of _ Q]) (auto simp: v_tcp_listen_def)
  next
    case (Some s)
    obtain rc u2 where lc: "v_listen_calls os u1 s host port backlog = (rc, u2)" by (cases "v_listen_calls os u1 s host port backlog")
    have g1: "vgood {} {} Q u1" "vkeeps {} Q u Q u1" "v_sh u1 s = Some v_sock0" "v_sh u s = None" "ul_tcp (vl u1) s = Some (Tcp_open False False)"
      "\<forall>r. s \<notin> set (Q r)" "\<forall>q z. v_th u q = Some z \<longrightarrow> v_own z \<noteq> Some s" using ns(1) Some by auto
    have un1: "v_own z \<noteq> Some s" if "v_th u1 q = Some z" for q z using g1(7) ns(2) that by simp
    have id: "v_idle v_sock0" by (simp add: v_idle_def v_sock0_def)
    have g2: "vgood {} {} Q u2" "vkeeps {} Q u1 Q u2" "v_th u2 = v_th u1" "v_sh u2 = v_sh u1" "tcp_is_open (vl u2) s"
      "rc = 0 \<Longrightarrow> ul_tcp (vl u2) s = Some (Tcp_open False True)"
      by (rule v_listen_calls_good [OF g1(1,3) id g1(5) _ _ lc]; use g1(6) un1 in blast)+
    have s2: "v_sh u2 s = Some v_sock0" using g2(4) g1(3) by simp
    have un2: "\<forall>q z. v_th u2 q = Some z \<longrightarrow> v_own z \<noteq> Some s" using g2(3) un1 by simp
    note k2 = vkeeps_trans [OF g1(2) g2(2)]
    show ?thesis
    proof (cases "rc = 0")
      case True
      then have "p = Some s" "er = None" "u' = u2" using o sn Some lc by (auto simp: v_tcp_listen_def)
      moreover have "vusable (v_th u2) (v_sh u2) Q (vl u2) s"
        using s2 g2(5) g1(6) vgood_unowned(1) [OF g2(1) un2] by (auto simp: vusable_def)
      ultimately show ?thesis using g2 g1(4) k2 ns(2) True by (intro exI [of _ Q]) simp
    next
      case False
      let ?u = "v_sock_destroy os u2 s"
      have "vgood {} {} (Q(s := [])) ?u" "vkeeps {} Q u2 (Q(s := [])) ?u" "v_th ?u = v_th u2"
        by (rule vgood_destroy_unowned [OF e g2(1) s2]; use g1(6) un2 in blast)+
      moreover have "p = None" "er = Some (- rc)" "u' = ?u" using o sn Some lc False by (auto simp: v_tcp_listen_def)
      ultimately show ?thesis using vkeeps_trans [OF k2] g2(3) ns(2) by (intro exI [of _ "Q(s := [])"]) simp
    qed
  qed
qed

lemma v_submit_sock_port:
  assumes g: "vgood {} {} Q u" and s: "vusable (v_th u) (v_sh u) Q (vl u) s" and o: "v_sock_port os u s = (r, u')"
  shows "vgood {} {} Q u'" "vkeeps S Q u Q u'"
  using vgood_log_same [where os = os and c = "Uv_tcp_getsockname s", OF g] s o
  by (auto simp: v_sock_port_def uv_eq vusable_def)

subsection \<open>Accepting and reading\<close>

text \<open>A task refused with an error of the backend's own.\<close>

lemma v_submit_refused:
  assumes e: "v_env os" and g: "vgood {} {} Q u" and o: "v_task_new_failed os u k er = (p, u')" and k: "k \<noteq> VTASK_TIMER"
  shows "v_submit Q u p u'"
    "p = Some t \<Longrightarrow> v_th u' = (v_th u)(t \<mapsto> (v_task0 k)\<lparr>vt_res := mk_result MYIO_ERROR 0 er None, vt_done := True\<rparr>) \<and> v_sh u' = v_sh u \<and> vl u' = vl u"
proof -
  let ?x1 = "(v_task0 k)\<lparr>vt_res := result0\<lparr>res_status := MYIO_ERROR, res_error := er\<rparr>\<rparr>"
  let ?x = "?x1\<lparr>vt_done := True\<rparr>"
  have r0: "vt_res (v_task0 k) = result0" "mk_result MYIO_ERROR 0 er None = result0\<lparr>res_status := MYIO_ERROR, res_error := er\<rparr>"
    by (simp_all add: v_task0_def result0_def mk_result_def)
  show "v_submit Q u p u'"
  proof (rule v_submit_by [OF e g o [unfolded v_task_new_failed_def]], goal_cases)
    case (1 t u1)
    note h = v_new_heap [OF e g 1(1)] and f = v_freshD [OF v_fresh_simps(1) [of k]]
    have nt: "vgood {t} {} Q u1" "vkeeps {} Q u Q u1" "v_th u t = None"
      using v_new_task [OF e g 1(1) v_fresh_simps(1) _ refl] h(2) by (simp_all add: v_task0_def)
    have u': "p = Some t" "u' = u1\<lparr>v_th := (v_th u1)(t \<mapsto> ?x)\<rparr>" using 1(2) h(1) r0 by auto
    have s: "v_settles {t} {} Q u1 t (v_task0 k) ?x1" using h(1) f k by (auto simp: v_settles_def result0_def)
    have eq: "?x = ?x1\<lparr>vt_done := True, vt_free_on_close := vt_detached (v_task0 k)\<rparr>" by (simp add: v_task0_def)
    have "vcore ({t} - {t}) {} (m_brk u1) ((v_th u1)(t \<mapsto> ?x)) (v_sh u1) Q (vl u1)"
      by (rule v_settled_core [OF nt(1) s _ eq]) (use f(3) in simp)
    from vgood_heap [OF nt(1) this, of "v_ncompleted u1"] h(1) have g': "vgood {} {} Q u'" unfolding u'(2) by auto
    have "vkeeps {} Q u1 Q u'"
      unfolding u'(2) vkeeps_def using f by simp (rule vkeep_upd [of "v_th u1", OF h(1)], auto simp: v_held_def r0 result0_def)
    with g' nt u' f show ?case by (intro v_submitI [OF _ vkeeps_trans [OF nt(2)]]) (auto simp: v_held_def result0_def)
  qed
  show "v_th u' = (v_th u)(t \<mapsto> (v_task0 k)\<lparr>vt_res := mk_result MYIO_ERROR 0 er None, vt_done := True\<rparr>) \<and> v_sh u' = v_sh u \<and> vl u' = vl u"
    if p: "p = Some t"
  proof -
    obtain q u1 where n: "v_task_new os u k = (q, u1)" by (cases "v_task_new os u k")
    with o p have q: "q = Some t" by (auto simp: v_task_new_failed_def split: option.splits)
    note h = v_new_heap [OF e g n [unfolded q]]
    have "v_th u1 = (v_th u)(t \<mapsto> v_task0 k)" using vgood_task_new(1) [OF e g n] q by auto
    then show ?thesis using o n q h(1) r0 vgood_task_new(3,5) [OF e g n] by (auto simp: v_task_new_failed_def)
  qed
qed

text \<open>The oldest parked connection is taken from the queue.\<close>

lemma vgood_pending_pop:
  assumes g: "vgood T D Q u" and s: "v_sh u s = Some y" "tcp_is_open (vl u) s" and q: "Q s = k # ks"
  shows "wq_head (vs_pending y) = Some k" "vgood T D (Q(s := ks)) (v_pending_pop u s)" "vkeeps S Q u (Q(s := ks)) (v_pending_pop u s)"
    "\<exists>pq nx. v_pending_pop u s = u\<lparr>v_sh := (v_sh u)(s \<mapsto> y\<lparr>vs_pending := pq\<rparr>), v_pnode := nx\<rparr>"
    "\<And>r. k \<notin> set ((Q(s := ks)) r)" "\<exists>z. v_sh u k = Some z" "tcp_is_open (vl u) k" "\<And>t x. v_th u t = Some x \<Longrightarrow> v_own x \<noteq> Some k"
proof -
  note c = vgood_core [OF g]
  note wl = vgood_queue [OF g s]
  show "wq_head (vs_pending y) = Some k" using wq_list_head [OF wl] q by simp
  from wq_pop_list [OF wl] q obtain nx pq where p: "myio_wq_pop (v_pnode u) (vs_pending y) = Some (if ks = [] then None else Some (hd ks), nx, pq)"
    "wq_list nx pq ks" by auto
  have d: "v_pending_pop u s = u\<lparr>v_sh := (v_sh u)(s \<mapsto> y\<lparr>vs_pending := pq\<rparr>), v_pnode := nx\<rparr>" using p s(1) by (simp add: v_pending_pop_def)
  then show "\<exists>pq nx. v_pending_pop u s = u\<lparr>v_sh := (v_sh u)(s \<mapsto> y\<lparr>vs_pending := pq\<rparr>), v_pnode := nx\<rparr>" by blast
  have pk: "k \<in> set (Q s)" using q by simp
  note kp = vcore_park [OF c pk]
  then show "\<exists>z. v_sh u k = Some z" "tcp_is_open (vl u) k" "\<And>t x. v_th u t = Some x \<Longrightarrow> v_own x \<noteq> Some k" by (auto simp: tcp_is_open_def)
  have "distinct (k # ks)" using wq_list_distinct [OF wl] q by simp
  then show "k \<notin> set ((Q(s := ks)) r)" for r using vcore_park_inj [OF c pk, of r] by (cases "r = s") auto
  have sub: "set ((Q(s := ks)) r) \<subseteq> set (Q r)" for r using q by auto
  have core: "vcore T D (m_brk u) (v_th u) ((v_sh u)(s \<mapsto> y\<lparr>vs_pending := pq\<rparr>)) (Q(s := ks)) (vl u)"
    by (rule vcore_pending [OF vcore_park_sub [OF c sub] s(1)])
  show "vgood T D (Q(s := ks)) (v_pending_pop u s)"
    unfolding d
  proof (rule vgood_sh [OF g core])
    fix r w
    assume r: "((v_sh u)(s \<mapsto> y\<lparr>vs_pending := pq\<rparr>)) r = Some w" "tcp_is_open (vl u) r"
    show "wq_list nx (vs_pending w) ((Q(s := ks)) r)"
    proof (cases "r = s")
      case True
      with r p(2) show ?thesis by auto
    next
      case False
      with r have w: "v_sh u r = Some w" by simp
      have "set (Q s) \<inter> set (Q r) = {}" using vcore_park_inj [OF c] False by blast
      from wq_pop_frame [OF wl vgood_queue [OF g w r(2)] this p(1)] False show ?thesis by simp
    qed
  qed
  show "vkeeps S Q u (Q(s := ks)) (v_pending_pop u s)"
    unfolding d vkeeps_def
  proof (simp, rule vkeep_trans)
    show "vkeep S (v_th u) (v_sh u) Q (vl u) (v_th u) (v_sh u) (Q(s := ks)) (vl u)" using sub by (intro vkeep_park) blast
    show "vkeep S (v_th u) (v_sh u) (Q(s := ks)) (vl u) (v_th u) ((v_sh u)(s \<mapsto> y\<lparr>vs_pending := pq\<rparr>)) (Q(s := ks)) (vl u)"
      by (rule vkeep_sock [of "v_sh u", OF s(1)]) (use s(2) in auto)
  qed
qed

lemma vusable_new:
  assumes "vusable th sh Q l s" and "th' = th(t \<mapsto> x)" and "vt_kind x \<noteq> VTASK_CONNECT"
  shows "vusable th' sh Q l s"
  using assms by (auto simp: vusable_def)

text \<open>The task goes into its slot of the socket, together with a call to libuv.\<close>

lemma vgood_link_call:
  assumes g: "vgood {t} {} Q w" and t: "v_th w t = Some x" "vt_kind x = k" "\<not> vt_done x" "k \<noteq> VTASK_SOCK_CLOSE \<longrightarrow> vt_sock x = Some s"
    and s: "v_sh w s = Some y" "v_slot k y = None" "vusable (v_th w) (v_sh w) Q (vl w) s"
    and y': "slot_upd k (Some t) y y'" "vs_pending y' = vs_pending y" and ok: "uv_call_ok (vl w) c"
    and lo: "tcp_off s (vl w) (uv_effect c (v_ans os c w) (vl w))" and v: "vsock {} (m_brk w) (uv_effect c (v_ans os c w) (vl w)) s y'"
    and op: "tcp_is_open (uv_effect c (v_ans os c w) (vl w)) s"
  shows "vgood {} {} Q ((v_log os c w)\<lparr>v_sh := (v_sh w)(s \<mapsto> y')\<rparr>)" "vkeeps S Q w Q ((v_log os c w)\<lparr>v_sh := (v_sh w)(s \<mapsto> y')\<rparr>)"
proof -
  let ?l = "uv_effect c (v_ans os c w) (vl w)"
  have "vcore ({t} - {t}) {} (m_brk w) (v_th w) ((v_sh w)(s \<mapsto> y')) Q ?l"
    by (rule vcore_link [OF vgood_core [OF g] _ t s y'(1) lo v]) (use op in auto)
  moreover have "wq_list (v_pnode w) (vs_pending z) (Q r)" if "((v_sh w)(s \<mapsto> y')) r = Some z" "tcp_is_open ?l r" for r z
  proof (cases "r = s")
    case True
    with that s y'(2) vgood_queue [OF g s(1)] show ?thesis by (auto simp: vusable_def)
  next
    case False
    with that lo vgood_queue [OF g, of r z] show ?thesis by (auto simp: tcp_off_def tcp_is_open_def)
  qed
  ultimately show "vgood {} {} Q ((v_log os c w)\<lparr>v_sh := (v_sh w)(s \<mapsto> y')\<rparr>)"
    using vgood_call_sh [where nx = "v_pnode w" and c = c and os = os, OF g ok, of "{}" "{}" "(v_sh w)(s \<mapsto> y')" Q]
    by (simp add: sock_pnode_id)
  have "vkeep S (v_th w) (v_sh w) Q (vl w) (v_th w) ((v_sh w)(s \<mapsto> y')) Q ?l"
    by (rule vkeep_sock [of "v_sh w", OF s(1)]) (use lo op in \<open>auto simp: tcp_off_def\<close>)
  then show "vkeeps S Q w Q ((v_log os c w)\<lparr>v_sh := (v_sh w)(s \<mapsto> y')\<rparr>)" by (simp add: vkeeps_def)
qed

lemma vgood_link:
  assumes g: "vgood {t} {} Q w" and t: "v_th w t = Some x" "vt_kind x = k" "\<not> vt_done x" "k \<noteq> VTASK_SOCK_CLOSE \<longrightarrow> vt_sock x = Some s"
    and s: "v_sh w s = Some y" "v_slot k y = None" "vusable (v_th w) (v_sh w) Q (vl w) s"
    and y': "slot_upd k (Some t) y y'" "vs_pending y' = vs_pending y" and v: "vsock {} (m_brk w) (vl w) s y'"
  shows "vgood {} {} Q (w\<lparr>v_sh := (v_sh w)(s \<mapsto> y')\<rparr>)" "vkeeps S Q w Q (w\<lparr>v_sh := (v_sh w)(s \<mapsto> y')\<rparr>)"
proof -
  have op: "tcp_is_open (vl w) s" using s(3) by (simp add: vusable_def)
  have "vcore ({t} - {t}) {} (m_brk w) (v_th w) ((v_sh w)(s \<mapsto> y')) Q (vl w)"
    by (rule vcore_link [OF vgood_core [OF g] _ t s y'(1) _ v]) (use op in \<open>auto simp: tcp_off_def\<close>)
  moreover have "wq_list (v_pnode w) (vs_pending z) (Q r)" if "((v_sh w)(s \<mapsto> y')) r = Some z" "tcp_is_open (vl w) r" for r z
    using that s(1) y'(2) vgood_queue [OF g] by (cases "r = s") auto
  ultimately show "vgood {} {} Q (w\<lparr>v_sh := (v_sh w)(s \<mapsto> y')\<rparr>)"
    using vgood_sh [where nx = "v_pnode w", OF g, of "{}" "{}" "(v_sh w)(s \<mapsto> y')" Q] by (simp add: sock_pnode_id)
  show "vkeeps S Q w Q (w\<lparr>v_sh := (v_sh w)(s \<mapsto> y')\<rparr>)"
    unfolding vkeeps_def using vkeep_sock [of "v_sh w", OF s(1), of "vl w" "vl w"] op by simp
qed

lemma v_submit_tcp_accept:
  assumes e: "v_env os" and g: "vgood {} {} Q u" and s: "vusable (v_th u) (v_sh u) Q (vl u) ls" and o: "v_tcp_accept os u ls = (p, u')"
  shows "v_submit Q u p u'"
    "\<And>t k ks y. p = Some t \<Longrightarrow> v_sh u ls = Some y \<Longrightarrow> vs_accept_task y = None \<Longrightarrow> Q ls = k # ks \<Longrightarrow>
      \<exists>x. v_th u' t = Some x \<and> vt_done x \<and> vt_res x = mk_result MYIO_OK 0 0 (Some k)"
proof -
  from s obtain y where y: "v_sh u ls = Some y" "tcp_is_open (vl u) ls" by (auto simp: vusable_def)
  have "v_submit Q u p u' \<and> (\<forall>t k ks. p = Some t \<longrightarrow> vs_accept_task y = None \<longrightarrow> Q ls = k # ks \<longrightarrow>
      (\<exists>x. v_th u' t = Some x \<and> vt_done x \<and> vt_res x = mk_result MYIO_OK 0 0 (Some k)))"
  proof (cases "vs_accept_task y")
    case (Some a)
    with o y have "v_task_new_failed os u VTASK_ACCEPT EBUSY = (p, u')" by (simp add: v_tcp_accept_def)
    from v_submit_refused(1) [OF e g this] Some show ?thesis by simp
  next
    case None
    obtain q u1 where n: "v_task_new os u VTASK_ACCEPT = (q, u1)" by (cases "v_task_new os u VTASK_ACCEPT")
    show ?thesis
    proof (cases q)
      case None
      with v_submit_none [OF e g, of VTASK_ACCEPT u1] n o y \<open>vs_accept_task y = None\<close> show ?thesis by (simp add: v_tcp_accept_def)
    next
      case (Some t)
      let ?x = "(v_task0 VTASK_ACCEPT)\<lparr>vt_sock := Some ls\<rparr>"
      let ?w = "u1\<lparr>v_th := (v_th u1)(t \<mapsto> ?x)\<rparr>"
      have n': "v_task_new os u VTASK_ACCEPT = (Some t, u1)" using n Some by simp
      have fr: "v_fresh VTASK_ACCEPT ?x" by simp
      note h = v_new_heap [OF e g n'] and f = v_freshD [OF fr]
      have w: "vgood {t} {} Q ?w" "vkeeps {} Q u Q ?w" "v_th u t = None" "v_th ?w = (v_th u)(t \<mapsto> ?x)" "v_sh ?w = v_sh u" "vl ?w = vl u"
        using v_new_task [OF e g n' fr _ refl] by simp_all
      have tw: "v_th ?w t = Some ?x" by simp
      have uw: "vusable (v_th ?w) (v_sh ?w) Q (vl ?w) ls" unfolding w(5,6) by (rule vusable_new [OF s w(4)]) (use f in simp)
      have yw: "v_sh ?w ls = Some y" "tcp_is_open (vl ?w) ls" using y w(5,6) by simp_all
      have sh1: "v_sh u1 ls = Some y" using yw(1) by simp
      show ?thesis
      proof (cases "Q ls")
        case Nil
        have "wq_head (vs_pending y) = None" using wq_list_head [OF vgood_queue [OF w(1) yw]] Nil by simp
        then have u': "p = Some t" "u' = ?w\<lparr>v_sh := (v_sh ?w)(ls \<mapsto> y\<lparr>vs_accept_task := Some t\<rparr>)\<rparr>"
          using o y n' None h(1) sh1 by (auto simp: v_tcp_accept_def)
        have v: "vsock {} (m_brk ?w) (vl ?w) ls (y\<lparr>vs_accept_task := Some t\<rparr>)"
          using vcore_sock [OF vgood_core [OF w(1)] yw(1)] by (simp add: vsock_def)
        have "vgood {} {} Q u'" "vkeeps {} Q ?w Q u'"
          unfolding u' by (rule vgood_link [where k = VTASK_ACCEPT, OF w(1) tw f(1,2) _ yw(1) _ uw slot_updI(2) _ v]; use None in simp)+
        moreover have "v_th u' t = Some ?x" using u' by simp
        ultimately have "v_submit Q u (Some t) u'" using w(3) f by (intro v_submitI [OF _ vkeeps_trans [OF w(2)]]) auto
        with u' Nil show ?thesis by simp
      next
        case (Cons k ks)
        note pp = vgood_pending_pop [OF w(1) yw Cons]
        let ?v = "v_pending_pop ?w ls"
        from pp(4) obtain pq nx where pv: "?v = ?w\<lparr>v_sh := (v_sh ?w)(ls \<mapsto> y\<lparr>vs_pending := pq\<rparr>), v_pnode := nx\<rparr>" by blast
        let ?u' = "v_task_complete os (upd_vt t (\<lambda>x. x\<lparr>vt_res := (vt_res x)\<lparr>res_ptr := Some k\<rparr>\<rparr>) ?v) t 0"
        have u': "p = Some t" "u' = ?u'" using o y n' None h(1) sh1 pp(1) by (auto simp: v_tcp_accept_def)
        have tv: "v_th ?v t = Some ?x" using pv by simp
        have kv: "v_sh ?v k \<noteq> None" "tcp_is_open (vl ?v) k" using pp(6,7) pv by auto
        have own: "v_own z \<noteq> Some k" if "v_th ?v q = Some z" for q z using pp(8) [of q z] that pv by simp
        have "\<exists>Q'. vgood {} {} Q' ?u' \<and> vkeeps {} (Q(ls := ks)) ?v Q' ?u' \<and> v_settled ?v t ?u' \<and> (\<not> vt_detached ?x \<longrightarrow>
            v_th ?u' t = Some (?x\<lparr>vt_res := (vt_res ?x)\<lparr>res_status := MYIO_OK, res_value := 0, res_ptr := Some k\<rparr>, vt_done := True\<rparr>))"
          by (rule v_accept_wins [OF e pp(2) tv f(1,2) kv pp(5) _ refl]) (rule own)
        then obtain Q' where Q': "vgood {} {} Q' ?u'" "vkeeps {} (Q(ls := ks)) ?v Q' ?u'"
          "\<not> vt_detached ?x \<longrightarrow> v_th ?u' t = Some (?x\<lparr>vt_res := (vt_res ?x)\<lparr>res_status := MYIO_OK, res_value := 0, res_ptr := Some k\<rparr>, vt_done := True\<rparr>)"
          by (elim exE conjE) (rule that; assumption)
        have Q3: "v_th ?u' t = Some (?x\<lparr>vt_res := (vt_res ?x)\<lparr>res_status := MYIO_OK, res_value := 0, res_ptr := Some k\<rparr>, vt_done := True\<rparr>)"
          using Q'(3) f(3) by simp
        have dk: "vdropok (v_th ?u') (v_sh ?u') Q' (vl ?u') t"
        proof -
          have "vdropok (v_th ?v) (v_sh ?v) (Q(ls := ks)) (vl ?v) t" using tv f by (simp add: vdropok_def)
          with Q'(2) tv f show ?thesis unfolding vkeeps_def vkeep_def by blast
        qed
        have r: "(vt_res ?x)\<lparr>res_status := MYIO_OK, res_value := 0, res_ptr := Some k\<rparr> = mk_result MYIO_OK 0 0 (Some k)"
          using f(4) by (simp add: result0_def mk_result_def)
        have "v_submit Q u (Some t) ?u'"
          unfolding v_submit_def
          using Q'(1) vkeeps_trans [OF vkeeps_trans [OF w(2) pp(3)] Q'(2)] dk Q3 w(3) f
          by (intro exI [of _ Q']) (auto simp: v_held_def)
        with u' Cons Q3 r show ?thesis by (auto simp: mk_result_def)
      qed
    qed
  qed
  then show "v_submit Q u p u'" "\<And>t k ks z. p = Some t \<Longrightarrow> v_sh u ls = Some z \<Longrightarrow> vs_accept_task z = None \<Longrightarrow> Q ls = k # ks \<Longrightarrow>
      \<exists>x. v_th u' t = Some x \<and> vt_done x \<and> vt_res x = mk_result MYIO_OK 0 0 (Some k)"
    using y by auto
qed

lemma v_submit_sock_read:
  assumes e: "v_env os" and g: "vgood {} {} Q u" and s: "vusable (v_th u) (v_sh u) Q (vl u) s" and o: "v_sock_read os u s buf len = (p, u')"
  shows "v_submit Q u p u'"
proof -
  from s obtain y where y: "v_sh u s = Some y" "tcp_is_open (vl u) s" by (auto simp: vusable_def)
  show ?thesis
  proof (cases "vs_read_task y")
    case (Some a)
    with o y have "v_task_new_failed os u VTASK_SOCK_READ EBUSY = (p, u')" by (simp add: v_sock_read_def)
    from v_submit_refused(1) [OF e g this] show ?thesis by simp
  next
    case None
    obtain q u1 where n: "v_task_new os u VTASK_SOCK_READ = (q, u1)" by (cases "v_task_new os u VTASK_SOCK_READ")
    show ?thesis
    proof (cases q)
      case None
      with v_submit_none [OF e g, of VTASK_SOCK_READ u1] n o y \<open>vs_read_task y = None\<close> show ?thesis by (simp add: v_sock_read_def)
    next
      case (Some t)
      have n': "v_task_new os u VTASK_SOCK_READ = (Some t, u1)" using n Some by simp
      let ?x = "(v_task0 VTASK_SOCK_READ)\<lparr>vt_sock := Some s, vt_buf := uv_buf_in buf len\<rparr>"
      let ?w = "u1\<lparr>v_th := (v_th u1)(t \<mapsto> ?x)\<rparr>"
      have fr: "v_fresh VTASK_SOCK_READ ?x" by simp
      note h = v_new_heap [OF e g n'] and f = v_freshD [OF fr]
      have w: "vgood {t} {} Q ?w" "vkeeps {} Q u Q ?w" "v_th u t = None" "v_th ?w = (v_th u)(t \<mapsto> ?x)" "v_sh ?w = v_sh u" "vl ?w = vl u"
        using v_new_task [OF e g n' fr _ refl] by simp_all
      have tw: "v_th ?w t = Some ?x" by simp
      have uw: "vusable (v_th ?w) (v_sh ?w) Q (vl ?w) s" unfolding w(5,6) by (rule vusable_new [OF s w(4)]) (use f in simp)
      have yw: "v_sh ?w s = Some y" "tcp_is_open (vl ?w) s" using y w(5,6) by simp_all
      have sh1: "v_sh u1 s = Some y" using yw(1) by simp
      let ?y = "y\<lparr>vs_read_task := Some t\<rparr>"
      let ?c = "Uv_read_start s"
      from y(2) obtain rd lst where tcp: "ul_tcp (vl ?w) s = Some (Tcp_open rd lst)" using w(6)
        by (auto simp: tcp_is_open_def split: option.splits tcp_state.splits)
      let ?v = "(v_log os ?c ?w)\<lparr>v_sh := (v_sh ?w)(s \<mapsto> ?y)\<rparr>"
      have sw: "uv os ?c (?w\<lparr>v_sh := (v_sh u1)(s \<mapsto> ?y)\<rparr>) = (v_ans os ?c ?w, ?v)"
        by (simp add: uv_eq v_log_def)
      have vs: "vsock {} (m_brk ?w) (vl ?w) s y" by (rule vcore_sock [OF vgood_core [OF w(1)] yw(1)])
      show ?thesis
      proof (cases "a_ret (v_ans os ?c ?w) < 0")
        case False
        have "vgood {} {} Q ?v" "vkeeps {} Q ?w Q ?v"
          by (rule vgood_link_call [where k = VTASK_SOCK_READ and c = ?c, OF w(1) tw f(1,2) _ yw(1) _ uw slot_updI(1)];
              use None yw(2) tcp vs False in \<open>simp add: tcp_reading_def tcp_off_def tcp_is_open_def vsock_def\<close>)+
        moreover have "p = Some t" "u' = ?v" using o y None n' h(1) sh1 False sw by (auto simp: v_sock_read_def Let_def)
        ultimately show ?thesis using w(3) f tw by (intro v_submitI [OF _ vkeeps_trans [OF w(2)]]) auto
      next
        case True
        have g2: "vgood {t} {} Q (v_log os ?c ?w)" "vkeeps {} Q ?w Q (v_log os ?c ?w)"
          by (rule vgood_log_same [where c = ?c, OF w(1)]; use True yw(2) in simp)+
        have t2: "v_th (v_log os ?c ?w) t = Some ?x" by simp
        have id: "?v\<lparr>v_sh := (v_sh ?v)(s \<mapsto> ?y\<lparr>vs_read_task := None\<rparr>)\<rparr> = v_log os ?c ?w"
          using None sh1 by (simp add: v_log_def fun_upd_idem)
        have sv: "v_sh ?v s = Some ?y" by simp
        have "p = Some t" "u' = v_task_complete os (v_log os ?c ?w) t (a_ret (v_ans os ?c ?w))"
          using o y None n' h(1) sh1 True sw id upd_vs_Some [OF sv] by (auto simp: v_sock_read_def Let_def)
        with v_submit_completed(1) [OF e g2(1) vkeeps_trans [OF w(2) g2(2)] w(3) t2 fr] show ?thesis by simp
      qed
    qed
  qed
qed

subsection \<open>Closing a socket\<close>

text \<open>A slot is emptied after its task has been cancelled: the order does not matter.\<close>

lemma v_slot_cut:
  assumes e: "v_env os" and g: "vgood T D Q u" and s: "v_sh u s = Some y" "v_slot k y = Some t" and tT: "t \<notin> T"
    and u0: "v_th u0 = v_th u" "v_sh u0 = v_sh u" "v_pend u0 = v_pend u" "v_ncompleted u0 = v_ncompleted u"
    and w: "w = u0\<lparr>v_sh := (v_sh u)(s \<mapsto> f y)\<rparr>" "vgood (insert t T) D Q w" "vkeeps {} Q u Q w"
    and u': "u' = upd_vs s f (v_task_complete os u0 t r)"
  shows "vgood T D Q u'" "vkeeps {} Q u Q u'" "v_sh u' = (v_sh u)(s \<mapsto> f y)" "vl u' = vl w" "\<And>q. q \<noteq> t \<Longrightarrow> v_th u' q = v_th u q"
    "\<And>x. v_th u t = Some x \<Longrightarrow> \<not> vt_detached x \<Longrightarrow> v_th u' t = Some (x\<lparr>vt_res := v_complete_res r (vt_res x), vt_done := True\<rparr>)"
    "v_pend u' = v_pend u - {t}"
proof -
  note co = vgood_core [OF g]
  from vcore_slot [OF co s] obtain x where x: "v_th u t = Some x" "\<not> vt_done x" by blast
  then have r: "res_ptr (vt_res x) = None" using vcore_task [OF co x(1)] by (simp add: vtask_def)
  have x0: "v_th u0 t = Some x" using x(1) u0(1) by simp
  have c1: "v_task_complete os w t r = (v_task_complete os u0 t r)\<lparr>v_sh := (v_sh u)(s \<mapsto> f y)\<rparr>" for r
    unfolding w(1) by (rule v_task_complete_sh [OF x0 r])
  have "(v_task_complete os u0 t r)\<lparr>v_sh := v_sh u\<rparr> = v_task_complete os (u0\<lparr>v_sh := v_sh u\<rparr>) t r"
    using v_task_complete_sh [OF x0 r, of os "v_sh u" r] by simp
  also have "u0\<lparr>v_sh := v_sh u\<rparr> = u0" using u0(2) by simp
  finally have "v_sh ((v_task_complete os u0 t r)\<lparr>v_sh := v_sh u\<rparr>) = v_sh (v_task_complete os u0 t r)" by simp
  then have sh: "v_sh (v_task_complete os u0 t r) = v_sh u" by simp
  have eq: "u' = v_task_complete os w t r" unfolding u' c1 using sh s(1) by simp
  have "v_th w = v_th u" "v_sh w = (v_sh u)(s \<mapsto> f y)" "v_pend w = v_pend u" "v_ncompleted w = v_ncompleted u" using w(1) u0 by simp_all
  note c = v_slot_cancel [OF e g s tT this w(2,3) eq]
  show "vgood T D Q u'" "vkeeps {} Q u Q u'" "v_sh u' = (v_sh u)(s \<mapsto> f y)" "vl u' = vl w" "v_pend u' = v_pend u - {t}" by (fact c)+
  show "v_th u' q = v_th u q" if "q \<noteq> t" for q by (rule c(6) [OF that])
  show "v_th u' t = Some (x\<lparr>vt_res := v_complete_res r (vt_res x), vt_done := True\<rparr>)" if "v_th u t = Some x" "\<not> vt_detached x" for x
    by (rule c(8) [OF that])
qed

text \<open>What closing does to a slot: nothing when it is empty, else its task is cancelled.\<close>

definition v_cut :: "addr set \<Rightarrow> vqueues \<Rightarrow> uv_io \<Rightarrow> addr \<Rightarrow> ptr \<Rightarrow> uv_sock \<Rightarrow> uv_io \<Rightarrow> bool" where
  "v_cut T Q u s p y' u' \<longleftrightarrow> vgood T {} Q u' \<and> vkeeps {} Q u Q u' \<and> v_sh u' = (v_sh u)(s \<mapsto> y') \<and>
     (\<forall>r. tcp_is_open (vl u') r = tcp_is_open (vl u) r) \<and> (\<forall>q. p \<noteq> Some q \<longrightarrow> v_th u' q = v_th u q) \<and> v_pend u' = v_pend u - set_option p \<and>
     (\<forall>q x. p = Some q \<longrightarrow> v_th u q = Some x \<longrightarrow> \<not> vt_detached x \<longrightarrow>
        v_th u' q = Some (x\<lparr>vt_res := v_complete_res UV_ECANCELED (vt_res x), vt_done := True\<rparr>))"

lemma v_cut_read:
  assumes e: "v_env os" and g: "vgood T {} Q u" and s: "v_sh u s = Some y" "tcp_is_open (vl u) s"
    and u': "u' = (if vs_read_task (vs u s) \<noteq> None then v_close_slot_read os (uv_do os (Uv_read_stop s) u) s else u)"
  shows "v_cut T Q u s (vs_read_task y) (y\<lparr>vs_read_task := None\<rparr>) u'"
proof (cases "vs_read_task y")
  case None
  then have eq: "y\<lparr>vs_read_task := None\<rparr> = y" by simp
  show ?thesis unfolding eq using None s g by (simp add: v_cut_def u' vkeeps_refl fun_upd_idem)
next
  case (Some t)
  let ?c = "Uv_read_stop s"
  let ?f = "\<lambda>y. y\<lparr>vs_read_task := None\<rparr>"
  let ?w = "(v_log os ?c u)\<lparr>v_sh := (v_sh u)(s \<mapsto> ?f y)\<rparr>"
  from s(2) obtain rd lst where tcp: "ul_tcp (vl u) s = Some (Tcp_open rd lst)" by (auto simp: tcp_is_open_def split: option.splits tcp_state.splits)
  have vs: "vsock {} (m_brk u) (vl u) s y" by (rule vcore_sock [OF vgood_core [OF g] s(1)])
  have w: "vgood (insert t T) {} Q ?w" "vkeeps {} Q u Q ?w"
    by (rule vgood_unlink_call [where c = ?c and k = VTASK_SOCK_READ, OF g s(1) _ slot_updI(1)];
        use Some tcp vs in \<open>simp add: tcp_live_def tcp_off_def tcp_reading_def tcp_is_open_def vsock_def\<close>)+
  from vcore_slot [OF vgood_core [OF g] s(1), of VTASK_SOCK_READ t] Some have tT: "t \<notin> T" by auto
  have "u' = upd_vs s ?f (v_task_complete os (v_log os ?c u) t UV_ECANCELED)"
    using Some s(1) by (simp add: u' v_close_slot_read_def uv_do_eq)
  note c = v_slot_cut [where f = ?f and k = VTASK_SOCK_READ, OF e g s(1) _ tT _ _ _ _ refl w this]
  have op: "tcp_is_open (vl ?w) r = tcp_is_open (vl u) r" for r using tcp by (simp add: tcp_is_open_def tcp_reading_def)
  show ?thesis unfolding v_cut_def using c Some op by auto
qed

lemma v_cut_accept:
  assumes e: "v_env os" and g: "vgood T {} Q u" and s: "v_sh u s = Some y" and u': "u' = v_close_slot_accept os u s"
  shows "v_cut T Q u s (vs_accept_task y) (y\<lparr>vs_accept_task := None\<rparr>) u'"
proof (cases "vs_accept_task y")
  case None
  then have eq: "y\<lparr>vs_accept_task := None\<rparr> = y" by simp
  show ?thesis unfolding eq using None s g by (simp add: v_cut_def u' v_close_slot_accept_def vkeeps_refl fun_upd_idem)
next
  case (Some t)
  let ?f = "\<lambda>y. y\<lparr>vs_accept_task := None\<rparr>"
  let ?w = "u\<lparr>v_sh := (v_sh u)(s \<mapsto> ?f y)\<rparr>"
  have v: "vsock {} (m_brk u) (vl u) s (?f y)" using vcore_sock [OF vgood_core [OF g] s] by (simp add: vsock_def)
  have w: "vgood (insert t T) {} Q ?w" "vkeeps {} Q u Q ?w"
    by (rule vgood_unlink [where k = VTASK_ACCEPT, OF g s _ slot_updI(2) _ v]; use Some in simp)+
  from vcore_slot [OF vgood_core [OF g] s, of VTASK_ACCEPT t] Some have tT: "t \<notin> T" by auto
  have "u' = upd_vs s ?f (v_task_complete os u t UV_ECANCELED)" using Some s by (simp add: u' v_close_slot_accept_def)
  note c = v_slot_cut [where f = ?f and k = VTASK_ACCEPT, OF e g s _ tT _ _ _ _ refl w this]
  show ?thesis unfolding v_cut_def using c Some by auto
qed

text \<open>The parked connections are closed; as much fuel as there are addresses is enough.\<close>

lemma v_drop_pending_good:
  assumes "v_env os" and "vgood T {} Q u" and "v_sh u s = Some y" "tcp_is_open (vl u) s" "\<And>r. s \<notin> set (Q r)" and "length (Q s) \<le> fuel"
  shows "\<exists>Q' pq. vgood T {} Q' (v_drop_pending os fuel u s) \<and> vkeeps {} Q u Q' (v_drop_pending os fuel u s) \<and> Q' s = [] \<and>
    (\<forall>r. s \<notin> set (Q' r)) \<and> v_th (v_drop_pending os fuel u s) = v_th u \<and>
    v_sh (v_drop_pending os fuel u s) s = Some (y\<lparr>vs_pending := pq\<rparr>) \<and> tcp_is_open (vl (v_drop_pending os fuel u s)) s"
  using assms(2-)
proof (induction fuel arbitrary: u Q y)
  case 0
  then have q: "Q s = []" by simp
  have "wq_head (vs_pending y) = None" using wq_list_head [OF vgood_queue [OF 0(1-3)]] q by simp
  then show ?case using 0 q by (intro exI [of _ Q] exI [of _ "vs_pending y"]) (simp add: vkeeps_refl)
next
  case (Suc fuel)
  note pre = Suc.prems
  show ?case
  proof (cases "Q s")
    case Nil
    have "wq_head (vs_pending y) = None" using wq_list_head [OF vgood_queue [OF pre(1-3)]] Nil by simp
    then show ?thesis using pre Nil by (intro exI [of _ Q] exI [of _ "vs_pending y"]) (simp add: vkeeps_refl)
  next
    case (Cons k ks)
    note pp = vgood_pending_pop [OF pre(1-3) Cons]
    let ?v = "v_pending_pop u s"
    let ?Q = "Q(s := ks)"
    from pp(4) obtain pq nx where pv: "?v = u\<lparr>v_sh := (v_sh u)(s \<mapsto> y\<lparr>vs_pending := pq\<rparr>), v_pnode := nx\<rparr>" by blast
    have ks: "k \<noteq> s" using pre(4) [of s] Cons by auto
    from pp(6) pv ks obtain z where z: "v_sh ?v k = Some z" by auto
    let ?w = "v_sock_destroy os ?v k"
    have own: "v_own x \<noteq> Some k" if "v_th ?v q = Some x" for q x using pp(8) [of q x] that pv by simp
    have d: "vgood T {} (?Q(k := [])) ?w" "vkeeps {} ?Q ?v (?Q(k := [])) ?w" "v_th ?w = v_th ?v" "v_sh ?w = v_sh ?v"
      by (rule vgood_destroy_unowned [OF assms(1) pp(2) z _ pp(5)]; use own in blast)+
    have lw: "vl ?w = (vl ?v)\<lparr>ul_tcp := (ul_tcp (vl ?v))(k \<mapsto> Tcp_closing)\<rparr>"
    proof (rule vgood_sock_destroy(7) [where S = "{}", OF assms(1) pp(2) z _ pp(5)])
      have un: "\<forall>q x. v_th ?v q = Some x \<longrightarrow> v_own x \<noteq> Some k" using own by blast
      show "vt_connecting x" if "v_th ?v t = Some x" "vt_kind x = VTASK_CONNECT" "\<not> vt_done x" "t \<notin> T" "vt_sock x = Some k" for t x
        using vgood_unowned(1) [OF pp(2) un that(1-3)] that(5) by simp
      show "\<not> vusable (v_th ?v) (v_sh ?v) ?Q (vl ?v) k" if "v_th ?v t = Some x" "v_held x" "t \<notin> {}" "res_ptr (vt_res x) = Some k" for t x
        using vgood_unowned(2) [OF pp(2) un that(1)] that(4) by simp
    qed simp
    have sw: "v_sh ?w s = Some (y\<lparr>vs_pending := pq\<rparr>)" using d(4) pv by simp
    have op: "tcp_is_open (vl ?w) s" using pre(3) lw pv ks by (simp add: tcp_is_open_def)
    have un: "s \<notin> set ((?Q(k := [])) r)" for r using pre(4) [of r] Cons pre(4) [of s] by (auto split: if_splits)
    have ln: "length ((?Q(k := [])) s) \<le> fuel" using pre(5) Cons ks by simp
    let ?u' = "v_drop_pending os fuel ?w s"
    have yy: "y\<lparr>vs_pending := pq, vs_pending := p\<rparr> = y\<lparr>vs_pending := p\<rparr>" for p by simp
    have "\<exists>Q' pq'. vgood T {} Q' ?u' \<and> vkeeps {} (?Q(k := [])) ?w Q' ?u' \<and> Q' s = [] \<and> (\<forall>r. s \<notin> set (Q' r)) \<and>
        v_th ?u' = v_th ?w \<and> v_sh ?u' s = Some (y\<lparr>vs_pending := pq'\<rparr>) \<and> tcp_is_open (vl ?u') s"
      using Suc.IH [OF d(1) sw op un ln] unfolding yy .
    then obtain Q' pq' where IH: "vgood T {} Q' ?u'" "vkeeps {} (?Q(k := [])) ?w Q' ?u'" "Q' s = []" "\<forall>r. s \<notin> set (Q' r)"
      "v_th ?u' = v_th ?w" "v_sh ?u' s = Some (y\<lparr>vs_pending := pq'\<rparr>)" "tcp_is_open (vl ?u') s"
      by (elim exE conjE) (rule that; assumption)
    have eq: "v_drop_pending os (Suc fuel) u s = v_drop_pending os fuel ?w s" using pp(1) pre(2) by simp
    have th: "v_th ?v = v_th u" using pv by simp
    show ?thesis unfolding eq
      using IH vkeeps_trans [OF vkeeps_trans [OF pp(3) d(2)] IH(2)] d(3) th by (intro exI [of _ Q'] exI [of _ pq']) simp
  qed
qed

lemma vgood_queue_short:
  assumes "vgood T D Q u" and "v_sh u s = Some y" "tcp_is_open (vl u) s"
  shows "length (Q s) \<le> m_brk u"
proof -
  have "set (Q s) \<subseteq> {..<m_brk u}"
    using vcore_park [OF vgood_core [OF assms(1)]] vcore_sock [OF vgood_core [OF assms(1)]] by (fastforce simp: vsock_def)
  then have "card (set (Q s)) \<le> m_brk u" using card_mono [of "{..<m_brk u}"] by fastforce
  with distinct_card [OF wq_list_distinct [OF vgood_queue [OF assms]]] show ?thesis by simp
qed

lemma v_cut_conn:
  assumes "v_cut T Q u s p y' u'" and "vgood T {} Q u" and "v_th u' q = Some z" "vt_kind z = VTASK_CONNECT" "\<not> vt_done z"
  shows "v_th u q = Some z"
proof -
  have g: "vgood T {} Q u'" using assms(1) by (simp add: v_cut_def)
  have "\<not> vt_free_on_close z" using vcore_task [OF vgood_core [OF g] assms(3)] assms(4) by (auto simp: vtask_def)
  then have "q \<in> v_pend u'" using assms(3,5) by (simp add: v_pend_def)
  with assms(1,3) show ?thesis by (auto simp: v_cut_def)
qed

text \<open>The socket starts to close with the close task in its slot.\<close>

lemma vgood_close_link:
  assumes e: "v_env os" and g: "vgood {t} {} Q w" and t: "v_th w t = Some x" "vt_kind x = VTASK_SOCK_CLOSE" "\<not> vt_done x"
    and s: "v_sh w s = Some y" "Q s = []" "vusable (v_th w) (v_sh w) Q (vl w) s" "vs_read_task y = None" "vs_accept_task y = None"
    and u': "u' = v_sock_destroy os (upd_vs s (\<lambda>y. y\<lparr>vs_close_task := Some t\<rparr>) w) s"
  shows "vgood {} {} Q u'" "v_th u' = v_th w" "v_sh u' = (v_sh w)(s \<mapsto> y\<lparr>vs_close_task := Some t\<rparr>)" "ul_tcp (vl u') s = Some Tcp_closing"
    "vkeeps {q. \<exists>z. v_th w q = Some z \<and> res_ptr (vt_res z) = Some s} Q w Q u'"
proof -
  let ?y = "y\<lparr>vs_close_task := Some t\<rparr>"
  let ?i = "Uv_is_closing (H_tcp s)"
  let ?c = "Uv_close (H_tcp s)"
  let ?v = "v_log os ?i w"
  have op: "tcp_is_open (vl w) s" using s(3) by (simp add: vusable_def)
  then obtain st where st: "ul_tcp (vl w) s = Some st" "st \<noteq> Tcp_closing" by (cases "ul_tcp (vl w) s") (auto simp: tcp_is_open_def split: tcp_state.splits)
  have a0: "a_ret (v_ans os ?i w) = 0" using uv_closing_tcp [OF v_env_ok [OF e] vgood_disc [OF g] st(1)] st(2) by simp
  have eq: "u' = (v_log os ?c ?v)\<lparr>v_sh := (v_sh ?v)(s \<mapsto> ?y)\<rparr>"
    using s(1) a0 by (simp add: u' v_sock_destroy_def uv_eq uv_do_eq v_log_def)
  have gv: "vgood {t} {} Q ?v" using vgood_log_same(1) [where c = ?i and os = os, OF g] st(1) by (simp add: tcp_live_def)
  have vs: "vsock {} (m_brk w) (vl w) s y" by (rule vcore_sock [OF vgood_core [OF g] s(1)])
  have cl: "v_slot VTASK_SOCK_CLOSE y = None" using vs op by (auto simp: vsock_def tcp_is_open_def split: option.splits tcp_state.splits)
  let ?l = "uv_effect ?c (v_ans os ?c ?v) (vl ?v)"
  have l: "?l = (vl w)\<lparr>ul_tcp := (ul_tcp (vl w))(s \<mapsto> Tcp_closing)\<rparr>" by simp
  have core: "vcore ({t} - {t}) {} (m_brk ?v) (v_th ?v) ((v_sh ?v)(s \<mapsto> ?y)) Q ?l"
    by (rule vcore_link [where k = VTASK_SOCK_CLOSE, OF vgood_core [OF gv] _ _ t(2,3) _ _ cl _ slot_updI(3)])
      (use t(1) s vs in \<open>auto simp: l tcp_off_def vsock_def\<close>)
  have "vgood {} {} Q ((v_log os ?c ?v)\<lparr>v_sh := (v_sh ?v)(s \<mapsto> ?y), v_pnode := v_pnode ?v\<rparr>)"
  proof (rule vgood_call_sh [OF gv])
    show "uv_call_ok (vl ?v) ?c" using op by simp
    show "vcore {} {} (m_brk ?v) (v_th ?v) ((v_sh ?v)(s \<mapsto> ?y)) Q ?l" using core by simp
    show "wq_list (v_pnode ?v) (vs_pending z) (Q r)" if "((v_sh ?v)(s \<mapsto> ?y)) r = Some z" "tcp_is_open ?l r" for r z
      using that vgood_queue [OF g, of r z] by (cases "r = s") (auto simp: tcp_is_open_def)
  qed
  then show "vgood {} {} Q u'" unfolding eq by (simp only: sock_pnode_id)
  show "v_th u' = v_th w" "v_sh u' = (v_sh w)(s \<mapsto> ?y)" "ul_tcp (vl u') s = Some Tcp_closing" by (simp_all add: eq)
  show "vkeeps {q. \<exists>z. v_th w q = Some z \<and> res_ptr (vt_res z) = Some s} Q w Q u'"
    unfolding vkeeps_def eq using vkeep_sock [of "v_sh w", OF s(1), of ?l "vl w"] by simp
qed

lemma v_cutD:
  assumes "v_cut T Q u s p y' u'"
  shows "vgood T {} Q u'" "vkeeps {} Q u Q u'" "v_sh u' s = Some y'" "\<And>r. tcp_is_open (vl u') r = tcp_is_open (vl u) r"
    "\<And>q. p \<noteq> Some q \<Longrightarrow> v_th u' q = v_th u q"
    "\<And>q x. p = Some q \<Longrightarrow> v_th u q = Some x \<Longrightarrow> \<not> vt_detached x \<Longrightarrow>
      v_th u' q = Some (x\<lparr>vt_res := v_complete_res UV_ECANCELED (vt_res x), vt_done := True\<rparr>)"
  using assms by (simp_all add: v_cut_def)

lemma v_submit_sock_close:
  assumes e: "v_env os" and g: "vgood {} {} Q u" and s: "vusable (v_th u) (v_sh u) Q (vl u) s" and o: "v_sock_close os u s = (p, u')"
  shows "\<exists>Q'. vgood {} {} Q' u' \<and> vkeeps {q. \<exists>z. v_th u' q = Some z \<and> res_ptr (vt_res z) = Some s} Q u Q' u' \<and>
    (\<forall>t. p = Some t \<longrightarrow> v_th u t = None \<and> v_th u' t = Some (v_task0 VTASK_SOCK_CLOSE) \<and> ul_tcp (vl u') s = Some Tcp_closing \<and>
       (\<forall>y r x. v_sh u s = Some y \<longrightarrow> vs_read_task y = Some r \<or> vs_accept_task y = Some r \<longrightarrow> v_th u r = Some x \<longrightarrow> \<not> vt_detached x \<longrightarrow>
          v_th u' r = Some (x\<lparr>vt_res := (vt_res x)\<lparr>res_status := MYIO_CANCELED\<rparr>, vt_done := True\<rparr>)))"
proof -
  let ?k = VTASK_SOCK_CLOSE
  obtain q u1 where n: "v_task_new os u ?k = (q, u1)" by (cases "v_task_new os u ?k")
  show ?thesis
  proof (cases q)
    case None
    with o n have "p = None" "u' = u1" by (auto simp: v_sock_close_def)
    with vgood_task_new(1,2) [OF e g n] None show ?thesis by auto
  next
    case (Some t)
    have n': "v_task_new os u ?k = (Some t, u1)" using n Some by simp
    note h = v_new_heap [OF e g n'] and f = v_freshD [OF v_fresh_simps(1) [of ?k]]
    have w: "vgood {t} {} Q u1" "vkeeps {} Q u Q u1" "v_th u t = None" "v_th u1 = (v_th u)(t \<mapsto> v_task0 ?k)" "v_sh u1 = v_sh u" "vl u1 = vl u"
      using v_new_task [OF e g n' v_fresh_simps(1) _ refl] h(2) by simp_all
    from s obtain y where y: "v_sh u s = Some y" "tcp_is_open (vl u) s" "\<And>r. s \<notin> set (Q r)" by (auto simp: vusable_def)
    have y1: "v_sh u1 s = Some y" "tcp_is_open (vl u1) s" using y w(5,6) by simp_all
    have slot: "\<exists>x. v_th u r = Some x \<and> vt_kind x = j" if "v_slot j y = Some r" for j r
      using vcore_slot [OF vgood_core [OF g] y(1) that] by blast
    define u2 where "u2 = (if vs_read_task (vs u1 s) \<noteq> None then v_close_slot_read os (uv_do os (Uv_read_stop s) u1) s else u1)"
    define y2 where "y2 = y\<lparr>vs_read_task := None\<rparr>"
    have c2: "v_cut {t} Q u1 s (vs_read_task y) y2 u2" unfolding y2_def by (rule v_cut_read [OF e w(1) y1 u2_def])
    note d2 = v_cutD [OF c2]
    define u3 where "u3 = v_close_slot_accept os u2 s"
    define y3 where "y3 = y2\<lparr>vs_accept_task := None\<rparr>"
    have c3: "v_cut {t} Q u2 s (vs_accept_task y2) y3 u3" unfolding y3_def by (rule v_cut_accept [OF e d2(1,3) u3_def])
    note d3 = v_cutD [OF c3]
    have acc: "vs_accept_task y2 = vs_accept_task y" by (simp add: y2_def)
    define u4 where "u4 = v_drop_pending os (m_brk u3) u3 s"
    have op3: "tcp_is_open (vl u3) s" using d3(4) d2(4) y1(2) by simp
    from v_drop_pending_good [OF e d3(1,3) op3 y(3) vgood_queue_short [OF d3(1,3) op3], folded u4_def]
    obtain Q' pq where d4: "vgood {t} {} Q' u4" "vkeeps {} Q u3 Q' u4" "Q' s = []" "\<forall>r. s \<notin> set (Q' r)" "v_th u4 = v_th u3"
      "v_sh u4 s = Some (y3\<lparr>vs_pending := pq\<rparr>)" "tcp_is_open (vl u4) s" by (elim exE conjE) (rule that; assumption)
    let ?y4 = "y3\<lparr>vs_pending := pq\<rparr>"
    have nr: "vs_read_task y \<noteq> Some t" "vs_accept_task y \<noteq> Some t"
      using slot [of VTASK_SOCK_READ t] slot [of VTASK_ACCEPT t] w(3) by auto
    have t4: "v_th u4 t = Some (v_task0 ?k)" using d4(5) d3(5) d2(5) nr acc w(4) by simp
    have us: "vusable (v_th u4) (v_sh u4) Q' (vl u4) s"
      unfolding vusable_def
    proof (intro conjI allI impI)
      fix q z
      assume z: "v_th u4 q = Some z" "vt_kind z = VTASK_CONNECT" "\<not> vt_done z"
      have "v_th u1 q = Some z" by (rule v_cut_conn [OF c2 w(1) v_cut_conn [OF c3 d2(1)]]) (use z d4(5) in simp_all)
      then have "v_th u q = Some z" using w(4) z(2) f(1) by (auto split: if_splits)
      with s z show "vt_sock z \<noteq> Some s" by (auto simp: vusable_def)
    qed (use d4 in auto)
    have u': "p = Some t" "u' = v_sock_destroy os (upd_vs s (\<lambda>y. y\<lparr>vs_close_task := Some t\<rparr>) u4) s"
    proof -
      have ck: "chk_vs s u1 = u1" using y1(1) by simp
      have "v_sock_close os u s = (Some t, v_sock_destroy os (upd_vs s (\<lambda>y. y\<lparr>vs_close_task := Some t\<rparr>) u4) s)"
        unfolding u4_def u3_def u2_def v_sock_close_def n' Let_def prod.case option.case ck ..
      with o show "p = Some t" "u' = v_sock_destroy os (upd_vs s (\<lambda>y. y\<lparr>vs_close_task := Some t\<rparr>) u4) s" by auto
    qed
    note d5 = vgood_close_link [OF e d4(1) t4 f(1,2) d4(6,3) us _ _ u'(2)]
    have k4: "vkeeps {} Q u Q' u4" by (rule vkeeps_trans [OF vkeeps_trans [OF w(2) d2(2)] vkeeps_trans [OF d3(2) d4(2)]])
    have th4: "v_th u4 r = (if vs_accept_task y = Some r then v_th u3 r else if vs_read_task y = Some r then v_th u2 r else v_th u1 r)" for r
      using d4(5) d3(5) [of r] d2(5) [of r] acc by auto
    have g5: "vgood {} {} Q' u'" "v_th u' = v_th u4" "ul_tcp (vl u') s = Some Tcp_closing"
      using d5(1,2,4) by (simp_all add: y3_def y2_def)
    have k5: "vkeeps {q. \<exists>z. v_th u' q = Some z \<and> res_ptr (vt_res z) = Some s} Q' u4 Q' u'" using d5(5) g5(2) by (simp add: y3_def y2_def)
    have "v_th u' r = Some (x\<lparr>vt_res := (vt_res x)\<lparr>res_status := MYIO_CANCELED\<rparr>, vt_done := True\<rparr>)"
      if r: "vs_read_task y = Some r \<or> vs_accept_task y = Some r" "v_th u r = Some x" "\<not> vt_detached x" for r x
    proof -
      have rt: "r \<noteq> t" using r nr by auto
      have x1: "v_th u1 r = Some x" using w(4) r(2) rt by simp
      show ?thesis
      proof (cases "vs_accept_task y = Some r")
        case True
        with slot [of VTASK_ACCEPT r] slot [of VTASK_SOCK_READ r] r(2) have "vs_read_task y \<noteq> Some r" by auto
        then have "v_th u2 r = Some x" using d2(5) x1 by simp
        with d3(6) [of r x] True acc r(3) g5(2) th4 [of r] show ?thesis by (simp add: v_complete_status)
      next
        case False
        with r(1) have "vs_read_task y = Some r" by simp
        with d2(6) [of r x] x1 r(3) g5(2) th4 [of r] False show ?thesis by (simp add: v_complete_status)
      qed
    qed
    with g5 u'(1) y(1) w(3) t4 show ?thesis
      using vkeeps_trans [OF vkeeps_mono [OF k4 empty_subsetI] k5] by (intro exI [of _ Q']) auto
  qed
qed

end
