(* ===== verification/Myio_Uv_Ops.thy ===== *)
theory Myio_Uv_Ops
  imports Myio_Uv_Submit
begin

text \<open>
  Cancelling, freeing and detaching tasks of the libuv backend, and the contracts of
  \<^verbatim>\<open>myio.h\<close> it meets.
\<close>

subsection \<open>Cancelling\<close>

lemma vcore_cong:
  assumes "vcore T D b th sh Q l" and "ul_req l' = ul_req l" "ul_timer l' = ul_timer l" "ul_tcp l' = ul_tcp l"
  shows "vcore T D b th sh Q l'"
  using assms(1) unfolding vcore_def vtasks_def vtask_def vsocks_def vsock_def vconns_def vconn_ok_def vpark_def tcp_is_open_def assms(2-4) .

lemma vgood_cancel_request:
  assumes g: "vgood {} {} Q u" and r: "ul_req (vl u) t \<in> {Some Rq_fs, Some Rq_work, Some Rq_gai}" and o: "v_cancel_request os u t = (rc, u')"
  shows "v_turn Q u u'" "rc \<in> {0, - 1}" "v_th u' = v_th u" "rc = 0 \<Longrightarrow> t \<in> ul_cancel (vl u')"
proof -
  let ?c = "Uv_cancel t"
  have u': "u' = v_log os ?c u" "rc = (if a_ret (v_ans os ?c u) = 0 then 0 else - 1)" using o by (auto simp: v_cancel_request_def uv_eq)
  have l: "ul_req (vl u') = ul_req (vl u)" "ul_timer (vl u') = ul_timer (vl u)" "ul_tcp (vl u') = ul_tcp (vl u)" using u'(1) by simp_all
  have "vcore {} {} (m_brk u) (v_th u) (v_sh u) Q (vl u')" by (rule vcore_cong [OF vgood_core [OF g] l])
  then have "vgood {} {} Q u'"
    unfolding u' by (intro vgood_log [OF g]) (use r l(3) u'(1) in \<open>auto simp: tcp_is_open_def\<close>)
  moreover have "vkeeps {} Q u Q u'" unfolding vkeeps_def using u'(1) l(3) vkeep_req [of "vl u'" "vl u"] by simp
  ultimately show "v_turn Q u u'" using u'(1) by (intro v_turnI v_count_same) simp_all
  show "rc \<in> {0, - 1}" "v_th u' = v_th u" "rc = 0 \<Longrightarrow> t \<in> ul_cancel (vl u')" using u' by (auto split: if_splits)
qed

text \<open>A read or an accept that waits in its socket's slot.\<close>

lemma vgood_waiting:
  assumes g: "vgood {} {} Q u" and x: "v_th u t = Some x" "\<not> vt_done x" "vt_kind x = k" "k \<in> {VTASK_SOCK_READ, VTASK_ACCEPT}"
  shows "\<exists>s y. vt_sock x = Some s \<and> v_sh u s = Some y \<and> v_slot k y = Some t"
  using vcore_pull [OF vgood_core [OF g] x(1) _ x(2)] x(3,4) by (auto simp: v_pull_def)

lemma v_cancel_good:
  assumes e: "v_env os" and g: "vgood {} {} Q u" and x: "v_th u t = Some x" "v_held x" and o: "v_cancel os u t = (rc, u')"
  shows "v_turn Q u u'" "rc \<in> {0, - 1}" "vt_done x \<Longrightarrow> rc = - 1 \<and> u' = u"
    "\<not> vt_done x \<Longrightarrow> vt_kind x \<in> {VTASK_TIMER, VTASK_SOCK_READ, VTASK_ACCEPT} \<Longrightarrow>
      rc = 0 \<and> v_th u' t = Some (x\<lparr>vt_res := (vt_res x)\<lparr>res_status := MYIO_CANCELED\<rparr>, vt_done := True\<rparr>)"
    "\<not> vt_done x \<Longrightarrow> vt_kind x \<in> {VTASK_FS, VTASK_SPAWN} \<or> vt_kind x = VTASK_CONNECT \<and> \<not> vt_connecting x \<Longrightarrow>
      v_th u' = v_th u \<and> (rc = 0 \<longrightarrow> t \<in> ul_cancel (vl u'))"
proof -
  note c = vgood_core [OF g]
  note v = vcore_task [OF c x(1)]
  have hd: "\<not> vt_detached x" "\<not> vt_free_on_close x" using x(2) by (simp_all add: v_held_def)
  have self: "v_turn Q u u" by (rule v_turnI [OF g vkeeps_refl v_count_refl])
  let ?C = "Some (x\<lparr>vt_res := (vt_res x)\<lparr>res_status := MYIO_CANCELED\<rparr>, vt_done := True\<rparr>)"
  have all: "v_turn Q u u' \<and> rc \<in> {0, - 1} \<and> (vt_done x \<longrightarrow> rc = - 1 \<and> u' = u) \<and>
    (\<not> vt_done x \<longrightarrow> vt_kind x \<in> {VTASK_TIMER, VTASK_SOCK_READ, VTASK_ACCEPT} \<longrightarrow> rc = 0 \<and> v_th u' t = ?C) \<and>
    (\<not> vt_done x \<longrightarrow> vt_kind x \<in> {VTASK_FS, VTASK_SPAWN} \<or> vt_kind x = VTASK_CONNECT \<and> \<not> vt_connecting x \<longrightarrow>
      v_th u' = v_th u \<and> (rc = 0 \<longrightarrow> t \<in> ul_cancel (vl u')))"
  proof (cases "vt_done x")
    case True
    with o x(1) self show ?thesis by (simp add: v_cancel_def)
  next
    case nd: False
    have rq: ?thesis if "v_want_req x \<in> {Some Rq_fs, Some Rq_work, Some Rq_gai}" "vt_kind x \<notin> {VTASK_TIMER, VTASK_SOCK_READ, VTASK_ACCEPT}"
      "v_cancel_request os u t = (rc, u')"
    proof -
      have "ul_req (vl u) t \<in> {Some Rq_fs, Some Rq_work, Some Rq_gai}" using v that(1) by (simp add: vtask_def)
      from vgood_cancel_request [OF g this that(3)] that(2) nd show ?thesis by blast
    qed
    show ?thesis
    proof (cases "vt_kind x")
      case VTASK_FS
      with rq o x(1) nd show ?thesis by (simp add: v_cancel_def v_want_req_def)
    next
      case VTASK_SPAWN
      with rq o x(1) nd show ?thesis by (simp add: v_cancel_def v_want_req_def)
    next
      case VTASK_SOCK_WRITE
      with o x(1) self nd show ?thesis by (simp add: v_cancel_def)
    next
      case VTASK_SOCK_CLOSE
      with o x(1) self nd show ?thesis by (simp add: v_cancel_def)
    next
      case k: VTASK_TIMER
      have tm: "ul_timer (vl u) t = Some Timer_armed" using v k nd hd by (auto simp: vtask_def v_want_timer_def)
      let ?c = "Uv_timer_stop t"
      let ?u1 = "v_log os ?c u"
      have g1: "vgood {t} {} Q ?u1" "vkeeps {} Q u Q ?u1"
        using vgood_timer_take [where os = os and c = ?c, OF g tm] by (auto simp: loop_off_def timer_usable_def tm)
      have x1: "v_th ?u1 t = Some x" "ul_timer (vl ?u1) t = Some Timer_idle" using x(1) by simp_all
      note over = v_timer_over [OF e g1 _ _ x1(1) k nd x1(2), of UV_ECANCELED]
      have u': "rc = 0" "u' = v_task_complete os (v_log os (Uv_close (H_timer t)) ?u1) t UV_ECANCELED"
        using o x(1) nd k by (auto simp: v_cancel_def uv_do_eq Let_def)
      have "v_th u' t = ?C" using v_completesD(5) [OF over(2)] hd(1) u'(2) by (simp add: v_complete_status)
      with over(1) u' k nd show ?thesis by simp
    next
      case k: VTASK_CONNECT
      show ?thesis
      proof (cases "vt_connecting x")
        case False
        with rq o x(1) nd k show ?thesis by (simp add: v_cancel_def v_want_req_def)
      next
        case True
        from vcore_conn [OF c x(1) k nd] obtain s y where s: "vt_sock x = Some s" "v_sh u s = Some y" by (auto simp: vconn_ok_def)
        note p = vgood_conn_private [OF g x(1) k nd s(1)]
        have cn: "vt_connecting z" if "v_th u q = Some z" "vt_kind z = VTASK_CONNECT" "\<not> vt_done z" "q \<notin> {}" "vt_sock z = Some s" for q z
          using vgood_conn_private(1) [OF g that(1-3) that(5)] p(3) [OF that(1)] True x(1) that(1) by (cases "q = t") auto
        have nk: "\<not> vusable (v_th u) (v_sh u) Q (vl u) s" if "v_th u q = Some z" "v_held z" "q \<notin> {}" "res_ptr (vt_res z) = Some s" for q z
          using p(4) [OF that(1)] that(4) by simp
        have d: "vgood {} {} (Q(s := [])) (v_sock_destroy os u s)" "vkeeps {} Q u (Q(s := [])) (v_sock_destroy os u s)"
          "v_th (v_sock_destroy os u s) = v_th u" "v_ncompleted (v_sock_destroy os u s) = v_ncompleted u"
          by (rule vgood_sock_destroy [where S = "{}", OF e g s(2) _ p(2)]; (rule cn nk; assumption)?; simp?)+
        have u': "rc = 0" "u' = v_sock_destroy os u s" using o x(1) nd k True s(1) by (auto simp: v_cancel_def v_sock_destroy_at_def)
        with d have "v_turn Q u u'" by (intro v_turnI v_count_same) (auto simp: v_pend_def)
        with u' k True nd show ?thesis by simp
      qed
    next
      case k: VTASK_ACCEPT
      from vgood_waiting [OF g x(1) nd k] obtain s y where s: "vt_sock x = Some s" "v_sh u s = Some y" "v_slot VTASK_ACCEPT y = Some t" by auto
      let ?y = "y\<lparr>vs_accept_task := None\<rparr>"
      let ?w = "u\<lparr>v_sh := (v_sh u)(s \<mapsto> ?y)\<rparr>"
      have vs: "vsock {} (m_brk u) (vl u) s ?y" using vcore_sock [OF c s(2)] by (simp add: vsock_def)
      have w: "vgood {t} {} Q ?w" "vkeeps {} Q u Q ?w" by (rule vgood_unlink [OF g s(2,3) slot_updI(2) _ vs]; simp)+
      have u': "rc = 0" "u' = v_task_complete os ?w t UV_ECANCELED" using o x(1) nd k s by (auto simp: v_cancel_def)
      have tw: "t \<notin> {}" "v_th ?w = v_th u" "v_sh ?w = (v_sh u)(s \<mapsto> ?y)" "v_pend ?w = v_pend u" "v_ncompleted ?w = v_ncompleted u" by simp_all
      note sc = v_slot_cancel [OF e g s(2,3) tw w u'(2)]
      have "v_turn Q u u'" by (rule v_turnI [OF sc(1-3)])
      moreover have "v_th u' t = ?C" using sc(8) [of x] x(1) hd(1) by (simp add: v_complete_status)
      ultimately show ?thesis using u'(1) k nd by simp
    next
      case k: VTASK_SOCK_READ
      from vgood_waiting [OF g x(1) nd k] obtain s y where s: "vt_sock x = Some s" "v_sh u s = Some y" "v_slot VTASK_SOCK_READ y = Some t" by auto
      let ?y = "y\<lparr>vs_read_task := None\<rparr>"
      let ?c = "Uv_read_stop s"
      let ?w = "(v_log os ?c u)\<lparr>v_sh := (v_sh u)(s \<mapsto> ?y)\<rparr>"
      have vs: "vsock {} (m_brk u) (vl u) s y" by (rule vcore_sock [OF c s(2)])
      obtain st where st: "ul_tcp (vl u) s = Some st" using vs by (auto simp: vsock_def)
      have w: "vgood {t} {} Q ?w" "vkeeps {} Q u Q ?w"
        by (rule vgood_unlink_call [where c = ?c, OF g s(2,3) slot_updI(1)];
            use st vs in \<open>auto simp: tcp_live_def tcp_off_def tcp_reading_def tcp_is_open_def vsock_def split: tcp_state.splits\<close>)+
      have u': "rc = 0" "u' = v_task_complete os ?w t UV_ECANCELED" using o x(1) nd k s by (auto simp: v_cancel_def uv_do_eq)
      have tw: "t \<notin> {}" "v_th ?w = v_th u" "v_sh ?w = (v_sh u)(s \<mapsto> ?y)" "v_pend ?w = v_pend u" "v_ncompleted ?w = v_ncompleted u" by simp_all
      note sc = v_slot_cancel [OF e g s(2,3) tw w u'(2)]
      have "v_turn Q u u'" by (rule v_turnI [OF sc(1-3)])
      moreover have "v_th u' t = ?C" using sc(8) [of x] x(1) hd(1) by (simp add: v_complete_status)
      ultimately show ?thesis using u'(1) k nd by simp
    qed
  qed
  show "v_turn Q u u'" "rc \<in> {0, - 1}" "vt_done x \<Longrightarrow> rc = - 1 \<and> u' = u"
    "\<not> vt_done x \<Longrightarrow> vt_kind x \<in> {VTASK_TIMER, VTASK_SOCK_READ, VTASK_ACCEPT} \<Longrightarrow> rc = 0 \<and> v_th u' t = ?C"
    "\<not> vt_done x \<Longrightarrow> vt_kind x \<in> {VTASK_FS, VTASK_SPAWN} \<or> vt_kind x = VTASK_CONNECT \<and> \<not> vt_connecting x \<Longrightarrow>
      v_th u' = v_th u \<and> (rc = 0 \<longrightarrow> t \<in> ul_cancel (vl u'))"
    using all by (elim conjE; blast)+
qed

subsection \<open>Freeing and detaching\<close>

text \<open>The memory of a completed task goes, for a timer when its handle has closed.\<close>

lemma vgood_release:
  assumes e: "v_env os" and g: "vgood {} {} Q u" and x: "v_th u t = Some x" "v_held x" "vt_done x"
  shows "vgood {} {} Q (v_release os u t)" "vkeeps {t} Q u Q (v_release os u t)" "\<And>z. v_th (v_release os u t) t = Some z \<Longrightarrow> \<not> v_held z"
proof -
  note c = vgood_core [OF g]
  note v = vcore_task [OF c x(1)]
  have hd: "\<not> vt_detached x" "\<not> vt_free_on_close x" using x(2) by (simp_all add: v_held_def)
  have "vgood {} {} Q (v_release os u t) \<and> vkeeps {t} Q u Q (v_release os u t) \<and> (\<forall>z. v_th (v_release os u t) t = Some z \<longrightarrow> \<not> v_held z)"
  proof (cases "vt_kind x = VTASK_TIMER \<and> \<not> vt_timer_closed x")
    case True
    let ?x = "x\<lparr>vt_free_on_close := True\<rparr>"
    let ?w = "u\<lparr>v_th := (v_th u)(t \<mapsto> ?x)\<rparr>"
    let ?i = "Uv_is_closing (H_timer t)"
    have tm: "ul_timer (vl u) t = Some Timer_closing" using v True x(3) by (simp add: vtask_def v_want_timer_def)
    have own: "v_own ?x = v_own x" by (simp add: v_own_def)
    have vt: "vtask {} (m_brk u) (vl u) t ?x" using v True x(3) own by (auto simp: vtask_def v_want_timer_def v_want_req_def)
    have "vcore {} {} (m_brk u) ((v_th u)(t \<mapsto> ?x)) (v_sh u) Q (vl u)"
      by (rule vcore_upd [OF c x(1) _ refl vt]) (use own True x(3) in \<open>auto simp: loop_off_def v_pull_def\<close>)
    from vgood_heap [OF g this, of "v_ncompleted u"] x(1) have gw: "vgood {} {} Q ?w" by auto
    have kw: "vkeeps {t} Q u Q ?w"
      unfolding vkeeps_def by simp (rule vkeep_upd [of "v_th u", OF x(1)], use True in auto)
    have "a_ret (v_ans os ?i ?w) \<noteq> 0" using uv_closing_timer [OF v_env_ok [OF e] vgood_disc [OF gw], of t Timer_closing] tm by simp
    then have eq: "v_release os u t = v_log os ?i ?w" using True x(1) by (simp add: v_release_def uv_eq Let_def)
    have "vgood {} {} Q (v_log os ?i ?w)" "vkeeps {t} Q ?w Q (v_log os ?i ?w)"
      by (rule vgood_log_same [where c = ?i, OF gw]; use tm in simp)+
    then show ?thesis unfolding eq using vkeeps_trans [OF kw] by (simp add: v_held_def)
  next
    case False
    have l: "ul_req (vl u) t = None" "ul_timer (vl u) t = None"
      using v x(3) False by (auto simp: vtask_def v_want_req_def v_want_timer_def)
    have "vcore ({} - {t}) {} (m_brk u) ((v_th u)(t := None)) (v_sh u) Q (vl u)"
      by (rule vcore_del [OF c x(1)]) (use l x(3) in \<open>auto simp: loop_off_def\<close>)
    from vgood_heap [OF g this, of "v_ncompleted u"] have "vgood {} {} Q (u\<lparr>v_th := (v_th u)(t := None)\<rparr>)" by auto
    moreover have "v_release os u t = u\<lparr>v_th := (v_th u)(t := None)\<rparr>" using False x(1) by (auto simp: v_release_def)
    moreover have "vkeep {t} (v_th u) (v_sh u) Q (vl u) ((v_th u)(t := None)) (v_sh u) Q (vl u)"
      by (rule vkeep_del [of "v_th u", OF x(1)]) auto
    ultimately show ?thesis by (simp add: vkeeps_def)
  qed
  then show "vgood {} {} Q (v_release os u t)" "vkeeps {t} Q u Q (v_release os u t)" "\<And>z. v_th (v_release os u t) t = Some z \<Longrightarrow> \<not> v_held z"
    by blast+
qed

lemma v_detach_good:
  assumes e: "v_env os" and g: "vgood {} {} Q u" and x: "v_th u t = Some x" "v_held x" and dr: "vdropok (v_th u) (v_sh u) Q (vl u) t"
  shows "\<exists>Q'. vgood {} {} Q' (v_task_detach os u t) \<and> vkeeps {t} Q u Q' (v_task_detach os u t) \<and>
    (\<forall>z. v_th (v_task_detach os u t) t = Some z \<longrightarrow> \<not> v_held z)"
proof (cases "vt_done x")
  case False
  note c = vgood_core [OF g]
  let ?x = "x\<lparr>vt_detached := True\<rparr>"
  have own: "v_own ?x = v_own x" "v_want_req ?x = v_want_req x" "v_want_timer ?x = v_want_timer x" "vconn_ok (v_sh u) (vl u) ?x = vconn_ok (v_sh u) (vl u) x"
    by (simp_all add: v_own_def v_want_req_def v_want_timer_def vconn_ok_def split: v_kind.splits)
  have vt: "vtask {} (m_brk u) (vl u) t ?x" using vcore_task [OF c x(1)] own False by (auto simp: vtask_def)
  have "vcore {} {} (m_brk u) ((v_th u)(t \<mapsto> ?x)) (v_sh u) Q (vl u)"
    by (rule vcore_upd [OF c x(1) _ refl vt]) (use own vcore_conn [OF c x(1)] in \<open>auto simp: loop_off_def\<close>)
  from vgood_heap [OF g this, of "v_ncompleted u"] x(1) have gw: "vgood {} {} Q (u\<lparr>v_th := (v_th u)(t \<mapsto> ?x)\<rparr>)" by auto
  have "vkeeps {t} Q u Q (u\<lparr>v_th := (v_th u)(t \<mapsto> ?x)\<rparr>)"
    unfolding vkeeps_def by simp (rule vkeep_upd [of "v_th u", OF x(1)], use False in auto)
  moreover have "v_task_detach os u t = u\<lparr>v_th := (v_th u)(t \<mapsto> ?x)\<rparr>" using x(1) False by (simp add: v_task_detach_def)
  ultimately show ?thesis using gw by (intro exI [of _ Q]) (simp add: v_held_def)
next
  case True
  define w where "w = (case res_ptr (vt_res x) of Some s \<Rightarrow> v_sock_destroy os u s | None \<Rightarrow> u)"
  have eq: "v_task_detach os u t = v_release os w t" using x(1) True by (simp add: v_task_detach_def v_task_reap_def w_def)
  have "\<exists>Q'. vgood {} {} Q' w \<and> vkeeps {t} Q u Q' w \<and> v_th w = v_th u"
  proof (cases "res_ptr (vt_res x)")
    case None
    then show ?thesis using g by (auto simp: w_def vkeeps_refl)
  next
    case (Some s)
    with dr x(1) have us: "vusable (v_th u) (v_sh u) Q (vl u) s" by (simp add: vdropok_def)
    then obtain y where y: "v_sh u s = Some y" "\<And>r. s \<notin> set (Q r)" by (auto simp: vusable_def)
    have own: "v_own x = Some s" using Some by (simp add: v_own_def)
    have nk: "\<not> vusable (v_th u) (v_sh u) Q (vl u) s" if "v_th u q = Some z" "v_held z" "q \<notin> {t}" "res_ptr (vt_res z) = Some s" for q z
      using vcore_own [OF vgood_core [OF g] x(1) own that(1)] that(3,4) by (simp add: v_own_def)
    have cn: "vt_connecting z" if "v_th u q = Some z" "vt_kind z = VTASK_CONNECT" "\<not> vt_done z" "q \<notin> {}" "vt_sock z = Some s" for q z
      using us that by (auto simp: vusable_def)
    have "vgood {} {} (Q(s := [])) (v_sock_destroy os u s)" "vkeeps {t} Q u (Q(s := [])) (v_sock_destroy os u s)" "v_th (v_sock_destroy os u s) = v_th u"
      by (rule vgood_sock_destroy [where S = "{t}", OF e g y(1) _ y(2)]; (rule cn nk; assumption)?; simp?)+
    then show ?thesis using Some by (auto simp: w_def)
  qed
  then obtain Q' where w: "vgood {} {} Q' w" "vkeeps {t} Q u Q' w" "v_th w = v_th u" by blast
  have xw: "v_th w t = Some x" using w(3) x(1) by simp
  note r = vgood_release [OF e w(1) xw x(2) True]
  show ?thesis unfolding eq using r vkeeps_trans [OF w(2) r(2)] by blast
qed

text \<open>Waiting for a task that is being freed.\<close>

lemma vkeeps_held:
  assumes "vkeeps S Q u Q' u'" and "v_th u t = Some x" "v_held x" "t \<notin> S"
  shows "\<exists>x'. v_th u' t = Some x' \<and> v_held x' \<and> vt_kind x' = vt_kind x \<and> (vt_done x \<longrightarrow> vt_done x' \<and> vt_res x' = vt_res x)"
  using assms unfolding vkeeps_def vkeep_def by blast

definition v_waited :: "addr \<Rightarrow> vqueues \<Rightarrow> uv_io \<Rightarrow> uv_io \<Rightarrow> bool" where
  "v_waited t Q u u' \<longleftrightarrow> v_turn Q u u' \<and> (\<exists>x. v_th u' t = Some x \<and> v_held x \<and> vt_done x)"

lemma v_free_wait_good:
  assumes "v_env os" and "vgood {} {} Q u" and "v_th u t = Some x" "v_held x" "vt_done x \<or> vt_kind x \<noteq> VTASK_ACCEPT"
    and "v_free_wait os u t = Some u'"
  shows "v_waited t Q u u'"
proof -
  have "v_env os \<longrightarrow> (\<forall>Q x. vgood {} {} Q u \<longrightarrow> v_th u t = Some x \<longrightarrow> v_held x \<longrightarrow> vt_done x \<or> vt_kind x \<noteq> VTASK_ACCEPT \<longrightarrow> v_waited t Q u u')"
  proof (rule v_free_wait.raw_induct [where P = "\<lambda>os u t u'. v_env os \<longrightarrow> (\<forall>Q x. vgood {} {} Q u \<longrightarrow> v_th u t = Some x \<longrightarrow> v_held x \<longrightarrow>
        vt_done x \<or> vt_kind x \<noteq> VTASK_ACCEPT \<longrightarrow> v_waited t Q u u')", OF _ assms(6)])
    fix f os u t u'
    assume IH: "\<And>os u t u'. f os u t = Some u' \<Longrightarrow> v_env os \<longrightarrow> (\<forall>Q x. vgood {} {} Q u \<longrightarrow> v_th u t = Some x \<longrightarrow> v_held x \<longrightarrow>
        vt_done x \<or> vt_kind x \<noteq> VTASK_ACCEPT \<longrightarrow> v_waited t Q u u')"
      and eq: "(if vt_done (vt u t) then Some u else Option.bind (v_step os u) (\<lambda>(b, u). if b then f os u t else Some u)) = Some u'"
    show "v_env os \<longrightarrow> (\<forall>Q x. vgood {} {} Q u \<longrightarrow> v_th u t = Some x \<longrightarrow> v_held x \<longrightarrow> vt_done x \<or> vt_kind x \<noteq> VTASK_ACCEPT \<longrightarrow> v_waited t Q u u')"
    proof (intro impI allI)
      fix Q x
      assume e: "v_env os" and g: "vgood {} {} Q u" and x: "v_th u t = Some x" "v_held x" "vt_done x \<or> vt_kind x \<noteq> VTASK_ACCEPT"
      show "v_waited t Q u u'"
      proof (cases "vt_done x")
        case True
        with eq x g show ?thesis by (auto simp: v_waited_def intro: v_turnI [OF _ vkeeps_refl v_count_refl])
      next
        case False
        with eq x(1) obtain b u1 where st: "v_step os u = Some (b, u1)" and r: "(if b then f os u1 t else Some u1) = Some u'"
          by (auto simp: Option.bind_eq_Some_conv)
        note tn = v_step_turn [OF e g st]
        then obtain Q1 where Q1: "vgood {} {} Q1 u1" "vkeeps {} Q u Q1 u1" by (auto simp: v_turn_def)
        from vkeeps_held [OF Q1(2) x(1,2)] obtain x1 where x1: "v_th u1 t = Some x1" "v_held x1" "vt_kind x1 = vt_kind x" by auto
        have k: "vt_kind x1 \<noteq> VTASK_ACCEPT" using x(3) False x1(3) by simp
        show ?thesis
        proof (cases b)
          case True
          with r have w: "v_waited t Q2 u1 u'" if "vgood {} {} Q2 u1" for Q2 using IH [of os u1 t u'] e that x1(1,2) k by auto
          have "v_turn Q u u'" by (rule v_turn_trans [OF g tn(1)]) (use w in \<open>auto simp: v_waited_def\<close>)
          with w [OF Q1(1)] show ?thesis by (simp add: v_waited_def)
        next
          case False
          with tn(2) have "uv_quiet (vl u1)" by simp
          from vgood_quiet_done [OF Q1(1) this _ x1(1)] k x1(2) have "vt_done x1" by (simp add: v_held_def)
          with False r x1 tn(1) show ?thesis by (auto simp: v_waited_def)
        qed
      qed
    qed
  qed
  with assms(1-5) show ?thesis by blast
qed

lemma v_task_free_good:
  assumes e: "v_env os" and g: "vgood {} {} Q u" and x: "v_th u t = Some x" "v_held x" and o: "v_task_free os u t = Some u'"
  shows "\<exists>Q'. vgood {} {} Q' u' \<and> vkeeps {t} Q u Q' u' \<and> (\<forall>z. v_th u' t = Some z \<longrightarrow> \<not> v_held z)"
proof -
  have "\<exists>w. v_waited t Q u w \<and> u' = v_release os w t"
  proof (cases "vt_done x")
    case True
    with o x g show ?thesis by (intro exI [of _ u]) (auto simp: v_task_free_def v_waited_def intro: v_turnI [OF _ vkeeps_refl v_count_refl])
  next
    case False
    obtain rc u1 where c: "v_cancel os u t = (rc, u1)" by (cases "v_cancel os u t")
    from o False x(1) c obtain w where w: "v_free_wait os u1 t = Some w" "u' = v_release os w t" by (auto simp: v_task_free_def)
    note cg = v_cancel_good [OF e g x c]
    from cg(1) obtain Q1 where Q1: "vgood {} {} Q1 u1" "vkeeps {} Q u Q1 u1" by (auto simp: v_turn_def)
    from vkeeps_held [OF Q1(2) x] obtain x1 where x1: "v_th u1 t = Some x1" "v_held x1" "vt_kind x1 = vt_kind x" by auto
    have "vt_done x1 \<or> vt_kind x1 \<noteq> VTASK_ACCEPT" using cg(4) False x1 by auto
    then have fw: "v_waited t Q2 u1 w" if "vgood {} {} Q2 u1" for Q2 by (rule v_free_wait_good [OF e that x1(1,2) _ w(1)])
    have "v_turn Q u w" by (rule v_turn_trans [OF g cg(1)]) (use fw in \<open>auto simp: v_waited_def\<close>)
    with fw [OF Q1(1)] w(2) show ?thesis by (auto simp: v_waited_def)
  qed
  then obtain w where w: "v_waited t Q u w" "u' = v_release os w t" by blast
  then obtain Q1 z where Q1: "vgood {} {} Q1 w" "vkeeps {} Q u Q1 w" "v_th w t = Some z" "v_held z" "vt_done z"
    by (auto simp: v_waited_def v_turn_def)
  note r = vgood_release [OF e Q1(1,3-5)]
  show ?thesis unfolding w(2) using r vkeeps_trans [OF vkeeps_mono [OF Q1(2) empty_subsetI] r(2)] by blast
qed

subsection \<open>What the caller may use\<close>

text \<open>
  The tasks the caller holds; the sockets it may use, which are open, not parked at a
  listener and not in the hands of a connect; the tasks it may detach.
\<close>

definition v_handles :: "uv_io \<Rightarrow> addr set" where
  "v_handles u = {t. \<exists>x. v_th u t = Some x \<and> v_held x}"

definition v_parked :: "uv_io \<Rightarrow> addr \<Rightarrow> bool" where
  "v_parked u k \<longleftrightarrow> (\<exists>s y ks. v_sh u s = Some y \<and> tcp_is_open (vl u) s \<and> wq_list (v_pnode u) (vs_pending y) ks \<and> k \<in> set ks)"

definition v_socks :: "uv_io \<Rightarrow> addr set" where
  "v_socks u = {s. v_sh u s \<noteq> None \<and> tcp_is_open (vl u) s \<and> \<not> v_parked u s \<and>
     (\<forall>t x. v_th u t = Some x \<longrightarrow> vt_kind x = VTASK_CONNECT \<longrightarrow> \<not> vt_done x \<longrightarrow> vt_sock x \<noteq> Some s)}"

definition v_droppable :: "uv_io \<Rightarrow> addr \<Rightarrow> bool" where
  "v_droppable u t \<longleftrightarrow> (\<exists>x. v_th u t = Some x \<and> (\<forall>s. res_ptr (vt_res x) = Some s \<longrightarrow> s \<in> v_socks u))"

lemma v_parked_queue:
  assumes "vgood T D Q u"
  shows "v_parked u k \<longleftrightarrow> (\<exists>s. k \<in> set (Q s))"
proof
  assume "v_parked u k"
  then obtain s y ks where s: "v_sh u s = Some y" "tcp_is_open (vl u) s" "wq_list (v_pnode u) (vs_pending y) ks" "k \<in> set ks"
    by (auto simp: v_parked_def)
  have "ks = Q s" by (rule wq_list_unique [OF s(3) vgood_queue [OF assms s(1,2)]])
  with s(4) show "\<exists>s. k \<in> set (Q s)" by blast
next
  note c = vgood_core [OF assms]
  assume "\<exists>s. k \<in> set (Q s)"
  then obtain s where s: "k \<in> set (Q s)" ..
  then have op: "tcp_is_open (vl u) s" using vcore_park [OF c s] by blast
  then obtain y where y: "v_sh u s = Some y" using vcore_no_sock [OF c, of s] by (cases "v_sh u s") (auto simp: tcp_is_open_def)
  from vgood_queue [OF assms y op] s op y show "v_parked u k" unfolding v_parked_def by blast
qed

lemma v_socks_usable: "vgood T D Q u \<Longrightarrow> s \<in> v_socks u \<longleftrightarrow> vusable (v_th u) (v_sh u) Q (vl u) s"
  using v_parked_queue [of T D Q u s] unfolding v_socks_def vusable_def by auto

lemma v_droppable_dropok: "vgood T D Q u \<Longrightarrow> v_droppable u t \<longleftrightarrow> vdropok (v_th u) (v_sh u) Q (vl u) t"
  using v_socks_usable [of T D Q u] unfolding v_droppable_def vdropok_def by auto

lemma v_handlesD: "t \<in> v_handles u \<Longrightarrow> \<exists>x. v_th u t = Some x \<and> v_held x"
  by (simp add: v_handles_def)

lemma uv_ops_simps [simp]:
  "ops_open (uv_ops os) u p f m = Some (v_open os u p f m)"
  "ops_close (uv_ops os) u fd = Some (v_close os u fd)"
  "ops_read (uv_ops os) u fd b n off = Some (v_read os u fd b n off)"
  "ops_write (uv_ops os) u fd bs off = Some (v_write os u fd bs off)"
  "ops_sleep (uv_ops os) u ms = Some (v_sleep os u ms)"
  "ops_spawn (uv_ops os) u fn arg = Some (v_spawn os u fn arg)"
  "ops_tcp_connect (uv_ops os) u h pt = Some (v_tcp_connect os u h pt)"
  "ops_tcp_listen (uv_ops os) u h pt bl = Some (v_tcp_listen os u h pt bl)"
  "ops_tcp_accept (uv_ops os) u l = Some (v_tcp_accept os u l)"
  "ops_sock_read (uv_ops os) u k b n = Some (v_sock_read os u k b n)"
  "ops_sock_write (uv_ops os) u k bs = Some (v_sock_write os u k bs)"
  "ops_sock_close (uv_ops os) u k = Some (v_sock_close os u k)"
  "ops_sock_port (uv_ops os) u k = v_sock_port os u k"
  "ops_step (uv_ops os) u = v_step os u"
  "ops_cancel (uv_ops os) u t = Some (v_cancel os u t)"
  "ops_task_result (uv_ops os) = v_task_result"
  "ops_task_done (uv_ops os) = v_task_done"
  "ops_task_free (uv_ops os) u t = v_task_free os u t"
  "ops_task_detach (uv_ops os) = v_task_detach os"
  by (simp_all add: uv_ops_def)

lemma vkeeps_evolves:
  assumes "vgood {} {} Q u" and "vgood {} {} Q' u'" and "vkeeps S Q u Q' u'" and "P u'"
  shows "evolves (uv_ops os) (\<lambda>u. vinv u \<and> P u) v_handles v_droppable u S u'"
  unfolding evolves_def
proof (intro conjI ballI impI)
  show "vinv u'" "P u'" using assms(2,4) by (auto simp: vinv_def)
  fix t
  assume t: "t \<in> v_handles u - S"
  then obtain x where x: "v_th u t = Some x" "v_held x" "t \<notin> S" by (auto simp: v_handles_def)
  from vkeeps_held [OF assms(3) x] obtain x' where x': "v_th u' t = Some x'" "v_held x'" "vt_done x \<longrightarrow> vt_done x' \<and> vt_res x' = vt_res x" by auto
  then show "t \<in> v_handles u'" by (simp add: v_handles_def)
  show "ops_task_result (uv_ops os) u' t = ops_task_result (uv_ops os) u t" if "ops_task_done (uv_ops os) u t"
    using that x(1) x'(1,3) by (simp add: v_task_done_def v_task_result_def)
  show "v_droppable u' t" if "v_droppable u t"
    using that assms(3) x unfolding v_droppable_dropok [OF assms(1)] v_droppable_dropok [OF assms(2)] vkeeps_def vkeep_def by blast
qed

lemma v_turn_evolves:
  assumes "vgood {} {} Q u" and "v_turn Q u u'" and "P u'"
  shows "evolves (uv_ops os) (\<lambda>u. vinv u \<and> P u) v_handles v_droppable u {} u'"
  using assms(2) vkeeps_evolves [where P = P and u' = u', OF assms(1)] assms(3) by (auto simp: v_turn_def)

subsection \<open>Accepts keep waiting on listeners\<close>

lemma v_listens_sleep: "v_listens u \<Longrightarrow> v_listens (snd (v_sleep os u ms))"
  using v_listens_alloc(2) [of u os VTASK_TIMER]
  by (cases "v_task_new os u VTASK_TIMER") (auto simp: v_sleep_def uv_eq uv_do_eq Let_def intro!: v_listens_intros split: option.splits)

lemma v_listens_cancel:
  assumes "v_listens u"
  shows "v_listens (snd (v_cancel os u t))"
proof -
  let ?u = "chk_vt t u"
  have rq: "v_listens (snd (v_cancel_request os w t))" if "v_listens w" for w
    using that by (auto simp: v_cancel_request_def uv_eq intro!: v_listens_intros)
  have l: "v_listens ?u" using assms by simp
  show ?thesis
    unfolding v_cancel_def Let_def uv_do_eq
    by (cases "vt_kind (vt ?u t)"; cases "vt_sock (vt ?u t)"; simp add: rq assms del: chk_vt_Some; intro conjI impI v_listens_intros l; simp add: assms)
qed

lemma v_listens_free_wait:
  assumes "v_free_wait os u t = Some u'" and "v_listens u"
  shows "v_listens u'"
proof -
  have "v_listens u \<longrightarrow> v_listens u'"
  proof (rule v_free_wait.raw_induct [where P = "\<lambda>os u t u'. v_listens u \<longrightarrow> v_listens u'", OF _ assms(1)])
    fix f os u t u'
    assume IH: "\<And>os u t u'. f os u t = Some u' \<Longrightarrow> v_listens u \<longrightarrow> v_listens u'"
      and eq: "(if vt_done (vt u t) then Some u else Option.bind (v_step os u) (\<lambda>(b, u). if b then f os u t else Some u)) = Some u'"
    show "v_listens u \<longrightarrow> v_listens u'"
      using eq v_listens_step [of u os] IH by (auto simp: Option.bind_eq_Some_conv split: if_splits)
  qed
  with assms(2) show ?thesis by simp
qed

lemma v_listens_free:
  assumes "v_task_free os u t = Some u'" and "v_listens u"
  shows "v_listens u'"
proof -
  let ?u = "chk_vt t u"
  have l: "v_listens (snd (v_cancel os ?u t))" using assms(2) by (intro v_listens_cancel) simp
  from assms(1) obtain w where "u' = v_release os w t" "w = ?u \<or> v_free_wait os (snd (v_cancel os ?u t)) t = Some w"
    unfolding v_task_free_def Let_def split_beta by (cases "vt_done (vt ?u t)") (simp_all, blast+)
  with assms(2) v_listens_free_wait [OF _ l] show ?thesis by (auto intro!: v_listens_intros)
qed

lemma v_listens_detach: "v_listens u \<Longrightarrow> v_listens (v_task_detach os u t)"
  by (auto simp: v_task_detach_def Let_def intro!: v_listens_intros)

subsection \<open>The contracts of the interface\<close>

lemma vgood_done_status:
  "vgood T D Q u \<Longrightarrow> v_th u t = Some x \<Longrightarrow> vt_done x \<longleftrightarrow> res_status (vt_res x) \<noteq> MYIO_PENDING"
  using vcore_task [OF vgood_core, of T D Q u t x] by (simp add: vtask_def)

lemma v_pend_still:
  assumes "v_pend u' = v_pend u" and "vkeeps {} Q u Q' u'" and "v_th u t = Some x" "v_held x" "v_th u' t = Some x'" "vt_done x'"
  shows "vt_done x"
proof (rule ccontr)
  assume "\<not> vt_done x"
  with assms(3,4) have "t \<in> v_pend u" by (auto simp: v_pend_def v_held_def)
  with assms(1) have "t \<in> v_pend u'" by simp
  with assms(5,6) show False by (simp add: v_pend_def)
qed

interpretation uv: live_backend "uv_ops os" "\<lambda>u. vinv u \<and> v_env os \<and> v_listens u" v_handles v_droppable for os
proof
  fix st st' :: uv_io and t b p ms rc
  assume i: "vinv st \<and> v_env os \<and> v_listens st"
  then obtain Q where g: "vgood {} {} Q st" and e: "v_env os" and ls: "v_listens st" by (auto simp: vinv_def)
  show "ops_task_done (uv_ops os) st t = (res_status (ops_task_result (uv_ops os) st t) \<noteq> MYIO_PENDING)" if "t \<in> v_handles st"
    using v_handlesD [OF that] vgood_done_status [OF g] by (auto simp: v_task_done_def v_task_result_def)
  have step: "evolves (uv_ops os) (\<lambda>u. vinv u \<and> v_env os \<and> v_listens u) v_handles v_droppable st {} st' \<and>
    (\<not> b \<longrightarrow> uv_quiet (vl st') \<and> v_pend st' = v_pend st)" if s: "v_step os st = Some (b, st')" for b
  proof -
    have "v_listens st'" by (rule v_listens_step [OF ls s])
    with v_turn_evolves [where P = "\<lambda>u. v_env os \<and> v_listens u", OF g v_step_turn(1) [OF e g s]] e v_step_turn(2) [OF e g s]
    show ?thesis by blast
  qed
  show "evolves (uv_ops os) (\<lambda>u. vinv u \<and> v_env os \<and> v_listens u) v_handles v_droppable st {} st'"
    if "ops_step (uv_ops os) st = Some (b, st')" using step that by simp
  have idle: "vt_done x" if "v_step os st = Some (False, st')" "v_th st t = Some x" "v_held x" for t x
  proof -
    from v_step_turn(1) [OF e g that(1)] obtain Q' where Q': "vgood {} {} Q' st'" "vkeeps {} Q st Q' st'" by (auto simp: v_turn_def)
    from vkeeps_held [OF Q'(2) that(2,3)] obtain x' where x': "v_th st' t = Some x'" "v_held x'" by auto
    have "vt_done x'"
      by (rule vgood_quiet_done [OF Q'(1) _ _ x'(1)]) (use step [OF that(1)] v_listens_step [OF ls that(1)] x'(2) in \<open>auto simp: v_held_def\<close>)
    with v_pend_still [OF _ Q'(2) that(2,3) x'(1)] step [OF that(1)] show ?thesis by simp
  qed
  show "ops_task_done (uv_ops os) st t" if "ops_step (uv_ops os) st = Some (False, st')" "t \<in> v_handles st" "ops_task_done (uv_ops os) st' t"
    using idle [of t] that v_handlesD [OF that(2)] by (auto simp: v_task_done_def)
  show "ops_task_done (uv_ops os) st t" if "ops_step (uv_ops os) st = Some (False, st')" "t \<in> v_handles st"
    using idle [of t] that v_handlesD [OF that(2)] by (auto simp: v_task_done_def)
  have sleep: "v_submit Q st p st' \<and> v_listens st'" if "ops_sleep (uv_ops os) st ms = Some (p, st')" for p
    using that v_submit_sleep [OF e g, of ms p st'] v_listens_sleep [OF ls, of os ms] by simp
  show "evolves (uv_ops os) (\<lambda>u. vinv u \<and> v_env os \<and> v_listens u) v_handles v_droppable st {} st'"
    if "ops_sleep (uv_ops os) st ms = Some (p, st')"
    using sleep [OF that] vkeeps_evolves [where P = "\<lambda>u. v_env os \<and> v_listens u", OF g] e by (auto simp: v_submit_def)
  show "t \<in> v_handles st' - v_handles st \<and> v_droppable st' t" if "ops_sleep (uv_ops os) st ms = Some (Some t, st')"
    using sleep [OF that] v_droppable_dropok by (fastforce simp: v_submit_def v_handles_def)
  show "evolves (uv_ops os) (\<lambda>u. vinv u \<and> v_env os \<and> v_listens u) v_handles v_droppable st {} st' \<and> rc \<in> {0, - 1}"
    if "t \<in> v_handles st" "ops_cancel (uv_ops os) st t = Some (rc, st')"
  proof -
    from v_handlesD [OF that(1)] obtain x where x: "v_th st t = Some x" "v_held x" by blast
    from that(2) have o: "v_cancel os st t = (rc, st')" by simp
    have "v_listens st'" using v_listens_cancel [OF ls, of os t] o by simp
    with v_turn_evolves [where P = "\<lambda>u. v_env os \<and> v_listens u", OF g v_cancel_good(1) [OF e g x o]] v_cancel_good(2) [OF e g x o] e
    show ?thesis by blast
  qed
  show "evolves (uv_ops os) (\<lambda>u. vinv u \<and> v_env os \<and> v_listens u) v_handles v_droppable st {t} st' \<and> t \<notin> v_handles st'"
    if "t \<in> v_handles st" "ops_task_free (uv_ops os) st t = Some st'"
  proof -
    from v_handlesD [OF that(1)] obtain x where x: "v_th st t = Some x" "v_held x" by blast
    from that(2) have o: "v_task_free os st t = Some st'" by simp
    from v_task_free_good [OF e g x o] obtain Q' where Q': "vgood {} {} Q' st'" "vkeeps {t} Q st Q' st'" "\<forall>z. v_th st' t = Some z \<longrightarrow> \<not> v_held z" by blast
    with vkeeps_evolves [where P = "\<lambda>u. v_env os \<and> v_listens u", OF g Q'(1,2)] v_listens_free [OF o ls] e
    show ?thesis by (auto simp: v_handles_def)
  qed
  show "evolves (uv_ops os) (\<lambda>u. vinv u \<and> v_env os \<and> v_listens u) v_handles v_droppable st {t} (ops_task_detach (uv_ops os) st t) \<and>
      t \<notin> v_handles (ops_task_detach (uv_ops os) st t)" if "t \<in> v_handles st" "v_droppable st t"
  proof -
    from v_handlesD [OF that(1)] obtain x where x: "v_th st t = Some x" "v_held x" by blast
    let ?u = "v_task_detach os st t"
    from v_detach_good [OF e g x] that(2) v_droppable_dropok [OF g]
    obtain Q' where Q': "vgood {} {} Q' ?u" "vkeeps {t} Q st Q' ?u" "\<forall>z. v_th ?u t = Some z \<longrightarrow> \<not> v_held z" by blast
    with vkeeps_evolves [where P = "\<lambda>u. v_env os \<and> v_listens u", OF g Q'(1,2)] v_listens_detach [OF ls, of os t] e
    show ?thesis by (auto simp: v_handles_def)
  qed
qed

lemma v_submit_inv: "v_submit Q u p u' \<Longrightarrow> vinv u'"
  by (auto simp: v_submit_def vinv_def)

interpretation uv_safe: safe_backend "uv_ops os" "\<lambda>u. v_env os \<and> vinv u" v_handles v_droppable v_socks for os
proof
  fix st st' :: uv_io and q
  assume "v_env os \<and> vinv st" and ok: "ucall_ok v_handles v_droppable v_socks st q" and ex: "exec_ucall (uv_ops os) st q = Some st'"
  then obtain Q where e: "v_env os" and g: "vgood {} {} Q st" by (auto simp: vinv_def)
  note us = v_socks_usable [OF g] and fl = v_submit_files [OF e g]
  have sub: "vinv st'" if "map_option snd (Some f) = Some st'" "\<And>p. f = (p, st') \<Longrightarrow> v_submit Q st p st'" for f
    using that v_submit_inv by (cases f) auto
  have "vinv st'"
  proof (cases q)
    case (U_open p f m)
    show ?thesis by (rule sub [of "v_open os st p f m"]) (use U_open ex fl(1) in auto)
  next
    case (U_close fd)
    show ?thesis by (rule sub [of "v_close os st fd"]) (use U_close ex fl(2) in auto)
  next
    case (U_read fd b n off)
    show ?thesis by (rule sub [of "v_read os st fd b n off"]) (use U_read ex fl(3) in auto)
  next
    case (U_write fd b off)
    show ?thesis by (rule sub [of "v_write os st fd b off"]) (use U_write ex fl(4) in auto)
  next
    case (U_spawn fn arg)
    show ?thesis by (rule sub [of "v_spawn os st fn arg"]) (use U_spawn ex fl(5) in auto)
  next
    case (U_sleep ms)
    show ?thesis by (rule sub [of "v_sleep os st ms"]) (use U_sleep ex v_submit_sleep [OF e g] in auto)
  next
    case (U_tcp_connect h port)
    show ?thesis by (rule sub [of "v_tcp_connect os st h port"]) (use U_tcp_connect ex v_submit_tcp_connect [OF e g] in auto)
  next
    case (U_tcp_listen h port b)
    obtain p er where "v_tcp_listen os st h port b = (p, er, st')" using U_tcp_listen ex by (cases "v_tcp_listen os st h port b") auto
    from v_submit_tcp_listen [OF e g this] show ?thesis by (auto simp: vinv_def)
  next
    case (U_tcp_accept k)
    show ?thesis by (rule sub [of "v_tcp_accept os st k"]) (use U_tcp_accept ex ok us v_submit_tcp_accept(1) [OF e g] in auto)
  next
    case (U_sock_read k b n)
    show ?thesis by (rule sub [of "v_sock_read os st k b n"]) (use U_sock_read ex ok us v_submit_sock_read [OF e g] in auto)
  next
    case (U_sock_write k b)
    show ?thesis by (rule sub [of "v_sock_write os st k b"]) (use U_sock_write ex ok us v_submit_sock_write [OF e g] in auto)
  next
    case (U_sock_close k)
    with ex obtain p where "v_sock_close os st k = (p, st')" by (cases "v_sock_close os st k") auto
    from v_submit_sock_close [OF e g _ this] U_sock_close ok us show ?thesis by (auto simp: vinv_def)
  next
    case (U_sock_port k)
    with ex obtain r where "v_sock_port os st k = (r, st')" by (cases "v_sock_port os st k") auto
    from v_submit_sock_port(1) [OF g _ this] U_sock_port ok us show ?thesis by (auto simp: vinv_def)
  next
    case U_step
    with ex obtain b where "v_step os st = Some (b, st')" by auto
    from v_step_turn(1) [OF e g this] show ?thesis by (auto simp: v_turn_def vinv_def)
  next
    case (U_cancel t)
    with ok obtain x where x: "v_th st t = Some x" "v_held x" by (auto simp: v_handles_def)
    from U_cancel ex obtain rc where "v_cancel os st t = (rc, st')" by (cases "v_cancel os st t") auto
    from v_cancel_good(1) [OF e g x this] show ?thesis by (auto simp: v_turn_def vinv_def)
  next
    case (U_task_free t)
    with ok obtain x where x: "v_th st t = Some x" "v_held x" by (auto simp: v_handles_def)
    from v_task_free_good [OF e g x] U_task_free ex show ?thesis by (auto simp: vinv_def)
  next
    case (U_task_detach t)
    with ok obtain x where x: "v_th st t = Some x" "v_held x" by (auto simp: v_handles_def)
    have "vdropok (v_th st) (v_sh st) Q (vl st) t" using ok U_task_detach v_droppable_dropok [OF g] by simp
    from v_detach_good [OF e g x this] U_task_detach ex show ?thesis by (auto simp: vinv_def)
  qed
  with e show "v_env os \<and> vinv st'" by simp
qed

end
