(* ===== verification/Myio_Uv_Destroy.thy ===== *)
theory Myio_Uv_Destroy
  imports Myio_Uv_Ops
begin

text \<open>
  The start and the end of a libuv backend: a new instance satisfies the invariant; when
  the caller has let go of every task and no connect is still resolving its host,
  destroying the instance frees every task and every socket and closes the loop as libuv
  demands.
\<close>

subsection \<open>A new instance\<close>

lemma vinv_init:
  assumes "m_trace m = []" "\<not> m_fault m" and "myio_uv_new os m = (Some u, m')"
  shows "vinv u" "v_listens u" "v_handles u = {}"
proof -
  let ?a = "os [] C_alloc"
  from assms obtain a where u: "m_trace u = [(C_uv Uv_loop_init, a), (C_alloc, ?a)]" "\<not> m_fault u" "v_th u = Map.empty" "v_sh u = Map.empty"
    by (auto simp: myio_uv_new_def sys_alloc_def sys_call_def Let_def mach.extend_def split: if_splits)
  have "vgood {} {} (\<lambda>_. []) u"
    unfolding vgood_def v_queued_def
    by (simp add: u vcore_def vtasks_def vsocks_def vlinks_def vconns_def vowns_def vpark_def uv_loop0_def)
  then show "vinv u" by (auto simp: vinv_def)
  show "v_listens u" "v_handles u = {}" using u by (simp_all add: v_listens_def v_handles_def)
qed

subsection \<open>Shutting down\<close>

text \<open>Once every TCP handle closes, no connect resolves and no task is held, this stays so.\<close>

definition v_shut :: "uv_io \<Rightarrow> bool" where
  "v_shut u \<longleftrightarrow> (\<forall>s. ul_tcp (vl u) s \<in> {None, Some Tcp_closing}) \<and> (\<forall>t. ul_req (vl u) t \<noteq> Some Rq_gai) \<and>
     (\<forall>t x. v_th u t = Some x \<longrightarrow> \<not> v_held x)"

lemma uv_effect_shut:
  assumes "\<And>s. c \<noteq> Uv_tcp_init s" "\<And>t h sv. c \<noteq> Uv_getaddrinfo t h sv" and "\<forall>s. ul_tcp l s \<in> {None, Some Tcp_closing}"
    and "\<forall>t. ul_req l t \<noteq> Some Rq_gai"
  shows "ul_tcp (uv_effect c a l) s \<in> {None, Some Tcp_closing}" "ul_req (uv_effect c a l) t \<noteq> Some Rq_gai"
proof -
  have tcp: "ul_tcp l s = None \<or> ul_tcp l s = Some Tcp_closing" for s using assms(3) by auto
  have d: "ul_tcp (uv_deliver cb l) s \<in> {None, Some Tcp_closing}" "ul_req (uv_deliver cb l) t \<noteq> Some Rq_gai" for cb
    using assms(3,4) by (cases "(cb, l)" rule: uv_deliver.cases; simp add: uv_finish_def)+
  have r: "tcp_reading b (ul_tcp l q) \<in> {None, Some Tcp_closing}" "tcp_listening (ul_tcp l q) \<in> {None, Some Tcp_closing}" for b q
    using tcp [of q] by (auto simp: tcp_reading_def tcp_listening_def)
  show "ul_tcp (uv_effect c a l) s \<in> {None, Some Tcp_closing}"
    using assms(1) d(1) r assms(3) by (cases "(c, a, l)" rule: uv_effect.cases) (simp_all add: uv_start_def split: option.splits)
  show "ul_req (uv_effect c a l) t \<noteq> Some Rq_gai"
    using assms(2) d(2) assms(4) by (cases "(c, a, l)" rule: uv_effect.cases) (simp_all add: uv_start_def split: option.splits)
qed

named_theorems v_shut_intros

lemma v_shut_log [v_shut_intros]:
  assumes "v_shut u" and "\<And>s. c \<noteq> Uv_tcp_init s" "\<And>t h sv. c \<noteq> Uv_getaddrinfo t h sv"
  shows "v_shut (v_log os c u)"
  using assms(1) uv_effect_shut [where l = "vl u" and a = "v_ans os c u", OF assms(2,3)] unfolding v_shut_def by simp

lemma v_shut_heap [simp]:
  "v_shut (m_flag u) = v_shut u" "v_shut (u\<lparr>v_ncompleted := n\<rparr>) = v_shut u" "v_shut (u\<lparr>v_sh := sh\<rparr>) = v_shut u" "v_shut (u\<lparr>v_pnode := nx\<rparr>) = v_shut u"
  "v_shut (chk_vt t u) = v_shut u" "v_shut (chk_vs s u) = v_shut u" "v_shut (upd_vs s f u) = v_shut u" "v_shut (free_vs s u) = v_shut u"
  by (simp_all add: v_shut_def m_flag_def chk_vt_def chk_vs_def upd_vs_def free_vs_def split: option.splits)

lemma v_shut_upd_vt [v_shut_intros]:
  assumes "v_shut u" and "\<And>x. \<not> v_held x \<Longrightarrow> \<not> v_held (f x)"
  shows "v_shut (upd_vt t f u)"
  using assms by (auto simp: v_shut_def upd_vt_def m_flag_def split: option.splits)

lemma v_shut_free_vt [v_shut_intros]: "v_shut u \<Longrightarrow> v_shut (free_vt t u)"
  by (auto simp: v_shut_def free_vt_def chk_vt_def m_flag_def)

lemma v_shut_destroy [v_shut_intros]:
  assumes "v_shut u"
  shows "v_shut (v_sock_destroy os u s)" "v_shut (v_sock_destroy_at os u p)"
  using assms by (auto simp: v_sock_destroy_def v_sock_destroy_at_def uv_eq uv_do_eq Let_def intro!: v_shut_intros split: option.splits)

lemma v_shut_release [v_shut_intros]:
  assumes "v_shut u"
  shows "v_shut (v_release os u t)"
  using assms by (auto simp: v_release_def uv_eq uv_do_eq Let_def v_held_def intro!: v_shut_intros)

lemma v_shut_reap [v_shut_intros]: "v_shut u \<Longrightarrow> v_shut (v_task_reap os u t)"
  unfolding v_task_reap_def Let_def by (auto intro!: v_shut_intros split: option.splits)

lemma v_shut_complete [v_shut_intros]:
  assumes "v_shut u"
  shows "v_shut (v_task_complete os u t r)" "v_shut (v_task_error os u t er)"
  using assms by (auto simp: v_task_complete_def v_task_error_def v_task_finish_def Let_def v_held_def intro!: v_shut_intros)

lemma v_shut_slots [v_shut_intros]:
  assumes "v_shut u"
  shows "v_shut (v_close_slot_read os u s)" "v_shut (v_close_slot_accept os u s)"
  using assms by (auto simp: v_close_slot_read_def v_close_slot_accept_def intro!: v_shut_intros split: option.splits)

lemma v_shut_fn: "v_shut u \<Longrightarrow> v_shut (snd (sys_call os (C_fn f a) u))"
  by (simp add: sys_call_def Let_def v_shut_def)

lemma v_shut_callback:
  assumes "v_shut u" and "\<And>s r. cb \<noteq> Cb_connection s r"
  shows "v_shut (v_callback os u cb ads)"
proof (cases cb)
  case (Cb_close h)
  with assms show ?thesis
    by (cases h) (auto simp: v_timer_close_cb_def v_sock_close_cb_def Let_def v_held_def intro!: v_shut_intros split: option.splits)
next
  case (Cb_work t)
  with assms show ?thesis by (auto simp: v_work_cb_def split_beta Let_def v_held_def intro!: v_shut_intros v_shut_fn)
next
  case (Cb_getaddrinfo t r)
  with assms show ?thesis
    by (auto simp: v_gai_cb_def v_task_fail_gai_def uv_eq uv_do_eq Let_def v_held_def intro!: v_shut_intros split: option.splits list.splits)
qed (use assms in \<open>auto simp: v_fs_cb_def v_timer_cb_def v_after_work_cb_def v_connect_cb_def v_read_alloc_cb_def
    v_read_cb_def v_write_cb_def uv_do_eq Let_def v_held_def intro!: v_shut_intros split: option.splits\<close>)

lemma v_shut_run:
  assumes e: "v_env os" and "vgood {} {} Q u" and "v_shut u" and r: "v_run os m u = Some (rc, u')"
  shows "v_shut u'"
proof -
  have "(\<exists>Q. vgood {} {} Q u') \<and> v_shut u'"
  proof (rule v_run_keeps [where P = "\<lambda>u. (\<exists>Q. vgood {} {} Q u) \<and> v_shut u", OF r])
    fix u
    assume "(\<exists>Q. vgood {} {} Q u) \<and> v_shut u"
    then obtain Q where g: "vgood {} {} Q u" and sh: "v_shut u" by blast
    have l: "v_shut (v_event os m u)" by (rule v_shut_log [OF sh]) simp_all
    show "(\<exists>Q. vgood {} {} Q (v_event os m u)) \<and> v_shut (v_event os m u)" if "a_cb (v_ans os (Uv_run m) u) = None"
      using vgood_log_same(1) [where os = os and c = "Uv_run m", OF g] that l by auto
    fix cb
    assume c: "a_cb (v_ans os (Uv_run m) u) = Some cb"
    have "cb \<noteq> Cb_connection s r" for s r
    proof
      assume "cb = Cb_connection s r"
      with uv_run_may(1) [OF v_env_ok [OF e] vgood_disc [OF g] c] obtain b where "ul_tcp (vl u) s = Some (Tcp_open b True)" by auto
      with sh show False unfolding v_shut_def by (metis insertE option.distinct(1) option.inject singletonD tcp_state.distinct(1))
    qed
    then show "(\<exists>Q. vgood {} {} Q (v_callback os (v_event os m u) cb (a_addrs (v_ans os (Uv_run m) u)))) \<and>
        v_shut (v_callback os (v_event os m u) cb (a_addrs (v_ans os (Uv_run m) u)))"
      using v_shut_callback [OF l] v_turn_callback [OF e g c] by (auto simp: v_turn_def)
  qed (use assms(2,3) in blast)
  then show ?thesis by blast
qed

text \<open>A quiet loop that was shut has nothing left.\<close>

lemma vgood_shut_empty:
  assumes g: "vgood {} {} Q u" and sh: "v_shut u" and q: "uv_quiet (vl u)"
  shows "v_th u = Map.empty" "v_sh u = Map.empty" "ul_req (vl u) = Map.empty" "ul_timer (vl u) = Map.empty" "ul_tcp (vl u) = Map.empty"
proof -
  note c = vgood_core [OF g]
  have tcp: "ul_tcp (vl u) s = None" for s
  proof -
    from sh have a: "ul_tcp (vl u) s = None \<or> ul_tcp (vl u) s = Some Tcp_closing" by (auto simp: v_shut_def)
    from q have "ul_tcp (vl u) s = None \<or> ul_tcp (vl u) s = Some (Tcp_open False False)" by (auto simp: uv_quiet_def)
    with a show ?thesis by auto
  qed
  have sock: "v_sh u s = None" for s using vcore_sock [OF c, of s] tcp [of s] by (cases "v_sh u s") (auto simp: vsock_def)
  have req: "ul_req (vl u) t = None" and tm: "ul_timer (vl u) t \<in> {None, Some Timer_idle}" for t using q by (simp_all add: uv_quiet_def)
  have task: "v_th u t = None" for t
  proof (cases "v_th u t")
    case (Some x)
    note v = vcore_task [OF c Some]
    have nh: "\<not> v_held x" using sh Some by (simp add: v_shut_def)
    have fr: "\<not> vt_free_on_close x"
    proof
      assume "vt_free_on_close x"
      with v have "v_want_timer x = Some Timer_closing" by (auto simp: vtask_def v_want_timer_def)
      with v tm [of t] show False by (auto simp: vtask_def)
    qed
    with nh have "vt_detached x" by (simp add: v_held_def)
    with v fr have nd: "\<not> vt_done x" by (auto simp: vtask_def)
    have "vt_kind x \<noteq> VTASK_ACCEPT"
    proof
      assume "vt_kind x = VTASK_ACCEPT"
      with vcore_pull [OF c Some _ nd] sock show False by (auto simp: v_pull_def)
    qed
    with vgood_quiet_done [OF g q _ Some fr] nd show ?thesis by blast
  qed simp
  then show "v_th u = Map.empty" by (simp add: fun_eq_iff)
  show "v_sh u = Map.empty" "ul_req (vl u) = Map.empty" "ul_tcp (vl u) = Map.empty" using sock req tcp by (simp_all add: fun_eq_iff)
  show "ul_timer (vl u) = Map.empty" using vcore_no_task [OF c] task by (simp add: fun_eq_iff)
qed

subsection \<open>The walk\<close>

text \<open>While the walk closes the handles, the queues of the listeners no longer matter.\<close>

definition v_walking :: "uv_io \<Rightarrow> bool" where
  "v_walking u \<longleftrightarrow> \<not> m_fault u \<and> uv_disciplined (m_trace u) \<and> vcore {} {} (m_brk u) (v_th u) (v_sh u) (\<lambda>_. []) (vl u) \<and>
     card (dom (v_th u)) \<le> v_allocs (m_trace u) \<and> v_allocs (m_trace u) < 2 ^ 32 \<and>
     (\<forall>t. ul_req (vl u) t \<noteq> Some Rq_gai) \<and> (\<forall>t x. v_th u t = Some x \<longrightarrow> \<not> v_held x)"

lemma v_walking_init:
  assumes "vgood {} {} Q u" and "v_handles u = {}" and "\<And>t. ul_req (vl u) t \<noteq> Some Rq_gai"
  shows "v_walking u"
proof -
  have "vcore {} {} (m_brk u) (v_th u) (v_sh u) (\<lambda>_. []) (vl u)" by (rule vcore_park_sub [OF vgood_core [OF assms(1)]]) simp
  then show ?thesis using assms unfolding v_walking_def vgood_def v_handles_def by auto
qed

lemma v_walking_log:
  assumes "v_walking u" and "uv_call_ok (vl u) c" and "vcore {} {} (m_brk u) (v_th u) (v_sh u) (\<lambda>_. []) (uv_effect c (v_ans os c u) (vl u))"
    and "ul_req (uv_effect c (v_ans os c u) (vl u)) = ul_req (vl u)"
  shows "v_walking (v_log os c u)"
  using assms by (simp add: v_walking_def)

text \<open>What closing one handle leaves.\<close>

definition v_closed_one :: "uv_io \<Rightarrow> uv_handle \<Rightarrow> uv_io \<Rightarrow> bool" where
  "v_closed_one u h u' \<longleftrightarrow> v_walking u' \<and>
     (\<forall>t. ul_timer (vl u') t = (if h = H_timer t then Some Timer_closing else ul_timer (vl u) t)) \<and>
     (\<forall>s. ul_tcp (vl u') s = (if h = H_tcp s then Some Tcp_closing else ul_tcp (vl u) s))"

lemma v_close_one_timer:
  assumes e: "v_env os" and w: "v_walking u" and h: "ul_timer (vl u) t \<noteq> None"
  shows "v_closed_one u (H_timer t) (v_close_walk_cb os u (H_timer t))"
proof -
  let ?i = "Uv_is_closing (H_timer t)"
  let ?u1 = "v_log os ?i u"
  from w have c: "vcore {} {} (m_brk u) (v_th u) (v_sh u) (\<lambda>_. []) (vl u)" and di: "uv_disciplined (m_trace u)"
    and nh: "\<And>t x. v_th u t = Some x \<Longrightarrow> \<not> v_held x" by (auto simp: v_walking_def)
  from h obtain st where st: "ul_timer (vl u) t = Some st" by blast
  have w1: "v_walking ?u1" by (rule v_walking_log [OF w]) (use c st in simp_all)
  note cl = uv_closing_timer [OF v_env_ok [OF e] di st]
  from st obtain x where x: "v_th u t = Some x" using vcore_no_task [OF c, of t] by (cases "v_th u t") auto
  note v = vcore_task [OF c x]
  show ?thesis
  proof (cases "st = Timer_closing")
    case True
    with cl w1 st show ?thesis by (simp add: v_close_walk_cb_def uv_eq v_closed_one_def)
  next
    case False
    with v st have k: "vt_kind x = VTASK_TIMER" "\<not> vt_done x" "\<not> vt_free_on_close x" "st = Timer_armed"
      by (auto simp: vtask_def v_want_timer_def split: if_splits)
    have d: "vt_detached x" using nh [OF x] k(3) by (simp add: v_held_def)
    let ?x = "x\<lparr>vt_free_on_close := True\<rparr>"
    let ?u2 = "?u1\<lparr>v_th := (v_th u)(t \<mapsto> ?x)\<rparr>"
    let ?c = "Uv_close (H_timer t)"
    have eq: "v_close_walk_cb os u (H_timer t) = v_log os ?c ?u2"
      using cl False x d by (simp add: v_close_walk_cb_def uv_eq uv_do_eq Let_def)
    let ?l = "(vl u)\<lparr>ul_timer := (ul_timer (vl u))(t \<mapsto> Timer_closing)\<rparr>"
    have own: "v_own ?x = v_own x" by (simp add: v_own_def)
    have vt: "vtask {} (m_brk u) ?l t ?x" using v k d own by (auto simp: vtask_def v_want_timer_def v_want_req_def)
    have "vcore {} {} (m_brk u) ((v_th u)(t \<mapsto> ?x)) (v_sh u) (\<lambda>_. []) ?l"
      by (rule vcore_upd [OF c x _ refl vt]) (use own k in \<open>auto simp: loop_off_def v_pull_def\<close>)
    moreover have "dom ((v_th u)(t \<mapsto> ?x)) = dom (v_th u)" using x by auto
    moreover have "\<not> v_held ?x" by (simp add: v_held_def)
    ultimately have "v_walking (v_log os ?c ?u2)"
      using w1 st k(4) unfolding v_walking_def by (auto simp: timer_usable_def split: if_splits)
    then show ?thesis unfolding eq by (simp add: v_closed_one_def)
  qed
qed

lemma v_close_one_tcp:
  assumes e: "v_env os" and w: "v_walking u" and h: "ul_tcp (vl u) s \<noteq> None"
  shows "v_closed_one u (H_tcp s) (v_close_walk_cb os u (H_tcp s))"
proof -
  let ?i = "Uv_is_closing (H_tcp s)"
  let ?u1 = "v_log os ?i u"
  from w have c: "vcore {} {} (m_brk u) (v_th u) (v_sh u) (\<lambda>_. []) (vl u)" and di: "uv_disciplined (m_trace u)"
    and ng: "\<And>t. ul_req (vl u) t \<noteq> Some Rq_gai" by (auto simp: v_walking_def)
  from h obtain st where st: "ul_tcp (vl u) s = Some st" by blast
  have w1: "v_walking ?u1" by (rule v_walking_log [OF w]) (use c st in \<open>simp_all add: tcp_live_def\<close>)
  note cl = uv_closing_tcp [OF v_env_ok [OF e] di st]
  from st obtain y where y: "v_sh u s = Some y" using vcore_no_sock [OF c, of s] by (cases "v_sh u s") auto
  show ?thesis
  proof (cases "st = Tcp_closing")
    case True
    with cl w1 st show ?thesis by (simp add: v_close_walk_cb_def uv_eq v_closed_one_def)
  next
    case False
    let ?c = "Uv_close (H_tcp s)"
    have eq: "v_close_walk_cb os u (H_tcp s) = v_log os ?c ?u1" using cl False by (simp add: v_close_walk_cb_def uv_eq uv_do_eq)
    let ?l = "(vl u)\<lparr>ul_tcp := (ul_tcp (vl u))(s \<mapsto> Tcp_closing)\<rparr>"
    have "vcore {} {} (m_brk u) (v_th u) (v_sh u) (\<lambda>_. []) ?l"
    proof (rule vcore_tcp [OF c y])
      show "tcp_off s (vl u) ?l" by (simp add: tcp_off_def)
      show "vsock {} (m_brk u) ?l s y" using vcore_sock [OF c y] by (simp add: vsock_def)
      show "ul_tcp ?l s \<in> {Some (Tcp_open False False)} \<union> (if vt_connecting x then {Some Tcp_closing} else {})"
        if "v_th u t = Some x" "vt_kind x = VTASK_CONNECT" "\<not> vt_done x" "t \<notin> {}" "vt_sock x = Some s" for t x
        using vcore_task [OF c that(1)] that(2,3) ng [of t] by (cases "vt_connecting x") (auto simp: vtask_def v_want_req_def)
    qed simp_all
    moreover have "tcp_is_open (vl u) s" using st False by (cases st) (simp_all add: tcp_is_open_def)
    ultimately have "v_walking (v_log os ?c ?u1)" by (intro v_walking_log [OF w1]) simp_all
    then show ?thesis unfolding eq by (simp add: v_closed_one_def)
  qed
qed

fun h_live :: "uv_loop \<Rightarrow> uv_handle \<Rightarrow> bool" where
  "h_live l (H_timer t) = (ul_timer l t \<noteq> None)"
| "h_live l (H_tcp s) = (ul_tcp l s \<noteq> None)"

lemma v_close_one:
  assumes "v_env os" and "v_walking u" and "h_live (vl u) h"
  shows "v_closed_one u h (v_close_walk_cb os u h)"
  using assms v_close_one_timer v_close_one_tcp by (cases h) auto

lemma v_walk_closes:
  assumes "v_env os" and "v_walking u" and "\<And>h. h \<in> set hs \<Longrightarrow> h_live (vl u) h"
  shows "v_walking (v_walk os u hs) \<and>
    (\<forall>s. ul_tcp (vl (v_walk os u hs)) s = (if H_tcp s \<in> set hs then Some Tcp_closing else ul_tcp (vl u) s))"
  using assms(2,3)
proof (induction hs arbitrary: u)
  case (Cons h hs)
  let ?u = "v_close_walk_cb os u h"
  have o: "v_closed_one u h ?u" using v_close_one [OF assms(1) Cons.prems(1)] Cons.prems(2) by simp
  have "h_live (vl ?u) g" if "g \<in> set hs" for g
    using Cons.prems(2) [of g] that o by (cases g) (auto simp: v_closed_one_def)
  from Cons.IH [OF _ this] o show ?case by (auto simp: v_closed_one_def)
qed simp

lemma uv_walk_handles:
  assumes "uv_ok os" and "uv_disciplined (m_trace u)"
  shows "h \<in> set (a_handles (v_ans os Uv_walk u)) \<longleftrightarrow> h_live (vl u) h"
proof -
  have "set (a_handles (v_ans os Uv_walk u)) = H_timer ` dom (ul_timer (vl u)) \<union> H_tcp ` dom (ul_tcp (vl u))"
    using assms(1) [unfolded uv_ok_def, rule_format, OF assms(2)] by (elim conjE) assumption
  then show ?thesis by (cases h) auto
qed

lemma v_destroy_clean:
  assumes e: "v_env os" and i: "vinv u" and h: "v_handles u = {}" and ng: "\<And>t. ul_req (vl u) t \<noteq> Some Rq_gai" and o: "v_destroy os u = Some u'"
  shows "v_th u' = Map.empty" "v_sh u' = Map.empty" "\<not> m_fault u'" "uv_disciplined (m_trace u')"
proof -
  from i obtain Q where g: "vgood {} {} Q u" by (auto simp: vinv_def)
  let ?u1 = "v_log os Uv_walk u"
  let ?u2 = "v_walk os ?u1 (a_handles (v_ans os Uv_walk u))"
  note hs = uv_walk_handles [OF v_env_ok [OF e] vgood_disc [OF g]]
  have w: "v_walking u" by (rule v_walking_init [OF g h ng])
  have w1: "v_walking ?u1" by (rule v_walking_log [OF w]) (use w in \<open>simp_all add: v_walking_def\<close>)
  have "v_walking ?u2 \<and> (\<forall>s. ul_tcp (vl ?u2) s = (if H_tcp s \<in> set (a_handles (v_ans os Uv_walk u)) then Some Tcp_closing else ul_tcp (vl ?u1) s))"
    by (rule v_walk_closes [OF e w1]) (use hs in simp)
  then have w2: "v_walking ?u2" "ul_tcp (vl ?u2) s \<in> {None, Some Tcp_closing}" for s using hs [of "H_tcp s"] by auto
  have sh: "v_shut ?u2" using w2 unfolding v_shut_def v_walking_def by blast
  have "\<not> tcp_is_open (vl ?u2) s" for s using w2(2) [of s] by (auto simp: tcp_is_open_def)
  then have "v_queued ?u2 (\<lambda>_. [])" by (simp add: v_queued_def)
  with w2(1) have g2: "vgood {} {} (\<lambda>_. []) ?u2" unfolding v_walking_def vgood_def by blast
  from o obtain rc u3 where r: "v_run os UV_RUN_DEFAULT ?u2 = Some (rc, u3)" "u' = v_log os Uv_loop_close u3"
    by (auto simp: v_destroy_def uv_eq uv_do_eq)
  have "v_ran os UV_RUN_DEFAULT (\<lambda>_. []) ?u2 rc u3" by (rule v_run_ran [OF e g2 r(1)])
  then obtain Q3 where g3: "vgood {} {} Q3 u3" "uv_quiet (vl u3)" by (auto simp: v_ran_def v_turn_def)
  note em = vgood_shut_empty [OF g3(1) v_shut_run [OF e g2 sh r(1)] g3(2)]
  show "v_th u' = Map.empty" "v_sh u' = Map.empty" "\<not> m_fault u'" "uv_disciplined (m_trace u')"
    using em vgood_fine [OF g3(1)] vgood_disc [OF g3(1)] by (simp_all add: r(2))
qed

end
