(* ===== verification/Myio_Uv_Cancel.thy ===== *)
theory Myio_Uv_Cancel
  imports Myio_Uv_Destroy
begin

text \<open>
  The outcome of a cancellation the libuv backend has forwarded to libuv: the request
  keeps its mark until its own callback comes, whatever the other callbacks do, and that
  callback settles the task.
\<close>

subsection \<open>Calls made from callbacks\<close>

text \<open>The calls a callback makes extend the trace, and none of them is a run of the loop.\<close>

definition v_ext :: "event list \<Rightarrow> uv_io \<Rightarrow> bool" where
  "v_ext tr u \<longleftrightarrow> (\<exists>new. m_trace u = new @ tr \<and> (\<forall>c a m. (c, a) \<in> set new \<longrightarrow> c \<noteq> C_uv (Uv_run m)))"

named_theorems v_ext_intros

lemma v_ext_refl: "v_ext (m_trace u) u"
  by (simp add: v_ext_def)

lemma v_ext_call:
  assumes "v_ext tr u" and "\<And>m. c \<noteq> C_uv (Uv_run m)"
  shows "v_ext tr (snd (sys_call os c u))"
proof -
  from assms(1) obtain new where n: "m_trace u = new @ tr" "\<forall>c a m. (c, a) \<in> set new \<longrightarrow> c \<noteq> C_uv (Uv_run m)" by (auto simp: v_ext_def)
  then have "m_trace (snd (sys_call os c u)) = ((c, os (m_trace u) c) # new) @ tr" by (simp add: sys_call_def Let_def)
  with n(2) assms(2) show ?thesis unfolding v_ext_def by (metis set_ConsD prod.inject)
qed

lemma v_ext_log [v_ext_intros]: "v_ext tr u \<Longrightarrow> (\<And>m. c \<noteq> Uv_run m) \<Longrightarrow> v_ext tr (v_log os c u)"
  using v_ext_call [of tr u "C_uv c" os] by (simp add: uv_do_eq [symmetric] uv_do_def uv_def)

lemma v_ext_heap [simp]:
  "v_ext tr (m_flag u) = v_ext tr u" "v_ext tr (u\<lparr>v_ncompleted := n\<rparr>) = v_ext tr u" "v_ext tr (u\<lparr>v_sh := sh\<rparr>) = v_ext tr u"
  "v_ext tr (u\<lparr>v_pnode := nx\<rparr>) = v_ext tr u" "v_ext tr (u\<lparr>v_th := th\<rparr>) = v_ext tr u"
  "v_ext tr (chk_vt t u) = v_ext tr u" "v_ext tr (chk_vs s u) = v_ext tr u" "v_ext tr (upd_vs s f u) = v_ext tr u" "v_ext tr (free_vs s u) = v_ext tr u"
  "v_ext tr (upd_vt t g u) = v_ext tr u" "v_ext tr (free_vt t u) = v_ext tr u"
  by (simp_all add: v_ext_def m_flag_def chk_vt_def chk_vs_def upd_vs_def free_vs_def upd_vt_def free_vt_def split: option.splits)

lemma v_ext_destroy [v_ext_intros]:
  assumes "v_ext tr u"
  shows "v_ext tr (v_sock_destroy os u s)" "v_ext tr (v_sock_destroy_at os u p)"
  using assms by (auto simp: v_sock_destroy_def v_sock_destroy_at_def uv_eq uv_do_eq Let_def intro!: v_ext_intros split: option.splits)

lemma v_ext_reap [v_ext_intros]:
  assumes "v_ext tr u"
  shows "v_ext tr (v_task_reap os u t)"
  using assms by (auto simp: v_task_reap_def v_release_def uv_eq uv_do_eq Let_def intro!: v_ext_intros split: option.splits)

lemma v_ext_complete [v_ext_intros]:
  assumes "v_ext tr u"
  shows "v_ext tr (v_task_complete os u t r)" "v_ext tr (v_task_error os u t er)"
  using assms by (auto simp: v_task_complete_def v_task_error_def v_task_finish_def Let_def intro!: v_ext_intros)

lemma v_ext_slots [v_ext_intros]:
  assumes "v_ext tr u"
  shows "v_ext tr (v_close_slot_read os u s)" "v_ext tr (v_close_slot_accept os u s)"
  using assms by (auto simp: v_close_slot_read_def v_close_slot_accept_def intro!: v_ext_intros split: option.splits)

lemma v_ext_sock_new:
  assumes "v_ext tr u"
  shows "v_ext tr (snd (v_sock_new os u))"
proof -
  have "m_trace (snd (sys_alloc os u)) = m_trace (snd (sys_call os C_alloc u))"
    by (simp add: sys_alloc_def sys_call_def Let_def)
  with v_ext_call [OF assms, of C_alloc os] have "v_ext tr (snd (sys_alloc os u))" by (simp add: v_ext_def)
  then show ?thesis by (auto simp: v_sock_new_def uv_do_eq split: prod.splits option.splits intro!: v_ext_intros)
qed

lemma v_ext_connection:
  assumes "v_ext tr u"
  shows "v_ext tr (v_connection_cb os u s r)"
proof -
  let ?u = "chk_vs s u"
  obtain p u1 where n: "v_sock_new os ?u = (p, u1)" by (cases "v_sock_new os ?u")
  have l: "v_ext tr ?u" using assms by simp
  have u1: "v_ext tr u1" using v_ext_sock_new [OF l, of os] n by simp
  have "v_ext tr (v_pending_push w s k)" if "v_ext tr w" for w k
    using that by (auto simp: v_pending_push_def split: prod.splits)
  with u1 l n show ?thesis
    unfolding v_connection_cb_def Let_def by (auto simp: uv_eq intro!: v_ext_intros split: option.splits)
qed

lemma v_ext_callback:
  assumes "v_ext tr u"
  shows "v_ext tr (v_callback os u cb ads)"
proof (cases cb)
  case (Cb_close h)
  with assms show ?thesis
    by (cases h) (auto simp: v_timer_close_cb_def v_sock_close_cb_def Let_def intro!: v_ext_intros split: option.splits)
next
  case (Cb_work t)
  with assms show ?thesis by (auto simp: v_work_cb_def split_beta Let_def intro!: v_ext_call)
next
  case (Cb_getaddrinfo t r)
  with assms show ?thesis
    by (auto simp: v_gai_cb_def v_task_fail_gai_def uv_eq uv_do_eq Let_def intro!: v_ext_intros split: option.splits list.splits)
next
  case (Cb_connection s r)
  with assms v_ext_connection show ?thesis by simp
qed (use assms in \<open>auto simp: v_fs_cb_def v_timer_cb_def v_after_work_cb_def v_connect_cb_def v_read_alloc_cb_def
    v_read_cb_def v_write_cb_def uv_do_eq Let_def intro!: v_ext_intros split: option.splits\<close>)

subsection \<open>The mark stays\<close>

definition v_asked :: "addr \<Rightarrow> uv_loop \<Rightarrow> bool" where
  "v_asked t l \<longleftrightarrow> t \<in> ul_cancel l \<and> ul_req l t \<in> {Some Rq_fs, Some Rq_work, Some Rq_gai}"

lemma uv_effect_asked:
  assumes "v_asked t l" and "uv_call_ok l c" and "\<And>m. c \<noteq> Uv_run m"
  shows "v_asked t (uv_effect c a l)"
  using assms by (cases "(c, a, l)" rule: uv_effect.cases) (auto simp: v_asked_def uv_start_def)

lemma uv_state_asked:
  assumes "uv_disciplined (new @ tr)" and "\<forall>c a m. (c, a) \<in> set new \<longrightarrow> c \<noteq> C_uv (Uv_run m)" and "v_asked t (uv_state tr)"
  shows "v_asked t (uv_state (new @ tr))"
  using assms(1,2)
proof (induction new)
  case Nil
  with assms(3) show ?case by simp
next
  case (Cons ev new)
  obtain c a where ev: "ev = (c, a)" by (cases ev)
  show ?case
  proof (cases "\<exists>d. c = C_uv d")
    case True
    then obtain d where d: "c = C_uv d" ..
    have "v_asked t (uv_state (new @ tr))" using Cons ev d by auto
    then show ?thesis using uv_effect_asked [of t _ d a] Cons.prems ev d by auto
  next
    case False
    then have "uv_state ((ev # new) @ tr) = uv_state (new @ tr)" "uv_disciplined ((ev # new) @ tr) = uv_disciplined (new @ tr)"
      by (cases c; simp add: ev)+
    with Cons show ?thesis by auto
  qed
qed

lemma v_asked_ext: "v_ext tr u \<Longrightarrow> uv_disciplined (m_trace u) \<Longrightarrow> v_asked t (uv_state tr) \<Longrightarrow> v_asked t (vl u)"
  using uv_state_asked by (fastforce simp: v_ext_def)

lemma uv_deliver_asked:
  assumes "v_asked t l" and "uv_may l cb"
  shows "v_asked t (uv_deliver cb l) \<or> cb = Cb_fs t UV_ECANCELED \<or> cb = Cb_after_work t UV_ECANCELED \<or> cb = Cb_getaddrinfo t UV_EAI_CANCELED"
  using assms by (cases "(cb, l)" rule: uv_deliver.cases) (auto simp: v_asked_def uv_finish_def)

subsection \<open>How it ends\<close>

text \<open>
  A file operation or a function ends as canceled. A resolving connect ends with the
  resolver's error \<^verbatim>\<open>EAI_FAIL\<close>: libuv's code for a cancelled resolution is none of those
  that \<^verbatim>\<open>uv_eai_to_system\<close> translates.
\<close>

definition v_outcome :: "v_kind \<Rightarrow> myio_result \<Rightarrow> bool" where
  "v_outcome k r \<longleftrightarrow> (if k = VTASK_CONNECT then res_status r = MYIO_ERROR \<and> res_error r = EAI_FAIL else res_status r = MYIO_CANCELED)"

definition v_doomed :: "v_kind \<Rightarrow> addr \<Rightarrow> uv_io \<Rightarrow> bool" where
  "v_doomed k t u \<longleftrightarrow> (\<exists>x. v_th u t = Some x \<and> v_held x \<and> vt_kind x = k \<and> (if vt_done x then v_outcome (vt_kind x) (vt_res x) else v_asked t (vl u)))"

lemma v_doomedI:
  assumes "vgood {} {} Q u" and "v_th u t = Some x" "v_held x" and "v_asked t (vl u)"
  shows "v_doomed (vt_kind x) t u"
  using assms vcore_task [OF vgood_core [OF assms(1)] assms(2)] by (auto simp: v_doomed_def v_asked_def vtask_def v_want_req_def split: if_splits)

lemma uv_eai_cancel: "uv_eai_to_system UV_EAI_CANCELED = EAI_FAIL"
  by (simp add: uv_eai_to_system_def uv_const_defs)

lemma v_doomed_settled:
  assumes e: "v_env os" and g: "vgood {} {} Q u" and a: "a_cb (v_ans os (Uv_run m) u) = Some cb" and x: "v_th u t = Some x" "v_held x"
    and q: "v_asked t (vl u)" and cb: "cb = Cb_fs t UV_ECANCELED \<or> cb = Cb_after_work t UV_ECANCELED \<or> cb = Cb_getaddrinfo t UV_EAI_CANCELED"
  shows "v_doomed (vt_kind x) t (v_callback os (v_event os m u) cb ads)"
proof -
  let ?u = "v_event os m u"
  note may = uv_run_may(1) [OF v_env_ok [OF e] vgood_disc [OF g] a]
  have hd: "\<not> vt_detached x" "\<not> vt_free_on_close x" using x(2) by (simp_all add: v_held_def)
  have t1: "v_th ?u t = Some x" using x(1) by simp
  obtain rq where rq: "ul_req (vl u) t = Some rq" "uv_deliver cb (vl u) = uv_finish t (vl u)"
    "cb = Cb_fs t UV_ECANCELED \<and> rq = Rq_fs \<or> cb = Cb_after_work t UV_ECANCELED \<and> rq = Rq_work \<or> cb = Cb_getaddrinfo t UV_EAI_CANCELED \<and> rq = Rq_gai"
    using may cb by auto
  from vgood_take [where os = os and m = m, OF g a rq(2,1)] x(1) have tk: "\<not> vt_done x" "v_want_req x = Some rq" "vgood {t} {} Q ?u" by auto
  have c: "v_th (v_task_complete os ?u t r) t = Some (x\<lparr>vt_res := v_complete_res r (vt_res x), vt_done := True\<rparr>)" if "vt_kind x \<noteq> VTASK_TIMER" for r
    using v_completesD(5) [OF vgood_complete [OF e tk(3) _ t1, of r]] that hd by simp
  from rq(3) show ?thesis
  proof (elim disjE conjE)
    assume f: "cb = Cb_fs t UV_ECANCELED" "rq = Rq_fs"
    then have "vt_kind x = VTASK_FS" using v_want_req_kind(1) tk(2) by simp
    with c [of UV_ECANCELED] f hd t1 show ?thesis
      by (auto simp: v_doomed_def v_fs_cb_def v_held_def v_outcome_def v_complete_res_def UV_ECANCELED_def)
  next
    assume f: "cb = Cb_after_work t UV_ECANCELED" "rq = Rq_work"
    then have "vt_kind x = VTASK_SPAWN" using v_want_req_kind(2) tk(2) by simp
    with c [of UV_ECANCELED] f hd t1 show ?thesis
      by (auto simp: v_doomed_def v_after_work_cb_def v_held_def v_outcome_def v_complete_res_def UV_ECANCELED_def)
  next
    assume f: "cb = Cb_getaddrinfo t UV_EAI_CANCELED" "rq = Rq_gai"
    then have k: "vt_kind x = VTASK_CONNECT" "\<not> vt_connecting x" using v_want_req_kind(3) tk(2) by simp_all
    from vcore_conn [OF vgood_core [OF g] x(1) k(1) tk(1)] obtain s y where s: "vt_sock x = Some s" "v_sh u s = Some y" by (auto simp: vconn_ok_def)
    let ?v = "upd_vt t (\<lambda>x. x\<lparr>vt_sock := None\<rparr>) (v_sock_destroy_at os ?u (vt_sock x))"
    let ?w = "v_log os Uv_freeaddrinfo ?v"
    have y: "v_sh ?u s = Some y" using s(2) by simp
    note d = vgood_conn_destroy [OF e tk(3) singletonI t1 k(1) tk(1) s(1) y empty_iff [THEN iffD1, THEN notI] refl]
    have g2: "vgood {t} {} (Q(s := [])) ?w" using vgood_log_same(1) [where os = os and c = Uv_freeaddrinfo, OF d(1)] by simp
    have t2: "v_th ?w t = Some (x\<lparr>vt_sock := None\<rparr>)" using d(3) by simp
    have "v_th (v_task_error os ?w t EAI_FAIL) t =
        Some (x\<lparr>vt_sock := None, vt_res := (vt_res x)\<lparr>res_status := MYIO_ERROR, res_error := EAI_FAIL\<rparr>, vt_done := True\<rparr>)"
      using v_completesD(5) [OF vgood_error [OF e g2 _ t2, of EAI_FAIL]] k(1) hd by simp
    moreover have "v_callback os ?u cb ads = v_task_error os ?w t EAI_FAIL"
      using f t1 uv_eai_cancel by (simp add: v_gai_cb_def v_task_fail_gai_def uv_do_eq Let_def UV_EAI_CANCELED_def)
    ultimately show ?thesis using hd k(1) by (auto simp: v_doomed_def v_held_def v_outcome_def)
  qed
qed

lemma v_doomed_callback:
  assumes e: "v_env os" and g: "vgood {} {} Q u" and a: "a_cb (v_ans os (Uv_run m) u) = Some cb" and d: "v_doomed k t u"
  shows "v_doomed k t (v_callback os (v_event os m u) cb (a_addrs (v_ans os (Uv_run m) u)))"
proof -
  let ?u = "v_callback os (v_event os m u) cb (a_addrs (v_ans os (Uv_run m) u))"
  from d obtain x where x: "v_th u t = Some x" "v_held x" "if vt_done x then v_outcome k (vt_res x) else v_asked t (vl u)"
    and k: "vt_kind x = k" by (auto simp: v_doomed_def)
  from v_turn_callback [OF e g a] obtain Q' where Q': "vgood {} {} Q' ?u" "vkeeps {} Q u Q' ?u" by (auto simp: v_turn_def)
  from vkeeps_held [OF Q'(2) x(1,2)] obtain x' where x': "v_th ?u t = Some x'" "v_held x'" "vt_kind x' = vt_kind x"
    "vt_done x \<longrightarrow> vt_done x' \<and> vt_res x' = vt_res x" by auto
  show ?thesis
  proof (cases "vt_done x")
    case True
    with x(3) x' k show ?thesis by (auto simp: v_doomed_def)
  next
    case False
    with x(3) have q: "v_asked t (vl u)" by simp
    have "v_ext (m_trace (v_event os m u)) ?u" by (rule v_ext_callback [OF v_ext_refl])
    then have "v_asked t (uv_deliver cb (vl u)) \<Longrightarrow> v_doomed k t ?u"
      using v_doomedI [OF Q'(1) x'(1,2)] x'(3) k v_asked_ext [OF _ vgood_disc [OF Q'(1)]] v_event_loop [where os = os and m = m, OF a] by simp
    with uv_deliver_asked [OF q uv_run_may(1) [OF v_env_ok [OF e] vgood_disc [OF g] a]] v_doomed_settled [OF e g a x(1,2) q] k
    show ?thesis by blast
  qed
qed

lemma v_doomed_step:
  assumes e: "v_env os" and "vinv u" and d: "v_doomed k t u" and st: "v_step os u = Some (b, u')"
  shows "vinv u' \<and> v_doomed k t u'"
proof -
  from st obtain rc where r: "v_run os UV_RUN_ONCE u = Some (rc, u')" by (auto simp: v_step_def)
  show ?thesis
  proof (rule v_run_keeps [where P = "\<lambda>u. vinv u \<and> v_doomed k t u", OF r])
    fix u
    assume "vinv u \<and> v_doomed k t u"
    then obtain Q where g: "vgood {} {} Q u" and d: "v_doomed k t u" by (auto simp: vinv_def)
    show "vinv (v_event os UV_RUN_ONCE u) \<and> v_doomed k t (v_event os UV_RUN_ONCE u)" if "a_cb (v_ans os (Uv_run UV_RUN_ONCE) u) = None"
      using vgood_log_same(1) [where os = os and c = "Uv_run UV_RUN_ONCE", OF g] that d by (auto simp: vinv_def v_doomed_def)
    fix cb
    assume c: "a_cb (v_ans os (Uv_run UV_RUN_ONCE) u) = Some cb"
    show "vinv (v_callback os (v_event os UV_RUN_ONCE u) cb (a_addrs (v_ans os (Uv_run UV_RUN_ONCE) u))) \<and>
        v_doomed k t (v_callback os (v_event os UV_RUN_ONCE u) cb (a_addrs (v_ans os (Uv_run UV_RUN_ONCE) u)))"
      using v_doomed_callback [OF e g c d] v_turn_callback [OF e g c] by (auto simp: v_turn_def vinv_def)
  qed (use assms(2,3) in blast)
qed

lemma v_doomed_await:
  assumes e: "v_env os" and "vinv u" and "v_doomed k t u" and "myio_await (uv_ops os) u t = Some (r, u')"
  shows "v_doomed k t u'"
proof -
  have "uv_ops os = uv_ops os \<longrightarrow> vinv u \<and> v_doomed k t u \<longrightarrow> v_doomed k t (snd (r, u'))"
  proof (rule myio_await.raw_induct [where P = "\<lambda>o' u t y. o' = uv_ops os \<longrightarrow> vinv u \<and> v_doomed k t u \<longrightarrow> v_doomed k t (snd y)", OF _ assms(4)])
    fix f o' u t y
    assume IH: "\<And>o' u t y. f o' u t = Some y \<Longrightarrow> o' = uv_ops os \<longrightarrow> vinv u \<and> v_doomed k t u \<longrightarrow> v_doomed k t (snd y)"
      and eq: "(if ops_task_done o' u t then Some (ops_task_result o' u t, u)
        else Option.bind (ops_step o' u) (\<lambda>(progress, u). if \<not> progress then Some (mk_result MYIO_ERROR 0 EDEADLK None, u) else f o' u t)) = Some y"
    show "o' = uv_ops os \<longrightarrow> vinv u \<and> v_doomed k t u \<longrightarrow> v_doomed k t (snd y)"
    proof (intro impI)
      assume o: "o' = uv_ops os" and i: "vinv u \<and> v_doomed k t u"
      show "v_doomed k t (snd y)"
      proof (cases "v_task_done u t")
        case True
        with eq o i show ?thesis by auto
      next
        case False
        with eq o obtain b u1 where st: "v_step os u = Some (b, u1)"
          and n: "(if \<not> b then Some (mk_result MYIO_ERROR 0 EDEADLK None, u1) else f o' u1 t) = Some y"
          by (auto simp: Option.bind_eq_Some_conv)
        have "vinv u1 \<and> v_doomed k t u1" using v_doomed_step [OF e _ _ st] i by blast
        with n IH [of o' u1 t y] o show ?thesis by (cases b) auto
      qed
    qed
  qed
  with assms(2,3) show ?thesis by simp
qed

lemma v_cancel_dooms:
  assumes e: "v_env os" and g: "vgood {} {} Q u" and x: "v_th u t = Some x" "v_held x" "\<not> vt_done x" and o: "v_cancel os u t = (0, u')"
    and k: "vt_kind x \<in> {VTASK_FS, VTASK_SPAWN} \<or> vt_kind x = VTASK_CONNECT \<and> \<not> vt_connecting x"
  shows "v_doomed (vt_kind x) t u'"
proof -
  note c = v_cancel_good [OF e g x(1,2) o]
  from c(1) obtain Q' where g': "vgood {} {} Q' u'" by (auto simp: v_turn_def)
  have x': "v_th u' t = Some x" "t \<in> ul_cancel (vl u')" using c(5) [OF x(3) k] x(1) by simp_all
  have "v_want_req x \<in> {Some Rq_fs, Some Rq_work, Some Rq_gai}" using k x(3) by (auto simp: v_want_req_def)
  then have "v_asked t (vl u')" using vcore_task [OF vgood_core [OF g'] x'(1)] x'(2) by (auto simp: vtask_def v_asked_def)
  then show ?thesis by (rule v_doomedI [OF g' x'(1) x(2)])
qed

end
