(* ===== verification/Myio_Uv_Demo.thy ===== *)
theory Myio_Uv_Demo
  imports Myio_Uv_Cancel
begin

text \<open>
  A libuv that keeps its contract: a loop that closes what it can close first, then
  answers requests, fires timers and reports connections and the end of streams, one
  callback per turn. The sample states of the libuv backend run on it.
\<close>

subsection \<open>The environment\<close>

text \<open>The addresses of the requests and handles a trace speaks of.\<close>

fun uv_names1 :: "uv_call \<Rightarrow> answer \<Rightarrow> addr list" where
  "uv_names1 (Uv_run m) a = (case a_cb a of Some (Cb_timer t) \<Rightarrow> [t] | _ \<Rightarrow> [])"
| "uv_names1 (Uv_close (H_timer t)) a = [t]"
| "uv_names1 (Uv_close (H_tcp s)) a = [s]"
| "uv_names1 (Uv_fs_open t p f m) a = [t]"
| "uv_names1 (Uv_fs_close t fd) a = [t]"
| "uv_names1 (Uv_fs_read t fd b n off) a = [t]"
| "uv_names1 (Uv_fs_write t fd b off) a = [t]"
| "uv_names1 (Uv_timer_init t) a = [t]"
| "uv_names1 (Uv_timer_start t ms) a = [t]"
| "uv_names1 (Uv_timer_stop t) a = [t]"
| "uv_names1 (Uv_queue_work t) a = [t]"
| "uv_names1 (Uv_tcp_init s) a = [s]"
| "uv_names1 (Uv_getaddrinfo t h sv) a = [t]"
| "uv_names1 (Uv_tcp_connect t s d) a = [t]"
| "uv_names1 (Uv_write t s b) a = [t]"
| "uv_names1 _ a = []"

fun uv_names :: "event list \<Rightarrow> addr list" where
  "uv_names [] = []"
| "uv_names ((C_uv c, a) # tr) = remdups (uv_names1 c a @ uv_names tr)"
| "uv_names (_ # tr) = uv_names tr"

fun uv_reply :: "uv_loop \<Rightarrow> addr \<Rightarrow> uv_req \<Rightarrow> uv_cb" where
  "uv_reply l t Rq_fs = Cb_fs t (if t \<in> ul_cancel l then UV_ECANCELED else 0)"
| "uv_reply l t Rq_work = Cb_after_work t (if t \<in> ul_cancel l then UV_ECANCELED else 0)"
| "uv_reply l t Rq_gai = Cb_getaddrinfo t (if t \<in> ul_cancel l then UV_EAI_CANCELED else 0)"
| "uv_reply l t (Rq_connect s) = Cb_connect t (if tcp_is_open l s then 0 else UV_ECANCELED)"
| "uv_reply l t (Rq_write s) = Cb_write t 0"

definition uv_can_close :: "uv_loop \<Rightarrow> addr list \<Rightarrow> addr \<Rightarrow> bool" where
  "uv_can_close l ns s \<longleftrightarrow> ul_tcp l s = Some Tcp_closing \<and> list_all (\<lambda>t. ul_req l t \<noteq> Some (Rq_connect s) \<and> ul_req l t \<noteq> Some (Rq_write s)) ns"

definition timer_active :: "timer_state option \<Rightarrow> bool" where
  "timer_active st \<longleftrightarrow> st \<noteq> None \<and> st \<noteq> Some Timer_idle"

definition tcp_active :: "tcp_state option \<Rightarrow> bool" where
  "tcp_active st \<longleftrightarrow> (case st of Some (Tcp_open r l) \<Rightarrow> r \<or> l | _ \<Rightarrow> False)"

definition uv_next :: "uv_loop \<Rightarrow> addr list \<Rightarrow> uv_cb option" where
  "uv_next l ns =
     (case List.find (uv_can_close l ns) ns of
        Some s \<Rightarrow> Some (Cb_close (H_tcp s))
      | None \<Rightarrow>
     (case List.find (\<lambda>t. ul_req l t \<noteq> None) ns of
        Some t \<Rightarrow> Some (uv_reply l t (the (ul_req l t)))
      | None \<Rightarrow>
     (case List.find (\<lambda>t. timer_active (ul_timer l t)) ns of
        Some t \<Rightarrow> Some (if ul_timer l t = Some Timer_armed then Cb_timer t else Cb_close (H_timer t))
      | None \<Rightarrow>
     (case List.find (\<lambda>s. tcp_active (ul_tcp l s)) ns of
        Some s \<Rightarrow> Some (case ul_tcp l s of Some (Tcp_open True b) \<Rightarrow> Cb_read s UV_EOF | _ \<Rightarrow> Cb_connection s 0)
      | None \<Rightarrow> None))))"

text \<open>Whether the run that is under way has already delivered a callback.\<close>

fun uv_delivered :: "event list \<Rightarrow> bool" where
  "uv_delivered [] = False"
| "uv_delivered ((C_uv (Uv_run m), a) # tr) = (a_cb a \<noteq> None)"
| "uv_delivered (_ # tr) = uv_delivered tr"

definition uv_demo_addr :: addrinfo where
  "uv_demo_addr = \<lparr>ai_family = AF_INET, ai_socktype = SOCK_STREAM, ai_protocol = 0,
     ai_addr = \<lparr>ss_family = AF_INET, ss_port = htons 80, ss_addr = ''127.0.0.1''\<rparr>\<rparr>"

definition uv_closing :: "uv_loop \<Rightarrow> uv_handle \<Rightarrow> bool" where
  "uv_closing l h = (case h of H_timer t \<Rightarrow> ul_timer l t = Some Timer_closing | H_tcp s \<Rightarrow> ul_tcp l s = Some Tcp_closing)"

definition uv_demo_os :: os where
  "uv_demo_os tr c = (case c of
     C_alloc \<Rightarrow> answer0\<lparr>a_ret := if int (v_allocs tr) < 2 ^ 32 - 1 then 1 else 0\<rparr>
   | C_uv (Uv_run m) \<Rightarrow>
       (case uv_next (uv_state tr) (uv_names tr) of
          None \<Rightarrow> answer0
        | Some cb \<Rightarrow> if m = UV_RUN_ONCE \<and> uv_delivered tr then answer0\<lparr>a_ret := 1\<rparr>
            else answer0\<lparr>a_cb := Some cb, a_addrs := [uv_demo_addr]\<rparr>)
   | C_uv (Uv_is_closing h) \<Rightarrow> answer0\<lparr>a_ret := if uv_closing (uv_state tr) h then 1 else 0\<rparr>
   | C_uv Uv_walk \<Rightarrow> answer0\<lparr>a_handles :=
       map H_timer (filter (\<lambda>t. ul_timer (uv_state tr) t \<noteq> None) (uv_names tr)) @
       map H_tcp (filter (\<lambda>s. ul_tcp (uv_state tr) s \<noteq> None) (uv_names tr))\<rparr>
   | _ \<Rightarrow> answer0)"

lemma uv_names_distinct: "distinct (uv_names tr)"
  by (induction tr rule: uv_names.induct) auto

lemma uv_effect_names:
  assumes "\<And>t. ul_req l t \<noteq> None \<or> ul_timer l t \<noteq> None \<or> ul_tcp l t \<noteq> None \<Longrightarrow> t \<in> N"
    and "ul_req (uv_effect c a l) t \<noteq> None \<or> ul_timer (uv_effect c a l) t \<noteq> None \<or> ul_tcp (uv_effect c a l) t \<noteq> None"
  shows "t \<in> set (uv_names1 c a) \<union> N"
proof -
  have d: "ul_req (uv_deliver cb l) t \<noteq> None \<or> ul_timer (uv_deliver cb l) t \<noteq> None \<or> ul_tcp (uv_deliver cb l) t \<noteq> None \<Longrightarrow>
    cb = Cb_timer t \<or> t \<in> N" for cb
    using assms(1) [of t] by (cases "(cb, l)" rule: uv_deliver.cases) (auto simp: uv_finish_def split: if_splits)
  show ?thesis
  proof (cases "\<exists>m. c = Uv_run m")
    case True
    show ?thesis
    proof (cases "a_cb a")
      case None
      with True assms show ?thesis by auto
    next
      case (Some cb)
      with True assms(2) have "cb = Cb_timer t \<or> t \<in> N" by (intro d) auto
      with True Some show ?thesis by auto
    qed
  next
    case False
    with assms show ?thesis
      by (cases "(c, a, l)" rule: uv_effect.cases)
        (auto simp: uv_start_def tcp_listening_def tcp_reading_def split: if_splits option.splits tcp_state.splits)
  qed
qed

lemma uv_names_all:
  "ul_req (uv_state tr) t \<noteq> None \<or> ul_timer (uv_state tr) t \<noteq> None \<or> ul_tcp (uv_state tr) t \<noteq> None \<Longrightarrow> t \<in> set (uv_names tr)"
proof (induction tr arbitrary: t rule: uv_names.induct)
  case (2 c a tr)
  from uv_effect_names [of "uv_state tr" "set (uv_names tr)" c a t] 2 show ?case by auto
qed (auto simp: uv_loop0_def)

lemma uv_next_may:
  assumes n: "\<And>t. ul_req l t \<noteq> None \<Longrightarrow> t \<in> set ns" and s: "uv_next l ns = Some cb"
  shows "uv_may l cb"
proof -
  have fd: "List.find P ns = Some x \<Longrightarrow> P x" for P x by (auto simp: find_Some_iff)
  show ?thesis
  proof (cases "List.find (uv_can_close l ns) ns")
    case (Some q)
    from fd [OF this] n have "uv_may l (Cb_close (H_tcp q))" by (fastforce simp: uv_can_close_def list_all_iff)
    with s Some show ?thesis by (simp add: uv_next_def)
  next
    case c: None
    show ?thesis
    proof (cases "List.find (\<lambda>t. ul_req l t \<noteq> None) ns")
      case (Some t)
      from fd [OF this] obtain r where r: "ul_req l t = Some r" by blast
      then have "uv_may l (uv_reply l t r)" by (cases r) (auto simp: UV_ECANCELED_def)
      with s c Some r show ?thesis by (simp add: uv_next_def)
    next
      case r: None
      show ?thesis
      proof (cases "List.find (\<lambda>t. timer_active (ul_timer l t)) ns")
        case (Some t)
        from fd [OF this] obtain st where st: "ul_timer l t = Some st" "st \<noteq> Timer_idle" by (auto simp: timer_active_def)
        with s c r Some show ?thesis by (cases st) (auto simp: uv_next_def)
      next
        case t: None
        from s c r t obtain q where q: "List.find (\<lambda>s. tcp_active (ul_tcp l s)) ns = Some q"
          by (auto simp: uv_next_def split: option.splits)
        from fd [OF q] obtain a b where "ul_tcp l q = Some (Tcp_open a b)" "a \<or> b"
          by (auto simp: tcp_active_def split: option.splits tcp_state.splits)
        with s c r t q show ?thesis by (cases a) (auto simp: uv_next_def)
      qed
    qed
  qed
qed

lemma uv_next_quiet:
  assumes n: "\<And>t. ul_req l t \<noteq> None \<or> ul_timer l t \<noteq> None \<or> ul_tcp l t \<noteq> None \<Longrightarrow> t \<in> set ns" and s: "uv_next l ns = None"
  shows "uv_quiet l"
proof -
  from s have f: "\<forall>s\<in>set ns. \<not> uv_can_close l ns s" "\<forall>t\<in>set ns. ul_req l t = None" "\<forall>t\<in>set ns. \<not> timer_active (ul_timer l t)"
    "\<forall>s\<in>set ns. \<not> tcp_active (ul_tcp l s)"
    by (auto simp: uv_next_def find_None_iff split: option.splits)
  have r: "ul_req l t = None" for t using f(2) n [of t] by (cases "ul_req l t") auto
  have "ul_timer l t \<in> {None, Some Timer_idle}" for t using f(3) n [of t] by (cases "ul_timer l t") (auto simp: timer_active_def)
  moreover have "ul_tcp l s \<in> {None, Some (Tcp_open False False)}" for s
  proof (cases "ul_tcp l s")
    case (Some st)
    then have m: "s \<in> set ns" using n [of s] by simp
    show ?thesis
    proof (cases st)
      case Tcp_closing
      with Some r have "uv_can_close l ns s" by (simp add: uv_can_close_def list_all_iff)
      with f(1) m show ?thesis by blast
    next
      case (Tcp_open a b)
      with f(4) m Some show ?thesis by (auto simp: tcp_active_def)
    qed
  qed simp
  ultimately show ?thesis using r by (auto simp: uv_quiet_def fun_eq_iff)
qed

lemma uv_demo_env: "v_env uv_demo_os"
proof -
  have "uv_ok uv_demo_os"
    unfolding uv_ok_def
  proof (intro allI impI conjI)
    fix tr m cb
    assume a: "a_cb (uv_demo_os tr (C_uv (Uv_run m))) = Some cb"
    then have "uv_next (uv_state tr) (uv_names tr) = Some cb"
      by (auto simp: uv_demo_os_def answer0_def split: option.splits if_splits)
    from uv_next_may [OF _ this] uv_names_all [of tr] show "uv_may (uv_state tr) cb" by blast
    show "a_addrs (uv_demo_os tr (C_uv (Uv_run m))) \<noteq> []"
      using a by (auto simp: uv_demo_os_def answer0_def split: option.splits if_splits)
  next
    fix tr m
    assume a: "a_cb (uv_demo_os tr (C_uv (Uv_run m))) = None" "m = UV_RUN_DEFAULT \<or> a_ret (uv_demo_os tr (C_uv (Uv_run m))) = 0"
    then have "uv_next (uv_state tr) (uv_names tr) = None"
      by (auto simp: uv_demo_os_def answer0_def split: option.splits if_splits)
    from uv_next_quiet [OF _ this] uv_names_all [of tr] show "uv_quiet (uv_state tr)" by blast
  next
    fix tr t st
    assume "ul_timer (uv_state tr) t = Some st"
    then show "(a_ret (uv_demo_os tr (C_uv (Uv_is_closing (H_timer t)))) \<noteq> 0) = (st = Timer_closing)"
      by (simp add: uv_demo_os_def uv_closing_def answer0_def)
  next
    fix tr s st
    assume "ul_tcp (uv_state tr) s = Some st"
    then show "(a_ret (uv_demo_os tr (C_uv (Uv_is_closing (H_tcp s)))) \<noteq> 0) = (st = Tcp_closing)"
      by (simp add: uv_demo_os_def uv_closing_def answer0_def)
  next
    fix tr
    show "distinct (a_handles (uv_demo_os tr (C_uv Uv_walk)))"
      using uv_names_distinct [of tr] by (auto simp: uv_demo_os_def distinct_map inj_on_def)
    show "set (a_handles (uv_demo_os tr (C_uv Uv_walk))) = H_timer ` dom (ul_timer (uv_state tr)) \<union> H_tcp ` dom (ul_tcp (uv_state tr))"
      using uv_names_all [of tr] by (auto simp: uv_demo_os_def dom_def)
  qed
  moreover have "a_ret (uv_demo_os tr C_alloc) = 0" if "v_allocs tr \<ge> 2 ^ 32 - 1" for tr
    using that by (simp add: uv_demo_os_def answer0_def)
  ultimately show ?thesis by (auto simp: v_env_def)
qed

subsection \<open>Sample states\<close>

definition uv_mach0 :: mach where
  "uv_mach0 = \<lparr>m_trace = [], m_brk = 10, m_fault = False\<rparr>"

text \<open>A new instance (its own block is address 10).\<close>

definition uv0 :: uv_io where
  "uv0 = the (fst (myio_uv_new uv_demo_os uv_mach0))"

lemma uv0_new: "myio_uv_new uv_demo_os uv_mach0 = (Some uv0, snd (myio_uv_new uv_demo_os uv_mach0))"
  by (simp add: uv0_def myio_uv_new_def sys_alloc_def sys_call_def uv_demo_os_def answer0_def uv_mach0_def Let_def)

lemma uv0_inv: "vinv uv0" "v_listens uv0"
  by (rule vinv_init [OF _ _ uv0_new]; simp add: uv_mach0_def)+

subsection \<open>Sample programs\<close>

text \<open>
  Programs that check the caller's rules as they run. What a program may use is decided
  by looking at every address below the allocation mark.
\<close>

declare v_run.simps [code] v_free_wait.simps [code] myio_await.simps [code]

definition v_handle_ok :: "uv_io \<Rightarrow> addr \<Rightarrow> bool" where
  "v_handle_ok u t = (case v_th u t of None \<Rightarrow> False | Some x \<Rightarrow> v_held x)"

definition v_no_connect :: "uv_io \<Rightarrow> addr \<Rightarrow> addr \<Rightarrow> bool" where
  "v_no_connect u s t = (case v_th u t of None \<Rightarrow> True | Some x \<Rightarrow> vt_kind x \<noteq> VTASK_CONNECT \<or> vt_done x \<or> vt_sock x \<noteq> Some s)"

definition v_not_queued :: "uv_io \<Rightarrow> addr \<Rightarrow> addr \<Rightarrow> bool" where
  "v_not_queued u s r = (v_pnode u r \<noteq> Some s \<and> (case v_sh u r of None \<Rightarrow> True | Some y \<Rightarrow> wq_head (vs_pending y) \<noteq> Some s))"

definition v_sock_ok :: "uv_io \<Rightarrow> addr \<Rightarrow> bool" where
  "v_sock_ok u s = (\<not> Option.is_none (v_sh u s) \<and> tcp_is_open (vl u) s \<and> list_all (\<lambda>r. v_no_connect u s r \<and> v_not_queued u s r) [0..<m_brk u])"

fun v_call_ok :: "uv_io \<Rightarrow> ucall \<Rightarrow> bool" where
  "v_call_ok u (U_tcp_accept k) = v_sock_ok u k"
| "v_call_ok u (U_sock_read k b n) = v_sock_ok u k"
| "v_call_ok u (U_sock_write k b) = v_sock_ok u k"
| "v_call_ok u (U_sock_close k) = v_sock_ok u k"
| "v_call_ok u (U_sock_port k) = v_sock_ok u k"
| "v_call_ok u (U_cancel t) = v_handle_ok u t"
| "v_call_ok u (U_task_free t) = v_handle_ok u t"
| "v_call_ok u (U_task_detach t) = (v_handle_ok u t \<and> res_ptr (vt_res (vt u t)) = None)"
| "v_call_ok u _ = True"

fun v_exec :: "os \<Rightarrow> uv_io \<Rightarrow> ucall list \<Rightarrow> uv_io option" where
  "v_exec os u [] = Some u"
| "v_exec os u (c # cs) = (if v_call_ok u c then Option.bind (exec_ucall (uv_ops os) u c) (\<lambda>u. v_exec os u cs) else None)"

lemma wpath_mem: "wpath nx p xs q \<Longrightarrow> k \<in> set xs \<Longrightarrow> p = Some k \<or> (\<exists>r \<in> set xs. nx r = Some k)"
  by (induction xs arbitrary: p) auto

lemma v_handle_ok_handles: "v_handle_ok u t \<Longrightarrow> t \<in> v_handles u"
  by (auto simp: v_handle_ok_def v_handles_def split: option.splits)

lemma v_sock_ok_socks:
  assumes "vinv u" and "v_sock_ok u s"
  shows "s \<in> v_socks u"
proof -
  from assms(1) obtain Q where g: "vgood {} {} Q u" by (auto simp: vinv_def)
  note c = vgood_core [OF g]
  have nq: "v_not_queued u s r \<and> v_no_connect u s r" if "r < m_brk u" for r using assms(2) that by (simp add: v_sock_ok_def list_all_iff)
  have "\<not> v_parked u s"
  proof
    assume "v_parked u s"
    then obtain r where r: "s \<in> set (Q r)" using v_parked_queue [OF g] by blast
    obtain y where y: "v_sh u r = Some y" "tcp_is_open (vl u) r"
      using vcore_park [OF c r] vcore_no_sock [OF c, of r] by (cases "v_sh u r") (auto simp: tcp_is_open_def)
    have b: "k < m_brk u" if "v_sh u k = Some z" for k z using vcore_sock [OF c that] by (simp add: vsock_def)
    from vgood_queue [OF g y] r have "wq_head (vs_pending y) = Some s \<or> (\<exists>k \<in> set (Q r). v_pnode u k = Some s)"
      by (auto simp: wq_list_def dest: wpath_mem)
    then show False
    proof
      assume "wq_head (vs_pending y) = Some s"
      with nq [OF b [OF y(1)]] y(1) show False by (simp add: v_not_queued_def)
    next
      assume "\<exists>k \<in> set (Q r). v_pnode u k = Some s"
      then obtain k where k: "k \<in> set (Q r)" "v_pnode u k = Some s" ..
      from vcore_park [OF c k(1)] obtain z where "v_sh u k = Some z" by blast
      with nq [OF b] k(2) show False by (simp add: v_not_queued_def)
    qed
  qed
  moreover have "vt_sock x \<noteq> Some s" if "v_th u t = Some x" "vt_kind x = VTASK_CONNECT" "\<not> vt_done x" for t x
    using nq [of t] vcore_task [OF c that(1)] that by (simp add: v_no_connect_def vtask_def)
  ultimately show ?thesis using assms(2) by (auto simp: v_socks_def v_sock_ok_def Option.is_none_def)
qed

lemma v_call_ok_ucall:
  assumes "vinv u" and "v_call_ok u c"
  shows "ucall_ok v_handles v_droppable v_socks u c"
  using assms v_sock_ok_socks [OF assms(1)]
  by (cases c) (auto simp: v_handle_ok_handles v_droppable_def v_handle_ok_def split: option.splits)

lemma v_exec_runs:
  "v_env os \<Longrightarrow> vinv u \<Longrightarrow> v_exec os u cs = Some u' \<Longrightarrow>
    user_runs (uv_ops os) (ucall_ok v_handles v_droppable v_socks) u cs u' \<and> vinv u'"
proof (induction cs arbitrary: u)
  case (Cons c cs)
  from Cons.prems(3) obtain u1 where ok: "v_call_ok u c" and ex: "exec_ucall (uv_ops os) u c = Some u1" "v_exec os u1 cs = Some u'"
    by (auto simp: Option.bind_eq_Some_conv split: if_splits)
  note uc = v_call_ok_ucall [OF Cons.prems(2) ok]
  have "vinv u1" using uv_safe.exec_invar [OF _ uc ex(1)] Cons.prems(1,2) by blast
  from Cons.IH [OF Cons.prems(1) this ex(2)] uc ex(1) show ?case by (auto intro: runs_cons)
qed (auto intro: runs_nil)

definition uv_after :: "ucall list \<Rightarrow> uv_io" where
  "uv_after cs = the (v_exec uv_demo_os uv0 cs)"

lemma uv_after_runs:
  assumes "\<not> Option.is_none (v_exec uv_demo_os uv0 cs)"
  shows "user_runs (uv_ops uv_demo_os) (ucall_ok v_handles v_droppable v_socks) uv0 cs (uv_after cs)" "vinv (uv_after cs)"
  using v_exec_runs [OF uv_demo_env uv0_inv(1), of cs "uv_after cs"] assms by (auto simp: uv_after_def Option.is_none_def)

text \<open>Two connections parked at the listener 11; a sleep, a file operation and a resolving connect.\<close>

definition uv_listen_prog :: "ucall list" where
  "uv_listen_prog = [U_tcp_listen ''0.0.0.0'' 80 8, U_step, U_step]"

definition uv_busy_prog :: "ucall list" where
  "uv_busy_prog = [U_sleep 5, U_close 7, U_tcp_connect ''h'' 80]"

lemma uv_progs: "\<not> Option.is_none (v_exec uv_demo_os uv0 uv_listen_prog)" "\<not> Option.is_none (v_exec uv_demo_os uv0 uv_busy_prog)"
  by code_simp+

definition uv_parked :: uv_io where "uv_parked = uv_after uv_listen_prog"
definition uv_busy :: uv_io where "uv_busy = uv_after uv_busy_prog"

lemma uv_parked_inv: "vinv uv_parked" and uv_busy_inv: "vinv uv_busy"
  unfolding uv_parked_def uv_busy_def by (rule uv_after_runs [OF uv_progs(1)], rule uv_after_runs [OF uv_progs(2)])

end
