(* ===== verification/Spec2Isabelle.thy ===== *)
theory Spec2Isabelle
  imports Myio_Demo Myio_Uring_Destroy Myio_Pool_Destroy Myio_Pool_Demo Myio_Zephyr_Demo Myio_Uv_Demo
begin

text \<open>
  A verification development for myio, a C library that offers one interface for
  asynchronous and blocking I/O (\<^verbatim>\<open>src/include/myio.h\<close>) over several backends.

  \<^bold>\<open>The program.\<close> A program holds an instance with a vtable, submits operations (files,
  timers, functions, TCP) and gets task handles; \<open>myio_await\<close>, \<open>myio_select\<close> and their
  relatives are written once in the header over the primitives \<open>step\<close>, \<open>task_done\<close>,
  \<open>task_result\<close>, \<open>cancel\<close>, \<open>task_free\<close>, \<open>task_detach\<close>. The backends under \<^verbatim>\<open>src/src\<close> implement
  the vtable: \<^verbatim>\<open>myio_sync.c\<close> (every submit blocks), \<^verbatim>\<open>myio_uring.c\<close> (one ring, completions
  are drained by \<open>step\<close>), \<^verbatim>\<open>myio_pool.c\<close> (worker threads), \<^verbatim>\<open>myio_zephyr.c\<close> (a loop of its own
  over \<^verbatim>\<open>zsock_poll\<close>, fixed slabs for tasks and sockets, functions on a work queue), \<^verbatim>\<open>myio_uv.c\<close> (requests and handles of a libuv loop, completed
  from its callbacks); they share the helpers of
  \<^verbatim>\<open>myio_common.h\<close> and the intrusive write FIFO of \<^verbatim>\<open>myio_wq.h\<close>.

  \<^bold>\<open>The theories.\<close>
  \<^item> \<open>Myio_Prelude\<close>: addresses, the C conversion to \<^verbatim>\<open>int\<close>, error numbers, shared lemmas.
  \<^item> \<open>Myio_Os\<close>: everything outside the sources. A system call, an allocation, a request to
    liburing, a user function is a \<open>call\<close>; the environment \<open>os\<close> answers it from the whole
    history of calls. The machine state \<open>mach\<close> holds that history (newest first), the
    allocation mark and a fault flag that records undefined behaviour.
  \<^item> \<open>Myio_Wq\<close>, \<open>Myio_Dlist\<close>: \<^verbatim>\<open>myio_wq.h\<close> and the doubly linked registries at pointer level,
    refined to lists; contracts \<open>fifo\<close> and \<open>registry\<close>, interpreted on the code's operations.
  \<^item> \<open>Myio_Api\<close>: \<^verbatim>\<open>myio.h\<close>, results, vtable and inline functions. What the header demands of
    a backend is the locale \<open>backend\<close>, extended by \<open>live_backend\<close> (\<open>step\<close> answers 0 only when
    nothing is pending) and \<open>progress_backend\<close>; \<open>safe_backend\<close> is memory safety under the
    caller's rules \<open>ucall_ok\<close>.
  \<^item> \<open>Myio_Common\<close>: \<^verbatim>\<open>myio_common.h\<close>.
  \<^item> \<open>Myio_Sync\<close>: \<^verbatim>\<open>myio_sync.c\<close> with its invariant and interpretations.
  \<^item> \<open>Myio_Uring\<close>: \<^verbatim>\<open>myio_uring.c\<close>, function by function. \<open>Myio_Uring_Core\<close> states the
    representation invariant on tasks, sockets, write queues and the requests in the
    ring, and what each elementary action does to it; \<open>Myio_Uring_Inv\<close> and
    \<open>Myio_Uring_Ops\<close> lift this to every operation and interpret the interface;
    \<open>Myio_Uring_Destroy\<close> is teardown.
  \<^item> \<open>Myio_Pool\<close>: \<^verbatim>\<open>myio_pool.c\<close> as a state machine, a critical section being one transition;
    the program counters of the workers and of the user thread are part of the state, and
    \<open>pool_reach\<close> are the states any interleaving reaches. \<open>Myio_Pool_Core\<close> and
    \<open>Myio_Pool_Inv\<close> state the invariant (where every pending task is: queued, parked in a
    FIFO, or with one worker; exact counters; why each sleeper will be woken) and what the
    elementary actions do to it, \<open>Myio_Pool_User\<close> and \<open>Myio_Pool_Calls\<close> treat the user
    thread's calls, \<open>Myio_Pool_Run\<close> the workers, \<open>Myio_Pool_Reach\<close> puts them together,
    \<open>Myio_Pool_Destroy\<close> says which descriptors teardown closes; \<open>Myio_Pool_Demo\<close> is a sample run.
  \<^item> \<open>Myio_Slist\<close>: the singly linked registries (\<^verbatim>\<open>sys_slist_t\<close>), refined to lists.
  \<^item> \<open>Myio_Zephyr\<close>: \<^verbatim>\<open>myio_zephyr.c\<close>, function by function. \<open>Myio_Zephyr_Core\<close> states the
    invariant (the pending list holds exactly the unfinished tasks, a socket's slots and
    FIFO hold exactly its pending operations, the slabs are never overdrawn) and what
    the elementary actions do to it, \<open>Myio_Zephyr_Inv\<close> and \<open>Myio_Zephyr_Ops\<close> lift it to the
    submits and the close, \<open>Myio_Zephyr_Run\<close> to the loop, cancellation and the lifetime of
    tasks and instance, and interprets the interface; \<open>Myio_Zephyr_Facts\<close> says what a
    turn of the loop does exactly: the poll set, the timers, the sends;
    \<open>Myio_Zephyr_Demo\<close> holds a sample environment and sample states.
  \<^item> \<open>Myio_Libuv\<close>: what libuv documents, as a contract over the history of calls and callbacks:
    the state of each request and handle, which calls are allowed (\<open>uv_call_ok\<close>), which
    callbacks may come (\<open>uv_may\<close>). \<open>Myio_Uv\<close>: \<^verbatim>\<open>myio_uv.c\<close>, function by function, a callback
    being an answer to \<^verbatim>\<open>uv_run\<close>. \<open>Myio_Uv_Core\<close> and \<open>Myio_Uv_Inv\<close> state the invariant (each task
    and socket against the request or handle libuv holds for it, the slots, the queues of
    parked connections), \<open>Myio_Uv_Events\<close> treats the callbacks, \<open>Myio_Uv_Run\<close> the loop,
    \<open>Myio_Uv_Submit\<close> and \<open>Myio_Uv_Ops\<close> the operations and the interface, \<open>Myio_Uv_Destroy\<close>
    teardown, \<open>Myio_Uv_Cancel\<close> the outcome of an accepted cancellation; \<open>Myio_Uv_Demo\<close> holds
    a libuv that keeps the contract and sample programs.
  \<^item> \<open>Myio_Demo\<close>: a concrete environment and sample states on which the witnesses run.

  \<^bold>\<open>The caller's rules.\<close> The safety theorems are about programs that keep to \<open>ucall_ok\<close>: a
  call names task handles the program has neither freed nor detached and sockets it owns
  and has not closed. One rule goes beyond what \<^verbatim>\<open>myio.h\<close> states: detaching a completed
  connect or accept closes and frees the socket it won, so the program may do that only
  while this socket is not closed and, except on the libuv and the blocking backend, has no
  operation outstanding (\<open>uring_droppable\<close>, \<open>pool_droppable\<close>, \<open>z_droppable\<close>, \<open>v_droppable\<close>,
  \<open>sync_droppable\<close>). \<open>uring_detach_used\<close> shows what happens otherwise.

  \<^bold>\<open>Conventions.\<close> A handle is the address of its object, a null pointer is \<open>None\<close>. A
  dereference of a dead or null object and a double free set the fault flag, and so does a
  count of requests or of queued tasks taken below zero. The pool's counters \<open>p_idle\<close> and \<open>ps_inflight\<close> are plain
  integers, proved to be exact. Addresses are never handed out twice, so every use of a
  freed object is seen; effects of reused addresses are not. The block of an instance
  itself is not tracked. Signed 64-bit sums of the Zephyr backend wrap, where C leaves their
  overflow undefined. A buffer to write is a list of bytes, so a null one with a positive length
  cannot be expressed.
  A C loop over a list that could be cyclic, or a wait that could be endless, is an
  option-valued recursion (\<open>None\<close>: does not return) or runs on fuel; fuel is \<open>m_brk\<close>, the
  number of addresses ever allocated, which bounds every list of distinct objects, and
  running out of it is a fault, so a theorem that no fault occurs says that the fuel was
  enough. One drain of the ring sees at most the 512 entries of its completion queue.

  \<^bold>\<open>Environment hypotheses.\<close> \<open>ring_ok\<close>: a completion belongs to an outstanding request.
  \<open>gai_ok\<close>: a successful resolution yields an address. \<open>send_advances\<close>: a send takes a byte
  or fails for good. All hold in \<open>Myio_Demo\<close>. \<open>workq_ok\<close>: a work queue runs only items that
  were submitted and not cancelled. \<open>send_errors\<close>: a failing send sets a positive error
  number. Both hold in \<open>Myio_Zephyr_Demo\<close>. \<open>v_env\<close>: libuv keeps its contract \<open>uv_ok\<close> as long as it
  is called as documented, and fewer than 2^32 - 1 allocations succeed (the counter of
  completions is an \<^verbatim>\<open>unsigned\<close>); it holds in \<open>Myio_Uv_Demo\<close>.

  \<^bold>\<open>Not modelled.\<close> The libxev backend (Zig) and the Zephyr backend over work queues
  (\<^verbatim>\<open>myio_zephyr_pool.c\<close>); signal masks; the contents of
  buffers that a read fills; time (a clock reading is an answer of the environment); the
  moment between the push and the eventfd write of \<^verbatim>\<open>spawn_work_handler\<close>, one step here.
\<close>


section \<open>The thread pool\<close>

lemma reach_parts:
  assumes "gai_ok os" and "pool_reach os p" and "p_user p \<noteq> U_gone"
  obtains Q where "pmid {} {} Q p" "psd Q p" "pdrain p" "user_inv p (p_user p)"
  using pinv_open [OF pool_reach_pinv [OF assms(2,1)] assms(3)] by blast

text \<open>
  C7: Memory safety of the thread pool. Take any interleaving of the user thread and the
  workers, with wakeups and timeouts at any moment and any answers of the system calls, in
  which the calls of the user thread follow the caller's rule \<open>pcall_ok\<close>: they name task
  handles that were neither freed nor detached and sockets that were not closed, and a
  completed connect or accept is detached only while the socket it won is live, not being
  closed and without an operation in flight (\<open>pool_droppable\<close>; destroy needs nothing). In
  every state reached, no task or socket was used after it was freed or freed twice, no list walk failed to
  end, and until the instance is gone the counters of idle workers and of the operations of
  each socket are not below zero.
\<close>

theorem pool_safe:
  assumes "gai_ok os" and "pool_reach os p"
  shows "\<not> m_fault p \<and> (p_user p \<noteq> U_gone \<longrightarrow> 0 \<le> p_idle p \<and> (\<forall>s y. p_sh p s = Some y \<longrightarrow> 0 \<le> ps_inflight y))"
proof (intro conjI impI)
  show "\<not> m_fault p"
    using pool_reach_pinv [OF assms(2,1)] pmid_parts(1) by (auto simp: pinv_def pend_def split: if_splits)
next
  assume "p_user p \<noteq> U_gone"
  then obtain Q where m: "pmid {} {} Q p" by (rule reach_parts [OF assms])
  show "0 \<le> p_idle p" using pmid_parts(9) [OF m] by (simp add: pthr_def)
  show "\<forall>s y. p_sh p s = Some y \<longrightarrow> 0 \<le> ps_inflight y"
    using locs_parts(5) [OF pmid_parts(4) [OF m]] by (simp add: infl_inv_def)
qed

theorem pool_safe_witness:
  "\<not> m_fault pool_over \<and> \<not> m_fault pool_taken \<and> 0 \<le> p_idle pool_taken \<and> (\<exists>y. p_sh pool_taken 2 = Some y \<and> 0 \<le> ps_inflight y)"
proof -
  have u: "p_user pool_taken \<noteq> U_gone" and y: "\<exists>y. p_sh pool_taken 2 = Some y" by (subst pool_taken_eq, simp)+
  from pool_safe [OF demo_gai_ok pool_taken_reach] u y pool_safe [OF demo_gai_ok pool_over_reach] show ?thesis by blast
qed

text \<open>
  C8: No lost wakeup and no deadlock. Whenever the user thread is asleep in step, in
  task_free or in destroy, some worker is not asleep: it has a transition to make. This
  holds although a signal is lost when nobody waits, and although a close worker waits
  for the operations of its socket.
\<close>

theorem pool_no_deadlock:
  assumes "gai_ok os" and "pool_reach os p"
    and "p_user p = U_stepping True \<or> p_user p = U_freeing t True \<or> p_user p = U_destroying True"
  shows "\<exists>w p'. worker_step os p w = Some p'"
proof -
  have "p_user p \<noteq> U_gone" using assms(3) by auto
  then obtain Q where m: "pmid {} {} Q p" "psd Q p" "pdrain p" "user_inv p (p_user p)" by (rule reach_parts [OF assms(1,2)])
  have "0 < p_nrunning p" if "t \<in> held p"
  proof -
    have "0 < wcount w_busy p" using that by (auto simp: wcount_pos held_def w_busy_def)
    then show ?thesis using pmid_parts(9) [OF m(1)] by (simp add: pthr_def)
  qed
  with m(4) assms(3) show ?thesis by (intro pool_progress [OF m(1-3)]) (auto split: if_splits)
qed

theorem pool_no_deadlock_witness:
  "pool_reach demo_os pool_asleep \<and> p_user pool_asleep = U_stepping True \<and> (\<exists>w p'. worker_step demo_os pool_asleep w = Some p')"
proof -
  have u: "p_user pool_asleep = U_stepping True" by (simp add: pool_asleep_eq)
  from pool_no_deadlock [where t = 0, OF demo_gai_ok pool_asleep_reach disjI1 [OF u]] u pool_asleep_reach show ?thesis by blast
qed

text \<open>
  C9: No stranded work. At every moment there are at least as many workers on their way
  to the queue (just started, just woken, or between two tasks) as there are tasks in it.
\<close>

theorem pool_no_stranded_work:
  assumes "gai_ok os" and "pool_reach os p" and "p_user p \<noteq> U_gone"
  shows "p_nqueued p \<le> card {w. w < p_nw p \<and> (p_w p w = W_top \<or> (\<exists>b. p_w p w = W_woken b))}"
proof -
  obtain Q where m: "pmid {} {} Q p" by (rule reach_parts [OF assms])
  have "w_looking pc \<longleftrightarrow> pc = W_top \<or> (\<exists>b. pc = W_woken b)" for pc by (cases pc) auto
  with pmid_parts(9) [OF m] show ?thesis by (simp add: pthr_def wcount_def)
qed

theorem pool_no_stranded_work_witness:
  "p_nqueued pool_write2 = 1 \<and>
   p_nqueued pool_write2 \<le> card {w. w < p_nw pool_write2 \<and> (p_w pool_write2 w = W_top \<or> (\<exists>b. p_w pool_write2 w = W_woken b))}"
proof -
  have "p_nqueued pool_write2 = 1" "p_user pool_write2 \<noteq> U_gone" by (subst pool_write2_eq, simp)+
  with pool_no_stranded_work [OF demo_gai_ok pool_write2_reach] show ?thesis by blast
qed

text \<open>
  C10: Writes of a socket stay in order. The FIFO of a live socket holds exactly its
  pending writes, in the order of submission; a write that a worker has is its head, so
  no two workers send on one socket.
\<close>

theorem pool_write_order:
  assumes "gai_ok os" and "pool_reach os p" and "p_user p \<noteq> U_gone" and "p_sh p s = Some y"
  shows "\<exists>xs. wq_list (p_wnext p) (ps_wq y) xs \<and>
      set xs = {t. \<exists>x. p_th p t = Some x \<and> \<not> pt_done x \<and> pt_kind x = OP_SOCK_WRITE \<and> pt_sock x = Some s} \<and>
      (\<forall>t. t \<in> set xs \<and> pt_started (pt p t) \<longrightarrow> wq_head (ps_wq y) = Some t)"
proof -
  obtain Q where m: "pmid {} {} Q p" by (rule reach_parts [OF assms(1-3)])
  note p = pmid_parts [OF m] and l = locs_parts [OF pmid_parts(4) [OF m]]
  obtain xs where xs: "wq_list (p_wnext p) (ps_wq y) xs" "set xs = writes_on (pview {} (p_th p)) s"
    using fifo_list [OF l(4) assms(4)] by blast
  have "wq_head (ps_wq y) = Some t" if t: "t \<in> set xs" "pt_started (pt p t)" for t
  proof -
    have v: "pview {} (p_th p) t = Some (OP_SOCK_WRITE, Some s)" using xs(2) t(1) by (auto simp: writes_on_def)
    then obtain x where x: "p_th p t = Some x" "\<not> pt_done x" by (auto simp: pview_Some)
    have "t \<in> held p" using ptskD [OF p(3) x(1)] x t(2) by (simp add: ptask_def live_access)
    with l(2) v assms(4) show ?thesis unfolding disp_inv_def by fastforce
  qed
  moreover have "writes_on (pview {} (p_th p)) s =
      {t. \<exists>x. p_th p t = Some x \<and> \<not> pt_done x \<and> pt_kind x = OP_SOCK_WRITE \<and> pt_sock x = Some s}"
    by (auto simp: writes_on_def pview_Some)
  ultimately show ?thesis using xs by blast
qed

theorem pool_write_order_witness:
  "\<exists>y xs. p_sh pool_taken 2 = Some y \<and> wq_list (p_wnext pool_taken) (ps_wq y) xs \<and> set xs = {3, 4} \<and> wq_head (ps_wq y) = Some 3"
proof -
  have y: "p_sh pool_taken 2 = Some ((pool_sock0 demo_fd)\<lparr>ps_inflight := 2, ps_wq := \<lparr>wq_head = Some 3, wq_tail = Some 4\<rparr>\<rparr>)"
    and u: "p_user pool_taken \<noteq> U_gone" by (subst pool_taken_eq, simp)+
  have s: "{t. \<exists>x. p_th pool_taken t = Some x \<and> \<not> pt_done x \<and> pt_kind x = OP_SOCK_WRITE \<and> pt_sock x = Some 2} = {3, 4}"
    by (subst pool_taken_eq) (auto simp: demo_write_def pool_task0_def split: if_splits)
  from pool_write_order [OF demo_gai_ok pool_taken_reach u y] y s show ?thesis by auto
qed

text \<open>
  C14: The in-flight count of a socket is exact: the number of its pending reads, writes and
  accepts. A close therefore waits for precisely those.
\<close>

theorem pool_inflight_exact:
  assumes "gai_ok os" and "pool_reach os p" and "p_user p \<noteq> U_gone" and "p_sh p s = Some y"
  shows "ps_inflight y = int (card {t. \<exists>x. p_th p t = Some x \<and> \<not> pt_done x \<and> pt_sock x = Some s \<and> op_on_sock (pt_kind x)})"
proof -
  obtain Q where m: "pmid {} {} Q p" by (rule reach_parts [OF assms(1-3)])
  have "ops_on (pview {} (p_th p)) s = {t. \<exists>x. p_th p t = Some x \<and> \<not> pt_done x \<and> pt_sock x = Some s \<and> op_on_sock (pt_kind x)}"
    by (auto simp: ops_on_def pview_Some)
  with locs_parts(5) [OF pmid_parts(4) [OF m]] assms(4) show ?thesis by (simp add: infl_inv_def)
qed

theorem pool_inflight_exact_witness:
  "int (card {t. \<exists>x. p_th pool_taken t = Some x \<and> \<not> pt_done x \<and> pt_sock x = Some 2 \<and> op_on_sock (pt_kind x)}) = 2"
proof -
  have y: "p_sh pool_taken 2 = Some ((pool_sock0 demo_fd)\<lparr>ps_inflight := 2, ps_wq := \<lparr>wq_head = Some 3, wq_tail = Some 4\<rparr>\<rparr>)"
    and u: "p_user pool_taken \<noteq> U_gone" by (subst pool_taken_eq, simp)+
  from pool_inflight_exact [OF demo_gai_ok pool_taken_reach u y] show ?thesis by simp
qed

text \<open>
  A close worker that sleeps has a reason to: the socket it closes still has operations
  in flight. Every completion wakes it, so it never sleeps on a drained socket.
\<close>

theorem pool_close_waits:
  assumes "gai_ok os" and "pool_reach os p" and "p_user p \<noteq> U_gone" and "w < p_nw p" and "p_w p w = W_drain_wait t"
  shows "\<exists>s u x. pt_sock (pt p t) = Some s \<and> p_th p u = Some x \<and> \<not> pt_done x \<and> pt_sock x = Some s \<and> op_on_sock (pt_kind x)"
proof -
  obtain Q where m: "pmid {} {} Q p" "pdrain p" by (rule reach_parts [OF assms(1-3)])
  from m(2) assms(4,5) obtain x s y where x: "p_th p t = Some x" "pt_sock x = Some s" "p_sh p s = Some y" "0 < ps_inflight y"
    unfolding pdrain_def by blast
  then have "0 < card (ops_on (pview {} (p_th p)) s)" using locs_parts(5) [OF pmid_parts(4) [OF m(1)]] by (simp add: infl_inv_def)
  then obtain u k where "pview {} (p_th p) u = Some (k, Some s)" "op_on_sock k" by (auto simp: card_gt_0_iff ops_on_def)
  with x(1,2) show ?thesis by (fastforce simp: pview_Some live_access)
qed

theorem pool_close_waits_witness:
  "\<exists>s u x. p_th pool_draining u = Some x \<and> \<not> pt_done x \<and> pt_sock (pt pool_draining 5) = Some s \<and> pt_sock x = Some s"
proof -
  have w: "p_user pool_draining \<noteq> U_gone" "1 < p_nw pool_draining" "p_w pool_draining 1 = W_drain_wait 5"
    using pool_closer_fields by (simp_all add: pool_draining_def set_w_def)
  from pool_close_waits [OF demo_gai_ok pool_draining_reach w] show ?thesis by blast
qed

text \<open>
  step answers 0 only when there is nothing left to wait for: every task of the
  instance is complete.
\<close>

theorem pool_step_idle:
  assumes "gai_ok os" and "pool_reach os p" and "p_user p \<noteq> U_gone" and "pool_step p = (Some False, p')" and "p_th p t = Some x"
  shows "pt_done x"
proof -
  obtain Q where m: "pmid {} {} Q p" by (rule reach_parts [OF assms(1-3)])
  have "p_nqueued p = 0" "p_nrunning p = 0" using assms(4) by (auto simp: pool_step_def split: if_splits)
  from quiescent [OF m this assms(5)] show ?thesis .
qed

theorem pool_step_idle_witness:
  "fst (pool_step pool_canceled) = Some False \<and> pt_done ((demo_write [1])\<lparr>pt_res := r_canceled, pt_done := True\<rparr>)"
proof -
  have s: "pool_step pool_canceled = (Some False, pool_canceled\<lparr>p_user := U_ready\<rparr>)" and u: "p_user pool_canceled \<noteq> U_gone"
    and x: "p_th pool_canceled 3 = Some ((demo_write [1])\<lparr>pt_res := r_canceled, pt_done := True\<rparr>)"
    by (subst (1 2) pool_canceled_eq, simp add: pool_step_def) (subst pool_canceled_eq, simp)+
  from pool_step_idle [OF demo_gai_ok pool_canceled_reach u s x] s show ?thesis by simp
qed

text \<open>
  C12: A result is final. No step of a worker changes or frees a completed task: the result
  the caller reads after completion stays until the caller gives the task up.
\<close>

theorem pool_results_final:
  assumes "gai_ok os" and "pool_reach os p" and "p_user p \<noteq> U_gone" and "worker_step os p w = Some p'"
    and "p_th p t = Some x" and "pt_done x"
  shows "pool_task_done p' t \<and> pool_task_result p' t = pool_task_result p t \<and> p_th p' t \<noteq> None"
proof -
  obtain Q where m: "pmid {} {} Q p" "psd Q p" by (rule reach_parts [OF assms(1-3)])
  from worker_keeps_done [OF m assms(4-6)] assms(5) show ?thesis
    by (auto simp: pool_task_done_def pool_task_result_def live_access)
qed

theorem pool_results_final_witness:
  "\<exists>p'. worker_step demo_os pool_canceled 0 = Some p' \<and> pool_task_done p' 3 \<and> pool_task_result p' 3 = r_canceled"
proof -
  have w: "worker_step demo_os pool_canceled 0 = Some (worker_look demo_os pool_canceled 0)" and u: "p_user pool_canceled \<noteq> U_gone"
    and x: "p_th pool_canceled 3 = Some ((demo_write [1])\<lparr>pt_res := r_canceled, pt_done := True\<rparr>)"
    by (subst (1 2) pool_canceled_eq, simp add: worker_step_def) (subst pool_canceled_eq, simp)+
  have d: "pt_done ((demo_write [1])\<lparr>pt_res := r_canceled, pt_done := True\<rparr>)" by simp
  from pool_results_final [OF demo_gai_ok pool_canceled_reach u w x d] w x show ?thesis by (simp add: pool_task_result_def live_access)
qed

text \<open>
  C15: The fields of a task agree with each other and with the workers. Its done flag says
  whether its status is final; a pending task is started exactly when one worker has it; a
  completed task is with no worker and never a detached one; only a completed task names a
  socket in its result.
\<close>

theorem pool_task_wellformed:
  assumes "gai_ok os" and "pool_reach os p" and "p_user p \<noteq> U_gone" and "p_th p t = Some x"
  shows "(pt_done x \<longleftrightarrow> res_status (pt_res x) \<noteq> MYIO_PENDING) \<and>
    (\<not> pt_done x \<longrightarrow> (pt_started x \<longleftrightarrow> (\<exists>!w. w < p_nw p \<and> w_task (p_w p w) = Some t))) \<and>
    (pt_done x \<longrightarrow> \<not> pt_detached x \<and> (\<forall>w < p_nw p. w_task (p_w p w) \<noteq> Some t)) \<and>
    (res_ptr (pt_res x) \<noteq> None \<longrightarrow> pt_done x)"
proof -
  obtain Q where m: "pmid {} {} Q p" by (rule reach_parts [OF assms(1-3)])
  note px = ptskD [OF pmid_parts(3) [OF m] assms(4)]
  have u: "(\<exists>!w. w < p_nw p \<and> w_task (p_w p w) = Some t) \<longleftrightarrow> t \<in> held p"
    using pmid_parts(9) [OF m] unfolding held_def pthr_def by blast
  show ?thesis unfolding u using px by (auto simp: ptask_def held_def)
qed

theorem pool_task_wellformed_witness: "\<exists>!w. w < p_nw pool_taken \<and> w_task (p_w pool_taken w) = Some 3"
proof -
  have x: "p_th pool_taken 3 = Some ((demo_write [1])\<lparr>pt_started := True, pt_worker := 0\<rparr>)" and u: "p_user pool_taken \<noteq> U_gone"
    by (subst pool_taken_eq, simp)+
  have "\<not> pt_done ((demo_write [1])\<lparr>pt_started := True, pt_worker := 0\<rparr>)" by (simp add: demo_write_def pool_task0_def)
  with pool_task_wellformed [OF demo_gai_ok pool_taken_reach u x] show ?thesis by simp
qed

text \<open>
  C13: Cancelling a task that has not started succeeds at once: cancel answers 0, the task is
  complete with status CANCELED, neither the work queue nor the write FIFO of any socket
  holds it, and no worker will run it.
\<close>

theorem pool_cancel_unstarted:
  assumes "gai_ok os" and "pool_reach os p" and "p_user p = U_ready" and "t \<in> pool_handles p"
    and "\<not> pt_done (pt p t)" and "\<not> pt_started (pt p t)" and "pool_cancel os p t = (rc, p')"
  shows "rc = 0 \<and> pool_task_done p' t \<and> pool_task_result p' t = r_canceled \<and>
    (\<exists>Q. qlist p' Q \<and> t \<notin> set Q) \<and> (\<forall>w < p_nw p'. w_task (p_w p' w) \<noteq> Some t) \<and>
    (\<forall>s y. p_sh p' s = Some y \<longrightarrow> (\<exists>xs. wq_list (p_wnext p') (ps_wq y) xs \<and> t \<notin> set xs))"
proof -
  have "p_user p \<noteq> U_gone" using assms(3) by simp
  then obtain Q where m: "pmid {} {} Q p" "user_inv p (p_user p)" by (rule reach_parts [OF assms(1,2)])
  have sd: "\<not> p_shutdown p" using m(2) assms(3) by simp
  obtain x where x: "p_th p t = Some x" "\<not> pt_detached x" "pt_done x \<or> (pt_started x \<longleftrightarrow> t \<in> held p)" by (rule handle_task [OF m(1) assms(4)])
  have nd: "\<not> pt_done x" "t \<notin> held p" using assms(5,6) x by (auto simp: live_access)
  from unrun_pmid [OF m(1) _ nd(2) x(1) nd(1) sd, of os] x(2) obtain Q' where q: "pmid {} {} Q' (complete_unrun os p t)"
    "p_th (complete_unrun os p t) t = Some (x\<lparr>pt_res := r_canceled, pt_done := True\<rparr>)" by auto
  have e: "rc = 0" "p' = complete_unrun os p t" using assms(5-7) x(1) by (auto simp: pool_cancel_def live_access Let_def)
  note l = locs_parts [OF pmid_parts(4) [OF q(1)], folded e(2)]
  have v: "pview {} (p_th p') t = None" using q(2) by (simp add: e pview_def)
  have pl: "t \<notin> set Q'" "t \<notin> held p'" using place_add(3,4) [OF l(1)] v by auto
  then have w: "\<forall>w < p_nw p'. w_task (p_w p' w) \<noteq> Some t" by (auto simp: held_def)
  have f: "\<exists>xs. wq_list (p_wnext p') (ps_wq y) xs \<and> t \<notin> set xs" if y: "p_sh p' s = Some y" for s y
  proof -
    obtain xs where "wq_list (p_wnext p') (ps_wq y) xs" "set xs = writes_on (pview {} (p_th p')) s" using fifo_list [OF l(4) y] by blast
    with v show ?thesis by (auto simp: writes_on_def)
  qed
  from w pl(1) e q(2) pmid_parts(2) [OF q(1)] f show ?thesis by (auto simp: pool_task_done_def pool_task_result_def live_access)
qed

theorem pool_cancel_unstarted_witness:
  "\<exists>rc p'. pool_cancel demo_os pool_write2 4 = (rc, p') \<and> rc = 0 \<and> pool_task_result p' 4 = r_canceled \<and>
     (\<exists>Q. qlist p' Q \<and> 4 \<notin> set Q)"
proof -
  obtain rc p' where c: "pool_cancel demo_os pool_write2 4 = (rc, p')" by fastforce
  have x: "p_th pool_write2 4 = Some (demo_write [2, 3])" and u: "p_user pool_write2 = U_ready" by (subst pool_write2_eq, simp)+
  have h: "4 \<in> pool_handles pool_write2" using x by (simp add: pool_handles_def demo_write_def pool_task0_def)
  from pool_cancel_unstarted [OF demo_gai_ok pool_write2_reach u h _ _ c] x c show ?thesis
    by (simp add: live_access demo_write_def pool_task0_def)
qed

text \<open>
  C11: Teardown is complete. Take the step with which destroy returns, either the call itself
  or the wait it went to sleep in. Every socket that was still live before this step has its
  descriptor closed in it and its object freed; every worker thread has ended, and every
  task object left is a completed one its caller never freed.
\<close>

theorem pool_destroy_complete:
  assumes "gai_ok os" and "pool_reach os p" and "(p_user p = U_ready \<and> p' = pool_destroy os p) \<or> user_step os p = Some p'"
    and "p_user p' = U_gone"
  shows "(\<exists>new. m_trace p' = new @ m_trace p \<and> (\<forall>s y. p_sh p s = Some y \<longrightarrow> (\<exists>a. (C_close (ps_fd y), a) \<in> set new))) \<and>
    p_sh p' = Map.empty \<and> (\<forall>w < p_nw p'. p_w p' w = W_gone) \<and> (\<forall>t x. p_th p' t = Some x \<longrightarrow> pt_done x)"
proof -
  have "pool_trans os p p'" using assms(3) by (auto intro: pool_trans.intros)
  from pool_reach_pinv [OF reach_step [OF assms(2) this] assms(1)] assms(4)
  have e: "p_sh p' = Map.empty \<and> (\<forall>w < p_nw p'. p_w p' w = W_gone) \<and> (\<forall>t x. p_th p' t = Some x \<longrightarrow> pt_done x)"
    by (simp add: pinv_def pend_def)
  from destroy_returns [OF pool_reach_pinv [OF assms(2,1)] assms(3,4)] e show ?thesis by blast
qed

theorem pool_destroy_complete_witness:
  "p_sh pool_listening 2 \<noteq> None \<and> p_user pool_over = U_gone \<and> p_sh pool_over = Map.empty \<and> (\<exists>a. (C_close demo_fd, a) \<in> set (m_trace pool_over))"
proof -
  have u: "p_user pool_over = U_gone" by (subst pool_over_eq) simp
  have r: "p_user pool_listening = U_ready" and y: "p_sh pool_listening 2 = Some (pool_sock0 demo_fd)" by (subst pool_listening_eq, simp)+
  from pool_destroy_complete [OF demo_gai_ok pool_listening_reach _ u] r have
    "(\<exists>new. m_trace pool_over = new @ m_trace pool_listening \<and> (\<forall>s y. p_sh pool_listening s = Some y \<longrightarrow> (\<exists>a. (C_close (ps_fd y), a) \<in> set new))) \<and>
      p_sh pool_over = Map.empty" by (simp add: pool_over_def)
  moreover have "ps_fd (pool_sock0 demo_fd) = demo_fd" by (simp add: pool_sock0_def)
  ultimately show ?thesis using y u by (metis Un_iff option.distinct(1) set_append)
qed

text \<open>
  The work queue is the write FIFO over another link field. On a well-formed queue
  pushing and removing do exactly what \<^verbatim>\<open>myio_wq_push\<close> and \<^verbatim>\<open>myio_wq_remove\<close> do to head, tail
  and links, and the counter follows the length.
\<close>

theorem pool_queue_is_wq:
  assumes "qlist p Q" and "t \<notin> set Q"
  shows "myio_wq_push (p_qnext p) (pq p) t = (Q = [], p_qnext (queue_push p t), pq (queue_push p t)) \<and>
    qlist (queue_push p t) (Q @ [t]) \<and>
    myio_wq_remove (p_qnext p) (pq p) u = Some (u \<in> set Q, p_qnext (queue_remove p u), pq (queue_remove p u)) \<and>
    qlist (queue_remove p u) (remove1 u Q)"
proof (intro conjI)
  obtain b nx q where e: "myio_wq_push (p_qnext p) (pq p) t = (b, nx, q)" by (metis prod_cases3)
  have "b \<longleftrightarrow> Q = []" using wq_push_list(2) [OF _ assms(2) e] assms(1) by (simp add: qlist_def)
  then show "myio_wq_push (p_qnext p) (pq p) t = (Q = [], p_qnext (queue_push p t), pq (queue_push p t))"
    using e queue_push_wq(1,2) [of p t] by simp
qed (rule qlist_push [OF assms] queue_remove_wq [OF assms(1)] qlist_remove(1) [OF assms(1)])+

theorem pool_queue_is_wq_witness:
  "\<exists>Q. qlist pool0 Q \<and> myio_wq_push (p_qnext pool0) (pq pool0) 7 = (True, p_qnext (queue_push pool0 7), pq (queue_push pool0 7))"
proof -
  have q: "qlist pool0 []" by (simp add: qlist_def pq_def wq_list_def)
  from pool_queue_is_wq [OF q, of 7] q show ?thesis by auto
qed

text \<open>
  C16: The deadline of a wait is exact to the nanosecond. A timeout of \<open>ms\<close> milliseconds from
  a normalised clock value gives a normalised deadline exactly that much later; the time
  left is a normalised, non-negative span of exactly the difference, and none exactly when
  the deadline has passed.
\<close>

theorem pool_deadline_exact:
  assumes "0 \<le> snd now" "snd now < 1000000000" "0 \<le> snd later" "snd later < 1000000000"
  shows "nanos (deadline_after now ms) = nanos now + int ms * 1000000 \<and>
    (case time_left (deadline_after now ms) later of
       None \<Rightarrow> nanos now + int ms * 1000000 < nanos later
     | Some r \<Rightarrow> nanos r = nanos now + int ms * 1000000 - nanos later \<and> 0 \<le> fst r \<and> 0 \<le> snd r \<and> snd r < 1000000000)"
  using deadline_nanos [OF assms(1,2), of ms] time_left_nanos [of "deadline_after now ms" later] assms(3,4)
  by (auto split: option.splits)

theorem pool_deadline_exact_witness:
  "nanos (deadline_after (5, 999000000) 1500) = 7499000000 \<and> deadline_after (5, 999000000) 1500 = (7, 499000000)"
  using pool_deadline_exact [of "(5, 999000000)" "(6, 0)" 1500] by (simp add: nanos_def deadline_after_def)




section \<open>The Zephyr backend\<close>

text \<open>
  C17: Memory safety of the Zephyr backend, in every build configuration, from the creation of
  an instance to its teardown. A program may name the handles and sockets it owns, and may
  detach a completed task only while the socket that task won, if any, is still open with no
  operation pending on it (\<open>z_droppable\<close>). Whatever calls such a program makes, and however
  the work-queue thread runs in between, no dangling or null pointer is dereferenced, nothing
  is freed twice, nothing is stored behind the end of the poll arrays, no list walk fails to
  end, and the task slab never gives out more blocks than it has; if the program then destroys
  the instance and that returns, it was safe too. (Signed sums wrap in the model; that no sum
  overflows is not claimed.)
\<close>

theorem zephyr_programs_safe:
  assumes "zkernel_ok os" and "myio_zephyr_new c os (z_boot m) = (True, z)" and "\<not> m_fault m" and "work_out (m_trace m) = {}"
    and "user_runs (zephyr_ops c os) (ucall_ok z_handles z_droppable z_usable) z cs z'"
  shows "\<not> m_fault z' \<and> card (dom (z_th z')) \<le> cfg_max_tasks c \<and> zinv c {} z' \<and>
    (\<forall>v. myio_destroy (zephyr_ops c os) z' = Some v \<longrightarrow> \<not> m_fault v \<and> z_sh v = Map.empty)"
proof -
  have i: "zinv c {} z'"
    using zephyr_safe.runs_invar [OF assms(5)] zephyr_new_inv(1) [OF z_boot_vacant [OF assms(3,4)] assms(2)] assms(1) by blast
  have "workq_ok os" using assms(1) by (simp add: zkernel_ok_def)
  from zinv_destroy(1,2) [OF this i] i show ?thesis by (auto simp: zinv_def zslabs_def myio_destroy_def)
qed

text \<open>The sample state with two writes and a timer is the work of a program that keeps to the rules.\<close>

lemma zephyr_busy_runs:
  "user_runs (zephyr_ops zcfg0 zdemo_os) (ucall_ok z_handles z_droppable z_usable) zephyr0
     [U_tcp_connect ''localhost'' 80, U_sock_write 11 [7, 8, 9], U_sock_write 11 [1], U_sleep 1] zephyr_busy"
  by (rule runs_cons [of _ _ _ _ zephyr_conn], simp, simp add: zephyr_conn_def,
      rule runs_cons [of _ _ _ _ zephyr_write1], simp add: z_usable_def zephyr_usable, use zephyr_write1_eq in force,
      rule runs_cons [of _ _ _ _ zephyr_write2], simp add: z_usable_def zephyr_usable, use zephyr_write2_eq in force,
      rule runs_cons [of _ _ _ _ zephyr_busy], simp, use zephyr_busy_eq in force, rule runs_nil)

theorem zephyr_programs_safe_witness:
  "\<exists>z'. user_runs (zephyr_ops zcfg0 zdemo_os) (ucall_ok z_handles z_droppable z_usable) zephyr0
     [U_tcp_connect ''localhost'' 80, U_sock_write 11 [7, 8, 9], U_sock_write 11 [1], U_sleep 1, U_cancel 14] z' \<and> \<not> m_fault z'"
proof -
  let ?ok = "ucall_ok z_handles z_droppable z_usable"
  have c: "z_cancel zcfg0 zdemo_os zephyr_busy 14 = Some (0, z_task_canceled zcfg0 zdemo_os zephyr_busy 14)"
    by (simp add: z_cancel_def zlive zephyr_states)
  have "user_runs (zephyr_ops zcfg0 zdemo_os) ?ok zephyr0
     [U_tcp_connect ''localhost'' 80, U_sock_write 11 [7, 8, 9], U_sock_write 11 [1], U_sleep 1, U_cancel 14]
     (z_task_canceled zcfg0 zdemo_os zephyr_busy 14)"
    by (rule runs_cons [of _ _ _ _ zephyr_conn], simp, simp add: zephyr_conn_def,
        rule runs_cons [of _ _ _ _ zephyr_write1], simp add: z_usable_def zephyr_usable, use zephyr_write1_eq in force,
        rule runs_cons [of _ _ _ _ zephyr_write2], simp add: z_usable_def zephyr_usable, use zephyr_write2_eq in force,
        rule runs_cons [of _ _ _ _ zephyr_busy], simp, use zephyr_busy_eq in force,
        rule runs_cons, simp add: z_handles_def zephyr_states, simp add: c, rule runs_nil)
  from zephyr_programs_safe [OF zdemo_kernel_ok zephyr0_new _ _ this] this show ?thesis by (auto simp: zmach0_def)
qed

lemma zinv_write_order:
  assumes "zinv c {} z" and "z_sh z s = Some y"
  shows "\<exists>xs ps. wq_list (z_wnext z) (zs_wq y) xs \<and> sl_list (z_pend z) ps \<and>
    set xs = {t. \<exists>x. z_th z t = Some x \<and> zt_kind x = ZTASK_SOCK_WRITE \<and> \<not> zt_done x \<and> zt_sock x = Some s} \<and>
    set xs \<inter> set ps = (if xs = [] then {} else {hd xs})"
proof -
  obtain P D L where li: "zlists {} z P D L" by (rule zinvE [OF assms(1)])
  note p = zcore_parts [OF zlists_core [OF li]]
  from zwq_list [OF p(3) assms(2)] obtain xs where xs: "wq_list (z_wnext z) (zs_wq y) xs" "set xs = zwset (z_th z) s" by blast
  have "t \<in> set P \<longleftrightarrow> xs \<noteq> [] \<and> t = hd xs" if t: "t \<in> set xs" for t
  proof -
    from t xs(2) obtain x where "z_th z t = Some x" "zt_kind x = ZTASK_SOCK_WRITE" "\<not> zt_done x" "zt_sock x = Some s"
      by (auto simp: zwset_def)
    then show ?thesis using p(7) assms(2) wq_list_head [OF xs(1)] t by (auto simp: zpset_def zhead_def)
  qed
  then have "set xs \<inter> set P = (if xs = [] then {} else {hd xs})" using hd_in_set [of xs] by auto
  moreover have "sl_list (z_pend z) P" using li by (simp add: zlists_def)
  ultimately show ?thesis using xs unfolding zwset_def by blast
qed

lemma z_sock_write_queued:
  assumes i: "zinv c {} z" and y: "z_sh z s = Some y" and xs: "wq_list (z_wnext z) (zs_wq y) xs" "xs \<noteq> []"
    and o: "z_sock_write c os z s b = Some (Some t, v)"
  shows "(\<exists>w. z_sh v s = Some w \<and> wq_list (z_wnext v) (zs_wq w) (xs @ [t])) \<and> m_trace v = m_trace z \<and> sl_head (z_pend v) = sl_head (z_pend z) \<and>
    sl_next (z_pend v) = (sl_next (z_pend z))(t := None)"
proof -
  obtain np z1 where n: "z_task_new c z ZTASK_SOCK_WRITE = (np, z1)" by fastforce
  with o obtain t' where np: "np = Some t'" by (cases np) (auto simp: z_sock_write_def)
  note tn = zinv_task_new(2) [where S = "{}", OF i n np]
  have x1: "z_th z1 t' = Some (z_task0 ZTASK_SOCK_WRITE)" and y1: "z_sh z1 s = Some y" using tn y by auto
  have f: "z_wnext z1 = (z_wnext z)(t' := None)" "m_trace z1 = m_trace z" "sl_head (z_pend z1) = sl_head (z_pend z)"
    "sl_next (z_pend z1) = (sl_next (z_pend z))(t' := None)"
    using n np by (auto simp: z_task_new_def Let_def split: if_splits)
  obtain P D L where li: "zlists {} z P D L" by (rule zinvE [OF i])
  from zwq_list [OF zcore_parts(3) [OF zlists_core [OF li]] y] obtain xs' where xs': "wq_list (z_wnext z) (zs_wq y) xs'" "set xs' = zwset (z_th z) s" by blast
  have "xs' = xs" by (rule wq_list_unique [OF xs'(1) xs(1)])
  then have t': "t' \<notin> set xs" using xs'(2) tn by (auto simp: zwset_def)
  then have l1: "wq_list (z_wnext z1) (zs_wq y) xs" using xs(1) f(1) by (simp add: wq_list_frame)
  obtain h nx q where pu: "myio_wq_push (z_wnext z1) (zs_wq y) t' = (h, nx, q)" by (cases "myio_wq_push (z_wnext z1) (zs_wq y) t'") auto
  from wq_push_list [OF l1 t' pu] xs(2) have q: "wq_list nx q (xs @ [t'])" "\<not> h" by simp_all
  have "t = t' \<and> v = upd_zs s (\<lambda>y. y\<lparr>zs_wq := q\<rparr>) ((upd_zt t' (\<lambda>x. x\<lparr>zt_sock := Some s, zt_cbuf := b, zt_len := length b\<rparr>) z1)\<lparr>z_wnext := nx\<rparr>)"
    using o n np y1 x1 pu q(2)
    by (auto simp: z_sock_write_def chk_zs_def zs_def z_wq_push_def upd_zt_def Let_def split: if_splits)
  then show ?thesis using y1 x1 q(1) f by (auto simp: upd_zs_def upd_zt_def)
qed

text \<open>
  C18: Per-socket write order of the Zephyr backend. In every state that a program which
  keeps to the rules reaches, the write FIFO of a live socket holds exactly its pending
  writes, and of these the head alone is on the list of operations the loop polls: the
  sends of two writes on one socket never interleave. A write submitted while others are
  pending goes to the end of the FIFO, sends nothing and does not join that list.
\<close>

theorem zephyr_write_order:
  assumes "zkernel_ok os" and "myio_zephyr_new c os (z_boot m) = (True, z)" and "\<not> m_fault m" and "work_out (m_trace m) = {}"
    and "user_runs (zephyr_ops c os) (ucall_ok z_handles z_droppable z_usable) z cs z'" and "z_sh z' s = Some y"
  shows "\<exists>xs ps. wq_list (z_wnext z') (zs_wq y) xs \<and> sl_list (z_pend z') ps \<and>
    set xs = {t. \<exists>x. z_th z' t = Some x \<and> zt_kind x = ZTASK_SOCK_WRITE \<and> \<not> zt_done x \<and> zt_sock x = Some s} \<and>
    set xs \<inter> set ps = (if xs = [] then {} else {hd xs}) \<and>
    (\<forall>b t v. xs \<noteq> [] \<and> z_sock_write c os z' s b = Some (Some t, v) \<longrightarrow>
       (\<exists>w. z_sh v s = Some w \<and> wq_list (z_wnext v) (zs_wq w) (xs @ [t])) \<and> m_trace v = m_trace z' \<and>
       sl_head (z_pend v) = sl_head (z_pend z') \<and> sl_next (z_pend v) = (sl_next (z_pend z'))(t := None))"
proof -
  have i: "zinv c {} z'"
    using zephyr_safe.runs_invar [OF assms(5)] zephyr_new_inv(1) [OF z_boot_vacant [OF assms(3,4)] assms(2)] assms(1) by blast
  from zinv_write_order [OF i assms(6)] z_sock_write_queued [OF i assms(6)] show ?thesis by blast
qed

theorem zephyr_write_order_witness:
  "\<exists>xs ps. wq_list (z_wnext zephyr_busy) (zs_wq zsock_demo) xs \<and> sl_list (z_pend zephyr_busy) ps \<and> {12, 13} \<subseteq> set xs \<and>
     set xs \<inter> set ps = {hd xs}"
proof -
  have y: "z_sh zephyr_busy 11 = Some zsock_demo" by (simp add: zephyr_states)
  have w: "12 \<in> {t. \<exists>x. z_th zephyr_busy t = Some x \<and> zt_kind x = ZTASK_SOCK_WRITE \<and> \<not> zt_done x \<and> zt_sock x = Some 11}"
    "13 \<in> {t. \<exists>x. z_th zephyr_busy t = Some x \<and> zt_kind x = ZTASK_SOCK_WRITE \<and> \<not> zt_done x \<and> zt_sock x = Some 11}"
    by (simp_all add: zephyr_states zwrite_demo_def)
  from zephyr_write_order [OF zdemo_kernel_ok zephyr0_new _ _ zephyr_busy_runs y] obtain xs ps
    where x: "wq_list (z_wnext zephyr_busy) (zs_wq zsock_demo) xs" "sl_list (z_pend zephyr_busy) ps"
    "set xs = {t. \<exists>x. z_th zephyr_busy t = Some x \<and> zt_kind x = ZTASK_SOCK_WRITE \<and> \<not> zt_done x \<and> zt_sock x = Some 11}"
    "set xs \<inter> set ps = (if xs = [] then {} else {hd xs})" by (auto simp: zmach0_def)
  then have "{12, 13} \<subseteq> set xs" using w by blast
  moreover from this have "xs \<noteq> []" by auto
  ultimately show ?thesis using x(1,2,4) by (intro exI [of _ xs] exI [of _ ps]) simp
qed

text \<open>
  C24: The send loop of the Zephyr backend always ends when the stack takes at least one
  byte of a non-empty buffer or fails, and it is exact: it puts the next bytes of the
  task's buffer on the connection, in order and once, counts them in \<^verbatim>\<open>off\<close>, and reports the
  write as finished just when the whole buffer is out; otherwise it can be resumed.
\<close>

theorem zephyr_send_exact:
  assumes "send_advances os" and "send_errors os" and "z_th z t = Some x" and "zt_sock x = Some s" and "z_sh z s = Some y"
    and "zt_len x = length (zt_cbuf x)" and "zt_off x \<le> zt_len x"
  shows "\<exists>r n z'. z_write_try os z t = Some (r, z') \<and> z_th z' t = Some (x\<lparr>zt_off := n\<rparr>) \<and> zt_off x \<le> n \<and>
    wire (zs_fd y) (m_trace z') = wire (zs_fd y) (m_trace z) @ take (n - zt_off x) (drop (zt_off x) (zt_cbuf x)) \<and>
    (r = 0 \<longleftrightarrow> zt_len x \<le> n) \<and>
    (r = 0 \<longrightarrow> wire (zs_fd y) (m_trace z') = wire (zs_fd y) (m_trace z) @ drop (zt_off x) (zt_cbuf x))"
proof -
  from z_write_try_exact [OF assms(1,2,4,6,3,5) refl] obtain r n z' where w: "z_write_try os z t = Some (r, z')" "zt_off x \<le> n"
    "z_th z' t = Some (x\<lparr>zt_off := n\<rparr>)"
    "wire (zs_fd y) (m_trace z') = wire (zs_fd y) (m_trace z) @ take (n - zt_off x) (drop (zt_off x) (zt_cbuf x))"
    "r = 0 \<longleftrightarrow> length (zt_cbuf x) \<le> n" by blast
  then show ?thesis using assms(6) by (intro exI [of _ r] exI [of _ n] exI [of _ z']) auto
qed

theorem zephyr_send_exact_witness:
  "\<exists>r n z'. z_write_try zdemo_os zephyr_busy 13 = Some (r, z') \<and>
     wire 3 (m_trace z') = wire 3 (m_trace zephyr_busy) @ take n [1] \<and> (r = 0 \<longleftrightarrow> 1 \<le> n)"
proof -
  have x: "z_th zephyr_busy 13 = Some (zwrite_demo [1])" and y: "z_sh zephyr_busy 11 = Some zsock_demo" by (simp_all add: zephyr_states)
  have "zt_sock (zwrite_demo [1]) = Some 11" "zt_len (zwrite_demo [1]) = length (zt_cbuf (zwrite_demo [1]))"
    "zt_off (zwrite_demo [1]) \<le> zt_len (zwrite_demo [1])" by (simp_all add: zwrite_demo_def z_task0_def)
  from zephyr_send_exact [OF zdemo_sends x this(1) y this(2,3)] show ?thesis
    by (auto simp: zwrite_demo_def z_task0_def zsock_demo_def)
qed

text \<open>
  C19: The poll set of one turn of the Zephyr loop. Filling it changes nothing and stays
  inside the arrays; it has one entry for every pending operation that waits for its
  socket, no other, with the socket's descriptor and the right events, and the deadline
  found is the earliest of the pending timers (\<^verbatim>\<open>INT64_MAX\<close> without one), so the poll never
  sleeps past a timer.
\<close>

theorem zephyr_poll_set:
  assumes "zinv c {} z" and "z_scan c (m_brk z) z (sl_head (z_pend z)) [] [] INT64_MAX = ((fds, owner, dl), z')"
  shows "z' = z \<and> length fds \<le> cfg_max_tasks c \<and> distinct owner \<and>
    fds = map (\<lambda>t. (zs_fd (zs z (the (zt_sock (zt z t)))), the (z_events (zt_kind (zt z t))))) owner \<and>
    set owner = {t. \<exists>x. z_th z t = Some x \<and> \<not> zt_done x \<and> z_events (zt_kind x) \<noteq> None \<and>
      (zt_kind x = ZTASK_SOCK_WRITE \<longrightarrow> (\<exists>s. zt_sock x = Some s \<and> wq_head (zs_wq (zs z s)) = Some t))} \<and>
    (\<forall>t x. z_th z t = Some x \<and> zt_kind x = ZTASK_TIMER \<and> \<not> zt_done x \<longrightarrow> dl \<le> zt_deadline x) \<and>
    (dl = INT64_MAX \<or> (\<exists>t x. z_th z t = Some x \<and> zt_kind x = ZTASK_TIMER \<and> \<not> zt_done x \<and> dl = zt_deadline x))"
proof -
  obtain P D L where li: "zlists {} z P D L" by (rule zinvE [OF assms(1)])
  have sP: "sl_list (z_pend z) P" using li by (simp add: zlists_def)
  have P: "set P = zpset {} (z_th z) (z_sh z)" by (rule zcore_parts(7) [OF zlists_core [OF li]])
  note n = zlisted_count [OF assms(1) li]
  have e: "fds = map (zpollfd z) (filter (zpolled z) P)" "owner = filter (zpolled z) P" "dl = fold (zmin z) P INT64_MAX" "z' = z"
    using assms(2) z_scan_exact [OF li _ n(2), of "[]" "[]" c "[]" INT64_MAX] n(1) sl_list_head [OF sP] by auto
  have len: "length fds \<le> cfg_max_tasks c" using e(1) le_trans [OF length_filter_le n(1)] by simp
  have "zhead (z_sh z) t x \<longleftrightarrow> (\<exists>s. zt_sock x = Some s \<and> wq_head (zs_wq (zs z s)) = Some t)"
    if t: "z_th z t = Some x" "\<not> zt_done x" "zt_kind x = ZTASK_SOCK_WRITE" for t x
  proof -
    obtain s where s: "zt_sock x = Some s" using zinv_task [OF assms(1) t(1)] t(2,3) by (auto simp: ztask_ok_def)
    obtain y where "z_sh z s = Some y" using zwq_live [OF zcore_parts(3) [OF zlists_core [OF li]] zwset_I [of "z_th z", OF t(1,3,2) s]] by blast
    with s show ?thesis by (auto simp: zhead_def zlive)
  qed
  then have ow: "set owner = {t. \<exists>x. z_th z t = Some x \<and> \<not> zt_done x \<and> z_events (zt_kind x) \<noteq> None \<and>
      (zt_kind x = ZTASK_SOCK_WRITE \<longrightarrow> (\<exists>s. zt_sock x = Some s \<and> wq_head (zs_wq (zs z s)) = Some t))}"
    unfolding e(2) set_filter P zpset_def zpolled_def by (auto simp: zlive)
  have tm: "z_th z t = Some x \<and> zt_kind x = ZTASK_TIMER \<and> \<not> zt_done x \<longleftrightarrow> t \<in> set P \<and> zt_kind (zt z t) = ZTASK_TIMER \<and> z_th z t = Some x" for t x
    using P by (auto simp: zpset_def zlive)
  note mf = zmin_fold [where z = z and bs = P and dl = INT64_MAX, folded e(3)]
  have t1: "\<forall>t x. z_th z t = Some x \<and> zt_kind x = ZTASK_TIMER \<and> \<not> zt_done x \<longrightarrow> dl \<le> zt_deadline x"
  proof (intro allI impI)
    fix t x
    assume a: "z_th z t = Some x \<and> zt_kind x = ZTASK_TIMER \<and> \<not> zt_done x"
    then have "t \<in> set P" "zt_kind (zt z t) = ZTASK_TIMER" "zt z t = x" using tm [of t x] by (auto simp: zlive)
    with mf show "dl \<le> zt_deadline x" by auto
  qed
  have t2: "dl = INT64_MAX \<or> (\<exists>t x. z_th z t = Some x \<and> zt_kind x = ZTASK_TIMER \<and> \<not> zt_done x \<and> dl = zt_deadline x)"
  proof -
    from mf consider "dl = INT64_MAX" | t where "t \<in> set P" "zt_kind (zt z t) = ZTASK_TIMER" "zt_deadline (zt z t) = dl" by blast
    then show ?thesis
    proof cases
      case (2 t)
      from 2(1) P obtain x where "z_th z t = Some x" "\<not> zt_done x" by (auto simp: zpset_def)
      with 2 show ?thesis by (auto simp: zlive)
    qed simp
  qed
  have "distinct owner" using e(2) sl_list_distinct [OF sP] by simp
  with e(4) len ow t1 t2 show ?thesis unfolding e(1,2) zpollfd_def by auto
qed

theorem zephyr_poll_set_witness:
  "\<exists>fds owner dl. z_scan zcfg0 (m_brk zephyr_busy) zephyr_busy (sl_head (z_pend zephyr_busy)) [] [] INT64_MAX = ((fds, owner, dl), zephyr_busy) \<and>
     12 \<in> set owner \<and> 13 \<notin> set owner \<and> dl \<le> zt_deadline (zt zephyr_busy 14)"
proof -
  obtain fds owner dl z' where e: "z_scan zcfg0 (m_brk zephyr_busy) zephyr_busy (sl_head (z_pend zephyr_busy)) [] [] INT64_MAX = ((fds, owner, dl), z')"
    by (metis prod.exhaust)
  note p = zephyr_poll_set [OF zephyr_writes_inv(3) e]
  define d where "d = c_int64 (int (length (m_trace zephyr_write2)) + c_int64 1)"
  have x: "z_th zephyr_busy 12 = Some (zwrite_demo [7, 8, 9])" "z_th zephyr_busy 13 = Some (zwrite_demo [1])"
    "z_th zephyr_busy 14 = Some ((z_task0 ZTASK_TIMER)\<lparr>zt_deadline := d\<rparr>)" and y: "zs zephyr_busy 11 = zsock_demo"
    by (simp_all add: zephyr_states zlive d_def)
  have ow: "set owner = {t. \<exists>x. z_th zephyr_busy t = Some x \<and> \<not> zt_done x \<and> z_events (zt_kind x) \<noteq> None \<and>
      (zt_kind x = ZTASK_SOCK_WRITE \<longrightarrow> (\<exists>s. zt_sock x = Some s \<and> wq_head (zs_wq (zs zephyr_busy s)) = Some t))}" and z': "z' = zephyr_busy"
    using p by blast+
  have "12 \<in> set owner" "13 \<notin> set owner" unfolding ow using x(1,2) y by (simp_all add: zwrite_demo_def zsock_demo_def z_flag_defs)
  moreover have "dl \<le> zt_deadline ((z_task0 ZTASK_TIMER)\<lparr>zt_deadline := d\<rparr>)" 
  proof -
    have "\<forall>t x. z_th zephyr_busy t = Some x \<and> zt_kind x = ZTASK_TIMER \<and> \<not> zt_done x \<longrightarrow> dl \<le> zt_deadline x" using p by blast
    from this [rule_format, of 14 "(z_task0 ZTASK_TIMER)\<lparr>zt_deadline := d\<rparr>"] x(3) show ?thesis by simp
  qed
  ultimately show ?thesis using e x(3) z' by (auto simp: zlive)
qed

text \<open>
  C20: The timing of a sleep on the Zephyr backend, for a clock reading and a duration whose
  sum is below 2^63 (beyond that the deadline wraps and the sleep can end at once). In any
  later state in which the task is still as it was submitted, the sweep over the timers
  completes it, with \<open>MYIO_OK\<close>, exactly when the time is not before that sum; the sweep
  leaves every other task that is not a due timer untouched.
\<close>

theorem zephyr_sleep_exact:
  assumes "zinv c {} z" and "z_sleep c os z ms = (Some t, z1)" and "0 \<le> a_ret (os (m_trace z) C_uptime)"
    and "a_ret (os (m_trace z) C_uptime) + int ms < 2 ^ 63"
    and "zinv c {} zl" and "z_th zl t = z_th z1 t" and "z2 = z_timers c os (m_brk zl) zl (sl_head (z_pend zl)) now"
  shows "zinv c {} z2 \<and> (z_task_done z2 t \<longleftrightarrow> a_ret (os (m_trace z) C_uptime) + int ms \<le> now) \<and>
    (z_task_done z2 t \<longrightarrow> z_task_result z2 t = mk_result MYIO_OK 0 0 None) \<and>
    (\<forall>q x. z_th zl q = Some x \<and> \<not> (zt_kind x = ZTASK_TIMER \<and> \<not> zt_done x \<and> zt_deadline x \<le> now) \<longrightarrow> z_th z2 q = Some x)"
proof -
  note s = zinv_sleep [OF assms(1,2)]
  obtain x where x: "z_th z1 t = Some x" "\<not> zt_done x" "\<not> zt_detached x" using s(3) by blast
  have d: "zt_deadline x = a_ret (os (m_trace z) C_uptime) + int ms"
    using z_sleep_deadline(1) [OF assms(1,2) refl assms(3,4)] x(1) by (simp add: zlive)
  have k: "zt_kind x = ZTASK_TIMER" using assms(2) x(1)
    by (auto simp: z_sleep_def z_task_new_def Let_def sys_call_def z_pending_push_def upd_zt_def chk_zt_def z_task0_def split: if_splits)
  have sw: "z_th z2 q = Option.bind (z_th zl q) (z_fired now)" for q by (rule z_timers_sweep [OF assms(5,7)])
  obtain P D L where li: "zlists {} zl P D L" by (rule zinvE [OF assms(5)])
  have sP: "sl_list (z_pend zl) ([] @ P)" using li by (simp add: zlists_def)
  have hd: "sl_head (z_pend zl) = (if P = [] then None else Some (hd P))" using sl_list_head [OF sP] by simp
  have "zinv c {} z2" unfolding assms(7) hd using zinv_timers [OF assms(5) sP zlisted_count(2) [OF assms(5) li]] by blast
  moreover have "zt z2 t = (if zt_deadline x \<le> now then x\<lparr>zt_res := mk_result MYIO_OK 0 0 None, zt_done := True\<rparr> else x)"
    using sw [of t] x k assms(6) by (simp add: z_fired_def zt_def)
  moreover have "z_th z2 q = Some w" if "z_th zl q = Some w \<and> \<not> (zt_kind w = ZTASK_TIMER \<and> \<not> zt_done w \<and> zt_deadline w \<le> now)" for q w
    using sw [of q] that by (auto simp: z_fired_def)
  ultimately show ?thesis using x d k by (auto simp: z_task_done_def z_task_result_def split: if_splits)
qed

theorem zephyr_sleep_exact_witness:
  "\<exists>z2. z2 = z_timers zcfg0 zdemo_os (m_brk zephyr_busy) zephyr_busy (sl_head (z_pend zephyr_busy)) 9 \<and>
     zinv zcfg0 {} z2 \<and> z_th z2 12 = Some (zwrite_demo [7, 8, 9]) \<and> z_task_done z2 14 \<and> z_task_result z2 14 = mk_result MYIO_OK 0 0 None"
proof -
  have b: "z_sleep zcfg0 zdemo_os zephyr_write2 1 = (Some 14, zephyr_busy)" using zephyr_busy_eq by blast
  have u: "a_ret (zdemo_os (m_trace zephyr_write2) C_uptime) = 8" by (simp add: zdemo_os_def answer0_def zephyr_states)
  have x: "z_th zephyr_busy 12 = Some (zwrite_demo [7, 8, 9]) \<and>
      \<not> (zt_kind (zwrite_demo [7, 8, 9]) = ZTASK_TIMER \<and> \<not> zt_done (zwrite_demo [7, 8, 9]) \<and> zt_deadline (zwrite_demo [7, 8, 9]) \<le> 9)"
    by (simp add: zephyr_states zwrite_demo_def)
  from zephyr_sleep_exact [OF zephyr_writes_inv(2) b _ _ zephyr_writes_inv(3) refl refl, of 9] u x show ?thesis by simp
qed

text \<open>
  C21: Cancellation on the Zephyr backend is immediate and tells the truth: it answers 0
  exactly when the task was pending and is now completed as canceled; when it answers
  -1 the task is as it was, whatever the work-queue thread did meanwhile.
\<close>

theorem zephyr_cancel_truthful:
  assumes "workq_ok os" and "zinv c {} z" and "t \<in> z_handles z" and "myio_cancel (zephyr_ops c os) z t = Some (rc, z')"
  shows "rc \<in> {0, - 1} \<and> zinv c {} z' \<and>
    (rc = 0 \<longleftrightarrow> \<not> z_task_done z t \<and> z_task_done z' t \<and> res_status (z_task_result z' t) = MYIO_CANCELED) \<and>
    (rc = - 1 \<longrightarrow> z_task_done z' t = z_task_done z t \<and> z_task_result z' t = z_task_result z t)"
proof -
  obtain x where x: "z_th z t = Some x" "\<not> zt_detached x" using assms(3) by (auto simp: z_handles_def)
  note c = zinv_cancel [OF assms(1,2) x(1), of rc z']
  have e: "z_cancel c os z t = Some (rc, z')" using assms(4) by (simp add: myio_cancel_def)
  from c(3) [OF e] show ?thesis
  proof (elim disjE conjE)
    assume "rc = 0" "\<not> zt_done x" "zended z' t x MYIO_CANCELED"
    then show ?thesis using c(1) [OF e] x by (auto simp: zended_def z_task_done_def z_task_result_def zlive)
  next
    assume r: "rc = - 1" and m: "zmild z z'"
    obtain x' where x': "z_th z' t = Some x'" "zrest x' = zrest x" by (rule zmild_task [OF m x(1)])
    with zrest_eq(2,4) [OF x'(2)] x(1) r c(1) [OF e] show ?thesis by (auto simp: z_task_done_def z_task_result_def zlive)
  qed
qed

theorem zephyr_cancel_truthful_witness:
  "\<exists>z'. myio_cancel (zephyr_ops zcfg0 zdemo_os) zephyr_busy 13 = Some (0, z') \<and> zinv zcfg0 {} z' \<and>
     z_task_done z' 13 \<and> res_status (z_task_result z' 13) = MYIO_CANCELED"
proof -
  have x: "z_th zephyr_busy 13 = Some (zwrite_demo [1])" "z_th zephyr_busy 12 = Some (zwrite_demo [7, 8, 9])"
    and y: "z_sh zephyr_busy 11 = Some zsock_demo" "z_wnext zephyr_busy = [12 \<mapsto> 13]" by (simp_all add: zephyr_states)
  have h: "13 \<in> z_handles zephyr_busy" using x by (simp add: z_handles_def zwrite_demo_def)
  have "wq_head (zs_wq zsock_demo) = Some 12" by (simp add: zsock_demo_def)
  then have "\<exists>z'. z_cancel zcfg0 zdemo_os zephyr_busy 13 = Some (0, z')"
    using x(1) y(1) by (auto simp: z_cancel_def zlive zwrite_demo_def z_task0_def z_cancel_write_def Let_def split: option.splits)
  then obtain z' where c: "myio_cancel (zephyr_ops zcfg0 zdemo_os) zephyr_busy 13 = Some (0, z')" by (auto simp: myio_cancel_def)
  from zephyr_cancel_truthful [OF zdemo_workq_ok zephyr_writes_inv(3) h c] c show ?thesis by auto
qed

text \<open>
  C22: Closing a socket of the Zephyr backend settles everything on it at once: when
  \<open>sock_close\<close> returns a task, the socket is gone and every read, accept and write that was
  pending on it, queued writes included, is completed as canceled.
\<close>

theorem zephyr_close_cancels:
  assumes "zinv c {} z" and "s \<in> z_usable z" and "z_sock_close c os z s = (Some t, z')" and "q \<in> z_handles z"
    and "z_th z q = Some x" and "\<not> zt_done x" and "zt_kind x \<in> {ZTASK_SOCK_READ, ZTASK_ACCEPT, ZTASK_SOCK_WRITE}" and "zt_sock x = Some s"
  shows "zinv c {} z' \<and> z_sh z' s = None \<and> z_task_done z' q \<and> z_task_result z' q = mk_result MYIO_CANCELED 0 0 None"
proof -
  have u: "zusable z s" using assms(2) by (simp add: z_usable_def)
  note sc = zinv_sock_close(1) [OF assms(1) u, of os] zinv_sock_close(2) [OF assms(1) u, of os t]
  have "\<not> zt_detached x" using assms(4,5) by (auto simp: z_handles_def)
  then have "z_th z' q = Some (x\<lparr>zt_res := mk_result MYIO_CANCELED 0 0 None, zt_done := True\<rparr>)" "z_sh z' s = None"
    using sc(2) assms(3,5-8) by (auto simp: zsevered_def)
  with sc(1) assms(3) show ?thesis by (simp add: z_task_done_def z_task_result_def zlive)
qed

theorem zephyr_close_cancels_witness:
  "\<exists>t z'. z_sock_close zcfg0 zdemo_os zephyr_busy 11 = (Some t, z') \<and> z_sh z' 11 = None \<and>
     z_task_done z' 13 \<and> z_task_result z' 13 = mk_result MYIO_CANCELED 0 0 None"
proof -
  have x: "z_th zephyr_busy 13 = Some (zwrite_demo [1])" by (simp add: zephyr_states)
  have h: "13 \<in> z_handles zephyr_busy" using x by (simp add: z_handles_def zwrite_demo_def)
  have u: "11 \<in> z_usable zephyr_busy" by (simp add: z_usable_def zephyr_usable)
  have "z_ntask zephyr_busy = 4" using zephyr_busy_eq by (auto dest: arg_cong [of _ _ z_ntask])
  then have "fst (z_sock_close zcfg0 zdemo_os zephyr_busy 11) \<noteq> None"
    by (simp add: z_sock_close_def z_task_new_def Let_def zcfg0_def split: prod.splits)
  then obtain t z' where c: "z_sock_close zcfg0 zdemo_os zephyr_busy 11 = (Some t, z')"
    by (cases "z_sock_close zcfg0 zdemo_os zephyr_busy 11") auto
  from zephyr_close_cancels [OF zephyr_writes_inv(3) u c h x] c show ?thesis by (simp add: zwrite_demo_def)
qed

text \<open>
  C23: \<open>destroy\<close> of the Zephyr backend, if it returns, has left no socket object and no pending
  or detached task behind, and the static instance can be used again: as soon as the
  system gives out an eventfd, \<open>myio_zephyr_new\<close> succeeds, and the instance it sets up on
  what is left satisfies the invariant.
\<close>

theorem zephyr_destroy_complete:
  assumes "workq_ok os" and "zinv c {} z" and "z_destroy c os z = Some z'"
  shows "\<not> m_fault z' \<and> z_sh z' = Map.empty \<and> z_nsock z' = 0 \<and> {t. \<exists>x. z_th z' t = Some x \<and> (\<not> zt_done x \<or> zt_detached x)} = {} \<and>
    \<not> z_in_use z' \<and> (0 \<le> a_ret (os (m_trace z') C_eventfd) \<longrightarrow> (\<exists>z''. myio_zephyr_new c os z' = (True, z'') \<and> zinv c {} z''))"
proof -
  note d = zinv_destroy [OF assms]
  have "z_nsock z' = 0" "\<not> m_fault z'" using d(1,2) by (auto simp: zinv_def zslabs_def)
  moreover have "\<not> zt_detached x" if "z_th z' t = Some x" for t x
    using zinv_task [OF d(1) that] d(3) [OF that] by (simp add: ztask_ok_def)
  moreover have "\<exists>z''. myio_zephyr_new c os z' = (True, z'') \<and> zinv c {} z''" if e: "0 \<le> a_ret (os (m_trace z') C_eventfd)"
  proof -
    have "fst (myio_zephyr_new c os z')" using d(4) e by (simp add: myio_zephyr_new_def z_call_def sys_call_def Let_def)
    then obtain z'' where n: "myio_zephyr_new c os z' = (True, z'')" by (cases "myio_zephyr_new c os z'") auto
    with zephyr_new_inv(1) [OF z_destroy_vacant [OF assms] n] show ?thesis by blast
  qed
  ultimately show ?thesis using d(2,3,4) by auto
qed

theorem zephyr_destroy_complete_witness:
  "\<exists>z' z''. z_destroy zcfg0 zdemo_os zephyr_conn = Some z' \<and> z_sh z' = Map.empty \<and> z_nsock z' = 0 \<and> \<not> m_fault z' \<and>
     myio_zephyr_new zcfg0 zdemo_os z' = (True, z'') \<and> zinv zcfg0 {} z''"
proof -
  have "sl_head (z_pend zephyr_conn) = None" using zephyr_conn_eq by (auto dest: arg_cong [of _ _ z_pend])
  then have "z_destroy_tasks zcfg0 zdemo_os zephyr_conn = Some zephyr_conn" by (subst z_destroy_tasks.simps) simp
  then obtain z' where d: "z_destroy zcfg0 zdemo_os zephyr_conn = Some z'" by (auto simp: z_destroy_def)
  have "0 \<le> a_ret (zdemo_os (m_trace z') C_eventfd)" by (simp add: zdemo_os_def demo_os_def answer0_def)
  with zephyr_destroy_complete [OF zdemo_workq_ok zephyr_conn_inv d] d show ?thesis by auto
qed




section \<open>The libuv backend\<close>

text \<open>
  C25: Memory safety of the libuv backend, and its use of libuv. A program may name the
  handles and sockets it owns, and may detach a completed task only while the socket that
  task won, if any, is still open (\<open>v_droppable\<close>). Whatever calls such a program makes on a
  new instance, with libuv keeping its documented contract and fewer than 2^32 - 1
  allocations made: no dangling or null pointer is dereferenced, nothing is freed twice,
  no list walk fails to end, and every call to libuv, those from callbacks included, is one
  libuv allows in its state: no handle is used after it was closed or closed twice, no
  request is started while it is outstanding. (Destroying the instance is a property of
  its own.)
\<close>

theorem uv_programs_safe:
  assumes "v_env os" and "m_trace m = []" and "\<not> m_fault m" and "myio_uv_new os m = (Some u, m')"
    and "user_runs (uv_ops os) (ucall_ok v_handles v_droppable v_socks) u cs u'"
  shows "\<not> m_fault u' \<and> uv_disciplined (m_trace u') \<and> vinv u'"
proof -
  have "vinv u'" using uv_safe.runs_invar [OF assms(5)] vinv_init(1) [OF assms(2-4)] assms(1) by blast
  then show ?thesis by (auto simp: vinv_def vgood_def)
qed

theorem uv_programs_safe_witness:
  "user_runs (uv_ops uv_demo_os) (ucall_ok v_handles v_droppable v_socks) uv0 uv_listen_prog uv_parked \<and>
   \<not> m_fault uv_parked \<and> uv_disciplined (m_trace uv_parked)"
proof -
  note r = uv_after_runs(1) [OF uv_progs(1), folded uv_parked_def]
  from uv_programs_safe [OF uv_demo_env _ _ uv0_new r] r show ?thesis by (simp add: uv_mach0_def)
qed

text \<open>
  C26: \<open>myio_await\<close> on the libuv backend. As long as accepts wait only on listening sockets,
  it returns only when the task has completed, with the task's own result, which is never
  pending and never the deadlock report; awaiting again returns the same result at once.
  \<open>step\<close> answers 0 only when every task the caller holds is complete.
\<close>

theorem uv_await_final:
  assumes "v_env os" and "vinv u" and "v_listens u" and "t \<in> v_handles u"
  shows "(\<forall>r u'. myio_await (uv_ops os) u t = Some (r, u') \<longrightarrow>
      vinv u' \<and> t \<in> v_handles u' \<and> v_task_done u' t \<and> r = v_task_result u' t \<and> res_status r \<noteq> MYIO_PENDING \<and>
      myio_await (uv_ops os) u' t = Some (r, u')) \<and>
    (\<forall>u'. v_step os u = Some (False, u') \<longrightarrow> v_task_done u t)"
proof (intro conjI allI impI)
  have i: "vinv u \<and> v_env os \<and> v_listens u" using assms by simp
  fix r u'
  assume a: "myio_await (uv_ops os) u t = Some (r, u')"
  note d = uv.await_returns_done [OF i assms(4) a]
  have e: "evolves (uv_ops os) (\<lambda>u. vinv u \<and> v_env os \<and> v_listens u) v_handles v_droppable u {} u'"
    using uv.await_spec [OF i assms(4) a] by simp
  then show "vinv u'" "t \<in> v_handles u'" using assms(4) by (auto simp: evolves_def)
  show "v_task_done u' t" "r = v_task_result u' t" "res_status r \<noteq> MYIO_PENDING" using d by auto
  show "myio_await (uv_ops os) u' t = Some (r, u')" using d uv.await_done [of os u' t] by simp
next
  fix u'
  assume "v_step os u = Some (False, u')"
  with uv.idle_done [of u os u' t] assms show "v_task_done u t" by simp
qed

lemma v_listens_check:
  assumes "vinv u" and "list_all (\<lambda>s. vs_accept_task (vs u s) = None) [0..<m_brk u]"
  shows "v_listens u"
proof -
  from assms(1) obtain Q where g: "vgood {} {} Q u" by (auto simp: vinv_def)
  have "vs_accept_task y = None" if y: "v_sh u s = Some y" for s y
  proof -
    have "s < m_brk u" using vcore_sock [OF vgood_core [OF g] y] by (simp add: vsock_def)
    then have "vs_accept_task (vs u s) = None" using assms(2) by (simp add: list_all_iff)
    with y show ?thesis by simp
  qed
  then show ?thesis by (auto simp: v_listens_def)
qed

lemma uv_busy_listens: "v_listens uv_busy"
  by (rule v_listens_check [OF uv_busy_inv]) code_simp

definition uv_file :: uv_io where "uv_file = uv_after [U_close 7]"

lemma uv_file_inv: "vinv uv_file" "v_listens uv_file"
proof -
  have "\<not> Option.is_none (v_exec uv_demo_os uv0 [U_close 7])" by code_simp
  from uv_after_runs(2) [OF this] show i: "vinv uv_file" by (simp add: uv_file_def)
  show "v_listens uv_file" by (rule v_listens_check [OF i]) code_simp
qed

theorem uv_await_final_witness:
  "\<exists>r u'. myio_await (uv_ops uv_demo_os) uv_file 11 = Some (r, u') \<and> \<not> v_task_done uv_file 11 \<and> v_task_done u' 11 \<and> res_status r \<noteq> MYIO_PENDING"
proof -
  have "v_handle_ok uv_file 11" "\<not> v_task_done uv_file 11" by code_simp+
  moreover have "\<not> Option.is_none (myio_await (uv_ops uv_demo_os) uv_file 11)" by code_simp
  ultimately obtain r u' where a: "myio_await (uv_ops uv_demo_os) uv_file 11 = Some (r, u')" "11 \<in> v_handles uv_file" "\<not> v_task_done uv_file 11"
    using v_handle_ok_handles by (fastforce simp: Option.is_none_def)
  from uv_await_final [OF uv_demo_env uv_file_inv a(2)] a show ?thesis by blast
qed

text \<open>
  C27: What cancelling means on the libuv backend, for a task the caller holds. A completed
  task is left alone and the answer is -1. A sleep, a socket read and an accept are
  completed as canceled at once, with answer 0. For a file operation or a function the
  answer 0 is a promise, kept by the time an await of the task returns: the result is canceled. For a connect
  that is still resolving the same answer 0 comes true as an error instead, \<^verbatim>\<open>EAI_FAIL\<close>.
\<close>

theorem uv_cancel_outcome:
  assumes "v_env os" and "vinv u" and "v_listens u" and "t \<in> v_handles u" and "myio_cancel (uv_ops os) u t = Some (rc, u')"
  shows "rc \<in> {0, - 1} \<and> (v_task_done u t \<longrightarrow> rc = - 1 \<and> u' = u) \<and>
    (\<not> v_task_done u t \<and> vt_kind (vt u t) \<in> {VTASK_TIMER, VTASK_SOCK_READ, VTASK_ACCEPT} \<longrightarrow>
       rc = 0 \<and> v_task_done u' t \<and> res_status (v_task_result u' t) = MYIO_CANCELED) \<and>
    (\<not> v_task_done u t \<and> vt_kind (vt u t) \<in> {VTASK_FS, VTASK_SPAWN} \<and> rc = 0 \<longrightarrow>
       (\<forall>r v. myio_await (uv_ops os) u' t = Some (r, v) \<longrightarrow> res_status r = MYIO_CANCELED)) \<and>
    (\<not> v_task_done u t \<and> vt_kind (vt u t) = VTASK_CONNECT \<and> \<not> vt_connecting (vt u t) \<and> rc = 0 \<longrightarrow>
       (\<forall>r v. myio_await (uv_ops os) u' t = Some (r, v) \<longrightarrow> res_status r = MYIO_ERROR \<and> res_error r = EAI_FAIL))"
proof -
  from assms(2) obtain Q where g: "vgood {} {} Q u" by (auto simp: vinv_def)
  from v_handlesD [OF assms(4)] obtain x where x: "v_th u t = Some x" "v_held x" by blast
  have o: "v_cancel os u t = (rc, u')" using assms(5) by (simp add: myio_cancel_def)
  note c = v_cancel_good [OF assms(1) g x o]
  have inv: "vinv u'" "v_listens u'" using c(1) v_listens_cancel [OF assms(3), of os t] o by (auto simp: v_turn_def vinv_def)
  have aw: "v_outcome (vt_kind x) r" if d: "v_doomed (vt_kind x) t u'" "v_th u' = v_th u" and a: "myio_await (uv_ops os) u' t = Some (r, v)" for r v
  proof -
    have h: "t \<in> v_handles u'" using x d(2) by (simp add: v_handles_def)
    have i: "vinv u' \<and> v_env os \<and> v_listens u'" using inv assms(1) by simp
    have dn: "v_task_done v t" "r = v_task_result v t" using uv.await_returns_done [OF i h a] by simp_all
    from v_doomed_await [OF assms(1) inv(1) d(1) a] dn show ?thesis by (auto simp: v_doomed_def v_task_done_def v_task_result_def)
  qed
  have fw: "\<forall>r v. myio_await (uv_ops os) u' t = Some (r, v) \<longrightarrow> v_outcome (vt_kind x) r"
    if "\<not> vt_done x" "vt_kind x \<in> {VTASK_FS, VTASK_SPAWN} \<or> vt_kind x = VTASK_CONNECT \<and> \<not> vt_connecting x" "rc = 0"
    using v_cancel_dooms [OF assms(1) g x that(1) _ that(2)] c(5) [OF that(1,2)] o that(3) aw by blast
  show ?thesis
  proof (intro conjI impI)
    show "rc \<in> {0, - 1}" by (rule c(2))
    show "rc = - 1" "u' = u" if "v_task_done u t" using c(3) that x(1) by (simp_all add: v_task_done_def)
    show "rc = 0" "v_task_done u' t" "res_status (v_task_result u' t) = MYIO_CANCELED"
      if "\<not> v_task_done u t \<and> vt_kind (vt u t) \<in> {VTASK_TIMER, VTASK_SOCK_READ, VTASK_ACCEPT}"
      using c(4) that x(1) by (simp_all add: v_task_done_def v_task_result_def)
    show "\<forall>r v. myio_await (uv_ops os) u' t = Some (r, v) \<longrightarrow> res_status r = MYIO_CANCELED"
      if "\<not> v_task_done u t \<and> vt_kind (vt u t) \<in> {VTASK_FS, VTASK_SPAWN} \<and> rc = 0"
      using fw that x(1) by (auto simp: v_task_done_def v_outcome_def)
    show "\<forall>r v. myio_await (uv_ops os) u' t = Some (r, v) \<longrightarrow> res_status r = MYIO_ERROR \<and> res_error r = EAI_FAIL"
      if "\<not> v_task_done u t \<and> vt_kind (vt u t) = VTASK_CONNECT \<and> \<not> vt_connecting (vt u t) \<and> rc = 0"
      using fw that x(1) by (auto simp: v_task_done_def v_outcome_def)
  qed
qed

theorem uv_cancel_outcome_witness:
  "\<exists>rc u'. myio_cancel (uv_ops uv_demo_os) uv_busy 11 = Some (rc, u') \<and> rc = 0 \<and> res_status (v_task_result u' 11) = MYIO_CANCELED"
proof -
  have f: "v_handle_ok uv_busy 11" "\<not> v_task_done uv_busy 11" "vt_kind (vt uv_busy 11) = VTASK_TIMER" by code_simp+
  obtain rc u' where c: "myio_cancel (uv_ops uv_demo_os) uv_busy 11 = Some (rc, u')" by (cases "v_cancel uv_demo_os uv_busy 11") (simp add: myio_cancel_def)
  from uv_cancel_outcome [OF uv_demo_env uv_busy_inv uv_busy_listens v_handle_ok_handles [OF f(1)] c] f c show ?thesis by auto
qed

text \<open>
  Closing a socket of the libuv backend settles its read and its accept at once: when
  \<open>sock_close\<close> returns a task, the read and the accept that were waiting on the socket are
  completed as canceled, the handle is closing, and the close task itself is pending.
\<close>

theorem uv_close_cancels:
  assumes "v_env os" and "vinv u" and "s \<in> v_socks u" and "v_sh u s = Some y" and "r \<in> v_handles u"
    and "vs_read_task y = Some r \<or> vs_accept_task y = Some r" and "v_sock_close os u s = (Some t, u')"
  shows "vinv u' \<and> v_task_done u' r \<and> res_status (v_task_result u' r) = MYIO_CANCELED \<and>
    ul_tcp (vl u') s = Some Tcp_closing \<and> t \<in> v_handles u' - v_handles u \<and> \<not> v_task_done u' t"
proof -
  from assms(2) obtain Q where g: "vgood {} {} Q u" by (auto simp: vinv_def)
  from v_handlesD [OF assms(5)] obtain x where x: "v_th u r = Some x" "\<not> vt_detached x" by (auto simp: v_held_def)
  note us = assms(3) [unfolded v_socks_usable [OF g]]
  from v_submit_sock_close [OF assms(1) g us assms(7)] x assms(4,6)
  obtain Q' where c: "vgood {} {} Q' u'" "v_th u t = None" "v_th u' t = Some (v_task0 VTASK_SOCK_CLOSE)" "ul_tcp (vl u') s = Some Tcp_closing"
    "v_th u' r = Some (x\<lparr>vt_res := (vt_res x)\<lparr>res_status := MYIO_CANCELED\<rparr>, vt_done := True\<rparr>)" by blast
  have "v_held (v_task0 VTASK_SOCK_CLOSE)" "\<not> vt_done (v_task0 VTASK_SOCK_CLOSE)" by (simp_all add: v_held_def v_task0_def)
  with c show ?thesis by (auto simp: vinv_def v_handles_def v_task_done_def v_task_result_def)
qed

definition uv_waiting :: uv_io where "uv_waiting = uv_after [U_tcp_listen ''0.0.0.0'' 80 8, U_tcp_accept 11]"

lemma uv_waiting_inv: "vinv uv_waiting"
proof -
  have "\<not> Option.is_none (v_exec uv_demo_os uv0 [U_tcp_listen ''0.0.0.0'' 80 8, U_tcp_accept 11])" by code_simp
  from uv_after_runs(2) [OF this] show ?thesis by (simp add: uv_waiting_def)
qed

theorem uv_close_cancels_witness:
  "\<exists>t u'. v_sock_close uv_demo_os uv_waiting 11 = (Some t, u') \<and> \<not> v_task_done uv_waiting 12 \<and> v_task_done u' 12 \<and>
     res_status (v_task_result u' 12) = MYIO_CANCELED"
proof -
  have f: "v_handle_ok uv_waiting 12" "v_sock_ok uv_waiting 11" "vs_accept_task (vs uv_waiting 11) = Some 12" "\<not> v_task_done uv_waiting 12"
    "\<not> Option.is_none (v_sh uv_waiting 11)" "\<not> Option.is_none (fst (v_sock_close uv_demo_os uv_waiting 11))" by code_simp+
  then obtain y t u' where y: "v_sh uv_waiting 11 = Some y" and c: "v_sock_close uv_demo_os uv_waiting 11 = (Some t, u')"
    by (cases "v_sock_close uv_demo_os uv_waiting 11") (auto simp: Option.is_none_def)
  have a: "vs_read_task y = Some 12 \<or> vs_accept_task y = Some 12" using f(3) y by simp
  from uv_close_cancels [OF uv_demo_env uv_waiting_inv v_sock_ok_socks [OF uv_waiting_inv f(2)] y v_handle_ok_handles [OF f(1)] a c] c f(4)
  show ?thesis by blast
qed

text \<open>
  C30: Connections of the libuv backend are accepted in the order they arrive. A connection
  that nobody waits for goes to the end of its listener's queue. An accept takes the
  connection at the front, completed at once, and leaves the others in order; when none is
  queued it waits in the listener's slot.
\<close>

theorem uv_accept_fifo:
  assumes "v_env os" and "vinv u" and "ls \<in> v_socks u" and "v_sh u ls = Some y" and "vs_accept_task y = None"
    and "wq_list (v_pnode u) (vs_pending y) ks"
  shows "(\<forall>k u1. v_sock_new os u = (Some k, u1) \<and> a_ret (fst (uv os (Uv_accept ls k) u1)) = 0 \<longrightarrow>
      (\<exists>y'. v_sh (v_connection_cb os u ls 0) ls = Some y' \<and> wq_list (v_pnode (v_connection_cb os u ls 0)) (vs_pending y') (ks @ [k]))) \<and>
    (\<forall>t u'. v_tcp_accept os u ls = (Some t, u') \<longrightarrow>
      (case ks of
         [] \<Rightarrow> \<not> v_task_done u' t \<and> vs_accept_task (vs u' ls) = Some t
       | k # r \<Rightarrow> v_task_done u' t \<and> v_task_result u' t = mk_result MYIO_OK 0 0 (Some k) \<and>
           (\<exists>y'. v_sh u' ls = Some y' \<and> wq_list (v_pnode u') (vs_pending y') r)))"
proof (intro conjI allI impI)
  from assms(2) obtain Q where g: "vgood {} {} Q u" by (auto simp: vinv_def)
  note c = vgood_core [OF g]
  have op: "tcp_is_open (vl u) ls" using assms(3) by (simp add: v_socks_def)
  have ks: "ks = Q ls" by (rule wq_list_unique [OF assms(6) vgood_queue [OF g assms(4) op]])
  {
    fix k u1
    assume n: "v_sock_new os u = (Some k, u1) \<and> a_ret (fst (uv os (Uv_accept ls k) u1)) = 0"
    then have k: "k = m_brk u" and u1: "v_sh u1 = (v_sh u)(k \<mapsto> v_sock0)" "v_pnode u1 = (v_pnode u)(k := None)"
      by (auto simp: v_sock_new_def sys_alloc_def sys_call_def uv_do_def uv_def Let_def split: if_splits)
    have fr: "v_sh u k = None" using vcore_sock [OF c, of k] k by (cases "v_sh u k") (auto simp: vsock_def)
    then have kl: "k \<noteq> ls" using assms(4) by auto
    have kk: "k \<notin> set ks" using vcore_park [OF c, of k ls] ks fr by auto
    have wl: "wq_list ((v_pnode u)(k := None)) (vs_pending y) ks" using assms(6) kk by (simp add: wq_list_frame)
    obtain b nx q where p: "myio_wq_push ((v_pnode u)(k := None)) (vs_pending y) k = (b, nx, q)"
      by (cases "myio_wq_push ((v_pnode u)(k := None)) (vs_pending y) k")
    have u2: "v_sh (snd (uv os (Uv_accept ls k) u1)) = v_sh u1" "v_pnode (snd (uv os (Uv_accept ls k) u1)) = v_pnode u1"
      by (simp_all add: uv_def sys_call_def Let_def)
    have "v_connection_cb os u ls 0 = v_pending_push (snd (uv os (Uv_accept ls k) u1)) ls k"
      using n assms(4,5) u1 u2 kl by (simp add: v_connection_cb_def vs_def chk_vs_def case_prod_beta)
    then have "v_sh (v_connection_cb os u ls 0) ls = Some (y\<lparr>vs_pending := q\<rparr>)" "v_pnode (v_connection_cb os u ls 0) = nx"
      using assms(4) u1 u2 kl p by (simp_all add: v_pending_push_def vs_def upd_vs_def)
    with wq_push_list(1) [OF wl kk p] show "\<exists>y'. v_sh (v_connection_cb os u ls 0) ls = Some y' \<and>
        wq_list (v_pnode (v_connection_cb os u ls 0)) (vs_pending y') (ks @ [k])" by auto
  }
  fix t u'
  assume o: "v_tcp_accept os u ls = (Some t, u')"
  obtain q u1 where n: "v_task_new os u VTASK_ACCEPT = (q, u1)" by fastforce
  with o assms(4,5) have q: "q = Some t" by (auto simp: v_tcp_accept_def vs_def chk_vs_def Let_def split: option.splits)
  have u1: "v_th u1 = (v_th u)(t \<mapsto> v_task0 VTASK_ACCEPT)" "v_sh u1 = v_sh u" "v_pnode u1 = v_pnode u"
    using n q by (auto simp: v_task_new_def sys_alloc_def sys_call_def Let_def split: if_splits)
  have x0: "\<not> vt_detached (v_task0 VTASK_ACCEPT)" "\<not> vt_done (v_task0 VTASK_ACCEPT)" "vt_res (v_task0 VTASK_ACCEPT) = result0" by (simp_all add: v_task0_def)
  show "case ks of
         [] \<Rightarrow> \<not> v_task_done u' t \<and> vs_accept_task (vs u' ls) = Some t
       | k # r \<Rightarrow> v_task_done u' t \<and> v_task_result u' t = mk_result MYIO_OK 0 0 (Some k) \<and>
           (\<exists>y'. v_sh u' ls = Some y' \<and> wq_list (v_pnode u') (vs_pending y') r)"
  proof (cases ks)
    case Nil
    then have "wq_head (vs_pending y) = None" using wq_list_head [OF assms(6)] by simp
    with o n q assms(4,5) u1 x0 Nil show ?thesis
      by (auto simp: v_tcp_accept_def vs_def vt_def chk_vs_def upd_vt_def upd_vs_def v_task_done_def Let_def)
  next
    case (Cons k r)
    then have h: "wq_head (vs_pending y) = Some k" using wq_list_head [OF assms(6)] by simp
    from wq_pop_list [OF assms(6)] Cons obtain nx pq where p: "myio_wq_pop (v_pnode u) (vs_pending y) = Some (if r = [] then None else Some (hd r), nx, pq)"
      "wq_list nx pq r" by auto
    let ?x = "(v_task0 VTASK_ACCEPT)\<lparr>vt_sock := Some ls, vt_res := mk_result MYIO_OK 0 0 (Some k), vt_done := True\<rparr>"
    have "v_th u' t = Some ?x \<and> v_sh u' ls = Some (y\<lparr>vs_pending := pq\<rparr>) \<and> v_pnode u' = nx"
      using o n q assms(4,5) u1 x0 h p(1)
      by (auto simp: v_tcp_accept_def vs_def vt_def chk_vs_def upd_vt_def upd_vs_def v_pending_pop_def v_task_complete_def v_task_finish_def
          v_complete_res_def result0_def mk_result_def Let_def split: if_splits)
    with Cons p(2) show ?thesis by (simp add: v_task_done_def v_task_result_def vt_def)
  qed
qed

definition uv_arrived :: uv_io where "uv_arrived = uv_after [U_tcp_listen ''0.0.0.0'' 80 8, U_step]"

lemma uv_arrived_inv: "vinv uv_arrived"
proof -
  have "\<not> Option.is_none (v_exec uv_demo_os uv0 [U_tcp_listen ''0.0.0.0'' 80 8, U_step])" by code_simp
  from uv_after_runs(2) [OF this] show ?thesis by (simp add: uv_arrived_def)
qed

theorem uv_accept_fifo_witness:
  "\<exists>t u'. v_tcp_accept uv_demo_os uv_arrived 11 = (Some t, u') \<and> v_task_result u' t = mk_result MYIO_OK 0 0 (Some 12)"
proof -
  have f: "v_sock_ok uv_arrived 11" "vs_accept_task (vs uv_arrived 11) = None" "vs_pending (vs uv_arrived 11) = \<lparr>wq_head = Some 12, wq_tail = Some 12\<rparr>"
    "v_pnode uv_arrived 12 = None" "\<not> Option.is_none (v_sh uv_arrived 11)" "\<not> Option.is_none (fst (v_tcp_accept uv_demo_os uv_arrived 11))"
    by code_simp+
  then obtain y t u' where y: "v_sh uv_arrived 11 = Some y" and c: "v_tcp_accept uv_demo_os uv_arrived 11 = (Some t, u')"
    by (cases "v_tcp_accept uv_demo_os uv_arrived 11") (auto simp: Option.is_none_def)
  have a: "vs_accept_task y = None" and w: "wq_list (v_pnode uv_arrived) (vs_pending y) [12]"
    using f(2-4) y by (simp_all add: wq_list_def)
  from uv_accept_fifo [OF uv_demo_env uv_arrived_inv v_sock_ok_socks [OF uv_arrived_inv f(1)] y a w] c show ?thesis by simp
qed

text \<open>
  C28: Teardown of the libuv backend. When a program that kept to the rules holds no task any
  more and no resolution is under way, \<open>destroy\<close>, if it returns, has touched only live
  memory, made only calls libuv allows (so the loop was empty when it was closed) and freed
  every task and socket.
\<close>

theorem uv_destroy_complete:
  assumes "v_env os" and "m_trace m = []" and "\<not> m_fault m" and "myio_uv_new os m = (Some u, m')"
    and "user_runs (uv_ops os) (ucall_ok v_handles v_droppable v_socks) u cs u'"
    and "v_handles u' = {}" and "\<forall>t. ul_req (vl u') t \<noteq> Some Rq_gai" and "myio_destroy (uv_ops os) u' = Some v"
  shows "\<not> m_fault v \<and> v_th v = Map.empty \<and> v_sh v = Map.empty \<and> uv_disciplined (m_trace v)"
proof -
  have i: "vinv u'" using uv_safe.runs_invar [OF assms(5)] vinv_init(1) [OF assms(2-4)] assms(1) by blast
  have "v_destroy os u' = Some v" using assms(8) by (simp add: myio_destroy_def uv_ops_def)
  from v_destroy_clean [OF assms(1) i assms(6) _ this] assms(7) show ?thesis by simp
qed

definition uv_listening :: uv_io where "uv_listening = uv_after [U_tcp_listen ''0.0.0.0'' 80 8]"

lemma uv_listening_runs:
  "user_runs (uv_ops uv_demo_os) (ucall_ok v_handles v_droppable v_socks) uv0 [U_tcp_listen ''0.0.0.0'' 80 8] uv_listening" "vinv uv_listening"
proof -
  have "\<not> Option.is_none (v_exec uv_demo_os uv0 [U_tcp_listen ''0.0.0.0'' 80 8])" by code_simp
  from uv_after_runs [OF this] show "user_runs (uv_ops uv_demo_os) (ucall_ok v_handles v_droppable v_socks) uv0 [U_tcp_listen ''0.0.0.0'' 80 8] uv_listening"
    "vinv uv_listening" by (simp_all add: uv_listening_def)
qed

theorem uv_destroy_complete_witness:
  "\<exists>v. myio_destroy (uv_ops uv_demo_os) uv_listening = Some v \<and> v_sh uv_listening 11 \<noteq> None \<and> v_sh v = Map.empty \<and> \<not> m_fault v"
proof -
  have l: "list_all (\<lambda>t. \<not> v_handle_ok uv_listening t \<and> ul_req (vl uv_listening) t = None) [0..<m_brk uv_listening]"
    and d: "\<not> Option.is_none (v_destroy uv_demo_os uv_listening)" and s: "\<not> Option.is_none (v_sh uv_listening 11)" by code_simp+
  from uv_listening_runs(2) obtain Q where g: "vgood {} {} Q uv_listening" by (auto simp: vinv_def)
  note c = vgood_core [OF g]
  have n: "\<not> v_handle_ok uv_listening t \<and> ul_req (vl uv_listening) t = None" for t
  proof (cases "v_th uv_listening t")
    case None
    with vcore_no_task [OF c, of t] show ?thesis by (simp add: v_handle_ok_def)
  next
    case (Some x)
    then have "t < m_brk uv_listening" using vcore_task [OF c] by (simp add: vtask_def)
    with l show ?thesis by (simp add: list_all_iff)
  qed
  have h: "v_handles uv_listening = {}"
  proof -
    have "t \<notin> v_handles uv_listening" for t using n [of t] by (auto simp: v_handles_def v_handle_ok_def)
    then show ?thesis by blast
  qed
  from d obtain v where v: "myio_destroy (uv_ops uv_demo_os) uv_listening = Some v" by (auto simp: Option.is_none_def myio_destroy_def uv_ops_def)
  from uv_destroy_complete [OF uv_demo_env _ _ uv0_new uv_listening_runs(1) h _ v] n v s
  show ?thesis by (auto simp: uv_mach0_def Option.is_none_def)
qed





section \<open>The io_uring backend\<close>

lemma runs_exI:
  assumes "ok st c" and "exec_ucall ops st c \<noteq> None" and "\<And>st1. exec_ucall ops st c = Some st1 \<Longrightarrow> \<exists>st'. user_runs ops ok st1 cs st'"
  shows "\<exists>st'. user_runs ops ok st (c # cs) st'"
  using assms by (blast intro: runs_cons)

text \<open>
  C1: Memory safety of the io_uring backend, from the creation of an instance to its
  teardown. A program may name the handles and sockets it owns, and may detach a completed
  task only while the socket that task won, if any, is still open with no operation
  outstanding on it (\<open>uring_droppable\<close>; the next property shows that this rule is needed).
  Whatever calls such a program makes, no dangling or null pointer is dereferenced, nothing
  is freed twice, the counter of requests does not wrap, no list walk fails to end; and if the
  program then destroys the instance, that is safe too and frees every task and socket object.
\<close>

theorem uring_programs_safe:
  assumes "kernel_ok os" and "myio_uring_new os m = (Some u, m')" and "\<not> m_fault m" and "ring_out (m_trace m) = {#}"
    and "user_runs (uring_ops os) (ucall_ok uring_handles uring_droppable uring_usable) u cs u'"
  shows "\<not> m_fault u' \<and> uinv {} u' \<and>
    (\<forall>v. myio_destroy (uring_ops os) u' = Some v \<longrightarrow> \<not> m_fault v \<and> u_th v = Map.empty \<and> u_sh v = Map.empty \<and> ring_out (m_trace v) = {#})"
proof -
  have i: "uinv {} u'" using uring_safe.runs_invar [OF assms(5)] uring_new_inv [OF assms(2-4)] assms(1) by blast
  have "ring_ok os" using assms(1) by (simp add: kernel_ok_def)
  from uinv_destroy [OF this i] i show ?thesis by (auto simp: uinv_def myio_destroy_def)
qed

theorem uring_programs_safe_witness:
  "\<exists>u'. user_runs (uring_ops demo_os) (ucall_ok uring_handles uring_droppable uring_usable) uring0
     [U_sleep 5, U_tcp_connect ''localhost'' 80, U_step, U_open ''f'' 0 0, U_step] u' \<and> \<not> m_fault u'"
proof -
  let ?ok = "ucall_ok uring_handles uring_droppable uring_usable"
  have "\<exists>u'. user_runs (uring_ops demo_os) ?ok uring0
     [U_sleep 5, U_tcp_connect ''localhost'' 80, U_step, U_open ''f'' 0 0, U_step] u'"
    by (intro runs_exI) (auto intro: runs_nil)
  then obtain u' where r: "user_runs (uring_ops demo_os) ?ok uring0
     [U_sleep 5, U_tcp_connect ''localhost'' 80, U_step, U_open ''f'' 0 0, U_step] u'" by blast
  with uring_programs_safe [OF demo_kernel_ok uring0_new _ _ r] show ?thesis by (auto simp: mach0_def)
qed

text \<open>The sample connection and the first write on it are the work of a program that keeps to the rules.\<close>

lemma uring_write1_runs:
  "user_runs (uring_ops demo_os) (ucall_ok uring_handles uring_droppable uring_usable) uring0
     [U_tcp_connect ''localhost'' 80, U_step, U_sock_write 3 [7, 8]] uring_write1"
proof -
  obtain tr tl sl where c: "uring_conn = \<lparr>m_trace = tr, m_brk = 4, m_fault = False, u_inflight = 0,
   u_tasks = tl, u_socks = sl,
   u_th = [2 \<mapsto> (uring_task0 TASK_CONNECT)\<lparr>ut_done := True, ut_addr := ai_addr demo_addr, ut_res := r_ok 0 (Some 3)\<rparr>],
   u_sh = [3 \<mapsto> uring_sock0 4], u_wnext = (\<lambda>_. None), u_errbuf = []\<rparr>"
    using uring_conn_eq by blast
  have "3 \<in> uring_usable uring_conn" by (simp add: c uring_usable_def xref_def uring_task0_def)
  then show ?thesis
    by - (rule runs_cons [of _ _ _ _ uring_dialing], simp, simp add: uring_dialing_def,
        rule runs_cons [of _ _ _ _ uring_conn], simp, simp add: uring_conn_def,
        rule runs_cons [of _ _ _ _ uring_write1], simp, simp add: uring_write1_def, rule runs_nil)
qed

lemma uring_write1_eq: "\<exists>tr tl sl. uring_write1 = \<lparr>m_trace = tr, m_brk = 5, m_fault = False, u_inflight = 1,
   u_tasks = tl, u_socks = sl,
   u_th = [2 \<mapsto> (uring_task0 TASK_CONNECT)\<lparr>ut_done := True, ut_addr := ai_addr demo_addr, ut_res := r_ok 0 (Some 3)\<rparr>,
     4 \<mapsto> (uring_task0 TASK_SOCK_WRITE)\<lparr>ut_wfd := 4, ut_wbuf := [7, 8], ut_sock := Some 3\<rparr>],
   u_sh = [3 \<mapsto> (uring_sock0 4)\<lparr>us_wq := \<lparr>wq_head = Some 4, wq_tail = Some 4\<rparr>\<rparr>], u_wnext = (\<lambda>_. None), u_errbuf = []\<rparr> \<and>
   ring_fifo tr = [Ud_task 4] \<and> sqe_of tr (Ud_task 4) = Some (Sqe_send 4 [7, 8])"
proof -
  obtain tr tl sl where c: "uring_conn = \<lparr>m_trace = tr, m_brk = 4, m_fault = False, u_inflight = 0,
   u_tasks = tl, u_socks = sl,
   u_th = [2 \<mapsto> (uring_task0 TASK_CONNECT)\<lparr>ut_done := True, ut_addr := ai_addr demo_addr, ut_res := r_ok 0 (Some 3)\<rparr>],
   u_sh = [3 \<mapsto> uring_sock0 4], u_wnext = (\<lambda>_. None), u_errbuf = []\<rparr>" "ring_fifo tr = []"
    using uring_conn_eq by blast
  show ?thesis unfolding uring_write1_def c(1)
    by (simp add: uring_sock_write_def uring_sock0_def uring_wq_push_def myio_wq_push_def myio_wq_empty_def
        uring_write_arm_def run_defs c(2) uring_task0_def fun_upd_idem)
qed

text \<open>
  C2: The rule on detaching is needed. A program connects, starts a write on the socket it
  won and then detaches the completed connect task, which it owns and which
  \<^verbatim>\<open>myio.h:491\<close> allows even after the result was read. The detach frees the socket under
  the write, and the completion of the write touches freed memory.
\<close>

theorem uring_detach_used:
  "user_runs (uring_ops demo_os) (ucall_ok uring_handles uring_droppable uring_usable) uring0
     [U_tcp_connect ''localhost'' 80, U_step, U_sock_write 3 [7, 8]] uring_write1 \<and>
   2 \<in> uring_handles uring_write1 \<and> uring_task_done uring_write1 2 \<and>
   m_fault (snd (uring_step demo_os (myio_task_detach (uring_ops demo_os) uring_write1 (Some 2))))"
proof -
  obtain tr tl sl where w: "uring_write1 = \<lparr>m_trace = tr, m_brk = 5, m_fault = False, u_inflight = 1,
   u_tasks = tl, u_socks = sl,
   u_th = [2 \<mapsto> (uring_task0 TASK_CONNECT)\<lparr>ut_done := True, ut_addr := ai_addr demo_addr, ut_res := r_ok 0 (Some 3)\<rparr>,
     4 \<mapsto> (uring_task0 TASK_SOCK_WRITE)\<lparr>ut_wfd := 4, ut_wbuf := [7, 8], ut_sock := Some 3\<rparr>],
   u_sh = [3 \<mapsto> (uring_sock0 4)\<lparr>us_wq := \<lparr>wq_head = Some 4, wq_tail = Some 4\<rparr>\<rparr>], u_wnext = (\<lambda>_. None), u_errbuf = []\<rparr>"
   "ring_fifo tr = [Ud_task 4]" "sqe_of tr (Ud_task 4) = Some (Sqe_send 4 [7, 8])"
    using uring_write1_eq by blast
  have h: "2 \<in> uring_handles uring_write1" "uring_task_done uring_write1 2"
    by (simp_all add: w(1) uring_handles_def uring_task_done_def ut_def uring_task0_def)
  define v where "v = uring_task_detach demo_os uring_write1 2"
  have v: "u_inflight v = 1" "u_sh v 3 = None"
    "u_th v 4 = Some ((uring_task0 TASK_SOCK_WRITE)\<lparr>ut_wfd := 4, ut_wbuf := [7, 8], ut_sock := Some 3\<rparr>)"
    "ring_fifo (m_trace v) = [Ud_task 4]" "sqe_of (m_trace v) (Ud_task 4) = Some (Sqe_send 4 [7, 8])"
    unfolding v_def w(1)
    by (simp_all add: uring_task_detach_def uring_task_reap_def uring_sock_close_now_def uring_sock_unlink_def uring_task_unlink_def
        run_defs free_ut_def free_us_def r_ok_def mk_result_def uring_task0_def uring_sock0_def w(2,3))
  define a where "a = answer0\<lparr>a_cqe := Some (Ud_task 4, 2)\<rparr>"
  define v1 where "v1 = v\<lparr>m_trace := (C_peek_cqe, a) # (C_submit_and_wait, answer0) # m_trace v, u_inflight := 0\<rparr>"
  have f: "m_fault (uring_dispatch demo_os v1 4 2)" "ring_fifo (m_trace (uring_dispatch demo_os v1 4 2)) = []"
    by (simp_all add: v1_def a_def uring_dispatch_def uring_write_finish_def uring_wq_pop_def uring_task_complete_def uring_task_finish_def
        chk_ut_def ut_def us_def upd_ut_def upd_us_def chk_us_def v uring_task0_def uring_sock0_def myio_wq_pop_def myio_wq_empty_def m_flag_def Let_def answer0_def)
  have "uring_drain demo_os 512 (v\<lparr>m_trace := (C_submit_and_wait, answer0) # m_trace v\<rparr>) = uring_drain demo_os 511 (uring_dispatch demo_os v1 4 2)"
    using v by (subst drain_numeral) (simp add: sys_call_def demo_os_def cqe_res_def uring_dec_def v1_def a_def Let_def)
  also have "\<dots> = snd (sys_call demo_os C_peek_cqe (uring_dispatch demo_os v1 4 2))"
    by (subst drain_numeral) (simp add: sys_call_def demo_os_def f(2) answer0_def Let_def)
  finally have "m_fault (snd (uring_step demo_os v))"
    using f(1) v(1) by (simp add: uring_step_def uring_drain_cqes_def CQ_ENTRIES_def) (simp add: sys_call_def Let_def demo_os_def)
  with uring_write1_runs h show ?thesis by (auto simp: myio_task_detach_def v_def)
qed

text \<open>
  C3: \<open>myio_await\<close> on the io_uring backend returns only when the task has completed, with
  the task's own result, which is final (never pending, never the deadlock report), and
  awaiting again returns the same result without touching the ring.
\<close>

theorem uring_await_final:
  assumes "ring_ok os" and "uinv {} u" and "t \<in> uring_handles u" and "myio_await (uring_ops os) u t = Some (r, u')"
  shows "uinv {} u' \<and> ut_done (ut u' t) \<and> r = ut_res (ut u' t) \<and> res_status r \<noteq> MYIO_PENDING \<and>
    myio_await (uring_ops os) u' t = Some (r, u')"
proof -
  have i: "ring_ok os \<and> uinv {} u" using assms by simp
  note d = uring.await_returns_done [OF i assms(3,4)]
  have "evolves (uring_ops os) (\<lambda>u. ring_ok os \<and> uinv {} u) uring_handles uring_droppable u {} u'"
    using uring.await_spec [OF i assms(3,4)] by simp
  then have "uinv {} u'" by (simp add: evolves_def)
  with d uring.await_done [of os u' t] show ?thesis by (auto simp: uring_task_done_def uring_task_result_def)
qed

theorem uring_await_final_witness:
  "\<exists>r u'. myio_await (uring_ops demo_os) uring_spawned 2 = Some (r, u') \<and> ut_done (ut u' 2) \<and> res_status r \<noteq> MYIO_PENDING"
proof -
  have aw: "myio_await (uring_ops demo_os) uring_spawned 2 = Some (uring_task_result uring_spawned 2, uring_spawned)"
    using uring.await_done [of demo_os uring_spawned 2] uring_spawned_facts(3) by simp
  from uring_await_final [OF demo_ring_ok uring_spawned_facts(1,2) aw] aw show ?thesis by blast
qed

lemma uinv_write_order:
  assumes "uinv {} u" and "u_sh u s = Some y"
  shows "\<exists>xs. wq_list (u_wnext u) (us_wq y) xs \<and>
    set xs = {t. \<exists>x. u_th u t = Some x \<and> ut_kind x = TASK_SOCK_WRITE \<and> ut_sock x = Some s} \<and>
    (\<forall>t \<in> set xs. \<not> ut_done (ut u t) \<and> count (ring_out (m_trace u)) (Ud_task t) = (if t = hd xs then 1 else 0))"
proof -
  note c = uinv_core [OF assms(1)]
  from wq_inv_list [OF ucore_parts(5) [OF c] assms(2)] obtain xs
    where xs: "wq_list (u_wnext u) (us_wq y) xs" "set xs = wmembers (u_th u) s" by blast
  have hd: "t \<in> set xs \<Longrightarrow> wq_head (us_wq y) = Some t \<longleftrightarrow> t = hd xs" for t
    using wq_list_head [OF xs(1)] by (cases xs) auto
  have "\<not> ut_done (ut u t) \<and> count (ring_out (m_trace u)) (Ud_task t) = (if t = hd xs then 1 else 0)"
    if t: "t \<in> set xs" for t
  proof -
    from t xs(2) obtain x where x: "u_th u t = Some x" "ut_kind x = TASK_SOCK_WRITE" "ut_sock x = Some s"
      by (auto simp: wmembers_def)
    have nd: "\<not> ut_done x" using task_invD [OF ucore_parts(1) [OF c] x(1)] x(2,3) by (auto simp: task_ok_def)
    moreover have "parked (u_sh u) t x \<longleftrightarrow> t \<noteq> hd xs" using x(2,3) assms(2) hd [OF t] by (auto simp: parked_def)
    moreover have "count (ring_out (m_trace u)) (Ud_task t) = (if ut_done x \<or> parked (u_sh u) t x then 0 else 1)"
      using ucore_parts(2) [OF c] x(1) by (auto simp: ring_inv_def)
    ultimately show ?thesis using x(1) by (simp add: ut_def)
  qed
  with xs show ?thesis unfolding wmembers_def by blast
qed

lemma sock_write_queued:
  assumes i: "uinv {} u" and y: "u_sh u s = Some y" and xs: "wq_list (u_wnext u) (us_wq y) xs" "xs \<noteq> []"
    and o: "uring_sock_write os u s b = (Some t, v)"
  shows "(\<exists>z. u_sh v s = Some z \<and> wq_list (u_wnext v) (us_wq z) (xs @ [t])) \<and> ring_out (m_trace v) = ring_out (m_trace u)"
proof -
  obtain np u1 where n: "uring_task_new os u TASK_SOCK_WRITE = (np, u1)" by fastforce
  with o obtain t' where np: "np = Some t'" by (cases np) (auto simp: uring_sock_write_def)
  note tn = uinv_task_new(2) [OF i n np]
  have y1: "u_sh u1 s = Some y" using tn y by auto
  have f: "u_wnext u1 = (u_wnext u)(t' := None)" "ring_out (m_trace u1) = ring_out (m_trace u)"
    using n np by (auto simp: uring_task_new_def uring_task_link_def sys_alloc_def sys_call_def Let_def split: if_splits)
  have x1: "u_th u1 t' = Some (uring_task0 TASK_SOCK_WRITE)" using tn by auto
  have t': "t' \<notin> set xs" using queue_len(2) [OF i y xs(1)] tn by (auto simp: wmembers_def)
  then have l1: "wq_list (u_wnext u1) (us_wq y) xs" using xs(1) f(1) by (simp add: wq_list_frame)
  obtain h nx q where pu: "myio_wq_push (u_wnext u1) (us_wq y) t' = (h, nx, q)" by (cases "myio_wq_push (u_wnext u1) (us_wq y) t'") auto
  from wq_push_list [OF l1 t' pu] xs(2) have q: "wq_list nx q (xs @ [t'])" "\<not> h" by simp_all
  have "t = t' \<and> v = upd_us s (\<lambda>y. y\<lparr>us_wq := q\<rparr>) ((upd_ut t' (\<lambda>x. x\<lparr>ut_wfd := us_fd y, ut_wbuf := b, ut_sock := Some s\<rparr>) u1)\<lparr>u_wnext := nx\<rparr>)"
    using o n np y1 x1 pu q(2)
    by (auto simp: uring_sock_write_def chk_us_def us_def uring_wq_push_def upd_ut_def split: if_splits)
  then show ?thesis using y1 x1 q(1) f(2) by (auto simp: upd_us_def upd_ut_def us_def)
qed

text \<open>
  C4: Per-socket write order of the io_uring backend. In every state that a program which
  keeps to the rules reaches, the write FIFO of a live socket holds exactly its outstanding
  writes, and of those only the head has a request in the ring, exactly one: the sends of
  two writes on one socket never overlap. A write submitted while others are outstanding
  goes to the end of the FIFO and makes no request.
\<close>

theorem uring_write_order:
  assumes "kernel_ok os" and "myio_uring_new os m = (Some u, m')" and "\<not> m_fault m" and "ring_out (m_trace m) = {#}"
    and "user_runs (uring_ops os) (ucall_ok uring_handles uring_droppable uring_usable) u cs u'" and "u_sh u' s = Some y"
  shows "\<exists>xs. wq_list (u_wnext u') (us_wq y) xs \<and>
    set xs = {t. \<exists>x. u_th u' t = Some x \<and> ut_kind x = TASK_SOCK_WRITE \<and> ut_sock x = Some s} \<and>
    (\<forall>t \<in> set xs. \<not> ut_done (ut u' t) \<and> count (ring_out (m_trace u')) (Ud_task t) = (if t = hd xs then 1 else 0)) \<and>
    (\<forall>b t v. xs \<noteq> [] \<and> uring_sock_write os u' s b = (Some t, v) \<longrightarrow>
       (\<exists>z. u_sh v s = Some z \<and> wq_list (u_wnext v) (us_wq z) (xs @ [t])) \<and> ring_out (m_trace v) = ring_out (m_trace u'))"
proof -
  have i: "uinv {} u'" using uring_safe.runs_invar [OF assms(5)] uring_new_inv [OF assms(2-4)] assms(1) by blast
  from uinv_write_order [OF i assms(6)] sock_write_queued [OF i assms(6)] show ?thesis by blast
qed

theorem uring_write_order_witness:
  "\<exists>xs v. wq_list (u_wnext uring_write1) (us_wq (us uring_write1 3)) xs \<and> 4 \<in> set xs \<and> uring_sock_write demo_os uring_write1 3 [9] = (Some 5, v) \<and>
     count (ring_out (m_trace v)) (Ud_task 5) = count (ring_out (m_trace uring_write1)) (Ud_task 5)"
proof -
  obtain tr tl sl where w: "uring_write1 = \<lparr>m_trace = tr, m_brk = 5, m_fault = False, u_inflight = 1,
   u_tasks = tl, u_socks = sl,
   u_th = [2 \<mapsto> (uring_task0 TASK_CONNECT)\<lparr>ut_done := True, ut_addr := ai_addr demo_addr, ut_res := r_ok 0 (Some 3)\<rparr>,
     4 \<mapsto> (uring_task0 TASK_SOCK_WRITE)\<lparr>ut_wfd := 4, ut_wbuf := [7, 8], ut_sock := Some 3\<rparr>],
   u_sh = [3 \<mapsto> (uring_sock0 4)\<lparr>us_wq := \<lparr>wq_head = Some 4, wq_tail = Some 4\<rparr>\<rparr>], u_wnext = (\<lambda>_. None), u_errbuf = []\<rparr>"
    using uring_write1_eq by blast
  define y where "y = (uring_sock0 4)\<lparr>us_wq := \<lparr>wq_head = Some 4, wq_tail = Some 4\<rparr>\<rparr>"
  define x where "x = (uring_task0 TASK_SOCK_WRITE)\<lparr>ut_wfd := 4, ut_wbuf := [7, 8], ut_sock := Some 3\<rparr>"
  have y: "u_sh uring_write1 3 = Some y" and x: "u_th uring_write1 4 = Some x" "ut_kind x = TASK_SOCK_WRITE" "ut_sock x = Some 3"
    by (simp_all add: w x_def y_def uring_task0_def)
  have "fst (uring_sock_write demo_os uring_write1 3 [9]) = Some 5"
    by (simp add: w uring_sock_write_def uring_sock0_def uring_wq_push_def myio_wq_push_def run_defs)
  then obtain v where v: "uring_sock_write demo_os uring_write1 3 [9] = (Some 5, v)" by (cases "uring_sock_write demo_os uring_write1 3 [9]") auto
  from uring_write_order [OF demo_kernel_ok uring0_new _ _ uring_write1_runs y] obtain xs
    where xs: "wq_list (u_wnext uring_write1) (us_wq y) xs" "set xs = {t. \<exists>x. u_th uring_write1 t = Some x \<and> ut_kind x = TASK_SOCK_WRITE \<and> ut_sock x = Some 3}"
    "\<forall>b t v. xs \<noteq> [] \<and> uring_sock_write demo_os uring_write1 3 b = (Some t, v) \<longrightarrow>
       (\<exists>z. u_sh v 3 = Some z \<and> wq_list (u_wnext v) (us_wq z) (xs @ [t])) \<and> ring_out (m_trace v) = ring_out (m_trace uring_write1)"
    by (auto simp: mach0_def)
  have m: "4 \<in> set xs" using xs(2) x by blast
  then have "xs \<noteq> []" by auto
  with xs(3) v have "ring_out (m_trace v) = ring_out (m_trace uring_write1)" by blast
  with xs(1) m v y show ?thesis by (auto simp: us_def)
qed

text \<open>
  C5: \<open>myio_cancel\<close> on the io_uring backend tells the truth: it answers 0 exactly when the
  task was pending and is now completed as canceled; otherwise it answers -1.
\<close>

theorem uring_cancel_truthful:
  assumes "ring_ok os" and "uinv {} u" and "t \<in> uring_handles u" and "myio_cancel (uring_ops os) u t = Some (rc, u')"
  shows "rc \<in> {0, - 1} \<and>
    (rc = 0 \<longleftrightarrow> \<not> ut_done (ut u t) \<and> ut_done (ut u' t) \<and> res_status (ut_res (ut u' t)) = MYIO_CANCELED)"
  using uinv_cancel(3,4) [OF assms(1-3)] assms(4) by (simp add: myio_cancel_def)

theorem uring_cancel_truthful_witness:
  "\<exists>rc u'. myio_cancel (uring_ops demo_os) uring_write2 5 = Some (rc, u') \<and> rc \<in> {0, - 1} \<and>
     (rc = 0 \<longleftrightarrow> ut_done (ut u' 5) \<and> res_status (ut_res (ut u' 5)) = MYIO_CANCELED)"
proof -
  have h: "5 \<in> uring_handles uring_write2" by (simp add: uring_write2_facts)
  then have "uring_cancel demo_os uring_write2 5 \<noteq> None"
    using uring_write2_facts(1,8-10)
    by (auto simp: uring_cancel_def chk_ut_def uring_handles_def us_def Let_def)
  then obtain rc u' where c: "myio_cancel (uring_ops demo_os) uring_write2 5 = Some (rc, u')"
    by (auto simp: myio_cancel_def)
  from uring_cancel_truthful [OF demo_ring_ok uring_write2_facts(4) h c] c uring_write2_facts(8) show ?thesis by blast
qed

text \<open>
  C6: Closing a socket of the io_uring backend settles its writes at once: when \<open>sock_close\<close>
  returns a task, every write that was queued behind the FIFO head is completed as
  canceled.
\<close>

theorem uring_close_cancels_writes:
  assumes "uinv {} u" and "s \<in> uring_usable u" and "u_sh u s = Some y"
    and "wq_list (u_wnext u) (us_wq y) (w # xs)" and "q \<in> set xs" and "q \<in> uring_handles u"
    and "uring_sock_close os u s = (Some t, u')"
  shows "ut_done (ut u' q) \<and> res_status (ut_res (ut u' q)) = MYIO_CANCELED \<and> \<not> m_fault u'"
  using close_cancels_queued [OF assms] uinv_sock_close [OF assms(1,2,7)] by (auto simp: ut_def uinv_def)

theorem uring_close_cancels_writes_witness:
  "\<exists>t u'. uring_sock_close demo_os uring_write2 3 = (Some t, u') \<and>
     ut_done (ut u' 5) \<and> res_status (ut_res (ut u' 5)) = MYIO_CANCELED"
proof -
  have "fst (uring_sock_close demo_os uring_write2 3) \<noteq> None"
    by (simp add: uring_sock_close_def uring_task_new_def sys_alloc_def sys_call_def demo_os_def answer0_def Let_def
        uring_task_fail_def split: prod.splits option.splits)
  then obtain t u' where c: "uring_sock_close demo_os uring_write2 3 = (Some t, u')"
    by (cases "uring_sock_close demo_os uring_write2 3") auto
  have q: "wq_list (u_wnext uring_write2) (us_wq \<lparr>us_fd = 4, us_read_task = None, us_accept_task = None,
     us_wq = \<lparr>wq_head = Some 4, wq_tail = Some 5\<rparr>\<rparr>) (4 # [5])" using uring_write2_queue by simp
  from uring_close_cancels_writes [OF uring_write2_facts(4,5,1) q _ _ c, of 5] c uring_write2_facts(6) show ?thesis by auto
qed

text \<open>
  The io_uring backend's \<open>step\<close> answers 0 only when there is nothing left to wait for:
  then every task of the instance is complete, so a wait loop of the interface never
  reports a deadlock for a task of this backend.
\<close>

theorem uring_step_idle:
  assumes "ring_ok os" and "uinv {} u" and "uring_step os u = (False, u')"
  shows "u' = u \<and> (\<forall>t x. u_th u t = Some x \<longrightarrow> ut_done x)"
  using uinv_step(3) [OF assms] by simp

theorem uring_step_idle_witness:
  "uring_step demo_os uring_spawned = (False, uring_spawned) \<and> 2 \<in> uring_handles uring_spawned \<and>
     {t. \<exists>x. u_th uring_spawned t = Some x \<and> \<not> ut_done x} = {}"
proof -
  obtain tr where u0: "uring0 = \<lparr>m_trace = tr, m_brk = 2, m_fault = False, u_inflight = 0, u_tasks = dl_empty,
    u_socks = dl_empty, u_th = Map.empty, u_sh = Map.empty, u_wnext = (\<lambda>_. None), u_errbuf = []\<rparr>"
    using uring0_eq by blast
  have s: "uring_step demo_os uring_spawned = (False, uring_spawned)"
    by (simp add: uring_step_def uring_spawned_def u0 uring_spawn_def run_defs)
  from uring_step_idle [OF demo_ring_ok uring_spawned_facts(1) s] s uring_spawned_facts(2) show ?thesis by blast
qed

text \<open>
  C31: \<open>myio_select\<close> on the io_uring backend returns the index of the lowest slot whose task is
  complete, and -1 only when no slot holds a task; the caller keeps every handle.
\<close>

theorem uring_select_lowest:
  assumes "ring_ok os" and "uinv {} u" and "\<forall>t. Some t \<in> set ts \<longrightarrow> t \<in> uring_handles u"
    and "myio_select (uring_ops os) u ts = Some (i, u')"
  shows "uinv {} u' \<and> uring_handles u \<subseteq> uring_handles u' \<and>
    (if \<exists>t. Some t \<in> set ts
     then 0 \<le> i \<and> nat i < length ts \<and> (\<exists>t. ts ! nat i = Some t \<and> ut_done (ut u' t)) \<and>
       (\<forall>j < nat i. \<forall>t. ts ! j = Some t \<longrightarrow> \<not> ut_done (ut u' t))
     else i = - 1 \<and> u' = u)"
proof -
  have i: "ring_ok os \<and> uinv {} u" using assms by simp
  have sp: "uinv {} u' \<and> uring_handles u \<subseteq> uring_handles u'" "uring.select_post os u' ts i"
    using uring.select_spec [OF i _ assms(4)] assms(3) by (auto simp: evolves_def)
  show ?thesis
  proof (cases "\<exists>t. Some t \<in> set ts")
    case True
    then obtain t where t: "Some t \<in> set ts" by blast
    with uring.select_pending [OF i _ _ assms(4)] assms(3) have "i \<noteq> - 1" by blast
    with sp True show ?thesis unfolding uring.select_post_def by (auto simp: uring_task_done_def)
  next
    case False
    then have ts: "set ts \<subseteq> {None}" by (metis insertI1 not_None_eq subsetI)
    then have "select_scan ops io ts n False = (None, False)" for ops :: "uring_io myio_ops" and io n
      by (induction ts arbitrary: n) auto
    with assms(4) have "i = - 1" "u' = u" by (subst (asm) myio_select.simps, simp)+
    with sp False show ?thesis by simp
  qed
qed


theorem uring_select_lowest_witness:
  "\<exists>i u'. myio_select (uring_ops demo_os) uring_spawned [None, Some 2] = Some (i, u') \<and> 0 \<le> i \<and> nat i < 2 \<and>
     (\<exists>t. [None, Some 2] ! nat i = Some t \<and> ut_done (ut u' t))"
proof -
  have s: "myio_select (uring_ops demo_os) uring_spawned [None, Some 2] = Some (1, uring_spawned)"
    using uring_spawned_facts(3) by (subst myio_select.simps) simp
  have "\<forall>t. Some t \<in> set [None, Some 2] \<longrightarrow> t \<in> uring_handles uring_spawned" using uring_spawned_facts(2) by auto
  from uring_select_lowest [OF demo_ring_ok uring_spawned_facts(1) this s] s show ?thesis by auto
qed

text \<open>
  \<open>myio_await_all\<close> on the io_uring backend, started with \<open>rc = 0\<close> as the header does,
  answers 0 exactly when every slot holds a task and every one ended \<open>MYIO_OK\<close>, and it
  returns only after all tasks of the array are complete.
\<close>

theorem uring_await_all_iff:
  assumes "ring_ok os" and "uinv {} u" and "\<forall>t. Some t \<in> set ts \<longrightarrow> t \<in> uring_handles u"
    and "myio_await_all (uring_ops os) u ts 0 = Some (rc, u')"
  shows "rc \<in> {0, - 1} \<and> (rc = 0 \<longleftrightarrow>
    (\<forall>p \<in> set ts. \<exists>t. p = Some t \<and> ut_done (ut u' t) \<and> res_status (ut_res (ut u' t)) = MYIO_OK))"
  using uring.await_all_iff [of os u ts 0 rc u'] assms
  by (auto simp: uring.all_ok_def uring_task_done_def uring_task_result_def)

theorem uring_await_all_iff_witness:
  "\<exists>rc u'. myio_await_all (uring_ops demo_os) uring_spawned [Some 2] 0 = Some (rc, u') \<and> rc = 0"
proof -
  have aw: "myio_await (uring_ops demo_os) uring_spawned 2 = Some (uring_task_result uring_spawned 2, uring_spawned)"
    using uring.await_done [of demo_os uring_spawned 2] uring_spawned_facts(3) by simp
  then obtain rc u' where a: "myio_await_all (uring_ops demo_os) uring_spawned [Some 2] 0 = Some (rc, u')"
    and u': "u' = uring_spawned" by auto
  have h: "\<forall>t. Some t \<in> set [Some 2] \<longrightarrow> t \<in> uring_handles uring_spawned" using uring_spawned_facts(2) by auto
  from uring_await_all_iff [OF demo_ring_ok uring_spawned_facts(1) h a] a u' uring_spawned_facts(3,4) show ?thesis
    by (auto simp: uring_task_done_def uring_task_result_def)
qed

text \<open>
  \<open>myio_await_timeout\<close> on the io_uring backend: every handle the caller held is still
  its own afterwards, the timer leaves nothing behind that breaks the invariant, and a
  result other than pending is the completed task's own result.
\<close>

theorem uring_await_timeout_keeps:
  assumes "ring_ok os" and "uinv {} u" and "t \<in> uring_handles u"
    and "myio_await_timeout (uring_ops os) u (Some t) ms = Some (r, u')"
  shows "uinv {} u' \<and> uring_handles u \<subseteq> uring_handles u' \<and>
    (res_status r \<noteq> MYIO_PENDING \<longrightarrow> ut_done (ut u' t) \<and> r = ut_res (ut u' t))"
proof -
  have i: "ring_ok os \<and> uinv {} u" using assms by simp
  from uring.await_timeout_spec [OF i assms(3,4)] uring.await_timeout_done [OF i assms(3,4)]
  show ?thesis by (auto simp: uring_task_done_def uring_task_result_def split: if_splits)
qed

theorem uring_await_timeout_keeps_witness:
  "\<exists>r u'. myio_await_timeout (uring_ops demo_os) uring_spawned (Some 2) 10 = Some (r, u') \<and>
     uring_handles uring_spawned \<subseteq> uring_handles u' \<and> res_status r = MYIO_OK \<and> r = ut_res (ut u' 2)"
proof -
  have aw: "myio_await_timeout (uring_ops demo_os) uring_spawned (Some 2) 10 =
      Some (uring_task_result uring_spawned 2, uring_spawned)"
    using uring.await_done [of demo_os uring_spawned 2] uring_spawned_facts(3) by (simp add: myio_await_timeout_def)
  from uring_await_timeout_keeps [OF demo_ring_ok uring_spawned_facts(1,2) aw] aw uring_spawned_facts(4) show ?thesis by simp
qed

text \<open>
  Freeing a task of the io_uring backend, pending or not, gives up that handle alone:
  when the call returns the handle is gone, every other handle the caller held is still
  there, and no completed result has changed.
\<close>

theorem uring_task_free_others:
  assumes "ring_ok os" and "uinv {} u" and "t \<in> uring_handles u" and "myio_task_free (uring_ops os) u (Some t) = Some u'"
  shows "uinv {} u' \<and> t \<notin> uring_handles u' \<and> uring_handles u - {t} \<subseteq> uring_handles u' \<and>
    (\<forall>t' \<in> uring_handles u - {t}. ut_done (ut u t') \<longrightarrow> ut_res (ut u' t') = ut_res (ut u t'))"
proof -
  have i: "ring_ok os \<and> uinv {} u" using assms by simp
  have "ops_task_free (uring_ops os) u t = Some u'" using assms(4) by (simp add: myio_task_free_def)
  from uring.free_evolves [OF i assms(3) this] show ?thesis
    by (auto simp: evolves_def uring_task_done_def uring_task_result_def)
qed

theorem uring_task_free_others_witness:
  "\<exists>u'. myio_task_free (uring_ops demo_os) uring_spawned (Some 2) = Some u' \<and> 2 \<notin> uring_handles u' \<and> uinv {} u'"
proof -
  obtain u' where f: "myio_task_free (uring_ops demo_os) uring_spawned (Some 2) = Some u'"
    using uring_spawned_facts(2,3)
    by (auto simp: myio_task_free_def uring_task_free_def uring_task_done_def chk_ut_def uring_handles_def Let_def)
  from uring_task_free_others [OF demo_ring_ok uring_spawned_facts(1,2) f] f show ?thesis by blast
qed

section \<open>The blocking backend\<close>



text \<open>
  C33: \<open>sock_write\<close> of the blocking backend is all or error: a task that ends \<open>MYIO_OK\<close> has
  put exactly the bytes of the buffer on the connection, in order and once, and reports
  their number; a task that ends in an error has put a proper prefix of them there.
\<close>

theorem sync_write_exact:
  assumes "sync_sock_write os s k buf = Some (Some t, s')" and "sy_socks s k = Some c"
  shows "(sync_task_result s' t = r_ok (int (length buf)) None \<and>
            wire (sy_fd c) (m_trace s') = wire (sy_fd c) (m_trace s) @ buf) \<or>
         (\<exists>e n. sync_task_result s' t = r_err e \<and> n < length buf \<and>
            wire (sy_fd c) (m_trace s') = wire (sy_fd c) (m_trace s) @ take n buf)"
proof -
  have at: "sync_sock_at s k = c" "sync_chk_sock s k = s" using assms(2) by (simp_all add: sync_sock_at_def sync_chk_sock_def)
  from assms(1) at obtain e s1 where lp: "sync_send_loop os (sy_fd c) buf 0 s = Some (e, s1)"
    and r: "(case e of Some err \<Rightarrow> sync_task_err os err s1
       | None \<Rightarrow> sync_task_ok os (int (length buf)) None s1) = (Some t, s')"
    by (auto simp: sync_sock_write_def)
  have res: "sync_task_res os r s1 = (Some t, s') \<Longrightarrow>
      sync_task_result s' t = r \<and> wire (sy_fd c) (m_trace s') = wire (sy_fd c) (m_trace s1)" for r
    by (auto simp: sync_task_res_def sys_alloc_def sys_call_def Let_def sync_task_result_def sync_task_at_def
        split: if_splits)
  from sync_send_loop_wire [OF lp] r show ?thesis by (cases e) (auto simp: sync_submit_defs dest!: res)
qed

definition sync_listening :: sync_io where
  "sync_listening = snd (snd (sync_tcp_listen demo_os sync0 ''::1'' 80 8))"

lemma sync_listening_sock: "\<exists>fd. sy_socks sync_listening 2 = Some \<lparr>sy_fd = fd\<rparr>"
  by (simp add: sync_listening_def sync_tcp_listen_def myio_posix_listen_def sync0_def myio_sync_new_def sys_alloc_def
      sys_call_def Let_def demo_os_def demo_addr_def answer0_def mach0_def mach.extend_def)

theorem sync_write_exact_witness:
  "\<exists>t s' c. sync_sock_write demo_os sync_listening 2 [1, 2, 3] = Some (Some t, s') \<and> sy_socks sync_listening 2 = Some c \<and>
     (wire (sy_fd c) (m_trace s') = wire (sy_fd c) (m_trace sync_listening) @ [1, 2, 3] \<or>
      (\<exists>n < length [1, 2, 3 :: byte]. wire (sy_fd c) (m_trace s') = wire (sy_fd c) (m_trace sync_listening) @ take n [1, 2, 3]))"
proof -
  obtain fd where k: "sy_socks sync_listening 2 = Some \<lparr>sy_fd = fd\<rparr>" using sync_listening_sock by blast
  from sync_send_loop_returns [OF demo_send_advances] obtain e s1
    where lp: "sync_send_loop demo_os fd [1, 2, 3] 0 sync_listening = Some (e, s1)" by blast
  have "\<exists>t s'. sync_sock_write demo_os sync_listening 2 [1, 2, 3] = Some (Some t, s')"
    using lp k by (cases e) (simp_all add: sync_sock_write_def sync_chk_sock_def sync_sock_at_def sync_submit_defs
        sync_task_res_def sys_alloc_def sys_call_def Let_def demo_os_def answer0_def)
  then obtain t s' where w: "sync_sock_write demo_os sync_listening 2 [1, 2, 3] = Some (Some t, s')" by blast
  from sync_write_exact [OF w k] w k show ?thesis by auto
qed

text \<open>
  C34: \<open>sock_write\<close> of the blocking backend returns: when every \<^verbatim>\<open>send\<close> either takes at least
  one byte or fails with something else than an interruption, the send loop ends, for
  every buffer.
\<close>

theorem sync_write_returns:
  assumes "send_advances os"
  shows "\<exists>p s'. sync_sock_write os s k buf = Some (p, s')"
proof -
  from sync_send_loop_returns [OF assms] obtain e s1
    where "sync_send_loop os (sy_fd (sync_sock_at (sync_chk_sock s k) k)) buf 0 (sync_chk_sock s k) = Some (e, s1)" by blast
  then show ?thesis
    by (simp add: sync_sock_write_def Let_def)
qed

theorem sync_write_returns_witness:
  "\<exists>p s'. sync_sock_write demo_os sync_listening 2 [1, 2, 3] = Some (p, s')"
  by (rule sync_write_returns [OF demo_send_advances])

text \<open>
  \<open>myio_join\<close> on the blocking backend always returns, with the task's final result, and
  gives up exactly that handle.
\<close>

theorem sync_join_returns:
  assumes "sync_inv s" and "t \<in> sync_handles s"
  shows "\<exists>r s'. myio_join (sync_ops os) s (Some t) = Some (r, s') \<and> r = sync_task_result s t \<and>
    res_status r \<noteq> MYIO_PENDING \<and> sync_handles s' = sync_handles s - {t} \<and> sync_inv s'"
proof -
  have aw: "myio_await (sync_ops os) s t = Some (sync_task_result s t, s)"
    using sync.await_done [of os s t] by (simp add: sync_task_done_def)
  then have j: "myio_join (sync_ops os) s (Some t) = Some (sync_task_result s t, sync_task_free s t)"
    by (simp add: myio_join_def)
  from sync.join_spec [OF assms j] have "res_status (sync_task_result s t) \<noteq> MYIO_PENDING" "sync_inv (sync_task_free s t)"
    by (auto simp: evolves_def)
  moreover have "sync_handles (sync_task_free s t) = sync_handles s - {t}"
    by (auto simp: sync_handles_def sync_task_free_def sync_free_task_def m_flag_def)
  ultimately show ?thesis using j by simp
qed

theorem sync_join_returns_witness:
  "\<exists>t s r s'. sync_open demo_os sync0 ''f'' 0 0 = (Some t, s) \<and> myio_join (sync_ops demo_os) s (Some t) = Some (r, s') \<and>
     res_status r \<noteq> MYIO_PENDING \<and> sync_handles s' = sync_handles s - {t}"
proof -
  obtain t s where o: "sync_open demo_os sync0 ''f'' 0 0 = (Some t, s)" and h: "t \<in> sync_handles s"
    by (simp add: sync_open_def sync_task_from_def sync_task_res_def sys_alloc_def sys_call_def Let_def demo_os_def
        answer0_def sync_handles_def)
  have "sync_inv s" using sync_file_grows(1) [OF sync0_inv, of demo_os "''f''" 0 0] o by (simp add: sync_grows_def)
  from sync_join_returns [OF this h, of demo_os] o show ?thesis by blast
qed

text \<open>
  C35: The descriptor accounting of \<open>wrap_fd\<close> in the blocking backend. When the socket object
  cannot be allocated the descriptor is closed. When the object is there and the task
  cannot be allocated, the call returns no handle while the descriptor stays open and
  the socket object allocated: nothing refers to them any more.
\<close>

theorem sync_wrap_fd_failure:
  assumes "sync_wrap_fd os fd s = (None, s')"
  shows "if a_ret (os (m_trace s) C_alloc) = 0
    then closed (m_trace s') = add_mset fd (closed (m_trace s)) \<and> sy_socks s' = sy_socks s
    else closed (m_trace s') = closed (m_trace s) \<and> sy_socks s' (m_brk s) = Some \<lparr>sy_fd = fd\<rparr> \<and> sy_tasks s' = sy_tasks s"
  using assms
  by (auto simp: sync_wrap_fd_def sync_task_ok_def sync_task_res_def sys_alloc_def sys_call_def Let_def split: if_splits)

definition starved_os :: os where
  "starved_os tr c = (if c = C_alloc \<and> length tr > 1 then answer0 else demo_os tr c)"

theorem sync_wrap_fd_failure_witness:
  "\<exists>s'. sync_wrap_fd starved_os 9 sync0 = (None, s') \<and> closed (m_trace s') = closed (m_trace sync0) \<and>
     sy_socks s' (m_brk sync0) = Some \<lparr>sy_fd = 9\<rparr>"
proof -
  have tr: "length (m_trace sync0) = 1"
    by (simp add: sync0_def myio_sync_new_def sys_alloc_def sys_call_def Let_def demo_os_def answer0_def mach0_def mach.extend_def)
  then have al: "a_ret (starved_os (m_trace sync0) C_alloc) \<noteq> 0" by (simp add: starved_os_def demo_os_def answer0_def)
  with tr obtain s' where w: "sync_wrap_fd starved_os 9 sync0 = (None, s')"
    by (simp add: sync_wrap_fd_def sync_task_ok_def sync_task_res_def sys_alloc_def sys_call_def Let_def
        starved_os_def answer0_def)
  from sync_wrap_fd_failure [OF w] al w show ?thesis by simp
qed

section \<open>The write FIFO, the registries, the shared helpers\<close>

text \<open>
  C36: \<open>myio_wq_remove\<close> always returns; it takes exactly the named node out, keeps everyone
  else in order, reports whether the node was queued, and leaves every other queue
  threaded through the same link fields as it was.
\<close>

theorem wq_remove_exact:
  assumes "wq_list nx q xs"
  shows "\<exists>nx' q'. myio_wq_remove nx q n = Some (n \<in> set xs, nx', q') \<and> wq_list nx' q' (remove1 n xs) \<and>
    (\<forall>r ys. wq_list nx r ys \<longrightarrow> set xs \<inter> set ys = {} \<longrightarrow> n \<notin> set ys \<longrightarrow> wq_list nx' r ys)"
proof -
  from wq_remove_list [OF assms, of n] obtain nx' q'
    where "myio_wq_remove nx q n = Some (n \<in> set xs, nx', q')" "wq_list nx' q' (remove1 n xs)" by blast
  with wq_remove_frame [OF assms] show ?thesis by blast
qed

theorem wq_remove_exact_witness:
  "\<exists>nx' q'. myio_wq_remove ((\<lambda>_. None)(4 := Some 5, 5 := Some 6)) \<lparr>wq_head = Some 4, wq_tail = Some 6\<rparr> 5 =
     Some (True, nx', q') \<and> wq_list nx' q' [4, 6]"
  using wq_remove_exact [of "(\<lambda>_. None)(4 := Some 5, 5 := Some 6)" "\<lparr>wq_head = Some 4, wq_tail = Some 6\<rparr>" "[4, 5, 6]" 5]
  by (auto simp: wq_list_def)

text \<open>
  First in, first out. Nodes pushed on an empty queue one after another come out in
  that order: each pop hands over the successor of the one that left, the last pop
  nothing.
\<close>

theorem wq_fifo_order:
  assumes "wq_list nx q []" and "distinct ns" and "wq.push_all nx q ns = (bs, nx', q')"
  shows "wq.pop_times (length ns) nx' q' = Some (map Some (tl ns) @ (if ns = [] then [] else [None]))"
  using wq.push_pop_order [OF assms] .

theorem wq_fifo_order_witness:
  "wq_list (\<lambda>_. None) myio_wq_empty [] \<and>
   (\<exists>bs nx' q'. wq.push_all (\<lambda>_. None) myio_wq_empty [4, 5, 6] = (bs, nx', q') \<and>
     wq.pop_times (length [4, 5, 6 :: addr]) nx' q' = Some (map Some [5, 6] @ [None]))"
proof -
  obtain bs nx' q' where p: "wq.push_all (\<lambda>_. None) myio_wq_empty [4, 5, 6] = (bs, nx', q')" by (metis surj_pair)
  have e: "wq_list (\<lambda>_. None) myio_wq_empty []" by simp
  from wq_fifo_order [OF e _ p] have "wq.pop_times (length [4, 5, 6 :: addr]) nx' q' = Some (map Some [5, 6] @ [None])"
    by simp
  with e p show ?thesis by blast
qed

text \<open>
  C37: The registries of live tasks and sockets. Linking a new node and unlinking any member
  changes the set of registered nodes by exactly that node, for both unlink routines the
  sources use, and on a member the two routines agree.
\<close>

theorem registry_link_unlink:
  assumes "dl_list d (as @ n # bs)" and "m \<notin> set (as @ n # bs)"
  shows "dl_list (dl_link (dl_zero d m) m) (m # as @ n # bs) \<and> dl_list (dl_unlink d n) (as @ bs) \<and>
    dl_unlink_head d n = dl_unlink d n"
  using dl_link_list [OF assms] dl_unlink_list(1) [OF assms(1)] dl_unlink_split [OF assms(1)]
  by (auto simp: dl_unlink_def dl_unlink_head_def split: option.splits)

theorem registry_link_unlink_witness:
  "dl_list (dl_unlink (dl_link (dl_zero (dl_link (dl_zero dl_empty 3) 3) 4) 4) 3) [4]"
  using registry_link_unlink [of "dl_link (dl_zero (dl_link (dl_zero dl_empty 3) 3) 4) 4" "[4]" 3 "[]" 9]
  by (simp add: dl_link_def dl_zero_def dl_empty_def dl_list_def)

text \<open>
  C38: The connect walk. It holds at most one new descriptor when it returns: the connected
  one on success, none on failure; success is a connect to one of the resolved
  addresses, failure comes only after a socket was tried for every one of them.
\<close>

theorem posix_connect_walk:
  assumes "a_ret (os (m_trace s) (C_getaddrinfo host (snprintf_d 16 port) False)) = 0"
    and "myio_posix_connect os host port s = ((fd, err), s')"
  shows "fds_gained (m_trace s) (m_trace s') (if fd \<ge> 0 then {#fd#} else {#}) \<and>
    (let ais = a_addrs (os (m_trace s) (C_getaddrinfo host (snprintf_d 16 port) False)) in
     if fd \<ge> 0
     then \<exists>i a tr. i < length ais \<and> m_trace s' = (C_connect fd (ai_addr (ais ! i)), a) # tr \<and> a_ret a = 0
     else length (filter (\<lambda>(c, a). \<exists>d t p. c = C_socket d t p) (m_trace s')) =
       length (filter (\<lambda>(c, a). \<exists>d t p. c = C_socket d t p) (m_trace s)) + length ais)"
proof -
  obtain s1 where w: "connect_walk os (a_addrs (os (m_trace s) (C_getaddrinfo host (snprintf_d 16 port) False)))
      (- 1) ECONNREFUSED s1 = ((fd, err), s')"
    and s1: "m_trace s1 = (C_getaddrinfo host (snprintf_d 16 port) False,
      os (m_trace s) (C_getaddrinfo host (snprintf_d 16 port) False)) # m_trace s"
    using assms by (auto simp: myio_posix_connect_def sys_call_def Let_def)
  show ?thesis
    using posix_connect_fds [OF assms(2)] connect_walk_first [OF w] connect_walk_tried [OF w] s1 by (auto simp: Let_def)
qed

theorem posix_connect_walk_witness:
  "\<exists>fd err s'. myio_posix_connect demo_os ''h'' 80 mach0 = ((fd, err), s') \<and>
     fds_gained (m_trace mach0) (m_trace s') (if fd \<ge> 0 then {#fd#} else {#})"
proof -
  obtain fd err s' where c: "myio_posix_connect demo_os ''h'' 80 mach0 = ((fd, err), s')" by (metis surj_pair)
  have "a_ret (demo_os (m_trace mach0) (C_getaddrinfo ''h'' (snprintf_d 16 80) False)) = 0"
    by (simp add: demo_os_def answer0_def)
  from posix_connect_walk [OF this c] c show ?thesis by blast
qed

text \<open>
  The listener setup leaks no descriptor: on every path, errors included, the
  descriptors gained are the listening one on success and none on failure.
\<close>

theorem posix_listen_no_leak:
  assumes "myio_posix_listen os host port backlog s = ((fd, err), s')"
  shows "fds_gained (m_trace s) (m_trace s') (if fd \<ge> 0 then {#fd#} else {#})"
  by (rule posix_listen_fds [OF assms])

theorem posix_listen_no_leak_witness:
  "\<exists>fd err s'. myio_posix_listen demo_os ''::1'' 80 8 mach0 = ((fd, err), s') \<and>
     fds_gained (m_trace mach0) (m_trace s') (if fd \<ge> 0 then {#fd#} else {#})"
proof -
  obtain fd err s' where c: "myio_posix_listen demo_os ''::1'' 80 8 mach0 = ((fd, err), s')" by (metis surj_pair)
  from posix_listen_no_leak [OF c] c show ?thesis by blast
qed

text \<open>
  The 16-byte service buffer of the connect and listen helpers holds every \<^verbatim>\<open>int\<close> port
  in full: the string handed to the resolver is never cut.
\<close>

theorem service_string_fits:
  assumes "- (2 ^ 31) \<le> port" and "port < 2 ^ 31"
  shows "snprintf_d 16 port = int_dec port"
  by (rule snprintf_port_fits [OF assms])

theorem service_string_fits_witness: "snprintf_d 16 (- (2 ^ 31)) = int_dec (- (2 ^ 31))"
  by (rule service_string_fits) simp_all

text \<open>
  Port round trip: the port a listener was bound to, stored in network byte order, is
  what \<open>myio_local_port\<close> reads back; a port always lies in the 16-bit range.
\<close>

theorem port_round_trip:
  assumes "fam = AF_INET \<or> fam = AF_INET6" and "0 \<le> port" and "port < 65536"
    and "a_ret (os (m_trace s) (C_getsockname fd)) = 0"
    and "a_addr (os (m_trace s) (C_getsockname fd)) = \<lparr>ss_family = fam, ss_port = htons (word_of_int port), ss_addr = h\<rparr>"
  shows "fst (myio_local_port os fd s) = port"
  using assms
  by (auto simp: myio_local_port_def sys_call_def Let_def myio_sockaddr_port_def uint_word_of_int take_bit_int_eq_self)

definition named_os :: os where
  "named_os tr c = (if c = C_getsockname 5
     then answer0\<lparr>a_addr := \<lparr>ss_family = AF_INET6, ss_port = htons 8080, ss_addr = ''::1''\<rparr>\<rparr> else demo_os tr c)"

theorem port_round_trip_witness: "fst (myio_local_port named_os 5 mach0) = 8080"
  by (rule port_round_trip [of AF_INET6 _ _ _ _ "''::1''"]) (simp_all add: named_os_def answer0_def)

text \<open>
  C39: A user function's error code survives \<open>myio_spawn\<close> of the blocking backend exactly if it
  fits an \<^verbatim>\<open>int\<close>: for a negative 64-bit return value \<open>rc\<close> other than \<open>-2\<^sup>63\<close> the task ends
  \<open>MYIO_ERROR\<close>, and its error is \<open>-rc\<close> if and only if \<open>-rc\<close> is below \<open>2\<^sup>31\<close>; a smaller \<open>rc\<close>
  leaves the low 32 bits of \<open>-rc\<close>, none for \<open>rc = -2\<^sup>32\<close>. A result that is not negative is the
  value of a task that ends \<open>MYIO_OK\<close>.
\<close>

theorem spawn_error_code:
  assumes "a_ret (os (m_trace s) (C_fn fn arg)) = rc" and "sync_spawn os s fn arg = (Some t, s')"
  shows "(- (2 ^ 63) < rc \<and> rc < 0 \<longrightarrow> res_status (sync_task_result s' t) = MYIO_ERROR \<and>
      (res_error (sync_task_result s' t) = - rc \<longleftrightarrow> - rc < 2 ^ 31) \<and>
      res_error (sync_task_result s' t) mod 2 ^ 32 = (- rc) mod 2 ^ 32) \<and>
    (0 \<le> rc \<longrightarrow> sync_task_result s' t = r_ok rc None) \<and>
    (rc = - (2 ^ 32) \<longrightarrow> sync_task_result s' t = r_err 0)"
proof -
  have c: "c_int (- rc) = - rc \<longleftrightarrow> - rc < 2 ^ 31" if "rc < 0" using c_int_id [of "- rc"] c_int_range [of "- rc"] that by auto
  have m: "c_int (- rc) mod 2 ^ 32 = (- rc) mod 2 ^ 32"
    using take_bit_signed_take_bit [of 32 31 "- rc"] by (simp add: c_int_def take_bit_eq_mod)
  have z: "c_int (2 ^ 32) = 0" by (simp add: c_int_def signed_take_bit_eq_take_bit_shift take_bit_eq_mod)
  have "sync_task_result s' t = (if rc \<ge> 0 then r_ok rc None else r_err (c_int (- rc)))"
    using assms
    by (auto simp: sync_spawn_def sync_submit_defs sync_task_res_def sys_alloc_def sys_call_def Let_def
        sync_task_result_def sync_task_at_def split: if_splits)
  with c m z show ?thesis by (auto simp: r_err_def mk_result_def)
qed

theorem spawn_error_code_witness:
  "\<exists>t s'. sync_spawn (\<lambda>tr c. if c = C_fn 1 2 then answer0\<lparr>a_ret := - 5\<rparr> else demo_os tr c) sync0 1 2 = (Some t, s') \<and>
     res_status (sync_task_result s' t) = MYIO_ERROR \<and> res_error (sync_task_result s' t) = 5"
proof -
  let ?os = "\<lambda>tr c. if c = C_fn 1 2 then answer0\<lparr>a_ret := - 5\<rparr> else demo_os tr c"
  have "fst (sync_spawn ?os sync0 1 2) \<noteq> None"
    by (simp add: sync_spawn_def sync_submit_defs sync_task_res_def sys_alloc_def sys_call_def Let_def demo_os_def answer0_def)
  then obtain t s' where sp: "sync_spawn ?os sync0 1 2 = (Some t, s')" by (cases "sync_spawn ?os sync0 1 2") auto
  have "a_ret (?os (m_trace sync0) (C_fn 1 2)) = - 5" by (simp add: answer0_def)
  from spawn_error_code [OF this sp] sp show ?thesis by auto
qed

text \<open>
  C40: \<open>myio_await_all\<close> does not skip a null slot, on any backend: an array with a null entry
  never yields 0.
\<close>

theorem await_all_null_fails:
  assumes "None \<in> set ts" and "myio_await_all ops io ts rc = Some (rc', io')"
  shows "rc' = - 1"
proof -
  have keep: "myio_await_all ops io ts (- 1) = Some (rc', io') \<Longrightarrow> rc' = - 1" for io ts
  proof (induction ts arbitrary: io)
    case (Cons p ts)
    then show ?case by (cases p) (auto split: option.splits if_splits)
  qed simp
  show ?thesis using assms
  proof (induction ts arbitrary: io rc)
    case (Cons p ts)
    then show ?case using keep by (cases p) (auto split: option.splits)
  qed simp
qed

theorem await_all_null_fails_witness: "\<exists>rc s'. myio_await_all (sync_ops demo_os) sync0 [None] 0 = Some (rc, s') \<and> rc = - 1"
  using await_all_null_fails [of "[None]" "sync_ops demo_os" sync0 0 "- 1" sync0] by simp

end
